(* ===== verification/Obus_Prelude.thy ===== *)
theory Obus_Prelude
  imports Main "HOL-Library.Word"
begin

text \<open>
  Shared vocabulary of the development: machine integer types, the C error codes and the
  result type of fallible operations, the sequencing combinator that stands for the C idiom
  \<open>if (ret < 0) return ret;\<close>, the arithmetic of \<open>size_t\<close>, the memory environment
  (\<open>malloc\<close>, \<open>calloc\<close>, \<open>realloc\<close>) and the big-endian byte images of integers, with the
  generic lemmas on lists and words used by the component theories.
\<close>

unbundle bit_operations_syntax

section \<open>Types\<close>

type_synonym u8 = "8 word"
type_synonym u16 = "16 word"
type_synonym u32 = "32 word"
type_synonym u64 = "64 word"

text \<open>Addresses of objects; NULL is 0.\<close>

type_synonym addr = nat

text \<open>
  The \<open>errno\<close> values that libobus returns (negated) from its functions. \<open>FAULT\<close> is not one of
  them: it is the outcome of an operation that accesses memory it must not access (a NULL or
  wild pointer, an index past the end), after which the C program has no defined behaviour.
\<close>

datatype errno = EINVAL | EAGAIN | ENOMEM | EEXIST | ENOENT | EPERM | EIO | ENODEV | ENOSYS | EBUSY
  | EINTR | EPIPE | ECONNRESET | ETIMEDOUT | ENOTCONN | EFAULT | EADDRNOTAVAIL | EINPROGRESS
  | FAULT

text \<open>\<open>Inl e\<close> is the C return value \<open>-e\<close>, \<open>Inr x\<close> is success with the out-parameter \<open>x\<close>.\<close>

type_synonym 'a res = "errno + 'a"

named_theorems obus_simps \<open>unfolding rules for the small accessors of the model\<close>

section \<open>Sequencing of fallible operations\<close>

definition chk :: "'a res \<times> 's \<Rightarrow> ('a \<Rightarrow> 's \<Rightarrow> 'b res \<times> 's) \<Rightarrow> 'b res \<times> 's" where
  "chk r k = (case r of (Inl e, s) \<Rightarrow> (Inl e, s) | (Inr x, s) \<Rightarrow> k x s)"

lemma chk_Inl [simp]: "chk (Inl e, s) k = (Inl e, s)"
  by (simp add: chk_def)

lemma chk_Inr [simp]: "chk (Inr x, s) k = k x s"
  by (simp add: chk_def)

lemma chk_cases:
  obtains (err) e s where "r = (Inl e, s)" "chk r k = (Inl e, s)"
  | (ok) x s where "r = (Inr x, s)" "chk r k = k x s"
  by (cases r; cases "fst r") auto

lemma chk_snd_inv:
  assumes "P (snd r)" and "\<And>x s. r = (Inr x, s) \<Longrightarrow> P (snd (k x s))"
  shows "P (snd (chk r k))"
  using assms by (cases r; cases "fst r") auto

section \<open>Arithmetic of size\_t\<close>

text \<open>\<open>size_t\<close> is 64 bits wide; sizes are natural numbers with the wrap-around written out.\<close>

definition sz :: "nat \<Rightarrow> nat" where
  "sz n = n mod 2 ^ 64"

definition sz_sub :: "nat \<Rightarrow> nat \<Rightarrow> nat" where
  "sz_sub a b = (if b \<le> a then a - b else 2 ^ 64 + a - b)"

abbreviation SSIZE_LIMIT :: nat where
  "SSIZE_LIMIT \<equiv> 2 ^ 63"

lemma sz_id [simp]: "n < 2 ^ 64 \<Longrightarrow> sz n = n"
  by (simp add: sz_def)

lemma sz_id_half: "n < SSIZE_LIMIT + SSIZE_LIMIT \<Longrightarrow> sz n = n"
  by (simp add: sz_def)

lemma sz_sub_id [simp]: "b \<le> a \<Longrightarrow> sz_sub a b = a - b"
  by (simp add: sz_sub_def)

lemma sz_sub_add_back:
  assumes "l < 2 ^ 64" "o1 + s < 2 ^ 64" "o1 < 2 ^ 64"
  shows "sz (l + sz (sz_sub o1 l + s)) = o1 + s"
proof (cases "l \<le> o1")
  case True
  then show ?thesis using assms by (simp add: sz_def)
next
  case False
  have "l + (2 ^ 64 + o1 - l + s) = (o1 + s) + 2 ^ 64"
    using False assms by simp
  moreover have "sz (l + sz (sz_sub o1 l + s)) = (l + (2 ^ 64 + o1 - l + s)) mod 2 ^ 64"
    using False by (simp add: sz_def sz_sub_def mod_simps)
  ultimately show ?thesis using assms(2) by (simp only: mod_add_self2 mod_less)
qed

section \<open>The memory environment\<close>

text \<open>
  Whether an allocation succeeds, and the bytes a fresh block holds, are not determined by
  libobus: they are a parameter. \<open>alloc_ok m n\<close> says that a request of \<open>n\<close> bytes succeeds,
  \<open>fresh_byte m i\<close> is the byte at offset \<open>i\<close> of newly obtained memory.
\<close>

record memory =
  alloc_ok :: "nat \<Rightarrow> bool"
  fresh_byte :: "nat \<Rightarrow> u8"

definition malloc :: "memory \<Rightarrow> nat \<Rightarrow> u8 list option" where
  "malloc m n = (if alloc_ok m n then Some (map (fresh_byte m) [0..<n]) else None)"

definition realloc :: "memory \<Rightarrow> u8 list \<Rightarrow> nat \<Rightarrow> u8 list option" where
  "realloc m d n =
     (if alloc_ok m n then Some (take n d @ map (fresh_byte m) [length d..<n]) else None)"

text \<open>Requests of at most \<open>n\<close> bytes succeed, and \<open>n\<close> is a size an object can have.\<close>

definition enough :: "memory \<Rightarrow> nat \<Rightarrow> bool" where
  "enough m n \<longleftrightarrow> n < SSIZE_LIMIT \<and> (\<forall>k\<le>n. alloc_ok m k)"

text \<open>No request beyond the greatest object size succeeds (as \<open>malloc(3)\<close> documents).\<close>

definition sane_memory :: "memory \<Rightarrow> bool" where
  "sane_memory m \<longleftrightarrow> (\<forall>n. alloc_ok m n \<longrightarrow> n < SSIZE_LIMIT)"

lemma enough_mono [intro]: "enough m n \<Longrightarrow> k \<le> n \<Longrightarrow> enough m k"
  by (auto simp: enough_def)

lemma enough_limit: "enough m n \<Longrightarrow> n < SSIZE_LIMIT"
  by (simp add: enough_def)

lemma enough_alloc: "enough m n \<Longrightarrow> k \<le> n \<Longrightarrow> alloc_ok m k"
  by (simp add: enough_def)

lemma length_realloc: "realloc m d n = Some d' \<Longrightarrow> length d' = n"
  by (auto simp: realloc_def split: if_splits)

lemma take_realloc:
  "realloc m d n = Some d' \<Longrightarrow> k \<le> length d \<Longrightarrow> k \<le> n \<Longrightarrow> take k d' = take k d"
  by (auto simp: realloc_def min_def split: if_splits)

section \<open>Big-endian images\<close>

definition be16 :: "u16 \<Rightarrow> u8 list" where
  "be16 v = [ucast (drop_bit 8 v AND 0xff), ucast (v AND 0xff)]"

definition be32 :: "u32 \<Rightarrow> u8 list" where
  "be32 v = [ucast (drop_bit 24 v AND 0xff), ucast (drop_bit 16 v AND 0xff),
             ucast (drop_bit 8 v AND 0xff), ucast (v AND 0xff)]"

definition be64 :: "u64 \<Rightarrow> u8 list" where
  "be64 v = [ucast (drop_bit 56 v AND 0xff), ucast (drop_bit 48 v AND 0xff),
             ucast (drop_bit 40 v AND 0xff), ucast (drop_bit 32 v AND 0xff),
             ucast (drop_bit 24 v AND 0xff), ucast (drop_bit 16 v AND 0xff),
             ucast (drop_bit 8 v AND 0xff), ucast (v AND 0xff)]"

definition of_be16 :: "u8 \<Rightarrow> u8 \<Rightarrow> u16" where
  "of_be16 a b = ucast ((push_bit 8 (ucast a) :: u32) + ucast b)"

definition of_be32 :: "u8 \<Rightarrow> u8 \<Rightarrow> u8 \<Rightarrow> u8 \<Rightarrow> u32" where
  "of_be32 a b c d =
     push_bit 24 (ucast a) OR push_bit 16 (ucast b) OR push_bit 8 (ucast c) OR ucast d"

definition of_be64 :: "u8 \<Rightarrow> u8 \<Rightarrow> u8 \<Rightarrow> u8 \<Rightarrow> u8 \<Rightarrow> u8 \<Rightarrow> u8 \<Rightarrow> u8 \<Rightarrow> u64" where
  "of_be64 a b c d e f g h =
     push_bit 56 (ucast a) OR push_bit 48 (ucast b) OR push_bit 40 (ucast c) OR
     push_bit 32 (ucast d) OR push_bit 24 (ucast e) OR push_bit 16 (ucast f) OR
     push_bit 8 (ucast g) OR ucast h"

lemma length_be16 [simp]: "length (be16 v) = 2"
  by (simp add: be16_def)

lemma length_be32 [simp]: "length (be32 v) = 4"
  by (simp add: be32_def)

lemma length_be64 [simp]: "length (be64 v) = 8"
  by (simp add: be64_def)

lemma be_not_Nil [simp]: "be16 u \<noteq> []" "be32 v \<noteq> []" "be64 w \<noteq> []"
  by (simp_all add: be16_def be32_def be64_def)

lemma ucast_and_ff: "(ucast ((x::'a::len word) AND 0xff) :: u8) = ucast x"
proof -
  have "(0xff :: 'a word) = mask 8"
    by (simp add: mask_eq_exp_minus_1)
  then show ?thesis
    by (simp only: take_bit_eq_mask [symmetric]) (auto intro!: bit_word_eqI simp: bit_simps)
qed

lemma of_be16_or: "of_be16 a b = push_bit 8 (ucast a) OR ucast b"
proof -
  have "(push_bit 8 (ucast a) :: u32) + ucast b = push_bit 8 (ucast a) OR ucast b"
    by (rule disjunctive_add) (auto simp: bit_simps dest: bit_imp_le_length)
  then show ?thesis
    unfolding of_be16_def by (auto intro!: bit_word_eqI simp: bit_simps)
qed

text \<open>The bits that the byte taken at bit \<open>k\<close> of a word contributes when it is put back.\<close>

lemma bit_byte_at:
  "bit (push_bit k (ucast (ucast (drop_bit k v) :: u8)) :: 'a::len word) n
     \<longleftrightarrow> k \<le> n \<and> n < k + 8 \<and> bit v n" for v :: "'a::len word"
  by (auto simp: bit_simps dest: bit_imp_le_length)

lemma bit_byte_low:
  "bit (ucast (ucast v :: u8) :: 'a::len word) n \<longleftrightarrow> n < 8 \<and> bit v n" for v :: "'a::len word"
  by (auto simp: bit_simps dest: bit_imp_le_length)

lemmas bit_bytes = bit_or_iff bit_byte_at bit_byte_low

lemma of_be16_bytes: "of_be16 (ucast (drop_bit 8 v)) (ucast v) = v" (is "?l = v")
proof (rule bit_word_eqI)
  fix n :: nat
  assume "n < LENGTH(16)"
  then have "n < 16" by simp
  moreover from this have "8 \<le> n \<or> n < 8" by linarith
  ultimately show "bit ?l n = bit v n"
    unfolding of_be16_or bit_bytes by auto
qed

lemma of_be32_bytes:
  "of_be32 (ucast (drop_bit 24 v)) (ucast (drop_bit 16 v)) (ucast (drop_bit 8 v)) (ucast v) = v"
  (is "?l = v")
proof (rule bit_word_eqI)
  fix n :: nat
  assume "n < LENGTH(32)"
  then have "n < 32" by simp
  moreover from this have "24 \<le> n \<or> 16 \<le> n \<and> n < 24 \<or> 8 \<le> n \<and> n < 16 \<or> n < 8"
    by linarith
  ultimately show "bit ?l n = bit v n"
    unfolding of_be32_def bit_bytes by auto
qed

lemma of_be64_bytes:
  "of_be64 (ucast (drop_bit 56 v)) (ucast (drop_bit 48 v)) (ucast (drop_bit 40 v))
     (ucast (drop_bit 32 v)) (ucast (drop_bit 24 v)) (ucast (drop_bit 16 v))
     (ucast (drop_bit 8 v)) (ucast v) = v"
  (is "?l = v")
proof (rule bit_word_eqI)
  fix n :: nat
  assume "n < LENGTH(64)"
  then have "n < 64" by simp
  moreover from this have "56 \<le> n \<or> 48 \<le> n \<and> n < 56 \<or> 40 \<le> n \<and> n < 48 \<or> 32 \<le> n \<and> n < 40
      \<or> 24 \<le> n \<and> n < 32 \<or> 16 \<le> n \<and> n < 24 \<or> 8 \<le> n \<and> n < 16 \<or> n < 8"
    by linarith
  ultimately show "bit ?l n = bit v n"
    unfolding of_be64_def bit_bytes by auto
qed

lemma be16_split: "\<exists>a b. be16 v = [a, b] \<and> of_be16 a b = v"
  by (simp add: be16_def ucast_and_ff of_be16_bytes)

lemma be32_split: "\<exists>a b c d. be32 v = [a, b, c, d] \<and> of_be32 a b c d = v"
  by (simp add: be32_def ucast_and_ff of_be32_bytes)

lemma be64_split:
  "\<exists>a b c d e f g h. be64 v = [a, b, c, d, e, f, g, h] \<and> of_be64 a b c d e f g h = v"
  by (simp add: be64_def ucast_and_ff of_be64_bytes)

section \<open>Lists\<close>

text \<open>The bytes of a block seen as a C string.\<close>

definition c_string :: "u8 list \<Rightarrow> u8 list" where
  "c_string blk = takeWhile (\<lambda>c. c \<noteq> 0) blk"

lemma list_update_take_eq: "i < n \<Longrightarrow> n \<le> length xs \<Longrightarrow> take n (xs[i := v]) = (take n xs)[i := v]"
  by (simp add: take_update_swap)

lemma take_Suc_update:
  "n < length xs \<Longrightarrow> take (Suc n) (xs[n := v]) = take n xs @ [v]"
  by (simp add: take_Suc_conv_app_nth)

lemma drop_eq_ConsD:
  assumes "drop n xs = y # ys"
  shows "n < length xs" and "xs ! n = y" and "drop (Suc n) xs = ys"
proof -
  show l: "n < length xs"
    using assms by (metis drop_all list.distinct(1) not_less)
  then show "xs ! n = y" and "drop (Suc n) xs = ys"
    using assms Cons_nth_drop_Suc [OF l] by simp_all
qed

end
