(* ===== verification/Obus_Buffer.thy ===== *)
theory Obus_Buffer
  imports Obus_Prelude
begin

text \<open>
  The growable byte buffer of \<open>obus_buffer.h\<close>: its record, every operation on it, and the
  buffer pool. The first part holds the operations, one definition per C function; the second
  part the abstraction of a buffer to the byte string it holds (\<open>content\<close>) and to the bytes
  not yet read (\<open>unread\<close>), the invariant \<open>buf_ok\<close> and the lemmas that say what each
  operation does to them; the last part the step relation over all operations and the
  invariant of every reachable buffer.
\<close>

section \<open>Data\<close>

text \<open>
  \<open>bdata\<close> is the memory block \<open>data\<close> points to; \<open>bpool\<close> says whether the \<open>pool\<close> pointer is
  set. The list node of the structure is represented by the position of the buffer in the
  pool's list of free buffers.
\<close>

record obus_buffer =
  bpool :: bool
  bsize :: nat
  blength :: nat
  bpos :: nat
  bdata :: "u8 list"
  brefcnt :: int

record obus_buffer_pool =
  free_bufs :: "obus_buffer list"
  buffsize :: nat

section \<open>Operations\<close>

definition obus_buffer_pool_put :: "obus_buffer_pool \<Rightarrow> obus_buffer \<Rightarrow> obus_buffer_pool" where
  "obus_buffer_pool_put pool buf =
     pool\<lparr>free_bufs := free_bufs pool @ [buf\<lparr>brefcnt := 0\<rparr>]\<rparr>"

text \<open>The control block and the data block are two allocations; \<open>cb\<close> is the control block's size.\<close>

definition obus_buffer_new :: "memory \<Rightarrow> nat \<Rightarrow> nat \<Rightarrow> bool \<Rightarrow> obus_buffer option" where
  "obus_buffer_new m cb n has_pool =
     (if \<not> alloc_ok m cb then None
      else case malloc m n of
        None \<Rightarrow> None
      | Some d \<Rightarrow> Some \<lparr>bpool = has_pool, bsize = n, blength = 0, bpos = 0,
                        bdata = d, brefcnt = 1\<rparr>)"

definition obus_buffer_ref :: "obus_buffer \<Rightarrow> obus_buffer" where
  "obus_buffer_ref buf = buf\<lparr>brefcnt := brefcnt buf + 1\<rparr>"

text \<open>Returns the new count, the buffer and the pool (which takes the buffer at count 0).\<close>

definition obus_buffer_unref ::
  "obus_buffer \<Rightarrow> obus_buffer_pool \<Rightarrow> int \<times> obus_buffer \<times> obus_buffer_pool" where
  "obus_buffer_unref buf pool =
     (let buf = buf\<lparr>brefcnt := brefcnt buf - 1\<rparr> in
      if brefcnt buf = 0 \<and> bpool buf
      then (0, buf\<lparr>brefcnt := 0\<rparr>, obus_buffer_pool_put pool buf)
      else (brefcnt buf, buf, pool))"

definition obus_buffer_ensure_realloc :: "memory \<Rightarrow> obus_buffer \<Rightarrow> nat \<Rightarrow> unit res \<times> obus_buffer" where
  "obus_buffer_ensure_realloc m buf n =
     (if n > bsize buf
      then case realloc m (bdata buf) n of
             None \<Rightarrow> (Inl ENOMEM, buf)
           | Some d \<Rightarrow> (Inr (), buf\<lparr>bdata := d, bsize := n\<rparr>)
      else (Inr (), buf))"

definition obus_buffer_ensure_write_space :: "memory \<Rightarrow> obus_buffer \<Rightarrow> nat \<Rightarrow> unit res \<times> obus_buffer" where
  "obus_buffer_ensure_write_space m buf len =
     obus_buffer_ensure_realloc m buf (sz (blength buf + len))"

definition obus_buffer_clear :: "obus_buffer \<Rightarrow> obus_buffer" where
  "obus_buffer_clear buf = buf\<lparr>blength := 0\<rparr>"

definition obus_buffer_write_space :: "obus_buffer \<Rightarrow> nat" where
  "obus_buffer_write_space buf = sz_sub (bsize buf) (blength buf)"

definition obus_buffer_inc_write_ptr :: "obus_buffer \<Rightarrow> nat \<Rightarrow> obus_buffer" where
  "obus_buffer_inc_write_ptr buf len = buf\<lparr>blength := sz (blength buf + len)\<rparr>"

definition obus_buffer_read_length :: "obus_buffer \<Rightarrow> nat" where
  "obus_buffer_read_length buf =
     (if blength buf > bpos buf then blength buf - bpos buf else 0)"

definition obus_buffer_reserve :: "memory \<Rightarrow> obus_buffer \<Rightarrow> nat \<Rightarrow> unit res \<times> obus_buffer" where
  "obus_buffer_reserve m buf len =
     chk (obus_buffer_ensure_realloc m buf (sz (blength buf + len)))
       (\<lambda>_ buf. (Inr (), buf\<lparr>blength := sz (blength buf + len)\<rparr>))"

text \<open>Storing successive bytes from an offset on: \<open>memcpy\<close> and the indexed stores.\<close>

primrec poke :: "u8 list \<Rightarrow> nat \<Rightarrow> u8 list \<Rightarrow> u8 list" where
  "poke d off [] = d"
| "poke d off (v # vs) = poke (d[off := v]) (Suc off) vs"

definition obus_buffer_write :: "memory \<Rightarrow> obus_buffer \<Rightarrow> nat \<Rightarrow> u8 list \<Rightarrow> unit res \<times> obus_buffer" where
  "obus_buffer_write m buf offset bytes =
     (let size = length bytes in
      chk (obus_buffer_ensure_realloc m buf (sz (offset + size)))
        (\<lambda>_ buf.
           let buf = buf\<lparr>bdata := poke (bdata buf) offset bytes\<rparr> in
           (Inr (), if sz (offset + size) > blength buf
                    then buf\<lparr>blength := sz (blength buf + sz (sz_sub offset (blength buf) + size))\<rparr>
                    else buf)))"

definition obus_buffer_append :: "memory \<Rightarrow> obus_buffer \<Rightarrow> u8 list \<Rightarrow> unit res \<times> obus_buffer" where
  "obus_buffer_append m buf bytes = obus_buffer_write m buf (blength buf) bytes"

text \<open>\<open>buf->data[buf->length++] = value\<close>\<close>

definition store_byte :: "obus_buffer \<Rightarrow> u8 \<Rightarrow> obus_buffer" where
  "store_byte buf v = buf\<lparr>bdata := (bdata buf)[blength buf := v], blength := sz (blength buf + 1)\<rparr>"

definition obus_buffer_append_u8 :: "memory \<Rightarrow> obus_buffer \<Rightarrow> u8 \<Rightarrow> unit res \<times> obus_buffer" where
  "obus_buffer_append_u8 m buf v =
     chk (obus_buffer_ensure_write_space m buf 1) (\<lambda>_ buf. (Inr (), store_byte buf v))"

definition obus_buffer_write_u8 :: "memory \<Rightarrow> obus_buffer \<Rightarrow> u8 \<Rightarrow> nat \<Rightarrow> unit res \<times> obus_buffer" where
  "obus_buffer_write_u8 m buf v offset =
     chk (obus_buffer_ensure_realloc m buf (sz (offset + 1)))
       (\<lambda>_ buf. (Inr (), buf\<lparr>bdata := poke (bdata buf) offset [v]\<rparr>))"

definition obus_buffer_set_read_position :: "obus_buffer \<Rightarrow> nat \<Rightarrow> unit res \<times> obus_buffer" where
  "obus_buffer_set_read_position buf p =
     (if p > blength buf then (Inl EINVAL, buf) else (Inr (), buf\<lparr>bpos := p\<rparr>))"

definition obus_buffer_inc_read_position :: "obus_buffer \<Rightarrow> nat \<Rightarrow> unit res \<times> obus_buffer" where
  "obus_buffer_inc_read_position buf v =
     (if sz (v + bpos buf) > blength buf then (Inl EINVAL, buf)
      else (Inr (), buf\<lparr>bpos := sz (bpos buf + v)\<rparr>))"

definition obus_buffer_read_u8 :: "obus_buffer \<Rightarrow> u8 res \<times> obus_buffer" where
  "obus_buffer_read_u8 buf =
     (if bpos buf \<ge> blength buf then (Inl EAGAIN, buf)
      else (Inr (bdata buf ! bpos buf), buf\<lparr>bpos := sz (bpos buf + 1)\<rparr>))"

definition obus_buffer_append_u16 :: "memory \<Rightarrow> obus_buffer \<Rightarrow> u16 \<Rightarrow> unit res \<times> obus_buffer" where
  "obus_buffer_append_u16 m buf v =
     chk (obus_buffer_ensure_write_space m buf 2)
       (\<lambda>_ buf. (Inr (), foldl store_byte buf (be16 v)))"

definition obus_buffer_write_u16 :: "memory \<Rightarrow> obus_buffer \<Rightarrow> u16 \<Rightarrow> nat \<Rightarrow> unit res \<times> obus_buffer" where
  "obus_buffer_write_u16 m buf v offset =
     chk (obus_buffer_ensure_realloc m buf (sz (offset + 2)))
       (\<lambda>_ buf. (Inr (), buf\<lparr>bdata := poke (bdata buf) offset (be16 v)\<rparr>))"

definition obus_buffer_read_u16 :: "obus_buffer \<Rightarrow> u16 res \<times> obus_buffer" where
  "obus_buffer_read_u16 buf =
     (if sz (bpos buf + 1) \<ge> blength buf then (Inl EINVAL, buf)
      else (Inr (of_be16 (bdata buf ! bpos buf) (bdata buf ! (bpos buf + 1))),
            buf\<lparr>bpos := sz (bpos buf + 2)\<rparr>))"

definition obus_buffer_append_u32 :: "memory \<Rightarrow> obus_buffer \<Rightarrow> u32 \<Rightarrow> unit res \<times> obus_buffer" where
  "obus_buffer_append_u32 m buf v =
     chk (obus_buffer_ensure_write_space m buf 4)
       (\<lambda>_ buf. (Inr (), foldl store_byte buf (be32 v)))"

definition obus_buffer_write_u32 :: "memory \<Rightarrow> obus_buffer \<Rightarrow> u32 \<Rightarrow> nat \<Rightarrow> unit res \<times> obus_buffer" where
  "obus_buffer_write_u32 m buf v offset =
     chk (obus_buffer_ensure_realloc m buf (sz (offset + 4)))
       (\<lambda>_ buf. (Inr (), buf\<lparr>bdata := poke (bdata buf) offset (be32 v)\<rparr>))"

definition obus_buffer_read_u32 :: "obus_buffer \<Rightarrow> u32 res \<times> obus_buffer" where
  "obus_buffer_read_u32 buf =
     (if sz (bpos buf + 3) \<ge> blength buf then (Inl EAGAIN, buf)
      else (Inr (of_be32 (bdata buf ! bpos buf) (bdata buf ! (bpos buf + 1))
                   (bdata buf ! (bpos buf + 2)) (bdata buf ! (bpos buf + 3))),
            buf\<lparr>bpos := sz (bpos buf + 4)\<rparr>))"

definition obus_buffer_append_u64 :: "memory \<Rightarrow> obus_buffer \<Rightarrow> u64 \<Rightarrow> unit res \<times> obus_buffer" where
  "obus_buffer_append_u64 m buf v =
     chk (obus_buffer_ensure_write_space m buf 8)
       (\<lambda>_ buf. (Inr (), foldl store_byte buf (be64 v)))"

definition obus_buffer_write_u64 :: "memory \<Rightarrow> obus_buffer \<Rightarrow> u64 \<Rightarrow> nat \<Rightarrow> unit res \<times> obus_buffer" where
  "obus_buffer_write_u64 m buf v offset =
     chk (obus_buffer_ensure_realloc m buf (sz (offset + 8)))
       (\<lambda>_ buf. (Inr (), buf\<lparr>bdata := poke (bdata buf) offset (be64 v)\<rparr>))"

text \<open>The guard of the 64-bit read compares with \<open>size\<close>, not with \<open>length\<close> as the others do.\<close>

definition obus_buffer_read_u64 :: "obus_buffer \<Rightarrow> u64 res \<times> obus_buffer" where
  "obus_buffer_read_u64 buf =
     (if sz (bpos buf + 7) \<ge> bsize buf then (Inl EINVAL, buf)
      else (Inr (of_be64 (bdata buf ! bpos buf) (bdata buf ! (bpos buf + 1))
                   (bdata buf ! (bpos buf + 2)) (bdata buf ! (bpos buf + 3))
                   (bdata buf ! (bpos buf + 4)) (bdata buf ! (bpos buf + 5))
                   (bdata buf ! (bpos buf + 6)) (bdata buf ! (bpos buf + 7))),
            buf\<lparr>bpos := sz (bpos buf + 8)\<rparr>))"

text \<open>\<open>ret |= x\<close> on return codes: an error stays an error.\<close>

fun or_res :: "unit res \<Rightarrow> unit res \<Rightarrow> unit res" where
  "or_res (Inl e) _ = Inl e"
| "or_res (Inr _) r = r"

text \<open>
  A \<open>char *\<close> is \<open>None\<close> for NULL, otherwise the bytes before the terminating zero. The length
  word is 32 bits wide, and so is the sum \<open>size + 4\<close>.
\<close>

definition string_size :: "u8 list option \<Rightarrow> u32" where
  "string_size str = (case str of None \<Rightarrow> 0 | Some s \<Rightarrow> of_nat (length s + 1))"

definition obus_buffer_append_string :: "memory \<Rightarrow> obus_buffer \<Rightarrow> u8 list option \<Rightarrow> unit res \<times> obus_buffer" where
  "obus_buffer_append_string m buf str =
     (let size = string_size str in
      chk (obus_buffer_ensure_write_space m buf (unat (size + 4)))
        (\<lambda>_ buf.
           let (r1, buf) = obus_buffer_append_u32 m buf size;
               (r2, buf) = (if size > 0
                            then obus_buffer_append m buf (take (unat size) (the str @ [0]))
                            else (Inr (), buf))
           in (or_res r1 r2, buf)))"

definition obus_buffer_dup :: "memory \<Rightarrow> obus_buffer \<Rightarrow> nat \<Rightarrow> u8 list option res \<times> obus_buffer" where
  "obus_buffer_dup m buf n =
     (if n = 0 then (Inr None, buf)
      else if sz (bpos buf + n) > blength buf then (Inl EAGAIN, buf)
      else case malloc m n of
             None \<Rightarrow> (Inl ENOMEM, buf)
           | Some _ \<Rightarrow> (Inr (Some (take n (drop (bpos buf) (bdata buf)))),
                        buf\<lparr>bpos := sz (bpos buf + n)\<rparr>))"

text \<open>
  The second component is what the function stores through \<open>str\<close>: nothing, NULL or a string.
  A failing \<open>obus_buffer_dup\<close> has already stored NULL.
\<close>

definition obus_buffer_read_string ::
  "memory \<Rightarrow> obus_buffer \<Rightarrow> unit res \<times> u8 list option option \<times> obus_buffer" where
  "obus_buffer_read_string m buf =
     (case obus_buffer_read_u32 buf of
        (Inl e, buf) \<Rightarrow> (Inl e, None, buf)
      | (Inr n, buf) \<Rightarrow>
          (if n = 0 then (Inr (), Some None, buf)
           else (case obus_buffer_dup m buf (unat n) of
                   (Inl e, buf) \<Rightarrow> (Inl e, Some None, buf)
                 | (Inr blk, buf) \<Rightarrow>
                     (Inr (), Some (map_option (\<lambda>b. c_string (b[unat n - 1 := 0])) blk), buf))))"

text \<open>A \<open>float\<close> or \<open>double\<close> is its bit pattern, which is what the C unions transmit.\<close>

definition obus_buffer_append_f32 :: "memory \<Rightarrow> obus_buffer \<Rightarrow> u32 \<Rightarrow> unit res \<times> obus_buffer" where
  "obus_buffer_append_f32 m buf v = obus_buffer_append_u32 m buf v"

definition obus_buffer_write_f32 :: "memory \<Rightarrow> obus_buffer \<Rightarrow> u32 \<Rightarrow> nat \<Rightarrow> unit res \<times> obus_buffer" where
  "obus_buffer_write_f32 m buf v offset = obus_buffer_write_u32 m buf v offset"

definition obus_buffer_read_f32 :: "obus_buffer \<Rightarrow> u32 res \<times> obus_buffer" where
  "obus_buffer_read_f32 buf = obus_buffer_read_u32 buf"

definition obus_buffer_append_f64 :: "memory \<Rightarrow> obus_buffer \<Rightarrow> u64 \<Rightarrow> unit res \<times> obus_buffer" where
  "obus_buffer_append_f64 m buf v = obus_buffer_append_u64 m buf v"

definition obus_buffer_write_f64 :: "memory \<Rightarrow> obus_buffer \<Rightarrow> u64 \<Rightarrow> nat \<Rightarrow> unit res \<times> obus_buffer" where
  "obus_buffer_write_f64 m buf v offset = obus_buffer_write_u64 m buf v offset"

definition obus_buffer_read_f64 :: "obus_buffer \<Rightarrow> u64 res \<times> obus_buffer" where
  "obus_buffer_read_f64 buf = obus_buffer_read_u64 buf"

function obus_buffer_find :: "obus_buffer \<Rightarrow> nat \<Rightarrow> u8 \<Rightarrow> int" where
  "obus_buffer_find buf i byte =
     (if i < blength buf
      then if bdata buf ! i = byte then int i else obus_buffer_find buf (Suc i) byte
      else -1)"
  by pat_completeness auto
termination
  by (relation "measure (\<lambda>(buf, i, byte). blength buf - i)") auto

declare obus_buffer_find.simps [simp del]

definition obus_buffer_remove_first :: "obus_buffer \<Rightarrow> nat \<Rightarrow> obus_buffer" where
  "obus_buffer_remove_first buf n =
     (if n = 0 \<or> blength buf = 0 then buf
      else if n \<ge> blength buf then buf\<lparr>blength := 0\<rparr>
      else buf\<lparr>bdata := poke (bdata buf) 0 (take (blength buf - n) (drop n (bdata buf))),
               blength := blength buf - n,
               bpos := (if bpos buf > n then bpos buf - n else 0)\<rparr>)"

definition obus_buffer_remove_read :: "obus_buffer \<Rightarrow> obus_buffer" where
  "obus_buffer_remove_read buf =
     (obus_buffer_remove_first buf (bpos buf))\<lparr>bpos := 0\<rparr>"

definition obus_buffer_pool_init :: "nat \<Rightarrow> obus_buffer_pool" where
  "obus_buffer_pool_init n = \<lparr>free_bufs = [], buffsize = n\<rparr>"

definition obus_buffer_pool_destroy :: "obus_buffer_pool \<Rightarrow> obus_buffer_pool" where
  "obus_buffer_pool_destroy pool = pool\<lparr>free_bufs := []\<rparr>"

definition obus_buffer_pool_peek ::
  "memory \<Rightarrow> nat \<Rightarrow> obus_buffer_pool \<Rightarrow> obus_buffer option \<times> obus_buffer_pool" where
  "obus_buffer_pool_peek m cb pool =
     (case free_bufs pool of
        [] \<Rightarrow> (obus_buffer_new m cb (buffsize pool) True, pool)
      | b # bs \<Rightarrow> (Some (b\<lparr>brefcnt := 1\<rparr>), pool\<lparr>free_bufs := bs\<rparr>))"


section \<open>Abstraction and invariant\<close>

definition content :: "obus_buffer \<Rightarrow> u8 list" where
  "content b = take (blength b) (bdata b)"

definition unread :: "obus_buffer \<Rightarrow> u8 list" where
  "unread b = drop (bpos b) (content b)"

text \<open>
  The memory block has \<open>size\<close> bytes, and neither the write offset nor the read position leaves
  it. The read position may pass the write offset (after a clear or a 64-bit read).
\<close>

definition buf_ok :: "obus_buffer \<Rightarrow> bool" where
  "buf_ok b \<longleftrightarrow> length (bdata b) = bsize b \<and> blength b \<le> bsize b \<and> bpos b \<le> bsize b
     \<and> bsize b < SSIZE_LIMIT"

text \<open>\<open>b'\<close> is \<open>b\<close> with the bytes \<open>bs\<close> appended; nothing else a client sees has changed.\<close>

definition appended :: "obus_buffer \<Rightarrow> obus_buffer \<Rightarrow> u8 list \<Rightarrow> bool" where
  "appended b b' bs \<longleftrightarrow> buf_ok b' \<and> content b' = content b @ bs \<and> bpos b' = bpos b
     \<and> brefcnt b' = brefcnt b \<and> bpool b' = bpool b"

text \<open>What every append does, failing or not: bytes already there stay.\<close>

definition grows :: "obus_buffer \<Rightarrow> obus_buffer \<Rightarrow> bool" where
  "grows b b' \<longleftrightarrow> (\<exists>bs. appended b b' bs)"

lemma length_content [simp]: "buf_ok b \<Longrightarrow> length (content b) = blength b"
  by (simp add: content_def buf_ok_def)

lemma length_unread: "buf_ok b \<Longrightarrow> length (unread b) = blength b - bpos b"
  by (simp add: unread_def)

lemma buf_okD:
  assumes "buf_ok b"
  shows "length (bdata b) = bsize b" "blength b \<le> bsize b" "bpos b \<le> bsize b"
    "bsize b < SSIZE_LIMIT"
  using assms by (auto simp: buf_ok_def)

lemma appended_ok: "appended b b' bs \<Longrightarrow> buf_ok b'"
  by (simp add: appended_def)

lemma appended_blength:
  assumes "appended b b' bs" "buf_ok b"
  shows "blength b' = blength b + length bs"
proof -
  have "length (content b') = length (content b @ bs)" "buf_ok b'"
    using assms(1) by (simp_all add: appended_def)
  then show ?thesis using assms(2) by simp
qed

lemma appended_refl [simp]: "appended b b [] \<longleftrightarrow> buf_ok b"
  by (simp add: appended_def)

lemma appended_trans [trans]:
  "appended b b' xs \<Longrightarrow> appended b' b'' ys \<Longrightarrow> appended b b'' (xs @ ys)"
  by (simp add: appended_def)

lemma appended_unread:
  assumes "appended b b' bs" "bpos b \<le> blength b" "buf_ok b"
  shows "unread b' = unread b @ bs"
  using assms by (simp add: appended_def unread_def)

lemma grows_refl [simp]: "grows b b \<longleftrightarrow> buf_ok b"
  by (auto simp: grows_def appended_def)

lemma grows_trans [trans]: "grows b b' \<Longrightarrow> grows b' b'' \<Longrightarrow> grows b b''"
  unfolding grows_def using appended_trans by blast

lemma appended_grows: "appended b b' bs \<Longrightarrow> grows b b'"
  by (auto simp: grows_def)

lemma grows_ok: "grows b b' \<Longrightarrow> buf_ok b'"
  by (auto simp: grows_def appended_def)

lemma grows_content: "grows b b' \<Longrightarrow> content b = take (length (content b)) (content b')"
  by (auto simp: grows_def appended_def)

lemma poke_eq:
  "off + length bs \<le> length d \<Longrightarrow> poke d off bs = take off d @ bs @ drop (off + length bs) d"
proof (induction bs arbitrary: d off)
  case (Cons v bs)
  have "poke d off (v # bs) = poke (d[off := v]) (Suc off) bs"
    by simp
  also have "\<dots> = take (Suc off) (d[off := v]) @ bs @ drop (Suc off + length bs) (d[off := v])"
    by (rule Cons.IH) (use Cons.prems in simp)
  also have "\<dots> = take off d @ (v # bs) @ drop (off + length (v # bs)) d"
    using Cons.prems by (simp add: take_Suc_update)
  finally show ?case .
qed simp

lemma length_poke [simp]: "length (poke d off bs) = length d"
  by (induction bs arbitrary: d off) auto

section \<open>Appending\<close>

lemma ensure_realloc_cases:
  assumes "buf_ok b" "sane_memory m"
  obtains (grown) b' where "obus_buffer_ensure_realloc m b n = (Inr (), b')"
      "appended b b' []" "blength b' = blength b" "n \<le> bsize b'" "bsize b \<le> bsize b'"
  | (failed) "obus_buffer_ensure_realloc m b n = (Inl ENOMEM, b)" "bsize b < n" "\<not> alloc_ok m n"
proof (cases "n > bsize b")
  case True
  show thesis
  proof (cases "realloc m (bdata b) n")
    case None
    then show thesis
      using True that(2) by (auto simp: obus_buffer_ensure_realloc_def realloc_def split: if_splits)
  next
    case (Some d)
    moreover from Some have "alloc_ok m n" by (simp add: realloc_def split: if_splits)
    then have "n < SSIZE_LIMIT" using assms(2) by (simp add: sane_memory_def)
    ultimately show thesis
      using that(1) [of "b\<lparr>bdata := d, bsize := n\<rparr>"] True assms(1) length_realloc [OF Some]
        take_realloc [OF Some, of "blength b"]
      by (simp add: obus_buffer_ensure_realloc_def appended_def buf_ok_def content_def)
  qed
next
  case False
  then show thesis using that(1) [of b] assms(1) by (simp add: obus_buffer_ensure_realloc_def)
qed

lemma ensure_realloc_ok:
  assumes "buf_ok b" "enough m n"
  obtains b' where "obus_buffer_ensure_realloc m b n = (Inr (), b')"
      "appended b b' []" "blength b' = blength b" "n \<le> bsize b'"
proof (cases "n > bsize b")
  case True
  from assms(2) have "alloc_ok m n" "n < SSIZE_LIMIT" by (auto simp: enough_def)
  then obtain d where d: "realloc m (bdata b) n = Some d" by (simp add: realloc_def)
  show thesis
    using that [of "b\<lparr>bdata := d, bsize := n\<rparr>"] True assms(1) \<open>n < SSIZE_LIMIT\<close> d
      length_realloc [OF d] take_realloc [OF d, of "blength b"]
    by (simp add: obus_buffer_ensure_realloc_def appended_def buf_ok_def content_def)
next
  case False
  then show thesis using that [of b] assms(1) by (simp add: obus_buffer_ensure_realloc_def)
qed

lemma store_byte_appended:
  assumes "buf_ok b" "blength b < bsize b"
  shows "appended b (store_byte b v) [v]" "bsize (store_byte b v) = bsize b"
    "blength (store_byte b v) = Suc (blength b)"
proof -
  have "sz (blength b + 1) = Suc (blength b)"
    using assms by (simp add: buf_ok_def sz_id_half)
  then show "appended b (store_byte b v) [v]" "bsize (store_byte b v) = bsize b"
      "blength (store_byte b v) = Suc (blength b)"
    using assms by (auto simp: store_byte_def appended_def buf_ok_def content_def take_Suc_update)
qed

lemma store_bytes_appended:
  assumes "buf_ok b" "blength b + length bs \<le> bsize b"
  shows "appended b (foldl store_byte b bs) bs"
  using assms
proof (induction bs arbitrary: b)
  case (Cons v bs)
  note st = store_byte_appended [OF Cons.prems(1), of v]
  have "blength b < bsize b" using Cons.prems(2) by simp
  note st = st [OF this]
  have "appended (store_byte b v) (foldl store_byte (store_byte b v) bs) bs"
    using Cons.IH [OF appended_ok [OF st(1)]] Cons.prems(2) st by simp
  from appended_trans [OF st(1) this] show ?case by simp
qed simp

text \<open>The shared shape of the fixed-width appends.\<close>

definition append_bytes :: "memory \<Rightarrow> obus_buffer \<Rightarrow> u8 list \<Rightarrow> unit res \<times> obus_buffer" where
  "append_bytes m b bs =
     chk (obus_buffer_ensure_write_space m b (length bs)) (\<lambda>_ b. (Inr (), foldl store_byte b bs))"

lemma append_is_bytes [obus_simps]:
  "obus_buffer_append_u8 m b v8 = append_bytes m b [v8]"
  "obus_buffer_append_u16 m b v16 = append_bytes m b (be16 v16)"
  "obus_buffer_append_u32 m b v32 = append_bytes m b (be32 v32)"
  "obus_buffer_append_u64 m b v64 = append_bytes m b (be64 v64)"
  "obus_buffer_append_f32 m b v32 = append_bytes m b (be32 v32)"
  "obus_buffer_append_f64 m b v64 = append_bytes m b (be64 v64)"
  by (simp_all add: append_bytes_def obus_buffer_append_u8_def obus_buffer_append_u16_def
      obus_buffer_append_u32_def obus_buffer_append_u64_def obus_buffer_append_f32_def
      obus_buffer_append_f64_def)

lemma append_bytes_ok:
  assumes "buf_ok b" "enough m (blength b + length bs)"
  obtains b' where "append_bytes m b bs = (Inr (), b')" "appended b b' bs"
proof -
  have "sz (blength b + length bs) = blength b + length bs"
    using enough_limit [OF assms(2)] by simp
  with ensure_realloc_ok [OF assms] obtain b1 where
    b1: "obus_buffer_ensure_write_space m b (length bs) = (Inr (), b1)" "appended b b1 []"
      "blength b1 = blength b" "blength b + length bs \<le> bsize b1"
    by (metis obus_buffer_ensure_write_space_def)
  have "appended b1 (foldl store_byte b1 bs) bs"
    using store_bytes_appended [OF appended_ok [OF b1(2)]] b1(3,4) by simp
  from appended_trans [OF b1(2) this] show thesis
    using that b1(1) by (simp add: append_bytes_def)
qed

lemma append_bytes_cases:
  assumes "buf_ok b" "sane_memory m" "length bs < SSIZE_LIMIT"
  obtains (grown) b' where "append_bytes m b bs = (Inr (), b')" "appended b b' bs"
  | (failed) "append_bytes m b bs = (Inl ENOMEM, b)" "bsize b < blength b + length bs"
      "\<not> alloc_ok m (blength b + length bs)"
proof -
  have sz: "sz (blength b + length bs) = blength b + length bs"
    using assms by (intro sz_id_half) (simp add: buf_ok_def)
  from assms(1,2) show thesis
  proof (cases rule: ensure_realloc_cases [where n = "blength b + length bs"])
    case (grown b1)
    have "appended b1 (foldl store_byte b1 bs) bs"
      using store_bytes_appended [OF appended_ok [OF grown(2)]] grown(3,4) by simp
    from appended_trans [OF grown(2) this] show thesis
      using that(1) grown(1) sz by (simp add: append_bytes_def obus_buffer_ensure_write_space_def)
  next
    case failed
    then show thesis
      using that(2) sz by (simp add: append_bytes_def obus_buffer_ensure_write_space_def)
  qed
qed

lemma append_bytes_grows:
  assumes "buf_ok b" "sane_memory m" "length bs < SSIZE_LIMIT"
  shows "grows b (snd (append_bytes m b bs))"
  using assms by (cases rule: append_bytes_cases) (use assms in \<open>auto simp: appended_grows\<close>)

section \<open>Writing at an offset, strings\<close>

lemma take_overwrite:
  assumes "off \<le> l" "l \<le> length d" "off + length bs \<le> length d"
  shows "take (max l (off + length bs)) (take off d @ bs @ drop (off + length bs) d)
      = take off (take l d) @ bs @ drop (off + length bs) (take l d)"
proof (cases "off + length bs \<le> l")
  case True
  then obtain k where "l = off + length bs + k" using le_Suc_ex by blast
  then show ?thesis
    using assms by (cases bs) (simp_all add: max_def min_def drop_take take_add)
qed (use assms in \<open>simp add: max_def min_def\<close>)

lemma write_ok:
  assumes "buf_ok b" "offset \<le> blength b" "enough m (offset + length bs)"
  obtains b' where "obus_buffer_write m b offset bs = (Inr (), b')" "buf_ok b'"
    "content b' = take offset (content b) @ bs @ drop (offset + length bs) (content b)"
    "bpos b' = bpos b" "brefcnt b' = brefcnt b" "bpool b' = bpool b"
proof -
  let ?n = "offset + length bs"
  have n: "?n < SSIZE_LIMIT" "sz ?n = ?n"
    using enough_limit [OF assms(3)] by simp_all
  from ensure_realloc_ok [OF assms(1,3)] obtain b1 where
    b1: "obus_buffer_ensure_realloc m b ?n = (Inr (), b1)" "appended b b1 []"
      "blength b1 = blength b" "?n \<le> bsize b1" by blast
  note ok = buf_okD [OF appended_ok [OF b1(2)]]
  have c1: "take (blength b) (bdata b1) = content b"
    using b1(2,3) by (simp add: appended_def content_def)
  let ?d = "poke (bdata b1) offset bs" and ?l = "max (blength b) ?n"
  let ?b = "b1\<lparr>bdata := ?d, blength := ?l\<rparr>"
  have "sz (blength b + sz (sz_sub offset (blength b) + length bs)) = ?n"
    by (rule sz_sub_add_back) (use n(1) assms(2) ok b1(3) in simp_all)
  then have w: "obus_buffer_write m b offset bs = (Inr (), ?b)"
    using b1(1,3) n(2) by (simp add: obus_buffer_write_def Let_def max_def)
  have d: "?d = take offset (bdata b1) @ bs @ drop ?n (bdata b1)"
    by (rule poke_eq) (use b1(4) ok in simp)
  have "content ?b = take ?l (take offset (bdata b1) @ bs @ drop ?n (bdata b1))"
    by (simp add: content_def d)
  also have "\<dots> = take offset (content b) @ bs @ drop ?n (content b)"
    unfolding c1 [symmetric] by (rule take_overwrite) (use assms(2) b1(3,4) ok in simp_all)
  finally have "content ?b = take offset (content b) @ bs @ drop ?n (content b)" .
  moreover have "buf_ok ?b"
    using ok b1(3,4) by (simp add: buf_ok_def)
  ultimately show thesis
    using that [OF w] b1(2) by (simp add: appended_def)
qed

lemma append_ok:
  assumes "buf_ok b" "enough m (blength b + length bs)"
  obtains b' where "obus_buffer_append m b bs = (Inr (), b')" "appended b b' bs"
proof -
  from write_ok [OF assms(1) order_refl assms(2)] obtain b' where
    "obus_buffer_write m b (blength b) bs = (Inr (), b')" "buf_ok b'"
    "content b' = take (blength b) (content b) @ bs @ drop (blength b + length bs) (content b)"
    "bpos b' = bpos b" "brefcnt b' = brefcnt b" "bpool b' = bpool b" by blast
  then show thesis using that assms(1)
    by (simp add: obus_buffer_append_def appended_def)
qed

lemma append_cases:
  assumes "buf_ok b" "sane_memory m" "length bs < SSIZE_LIMIT"
  obtains (grown) b' where "obus_buffer_append m b bs = (Inr (), b')" "appended b b' bs"
  | (failed) "obus_buffer_append m b bs = (Inl ENOMEM, b)" "bsize b < blength b + length bs"
proof -
  have sz: "sz (blength b + length bs) = blength b + length bs"
    using assms by (intro sz_id_half) (simp add: buf_ok_def)
  from assms(1,2) show thesis
  proof (cases rule: ensure_realloc_cases [where n = "blength b + length bs"])
    case (grown b1)
    note ok = buf_okD [OF appended_ok [OF grown(2)]]
    let ?b = "b1\<lparr>bdata := poke (bdata b1) (blength b) bs, blength := blength b + length bs\<rparr>"
    have "poke (bdata b1) (blength b) bs
        = take (blength b) (bdata b1) @ bs @ drop (blength b + length bs) (bdata b1)"
      by (rule poke_eq) (use grown(4) ok in simp)
    then have "content ?b = take (blength b1) (bdata b1) @ bs"
      using grown(3,4) ok by (simp add: content_def)
    then have "content ?b = content b @ bs"
      using grown(2) by (simp add: content_def [of b1] appended_def)
    then have "appended b ?b bs"
      using grown(2,3,4) by (simp add: appended_def buf_ok_def)
    moreover have "length bs < 2 ^ 64" using assms(3) by simp
    then have "obus_buffer_append m b bs = (Inr (), ?b)"
      using grown(1,3) sz
      by (simp add: obus_buffer_append_def obus_buffer_write_def Let_def)
    ultimately show thesis using that(1) by blast
  next
    case failed
    then show thesis
      using that(2) sz by (simp add: obus_buffer_append_def obus_buffer_write_def)
  qed
qed

text \<open>The wire image of a \<open>char *\<close>: a length word that counts the terminating zero, the bytes.\<close>

definition wire_string :: "u8 list option \<Rightarrow> u8 list" where
  "wire_string str = be32 (string_size str) @ (case str of None \<Rightarrow> [] | Some s \<Rightarrow> s @ [0])"

definition string_fits :: "u8 list option \<Rightarrow> bool" where
  "string_fits str = (case str of None \<Rightarrow> True | Some s \<Rightarrow> 0 \<notin> set s \<and> length s + 5 < 2 ^ 32)"

lemma string_size_fits:
  assumes "string_fits (Some s)"
  shows "unat (string_size (Some s)) = length s + 1" "unat (string_size (Some s) + 4) = length s + 5"
    "string_size (Some s) > 0"
proof -
  show u: "unat (string_size (Some s)) = length s + 1"
    using assms unfolding string_size_def string_fits_def option.case
    by (simp only: unat_of_nat) simp
  then show "unat (string_size (Some s) + 4) = length s + 5"
    using assms by (simp add: string_fits_def unat_word_ariths)
  show "string_size (Some s) > 0"
    using u by (metis add_is_0 not_one_le_zero order_refl unat_0 word_gt_0 zero_neq_one)
qed

lemma length_wire_string:
  "length (wire_string str) = (case str of None \<Rightarrow> 4 | Some s \<Rightarrow> length s + 5)"
  by (simp add: wire_string_def split: option.splits)

lemma append_bytes_fits:
  assumes "buf_ok b" "blength b + length bs \<le> bsize b"
  shows "append_bytes m b bs = (Inr (), foldl store_byte b bs)"
    "appended b (foldl store_byte b bs) bs" "bsize (foldl store_byte b bs) = bsize b"
proof -
  have "sz (blength b + length bs) = blength b + length bs"
    using buf_okD [OF assms(1)] assms(2) by simp
  then show "append_bytes m b bs = (Inr (), foldl store_byte b bs)"
    using assms(2)
    by (simp add: append_bytes_def obus_buffer_ensure_write_space_def obus_buffer_ensure_realloc_def)
  show "appended b (foldl store_byte b bs) bs"
    using store_bytes_appended [OF assms] .
  show "bsize (foldl store_byte b bs) = bsize b"
    by (induction bs arbitrary: b) (simp_all add: store_byte_def)
qed

lemma append_fits:
  assumes "buf_ok b" "blength b + length bs \<le> bsize b"
  obtains b' where "obus_buffer_append m b bs = (Inr (), b')" "appended b b' bs"
proof -
  let ?m = "m\<lparr>alloc_ok := \<lambda>n. n < SSIZE_LIMIT\<rparr>"
  have "obus_buffer_append m b bs = obus_buffer_append ?m b bs"
    using buf_okD [OF assms(1)] assms(2)
    by (simp add: obus_buffer_append_def obus_buffer_write_def obus_buffer_ensure_realloc_def Let_def)
  moreover have "enough ?m (blength b + length bs)"
    using buf_okD [OF assms(1)] assms(2) by (simp add: enough_def)
  ultimately show thesis using append_ok [OF assms(1), of ?m bs] that by metis
qed

text \<open>Once the space is ensured, the two stores of the string cannot fail.\<close>

lemma append_string_ensured:
  assumes "string_fits str" "appended b b1 []" "blength b1 = blength b"
    "obus_buffer_ensure_write_space m b (unat (string_size str + 4)) = (Inr (), b1)"
    "blength b + length (wire_string str) \<le> bsize b1"
  shows "\<exists>b'. obus_buffer_append_string m b str = (Inr (), b') \<and> appended b b' (wire_string str)"
proof -
  let ?t = "case str of None \<Rightarrow> [] | Some s \<Rightarrow> s @ [0]" and ?l = "be32 (string_size str)"
  let ?b2 = "foldl store_byte b1 ?l"
  note ok1 = appended_ok [OF assms(2)]
  have len: "blength b1 + length ?l + length ?t \<le> bsize b1"
    using assms(3,5) by (simp add: wire_string_def add.assoc)
  then have "blength b1 + length ?l \<le> bsize b1" by simp
  note b2 = append_bytes_fits [OF ok1 this]
  have "blength ?b2 + length ?t \<le> bsize ?b2"
    using appended_blength [OF b2(2) ok1] b2(3) len by simp
  then obtain b3 where b3: "obus_buffer_append m ?b2 ?t = (Inr (), b3)" "appended ?b2 b3 ?t"
    using append_fits [OF appended_ok [OF b2(2)]] by blast
  have a: "appended b ?b2 ?l" using appended_trans [OF assms(2) b2(2)] by simp
  show ?thesis
  proof (cases str)
    case None
    then show ?thesis using assms(4) b2(1) a
      by (simp add: obus_buffer_append_string_def Let_def string_size_def wire_string_def obus_simps)
  next
    case (Some s)
    then have "take (unat (string_size str)) (the str @ [0]) = ?t" "string_size str > 0"
      using assms(1) string_size_fits by simp_all
    then show ?thesis using Some assms(4) b2(1) b3(1) appended_trans [OF a b3(2)]
      by (simp add: obus_buffer_append_string_def Let_def wire_string_def obus_simps)
  qed
qed

lemma string_space:
  assumes "string_fits str"
  shows "unat (string_size str + 4) = length (wire_string str)"
    "length (wire_string str) < 2 ^ 32"
  using assms string_size_fits
  by (cases str; simp add: length_wire_string string_size_def [of None] string_fits_def)+

lemma append_string_cases:
  assumes "buf_ok b" "sane_memory m" "string_fits str"
  obtains (grown) b' where "obus_buffer_append_string m b str = (Inr (), b')"
      "appended b b' (wire_string str)"
  | (failed) "obus_buffer_append_string m b str = (Inl ENOMEM, b)"
      "\<not> alloc_ok m (blength b + length (wire_string str))"
proof -
  let ?n = "blength b + length (wire_string str)"
  have sz: "sz (blength b + unat (string_size str + 4)) = ?n"
    using buf_okD [OF assms(1)] string_space [OF assms(3)] by (subst sz_id_half) simp_all
  note e = obus_buffer_ensure_write_space_def sz
  from assms(1,2) show thesis
  proof (cases rule: ensure_realloc_cases [where n = ?n])
    case (grown b1)
    then have "obus_buffer_ensure_write_space m b (unat (string_size str + 4)) = (Inr (), b1)"
      by (simp add: e)
    from append_string_ensured [OF assms(3) grown(2,3) this grown(4)] show thesis
      using that(1) by blast
  next
    case failed
    then show thesis using that(2) e by (simp add: obus_buffer_append_string_def Let_def)
  qed
qed

lemma append_string_ok:
  assumes "buf_ok b" "string_fits str" "enough m (blength b + length (wire_string str))"
  obtains b' where "obus_buffer_append_string m b str = (Inr (), b')" "appended b b' (wire_string str)"
proof -
  have "sz (blength b + unat (string_size str + 4)) = blength b + length (wire_string str)"
    using string_space [OF assms(2)] enough_limit [OF assms(3)] by simp
  with ensure_realloc_ok [OF assms(1,3)] that append_string_ensured [OF assms(2)] show thesis
    by (metis obus_buffer_ensure_write_space_def)
qed

lemma append_string_grows:
  assumes "buf_ok b" "sane_memory m"
  shows "grows b (snd (obus_buffer_append_string m b str))"
  using assms
proof (cases rule: ensure_realloc_cases [where n = "sz (blength b + unat (string_size str + 4))"])
  case (grown b1)
  obtain r2 b2 where b2: "obus_buffer_append_u32 m b1 (string_size str) = (r2, b2)" by fastforce
  have g1: "grows b b1" using appended_grows [OF grown(2)] .
  have g2: "grows b1 b2"
    using append_bytes_grows [OF grows_ok [OF g1] assms(2), of "be32 (string_size str)"] b2
    by (simp add: obus_simps)
  have lim: "length (take (unat (string_size str)) (the str @ [0])) < SSIZE_LIMIT"
  proof -
    have "unat (string_size str) < 2 ^ 32" using unsigned_less [of "string_size str"] by simp
    then show ?thesis by (simp add: min_def)
  qed
  have g3: "grows b2 (snd (obus_buffer_append m b2 (take (unat (string_size str)) (the str @ [0]))))"
    using grows_ok [OF g2] assms(2) lim
    by (cases rule: append_cases)
      (use grows_ok [OF g2] in \<open>auto simp: appended_grows\<close>)
  show ?thesis
    using grown(1) b2 grows_trans [OF g1 g2] grows_trans [OF grows_trans [OF g1 g2] g3]
    by (auto simp: obus_buffer_append_string_def obus_buffer_ensure_write_space_def Let_def
        split: prod.splits)
next
  case failed
  then show ?thesis
    using assms by (simp add: obus_buffer_append_string_def obus_buffer_ensure_write_space_def Let_def)
qed

section \<open>Reading\<close>

definition advance :: "obus_buffer \<Rightarrow> nat \<Rightarrow> obus_buffer" where
  "advance b n = b\<lparr>bpos := bpos b + n\<rparr>"

lemma advance_simps [simp]:
  "bpos (advance b n) = bpos b + n" "blength (advance b n) = blength b"
  "bsize (advance b n) = bsize b" "bdata (advance b n) = bdata b"
  "content (advance b n) = content b" "advance (advance b n) k = advance b (n + k)"
  "advance b 0 = b"
  by (simp_all add: advance_def content_def)

lemma unread_prefix:
  assumes "buf_ok b" "unread b = bs @ rest"
  shows "bs \<noteq> [] \<Longrightarrow> bpos b + length bs \<le> blength b"
    and "i < length bs \<Longrightarrow> bdata b ! (bpos b + i) = bs ! i"
    and "unread (advance b (length bs)) = rest"
    and "buf_ok (advance b (length bs))"
proof -
  have l: "blength b - bpos b = length bs + length rest"
    using length_unread [OF assms(1)] assms(2) by simp
  show le: "bpos b + length bs \<le> blength b" if "bs \<noteq> []"
    using l that by (cases bs) auto
  show "bdata b ! (bpos b + i) = bs ! i" if "i < length bs"
  proof -
    have "bpos b + i < blength b" using le that by fastforce
    then have "unread b ! i = bdata b ! (bpos b + i)"
      using assms(1) by (simp add: unread_def content_def buf_ok_def)
    then show ?thesis using assms(2) that by (simp add: nth_append)
  qed
  have "unread (advance b (length bs)) = drop (length bs) (unread b)"
    by (simp add: unread_def add.commute)
  then show "unread (advance b (length bs)) = rest" using assms(2) by simp
  show "buf_ok (advance b (length bs))"
    using le assms(1) by (cases "bs = []") (auto simp: buf_ok_def)
qed

lemma read_u8_ok:
  assumes "buf_ok b" "unread b = v # rest"
  shows "obus_buffer_read_u8 b = (Inr v, advance b 1)"
  using unread_prefix(1) [OF assms(1), of "[v]" rest] unread_prefix(2) [OF assms(1), of "[v]" rest 0]
    assms buf_okD [OF assms(1)]
  by (simp add: obus_buffer_read_u8_def advance_def)

lemma read_u16_ok:
  assumes "buf_ok b" "unread b = be16 v @ rest"
  shows "obus_buffer_read_u16 b = (Inr v, advance b 2)"
proof -
  obtain x y where v: "be16 v = [x, y]" "of_be16 x y = v" using be16_split by blast
  note p = unread_prefix(1,2) [OF assms]
  have "bdata b ! bpos b = x" "bdata b ! (bpos b + 1) = y" "bpos b + 2 \<le> blength b"
    using p(1) p(2) [of 0] p(2) [of 1] v(1) by simp_all
  then show ?thesis
    using v(2) buf_okD [OF assms(1)] by (simp add: obus_buffer_read_u16_def advance_def)
qed

lemma read_u32_ok:
  assumes "buf_ok b" "unread b = be32 v @ rest"
  shows "obus_buffer_read_u32 b = (Inr v, advance b 4)"
proof -
  obtain x y z w where v: "be32 v = [x, y, z, w]" "of_be32 x y z w = v" using be32_split by blast
  note p = unread_prefix(1,2) [OF assms]
  have "bdata b ! bpos b = x" "bdata b ! (bpos b + 1) = y" "bdata b ! (bpos b + 2) = z"
    "bdata b ! (bpos b + 3) = w" "bpos b + 4 \<le> blength b"
    using p(1) p(2) [of 0] p(2) [of 1] p(2) [of 2] p(2) [of 3] v(1) by simp_all
  then show ?thesis
    using v(2) buf_okD [OF assms(1)] by (simp add: obus_buffer_read_u32_def advance_def)
qed

lemma read_u64_ok:
  assumes "buf_ok b" "unread b = be64 v @ rest"
  shows "obus_buffer_read_u64 b = (Inr v, advance b 8)"
proof -
  obtain s t u w x y z a where v: "be64 v = [s, t, u, w, x, y, z, a]" "of_be64 s t u w x y z a = v"
    using be64_split by blast
  note p = unread_prefix(1,2) [OF assms]
  have "bdata b ! bpos b = s" "bdata b ! (bpos b + 1) = t" "bdata b ! (bpos b + 2) = u"
    "bdata b ! (bpos b + 3) = w" "bdata b ! (bpos b + 4) = x" "bdata b ! (bpos b + 5) = y"
    "bdata b ! (bpos b + 6) = z" "bdata b ! (bpos b + 7) = a" "bpos b + 8 \<le> blength b"
    using p(1) p(2) [of 0] p(2) [of 1] p(2) [of 2] p(2) [of 3] p(2) [of 4] p(2) [of 5] p(2) [of 6]
      p(2) [of 7] v(1) by simp_all
  then show ?thesis
    using v(2) buf_okD [OF assms(1)] by (simp add: obus_buffer_read_u64_def advance_def)
qed

lemma dup_ok:
  assumes "buf_ok b" "unread b = bs @ rest" "bs \<noteq> []" "alloc_ok m (length bs)"
  shows "obus_buffer_dup m b (length bs) = (Inr (Some bs), advance b (length bs))"
proof -
  have le: "bpos b + length bs \<le> blength b" using unread_prefix(1) assms(1-3) by blast
  have "take (length bs) (drop (bpos b) (bdata b)) = take (length bs) (unread b)"
    using le by (simp add: unread_def content_def drop_take)
  then show ?thesis
    using assms le buf_okD [OF assms(1)]
    by (simp add: obus_buffer_dup_def malloc_def advance_def)
qed

lemma takeWhile_zero: "0 \<notin> set s \<Longrightarrow> takeWhile (\<lambda>c. c \<noteq> 0) (s @ 0 # t) = s"
  by (induction s) auto

lemma read_string_ok:
  assumes "buf_ok b" "unread b = wire_string str @ rest" "string_fits str"
    "enough m (length (wire_string str))"
  shows "obus_buffer_read_string m b = (Inr (), Some str, advance b (length (wire_string str)))"
proof -
  let ?t = "case str of None \<Rightarrow> [] | Some s \<Rightarrow> s @ [0]"
  have u: "unread b = be32 (string_size str) @ ?t @ rest"
    using assms(2) by (simp add: wire_string_def)
  note r = read_u32_ok [OF assms(1) u]
  have u2: "unread (advance b 4) = ?t @ rest" "buf_ok (advance b 4)"
    using unread_prefix(3,4) [OF assms(1) u] by simp_all
  show ?thesis
  proof (cases str)
    case None
    then show ?thesis using r
      by (simp add: obus_buffer_read_string_def string_size_def length_wire_string)
  next
    case (Some s)
    note f = string_size_fits [OF assms(3) [unfolded Some]]
    have "obus_buffer_dup m (advance b 4) (length (s @ [0])) = (Inr (Some (s @ [0])), advance b (4 + (length s + 1)))"
      using dup_ok [OF u2(2), of "s @ [0]" rest m] u2(1) Some enough_alloc [OF assms(4)]
      by (simp add: length_wire_string)
    then show ?thesis
      using r f Some assms(3) takeWhile_zero [of s "[]"]
      by (simp add: obus_buffer_read_string_def length_wire_string c_string_def string_fits_def
          word_neq_0_conv add.commute)
  qed
qed

text \<open>Truncated input is refused, and the buffer left as it was, except by the 64-bit read.\<close>

lemma read_short:
  assumes "buf_ok b"
  shows "length (unread b) < 1 \<Longrightarrow> obus_buffer_read_u8 b = (Inl EAGAIN, b)"
    and "length (unread b) < 2 \<Longrightarrow> obus_buffer_read_u16 b = (Inl EINVAL, b)"
    and "length (unread b) < 4 \<Longrightarrow> obus_buffer_read_u32 b = (Inl EAGAIN, b)"
  using buf_okD [OF assms] length_unread [OF assms]
  by (simp_all add: obus_buffer_read_u8_def obus_buffer_read_u16_def obus_buffer_read_u32_def)

lemma dup_short:
  assumes "buf_ok b" "length (unread b) < n" "n < SSIZE_LIMIT"
  shows "obus_buffer_dup m b n = (Inl EAGAIN, b)"
proof -
  have "sz (bpos b + n) = bpos b + n"
    using buf_okD [OF assms(1)] assms(3) by (intro sz_id_half) simp
  moreover have "blength b < bpos b + n" "n \<noteq> 0"
    using assms(2) length_unread [OF assms(1)] by linarith+
  ultimately show ?thesis by (simp add: obus_buffer_dup_def)
qed

section \<open>Removing and searching\<close>

lemma remove_first_content:
  assumes "buf_ok b"
  shows "content (obus_buffer_remove_first b n) = drop n (content b)"
    and "buf_ok (obus_buffer_remove_first b n)"
proof -
  note ok = buf_okD [OF assms]
  let ?c = "take (blength b - n) (drop n (bdata b))"
  have p: "poke (bdata b) 0 ?c = ?c @ drop (length ?c) (bdata b)"
    using poke_eq [of 0 ?c "bdata b"] ok by simp
  have l: "length ?c = blength b - n" using ok by simp
  show "content (obus_buffer_remove_first b n) = drop n (content b)"
    using ok l unfolding obus_buffer_remove_first_def
    by (simp add: content_def p drop_take min_def)
  show "buf_ok (obus_buffer_remove_first b n)"
    using ok by (auto simp: obus_buffer_remove_first_def buf_ok_def)
qed

lemma remove_read_unread:
  assumes "buf_ok b"
  shows "content (obus_buffer_remove_read b) = unread b"
    and "unread (obus_buffer_remove_read b) = unread b"
    and "bpos (obus_buffer_remove_read b) = 0"
    and "buf_ok (obus_buffer_remove_read b)"
proof -
  have c: "content (obus_buffer_remove_read b) = content (obus_buffer_remove_first b (bpos b))"
    by (simp add: obus_buffer_remove_read_def content_def)
  then show u: "content (obus_buffer_remove_read b) = unread b"
    using remove_first_content(1) [OF assms] by (simp add: unread_def)
  show p: "bpos (obus_buffer_remove_read b) = 0"
    by (simp add: obus_buffer_remove_read_def)
  show "unread (obus_buffer_remove_read b) = unread b"
    using u p by (simp add: unread_def [of "obus_buffer_remove_read b"])
  show "buf_ok (obus_buffer_remove_read b)"
    using remove_first_content(2) [OF assms, of "bpos b"]
    by (simp add: obus_buffer_remove_read_def buf_ok_def)
qed

lemma find_spec:
  assumes "buf_ok b"
  shows "obus_buffer_find b off c = int i \<longleftrightarrow>
      off \<le> i \<and> i < blength b \<and> content b ! i = c \<and> (\<forall>j. off \<le> j \<and> j < i \<longrightarrow> content b ! j \<noteq> c)"
proof (induction b off c rule: obus_buffer_find.induct)
  case (1 b off c)
  have nth: "content b ! off = bdata b ! off" if "off < blength b"
    using that by (simp add: content_def)
  consider "off \<ge> blength b" | "off < blength b" "bdata b ! off = c"
    | "off < blength b" "bdata b ! off \<noteq> c" by linarith
  then show ?case
  proof cases
    case 3
    have "(off \<le> i \<and> i < blength b \<and> content b ! i = c \<and> (\<forall>j. off \<le> j \<and> j < i \<longrightarrow> content b ! j \<noteq> c))
      = (Suc off \<le> i \<and> i < blength b \<and> content b ! i = c
          \<and> (\<forall>j. Suc off \<le> j \<and> j < i \<longrightarrow> content b ! j \<noteq> c))"
      using 3 nth by (metis Suc_leD Suc_leI le_neq_implies_less)
    then show ?thesis using 1 3 by (simp add: obus_buffer_find.simps [of b off c])
  qed (use nth in \<open>auto simp: obus_buffer_find.simps [of b off c] not_less\<close>)
qed

lemma find_none:
  "obus_buffer_find b off c = -1 \<longleftrightarrow> (\<forall>i. off \<le> i \<and> i < blength b \<longrightarrow> bdata b ! i \<noteq> c)"
proof (induction b off c rule: obus_buffer_find.induct)
  case (1 b off c)
  show ?case
  proof (cases "off < blength b \<and> bdata b ! off \<noteq> c")
    case True
    then have "(\<forall>i. off \<le> i \<and> i < blength b \<longrightarrow> bdata b ! i \<noteq> c)
        = (\<forall>i. Suc off \<le> i \<and> i < blength b \<longrightarrow> bdata b ! i \<noteq> c)"
      by (metis Suc_leD Suc_leI le_neq_implies_less)
    then show ?thesis using 1 True by (simp add: obus_buffer_find.simps [of b off c])
  qed (auto simp: obus_buffer_find.simps [of b off c])
qed

section \<open>The life of a buffer\<close>

text \<open>
  One step of a client: any operation, with the C caller's obligations as guards (an explicit
  offset does not wrap around, the write offset moves only into the space there is).
\<close>

inductive buf_step :: "memory \<Rightarrow> obus_buffer \<Rightarrow> obus_buffer \<Rightarrow> bool" for m :: memory where
  ref: "buf_step m b (obus_buffer_ref b)"
| unref: "buf_step m b (fst (snd (obus_buffer_unref b pool)))"
| clear: "buf_step m b (obus_buffer_clear b)"
| ensure: "buf_step m b (snd (obus_buffer_ensure_write_space m b n))"
| inc_write: "n \<le> obus_buffer_write_space b \<Longrightarrow> buf_step m b (obus_buffer_inc_write_ptr b n)"
| reserve: "buf_step m b (snd (obus_buffer_reserve m b n))"
| write_at: "off + length bs < 2 ^ 64 \<Longrightarrow> buf_step m b (snd (obus_buffer_write m b off bs))"
| append_u8: "buf_step m b (snd (obus_buffer_append_u8 m b v8))"
| append_u16: "buf_step m b (snd (obus_buffer_append_u16 m b v16))"
| append_u32: "buf_step m b (snd (obus_buffer_append_u32 m b v32))"
| append_u64: "buf_step m b (snd (obus_buffer_append_u64 m b v64))"
| append_string: "buf_step m b (snd (obus_buffer_append_string m b str))"
| write_u8: "off + 1 < 2 ^ 64 \<Longrightarrow> buf_step m b (snd (obus_buffer_write_u8 m b v8 off))"
| write_u16: "off + 2 < 2 ^ 64 \<Longrightarrow> buf_step m b (snd (obus_buffer_write_u16 m b v16 off))"
| write_u32: "off + 4 < 2 ^ 64 \<Longrightarrow> buf_step m b (snd (obus_buffer_write_u32 m b v32 off))"
| write_u64: "off + 8 < 2 ^ 64 \<Longrightarrow> buf_step m b (snd (obus_buffer_write_u64 m b v64 off))"
| set_read: "buf_step m b (snd (obus_buffer_set_read_position b p))"
| inc_read: "buf_step m b (snd (obus_buffer_inc_read_position b p))"
| read_u8: "buf_step m b (snd (obus_buffer_read_u8 b))"
| read_u16: "buf_step m b (snd (obus_buffer_read_u16 b))"
| read_u32: "buf_step m b (snd (obus_buffer_read_u32 b))"
| read_u64: "buf_step m b (snd (obus_buffer_read_u64 b))"
| dup: "buf_step m b (snd (obus_buffer_dup m b n))"
| read_string: "buf_step m b (snd (snd (obus_buffer_read_string m b)))"
| remove_first: "buf_step m b (obus_buffer_remove_first b n)"
| remove_read: "buf_step m b (obus_buffer_remove_read b)"

lemma ensure_realloc_ok_inv:
  assumes "buf_ok b" "sane_memory m"
  shows "buf_ok (snd (obus_buffer_ensure_realloc m b n))"
  using assms by (cases rule: ensure_realloc_cases [where n = n]) (use assms in \<open>auto simp: appended_ok\<close>)

text \<open>Stores through an explicit offset keep the shape of the buffer.\<close>

lemma ensure_poke_ok:
  assumes "buf_ok b" "sane_memory m"
  shows "buf_ok (snd (chk (obus_buffer_ensure_realloc m b n)
          (\<lambda>_ b. (Inr (), b\<lparr>bdata := poke (bdata b) off bs\<rparr>))))"
  using assms
proof (cases rule: ensure_realloc_cases [where n = n])
  case (grown b')
  then show ?thesis using appended_ok [OF grown(2)] by (simp add: buf_ok_def)
qed (use assms in simp)

lemma write_ok_inv:
  assumes "buf_ok b" "sane_memory m" "off + length bs < 2 ^ 64"
  shows "buf_ok (snd (obus_buffer_write m b off bs))"
  using assms(1,2)
proof (cases rule: ensure_realloc_cases [where n = "off + length bs"])
  case (grown b')
  have sz: "sz (off + length bs) = off + length bs" using assms(3) by simp
  have "sz (blength b' + sz (sz_sub off (blength b') + length bs)) = off + length bs"
    by (rule sz_sub_add_back) (use assms(3) buf_okD [OF appended_ok [OF grown(2)]] in simp_all)
  then show ?thesis
    using grown appended_ok [OF grown(2)] sz
    by (simp add: obus_buffer_write_def Let_def buf_ok_def)
qed (use assms in \<open>simp add: obus_buffer_write_def Let_def\<close>)

lemma reserve_ok_inv:
  assumes "buf_ok b" "sane_memory m"
  shows "buf_ok (snd (obus_buffer_reserve m b n))"
  using assms
proof (cases rule: ensure_realloc_cases [where n = "sz (blength b + n)"])
  case (grown b')
  then show ?thesis using appended_ok [OF grown(2)] by (simp add: obus_buffer_reserve_def buf_ok_def)
qed (use assms in \<open>simp add: obus_buffer_reserve_def\<close>)

lemma dup_ok_inv: "buf_ok b \<Longrightarrow> buf_ok (snd (obus_buffer_dup m b n))"
  by (auto simp: obus_buffer_dup_def buf_ok_def malloc_def)

lemma read_ok_inv:
  assumes "buf_ok b"
  shows "buf_ok (snd (obus_buffer_read_u8 b))" "buf_ok (snd (obus_buffer_read_u16 b))"
    "buf_ok (snd (obus_buffer_read_u32 b))" "buf_ok (snd (obus_buffer_read_u64 b))"
  using buf_okD [OF assms]
  by (auto simp: obus_buffer_read_u8_def obus_buffer_read_u16_def obus_buffer_read_u32_def
      obus_buffer_read_u64_def buf_ok_def)

lemma read_string_ok_inv:
  assumes "buf_ok b"
  shows "buf_ok (snd (snd (obus_buffer_read_string m b)))"
proof -
  obtain r b1 where r: "obus_buffer_read_u32 b = (r, b1)" by fastforce
  then have "buf_ok b1" using read_ok_inv(3) [OF assms] by simp
  moreover have "buf_ok (snd (obus_buffer_dup m b1 n))" for n
    using dup_ok_inv [OF \<open>buf_ok b1\<close>] .
  moreover obtain r2 b2 where "obus_buffer_dup m b1 (unat (projr r)) = (r2, b2)" by fastforce
  ultimately show ?thesis
    using r by (cases r; cases r2) (auto simp: obus_buffer_read_string_def, (metis snd_conv)+)
qed

lemma position_ok_inv:
  assumes "buf_ok b"
  shows "buf_ok (obus_buffer_ref b)" "buf_ok (fst (snd (obus_buffer_unref b pool)))"
    "buf_ok (obus_buffer_clear b)" "buf_ok (snd (obus_buffer_set_read_position b p))"
    "buf_ok (snd (obus_buffer_inc_read_position b p))"
    "n \<le> obus_buffer_write_space b \<Longrightarrow> buf_ok (obus_buffer_inc_write_ptr b n)"
proof -
  show "buf_ok (obus_buffer_inc_write_ptr b n)" if "n \<le> obus_buffer_write_space b"
  proof -
    have "sz (blength b + n) = blength b + n" "n \<le> bsize b - blength b"
      using that buf_okD [OF assms] by (simp_all add: obus_buffer_write_space_def)
    moreover from this have "blength b + n \<le> bsize b" using buf_okD(2) [OF assms] by linarith
    ultimately show ?thesis using assms by (simp add: obus_buffer_inc_write_ptr_def buf_ok_def)
  qed
qed (use assms in \<open>auto simp: obus_buffer_ref_def obus_buffer_unref_def obus_buffer_clear_def Let_def
      buf_ok_def obus_buffer_set_read_position_def obus_buffer_inc_read_position_def add.commute\<close>)

lemma append_fixed_ok_inv:
  assumes "buf_ok b" "sane_memory m"
  shows "buf_ok (snd (obus_buffer_append_u8 m b v8))" "buf_ok (snd (obus_buffer_append_u16 m b v16))"
    "buf_ok (snd (obus_buffer_append_u32 m b v32))" "buf_ok (snd (obus_buffer_append_u64 m b v64))"
  by (simp_all add: obus_simps append_bytes_grows [OF assms, THEN grows_ok])

lemma write_fixed_ok_inv:
  assumes "buf_ok b" "sane_memory m"
  shows "buf_ok (snd (obus_buffer_write_u8 m b v8 off))" "buf_ok (snd (obus_buffer_write_u16 m b v16 off))"
    "buf_ok (snd (obus_buffer_write_u32 m b v32 off))" "buf_ok (snd (obus_buffer_write_u64 m b v64 off))"
  unfolding obus_buffer_write_u8_def obus_buffer_write_u16_def obus_buffer_write_u32_def
    obus_buffer_write_u64_def
  by (rule ensure_poke_ok [OF assms])+

lemmas buffer_ok_inv = position_ok_inv append_fixed_ok_inv write_fixed_ok_inv ensure_realloc_ok_inv
  reserve_ok_inv write_ok_inv dup_ok_inv read_ok_inv read_string_ok_inv remove_first_content(2)
  remove_read_unread(4) append_string_grows [THEN grows_ok]

lemma buf_step_ok:
  assumes "buf_step m b b'" "buf_ok b" "sane_memory m"
  shows "buf_ok b'"
  using assms by (induction rule: buf_step.induct)
    (simp_all add: buffer_ok_inv obus_buffer_ensure_write_space_def)

lemma buffer_new_ok:
  assumes "obus_buffer_new m cb n p = Some b" "sane_memory m"
  shows "buf_ok b" "content b = []" "bpos b = 0" "bsize b = n" "brefcnt b = 1" "bpool b = p"
  using assms
  by (auto simp: obus_buffer_new_def malloc_def buf_ok_def content_def sane_memory_def split: if_splits)

end
