(* ===== verification/Obus_Codec.thy ===== *)
theory Obus_Codec
  imports Obus_Buffer
begin

text \<open>
  The contract between the encoders and decoders of libobus and the buffer: the locale
  \<open>wire\<close> says that a writer appends the wire image of a value and that a reader positioned
  before such an image returns the value and consumes exactly the image. What follows from
  it (round trip, unique decoding, sequences of values) is proved once. \<open>wire_strict\<close> adds
  that a reader refuses truncated input. Both are interpreted on the operations of
  \<open>obus_buffer.h\<close>.
\<close>

section \<open>Sequences of values\<close>

type_synonym 'a writer = "memory \<Rightarrow> obus_buffer \<Rightarrow> 'a \<Rightarrow> unit res \<times> obus_buffer"
type_synonym 'a reader = "memory \<Rightarrow> obus_buffer \<Rightarrow> 'a res \<times> obus_buffer"

primrec write_list :: "'a writer \<Rightarrow> memory \<Rightarrow> obus_buffer \<Rightarrow> 'a list \<Rightarrow> unit res \<times> obus_buffer" where
  "write_list wr m b [] = (Inr (), b)"
| "write_list wr m b (v # vs) = chk (wr m b v) (\<lambda>_ b. write_list wr m b vs)"

primrec read_list :: "'a reader \<Rightarrow> memory \<Rightarrow> obus_buffer \<Rightarrow> nat \<Rightarrow> 'a list res \<times> obus_buffer" where
  "read_list rd m b 0 = (Inr [], b)"
| "read_list rd m b (Suc n) =
     chk (rd m b) (\<lambda>v b. chk (read_list rd m b n) (\<lambda>vs b. (Inr (v # vs), b)))"

text \<open>A buffer that holds the given bytes, with nothing read, and a memory that never fails.\<close>

definition buffer_of :: "u8 list \<Rightarrow> obus_buffer" where
  "buffer_of bs = \<lparr>bpool = False, bsize = length bs, blength = length bs, bpos = 0, bdata = bs,
     brefcnt = 1\<rparr>"

definition full_memory :: memory where
  "full_memory = \<lparr>alloc_ok = (\<lambda>n. n < SSIZE_LIMIT), fresh_byte = (\<lambda>_. 0)\<rparr>"

lemma buffer_of_simps [simp]:
  "buf_ok (buffer_of bs) \<longleftrightarrow> length bs < SSIZE_LIMIT"
  "content (buffer_of bs) = bs" "unread (buffer_of bs) = bs" "bpos (buffer_of bs) = 0"
  "blength (buffer_of bs) = length bs"
  by (simp_all add: buffer_of_def buf_ok_def content_def unread_def)

lemma full_memory_simps [simp]:
  "alloc_ok full_memory n \<longleftrightarrow> n < SSIZE_LIMIT" "fresh_byte full_memory i = 0"
  "enough full_memory n \<longleftrightarrow> n < SSIZE_LIMIT" "sane_memory full_memory"
  by (auto simp: enough_def sane_memory_def full_memory_def)

text \<open>\<open>k\<close> bytes further on, the bytes \<open>rest\<close> are what is left to read.\<close>

definition reads_at :: "obus_buffer \<Rightarrow> nat \<Rightarrow> u8 list \<Rightarrow> bool" where
  "reads_at b k rest \<longleftrightarrow> buf_ok (advance b k) \<and> unread (advance b k) = rest"

lemma reads_at_0 [simp]: "reads_at b 0 rest \<longleftrightarrow> buf_ok b \<and> unread b = rest"
  by (simp add: reads_at_def)

lemma reads_at_step: "reads_at b k (bs @ rest) \<Longrightarrow> reads_at b (k + length bs) rest"
  using unread_prefix(3,4) [of "advance b k" bs rest] by (simp add: reads_at_def)

section \<open>The interface\<close>

locale wire =
  fixes wr :: "memory \<Rightarrow> obus_buffer \<Rightarrow> 'a \<Rightarrow> unit res \<times> obus_buffer"
    and rd :: "memory \<Rightarrow> obus_buffer \<Rightarrow> 'a res \<times> obus_buffer"
    and enc :: "'a \<Rightarrow> u8 list"
    and need :: "'a \<Rightarrow> nat"
    and valid :: "'a \<Rightarrow> bool"
  assumes wr_ok: "buf_ok b \<Longrightarrow> valid v \<Longrightarrow> enough m (blength b + length (enc v)) \<Longrightarrow>
      \<exists>b'. wr m b v = (Inr (), b') \<and> appended b b' (enc v)"
    and wr_grows: "buf_ok b \<Longrightarrow> sane_memory m \<Longrightarrow> grows b (snd (wr m b v))"
    and rd_ok: "buf_ok b \<Longrightarrow> valid v \<Longrightarrow> unread b = enc v @ rest \<Longrightarrow> enough m (need v) \<Longrightarrow>
      rd m b = (Inr v, advance b (length (enc v)))"
begin

text \<open>The two laws in the form in which encoders and decoders chain them.\<close>

lemma wr_then:
  assumes "appended b0 b xs" "buf_ok b0" "valid v"
    "enough m (blength b0 + length xs + length (enc v))"
  obtains b' where "wr m b v = (Inr (), b')" "appended b0 b' (xs @ enc v)"
proof -
  have "blength b = blength b0 + length xs" using appended_blength [OF assms(1,2)] .
  with wr_ok [OF appended_ok [OF assms(1)] assms(3)] assms(4) obtain b' where
    "wr m b v = (Inr (), b')" "appended b b' (enc v)" by fastforce
  then show thesis using that appended_trans [OF assms(1)] by blast
qed

lemma rd_then:
  assumes "reads_at b k (enc v @ rest)" "valid v" "enough m (need v)"
  shows "rd m (advance b k) = (Inr v, advance b (k + length (enc v)))"
    and "reads_at b (k + length (enc v)) rest"
  using rd_ok [of "advance b k" v rest m] reads_at_step [OF assms(1)] assms
  by (simp_all add: reads_at_def)

lemma roundtrip:
  assumes "buf_ok b" "unread b = []" "bpos b \<le> blength b" "valid v" "enough m (need v)"
    "enough m (blength b + length (enc v))"
  obtains b' where "wr m b v = (Inr (), b')" "appended b b' (enc v)"
    "rd m b' = (Inr v, advance b' (length (enc v)))" "unread (advance b' (length (enc v))) = []"
proof -
  from wr_ok [OF assms(1,4,6)] obtain b' where
    b': "wr m b v = (Inr (), b')" "appended b b' (enc v)" by blast
  have u: "unread b' = enc v @ []"
    using appended_unread [OF b'(2) assms(3,1)] assms(2) by simp
  show thesis
    using that [OF b'] rd_ok [OF appended_ok [OF b'(2)] assms(4) u assms(5)]
      unread_prefix(3) [OF appended_ok [OF b'(2)] u] by blast
qed

text \<open>The wire images are uniquely decodable: one value and one remainder fit a byte string.\<close>

lemma decode_unique:
  assumes "enc v @ r = enc w @ s" "valid v" "valid w"
    "length (enc v @ r) < SSIZE_LIMIT" "need v < SSIZE_LIMIT" "need w < SSIZE_LIMIT"
  shows "v = w" and "r = s"
proof -
  let ?b = "buffer_of (enc v @ r)"
  have "rd full_memory ?b = (Inr v, advance ?b (length (enc v)))"
    by (rule rd_ok [where rest = r]) (use assms in simp_all)
  moreover have "rd full_memory ?b = (Inr w, advance ?b (length (enc w)))"
    by (rule rd_ok [where rest = s]) (use assms in simp_all)
  ultimately show "v = w" by simp
  then show "r = s" using assms(1) by simp
qed

lemma write_list_ok:
  assumes "buf_ok b" "\<And>v. v \<in> set vs \<Longrightarrow> valid v"
    "enough m (blength b + length (concat (map enc vs)))"
  shows "\<exists>b'. write_list wr m b vs = (Inr (), b') \<and> appended b b' (concat (map enc vs))"
  using assms
proof (induction vs arbitrary: b)
  case (Cons v vs)
  have "enough m (blength b + length (enc v))"
    by (rule enough_mono [OF Cons.prems(3)]) simp
  with wr_ok [OF Cons.prems(1), of v m] obtain b1 where
    b1: "wr m b v = (Inr (), b1)" "appended b b1 (enc v)"
    using Cons.prems(2) by auto
  have "blength b1 = blength b + length (enc v)"
    using appended_blength [OF b1(2) Cons.prems(1)] .
  with Cons.IH [OF appended_ok [OF b1(2)]] Cons.prems(2,3) obtain b2 where
    "write_list wr m b1 vs = (Inr (), b2)" "appended b1 b2 (concat (map enc vs))"
    by (auto simp: add.assoc)
  with b1 appended_trans [OF b1(2)] show ?case by auto
qed simp

lemma write_list_grows:
  assumes "buf_ok b" "sane_memory m"
  shows "grows b (snd (write_list wr m b vs))"
  using assms(1)
proof (induction vs arbitrary: b)
  case (Cons v vs)
  note g = wr_grows [OF Cons.prems assms(2), of v]
  show ?case
    using g grows_trans [OF g Cons.IH [OF grows_ok [OF g]]]
    by (cases "wr m b v"; cases "fst (wr m b v)") auto
qed simp

lemma read_list_ok:
  assumes "buf_ok b" "\<And>v. v \<in> set vs \<Longrightarrow> valid v \<and> enough m (need v)"
    "unread b = concat (map enc vs) @ rest"
  shows "read_list rd m b (length vs) = (Inr vs, advance b (length (concat (map enc vs))))"
  using assms
proof (induction vs arbitrary: b)
  case (Cons v vs)
  then have u: "unread b = enc v @ (concat (map enc vs) @ rest)" by simp
  have "rd m b = (Inr v, advance b (length (enc v)))"
    using rd_ok [OF Cons.prems(1) _ u] Cons.prems(2) by simp
  moreover have "read_list rd m (advance b (length (enc v))) (length vs)
      = (Inr vs, advance b (length (enc v) + length (concat (map enc vs))))"
    using Cons.IH [of "advance b (length (enc v))"] Cons.prems(2)
      unread_prefix(3,4) [OF Cons.prems(1) u] by simp
  ultimately show ?case by simp
qed simp

end

text \<open>A reader that also refuses every proper prefix of a wire image.\<close>

locale wire_strict = wire wr rd enc need valid
  for wr :: "memory \<Rightarrow> obus_buffer \<Rightarrow> 'a \<Rightarrow> unit res \<times> obus_buffer"
    and rd :: "memory \<Rightarrow> obus_buffer \<Rightarrow> 'a res \<times> obus_buffer"
    and enc :: "'a \<Rightarrow> u8 list" and need :: "'a \<Rightarrow> nat" and valid :: "'a \<Rightarrow> bool" +
  assumes rd_short: "buf_ok b \<Longrightarrow> valid v \<Longrightarrow> n < length (enc v) \<Longrightarrow>
      unread b = take n (enc v) \<Longrightarrow> \<exists>e b'. rd m b = (Inl e, b')"
begin

lemma truncated_refused:
  assumes "valid v" "n < length (enc v)" "length (enc v) < SSIZE_LIMIT"
  shows "\<exists>e b'. rd m (buffer_of (take n (enc v))) = (Inl e, b')"
  by (rule rd_short [where v = v and n = n]) (use assms in simp_all)

end

section \<open>The buffer operations keep the contract\<close>

definition read_u8 :: "u8 reader" where "read_u8 m b = obus_buffer_read_u8 b"

definition read_u16 :: "u16 reader" where "read_u16 m b = obus_buffer_read_u16 b"

definition read_u32 :: "u32 reader" where "read_u32 m b = obus_buffer_read_u32 b"

definition read_u64 :: "u64 reader" where "read_u64 m b = obus_buffer_read_u64 b"

text \<open>The string reader with its out-parameter as the result.\<close>

definition read_string :: "u8 list option reader" where
  "read_string m b = (case obus_buffer_read_string m b of
     (Inl e, _, b) \<Rightarrow> (Inl e, b) | (Inr _, s, b) \<Rightarrow> (Inr (the s), b))"

lemmas reader_defs = read_u8_def read_u16_def read_u32_def read_u64_def

lemma fixed_wr_ok:
  assumes "buf_ok b" "enough m (blength b + length bs)"
  shows "\<exists>b'. append_bytes m b bs = (Inr (), b') \<and> appended b b' bs"
  using append_bytes_ok [OF assms] by blast

interpretation w8: wire_strict obus_buffer_append_u8 read_u8 "\<lambda>v. [v]" "\<lambda>_. 0" "\<lambda>_. True"
  by unfold_locales
    (simp_all add: obus_simps fixed_wr_ok append_bytes_grows reader_defs read_u8_ok read_short
      less_Suc0)

interpretation w16: wire_strict obus_buffer_append_u16 read_u16 be16 "\<lambda>_. 0" "\<lambda>_. True"
  by unfold_locales
    (auto simp: obus_simps fixed_wr_ok append_bytes_grows reader_defs read_u16_ok read_short)

interpretation w32: wire_strict obus_buffer_append_u32 read_u32 be32 "\<lambda>_. 0" "\<lambda>_. True"
  by unfold_locales
    (auto simp: obus_simps fixed_wr_ok append_bytes_grows reader_defs read_u32_ok read_short)

interpretation w64: wire obus_buffer_append_u64 read_u64 be64 "\<lambda>_. 0" "\<lambda>_. True"
  by unfold_locales
    (auto simp: obus_simps fixed_wr_ok append_bytes_grows reader_defs read_u64_ok)

lemma read_string_short:
  assumes "buf_ok b" "string_fits str" "n < length (wire_string str)"
    "unread b = take n (wire_string str)"
  shows "\<exists>e b'. read_string m b = (Inl e, b')"
proof (cases "n < 4")
  case True
  then show ?thesis
    using read_short(3) [OF assms(1)] assms(4)
    by (simp add: read_string_def obus_buffer_read_string_def)
next
  case False
  then obtain s where s: "str = Some s" using assms(3) by (auto simp: length_wire_string split: option.splits)
  have u: "unread b = be32 (string_size str) @ take (n - 4) (s @ [0])"
    using assms(4) False s by (simp add: wire_string_def)
  note r = read_u32_ok [OF assms(1) u] and f = string_size_fits [OF assms(2) [unfolded s]]
  have "obus_buffer_dup m (advance b 4) (unat (string_size str)) = (Inl EAGAIN, advance b 4)"
  proof (rule dup_short)
    show "buf_ok (advance b 4)" using unread_prefix(4) [OF assms(1) u] by simp
    show "length (unread (advance b 4)) < unat (string_size str)"
      using unread_prefix(3) [OF assms(1) u] assms(3) s f False by (simp add: length_wire_string)
    show "unat (string_size str) < SSIZE_LIMIT" using f assms(2) s by (simp add: string_fits_def)
  qed
  then show ?thesis
    using r f s by (simp add: read_string_def obus_buffer_read_string_def word_neq_0_conv)
qed

lemma append_string_wr_ok:
  assumes "buf_ok b" "string_fits str" "enough m (blength b + length (wire_string str))"
  shows "\<exists>b'. obus_buffer_append_string m b str = (Inr (), b') \<and> appended b b' (wire_string str)"
  using append_string_ok [OF assms] by blast

interpretation wstr: wire_strict obus_buffer_append_string read_string wire_string
    "\<lambda>s. length (wire_string s)" string_fits
  by unfold_locales
    (simp_all add: append_string_wr_ok append_string_grows read_string_ok read_string_def
      read_string_short [unfolded read_string_def])

section \<open>Properties of the buffer\<close>



text \<open>
  C34. Round trip of the primitive encodings. Values of every primitive type written one after
  the other into a buffer (8, 16, 32 and 64 bit integers, a \<open>char *\<close> that may be NULL, a float
  and a double given by their bit patterns) are read back unchanged and in the same order, and
  reading stops exactly at the end of what was written.
\<close>

theorem buffer_primitives_roundtrip:
  assumes "buf_ok b" "bpos b = blength b" "string_fits s"
    "enough m (blength b + 27 + length (wire_string s))"
  shows "\<exists>b'. chk (obus_buffer_append_u8 m b v8) (\<lambda>_ b.
           chk (obus_buffer_append_u16 m b v16) (\<lambda>_ b.
           chk (obus_buffer_append_string m b s) (\<lambda>_ b.
           chk (obus_buffer_append_u32 m b v32) (\<lambda>_ b.
           chk (obus_buffer_append_u64 m b v64) (\<lambda>_ b.
           chk (obus_buffer_append_f32 m b vf) (\<lambda>_ b. obus_buffer_append_f64 m b vd)))))) = (Inr (), b')
         \<and> chk (obus_buffer_read_u8 b') (\<lambda>r8 b.
           chk (obus_buffer_read_u16 b) (\<lambda>r16 b.
           chk (read_string m b) (\<lambda>rs b.
           chk (obus_buffer_read_u32 b) (\<lambda>r32 b.
           chk (obus_buffer_read_u64 b) (\<lambda>r64 b.
           chk (obus_buffer_read_f32 b) (\<lambda>rf b.
           chk (obus_buffer_read_f64 b) (\<lambda>rd b. (Inr (r8, r16, rs, r32, r64, rf, rd), b))))))))
         = (Inr (v8, v16, s, v32, v64, vf, vd), b'\<lparr>bpos := blength b'\<rparr>)"
proof -
  note en = enough_mono [OF assms(4)]
  from w8.wr_then [of b b "[]" m v8] assms(1) en obtain b1 where
    b1: "obus_buffer_append_u8 m b v8 = (Inr (), b1)" "appended b b1 [v8]" by auto
  from w16.wr_then [OF b1(2) assms(1), of m v16] en obtain b2 where
    b2: "obus_buffer_append_u16 m b1 v16 = (Inr (), b2)" "appended b b2 ([v8] @ be16 v16)" by auto
  from wstr.wr_then [OF b2(2) assms(1,3), of m] en obtain b3 where
    b3: "obus_buffer_append_string m b2 s = (Inr (), b3)"
      "appended b b3 (([v8] @ be16 v16) @ wire_string s)" by auto
  from w32.wr_then [OF b3(2) assms(1), of m v32] en obtain b4 where
    b4: "obus_buffer_append_u32 m b3 v32 = (Inr (), b4)"
      "appended b b4 ((([v8] @ be16 v16) @ wire_string s) @ be32 v32)" by auto
  from w64.wr_then [OF b4(2) assms(1), of m v64] en obtain b5 where
    b5: "obus_buffer_append_u64 m b4 v64 = (Inr (), b5)"
      "appended b b5 (((([v8] @ be16 v16) @ wire_string s) @ be32 v32) @ be64 v64)" by auto
  from w32.wr_then [OF b5(2) assms(1), of m vf] en obtain b6 where
    b6: "obus_buffer_append_u32 m b5 vf = (Inr (), b6)"
      "appended b b6 ((((([v8] @ be16 v16) @ wire_string s) @ be32 v32) @ be64 v64) @ be32 vf)" by auto
  from w64.wr_then [OF b6(2) assms(1), of m vd] en obtain b7 where
    b7: "obus_buffer_append_u64 m b6 vd = (Inr (), b7)"
      "appended b b7 (((((([v8] @ be16 v16) @ wire_string s) @ be32 v32) @ be64 v64) @ be32 vf) @ be64 vd)"
    by auto
  have "reads_at b7 0 ([v8] @ be16 v16 @ wire_string s @ be32 v32 @ be64 v64 @ be32 vf @ be64 vd @ [])"
    using appended_unread [OF b7(2) _ assms(1)] appended_ok [OF b7(2)] assms(1,2)
    by (simp add: unread_def)
  note r1 = w8.rd_then [OF this, of m] and en0 = enough_mono [OF assms(4), of 0]
  note r2 = w16.rd_then [OF r1(2), of m]
  note r3 = wstr.rd_then [OF r2(2), of m]
  note r4 = w32.rd_then [OF r3(2), of m]
  note r5 = w64.rd_then [OF r4(2), of m]
  note r6 = w32.rd_then [OF r5(2), of m]
  note r7 = w64.rd_then [OF r6(2), of m]
  note rs = r1(1) r2(1) r3(1) r4(1) r5(1) r6(1) r7(1)
  have "bpos b7 + (27 + length (wire_string s)) = blength b7"
    using appended_blength [OF b7(2) assms(1)] b7(2) assms(2) by (simp add: appended_def)
  then show ?thesis
    using b1(1) b2(1) b3(1) b4(1) b5(1) b6(1) b7(1) rs assms(3) en0
      enough_mono [OF assms(4), of "length (wire_string s)"]
    by (simp add: obus_buffer_append_f32_def obus_buffer_append_f64_def obus_buffer_read_f32_def
        obus_buffer_read_f64_def reader_defs advance_def add.commute add.left_commute)
qed

lemma buffer_primitives_roundtrip_witness:
  "buf_ok (buffer_of []) \<and> string_fits (Some [111, 107]) \<and>
   (\<exists>b'. chk (obus_buffer_append_u8 full_memory (buffer_of []) 1) (\<lambda>_ b.
           chk (obus_buffer_append_u16 full_memory b 2) (\<lambda>_ b.
           chk (obus_buffer_append_string full_memory b (Some [111, 107])) (\<lambda>_ b.
           chk (obus_buffer_append_u32 full_memory b 3) (\<lambda>_ b.
           chk (obus_buffer_append_u64 full_memory b 4) (\<lambda>_ b.
           chk (obus_buffer_append_f32 full_memory b 5) (\<lambda>_ b.
             obus_buffer_append_f64 full_memory b 6)))))) = (Inr (), b'))"
  using buffer_primitives_roundtrip [of "buffer_of []" "Some [111, 107]" full_memory 1 2 3 4 5 6]
  by (auto simp: string_fits_def length_wire_string)

text \<open>
  Appending a string is all or nothing. Either the buffer grows by exactly the wire image
  of the string, or the call returns \<open>-ENOMEM\<close> and the buffer is untouched, in the latter case
  because the memory refused the block the longer content needs.
\<close>

theorem append_string_all_or_nothing:
  assumes "buf_ok b" "sane_memory m" "string_fits str"
  shows "(\<exists>b'. obus_buffer_append_string m b str = (Inr (), b') \<and> appended b b' (wire_string str))
    \<or> (obus_buffer_append_string m b str = (Inl ENOMEM, b)
       \<and> \<not> alloc_ok m (blength b + length (wire_string str)))"
  using assms by (cases rule: append_string_cases) auto

lemma append_string_all_or_nothing_witness:
  "buf_ok (buffer_of [7]) \<and> sane_memory full_memory \<and> string_fits (Some [104, 105]) \<and>
   (\<exists>b'. obus_buffer_append_string full_memory (buffer_of [7]) (Some [104, 105]) = (Inr (), b')
      \<and> appended (buffer_of [7]) b' (wire_string (Some [104, 105])))"
  using append_string_all_or_nothing [of "buffer_of [7]" full_memory "Some [104, 105]"]
  by (simp add: string_fits_def length_wire_string)

text \<open>
  A truncated string is refused: if only the first \<open>n\<close> bytes of the image of a string have
  arrived, \<open>n\<close> less than all of them, reading the string returns an error.
\<close>

theorem read_string_truncated:
  assumes "string_fits str" "n < length (wire_string str)"
  shows "\<exists>e b'. read_string m (buffer_of (take n (wire_string str))) = (Inl e, b')"
  by (rule wstr.truncated_refused [OF assms]) (use string_space(2) [OF assms(1)] in simp)

lemma read_string_truncated_witness:
  "\<exists>e b'. read_string full_memory (buffer_of (take 6 (wire_string (Some [104, 105])))) = (Inl e, b')"
  by (rule read_string_truncated) (simp_all add: string_fits_def length_wire_string)

text \<open>
  The 64-bit read over-reads. Unlike the other readers, \<open>obus_buffer_read_u64\<close> compares the
  read position with the size of the block and not with the length of the content: on a buffer
  that holds four bytes it succeeds, delivers four bytes that were never written and leaves the
  read position beyond the write offset.
\<close>

theorem read_u64_overreads:
  "\<exists>b. buf_ok b \<and> length (unread b) = 4 \<and> (\<exists>v b'. obus_buffer_read_u64 b = (Inr v, b')
     \<and> v = 0x01020304AABBCCDD \<and> blength b' < bpos b')"
proof -
  let ?b = "\<lparr>bpool = False, bsize = 8, blength = 4, bpos = 0,
    bdata = [1, 2, 3, 4, 0xAA, 0xBB, 0xCC, 0xDD], brefcnt = 1\<rparr> :: obus_buffer"
  have "buf_ok ?b" "length (unread ?b) = 4"
    by (simp_all add: buf_ok_def unread_def content_def)
  moreover have "obus_buffer_read_u64 ?b = (Inr 0x01020304AABBCCDD, ?b\<lparr>bpos := 8\<rparr>)"
    by (simp add: obus_buffer_read_u64_def of_be64_def)
  ultimately show ?thesis by (intro exI [of _ ?b]) simp
qed

text \<open>
  Discarding what was read: \<open>obus_buffer_remove_read\<close> keeps exactly the unread bytes, in
  order, as the new content and resets the read position, and \<open>obus_buffer_remove_first\<close>
  drops exactly the first bytes; neither moves anything out of the block.
\<close>

theorem remove_read_keeps_unread:
  assumes "buf_ok b"
  shows "content (obus_buffer_remove_read b) = unread b \<and> bpos (obus_buffer_remove_read b) = 0
    \<and> buf_ok (obus_buffer_remove_read b)
    \<and> content (obus_buffer_remove_first b n) = drop n (content b)"
  using remove_read_unread [OF assms] remove_first_content [OF assms] by simp

lemma remove_read_keeps_unread_witness:
  "content (obus_buffer_remove_read (advance (buffer_of [1, 2, 3]) 1)) = [2, 3]"
proof -
  have "buf_ok (advance (buffer_of [1, 2, 3]) 1)" by (simp add: buf_ok_def buffer_of_def)
  from remove_read_keeps_unread [OF this] show ?thesis
    by (simp add: unread_def)
qed

end
