(* ===== verification/Obus_List.thy ===== *)
theory Obus_List
  imports Obus_Prelude
begin

text \<open>
  The intrusive doubly linked list of \<open>obus_list.h\<close>, on an explicit store of nodes: a node is
  its address, the store gives its \<open>next\<close> and \<open>prev\<close> pointers. The first part holds one
  definition per function and the loops behind the walking macros; the second part the
  abstraction \<open>dll\<close> of a ring of nodes to a HOL list and what each operation does to it; the
  last part the locale of the list interface, interpreted on the store.
\<close>

section \<open>Nodes and operations\<close>

record obus_node =
  nnext :: addr
  nprev :: addr

type_synonym nodes = "addr \<Rightarrow> obus_node"

definition OBUS_LIST_POISON1 :: addr where "OBUS_LIST_POISON1 = 0xDEADBEEF"

definition OBUS_LIST_POISON2 :: addr where "OBUS_LIST_POISON2 = 0xDEADDEAD"

definition set_next :: "nodes \<Rightarrow> addr \<Rightarrow> addr \<Rightarrow> nodes" where
  "set_next h a v = h(a := (h a)\<lparr>nnext := v\<rparr>)"

definition set_prev :: "nodes \<Rightarrow> addr \<Rightarrow> addr \<Rightarrow> nodes" where
  "set_prev h a v = h(a := (h a)\<lparr>nprev := v\<rparr>)"

definition obus_node_unref :: "nodes \<Rightarrow> addr \<Rightarrow> nodes" where
  "obus_node_unref h node = set_prev (set_next h node OBUS_LIST_POISON1) node OBUS_LIST_POISON2"

definition obus_node_is_unref :: "nodes \<Rightarrow> addr \<Rightarrow> bool" where
  "obus_node_is_unref h node \<longleftrightarrow>
     nnext (h node) = OBUS_LIST_POISON1 \<and> nprev (h node) = OBUS_LIST_POISON2"

definition obus_node_is_ref :: "nodes \<Rightarrow> addr \<Rightarrow> bool" where
  "obus_node_is_ref h node \<longleftrightarrow> \<not> obus_node_is_unref h node"

definition obus_list_init :: "nodes \<Rightarrow> addr \<Rightarrow> nodes" where
  "obus_list_init h l = set_prev (set_next h l l) l l"

definition obus_list_next :: "nodes \<Rightarrow> addr \<Rightarrow> addr \<Rightarrow> addr option" where
  "obus_list_next h l item = (if nnext (h item) \<noteq> l then Some (nnext (h l)) else None)"

definition obus_list_first :: "nodes \<Rightarrow> addr \<Rightarrow> addr" where
  "obus_list_first h l = nnext (h l)"

definition obus_list_is_empty :: "nodes \<Rightarrow> addr \<Rightarrow> bool" where
  "obus_list_is_empty h l \<longleftrightarrow> nnext (h l) = l"

definition obus_list_last :: "nodes \<Rightarrow> addr \<Rightarrow> addr" where
  "obus_list_last h l = nprev (h l)"

definition obus_list_add :: "nodes \<Rightarrow> addr \<Rightarrow> addr \<Rightarrow> addr \<Rightarrow> nodes" where
  "obus_list_add h novel prv nxt =
     (let h = set_prev h nxt novel;
          h = set_next h novel nxt;
          h = set_prev h novel prv
      in set_next h prv novel)"

definition obus_list_add_after :: "nodes \<Rightarrow> addr \<Rightarrow> addr \<Rightarrow> nodes" where
  "obus_list_add_after h node novel = obus_list_add h novel node (nnext (h node))"

definition obus_list_add_before :: "nodes \<Rightarrow> addr \<Rightarrow> addr \<Rightarrow> nodes" where
  "obus_list_add_before h node novel = obus_list_add h novel (nprev (h node)) node"

definition obus_list_detach :: "nodes \<Rightarrow> addr \<Rightarrow> addr \<Rightarrow> nodes" where
  "obus_list_detach h prv nxt = set_next (set_prev h nxt prv) prv nxt"

definition obus_list_del :: "nodes \<Rightarrow> addr \<Rightarrow> nodes" where
  "obus_list_del h node =
     obus_node_unref (obus_list_detach h (nprev (h node)) (nnext (h node))) node"

definition obus_list_del_init :: "nodes \<Rightarrow> addr \<Rightarrow> nodes" where
  "obus_list_del_init h node =
     obus_list_init (obus_list_detach h (nprev (h node)) (nnext (h node))) node"

definition obus_list_replace :: "nodes \<Rightarrow> addr \<Rightarrow> addr \<Rightarrow> nodes" where
  "obus_list_replace h old novel =
     (let h = set_next h novel (nnext (h old));
          h = set_prev h (nnext (h novel)) novel;
          h = set_prev h novel (nprev (h old))
      in set_next h (nprev (h novel)) novel)"

definition obus_list_replace_init :: "nodes \<Rightarrow> addr \<Rightarrow> addr \<Rightarrow> nodes" where
  "obus_list_replace_init h old novel = obus_list_init (obus_list_replace h old novel) old"

definition obus_list_move_after :: "nodes \<Rightarrow> addr \<Rightarrow> addr \<Rightarrow> nodes" where
  "obus_list_move_after h dest from =
     obus_list_add_after (obus_list_detach h (nprev (h from)) (nnext (h from))) dest from"

definition obus_list_move_before :: "nodes \<Rightarrow> addr \<Rightarrow> addr \<Rightarrow> nodes" where
  "obus_list_move_before h dest from =
     obus_list_add_before (obus_list_detach h (nprev (h from)) (nnext (h from))) dest from"

definition obus_list_is_last :: "nodes \<Rightarrow> addr \<Rightarrow> addr \<Rightarrow> bool" where
  "obus_list_is_last h l node \<longleftrightarrow> nprev (h l) = node"

text \<open>
  The loops of the walking macros may run forever on a broken ring, so they are partial. The
  forward walk collects the visited nodes; \<open>obus_list_walk_del\<close> is the safe walk whose body
  deletes the current node, as the destroy functions of libobus do.
\<close>

partial_function (option) walk_from :: "nodes \<Rightarrow> addr \<Rightarrow> addr \<Rightarrow> addr list option" where
  "walk_from h l pos =
     (if pos = l then Some []
      else Option.bind (walk_from h l (nnext (h pos))) (\<lambda>xs. Some (pos # xs)))"

definition obus_list_walk_forward :: "nodes \<Rightarrow> addr \<Rightarrow> addr list option" where
  "obus_list_walk_forward h l = walk_from h l (nnext (h l))"

partial_function (option) walk_back_from :: "nodes \<Rightarrow> addr \<Rightarrow> addr \<Rightarrow> addr list option" where
  "walk_back_from h l pos =
     (if pos = l then Some []
      else Option.bind (walk_back_from h l (nprev (h pos))) (\<lambda>xs. Some (pos # xs)))"

definition obus_list_walk_entry_backward :: "nodes \<Rightarrow> addr \<Rightarrow> addr list option" where
  "obus_list_walk_entry_backward h l = walk_back_from h l (nprev (h l))"

partial_function (option) walk_del :: "nodes \<Rightarrow> addr \<Rightarrow> addr \<Rightarrow> addr \<Rightarrow> nodes option" where
  "walk_del h l pos tmp =
     (if pos = l then Some h
      else (let h' = obus_list_del h pos in walk_del h' l tmp (nnext (h' tmp))))"

definition obus_list_walk_del :: "nodes \<Rightarrow> addr \<Rightarrow> nodes option" where
  "obus_list_walk_del h l = walk_del h l (nnext (h l)) (nnext (h (nnext (h l))))"

partial_function (option) length_from :: "nodes \<Rightarrow> addr \<Rightarrow> addr \<Rightarrow> addr \<Rightarrow> nat \<Rightarrow> nat option" where
  "length_from h l current tmp len =
     (if current = l then Some len else length_from h l tmp (nnext (h tmp)) (sz (len + 1)))"

definition obus_list_length :: "nodes \<Rightarrow> addr \<Rightarrow> nat option" where
  "obus_list_length h l = length_from h l (nnext (h l)) (nnext (h (nnext (h l)))) 0"

section \<open>Abstraction to lists\<close>

text \<open>Consecutive addresses of the list are linked in both directions.\<close>

fun links :: "nodes \<Rightarrow> addr list \<Rightarrow> bool" where
  "links h (a # b # as) \<longleftrightarrow> nnext (h a) = b \<and> nprev (h b) = a \<and> links h (b # as)"
| "links h _ \<longleftrightarrow> True"

text \<open>The list headed by \<open>l\<close> holds the nodes \<open>xs\<close>, in this order.\<close>

definition dll :: "nodes \<Rightarrow> addr \<Rightarrow> addr list \<Rightarrow> bool" where
  "dll h l xs \<longleftrightarrow> distinct (l # xs) \<and> links h (l # xs @ [l])"

lemma links_append: "links h (as @ x # bs) \<longleftrightarrow> links h (as @ [x]) \<and> links h (x # bs)"
proof (induction as)
  case (Cons a as)
  then show ?case by (cases as) auto
qed simp

lemma links_snoc2: "links h (as @ [x, y]) \<longleftrightarrow> links h (as @ [x]) \<and> nnext (h x) = y \<and> nprev (h y) = x"
  using links_append [of h as x "[y]"] by simp

lemma links_cong:
  assumes "\<And>a. a \<in> set (butlast c) \<Longrightarrow> nnext (h' a) = nnext (h a)"
    and "\<And>a. a \<in> set (tl c) \<Longrightarrow> nprev (h' a) = nprev (h a)"
  shows "links h' c = links h c"
  using assms
proof (induction h c rule: links.induct)
  case (1 h a b as)
  have "links h' (b # as) = links h (b # as)"
    by (rule 1) (use 1 in \<open>auto split: if_splits dest: in_set_butlastD\<close>)
  then show ?case using 1(2) [of a] 1(3) [of b] by simp
qed auto

lemma set_next_simps [simp]:
  "nnext (set_next h a v b) = (if b = a then v else nnext (h b))"
  "nprev (set_next h a v b) = nprev (h b)"
  "nnext (set_prev h a v b) = nnext (h b)"
  "nprev (set_prev h a v b) = (if b = a then v else nprev (h b))"
  by (simp_all add: set_next_def set_prev_def)

text \<open>A closed path \<open>c\<close> whose nodes differ, but for its end, which is its start.\<close>

definition simple :: "addr list \<Rightarrow> bool" where
  "simple c \<longleftrightarrow> distinct (tl c) \<and> distinct (butlast c)"

lemma simple_ring: "distinct (l # xs) \<longleftrightarrow> simple (l # xs @ [l])"
  by (auto simp: simple_def butlast_append)

lemma simple_split:
  assumes "simple (as @ p # q # bs)"
  shows "p \<notin> set as" "p \<notin> set (butlast (q # bs))" "q \<notin> set bs" "q \<notin> set (tl (as @ [p]))"
    "set as \<inter> set (butlast (q # bs)) = {}" "set (tl (as @ [p])) \<inter> set bs = {}"
proof -
  have b: "distinct (as @ p # butlast (q # bs))"
    using assms by (simp add: simple_def butlast_append)
  then show "p \<notin> set as" "p \<notin> set (butlast (q # bs))" "set as \<inter> set (butlast (q # bs)) = {}"
    by auto
  have t: "distinct (tl (as @ [p]) @ q # bs)"
    using assms by (cases as) (auto simp: simple_def)
  then show "q \<notin> set bs" "q \<notin> set (tl (as @ [p]))" "set (tl (as @ [p])) \<inter> set bs = {}"
    by auto
qed

text \<open>
  Pointers may change at the two ends of a cut \<open>p\<close>, \<open>q\<close> and at nodes outside the path without
  breaking the links on either side of the cut.
\<close>

lemma links_frame:
  assumes "links h (as @ [p])" "links h (q # bs)" "simple (as @ p # q # bs)"
    and "\<And>a. a \<in> set (as @ p # q # bs) \<Longrightarrow> a \<noteq> p \<Longrightarrow> nnext (h' a) = nnext (h a)"
    and "\<And>a. a \<in> set (as @ p # q # bs) \<Longrightarrow> a \<noteq> q \<Longrightarrow> nprev (h' a) = nprev (h a)"
  shows "links h' (as @ p # x # q # bs) \<longleftrightarrow>
      nnext (h' p) = x \<and> nprev (h' x) = p \<and> nnext (h' x) = q \<and> nprev (h' q) = x"
    and "links h' (as @ p # q # bs) \<longleftrightarrow> nnext (h' p) = q \<and> nprev (h' q) = p"
proof -
  note d = simple_split [OF assms(3)]
  have sub: "set (tl (as @ [p])) \<subseteq> set (as @ [p])" "set (butlast (q # bs)) \<subseteq> set (q # bs)"
    by (cases as) (auto dest: in_set_butlastD split: if_splits)
  have "links h' (as @ [p]) = links h (as @ [p])"
  proof (rule links_cong)
    fix a
    show "nnext (h' a) = nnext (h a)" if "a \<in> set (butlast (as @ [p]))"
      using that d(1) by (intro assms(4)) auto
    show "nprev (h' a) = nprev (h a)" if "a \<in> set (tl (as @ [p]))"
      using that d(4) sub(1) by (intro assms(5)) auto
  qed
  moreover have "links h' (q # bs) = links h (q # bs)"
  proof (rule links_cong)
    fix a
    show "nnext (h' a) = nnext (h a)" if "a \<in> set (butlast (q # bs))"
      using that d(2) sub(2) by (intro assms(4)) auto
    show "nprev (h' a) = nprev (h a)" if "a \<in> set (tl (q # bs))"
      using that d(3) by (intro assms(5)) auto
  qed
  ultimately show "links h' (as @ p # x # q # bs) \<longleftrightarrow>
      nnext (h' p) = x \<and> nprev (h' x) = p \<and> nnext (h' x) = q \<and> nprev (h' q) = x"
    and "links h' (as @ p # q # bs) \<longleftrightarrow> nnext (h' p) = q \<and> nprev (h' q) = p"
    using assms(1,2) links_append [of h' as p "x # q # bs"] links_append [of h' as p "q # bs"]
    by auto
qed

lemma links_insert:
  assumes "links h (as @ p # q # bs)" "simple (as @ p # q # bs)" "nv \<notin> set (as @ p # q # bs)"
  shows "links (obus_list_add h nv p q) (as @ p # nv # q # bs)"
proof -
  note lk = iffD1 [OF links_append [of h as p "q # bs"] assms(1)]
  show ?thesis
    by (subst links_frame(1) [of h]) (use lk assms(2,3) in \<open>auto simp: obus_list_add_def Let_def\<close>)
qed

lemma links_del:
  assumes "links h (as @ p # n # q # bs)" "simple (as @ p # q # bs)" "n \<notin> set (as @ p # q # bs)"
  shows "links (obus_list_del h n) (as @ p # q # bs)"
    and "links (obus_list_del_init h n) (as @ p # q # bs)"
    and "links (obus_list_detach h (nprev (h n)) (nnext (h n))) (as @ p # q # bs)"
proof -
  note lk = iffD1 [OF links_append [of h as p "n # q # bs"] assms(1)]
  note defs = obus_list_del_def obus_list_del_init_def obus_list_detach_def obus_node_unref_def
    obus_list_init_def
  show "links (obus_list_del h n) (as @ p # q # bs)"
    by (subst links_frame(2) [of h]) (use lk assms(2,3) in \<open>auto simp: defs\<close>)
  show "links (obus_list_del_init h n) (as @ p # q # bs)"
    by (subst links_frame(2) [of h]) (use lk assms(2,3) in \<open>auto simp: defs\<close>)
  show "links (obus_list_detach h (nprev (h n)) (nnext (h n))) (as @ p # q # bs)"
    by (subst links_frame(2) [of h]) (use lk assms(2,3) in \<open>auto simp: defs\<close>)
qed

lemma links_replace:
  assumes "links h (as @ p # n # q # bs)" "simple (as @ p # q # bs)" "n \<notin> set (as @ p # q # bs)"
    "nv \<notin> set (n # as @ p # q # bs)"
  shows "links (obus_list_replace h n nv) (as @ p # nv # q # bs)"
proof -
  note lk = iffD1 [OF links_append [of h as p "n # q # bs"] assms(1)]
  show ?thesis
    by (subst links_frame(1) [of h])
      (use lk assms(2,3,4) in \<open>auto simp: obus_list_replace_def Let_def\<close>)
qed

text \<open>A ring cut at an arbitrary place.\<close>

lemma ring_cut:
  obtains as bs where "l # xs @ ys @ [l] = as @ last (l # xs) # hd (ys @ [l]) # bs"
    "\<And>zs. l # xs @ zs @ ys @ [l] = as @ last (l # xs) # zs @ hd (ys @ [l]) # bs"
proof -
  obtain as p where as: "l # xs = as @ [p]" by (metis rev_exhaust list.distinct(1))
  obtain q bs where bs: "ys @ [l] = q # bs" by (cases ys) auto
  have "(l # xs) @ zs @ ys @ [l] = as @ last (l # xs) # zs @ hd (ys @ [l]) # bs" for zs
    unfolding as bs by simp
  from this [of "[]"] this show thesis using that by simp
qed

lemma ring_ends:
  assumes "links h (l # xs @ ys @ [l])"
  shows "nnext (h (last (l # xs))) = hd (ys @ [l])" "nprev (h (hd (ys @ [l]))) = last (l # xs)"
proof -
  obtain as bs where c: "l # xs @ ys @ [l] = as @ last (l # xs) # hd (ys @ [l]) # bs"
    using ring_cut by metis
  have "links h (last (l # xs) # hd (ys @ [l]) # bs)"
    using assms links_append [of h as] unfolding c by blast
  then show "nnext (h (last (l # xs))) = hd (ys @ [l])"
    "nprev (h (hd (ys @ [l]))) = last (l # xs)"
    by (simp_all only: links.simps)
qed

lemma dll_add:
  assumes "dll h l (xs @ ys)" "nv \<notin> set (l # xs @ ys)"
  shows "dll (obus_list_add h nv (last (l # xs)) (hd (ys @ [l]))) l (xs @ nv # ys)"
proof -
  obtain as bs where c: "l # xs @ ys @ [l] = as @ last (l # xs) # hd (ys @ [l]) # bs"
    "l # xs @ [nv] @ ys @ [l] = as @ last (l # xs) # [nv] @ hd (ys @ [l]) # bs"
    using ring_cut by metis
  have "simple (l # xs @ ys @ [l])" "links h (l # xs @ ys @ [l])"
    using assms(1) simple_ring [of l "xs @ ys"] by (simp_all add: dll_def)
  moreover have "nv \<notin> set (l # xs @ ys @ [l])" using assms(2) by auto
  ultimately have "links (obus_list_add h nv (last (l # xs)) (hd (ys @ [l]))) (l # xs @ nv # ys @ [l])"
    using links_insert [of h as "last (l # xs)" "hd (ys @ [l])" bs nv] unfolding c
    using c(2) by simp
  then show ?thesis using assms by (auto simp: dll_def)
qed

lemma dll_del:
  assumes "dll h l (xs @ n # ys)"
  shows "dll (obus_list_del h n) l (xs @ ys)" "obus_node_is_unref (obus_list_del h n) n"
    "dll (obus_list_detach h (nprev (h n)) (nnext (h n))) l (xs @ ys)"
    "dll (obus_list_del_init h n) l (xs @ ys)" "dll (obus_list_del_init h n) n []"
proof -
  obtain as bs where c: "l # xs @ ys @ [l] = as @ last (l # xs) # hd (ys @ [l]) # bs"
    "l # xs @ [n] @ ys @ [l] = as @ last (l # xs) # [n] @ hd (ys @ [l]) # bs"
    using ring_cut by metis
  have "simple (l # xs @ ys @ [l])" "links h (l # xs @ [n] @ ys @ [l])" "n \<notin> set (l # xs @ ys @ [l])"
    using assms simple_ring [of l "xs @ ys"] by (simp_all add: dll_def)
  then have *: "simple (as @ last (l # xs) # hd (ys @ [l]) # bs)"
    "links h (as @ last (l # xs) # n # hd (ys @ [l]) # bs)"
    "n \<notin> set (as @ last (l # xs) # hd (ys @ [l]) # bs)"
    unfolding c by simp_all
  note k = links_del [OF *(2,1,3), folded c(1)]
  show "dll (obus_list_del h n) l (xs @ ys)"
    "dll (obus_list_detach h (nprev (h n)) (nnext (h n))) l (xs @ ys)"
    "dll (obus_list_del_init h n) l (xs @ ys)"
    using k assms by (auto simp: dll_def)
  show "obus_node_is_unref (obus_list_del h n) n"
    by (simp add: obus_node_is_unref_def obus_list_del_def obus_node_unref_def)
  show "dll (obus_list_del_init h n) n []"
    by (simp add: dll_def obus_list_del_init_def obus_list_init_def)
qed

lemma dll_distinct: "dll h l xs \<Longrightarrow> distinct (l # xs)"
  by (simp add: dll_def)

lemma dll_links:
  assumes "dll h l (xs @ ys)"
  shows "nnext (h (last (l # xs))) = hd (ys @ [l])" "nprev (h (hd (ys @ [l]))) = last (l # xs)"
  using ring_ends [of h l xs ys] assms by (simp_all add: dll_def)

lemma dll_init: "dll (obus_list_init h l) l []"
  by (simp add: dll_def obus_list_init_def)

lemma dll_add_before:
  assumes "dll h l (xs @ ys)" "nv \<notin> set (l # xs @ ys)"
  shows "dll (obus_list_add_before h (hd (ys @ [l])) nv) l (xs @ nv # ys)"
  using dll_add [OF assms] dll_links(2) [OF assms(1)] by (simp add: obus_list_add_before_def)

lemma dll_add_after:
  assumes "dll h l (xs @ ys)" "nv \<notin> set (l # xs @ ys)"
  shows "dll (obus_list_add_after h (last (l # xs)) nv) l (xs @ nv # ys)"
  using dll_add [OF assms] dll_links(1) [OF assms(1)] by (simp add: obus_list_add_after_def)

lemma dll_add_last:
  assumes "dll h l xs" "nv \<notin> set (l # xs)"
  shows "dll (obus_list_add_before h l nv) l (xs @ [nv])"
  using dll_add_before [of h l xs "[]" nv] assms by simp

lemma dll_replace:
  assumes "dll h l (xs @ n # ys)" "nv \<notin> set (l # xs @ n # ys)"
  shows "dll (obus_list_replace h n nv) l (xs @ nv # ys)"
proof -
  obtain as bs where c: "l # xs @ ys @ [l] = as @ last (l # xs) # hd (ys @ [l]) # bs"
    "\<And>zs. l # xs @ zs @ ys @ [l] = as @ last (l # xs) # zs @ hd (ys @ [l]) # bs"
    using ring_cut by metis
  have "simple (l # xs @ ys @ [l])" "links h (l # xs @ [n] @ ys @ [l])" "n \<notin> set (l # xs @ ys @ [l])"
    "nv \<notin> set (n # l # xs @ ys @ [l])"
    using assms simple_ring [of l "xs @ ys"] by (simp_all add: dll_def)
  then have *: "simple (as @ last (l # xs) # hd (ys @ [l]) # bs)"
    "links h (as @ last (l # xs) # n # hd (ys @ [l]) # bs)"
    "n \<notin> set (as @ last (l # xs) # hd (ys @ [l]) # bs)"
    "nv \<notin> set (n # as @ last (l # xs) # hd (ys @ [l]) # bs)"
    unfolding c by simp_all
  have "links (obus_list_replace h n nv) (l # xs @ [nv] @ ys @ [l])"
    using links_replace [OF *(2,1,3,4)] unfolding c(2) by simp
  then show ?thesis using assms by (auto simp: dll_def)
qed

text \<open>Moving a node to the end of a list, as \<open>obus_list_move_before\<close> on the head does.\<close>

lemma dll_move_last:
  assumes "dll h l (xs @ n # ys)"
  shows "dll (obus_list_move_before h l n) l (xs @ ys @ [n])"
proof -
  have "n \<notin> set (l # xs @ ys)" using assms by (auto simp: dll_def)
  then show ?thesis
    using dll_add_last [OF dll_del(3) [OF assms]] by (simp add: obus_list_move_before_def)
qed

lemma dll_frame:
  assumes "\<And>a. a \<in> set (k # zs) \<Longrightarrow> h' a = h a"
  shows "dll h' k zs = dll h k zs"
proof -
  have "links h' (k # zs @ [k]) = links h (k # zs @ [k])"
    by (rule links_cong) (use assms in \<open>auto dest: in_set_butlastD split: if_splits\<close>)
  then show ?thesis by (simp add: dll_def)
qed

lemma add_before_frame:
  assumes "dll h l xs" "a \<notin> set (nv # l # xs)"
  shows "obus_list_add_before h l nv a = h a"
proof -
  have "nprev (h l) = last (l # xs)" using dll_links(2) [of h l xs "[]"] assms(1) by simp
  then have "nprev (h l) \<in> set (l # xs)" using last_in_set [of "l # xs"] by (simp del: last.simps)
  then show ?thesis using assms(2)
    by (auto simp: obus_list_add_before_def obus_list_add_def set_next_def set_prev_def Let_def)
qed

lemma del_frame:
  assumes "dll h l (xs @ n # ys)" "a \<notin> set (l # xs @ n # ys)"
  shows "obus_list_del h n a = h a"
proof -
  have "nprev (h n) = last (l # xs)" "nnext (h n) = hd (ys @ [l])"
    using dll_links(2) [of h l xs "n # ys"] dll_links(1) [of h l "xs @ [n]" ys] assms(1) by simp_all
  then have "nprev (h n) \<in> set (l # xs)" "nnext (h n) \<in> set (l # ys)"
    using last_in_set [of "l # xs"] hd_in_set [of "ys @ [l]"] by (auto simp del: last.simps)
  then show ?thesis using assms(2)
    by (auto simp: obus_list_del_def obus_list_detach_def obus_node_unref_def set_next_def set_prev_def)
qed

section \<open>Walking\<close>

lemma dll_next: "dll h l (xs @ n # ys) \<Longrightarrow> nnext (h n) = hd (ys @ [l])"
  using dll_links(1) [of h l "xs @ [n]" ys] by simp

lemma dll_prev: "dll h l (xs @ n # ys) \<Longrightarrow> nprev (h n) = last (l # xs)"
  using dll_links(2) [of h l xs "n # ys"] by simp

lemma walk_from_dll: "dll h l (xs @ ys) \<Longrightarrow> walk_from h l (hd (ys @ [l])) = Some ys"
proof (induction ys arbitrary: xs)
  case (Cons n ys)
  from Cons.IH [of "xs @ [n]"] Cons.prems have "walk_from h l (nnext (h n)) = Some ys"
    using dll_next [OF Cons.prems] by simp
  moreover have "n \<noteq> l" using dll_distinct [OF Cons.prems] by auto
  ultimately show ?case by (subst walk_from.simps) simp
qed (simp add: walk_from.simps)

lemma walk_forward_dll: "dll h l xs \<Longrightarrow> obus_list_walk_forward h l = Some xs"
  using walk_from_dll [of h l "[]" xs] dll_links(1) [of h l "[]" xs]
  by (simp add: obus_list_walk_forward_def)

lemma walk_back_dll: "dll h l (xs @ ys) \<Longrightarrow> walk_back_from h l (last (l # xs)) = Some (rev xs)"
proof (induction xs arbitrary: ys rule: rev_induct)
  case (snoc n xs)
  then have d: "dll h l (xs @ n # ys)" by simp
  from snoc.IH [of "n # ys"] d have "walk_back_from h l (nprev (h n)) = Some (rev xs)"
    using dll_prev [OF d] by simp
  moreover have "n \<noteq> l" using dll_distinct [OF d] by auto
  ultimately show ?case by (subst walk_back_from.simps) simp
qed (simp add: walk_back_from.simps)

lemma walk_backward_dll: "dll h l xs \<Longrightarrow> obus_list_walk_entry_backward h l = Some (rev xs)"
  using walk_back_dll [of h l xs "[]"] dll_links(2) [of h l xs "[]"]
  by (simp add: obus_list_walk_entry_backward_def)

lemma length_from_dll:
  "dll h l (xs @ ys) \<Longrightarrow> len + length ys < 2 ^ 64 \<Longrightarrow>
   length_from h l (hd (ys @ [l])) (nnext (h (hd (ys @ [l])))) len = Some (len + length ys)"
proof (induction ys arbitrary: xs len)
  case (Cons n ys)
  from Cons.IH [of "xs @ [n]" "len + 1"] Cons.prems
  have "length_from h l (nnext (h n)) (nnext (h (nnext (h n)))) (sz (len + 1)) = Some (len + 1 + length ys)"
    using dll_next [OF Cons.prems(1)] by simp
  moreover have "n \<noteq> l" using dll_distinct [OF Cons.prems(1)] by auto
  ultimately show ?case by (subst length_from.simps) simp
qed (simp add: length_from.simps)

lemma length_dll: "dll h l xs \<Longrightarrow> length xs < 2 ^ 64 \<Longrightarrow> obus_list_length h l = Some (length xs)"
  using length_from_dll [of h l "[]" xs 0] dll_links(1) [of h l "[]" xs]
  by (simp add: obus_list_length_def)

text \<open>The safe walk that deletes every node ends, and leaves the list empty.\<close>

lemma walk_del_dll:
  assumes "dll h l xs"
  shows "\<exists>h'. walk_del h l (hd (xs @ [l])) (nnext (h (hd (xs @ [l])))) = Some h' \<and> dll h' l []
    \<and> (\<forall>n\<in>set xs. obus_node_is_unref h' n) \<and> (\<forall>a. a \<notin> set (l # xs) \<longrightarrow> h' a = h a)"
  using assms
proof (induction xs arbitrary: h)
  case (Cons n xs)
  let ?h = "obus_list_del h n"
  have d: "dll ?h l xs" and u: "obus_node_is_unref ?h n"
    using dll_del(1,2) [of h l "[]" n xs] Cons.prems by simp_all
  have n: "n \<noteq> l" "n \<notin> set (l # xs)" using dll_distinct [OF Cons.prems] by auto
  have nx: "nnext (h n) = hd (xs @ [l])" using dll_next [of h l "[]" n xs] Cons.prems by simp
  from Cons.IH [OF d] obtain h' where
    h': "walk_del ?h l (hd (xs @ [l])) (nnext (?h (hd (xs @ [l])))) = Some h'" "dll h' l []"
      "\<forall>n\<in>set xs. obus_node_is_unref h' n" "\<forall>a. a \<notin> set (l # xs) \<longrightarrow> h' a = ?h a" by blast
  have "walk_del h l n (nnext (h n)) = Some h'"
    using h'(1) n(1) nx by (subst walk_del.simps) (simp add: Let_def)
  moreover have "obus_node_is_unref h' n" using u h'(4) n(2) by (simp add: obus_node_is_unref_def)
  moreover have "\<forall>a. a \<notin> set (l # n # xs) \<longrightarrow> h' a = h a"
    using h'(4) del_frame [of h l "[]" n xs] Cons.prems by auto
  ultimately show ?case using h'(2,3) by auto
qed (simp add: walk_del.simps)

section \<open>The list interface\<close>

locale intrusive_list =
  fixes rep :: "'h \<Rightarrow> 'a \<Rightarrow> 'a list \<Rightarrow> bool"
    and linit :: "'h \<Rightarrow> 'a \<Rightarrow> 'h"
    and ladd :: "'h \<Rightarrow> 'a \<Rightarrow> 'a \<Rightarrow> 'h"
    and ldel :: "'h \<Rightarrow> 'a \<Rightarrow> 'h"
  assumes rep_init: "rep (linit h l) l []"
    and rep_distinct: "rep h l xs \<Longrightarrow> distinct (l # xs)"
    and rep_add: "rep h l xs \<Longrightarrow> n \<notin> set (l # xs) \<Longrightarrow> rep (ladd h l n) l (xs @ [n])"
    and rep_del: "rep h l (xs @ n # ys) \<Longrightarrow> rep (ldel h n) l (xs @ ys)"
    and frame_add: "rep h l xs \<Longrightarrow> rep h k zs \<Longrightarrow> set (k # zs) \<inter> set (n # l # xs) = {} \<Longrightarrow>
      rep (ladd h l n) k zs"
    and frame_del: "rep h l (xs @ n # ys) \<Longrightarrow> rep h k zs \<Longrightarrow> set (k # zs) \<inter> set (l # xs @ n # ys) = {} \<Longrightarrow>
      rep (ldel h n) k zs"
begin

text \<open>Adding nodes one after the other builds the list in that order.\<close>

lemma build:
  assumes "distinct (l # ns)"
  shows "rep (foldl (\<lambda>h. ladd h l) (linit h l) ns) l ns"
  using assms
proof (induction ns rule: rev_induct)
  case (snoc n ns)
  then show ?case using rep_add [of _ l ns n] by auto
qed (simp add: rep_init)

text \<open>A node that changes list leaves one and becomes the last of the other.\<close>

lemma transfer:
  assumes "rep h l (xs @ n # ys)" "rep h k zs" "set (k # zs) \<inter> set (l # xs @ n # ys) = {}"
  shows "rep (ladd (ldel h n) k n) l (xs @ ys)" "rep (ladd (ldel h n) k n) k (zs @ [n])"
proof -
  have k: "rep (ldel h n) k zs" using frame_del [OF assms] .
  have l: "rep (ldel h n) l (xs @ ys)" using rep_del [OF assms(1)] .
  have "n \<notin> set (k # zs)" "n \<notin> set (l # xs @ ys)"
    using assms(3) rep_distinct [OF assms(1)] by auto
  then show "rep (ladd (ldel h n) k n) l (xs @ ys)" "rep (ladd (ldel h n) k n) k (zs @ [n])"
    using rep_add [OF k] frame_add [OF k l] assms(3) by auto
qed

end

interpretation obl: intrusive_list dll obus_list_init obus_list_add_before obus_list_del
proof unfold_locales
  fix h l xs k zs n
  assume "dll h l xs" "dll h k zs" "set (k # zs) \<inter> set (n # l # xs) = {}"
  then show "dll (obus_list_add_before h l n) k zs"
    using dll_frame [of k zs "obus_list_add_before h l n" h] add_before_frame [of h l xs _ n] by blast
next
  fix h l xs n ys k zs
  assume "dll h l (xs @ n # ys)" "dll h k zs" "set (k # zs) \<inter> set (l # xs @ n # ys) = {}"
  then show "dll (obus_list_del h n) k zs"
    using dll_frame [of k zs "obus_list_del h n" h] del_frame [of h l xs n ys] by blast
qed (use dll_init dll_distinct dll_add_last dll_del(1) in blast)+

section \<open>Properties of the list\<close>

text \<open>
  C31. The list operations implement sequences. On a ring that represents \<open>xs @ ys\<close>, adding a
  node that is not yet in it before the first node of \<open>ys\<close> (or the head, when \<open>ys\<close> is empty)
  gives a ring for \<open>xs @ nv # ys\<close>; deleting that node again gives back \<open>xs @ ys\<close> and marks the
  node as unreferenced; walking forward visits exactly the nodes in order and backward in
  reverse order, and the length loop counts them.
\<close>

theorem list_operations_refine:
  assumes "dll h l (xs @ ys)" "nv \<notin> set (l # xs @ ys)" "length (xs @ ys) < 2 ^ 64 - 1"
  shows "\<exists>h'. h' = obus_list_add_before h (hd (ys @ [l])) nv \<and> dll h' l (xs @ nv # ys)
    \<and> obus_list_walk_forward h' l = Some (xs @ nv # ys)
    \<and> obus_list_walk_entry_backward h' l = Some (rev (xs @ nv # ys))
    \<and> obus_list_length h' l = Some (length (xs @ ys) + 1)
    \<and> dll (obus_list_del h' nv) l (xs @ ys) \<and> obus_node_is_unref (obus_list_del h' nv) nv
    \<and> (obus_list_is_empty h l \<longleftrightarrow> xs @ ys = [])"
proof -
  let ?h = "obus_list_add_before h (hd (ys @ [l])) nv"
  have d: "dll ?h l (xs @ nv # ys)" using dll_add_before [OF assms(1,2)] .
  have "obus_list_length ?h l = Some (length (xs @ ys) + 1)"
    using length_dll [OF d] assms(3) by simp
  moreover have "obus_list_is_empty h l \<longleftrightarrow> xs @ ys = []"
    using dll_links(1) [of h l "[]" "xs @ ys"] assms(1) dll_distinct [OF assms(1)]
    by (cases "xs @ ys") (auto simp: obus_list_is_empty_def)
  ultimately show ?thesis
    using d walk_forward_dll [OF d] walk_backward_dll [OF d] dll_del(1,2) [OF d] by blast
qed

text \<open>A concrete store: the head at 1, nodes 2 and 3.\<close>

definition sample_nodes :: nodes where
  "sample_nodes = obus_list_add_before (obus_list_add_before (obus_list_init (\<lambda>_. \<lparr>nnext = 0, nprev = 0\<rparr>) 1) 1 2) 1 3"

lemma sample_dll: "dll sample_nodes 1 [2, 3]"
  using obl.build [of 1 "[2, 3]" "\<lambda>_. \<lparr>nnext = 0, nprev = 0\<rparr>"] by (simp add: sample_nodes_def)

lemma list_operations_refine_witness:
  "dll sample_nodes 1 [2, 3] \<and>
   obus_list_walk_forward (obus_list_add_before sample_nodes 3 7) 1 = Some [2, 7, 3]"
  using list_operations_refine [of sample_nodes 1 "[2]" "[3]" 7] sample_dll by simp

text \<open>
  C32. Destroying a list. The walk that survives deletion of the current node, with a body that
  deletes it (the shape of every destroy loop of libobus), terminates on every well-formed
  list, leaves the head empty, marks every node unreferenced and touches no other node.
\<close>

theorem walk_del_empties:
  assumes "dll h l xs"
  shows "\<exists>h'. obus_list_walk_del h l = Some h' \<and> dll h' l []
    \<and> (\<forall>n\<in>set xs. obus_node_is_unref h' n) \<and> (\<forall>a. a \<notin> set (l # xs) \<longrightarrow> h' a = h a)"
  using walk_del_dll [OF assms] dll_links(1) [of h l "[]" xs] assms
  by (simp add: obus_list_walk_del_def)

lemma walk_del_empties_witness:
  "\<exists>h'. obus_list_walk_del sample_nodes 1 = Some h' \<and> dll h' 1 [] \<and> obus_node_is_unref h' 3"
  using walk_del_empties [OF sample_dll] by auto

text \<open>
  \<open>obus_list_next\<close> does not give the next node: for every node that is not the last one it
  returns the first node of the list, whatever node it is asked about.
\<close>

theorem list_next_returns_first:
  assumes "dll h l (xs @ n # y # ys)"
  shows "obus_list_next h l n = Some (hd (xs @ [n]))"
proof -
  have "nnext (h n) = y" "y \<noteq> l" "nnext (h l) = hd (xs @ [n])"
    using dll_next [OF assms] dll_distinct [OF assms] dll_links(1) [of h l "[]" "xs @ n # y # ys"] assms
    by (auto simp: hd_append)
  then show ?thesis by (simp add: obus_list_next_def)
qed

lemma list_next_returns_first_witness:
  "obus_list_next sample_nodes 1 2 = Some 2"
  using list_next_returns_first [of sample_nodes 1 "[]" 2 3 "[]"] sample_dll by simp

end
