(* ===== verification/Obus_Hash.thy ===== *)
theory Obus_Hash
  imports Obus_Prelude
begin

text \<open>
  The hash table of \<open>obus_hash.c\<close>: chained buckets of entries with 32-bit keys and the list of
  all entries in insertion order. The first part holds the operations; the second the
  invariant \<open>hash_ok\<close>, the abstraction \<open>hash_map\<close> of a table to a map and what the
  operations do to both; the last part the locale of keyed stores, which the bus and the bus
  description rely on, interpreted on the table.
\<close>

section \<open>Data and operations\<close>

record 'd obus_hash_entry =
  is_const :: bool
  edata :: 'd
  ekey :: u32

text \<open>
  A bucket is the chain of entries from its head on; \<open>entries\<close> is the list headed by the node
  of the same name. A table whose memory was cleared by the destroy function has no buckets.
\<close>

record 'd obus_hash =
  buckets :: "'d obus_hash_entry list list"
  hsize :: u32
  entries :: "'d obus_hash_entry list"

definition hash_prime_tab :: "u32 list" where
  "hash_prime_tab = [1, 2, 3, 7, 13, 31, 61, 127, 251, 509, 1021, 2039, 4093, 8191, 16381, 32749,
     65521, 131071, 262139, 524287, 1048573, 2097143, 4194301, 8388593, 16777213, 33554393,
     67108859, 134217689, 268435399, 536870909, 1073741789, 2147483647]"

definition MULT33 :: "u32 \<Rightarrow> u32" where
  "MULT33 x = push_bit 5 x + x"

definition obus_hash_32 :: "u32 \<Rightarrow> u32" where
  "obus_hash_32 key =
     (let hash = MULT33 5381 + (key AND 0xff);
          key = drop_bit 8 key;
          hash = MULT33 hash + (key AND 0xff);
          key = drop_bit 8 key;
          hash = MULT33 hash + (key AND 0xff);
          key = drop_bit 8 key
      in MULT33 hash + (key AND 0xff))"

text \<open>The loop of \<open>obus_hash_init\<close> that looks for the first prime above the wanted size.\<close>

function prime_index :: "nat \<Rightarrow> nat \<Rightarrow> nat" where
  "prime_index n i =
     (if unat (hash_prime_tab ! i) \<le> n \<and> i + 1 < length hash_prime_tab
      then prime_index n (i + 1) else i)"
  by pat_completeness auto
termination
  by (relation "measure (\<lambda>(n, i). length hash_prime_tab - i)") auto

declare prime_index.simps [simp del]

definition sizeof_ptr :: nat where "sizeof_ptr = 8"

definition sizeof_hash_entry :: nat where "sizeof_hash_entry = 48"

text \<open>
  The return value is 0 on every path; \<open>None\<close> says that the buckets could not be allocated, in
  which case the function has freed the table itself.
\<close>

definition obus_hash_init :: "memory \<Rightarrow> nat \<Rightarrow> unit res \<times> 'd obus_hash option" where
  "obus_hash_init m n =
     (let p = hash_prime_tab ! prime_index n 0 in
      if alloc_ok m (unat p * sizeof_ptr)
      then (Inr (), Some \<lparr>buckets = replicate (unat p) [], hsize = p, entries = []\<rparr>)
      else (Inr (), None))"

definition obus_hash_destroy :: "'d obus_hash \<Rightarrow> 'd obus_hash" where
  "obus_hash_destroy hash = \<lparr>buckets = [], hsize = 0, entries = []\<rparr>"

definition bucket_of :: "'d obus_hash \<Rightarrow> u32 \<Rightarrow> nat" where
  "bucket_of hash key = unat (obus_hash_32 key mod hsize hash)"

fun has_key :: "'d obus_hash_entry list \<Rightarrow> u32 \<Rightarrow> bool" where
  "has_key [] key = False"
| "has_key (e # es) key = (if ekey e = key then True else has_key es key)"

definition obus_hash_insert_entry ::
  "'d obus_hash \<Rightarrow> u32 \<Rightarrow> 'd obus_hash_entry \<Rightarrow> unit res \<times> 'd obus_hash" where
  "obus_hash_insert_entry hash key new_entry =
     (let hash_val = bucket_of hash key in
      if has_key (buckets hash ! hash_val) key then (Inl EEXIST, hash)
      else (Inr (), hash\<lparr>buckets := (buckets hash)[hash_val := new_entry # buckets hash ! hash_val],
                        entries := entries hash @ [new_entry]\<rparr>))"

definition obus_hash_insert :: "memory \<Rightarrow> 'd obus_hash \<Rightarrow> u32 \<Rightarrow> 'd \<Rightarrow> unit res \<times> 'd obus_hash" where
  "obus_hash_insert m hash key d =
     (if \<not> alloc_ok m sizeof_hash_entry then (Inl ENOMEM, hash)
      else obus_hash_insert_entry hash key \<lparr>is_const = False, edata = d, ekey = key\<rparr>)"

definition obus_hash_insert_const :: "memory \<Rightarrow> 'd obus_hash \<Rightarrow> u32 \<Rightarrow> 'd \<Rightarrow> unit res \<times> 'd obus_hash" where
  "obus_hash_insert_const m hash key d =
     (if \<not> alloc_ok m sizeof_hash_entry then (Inl ENOMEM, hash)
      else obus_hash_insert_entry hash key \<lparr>is_const = True, edata = d, ekey = key\<rparr>)"

fun find_key :: "'d obus_hash_entry list \<Rightarrow> u32 \<Rightarrow> 'd obus_hash_entry option" where
  "find_key [] key = None"
| "find_key (e # es) key = (if ekey e \<noteq> key then find_key es key else Some e)"

definition obus_hash_lookup_entry :: "'d obus_hash \<Rightarrow> u32 \<Rightarrow> 'd obus_hash_entry res" where
  "obus_hash_lookup_entry tab key =
     (case find_key (buckets tab ! bucket_of tab key) key of None \<Rightarrow> Inl ENOENT | Some e \<Rightarrow> Inr e)"

definition obus_hash_lookup :: "'d obus_hash \<Rightarrow> u32 \<Rightarrow> 'd res" where
  "obus_hash_lookup hash key =
     (case obus_hash_lookup_entry hash key of
        Inl e \<Rightarrow> Inl e
      | Inr entry \<Rightarrow> if is_const entry then Inl EPERM else Inr (edata entry))"

definition obus_hash_lookup_const :: "'d obus_hash \<Rightarrow> u32 \<Rightarrow> 'd res" where
  "obus_hash_lookup_const hash key =
     (case obus_hash_lookup_entry hash key of Inl e \<Rightarrow> Inl e | Inr entry \<Rightarrow> Inr (edata entry))"

text \<open>Unlinking from a chain with the previous entry in hand: the found entry and the new chain.\<close>

fun unlink_key :: "'d obus_hash_entry list \<Rightarrow> u32 \<Rightarrow> ('d obus_hash_entry \<times> 'd obus_hash_entry list) option" where
  "unlink_key [] key = None"
| "unlink_key (e # es) key =
     (if ekey e \<noteq> key then map_option (\<lambda>(f, fs). (f, e # fs)) (unlink_key es key) else Some (e, es))"

definition obus_hash_remove :: "'d obus_hash \<Rightarrow> u32 \<Rightarrow> unit res \<times> 'd obus_hash" where
  "obus_hash_remove tab key =
     (let hash = bucket_of tab key in
      case unlink_key (buckets tab ! hash) key of
        None \<Rightarrow> (Inl ENOENT, tab)
      | Some (e, es) \<Rightarrow> (Inr (), tab\<lparr>buckets := (buckets tab)[hash := es],
                                    entries := remove1 e (entries tab)\<rparr>))"

section \<open>Invariant and abstraction\<close>

text \<open>
  Every entry sits in the chain its key selects, the chains and the list of entries hold the
  same entries, and no key occurs twice.
\<close>

definition hash_ok :: "'d obus_hash \<Rightarrow> bool" where
  "hash_ok h \<longleftrightarrow> hsize h > 0 \<and> length (buckets h) = unat (hsize h)
     \<and> (\<forall>i<length (buckets h). distinct (map ekey (buckets h ! i))
          \<and> (\<forall>e\<in>set (buckets h ! i). bucket_of h (ekey e) = i))
     \<and> distinct (map ekey (entries h))
     \<and> (\<forall>e. e \<in> set (entries h) \<longleftrightarrow> e \<in> set (buckets h ! bucket_of h (ekey e)))"

definition hash_entry :: "'d obus_hash \<Rightarrow> u32 \<Rightarrow> 'd obus_hash_entry option" where
  "hash_entry h key = find_key (entries h) key"

lemma has_key_iff: "has_key es key \<longleftrightarrow> find_key es key \<noteq> None"
  by (induction es) auto

lemma find_key_Some:
  "distinct (map ekey es) \<Longrightarrow> find_key es key = Some e \<longleftrightarrow> e \<in> set es \<and> ekey e = key"
  by (induction es) (auto intro: rev_image_eqI)

lemma find_key_ekey: "find_key es key = Some e \<Longrightarrow> ekey e = key"
  by (induction es) (auto split: if_splits)

lemma find_key_None: "find_key es key = None \<longleftrightarrow> key \<notin> ekey ` set es"
  by (induction es) auto

lemma find_key_same:
  assumes "distinct (map ekey es)" "distinct (map ekey fs)"
    "\<And>e. ekey e = key \<Longrightarrow> e \<in> set es \<longleftrightarrow> e \<in> set fs"
  shows "find_key es key = find_key fs key"
proof (cases "find_key es key")
  case None
  then have "find_key fs key = None" using assms(3) by (auto simp: find_key_None)
  with None show ?thesis by simp
next
  case (Some e)
  then show ?thesis using assms by (metis find_key_Some)
qed

lemma unlink_key_find:
  assumes "distinct (map ekey es)"
  shows "unlink_key es key = map_option (\<lambda>e. (e, remove1 e es)) (find_key es key)"
  using assms
proof (induction es)
  case (Cons e es)
  have "find_key es key = Some f \<Longrightarrow> f \<noteq> e" for f
    using Cons.prems by (auto simp: find_key_Some)
  then show ?case using Cons by (cases "find_key es key") auto
qed simp

lemma bucket_of_less: "hash_ok h \<Longrightarrow> bucket_of h key < length (buckets h)"
  by (simp add: hash_ok_def bucket_of_def unat_mod word_less_nat_alt)

text \<open>The chain an operation looks at has the entry of the key, if there is one.\<close>

lemma bucket_lookup:
  assumes "hash_ok h"
  shows "find_key (buckets h ! bucket_of h key) key = hash_entry h key"
  unfolding hash_entry_def
  by (rule find_key_same) (use assms bucket_of_less [OF assms] in \<open>auto simp: hash_ok_def\<close>)

lemma lookup_entry_eq [obus_simps]:
  "hash_ok h \<Longrightarrow> obus_hash_lookup_entry h key =
     (case hash_entry h key of None \<Rightarrow> Inl ENOENT | Some e \<Rightarrow> Inr e)"
  by (simp add: obus_hash_lookup_entry_def bucket_lookup)

lemma bucket_of_update [simp]:
  "bucket_of (h\<lparr>buckets := bs, entries := es\<rparr>) key = bucket_of h key"
  by (simp add: bucket_of_def)

lemma find_key_append:
  "find_key (es @ fs) key = (case find_key es key of None \<Rightarrow> find_key fs key | Some e \<Rightarrow> Some e)"
  by (induction es) auto

lemma insert_entry_new:
  assumes "hash_ok h" "hash_entry h key = None" "ekey e = key"
  shows "\<exists>h'. obus_hash_insert_entry h key e = (Inr (), h') \<and> hash_ok h'
    \<and> hash_entry h' = (hash_entry h)(key \<mapsto> e) \<and> entries h' = entries h @ [e]"
proof -
  let ?i = "bucket_of h key"
  let ?h = "h\<lparr>buckets := (buckets h)[?i := e # buckets h ! ?i], entries := entries h @ [e]\<rparr>"
  have l: "?i < length (buckets h)" using bucket_of_less [OF assms(1)] .
  have none: "find_key (buckets h ! ?i) key = None"
    using bucket_lookup [OF assms(1)] assms(2) by simp
  have "hash_ok ?h"
    using assms l none unfolding hash_ok_def hash_entry_def
    by (auto simp: nth_list_update find_key_None)
  moreover have "hash_entry ?h = (hash_entry h)(key \<mapsto> e)"
    using assms(2,3) by (auto simp: hash_entry_def find_key_append fun_eq_iff split: option.splits)
  moreover have "obus_hash_insert_entry h key e = (Inr (), ?h)"
    using none by (simp add: obus_hash_insert_entry_def Let_def has_key_iff)
  ultimately show ?thesis by auto
qed

lemma insert_entry_dup:
  assumes "hash_ok h" "hash_entry h key = Some f"
  shows "obus_hash_insert_entry h key e = (Inl EEXIST, h)"
  using bucket_lookup [OF assms(1)] assms(2)
  by (simp add: obus_hash_insert_entry_def Let_def has_key_iff)

lemma find_key_remove1:
  assumes "distinct (map ekey es)" "e \<in> set es"
  shows "find_key (remove1 e es) key = (if key = ekey e then None else find_key es key)"
  using assms
proof (induction es)
  case (Cons f es)
  then show ?case by (auto simp: find_key_None)
qed simp

lemma map_remove1_distinct:
  "distinct (map ekey es) \<Longrightarrow> distinct (map ekey (remove1 e es))"
  by (induction es) (auto dest: set_remove1_subset [THEN subsetD])

lemma set_remove1_key:
  "distinct (map ekey es) \<Longrightarrow> set (remove1 e es) = set es - {e}"
  by (metis distinct_map set_remove1_eq)

lemma remove_found:
  assumes "hash_ok h" "hash_entry h key = Some e"
  shows "\<exists>h'. obus_hash_remove h key = (Inr (), h') \<and> hash_ok h'
    \<and> hash_entry h' = (hash_entry h)(key := None) \<and> entries h' = remove1 e (entries h)"
proof -
  let ?i = "bucket_of h key" and ?c = "remove1 e (buckets h ! bucket_of h key)"
  let ?h = "h\<lparr>buckets := (buckets h)[?i := ?c], entries := remove1 e (entries h)\<rparr>"
  have l: "?i < length (buckets h)" using bucket_of_less [OF assms(1)] .
  have f: "find_key (buckets h ! ?i) key = Some e"
    using bucket_lookup [OF assms(1)] assms(2) by simp
  have d: "distinct (map ekey (buckets h ! ?i))" "distinct (map ekey (entries h))"
    using assms(1) l by (auto simp: hash_ok_def)
  have e: "e \<in> set (entries h)" "ekey e = key"
    using assms(2) d(2) by (auto simp: hash_entry_def find_key_Some)
  have "hash_ok ?h"
    using assms(1) l d e unfolding hash_ok_def
    by (auto simp: nth_list_update map_remove1_distinct set_remove1_key)
  moreover have "hash_entry ?h = (hash_entry h)(key := None)"
    using d e by (auto simp: hash_entry_def find_key_remove1 fun_eq_iff)
  moreover have "obus_hash_remove h key = (Inr (), ?h)"
    using unlink_key_find [OF d(1)] f by (simp add: obus_hash_remove_def Let_def)
  ultimately show ?thesis by auto
qed

lemma remove_absent:
  assumes "hash_ok h" "hash_entry h key = None"
  shows "obus_hash_remove h key = (Inl ENOENT, h)"
proof -
  have "distinct (map ekey (buckets h ! bucket_of h key))"
    using assms(1) bucket_of_less [OF assms(1)] by (auto simp: hash_ok_def)
  from unlink_key_find [OF this, of key] show ?thesis
    using bucket_lookup [OF assms(1), of key] assms(2) by (simp add: obus_hash_remove_def Let_def)
qed

section \<open>Initialisation\<close>

lemma prime_index_less: "i < length hash_prime_tab \<Longrightarrow> prime_index n i < length hash_prime_tab"
  by (induction n i rule: prime_index.induct) (simp add: prime_index.simps)

lemma hash_prime_tab_pos: "i < length hash_prime_tab \<Longrightarrow> hash_prime_tab ! i > 0"
proof -
  assume "i < length hash_prime_tab"
  moreover have "\<forall>x\<in>set hash_prime_tab. x > 0" by (simp add: hash_prime_tab_def)
  ultimately show ?thesis by simp
qed

lemma init_ok:
  assumes "obus_hash_init m n = (r, Some h)"
  shows "hash_ok h" "hash_entry h = Map.empty" "entries h = []"
proof -
  let ?p = "hash_prime_tab ! prime_index n 0"
  have "?p > 0"
    using hash_prime_tab_pos prime_index_less [of 0 n] by (simp add: hash_prime_tab_def)
  moreover have h: "h = \<lparr>buckets = replicate (unat ?p) [], hsize = ?p, entries = []\<rparr>"
    using assms by (auto simp: obus_hash_init_def Let_def split: if_splits)
  ultimately show "hash_ok h" using bucket_of_def [of h]
    by (simp add: hash_ok_def unat_mod word_less_nat_alt)
  show "hash_entry h = Map.empty" "entries h = []" using h by (auto simp: hash_entry_def)
qed

section \<open>The interface\<close>

text \<open>
  What the users of the table rely on: the operations act on a finite map. \<open>cost\<close> is the size
  of the block an insertion asks the memory for.
\<close>

primrec insert_all :: "('s \<Rightarrow> 'k \<Rightarrow> 'v \<Rightarrow> unit res \<times> 's) \<Rightarrow> 's \<Rightarrow> ('k \<times> 'v) list \<Rightarrow> unit res \<times> 's" where
  "insert_all ins s [] = (Inr (), s)"
| "insert_all ins s (kv # kvs) = chk (ins s (fst kv) (snd kv)) (\<lambda>_ s. insert_all ins s kvs)"

datatype ('k, 'v) store_op = Ins 'k 'v | Del 'k

definition map_op :: "('k \<rightharpoonup> 'v) \<Rightarrow> ('k, 'v) store_op \<Rightarrow> unit res \<times> ('k \<rightharpoonup> 'v)" where
  "map_op f x = (case x of
     Ins k v \<Rightarrow> if f k = None then (Inr (), f(k \<mapsto> v)) else (Inl EEXIST, f)
   | Del k \<Rightarrow> if f k = None then (Inl ENOENT, f) else (Inr (), f(k := None)))"

primrec run_ops :: "('s \<Rightarrow> 'x \<Rightarrow> unit res \<times> 's) \<Rightarrow> 's \<Rightarrow> 'x list \<Rightarrow> unit res list \<times> 's" where
  "run_ops f s [] = ([], s)"
| "run_ops f s (x # xs) =
     (let (r, s) = f s x; (rs, s) = run_ops f s xs in (r # rs, s))"

locale keyed_store =
  fixes invar :: "'s \<Rightarrow> bool"
    and look :: "'s \<Rightarrow> 'k \<rightharpoonup> 'v"
    and get :: "'s \<Rightarrow> 'k \<Rightarrow> 'v res"
    and ins :: "memory \<Rightarrow> 's \<Rightarrow> 'k \<Rightarrow> 'v \<Rightarrow> unit res \<times> 's"
    and del :: "'s \<Rightarrow> 'k \<Rightarrow> unit res \<times> 's"
    and cost :: nat
  assumes ins_nomem: "\<not> alloc_ok m cost \<Longrightarrow> ins m s k v = (Inl ENOMEM, s)"
    and ins_new: "invar s \<Longrightarrow> alloc_ok m cost \<Longrightarrow> look s k = None \<Longrightarrow>
      \<exists>s'. ins m s k v = (Inr (), s') \<and> invar s' \<and> look s' = (look s)(k \<mapsto> v)"
    and ins_dup: "invar s \<Longrightarrow> alloc_ok m cost \<Longrightarrow> look s k = Some w \<Longrightarrow> ins m s k v = (Inl EEXIST, s)"
    and get_eq: "invar s \<Longrightarrow> get s k = (case look s k of None \<Rightarrow> Inl ENOENT | Some v \<Rightarrow> Inr v)"
    and del_some: "invar s \<Longrightarrow> look s k = Some v \<Longrightarrow>
      \<exists>s'. del s k = (Inr (), s') \<and> invar s' \<and> look s' = (look s)(k := None)"
    and del_none: "invar s \<Longrightarrow> look s k = None \<Longrightarrow> del s k = (Inl ENOENT, s)"
begin

lemma insert_all_ok:
  assumes "invar s" "alloc_ok m cost" "distinct (map fst kvs)" "\<And>k. k \<in> fst ` set kvs \<Longrightarrow> look s k = None"
  shows "\<exists>s'. insert_all (ins m) s kvs = (Inr (), s') \<and> invar s' \<and> look s' = look s ++ map_of kvs"
  using assms
proof (induction kvs arbitrary: s)
  case (Cons kv kvs)
  obtain k v where kv: "kv = (k, v)" by fastforce
  with ins_new [OF Cons.prems(1,2), of k v] Cons.prems(4) obtain s1 where
    s1: "ins m s k v = (Inr (), s1)" "invar s1" "look s1 = (look s)(k \<mapsto> v)" by auto
  have "k \<notin> fst ` set kvs" using Cons.prems(3) kv by simp
  then have "look s ++ map_of ((k, v) # kvs) = look s1 ++ map_of kvs"
    using s1(3) by (simp add: map_add_upd_left dom_map_of_conv_image_fst)
  moreover have "\<exists>s'. insert_all (ins m) s1 kvs = (Inr (), s') \<and> invar s' \<and> look s' = look s1 ++ map_of kvs"
    by (rule Cons.IH) (use Cons.prems s1 kv in auto)
  ultimately show ?case using s1(1) unfolding kv by (simp del: map_of.simps)
qed simp

lemma ins_cases:
  assumes "invar s"
  obtains (new) s' where "ins m s k v = (Inr (), s')" "look s k = None" "invar s'" "look s' = (look s)(k \<mapsto> v)"
  | (err) e where "ins m s k v = (Inl e, s)"
  using ins_nomem [of m s k v] ins_new [OF assms, of m k v] ins_dup [OF assms, of m k _ v]
  by (cases "alloc_ok m cost"; cases "look s k") auto

lemma del_cases:
  assumes "invar s"
  obtains (gone) s' v where "del s k = (Inr (), s')" "look s k = Some v" "invar s'" "look s' = (look s)(k := None)"
  | (none) "del s k = (Inl ENOENT, s)" "look s k = None"
  using del_some [OF assms, of k] del_none [OF assms, of k] by (cases "look s k") auto

lemma get_Inr: "invar s \<Longrightarrow> get s k = Inr v \<longleftrightarrow> look s k = Some v"
  by (simp add: get_eq split: option.splits)

definition store_op :: "memory \<Rightarrow> 's \<Rightarrow> ('k, 'v) store_op \<Rightarrow> unit res \<times> 's" where
  "store_op m s x = (case x of Ins k v \<Rightarrow> ins m s k v | Del k \<Rightarrow> del s k)"

lemma store_op_simulates:
  assumes "invar s" "alloc_ok m cost"
  shows "fst (store_op m s x) = fst (map_op (look s) x)" "invar (snd (store_op m s x))"
    "look (snd (store_op m s x)) = snd (map_op (look s) x)"
proof -
  have "fst (store_op m s x) = fst (map_op (look s) x) \<and> invar (snd (store_op m s x))
    \<and> look (snd (store_op m s x)) = snd (map_op (look s) x)"
  proof (cases x)
    case (Ins k v)
    then show ?thesis using ins_new [OF assms, of k v] ins_dup [OF assms, of k _ v] assms(1)
      by (cases "look s k") (auto simp: store_op_def map_op_def)
  next
    case (Del k)
    then show ?thesis using del_some [OF assms(1), of k] del_none [OF assms(1), of k] assms(1)
      by (cases "look s k") (auto simp: store_op_def map_op_def)
  qed
  then show "fst (store_op m s x) = fst (map_op (look s) x)" "invar (snd (store_op m s x))"
    "look (snd (store_op m s x)) = snd (map_op (look s) x)" by auto
qed

lemma run_simulates:
  assumes "invar s" "alloc_ok m cost"
  shows "fst (run_ops (store_op m) s xs) = fst (run_ops map_op (look s) xs)
    \<and> invar (snd (run_ops (store_op m) s xs))
    \<and> look (snd (run_ops (store_op m) s xs)) = snd (run_ops map_op (look s) xs)"
  using assms(1)
proof (induction xs arbitrary: s)
  case (Cons x xs)
  note st = store_op_simulates [OF Cons.prems assms(2), of x]
  show ?case using Cons.IH [OF st(2)] st
    by (auto simp: Let_def split: prod.splits)
qed simp

end

section \<open>The table is a keyed store\<close>

definition hash_map :: "'d obus_hash \<Rightarrow> u32 \<rightharpoonup> 'd" where
  "hash_map h k = map_option edata (hash_entry h k)"

text \<open>A table that only \<open>obus_hash_insert\<close> has filled.\<close>

definition plain_hash :: "'d obus_hash \<Rightarrow> bool" where
  "plain_hash h \<longleftrightarrow> hash_ok h \<and> (\<forall>e\<in>set (entries h). \<not> is_const e)"

lemma hash_map_update:
  "hash_entry h' = (hash_entry h)(k := x) \<Longrightarrow> hash_map h' = (hash_map h)(k := map_option edata x)"
  by (auto simp: hash_map_def fun_eq_iff)

lemma hash_entry_mem: "hash_ok h \<Longrightarrow> hash_entry h k = Some e \<Longrightarrow> e \<in> set (entries h)"
  by (auto simp: hash_entry_def find_key_Some hash_ok_def)

interpretation const_hash: keyed_store hash_ok hash_map obus_hash_lookup_const obus_hash_insert_const
    obus_hash_remove sizeof_hash_entry
proof (unfold_locales, goal_cases)
  case (2 s m k v)
  then show ?case
    using insert_entry_new [of s k "\<lparr>is_const = True, edata = v, ekey = k\<rparr>"] hash_map_update
    by (fastforce simp: obus_hash_insert_const_def hash_map_def)
next
  case (5 s k v)
  then show ?case using remove_found [of s k] hash_map_update by (fastforce simp: hash_map_def)
qed (auto simp: obus_hash_insert_const_def hash_map_def insert_entry_dup obus_hash_lookup_const_def
    lookup_entry_eq remove_absent split: option.splits)

interpretation data_hash: keyed_store plain_hash hash_map obus_hash_lookup obus_hash_insert
    obus_hash_remove sizeof_hash_entry
proof (unfold_locales, goal_cases)
  case (2 s m k v)
  then show ?case
    using insert_entry_new [of s k "\<lparr>is_const = False, edata = v, ekey = k\<rparr>"] hash_map_update
    by (fastforce simp: obus_hash_insert_def hash_map_def plain_hash_def)
next
  case (5 s k v)
  then obtain e where "hash_entry s k = Some e" by (auto simp: hash_map_def)
  with 5 remove_found [of s k e] obtain s' where
    "obus_hash_remove s k = (Inr (), s')" "hash_ok s'" "hash_entry s' = (hash_entry s)(k := None)"
    "entries s' = remove1 e (entries s)" by (auto simp: plain_hash_def)
  then show ?case using 5 hash_map_update [of s' s k None] set_remove1_subset [of e "entries s"]
    by (auto simp: plain_hash_def)
qed (auto simp: obus_hash_insert_def hash_map_def insert_entry_dup obus_hash_lookup_def plain_hash_def
    lookup_entry_eq remove_absent dest: hash_entry_mem split: option.splits)

section \<open>Properties of the hash table\<close>

definition hash_op :: "memory \<Rightarrow> 'd obus_hash \<Rightarrow> (u32, 'd) store_op \<Rightarrow> unit res \<times> 'd obus_hash" where
  "hash_op m h x = (case x of Ins k v \<Rightarrow> obus_hash_insert m h k v | Del k \<Rightarrow> obus_hash_remove h k)"

text \<open>The reference: an association list that grows at the end, with the same error codes.\<close>

definition alist_op :: "(u32 \<times> 'd) list \<Rightarrow> (u32, 'd) store_op \<Rightarrow> unit res \<times> (u32 \<times> 'd) list" where
  "alist_op l x = (case x of
     Ins k v \<Rightarrow> if map_of l k = None then (Inr (), l @ [(k, v)]) else (Inl EEXIST, l)
   | Del k \<Rightarrow> if map_of l k = None then (Inl ENOENT, l) else (Inr (), filter (\<lambda>kv. fst kv \<noteq> k) l))"

definition hash_alist :: "'d obus_hash \<Rightarrow> (u32 \<times> 'd) list" where
  "hash_alist h = map (\<lambda>e. (ekey e, edata e)) (entries h)"

lemma map_of_alist: "map_of (hash_alist h) k = map_option edata (hash_entry h k)"
proof -
  have "map_of (map (\<lambda>e. (ekey e, edata e)) es) k = map_option edata (find_key es k)" for es :: "'a obus_hash_entry list"
    by (induction es) auto
  then show ?thesis by (simp add: hash_alist_def hash_entry_def)
qed

lemma remove1_filter_key:
  "distinct (map ekey es) \<Longrightarrow> e \<in> set es \<Longrightarrow> remove1 e es = filter (\<lambda>f. ekey f \<noteq> ekey e) es"
proof (induction es)
  case (Cons f es)
  show ?case
  proof (cases "f = e")
    case True
    then have "\<forall>x\<in>set es. ekey x \<noteq> ekey e" using Cons.prems(1) by (auto simp: image_iff)
    then show ?thesis using True by simp
  next
    case False
    then have "e \<in> set es" "ekey f \<noteq> ekey e" using Cons.prems by (auto simp: image_iff)
    then show ?thesis using False Cons by simp
  qed
qed simp

lemma hash_alist_snoc:
  "entries h' = entries h @ [e] \<Longrightarrow> hash_alist h' = hash_alist h @ [(ekey e, edata e)]"
  by (simp add: hash_alist_def)

lemma hash_alist_remove:
  "entries h' = filter (\<lambda>f. ekey f \<noteq> k) (entries h) \<Longrightarrow>
   hash_alist h' = filter (\<lambda>kv. fst kv \<noteq> k) (hash_alist h)"
  by (simp add: hash_alist_def filter_map comp_def)

lemma hash_op_simulates:
  assumes "plain_hash h" "alloc_ok m sizeof_hash_entry"
  shows "fst (hash_op m h x) = fst (alist_op (hash_alist h) x)"
    "plain_hash (snd (hash_op m h x))"
    "hash_alist (snd (hash_op m h x)) = snd (alist_op (hash_alist h) x)"
proof -
  have so: "hash_op m h x = data_hash.store_op m h x"
    by (simp add: hash_op_def data_hash.store_op_def)
  show "fst (hash_op m h x) = fst (alist_op (hash_alist h) x)"
    using data_hash.store_op_simulates(1) [OF assms, of x]
    by (auto simp: so map_op_def alist_op_def map_of_alist hash_map_def split: store_op.splits)
  show "plain_hash (snd (hash_op m h x))"
    using data_hash.store_op_simulates(2) [OF assms, of x] by (simp add: so)
  have ok: "hash_ok h" using assms(1) by (simp add: plain_hash_def)
  show "hash_alist (snd (hash_op m h x)) = snd (alist_op (hash_alist h) x)"
  proof (cases x)
    case (Ins k v)
    then show ?thesis
      using insert_entry_new [OF ok, of k "\<lparr>is_const = False, edata = v, ekey = k\<rparr>"]
        insert_entry_dup [OF ok, of k] assms(2)
      by (cases "hash_entry h k")
        (auto simp: hash_op_def alist_op_def map_of_alist obus_hash_insert_def hash_alist_snoc)
  next
    case (Del k)
    show ?thesis
    proof (cases "hash_entry h k")
      case None
      then show ?thesis using Del remove_absent [OF ok None]
        by (simp add: hash_op_def alist_op_def map_of_alist)
    next
      case (Some e)
      then have "e \<in> set (entries h)" "ekey e = k" "distinct (map ekey (entries h))"
        using hash_entry_mem [OF ok Some] ok Some by (auto simp: hash_entry_def hash_ok_def dest: find_key_ekey)
      then show ?thesis using Del remove_found [OF ok Some] Some remove1_filter_key [of "entries h" e]
        by (auto simp: hash_op_def alist_op_def map_of_alist hash_alist_remove)
    qed
  qed
qed

text \<open>
  C27. The hash table refines an association list. Starting from a table set up by
  \<open>obus_hash_init\<close> for any requested size, every sequence of insertions and removals returns the
  same codes (0, \<open>-EEXIST\<close>, \<open>-ENOENT\<close>) as the reference association list, afterwards every
  lookup returns what the reference holds for the key (or \<open>-ENOENT\<close>), and the list of entries
  that the users of the table iterate over is the reference in insertion order.
\<close>

theorem hash_run_refines:
  assumes "obus_hash_init m n = (r, Some h)" "alloc_ok m sizeof_hash_entry"
  shows "fst (run_ops (hash_op m) h xs) = fst (run_ops alist_op [] xs)
    \<and> hash_alist (snd (run_ops (hash_op m) h xs)) = snd (run_ops alist_op [] xs)
    \<and> (\<forall>k. obus_hash_lookup (snd (run_ops (hash_op m) h xs)) k =
         (case map_of (snd (run_ops alist_op [] xs)) k of None \<Rightarrow> Inl ENOENT | Some v \<Rightarrow> Inr v))"
proof -
  have sim: "fst (run_ops (hash_op m) h xs) = fst (run_ops alist_op (hash_alist h) xs)
    \<and> plain_hash (snd (run_ops (hash_op m) h xs))
    \<and> hash_alist (snd (run_ops (hash_op m) h xs)) = snd (run_ops alist_op (hash_alist h) xs)"
    if "plain_hash h" for h
    using that
  proof (induction xs arbitrary: h)
    case (Cons x xs)
    note st = hash_op_simulates [OF Cons.prems assms(2), of x]
    show ?case using Cons.IH [OF st(2)] st by (auto simp: Let_def split: prod.splits)
  qed simp
  have "plain_hash h" "hash_alist h = []"
    using init_ok [OF assms(1)] by (simp_all add: plain_hash_def hash_alist_def)
  with sim [of h] show ?thesis
    using data_hash.get_eq [of "snd (run_ops (hash_op m) h xs)"]
      map_of_alist [of "snd (run_ops (hash_op m) h xs)"]
    by (simp add: hash_map_def)
qed

lemma hash_run_refines_witness:
  "\<exists>r h. obus_hash_init \<lparr>alloc_ok = \<lambda>_. True, fresh_byte = \<lambda>_. 0\<rparr> 1 = (r, Some h) \<and>
     fst (run_ops (hash_op \<lparr>alloc_ok = \<lambda>_. True, fresh_byte = \<lambda>_. 0\<rparr>) h
       [Ins 5 True, Ins 9 False, Ins 5 False, Del 5, Del 5]) =
     [Inr (), Inr (), Inl EEXIST, Inr (), Inl ENOENT]"
proof -
  let ?m = "\<lparr>alloc_ok = \<lambda>_. True, fresh_byte = \<lambda>_. 0\<rparr> :: memory"
  obtain h :: "bool obus_hash" where h: "obus_hash_init ?m 1 = (Inr (), Some h)"
    by (auto simp: obus_hash_init_def Let_def)
  then show ?thesis
    using hash_run_refines [OF h, of "[Ins 5 True, Ins 9 False, Ins 5 False, Del 5, Del 5]"]
    by (auto simp: alist_op_def Let_def)
qed

end
