(* ===== verification/Obus_Desc.thy ===== *)
theory Obus_Desc
  imports Obus_Prelude
begin

text \<open>
  The description records of \<open>libobus_private.h\<close>, which the code generator emits and every
  other component reads: enum drivers, fields, structures, methods, events, objects and the
  bus. A pointer to an element of a description array is the index of the element. The
  descriptions of enums, structures and objects carry a number that stands for their address, by
  which the code compares pointers to them. Names are left out, they only reach the log.
\<close>

datatype obus_field_type =
    OBUS_FIELD_U8 | OBUS_FIELD_I8 | OBUS_FIELD_U16 | OBUS_FIELD_I16 | OBUS_FIELD_U32 | OBUS_FIELD_I32
  | OBUS_FIELD_U64 | OBUS_FIELD_I64 | OBUS_FIELD_ENUM | OBUS_FIELD_STRING | OBUS_FIELD_BOOL
  | OBUS_FIELD_F32 | OBUS_FIELD_F64

datatype obus_field_role = OBUS_PROPERTY | OBUS_METHOD | OBUS_ARGUMENT

text \<open>
  The driver's accessors convert between the stored representation of an enum (a memory word)
  and its 32-bit value; they are generated code, hence a parameter held in the record.
\<close>

record obus_enum_driver =
  en_id :: nat
  en_size :: nat
  default_value :: u32
  en_is_valid :: "u32 \<Rightarrow> bool"
  set_value :: "u32 \<Rightarrow> u64"
  get_value :: "u64 \<Rightarrow> u32"

record obus_field_desc =
  fuid :: u16
  foffset :: nat
  frole :: obus_field_role
  ftype :: u8
  enum_drv :: obus_enum_driver
  nb_offset :: nat

text \<open>\<open>n_fields\<close> is the length of \<open>sfields\<close>.\<close>

record obus_struct_desc =
  sd_id :: nat
  sd_size :: nat
  sfields :: "obus_field_desc list"

text \<open>
  A method description knows its place: the object description whose array it belongs to and
  its index there. A method may have no arguments.
\<close>

record obus_method_desc =
  m_owner :: nat
  m_idx :: nat
  m_uid :: u16
  args_desc :: "obus_struct_desc option"

record obus_bus_event_desc =
  be_uid :: u16

record obus_event_update_desc =
  upd_field :: nat
  upd_flags :: u32

record obus_event_desc =
  ev_uid :: u16
  updates :: "obus_event_update_desc list"

record obus_object_desc =
  od_id :: nat
  od_uid :: u16
  info_desc :: obus_struct_desc
  od_events :: "obus_event_desc list"
  od_methods :: "obus_method_desc list"

record obus_bus_desc =
  bus_name :: "u8 list"
  bd_objects :: "obus_object_desc list"
  bd_events :: "obus_bus_event_desc list"
  crc :: u32

section \<open>Field types\<close>

definition OBUS_FIELD_ARRAY :: u8 where "OBUS_FIELD_ARRAY = 0x80"

definition OBUS_FIELD_MASK :: u8 where "OBUS_FIELD_MASK = 0x7F"

text \<open>The enumerators in the order of their values.\<close>

definition field_types :: "obus_field_type list" where
  "field_types = [OBUS_FIELD_U8, OBUS_FIELD_I8, OBUS_FIELD_U16, OBUS_FIELD_I16, OBUS_FIELD_U32,
     OBUS_FIELD_I32, OBUS_FIELD_U64, OBUS_FIELD_I64, OBUS_FIELD_ENUM, OBUS_FIELD_STRING,
     OBUS_FIELD_BOOL, OBUS_FIELD_F32, OBUS_FIELD_F64]"

text \<open>The subject of the switch statements, \<open>None\<close> for their default branch.\<close>

definition field_kind :: "u8 \<Rightarrow> obus_field_type option" where
  "field_kind ty =
     (let k = unat (ty AND OBUS_FIELD_MASK) in
      if k < length field_types then Some (field_types ! k) else None)"

definition is_array :: "u8 \<Rightarrow> bool" where
  "is_array ty \<longleftrightarrow> ty AND OBUS_FIELD_ARRAY \<noteq> 0"

section \<open>Well-formed descriptions\<close>

text \<open>
  What the generator guarantees of a structure description: known field types, one offset per
  field, unique identifiers, and fewer fields than the 16-bit loop counters of \<open>obus_struct.c\<close>
  can count.
\<close>

definition wf_struct_desc :: "obus_struct_desc \<Rightarrow> bool" where
  "wf_struct_desc sd \<longleftrightarrow>
     length (sfields sd) < 2 ^ 16 \<and> distinct (map fuid (sfields sd)) \<and> distinct (map foffset (sfields sd))
     \<and> distinct (map nb_offset (filter (\<lambda>f. is_array (ftype f)) (sfields sd)))
     \<and> (\<forall>f\<in>set (sfields sd). field_kind (ftype f) \<noteq> None)"

end
