(* ===== verification/Obus_Field.thy ===== *)
theory Obus_Field
  imports Obus_Desc Obus_Codec
begin

text \<open>
  Field values: \<open>obus_field.c\<close>. A structure in memory is the record \<open>obus_struct\<close>: a cell per
  field offset, an item count per count offset and the words of the field bit set. The first
  part holds the operations of the source; the second the wire format of values and fields as
  plain functions, and the lemmas that the operations write and read exactly that format.
\<close>

section \<open>Structures in memory\<close>

text \<open>
  A \<open>char *\<close> stored in a field is NULL, the static empty string, or a heap string (the bytes
  before its terminating zero).
\<close>

datatype cstr = NullStr | EmptyStr | HeapStr "u8 list"

text \<open>
  A stored item is a memory word, of which the accesses use the low bytes of the width of the
  field type (an enum is what its driver stored, a float its bit pattern), or a \<open>char *\<close>.
\<close>

datatype item = Num u64 | Str cstr

text \<open>A field holds one item, or a pointer to an array of items that may be NULL.\<close>

datatype cell = Val item | Arr "item list option"

record obus_struct =
  st_desc :: obus_struct_desc
  st_cell :: "nat \<Rightarrow> cell"
  st_nb :: "nat \<Rightarrow> u32"
  st_bits :: "u32 list"

definition get_num :: "item \<Rightarrow> u64" where
  "get_num v = (case v of Num n \<Rightarrow> n | Str _ \<Rightarrow> 0)"

definition get_str :: "item \<Rightarrow> cstr" where
  "get_str v = (case v of Str s \<Rightarrow> s | Num _ \<Rightarrow> NullStr)"

definition get_item :: "cell \<Rightarrow> item" where
  "get_item c = (case c of Val v \<Rightarrow> v | Arr _ \<Rightarrow> Num 0)"

definition get_array :: "cell \<Rightarrow> item list option" where
  "get_array c = (case c of Arr a \<Rightarrow> a | Val _ \<Rightarrow> None)"

text \<open>The bytes a \<open>char *\<close> shows to the string functions.\<close>

definition c_chars :: "cstr \<Rightarrow> u8 list option" where
  "c_chars s = (case s of NullStr \<Rightarrow> None | EmptyStr \<Rightarrow> Some [] | HeapStr t \<Rightarrow> Some t)"

text \<open>A \<open>char *\<close> obtained from the heap.\<close>

definition heap_str :: "u8 list option \<Rightarrow> cstr" where
  "heap_str s = (case s of None \<Rightarrow> NullStr | Some t \<Rightarrow> HeapStr t)"

definition obus_field_array_nb_address :: "obus_struct \<Rightarrow> obus_field_desc \<Rightarrow> u32" where
  "obus_field_array_nb_address st desc = st_nb st (nb_offset desc)"

definition set_nb :: "obus_struct \<Rightarrow> obus_field_desc \<Rightarrow> u32 \<Rightarrow> obus_struct" where
  "set_nb st desc n = st\<lparr>st_nb := (st_nb st)(nb_offset desc := n)\<rparr>"

definition obus_field_address :: "obus_struct \<Rightarrow> obus_field_desc \<Rightarrow> cell" where
  "obus_field_address st desc = st_cell st (foffset desc)"

definition set_cell :: "obus_struct \<Rightarrow> obus_field_desc \<Rightarrow> cell \<Rightarrow> obus_struct" where
  "set_cell st desc c = st\<lparr>st_cell := (st_cell st)(foffset desc := c)\<rparr>"

section \<open>Items\<close>

text \<open>The stride of an array, by field type.\<close>

definition item_size :: "obus_field_desc \<Rightarrow> obus_field_type \<Rightarrow> nat" where
  "item_size desc k = (case k of
     OBUS_FIELD_U8 \<Rightarrow> 1 | OBUS_FIELD_I8 \<Rightarrow> 1 | OBUS_FIELD_BOOL \<Rightarrow> 1
   | OBUS_FIELD_U16 \<Rightarrow> 2 | OBUS_FIELD_I16 \<Rightarrow> 2
   | OBUS_FIELD_U32 \<Rightarrow> 4 | OBUS_FIELD_I32 \<Rightarrow> 4
   | OBUS_FIELD_U64 \<Rightarrow> 8 | OBUS_FIELD_I64 \<Rightarrow> 8
   | OBUS_FIELD_ENUM \<Rightarrow> en_size (enum_drv desc)
   | OBUS_FIELD_STRING \<Rightarrow> 8 | OBUS_FIELD_F32 \<Rightarrow> 4 | OBUS_FIELD_F64 \<Rightarrow> 8)"

text \<open>
  The address of item \<open>idx\<close>, represented by the index itself. It is NULL for an unknown type
  and for the first item of a NULL array; the later items of a NULL array have a wild address.
\<close>

definition obus_field_array_item :: "obus_field_desc \<Rightarrow> item list option \<Rightarrow> nat \<Rightarrow> nat option" where
  "obus_field_array_item desc base idx =
     (case field_kind (ftype desc) of
        None \<Rightarrow> None
      | Some k \<Rightarrow> if base = None \<and> idx * item_size desc k = 0 then None else Some idx)"

text \<open>Dereferencing an item address.\<close>

definition deref :: "item list option \<Rightarrow> nat \<Rightarrow> item option" where
  "deref base idx =
     (case base of None \<Rightarrow> None | Some xs \<Rightarrow> if idx < length xs then Some (xs ! idx) else None)"

text \<open>Copying an item; \<open>strdup\<close> asks the memory for the string and its terminating zero.\<close>

definition obus_copy_value :: "memory \<Rightarrow> obus_field_desc \<Rightarrow> item \<Rightarrow> item \<Rightarrow> unit res \<times> item" where
  "obus_copy_value m desc dst src =
     (case field_kind (ftype desc) of
        None \<Rightarrow> (Inr (), dst)
      | Some k \<Rightarrow> (case k of
          OBUS_FIELD_U8 \<Rightarrow> (Inr (), Num (take_bit 8 (get_num src)))
        | OBUS_FIELD_I8 \<Rightarrow> (Inr (), Num (take_bit 8 (get_num src)))
        | OBUS_FIELD_BOOL \<Rightarrow> (Inr (), Num (if take_bit 8 (get_num src) \<noteq> 0 then 1 else 0))
        | OBUS_FIELD_U16 \<Rightarrow> (Inr (), Num (take_bit 16 (get_num src)))
        | OBUS_FIELD_I16 \<Rightarrow> (Inr (), Num (take_bit 16 (get_num src)))
        | OBUS_FIELD_U32 \<Rightarrow> (Inr (), Num (take_bit 32 (get_num src)))
        | OBUS_FIELD_I32 \<Rightarrow> (Inr (), Num (take_bit 32 (get_num src)))
        | OBUS_FIELD_U64 \<Rightarrow> (Inr (), Num (get_num src))
        | OBUS_FIELD_I64 \<Rightarrow> (Inr (), Num (get_num src))
        | OBUS_FIELD_ENUM \<Rightarrow>
            (Inr (), Num (set_value (enum_drv desc) (get_value (enum_drv desc) (get_num src))))
        | OBUS_FIELD_STRING \<Rightarrow>
            (case get_str src of
               HeapStr s \<Rightarrow> if alloc_ok m (length s + 1) then (Inr (), Str (HeapStr s)) else (Inl ENOMEM, dst)
             | _ \<Rightarrow> (Inr (), Str EmptyStr))
        | OBUS_FIELD_F32 \<Rightarrow> (Inr (), Num (take_bit 32 (get_num src)))
        | OBUS_FIELD_F64 \<Rightarrow> (Inr (), Num (get_num src))))"

definition obus_encode_value ::
  "memory \<Rightarrow> obus_field_desc \<Rightarrow> item \<Rightarrow> obus_buffer \<Rightarrow> unit res \<times> obus_buffer" where
  "obus_encode_value m desc v buf =
     (case field_kind (ftype desc) of
        None \<Rightarrow> (Inl EINVAL, buf)
      | Some k \<Rightarrow> (case k of
          OBUS_FIELD_BOOL \<Rightarrow> obus_buffer_append_u8 m buf (if (ucast (get_num v) :: u8) \<noteq> 0 then 1 else 0)
        | OBUS_FIELD_U8 \<Rightarrow> obus_buffer_append_u8 m buf (ucast (get_num v))
        | OBUS_FIELD_I8 \<Rightarrow> obus_buffer_append_u8 m buf (ucast (get_num v))
        | OBUS_FIELD_U16 \<Rightarrow> obus_buffer_append_u16 m buf (ucast (get_num v))
        | OBUS_FIELD_I16 \<Rightarrow> obus_buffer_append_u16 m buf (ucast (get_num v))
        | OBUS_FIELD_U32 \<Rightarrow> obus_buffer_append_u32 m buf (ucast (get_num v))
        | OBUS_FIELD_I32 \<Rightarrow> obus_buffer_append_u32 m buf (ucast (get_num v))
        | OBUS_FIELD_U64 \<Rightarrow> obus_buffer_append_u64 m buf (get_num v)
        | OBUS_FIELD_I64 \<Rightarrow> obus_buffer_append_u64 m buf (get_num v)
        | OBUS_FIELD_ENUM \<Rightarrow> obus_buffer_append_u32 m buf (get_value (enum_drv desc) (get_num v))
        | OBUS_FIELD_STRING \<Rightarrow> obus_buffer_append_string m buf (c_chars (get_str v))
        | OBUS_FIELD_F32 \<Rightarrow> obus_buffer_append_f32 m buf (ucast (get_num v))
        | OBUS_FIELD_F64 \<Rightarrow> obus_buffer_append_f64 m buf (get_num v)))"

text \<open>Storing the result of a read through an address: nothing is stored on failure.\<close>

definition store_read :: "item \<Rightarrow> ('a \<Rightarrow> item) \<Rightarrow> 'a res \<times> obus_buffer \<Rightarrow> unit res \<times> item \<times> obus_buffer" where
  "store_read old f r = (case r of (Inl e, buf) \<Rightarrow> (Inl e, old, buf) | (Inr x, buf) \<Rightarrow> (Inr (), f x, buf))"

text \<open>The second component of the result is the item at the address afterwards.\<close>

definition obus_decode_value ::
  "memory \<Rightarrow> obus_field_desc \<Rightarrow> item \<Rightarrow> obus_buffer \<Rightarrow> unit res \<times> item \<times> obus_buffer" where
  "obus_decode_value m desc old buf =
     (case field_kind (ftype desc) of
        None \<Rightarrow> (Inl EINVAL, old, buf)
      | Some k \<Rightarrow> (case k of
          OBUS_FIELD_U8 \<Rightarrow> store_read old (\<lambda>v. Num (ucast v)) (obus_buffer_read_u8 buf)
        | OBUS_FIELD_I8 \<Rightarrow> store_read old (\<lambda>v. Num (ucast v)) (obus_buffer_read_u8 buf)
        | OBUS_FIELD_BOOL \<Rightarrow> store_read old (\<lambda>v. Num (if v \<noteq> 0 then 1 else 0)) (obus_buffer_read_u8 buf)
        | OBUS_FIELD_U16 \<Rightarrow> store_read old (\<lambda>v. Num (ucast v)) (obus_buffer_read_u16 buf)
        | OBUS_FIELD_I16 \<Rightarrow> store_read old (\<lambda>v. Num (ucast v)) (obus_buffer_read_u16 buf)
        | OBUS_FIELD_U32 \<Rightarrow> store_read old (\<lambda>v. Num (ucast v)) (obus_buffer_read_u32 buf)
        | OBUS_FIELD_I32 \<Rightarrow> store_read old (\<lambda>v. Num (ucast v)) (obus_buffer_read_u32 buf)
        | OBUS_FIELD_U64 \<Rightarrow> store_read old Num (obus_buffer_read_u64 buf)
        | OBUS_FIELD_I64 \<Rightarrow> store_read old Num (obus_buffer_read_u64 buf)
        | OBUS_FIELD_ENUM \<Rightarrow>
            store_read old (\<lambda>v. Num (set_value (enum_drv desc) v)) (obus_buffer_read_u32 buf)
        | OBUS_FIELD_STRING \<Rightarrow>
            (case obus_buffer_read_string m buf of
               (r, out, buf) \<Rightarrow> (r, (case out of None \<Rightarrow> old | Some s \<Rightarrow> Str (heap_str s)), buf))
        | OBUS_FIELD_F32 \<Rightarrow> store_read old (\<lambda>v. Num (ucast v)) (obus_buffer_read_f32 buf)
        | OBUS_FIELD_F64 \<Rightarrow> store_read old Num (obus_buffer_read_f64 buf)))"

definition obus_field_skip_value :: "u8 \<Rightarrow> obus_buffer \<Rightarrow> obus_buffer" where
  "obus_field_skip_value ty buf =
     (let skip = (\<lambda>n buf. snd (obus_buffer_inc_read_position buf n)) in
      case field_kind ty of
        None \<Rightarrow> buf
      | Some k \<Rightarrow> (case k of
          OBUS_FIELD_U8 \<Rightarrow> skip 1 buf | OBUS_FIELD_I8 \<Rightarrow> skip 1 buf | OBUS_FIELD_BOOL \<Rightarrow> skip 1 buf
        | OBUS_FIELD_U16 \<Rightarrow> skip 2 buf | OBUS_FIELD_I16 \<Rightarrow> skip 2 buf
        | OBUS_FIELD_U32 \<Rightarrow> skip 4 buf | OBUS_FIELD_I32 \<Rightarrow> skip 4 buf | OBUS_FIELD_ENUM \<Rightarrow> skip 4 buf
        | OBUS_FIELD_U64 \<Rightarrow> skip 8 buf | OBUS_FIELD_I64 \<Rightarrow> skip 8 buf
        | OBUS_FIELD_STRING \<Rightarrow>
            (case obus_buffer_read_u32 buf of (Inl _, buf) \<Rightarrow> buf | (Inr n, buf) \<Rightarrow> skip (unat n) buf)
        | OBUS_FIELD_F32 \<Rightarrow> skip 4 buf | OBUS_FIELD_F64 \<Rightarrow> skip 8 buf))"

section \<open>Arrays\<close>

text \<open>The size of one item in the \<open>calloc\<close> calls; for an enum it is that of the size member.\<close>

definition alloc_item_size :: "obus_field_type \<Rightarrow> nat" where
  "alloc_item_size k = (case k of
     OBUS_FIELD_U8 \<Rightarrow> 1 | OBUS_FIELD_I8 \<Rightarrow> 1 | OBUS_FIELD_BOOL \<Rightarrow> 1
   | OBUS_FIELD_U16 \<Rightarrow> 2 | OBUS_FIELD_I16 \<Rightarrow> 2
   | OBUS_FIELD_U32 \<Rightarrow> 4 | OBUS_FIELD_I32 \<Rightarrow> 4
   | OBUS_FIELD_U64 \<Rightarrow> 8 | OBUS_FIELD_I64 \<Rightarrow> 8
   | OBUS_FIELD_ENUM \<Rightarrow> 8
   | OBUS_FIELD_STRING \<Rightarrow> 8 | OBUS_FIELD_F32 \<Rightarrow> 4 | OBUS_FIELD_F64 \<Rightarrow> 8)"

definition obus_field_array_alloc :: "memory \<Rightarrow> obus_field_desc \<Rightarrow> u32 \<Rightarrow> item list option" where
  "obus_field_array_alloc m desc n_items =
     (case field_kind (ftype desc) of
        None \<Rightarrow> None
      | Some k \<Rightarrow> if alloc_ok m (unat n_items * alloc_item_size k)
                  then Some (replicate (unat n_items)
                               (if k = OBUS_FIELD_STRING then Str EmptyStr else Num 0))
                  else None)"

definition obus_field_array_skip_value :: "u8 \<Rightarrow> obus_buffer \<Rightarrow> obus_buffer" where
  "obus_field_array_skip_value ty buf =
     (case obus_buffer_read_u32 buf of
        (Inl _, buf) \<Rightarrow> buf
      | (Inr n_items, buf) \<Rightarrow> (obus_field_skip_value ty ^^ unat n_items) buf)"

text \<open>The loop over the items from \<open>i\<close> on, \<open>n\<close> of them left.\<close>

fun encode_items :: "memory \<Rightarrow> obus_field_desc \<Rightarrow> item list option \<Rightarrow> nat \<Rightarrow> nat \<Rightarrow> obus_buffer \<Rightarrow>
    unit res \<times> obus_buffer" where
  "encode_items m desc arr i 0 buf = (Inr (), buf)"
| "encode_items m desc arr i (Suc n) buf =
     (case obus_field_array_item desc arr i of
        None \<Rightarrow> (Inl EINVAL, buf)
      | Some a \<Rightarrow> (case deref arr a of
          None \<Rightarrow> (Inl FAULT, buf)
        | Some v \<Rightarrow> chk (obus_encode_value m desc v buf) (\<lambda>_ buf. encode_items m desc arr (i + 1) n buf)))"

definition obus_field_array_encode ::
  "memory \<Rightarrow> obus_struct \<Rightarrow> obus_field_desc \<Rightarrow> obus_buffer \<Rightarrow> unit res \<times> obus_buffer" where
  "obus_field_array_encode m st desc buf =
     (let arr = get_array (obus_field_address st desc);
          n_items = obus_field_array_nb_address st desc
      in chk (obus_buffer_append_u32 m buf n_items)
           (\<lambda>_ buf. encode_items m desc arr 0 (unat n_items) buf))"

fun decode_items :: "memory \<Rightarrow> obus_field_desc \<Rightarrow> item list \<Rightarrow> nat \<Rightarrow> nat \<Rightarrow> obus_buffer \<Rightarrow>
    unit res \<times> item list \<times> obus_buffer" where
  "decode_items m desc arr i 0 buf = (Inr (), arr, buf)"
| "decode_items m desc arr i (Suc n) buf =
     (case obus_field_array_item desc (Some arr) i of
        None \<Rightarrow> (Inl EINVAL, arr, buf)
      | Some a \<Rightarrow> (case deref (Some arr) a of
          None \<Rightarrow> (Inl FAULT, arr, buf)
        | Some old \<Rightarrow> (case obus_decode_value m desc old buf of
            (Inl e, v, buf) \<Rightarrow> (Inl e, arr[a := v], buf)
          | (Inr _, v, buf) \<Rightarrow> decode_items m desc (arr[a := v]) (i + 1) n buf)))"

definition obus_field_array_decode ::
  "memory \<Rightarrow> obus_struct \<Rightarrow> obus_field_desc \<Rightarrow> obus_buffer \<Rightarrow> unit res \<times> obus_struct \<times> obus_buffer" where
  "obus_field_array_decode m st desc buf =
     (case obus_buffer_read_u32 buf of
        (Inl e, buf) \<Rightarrow> (Inl e, st, buf)
      | (Inr n_items, buf) \<Rightarrow>
          (let st = set_nb st desc n_items in
           if n_items > 0
           then (case obus_field_array_alloc m desc n_items of
               None \<Rightarrow> (Inl ENOMEM, set_cell st desc (Arr None), buf)
             | Some arr \<Rightarrow> (case decode_items m desc arr 0 (unat n_items) buf of
                 (Inl e, _, buf) \<Rightarrow> (Inl e, set_cell st desc (Arr None), buf)
               | (Inr _, arr, buf) \<Rightarrow> (Inr (), set_cell st desc (Arr (Some arr)), buf)))
           else (Inr (), set_cell st desc (Arr None), buf)))"

section \<open>Fields\<close>

definition obus_field_encode ::
  "memory \<Rightarrow> obus_struct \<Rightarrow> obus_field_desc \<Rightarrow> obus_buffer \<Rightarrow> unit res \<times> obus_buffer" where
  "obus_field_encode m st desc buf =
     chk (obus_buffer_append_u16 m buf (fuid desc)) (\<lambda>_ buf.
     chk (obus_buffer_append_u8 m buf (ftype desc)) (\<lambda>_ buf.
       if is_array (ftype desc) then obus_field_array_encode m st desc buf
       else obus_encode_value m desc (get_item (obus_field_address st desc)) buf))"

text \<open>The first field with the given identifier, as its index.\<close>

fun find_uid :: "obus_field_desc list \<Rightarrow> u16 \<Rightarrow> nat option" where
  "find_uid [] uid = None"
| "find_uid (f # fs) uid = (if fuid f = uid then Some 0 else map_option Suc (find_uid fs uid))"

definition obus_struct_get_field_desc :: "obus_struct \<Rightarrow> u16 \<Rightarrow> nat option" where
  "obus_struct_get_field_desc st uid = find_uid (sfields (st_desc st)) uid"

definition skip_field :: "u8 \<Rightarrow> obus_buffer \<Rightarrow> obus_buffer" where
  "skip_field ty buf =
     (if is_array ty then obus_field_array_skip_value ty buf else obus_field_skip_value ty buf)"

text \<open>
  The result is the index of the decoded field, \<open>None\<close> when a field was skipped or could not be
  read, with the structure and the buffer afterwards.
\<close>

definition obus_field_decode ::
  "memory \<Rightarrow> obus_struct \<Rightarrow> obus_buffer \<Rightarrow> nat option \<times> obus_struct \<times> obus_buffer" where
  "obus_field_decode m st buf =
     (case obus_buffer_read_u16 buf of
        (Inl _, buf) \<Rightarrow> (None, st, buf)
      | (Inr uid, buf) \<Rightarrow>
     (case obus_buffer_read_u8 buf of
        (Inl _, buf) \<Rightarrow> (None, st, buf)
      | (Inr ty, buf) \<Rightarrow>
          (let pos = bpos buf in
           case obus_struct_get_field_desc st uid of
             None \<Rightarrow> (None, st, skip_field ty buf)
           | Some i \<Rightarrow>
               (let desc = sfields (st_desc st) ! i in
                if ftype desc \<noteq> ty then (None, st, skip_field ty buf)
                else
                  (let (ret, st, buf) =
                     (if is_array ty then obus_field_array_decode m st desc buf
                      else (case obus_decode_value m desc (get_item (obus_field_address st desc)) buf of
                              (r, v, buf) \<Rightarrow> (r, set_cell st desc (Val v), buf)))
                   in case ret of
                        Inl _ \<Rightarrow> (None, st, skip_field ty (snd (obus_buffer_set_read_position buf pos)))
                      | Inr _ \<Rightarrow> (Some i, st, buf))))))"

definition obus_field_init :: "obus_struct \<Rightarrow> obus_field_desc \<Rightarrow> obus_struct" where
  "obus_field_init st desc =
     (if is_array (ftype desc) then set_cell (set_nb st desc 0) desc (Arr None)
      else case field_kind (ftype desc) of
        None \<Rightarrow> st
      | Some k \<Rightarrow> set_cell st desc (Val (case k of
          OBUS_FIELD_ENUM \<Rightarrow> Num (set_value (enum_drv desc) (default_value (enum_drv desc)))
        | OBUS_FIELD_STRING \<Rightarrow> Str EmptyStr
        | _ \<Rightarrow> Num 0)))"

text \<open>
  Freeing has no result the program can see; what the model keeps of the destroy functions is
  whether they only follow valid addresses.
\<close>

definition obus_destroy_value :: "obus_field_desc \<Rightarrow> item option \<Rightarrow> unit res" where
  "obus_destroy_value desc a =
     (if field_kind (ftype desc) = Some OBUS_FIELD_STRING \<and> a = None then Inl FAULT else Inr ())"

fun destroy_items :: "obus_field_desc \<Rightarrow> item list option \<Rightarrow> nat \<Rightarrow> nat \<Rightarrow> unit res" where
  "destroy_items desc arr i 0 = Inr ()"
| "destroy_items desc arr i (Suc n) =
     (case obus_field_array_item desc arr i of
        None \<Rightarrow> destroy_items desc arr (i + 1) n
      | Some a \<Rightarrow> (case obus_destroy_value desc (deref arr a) of
          Inl e \<Rightarrow> Inl e
        | Inr _ \<Rightarrow> destroy_items desc arr (i + 1) n))"

definition obus_field_array_destroy :: "obus_struct \<Rightarrow> obus_field_desc \<Rightarrow> unit res" where
  "obus_field_array_destroy st desc =
     destroy_items desc (get_array (obus_field_address st desc)) 0
       (unat (obus_field_array_nb_address st desc))"

definition obus_field_destroy :: "obus_struct \<Rightarrow> obus_field_desc \<Rightarrow> unit res" where
  "obus_field_destroy st desc =
     (if is_array (ftype desc) then obus_field_array_destroy st desc
      else obus_destroy_value desc (Some (get_item (obus_field_address st desc))))"

text \<open>
  Comparing two \<open>char *\<close>: heap strings are equal when they are the same block, which depends on
  how the application shares strings between structures; \<open>alias i j\<close> says so of item \<open>i\<close> of the
  source array and item \<open>j\<close> of the destination array.
\<close>

fun same_pointer :: "bool \<Rightarrow> cstr \<Rightarrow> cstr \<Rightarrow> bool" where
  "same_pointer al NullStr NullStr = True"
| "same_pointer al EmptyStr EmptyStr = True"
| "same_pointer al (HeapStr _) (HeapStr _) = al"
| "same_pointer al _ _ = False"

text \<open>The search of the destination array, from item \<open>j\<close> on; the destination afterwards.\<close>

fun ref_items :: "(nat \<Rightarrow> bool) \<Rightarrow> obus_field_desc \<Rightarrow> item \<Rightarrow> item list option \<Rightarrow> nat \<Rightarrow> nat \<Rightarrow>
    unit res \<times> item list option" where
  "ref_items al desc src dst j 0 = (Inl ENOENT, dst)"
| "ref_items al desc src dst j (Suc n) =
     (case Option.bind (obus_field_array_item desc dst j) (deref dst) of
        None \<Rightarrow> (Inl FAULT, dst)
      | Some d \<Rightarrow> if same_pointer (al j) (get_str d) (get_str src)
                  then (Inr (), map_option (\<lambda>xs. xs[j := Str NullStr]) dst)
                  else ref_items al desc src dst (j + 1) n)"

definition obus_field_array_ref_value ::
  "(nat \<Rightarrow> bool) \<Rightarrow> obus_field_desc \<Rightarrow> nat \<Rightarrow> item \<Rightarrow> item list option \<Rightarrow> unit res \<times> item list option" where
  "obus_field_array_ref_value al desc n_dst_items src dst =
     (if field_kind (ftype desc) \<noteq> Some OBUS_FIELD_STRING then (Inl ENOSYS, dst)
      else ref_items al desc src dst 0 n_dst_items)"

text \<open>The copy loop from item \<open>i\<close> on, with the old destination array and the new one.\<close>

fun copy_items :: "memory \<Rightarrow> (nat \<Rightarrow> nat \<Rightarrow> bool) \<Rightarrow> obus_field_desc \<Rightarrow> item list option \<Rightarrow> nat \<Rightarrow>
    item list option \<Rightarrow> item list \<Rightarrow> nat \<Rightarrow> nat \<Rightarrow> unit res \<times> item list option \<times> item list" where
  "copy_items m alias desc src n_dst dst new i 0 = (Inr (), dst, new)"
| "copy_items m alias desc src n_dst dst new i (Suc n) =
     (case Option.bind (obus_field_array_item desc src i) (deref src) of
        None \<Rightarrow> (Inl FAULT, dst, new)
      | Some s \<Rightarrow>
          (case obus_field_array_ref_value (alias i) desc n_dst s dst of
             (Inr _, dst) \<Rightarrow> copy_items m alias desc src n_dst dst (new[i := s]) (i + 1) n
           | (Inl FAULT, dst) \<Rightarrow> (Inl FAULT, dst, new)
           | (Inl _, dst) \<Rightarrow>
               (case obus_copy_value m desc (new ! i) s of
                  (Inl e, v) \<Rightarrow> (Inl e, dst, new[i := v])
                | (Inr _, v) \<Rightarrow> copy_items m alias desc src n_dst dst (new[i := v]) (i + 1) n)))"

definition obus_field_array_copy ::
  "memory \<Rightarrow> (nat \<Rightarrow> nat \<Rightarrow> bool) \<Rightarrow> obus_struct \<Rightarrow> obus_struct \<Rightarrow> obus_field_desc \<Rightarrow> unit res \<times> obus_struct" where
  "obus_field_array_copy m alias dst src desc =
     (let n_src_items = obus_field_array_nb_address src desc;
          n_dst_items = obus_field_array_nb_address dst desc;
          new = (if n_src_items > 0 then obus_field_array_alloc m desc n_src_items else None)
      in if n_src_items > 0 \<and> new = None then (Inl ENOMEM, dst)
         else case copy_items m alias desc (get_array (obus_field_address src desc)) (unat n_dst_items)
                     (get_array (obus_field_address dst desc)) (case new of None \<Rightarrow> [] | Some xs \<Rightarrow> xs)
                     0 (unat n_src_items) of
                (Inl e, darr, _) \<Rightarrow> (Inl e, set_cell dst desc (Arr darr))
              | (Inr _, darr, items) \<Rightarrow>
                  (let dst = set_cell dst desc (Arr darr) in
                   case obus_field_array_destroy dst desc of
                     Inl e \<Rightarrow> (Inl e, dst)
                   | Inr _ \<Rightarrow>
                       (Inr (), set_nb (set_cell dst desc (Arr (map_option (\<lambda>_. items) new))) desc n_src_items)))"

definition obus_field_copy ::
  "memory \<Rightarrow> (nat \<Rightarrow> nat \<Rightarrow> bool) \<Rightarrow> obus_struct \<Rightarrow> obus_struct \<Rightarrow> obus_field_desc \<Rightarrow> unit res \<times> obus_struct" where
  "obus_field_copy m alias dst src desc =
     (if is_array (ftype desc) then obus_field_array_copy m alias dst src desc
      else case obus_copy_value m desc (get_item (obus_field_address dst desc))
                  (get_item (obus_field_address src desc)) of
             (r, v) \<Rightarrow> (r, set_cell dst desc (Val v)))"

section \<open>The wire format of values\<close>

text \<open>
  Five encodings carry the thirteen field types. A value on the wire is a number or a string
  that may be NULL.
\<close>

datatype wclass = W8 | W16 | W32 | W64 | WS

datatype wval = WNum u64 | WStr "u8 list option"

definition class_of :: "obus_field_type \<Rightarrow> wclass" where
  "class_of k = (case k of
     OBUS_FIELD_U8 \<Rightarrow> W8 | OBUS_FIELD_I8 \<Rightarrow> W8 | OBUS_FIELD_BOOL \<Rightarrow> W8
   | OBUS_FIELD_U16 \<Rightarrow> W16 | OBUS_FIELD_I16 \<Rightarrow> W16
   | OBUS_FIELD_U32 \<Rightarrow> W32 | OBUS_FIELD_I32 \<Rightarrow> W32 | OBUS_FIELD_ENUM \<Rightarrow> W32 | OBUS_FIELD_F32 \<Rightarrow> W32
   | OBUS_FIELD_U64 \<Rightarrow> W64 | OBUS_FIELD_I64 \<Rightarrow> W64 | OBUS_FIELD_F64 \<Rightarrow> W64
   | OBUS_FIELD_STRING \<Rightarrow> WS)"

definition wnum :: "wval \<Rightarrow> u64" where
  "wnum w = (case w of WNum n \<Rightarrow> n | WStr _ \<Rightarrow> 0)"

definition wstr :: "wval \<Rightarrow> u8 list option" where
  "wstr w = (case w of WStr s \<Rightarrow> s | WNum _ \<Rightarrow> None)"

definition wire_val :: "wclass \<Rightarrow> wval \<Rightarrow> u8 list" where
  "wire_val c w = (case c of
     W8 \<Rightarrow> [ucast (wnum w)] | W16 \<Rightarrow> be16 (ucast (wnum w)) | W32 \<Rightarrow> be32 (ucast (wnum w))
   | W64 \<Rightarrow> be64 (wnum w) | WS \<Rightarrow> wire_string (wstr w))"

text \<open>The value fits its encoding.\<close>

definition wval_ok :: "wclass \<Rightarrow> wval \<Rightarrow> bool" where
  "wval_ok c w = (case w of
     WNum n \<Rightarrow> (case c of W8 \<Rightarrow> take_bit 8 n = n | W16 \<Rightarrow> take_bit 16 n = n | W32 \<Rightarrow> take_bit 32 n = n
                | W64 \<Rightarrow> True | WS \<Rightarrow> False)
   | WStr s \<Rightarrow> c = WS \<and> string_fits s)"

definition write_wval :: "wclass \<Rightarrow> wval writer" where
  "write_wval c m b w = (case c of
     W8 \<Rightarrow> obus_buffer_append_u8 m b (ucast (wnum w)) | W16 \<Rightarrow> obus_buffer_append_u16 m b (ucast (wnum w))
   | W32 \<Rightarrow> obus_buffer_append_u32 m b (ucast (wnum w)) | W64 \<Rightarrow> obus_buffer_append_u64 m b (wnum w)
   | WS \<Rightarrow> obus_buffer_append_string m b (wstr w))"

definition read_wval :: "wclass \<Rightarrow> wval reader" where
  "read_wval c m b = (case c of
     W8 \<Rightarrow> chk (read_u8 m b) (\<lambda>v b. (Inr (WNum (ucast v)), b))
   | W16 \<Rightarrow> chk (read_u16 m b) (\<lambda>v b. (Inr (WNum (ucast v)), b))
   | W32 \<Rightarrow> chk (read_u32 m b) (\<lambda>v b. (Inr (WNum (ucast v)), b))
   | W64 \<Rightarrow> chk (read_u64 m b) (\<lambda>v b. (Inr (WNum v), b))
   | WS \<Rightarrow> chk (read_string m b) (\<lambda>v b. (Inr (WStr v), b)))"

lemma ucast_ucast_take_bit:
  "(ucast (ucast n :: u8) :: u64) = take_bit 8 n" "(ucast (ucast n :: u16) :: u64) = take_bit 16 n"
  "(ucast (ucast n :: u32) :: u64) = take_bit 32 n" for n :: u64
  by (auto intro!: bit_word_eqI simp: bit_simps dest: bit_imp_le_length)

lemma ucast_take_bit:
  "(ucast (take_bit 8 n) :: u8) = ucast n" "(ucast (take_bit 16 n) :: u16) = ucast n"
  "(ucast (take_bit 32 n) :: u32) = ucast n" for n :: u64
  by (auto intro!: bit_word_eqI simp: bit_simps)

lemma ucast_up_down:
  "(ucast (ucast a :: u64) :: u8) = a" "(ucast (ucast b :: u64) :: u16) = b"
  "(ucast (ucast c :: u64) :: u32) = c"
  by (auto intro!: bit_word_eqI simp: bit_simps)

lemma take_bit_ucast:
  "take_bit 8 (ucast a :: u64) = ucast a" "take_bit 16 (ucast b :: u64) = ucast b"
  "take_bit 32 (ucast c :: u64) = ucast c" for a :: u8 and b :: u16 and c :: u32
  by (metis ucast_ucast_take_bit ucast_up_down)+

lemma ucast_eq_0: "(ucast a :: u64) = 0 \<longleftrightarrow> a = 0" for a :: u8
  by (metis ucast_up_down(1) unsigned_0)

lemma take_bit_8_eq_0: "take_bit 8 n = 0 \<longleftrightarrow> (ucast n :: u8) = 0" for n :: u64
  by (metis ucast_ucast_take_bit(1) ucast_take_bit(1) unsigned_0)

lemmas width_simps = ucast_ucast_take_bit ucast_take_bit ucast_up_down take_bit_ucast take_bit_8_eq_0 ucast_eq_0

lemma wval_okE:
  assumes "wval_ok c w"
  obtains (num) n where "w = WNum n" "c \<noteq> WS" "c = W8 \<Longrightarrow> take_bit 8 n = n"
      "c = W16 \<Longrightarrow> take_bit 16 n = n" "c = W32 \<Longrightarrow> take_bit 32 n = n"
  | (str) s where "w = WStr s" "c = WS" "string_fits s"
  using assms by (cases w) (auto simp: wval_ok_def split: wclass.splits)

interpretation wv: wire "write_wval c" "read_wval c" "wire_val c" "\<lambda>w. length (wire_val c w)" "wval_ok c" for c
proof (unfold_locales, goal_cases)
  case (1 b v m)
  then show ?case
    using w8.wr_ok [where b = b and m = m] w16.wr_ok [where b = b and m = m]
      w32.wr_ok [where b = b and m = m] w64.wr_ok [where b = b and m = m]
      wstr.wr_ok [where b = b and m = m]
    by (cases c) (auto simp: write_wval_def wire_val_def wstr_def elim!: wval_okE)
next
  case (2 b m v)
  then show ?case
    using w8.wr_grows w16.wr_grows w32.wr_grows w64.wr_grows wstr.wr_grows
    by (cases c) (simp_all add: write_wval_def)
next
  case (3 b v rest m)
  then show ?case
    by (cases c)
      (auto elim!: wval_okE simp: read_wval_def wire_val_def wnum_def wstr_def ucast_ucast_take_bit
        w8.rd_ok w16.rd_ok w32.rd_ok w64.rd_ok wstr.rd_ok enough_mono)
qed

text \<open>What a stored item looks like on the wire, and what a receiver stores for it.\<close>

definition to_wire :: "obus_field_desc \<Rightarrow> obus_field_type \<Rightarrow> item \<Rightarrow> wval" where
  "to_wire desc k v = (case k of
     OBUS_FIELD_BOOL \<Rightarrow> WNum (if take_bit 8 (get_num v) \<noteq> 0 then 1 else 0)
   | OBUS_FIELD_ENUM \<Rightarrow> WNum (ucast (get_value (enum_drv desc) (get_num v)))
   | OBUS_FIELD_STRING \<Rightarrow> WStr (c_chars (get_str v))
   | _ \<Rightarrow> WNum (case class_of k of W8 \<Rightarrow> take_bit 8 (get_num v) | W16 \<Rightarrow> take_bit 16 (get_num v)
                | W32 \<Rightarrow> take_bit 32 (get_num v) | _ \<Rightarrow> get_num v))"

definition from_wire :: "obus_field_desc \<Rightarrow> obus_field_type \<Rightarrow> wval \<Rightarrow> item" where
  "from_wire desc k w = (case k of
     OBUS_FIELD_BOOL \<Rightarrow> Num (if wnum w \<noteq> 0 then 1 else 0)
   | OBUS_FIELD_ENUM \<Rightarrow> Num (set_value (enum_drv desc) (ucast (wnum w)))
   | OBUS_FIELD_STRING \<Rightarrow> Str (heap_str (wstr w))
   | _ \<Rightarrow> Num (wnum w))"

definition item_ok :: "obus_field_type \<Rightarrow> item \<Rightarrow> bool" where
  "item_ok k v \<longleftrightarrow> (k = OBUS_FIELD_STRING \<longrightarrow> string_fits (c_chars (get_str v)))"

lemma to_wire_ok: "item_ok k v \<Longrightarrow> wval_ok (class_of k) (to_wire desc k v)"
  by (cases k) (simp_all add: item_ok_def to_wire_def wval_ok_def class_of_def width_simps)

lemma encode_value_wire:
  assumes "field_kind (ftype desc) = Some k"
  shows "obus_encode_value m desc v b = write_wval (class_of k) m b (to_wire desc k v)"
  using assms
  by (cases k) (simp_all add: obus_encode_value_def write_wval_def to_wire_def class_of_def
      wnum_def wstr_def append_is_bytes width_simps)

text \<open>A successful read, by encoding.\<close>

lemma read_wval_Inr:
  "read_wval W8 m b = (Inr w, b') \<longleftrightarrow> (\<exists>v. obus_buffer_read_u8 b = (Inr v, b') \<and> w = WNum (ucast v))"
  "read_wval W16 m b = (Inr w, b') \<longleftrightarrow> (\<exists>v. obus_buffer_read_u16 b = (Inr v, b') \<and> w = WNum (ucast v))"
  "read_wval W32 m b = (Inr w, b') \<longleftrightarrow> (\<exists>v. obus_buffer_read_u32 b = (Inr v, b') \<and> w = WNum (ucast v))"
  "read_wval W64 m b = (Inr w, b') \<longleftrightarrow> (\<exists>v. obus_buffer_read_u64 b = (Inr v, b') \<and> w = WNum v)"
  "read_wval WS m b = (Inr w, b') \<longleftrightarrow>
     (\<exists>v. read_string m b = (Inr v, b') \<and> w = WStr v)"
  by (auto simp: read_wval_def reader_defs chk_def split: prod.splits sum.splits)

lemma read_string_out:
  assumes "read_string m b = (Inr s, b')"
  shows "obus_buffer_read_string m b = (Inr (), Some s, b')"
  using assms
  by (auto simp: read_string_def obus_buffer_read_string_def split: prod.splits sum.splits if_splits)

lemma decode_value_wire:
  assumes "field_kind (ftype desc) = Some k" "read_wval (class_of k) m b = (Inr w, b')"
  shows "obus_decode_value m desc old b = (Inr (), from_wire desc k w, b')"
  using assms
  by (cases k) (auto simp: obus_decode_value_def from_wire_def class_of_def store_read_def
      wnum_def wstr_def read_wval_Inr obus_buffer_read_f32_def obus_buffer_read_f64_def width_simps
      dest!: read_string_out)

lemma decode_value_ok:
  assumes "field_kind (ftype desc) = Some k" "reads_at b p (wire_val (class_of k) w @ rest)"
    "wval_ok (class_of k) w" "enough m (length (wire_val (class_of k) w))"
  shows "obus_decode_value m desc old (advance b p) =
      (Inr (), from_wire desc k w, advance b (p + length (wire_val (class_of k) w)))"
  by (rule decode_value_wire [OF assms(1) wv.rd_then(1) [OF assms(2-4)]])

text \<open>Skipping a value of any known type consumes exactly its image.\<close>

lemma inc_read_ok:
  assumes "reads_at b p (bs @ rest)" "bs \<noteq> []"
  shows "snd (obus_buffer_inc_read_position (advance b p) (length bs)) = advance b (p + length bs)"
proof -
  have "buf_ok (advance b p)" "unread (advance b p) = bs @ rest"
    using assms(1) by (simp_all add: reads_at_def)
  from unread_prefix(1) [OF this assms(2)] buf_okD [OF this(1)] show ?thesis
    by (simp add: obus_buffer_inc_read_position_def advance_def add.commute add.left_commute)
qed

lemma skip_value_ok:
  assumes "field_kind ty = Some k" "reads_at b p (wire_val (class_of k) w @ rest)" "wval_ok (class_of k) w"
  shows "obus_field_skip_value ty (advance b p) = advance b (p + length (wire_val (class_of k) w))"
proof (cases "k = OBUS_FIELD_STRING")
  case True
  then obtain s where w: "w = WStr s" "string_fits s"
    using assms(3) by (auto elim!: wval_okE simp: class_of_def)
  let ?t = "case s of None \<Rightarrow> [] | Some t \<Rightarrow> t @ [0]"
  have r: "reads_at b p (be32 (string_size s) @ ?t @ rest)"
    using assms(2) True w by (simp add: class_of_def wire_val_def wstr_def wire_string_def)
  note r32 = w32.rd_then [OF r, of full_memory, unfolded reader_defs]
  show ?thesis
  proof (cases s)
    case None
    have "sz (bpos b + (p + 4)) = bpos b + (p + 4)"
      using buf_okD(3,4) [of "advance b (p + 4)"] r32(2) by (intro sz_id_half) (simp add: reads_at_def)
    then show ?thesis using None r32 assms(1) True w
      by (simp add: obus_field_skip_value_def string_size_def class_of_def wire_val_def wstr_def
          length_wire_string obus_buffer_inc_read_position_def advance_def)
  next
    case (Some t)
    then show ?thesis using r32 assms(1) True w inc_read_ok [of b "p + 4" "t @ [0]" rest] string_size_fits [of t]
      by (simp add: obus_field_skip_value_def class_of_def wire_val_def wstr_def length_wire_string
          add.commute add.left_commute)
  qed
next
  case False
  then show ?thesis
    using assms(1) inc_read_ok [OF assms(2)]
    by (cases k) (simp_all add: obus_field_skip_value_def class_of_def wire_val_def Let_def)
qed

section \<open>The wire format of fields\<close>

text \<open>A field on the wire: its identifier, its type byte and its values (one unless an array).\<close>

type_synonym wentry = "u16 \<times> u8 \<times> wval list"

definition wire_payload :: "u8 \<Rightarrow> wval list \<Rightarrow> u8 list" where
  "wire_payload ty ws = (case field_kind ty of
     None \<Rightarrow> []
   | Some k \<Rightarrow> if is_array ty
               then be32 (of_nat (length ws)) @ concat (map (wire_val (class_of k)) ws)
               else wire_val (class_of k) (hd ws))"

definition wire_entry :: "wentry \<Rightarrow> u8 list" where
  "wire_entry e = (case e of (uid, ty, ws) \<Rightarrow> be16 uid @ [ty] @ wire_payload ty ws)"

definition payload_ok :: "u8 \<Rightarrow> wval list \<Rightarrow> bool" where
  "payload_ok ty ws = (case field_kind ty of
     None \<Rightarrow> False
   | Some k \<Rightarrow> (\<forall>w\<in>set ws. wval_ok (class_of k) w)
               \<and> (if is_array ty then length ws < 2 ^ 32 else length ws = 1))"

definition entry_ok :: "wentry \<Rightarrow> bool" where
  "entry_ok e = (case e of (uid, ty, ws) \<Rightarrow> payload_ok ty ws)"

text \<open>Bytes of memory that suffice to receive the values.\<close>

definition payload_need :: "u8 \<Rightarrow> wval list \<Rightarrow> nat" where
  "payload_need ty ws = 8 * length ws + length (wire_payload ty ws)"

text \<open>The values a structure sends for a field.\<close>

definition field_values :: "obus_struct \<Rightarrow> obus_field_desc \<Rightarrow> item list" where
  "field_values st desc =
     (if is_array (ftype desc)
      then (case get_array (obus_field_address st desc) of None \<Rightarrow> [] | Some xs \<Rightarrow> xs)
      else [get_item (obus_field_address st desc)])"

definition field_entry :: "obus_struct \<Rightarrow> obus_field_desc \<Rightarrow> wentry" where
  "field_entry st desc =
     (fuid desc, ftype desc, map (to_wire desc (the (field_kind (ftype desc)))) (field_values st desc))"

text \<open>
  A field in a consistent state: the array has as many items as the count says (none when it
  is NULL) and the strings have a length the encoding can express.
\<close>

definition field_ok :: "obus_struct \<Rightarrow> obus_field_desc \<Rightarrow> bool" where
  "field_ok st desc = (case field_kind (ftype desc) of
     None \<Rightarrow> False
   | Some k \<Rightarrow> (\<forall>v\<in>set (field_values st desc). item_ok k v)
       \<and> (is_array (ftype desc) \<longrightarrow>
            unat (obus_field_array_nb_address st desc) = length (field_values st desc)))"

lemma unat_u32_less: "unat (n :: u32) < 2 ^ 32"
  using unsigned_less [of n] by simp

lemma field_entry_ok: "field_ok st desc \<Longrightarrow> entry_ok (field_entry st desc)"
  using unat_u32_less [of "obus_field_array_nb_address st desc"]
  by (auto simp: field_ok_def entry_ok_def field_entry_def payload_ok_def to_wire_ok field_values_def
      split: option.splits if_splits)

lemma encode_items_wire:
  assumes "field_kind (ftype desc) = Some k" "i + n \<le> length xs"
  shows "encode_items m desc (Some xs) i n b =
      write_list (write_wval (class_of k)) m b (map (to_wire desc k) (take n (drop i xs)))"
  using assms(2)
proof (induction n arbitrary: i b)
  case (Suc n)
  have "take (Suc n) (drop i xs) = xs ! i # take n (drop (Suc i) xs)"
    using Suc.prems by (simp add: Cons_nth_drop_Suc [symmetric])
  moreover have "encode_items m desc (Some xs) (Suc i) n =
      (\<lambda>b. write_list (write_wval (class_of k)) m b (map (to_wire desc k) (take n (drop (Suc i) xs))))"
    by (rule ext, rule Suc.IH) (use Suc.prems in simp)
  ultimately show ?case
    using Suc.prems by (simp add: obus_field_array_item_def deref_def assms(1) encode_value_wire [OF assms(1)])
qed simp

lemma array_encode_ok:
  assumes "field_kind (ftype desc) = Some k" "is_array (ftype desc)" "field_ok st desc" "buf_ok b"
    "enough m (blength b + length (wire_payload (ftype desc) (map (to_wire desc k) (field_values st desc))))"
  shows "\<exists>b'. obus_field_array_encode m st desc b = (Inr (), b')
    \<and> appended b b' (wire_payload (ftype desc) (map (to_wire desc k) (field_values st desc)))"
proof -
  let ?n = "obus_field_array_nb_address st desc" and ?xs = "field_values st desc"
  let ?ws = "map (to_wire desc k) ?xs"
  have n1: "unat ?n = length ?xs" and ok: "\<And>w. w \<in> set ?ws \<Longrightarrow> wval_ok (class_of k) w"
    using assms(1-3) to_wire_ok by (auto simp: field_ok_def)
  then have n: "unat ?n = length ?xs" "?n = of_nat (length ?ws)" by (simp_all flip: n1)
  have pl: "wire_payload (ftype desc) ?ws = be32 ?n @ concat (map (wire_val (class_of k)) ?ws)"
    using assms(1,2) n(2) by (simp add: wire_payload_def)
  have "enough m (blength b + 4)" by (rule enough_mono [OF assms(5)]) (simp add: pl)
  with w32.wr_then [of b b "[]" m ?n] assms(4) obtain b1 where
    b1: "obus_buffer_append_u32 m b ?n = (Inr (), b1)" "appended b b1 (be32 ?n)" by auto
  have "blength b1 = blength b + 4" using appended_blength [OF b1(2) assms(4)] by simp
  with wv.write_list_ok [of b1 ?ws "class_of k" m, OF appended_ok [OF b1(2)] ok] assms(5) pl obtain b2 where
    b2: "write_list (write_wval (class_of k)) m b1 ?ws = (Inr (), b2)"
      "appended b1 b2 (concat (map (wire_val (class_of k)) ?ws))"
    by (auto simp: add.assoc)
  have "encode_items m desc (get_array (obus_field_address st desc)) 0 (unat ?n) b1
      = write_list (write_wval (class_of k)) m b1 ?ws"
  proof (cases "get_array (obus_field_address st desc)")
    case None
    then have "?xs = []" using assms(2) by (simp add: field_values_def)
    then show ?thesis using n(1) by simp
  next
    case (Some xs)
    then have "?xs = xs" using assms(2) by (simp add: field_values_def)
    then show ?thesis using encode_items_wire [OF assms(1), of 0 "unat ?n" xs m b1] n(1) Some by simp
  qed
  then show ?thesis
    using b1(1) b2(1) appended_trans [OF b1(2) b2(2)] pl by (simp add: obus_field_array_encode_def)
qed

lemma field_encode_ok:
  assumes "field_ok st desc" "buf_ok b" "enough m (blength b + length (wire_entry (field_entry st desc)))"
  shows "\<exists>b'. obus_field_encode m st desc b = (Inr (), b') \<and> appended b b' (wire_entry (field_entry st desc))"
proof -
  obtain k where k: "field_kind (ftype desc) = Some k" using assms(1) by (auto simp: field_ok_def split: option.splits)
  let ?ws = "map (to_wire desc k) (field_values st desc)" and ?p = "be16 (fuid desc) @ [ftype desc]"
  have we: "wire_entry (field_entry st desc) = ?p @ wire_payload (ftype desc) ?ws"
    using k by (simp add: wire_entry_def field_entry_def)
  note en = enough_mono [OF assms(3)]
  from w16.wr_then [of b b "[]" m "fuid desc"] assms(2) en we obtain b1 where
    b1: "obus_buffer_append_u16 m b (fuid desc) = (Inr (), b1)" "appended b b1 (be16 (fuid desc))" by auto
  from w8.wr_then [OF b1(2) assms(2), of m "ftype desc"] en we obtain b2 where
    b2: "obus_buffer_append_u8 m b1 (ftype desc) = (Inr (), b2)" "appended b b2 ?p" by auto
  note ok2 = appended_ok [OF b2(2)]
  have en2: "enough m (blength b2 + length (wire_payload (ftype desc) ?ws))"
    by (rule enough_mono [OF assms(3)]) (simp add: we appended_blength [OF b2(2) assms(2)])
  have "\<exists>b'. (if is_array (ftype desc) then obus_field_array_encode m st desc b2
      else obus_encode_value m desc (get_item (obus_field_address st desc)) b2) = (Inr (), b')
      \<and> appended b2 b' (wire_payload (ftype desc) ?ws)"
  proof (cases "is_array (ftype desc)")
    case True
    then show ?thesis using array_encode_ok [OF k True assms(1) ok2 en2] by simp
  next
    case False
    then have v: "field_values st desc = [get_item (obus_field_address st desc)]" by (simp add: field_values_def)
    then have "item_ok k (get_item (obus_field_address st desc))" using assms(1) k by (simp add: field_ok_def)
    then show ?thesis
      using wv.wr_ok [OF ok2 to_wire_ok, of k _ m desc] False v k en2
      by (simp add: encode_value_wire [OF k] wire_payload_def)
  qed
  then show ?thesis using b1(1) b2(1) appended_trans [OF b2(2)] we by (auto simp: obus_field_encode_def)
qed

section \<open>Receiving fields\<close>

text \<open>What receiving the values \<open>ws\<close> for a field makes of a structure.\<close>

definition put_field :: "obus_struct \<Rightarrow> obus_field_desc \<Rightarrow> wval list \<Rightarrow> obus_struct" where
  "put_field st desc ws =
     (let vs = map (from_wire desc (the (field_kind (ftype desc)))) ws in
      if is_array (ftype desc)
      then set_cell (set_nb st desc (of_nat (length ws))) desc (Arr (if ws = [] then None else Some vs))
      else set_cell st desc (Val (hd vs)))"

text \<open>The field a receiver decodes an entry into: the identifier is known and the types agree.\<close>

definition accepts :: "obus_struct_desc \<Rightarrow> u16 \<Rightarrow> u8 \<Rightarrow> nat option" where
  "accepts sd uid ty = (case find_uid (sfields sd) uid of
     None \<Rightarrow> None | Some i \<Rightarrow> if ftype (sfields sd ! i) = ty then Some i else None)"

lemma decode_items_ok:
  assumes "field_kind (ftype desc) = Some k" "\<And>w. w \<in> set ws \<Longrightarrow> wval_ok (class_of k) w"
    "reads_at b p (concat (map (wire_val (class_of k)) ws) @ rest)"
    "enough m (length (concat (map (wire_val (class_of k)) ws)))" "i + length ws \<le> length arr"
  shows "decode_items m desc arr i (length ws) (advance b p) =
      (Inr (), take i arr @ map (from_wire desc k) ws @ drop (i + length ws) arr,
       advance b (p + length (concat (map (wire_val (class_of k)) ws))))"
  using assms(2-)
proof (induction ws arbitrary: arr i p)
  case (Cons w ws)
  let ?e = "wire_val (class_of k) w" and ?v = "from_wire desc k w"
  have r: "reads_at b p (?e @ concat (map (wire_val (class_of k)) ws) @ rest)"
    using Cons.prems(2) by simp
  have en: "enough m (length ?e)" "enough m (length (concat (map (wire_val (class_of k)) ws)))"
    by (rule enough_mono [OF Cons.prems(3)], simp)+
  have d: "obus_decode_value m desc (arr ! i) (advance b p) = (Inr (), ?v, advance b (p + length ?e))"
    by (rule decode_value_ok [OF assms(1) r]) (use Cons.prems(1) en in auto)
  have ih: "decode_items m desc (arr[i := ?v]) (i + 1) (length ws) (advance b (p + length ?e)) =
      (Inr (), take (i + 1) (arr[i := ?v]) @ map (from_wire desc k) ws @ drop (i + 1 + length ws) (arr[i := ?v]),
       advance b (p + length ?e + length (concat (map (wire_val (class_of k)) ws))))"
    by (rule Cons.IH) (use Cons.prems en reads_at_step [OF r] in auto)
  have "take (Suc i) (arr[i := ?v]) = take i arr @ [?v]"
    using Cons.prems(4) by (intro take_Suc_update) simp
  then show ?case
    using d ih Cons.prems(4) assms(1)
    by (simp add: obus_field_array_item_def deref_def add.assoc)
qed simp

lemma wire_val_not_Nil: "wval_ok c w \<Longrightarrow> wire_val c w \<noteq> []"
  by (cases c) (auto simp: wire_val_def wire_string_def)

lemma alloc_item_size_le: "alloc_item_size k \<le> 8"
  by (cases k) (simp_all add: alloc_item_size_def)

lemma array_alloc_ok:
  assumes "field_kind (ftype desc) = Some k" "enough m (8 * unat n)"
  obtains arr where "obus_field_array_alloc m desc n = Some arr" "length arr = unat n"
proof -
  have "unat n * alloc_item_size k \<le> 8 * unat n"
    using alloc_item_size_le [of k] by (simp add: mult.commute)
  then have "alloc_ok m (unat n * alloc_item_size k)" using enough_alloc [OF assms(2)] by blast
  then show thesis using that assms(1) by (simp add: obus_field_array_alloc_def)
qed

lemma unat_of_nat_u32: "n < 2 ^ 32 \<Longrightarrow> unat (of_nat n :: u32) = n"
  by (simp add: unat_of_nat)

lemma array_decode_ok:
  assumes "payload_ok (ftype desc) ws" "is_array (ftype desc)"
    "reads_at b p (wire_payload (ftype desc) ws @ rest)" "enough m (payload_need (ftype desc) ws)"
  shows "obus_field_array_decode m st desc (advance b p) =
      (Inr (), put_field st desc ws, advance b (p + length (wire_payload (ftype desc) ws)))"
proof -
  obtain k where k: "field_kind (ftype desc) = Some k" using assms(1) by (auto simp: payload_ok_def split: option.splits)
  let ?n = "of_nat (length ws) :: u32" and ?c = "concat (map (wire_val (class_of k)) ws)"
  have ws: "\<And>w. w \<in> set ws \<Longrightarrow> wval_ok (class_of k) w" "unat ?n = length ws"
    using assms(1,2) k by (auto simp: payload_ok_def unat_of_nat_u32)
  have pl: "wire_payload (ftype desc) ws = be32 ?n @ ?c" using k assms(2) by (simp add: wire_payload_def)
  have r: "reads_at b p (be32 ?n @ ?c @ rest)" using assms(3) pl by simp
  note r32 = w32.rd_then [OF r, of full_memory, unfolded reader_defs, simplified]
  have en: "enough m (8 * unat ?n)" "enough m (length ?c)"
    by (rule enough_mono [OF assms(4)], simp add: payload_need_def pl ws(2))+
  show ?thesis
  proof (cases "ws = []")
    case True
    then show ?thesis using r32 pl assms(2) k by (simp add: obus_field_array_decode_def Let_def put_field_def)
  next
    case False
    then have "?n > 0" using ws(2) by (metis length_0_conv unat_0 word_gt_0)
    obtain arr where arr: "obus_field_array_alloc m desc ?n = Some arr" "length arr = unat ?n"
      using array_alloc_ok [OF k en(1)] by blast
    have "decode_items m desc arr 0 (length ws) (advance b (p + 4)) =
        (Inr (), take 0 arr @ map (from_wire desc k) ws @ drop (0 + length ws) arr, advance b (p + 4 + length ?c))"
      by (rule decode_items_ok [OF k ws(1) r32(2) en(2)]) (use arr ws(2) in auto)
    then show ?thesis using r32 pl assms(2) k arr ws(2) False \<open>?n > 0\<close>
      by (simp add: obus_field_array_decode_def Let_def put_field_def add.assoc)
  qed
qed

lemma skip_items_ok:
  assumes "field_kind ty = Some k" "\<And>w. w \<in> set ws \<Longrightarrow> wval_ok (class_of k) w"
    "reads_at b p (concat (map (wire_val (class_of k)) ws) @ rest)"
  shows "(obus_field_skip_value ty ^^ length ws) (advance b p) =
      advance b (p + length (concat (map (wire_val (class_of k)) ws)))"
  using assms(2,3)
proof (induction ws arbitrary: p)
  case (Cons w ws)
  let ?e = "wire_val (class_of k) w"
  have r: "reads_at b p (?e @ concat (map (wire_val (class_of k)) ws) @ rest)" using Cons.prems(2) by simp
  have "obus_field_skip_value ty (advance b p) = advance b (p + length ?e)"
    by (rule skip_value_ok [OF assms(1) r]) (use Cons.prems(1) in simp)
  moreover have "(obus_field_skip_value ty ^^ length ws) (advance b (p + length ?e)) =
      advance b (p + length ?e + length (concat (map (wire_val (class_of k)) ws)))"
    by (rule Cons.IH) (use Cons.prems reads_at_step [OF r] in auto)
  ultimately show ?case by (simp add: funpow_swap1 add.assoc)
qed simp

lemma skip_field_ok:
  assumes "payload_ok ty ws" "reads_at b p (wire_payload ty ws @ rest)"
  shows "skip_field ty (advance b p) = advance b (p + length (wire_payload ty ws))"
proof -
  obtain k where k: "field_kind ty = Some k" using assms(1) by (auto simp: payload_ok_def split: option.splits)
  show ?thesis
  proof (cases "is_array ty")
    case True
    let ?n = "of_nat (length ws) :: u32" and ?c = "concat (map (wire_val (class_of k)) ws)"
    have pl: "wire_payload ty ws = be32 ?n @ ?c" using k True by (simp add: wire_payload_def)
    have r: "reads_at b p (be32 ?n @ ?c @ rest)" using assms(2) pl by simp
    note r32 = w32.rd_then [OF r, of full_memory, unfolded reader_defs, simplified]
    have "unat ?n = length ws" using assms(1) k True by (simp add: payload_ok_def unat_of_nat_u32)
    then show ?thesis
      using r32 pl True skip_items_ok [OF k _ r32(2)] assms(1) k
      by (simp add: skip_field_def obus_field_array_skip_value_def payload_ok_def add.assoc)
  next
    case False
    then obtain w where "ws = [w]" "wval_ok (class_of k) w"
      using assms(1) k by (cases ws) (auto simp: payload_ok_def)
    then show ?thesis using False skip_value_ok [OF k] assms(2) k
      by (simp add: skip_field_def wire_payload_def)
  qed
qed

lemma find_uid_Some:
  "find_uid fs uid = Some i \<Longrightarrow> i < length fs \<and> fuid (fs ! i) = uid"
  by (induction fs arbitrary: i) (auto split: if_splits)

text \<open>
  Decoding an entry, whoever sent it: it is stored when the receiver knows the field with the
  same type and passed over otherwise; in both cases exactly the entry is consumed.
\<close>

lemma field_decode_ok:
  assumes "payload_ok ty ws" "reads_at b p (wire_entry (uid, ty, ws) @ rest)"
    "enough m (payload_need ty ws)"
  shows "obus_field_decode m st (advance b p) =
     (let i = accepts (st_desc st) uid ty in
      (i, (case i of None \<Rightarrow> st | Some i \<Rightarrow> put_field st (sfields (st_desc st) ! i) ws),
       advance b (p + length (wire_entry (uid, ty, ws)))))"
proof -
  obtain k where k: "field_kind ty = Some k" using assms(1) by (auto simp: payload_ok_def split: option.splits)
  have r: "reads_at b p (be16 uid @ [ty] @ wire_payload ty ws @ rest)"
    using assms(2) by (simp add: wire_entry_def)
  have r16: "obus_buffer_read_u16 (advance b p) = (Inr uid, advance b (p + 2))"
    and r2: "reads_at b (p + 2) ([ty] @ wire_payload ty ws @ rest)"
    using w16.rd_then [OF r, of full_memory] by (simp_all add: reader_defs)
  have r8: "obus_buffer_read_u8 (advance b (p + 2)) = (Inr ty, advance b (p + 3))"
    and r3: "reads_at b (p + 3) (wire_payload ty ws @ rest)"
    using w8.rd_then [OF r2, of full_memory] by (simp_all add: reader_defs numeral_3_eq_3)
  have len: "p + length (wire_entry (uid, ty, ws)) = p + 3 + length (wire_payload ty ws)"
    by (simp add: wire_entry_def)
  note skip = skip_field_ok [OF assms(1) r3]
  show ?thesis
  proof (cases "accepts (st_desc st) uid ty")
    case None
    then show ?thesis using r16 r8 skip len
      by (auto simp: obus_field_decode_def obus_struct_get_field_desc_def accepts_def Let_def add.assoc
          split: option.splits if_splits)
  next
    case (Some i)
    let ?d = "sfields (st_desc st) ! i"
    have i: "find_uid (sfields (st_desc st)) uid = Some i" "ftype ?d = ty"
      using Some by (auto simp: accepts_def split: option.splits if_splits)
    have "(if is_array ty then obus_field_array_decode m st ?d (advance b (p + 3))
        else case obus_decode_value m ?d (get_item (obus_field_address st ?d)) (advance b (p + 3)) of
               (r, v, buf) \<Rightarrow> (r, set_cell st ?d (Val v), buf))
      = (Inr (), put_field st ?d ws, advance b (p + 3 + length (wire_payload ty ws)))"
    proof (cases "is_array ty")
      case True
      then show ?thesis using array_decode_ok [of ?d ws b "p + 3" rest m st] assms(1,3) r3 i(2) by simp
    next
      case False
      then obtain w where w: "ws = [w]" "wval_ok (class_of k) w"
        using assms(1) k by (cases ws) (auto simp: payload_ok_def)
      have "reads_at b (p + 3) (wire_val (class_of k) w @ rest)"
        using r3 False w k by (simp add: wire_payload_def)
      moreover have "enough m (length (wire_val (class_of k) w))"
        by (rule enough_mono [OF assms(3)]) (use False w k in \<open>simp add: payload_need_def wire_payload_def\<close>)
      ultimately show ?thesis
        using False w k i(2) decode_value_ok [of ?d k b "p + 3" w rest m] by (simp add: wire_payload_def put_field_def)
    qed
    then show ?thesis using Some i r16 r8 len
      by (simp add: obus_field_decode_def obus_struct_get_field_desc_def Let_def add.assoc)
  qed
qed

end
