(* ===== verification/Obus_Struct.thy ===== *)
theory Obus_Struct
  imports Obus_Field
begin

text \<open>
  Structures: \<open>obus_struct.c\<close>, the operations that go over all fields of a structure and the bit
  set that says which fields are set. The first part holds the operations; the others the laws
  of the bit set, the wire format of a structure, and what encoding, decoding and merging do.
\<close>

section \<open>Operations\<close>

definition obus_struct_has_field :: "obus_struct \<Rightarrow> nat \<Rightarrow> bool" where
  "obus_struct_has_field st idx \<longleftrightarrow>
     idx < length (sfields (st_desc st))
     \<and> (st_bits st ! (idx div 32)) AND push_bit (idx mod 32) 1 \<noteq> 0"

definition obus_struct_set_has_field :: "obus_struct \<Rightarrow> nat \<Rightarrow> unit res \<times> obus_struct" where
  "obus_struct_set_has_field st idx =
     (if idx \<ge> length (sfields (st_desc st)) then (Inl EINVAL, st)
      else (Inr (), st\<lparr>st_bits := (st_bits st)[idx div 32 :=
              (st_bits st ! (idx div 32)) OR push_bit (idx mod 32) 1]\<rparr>))"

definition obus_struct_clear_has_field :: "obus_struct \<Rightarrow> nat \<Rightarrow> unit res \<times> obus_struct" where
  "obus_struct_clear_has_field st idx =
     (if idx \<ge> length (sfields (st_desc st)) then (Inl EINVAL, st)
      else (Inr (), st\<lparr>st_bits := (st_bits st)[idx div 32 :=
              (st_bits st ! (idx div 32)) AND NOT (push_bit (idx mod 32) 1)]\<rparr>))"

text \<open>The loops that combine the return codes with \<open>ret |= ...\<close>.\<close>

definition or_loop :: "(obus_struct \<Rightarrow> nat \<Rightarrow> unit res \<times> obus_struct) \<Rightarrow> obus_struct \<Rightarrow> nat list \<Rightarrow> unit res \<times> obus_struct" where
  "or_loop f st is =
     foldl (\<lambda>(ret, st) i. case f st i of (r, st) \<Rightarrow> (or_res ret r, st)) (Inr (), st) is"

definition field_indices :: "obus_struct \<Rightarrow> nat list" where
  "field_indices st = [0..<length (sfields (st_desc st))]"

definition obus_struct_set_has_fields :: "obus_struct \<Rightarrow> unit res \<times> obus_struct" where
  "obus_struct_set_has_fields st = or_loop obus_struct_set_has_field st (field_indices st)"

definition obus_struct_clear_has_fields :: "obus_struct \<Rightarrow> unit res \<times> obus_struct" where
  "obus_struct_clear_has_fields st = or_loop obus_struct_clear_has_field st (field_indices st)"

definition obus_struct_init :: "obus_struct \<Rightarrow> obus_struct" where
  "obus_struct_init st =
     snd (obus_struct_clear_has_fields (foldl obus_field_init st (sfields (st_desc st))))"

primrec destroy_fields :: "obus_struct \<Rightarrow> obus_field_desc list \<Rightarrow> unit res" where
  "destroy_fields st [] = Inr ()"
| "destroy_fields st (f # fs) =
     (case obus_field_destroy st f of Inl e \<Rightarrow> Inl e | Inr _ \<Rightarrow> destroy_fields st fs)"

definition obus_struct_destroy :: "obus_struct \<Rightarrow> unit res" where
  "obus_struct_destroy st = destroy_fields st (sfields (st_desc st))"

primrec encode_fields :: "memory \<Rightarrow> obus_struct \<Rightarrow> nat list \<Rightarrow> obus_buffer \<Rightarrow> unit res \<times> obus_buffer" where
  "encode_fields m st [] buf = (Inr (), buf)"
| "encode_fields m st (i # is) buf =
     (if obus_struct_has_field st i
      then chk (obus_field_encode m st (sfields (st_desc st) ! i) buf)
             (\<lambda>_ buf. encode_fields m st is buf)
      else encode_fields m st is buf)"

definition obus_struct_encode :: "memory \<Rightarrow> obus_struct \<Rightarrow> obus_buffer \<Rightarrow> unit res \<times> obus_buffer" where
  "obus_struct_encode m st buf =
     (let n_fields = of_nat (length (filter (obus_struct_has_field st) (field_indices st))) in
      chk (obus_buffer_append_u16 m buf n_fields)
        (\<lambda>_ buf. encode_fields m st (field_indices st) buf))"

primrec decode_fields :: "memory \<Rightarrow> nat \<Rightarrow> obus_struct \<Rightarrow> obus_buffer \<Rightarrow> obus_struct \<times> obus_buffer" where
  "decode_fields m 0 st buf = (st, buf)"
| "decode_fields m (Suc n) st buf =
     (case obus_field_decode m st buf of
        (None, st, buf) \<Rightarrow> decode_fields m n st buf
      | (Some i, st, buf) \<Rightarrow> decode_fields m n (snd (obus_struct_set_has_field st i)) buf)"

definition obus_struct_decode ::
  "memory \<Rightarrow> obus_struct \<Rightarrow> obus_buffer \<Rightarrow> unit res \<times> obus_struct \<times> obus_buffer" where
  "obus_struct_decode m st buf =
     (case obus_struct_clear_has_fields st of
        (Inl e, st) \<Rightarrow> (Inl e, st, buf)
      | (Inr _, st) \<Rightarrow>
     (case obus_buffer_read_u16 buf of
        (Inl e, buf) \<Rightarrow> (Inl e, st, buf)
      | (Inr n_fields, buf) \<Rightarrow>
          (case decode_fields m (unat n_fields) st buf of (st, buf) \<Rightarrow> (Inr (), st, buf))))"

text \<open>\<open>alias\<close> is indexed by the field as well as by the items compared.\<close>

primrec copy_fields :: "memory \<Rightarrow> (nat \<Rightarrow> nat \<Rightarrow> nat \<Rightarrow> bool) \<Rightarrow> obus_struct \<Rightarrow> obus_struct \<Rightarrow> nat list \<Rightarrow>
    unit res \<times> obus_struct" where
  "copy_fields m alias dst src [] = (Inr (), dst)"
| "copy_fields m alias dst src (i # is) =
     chk (obus_field_copy m (alias i) dst src (sfields (st_desc src) ! i))
       (\<lambda>_ dst. copy_fields m alias dst src is)"

definition obus_struct_copy ::
  "memory \<Rightarrow> (nat \<Rightarrow> nat \<Rightarrow> nat \<Rightarrow> bool) \<Rightarrow> obus_struct \<Rightarrow> obus_struct \<Rightarrow> unit res \<times> obus_struct" where
  "obus_struct_copy m alias dst src =
     (if sd_id (st_desc dst) \<noteq> sd_id (st_desc src) then (Inl EINVAL, dst)
      else copy_fields m alias dst src (field_indices src))"

primrec merge_fields :: "memory \<Rightarrow> (nat \<Rightarrow> nat \<Rightarrow> nat \<Rightarrow> bool) \<Rightarrow> obus_struct \<Rightarrow> obus_struct \<Rightarrow> nat list \<Rightarrow>
    unit res \<times> obus_struct" where
  "merge_fields m alias dst src [] = (Inr (), dst)"
| "merge_fields m alias dst src (i # is) =
     (if obus_struct_has_field src i
      then chk (obus_field_copy m (alias i) dst src (sfields (st_desc src) ! i))
             (\<lambda>_ dst. merge_fields m alias (snd (obus_struct_set_has_field dst i)) src is)
      else merge_fields m alias dst src is)"

definition obus_struct_merge ::
  "memory \<Rightarrow> (nat \<Rightarrow> nat \<Rightarrow> nat \<Rightarrow> bool) \<Rightarrow> obus_struct \<Rightarrow> obus_struct \<Rightarrow> unit res \<times> obus_struct" where
  "obus_struct_merge m alias dst src =
     (if sd_id (st_desc dst) \<noteq> sd_id (st_desc src) then (Inl EINVAL, dst)
      else merge_fields m alias dst src (field_indices src))"

definition obus_struct_is_empty :: "obus_struct \<Rightarrow> bool" where
  "obus_struct_is_empty st \<longleftrightarrow> \<not> list_ex (obus_struct_has_field st) (field_indices st)"

section \<open>The bit set\<close>

text \<open>There is a bit for every field.\<close>

definition bits_ok :: "obus_struct \<Rightarrow> bool" where
  "bits_ok st \<longleftrightarrow> length (sfields (st_desc st)) \<le> 32 * length (st_bits st)"

locale flag_set =
  fixes wf :: "'s \<Rightarrow> bool" and size_of :: "'s \<Rightarrow> nat" and has :: "'s \<Rightarrow> nat \<Rightarrow> bool"
    and setf :: "'s \<Rightarrow> nat \<Rightarrow> unit res \<times> 's" and clearf :: "'s \<Rightarrow> nat \<Rightarrow> unit res \<times> 's"
  assumes has_bound: "has s i \<Longrightarrow> i < size_of s"
    and set_wf: "wf s \<Longrightarrow> wf (snd (setf s i)) \<and> size_of (snd (setf s i)) = size_of s"
    and clear_wf: "wf s \<Longrightarrow> wf (snd (clearf s i)) \<and> size_of (snd (clearf s i)) = size_of s"
    and set_res: "fst (setf s i) = (if i < size_of s then Inr () else Inl EINVAL)"
    and clear_res: "fst (clearf s i) = (if i < size_of s then Inr () else Inl EINVAL)"
    and has_set: "wf s \<Longrightarrow> has (snd (setf s i)) j \<longleftrightarrow> has s j \<or> (i = j \<and> i < size_of s)"
    and has_clear: "wf s \<Longrightarrow> has (snd (clearf s i)) j \<longleftrightarrow> has s j \<and> i \<noteq> j"
begin

lemma set_all:
  assumes "wf s"
  shows "wf (foldl (\<lambda>s i. snd (setf s i)) s is) \<and> size_of (foldl (\<lambda>s i. snd (setf s i)) s is) = size_of s
    \<and> (has (foldl (\<lambda>s i. snd (setf s i)) s is) j \<longleftrightarrow> has s j \<or> (j \<in> set is \<and> j < size_of s))"
  using assms by (induction "is" arbitrary: s) (auto simp: set_wf has_set)

lemma clear_all:
  assumes "wf s"
  shows "wf (foldl (\<lambda>s i. snd (clearf s i)) s is) \<and> size_of (foldl (\<lambda>s i. snd (clearf s i)) s is) = size_of s
    \<and> (has (foldl (\<lambda>s i. snd (clearf s i)) s is) j \<longleftrightarrow> has s j \<and> j \<notin> set is)"
  using assms by (induction "is" arbitrary: s) (auto simp: clear_wf has_clear)

end

lemma has_field_bit:
  "obus_struct_has_field st i \<longleftrightarrow> i < length (sfields (st_desc st)) \<and> bit (st_bits st ! (i div 32)) (i mod 32)"
  by (simp add: obus_struct_has_field_def and_exp_eq_0_iff_not_bit)

lemma div_mod_32_eq: "(i :: nat) div 32 = j div 32 \<Longrightarrow> i mod 32 = j mod 32 \<Longrightarrow> i = j"
  by (metis div_mult_mod_eq)

lemma bits_word: "bits_ok st \<Longrightarrow> i < length (sfields (st_desc st)) \<Longrightarrow> i div 32 < length (st_bits st)"
  by (simp add: bits_ok_def less_mult_imp_div_less mult.commute)

interpretation fb: flag_set bits_ok "\<lambda>st. length (sfields (st_desc st))" obus_struct_has_field
    obus_struct_set_has_field obus_struct_clear_has_field
proof (unfold_locales, goal_cases)
  case (6 s i j)
  then show ?case using bits_word [OF 6, of i] div_mod_32_eq [of i j]
    by (auto simp: has_field_bit obus_struct_set_has_field_def nth_list_update bit_simps not_le)
next
  case (7 s i j)
  then show ?case using bits_word [OF 7, of i] div_mod_32_eq [of i j]
    by (auto simp: has_field_bit obus_struct_clear_has_field_def nth_list_update bit_simps not_le)
qed (auto simp: has_field_bit obus_struct_set_has_field_def obus_struct_clear_has_field_def bits_ok_def)

lemma or_loop_Inr:
  assumes "\<And>s i. i \<in> set is \<Longrightarrow> P s \<Longrightarrow> fst (f s i) = Inr () \<and> P (snd (f s i))" "P st"
  shows "or_loop f st is = (Inr (), foldl (\<lambda>s i. snd (f s i)) st is)"
proof -
  have "foldl (\<lambda>(ret, st) i. case f st i of (r, st) \<Rightarrow> (or_res ret r, st)) (Inr (), st) is
      = (Inr (), foldl (\<lambda>s i. snd (f s i)) st is)"
    using assms
  proof (induction "is" arbitrary: st)
    case (Cons i "is")
    then show ?case by (cases "f st i") fastforce
  qed simp
  then show ?thesis by (simp add: or_loop_def)
qed

text \<open>Only the bit set differs.\<close>

definition same_fields :: "obus_struct \<Rightarrow> obus_struct \<Rightarrow> bool" where
  "same_fields st st' \<longleftrightarrow> st_desc st' = st_desc st \<and> st_cell st' = st_cell st \<and> st_nb st' = st_nb st"

lemma same_fields_set: "same_fields st (snd (obus_struct_set_has_field st i))"
  by (simp add: same_fields_def obus_struct_set_has_field_def)

lemma same_fields_clear: "same_fields st (snd (obus_struct_clear_has_field st i))"
  by (simp add: same_fields_def obus_struct_clear_has_field_def)

lemma same_fields_foldl:
  assumes "\<And>s i. same_fields s (f s i)"
  shows "same_fields st (foldl f st is)"
proof (induction "is" arbitrary: st)
  case (Cons i "is")
  show ?case using Cons.IH [of "f st i"] assms [of st i] by (simp add: same_fields_def)
qed (simp add: same_fields_def)

lemma clear_fields_ok:
  assumes "bits_ok st"
  obtains st' where "obus_struct_clear_has_fields st = (Inr (), st')" "bits_ok st'" "same_fields st st'"
    "\<And>i. \<not> obus_struct_has_field st' i"
proof -
  let ?f = "\<lambda>s i. snd (obus_struct_clear_has_field s i)"
  let ?st = "foldl ?f st (field_indices st)"
  have "obus_struct_clear_has_fields st = (Inr (), ?st)"
    unfolding obus_struct_clear_has_fields_def
    by (rule or_loop_Inr [where P = "\<lambda>s. st_desc s = st_desc st"])
      (auto simp: obus_struct_clear_has_field_def field_indices_def)
  moreover have "\<not> obus_struct_has_field ?st i" for i
    using fb.clear_all [OF assms, of "field_indices st" i] fb.has_bound [of st i]
    by (auto simp: field_indices_def)
  ultimately show thesis
    using that fb.clear_all [OF assms] same_fields_foldl [of ?f, OF same_fields_clear] by blast
qed

section \<open>The wire format of structures\<close>

definition wire_struct :: "wentry list \<Rightarrow> u8 list" where
  "wire_struct es = be16 (of_nat (length es)) @ concat (map wire_entry es)"

definition marked :: "obus_struct \<Rightarrow> nat list" where
  "marked st = filter (obus_struct_has_field st) (field_indices st)"

definition struct_entries :: "obus_struct \<Rightarrow> wentry list" where
  "struct_entries st = map (\<lambda>i. field_entry st (sfields (st_desc st) ! i)) (marked st)"

text \<open>Every field that is set is in a consistent state.\<close>

definition struct_ok :: "obus_struct \<Rightarrow> bool" where
  "struct_ok st \<longleftrightarrow> wf_struct_desc (st_desc st) \<and> bits_ok st
     \<and> (\<forall>i\<in>set (marked st). field_ok st (sfields (st_desc st) ! i))"

lemma encode_fields_ok:
  assumes "\<And>i. i \<in> set is \<Longrightarrow> obus_struct_has_field st i \<Longrightarrow> field_ok st (sfields (st_desc st) ! i)" "buf_ok b"
    "enough m (blength b + length (concat (map (\<lambda>i. wire_entry (field_entry st (sfields (st_desc st) ! i)))
        (filter (obus_struct_has_field st) is))))"
  shows "\<exists>b'. encode_fields m st is b = (Inr (), b') \<and> appended b b'
    (concat (map (\<lambda>i. wire_entry (field_entry st (sfields (st_desc st) ! i))) (filter (obus_struct_has_field st) is)))"
  using assms
proof (induction "is" arbitrary: b)
  case (Cons i "is")
  let ?e = "\<lambda>i. wire_entry (field_entry st (sfields (st_desc st) ! i))"
  let ?r = "concat (map ?e (filter (obus_struct_has_field st) is))"
  show ?case
  proof (cases "obus_struct_has_field st i")
    case True
    have en: "enough m (blength b + length (?e i) + length ?r)"
      using Cons.prems(3) True by (simp add: add.assoc)
    from field_encode_ok [OF _ Cons.prems(2), of st "sfields (st_desc st) ! i" m] Cons.prems(1) True
      enough_mono [OF en] obtain b1 where
      b1: "obus_field_encode m st (sfields (st_desc st) ! i) b = (Inr (), b1)" "appended b b1 (?e i)"
      by auto
    from Cons.IH [of b1] Cons.prems(1) appended_ok [OF b1(2)] appended_blength [OF b1(2) Cons.prems(2)] en
    obtain b2 where "encode_fields m st is b1 = (Inr (), b2)" "appended b1 b2 ?r" by auto
    then show ?thesis using True b1 appended_trans [OF b1(2)] by auto
  next
    case False
    then show ?thesis using Cons by simp
  qed
qed simp

lemma struct_encode_ok:
  assumes "struct_ok st" "buf_ok b" "enough m (blength b + length (wire_struct (struct_entries st)))"
  shows "\<exists>b'. obus_struct_encode m st b = (Inr (), b') \<and> appended b b' (wire_struct (struct_entries st))"
proof -
  let ?n = "of_nat (length (marked st)) :: u16"
  let ?r = "concat (map (\<lambda>i. wire_entry (field_entry st (sfields (st_desc st) ! i))) (marked st))"
  have ws: "wire_struct (struct_entries st) = be16 ?n @ ?r"
    by (simp add: wire_struct_def struct_entries_def comp_def)
  have en: "enough m (blength b + 2 + length ?r)" using assms(3) ws by (simp add: add.assoc)
  have "enough m (blength b + 2)" using enough_mono [OF en] by simp
  with w16.wr_then [of b b "[]" m ?n] assms(2) obtain b1 where
    b1: "obus_buffer_append_u16 m b ?n = (Inr (), b1)" "appended b b1 (be16 ?n)" by auto
  have "blength b1 = blength b + 2" using appended_blength [OF b1(2) assms(2)] by simp
  then have "\<exists>b'. encode_fields m st (field_indices st) b1 = (Inr (), b') \<and> appended b1 b' ?r"
    unfolding marked_def
    by (intro encode_fields_ok)
      (use assms(1) appended_ok [OF b1(2)] en in \<open>auto simp: struct_ok_def marked_def\<close>)
  then show ?thesis
    using b1 appended_trans [OF b1(2)] ws by (auto simp: obus_struct_encode_def Let_def marked_def [symmetric])
qed

section \<open>Receiving structures\<close>

definition receive :: "obus_struct \<Rightarrow> wentry \<Rightarrow> obus_struct" where
  "receive st e = (case e of (uid, ty, ws) \<Rightarrow>
     (case accepts (st_desc st) uid ty of
        None \<Rightarrow> st
      | Some i \<Rightarrow> snd (obus_struct_set_has_field (put_field st (sfields (st_desc st) ! i) ws) i)))"

definition entries_need :: "wentry list \<Rightarrow> nat" where
  "entries_need es = sum_list (map (\<lambda>(uid, ty, ws). payload_need ty ws) es)"

lemma put_field_desc [simp]: "st_desc (put_field st desc ws) = st_desc st"
  by (simp add: put_field_def set_cell_def set_nb_def Let_def)

lemma put_field_bits [simp]: "st_bits (put_field st desc ws) = st_bits st"
  by (simp add: put_field_def set_cell_def set_nb_def Let_def)

lemma decode_fields_ok:
  assumes "\<And>e. e \<in> set es \<Longrightarrow> entry_ok e" "reads_at b p (concat (map wire_entry es) @ rest)"
    "enough m (entries_need es)"
  shows "decode_fields m (length es) st (advance b p) =
    (foldl receive st es, advance b (p + length (concat (map wire_entry es))))"
  using assms
proof (induction es arbitrary: st p)
  case (Cons e es)
  obtain uid ty ws where e: "e = (uid, ty, ws)" by (cases e) auto
  have r: "reads_at b p (wire_entry (uid, ty, ws) @ concat (map wire_entry es) @ rest)"
    using Cons.prems(2) e by simp
  have en: "enough m (payload_need ty ws)" "enough m (entries_need es)"
    by (rule enough_mono [OF Cons.prems(3)], simp add: entries_need_def e)+
  have ok: "payload_ok ty ws" using Cons.prems(1) e by (auto simp: entry_ok_def)
  note d = field_decode_ok [OF ok r en(1), of st]
  have ih: "decode_fields m (length es) st' (advance b (p + length (wire_entry (uid, ty, ws)))) =
      (foldl receive st' es, advance b (p + length (wire_entry (uid, ty, ws)) + length (concat (map wire_entry es))))" for st'
    by (rule Cons.IH) (use Cons.prems(1) reads_at_step [OF r] en(2) in auto)
  show ?case
    using d ih by (cases "accepts (st_desc st) uid ty") (simp_all add: Let_def e receive_def [of st] add.assoc)
qed simp

definition wire_ok :: "wentry list \<Rightarrow> bool" where
  "wire_ok es \<longleftrightarrow> length es < 2 ^ 16 \<and> (\<forall>e\<in>set es. entry_ok e)"

text \<open>
  Decoding the image of any list of fields: the receiver starts from no field set and takes
  the fields it knows, in order; exactly the image is consumed.
\<close>

lemma struct_decode_ok:
  assumes "wire_ok es" "reads_at b p (wire_struct es @ rest)" "enough m (entries_need es)" "bits_ok st"
  shows "obus_struct_decode m st (advance b p) =
    (Inr (), foldl receive (snd (obus_struct_clear_has_fields st)) es, advance b (p + length (wire_struct es)))"
proof -
  obtain st0 where st0: "obus_struct_clear_has_fields st = (Inr (), st0)" using clear_fields_ok [OF assms(4)] by blast
  have r: "reads_at b p (be16 (of_nat (length es)) @ concat (map wire_entry es) @ rest)"
    using assms(2) by (simp add: wire_struct_def)
  have r16: "obus_buffer_read_u16 (advance b p) = (Inr (of_nat (length es)), advance b (p + 2))"
    and r2: "reads_at b (p + 2) (concat (map wire_entry es) @ rest)"
    using w16.rd_then [OF r, of full_memory] by (simp_all add: reader_defs)
  have n: "unat (of_nat (length es) :: u16) = length es"
    using assms(1) by (simp add: wire_ok_def unat_of_nat)
  have "decode_fields m (length es) st0 (advance b (p + 2)) =
      (foldl receive st0 es, advance b (p + 2 + length (concat (map wire_entry es))))"
    by (rule decode_fields_ok [OF _ r2 assms(3)]) (use assms(1) in \<open>simp add: wire_ok_def\<close>)
  then show ?thesis
    using st0 r16 n by (simp add: obus_struct_decode_def wire_struct_def)
qed

section \<open>What a receiver holds afterwards\<close>

text \<open>The state of one field: its cell, its item count when it is an array, its bit.\<close>

definition field_state :: "obus_struct \<Rightarrow> nat \<Rightarrow> cell \<times> u32 option \<times> bool" where
  "field_state st i =
     (let d = sfields (st_desc st) ! i in
      (obus_field_address st d,
       if is_array (ftype d) then Some (obus_field_array_nb_address st d) else None,
       obus_struct_has_field st i))"

lemma nb_distinct:
  assumes "distinct (map nb_offset (filter (\<lambda>f. is_array (ftype f)) fs))" "i < length fs" "j < length fs" "i \<noteq> j"
    "is_array (ftype (fs ! i))" "is_array (ftype (fs ! j))"
  shows "nb_offset (fs ! i) \<noteq> nb_offset (fs ! j)"
  using assms
proof (induction fs arbitrary: i j)
  case (Cons f fs)
  have mem: "n < length fs \<Longrightarrow> is_array (ftype (fs ! n)) \<Longrightarrow> is_array (ftype f) \<Longrightarrow>
      nb_offset (fs ! n) \<noteq> nb_offset f" for n
    using Cons.prems(1) by (auto simp: image_iff)
  show ?case
    using Cons mem by (cases i; cases j) (auto split: if_splits dest: mem)
qed simp

lemma offset_distinct:
  assumes "wf_struct_desc sd" "i < length (sfields sd)" "j < length (sfields sd)" "i \<noteq> j"
  shows "foffset (sfields sd ! i) \<noteq> foffset (sfields sd ! j)"
    "is_array (ftype (sfields sd ! i)) \<Longrightarrow> is_array (ftype (sfields sd ! j)) \<Longrightarrow>
     nb_offset (sfields sd ! i) \<noteq> nb_offset (sfields sd ! j)"
  using assms nb_distinct [of "sfields sd" i j]
  by (auto simp: wf_struct_desc_def distinct_conv_nth)

text \<open>Storing one field leaves every other field alone.\<close>

lemma put_field_other:
  assumes "wf_struct_desc (st_desc st)" "i < length (sfields (st_desc st))" "j < length (sfields (st_desc st))" "i \<noteq> j"
  shows "field_state (put_field st (sfields (st_desc st) ! i) ws) j = field_state st j"
  using offset_distinct [OF assms]
  by (auto simp: field_state_def put_field_def set_cell_def set_nb_def Let_def obus_field_address_def
      obus_field_array_nb_address_def obus_struct_has_field_def)

lemma set_has_state:
  assumes "bits_ok st" "i < length (sfields (st_desc st))"
  shows "field_state (snd (obus_struct_set_has_field st i)) j =
    (case field_state st j of (c, n, h) \<Rightarrow> (c, n, h \<or> i = j))"
  using fb.has_set [OF assms(1), of i j] assms(2) same_fields_set [of st i]
  by (auto simp: field_state_def same_fields_def Let_def obus_field_address_def obus_field_array_nb_address_def)

lemma set_has_keeps:
  "st_desc (snd (obus_struct_set_has_field st i)) = st_desc st"
  "bits_ok (snd (obus_struct_set_has_field st i)) = bits_ok st"
  by (auto simp: obus_struct_set_has_field_def bits_ok_def)

lemma receive_keeps: "st_desc (receive st e) = st_desc st" "bits_ok (receive st e) = bits_ok st"
  by (auto simp: receive_def obus_struct_set_has_field_def bits_ok_def split: prod.splits option.splits)

lemma accepts_Some: "accepts sd uid ty = Some i \<Longrightarrow> i < length (sfields sd) \<and> fuid (sfields sd ! i) = uid
    \<and> ftype (sfields sd ! i) = ty"
  by (auto simp: accepts_def dest: find_uid_Some split: option.splits if_splits)

lemma find_uid_nth:
  "distinct (map fuid fs) \<Longrightarrow> i < length fs \<Longrightarrow> find_uid fs (fuid (fs ! i)) = Some i"
proof (induction fs arbitrary: i)
  case (Cons f fs)
  then show ?case by (cases i) (auto simp: image_iff)
qed simp

lemma accepts_iff:
  assumes "wf_struct_desc sd" "j < length (sfields sd)"
  shows "accepts sd uid ty = Some j \<longleftrightarrow> uid = fuid (sfields sd ! j) \<and> ty = ftype (sfields sd ! j)"
  using accepts_Some [of sd uid ty j] find_uid_nth [of "sfields sd" j] assms
  by (auto simp: accepts_def wf_struct_desc_def)

definition stored :: "obus_field_desc \<Rightarrow> wval list \<Rightarrow> cell \<times> u32 option \<times> bool" where
  "stored d ws =
     (let vs = map (from_wire d (the (field_kind (ftype d)))) ws in
      if is_array (ftype d) then (Arr (if ws = [] then None else Some vs), Some (of_nat (length ws)), True)
      else (Val (hd vs), None, True))"

lemma receive_state:
  assumes "wf_struct_desc (st_desc st)" "bits_ok st" "j < length (sfields (st_desc st))"
  shows "field_state (receive st (uid, ty, ws)) j =
    (if uid = fuid (sfields (st_desc st) ! j) \<and> ty = ftype (sfields (st_desc st) ! j)
     then stored (sfields (st_desc st) ! j) ws else field_state st j)"
proof (cases "accepts (st_desc st) uid ty")
  case None
  then show ?thesis using accepts_iff [OF assms(1,3), of uid ty] by (auto simp: receive_def)
next
  case (Some i)
  let ?d = "sfields (st_desc st) ! i"
  let ?st = "put_field st ?d ws"
  have i: "i < length (sfields (st_desc st))" using accepts_Some [OF Some] by simp
  have b: "bits_ok ?st" using assms(2) by (simp add: bits_ok_def)
  have r: "field_state (receive st (uid, ty, ws)) j =
      (case field_state ?st j of (c, n, h) \<Rightarrow> (c, n, h \<or> i = j))"
    using set_has_state [OF b, of i j] i Some by (simp add: receive_def)
  show ?thesis
  proof (cases "i = j")
    case True
    then show ?thesis using r accepts_Some [OF Some]
      by (simp add: field_state_def stored_def put_field_def Let_def obus_field_address_def
          obus_field_array_nb_address_def set_cell_def set_nb_def)
  next
    case False
    then show ?thesis using r put_field_other [OF assms(1) i assms(3) False] Some
        accepts_iff [OF assms(1,3), of uid ty] by (auto split: prod.splits)
  qed
qed

lemma receive_all_other:
  assumes "wf_struct_desc (st_desc st)" "bits_ok st" "j < length (sfields (st_desc st))"
    "\<And>ws. (fuid (sfields (st_desc st) ! j), ftype (sfields (st_desc st) ! j), ws) \<notin> set es"
  shows "field_state (foldl receive st es) j = field_state st j"
  using assms
proof (induction es arbitrary: st)
  case (Cons e es)
  obtain uid ty ws where e: "e = (uid, ty, ws)" by (cases e) auto
  have "field_state (foldl receive (receive st e) es) j = field_state (receive st e) j"
    by (rule Cons.IH) (use Cons.prems receive_keeps [of st e] in auto)
  moreover have "field_state (receive st e) j = field_state st j"
    using receive_state [OF Cons.prems(1-3), of uid ty ws] Cons.prems(4) [of ws] e by auto
  ultimately show ?case by simp
qed simp

lemma receive_all_stored:
  assumes "wf_struct_desc (st_desc st)" "bits_ok st" "j < length (sfields (st_desc st))"
    "(fuid (sfields (st_desc st) ! j), ftype (sfields (st_desc st) ! j), ws) \<in> set es" "distinct (map fst es)"
  shows "field_state (foldl receive st es) j = stored (sfields (st_desc st) ! j) ws"
  using assms
proof (induction es arbitrary: st)
  case (Cons e es)
  note k = receive_keeps [of st e]
  show ?case
  proof (cases "e = (fuid (sfields (st_desc st) ! j), ftype (sfields (st_desc st) ! j), ws)")
    case True
    have "field_state (foldl receive (receive st e) es) j = field_state (receive st e) j"
      by (rule receive_all_other) (use Cons.prems k True in \<open>auto simp: image_iff\<close>)
    then show ?thesis using receive_state [OF Cons.prems(1-3)] True by simp
  next
    case False
    have "field_state (foldl receive (receive st e) es) j = stored (sfields (st_desc (receive st e)) ! j) ws"
      by (rule Cons.IH) (use Cons.prems k False in auto)
    then show ?thesis using k by simp
  qed
qed simp

section \<open>Properties of structures\<close>

lemma clear_state:
  assumes "bits_ok st"
  shows "field_state (snd (obus_struct_clear_has_fields st)) j =
    (case field_state st j of (c, n, h) \<Rightarrow> (c, n, False))"
    "st_desc (snd (obus_struct_clear_has_fields st)) = st_desc st"
    "bits_ok (snd (obus_struct_clear_has_fields st))"
proof -
  obtain st' where st': "obus_struct_clear_has_fields st = (Inr (), st')" "bits_ok st'" "same_fields st st'"
    "\<And>i. \<not> obus_struct_has_field st' i" using clear_fields_ok [OF assms] by blast
  then show "field_state (snd (obus_struct_clear_has_fields st)) j =
      (case field_state st j of (c, n, h) \<Rightarrow> (c, n, False))"
    "st_desc (snd (obus_struct_clear_has_fields st)) = st_desc st"
    "bits_ok (snd (obus_struct_clear_has_fields st))"
    by (auto simp: field_state_def same_fields_def Let_def obus_field_address_def obus_field_array_nb_address_def)
qed

lemma struct_decode_states:
  assumes "wf_struct_desc (st_desc st)" "bits_ok st" "buf_ok b" "unread b = wire_struct es @ rest"
    "wire_ok es" "distinct (map fst es)" "enough m (entries_need es)"
  obtains st' b' where "obus_struct_decode m st b = (Inr (), st', b')" "unread b' = rest"
    "st_desc st' = st_desc st"
    "\<And>j ws. j < length (sfields (st_desc st)) \<Longrightarrow>
       (fuid (sfields (st_desc st) ! j), ftype (sfields (st_desc st) ! j), ws) \<in> set es \<Longrightarrow>
       field_state st' j = stored (sfields (st_desc st) ! j) ws"
    "\<And>j. j < length (sfields (st_desc st)) \<Longrightarrow>
       \<forall>ws. (fuid (sfields (st_desc st) ! j), ftype (sfields (st_desc st) ! j), ws) \<notin> set es \<Longrightarrow>
       field_state st' j = (case field_state st j of (c, n, h) \<Rightarrow> (c, n, False))"
    "b' = advance b (length (wire_struct es))" "bits_ok st'"
proof -
  let ?clr = "snd (obus_struct_clear_has_fields st)"
  let ?fin = "foldl receive ?clr es"
  have r: "reads_at b 0 (wire_struct es @ rest)" using assms(3,4) by simp
  note c = clear_state [OF assms(2)]
  have k: "st_desc (foldl receive s es) = st_desc s" for s
    by (induction es arbitrary: s) (simp_all add: receive_keeps)
  have kb: "bits_ok (foldl receive s es) = bits_ok s" for s
    by (induction es arbitrary: s) (simp_all add: receive_keeps)
  show thesis
  proof (rule that [of ?fin "advance b (length (wire_struct es))"])
    show "obus_struct_decode m st b = (Inr (), ?fin, advance b (length (wire_struct es)))"
      using struct_decode_ok [OF assms(5) r assms(7,2)] by simp
    show "unread (advance b (length (wire_struct es))) = rest"
      using unread_prefix(3) [OF assms(3,4)] .
    show "st_desc ?fin = st_desc st" using k c(2) by simp
    show "bits_ok ?fin" using kb c(3) by simp
  next
    fix j ws
    assume "j < length (sfields (st_desc st))"
      "(fuid (sfields (st_desc st) ! j), ftype (sfields (st_desc st) ! j), ws) \<in> set es"
    then show "field_state ?fin j = stored (sfields (st_desc st) ! j) ws"
      using receive_all_stored [of ?clr j ws es] assms(1,6) c by simp
  next
    fix j
    assume "j < length (sfields (st_desc st))"
      "\<forall>ws. (fuid (sfields (st_desc st) ! j), ftype (sfields (st_desc st) ! j), ws) \<notin> set es"
    then show "field_state ?fin j = (case field_state st j of (c, n, h) \<Rightarrow> (c, n, False))"
      using receive_all_other [of ?clr j es] assms(1) c by simp
  qed simp
qed

text \<open>
  C16. Decoding a structure sent by any peer. Whatever well-formed list of fields is on the
  wire, including fields the receiver does not know or knows with another type,
  \<open>obus_struct_decode\<close> succeeds and consumes exactly the image of the structure. A field of the
  receiver whose identifier and type were sent holds the values sent and is marked as set;
  every other field keeps its value and is marked as not set.
\<close>

theorem struct_decode_any_sender:
  assumes "wf_struct_desc (st_desc st)" "bits_ok st" "buf_ok b" "unread b = wire_struct es @ rest"
    "wire_ok es" "distinct (map fst es)" "enough m (entries_need es)"
  shows "\<exists>st' b'. obus_struct_decode m st b = (Inr (), st', b') \<and> unread b' = rest \<and> st_desc st' = st_desc st
    \<and> (\<forall>j<length (sfields (st_desc st)).
         let d = sfields (st_desc st) ! j in
         (\<forall>ws. (fuid d, ftype d, ws) \<in> set es \<longrightarrow> field_state st' j = stored d ws)
         \<and> ((\<forall>ws. (fuid d, ftype d, ws) \<notin> set es) \<longrightarrow>
              (case field_state st j of (c, n, h) \<Rightarrow> field_state st' j = (c, n, False))))"
proof -
  obtain st' b' where d: "obus_struct_decode m st b = (Inr (), st', b')" "unread b' = rest"
    "st_desc st' = st_desc st" and
    s: "\<And>j ws. j < length (sfields (st_desc st)) \<Longrightarrow>
       (fuid (sfields (st_desc st) ! j), ftype (sfields (st_desc st) ! j), ws) \<in> set es \<Longrightarrow>
       field_state st' j = stored (sfields (st_desc st) ! j) ws" and
    o: "\<And>j. j < length (sfields (st_desc st)) \<Longrightarrow>
       \<forall>ws. (fuid (sfields (st_desc st) ! j), ftype (sfields (st_desc st) ! j), ws) \<notin> set es \<Longrightarrow>
       field_state st' j = (case field_state st j of (c, n, h) \<Rightarrow> (c, n, False))"
    by (rule struct_decode_states [OF assms]) (rule that)
  show ?thesis
    by (intro exI [of _ st'] exI [of _ b']) (use d s o in \<open>auto simp: Let_def split: prod.splits\<close>)
qed

text \<open>The value a receiver stores for an item that was sent.\<close>

definition norm_item :: "obus_field_desc \<Rightarrow> item \<Rightarrow> item" where
  "norm_item d v = (let k = the (field_kind (ftype d)) in from_wire d k (to_wire d k v))"

lemma struct_entries_wire:
  assumes "struct_ok st"
  shows "wire_ok (struct_entries st)" "distinct (map fst (struct_entries st))"
    "i < length (sfields (st_desc st)) \<Longrightarrow> (fuid (sfields (st_desc st) ! i), ftype (sfields (st_desc st) ! i), ws) \<in> set (struct_entries st)
      \<longleftrightarrow> obus_struct_has_field st i \<and> ws = snd (snd (field_entry st (sfields (st_desc st) ! i)))"
proof -
  let ?fs = "sfields (st_desc st)"
  have wf: "wf_struct_desc (st_desc st)" using assms by (simp add: struct_ok_def)
  have len: "length (marked st) \<le> length ?fs"
    unfolding marked_def field_indices_def by (metis length_filter_le length_upt minus_nat.diff_0)
  then show "wire_ok (struct_entries st)"
    using assms wf by (auto simp: wire_ok_def struct_entries_def struct_ok_def wf_struct_desc_def field_entry_ok)
  have "map fst (struct_entries st) = map (\<lambda>i. fuid (?fs ! i)) (marked st)"
    by (simp add: struct_entries_def field_entry_def)
  moreover have "inj_on (\<lambda>i. fuid (?fs ! i)) (set (marked st))"
    using wf by (auto simp: inj_on_def marked_def field_indices_def wf_struct_desc_def distinct_conv_nth)
  ultimately show "distinct (map fst (struct_entries st))"
    by (simp add: distinct_map marked_def field_indices_def)
  assume i: "i < length ?fs"
  have "j = i" if "j < length ?fs" "fuid (?fs ! j) = fuid (?fs ! i)" for j
    using that i wf by (auto simp: wf_struct_desc_def distinct_conv_nth)
  then show "(fuid (?fs ! i), ftype (?fs ! i), ws) \<in> set (struct_entries st)
      \<longleftrightarrow> obus_struct_has_field st i \<and> ws = snd (snd (field_entry st (?fs ! i)))"
    using i by (auto simp: struct_entries_def field_entry_def marked_def field_indices_def image_iff)
qed

text \<open>
  \<open>st'\<close> is what a receiver with the structure \<open>st0\<close> makes of the structure \<open>st\<close> it was sent: the
  marks of the sender, its values in the marked fields and the old values in the others.
\<close>

definition received :: "obus_struct \<Rightarrow> obus_struct \<Rightarrow> obus_struct \<Rightarrow> bool" where
  "received st st0 st' \<longleftrightarrow>
     (\<forall>i<length (sfields (st_desc st)). let d = sfields (st_desc st) ! i in
        obus_struct_has_field st' i = obus_struct_has_field st i
        \<and> field_values st' d = (if obus_struct_has_field st i then map (norm_item d) (field_values st d)
                                else field_values st0 d))"

lemma struct_decode_same:
  assumes "struct_ok st" "st_desc st0 = st_desc st" "bits_ok st0" "buf_ok b"
    "unread b = wire_struct (struct_entries st) @ rest" "enough m (entries_need (struct_entries st))"
  obtains st' where "obus_struct_decode m st0 b = (Inr (), st', advance b (length (wire_struct (struct_entries st))))"
    "st_desc st' = st_desc st" "bits_ok st'" "received st st0 st'"
proof -
  let ?es = "struct_entries st" and ?fs = "sfields (st_desc st)"
  have wf: "wf_struct_desc (st_desc st0)" using assms(1,2) by (simp add: struct_ok_def)
  note se = struct_entries_wire [OF assms(1)]
  obtain st' b' where d: "obus_struct_decode m st0 b = (Inr (), st', b')" "st_desc st' = st_desc st0"
      "b' = advance b (length (wire_struct ?es))" "bits_ok st'" and
    stored: "\<And>j ws. j < length (sfields (st_desc st0)) \<Longrightarrow>
       (fuid (sfields (st_desc st0) ! j), ftype (sfields (st_desc st0) ! j), ws) \<in> set ?es \<Longrightarrow>
       field_state st' j = stored (sfields (st_desc st0) ! j) ws" and
    kept: "\<And>j. j < length (sfields (st_desc st0)) \<Longrightarrow>
       \<forall>ws. (fuid (sfields (st_desc st0) ! j), ftype (sfields (st_desc st0) ! j), ws) \<notin> set ?es \<Longrightarrow>
       field_state st' j = (case field_state st0 j of (c, n, h) \<Rightarrow> (c, n, False))"
    by (rule struct_decode_states [OF wf assms(3,4,5) se(1,2) assms(6)]) (rule that)
  have "obus_struct_has_field st' i = obus_struct_has_field st i
      \<and> field_values st' (?fs ! i) = (if obus_struct_has_field st i then map (norm_item (?fs ! i)) (field_values st (?fs ! i))
             else field_values st0 (?fs ! i))" if i: "i < length ?fs" for i
  proof (cases "obus_struct_has_field st i")
    case True
    then have "field_state st' i = stored (?fs ! i) (snd (snd (field_entry st (?fs ! i))))"
      using stored [of i] i se(3) [OF i] assms(2) True by simp
    then show ?thesis using True d(2) assms(2)
      by (auto simp: field_state_def stored_def Let_def field_entry_def field_values_def norm_item_def comp_def
          get_array_def get_item_def split: if_splits)
  next
    case False
    then have "field_state st' i = (case field_state st0 i of (c, n, h) \<Rightarrow> (c, n, False))"
      using kept [of i] i se(3) [OF i] assms(2) by simp
    then show ?thesis using False d(2) assms(2)
      by (auto simp: field_state_def field_values_def Let_def)
  qed
  then show thesis using that d assms(2) by (auto simp: received_def Let_def)
qed

text \<open>
  C28. Round trip of structures. A structure encoded into a buffer and decoded into a structure
  of the same description gives the receiver exactly the set of marked fields of the sender,
  with the values sent (booleans as 0 or 1, a NULL or empty string as such, enums through their
  driver); the fields the sender had not marked keep the receiver's old values. The buffer is
  read to its end.
\<close>

theorem struct_roundtrip:
  assumes "struct_ok st" "st_desc st0 = st_desc st" "bits_ok st0"
    "buf_ok b" "bpos b = blength b" "enough m (blength b + length (wire_struct (struct_entries st)))"
    "enough m (entries_need (struct_entries st))"
  shows "\<exists>b' st' b''. obus_struct_encode m st b = (Inr (), b') \<and> obus_struct_decode m st0 b' = (Inr (), st', b'')
    \<and> unread b'' = []
    \<and> (\<forall>i<length (sfields (st_desc st)). let d = sfields (st_desc st) ! i in
         obus_struct_has_field st' i = obus_struct_has_field st i
         \<and> field_values st' d = (if obus_struct_has_field st i then map (norm_item d) (field_values st d)
                                 else field_values st0 d))"
proof -
  let ?es = "struct_entries st"
  from struct_encode_ok [OF assms(1,4,6)] obtain b' where
    b': "obus_struct_encode m st b = (Inr (), b')" "appended b b' (wire_struct ?es)" by blast
  have u: "unread b' = wire_struct ?es @ []"
    using appended_unread [OF b'(2) _ assms(4)] assms(4,5) by (simp add: unread_def)
  note ok = appended_ok [OF b'(2)]
  obtain st' where "obus_struct_decode m st0 b' = (Inr (), st', advance b' (length (wire_struct ?es)))"
      "received st st0 st'"
    by (rule struct_decode_same [OF assms(1-3) ok u assms(7)]) (rule that)
  then show ?thesis using b'(1) unread_prefix(3) [OF ok u] unfolding received_def by blast
qed

section \<open>Copying and merging\<close>

text \<open>The item a copy stores.\<close>

definition copy_item :: "obus_field_desc \<Rightarrow> obus_field_type \<Rightarrow> item \<Rightarrow> item" where
  "copy_item d k v = (case k of
     OBUS_FIELD_BOOL \<Rightarrow> Num (if take_bit 8 (get_num v) \<noteq> 0 then 1 else 0)
   | OBUS_FIELD_ENUM \<Rightarrow> Num (set_value (enum_drv d) (get_value (enum_drv d) (get_num v)))
   | OBUS_FIELD_STRING \<Rightarrow> Str (case get_str v of HeapStr s \<Rightarrow> HeapStr s | _ \<Rightarrow> EmptyStr)
   | _ \<Rightarrow> Num (case class_of k of W8 \<Rightarrow> take_bit 8 (get_num v) | W16 \<Rightarrow> take_bit 16 (get_num v)
               | W32 \<Rightarrow> take_bit 32 (get_num v) | _ \<Rightarrow> get_num v))"

text \<open>An array item is copied, or the pointer to a shared string is moved over.\<close>

definition copy_of :: "obus_field_desc \<Rightarrow> item \<Rightarrow> item \<Rightarrow> bool" where
  "copy_of d v w \<longleftrightarrow> w = copy_item d (the (field_kind (ftype d))) v
     \<or> field_kind (ftype d) = Some OBUS_FIELD_STRING \<and> w = v"

definition string_length :: "item \<Rightarrow> nat" where
  "string_length v = (case get_str v of HeapStr s \<Rightarrow> length s + 1 | _ \<Rightarrow> 0)"

definition copy_need :: "item list \<Rightarrow> nat" where
  "copy_need vs = 8 * length vs + sum_list (map string_length vs)"

lemma copy_value_ok:
  assumes "field_kind (ftype d) = Some k" "enough m (string_length src)"
  shows "obus_copy_value m d dst src = (Inr (), copy_item d k src)"
  using assms enough_alloc [OF assms(2)]
  by (cases k) (auto simp: obus_copy_value_def copy_item_def class_of_def string_length_def split: cstr.splits)

text \<open>The old array of a destination agrees with its count, so it can be searched and freed.\<close>

definition array_len :: "item list option \<Rightarrow> nat" where
  "array_len a = (case a of None \<Rightarrow> 0 | Some xs \<Rightarrow> length xs)"

lemma ref_items_ok:
  assumes "field_kind (ftype d) = Some k" "j + n \<le> array_len dst"
  shows "\<exists>dst'. array_len dst' = array_len dst \<and>
    (ref_items al d src dst j n = (Inr (), dst') \<or> ref_items al d src dst j n = (Inl ENOENT, dst'))"
  using assms(2)
proof (induction n arbitrary: j)
  case (Suc n)
  then obtain xs where xs: "dst = Some xs" "j < length xs" by (cases dst) (auto simp: array_len_def)
  then show ?case using Suc assms(1)
    by (auto simp: obus_field_array_item_def deref_def array_len_def)
qed auto

lemma ref_value_cases:
  assumes "field_kind (ftype d) = Some k" "n \<le> array_len dst"
  obtains (found) dst' where "obus_field_array_ref_value al d n src dst = (Inr (), dst')"
      "array_len dst' = array_len dst" "k = OBUS_FIELD_STRING"
  | (absent) dst' e where "obus_field_array_ref_value al d n src dst = (Inl e, dst')" "e \<noteq> FAULT"
      "array_len dst' = array_len dst"
  using ref_items_ok [OF assms(1), of 0 n dst al src] assms
  by (cases "k = OBUS_FIELD_STRING") (auto simp: obus_field_array_ref_value_def)

lemma copy_items_ok:
  assumes "field_kind (ftype d) = Some k" "nd \<le> array_len dst" "i + n = length xs" "length new = length xs"
    "\<And>v. v \<in> set xs \<Longrightarrow> enough m (string_length v)"
    "\<And>j. j < i \<Longrightarrow> copy_of d (xs ! j) (new ! j)"
  shows "\<exists>dst' new'. copy_items m alias d (Some xs) nd dst new i n = (Inr (), dst', new')
    \<and> array_len dst' = array_len dst \<and> list_all2 (copy_of d) xs new'"
  using assms(2-)
proof (induction n arbitrary: dst new i)
  case 0
  then show ?case by (auto simp: list_all2_conv_all_nth)
next
  case (Suc n)
  have src: "Option.bind (obus_field_array_item d (Some xs) i) (deref (Some xs)) = Some (xs ! i)"
    using Suc.prems(2) assms(1) by (simp add: obus_field_array_item_def deref_def)
  have step: "\<exists>dst'' new''. copy_items m alias d (Some xs) nd dst' (new[i := w]) (i + 1) n = (Inr (), dst'', new'')
      \<and> array_len dst'' = array_len dst \<and> list_all2 (copy_of d) xs new''"
    if "copy_of d (xs ! i) w" "array_len dst' = array_len dst" for w dst'
  proof -
    have "copy_of d (xs ! j) (new[i := w] ! j)" if "j < i + 1" for j
      using Suc.prems that \<open>copy_of d (xs ! i) w\<close> by (cases "j = i") auto
    then show ?thesis
      using Suc.IH [of dst' "i + 1" "new[i := w]"] Suc.prems that(2) by simp
  qed
  show ?case
  proof (rule ref_value_cases [OF assms(1) Suc.prems(1), of "alias i" "xs ! i"], goal_cases)
    case (1 dst')
    have "copy_of d (xs ! i) (xs ! i)" using 1(3) assms(1) by (simp add: copy_of_def)
    from step [OF this 1(2)] show ?case using 1(1) src by simp
  next
    case (2 dst' e)
    have "obus_copy_value m d (new ! i) (xs ! i) = (Inr (), copy_item d k (xs ! i))"
      by (rule copy_value_ok [OF assms(1)]) (use Suc.prems in simp)
    moreover have "copy_of d (xs ! i) (copy_item d k (xs ! i))" using assms(1) by (simp add: copy_of_def)
    from step [OF this 2(3)] show ?case using calculation 2(1,2) src by (cases e) simp_all
  qed
qed

lemma destroy_items_ok:
  assumes "i + n \<le> array_len arr"
  shows "destroy_items d arr i n = Inr ()"
  using assms
proof (induction n arbitrary: i)
  case (Suc n)
  then obtain xs where "arr = Some xs" by (cases arr) (auto simp: array_len_def)
  with Suc show ?case
    by (simp add: obus_destroy_value_def deref_def obus_field_array_item_def array_len_def split: option.splits)
qed simp

text \<open>The count of an array field agrees with the array.\<close>

definition count_ok :: "obus_struct \<Rightarrow> obus_field_desc \<Rightarrow> bool" where
  "count_ok st d \<longleftrightarrow> (is_array (ftype d) \<longrightarrow>
     unat (obus_field_array_nb_address st d) = length (field_values st d))"

lemma length_field_values: "is_array (ftype d) \<Longrightarrow> length (field_values st d) = array_len (get_array (obus_field_address st d))"
  by (simp add: field_values_def array_len_def split: option.splits)

text \<open>Only the field \<open>d\<close> has changed.\<close>

definition updates_field :: "obus_field_desc \<Rightarrow> obus_struct \<Rightarrow> obus_struct \<Rightarrow> bool" where
  "updates_field d st st' \<longleftrightarrow> st_desc st' = st_desc st \<and> st_bits st' = st_bits st
     \<and> (\<forall>a. a \<noteq> foffset d \<longrightarrow> st_cell st' a = st_cell st a)
     \<and> (\<forall>a. (is_array (ftype d) \<longrightarrow> a \<noteq> nb_offset d) \<longrightarrow> st_nb st' a = st_nb st a)"

lemma array_alloc_copy:
  assumes "field_kind (ftype d) = Some k" "unat n = length xs" "enough m (8 * length xs)"
  defines "new \<equiv> if n > 0 then obus_field_array_alloc m d n else None"
  shows "\<not> (n > 0 \<and> new = None)" "length (case new of None \<Rightarrow> [] | Some ys \<Rightarrow> ys) = length xs"
    "new = None \<longleftrightarrow> xs = []"
proof -
  have pos: "n > 0 \<longleftrightarrow> xs \<noteq> []" using assms(2) by (metis length_0_conv unat_eq_zero word_gt_0)
  obtain arr where "obus_field_array_alloc m d n = Some arr" "length arr = unat n"
    using array_alloc_ok [OF assms(1), of m n] assms(2,3) by metis
  then show "\<not> (n > 0 \<and> new = None)" "length (case new of None \<Rightarrow> [] | Some ys \<Rightarrow> ys) = length xs"
    "new = None \<longleftrightarrow> xs = []"
    using pos assms(2) by (auto simp: new_def)
qed

lemma field_copy_ok:
  assumes "field_kind (ftype d) = Some k" "count_ok src d" "count_ok dst d" "enough m (copy_need (field_values src d))"
  shows "\<exists>dst'. obus_field_copy m alias dst src d = (Inr (), dst') \<and> updates_field d dst dst' \<and> count_ok dst' d
    \<and> list_all2 (copy_of d) (field_values src d) (field_values dst' d)"
proof (cases "is_array (ftype d)")
  case False
  then have v: "field_values src d = [get_item (obus_field_address src d)]" by (simp add: field_values_def)
  have "enough m (string_length (get_item (obus_field_address src d)))"
    by (rule enough_mono [OF assms(4)]) (simp add: v copy_need_def)
  from copy_value_ok [OF assms(1) this] show ?thesis
    using False assms(1) v
    by (auto simp: obus_field_copy_def field_values_def get_item_def copy_of_def updates_field_def set_cell_def
        obus_field_address_def count_ok_def)
next
  case True
  let ?xs = "field_values src d" and ?n = "obus_field_array_nb_address src d"
  let ?nd = "unat (obus_field_array_nb_address dst d)"
  let ?da = "get_array (obus_field_address dst d)" and ?sa = "get_array (obus_field_address src d)"
  have n: "unat ?n = length ?xs" and dn: "?nd = array_len ?da"
    using assms(2,3) True by (simp_all add: count_ok_def length_field_values)
  have en: "enough m (string_length v)" if "v \<in> set ?xs" for v
    by (rule enough_mono [OF assms(4)])
      (use member_le_sum_list [of "string_length v" "map string_length ?xs"] that in \<open>simp add: copy_need_def\<close>)
  define new where "new = (if ?n > 0 then obus_field_array_alloc m d ?n else None)"
  have "enough m (8 * length ?xs)" by (rule enough_mono [OF assms(4)]) (simp add: copy_need_def)
  note new = array_alloc_copy [OF assms(1) n this, folded new_def]
  let ?new = "case new of None \<Rightarrow> [] | Some ys \<Rightarrow> ys"
  obtain da' items where c: "copy_items m alias d ?sa ?nd ?da ?new 0 (unat ?n) = (Inr (), da', items)"
    "array_len da' = array_len ?da" "list_all2 (copy_of d) ?xs items"
  proof (cases ?sa)
    case None
    then have "?xs = []" using True by (simp add: field_values_def)
    then show thesis using that n new by simp
  next
    case (Some ys)
    then have "ys = ?xs" using True by (simp add: field_values_def)
    then show thesis
      using copy_items_ok [OF assms(1), of ?nd ?da 0 "unat ?n" ?xs ?new m "alias"] dn n new(2) en Some that by auto
  qed
  let ?dst = "set_cell dst d (Arr da')"
  let ?res = "set_nb (set_cell ?dst d (Arr (map_option (\<lambda>_. items) new))) d ?n"
  have "obus_field_array_destroy ?dst d = Inr ()"
    unfolding obus_field_array_destroy_def
    by (rule destroy_items_ok)
      (use dn c(2) in \<open>simp add: set_cell_def obus_field_address_def obus_field_array_nb_address_def get_array_def\<close>)
  then have "obus_field_copy m alias dst src d = (Inr (), ?res)"
    using True c(1) new(1)
    by (simp add: obus_field_copy_def obus_field_array_copy_def Let_def new_def [symmetric])
  moreover have "updates_field d dst ?res"
    using True by (simp add: updates_field_def set_cell_def set_nb_def)
  moreover have v: "field_values ?res d = items"
    using True new(3) c(3) by (cases new) (auto simp: field_values_def set_cell_def set_nb_def obus_field_address_def get_array_def)
  moreover have "obus_field_array_nb_address ?res d = ?n"
    by (simp add: obus_field_array_nb_address_def set_nb_def)
  then have "count_ok ?res d"
    using n list_all2_lengthD [OF c(3)] by (simp only: count_ok_def v simp_thms)
  ultimately show ?thesis using c(3) by (intro exI [of _ ?res]) (simp only: simp_thms)
qed

lemma field_state_same:
  assumes "field_state st' j = field_state st j" "st_desc st' = st_desc st"
  shows "field_values st' (sfields (st_desc st) ! j) = field_values st (sfields (st_desc st) ! j)"
    "count_ok st' (sfields (st_desc st) ! j) = count_ok st (sfields (st_desc st) ! j)"
    "obus_struct_has_field st' j = obus_struct_has_field st j"
  using assms by (auto simp: field_state_def field_values_def count_ok_def Let_def split: if_splits)

lemma updates_other:
  assumes "updates_field (sfields (st_desc st) ! i) st st'" "wf_struct_desc (st_desc st)"
    "i < length (sfields (st_desc st))" "j < length (sfields (st_desc st))" "i \<noteq> j"
  shows "field_state st' j = field_state st j"
  using assms(1) offset_distinct [OF assms(2-5)]
  by (auto simp: field_state_def updates_field_def Let_def obus_field_address_def obus_field_array_nb_address_def
      obus_struct_has_field_def) metis

text \<open>One merged field: its values are copied, it is marked, the others are as before.\<close>

lemma merge_step:
  assumes "wf_struct_desc (st_desc src)" "st_desc dst = st_desc src" "bits_ok dst" "i < length (sfields (st_desc src))"
    "count_ok src (sfields (st_desc src) ! i)" "count_ok dst (sfields (st_desc src) ! i)"
    "enough m (copy_need (field_values src (sfields (st_desc src) ! i)))"
  obtains dst' where "obus_field_copy m al dst src (sfields (st_desc src) ! i) = (Inr (), dst')"
    "bits_ok (snd (obus_struct_set_has_field dst' i))"
    "st_desc (snd (obus_struct_set_has_field dst' i)) = st_desc src"
    "\<And>j. j < length (sfields (st_desc src)) \<Longrightarrow> j \<noteq> i \<Longrightarrow>
       field_state (snd (obus_struct_set_has_field dst' i)) j = field_state dst j"
    "obus_struct_has_field (snd (obus_struct_set_has_field dst' i)) i"
    "count_ok (snd (obus_struct_set_has_field dst' i)) (sfields (st_desc src) ! i)"
    "list_all2 (copy_of (sfields (st_desc src) ! i)) (field_values src (sfields (st_desc src) ! i))
       (field_values (snd (obus_struct_set_has_field dst' i)) (sfields (st_desc src) ! i))"
proof -
  let ?d = "sfields (st_desc src) ! i"
  obtain k where k: "field_kind (ftype ?d) = Some k"
    using assms(1,4) by (auto simp: wf_struct_desc_def) (metis nth_mem option.exhaust)
  obtain dst' where c: "obus_field_copy m al dst src ?d = (Inr (), dst')" "updates_field ?d dst dst'"
    "count_ok dst' ?d" "list_all2 (copy_of ?d) (field_values src ?d) (field_values dst' ?d)"
    using field_copy_ok [OF k assms(5,6,7), of al] by blast
  have k: "st_desc dst' = st_desc src" "bits_ok dst'"
    using c(2) assms(2,3) by (simp_all add: updates_field_def bits_ok_def)
  have i: "i < length (sfields (st_desc dst'))" using assms(4) k(1) by simp
  have s: "field_state (snd (obus_struct_set_has_field dst' i)) j = field_state dst j"
    if "j < length (sfields (st_desc src))" "j \<noteq> i" for j
    using set_has_state [OF k(2) i, of j] updates_other [of dst i dst' j] c(2) assms(1,2,4) that
    by (auto split: prod.splits)
  have f: "field_values (snd (obus_struct_set_has_field dst' i)) ?d = field_values dst' ?d"
    "count_ok (snd (obus_struct_set_has_field dst' i)) ?d = count_ok dst' ?d"
    using same_fields_set [of dst' i]
    by (simp_all add: same_fields_def field_values_def count_ok_def obus_field_address_def obus_field_array_nb_address_def)
  show thesis
    by (rule that [OF c(1)])
      (use s f c(3,4) k set_has_keeps [of dst' i] fb.has_set [OF k(2), of i i] i in auto)
qed

lemma merge_fields_ok:
  assumes "wf_struct_desc (st_desc src)" "st_desc dst = st_desc src" "bits_ok dst"
    "distinct is" "set is \<subseteq> {..<length (sfields (st_desc src))}"
    "\<And>i. i < length (sfields (st_desc src)) \<Longrightarrow> count_ok dst (sfields (st_desc src) ! i)"
    "\<And>i. obus_struct_has_field src i \<Longrightarrow> count_ok src (sfields (st_desc src) ! i)
       \<and> enough m (copy_need (field_values src (sfields (st_desc src) ! i)))"
  shows "\<exists>dst'. merge_fields m alias dst src is = (Inr (), dst') \<and> st_desc dst' = st_desc src \<and> bits_ok dst'
    \<and> (\<forall>j<length (sfields (st_desc src)). count_ok dst' (sfields (st_desc src) ! j)
       \<and> (if j \<in> set is \<and> obus_struct_has_field src j
          then obus_struct_has_field dst' j \<and> list_all2 (copy_of (sfields (st_desc src) ! j))
                 (field_values src (sfields (st_desc src) ! j)) (field_values dst' (sfields (st_desc src) ! j))
          else field_state dst' j = field_state dst j))"
  using assms(2-6)
proof (induction "is" arbitrary: dst)
  case (Cons i "is")
  let ?fs = "sfields (st_desc src)"
  have i: "i < length ?fs" "i \<notin> set is" using Cons.prems by auto
  show ?case
  proof (cases "obus_struct_has_field src i")
    case False
    then show ?thesis using Cons.IH [OF Cons.prems(1,2)] Cons.prems by fastforce
  next
    case True
    obtain d1 where d1: "obus_field_copy m (alias i) dst src (?fs ! i) = (Inr (), d1)"
      "bits_ok (snd (obus_struct_set_has_field d1 i))"
      "st_desc (snd (obus_struct_set_has_field d1 i)) = st_desc src" and
      oth: "\<And>j. j < length ?fs \<Longrightarrow> j \<noteq> i \<Longrightarrow>
         field_state (snd (obus_struct_set_has_field d1 i)) j = field_state dst j" and
      own: "obus_struct_has_field (snd (obus_struct_set_has_field d1 i)) i"
      "count_ok (snd (obus_struct_set_has_field d1 i)) (?fs ! i)"
      "list_all2 (copy_of (?fs ! i)) (field_values src (?fs ! i))
         (field_values (snd (obus_struct_set_has_field d1 i)) (?fs ! i))"
      by (rule merge_step [OF assms(1) Cons.prems(1,2) i(1), of m "alias i"])
        (use assms(7) [OF True] Cons.prems(5) [OF i(1)] in auto)
    let ?d = "snd (obus_struct_set_has_field d1 i)"
    have co: "count_ok ?d (?fs ! j)" if "j < length ?fs" for j
      using own(2) field_state_same(2) [OF oth, of j] d1(3) Cons.prems(1,5) that by (cases "j = i") auto
    obtain d2 where d2: "merge_fields m alias ?d src is = (Inr (), d2)" "st_desc d2 = st_desc src" "bits_ok d2"
      and st: "\<forall>j<length ?fs. count_ok d2 (?fs ! j)
       \<and> (if j \<in> set is \<and> obus_struct_has_field src j
          then obus_struct_has_field d2 j \<and> list_all2 (copy_of (?fs ! j)) (field_values src (?fs ! j)) (field_values d2 (?fs ! j))
          else field_state d2 j = field_state ?d j)"
      using Cons.IH [OF d1(3,2) _ _ co] Cons.prems(3,4) by auto
    have "field_state d2 i = field_state ?d i" using st i by simp
    note same = field_state_same [OF this]
    have "obus_struct_has_field d2 i \<and> list_all2 (copy_of (?fs ! i)) (field_values src (?fs ! i)) (field_values d2 (?fs ! i))"
      using same own d1(3) d2(2) by simp
    then show ?thesis using d1(1) d2 st oth True i by auto
  qed
qed simp

lemma struct_merge_ok:
  assumes "wf_struct_desc (st_desc src)" "st_desc dst = st_desc src" "bits_ok dst"
    "\<forall>i<length (sfields (st_desc src)). count_ok dst (sfields (st_desc src) ! i)"
    "\<forall>i. obus_struct_has_field src i \<longrightarrow> count_ok src (sfields (st_desc src) ! i)
       \<and> enough m (copy_need (field_values src (sfields (st_desc src) ! i)))"
  shows "\<exists>dst'. obus_struct_merge m alias dst src = (Inr (), dst') \<and> st_desc dst' = st_desc src
    \<and> (\<forall>j<length (sfields (st_desc src)). let d = sfields (st_desc src) ! j in
         count_ok dst' d \<and>
         (if obus_struct_has_field src j
          then obus_struct_has_field dst' j \<and> list_all2 (copy_of d) (field_values src d) (field_values dst' d)
          else field_state dst' j = field_state dst j))"
proof -
  have "\<exists>dst'. merge_fields m alias dst src (field_indices src) = (Inr (), dst') \<and> st_desc dst' = st_desc src
    \<and> bits_ok dst' \<and> (\<forall>j<length (sfields (st_desc src)). count_ok dst' (sfields (st_desc src) ! j)
       \<and> (if j \<in> set (field_indices src) \<and> obus_struct_has_field src j
          then obus_struct_has_field dst' j \<and> list_all2 (copy_of (sfields (st_desc src) ! j))
                 (field_values src (sfields (st_desc src) ! j)) (field_values dst' (sfields (st_desc src) ! j))
          else field_state dst' j = field_state dst j))"
    by (rule merge_fields_ok) (use assms in \<open>auto simp: field_indices_def\<close>)
  then show ?thesis using assms(2) by (auto simp: obus_struct_merge_def Let_def field_indices_def)
qed

text \<open>
  Merging updates exactly the marked fields. When source and destination have the same
  description, the array counts of both are right and memory suffices, \<open>obus_struct_merge\<close>
  succeeds; every field marked in the source is then marked in the destination and holds a
  copy of the source's items (a shared string of an array is moved over instead), and every
  other field of the destination, its mark included, is unchanged. The counts stay right.
\<close>

theorem struct_merge_updates:
  assumes "wf_struct_desc (st_desc src)" "st_desc dst = st_desc src" "bits_ok dst"
    "\<forall>i<length (sfields (st_desc src)). count_ok dst (sfields (st_desc src) ! i)"
    "\<forall>i. obus_struct_has_field src i \<longrightarrow> count_ok src (sfields (st_desc src) ! i)
       \<and> enough m (copy_need (field_values src (sfields (st_desc src) ! i)))"
  shows "\<exists>dst'. obus_struct_merge m alias dst src = (Inr (), dst') \<and> st_desc dst' = st_desc src
    \<and> (\<forall>j<length (sfields (st_desc src)). let d = sfields (st_desc src) ! j in
         count_ok dst' d \<and>
         (if obus_struct_has_field src j
          then obus_struct_has_field dst' j \<and> list_all2 (copy_of d) (field_values src d) (field_values dst' d)
          else field_state dst' j = field_state dst j))"
  by (rule struct_merge_ok [OF assms])

section \<open>Example structures\<close>

text \<open>A 16-bit field, a string, an array of bytes and an array of strings.\<close>

definition sample_driver :: obus_enum_driver where
  "sample_driver = \<lparr>en_id = 9, en_size = 4, default_value = 0, en_is_valid = (\<lambda>v. v < 3), set_value = ucast, get_value = ucast\<rparr>"

definition sample_desc :: obus_struct_desc where
  "sample_desc = \<lparr>sd_id = 1, sd_size = 64, sfields = [
     \<lparr>fuid = 1, foffset = 0, frole = OBUS_PROPERTY, ftype = 2, enum_drv = sample_driver, nb_offset = 0\<rparr>,
     \<lparr>fuid = 2, foffset = 8, frole = OBUS_PROPERTY, ftype = 9, enum_drv = sample_driver, nb_offset = 0\<rparr>,
     \<lparr>fuid = 3, foffset = 16, frole = OBUS_PROPERTY, ftype = 0x80, enum_drv = sample_driver, nb_offset = 4\<rparr>,
     \<lparr>fuid = 4, foffset = 24, frole = OBUS_PROPERTY, ftype = 0x89, enum_drv = sample_driver, nb_offset = 12\<rparr>]\<rparr>"

definition blank_struct :: "obus_struct_desc \<Rightarrow> obus_struct" where
  "blank_struct sd = \<lparr>st_desc = sd, st_cell = (\<lambda>_. Val (Num 0)), st_nb = (\<lambda>_. 0), st_bits = [0]\<rparr>"

text \<open>Fields 0 and 2 are set.\<close>

definition sample_struct :: obus_struct where
  "sample_struct = (blank_struct sample_desc)\<lparr>
     st_cell := (\<lambda>a. if a = 0 then Val (Num 513) else if a = 16 then Arr (Some [Num 7, Num 9]) else
                     if a = 8 then Val (Str EmptyStr) else Arr None),
     st_nb := (\<lambda>a. if a = 4 then 2 else 0), st_bits := [5]\<rparr>"

lemmas sample_defs = sample_struct_def blank_struct_def sample_desc_def sample_driver_def

lemma sample_kinds [simp]:
  "field_kind 2 = Some OBUS_FIELD_U16" "field_kind 9 = Some OBUS_FIELD_STRING"
  "field_kind 0x80 = Some OBUS_FIELD_U8" "field_kind 0x89 = Some OBUS_FIELD_STRING"
  "is_array 0x80" "is_array 0x89" "\<not> is_array 2" "\<not> is_array 9"
  by (simp_all add: field_kind_def is_array_def field_types_def OBUS_FIELD_MASK_def OBUS_FIELD_ARRAY_def)

lemma sample_wf: "wf_struct_desc sample_desc"
  by (simp add: wf_struct_desc_def sample_desc_def)

lemma sample_has:
  "obus_struct_has_field sample_struct i \<longleftrightarrow> i = 0 \<or> i = 2"
proof -
  have "i < 4 \<Longrightarrow> i = 0 \<or> i = 1 \<or> i = 2 \<or> i = 3" by linarith
  then show ?thesis by (auto simp: has_field_bit sample_defs)
qed

lemma sample_marked: "marked sample_struct = [0, 2]"
proof -
  have "field_indices sample_struct = [0, 1, 2, 3]"
    by (simp add: field_indices_def sample_defs upt_rec)
  then show ?thesis by (simp add: marked_def sample_has)
qed

lemma sample_values:
  "field_values sample_struct (sfields (st_desc sample_struct) ! 0) = [Num 513]"
  "field_values sample_struct (sfields (st_desc sample_struct) ! 2) = [Num 7, Num 9]"
  by (simp_all add: sample_defs field_values_def obus_field_address_def get_array_def get_item_def)

lemma sample_types:
  "ftype (sfields (st_desc sample_struct) ! 0) = 2" "ftype (sfields (st_desc sample_struct) ! 2) = 0x80"
  "obus_field_array_nb_address sample_struct (sfields (st_desc sample_struct) ! 2) = 2"
  by (simp_all add: sample_defs obus_field_array_nb_address_def)

lemma sample_ok: "struct_ok sample_struct"
proof -
  have "field_ok sample_struct (sfields (st_desc sample_struct) ! i)" if "i = 0 \<or> i = 2" for i
    using that by (auto simp: field_ok_def sample_values sample_types item_ok_def)
  then show ?thesis
    using sample_wf by (simp add: struct_ok_def sample_marked bits_ok_def) (simp add: sample_defs)
qed

lemma sample_entries:
  "struct_entries sample_struct = [(1, 2, [WNum 513]), (3, 0x80, [WNum 7, WNum 9])]"
  by (simp add: struct_entries_def sample_marked field_entry_def sample_values)
    (simp add: sample_defs to_wire_def get_num_def class_of_def take_bit_eq_mask mask_eq_exp_minus_1)

lemma sample_sizes:
  "length (wire_struct (struct_entries sample_struct)) = 16" "entries_need (struct_entries sample_struct) = 32"
  by (simp_all add: sample_entries wire_struct_def wire_entry_def wire_payload_def class_of_def wire_val_def
      entries_need_def payload_need_def)

text \<open>The witnesses of the properties above.\<close>

lemma struct_decode_any_sender_witness:
  "\<exists>st' b'. obus_struct_decode full_memory (blank_struct sample_desc)
      (buffer_of (wire_struct [(7, 2, [WNum 1]), (1, 2, [WNum 513])])) = (Inr (), st', b')
    \<and> unread b' = [] \<and> field_state st' 0 = (Val (Num 513), None, True)"
proof -
  let ?es = "[(7, 2, [WNum 1]), (1, 2, [WNum 513])] :: wentry list"
  have "wire_ok ?es"
    by (simp add: wire_ok_def entry_ok_def payload_ok_def class_of_def wval_ok_def take_bit_eq_mask mask_eq_exp_minus_1)
  moreover have "enough full_memory (entries_need ?es)" "length (wire_struct ?es) < SSIZE_LIMIT"
    by (simp_all add: entries_need_def payload_need_def wire_payload_def class_of_def wire_val_def wire_struct_def wire_entry_def)
  moreover have "bits_ok (blank_struct sample_desc)" "st_desc (blank_struct sample_desc) = sample_desc"
    by (simp_all add: bits_ok_def sample_defs)
  ultimately obtain st' b' where "obus_struct_decode full_memory (blank_struct sample_desc) (buffer_of (wire_struct ?es)) = (Inr (), st', b')"
    "unread b' = []" "\<forall>ws. (fuid (sfields sample_desc ! 0), ftype (sfields sample_desc ! 0), ws) \<in> set ?es \<longrightarrow>
       field_state st' 0 = stored (sfields sample_desc ! 0) ws"
    using struct_decode_any_sender [of "blank_struct sample_desc" "buffer_of (wire_struct ?es)" ?es "[]" full_memory] sample_wf
    by (auto simp: Let_def) (auto simp: sample_desc_def)
  then show ?thesis
    by (auto simp: sample_desc_def stored_def from_wire_def wnum_def)
qed

lemma struct_roundtrip_witness:
  "struct_ok sample_struct \<and> (\<exists>b' st' b''. obus_struct_encode full_memory sample_struct (buffer_of []) = (Inr (), b')
    \<and> obus_struct_decode full_memory (blank_struct sample_desc) b' = (Inr (), st', b'') \<and> unread b'' = []
    \<and> obus_struct_has_field st' 2)"
proof -
  have "st_desc (blank_struct sample_desc) = st_desc sample_struct" "bits_ok (blank_struct sample_desc)"
    "2 < length (sfields (st_desc sample_struct))"
    by (simp_all add: bits_ok_def sample_defs)
  then show ?thesis
    using struct_roundtrip [of sample_struct "blank_struct sample_desc" "buffer_of []" full_memory] sample_ok
      sample_sizes sample_has [of 2]
    by (auto simp: Let_def)
qed

lemma struct_merge_updates_witness:
  "\<exists>dst'. obus_struct_merge full_memory (\<lambda>_ _ _. False) (blank_struct sample_desc) sample_struct = (Inr (), dst')
    \<and> obus_struct_has_field dst' 2"
proof -
  let ?dst = "blank_struct sample_desc"
  have "wf_struct_desc (st_desc sample_struct)" "st_desc ?dst = st_desc sample_struct" "bits_ok ?dst"
    "2 < length (sfields (st_desc sample_struct))"
    using sample_wf by (simp_all add: bits_ok_def sample_defs)
  moreover have "count_ok ?dst d" for d
    by (simp add: count_ok_def field_values_def obus_field_address_def obus_field_array_nb_address_def get_array_def blank_struct_def)
  moreover have "\<forall>i. obus_struct_has_field sample_struct i \<longrightarrow> count_ok sample_struct (sfields (st_desc sample_struct) ! i)
      \<and> enough full_memory (copy_need (field_values sample_struct (sfields (st_desc sample_struct) ! i)))"
    by (auto simp: sample_has count_ok_def sample_types sample_values copy_need_def string_length_def get_str_def)
  ultimately show ?thesis
    using struct_merge_updates [of sample_struct ?dst full_memory "\<lambda>_ _ _. False"] sample_has [of 2]
    by (auto simp: Let_def)
qed

text \<open>
  A failed array decode leaves a field that cannot be destroyed. If the count of a string
  array announces two or more strings and the packet ends there, \<open>obus_field_array_decode\<close> fails,
  keeps the announced count and stores a NULL array; destroying the field (or the structure)
  then follows the wild address of its second item.
\<close>

theorem array_decode_failure_faults:
  assumes "field_kind (ftype d) = Some OBUS_FIELD_STRING" "is_array (ftype d)" "buf_ok b" "unread b = be32 n"
    "2 \<le> n" "alloc_ok m (unat n * 8)"
  shows "\<exists>e st' b'. obus_field_array_decode m st d b = (Inl e, st', b')
    \<and> obus_field_array_nb_address st' d = n \<and> obus_field_destroy st' d = Inl FAULT"
proof -
  have r: "reads_at b 0 (be32 n @ [])" using assms(3,4) by simp
  have r32: "obus_buffer_read_u32 b = (Inr n, advance b 4)" and r4: "reads_at b 4 []"
    using w32.rd_then [OF r, of full_memory] by (simp_all add: reader_defs)
  then have "obus_buffer_read_u32 (advance b 4) = (Inl EAGAIN, advance b 4)"
    by (intro read_short) (simp_all add: reads_at_def)
  then have s: "obus_decode_value m d old (advance b 4) = (Inl EAGAIN, old, advance b 4)" for old
    using assms(1) by (simp add: obus_decode_value_def obus_buffer_read_string_def)
  have "2 \<le> unat n" using assms(5) by (simp add: word_le_nat_alt)
  then obtain k where k: "unat n = Suc (Suc k)" by (metis add_2_eq_Suc le_Suc_ex)
  have a: "obus_field_array_alloc m d n = Some (replicate (unat n) (Str EmptyStr))"
    using assms(1,6) by (simp add: obus_field_array_alloc_def alloc_item_size_def)
  let ?st = "set_cell (set_nb st d n) d (Arr None)"
  have "n > 0" using k by (metis nat.distinct(1) unat_0 word_gt_0)
  moreover have "decode_items m d (replicate (Suc (Suc k)) (Str EmptyStr)) 0 (Suc (Suc k)) (advance b 4)
      = (Inl EAGAIN, replicate (Suc (Suc k)) (Str EmptyStr), advance b 4)"
    using s [of "Str EmptyStr"] assms(1) by (simp add: obus_field_array_item_def deref_def)
  ultimately have "obus_field_array_decode m st d b = (Inl EAGAIN, ?st, advance b 4)"
    using r32 a k by (simp add: obus_field_array_decode_def Let_def)
  moreover have "obus_field_array_nb_address ?st d = n"
    by (simp add: obus_field_array_nb_address_def set_cell_def set_nb_def)
  moreover have "obus_field_destroy ?st d = Inl FAULT"
    using assms(1,2) k
    by (simp add: obus_field_destroy_def obus_field_array_destroy_def obus_field_address_def set_cell_def set_nb_def
        get_array_def obus_field_array_nb_address_def obus_field_array_item_def item_size_def obus_destroy_value_def deref_def)
  ultimately show ?thesis by blast
qed

lemma array_decode_failure_faults_witness:
  "\<exists>e st' b'. obus_field_array_decode full_memory sample_struct (sfields sample_desc ! 3) (buffer_of (be32 2)) = (Inl e, st', b')
    \<and> obus_field_destroy st' (sfields sample_desc ! 3) = Inl FAULT"
proof -
  have "ftype (sfields sample_desc ! 3) = 0x89" by (simp add: sample_desc_def)
  then show ?thesis
    using array_decode_failure_faults [of "sfields sample_desc ! 3" "buffer_of (be32 2)" 2 full_memory sample_struct] by auto
qed

end
