(* ===== verification/Obus_Api.thy ===== *)
theory Obus_Api
  imports Obus_Desc Obus_Hash
begin

text \<open>
  The bus description tables: \<open>obus_bus_api.c\<close>. A table per kind of description maps the
  identifiers on the wire to the descriptions; methods and events are keyed by the identifier
  of their object and their own. The first part holds the operations, the second the property
  that after the initialisation the lookups find exactly what the description declares.
\<close>

section \<open>Operations\<close>

definition OBUS_INVALID_UID :: u16 where "OBUS_INVALID_UID = 0"

definition MTD_KEY :: "u16 \<Rightarrow> u16 \<Rightarrow> u32" where
  "MTD_KEY objuid uid = push_bit 16 (ucast objuid) OR ucast uid"

definition EVT_KEY :: "u16 \<Rightarrow> u16 \<Rightarrow> u32" where
  "EVT_KEY objuid uid = push_bit 16 (ucast objuid) OR ucast uid"

text \<open>The members of the array \<open>hashes\<close>, by their enumerator.\<close>

record obus_bus_api =
  api_desc :: obus_bus_desc
  hash_obj :: "obus_object_desc obus_hash"
  hash_mtd :: "obus_method_desc obus_hash"
  hash_evt :: "obus_event_desc obus_hash"
  hash_bus_evt :: "obus_bus_event_desc obus_hash"

definition mtd_pairs :: "obus_object_desc \<Rightarrow> (u32 \<times> obus_method_desc) list" where
  "mtd_pairs obj = map (\<lambda>mtd. (MTD_KEY (od_uid obj) (m_uid mtd), mtd)) (od_methods obj)"

definition evt_pairs :: "obus_object_desc \<Rightarrow> (u32 \<times> obus_event_desc) list" where
  "evt_pairs obj = map (\<lambda>evt. (EVT_KEY (od_uid obj) (ev_uid evt), evt)) (od_events obj)"

definition obus_bus_api_add_object :: "memory \<Rightarrow> obus_bus_api \<Rightarrow> obus_object_desc \<Rightarrow> unit res \<times> obus_bus_api" where
  "obus_bus_api_add_object m api obj =
     (let (ret, h) = obus_hash_insert_const m (hash_obj api) (ucast (od_uid obj)) obj;
          api = api\<lparr>hash_obj := h\<rparr>
      in chk (ret, api) (\<lambda>_ api.
         let (ret, h) = insert_all (obus_hash_insert_const m) (hash_mtd api) (mtd_pairs obj);
             api = api\<lparr>hash_mtd := h\<rparr>
         in chk (ret, api) (\<lambda>_ api.
            let (ret, h) = insert_all (obus_hash_insert_const m) (hash_evt api) (evt_pairs obj)
            in (ret, api\<lparr>hash_evt := h\<rparr>))))"

primrec add_objects :: "memory \<Rightarrow> obus_bus_api \<Rightarrow> obus_object_desc list \<Rightarrow> unit res \<times> obus_bus_api" where
  "add_objects m api [] = (Inr (), api)"
| "add_objects m api (obj # objs) =
     chk (obus_bus_api_add_object m api obj) (\<lambda>_ api. add_objects m api objs)"

text \<open>
  A table that cannot be allocated makes \<open>obus_hash_init\<close> free a part of the structure that is
  not a block of its own, which is a fault. The tables are destroyed when an insertion fails.
\<close>

definition obus_bus_api_init :: "memory \<Rightarrow> obus_bus_desc \<Rightarrow> obus_bus_api res" where
  "obus_bus_api_init m desc =
     (case snd (obus_hash_init m (length (bd_objects desc))) of
        None \<Rightarrow> Inl FAULT
      | Some ho \<Rightarrow>
     (case snd (obus_hash_init m (sum_list (map (length \<circ> od_methods) (bd_objects desc)))) of
        None \<Rightarrow> Inl FAULT
      | Some hm \<Rightarrow>
     (case snd (obus_hash_init m (sum_list (map (length \<circ> od_events) (bd_objects desc)))) of
        None \<Rightarrow> Inl FAULT
      | Some he \<Rightarrow>
     (case snd (obus_hash_init m (length (bd_events desc))) of
        None \<Rightarrow> Inl FAULT
      | Some hb \<Rightarrow>
     (case add_objects m \<lparr>api_desc = desc, hash_obj = ho, hash_mtd = hm, hash_evt = he, hash_bus_evt = hb\<rparr>
             (bd_objects desc) of
        (Inl e, _) \<Rightarrow> Inl e
      | (Inr _, api) \<Rightarrow>
     (case insert_all (obus_hash_insert_const m) (hash_bus_evt api)
             (map (\<lambda>e. (ucast (be_uid e), e)) (bd_events desc)) of
        (Inl e, _) \<Rightarrow> Inl e
      | (Inr _, h) \<Rightarrow> Inr (api\<lparr>hash_bus_evt := h\<rparr>)))))))"

definition obus_bus_api_destroy :: "obus_bus_api \<Rightarrow> obus_bus_api" where
  "obus_bus_api_destroy api =
     api\<lparr>hash_evt := obus_hash_destroy (hash_evt api), hash_mtd := obus_hash_destroy (hash_mtd api),
         hash_obj := obus_hash_destroy (hash_obj api), hash_bus_evt := obus_hash_destroy (hash_bus_evt api)\<rparr>"

definition found :: "'a res \<Rightarrow> 'a option" where
  "found r = (case r of Inl _ \<Rightarrow> None | Inr x \<Rightarrow> Some x)"

definition obus_bus_api_object :: "obus_bus_api \<Rightarrow> u16 \<Rightarrow> obus_object_desc option" where
  "obus_bus_api_object api uid =
     (if uid = OBUS_INVALID_UID then None else found (obus_hash_lookup_const (hash_obj api) (ucast uid)))"

definition obus_bus_api_method :: "obus_bus_api \<Rightarrow> u16 \<Rightarrow> u16 \<Rightarrow> obus_method_desc option" where
  "obus_bus_api_method api objuid mtduid =
     (if objuid = OBUS_INVALID_UID \<or> mtduid = OBUS_INVALID_UID then None
      else found (obus_hash_lookup_const (hash_mtd api) (MTD_KEY objuid mtduid)))"

definition obus_bus_api_event :: "obus_bus_api \<Rightarrow> u16 \<Rightarrow> u16 \<Rightarrow> obus_event_desc option" where
  "obus_bus_api_event api objuid evtuid =
     (if objuid = OBUS_INVALID_UID \<or> evtuid = OBUS_INVALID_UID then None
      else found (obus_hash_lookup_const (hash_evt api) (EVT_KEY objuid evtuid)))"

definition obus_bus_api_bus_event :: "obus_bus_api \<Rightarrow> u16 \<Rightarrow> obus_bus_event_desc option" where
  "obus_bus_api_bus_event api uid =
     (if uid = OBUS_INVALID_UID then None else found (obus_hash_lookup_const (hash_bus_evt api) (ucast uid)))"

section \<open>Keys\<close>

text \<open>The object and the method (event) identifier can be read back from a key.\<close>

lemma MTD_KEY_parts: "(ucast (drop_bit 16 (MTD_KEY a b)) :: u16) = a" "(ucast (MTD_KEY a b) :: u16) = b"
proof -
  have "\<not> bit b (16 + n)" for n using bit_imp_le_length [of b "16 + n"] by auto
  then show "(ucast (drop_bit 16 (MTD_KEY a b)) :: u16) = a" "(ucast (MTD_KEY a b) :: u16) = b"
    by (auto intro!: bit_word_eqI simp: MTD_KEY_def bit_simps)
qed

lemma MTD_KEY_inject: "MTD_KEY a b = MTD_KEY c d \<longleftrightarrow> a = c \<and> b = d"
  by (metis MTD_KEY_parts)

lemma EVT_KEY_eq: "EVT_KEY = MTD_KEY"
  by (simp add: fun_eq_iff EVT_KEY_def MTD_KEY_def)

lemma ucast_u16_inject: "(ucast a :: u32) = ucast b \<longleftrightarrow> a = b" for a b :: u16
proof
  assume "(ucast a :: u32) = ucast b"
  then have "(ucast (ucast a :: u32) :: u16) = ucast (ucast b :: u32)" by simp
  moreover have "(ucast (ucast x :: u32) :: u16) = x" for x :: u16
    by (auto intro!: bit_word_eqI simp: bit_simps)
  ultimately show "a = b" by simp
qed simp

section \<open>Initialisation\<close>

lemma chk_chk: "chk (chk x f) g = chk x (\<lambda>r s. chk (f r s) g)"
  by (cases x; cases "fst x") auto

lemma insert_all_append:
  "insert_all ins s (xs @ ys) = chk (insert_all ins s xs) (\<lambda>_ s. insert_all ins s ys)"
  by (induction xs arbitrary: s) (simp_all add: chk_chk)

definition obj_pairs :: "obus_object_desc list \<Rightarrow> (u32 \<times> obus_object_desc) list" where
  "obj_pairs objs = map (\<lambda>od. (ucast (od_uid od), od)) objs"

text \<open>Adding the objects fills the three tables as if each were filled at once.\<close>

lemma add_objects_tables:
  assumes "insert_all (obus_hash_insert_const m) (hash_obj api) (obj_pairs objs) = (Inr (), ho)"
    "insert_all (obus_hash_insert_const m) (hash_mtd api) (concat (map mtd_pairs objs)) = (Inr (), hm)"
    "insert_all (obus_hash_insert_const m) (hash_evt api) (concat (map evt_pairs objs)) = (Inr (), he)"
  shows "add_objects m api objs = (Inr (), api\<lparr>hash_obj := ho, hash_mtd := hm, hash_evt := he\<rparr>)"
  using assms
proof (induction objs arbitrary: api)
  case (Cons obj objs)
  let ?ins = "obus_hash_insert_const m"
  obtain h1 where h1: "?ins (hash_obj api) (ucast (od_uid obj)) obj = (Inr (), h1)"
      "insert_all ?ins h1 (obj_pairs objs) = (Inr (), ho)"
    using Cons.prems(1)
    by (cases "?ins (hash_obj api) (ucast (od_uid obj)) obj"; cases "fst (?ins (hash_obj api) (ucast (od_uid obj)) obj)")
      (auto simp: obj_pairs_def)
  obtain h2 where h2: "insert_all ?ins (hash_mtd api) (mtd_pairs obj) = (Inr (), h2)"
      "insert_all ?ins h2 (concat (map mtd_pairs objs)) = (Inr (), hm)"
    using Cons.prems(2)
    by (cases "insert_all ?ins (hash_mtd api) (mtd_pairs obj)"; cases "fst (insert_all ?ins (hash_mtd api) (mtd_pairs obj))")
      (auto simp: insert_all_append)
  obtain h3 where h3: "insert_all ?ins (hash_evt api) (evt_pairs obj) = (Inr (), h3)"
      "insert_all ?ins h3 (concat (map evt_pairs objs)) = (Inr (), he)"
    using Cons.prems(3)
    by (cases "insert_all ?ins (hash_evt api) (evt_pairs obj)"; cases "fst (insert_all ?ins (hash_evt api) (evt_pairs obj))")
      (auto simp: insert_all_append)
  let ?api = "api\<lparr>hash_obj := h1, hash_mtd := h2, hash_evt := h3\<rparr>"
  have "obus_bus_api_add_object m api obj = (Inr (), ?api)"
    using h1(1) h2(1) h3(1) by (simp add: obus_bus_api_add_object_def)
  moreover have "add_objects m ?api objs = (Inr (), ?api\<lparr>hash_obj := ho, hash_mtd := hm, hash_evt := he\<rparr>)"
    by (rule Cons.IH) (use h1(2) h2(2) h3(2) in simp_all)
  ultimately show ?case by simp
qed (simp add: obj_pairs_def)

text \<open>A well-formed bus description has no identifier twice where it must be unique.\<close>

definition wf_bus_desc :: "obus_bus_desc \<Rightarrow> bool" where
  "wf_bus_desc desc \<longleftrightarrow> distinct (map od_uid (bd_objects desc)) \<and> distinct (map be_uid (bd_events desc))
     \<and> (\<forall>od\<in>set (bd_objects desc). distinct (map m_uid (od_methods od)) \<and> distinct (map ev_uid (od_events od)))"

lemma distinct_keys:
  assumes "distinct (map od_uid objs)" "\<forall>od\<in>set objs. distinct (map u (f od))"
  shows "distinct (map fst (concat (map (\<lambda>od. map (\<lambda>x. (MTD_KEY (od_uid od) (u x), x)) (f od)) objs)))"
  using assms
proof (induction objs)
  case (Cons obj objs)
  have "distinct (map (\<lambda>x. MTD_KEY (od_uid obj) (u x)) (f obj))"
    using Cons.prems(2) by (auto simp: distinct_map inj_on_def MTD_KEY_inject)
  then show ?case using Cons by (auto simp: MTD_KEY_inject comp_def image_iff)
qed simp

lemma hash_init_enough:
  assumes "enough m (2 ^ 35)"
  obtains h :: "'d obus_hash" where "obus_hash_init m n = (Inr (), Some h)" "hash_ok h" "hash_map h = Map.empty"
proof -
  let ?p = "hash_prime_tab ! prime_index n 0"
  have "unat ?p * sizeof_ptr \<le> 2 ^ 35"
  proof -
    have "unat ?p < 2 ^ 32" using unsigned_less [of ?p] by simp
    then show ?thesis by (simp add: sizeof_ptr_def)
  qed
  then obtain h :: "'d obus_hash" where h: "obus_hash_init m n = (Inr (), Some h)"
    using enough_alloc [OF assms] by (auto simp: obus_hash_init_def Let_def)
  then show thesis using that [OF h] init_ok [OF h] by (simp add: hash_map_def fun_eq_iff)
qed

section \<open>The tables and the description\<close>

text \<open>The reference for the lookups: a search in the description itself.\<close>

definition declared_object :: "obus_bus_desc \<Rightarrow> u16 \<rightharpoonup> obus_object_desc" where
  "declared_object desc uid =
     (if uid = OBUS_INVALID_UID then None else List.find (\<lambda>od. od_uid od = uid) (bd_objects desc))"

definition declared_method :: "obus_bus_desc \<Rightarrow> u16 \<Rightarrow> u16 \<rightharpoonup> obus_method_desc" where
  "declared_method desc objuid uid =
     (if uid = OBUS_INVALID_UID then None
      else Option.bind (declared_object desc objuid) (\<lambda>od. List.find (\<lambda>x. m_uid x = uid) (od_methods od)))"

definition declared_event :: "obus_bus_desc \<Rightarrow> u16 \<Rightarrow> u16 \<rightharpoonup> obus_event_desc" where
  "declared_event desc objuid uid =
     (if uid = OBUS_INVALID_UID then None
      else Option.bind (declared_object desc objuid) (\<lambda>od. List.find (\<lambda>x. ev_uid x = uid) (od_events od)))"

definition declared_bus_event :: "obus_bus_desc \<Rightarrow> u16 \<rightharpoonup> obus_bus_event_desc" where
  "declared_bus_event desc uid =
     (if uid = OBUS_INVALID_UID then None else List.find (\<lambda>x. be_uid x = uid) (bd_events desc))"

lemma map_of_find:
  assumes "\<And>x. key x = k \<longleftrightarrow> P x"
  shows "map_of (map (\<lambda>x. (key x, x)) xs) k = List.find P xs"
  by (induction xs) (auto simp: assms simp flip: assms)

lemma map_of_key_find:
  assumes "distinct (map od_uid objs)"
  shows "map_of (concat (map (\<lambda>od. map (\<lambda>x. (MTD_KEY (od_uid od) (u x), x)) (f od)) objs)) (MTD_KEY a b) =
    Option.bind (List.find (\<lambda>od. od_uid od = a) objs) (\<lambda>od. List.find (\<lambda>x. u x = b) (f od))"
  using assms
proof (induction objs)
  case (Cons obj objs)
  show ?case
  proof (cases "od_uid obj = a")
    case True
    then have "List.find (\<lambda>od. od_uid od = a) objs = None"
      using Cons.prems by (auto simp: find_None_iff image_iff)
    then show ?thesis using Cons True
      by (auto simp: map_add_def MTD_KEY_inject map_of_find [where P = "\<lambda>x. u x = b"] split: option.splits)
  next
    case False
    have "map_of (map (\<lambda>x. (MTD_KEY (od_uid obj) (u x), x)) (f obj)) (MTD_KEY a b) = None"
      using False by (auto simp: map_of_eq_None_iff MTD_KEY_inject)
    then show ?thesis using Cons False by (simp add: map_add_def split: option.splits)
  qed
qed simp

lemma found_lookup:
  "hash_ok h \<Longrightarrow> found (obus_hash_lookup_const h k) = hash_map h k"
  by (simp add: const_hash.get_eq found_def split: option.splits)

lemma fill_table:
  assumes "enough m (2 ^ 35)" "distinct (map fst kvs)" "hash_ok h" "hash_map h = Map.empty"
  obtains h' where "insert_all (obus_hash_insert_const m) h kvs = (Inr (), h')" "hash_ok h'" "hash_map h' = map_of kvs"
proof -
  have "alloc_ok m sizeof_hash_entry" using enough_alloc [OF assms(1)] by (simp add: sizeof_hash_entry_def)
  then show thesis using const_hash.insert_all_ok [OF assms(3) _ assms(2), of m] assms(4) that by auto
qed

text \<open>The tables hold the pairs of the description.\<close>

definition api_ok :: "obus_bus_api \<Rightarrow> bool" where
  "api_ok api \<longleftrightarrow> wf_bus_desc (api_desc api)
     \<and> hash_ok (hash_obj api) \<and> hash_map (hash_obj api) = map_of (obj_pairs (bd_objects (api_desc api)))
     \<and> hash_ok (hash_mtd api) \<and> hash_map (hash_mtd api) = map_of (concat (map mtd_pairs (bd_objects (api_desc api))))
     \<and> hash_ok (hash_evt api) \<and> hash_map (hash_evt api) = map_of (concat (map evt_pairs (bd_objects (api_desc api))))
     \<and> hash_ok (hash_bus_evt api)
     \<and> hash_map (hash_bus_evt api) = map_of (map (\<lambda>e. (ucast (be_uid e), e)) (bd_events (api_desc api)))"

lemma api_init_ok:
  assumes "enough m (2 ^ 35)" "wf_bus_desc desc"
  obtains api where "obus_bus_api_init m desc = Inr api" "api_desc api = desc" "api_ok api"
proof -
  have wf: "distinct (map od_uid (bd_objects desc))" "distinct (map be_uid (bd_events desc))"
    "\<forall>od\<in>set (bd_objects desc). distinct (map m_uid (od_methods od))"
    "\<forall>od\<in>set (bd_objects desc). distinct (map ev_uid (od_events od))"
    using assms(2) by (auto simp: wf_bus_desc_def)
  have d: "distinct (map fst (obj_pairs (bd_objects desc)))"
    "distinct (map fst (concat (map mtd_pairs (bd_objects desc))))"
    "distinct (map fst (concat (map evt_pairs (bd_objects desc))))"
    "distinct (map fst (map (\<lambda>e. (ucast (be_uid e) :: u32, e)) (bd_events desc)))"
    using wf distinct_keys [OF wf(1,3)] distinct_keys [OF wf(1,4)]
    by (auto simp: obj_pairs_def mtd_pairs_def [abs_def] evt_pairs_def [abs_def] EVT_KEY_eq comp_def
        distinct_map inj_on_def ucast_u16_inject)
  obtain ho :: "obus_object_desc obus_hash" where ho: "obus_hash_init m (length (bd_objects desc)) = (Inr (), Some ho)"
      "hash_ok ho" "hash_map ho = Map.empty"
    by (rule hash_init_enough [OF assms(1)])
  obtain hm :: "obus_method_desc obus_hash" where hm: "obus_hash_init m (sum_list (map (length \<circ> od_methods) (bd_objects desc))) = (Inr (), Some hm)"
      "hash_ok hm" "hash_map hm = Map.empty"
    by (rule hash_init_enough [OF assms(1)])
  obtain he :: "obus_event_desc obus_hash" where he: "obus_hash_init m (sum_list (map (length \<circ> od_events) (bd_objects desc))) = (Inr (), Some he)"
      "hash_ok he" "hash_map he = Map.empty"
    by (rule hash_init_enough [OF assms(1)])
  obtain hb :: "obus_bus_event_desc obus_hash" where hb: "obus_hash_init m (length (bd_events desc)) = (Inr (), Some hb)"
      "hash_ok hb" "hash_map hb = Map.empty"
    by (rule hash_init_enough [OF assms(1)])
  obtain ho' where ho': "insert_all (obus_hash_insert_const m) ho (obj_pairs (bd_objects desc)) = (Inr (), ho')"
      "hash_ok ho'" "hash_map ho' = map_of (obj_pairs (bd_objects desc))"
    by (rule fill_table [OF assms(1) d(1) ho(2,3)])
  obtain hm' where hm': "insert_all (obus_hash_insert_const m) hm (concat (map mtd_pairs (bd_objects desc))) = (Inr (), hm')"
      "hash_ok hm'" "hash_map hm' = map_of (concat (map mtd_pairs (bd_objects desc)))"
    by (rule fill_table [OF assms(1) d(2) hm(2,3)])
  obtain he' where he': "insert_all (obus_hash_insert_const m) he (concat (map evt_pairs (bd_objects desc))) = (Inr (), he')"
      "hash_ok he'" "hash_map he' = map_of (concat (map evt_pairs (bd_objects desc)))"
    by (rule fill_table [OF assms(1) d(3) he(2,3)])
  obtain hb' where hb': "insert_all (obus_hash_insert_const m) hb (map (\<lambda>e. (ucast (be_uid e), e)) (bd_events desc)) = (Inr (), hb')"
      "hash_ok hb'" "hash_map hb' = map_of (map (\<lambda>e. (ucast (be_uid e), e)) (bd_events desc))"
    by (rule fill_table [OF assms(1) d(4) hb(2,3)])
  let ?api = "\<lparr>api_desc = desc, hash_obj = ho, hash_mtd = hm, hash_evt = he, hash_bus_evt = hb\<rparr>"
  have "add_objects m ?api (bd_objects desc) = (Inr (), ?api\<lparr>hash_obj := ho', hash_mtd := hm', hash_evt := he'\<rparr>)"
    by (rule add_objects_tables) (use ho'(1) hm'(1) he'(1) in simp_all)
  then have "obus_bus_api_init m desc =
      Inr \<lparr>api_desc = desc, hash_obj = ho', hash_mtd = hm', hash_evt = he', hash_bus_evt = hb'\<rparr>"
    using ho(1) hm(1) he(1) hb(1) hb'(1) by (simp add: obus_bus_api_init_def)
  then show thesis using ho' hm' he' hb' assms(2) by (intro that) (auto simp: api_ok_def)
qed

lemma api_ok_lookups:
  assumes "api_ok api"
  shows "obus_bus_api_object api = declared_object (api_desc api)"
    "obus_bus_api_bus_event api = declared_bus_event (api_desc api)"
    "obus_bus_api_method api = declared_method (api_desc api)"
    "obus_bus_api_event api = declared_event (api_desc api)"
proof -
  have u: "distinct (map od_uid (bd_objects (api_desc api)))" using assms by (simp add: api_ok_def wf_bus_desc_def)
  note a = assms [unfolded api_ok_def]
  show "obus_bus_api_object api = declared_object (api_desc api)"
    using a by (auto simp: fun_eq_iff obus_bus_api_object_def declared_object_def found_lookup obj_pairs_def
        ucast_u16_inject intro!: map_of_find)
  show "obus_bus_api_bus_event api = declared_bus_event (api_desc api)"
    using a by (auto simp: fun_eq_iff obus_bus_api_bus_event_def declared_bus_event_def found_lookup
        ucast_u16_inject intro!: map_of_find)
  show "obus_bus_api_method api = declared_method (api_desc api)"
    using a by (auto simp: fun_eq_iff obus_bus_api_method_def declared_method_def declared_object_def found_lookup
        mtd_pairs_def [abs_def] map_of_key_find [OF u])
  show "obus_bus_api_event api = declared_event (api_desc api)"
    using a by (auto simp: fun_eq_iff obus_bus_api_event_def declared_event_def declared_object_def found_lookup
        evt_pairs_def [abs_def] EVT_KEY_eq map_of_key_find [OF u])
qed

text \<open>
  Initialising the tables of a well-formed bus description (with memory available)
  succeeds, and the four lookups then return exactly what the description declares: an object
  or a bus event by its identifier, a method or an event by the identifier of its object and
  its own, and nothing for the invalid identifier 0 or for one that is not declared, in
  particular never the method or event of another object.
\<close>

theorem api_init_lookup:
  assumes "enough m (2 ^ 35)" "wf_bus_desc desc"
  shows "\<exists>api. obus_bus_api_init m desc = Inr api
    \<and> obus_bus_api_object api = declared_object desc
    \<and> obus_bus_api_method api = declared_method desc
    \<and> obus_bus_api_event api = declared_event desc
    \<and> obus_bus_api_bus_event api = declared_bus_event desc"
proof -
  obtain api where "obus_bus_api_init m desc = Inr api" "api_desc api = desc" "api_ok api"
    by (rule api_init_ok [OF assms])
  then show ?thesis using api_ok_lookups by auto
qed

text \<open>A bus with two objects whose methods share an identifier.\<close>

definition tiny_bus :: obus_bus_desc where
  "tiny_bus =
     (let sd = \<lparr>sd_id = 0, sd_size = 0, sfields = []\<rparr>;
          mk = (\<lambda>i u. \<lparr>od_id = i, od_uid = u, info_desc = sd, od_events = [\<lparr>ev_uid = 1, updates = []\<rparr>],
             od_methods = [\<lparr>m_owner = i, m_idx = 0, m_uid = 7, args_desc = None\<rparr>]\<rparr>)
      in \<lparr>bus_name = [], bd_objects = [mk 0 3, mk 1 4], bd_events = [\<lparr>be_uid = 2\<rparr>], crc = 0\<rparr>)"

lemma api_init_lookup_witness:
  "\<exists>api. obus_bus_api_init \<lparr>alloc_ok = \<lambda>_. True, fresh_byte = \<lambda>_. 0\<rparr> tiny_bus = Inr api
    \<and> map_option m_owner (obus_bus_api_method api 4 7) = Some 1
    \<and> obus_bus_api_method api 5 7 = None \<and> obus_bus_api_bus_event api 0 = None"
proof -
  let ?m = "\<lparr>alloc_ok = \<lambda>_. True, fresh_byte = \<lambda>_. 0\<rparr> :: memory"
  have "enough ?m (2 ^ 35)" "wf_bus_desc tiny_bus"
    by (simp_all add: enough_def wf_bus_desc_def tiny_bus_def Let_def)
  then show ?thesis using api_init_lookup [of ?m tiny_bus]
    by (force simp: declared_method_def declared_object_def declared_bus_event_def tiny_bus_def Let_def
        OBUS_INVALID_UID_def)
qed

end
