(* ===== verification/Obus_Object.thy ===== *)
theory Obus_Object
  imports Obus_Struct Obus_Api
begin

text \<open>
  Objects: \<open>obus_object.c\<close>, less what needs the bus (destruction and the lookup of a removed
  object, which are with the bus). An object has a description, a handle, method handlers and
  an information structure. The first part holds the operations, the second the shape that
  objects, events and calls share on the wire: identifiers, a length word and a structure.
\<close>

section \<open>Data and operations\<close>

definition OBUS_INVALID_HANDLE :: u16 where "OBUS_INVALID_HANDLE = 0"

text \<open>
  \<open>o_bus\<close> says that the bus pointer is set, \<open>o_event_node\<close> that the event node is linked in the
  list of a bus event. Method handlers and user data are opaque numbers, 0 is NULL.
\<close>

record obus_object =
  o_bus :: bool
  o_event_node :: bool
  o_desc :: obus_object_desc
  o_handle :: u16
  o_registered :: bool
  o_user_data :: nat
  o_info :: obus_struct
  o_handlers :: "nat list"

definition OBUS_METHOD_NOT_SUPPORTED :: u32 where "OBUS_METHOD_NOT_SUPPORTED = 0"

definition OBUS_METHOD_ENABLED :: u32 where "OBUS_METHOD_ENABLED = 1"

definition OBUS_METHOD_DISABLED :: u32 where "OBUS_METHOD_DISABLED = 2"

definition obus_method_state_is_valid :: "u32 \<Rightarrow> bool" where
  "obus_method_state_is_valid v \<longleftrightarrow>
     v = OBUS_METHOD_ENABLED \<or> v = OBUS_METHOD_NOT_SUPPORTED \<or> v = OBUS_METHOD_DISABLED"

text \<open>The driver of method states has the address 0.\<close>

definition obus_method_state_driver :: obus_enum_driver where
  "obus_method_state_driver = \<lparr>en_id = 0, en_size = 4, default_value = OBUS_METHOD_DISABLED,
     en_is_valid = obus_method_state_is_valid, set_value = ucast, get_value = ucast\<rparr>"

definition sizeof_object :: nat where "sizeof_object = 80"

text \<open>The memory of a structure as \<open>calloc\<close> returns it.\<close>

definition zero_struct :: "obus_struct_desc \<Rightarrow> obus_struct" where
  "zero_struct sd = \<lparr>st_desc = sd, st_cell = (\<lambda>_. Val (Num 0)), st_nb = (\<lambda>_. 0),
     st_bits = replicate ((length (sfields sd) + 31) div 32) 0\<rparr>"

text \<open>
  A new object shares no string with the structure it is initialised from. The handler array
  holds a pointer per method.
\<close>

definition obus_object_new ::
  "memory \<Rightarrow> obus_object_desc \<Rightarrow> nat list option \<Rightarrow> obus_struct option \<Rightarrow> obus_object option" where
  "obus_object_new m desc cbs info =
     (if \<not> (case info of None \<Rightarrow> True | Some st \<Rightarrow> sd_id (st_desc st) = sd_id (info_desc desc)) then None
      else if \<not> alloc_ok m (sizeof_object + length (od_methods desc) * sizeof_ptr + sd_size (info_desc desc)) then None
      else
        let st = obus_struct_init (zero_struct (info_desc desc));
            st = snd (obus_struct_set_has_fields st);
            obj = \<lparr>o_bus = False, o_event_node = False, o_desc = desc, o_handle = OBUS_INVALID_HANDLE,
                   o_registered = False, o_user_data = 0, o_info = st,
                   o_handlers = (case cbs of None \<Rightarrow> replicate (length (od_methods desc)) 0
                                 | Some cs \<Rightarrow> take (length (od_methods desc)) cs)\<rparr>
        in case info of
             None \<Rightarrow> Some obj
           | Some src \<Rightarrow>
               (case obus_struct_merge m (\<lambda>_ _ _. False) st src of
                  (Inl e, _) \<Rightarrow> None
                | (Inr _, st) \<Rightarrow> Some (obj\<lparr>o_info := st\<rparr>)))"

definition obus_object_get_desc :: "obus_object option \<Rightarrow> obus_object_desc option" where
  "obus_object_get_desc obj = map_option o_desc obj"

definition obus_object_is_registered :: "obus_object option \<Rightarrow> bool" where
  "obus_object_is_registered obj = (case obj of None \<Rightarrow> False | Some x \<Rightarrow> o_registered x)"

definition obus_object_get_handle :: "obus_object option \<Rightarrow> u16" where
  "obus_object_get_handle obj = (case obj of None \<Rightarrow> OBUS_INVALID_HANDLE | Some x \<Rightarrow> o_handle x)"

definition obus_object_get_info :: "obus_object option \<Rightarrow> obus_struct option" where
  "obus_object_get_info obj = map_option o_info obj"

definition obus_object_set_user_data :: "obus_object option \<Rightarrow> nat \<Rightarrow> unit res \<times> obus_object option" where
  "obus_object_set_user_data obj data =
     (case obj of None \<Rightarrow> (Inl EINVAL, None) | Some x \<Rightarrow> (Inr (), Some (x\<lparr>o_user_data := data\<rparr>)))"

definition obus_object_get_user_data :: "obus_object option \<Rightarrow> nat" where
  "obus_object_get_user_data obj = (case obj of None \<Rightarrow> 0 | Some x \<Rightarrow> o_user_data x)"

text \<open>
  The difference of the pointers is the index of the description when it belongs to the
  object's array. A description of another array has an index outside it.
\<close>

definition obus_object_get_method_handler :: "obus_object \<Rightarrow> obus_method_desc \<Rightarrow> nat" where
  "obus_object_get_method_handler obj desc =
     (if m_owner desc \<noteq> od_id (o_desc obj) \<or> m_idx desc \<ge> length (od_methods (o_desc obj)) then 0
      else o_handlers obj ! m_idx desc)"

definition obus_object_get_method_state :: "obus_object \<Rightarrow> u16 \<Rightarrow> u32" where
  "obus_object_get_method_state obj uid =
     (case obus_struct_get_field_desc (o_info obj) uid of
        None \<Rightarrow> OBUS_METHOD_DISABLED
      | Some i \<Rightarrow>
          let fdesc = sfields (st_desc (o_info obj)) ! i in
          if frole fdesc \<noteq> OBUS_METHOD then OBUS_METHOD_DISABLED
          else if en_id (enum_drv fdesc) \<noteq> en_id obus_method_state_driver then OBUS_METHOD_DISABLED
          else ucast (get_num (get_item (obus_field_address (o_info obj) fdesc))))"

definition obus_object_remove_encode :: "memory \<Rightarrow> obus_object \<Rightarrow> obus_buffer \<Rightarrow> unit res \<times> obus_buffer" where
  "obus_object_remove_encode m obj buf =
     chk (obus_buffer_append_u16 m buf (od_uid (o_desc obj))) (\<lambda>_ buf.
     chk (obus_buffer_append_u16 m buf (o_handle obj)) (\<lambda>_ buf. (Inr (), buf)))"

text \<open>
  The part that the three encoders share: reserve the length word, encode the structure, then
  write the length of what it took. The result of the last write is ignored.
\<close>

definition encode_sized ::
  "memory \<Rightarrow> (obus_buffer \<Rightarrow> unit res \<times> obus_buffer) \<Rightarrow> obus_buffer \<Rightarrow> unit res \<times> obus_buffer" where
  "encode_sized m encode buf =
     (let offset = blength buf in
      chk (obus_buffer_reserve m buf 4) (\<lambda>_ buf.
      chk (encode buf) (\<lambda>_ buf.
        let len = sz_sub (blength buf) (sz (offset + 4)) in
        (Inr (), snd (obus_buffer_write_u32 m buf (of_nat len) offset)))))"

definition obus_object_add_encode :: "memory \<Rightarrow> obus_object \<Rightarrow> obus_buffer \<Rightarrow> unit res \<times> obus_buffer" where
  "obus_object_add_encode m obj buf =
     chk (obus_buffer_append_u16 m buf (od_uid (o_desc obj))) (\<lambda>_ buf.
     chk (obus_buffer_append_u16 m buf (o_handle obj)) (\<lambda>_ buf.
     encode_sized m (obus_struct_encode m (o_info obj)) buf))"

text \<open>The label \<open>eat_bytes\<close>: go to the announced end, if it is within the buffer.\<close>

definition eat_bytes :: "obus_buffer \<Rightarrow> nat \<Rightarrow> obus_buffer" where
  "eat_bytes buf end_pos = snd (obus_buffer_set_read_position buf end_pos)"

text \<open>
  The result is NULL (\<open>Inr None\<close>) or a new object. An object that could not be decoded is
  destroyed: it is on no bus and in no list, so only its structure is to be destroyed.
\<close>

definition obus_object_add_decode ::
  "memory \<Rightarrow> obus_bus_api \<Rightarrow> obus_buffer \<Rightarrow> obus_object option res \<times> obus_buffer" where
  "obus_object_add_decode m api buf =
     (case obus_buffer_read_u16 buf of (Inl _, buf) \<Rightarrow> (Inr None, buf) | (Inr uid, buf) \<Rightarrow>
     (case obus_buffer_read_u16 buf of (Inl _, buf) \<Rightarrow> (Inr None, buf) | (Inr handle, buf) \<Rightarrow>
     (case obus_buffer_read_u32 buf of (Inl _, buf) \<Rightarrow> (Inr None, buf) | (Inr n, buf) \<Rightarrow>
       let end_pos = sz (bpos buf + unat n) in
       if uid = OBUS_INVALID_UID then (Inr None, eat_bytes buf end_pos)
       else if handle = OBUS_INVALID_HANDLE then (Inr None, eat_bytes buf end_pos)
       else (case obus_bus_api_object api uid of
          None \<Rightarrow> (Inr None, eat_bytes buf end_pos)
        | Some desc \<Rightarrow>
       (case obus_object_new m desc None None of
          None \<Rightarrow> (Inr None, eat_bytes buf end_pos)
        | Some obj \<Rightarrow>
            let obj = obj\<lparr>o_handle := handle\<rparr> in
            (case obus_struct_decode m (o_info obj) buf of
               (Inl _, st, buf) \<Rightarrow>
                 (map_sum id (\<lambda>_. None) (obus_struct_destroy st), eat_bytes buf end_pos)
             | (Inr _, st, buf) \<Rightarrow>
                 (Inr (Some (obj\<lparr>o_info := st\<rparr>)),
                  if bpos buf \<noteq> end_pos then eat_bytes buf end_pos else buf)))))))"

section \<open>Sized frames\<close>

definition sized :: "u8 list \<Rightarrow> u8 list" where
  "sized body = be32 (of_nat (length body)) @ body"

lemma length_sized [simp]: "length (sized body) = 4 + length body"
  by (simp add: sized_def)

lemma reserve_ok:
  assumes "buf_ok b" "enough m (blength b + n)"
  obtains b' zs where "obus_buffer_reserve m b n = (Inr (), b')" "appended b b' zs" "length zs = n"
proof -
  have sz: "sz (blength b + n) = blength b + n" using enough_limit [OF assms(2)] by simp
  from ensure_realloc_ok [OF assms] obtain b1 where
    b1: "obus_buffer_ensure_realloc m b (blength b + n) = (Inr (), b1)" "appended b b1 []"
      "blength b1 = blength b" "blength b + n \<le> bsize b1" by blast
  note ok = buf_okD [OF appended_ok [OF b1(2)]]
  let ?b = "b1\<lparr>blength := blength b + n\<rparr>" and ?z = "take n (drop (blength b) (bdata b1))"
  have "content ?b = content b1 @ ?z" using b1(3) by (simp add: content_def take_add)
  then have "appended b ?b ?z" using b1 ok by (simp add: appended_def buf_ok_def)
  then show thesis using that b1 ok sz by (simp add: obus_buffer_reserve_def)
qed

text \<open>Writing over bytes that are already there.\<close>

lemma overwrite_u32:
  assumes "buf_ok b" "content b = xs @ zs @ ys" "length zs = 4"
  obtains b' where "obus_buffer_write_u32 m b v (length xs) = (Inr (), b')" "buf_ok b'"
    "content b' = xs @ be32 v @ ys" "bpos b' = bpos b" "brefcnt b' = brefcnt b" "bpool b' = bpool b"
proof -
  note ok = buf_okD [OF assms(1)]
  have l: "blength b = length xs + 4 + length ys" using length_content [OF assms(1)] assms(2,3) by simp
  have sz: "sz (length xs + 4) = length xs + 4" using l ok by simp
  let ?d = "poke (bdata b) (length xs) (be32 v)"
  have d: "?d = take (length xs) (bdata b) @ be32 v @ drop (length xs + 4) (bdata b)"
    using poke_eq [of "length xs" "be32 v" "bdata b"] l ok by simp
  have "content (b\<lparr>bdata := ?d\<rparr>) = take (length xs) (content b) @ be32 v @ drop (length xs + 4) (content b)"
    using l ok unfolding content_def by (simp add: d min_def drop_take)
  then have "content (b\<lparr>bdata := ?d\<rparr>) = xs @ be32 v @ ys" using assms(2,3) by simp
  moreover have "buf_ok (b\<lparr>bdata := ?d\<rparr>)" using assms(1) by (simp add: buf_ok_def)
  moreover have "obus_buffer_write_u32 m b v (length xs) = (Inr (), b\<lparr>bdata := ?d\<rparr>)"
    using sz l ok by (simp add: obus_buffer_write_u32_def obus_buffer_ensure_realloc_def)
  ultimately show thesis using that by simp
qed

lemma encode_sized_ok:
  assumes "appended b0 b xs" "buf_ok b0"
    "\<And>b. buf_ok b \<Longrightarrow> enough m (blength b + length body) \<Longrightarrow> \<exists>b'. encode b = (Inr (), b') \<and> appended b b' body"
    "enough m (blength b0 + length xs + 4 + length body)"
  obtains b' where "encode_sized m encode b = (Inr (), b')" "appended b0 b' (xs @ sized body)"
proof -
  have l: "blength b = blength b0 + length xs" using appended_blength [OF assms(1,2)] .
  have ok: "buf_ok b" using appended_ok [OF assms(1)] .
  have "enough m (blength b + 4)" by (rule enough_mono [OF assms(4)]) (simp add: l)
  with reserve_ok [OF ok] obtain b1 zs where
    b1: "obus_buffer_reserve m b 4 = (Inr (), b1)" "appended b b1 zs" "length zs = 4" by blast
  have l1: "blength b1 = blength b + 4" using appended_blength [OF b1(2) ok] b1(3) by simp
  with assms(3) [OF appended_ok [OF b1(2)]] assms(4) l obtain b2 where
    b2: "encode b1 = (Inr (), b2)" "appended b1 b2 body" by auto
  have l2: "blength b2 = blength b + 4 + length body"
    using appended_blength [OF b2(2) appended_ok [OF b1(2)]] l1 by simp
  have c2: "content b2 = content b @ zs @ body" using b1(2) b2(2) by (simp add: appended_def)
  have "sz_sub (blength b2) (sz (blength b + 4)) = length body"
    using l2 buf_okD [OF appended_ok [OF b2(2)]] by simp
  moreover obtain b3 where b3: "obus_buffer_write_u32 m b2 (of_nat (length body)) (blength b) = (Inr (), b3)"
      "buf_ok b3" "content b3 = content b @ be32 (of_nat (length body)) @ body"
      "bpos b3 = bpos b2" "brefcnt b3 = brefcnt b2" "bpool b3 = bpool b2"
    using overwrite_u32 [OF appended_ok [OF b2(2)] c2 b1(3)] ok by (metis length_content)
  moreover have "appended b0 b3 (xs @ sized body)"
    using b3(2-6) assms(1) b1(2) b2(2) by (simp add: appended_def sized_def)
  ultimately show thesis using that b1(1) b2(1) by (simp add: encode_sized_def Let_def)
qed

text \<open>Skipping a body of the announced length.\<close>

lemma eat_bytes_ok:
  assumes "reads_at b p (body @ rest)" "k \<le> length body" "bpos b + p \<le> blength b"
  shows "eat_bytes (advance b (p + k)) (bpos b + p + length body) = advance b (p + length body)"
proof -
  have "bpos b + p + length body \<le> blength b"
    using unread_prefix(1) [of "advance b p" body rest] assms by (cases "body = []") (auto simp: reads_at_def)
  then show ?thesis
    by (simp add: eat_bytes_def obus_buffer_set_read_position_def advance_def)
qed

section \<open>Decoding only moves the read position\<close>

text \<open>
  What a relation between a buffer before and after needs so that it holds for a decoder of whatever structure: it
  holds for the operations on the read position, and in sequence.
\<close>

locale reading =
  fixes moves :: "obus_buffer \<Rightarrow> obus_buffer \<Rightarrow> bool"
  assumes moves_refl [simp, intro]: "moves b b"
    and moves_trans [trans]: "moves a b \<Longrightarrow> moves b c \<Longrightarrow> moves a c"
    and moves_u8: "moves b (snd (obus_buffer_read_u8 b))" and moves_u16: "moves b (snd (obus_buffer_read_u16 b))"
    and moves_u32: "moves b (snd (obus_buffer_read_u32 b))" and moves_u64: "moves b (snd (obus_buffer_read_u64 b))"
    and moves_dup: "moves b (snd (obus_buffer_dup m b n))" and moves_set: "moves b (snd (obus_buffer_set_read_position b n))"
    and moves_inc: "moves b (snd (obus_buffer_inc_read_position b n))"
begin

lemma moves_floats: "moves b (snd (obus_buffer_read_f32 b))" "moves b (snd (obus_buffer_read_f64 b))" "moves b (eat_bytes b n)"
  using moves_u32 [of b] moves_u64 [of b] moves_set [of b n]
  by (simp_all add: obus_buffer_read_f32_def obus_buffer_read_f64_def eat_bytes_def)

lemmas moves_read = moves_u8 moves_u16 moves_u32 moves_u64 moves_floats(1,2) moves_dup moves_set moves_inc moves_floats(3)


lemma moves_eq:
  "obus_buffer_read_u8 b = (r8, b') \<Longrightarrow> moves b b'" "obus_buffer_read_u16 b = (r16, b') \<Longrightarrow> moves b b'"
  "obus_buffer_read_u32 b = (r32, b') \<Longrightarrow> moves b b'" "obus_buffer_dup m b n = (rd, b') \<Longrightarrow> moves b b'"
  using moves_read [of b] by (metis snd_conv)+

lemma moves_string: "moves b (snd (snd (obus_buffer_read_string m b)))"
  by (auto simp: obus_buffer_read_string_def split: prod.splits sum.splits dest!: moves_eq intro: moves_trans)

lemma moves_store: "moves b (snd r) \<Longrightarrow> moves b (snd (snd (store_read old f r)))"
  by (auto simp: store_read_def split: prod.splits sum.splits)

lemma moves_value: "moves b (snd (snd (obus_decode_value m d old b)))"
  using moves_string [of b m]
  by (auto simp: obus_decode_value_def intro!: moves_store moves_read
      split: option.splits obus_field_type.splits prod.splits)

lemma moves_skip_value: "moves b (obus_field_skip_value ty b)"
  unfolding obus_field_skip_value_def Let_def
  by (auto intro!: moves_read dest!: moves_eq intro: moves_trans [OF _ moves_read(9)]
      split: option.splits obus_field_type.splits prod.splits sum.splits)

lemma moves_iterate: "moves b ((obus_field_skip_value ty ^^ n) b)"
  by (induction n) (auto intro: moves_trans moves_skip_value)

lemma moves_skip: "moves b (skip_field ty b)"
  by (auto simp: skip_field_def obus_field_array_skip_value_def intro!: moves_skip_value
      dest!: moves_eq intro: moves_trans [OF _ moves_iterate] split: prod.splits sum.splits)

lemma moves_items: "moves b (snd (snd (decode_items m d arr i n b)))"
proof (induction m d arr i n b rule: decode_items.induct)
  case (2 m d arr i n b)
  show ?case
  proof (cases "obus_field_array_item d (Some arr) i")
    case (Some a)
    note a = this
    show ?thesis
    proof (cases "deref (Some arr) a")
      case (Some old)
      obtain r v b1 where v: "obus_decode_value m d old b = (r, v, b1)" by (cases "obus_decode_value m d old b") auto
      have "moves b b1" using moves_value [of b m d old] v by simp
      then show ?thesis using 2 [OF a Some v [symmetric]] a Some v moves_trans by (cases r) auto
    qed (simp add: a)
  qed simp
qed simp

lemma moves_array: "moves b (snd (snd (obus_field_array_decode m st d b)))"
proof -
  obtain r b1 where r: "obus_buffer_read_u32 b = (r, b1)" by fastforce
  then have p: "moves b b1" by (rule moves_eq)
  show ?thesis
  proof (cases r)
    case (Inr n)
    have "moves b (snd (snd (decode_items m d arr 0 (unat n) b1)))" for arr
      by (rule moves_trans [OF p moves_items])
    then show ?thesis using r p Inr
      by (auto simp: obus_field_array_decode_def Let_def split: option.splits prod.splits sum.splits)
        (metis snd_conv)+
  qed (use r p in \<open>simp add: obus_field_array_decode_def\<close>)
qed

lemma moves_field: "moves b (snd (snd (obus_field_decode m st b)))"
proof -
  obtain r b1 where r: "obus_buffer_read_u16 b = (r, b1)" by fastforce
  obtain t b2 where t: "obus_buffer_read_u8 b1 = (t, b2)" by fastforce
  have p: "moves b b1" "moves b b2" using moves_eq(2) [OF r] moves_eq(1) [OF t] moves_trans by blast+
  have sk: "moves b (skip_field ty b2)" for ty by (rule moves_trans [OF p(2) moves_skip])
  have bk: "moves b (skip_field ty (snd (obus_buffer_set_read_position b3 q)))" if "moves b b3" for b3 ty q
    by (rule moves_trans [OF that moves_trans [OF moves_read(8) moves_skip]])
  have "moves b b3" if "obus_field_array_decode m st d b2 = (r3, s3, b3)" for d r3 s3 b3
    using moves_trans [OF p(2) moves_array [of b2 m st d]] that by simp
  moreover have "moves b b3" if "obus_decode_value m d old b2 = (r3, s3, b3)" for d old r3 s3 b3
    using moves_trans [OF p(2) moves_value [of b2 m d old]] that by simp
  ultimately show ?thesis using r t p sk bk
    by (cases r; cases t)
      (auto simp: obus_field_decode_def Let_def split: option.splits prod.splits sum.splits if_splits)
qed

lemma moves_fields: "moves b (snd (decode_fields m n st b))"
proof (induction n arbitrary: st b)
  case (Suc n)
  obtain i st1 b1 where d: "obus_field_decode m st b = (i, st1, b1)" by (cases "obus_field_decode m st b") auto
  then have "moves b b1" using moves_field [of b m st] by simp
  then have "moves b (snd (decode_fields m n s b1))" for s by (rule moves_trans) (rule Suc.IH)
  then show ?case using d by (cases i) simp_all
qed simp

lemma moves_struct: "moves b (snd (snd (obus_struct_decode m st b)))"
proof -
  obtain r b1 where r: "obus_buffer_read_u16 b = (r, b1)" by fastforce
  have p: "moves b b1" using moves_eq(2) [OF r] .
  have "moves b (snd (decode_fields m n s b1))" for n s by (rule moves_trans [OF p moves_fields])
  then show ?thesis using r p
    by (auto simp: obus_struct_decode_def split: prod.splits sum.splits)
qed

end

definition pos_only :: "obus_buffer \<Rightarrow> obus_buffer \<Rightarrow> bool" where
  "pos_only b b' \<longleftrightarrow> (\<exists>p. b' = b\<lparr>bpos := p\<rparr>)"

lemma bpos_same: "\<exists>p. b = b\<lparr>bpos := p\<rparr>"
  by (rule exI [of _ "bpos b"]) simp

lemma pos_only_refl [simp, intro]: "pos_only b b"
  unfolding pos_only_def by (rule bpos_same)

interpretation po: reading pos_only
  by unfold_locales
    (auto simp: pos_only_def obus_buffer_read_u8_def obus_buffer_read_u16_def obus_buffer_read_u32_def
      obus_buffer_read_u64_def obus_buffer_dup_def Let_def obus_buffer_set_read_position_def obus_buffer_inc_read_position_def
      bpos_same split: option.splits)

text \<open>Decoders also keep the read position inside the block.\<close>

definition stays_ok :: "obus_buffer \<Rightarrow> obus_buffer \<Rightarrow> bool" where
  "stays_ok b b' \<longleftrightarrow> (buf_ok b \<longrightarrow> buf_ok b')"

interpretation ok: reading stays_ok
  by unfold_locales (simp_all add: stays_ok_def read_ok_inv dup_ok_inv position_ok_inv)

text \<open>A position inside the buffer can always be gone to.\<close>

lemma eat_bytes_back:
  assumes "pos_only b b'" "p \<le> blength b"
  shows "eat_bytes b' p = b\<lparr>bpos := p\<rparr>" "bpos b' = p \<Longrightarrow> b' = b\<lparr>bpos := p\<rparr>"
  using assms by (auto simp: pos_only_def eat_bytes_def obus_buffer_set_read_position_def)

section \<open>Reading a frame\<close>

lemma read_u16_at:
  assumes "reads_at b p (be16 v @ rest)"
  shows "q = p + 2 \<Longrightarrow> obus_buffer_read_u16 (advance b p) = (Inr v, advance b q)" "q = p + 2 \<Longrightarrow> reads_at b q rest"
  using w16.rd_then [OF assms, of full_memory] by (simp_all add: reader_defs)

lemma read_u32_at:
  assumes "reads_at b p (be32 v @ rest)"
  shows "obus_buffer_read_u32 (advance b p) = (Inr v, advance b (p + 4))" "reads_at b (p + 4) rest"
  using w32.rd_then [OF assms, of full_memory] by (simp_all add: reader_defs)

lemma read_u8_at:
  assumes "reads_at b p (v # rest)"
  shows "obus_buffer_read_u8 (advance b p) = (Inr v, advance b (p + 1))" "reads_at b (p + 1) rest"
  using w8.rd_then [of b p v rest full_memory] assms by (simp_all add: reader_defs)

text \<open>
  A length word and the bytes it announces: the word is read, the announced end lies within the
  buffer, and from any read position going there leaves exactly what follows the frame.
\<close>

lemma frame_at:
  assumes "reads_at b p (sized body @ rest)" "length body < 2 ^ 32" "q = p + 4"
  shows "obus_buffer_read_u32 (advance b p) = (Inr (of_nat (length body)), advance b q)"
    "sz (bpos (advance b q) + unat (of_nat (length body) :: u32)) = bpos b + (q + length body)"
    "reads_at b q (body @ rest)" "reads_at b (q + length body) rest"
    "pos_only (advance b q) b' \<Longrightarrow> eat_bytes b' (bpos b + (q + length body)) = advance b (q + length body)"
    "pos_only (advance b q) b' \<Longrightarrow> bpos b' = bpos b + (q + length body) \<Longrightarrow> b' = advance b (q + length body)"
proof -
  have r: "reads_at b p (be32 (of_nat (length body)) @ body @ rest)" using assms(1) by (simp add: sized_def)
  show "obus_buffer_read_u32 (advance b p) = (Inr (of_nat (length body)), advance b q)"
    "reads_at b q (body @ rest)" using read_u32_at [OF r] assms(3) by simp_all
  then show "reads_at b (q + length body) rest" using reads_at_step by blast
  have u: "unat (of_nat (length body) :: u32) = length body" using assms(2) by (simp add: unat_of_nat)
  have ok: "buf_ok (advance b p)" "unread (advance b p) = (be32 (of_nat (length body)) @ body) @ rest"
    using r by (simp_all add: reads_at_def)
  have e: "bpos b + (q + length body) \<le> blength b" using unread_prefix(1) [OF ok] assms(3) by simp
  then show "sz (bpos (advance b q) + unat (of_nat (length body) :: u32)) = bpos b + (q + length body)"
    using u buf_okD [OF ok(1)] by simp
  show "pos_only (advance b q) b' \<Longrightarrow> eat_bytes b' (bpos b + (q + length body)) = advance b (q + length body)"
    "pos_only (advance b q) b' \<Longrightarrow> bpos b' = bpos b + (q + length body) \<Longrightarrow> b' = advance b (q + length body)"
    using eat_bytes_back [of "advance b q" b' "bpos b + (q + length body)"] e by (simp_all add: advance_def)
qed

lemma encode_sized_struct:
  assumes "appended b0 b xs" "buf_ok b0" "struct_ok st"
    "enough m (blength b0 + length xs + 4 + length (wire_struct (struct_entries st)))"
  obtains b' where "encode_sized m (obus_struct_encode m st) b = (Inr (), b')"
    "appended b0 b' (xs @ sized (wire_struct (struct_entries st)))"
  by (rule encode_sized_ok [OF assms(1,2) _ assms(4)]) (use struct_encode_ok [OF assms(3)] in blast)+

section \<open>New objects\<close>

lemma field_init_keeps:
  "st_desc (obus_field_init st d) = st_desc st" "st_bits (obus_field_init st d) = st_bits st"
  by (auto simp: obus_field_init_def set_cell_def set_nb_def split: option.splits)

lemma init_fold_keeps:
  "st_desc (foldl obus_field_init st ds) = st_desc st" "st_bits (foldl obus_field_init st ds) = st_bits st"
  by (induction ds arbitrary: st) (simp_all add: field_init_keeps)

lemma zero_bits_ok: "bits_ok (zero_struct sd)"
  by (simp add: bits_ok_def zero_struct_def)

lemma struct_init_keeps:
  assumes "bits_ok st"
  shows "st_desc (obus_struct_init st) = st_desc st" "bits_ok (obus_struct_init st)"
    "\<not> obus_struct_has_field (obus_struct_init st) i"
proof -
  let ?st = "foldl obus_field_init st (sfields (st_desc st))"
  have b: "bits_ok ?st" using assms by (simp add: bits_ok_def init_fold_keeps)
  obtain st' where "obus_struct_clear_has_fields ?st = (Inr (), st')" "bits_ok st'" "same_fields ?st st'"
    "\<And>i. \<not> obus_struct_has_field st' i" using clear_fields_ok [OF b] by blast
  then show "st_desc (obus_struct_init st) = st_desc st" "bits_ok (obus_struct_init st)"
    "\<not> obus_struct_has_field (obus_struct_init st) i"
    by (simp_all add: obus_struct_init_def same_fields_def init_fold_keeps)
qed

lemma set_fields_ok:
  assumes "bits_ok st"
  obtains st' where "obus_struct_set_has_fields st = (Inr (), st')" "bits_ok st'" "same_fields st st'"
    "\<And>i. obus_struct_has_field st' i \<longleftrightarrow> i < length (sfields (st_desc st))"
proof -
  let ?f = "\<lambda>s i. snd (obus_struct_set_has_field s i)"
  let ?st = "foldl ?f st (field_indices st)"
  have "obus_struct_set_has_fields st = (Inr (), ?st)"
    unfolding obus_struct_set_has_fields_def
    by (rule or_loop_Inr [where P = "\<lambda>s. st_desc s = st_desc st"])
      (auto simp: obus_struct_set_has_field_def field_indices_def)
  moreover have "obus_struct_has_field ?st i \<longleftrightarrow> i < length (sfields (st_desc st))" for i
    using fb.set_all [OF assms, of "field_indices st" i] fb.has_bound [of st i]
    by (auto simp: field_indices_def)
  ultimately show thesis
    using that fb.set_all [OF assms] same_fields_foldl [of ?f, OF same_fields_set] by blast
qed

definition object_size :: "obus_object_desc \<Rightarrow> nat" where
  "object_size desc = sizeof_object + length (od_methods desc) * sizeof_ptr + sd_size (info_desc desc)"

lemma object_new_ok:
  assumes "alloc_ok m (object_size desc)"
  obtains obj where "obus_object_new m desc None None = Some obj" "o_desc obj = desc"
    "o_handle obj = OBUS_INVALID_HANDLE" "\<not> o_registered obj" "\<not> o_bus obj" "\<not> o_event_node obj"
    "st_desc (o_info obj) = info_desc desc" "bits_ok (o_info obj)"
    "\<And>i. obus_struct_has_field (o_info obj) i \<longleftrightarrow> i < length (sfields (info_desc desc))"
proof -
  let ?st = "obus_struct_init (zero_struct (info_desc desc))"
  note i = struct_init_keeps [OF zero_bits_ok [of "info_desc desc"]]
  obtain st' where st': "obus_struct_set_has_fields ?st = (Inr (), st')" "bits_ok st'" "same_fields ?st st'"
    "\<And>i. obus_struct_has_field st' i \<longleftrightarrow> i < length (sfields (st_desc ?st))"
    using set_fields_ok [OF i(2)] by blast
  have "st_desc ?st = info_desc desc" using i(1) by (simp add: zero_struct_def)
  then show thesis using st' assms that
    by (simp add: obus_object_new_def Let_def object_size_def same_fields_def)
qed

section \<open>Properties of objects\<close>

definition wire_object :: "u16 \<Rightarrow> u16 \<Rightarrow> u8 list \<Rightarrow> u8 list" where
  "wire_object uid handle body = be16 uid @ be16 handle @ sized body"

lemma object_add_encode_ok:
  assumes "struct_ok (o_info obj)" "appended b0 b xs" "buf_ok b0"
    "enough m (blength b0 + length xs + 8 + length (wire_struct (struct_entries (o_info obj))))"
  obtains b' where "obus_object_add_encode m obj b = (Inr (), b')"
    "appended b0 b' (xs @ wire_object (od_uid (o_desc obj)) (o_handle obj) (wire_struct (struct_entries (o_info obj))))"
proof -
  let ?w = "wire_struct (struct_entries (o_info obj))"
  have en: "enough m (blength b0 + length xs + 2)" "enough m (blength b0 + length (xs @ be16 (od_uid (o_desc obj))) + 2)"
    by (rule enough_mono [OF assms(4)], simp)+
  obtain b1 where b1: "obus_buffer_append_u16 m b (od_uid (o_desc obj)) = (Inr (), b1)"
      "appended b0 b1 (xs @ be16 (od_uid (o_desc obj)))"
    using w16.wr_then [OF assms(2,3)] en(1) by auto
  obtain b2 where b2: "obus_buffer_append_u16 m b1 (o_handle obj) = (Inr (), b2)"
      "appended b0 b2 ((xs @ be16 (od_uid (o_desc obj))) @ be16 (o_handle obj))"
    using w16.wr_then [OF b1(2) assms(3)] en(2) by auto
  have "enough m (blength b0 + length ((xs @ be16 (od_uid (o_desc obj))) @ be16 (o_handle obj)) + 4 + length ?w)"
    by (rule enough_mono [OF assms(4)]) simp
  then obtain b3 where "encode_sized m (obus_struct_encode m (o_info obj)) b2 = (Inr (), b3)"
      "appended b0 b3 (((xs @ be16 (od_uid (o_desc obj))) @ be16 (o_handle obj)) @ sized ?w)"
    by (rule encode_sized_struct [OF b2(2) assms(3,1)])
  then show thesis using that b1(1) b2(1) by (simp add: obus_object_add_encode_def wire_object_def)
qed

text \<open>What the decoder does with a frame around any bytes.\<close>

lemma object_add_decode_frame:
  assumes "reads_at b p (wire_object uid handle body @ rest)" "length body < 2 ^ 32"
  shows "obus_object_add_decode m api (advance b p) =
    (if uid = OBUS_INVALID_UID \<or> handle = OBUS_INVALID_HANDLE then Inr None
     else case obus_bus_api_object api uid of
       None \<Rightarrow> Inr None
     | Some desc \<Rightarrow> (case obus_object_new m desc None None of
         None \<Rightarrow> Inr None
       | Some obj \<Rightarrow> (case obus_struct_decode m (o_info obj) (advance b (p + 8)) of
           (Inl _, st, _) \<Rightarrow> map_sum id (\<lambda>_. None) (obus_struct_destroy st)
         | (Inr _, st, _) \<Rightarrow> Inr (Some (obj\<lparr>o_handle := handle, o_info := st\<rparr>)))),
     advance b (p + 8 + length body))"
proof -
  have r: "reads_at b p (be16 uid @ be16 handle @ sized body @ rest)" using assms(1) by (simp add: wire_object_def)
  note r1 = read_u16_at [OF r, of "p + 2", OF refl]
  note r2 = read_u16_at [OF r1(2), of "p + 4", simplified]
  note f = frame_at [OF r2(2) assms(2), of "p + 8", simplified]
  have s: "pos_only (advance b (p + 8)) b'" if "obus_struct_decode m st (advance b (p + 8)) = (x, st', b')" for st x st' b'
    using po.moves_struct [of "advance b (p + 8)" m st] that by simp
  show ?thesis
    using r1(1) r2(1) f(1,2) f(5) [OF pos_only_refl]
    by (auto simp: obus_object_add_decode_def Let_def split: option.splits prod.splits sum.splits
        dest!: s intro: f(5,6))
qed

text \<open>
  The frame of an object survives any content. Whatever bytes a peer puts in the frame of
  an object, \<open>obus_object_add_decode\<close> only moves the read position, and moves it exactly behind
  the frame, so what follows is decoded undisturbed; and an object with an invalid or unknown
  identifier or without a handle is skipped.
\<close>

theorem object_add_decode_framing:
  assumes "buf_ok b" "unread b = wire_object uid handle body @ rest" "length body < 2 ^ 32"
  shows "\<exists>b'. snd (obus_object_add_decode m api b) = b' \<and> buf_ok b' \<and> unread b' = rest \<and> content b' = content b
    \<and> (uid = OBUS_INVALID_UID \<or> handle = OBUS_INVALID_HANDLE \<or> obus_bus_api_object api uid = None \<longrightarrow>
         fst (obus_object_add_decode m api b) = Inr None)"
proof -
  have r: "reads_at b 0 (wire_object uid handle body @ rest)" using assms(1,2) by simp
  have "8 + length body = length (wire_object uid handle body)" by (simp add: wire_object_def)
  then show ?thesis
    using object_add_decode_frame [OF r assms(3), of m api] unread_prefix(3,4) [OF assms(1,2)]
    by (auto split: option.splits)
qed

text \<open>The decoder on the image of a structure the description knows.\<close>

lemma object_add_decode_ok:
  assumes "reads_at b p (wire_object (od_uid desc) handle (wire_struct (struct_entries st)) @ rest)"
    "length (wire_struct (struct_entries st)) < 2 ^ 32" "od_uid desc \<noteq> OBUS_INVALID_UID" "handle \<noteq> OBUS_INVALID_HANDLE"
    "obus_bus_api_object api (od_uid desc) = Some desc" "struct_ok st" "st_desc st = info_desc desc"
    "alloc_ok m (object_size desc)" "enough m (entries_need (struct_entries st))"
  obtains obj st0 where "obus_object_add_decode m api (advance b p) =
      (Inr (Some obj), advance b (p + 8 + length (wire_struct (struct_entries st))))"
    "o_desc obj = desc" "o_handle obj = handle" "\<not> o_registered obj" "\<not> o_bus obj" "\<not> o_event_node obj"
    "st_desc (o_info obj) = info_desc desc" "bits_ok (o_info obj)" "received st st0 (o_info obj)"
proof -
  let ?w = "wire_struct (struct_entries st)"
  obtain obj where obj: "obus_object_new m desc None None = Some obj" "o_desc obj = desc" "\<not> o_registered obj"
    "\<not> o_bus obj" "\<not> o_event_node obj" "st_desc (o_info obj) = info_desc desc" "bits_ok (o_info obj)"
    by (rule object_new_ok [OF assms(8)])
  have "reads_at b (p + 8) (?w @ rest)"
    using reads_at_step [of b p "be16 (od_uid desc) @ be16 handle @ be32 (of_nat (length ?w))" "?w @ rest"] assms(1)
    by (simp add: wire_object_def sized_def)
  then obtain st' where "obus_struct_decode m (o_info obj) (advance b (p + 8)) =
      (Inr (), st', advance (advance b (p + 8)) (length ?w))"
    "st_desc st' = st_desc st" "bits_ok st'" "received st (o_info obj) st'"
    using struct_decode_same [OF assms(6), of "o_info obj" "advance b (p + 8)" rest m] assms(7,9) obj(6,7)
    unfolding reads_at_def by metis
  then show thesis
    using that [of "obj\<lparr>o_handle := handle, o_info := st'\<rparr>" "o_info obj"]
      object_add_decode_frame [OF assms(1,2), of m api] assms(3,4,5,7) obj by simp
qed

text \<open>
  Round trip of objects. An object of a bus known to both sides, encoded by
  \<open>obus_object_add_encode\<close> and decoded by \<open>obus_object_add_decode\<close>, gives an object that is not
  registered yet and has the same description, the same handle and, for every field marked in
  the sent object, its values (and no other field marked). The buffer is read to its end.
\<close>

theorem object_add_roundtrip:
  assumes "struct_ok (o_info obj)" "st_desc (o_info obj) = info_desc (o_desc obj)"
    "od_uid (o_desc obj) \<noteq> OBUS_INVALID_UID" "o_handle obj \<noteq> OBUS_INVALID_HANDLE"
    "obus_bus_api_object api (od_uid (o_desc obj)) = Some (o_desc obj)"
    "length (wire_struct (struct_entries (o_info obj))) < 2 ^ 32" "buf_ok b" "bpos b = blength b"
    "enough m (blength b + 8 + length (wire_struct (struct_entries (o_info obj))))"
    "enough m (entries_need (struct_entries (o_info obj)))" "alloc_ok m (object_size (o_desc obj))"
  shows "\<exists>b' obj' b''. obus_object_add_encode m obj b = (Inr (), b')
    \<and> obus_object_add_decode m api b' = (Inr (Some obj'), b'') \<and> unread b'' = []
    \<and> o_desc obj' = o_desc obj \<and> o_handle obj' = o_handle obj \<and> \<not> o_registered obj'
    \<and> (\<forall>i<length (sfields (info_desc (o_desc obj))). let d = sfields (info_desc (o_desc obj)) ! i in
         obus_struct_has_field (o_info obj') i = obus_struct_has_field (o_info obj) i
         \<and> (obus_struct_has_field (o_info obj) i \<longrightarrow>
              field_values (o_info obj') d = map (norm_item d) (field_values (o_info obj) d)))"
proof -
  let ?w = "wire_struct (struct_entries (o_info obj))"
  let ?o = "wire_object (od_uid (o_desc obj)) (o_handle obj) ?w"
  obtain b' where b': "obus_object_add_encode m obj b = (Inr (), b')" "appended b b' ([] @ ?o)"
    by (rule object_add_encode_ok [OF assms(1), of b b "[]" m]) (use assms(7,9) in simp_all)
  note ok = appended_ok [OF b'(2)]
  have u: "unread b' = ?o @ []"
    using appended_unread [OF b'(2) _ assms(7)] assms(7,8) by (simp add: unread_def)
  then have "reads_at b' 0 (?o @ [])" using ok by simp
  then obtain obj' st0 where d: "obus_object_add_decode m api (advance b' 0) = (Inr (Some obj'), advance b' (0 + 8 + length ?w))"
    "o_desc obj' = o_desc obj" "o_handle obj' = o_handle obj" "\<not> o_registered obj'"
    "received (o_info obj) st0 (o_info obj')"
    by (rule object_add_decode_ok [OF _ assms(6,3,4,5,1,2,11,10)]) (rule that)
  have "8 + length ?w = length ?o" by (simp add: wire_object_def)
  then have "unread (advance b' (8 + length ?w)) = []" using unread_prefix(3) [OF ok u] by simp
  then show ?thesis using b'(1) d assms(2) by (auto simp: received_def Let_def)
qed

section \<open>An example bus\<close>

definition sample_method :: obus_method_desc where
  "sample_method = \<lparr>m_owner = 0, m_idx = 0, m_uid = 7, args_desc = Some sample_desc\<rparr>"

definition sample_event :: obus_event_desc where
  "sample_event = \<lparr>ev_uid = 5, updates = [\<lparr>upd_field = 0, upd_flags = 0\<rparr>]\<rparr>"

definition sample_od :: obus_object_desc where
  "sample_od = \<lparr>od_id = 0, od_uid = 3, info_desc = sample_desc, od_events = [sample_event], od_methods = [sample_method]\<rparr>"

definition sample_bus :: obus_bus_desc where
  "sample_bus = \<lparr>bus_name = [98, 117, 115], bd_objects = [sample_od], bd_events = [\<lparr>be_uid = 2\<rparr>], crc = 4711\<rparr>"

definition sample_object :: obus_object where
  "sample_object = \<lparr>o_bus = False, o_event_node = False, o_desc = sample_od, o_handle = 17, o_registered = False,
     o_user_data = 0, o_info = sample_struct, o_handlers = [1]\<rparr>"

lemmas sample_bus_defs = sample_method_def sample_event_def sample_od_def sample_bus_def sample_object_def

lemma sample_api:
  obtains api where "obus_bus_api_init full_memory sample_bus = Inr api" "api_ok api"
    "obus_bus_api_object api 3 = Some sample_od" "obus_bus_api_method api 3 7 = Some sample_method"
    "obus_bus_api_event api 3 5 = Some sample_event" "obus_bus_api_bus_event api 2 = Some \<lparr>be_uid = 2\<rparr>"
proof -
  have "enough full_memory (2 ^ 35)" "wf_bus_desc sample_bus"
    by (simp_all add: wf_bus_desc_def sample_bus_def sample_od_def)
  then obtain api where api: "obus_bus_api_init full_memory sample_bus = Inr api" "api_desc api = sample_bus" "api_ok api"
    by (rule api_init_ok)
  show thesis
    by (rule that [OF api(1,3)])
      (simp_all add: api_ok_lookups [OF api(3)] api(2) declared_object_def declared_method_def declared_event_def
        declared_bus_event_def OBUS_INVALID_UID_def sample_bus_defs)
qed

lemma object_add_decode_framing_witness:
  "\<exists>api b'. snd (obus_object_add_decode full_memory api (buffer_of (wire_object 9 17 [1, 2, 3] @ [42]))) = b' \<and> unread b' = [42]"
proof -
  obtain api where "obus_bus_api_object api 3 = Some sample_od" by (rule sample_api)
  have l: "length (wire_object 9 17 [1, 2, 3] @ [42]) < SSIZE_LIMIT" by (simp add: wire_object_def)
  show ?thesis
    using object_add_decode_framing [of "buffer_of (wire_object 9 17 [1, 2, 3] @ [42])" 9 17 "[1, 2, 3]" "[42]" full_memory api] l
    by auto
qed

lemma object_add_roundtrip_witness:
  "\<exists>api b' obj' b''. obus_object_add_encode full_memory sample_object (buffer_of []) = (Inr (), b')
    \<and> obus_object_add_decode full_memory api b' = (Inr (Some obj'), b'') \<and> unread b'' = []
    \<and> o_handle obj' = 17 \<and> obus_struct_has_field (o_info obj') 2"
proof -
  obtain api where "obus_bus_api_object api 3 = Some sample_od" by (rule sample_api)
  moreover have "od_uid sample_od = 3" "info_desc sample_od = sample_desc" "o_desc sample_object = sample_od"
    "o_info sample_object = sample_struct" "o_handle sample_object = 17" "st_desc sample_struct = sample_desc"
    "2 < length (sfields sample_desc)"
    by (simp_all add: sample_bus_defs sample_defs)
  moreover have "alloc_ok full_memory (object_size sample_od)"
    by (simp add: full_memory_def object_size_def sizeof_object_def sizeof_ptr_def sample_bus_defs sample_defs)
  ultimately show ?thesis
    using object_add_roundtrip [of sample_object api "buffer_of []" full_memory] sample_ok sample_sizes sample_has [of 2]
    by (intro exI [of _ api]) (auto simp: OBUS_INVALID_UID_def OBUS_INVALID_HANDLE_def Let_def)
qed

end
