(* ===== verification/Obus_Bus.thy ===== *)
theory Obus_Bus
  imports Obus_Object
begin

text \<open>
  The bus: \<open>obus_bus.c\<close>, with the records of calls, events and bus events, the life cycle of
  calls (\<open>obus_call.c\<close>) and the destruction of objects (\<open>obus_object.c\<close>). The bus has tables from
  handles to objects and calls, from identifiers to providers, and the lists of registered
  objects, pending calls and providers. The first part holds the data and the operations, the
  second the invariant of the bus and that the operations keep it.
\<close>

section \<open>Data\<close>

text \<open>
  Objects, calls, events and bus events are referred to by address; 0 is NULL. An intrusive list
  is the list of the addresses of its elements (\<open>Obus_List\<close> shows that the linked nodes implement
  it).
\<close>

record obus_call =
  c_desc :: obus_method_desc
  c_obj :: addr
  c_handle :: u16
  c_peer :: addr
  c_status :: u32
  c_args :: "obus_struct option"
  c_cb :: nat

record obus_event =
  e_desc :: obus_event_desc
  e_obj :: addr
  e_event_node :: bool
  e_allocated :: bool
  e_committed :: bool
  e_info :: obus_struct

record obus_bus_event =
  be_desc :: obus_bus_event_desc
  add_objs :: "addr list"
  remove_objs :: "addr list"
  obj_events :: "addr list"
  be_committed :: bool
  be_allocated :: bool

text \<open>A provider is supplied by the user; \<open>pv_id\<close> is its address.\<close>

record obus_provider =
  pv_id :: addr
  pv_desc :: obus_object_desc

record obus_bus =
  bus_api :: obus_bus_api
  calls_hash :: "addr obus_hash"
  bcalls :: "addr list"
  objects_hash :: "addr obus_hash"
  bobjects :: "addr list"
  providers_hash :: "obus_provider obus_hash"
  bproviders :: "obus_provider list"

text \<open>
  The bus with the memory its operations work on and the trace of the status callbacks they
  have made: callback, object, call handle, status.
\<close>

record bus_state = obus_bus +
  objs :: "addr \<rightharpoonup> obus_object"
  calls :: "addr \<rightharpoonup> obus_call"
  evts :: "addr \<rightharpoonup> obus_event"
  bevts :: "addr \<rightharpoonup> obus_bus_event"
  next_addr :: addr
  notified :: "(nat \<times> addr \<times> u16 \<times> u32) list"

definition OBUS_CALL_INVALID :: u32 where "OBUS_CALL_INVALID = 0"

definition OBUS_CALL_ABORTED :: u32 where "OBUS_CALL_ABORTED = 2"

definition OBUS_BUS_HASH_SIZE :: nat where "OBUS_BUS_HASH_SIZE = 4093"

text \<open>
  Linking an element that is linked already and unlinking one that is not leave the ring of
  nodes broken or follow the poison addresses of an unlinked node: a fault.
\<close>

definition link :: "addr list \<Rightarrow> addr \<Rightarrow> addr list res" where
  "link xs p = (if p \<in> set xs then Inl FAULT else Inr (xs @ [p]))"

definition unlink :: "addr list \<Rightarrow> addr \<Rightarrow> addr list res" where
  "unlink xs p = (if p \<in> set xs then Inr (remove1 p xs) else Inl FAULT)"

section \<open>Calls\<close>

definition sizeof_call :: nat where "sizeof_call = 80"

definition obus_call_new ::
  "memory \<Rightarrow> addr \<Rightarrow> obus_method_desc \<Rightarrow> nat \<Rightarrow> obus_struct option \<Rightarrow> obus_call option" where
  "obus_call_new m obj desc cb args =
     (if obj = 0 then None
      else
        let n = (case (args, args_desc desc) of
                   (None, Some sd) \<Rightarrow> sizeof_call + sd_size sd
                 | _ \<Rightarrow> sizeof_call)
        in if \<not> alloc_ok m (n * sizeof_call) then None
           else Some \<lparr>c_desc = desc, c_obj = obj, c_handle = OBUS_INVALID_HANDLE, c_peer = 0,
                      c_status = OBUS_CALL_INVALID,
                      c_args = (case args_desc desc of
                          None \<Rightarrow> None
                        | Some sd \<Rightarrow> (case args of Some st \<Rightarrow> Some (st\<lparr>st_desc := sd\<rparr>)
                                                | None \<Rightarrow> Some (zero_struct sd))),
                      c_cb = cb\<rparr>)"

definition destroy_args :: "obus_call \<Rightarrow> unit res" where
  "destroy_args call = (case c_args call of None \<Rightarrow> Inr () | Some st \<Rightarrow> obus_struct_destroy st)"

definition obus_call_destroy :: "bus_state \<Rightarrow> addr \<Rightarrow> unit res \<times> bus_state" where
  "obus_call_destroy s p =
     (if p = 0 then (Inl EINVAL, s)
      else case calls s p of
        None \<Rightarrow> (Inl FAULT, s)
      | Some call \<Rightarrow>
          (case destroy_args call of
             Inl e \<Rightarrow> (Inl e, s)
           | Inr _ \<Rightarrow> (Inr (), s\<lparr>calls := (calls s)(p := None)\<rparr>)))"

definition obus_call_ack_notify :: "bus_state \<Rightarrow> addr \<Rightarrow> u32 \<Rightarrow> unit res \<times> bus_state" where
  "obus_call_ack_notify s p status =
     (case calls s p of
        None \<Rightarrow> (Inl FAULT, s)
      | Some call \<Rightarrow>
          if c_cb call \<noteq> 0
          then (Inr (), s\<lparr>notified := notified s @ [(c_cb call, c_obj call, c_handle call, status)]\<rparr>)
          else (Inr (), s))"

section \<open>Setting up\<close>

text \<open>As in \<open>obus_bus_api_init\<close>, a table that cannot be allocated is a fault.\<close>

definition obus_bus_init :: "memory \<Rightarrow> obus_bus_desc \<Rightarrow> obus_bus res" where
  "obus_bus_init m desc =
     (case obus_bus_api_init m desc of
        Inl e \<Rightarrow> Inl e
      | Inr api \<Rightarrow>
     (case snd (obus_hash_init m OBUS_BUS_HASH_SIZE) of
        None \<Rightarrow> Inl FAULT
      | Some ho \<Rightarrow>
     (case snd (obus_hash_init m OBUS_BUS_HASH_SIZE) of
        None \<Rightarrow> Inl FAULT
      | Some hc \<Rightarrow>
     (case snd (obus_hash_init m (length (bd_objects (api_desc api)))) of
        None \<Rightarrow> Inl FAULT
      | Some hp \<Rightarrow>
          Inr \<lparr>bus_api = api, calls_hash = hc, bcalls = [], objects_hash = ho, bobjects = [],
               providers_hash = hp, bproviders = []\<rparr>))))"

section \<open>Handles\<close>

text \<open>
  The results of \<open>obus_rand_handle\<close> are a supplied sequence (0 when there is no random device).
  \<open>None\<close> says that the loop still runs when the sequence is used up.
\<close>

fun pick_handle :: "addr obus_hash \<Rightarrow> u16 list \<Rightarrow> u16 res option" where
  "pick_handle h [] = None"
| "pick_handle h (r # rs) =
     (if r = OBUS_INVALID_HANDLE then Some (Inl ENODEV)
      else case obus_hash_lookup h (ucast r) of
        Inl _ \<Rightarrow> Some (Inr r)
      | Inr _ \<Rightarrow> pick_handle h rs)"

section \<open>Calls on the bus\<close>

text \<open>
  The handle the call has after the loop, or the failure; \<open>-ENODEV\<close> leaves the invalid handle
  in the call.
\<close>

definition obus_bus_register_call ::
  "memory \<Rightarrow> u16 list \<Rightarrow> bus_state \<Rightarrow> addr \<Rightarrow> (unit res \<times> bus_state) option" where
  "obus_bus_register_call m rnd s p =
     (if p = 0 then Some (Inl EINVAL, s)
      else case calls s p of
        None \<Rightarrow> Some (Inl FAULT, s)
      | Some call \<Rightarrow>
          if c_obj call = 0 then Some (Inl EINVAL, s)
          else
            let has_handle = (c_handle call \<noteq> OBUS_INVALID_HANDLE) in
            (case (if has_handle then Some (Inr (c_handle call)) else pick_handle (calls_hash s) rnd) of
               None \<Rightarrow> None
             | Some (Inl e) \<Rightarrow> Some (Inl e, s)
             | Some (Inr handle) \<Rightarrow>
                 (case obus_hash_insert m (calls_hash s) (ucast handle) p of
                    (Inl e, h) \<Rightarrow> Some (Inl e, s\<lparr>calls_hash := h\<rparr>)
                  | (Inr _, h) \<Rightarrow>
                      let s = s\<lparr>calls := (calls s)(p \<mapsto> call\<lparr>c_handle := handle\<rparr>), calls_hash := h\<rparr> in
                      (case link (bcalls s) p of
                         Inl e \<Rightarrow> Some (Inl e, s)
                       | Inr cs \<Rightarrow> Some (Inr (), s\<lparr>bcalls := cs\<rparr>)))))"

definition obus_bus_unregister_call :: "bus_state \<Rightarrow> addr \<Rightarrow> unit res \<times> bus_state" where
  "obus_bus_unregister_call s p =
     (if p = 0 then (Inl EINVAL, s)
      else case calls s p of
        None \<Rightarrow> (Inl FAULT, s)
      | Some call \<Rightarrow>
          (case obus_hash_remove (calls_hash s) (ucast (c_handle call)) of
             (Inl e, h) \<Rightarrow> (Inl e, s\<lparr>calls_hash := h\<rparr>)
           | (Inr _, h) \<Rightarrow>
               (case unlink (bcalls s) p of
                  Inl e \<Rightarrow> (Inl e, s\<lparr>calls_hash := h\<rparr>)
                | Inr cs \<Rightarrow> (Inr (), s\<lparr>calls_hash := h, bcalls := cs\<rparr>))))"

definition obus_bus_call :: "bus_state \<Rightarrow> u16 \<Rightarrow> addr" where
  "obus_bus_call s handle =
     (if handle = OBUS_INVALID_HANDLE then 0
      else case obus_hash_lookup (calls_hash s) (ucast handle) of Inl _ \<Rightarrow> 0 | Inr p \<Rightarrow> p)"

section \<open>Providers\<close>

definition obus_bus_register_provider ::
  "memory \<Rightarrow> bus_state \<Rightarrow> obus_provider \<Rightarrow> unit res \<times> bus_state" where
  "obus_bus_register_provider m s prov =
     (case obus_hash_insert m (providers_hash s) (ucast (od_uid (pv_desc prov))) prov of
        (Inl e, h) \<Rightarrow> (Inl e, s\<lparr>providers_hash := h\<rparr>)
      | (Inr _, h) \<Rightarrow>
          let s = s\<lparr>providers_hash := h\<rparr> in
          if prov \<in> set (bproviders s) then (Inl FAULT, s)
          else (Inr (), s\<lparr>bproviders := bproviders s @ [prov]\<rparr>))"

definition obus_bus_unregister_provider :: "bus_state \<Rightarrow> obus_provider \<Rightarrow> unit res \<times> bus_state" where
  "obus_bus_unregister_provider s prov =
     (case obus_hash_remove (providers_hash s) (ucast (od_uid (pv_desc prov))) of
        (Inl e, h) \<Rightarrow> (Inl e, s\<lparr>providers_hash := h\<rparr>)
      | (Inr _, h) \<Rightarrow>
          let s = s\<lparr>providers_hash := h\<rparr> in
          if prov \<in> set (bproviders s) then (Inr (), s\<lparr>bproviders := remove1 prov (bproviders s)\<rparr>)
          else (Inl FAULT, s))"

definition obus_bus_provider :: "bus_state \<Rightarrow> u16 \<Rightarrow> obus_provider option" where
  "obus_bus_provider s uid =
     (if uid = OBUS_INVALID_UID then None else found (obus_hash_lookup (providers_hash s) (ucast uid)))"

section \<open>Objects on the bus\<close>

definition obus_bus_add_object ::
  "memory \<Rightarrow> u16 list \<Rightarrow> bus_state \<Rightarrow> addr \<Rightarrow> (unit res \<times> bus_state) option" where
  "obus_bus_add_object m rnd s p =
     (if p = 0 then Some (Inl EINVAL, s)
      else case objs s p of
        None \<Rightarrow> Some (Inl FAULT, s)
      | Some obj \<Rightarrow>
          if od_uid (o_desc obj) = OBUS_INVALID_UID then Some (Inl EINVAL, s)
          else
            let has_handle = (o_handle obj \<noteq> OBUS_INVALID_HANDLE) in
            (case (if has_handle then Some (Inr (o_handle obj)) else pick_handle (objects_hash s) rnd) of
               None \<Rightarrow> None
             | Some (Inl e) \<Rightarrow> Some (Inl e, s)
             | Some (Inr handle) \<Rightarrow>
                 (case obus_hash_insert m (objects_hash s) (ucast handle) p of
                    (Inl e, h) \<Rightarrow> Some (Inl e, s\<lparr>objects_hash := h\<rparr>)
                  | (Inr _, h) \<Rightarrow>
                      Some (Inr (), s\<lparr>objects_hash := h,
                              objs := (objs s)(p \<mapsto> obj\<lparr>o_handle := handle, o_bus := True\<rparr>)\<rparr>))))"

definition obus_bus_remove_object :: "bus_state \<Rightarrow> addr \<Rightarrow> unit res \<times> bus_state" where
  "obus_bus_remove_object s p =
     (if p = 0 then (Inl EINVAL, s)
      else case objs s p of
        None \<Rightarrow> (Inl FAULT, s)
      | Some obj \<Rightarrow>
          if od_uid (o_desc obj) = OBUS_INVALID_UID then (Inl EINVAL, s)
          else (case obus_hash_remove (objects_hash s) (ucast (o_handle obj)) of
             (Inl e, h) \<Rightarrow> (Inl e, s\<lparr>objects_hash := h\<rparr>)
           | (Inr _, h) \<Rightarrow>
               (Inr (), s\<lparr>objects_hash := h, objs := (objs s)(p \<mapsto> obj\<lparr>o_bus := False\<rparr>)\<rparr>)))"

definition obus_bus_register_object :: "bus_state \<Rightarrow> addr \<Rightarrow> unit res \<times> bus_state" where
  "obus_bus_register_object s p =
     (case objs s p of
        None \<Rightarrow> (Inl FAULT, s)
      | Some obj \<Rightarrow>
          let s = s\<lparr>objs := (objs s)(p \<mapsto> obj\<lparr>o_registered := True\<rparr>)\<rparr> in
          (case link (bobjects s) p of
             Inl e \<Rightarrow> (Inl e, s)
           | Inr xs \<Rightarrow> (Inr (), s\<lparr>bobjects := xs\<rparr>)))"

definition obus_bus_unregister_object :: "bus_state \<Rightarrow> addr \<Rightarrow> unit res \<times> bus_state" where
  "obus_bus_unregister_object s p =
     (case objs s p of
        None \<Rightarrow> (Inl FAULT, s)
      | Some obj \<Rightarrow>
          let s = s\<lparr>objs := (objs s)(p \<mapsto> obj\<lparr>o_registered := False\<rparr>)\<rparr> in
          (case unlink (bobjects s) p of
             Inl e \<Rightarrow> (Inl e, s)
           | Inr xs \<Rightarrow> (Inr (), s\<lparr>bobjects := xs\<rparr>)))"

definition obus_bus_object :: "bus_state \<Rightarrow> u16 \<Rightarrow> addr" where
  "obus_bus_object s handle =
     (if handle = OBUS_INVALID_HANDLE then 0
      else case obus_hash_lookup (objects_hash s) (ucast handle) of Inl _ \<Rightarrow> 0 | Inr p \<Rightarrow> p)"

text \<open>Whether the description of the object at an address has the identifier (0 is a wildcard).\<close>

definition has_uid :: "bus_state \<Rightarrow> u16 \<Rightarrow> addr \<Rightarrow> bool" where
  "has_uid s uid p \<longleftrightarrow> uid = OBUS_INVALID_UID \<or> (\<exists>obj. objs s p = Some obj \<and> od_uid (o_desc obj) = uid)"

fun first_with :: "(addr \<Rightarrow> bool) \<Rightarrow> addr list \<Rightarrow> addr" where
  "first_with P [] = 0"
| "first_with P (p # ps) = (if P p then p else first_with P ps)"

definition obus_bus_object_first :: "bus_state \<Rightarrow> u16 \<Rightarrow> addr" where
  "obus_bus_object_first s uid = first_with (has_uid s uid) (bobjects s)"

text \<open>The elements behind one that is in the list.\<close>

definition behind :: "addr list \<Rightarrow> addr \<Rightarrow> addr list" where
  "behind xs p = tl (dropWhile (\<lambda>q. q \<noteq> p) xs)"

definition obus_bus_object_next :: "bus_state \<Rightarrow> addr \<Rightarrow> u16 \<Rightarrow> addr res" where
  "obus_bus_object_next s prev uid =
     (if prev = 0 then Inr (first_with (has_uid s uid) (bobjects s))
      else if prev \<notin> set (bobjects s) then Inl FAULT
      else Inr (first_with (has_uid s uid) (behind (bobjects s) prev)))"

text \<open>
  Taking an object out of the list of a bus event: its event node is linked in the list of one
  of them.
\<close>

definition drop_object :: "addr \<Rightarrow> obus_bus_event \<Rightarrow> obus_bus_event" where
  "drop_object p e = e\<lparr>add_objs := remove1 p (add_objs e), remove_objs := remove1 p (remove_objs e)\<rparr>"

definition detach_event_node :: "bus_state \<Rightarrow> addr \<Rightarrow> bus_state" where
  "detach_event_node s p =
     (case objs s p of
        None \<Rightarrow> s
      | Some obj \<Rightarrow>
          if o_event_node obj
          then s\<lparr>bevts := map_option (drop_object p) \<circ> bevts s, objs := (objs s)(p \<mapsto> obj\<lparr>o_event_node := False\<rparr>)\<rparr>
          else s)"

definition obus_object_destroy :: "bus_state \<Rightarrow> addr \<Rightarrow> unit res \<times> bus_state" where
  "obus_object_destroy s p =
     (if p = 0 then (Inl EINVAL, s)
      else case objs s p of
        None \<Rightarrow> (Inl FAULT, s)
      | Some obj \<Rightarrow>
          if o_registered obj then (Inl EPERM, s)
          else
            let s = (if o_bus obj then snd (obus_bus_remove_object s p) else s);
                s = detach_event_node s p
            in (case obus_struct_destroy (o_info obj) of
                  Inl e \<Rightarrow> (Inl e, s)
                | Inr _ \<Rightarrow> (Inr (), s\<lparr>objs := (objs s)(p := None)\<rparr>)))"

text \<open>The object named by a removal on the wire, NULL if there is none or the packet is short.\<close>

definition obus_object_remove_decode :: "bus_state \<Rightarrow> obus_buffer \<Rightarrow> addr \<times> obus_buffer" where
  "obus_object_remove_decode s buf =
     (case obus_buffer_read_u16 buf of (Inl _, buf) \<Rightarrow> (0, buf) | (Inr uid, buf) \<Rightarrow>
     (case obus_buffer_read_u16 buf of (Inl _, buf) \<Rightarrow> (0, buf) | (Inr handle, buf) \<Rightarrow>
       (obus_bus_object s handle, buf)))"

section \<open>Clearing the bus\<close>

text \<open>Ending one call: the results of the first and the last step are ignored, faults are not.\<close>

definition no_fault :: "unit res \<times> 's \<Rightarrow> unit res \<times> 's" where
  "no_fault r = (case r of (Inl FAULT, s) \<Rightarrow> (Inl FAULT, s) | (_, s) \<Rightarrow> (Inr (), s))"

definition end_call :: "bus_state \<Rightarrow> addr \<Rightarrow> unit res \<times> bus_state" where
  "end_call s p =
     chk (no_fault (obus_bus_unregister_call s p)) (\<lambda>_ s.
     chk (obus_call_ack_notify s p OBUS_CALL_ABORTED) (\<lambda>_ s.
     no_fault (obus_call_destroy s p)))"

text \<open>The walks save the next element first: they go over the elements at the start.\<close>

primrec walk :: "(bus_state \<Rightarrow> addr \<Rightarrow> unit res \<times> bus_state) \<Rightarrow> bus_state \<Rightarrow> addr list \<Rightarrow> unit res \<times> bus_state" where
  "walk f s [] = (Inr (), s)"
| "walk f s (p # ps) = chk (f s p) (\<lambda>_ s. walk f s ps)"

definition obus_bus_abort_call :: "bus_state \<Rightarrow> addr \<Rightarrow> unit res \<times> bus_state" where
  "obus_bus_abort_call s obj =
     walk (\<lambda>s p. case calls s p of
              None \<Rightarrow> (Inl FAULT, s)
            | Some call \<Rightarrow> if obj = 0 \<or> c_obj call = obj then end_call s p else (Inr (), s))
       s (bcalls s)"

definition clear_object :: "bus_state \<Rightarrow> addr \<Rightarrow> unit res \<times> bus_state" where
  "clear_object s p =
     chk (obus_bus_unregister_object s p) (\<lambda>_ s. no_fault (obus_object_destroy s p))"

definition obus_bus_clear :: "bus_state \<Rightarrow> unit res \<times> bus_state" where
  "obus_bus_clear s =
     chk (walk end_call s (bcalls s)) (\<lambda>_ s.
     walk clear_object s (map edata (entries (objects_hash s))))"

definition obus_bus_destroy :: "bus_state \<Rightarrow> unit res \<times> bus_state" where
  "obus_bus_destroy s =
     chk (obus_bus_clear s) (\<lambda>_ s.
       (Inr (), s\<lparr>bus_api := obus_bus_api_destroy (bus_api s),
          objects_hash := obus_hash_destroy (objects_hash s), calls_hash := obus_hash_destroy (calls_hash s),
          providers_hash := obus_hash_destroy (providers_hash s),
          bobjects := [], bcalls := [], bproviders := []\<rparr>))"

section \<open>The invariant of the bus\<close>

text \<open>
  The table of objects has exactly the objects that are on the bus, under their handles; the
  list of objects has exactly the registered ones, which are on the bus.
\<close>

definition objects_ok :: "bus_state \<Rightarrow> bool" where
  "objects_ok s \<longleftrightarrow> plain_hash (objects_hash s) \<and> objs s 0 = None
     \<and> (\<forall>k p. hash_map (objects_hash s) k = Some p \<longleftrightarrow>
          (\<exists>obj. objs s p = Some obj \<and> o_bus obj \<and> k = ucast (o_handle obj)))
     \<and> (\<forall>p obj. objs s p = Some obj \<longrightarrow> o_bus obj \<longrightarrow>
          o_handle obj \<noteq> OBUS_INVALID_HANDLE \<and> od_uid (o_desc obj) \<noteq> OBUS_INVALID_UID)
     \<and> (\<forall>p obj. objs s p = Some obj \<longrightarrow> o_registered obj \<longrightarrow> o_bus obj)
     \<and> distinct (bobjects s)
     \<and> (\<forall>p. p \<in> set (bobjects s) \<longleftrightarrow> (\<exists>obj. objs s p = Some obj \<and> o_registered obj))"

text \<open>The table and the list of calls have the same calls, under their handles.\<close>

definition calls_ok :: "bus_state \<Rightarrow> bool" where
  "calls_ok s \<longleftrightarrow> plain_hash (calls_hash s) \<and> calls s 0 = None
     \<and> (\<forall>k p. hash_map (calls_hash s) k = Some p \<longleftrightarrow>
          p \<in> set (bcalls s) \<and> (\<exists>c. calls s p = Some c \<and> k = ucast (c_handle c)))
     \<and> (\<forall>p\<in>set (bcalls s). \<exists>c. calls s p = Some c \<and> c_handle c \<noteq> OBUS_INVALID_HANDLE)
     \<and> distinct (bcalls s)"

definition same_calls :: "bus_state \<Rightarrow> bus_state \<Rightarrow> bool" where
  "same_calls s s' \<longleftrightarrow> calls s' = calls s \<and> calls_hash s' = calls_hash s \<and> bcalls s' = bcalls s
     \<and> notified s' = notified s"

definition same_objects :: "bus_state \<Rightarrow> bus_state \<Rightarrow> bool" where
  "same_objects s s' \<longleftrightarrow> objs s' = objs s \<and> objects_hash s' = objects_hash s \<and> bobjects s' = bobjects s"

lemma same_calls_ok: "same_calls s s' \<Longrightarrow> calls_ok s' = calls_ok s"
  by (simp add: same_calls_def calls_ok_def)

lemma same_objects_ok: "same_objects s s' \<Longrightarrow> objects_ok s' = objects_ok s"
  by (simp add: same_objects_def objects_ok_def)

lemma objects_nonzero: "objects_ok s \<Longrightarrow> objs s p = Some obj \<Longrightarrow> p \<noteq> 0"
  by (rule ccontr) (simp add: objects_ok_def)

lemma handle_inject: "objects_ok s \<Longrightarrow> objs s p = Some a \<Longrightarrow> objs s q = Some b \<Longrightarrow> o_bus a \<Longrightarrow> o_bus b \<Longrightarrow>
    o_handle a = o_handle b \<Longrightarrow> p = q"
  unfolding objects_ok_def by (metis option.inject)

lemma pick_handle_Inr:
  assumes "plain_hash h" "pick_handle h rnd = Some (Inr r)"
  shows "r \<noteq> OBUS_INVALID_HANDLE \<and> hash_map h (ucast r) = None"
  using assms
  by (induction h rnd rule: pick_handle.induct)
    (auto simp: data_hash.get_eq split: if_splits option.splits sum.splits)

lemma pick_handle_Inl: "pick_handle h rnd = Some (Inl e) \<Longrightarrow> e = ENODEV"
  by (induction h rnd rule: pick_handle.induct) (auto split: if_splits sum.splits)

text \<open>Objects that are not on the bus can be created, changed and deleted.\<close>

lemma objects_ok_off_bus:
  assumes "objects_ok s" "\<forall>obj. objs s p = Some obj \<longrightarrow> \<not> o_bus obj" "p \<noteq> 0"
    "\<forall>obj. x = Some obj \<longrightarrow> \<not> o_bus obj \<and> \<not> o_registered obj"
  shows "objects_ok (s\<lparr>objs := (objs s)(p := x)\<rparr>)"
  using assms unfolding objects_ok_def by (auto split: if_splits) (metis+)?

text \<open>Changes that concern none of the members the bus looks at.\<close>

lemma objects_ok_update:
  assumes "objects_ok s" "objs s p = Some obj" "o_bus obj' = o_bus obj" "o_registered obj' = o_registered obj"
    "o_handle obj' = o_handle obj" "o_desc obj' = o_desc obj"
  shows "objects_ok (s\<lparr>objs := (objs s)(p \<mapsto> obj')\<rparr>)"
proof -
  have "p \<noteq> 0" using objects_nonzero [OF assms(1,2)] .
  then show ?thesis using assms unfolding objects_ok_def by (auto split: if_splits)
qed

text \<open>Putting an object on the bus.\<close>

lemma add_object_cases:
  assumes "objects_ok s" "objs s p = Some obj" "\<not> o_bus obj" "obus_bus_add_object m rnd s p = Some (r, s')"
  obtains (added) handle h where "r = Inr ()" "handle \<noteq> OBUS_INVALID_HANDLE" "hash_map (objects_hash s) (ucast handle) = None"
      "o_handle obj \<noteq> OBUS_INVALID_HANDLE \<longrightarrow> handle = o_handle obj"
      "s' = s\<lparr>objects_hash := h, objs := (objs s)(p \<mapsto> obj\<lparr>o_handle := handle, o_bus := True\<rparr>)\<rparr>"
      "objects_ok s'"
  | (failed) e where "r = Inl e" "s' = s"
proof -
  have p: "p \<noteq> 0" using objects_nonzero [OF assms(1,2)] .
  have h0: "plain_hash (objects_hash s)" using assms(1) by (simp add: objects_ok_def)
  let ?pick = "if o_handle obj \<noteq> OBUS_INVALID_HANDLE then Some (Inr (o_handle obj)) else pick_handle (objects_hash s) rnd"
  show thesis
  proof (cases "od_uid (o_desc obj) = OBUS_INVALID_UID \<or> (\<exists>e. ?pick = Some (Inl e)) \<or> ?pick = None")
    case True
    then show ?thesis using failed assms(2,4) p
      by (auto simp: obus_bus_add_object_def Let_def split: if_splits)
  next
    case False
    then obtain handle where k: "?pick = Some (Inr handle)" by (metis option.exhaust sum.exhaust)
    then have nz: "handle \<noteq> OBUS_INVALID_HANDLE" using pick_handle_Inr [OF h0] by (auto split: if_splits)
    have eq: "obus_bus_add_object m rnd s p =
        (case obus_hash_insert m (objects_hash s) (ucast handle) p of
           (Inl e, h) \<Rightarrow> Some (Inl e, s\<lparr>objects_hash := h\<rparr>)
         | (Inr _, h) \<Rightarrow> Some (Inr (), s\<lparr>objects_hash := h, objs := (objs s)(p \<mapsto> obj\<lparr>o_handle := handle, o_bus := True\<rparr>)\<rparr>))"
      using False k p assms(2) unfolding obus_bus_add_object_def Let_def by simp
    show ?thesis
    proof (cases rule: data_hash.ins_cases [OF h0, of m "ucast handle" p])
      case (1 h)
      let ?s = "s\<lparr>objects_hash := h, objs := (objs s)(p \<mapsto> obj\<lparr>o_handle := handle, o_bus := True\<rparr>)\<rparr>"
      have ok: "objects_ok ?s"
        using assms(1-3) 1 nz False p unfolding objects_ok_def
        by (auto simp: ucast_u16_inject split: if_splits) (metis option.distinct(1))+
      have "s' = ?s" "r = Inr ()" using eq 1(1) assms(4) by auto
      moreover have "o_handle obj \<noteq> OBUS_INVALID_HANDLE \<longrightarrow> handle = o_handle obj" using k by auto
      ultimately show ?thesis using added [OF _ nz 1(2)] ok by blast
    next
      case (2 e)
      then show ?thesis using failed eq assms(4) by auto
    qed
  qed
qed

text \<open>Taking an object off the bus.\<close>

lemma remove_object_ok:
  assumes "objects_ok s" "objs s p = Some obj" "o_bus obj" "\<not> o_registered obj"
  obtains h where "obus_bus_remove_object s p = (Inr (), s\<lparr>objects_hash := h, objs := (objs s)(p \<mapsto> obj\<lparr>o_bus := False\<rparr>)\<rparr>)"
    "objects_ok (s\<lparr>objects_hash := h, objs := (objs s)(p \<mapsto> obj\<lparr>o_bus := False\<rparr>)\<rparr>)"
proof -
  have p: "p \<noteq> 0" using objects_nonzero [OF assms(1,2)] .
  have h0: "plain_hash (objects_hash s)" using assms(1) by (simp add: objects_ok_def)
  have k: "hash_map (objects_hash s) (ucast (o_handle obj)) = Some p" "od_uid (o_desc obj) \<noteq> OBUS_INVALID_UID"
    using assms(1-3) by (auto simp: objects_ok_def)
  from data_hash.del_some [OF h0 k(1)] obtain h where
    h: "obus_hash_remove (objects_hash s) (ucast (o_handle obj)) = (Inr (), h)" "plain_hash h"
      "hash_map h = (hash_map (objects_hash s))(ucast (o_handle obj) := None)" by blast
  have inj: "q = p" if "objs s q = Some b" "o_bus b" "(ucast (o_handle b) :: u32) = ucast (o_handle obj)" for q b
    using handle_inject [OF assms(1) that(1) assms(2) that(2) assms(3)] that(3) by (simp add: ucast_u16_inject)
  have "objects_ok (s\<lparr>objects_hash := h, objs := (objs s)(p \<mapsto> obj\<lparr>o_bus := False\<rparr>)\<rparr>)"
    using assms h p unfolding objects_ok_def by (auto split: if_splits dest: inj)
  then show thesis using that h(1) k(2) p assms(2) by (simp add: obus_bus_remove_object_def)
qed

lemma register_object_ok:
  assumes "objects_ok s" "objs s p = Some obj" "o_bus obj" "\<not> o_registered obj"
  shows "obus_bus_register_object s p =
      (Inr (), s\<lparr>objs := (objs s)(p \<mapsto> obj\<lparr>o_registered := True\<rparr>), bobjects := bobjects s @ [p]\<rparr>)"
    "objects_ok (s\<lparr>objs := (objs s)(p \<mapsto> obj\<lparr>o_registered := True\<rparr>), bobjects := bobjects s @ [p]\<rparr>)"
proof -
  have p: "p \<noteq> 0" using objects_nonzero [OF assms(1,2)] .
  have n: "p \<notin> set (bobjects s)" using assms by (auto simp: objects_ok_def)
  then show "obus_bus_register_object s p =
      (Inr (), s\<lparr>objs := (objs s)(p \<mapsto> obj\<lparr>o_registered := True\<rparr>), bobjects := bobjects s @ [p]\<rparr>)"
    using assms(2) by (simp add: obus_bus_register_object_def link_def Let_def)
  show "objects_ok (s\<lparr>objs := (objs s)(p \<mapsto> obj\<lparr>o_registered := True\<rparr>), bobjects := bobjects s @ [p]\<rparr>)"
    using assms p n unfolding objects_ok_def by (auto split: if_splits)
qed

lemma unregister_object_ok:
  assumes "objects_ok s" "objs s p = Some obj" "o_registered obj"
  shows "obus_bus_unregister_object s p =
      (Inr (), s\<lparr>objs := (objs s)(p \<mapsto> obj\<lparr>o_registered := False\<rparr>), bobjects := remove1 p (bobjects s)\<rparr>)"
    "objects_ok (s\<lparr>objs := (objs s)(p \<mapsto> obj\<lparr>o_registered := False\<rparr>), bobjects := remove1 p (bobjects s)\<rparr>)"
proof -
  have p: "p \<noteq> 0" using objects_nonzero [OF assms(1,2)] .
  have n: "p \<in> set (bobjects s)" using assms by (auto simp: objects_ok_def)
  then show "obus_bus_unregister_object s p =
      (Inr (), s\<lparr>objs := (objs s)(p \<mapsto> obj\<lparr>o_registered := False\<rparr>), bobjects := remove1 p (bobjects s)\<rparr>)"
    using assms(2) by (simp add: obus_bus_unregister_object_def unlink_def Let_def)
  show "objects_ok (s\<lparr>objs := (objs s)(p \<mapsto> obj\<lparr>o_registered := False\<rparr>), bobjects := remove1 p (bobjects s)\<rparr>)"
    using assms p n unfolding objects_ok_def by (auto split: if_splits)
qed

lemma detach_ok:
  assumes "objects_ok s"
  shows "objects_ok (detach_event_node s p)" "same_calls s (detach_event_node s p)"
    "bobjects (detach_event_node s p) = bobjects s" "objects_hash (detach_event_node s p) = objects_hash s"
    "q \<noteq> p \<Longrightarrow> objs (detach_event_node s p) q = objs s q"
    "map_option o_bus (objs (detach_event_node s p) p) = map_option o_bus (objs s p)"
proof -
  show "same_calls s (detach_event_node s p)"
    "bobjects (detach_event_node s p) = bobjects s" "objects_hash (detach_event_node s p) = objects_hash s"
    "q \<noteq> p \<Longrightarrow> objs (detach_event_node s p) q = objs s q"
    "map_option o_bus (objs (detach_event_node s p) p) = map_option o_bus (objs s p)"
    by (auto simp: detach_event_node_def same_calls_def split: option.splits)
  show "objects_ok (detach_event_node s p)"
  proof (cases "objs s p")
    case (Some obj)
    have "objects_ok (s\<lparr>bevts := f, objs := (objs s)(p \<mapsto> obj\<lparr>o_event_node := False\<rparr>)\<rparr>)" for f
    proof -
      have "objects_ok (s\<lparr>objs := (objs s)(p \<mapsto> obj\<lparr>o_event_node := False\<rparr>)\<rparr>)"
        by (rule objects_ok_update [OF assms Some]) simp_all
      then show ?thesis
        by (rule same_objects_ok [THEN iffD2, rotated]) (simp add: same_objects_def)
    qed
    then show ?thesis using assms Some by (simp add: detach_event_node_def)
  qed (use assms in \<open>simp add: detach_event_node_def\<close>)
qed

text \<open>Destroying an object: refused while it is registered, otherwise it is off the bus and gone.\<close>

lemma object_destroy_cases:
  assumes "objects_ok s" "objs s p = Some obj" "\<not> o_registered obj"
  obtains s' where "obus_object_destroy s p = (map_sum id (\<lambda>_. ()) (obus_struct_destroy (o_info obj)), s')"
    "objects_ok s'" "same_calls s s'" "bobjects s' = bobjects s" "\<And>q. q \<noteq> p \<Longrightarrow> objs s' q = objs s q"
    "obus_struct_destroy (o_info obj) = Inr () \<Longrightarrow> objs s' p = None"
proof -
  have p: "p \<noteq> 0" using objects_nonzero [OF assms(1,2)] .
  let ?s1 = "if o_bus obj then snd (obus_bus_remove_object s p) else s"
  have "objects_ok ?s1 \<and> same_calls s ?s1 \<and> bobjects ?s1 = bobjects s \<and> (\<forall>q. q \<noteq> p \<longrightarrow> objs ?s1 q = objs s q)
    \<and> (\<exists>x. objs ?s1 p = Some x \<and> \<not> o_bus x)"
  proof (cases "o_bus obj")
    case True
    obtain h where
      h: "obus_bus_remove_object s p = (Inr (), s\<lparr>objects_hash := h, objs := (objs s)(p \<mapsto> obj\<lparr>o_bus := False\<rparr>)\<rparr>)"
      "objects_ok (s\<lparr>objects_hash := h, objs := (objs s)(p \<mapsto> obj\<lparr>o_bus := False\<rparr>)\<rparr>)"
      by (rule remove_object_ok [OF assms(1,2) True assms(3)])
    then show ?thesis using True by (simp add: same_calls_def)
  qed (use assms(1,2) in \<open>simp add: same_calls_def\<close>)
  then have s1: "objects_ok ?s1" "same_calls s ?s1" "bobjects ?s1 = bobjects s" "\<And>q. q \<noteq> p \<Longrightarrow> objs ?s1 q = objs s q"
    "\<exists>x. objs ?s1 p = Some x \<and> \<not> o_bus x" by blast+
  let ?s2 = "detach_event_node ?s1 p"
  note d = detach_ok [OF s1(1), where p = p]
  have d5: "q \<noteq> p \<Longrightarrow> objs ?s2 q = objs s q" for q using d(5) [of q] s1(4) [of q] by simp
  have off: "\<forall>x. objs ?s2 p = Some x \<longrightarrow> \<not> o_bus x" using d(6) s1(5) by fastforce
  have eq: "obus_object_destroy s p = (case obus_struct_destroy (o_info obj) of
      Inl e \<Rightarrow> (Inl e, ?s2) | Inr _ \<Rightarrow> (Inr (), ?s2\<lparr>objs := (objs ?s2)(p := None)\<rparr>))"
    using p assms(2,3) by (simp add: obus_object_destroy_def Let_def)
  show thesis
  proof (cases "obus_struct_destroy (o_info obj)")
    case (Inl e)
    then show ?thesis using that [of ?s2] eq d(1-3) d5 s1(2,3) by (simp add: same_calls_def)
  next
    case (Inr u)
    have "objects_ok (?s2\<lparr>objs := (objs ?s2)(p := None)\<rparr>)"
      by (rule objects_ok_off_bus [OF d(1) off p]) simp
    then show ?thesis using that [of "?s2\<lparr>objs := (objs ?s2)(p := None)\<rparr>"] eq d(2,3) d5 s1(2,3) Inr
      by (simp add: same_calls_def)
  qed
qed

section \<open>Calls\<close>

lemma calls_nonzero: "calls_ok s \<Longrightarrow> calls s p = Some c \<Longrightarrow> p \<noteq> 0"
  by (rule ccontr) (simp add: calls_ok_def)

lemma calls_lookup:
  "calls_ok s \<Longrightarrow> hash_map (calls_hash s) k = Some p \<longleftrightarrow>
     p \<in> set (bcalls s) \<and> (\<exists>c. calls s p = Some c \<and> k = ucast (c_handle c))"
  unfolding calls_ok_def by blast

lemma listed_call:
  assumes "calls_ok s" "p \<in> set (bcalls s)"
  obtains c where "calls s p = Some c" "c_handle c \<noteq> OBUS_INVALID_HANDLE"
    "hash_map (calls_hash s) (ucast (c_handle c)) = Some p"
proof -
  obtain c where c: "calls s p = Some c" "c_handle c \<noteq> OBUS_INVALID_HANDLE"
    using assms unfolding calls_ok_def by blast
  then show thesis using that calls_lookup [OF assms(1), of "ucast (c_handle c)" p] assms(2) by blast
qed

lemma call_handle_inject:
  assumes "calls_ok s" "p \<in> set (bcalls s)" "q \<in> set (bcalls s)" "calls s p = Some a" "calls s q = Some b"
    "c_handle a = c_handle b"
  shows "p = q"
proof -
  have "hash_map (calls_hash s) (ucast (c_handle a)) = Some p" "hash_map (calls_hash s) (ucast (c_handle b)) = Some q"
    using assms by (auto simp: calls_lookup)
  then show ?thesis using assms(6) by simp
qed

lemma calls_ok_off_list:
  assumes "calls_ok s" "p \<notin> set (bcalls s)" "p \<noteq> 0"
  shows "calls_ok (s\<lparr>calls := (calls s)(p := x)\<rparr>)"
proof (unfold calls_ok_def, intro conjI allI ballI, goal_cases)
  case (3 k q)
  have "hash_map (calls_hash s) k = Some q \<longleftrightarrow>
      q \<in> set (bcalls s) \<and> (\<exists>c. calls s q = Some c \<and> k = ucast (c_handle c))"
    by (rule calls_lookup [OF assms(1)])
  then show ?case using assms(2) by (cases "q = p") auto
next
  case (4 q)
  then have "\<exists>c. calls s q = Some c \<and> c_handle c \<noteq> OBUS_INVALID_HANDLE" "q \<noteq> p"
    using assms(1,2) unfolding calls_ok_def by auto
  then show ?case by simp
qed (use assms in \<open>simp_all add: calls_ok_def\<close>)

lemma register_call_cases:
  assumes "calls_ok s" "calls s p = Some c" "p \<notin> set (bcalls s)" "obus_bus_register_call m rnd s p = Some (r, s')"
  obtains (added) handle h where "r = Inr ()" "handle \<noteq> OBUS_INVALID_HANDLE" "hash_map (calls_hash s) (ucast handle) = None"
      "c_handle c \<noteq> OBUS_INVALID_HANDLE \<longrightarrow> handle = c_handle c"
      "s' = s\<lparr>calls := (calls s)(p \<mapsto> c\<lparr>c_handle := handle\<rparr>), calls_hash := h, bcalls := bcalls s @ [p]\<rparr>"
      "calls_ok s'"
  | (failed) e where "r = Inl e" "s' = s"
proof -
  have p: "p \<noteq> 0" using calls_nonzero [OF assms(1,2)] .
  have h0: "plain_hash (calls_hash s)" using assms(1) by (simp add: calls_ok_def)
  let ?pick = "if c_handle c \<noteq> OBUS_INVALID_HANDLE then Some (Inr (c_handle c)) else pick_handle (calls_hash s) rnd"
  show thesis
  proof (cases "c_obj c = 0 \<or> (\<exists>e. ?pick = Some (Inl e)) \<or> ?pick = None")
    case True
    then show ?thesis using failed assms(2,4) p
      by (auto simp: obus_bus_register_call_def Let_def split: if_splits)
  next
    case False
    then obtain handle where k: "?pick = Some (Inr handle)" by (metis option.exhaust sum.exhaust)
    then have nz: "handle \<noteq> OBUS_INVALID_HANDLE" using pick_handle_Inr [OF h0] by (auto split: if_splits)
    have eq: "obus_bus_register_call m rnd s p =
        (case obus_hash_insert m (calls_hash s) (ucast handle) p of
           (Inl e, h) \<Rightarrow> Some (Inl e, s\<lparr>calls_hash := h\<rparr>)
         | (Inr _, h) \<Rightarrow> Some (Inr (), s\<lparr>calls := (calls s)(p \<mapsto> c\<lparr>c_handle := handle\<rparr>), calls_hash := h,
                                       bcalls := bcalls s @ [p]\<rparr>))"
      using False k p assms(2,3) unfolding obus_bus_register_call_def Let_def
      by (simp add: link_def split: prod.splits sum.splits)
    show ?thesis
    proof (cases rule: data_hash.ins_cases [OF h0, of m "ucast handle" p])
      case (1 h)
      let ?s = "s\<lparr>calls := (calls s)(p \<mapsto> c\<lparr>c_handle := handle\<rparr>), calls_hash := h, bcalls := bcalls s @ [p]\<rparr>"
      have "\<forall>q\<in>set (bcalls s). \<exists>d. calls s q = Some d \<and> (ucast (c_handle d) :: u32) \<noteq> ucast handle"
        using listed_call [OF assms(1)] 1(2) by (metis option.distinct(1))
      then have ok: "calls_ok ?s"
        using assms(1-3) 1 nz p unfolding calls_ok_def by auto
      have "s' = ?s" "r = Inr ()" using eq 1(1) assms(4) by auto
      moreover have "c_handle c \<noteq> OBUS_INVALID_HANDLE \<longrightarrow> handle = c_handle c" using k by auto
      ultimately show ?thesis using added [OF _ nz 1(2)] ok by blast
    next
      case (2 e)
      then show ?thesis using failed eq assms(4) by auto
    qed
  qed
qed

lemma unregister_call_ok:
  assumes "calls_ok s" "p \<in> set (bcalls s)"
  obtains h where "obus_bus_unregister_call s p = (Inr (), s\<lparr>calls_hash := h, bcalls := remove1 p (bcalls s)\<rparr>)"
    "calls_ok (s\<lparr>calls_hash := h, bcalls := remove1 p (bcalls s)\<rparr>)"
proof -
  obtain c where c: "calls s p = Some c" and k: "hash_map (calls_hash s) (ucast (c_handle c)) = Some p"
    using listed_call [OF assms] by blast
  have p: "p \<noteq> 0" using calls_nonzero [OF assms(1) c] .
  have h0: "plain_hash (calls_hash s)" using assms(1) by (simp add: calls_ok_def)
  from data_hash.del_some [OF h0 k] obtain h where
    h: "obus_hash_remove (calls_hash s) (ucast (c_handle c)) = (Inr (), h)" "plain_hash h"
      "hash_map h = (hash_map (calls_hash s))(ucast (c_handle c) := None)" by blast
  have inj: "q = p" if "q \<in> set (bcalls s)" "calls s q = Some b" "(ucast (c_handle b) :: u32) = ucast (c_handle c)" for q b
    using call_handle_inject [OF assms(1) that(1) assms(2) that(2) c] that(3) by (simp add: ucast_u16_inject)
  have "calls_ok (s\<lparr>calls_hash := h, bcalls := remove1 p (bcalls s)\<rparr>)"
    using assms c h unfolding calls_ok_def by (auto dest: inj)
  then show thesis using that h(1) p c assms(2) by (simp add: obus_bus_unregister_call_def unlink_def)
qed

section \<open>Ending calls\<close>

definition abort_note :: "obus_call \<Rightarrow> (nat \<times> addr \<times> u16 \<times> u32) list" where
  "abort_note c = (if c_cb c \<noteq> 0 then [(c_cb c, c_obj c, c_handle c, OBUS_CALL_ABORTED)] else [])"

lemma end_call_ok:
  assumes "calls_ok s" "p \<in> set (bcalls s)" "calls s p = Some c" "destroy_args c = Inr ()"
  obtains s' where "end_call s p = (Inr (), s')" "calls_ok s'" "same_objects s s'" "bcalls s' = remove1 p (bcalls s)"
    "calls s' = (calls s)(p := None)" "notified s' = notified s @ abort_note c"
proof -
  obtain h where h: "obus_bus_unregister_call s p = (Inr (), s\<lparr>calls_hash := h, bcalls := remove1 p (bcalls s)\<rparr>)"
    "calls_ok (s\<lparr>calls_hash := h, bcalls := remove1 p (bcalls s)\<rparr>)"
    by (rule unregister_call_ok [OF assms(1,2)])
  let ?s1 = "s\<lparr>calls_hash := h, bcalls := remove1 p (bcalls s)\<rparr>"
  let ?s2 = "?s1\<lparr>notified := notified s @ abort_note c\<rparr>"
  have p: "p \<noteq> 0" using calls_nonzero [OF assms(1,3)] .
  have "calls_ok ?s2" using h(2) by (simp add: calls_ok_def)
  moreover have "p \<notin> set (bcalls ?s2)" using assms(1) by (simp add: calls_ok_def)
  ultimately have ok: "calls_ok (?s2\<lparr>calls := (calls ?s2)(p := None)\<rparr>)"
    using p by (rule calls_ok_off_list)
  have a: "obus_call_ack_notify ?s1 p OBUS_CALL_ABORTED = (Inr (), ?s2)"
    using assms(3) by (simp add: obus_call_ack_notify_def abort_note_def)
  have "end_call s p = (Inr (), ?s2\<lparr>calls := (calls ?s2)(p := None)\<rparr>)"
    using assms(3,4) p by (simp add: end_call_def h(1) a no_fault_def obus_call_destroy_def)
  then show thesis using that ok by (simp add: same_objects_def)
qed

definition ends :: "(obus_call \<Rightarrow> bool) \<Rightarrow> bus_state \<Rightarrow> addr \<Rightarrow> unit res \<times> bus_state" where
  "ends Q s p = (case calls s p of None \<Rightarrow> (Inl FAULT, s)
     | Some call \<Rightarrow> if Q call then end_call s p else (Inr (), s))"

lemma end_call_ends: "end_call = ends (\<lambda>_. True)"
proof (intro ext)
  fix s p
  show "end_call s p = ends (\<lambda>_. True) s p"
    by (auto simp: ends_def end_call_def no_fault_def obus_bus_unregister_call_def obus_call_ack_notify_def
        split: option.splits)
qed

lemma abort_call_ends: "obus_bus_abort_call s obj = walk (ends (\<lambda>c. obj = 0 \<or> c_obj c = obj)) s (bcalls s)"
  by (simp add: obus_bus_abort_call_def ends_def [abs_def])

text \<open>A walk over calls of the list ends the ones that are concerned and no others, in order.\<close>

lemma ends_walk:
  assumes "calls_ok s" "distinct ps" "set ps \<subseteq> set (bcalls s)" "\<And>p c. p \<in> set ps \<Longrightarrow> calls s p = Some c \<Longrightarrow> destroy_args c = Inr ()"
  shows "\<exists>s'. walk (ends Q) s ps = (Inr (), s') \<and> calls_ok s' \<and> same_objects s s'
    \<and> bcalls s' = filter (\<lambda>p. p \<in> set ps \<longrightarrow> \<not> Q (the (calls s p))) (bcalls s)
    \<and> calls s' = (\<lambda>p. if p \<in> set ps \<and> Q (the (calls s p)) then None else calls s p)
    \<and> notified s' = notified s @ concat (map (\<lambda>p. abort_note (the (calls s p))) (filter (\<lambda>p. Q (the (calls s p))) ps))"
  using assms
proof (induction ps arbitrary: s)
  case (Cons p ps)
  obtain c where c: "calls s p = Some c" using listed_call [OF Cons.prems(1), of p] Cons.prems(3) by auto
  show ?case
  proof (cases "Q c")
    case True
    obtain s1 where s1: "end_call s p = (Inr (), s1)" "calls_ok s1" "same_objects s s1" "bcalls s1 = remove1 p (bcalls s)"
        "calls s1 = (calls s)(p := None)" "notified s1 = notified s @ abort_note c"
      using end_call_ok [OF Cons.prems(1) _ c] Cons.prems(3,4) c by force
    have d: "distinct (bcalls s)" using Cons.prems(1) by (simp add: calls_ok_def)
    have q: "q \<in> set ps \<Longrightarrow> q \<noteq> p" for q using Cons.prems(2) by auto
    have "\<exists>s'. walk (ends Q) s1 ps = (Inr (), s') \<and> calls_ok s' \<and> same_objects s1 s'
      \<and> bcalls s' = filter (\<lambda>p. p \<in> set ps \<longrightarrow> \<not> Q (the (calls s1 p))) (bcalls s1)
      \<and> calls s' = (\<lambda>p. if p \<in> set ps \<and> Q (the (calls s1 p)) then None else calls s1 p)
      \<and> notified s' = notified s1 @ concat (map (\<lambda>p. abort_note (the (calls s1 p))) (filter (\<lambda>p. Q (the (calls s1 p))) ps))"
      by (rule Cons.IH [OF s1(2)]) (use Cons.prems(2-4) s1(4,5) d q in auto)
    then obtain s' where s': "walk (ends Q) s1 ps = (Inr (), s')" "calls_ok s'" "same_objects s1 s'"
      "bcalls s' = filter (\<lambda>p. p \<in> set ps \<longrightarrow> \<not> Q (the (calls s1 p))) (bcalls s1)"
      "calls s' = (\<lambda>p. if p \<in> set ps \<and> Q (the (calls s1 p)) then None else calls s1 p)"
      "notified s' = notified s1 @ concat (map (\<lambda>p. abort_note (the (calls s1 p))) (filter (\<lambda>p. Q (the (calls s1 p))) ps))"
      by blast
    have "bcalls s' = filter (\<lambda>q. q \<in> set (p # ps) \<longrightarrow> \<not> Q (the (calls s q))) (bcalls s)"
      unfolding s'(4) s1(4,5) distinct_remove1_removeAll [OF d] removeAll_filter_not_eq filter_filter
      by (rule filter_cong) (use q True c in auto)
    moreover have "calls s' = (\<lambda>q. if q \<in> set (p # ps) \<and> Q (the (calls s q)) then None else calls s q)"
      unfolding s'(5) s1(5) using q True c by auto
    moreover have f: "filter (\<lambda>q. Q (the (calls s1 q))) ps = filter (\<lambda>q. Q (the (calls s q))) ps"
      unfolding s1(5) by (rule filter_cong) (use q in auto)
    have g: "map (\<lambda>q. abort_note (the (calls s1 q))) (filter (\<lambda>q. Q (the (calls s q))) ps)
        = map (\<lambda>q. abort_note (the (calls s q))) (filter (\<lambda>q. Q (the (calls s q))) ps)"
      unfolding s1(5) by (rule map_cong) (use q in auto)
    have "notified s' = notified s @ concat (map (\<lambda>p. abort_note (the (calls s p))) (filter (\<lambda>p. Q (the (calls s p))) (p # ps)))"
      unfolding s'(6) s1(6) f g using True c by simp
    moreover have "walk (ends Q) s (p # ps) = (Inr (), s')" using s1(1) s'(1) c True by (simp add: ends_def [of Q s p])
    moreover have "same_objects s s'" using s1(3) s'(3) by (simp add: same_objects_def)
    ultimately show ?thesis using s'(2) by blast
  next
    case False
    have "\<exists>s'. walk (ends Q) s ps = (Inr (), s') \<and> calls_ok s' \<and> same_objects s s'
      \<and> bcalls s' = filter (\<lambda>p. p \<in> set ps \<longrightarrow> \<not> Q (the (calls s p))) (bcalls s)
      \<and> calls s' = (\<lambda>p. if p \<in> set ps \<and> Q (the (calls s p)) then None else calls s p)
      \<and> notified s' = notified s @ concat (map (\<lambda>p. abort_note (the (calls s p))) (filter (\<lambda>p. Q (the (calls s p))) ps))"
      by (rule Cons.IH [OF Cons.prems(1)]) (use Cons.prems in auto)
    moreover have "(\<lambda>q. q \<in> set (p # ps) \<longrightarrow> \<not> Q (the (calls s q))) = (\<lambda>q. q \<in> set ps \<longrightarrow> \<not> Q (the (calls s q)))"
      using False c by auto
    moreover have "(\<lambda>q. if q \<in> set (p # ps) \<and> Q (the (calls s q)) then None else calls s q)
        = (\<lambda>q. if q \<in> set ps \<and> Q (the (calls s q)) then None else calls s q)"
      using False c by (auto simp: fun_eq_iff)
    moreover have "walk (ends Q) s (p # ps) = walk (ends Q) s ps" using False c by (simp add: ends_def [of Q s p])
    moreover have "filter (\<lambda>p. Q (the (calls s p))) (p # ps) = filter (\<lambda>p. Q (the (calls s p))) ps"
      using False c by simp
    ultimately show ?thesis by simp
  qed
qed (auto simp: same_objects_def)

section \<open>Clearing\<close>

lemma clear_object_ok:
  assumes "objects_ok s" "objs s p = Some obj" "o_registered obj" "obus_struct_destroy (o_info obj) = Inr ()"
  obtains s' where "clear_object s p = (Inr (), s')" "objects_ok s'" "same_calls s s'" "objs s' = (objs s)(p := None)"
proof -
  note u = unregister_object_ok [OF assms(1-3)]
  let ?s = "s\<lparr>objs := (objs s)(p \<mapsto> obj\<lparr>o_registered := False\<rparr>), bobjects := remove1 p (bobjects s)\<rparr>"
  have o1: "objs ?s p = Some (obj\<lparr>o_registered := False\<rparr>)" "\<not> o_registered (obj\<lparr>o_registered := False\<rparr>)" by simp_all
  obtain s' where s': "obus_object_destroy ?s p = (map_sum id (\<lambda>_. ()) (obus_struct_destroy (o_info (obj\<lparr>o_registered := False\<rparr>))), s')"
    "objects_ok s'" "same_calls ?s s'" "\<And>q. q \<noteq> p \<Longrightarrow> objs s' q = objs ?s q"
    "obus_struct_destroy (o_info (obj\<lparr>o_registered := False\<rparr>)) = Inr () \<Longrightarrow> objs s' p = None"
    by (rule object_destroy_cases [OF u(2) o1]) (rule that)
  have "objs s' = (objs s)(p := None)" using s'(4,5) assms(4) by (auto simp: fun_eq_iff)
  moreover have "clear_object s p = (Inr (), s')"
    using u(1) s'(1) assms(4) by (simp add: clear_object_def no_fault_def)
  ultimately show thesis using that s'(2,3) by (simp add: same_calls_def)
qed

lemma clear_walk:
  assumes "objects_ok s" "distinct ps"
    "\<And>p. p \<in> set ps \<Longrightarrow> \<exists>obj. objs s p = Some obj \<and> o_registered obj \<and> obus_struct_destroy (o_info obj) = Inr ()"
  shows "\<exists>s'. walk clear_object s ps = (Inr (), s') \<and> objects_ok s' \<and> same_calls s s'
    \<and> objs s' = (\<lambda>p. if p \<in> set ps then None else objs s p)"
  using assms
proof (induction ps arbitrary: s)
  case (Cons p ps)
  obtain obj where obj: "objs s p = Some obj" "o_registered obj" "obus_struct_destroy (o_info obj) = Inr ()"
    using Cons.prems(3) [of p] by auto
  obtain s1 where s1: "clear_object s p = (Inr (), s1)" "objects_ok s1" "same_calls s s1" "objs s1 = (objs s)(p := None)"
    by (rule clear_object_ok [OF Cons.prems(1) obj])
  have "\<exists>s'. walk clear_object s1 ps = (Inr (), s') \<and> objects_ok s' \<and> same_calls s1 s'
      \<and> objs s' = (\<lambda>p. if p \<in> set ps then None else objs s1 p)"
    by (rule Cons.IH [OF s1(2)]) (use Cons.prems(2,3) s1(4) in auto)
  then show ?case using s1(1,3,4) by (auto simp: same_calls_def fun_eq_iff)
qed (simp add: same_calls_def)

text \<open>The entries of the table of objects are the objects on the bus, each once.\<close>

lemma entries_on_bus:
  assumes "objects_ok s"
  shows "distinct (map edata (entries (objects_hash s)))"
    "p \<in> set (map edata (entries (objects_hash s))) \<longleftrightarrow> (\<exists>obj. objs s p = Some obj \<and> o_bus obj)"
proof -
  let ?es = "entries (objects_hash s)"
  have ok: "hash_ok (objects_hash s)" using assms by (simp add: objects_ok_def plain_hash_def)
  then have dk: "distinct (map ekey ?es)" by (simp add: hash_ok_def)
  have look: "hash_map (objects_hash s) k = Some p \<longleftrightarrow> (\<exists>e\<in>set ?es. ekey e = k \<and> edata e = p)" for k p
    using find_key_Some [OF dk] by (auto simp: hash_map_def hash_entry_def)
  have on: "hash_map (objects_hash s) k = Some p \<longleftrightarrow>
      (\<exists>obj. objs s p = Some obj \<and> o_bus obj \<and> k = ucast (o_handle obj))" for k p
    using assms unfolding objects_ok_def by blast
  show "p \<in> set (map edata ?es) \<longleftrightarrow> (\<exists>obj. objs s p = Some obj \<and> o_bus obj)"
  proof -
    have "p \<in> set (map edata ?es) \<longleftrightarrow> (\<exists>k. hash_map (objects_hash s) k = Some p)"
      unfolding look by auto
    then show ?thesis unfolding on by blast
  qed
  have "ekey e = ekey f" if "e \<in> set ?es" "f \<in> set ?es" "edata e = edata f" for e f
  proof -
    have "hash_map (objects_hash s) (ekey e) = Some (edata e)" "hash_map (objects_hash s) (ekey f) = Some (edata e)"
      unfolding look using that by auto
    then show ?thesis unfolding on by auto
  qed
  then show "distinct (map edata ?es)"
    using dk unfolding distinct_map inj_on_def by blast
qed

section \<open>Reachable states\<close>

definition fresh_state :: "obus_bus \<Rightarrow> bus_state" where
  "fresh_state b = \<lparr>bus_api = bus_api b, calls_hash = calls_hash b, bcalls = bcalls b, objects_hash = objects_hash b,
     bobjects = bobjects b, providers_hash = providers_hash b, bproviders = bproviders b,
     objs = Map.empty, calls = Map.empty, evts = Map.empty, bevts = Map.empty, next_addr = 1, notified = []\<rparr>"

text \<open>
  What the client and the server do with a bus. The conditions are the obligations of the
  callers: an object is put on the bus once, registered while it is on the bus, taken off or
  unregistered only after that; a call is registered once and destroyed when it is off the list.
\<close>

inductive bus_step :: "memory \<Rightarrow> bus_state \<Rightarrow> bus_state \<Rightarrow> bool" for m where
  new_object: "objs s p = None \<Longrightarrow> p \<noteq> 0 \<Longrightarrow> \<not> o_bus obj \<Longrightarrow> \<not> o_registered obj \<Longrightarrow>
    bus_step m s (s\<lparr>objs := (objs s)(p \<mapsto> obj)\<rparr>)"
| set_info: "objs s p = Some obj \<Longrightarrow> bus_step m s (s\<lparr>objs := (objs s)(p \<mapsto> obj\<lparr>o_info := st\<rparr>)\<rparr>)"
| add_object: "objs s p = Some obj \<Longrightarrow> \<not> o_bus obj \<Longrightarrow> obus_bus_add_object m rnd s p = Some (r, s') \<Longrightarrow>
    bus_step m s s'"
| remove_object: "objs s p = Some obj \<Longrightarrow> o_bus obj \<Longrightarrow> \<not> o_registered obj \<Longrightarrow>
    bus_step m s (snd (obus_bus_remove_object s p))"
| register_object: "objs s p = Some obj \<Longrightarrow> o_bus obj \<Longrightarrow> \<not> o_registered obj \<Longrightarrow>
    bus_step m s (snd (obus_bus_register_object s p))"
| unregister_object: "objs s p = Some obj \<Longrightarrow> o_registered obj \<Longrightarrow>
    bus_step m s (snd (obus_bus_unregister_object s p))"
| destroy_object: "bus_step m s (snd (obus_object_destroy s p))"
| new_call: "calls s p = None \<Longrightarrow> p \<noteq> 0 \<Longrightarrow> bus_step m s (s\<lparr>calls := (calls s)(p \<mapsto> c)\<rparr>)"
| register_call: "calls s p = Some c \<Longrightarrow> p \<notin> set (bcalls s) \<Longrightarrow> obus_bus_register_call m rnd s p = Some (r, s') \<Longrightarrow>
    bus_step m s s'"
| unregister_call: "p \<in> set (bcalls s) \<Longrightarrow> bus_step m s (snd (obus_bus_unregister_call s p))"
| destroy_call: "p \<notin> set (bcalls s) \<Longrightarrow> bus_step m s (snd (obus_call_destroy s p))"
| abort_call: "(\<And>p c. p \<in> set (bcalls s) \<Longrightarrow> calls s p = Some c \<Longrightarrow> destroy_args c = Inr ()) \<Longrightarrow>
    bus_step m s (snd (obus_bus_abort_call s obj))"

lemma same_calls_refl [simp]: "same_calls s s"
  by (simp add: same_calls_def)

lemma object_step_calls:
  "same_calls s (s\<lparr>objs := f\<rparr>)" "same_calls s (snd (obus_bus_remove_object s p))"
  "same_calls s (snd (obus_bus_register_object s p))" "same_calls s (snd (obus_bus_unregister_object s p))"
  by (auto simp: same_calls_def obus_bus_remove_object_def obus_bus_register_object_def obus_bus_unregister_object_def
      Let_def split: option.splits sum.splits prod.splits)

lemma add_object_calls: "obus_bus_add_object m rnd s p = Some (r, s') \<Longrightarrow> same_calls s s'"
  by (auto simp: same_calls_def obus_bus_add_object_def Let_def split: option.splits sum.splits prod.splits if_splits)

lemma call_step_objects:
  "same_objects s (s\<lparr>calls := f\<rparr>)" "same_objects s (snd (obus_bus_unregister_call s p))"
  "same_objects s (snd (obus_call_destroy s p))"
  by (auto simp: same_objects_def obus_bus_unregister_call_def obus_call_destroy_def
      split: option.splits sum.splits prod.splits)

lemma register_call_objects: "obus_bus_register_call m rnd s p = Some (r, s') \<Longrightarrow> same_objects s s'"
  by (auto simp: same_objects_def obus_bus_register_call_def Let_def split: option.splits sum.splits prod.splits if_splits)

lemma destroy_object_step:
  assumes "objects_ok s"
  shows "objects_ok (snd (obus_object_destroy s p)) \<and> same_calls s (snd (obus_object_destroy s p))"
proof (cases "\<exists>obj. objs s p = Some obj \<and> \<not> o_registered obj")
  case True
  then obtain obj where "objs s p = Some obj" "\<not> o_registered obj" by blast
  then obtain s' where "obus_object_destroy s p = (map_sum id (\<lambda>_. ()) (obus_struct_destroy (o_info obj)), s')"
    "objects_ok s'" "same_calls s s'"
    by (rule object_destroy_cases [OF assms]) (rule that)
  then show ?thesis by simp
next
  case False
  then have "snd (obus_object_destroy s p) = s" by (auto simp: obus_object_destroy_def split: option.splits)
  then show ?thesis using assms by simp
qed

lemma call_destroy_ok:
  assumes "calls_ok s" "p \<notin> set (bcalls s)"
  shows "calls_ok (snd (obus_call_destroy s p))"
  using assms calls_ok_off_list [OF assms, of None]
  by (auto simp: obus_call_destroy_def split: option.splits sum.splits)

lemma ends_all:
  assumes "calls_ok s" "\<And>p c. p \<in> set (bcalls s) \<Longrightarrow> calls s p = Some c \<Longrightarrow> destroy_args c = Inr ()"
  obtains s' where "walk (ends Q) s (bcalls s) = (Inr (), s')" "calls_ok s'" "same_objects s s'"
    "bcalls s' = filter (\<lambda>p. \<not> Q (the (calls s p))) (bcalls s)"
    "calls s' = (\<lambda>p. if p \<in> set (bcalls s) \<and> Q (the (calls s p)) then None else calls s p)"
    "notified s' = notified s @ concat (map (\<lambda>p. abort_note (the (calls s p))) (filter (\<lambda>p. Q (the (calls s p))) (bcalls s)))"
proof -
  have d: "distinct (bcalls s)" using assms(1) by (simp add: calls_ok_def)
  have f: "filter (\<lambda>p. p \<in> set (bcalls s) \<longrightarrow> \<not> Q (the (calls s p))) (bcalls s) = filter (\<lambda>p. \<not> Q (the (calls s p))) (bcalls s)"
    by (rule filter_cong) auto
  have "\<exists>s'. walk (ends Q) s (bcalls s) = (Inr (), s') \<and> calls_ok s' \<and> same_objects s s'
      \<and> bcalls s' = filter (\<lambda>p. \<not> Q (the (calls s p))) (bcalls s)
      \<and> calls s' = (\<lambda>p. if p \<in> set (bcalls s) \<and> Q (the (calls s p)) then None else calls s p)
      \<and> notified s' = notified s @ concat (map (\<lambda>p. abort_note (the (calls s p))) (filter (\<lambda>p. Q (the (calls s p))) (bcalls s)))"
    unfolding f [symmetric] by (rule ends_walk [OF assms(1) d subset_refl]) (rule assms(2))
  then show thesis using that by blast
qed

lemma bus_step_ok:
  assumes "bus_step m s s'" "objects_ok s" "calls_ok s"
  shows "objects_ok s' \<and> calls_ok s'"
  using assms
proof (induction rule: bus_step.induct)
  case (new_object s p obj)
  have "objects_ok (s\<lparr>objs := (objs s)(p \<mapsto> obj)\<rparr>)"
    by (rule objects_ok_off_bus) (use new_object in auto)
  then show ?case using new_object(6) same_calls_ok [OF object_step_calls(1)] by simp
next
  case (set_info s p obj st)
  have "objects_ok (s\<lparr>objs := (objs s)(p \<mapsto> obj\<lparr>o_info := st\<rparr>)\<rparr>)"
    by (rule objects_ok_update [OF set_info(2,1)]) simp_all
  then show ?case using set_info(3) same_calls_ok [OF object_step_calls(1)] by simp
next
  case (add_object s p obj rnd r s')
  from add_object(4,1,2,3) have "objects_ok s'"
    by (cases rule: add_object_cases) (use add_object(4) in simp_all)
  then show ?case using add_object(5) same_calls_ok [OF add_object_calls [OF add_object(3)]] by simp
next
  case (remove_object s p obj)
  have "objects_ok (snd (obus_bus_remove_object s p))"
    by (rule remove_object_ok [OF remove_object(4,1-3)]) simp
  then show ?case using remove_object(5) same_calls_ok [OF object_step_calls(2)] by simp
next
  case (register_object s p obj)
  then show ?case using register_object_ok [OF register_object(4,1-3)] same_calls_ok [OF object_step_calls(3), of s p]
    by simp
next
  case (unregister_object s p obj)
  then show ?case using unregister_object_ok [OF unregister_object(3,1,2)] same_calls_ok [OF object_step_calls(4), of s p]
    by simp
next
  case (destroy_object s p)
  then show ?case using destroy_object_step [of s p] same_calls_ok by blast
next
  case (new_call s p c)
  have "p \<notin> set (bcalls s)" using listed_call [OF new_call(4), of p] new_call(1) by auto
  then have "calls_ok (s\<lparr>calls := (calls s)(p \<mapsto> c)\<rparr>)" using calls_ok_off_list [OF new_call(4)] new_call(2) by blast
  then show ?case using new_call(3) same_objects_ok [OF call_step_objects(1)] by simp
next
  case (register_call s p c rnd r s')
  from register_call(5,1,2,3) have "calls_ok s'"
    by (cases rule: register_call_cases) (use register_call(5) in simp_all)
  then show ?case using register_call(4) same_objects_ok [OF register_call_objects [OF register_call(3)]] by simp
next
  case (unregister_call p s)
  have "calls_ok (snd (obus_bus_unregister_call s p))"
    by (rule unregister_call_ok [OF unregister_call(3,1)]) simp
  then show ?case using unregister_call(2) same_objects_ok [OF call_step_objects(2)] by simp
next
  case (destroy_call p s)
  then show ?case using call_destroy_ok [OF destroy_call(3,1)] same_objects_ok [OF call_step_objects(3), of s p] by simp
next
  case (abort_call s obj)
  obtain s' where "obus_bus_abort_call s obj = (Inr (), s')" "calls_ok s'" "same_objects s s'"
    unfolding abort_call_ends by (rule ends_all [OF abort_call(3,1)]) (assumption | rule that)+
  then show ?case using abort_call(2) same_objects_ok by simp
qed

lemma bus_init_ok:
  assumes "obus_bus_init m desc = Inr b"
  shows "objects_ok (fresh_state b)" "calls_ok (fresh_state b)"
proof -
  obtain api hc ho hp where b: "b = \<lparr>bus_api = api, calls_hash = hc, bcalls = [], objects_hash = ho, bobjects = [],
      providers_hash = hp, bproviders = []\<rparr>"
    "snd (obus_hash_init m OBUS_BUS_HASH_SIZE) = Some ho" "snd (obus_hash_init m OBUS_BUS_HASH_SIZE) = Some hc"
    using assms by (auto simp: obus_bus_init_def split: sum.splits option.splits)
  have "plain_hash h \<and> hash_map h = Map.empty" if "snd (obus_hash_init m n) = Some h" for n and h :: "addr obus_hash"
  proof -
    from that obtain r where r: "obus_hash_init m n = (r, Some h)" by (metis prod.collapse)
    then show ?thesis using init_ok [OF r] by (simp add: plain_hash_def hash_map_def fun_eq_iff)
  qed
  with b show "objects_ok (fresh_state b)" "calls_ok (fresh_state b)"
    by (auto simp: fresh_state_def objects_ok_def calls_ok_def)
qed

section \<open>Properties of the bus\<close>

lemma objects_lookup:
  "objects_ok s \<Longrightarrow> hash_map (objects_hash s) k = Some p \<longleftrightarrow>
     (\<exists>obj. objs s p = Some obj \<and> o_bus obj \<and> k = ucast (o_handle obj))"
  unfolding objects_ok_def by blast

lemma plain_hashes: "objects_ok s \<Longrightarrow> plain_hash (objects_hash s)" "calls_ok s \<Longrightarrow> plain_hash (calls_hash s)"
  by (simp_all add: objects_ok_def calls_ok_def)

lemma bus_object_map:
  "objects_ok s \<Longrightarrow> obus_bus_object s h =
     (if h = OBUS_INVALID_HANDLE then 0 else case hash_map (objects_hash s) (ucast h) of None \<Rightarrow> 0 | Some p \<Rightarrow> p)"
  by (simp add: obus_bus_object_def data_hash.get_eq [OF plain_hashes(1)] split: option.splits)

lemma bus_object_iff:
  assumes "objects_ok s" "p \<noteq> 0"
  shows "obus_bus_object s h = p \<longleftrightarrow> (\<exists>obj. objs s p = Some obj \<and> o_bus obj \<and> o_handle obj = h)"
proof -
  have nz: "objs s p = Some obj \<Longrightarrow> o_bus obj \<Longrightarrow> o_handle obj \<noteq> OBUS_INVALID_HANDLE" for obj
    using assms(1) unfolding objects_ok_def by blast
  have "obus_bus_object s h = p \<longleftrightarrow> h \<noteq> OBUS_INVALID_HANDLE \<and> hash_map (objects_hash s) (ucast h) = Some p"
    using assms by (auto simp: bus_object_map split: option.splits)
  then show ?thesis unfolding objects_lookup [OF assms(1)] using nz by (auto simp: ucast_u16_inject)
qed

lemma bus_call_iff:
  assumes "calls_ok s" "p \<in> set (bcalls s)" "calls s p = Some c"
  shows "obus_bus_call s (c_handle c) = p"
proof -
  obtain c' where "calls s p = Some c'" "c_handle c' \<noteq> OBUS_INVALID_HANDLE"
    "hash_map (calls_hash s) (ucast (c_handle c')) = Some p" by (rule listed_call [OF assms(1,2)])
  then show ?thesis using assms(3) by (simp add: obus_bus_call_def data_hash.get_eq [OF plain_hashes(2) [OF assms(1)]])
qed

text \<open>
  C4. Handles on a bus. Whatever a client or server does with a bus from its initialisation on,
  within its obligations, a handle names exactly the object on the bus that has it, so no two
  objects on the bus share one; the list of registered objects has no duplicates and all its
  elements are registered objects that are found by their handle; and every pending call is
  found by its handle.
\<close>

theorem bus_reachable_ok:
  assumes "obus_bus_init m desc = Inr b" "(bus_step m)\<^sup>*\<^sup>* (fresh_state b) s"
  shows "(\<forall>h p. p \<noteq> 0 \<longrightarrow> (obus_bus_object s h = p \<longleftrightarrow> (\<exists>obj. objs s p = Some obj \<and> o_bus obj \<and> o_handle obj = h)))
    \<and> distinct (bobjects s)
    \<and> (\<forall>p\<in>set (bobjects s). \<exists>obj. objs s p = Some obj \<and> o_registered obj \<and> obus_bus_object s (o_handle obj) = p)
    \<and> distinct (bcalls s)
    \<and> (\<forall>p\<in>set (bcalls s). \<exists>c. calls s p = Some c \<and> obus_bus_call s (c_handle c) = p)"
proof -
  from assms(2) have ok: "objects_ok s" "calls_ok s"
    by (induction rule: rtranclp_induct) (use bus_init_ok [OF assms(1)] bus_step_ok in blast)+
  have "\<exists>obj. objs s p = Some obj \<and> o_registered obj \<and> obus_bus_object s (o_handle obj) = p" if "p \<in> set (bobjects s)" for p
  proof -
    from that ok(1) obtain obj where "objs s p = Some obj" "o_registered obj" "o_bus obj"
      unfolding objects_ok_def by blast
    then show ?thesis using bus_object_iff [OF ok(1), of p "o_handle obj"] objects_nonzero [OF ok(1), of p obj] by blast
  qed
  moreover have "\<exists>c. calls s p = Some c \<and> obus_bus_call s (c_handle c) = p" if "p \<in> set (bcalls s)" for p
    using listed_call [OF ok(2) that] bus_call_iff [OF ok(2) that] by metis
  moreover have "distinct (bobjects s)" "distinct (bcalls s)"
    using ok by (simp_all add: objects_ok_def calls_ok_def)
  ultimately show ?thesis using bus_object_iff [OF ok(1)] by blast
qed

lemma pick_handle_finds:
  assumes "plain_hash h" "\<forall>x\<in>set xs. x \<noteq> OBUS_INVALID_HANDLE \<and> hash_map h (ucast x) \<noteq> None"
    "r \<noteq> OBUS_INVALID_HANDLE" "hash_map h (ucast r) = None"
  shows "pick_handle h (xs @ r # ys) = Some (Inr r)"
  using assms(2) by (induction xs) (use assms in \<open>auto simp: data_hash.get_eq\<close>)

text \<open>
  Adding an object. An object without a handle gets the first random number that is not the
  handle of another object: the loop ends there, the object is then found under that handle,
  every other lookup is unchanged, and the bus invariant holds.
\<close>

theorem add_object_new_handle:
  assumes "objects_ok s" "objs s p = Some obj" "\<not> o_bus obj" "od_uid (o_desc obj) \<noteq> OBUS_INVALID_UID"
    "o_handle obj = OBUS_INVALID_HANDLE" "alloc_ok m sizeof_hash_entry"
    "\<forall>x\<in>set xs. x \<noteq> OBUS_INVALID_HANDLE \<and> obus_bus_object s x \<noteq> 0"
    "r \<noteq> OBUS_INVALID_HANDLE" "obus_bus_object s r = 0"
  shows "\<exists>s'. obus_bus_add_object m (xs @ r # ys) s p = Some (Inr (), s') \<and> objects_ok s'
    \<and> objs s' p = Some (obj\<lparr>o_handle := r, o_bus := True\<rparr>)
    \<and> obus_bus_object s' r = p \<and> (\<forall>h. h \<noteq> r \<longrightarrow> obus_bus_object s' h = obus_bus_object s h)"
proof -
  have h0: "plain_hash (objects_hash s)" using assms(1) by (simp add: objects_ok_def)
  have p: "p \<noteq> 0" using objects_nonzero [OF assms(1,2)] .
  have nz: "hash_map (objects_hash s) k \<noteq> Some 0" for k
    using objects_lookup [OF assms(1)] assms(1) by (simp add: objects_ok_def)
  have r: "hash_map (objects_hash s) (ucast r) = None"
    using assms(8,9) nz [of "ucast r"] by (auto simp: bus_object_map [OF assms(1)] split: option.splits)
  have "pick_handle (objects_hash s) (xs @ r # ys) = Some (Inr r)"
    by (rule pick_handle_finds [OF h0])
      (use assms(7,8) r in \<open>auto simp: bus_object_map [OF assms(1)] split: option.splits\<close>)
  with data_hash.ins_new [OF h0 assms(6) r, of p] obtain h where h: "plain_hash h"
      "hash_map h = (hash_map (objects_hash s))(ucast r \<mapsto> p)"
      "obus_bus_add_object m (xs @ r # ys) s p = Some (Inr (), s\<lparr>objects_hash := h,
         objs := (objs s)(p \<mapsto> obj\<lparr>o_handle := r, o_bus := True\<rparr>)\<rparr>)"
    using p assms(2,4,5) unfolding obus_bus_add_object_def by force
  let ?s = "s\<lparr>objects_hash := h, objs := (objs s)(p \<mapsto> obj\<lparr>o_handle := r, o_bus := True\<rparr>)\<rparr>"
  from assms(1-3) h(3) have ok: "objects_ok ?s" by (cases rule: add_object_cases) auto
  have "obus_bus_object ?s k = (if k = r then p else obus_bus_object s k)" for k
    unfolding bus_object_map [OF ok] bus_object_map [OF assms(1)] using h(2) assms(8) by (simp add: ucast_u16_inject)
  then show ?thesis using h(3) ok by simp
qed

text \<open>
  Aborting calls. \<open>obus_bus_abort_call\<close> for an object (or, with NULL, for all) takes exactly
  the pending calls of that object off the bus, in their order tells each of them with a
  callback that it was aborted, exactly once, and frees it; the other calls stay pending in
  their order and are found by their handles, those ended are no longer found.
\<close>

theorem abort_call_spec:
  assumes "calls_ok s" "\<forall>p c. p \<in> set (bcalls s) \<longrightarrow> calls s p = Some c \<longrightarrow> destroy_args c = Inr ()"
  shows "\<exists>s'. obus_bus_abort_call s obj = (Inr (), s') \<and> calls_ok s'
    \<and> (let ended = (\<lambda>p. obj = 0 \<or> c_obj (the (calls s p)) = obj) in
       bcalls s' = filter (\<lambda>p. \<not> ended p) (bcalls s)
       \<and> notified s' = notified s @ concat (map (\<lambda>p. abort_note (the (calls s p))) (filter ended (bcalls s)))
       \<and> (\<forall>p\<in>set (bcalls s). if ended p then calls s' p = None \<and> obus_bus_call s' (c_handle (the (calls s p))) = 0
            else calls s' p = calls s p \<and> obus_bus_call s' (c_handle (the (calls s p))) = p))"
proof -
  let ?Q = "\<lambda>c. obj = 0 \<or> c_obj c = obj"
  obtain s' where s': "walk (ends ?Q) s (bcalls s) = (Inr (), s')" "calls_ok s'" "same_objects s s'"
    "bcalls s' = filter (\<lambda>p. \<not> ?Q (the (calls s p))) (bcalls s)"
    "calls s' = (\<lambda>p. if p \<in> set (bcalls s) \<and> ?Q (the (calls s p)) then None else calls s p)"
    "notified s' = notified s @ concat (map (\<lambda>p. abort_note (the (calls s p))) (filter (\<lambda>p. ?Q (the (calls s p))) (bcalls s)))"
    by (rule ends_all [where Q = ?Q, OF assms(1)]) (use assms(2) in blast)+
  have "if ?Q (the (calls s p)) then calls s' p = None \<and> obus_bus_call s' (c_handle (the (calls s p))) = 0
      else calls s' p = calls s p \<and> obus_bus_call s' (c_handle (the (calls s p))) = p" if p: "p \<in> set (bcalls s)" for p
  proof -
    obtain c where c: "calls s p = Some c" using listed_call [OF assms(1) p] by blast
    show ?thesis
    proof (cases "?Q c")
      case True
      have "hash_map (calls_hash s') (ucast (c_handle c)) \<noteq> Some q" for q
        unfolding calls_lookup [OF s'(2)] unfolding s'(4,5)
        using call_handle_inject [OF assms(1) p _ c] True c by (auto simp: ucast_u16_inject)
      then have "hash_map (calls_hash s') (ucast (c_handle c)) = None" by (cases "hash_map (calls_hash s') (ucast (c_handle c))") auto
      then have "obus_bus_call s' (c_handle c) = 0"
        by (simp add: obus_bus_call_def data_hash.get_eq [OF plain_hashes(2) [OF s'(2)]])
      then show ?thesis using c True p s'(5) by simp
    next
      case False
      then have "p \<in> set (bcalls s')" "calls s' p = Some c" unfolding s'(4,5) using c p by simp_all
      then show ?thesis using bus_call_iff [OF s'(2)] c False by simp
    qed
  qed
  then show ?thesis using s'(1,2,4,6) unfolding abort_call_ends Let_def by blast
qed

lemma objects_listed:
  assumes "objects_ok s" "p \<in> set (bobjects s)"
  obtains obj where "objs s p = Some obj" "o_registered obj" "o_bus obj"
  using assms unfolding objects_ok_def by blast

lemma walk_append: "walk f s (xs @ ys) = chk (walk f s xs) (\<lambda>_ s. walk f s ys)"
  by (induction xs arbitrary: s) (simp_all add: chk_chk)

text \<open>
  Clearing the bus. When every object on the bus is registered, \<open>obus_bus_clear\<close> succeeds:
  each pending call is aborted, in order and once, every object is unregistered and freed, and
  afterwards no handle names an object or a call.
\<close>

theorem bus_clear_spec:
  assumes "objects_ok s" "calls_ok s"
    "\<forall>p c. p \<in> set (bcalls s) \<longrightarrow> calls s p = Some c \<longrightarrow> destroy_args c = Inr ()"
    "\<forall>p obj. objs s p = Some obj \<longrightarrow> o_bus obj \<longrightarrow> o_registered obj \<and> obus_struct_destroy (o_info obj) = Inr ()"
  shows "\<exists>s'. obus_bus_clear s = (Inr (), s') \<and> bcalls s' = [] \<and> bobjects s' = []
    \<and> (\<forall>h. obus_bus_object s' h = 0 \<and> obus_bus_call s' h = 0)
    \<and> notified s' = notified s @ concat (map (\<lambda>p. abort_note (the (calls s p))) (bcalls s))
    \<and> (\<forall>p\<in>set (bobjects s). objs s' p = None)"
proof -
  obtain s1 where s1: "walk (ends (\<lambda>_. True)) s (bcalls s) = (Inr (), s1)" "calls_ok s1" "same_objects s s1" "bcalls s1 = []"
    "notified s1 = notified s @ concat (map (\<lambda>p. abort_note (the (calls s p))) (bcalls s))"
    by (rule ends_all [where Q = "\<lambda>_. True", OF assms(2)]) (use assms(3) in auto)
  let ?ps = "map edata (entries (objects_hash s1))"
  have ok1: "objects_ok s1" using same_objects_ok [OF s1(3)] assms(1) by simp
  have o1: "objs s1 = objs s" using s1(3) by (simp add: same_objects_def)
  have "\<exists>s'. walk clear_object s1 ?ps = (Inr (), s') \<and> objects_ok s' \<and> same_calls s1 s'
      \<and> objs s' = (\<lambda>p. if p \<in> set ?ps then None else objs s1 p)"
    by (rule clear_walk [OF ok1 entries_on_bus(1) [OF ok1]])
      (use entries_on_bus(2) [OF ok1] assms(4) o1 in fastforce)
  then obtain s' where s': "walk clear_object s1 ?ps = (Inr (), s')" "objects_ok s'" "same_calls s1 s'"
    "objs s' = (\<lambda>p. if p \<in> set ?ps then None else objs s1 p)" by blast
  have off: "\<not> o_bus obj" if "objs s' p = Some obj" for p obj
    using that entries_on_bus(2) [OF ok1, of p] unfolding s'(4) by (auto split: if_splits)
  have nm: "hash_map (objects_hash s') k = None" for k
    using objects_lookup [OF s'(2), of k] off by (cases "hash_map (objects_hash s') k") auto
  have "\<forall>p. p \<notin> set (bobjects s')"
  proof (intro allI notI)
    fix p
    assume "p \<in> set (bobjects s')"
    then obtain obj where "objs s' p = Some obj" "o_bus obj" by (rule objects_listed [OF s'(2)])
    then show False using off by blast
  qed
  then have "bobjects s' = []" by (cases "bobjects s'") auto
  moreover have "obus_bus_object s' h = 0" for h by (simp add: bus_object_map [OF s'(2)] nm)
  moreover have c': "calls_ok s'" "bcalls s' = []"
    using same_calls_ok [OF s'(3)] s1(2,4) s'(3) by (simp, simp add: same_calls_def)
  have "hash_map (calls_hash s') k = None" for k
    using calls_lookup [OF c'(1), of k] c'(2) by (cases "hash_map (calls_hash s') k") auto
  then have "obus_bus_call s' h = 0" for h
    by (simp add: obus_bus_call_def data_hash.get_eq [OF plain_hashes(2) [OF c'(1)]])
  moreover have "objs s' p = None" if p: "p \<in> set (bobjects s)" for p
  proof -
    obtain obj where "objs s p = Some obj" "o_bus obj" using objects_listed [OF assms(1) p] by blast
    then show ?thesis using entries_on_bus(2) [OF ok1, of p] o1 unfolding s'(4) by auto
  qed
  moreover have "obus_bus_clear s = (Inr (), s')"
    using s1(1) s'(1) by (simp add: obus_bus_clear_def end_call_ends)
  moreover have "notified s' = notified s1" using s'(3) by (simp add: same_calls_def)
  ultimately show ?thesis using c'(2) s1(5) by simp
qed

text \<open>
  Clearing a bus with an object that was added but not registered follows a wild pointer:
  \<open>obus_bus_clear\<close> unregisters every object of the table, and unregistering unlinks a node that
  was never linked, whose pointers are the poison addresses.
\<close>

theorem bus_clear_unregistered_faults:
  assumes "objects_ok s" "bcalls s = []" "objs s p = Some obj" "\<not> o_registered obj"
    "map edata (entries (objects_hash s)) = xs @ p # ys"
    "\<forall>q\<in>set xs. \<exists>x. objs s q = Some x \<and> o_registered x \<and> obus_struct_destroy (o_info x) = Inr ()"
  shows "fst (obus_bus_clear s) = Inl FAULT"
proof -
  have d: "distinct (xs @ p # ys)" using entries_on_bus(1) [OF assms(1)] assms(5) by simp
  have "\<exists>s'. walk clear_object s xs = (Inr (), s') \<and> objects_ok s' \<and> same_calls s s'
      \<and> objs s' = (\<lambda>p. if p \<in> set xs then None else objs s p)"
    by (rule clear_walk [OF assms(1)]) (use d assms(6) in auto)
  then obtain s' where s': "walk clear_object s xs = (Inr (), s')" "objects_ok s'"
    "objs s' = (\<lambda>p. if p \<in> set xs then None else objs s p)" by blast
  have o: "objs s' p = Some obj" using s'(3) assms(3) d by simp
  have "p \<notin> set (bobjects s')" using objects_listed [OF s'(2), of p] o assms(4) by auto
  then have "fst (clear_object s' p) = Inl FAULT"
    using o by (simp add: clear_object_def obus_bus_unregister_object_def unlink_def Let_def)
  then have "fst (walk clear_object s' (p # ys)) = Inl FAULT"
    by (cases "clear_object s' p") auto
  then show ?thesis using assms(2,5) s'(1) by (simp add: obus_bus_clear_def walk_append)
qed

lemma first_with_filter: "first_with P xs = (case filter P xs of [] \<Rightarrow> 0 | p # _ \<Rightarrow> p)"
  by (induction xs) auto

lemma behind_split:
  assumes "p \<in> set xs"
  obtains ys where "xs = ys @ p # behind xs p"
proof -
  have ne: "dropWhile (\<lambda>q. q \<noteq> p) xs \<noteq> []" using assms by (auto simp: dropWhile_eq_Nil_conv)
  have "hd (dropWhile (\<lambda>q. q \<noteq> p) xs) = p" using hd_dropWhile [OF ne] by simp
  then have "dropWhile (\<lambda>q. q \<noteq> p) xs = p # behind xs p"
    using list.collapse [OF ne] by (simp add: behind_def)
  then have "xs = takeWhile (\<lambda>q. q \<noteq> p) xs @ p # behind xs p"
    using takeWhile_dropWhile_id [of "\<lambda>q. q \<noteq> p" xs] by simp
  then show thesis by (rule that)
qed

text \<open>
  Iterating over objects. Starting from NULL and passing each result back in,
  \<open>obus_bus_object_next\<close> yields the registered objects with the wanted identifier (all of them
  for the invalid identifier) in the order of registration, each once, and then NULL.
\<close>

theorem object_next_enumerates:
  assumes "objects_ok s" "xs = filter (has_uid s uid) (bobjects s)"
  shows "obus_bus_object_next s 0 uid = Inr (if xs = [] then 0 else xs ! 0)
    \<and> obus_bus_object_first s uid = (if xs = [] then 0 else xs ! 0)
    \<and> (\<forall>i<length xs. obus_bus_object_next s (xs ! i) uid = Inr (if Suc i < length xs then xs ! Suc i else 0))"
proof -
  have d: "distinct (bobjects s)" using assms(1) by (simp add: objects_ok_def)
  then have dx: "distinct xs" using assms(2) by simp
  have "obus_bus_object_next s (xs ! i) uid = Inr (if Suc i < length xs then xs ! Suc i else 0)" if i: "i < length xs" for i
  proof -
    let ?p = "xs ! i"
    have p: "?p \<in> set (bobjects s)" "has_uid s uid ?p" using nth_mem [OF i] assms(2) by auto
    have nz: "?p \<noteq> 0" using objects_listed [OF assms(1) p(1)] objects_nonzero [OF assms(1)] by metis
    obtain ys where ys: "bobjects s = ys @ ?p # behind (bobjects s) ?p" by (rule behind_split [OF p(1)])
    let ?a = "filter (has_uid s uid) ys" and ?c = "filter (has_uid s uid) (behind (bobjects s) ?p)"
    have "xs = filter (has_uid s uid) (ys @ ?p # behind (bobjects s) ?p)" using assms(2) ys by simp
    then have x: "xs = ?a @ ?p # ?c" using p(2) by simp
    then have "xs ! length ?a = xs ! i" "length ?a < length xs" by (metis nth_append_length, metis length_append less_add_Suc1 list.size(4) add_Suc_right)
    then have l: "length ?a = i" using nth_eq_iff_index_eq [OF dx _ i] by simp
    have "first_with (has_uid s uid) (behind (bobjects s) ?p) = (if Suc i < length xs then xs ! Suc i else 0)"
    proof (cases ?c)
      case Nil
      then have "length xs = Suc i" using x l by (metis length_append_singleton)
      then show ?thesis using Nil by (simp add: first_with_filter)
    next
      case (Cons c cs)
      then have "xs = ?a @ ?p # c # cs" using x by simp
      then have "xs ! Suc (length ?a) = c" "Suc (length ?a) < length xs"
        by (metis append.assoc append_Cons append_Nil length_append_singleton nth_append_length) 
          (metis \<open>xs = ?a @ ?p # c # cs\<close> add_Suc_right length_Cons length_append less_add_Suc1 Suc_less_eq)
      then show ?thesis using Cons l by (simp add: first_with_filter)
    qed
    then show ?thesis using p(1) nz by (simp add: obus_bus_object_next_def)
  qed
  moreover have "first_with (has_uid s uid) (bobjects s) = (if xs = [] then 0 else xs ! 0)"
    unfolding first_with_filter assms(2) [symmetric] by (cases xs) simp_all
  ultimately show ?thesis by (simp add: obus_bus_object_next_def obus_bus_object_first_def)
qed

section \<open>An example\<close>

lemma full_memory_alloc: "n < SSIZE_LIMIT \<Longrightarrow> alloc_ok full_memory n"
  by (simp add: full_memory_def)

text \<open>A bus with one object (address 1, handle 17) that is not on the bus yet.\<close>

lemma sample_start:
  obtains b s where "obus_bus_init full_memory sample_bus = Inr b" "(bus_step full_memory)\<^sup>*\<^sup>* (fresh_state b) s"
    "objects_ok s" "calls_ok s" "objs s = [1 \<mapsto> sample_object]" "bcalls s = []" "bobjects s = []"
    "hash_map (objects_hash s) = Map.empty" "api_ok (bus_api s)"
    "obus_bus_api_object (bus_api s) 3 = Some sample_od" "obus_bus_api_method (bus_api s) 3 7 = Some sample_method"
    "obus_bus_api_event (bus_api s) 3 5 = Some sample_event" "obus_bus_api_bus_event (bus_api s) 2 = Some \<lparr>be_uid = 2\<rparr>"
    "next_addr s = 1" "evts s = Map.empty" "bevts s = Map.empty" "calls s = Map.empty"
proof -
  obtain api where api: "obus_bus_api_init full_memory sample_bus = Inr api" "api_ok api"
    "obus_bus_api_object api 3 = Some sample_od" "obus_bus_api_method api 3 7 = Some sample_method"
    "obus_bus_api_event api 3 5 = Some sample_event" "obus_bus_api_bus_event api 2 = Some \<lparr>be_uid = 2\<rparr>"
    by (rule sample_api)
  have en: "enough full_memory (2 ^ 35)" by simp
  obtain ho :: "addr obus_hash" where ho: "obus_hash_init full_memory OBUS_BUS_HASH_SIZE = (Inr (), Some ho)"
      "hash_map ho = Map.empty"
    by (rule hash_init_enough [OF en])
  obtain hp :: "obus_provider obus_hash" where hp: "obus_hash_init full_memory (length (bd_objects (api_desc api))) = (Inr (), Some hp)"
    by (rule hash_init_enough [OF en])
  let ?b = "\<lparr>bus_api = api, calls_hash = ho, bcalls = [], objects_hash = ho, bobjects = [], providers_hash = hp, bproviders = []\<rparr>"
  have b: "obus_bus_init full_memory sample_bus = Inr ?b"
    using api(1) ho(1) hp by (simp add: obus_bus_init_def)
  let ?s = "(fresh_state ?b)\<lparr>objs := (objs (fresh_state ?b))(1 \<mapsto> sample_object)\<rparr>"
  have st: "bus_step full_memory (fresh_state ?b) ?s"
    by (rule bus_step.new_object) (simp_all add: fresh_state_def sample_object_def)
  note ok = bus_step_ok [OF st bus_init_ok [OF b]]
  show thesis
    by (rule that [of ?b ?s]) (use b st ok ho(2) api in \<open>simp_all add: fresh_state_def\<close>)
qed

text \<open>The object put on the bus.\<close>

lemma sample_added:
  obtains b s where "obus_bus_init full_memory sample_bus = Inr b" "(bus_step full_memory)\<^sup>*\<^sup>* (fresh_state b) s"
    "objects_ok s" "calls_ok s" "objs s = [1 \<mapsto> sample_object\<lparr>o_bus := True\<rparr>]" "bcalls s = []" "bobjects s = []"
    "api_ok (bus_api s)"
    "obus_bus_api_object (bus_api s) 3 = Some sample_od" "obus_bus_api_method (bus_api s) 3 7 = Some sample_method"
    "obus_bus_api_event (bus_api s) 3 5 = Some sample_event" "obus_bus_api_bus_event (bus_api s) 2 = Some \<lparr>be_uid = 2\<rparr>"
    "next_addr s = 1" "evts s = Map.empty" "bevts s = Map.empty" "calls s = Map.empty"
proof -
  obtain b s where s: "obus_bus_init full_memory sample_bus = Inr b" "(bus_step full_memory)\<^sup>*\<^sup>* (fresh_state b) s"
    "objects_ok s" "calls_ok s" "objs s = [1 \<mapsto> sample_object]" "bcalls s = []" "bobjects s = []"
    "hash_map (objects_hash s) = Map.empty" "api_ok (bus_api s)"
    "obus_bus_api_object (bus_api s) 3 = Some sample_od" "obus_bus_api_method (bus_api s) 3 7 = Some sample_method"
    "obus_bus_api_event (bus_api s) 3 5 = Some sample_event" "obus_bus_api_bus_event (bus_api s) 2 = Some \<lparr>be_uid = 2\<rparr>"
    "next_addr s = 1" "evts s = Map.empty" "bevts s = Map.empty" "calls s = Map.empty"
    by (rule sample_start)
  from data_hash.ins_new [OF plain_hashes(1) [OF s(3)], of full_memory 17 1] obtain h where
    h: "obus_hash_insert full_memory (objects_hash s) 17 1 = (Inr (), h)"
    using s(8) by (auto simp: full_memory_alloc sizeof_hash_entry_def)
  let ?s = "s\<lparr>objects_hash := h, objs := (objs s)(1 \<mapsto> sample_object\<lparr>o_bus := True\<rparr>)\<rparr>"
  have a: "obus_bus_add_object full_memory [] s 1 = Some (Inr (), ?s)"
    using h s(5) by (simp add: obus_bus_add_object_def Let_def OBUS_INVALID_UID_def OBUS_INVALID_HANDLE_def sample_bus_defs)
  have st: "bus_step full_memory s ?s"
    by (rule bus_step.add_object [OF _ _ a, of sample_object]) (simp add: s(5), simp add: sample_object_def)
  note ok = bus_step_ok [OF st s(3,4)]
  have r: "(bus_step full_memory)\<^sup>*\<^sup>* (fresh_state b) ?s" using s(2) st by (rule rtranclp.rtrancl_into_rtrancl)
  show thesis
    by (rule that [of b ?s]) (use s(1,4-7,9-) r ok in \<open>simp_all add: fun_eq_iff\<close>)
qed

lemma bus_reachable_ok_witness:
  "\<exists>b s. obus_bus_init full_memory sample_bus = Inr b \<and> (bus_step full_memory)\<^sup>*\<^sup>* (fresh_state b) s
    \<and> obus_bus_object s 17 = 1"
proof -
  obtain b s where s: "obus_bus_init full_memory sample_bus = Inr b" "(bus_step full_memory)\<^sup>*\<^sup>* (fresh_state b) s"
    "objs s = [1 \<mapsto> sample_object\<lparr>o_bus := True\<rparr>]" by (rule sample_added)
  then show ?thesis using bus_reachable_ok [OF s(1,2)] by (auto simp: sample_object_def)
qed

lemma add_object_new_handle_witness:
  "\<exists>s s'. objs s 1 \<noteq> None \<and> obus_bus_add_object full_memory [9] s 1 = Some (Inr (), s') \<and> obus_bus_object s' 9 = 1"
proof -
  obtain b s where s: "objects_ok s" "objs s = [1 \<mapsto> sample_object]" "hash_map (objects_hash s) = Map.empty"
    by (rule sample_start)
  let ?o = "sample_object\<lparr>o_handle := 0\<rparr>"
  let ?s = "s\<lparr>objs := (objs s)(1 \<mapsto> ?o)\<rparr>"
  have ok: "objects_ok ?s" by (rule objects_ok_off_bus [OF s(1)]) (simp_all add: s(2) sample_object_def)
  have o: "objs ?s 1 = Some ?o" "\<not> o_bus ?o" "od_uid (o_desc ?o) \<noteq> OBUS_INVALID_UID" "o_handle ?o = OBUS_INVALID_HANDLE"
    by (simp_all add: sample_bus_defs OBUS_INVALID_UID_def OBUS_INVALID_HANDLE_def)
  have "obus_bus_object ?s 9 = 0" unfolding bus_object_map [OF ok] using s(3) by simp
  then obtain s' where "obus_bus_add_object full_memory ([] @ 9 # []) ?s 1 = Some (Inr (), s')" "obus_bus_object s' 9 = 1"
    using add_object_new_handle [OF ok o, of full_memory "[]" 9 "[]"]
    by (auto simp: OBUS_INVALID_HANDLE_def full_memory_alloc sizeof_hash_entry_def)
  then show ?thesis using o(1) by (intro exI [of _ ?s] exI [of _ s']) simp
qed

definition sample_call :: obus_call where
  "sample_call = \<lparr>c_desc = sample_method, c_obj = 1, c_handle = 6, c_peer = 0, c_status = 0, c_args = None, c_cb = 3\<rparr>"

lemma sample_pending:
  assumes "calls_ok s" "bcalls s = []"
  obtains s' where "calls_ok s'" "bcalls s' = [2]" "calls s' 2 = Some sample_call" "same_objects s s'"
    "notified s' = notified s" "bus_api s' = bus_api s"
proof -
  have "hash_map (calls_hash s) 6 = None" using calls_lookup [OF assms(1), of 6] assms(2) by auto
  with data_hash.ins_new [OF plain_hashes(2) [OF assms(1)], of full_memory 6 2] obtain h where
    h: "obus_hash_insert full_memory (calls_hash s) 6 2 = (Inr (), h)"
    by (auto simp: full_memory_alloc sizeof_hash_entry_def)
  let ?s = "s\<lparr>calls := (calls s)(2 \<mapsto> sample_call)\<rparr>"
  have ok: "calls_ok ?s" by (rule calls_ok_off_list [OF assms(1)]) (simp_all add: assms(2))
  have c: "calls ?s 2 = Some sample_call" "2 \<notin> set (bcalls ?s)" using assms(2) by simp_all
  have r: "obus_bus_register_call full_memory [] ?s 2 = Some (Inr (), ?s\<lparr>calls_hash := h, bcalls := [2]\<rparr>)"
    using h assms(2) by (simp add: obus_bus_register_call_def Let_def OBUS_INVALID_HANDLE_def sample_call_def link_def)
  from ok c r have "calls_ok (?s\<lparr>calls_hash := h, bcalls := [2]\<rparr>)" by (cases rule: register_call_cases) auto
  then show thesis by (rule that) (simp_all add: same_objects_def)
qed

lemma abort_call_spec_witness:
  "\<exists>s s'. bcalls s = [2] \<and> obus_bus_abort_call s 1 = (Inr (), s') \<and> bcalls s' = []
    \<and> notified s' = notified s @ [(3, 1, 6, OBUS_CALL_ABORTED)]"
proof -
  obtain b s0 where s0: "calls_ok s0" "bcalls s0 = []" by (rule sample_start)
  obtain s where s: "calls_ok s" "bcalls s = [2]" "calls s 2 = Some sample_call" by (rule sample_pending [OF s0])
  have "\<forall>p c. p \<in> set (bcalls s) \<longrightarrow> calls s p = Some c \<longrightarrow> destroy_args c = Inr ()"
    using s(2,3) by (simp add: destroy_args_def sample_call_def)
  from abort_call_spec [OF s(1) this, of 1] obtain s' where "obus_bus_abort_call s 1 = (Inr (), s')" "bcalls s' = []"
    "notified s' = notified s @ [(3, 1, 6, OBUS_CALL_ABORTED)]"
    using s(2,3) by (auto simp: sample_call_def abort_note_def Let_def)
  then show ?thesis using s(2) by blast
qed

lemma sample_struct_destroy: "obus_struct_destroy sample_struct = Inr ()"
proof -
  have "destroy_items d (Some [Num 7, Num 9]) 0 2 = Inr ()" if "ftype d = 0x80" for d
    using that by (simp add: numeral_2_eq_2 obus_field_array_item_def item_size_def deref_def obus_destroy_value_def)
  then show ?thesis
    by (simp add: obus_struct_destroy_def sample_defs obus_field_destroy_def obus_field_array_destroy_def obus_destroy_value_def
        obus_field_address_def get_array_def obus_field_array_nb_address_def)
qed

lemma sample_registered:
  obtains s where "objects_ok s" "calls_ok s" "objs s = [1 \<mapsto> sample_object\<lparr>o_bus := True, o_registered := True\<rparr>]"
    "bcalls s = [2]" "bobjects s = [1]" "calls s 2 = Some sample_call"
proof -
  obtain b s where s: "objects_ok s" "calls_ok s" "objs s = [1 \<mapsto> sample_object\<lparr>o_bus := True\<rparr>]" "bcalls s = []" "bobjects s = []"
    by (rule sample_added)
  obtain t where t: "calls_ok t" "bcalls t = [2]" "calls t 2 = Some sample_call" "same_objects s t"
    by (rule sample_pending [OF s(2,4)])
  have ok: "objects_ok t" using same_objects_ok [OF t(4)] s(1) by simp
  have o: "objs t 1 = Some (sample_object\<lparr>o_bus := True\<rparr>)" "objs t = objs s" "bobjects t = []"
    using t(4) s(3,5) by (simp_all add: same_objects_def)
  let ?u = "t\<lparr>objs := (objs t)(1 \<mapsto> sample_object\<lparr>o_bus := True, o_registered := True\<rparr>), bobjects := bobjects t @ [1]\<rparr>"
  have ou: "objects_ok ?u" using register_object_ok(2) [OF ok o(1)] by (simp add: sample_object_def)
  have cu: "calls_ok ?u" using same_calls_ok [of t ?u] t(1) by (simp add: same_calls_def)
  show thesis by (rule that [OF ou cu]) (use o t(2,3) s(3) in \<open>simp_all add: fun_eq_iff\<close>)
qed

lemma bus_clear_spec_witness:
  "\<exists>s s'. bobjects s = [1] \<and> obus_bus_clear s = (Inr (), s') \<and> bobjects s' = [] \<and> bcalls s' = [] \<and> obus_bus_object s' 17 = 0"
proof -
  obtain s where s: "objects_ok s" "calls_ok s" "objs s = [1 \<mapsto> sample_object\<lparr>o_bus := True, o_registered := True\<rparr>]"
    "bcalls s = [2]" "bobjects s = [1]" "calls s 2 = Some sample_call" by (rule sample_registered)
  have "\<forall>p c. p \<in> set (bcalls s) \<longrightarrow> calls s p = Some c \<longrightarrow> destroy_args c = Inr ()"
    using s(4,6) by (simp add: destroy_args_def sample_call_def)
  moreover have "\<forall>p obj. objs s p = Some obj \<longrightarrow> o_bus obj \<longrightarrow> o_registered obj \<and> obus_struct_destroy (o_info obj) = Inr ()"
    using s(3) sample_struct_destroy by (simp add: sample_object_def)
  ultimately show ?thesis using bus_clear_spec [OF s(1,2)] s(5) by blast
qed

lemma bus_clear_unregistered_faults_witness: "\<exists>s. bcalls s = [] \<and> fst (obus_bus_clear s) = Inl FAULT"
proof -
  obtain b s where s: "objects_ok s" "objs s = [1 \<mapsto> sample_object\<lparr>o_bus := True\<rparr>]" "bcalls s = []" by (rule sample_added)
  let ?ps = "map edata (entries (objects_hash s))"
  have "set ?ps = {1}" using entries_on_bus(2) [OF s(1)] s(2) by (auto simp: set_eq_iff simp del: set_map split: if_splits)
  then have "?ps = [1]" using entries_on_bus(1) [OF s(1)] by (metis One_nat_def distinct_card card.empty card_insert_disjoint
      empty_iff finite.emptyI length_0_conv length_Suc_conv list.set(1) list.set_intros(1) singletonD)
  then show ?thesis
    using bus_clear_unregistered_faults [OF s(1,3), of 1 "sample_object\<lparr>o_bus := True\<rparr>" "[]" "[]"] s(2,3)
    by (auto simp: sample_object_def)
qed

lemma object_next_enumerates_witness:
  "\<exists>s. bobjects s = [1] \<and> obus_bus_object_next s 0 3 = Inr 1 \<and> obus_bus_object_next s 1 3 = Inr 0"
proof -
  obtain s where s: "objects_ok s" "objs s = [1 \<mapsto> sample_object\<lparr>o_bus := True, o_registered := True\<rparr>]" "bobjects s = [1]"
    by (rule sample_registered)
  have "filter (has_uid s 3) (bobjects s) = [1]" using s(2,3) by (simp add: has_uid_def sample_bus_defs)
  then show ?thesis using object_next_enumerates [OF s(1) refl, of 3] s(3) by auto
qed

end
