(* ===== verification/Obus_Event.thy ===== *)
theory Obus_Event
  imports Obus_Bus
begin

text \<open>
  Events (\<open>obus_event.c\<close>) and the wire format of calls (\<open>obus_call.c\<close>). An event carries new values
  for some fields of an object; committing it merges them into the object. On the wire an event
  and a call are identifiers followed by a sized structure. The first part holds the operations,
  the others the behaviour of the decoders on any bytes, the round trips, sanitizing and
  committing.
\<close>

section \<open>Life cycle of events\<close>

text \<open>
  Every event has an address, also one on the caller's stack that \<open>obus_event_init\<close> fills in.
  New objects, events and bus events take the address \<open>next_addr\<close>; none of the addresses from
  there on is in use.
\<close>

definition fresh_addrs :: "bus_state \<Rightarrow> bool" where
  "fresh_addrs s \<longleftrightarrow> 0 < next_addr s
     \<and> (\<forall>p\<ge>next_addr s. objs s p = None \<and> calls s p = None \<and> evts s p = None \<and> bevts s p = None)"

definition sizeof_event :: nat where "sizeof_event = 64"

definition obus_event_init ::
  "bus_state \<Rightarrow> addr \<Rightarrow> addr \<Rightarrow> obus_event_desc option \<Rightarrow> obus_struct option \<Rightarrow> unit res \<times> bus_state" where
  "obus_event_init s p obj desc info =
     (case (desc, info) of
        (Some desc, Some info) \<Rightarrow>
          if p = 0 \<or> obj = 0 then (Inl EINVAL, s)
          else (case objs s obj of
             None \<Rightarrow> (Inl FAULT, s)
           | Some ob \<Rightarrow>
               if sd_id (st_desc info) \<noteq> sd_id (info_desc (o_desc ob)) then (Inl EINVAL, s)
               else (Inr (), s\<lparr>evts := (evts s)(p \<mapsto>
                  \<lparr>e_desc = desc, e_obj = obj, e_event_node = False, e_allocated = False, e_committed = False,
                   e_info = info\<lparr>st_desc := info_desc (o_desc ob)\<rparr>\<rparr>)\<rparr>))
      | _ \<Rightarrow> (Inl EINVAL, s))"

text \<open>
  The structure of a new event shares no string with the one it is filled from. The result is
  the address of the event or NULL.
\<close>

definition obus_event_new ::
  "memory \<Rightarrow> bus_state \<Rightarrow> addr \<Rightarrow> obus_event_desc option \<Rightarrow> obus_struct option \<Rightarrow> addr res \<times> bus_state" where
  "obus_event_new m s obj desc info =
     (case desc of None \<Rightarrow> (Inr 0, s) | Some desc \<Rightarrow>
      if obj = 0 then (Inr 0, s)
      else case objs s obj of None \<Rightarrow> (Inl FAULT, s) | Some ob \<Rightarrow>
        let sd = info_desc (o_desc ob) in
        if (case info of None \<Rightarrow> False | Some st \<Rightarrow> sd_id (st_desc st) \<noteq> sd_id sd) then (Inr 0, s)
        else if \<not> alloc_ok m (sizeof_event + sd_size sd) then (Inr 0, s)
        else
          let p = next_addr s;
              st = obus_struct_init (zero_struct sd);
              ev = \<lparr>e_desc = desc, e_obj = obj, e_event_node = False, e_allocated = True, e_committed = False,
                    e_info = st\<rparr>
          in case info of
               None \<Rightarrow> (Inr p, s\<lparr>evts := (evts s)(p \<mapsto> ev), next_addr := Suc p\<rparr>)
             | Some src \<Rightarrow>
                 (case obus_struct_merge m (\<lambda>_ _ _. False) st src of
                    (Inl FAULT, _) \<Rightarrow> (Inl FAULT, s)
                  | (Inl _, _) \<Rightarrow> (Inr 0, s)
                  | (Inr _, st) \<Rightarrow>
                      (Inr p, s\<lparr>evts := (evts s)(p \<mapsto> ev\<lparr>e_info := st\<rparr>), next_addr := Suc p\<rparr>)))"

text \<open>An event is linked in the list of at most one bus event.\<close>

definition detach_event :: "bus_state \<Rightarrow> addr \<Rightarrow> bus_state" where
  "detach_event s p =
     s\<lparr>bevts := map_option (\<lambda>e. e\<lparr>obj_events := remove1 p (obj_events e)\<rparr>) \<circ> bevts s,
       evts := (evts s)(p := map_option (\<lambda>e. e\<lparr>e_event_node := False\<rparr>) (evts s p))\<rparr>"

definition obus_event_destroy :: "bus_state \<Rightarrow> addr \<Rightarrow> unit res \<times> bus_state" where
  "obus_event_destroy s p =
     (if p = 0 then (Inl EINVAL, s)
      else case evts s p of
        None \<Rightarrow> (Inl FAULT, s)
      | Some event \<Rightarrow>
          if \<not> e_allocated event then (Inl EPERM, s)
          else
            let s = (if e_event_node event then detach_event s p else s) in
            (case obus_struct_destroy (e_info event) of
               Inl e \<Rightarrow> (Inl e, s)
             | Inr _ \<Rightarrow> (Inr (), s\<lparr>evts := (evts s)(p := None)\<rparr>)))"

definition obus_event_get_object :: "bus_state \<Rightarrow> addr \<Rightarrow> addr" where
  "obus_event_get_object s p = (case evts s p of None \<Rightarrow> 0 | Some e \<Rightarrow> e_obj e)"

definition obus_event_get_object_desc :: "bus_state \<Rightarrow> addr \<Rightarrow> obus_object_desc option" where
  "obus_event_get_object_desc s p =
     (case evts s p of None \<Rightarrow> None | Some e \<Rightarrow> map_option o_desc (objs s (e_obj e)))"

definition obus_event_get_desc :: "bus_state \<Rightarrow> addr \<Rightarrow> obus_event_desc option" where
  "obus_event_get_desc s p = map_option e_desc (evts s p)"

definition obus_event_is_committed :: "bus_state \<Rightarrow> addr \<Rightarrow> bool" where
  "obus_event_is_committed s p = (case evts s p of None \<Rightarrow> False | Some e \<Rightarrow> e_committed e)"

definition obus_event_get_info :: "bus_state \<Rightarrow> addr \<Rightarrow> obus_struct option" where
  "obus_event_get_info s p = map_option e_info (evts s p)"

definition obus_event_is_empty :: "bus_state \<Rightarrow> addr \<Rightarrow> bool" where
  "obus_event_is_empty s p = (case evts s p of None \<Rightarrow> True | Some e \<Rightarrow> obus_struct_is_empty (e_info e))"

section \<open>Sanitizing and committing\<close>

text \<open>The inner loop: is the field one of those the event declares to update?\<close>

definition in_updates :: "obus_event_desc \<Rightarrow> obus_struct_desc \<Rightarrow> nat \<Rightarrow> bool" where
  "in_updates desc sd i \<longleftrightarrow>
     list_ex (\<lambda>u. fuid (sfields sd ! i) = fuid (sfields sd ! upd_field u)) (updates desc)"

text \<open>The outer loop, with the number of undeclared fields found.\<close>

primrec sanitize_fields :: "bool \<Rightarrow> obus_event_desc \<Rightarrow> obus_struct \<Rightarrow> nat list \<Rightarrow> nat \<times> obus_struct" where
  "sanitize_fields is_server desc st [] = (0, st)"
| "sanitize_fields is_server desc st (i # is) =
     (if \<not> obus_struct_has_field st i then sanitize_fields is_server desc st is
      else if in_updates desc (st_desc st) i then sanitize_fields is_server desc st is
      else
        let st = (if is_server then snd (obus_struct_clear_has_field st i) else st) in
        (case sanitize_fields is_server desc st is of (ret, st) \<Rightarrow> (Suc ret, st)))"

definition obus_event_sanitize :: "obus_event \<Rightarrow> bool \<Rightarrow> nat \<times> obus_event" where
  "obus_event_sanitize event is_server =
     (case sanitize_fields is_server (e_desc event) (e_info event) (field_indices (e_info event)) of
        (ret, st) \<Rightarrow> (ret, event\<lparr>e_info := st\<rparr>))"

text \<open>
  \<open>alias\<close> says which strings of the arrays of the event are the very strings of the object.
\<close>

definition obus_event_commit ::
  "memory \<Rightarrow> (nat \<Rightarrow> nat \<Rightarrow> nat \<Rightarrow> bool) \<Rightarrow> bus_state \<Rightarrow> addr \<Rightarrow> unit res \<times> bus_state" where
  "obus_event_commit m alias s p =
     (if p = 0 then (Inl EINVAL, s)
      else case evts s p of None \<Rightarrow> (Inl FAULT, s) | Some event \<Rightarrow>
        if e_committed event then (Inr (), s)
        else case objs s (e_obj event) of None \<Rightarrow> (Inl FAULT, s) | Some obj \<Rightarrow>
          (case obus_struct_merge m alias (o_info obj) (e_info event) of
             (Inl e, st) \<Rightarrow> (Inl e, s\<lparr>objs := (objs s)(e_obj event \<mapsto> obj\<lparr>o_info := st\<rparr>)\<rparr>)
           | (Inr _, st) \<Rightarrow>
               (Inr (), s\<lparr>objs := (objs s)(e_obj event \<mapsto> obj\<lparr>o_info := st\<rparr>),
                          evts := (evts s)(p \<mapsto> event\<lparr>e_committed := True\<rparr>)\<rparr>)))"

section \<open>Events on the wire\<close>

definition obus_event_encode :: "memory \<Rightarrow> bus_state \<Rightarrow> obus_event \<Rightarrow> obus_buffer \<Rightarrow> unit res \<times> obus_buffer" where
  "obus_event_encode m s event buf =
     (case objs s (e_obj event) of
        None \<Rightarrow> (Inl FAULT, buf)
      | Some obj \<Rightarrow>
          chk (obus_buffer_append_u16 m buf (od_uid (o_desc obj))) (\<lambda>_ buf.
          chk (obus_buffer_append_u16 m buf (o_handle obj)) (\<lambda>_ buf.
          chk (obus_buffer_append_u16 m buf (ev_uid (e_desc event))) (\<lambda>_ buf.
          encode_sized m (obus_struct_encode m (e_info event)) buf))))"

text \<open>
  The object the identifier and the handle of a packet refer to: \<open>Inr None\<close> if there is none
  or its description has another identifier, a fault if the table has a dangling address.
\<close>

definition addressed :: "bus_state \<Rightarrow> u16 \<Rightarrow> u16 \<Rightarrow> (addr \<times> obus_object) option res" where
  "addressed s uid handle =
     (let p = obus_bus_object s handle in
      if p = 0 then Inr None
      else case objs s p of
        None \<Rightarrow> Inl FAULT
      | Some obj \<Rightarrow> Inr (if od_uid (o_desc obj) = uid then Some (p, obj) else None))"

definition obus_event_decode ::
  "memory \<Rightarrow> bus_state \<Rightarrow> obus_buffer \<Rightarrow> addr res \<times> bus_state \<times> obus_buffer" where
  "obus_event_decode m s buf =
     (case obus_buffer_read_u16 buf of (Inl _, buf) \<Rightarrow> (Inr 0, s, buf) | (Inr uid, buf) \<Rightarrow>
     (case obus_buffer_read_u16 buf of (Inl _, buf) \<Rightarrow> (Inr 0, s, buf) | (Inr handle, buf) \<Rightarrow>
     (case obus_buffer_read_u16 buf of (Inl _, buf) \<Rightarrow> (Inr 0, s, buf) | (Inr event_uid, buf) \<Rightarrow>
     (case obus_buffer_read_u32 buf of (Inl _, buf) \<Rightarrow> (Inr 0, s, buf) | (Inr n, buf) \<Rightarrow>
       let end_pos = sz (bpos buf + unat n) in
       if uid = OBUS_INVALID_UID then (Inr 0, s, eat_bytes buf end_pos)
       else if handle = OBUS_INVALID_HANDLE then (Inr 0, s, eat_bytes buf end_pos)
       else if event_uid = OBUS_INVALID_UID then (Inr 0, s, eat_bytes buf end_pos)
       else (case addressed s uid handle of
          Inl e \<Rightarrow> (Inl e, s, buf)
        | Inr None \<Rightarrow> (Inr 0, s, eat_bytes buf end_pos)
        | Inr (Some (p, obj)) \<Rightarrow>
       (case obus_bus_api_event (bus_api s) (od_uid (o_desc obj)) event_uid of
          None \<Rightarrow> (Inr 0, s, eat_bytes buf end_pos)
        | Some desc \<Rightarrow>
       (case obus_event_new m s p (Some desc) None of
          (Inl e, s) \<Rightarrow> (Inl e, s, buf)
        | (Inr q, s) \<Rightarrow>
            if q = 0 then (Inr 0, s, eat_bytes buf end_pos)
            else (case evts s q of None \<Rightarrow> (Inl FAULT, s, buf) | Some event \<Rightarrow>
              (case obus_struct_decode m (e_info event) buf of
                 (Inl _, st, buf) \<Rightarrow>
                   (case obus_event_destroy (s\<lparr>evts := (evts s)(q \<mapsto> event\<lparr>e_info := st\<rparr>)\<rparr>) q of
                      (r, s) \<Rightarrow> (map_sum id (\<lambda>_. 0) r, s, eat_bytes buf end_pos))
               | (Inr _, st, buf) \<Rightarrow>
                   (Inr q, s\<lparr>evts := (evts s)(q \<mapsto> event\<lparr>e_info := st\<rparr>)\<rparr>,
                    if bpos buf \<noteq> end_pos then eat_bytes buf end_pos else buf))))))))))"

section \<open>Calls on the wire\<close>

definition obus_call_encode :: "memory \<Rightarrow> bus_state \<Rightarrow> obus_call \<Rightarrow> obus_buffer \<Rightarrow> unit res \<times> obus_buffer" where
  "obus_call_encode m s call buf =
     (case objs s (c_obj call) of
        None \<Rightarrow> (Inl FAULT, buf)
      | Some obj \<Rightarrow>
          chk (obus_buffer_append_u16 m buf (od_uid (o_desc obj))) (\<lambda>_ buf.
          chk (obus_buffer_append_u16 m buf (o_handle obj)) (\<lambda>_ buf.
          chk (obus_buffer_append_u16 m buf (m_uid (c_desc call))) (\<lambda>_ buf.
          chk (obus_buffer_append_u16 m buf (c_handle call)) (\<lambda>_ buf.
          encode_sized m (case c_args call of
              None \<Rightarrow> Pair (Inr ())
            | Some st \<Rightarrow> obus_struct_encode m st) buf)))))"

text \<open>A call that could not be decoded is destroyed: it is on no list yet.\<close>

definition obus_call_decode ::
  "memory \<Rightarrow> bus_state \<Rightarrow> obus_buffer \<Rightarrow> addr res \<times> bus_state \<times> obus_buffer" where
  "obus_call_decode m s buf =
     (case obus_buffer_read_u16 buf of (Inl _, buf) \<Rightarrow> (Inr 0, s, buf) | (Inr uid, buf) \<Rightarrow>
     (case obus_buffer_read_u16 buf of (Inl _, buf) \<Rightarrow> (Inr 0, s, buf) | (Inr handle, buf) \<Rightarrow>
     (case obus_buffer_read_u16 buf of (Inl _, buf) \<Rightarrow> (Inr 0, s, buf) | (Inr mtd_uid, buf) \<Rightarrow>
     (case obus_buffer_read_u16 buf of (Inl _, buf) \<Rightarrow> (Inr 0, s, buf) | (Inr call_handle, buf) \<Rightarrow>
     (case obus_buffer_read_u32 buf of (Inl _, buf) \<Rightarrow> (Inr 0, s, buf) | (Inr n, buf) \<Rightarrow>
       let end_pos = sz (bpos buf + unat n) in
       (case addressed s uid handle of
          Inl e \<Rightarrow> (Inl e, s, buf)
        | Inr None \<Rightarrow> (Inr 0, s, eat_bytes buf end_pos)
        | Inr (Some (p, obj)) \<Rightarrow>
       (case obus_bus_api_method (bus_api s) (od_uid (o_desc obj)) mtd_uid of
          None \<Rightarrow> (Inr 0, s, eat_bytes buf end_pos)
        | Some desc \<Rightarrow>
       (case obus_call_new m p desc 0 None of
          None \<Rightarrow> (Inr 0, s, eat_bytes buf end_pos)
        | Some call \<Rightarrow>
            let q = next_addr s;
                call = call\<lparr>c_handle := call_handle\<rparr>;
                dec = (case c_args call of
                   None \<Rightarrow> (Inr (), None, buf)
                 | Some st \<Rightarrow> (case obus_struct_decode m st buf of (r, st, buf) \<Rightarrow> (r, Some st, buf)))
            in (case dec of
                 (Inl _, args, buf) \<Rightarrow>
                   (map_sum id (\<lambda>_. 0) (destroy_args (call\<lparr>c_args := args\<rparr>)), s, eat_bytes buf end_pos)
               | (Inr _, args, buf) \<Rightarrow>
                   (Inr q, s\<lparr>calls := (calls s)(q \<mapsto> call\<lparr>c_args := args\<rparr>), next_addr := Suc q\<rparr>,
                    if bpos buf \<noteq> end_pos then eat_bytes buf end_pos else buf))))))))))"

section \<open>Decoding an event from any bytes\<close>

lemma init_nb: "(\<And>a. st_nb st a = 0) \<Longrightarrow> st_nb (foldl obus_field_init st ds) a = 0"
  by (induction ds arbitrary: st)
    (auto simp: obus_field_init_def set_cell_def set_nb_def split: option.splits)

lemma struct_init_nb: "st_nb (obus_struct_init (zero_struct sd)) a = 0"
proof -
  let ?st = "foldl obus_field_init (zero_struct sd) (sfields (st_desc (zero_struct sd)))"
  have "bits_ok ?st" using zero_bits_ok [of sd] by (simp add: bits_ok_def init_fold_keeps)
  then obtain st' where "obus_struct_clear_has_fields ?st = (Inr (), st')" "same_fields ?st st'"
    by (rule clear_fields_ok)
  then show ?thesis by (simp add: obus_struct_init_def same_fields_def init_nb zero_struct_def)
qed

text \<open>A structure whose arrays are all empty can be destroyed.\<close>

lemma destroy_no_arrays:
  assumes "\<And>a. st_nb st a = 0"
  shows "obus_struct_destroy st = Inr ()"
proof -
  have "destroy_fields st ds = Inr ()" for ds
    by (induction ds) (simp_all add: obus_field_destroy_def obus_field_array_destroy_def obus_field_array_nb_address_def
        obus_destroy_value_def assms)
  then show ?thesis by (simp add: obus_struct_destroy_def)
qed

lemma struct_decode_Inl:
  assumes "obus_struct_decode m st b = (Inl e, st', b')" "bits_ok st"
  shows "same_fields st st'"
proof -
  obtain st1 where "obus_struct_clear_has_fields st = (Inr (), st1)" "same_fields st st1"
    by (rule clear_fields_ok [OF assms(2)])
  then show ?thesis using assms(1) by (auto simp: obus_struct_decode_def split: prod.splits sum.splits)
qed

text \<open>The structure a decoder starts from, and that a failed decoding leaves destructible.\<close>

definition init_struct :: "obus_struct_desc \<Rightarrow> obus_struct" where
  "init_struct sd = obus_struct_init (zero_struct sd)"

lemma init_struct_ok: "st_desc (init_struct sd) = sd" "bits_ok (init_struct sd)" "\<not> obus_struct_has_field (init_struct sd) i"
  using struct_init_keeps [OF zero_bits_ok, of sd] by (simp_all add: init_struct_def zero_struct_def)

lemma failed_decode_destroy:
  assumes "obus_struct_decode m st b = (Inl e, st', b')" "bits_ok st" "\<And>a. st_nb st a = 0"
  shows "obus_struct_destroy st' = Inr ()"
  using struct_decode_Inl [OF assms(1,2)] assms(3) by (intro destroy_no_arrays) (simp add: same_fields_def)

definition new_event :: "obus_event_desc \<Rightarrow> addr \<Rightarrow> obus_struct \<Rightarrow> obus_event" where
  "new_event desc p st = \<lparr>e_desc = desc, e_obj = p, e_event_node = False, e_allocated = True, e_committed = False, e_info = st\<rparr>"

lemma new_event_simps [simp]:
  "e_desc (new_event desc p st) = desc" "e_obj (new_event desc p st) = p" "\<not> e_event_node (new_event desc p st)"
  "e_allocated (new_event desc p st)" "\<not> e_committed (new_event desc p st)" "e_info (new_event desc p st) = st"
  "(new_event desc p st)\<lparr>e_info := st'\<rparr> = new_event desc p st'"
  by (simp_all add: new_event_def)

definition event_size :: "obus_object \<Rightarrow> nat" where
  "event_size obj = sizeof_event + sd_size (info_desc (o_desc obj))"

lemma event_new_eq:
  assumes "objs s p = Some obj" "p \<noteq> 0"
  shows "obus_event_new m s p (Some desc) None =
    (if alloc_ok m (event_size obj)
     then (Inr (next_addr s), s\<lparr>evts := (evts s)(next_addr s \<mapsto> new_event desc p (init_struct (info_desc (o_desc obj)))),
             next_addr := Suc (next_addr s)\<rparr>)
     else (Inr 0, s))"
  using assms by (simp add: obus_event_new_def new_event_def Let_def event_size_def init_struct_def)

text \<open>What an address on the wire refers to, when the bus is in order.\<close>

definition object_at :: "bus_state \<Rightarrow> u16 \<Rightarrow> u16 \<Rightarrow> (addr \<times> obus_object) option" where
  "object_at s uid handle =
     (let p = obus_bus_object s handle in
      case objs s p of None \<Rightarrow> None | Some obj \<Rightarrow> if od_uid (o_desc obj) = uid then Some (p, obj) else None)"

lemma bus_object_objs: "objects_ok s \<Longrightarrow> obus_bus_object s handle \<noteq> 0 \<Longrightarrow> \<exists>obj. objs s (obus_bus_object s handle) = Some obj"
  using bus_object_iff [of s "obus_bus_object s handle" handle] by auto

lemma addressed_eq:
  assumes "objects_ok s"
  shows "addressed s uid handle = Inr (object_at s uid handle)"
proof (cases "obus_bus_object s handle = 0")
  case True
  then have "objs s (obus_bus_object s handle) = None" using assms by (simp add: objects_ok_def)
  with True show ?thesis by (simp add: addressed_def object_at_def)
next
  case False
  then show ?thesis using bus_object_objs [OF assms False] by (auto simp: addressed_def object_at_def Let_def)
qed

lemma object_at_Some:
  assumes "objects_ok s" "object_at s uid handle = Some (p, obj)"
  shows "objs s p = Some obj" "p \<noteq> 0" "od_uid (o_desc obj) = uid" "o_handle obj = handle" "obus_bus_object s handle = p"
proof -
  show o: "objs s p = Some obj" "od_uid (o_desc obj) = uid" "obus_bus_object s handle = p"
    using assms(2) by (auto simp: object_at_def Let_def split: option.splits if_splits)
  show "p \<noteq> 0" using objects_nonzero [OF assms(1) o(1)] .
  then show "o_handle obj = handle" using bus_object_iff [OF assms(1), of p handle] o by auto
qed

definition event_target :: "bus_state \<Rightarrow> u16 \<Rightarrow> u16 \<Rightarrow> u16 \<Rightarrow> (addr \<times> obus_object \<times> obus_event_desc) option" where
  "event_target s uid handle event_uid =
     (if uid = OBUS_INVALID_UID \<or> handle = OBUS_INVALID_HANDLE \<or> event_uid = OBUS_INVALID_UID then None
      else case object_at s uid handle of None \<Rightarrow> None | Some (p, obj) \<Rightarrow>
        map_option (\<lambda>d. (p, obj, d)) (obus_bus_api_event (bus_api s) uid event_uid))"

definition wire_event :: "u16 \<Rightarrow> u16 \<Rightarrow> u16 \<Rightarrow> u8 list \<Rightarrow> u8 list" where
  "wire_event uid handle event_uid body = be16 uid @ be16 handle @ be16 event_uid @ sized body"

lemma length_wire_event [simp]: "length (wire_event uid handle event_uid body) = 10 + length body"
  by (simp add: wire_event_def)

lemma event_decode_frame:
  assumes "objects_ok s" "fresh_addrs s" "reads_at b p (wire_event uid handle event_uid body @ rest)" "length body < 2 ^ 32"
  shows "obus_event_decode m s (advance b p) =
    (let e = advance b (p + 10 + length body); q = next_addr s in
     case event_target s uid handle event_uid of
       None \<Rightarrow> (Inr 0, s, e)
     | Some (a, obj, desc) \<Rightarrow>
         if \<not> alloc_ok m (event_size obj) then (Inr 0, s, e)
         else (case obus_struct_decode m (init_struct (info_desc (o_desc obj))) (advance b (p + 10)) of
             (Inl _, st, _) \<Rightarrow> (Inr 0, s\<lparr>next_addr := Suc q\<rparr>, e)
           | (Inr _, st, _) \<Rightarrow> (Inr q, s\<lparr>evts := (evts s)(q \<mapsto> new_event desc a st), next_addr := Suc q\<rparr>, e)))"
proof -
  have r: "reads_at b p (be16 uid @ be16 handle @ be16 event_uid @ sized body @ rest)"
    using assms(3) by (simp add: wire_event_def)
  note r1 = read_u16_at [OF r, of "p + 2", OF refl]
  note r2 = read_u16_at [OF r1(2), of "p + 4", simplified]
  note r3 = read_u16_at [OF r2(2), of "p + 6", simplified]
  note f = frame_at [OF r3(2) assms(4), of "p + 10", simplified]
  note eb = f(5) [OF pos_only_refl]
  note rd = r1(1) r2(1) r3(1) f(1,2)
  show ?thesis
  proof (cases "event_target s uid handle event_uid")
    case None
    then show ?thesis using rd eb
      by (auto simp: obus_event_decode_def Let_def addressed_eq [OF assms(1)] event_target_def object_at_Some(3) [OF assms(1)]
          split: option.splits if_splits)
  next
    case (Some t)
    obtain a obj desc where t: "t = (a, obj, desc)" by (cases t) auto
    have tg: "uid \<noteq> OBUS_INVALID_UID" "handle \<noteq> OBUS_INVALID_HANDLE" "event_uid \<noteq> OBUS_INVALID_UID"
      "object_at s uid handle = Some (a, obj)" "obus_bus_api_event (bus_api s) uid event_uid = Some desc"
      using Some t by (auto simp: event_target_def split: if_splits option.splits)
    note oa = object_at_Some [OF assms(1) tg(4)]
    have q: "next_addr s \<noteq> 0" "evts s (next_addr s) = None" using assms(2) by (auto simp: fresh_addrs_def)
    let ?st = "init_struct (info_desc (o_desc obj))"
    obtain x st' b' where d: "obus_struct_decode m ?st (advance b (p + 10)) = (x, st', b')"
      by (cases "obus_struct_decode m ?st (advance b (p + 10))") auto
    have po: "pos_only (advance b (p + 10)) b'" using po.moves_struct [of "advance b (p + 10)" m ?st] d by simp
    have de: "obus_struct_destroy st' = Inr ()" if "x = Inl e" for e
      using failed_decode_destroy [OF d [unfolded that] init_struct_ok(2)] struct_init_nb by (simp add: init_struct_def)
    show ?thesis
      using rd eb tg oa q d f(5) [OF po] f(6) [OF po] de Some t fun_upd_triv [of "evts s" "next_addr s"]
      by (cases x) (auto simp: obus_event_decode_def Let_def addressed_eq [OF assms(1)] event_new_eq obus_event_destroy_def)
  qed
qed

text \<open>
  An event from any peer. Whatever bytes are in the frame of an event, on a bus in order
  \<open>obus_event_decode\<close> never follows a wild address, reads exactly the frame and leaves objects and
  calls alone. It returns NULL and keeps the events, or it returns a new event of the object the
  packet names, with the event description the bus declares for it, not committed yet; without a
  target (unknown object, undeclared event, invalid identifier) the result is NULL.
\<close>

theorem event_decode_framing:
  assumes "objects_ok s" "fresh_addrs s" "buf_ok b" "unread b = wire_event uid handle event_uid body @ rest"
    "length body < 2 ^ 32"
  shows "\<exists>q s' b'. obus_event_decode m s b = (Inr q, s', b') \<and> unread b' = rest \<and> content b' = content b
    \<and> objs s' = objs s \<and> calls s' = calls s \<and> bevts s' = bevts s \<and> objects_ok s' \<and> fresh_addrs s'
    \<and> (q = 0 \<and> evts s' = evts s \<or>
       (\<exists>a obj desc ev. event_target s uid handle event_uid = Some (a, obj, desc) \<and> q = next_addr s
          \<and> evts s' = (evts s)(q \<mapsto> ev) \<and> e_obj ev = a \<and> e_desc ev = desc \<and> \<not> e_committed ev))"
proof -
  have r: "reads_at b 0 (wire_event uid handle event_uid body @ rest)" using assms(3,4) by simp
  note u = unread_prefix(3) [OF assms(3,4)]
  have so: "objects_ok (s\<lparr>evts := f, next_addr := n\<rparr>)" "objects_ok (s\<lparr>next_addr := n\<rparr>)" for f n
    using assms(1) by (simp_all add: objects_ok_def)
  have fr: "fresh_addrs (s\<lparr>next_addr := Suc (next_addr s)\<rparr>)"
    "fresh_addrs (s\<lparr>evts := (evts s)(next_addr s \<mapsto> ev), next_addr := Suc (next_addr s)\<rparr>)" for ev
    using assms(2) by (auto simp: fresh_addrs_def)
  show ?thesis
    using event_decode_frame [OF assms(1,2) r assms(5), of m] u assms(1,2) so fr
    by (auto simp: Let_def split: option.splits prod.splits sum.splits if_splits)
qed

section \<open>Round trip of events\<close>

lemma append_u16_then:
  assumes "appended b0 b xs" "buf_ok b0" "enough m (blength b0 + length xs + 2)"
  obtains b' where "obus_buffer_append_u16 m b v = (Inr (), b')" "appended b0 b' (xs @ be16 v)"
  using w16.wr_then [OF assms(1,2), of m v] assms(3) by auto

definition wire_of :: "obus_struct \<Rightarrow> u8 list" where
  "wire_of st = wire_struct (struct_entries st)"

lemma event_encode_ok:
  assumes "struct_ok (e_info ev)" "objs s (e_obj ev) = Some obj" "appended b0 b xs" "buf_ok b0"
    "enough m (blength b0 + length xs + 10 + length (wire_of (e_info ev)))"
  obtains b' where "obus_event_encode m s ev b = (Inr (), b')"
    "appended b0 b' (xs @ wire_event (od_uid (o_desc obj)) (o_handle obj) (ev_uid (e_desc ev)) (wire_of (e_info ev)))"
proof -
  have en: "enough m k" if "k \<le> blength b0 + length xs + 10 + length (wire_of (e_info ev))" for k
    by (rule enough_mono [OF assms(5) that])
  obtain b1 where b1: "obus_buffer_append_u16 m b (od_uid (o_desc obj)) = (Inr (), b1)"
      "appended b0 b1 (xs @ be16 (od_uid (o_desc obj)))"
    by (rule append_u16_then [OF assms(3,4) en]) simp_all
  obtain b2 where b2: "obus_buffer_append_u16 m b1 (o_handle obj) = (Inr (), b2)"
      "appended b0 b2 ((xs @ be16 (od_uid (o_desc obj))) @ be16 (o_handle obj))"
    by (rule append_u16_then [OF b1(2) assms(4) en]) simp_all
  obtain b3 where b3: "obus_buffer_append_u16 m b2 (ev_uid (e_desc ev)) = (Inr (), b3)"
      "appended b0 b3 (((xs @ be16 (od_uid (o_desc obj))) @ be16 (o_handle obj)) @ be16 (ev_uid (e_desc ev)))"
    by (rule append_u16_then [OF b2(2) assms(4) en]) simp_all
  obtain b4 where "encode_sized m (obus_struct_encode m (e_info ev)) b3 = (Inr (), b4)"
      "appended b0 b4 ((((xs @ be16 (od_uid (o_desc obj))) @ be16 (o_handle obj)) @ be16 (ev_uid (e_desc ev))) @
         sized (wire_of (e_info ev)))"
    unfolding wire_of_def
    by (rule encode_sized_struct [OF b3(2) assms(4,1)])
      (rule en, simp_all add: wire_of_def)
  then show thesis using that b1(1) b2(1) b3(1) assms(2) by (simp add: obus_event_encode_def wire_event_def)
qed

text \<open>The decoder on the image of a structure that the object's description knows.\<close>

lemma event_decode_ok:
  assumes "objects_ok s" "fresh_addrs s"
    "reads_at b p (wire_event uid handle event_uid (wire_of st) @ rest)" "length (wire_of st) < 2 ^ 32"
    "event_target s uid handle event_uid = Some (a, obj, desc)" "struct_ok st" "st_desc st = info_desc (o_desc obj)"
    "alloc_ok m (event_size obj)" "enough m (entries_need (struct_entries st))"
  obtains st' where "obus_event_decode m s (advance b p) =
      (Inr (next_addr s), s\<lparr>evts := (evts s)(next_addr s \<mapsto> new_event desc a st'), next_addr := Suc (next_addr s)\<rparr>,
       advance b (p + 10 + length (wire_of st)))"
    "st_desc st' = st_desc st" "bits_ok st'" "received st (init_struct (st_desc st)) st'"
proof -
  let ?st = "init_struct (st_desc st)"
  have "reads_at b (p + 10) (wire_of st @ rest)"
    using reads_at_step [of b p "be16 uid @ be16 handle @ be16 event_uid @ be32 (of_nat (length (wire_of st)))" "wire_of st @ rest"] assms(3)
    by (simp add: wire_event_def sized_def)
  then obtain st' where "obus_struct_decode m ?st (advance b (p + 10)) =
      (Inr (), st', advance (advance b (p + 10)) (length (wire_of st)))"
    "st_desc st' = st_desc st" "bits_ok st'" "received st ?st st'"
    using struct_decode_same [OF assms(6) init_struct_ok(1,2), of "advance b (p + 10)" rest m] assms(9)
    unfolding reads_at_def wire_of_def by metis
  then show thesis
    using that event_decode_frame [OF assms(1-4), of m] assms(5,7,8) by (simp add: Let_def)
qed

text \<open>
  Round trip of events. An event encoded by \<open>obus_event_encode\<close> on one side and decoded by
  \<open>obus_event_decode\<close> on another, whose bus has the object under the same handle, gives a new event
  with the same description for that object. Exactly the fields set in the sent event are set in
  the received one, with the values sent. The buffer is read to its end.
\<close>

theorem event_roundtrip:
  assumes "objs s (e_obj ev) = Some obj" "struct_ok (e_info ev)" "st_desc (e_info ev) = info_desc (o_desc obj)"
    "length (wire_of (e_info ev)) < 2 ^ 32" "objects_ok t" "fresh_addrs t"
    "event_target t (od_uid (o_desc obj)) (o_handle obj) (ev_uid (e_desc ev)) = Some (a, obj', e_desc ev)"
    "o_desc obj' = o_desc obj" "buf_ok b" "bpos b = blength b"
    "enough m (blength b + 10 + length (wire_of (e_info ev)))" "enough m (entries_need (struct_entries (e_info ev)))"
    "alloc_ok m (event_size obj')"
  shows "\<exists>b' q t' b'' ev'. obus_event_encode m s ev b = (Inr (), b') \<and> obus_event_decode m t b' = (Inr q, t', b'')
    \<and> unread b'' = [] \<and> evts t' = (evts t)(q \<mapsto> ev') \<and> e_desc ev' = e_desc ev \<and> e_obj ev' = a
    \<and> (\<forall>i<length (sfields (info_desc (o_desc obj))). let d = sfields (info_desc (o_desc obj)) ! i in
         obus_struct_has_field (e_info ev') i = obus_struct_has_field (e_info ev) i
         \<and> (obus_struct_has_field (e_info ev) i \<longrightarrow>
              field_values (e_info ev') d = map (norm_item d) (field_values (e_info ev) d)))"
proof -
  let ?w = "wire_event (od_uid (o_desc obj)) (o_handle obj) (ev_uid (e_desc ev)) (wire_of (e_info ev))"
  obtain b' where b': "obus_event_encode m s ev b = (Inr (), b')" "appended b b' ([] @ ?w)"
    by (rule event_encode_ok [OF assms(2,1), of b b "[]" m]) (use assms(9,11) in simp_all)
  note ok = appended_ok [OF b'(2)]
  have u: "unread b' = ?w @ []"
    using appended_unread [OF b'(2) _ assms(9)] assms(9,10) by (simp add: unread_def)
  then have "reads_at b' 0 (?w @ [])" using ok by simp
  then obtain st' where d: "obus_event_decode m t (advance b' 0) =
      (Inr (next_addr t), t\<lparr>evts := (evts t)(next_addr t \<mapsto> new_event (e_desc ev) a st'), next_addr := Suc (next_addr t)\<rparr>,
       advance b' (0 + 10 + length (wire_of (e_info ev))))"
    "received (e_info ev) (init_struct (st_desc (e_info ev))) st'"
    by (rule event_decode_ok [OF assms(5,6) _ assms(4,7,2) _ assms(13,12)]) (use assms(3,8) in simp_all)
  have "unread (advance b' (10 + length (wire_of (e_info ev)))) = []" using unread_prefix(3) [OF ok u] by simp
  then show ?thesis using b'(1) d assms(3) by (auto simp: received_def Let_def)
qed

section \<open>Calls\<close>

definition wire_call :: "u16 \<Rightarrow> u16 \<Rightarrow> u16 \<Rightarrow> u16 \<Rightarrow> u8 list \<Rightarrow> u8 list" where
  "wire_call uid handle mtd_uid call_handle body = be16 uid @ be16 handle @ be16 mtd_uid @ be16 call_handle @ sized body"

lemma length_wire_call [simp]: "length (wire_call uid handle mtd_uid call_handle body) = 12 + length body"
  by (simp add: wire_call_def)

definition call_target :: "bus_state \<Rightarrow> u16 \<Rightarrow> u16 \<Rightarrow> u16 \<Rightarrow> (addr \<times> obus_method_desc) option" where
  "call_target s uid handle mtd_uid =
     (case object_at s uid handle of None \<Rightarrow> None | Some (p, obj) \<Rightarrow>
        map_option (Pair p) (obus_bus_api_method (bus_api s) uid mtd_uid))"

definition new_call :: "obus_method_desc \<Rightarrow> addr \<Rightarrow> u16 \<Rightarrow> obus_struct option \<Rightarrow> obus_call" where
  "new_call desc p handle args = \<lparr>c_desc = desc, c_obj = p, c_handle = handle, c_peer = 0, c_status = OBUS_CALL_INVALID,
     c_args = args, c_cb = 0\<rparr>"

lemma new_call_simps [simp]:
  "c_desc (new_call desc p h args) = desc" "c_obj (new_call desc p h args) = p" "c_handle (new_call desc p h args) = h"
  "c_args (new_call desc p h args) = args" "c_cb (new_call desc p h args) = 0"
  "(new_call desc p h args)\<lparr>c_handle := h'\<rparr> = new_call desc p h' args"
  "(new_call desc p h args)\<lparr>c_args := args'\<rparr> = new_call desc p h args'"
  by (simp_all add: new_call_def)

definition call_size :: "obus_method_desc \<Rightarrow> nat" where
  "call_size desc = (sizeof_call + (case args_desc desc of None \<Rightarrow> 0 | Some sd \<Rightarrow> sd_size sd)) * sizeof_call"

lemma call_new_eq:
  assumes "p \<noteq> 0"
  shows "obus_call_new m p desc 0 None =
    (if alloc_ok m (call_size desc)
     then Some (new_call desc p OBUS_INVALID_HANDLE (map_option zero_struct (args_desc desc))) else None)"
  using assms by (simp add: obus_call_new_def new_call_def call_size_def Let_def split: option.splits)

text \<open>The arguments of a call read from its frame.\<close>

definition decode_args :: "memory \<Rightarrow> obus_struct option \<Rightarrow> obus_buffer \<Rightarrow> obus_struct option option" where
  "decode_args m args b =
     (case args of
        None \<Rightarrow> Some None
      | Some st \<Rightarrow> (case obus_struct_decode m st b of (Inl _, _) \<Rightarrow> None | (Inr _, st, _) \<Rightarrow> Some (Some st)))"

lemma call_decode_frame:
  assumes "objects_ok s" "reads_at b p (wire_call uid handle mtd_uid call_handle body @ rest)" "length body < 2 ^ 32"
  shows "obus_call_decode m s (advance b p) =
    (let e = advance b (p + 12 + length body); q = next_addr s in
     case call_target s uid handle mtd_uid of
       None \<Rightarrow> (Inr 0, s, e)
     | Some (a, desc) \<Rightarrow>
         if \<not> alloc_ok m (call_size desc) then (Inr 0, s, e)
         else (case decode_args m (map_option zero_struct (args_desc desc)) (advance b (p + 12)) of
             None \<Rightarrow> (Inr 0, s, e)
           | Some args \<Rightarrow>
               (Inr q, s\<lparr>calls := (calls s)(q \<mapsto> new_call desc a call_handle args), next_addr := Suc q\<rparr>, e)))"
proof -
  have r: "reads_at b p (be16 uid @ be16 handle @ be16 mtd_uid @ be16 call_handle @ sized body @ rest)"
    using assms(2) by (simp add: wire_call_def)
  note r1 = read_u16_at [OF r, of "p + 2", OF refl]
  note r2 = read_u16_at [OF r1(2), of "p + 4", simplified]
  note r3 = read_u16_at [OF r2(2), of "p + 6", simplified]
  note r4 = read_u16_at [OF r3(2), of "p + 8", simplified]
  note f = frame_at [OF r4(2) assms(3), of "p + 12", simplified]
  note eb = f(5) [OF pos_only_refl]
  note rd = r1(1) r2(1) r3(1) r4(1) f(1,2)
  show ?thesis
  proof (cases "call_target s uid handle mtd_uid")
    case None
    then show ?thesis using rd eb
      by (auto simp: obus_call_decode_def Let_def addressed_eq [OF assms(1)] call_target_def object_at_Some(3) [OF assms(1)]
          split: option.splits)
  next
    case (Some t)
    obtain a desc where t: "t = (a, desc)" by (cases t) auto
    obtain obj where tg: "object_at s uid handle = Some (a, obj)" "obus_bus_api_method (bus_api s) uid mtd_uid = Some desc"
      using Some t by (auto simp: call_target_def split: option.splits)
    note oa = object_at_Some [OF assms(1) tg(1)]
    show ?thesis
    proof (cases "args_desc desc")
      case None
      then show ?thesis using rd eb tg oa Some t f(6) [OF pos_only_refl]
        by (auto simp: obus_call_decode_def Let_def addressed_eq [OF assms(1)] call_new_eq decode_args_def)
    next
      case (Some sd)
      obtain x st' b' where d: "obus_struct_decode m (zero_struct sd) (advance b (p + 12)) = (x, st', b')"
        by (cases "obus_struct_decode m (zero_struct sd) (advance b (p + 12))") auto
      have po: "pos_only (advance b (p + 12)) b'" using po.moves_struct [of "advance b (p + 12)" m "zero_struct sd"] d by simp
      have de: "obus_struct_destroy st' = Inr ()" if "x = Inl e" for e
        using failed_decode_destroy [OF d [unfolded that] zero_bits_ok] by (simp add: zero_struct_def)
      show ?thesis
        using rd eb tg oa d f(5) [OF po] f(6) [OF po] de \<open>call_target s uid handle mtd_uid = Some t\<close> t Some
        by (cases x) (auto simp: obus_call_decode_def Let_def addressed_eq [OF assms(1)] call_new_eq decode_args_def destroy_args_def)
    qed
  qed
qed

definition args_wire :: "obus_struct option \<Rightarrow> u8 list" where
  "args_wire args = (case args of None \<Rightarrow> [] | Some st \<Rightarrow> wire_of st)"

lemma call_encode_ok:
  assumes "\<forall>st. c_args c = Some st \<longrightarrow> struct_ok st" "objs s (c_obj c) = Some obj" "appended b0 b xs" "buf_ok b0"
    "enough m (blength b0 + length xs + 12 + length (args_wire (c_args c)))"
  obtains b' where "obus_call_encode m s c b = (Inr (), b')"
    "appended b0 b' (xs @ wire_call (od_uid (o_desc obj)) (o_handle obj) (m_uid (c_desc c)) (c_handle c) (args_wire (c_args c)))"
proof -
  have en: "enough m k" if "k \<le> blength b0 + length xs + 12 + length (args_wire (c_args c))" for k
    by (rule enough_mono [OF assms(5) that])
  obtain b1 where b1: "obus_buffer_append_u16 m b (od_uid (o_desc obj)) = (Inr (), b1)"
      "appended b0 b1 (xs @ be16 (od_uid (o_desc obj)))"
    by (rule append_u16_then [OF assms(3,4) en]) simp_all
  obtain b2 where b2: "obus_buffer_append_u16 m b1 (o_handle obj) = (Inr (), b2)"
      "appended b0 b2 ((xs @ be16 (od_uid (o_desc obj))) @ be16 (o_handle obj))"
    by (rule append_u16_then [OF b1(2) assms(4) en]) simp_all
  obtain b3 where b3: "obus_buffer_append_u16 m b2 (m_uid (c_desc c)) = (Inr (), b3)"
      "appended b0 b3 (((xs @ be16 (od_uid (o_desc obj))) @ be16 (o_handle obj)) @ be16 (m_uid (c_desc c)))"
    by (rule append_u16_then [OF b2(2) assms(4) en]) simp_all
  obtain b4 where b4: "obus_buffer_append_u16 m b3 (c_handle c) = (Inr (), b4)"
      "appended b0 b4 ((((xs @ be16 (od_uid (o_desc obj))) @ be16 (o_handle obj)) @ be16 (m_uid (c_desc c))) @ be16 (c_handle c))"
    by (rule append_u16_then [OF b3(2) assms(4) en]) simp_all
  let ?enc = "case c_args c of None \<Rightarrow> Pair (Inr ()) | Some st \<Rightarrow> obus_struct_encode m st"
  have enc: "\<exists>b'. ?enc b = (Inr (), b') \<and> appended b b' (args_wire (c_args c))"
    if "buf_ok b" "enough m (blength b + length (args_wire (c_args c)))" for b
    using that assms(1) struct_encode_ok [of _ b m]
    by (cases "c_args c") (auto simp: args_wire_def wire_of_def)
  obtain b5 where "encode_sized m ?enc b4 = (Inr (), b5)"
      "appended b0 b5 (((((xs @ be16 (od_uid (o_desc obj))) @ be16 (o_handle obj)) @ be16 (m_uid (c_desc c))) @ be16 (c_handle c)) @
         sized (args_wire (c_args c)))"
    by (rule encode_sized_ok [OF b4(2) assms(4) enc en]) simp_all
  then show thesis using that b1(1) b2(1) b3(1) b4(1) assms(2) by (simp add: obus_call_encode_def wire_call_def)
qed

text \<open>The fields set in one structure are those set in the other, with the values sent.\<close>

definition carries :: "obus_struct \<Rightarrow> obus_struct \<Rightarrow> bool" where
  "carries st st' \<longleftrightarrow> st_desc st' = st_desc st \<and>
     (\<forall>i<length (sfields (st_desc st)). let d = sfields (st_desc st) ! i in
        obus_struct_has_field st' i = obus_struct_has_field st i
        \<and> (obus_struct_has_field st i \<longrightarrow> field_values st' d = map (norm_item d) (field_values st d)))"

lemma received_carries: "received st st0 st' \<Longrightarrow> st_desc st' = st_desc st \<Longrightarrow> carries st st'"
  by (simp add: received_def carries_def Let_def)

definition args_ok :: "obus_call \<Rightarrow> bool" where
  "args_ok c \<longleftrightarrow> args_desc (c_desc c) = map_option st_desc (c_args c) \<and> (\<forall>st. c_args c = Some st \<longrightarrow> struct_ok st)"

lemma call_decode_ok:
  assumes "args_ok c" "length (args_wire (c_args c)) < 2 ^ 32" "objects_ok t"
    "call_target t uid handle (m_uid (c_desc c)) = Some (a, c_desc c)"
    "\<forall>st. c_args c = Some st \<longrightarrow> enough m (entries_need (struct_entries st))" "alloc_ok m (call_size (c_desc c))"
    "reads_at b p (wire_call uid handle (m_uid (c_desc c)) (c_handle c) (args_wire (c_args c)) @ rest)"
  obtains args' where "obus_call_decode m t (advance b p) =
      (Inr (next_addr t), t\<lparr>calls := (calls t)(next_addr t \<mapsto> new_call (c_desc c) a (c_handle c) args'), next_addr := Suc (next_addr t)\<rparr>,
       advance b (p + 12 + length (args_wire (c_args c))))"
    "rel_option carries (c_args c) args'"
proof -
  let ?a = "args_wire (c_args c)"
  have r12: "reads_at b (p + 12) (?a @ rest)"
    using reads_at_step [of b p "be16 uid @ be16 handle @ be16 (m_uid (c_desc c)) @ be16 (c_handle c)
        @ be32 (of_nat (length ?a))" "?a @ rest"] assms(7)
    by (simp add: wire_call_def sized_def)
  obtain args' where args': "decode_args m (map_option zero_struct (args_desc (c_desc c))) (advance b (p + 12)) = Some args'"
    "rel_option carries (c_args c) args'"
  proof (cases "c_args c")
    case None
    then show thesis using that assms(1) by (simp add: args_ok_def decode_args_def)
  next
    case (Some st)
    have "st_desc (zero_struct (st_desc st)) = st_desc st" by (simp add: zero_struct_def)
    then obtain st' where "obus_struct_decode m (zero_struct (st_desc st)) (advance b (p + 12)) =
        (Inr (), st', advance (advance b (p + 12)) (length (wire_struct (struct_entries st))))"
      "st_desc st' = st_desc st" "received st (zero_struct (st_desc st)) st'"
      using struct_decode_same [of st "zero_struct (st_desc st)" "advance b (p + 12)" rest m] zero_bits_ok r12 Some assms(1,5)
      unfolding reads_at_def by (auto simp: args_ok_def args_wire_def wire_of_def)
    then show thesis using that Some assms(1) received_carries by (simp add: args_ok_def decode_args_def)
  qed
  then show thesis
    using that call_decode_frame [OF assms(3,7,2), of m] assms(4,6) by (simp add: Let_def)
qed

text \<open>
  Round trip of calls. A call encoded by \<open>obus_call_encode\<close> on the client and decoded by
  \<open>obus_call_decode\<close> on a server that has the object under the same handle and declares the method
  gives a new call of that method on that object, with the same handle and, when the method has
  arguments, exactly the arguments that were set, with their values; it is not registered yet and
  has no callback. The buffer is read to its end and no object changes.
\<close>

theorem call_roundtrip:
  assumes "objs s (c_obj c) = Some obj" "args_ok c" "length (args_wire (c_args c)) < 2 ^ 32" "objects_ok t"
    "call_target t (od_uid (o_desc obj)) (o_handle obj) (m_uid (c_desc c)) = Some (a, c_desc c)"
    "buf_ok b" "bpos b = blength b" "enough m (blength b + 12 + length (args_wire (c_args c)))"
    "\<forall>st. c_args c = Some st \<longrightarrow> enough m (entries_need (struct_entries st))" "alloc_ok m (call_size (c_desc c))"
  shows "\<exists>b' q t' b'' c'. obus_call_encode m s c b = (Inr (), b') \<and> obus_call_decode m t b' = (Inr q, t', b'')
    \<and> unread b'' = [] \<and> q = next_addr t \<and> calls t' = (calls t)(q \<mapsto> c') \<and> objs t' = objs t \<and> bcalls t' = bcalls t
    \<and> c_desc c' = c_desc c \<and> c_obj c' = a \<and> c_handle c' = c_handle c \<and> c_cb c' = 0
    \<and> rel_option carries (c_args c) (c_args c')"
proof -
  let ?a = "args_wire (c_args c)"
  let ?w = "wire_call (od_uid (o_desc obj)) (o_handle obj) (m_uid (c_desc c)) (c_handle c) ?a"
  obtain b' where b': "obus_call_encode m s c b = (Inr (), b')" "appended b b' ([] @ ?w)"
    by (rule call_encode_ok [OF _ assms(1), of b b "[]" m]) (use assms(2,6,8) in \<open>simp_all add: args_ok_def\<close>)
  note ok = appended_ok [OF b'(2)]
  have u: "unread b' = ?w @ []"
    using appended_unread [OF b'(2) _ assms(6)] assms(6,7) by (simp add: unread_def)
  then have r: "reads_at b' 0 (?w @ [])" using ok by simp
  obtain args' where d: "obus_call_decode m t (advance b' 0) =
      (Inr (next_addr t), t\<lparr>calls := (calls t)(next_addr t \<mapsto> new_call (c_desc c) a (c_handle c) args'), next_addr := Suc (next_addr t)\<rparr>,
       advance b' (0 + 12 + length ?a))" "rel_option carries (c_args c) args'"
    by (rule call_decode_ok [OF assms(2-5,9,10) r])
  have "unread (advance b' (12 + length ?a)) = []" using unread_prefix(3) [OF ok u] by simp
  then show ?thesis
    using b'(1) d by (auto intro!: exI [of _ "new_call (c_desc c) a (c_handle c) args'"])
qed

section \<open>Sanitizing\<close>

lemma sanitize_fields_ok:
  assumes "bits_ok st" "distinct is"
  shows "fst (sanitize_fields srv desc st is) = length (filter (\<lambda>i. obus_struct_has_field st i \<and> \<not> in_updates desc (st_desc st) i) is)
    \<and> same_fields st (snd (sanitize_fields srv desc st is))
    \<and> (\<forall>j. obus_struct_has_field (snd (sanitize_fields srv desc st is)) j \<longleftrightarrow>
         obus_struct_has_field st j \<and> \<not> (srv \<and> j \<in> set is \<and> \<not> in_updates desc (st_desc st) j))"
  using assms
proof (induction "is" arbitrary: st)
  case Nil
  then show ?case by (simp add: same_fields_def)
next
  case (Cons i "is")
  let ?st = "if srv then snd (obus_struct_clear_has_field st i) else st"
  have c: "bits_ok ?st" "same_fields st ?st" using Cons.prems(1) fb.clear_wf [of st i] same_fields_clear
    by (simp_all add: same_fields_def)
  have h: "obus_struct_has_field ?st j \<longleftrightarrow> obus_struct_has_field st j \<and> \<not> (srv \<and> i = j)" for j
    using fb.has_clear [OF Cons.prems(1)] by auto
  have f: "filter (\<lambda>j. obus_struct_has_field ?st j \<and> \<not> in_updates desc (st_desc ?st) j) is =
      filter (\<lambda>j. obus_struct_has_field st j \<and> \<not> in_updates desc (st_desc st) j) is"
    by (rule filter_cong) (use h c(2) Cons.prems(2) in \<open>auto simp: same_fields_def\<close>)
  have sd: "st_desc ?st = st_desc st" using c(2) by (simp add: same_fields_def)
  note IH = Cons.IH [OF c(1)] Cons.IH [OF Cons.prems(1)]
  show ?case
  proof (cases "obus_struct_has_field st i \<and> \<not> in_updates desc (st_desc st) i")
    case True
    have e: "sanitize_fields srv desc st (i # is) = (Suc (fst (sanitize_fields srv desc ?st is)), snd (sanitize_fields srv desc ?st is))"
      using True by (simp add: Let_def split: prod.splits)
    have "same_fields st x" if "same_fields ?st x" for x using that c(2) by (simp add: same_fields_def)
    then show ?thesis unfolding e using True IH(1) Cons.prems(2) f h sd by (auto simp del: sanitize_fields.simps)
  next
    case False
    then have "sanitize_fields srv desc st (i # is) = sanitize_fields srv desc st is" by auto
    then show ?thesis using False IH(2) Cons.prems(2) by auto
  qed
qed

text \<open>
  Sanitizing an event. \<open>obus_event_sanitize\<close> returns the number of set fields that the event
  does not declare to update. On the server it takes exactly these out of the event, on the
  client it keeps them; no value and no other member of the event changes.
\<close>

theorem event_sanitize_spec:
  assumes "bits_ok (e_info ev)"
  shows "\<exists>ev'. obus_event_sanitize ev srv =
      (length (filter (\<lambda>i. \<not> in_updates (e_desc ev) (st_desc (e_info ev)) i) (marked (e_info ev))), ev')
    \<and> ev' = ev\<lparr>e_info := e_info ev'\<rparr> \<and> same_fields (e_info ev) (e_info ev')
    \<and> (\<forall>i. obus_struct_has_field (e_info ev') i \<longleftrightarrow>
         obus_struct_has_field (e_info ev) i \<and> (srv \<longrightarrow> in_updates (e_desc ev) (st_desc (e_info ev)) i))"
proof -
  have "obus_struct_has_field (e_info ev) i \<Longrightarrow> i \<in> set (field_indices (e_info ev))" for i
    using fb.has_bound by (simp add: field_indices_def)
  moreover have "distinct (field_indices (e_info ev))" by (simp add: field_indices_def)
  ultimately show ?thesis
    using sanitize_fields_ok [OF assms, of "field_indices (e_info ev)" srv "e_desc ev"]
    by (auto simp: obus_event_sanitize_def marked_def filter_filter conj_commute split: prod.splits)
qed

section \<open>Committing\<close>

text \<open>
  Committing an event. The first commit of an event whose structure has the description of
  its object, with memory available, succeeds: every field set in the event is set in the object
  and holds a copy of the value, every other field of the object and every other object is
  unchanged, and the event is marked as committed. Committing again changes nothing.
\<close>

theorem event_commit_spec:
  assumes "evts s p = Some ev" "p \<noteq> 0" "\<not> e_committed ev" "objs s (e_obj ev) = Some obj"
    "wf_struct_desc (st_desc (e_info ev))" "st_desc (o_info obj) = st_desc (e_info ev)" "bits_ok (o_info obj)"
    "\<forall>i<length (sfields (st_desc (e_info ev))). count_ok (o_info obj) (sfields (st_desc (e_info ev)) ! i)"
    "\<forall>i. obus_struct_has_field (e_info ev) i \<longrightarrow> count_ok (e_info ev) (sfields (st_desc (e_info ev)) ! i)
       \<and> enough m (copy_need (field_values (e_info ev) (sfields (st_desc (e_info ev)) ! i)))"
  shows "\<exists>s' st'. obus_event_commit m alias s p = (Inr (), s') \<and> obus_event_commit m alias s' p = (Inr (), s')
    \<and> obus_event_is_committed s' p \<and> objs s' = (objs s)(e_obj ev \<mapsto> obj\<lparr>o_info := st'\<rparr>) \<and> st_desc st' = st_desc (o_info obj)
    \<and> (\<forall>j<length (sfields (st_desc st')). let d = sfields (st_desc st') ! j in
         if obus_struct_has_field (e_info ev) j
         then obus_struct_has_field st' j \<and> list_all2 (copy_of d) (field_values (e_info ev) d) (field_values st' d)
         else field_state st' j = field_state (o_info obj) j)"
proof -
  obtain st' where st': "obus_struct_merge m alias (o_info obj) (e_info ev) = (Inr (), st')" "st_desc st' = st_desc (e_info ev)"
    "\<forall>j<length (sfields (st_desc (e_info ev))). let d = sfields (st_desc (e_info ev)) ! j in
         count_ok st' d \<and>
         (if obus_struct_has_field (e_info ev) j
          then obus_struct_has_field st' j \<and> list_all2 (copy_of d) (field_values (e_info ev) d) (field_values st' d)
          else field_state st' j = field_state (o_info obj) j)"
    using struct_merge_ok [OF assms(5-9), of "alias"] by blast
  let ?s = "s\<lparr>objs := (objs s)(e_obj ev \<mapsto> obj\<lparr>o_info := st'\<rparr>), evts := (evts s)(p \<mapsto> ev\<lparr>e_committed := True\<rparr>)\<rparr>"
  have "obus_event_commit m alias s p = (Inr (), ?s)" "obus_event_commit m alias ?s p = (Inr (), ?s)"
    "obus_event_is_committed ?s p"
    using st'(1) assms(1-4) by (simp_all add: obus_event_commit_def obus_event_is_committed_def)
  moreover have "\<forall>j<length (sfields (st_desc st')). let d = sfields (st_desc st') ! j in
      if obus_struct_has_field (e_info ev) j
      then obus_struct_has_field st' j \<and> list_all2 (copy_of d) (field_values (e_info ev) d) (field_values st' d)
      else field_state st' j = field_state (o_info obj) j"
    using st'(2,3) by (simp add: Let_def)
  ultimately show ?thesis using st'(2) assms(6) by (intro exI [of _ ?s] exI [of _ st']) simp
qed

section \<open>Examples\<close>

text \<open>A client and a server with the object on the bus, and unused addresses from 10 on.\<close>

lemma sample_side:
  obtains s where "objects_ok s" "calls_ok s" "fresh_addrs s" "next_addr s = 10" "objs s = [1 \<mapsto> sample_object\<lparr>o_bus := True\<rparr>]"
    "object_at s 3 17 = Some (1, sample_object\<lparr>o_bus := True\<rparr>)"
    "obus_bus_api_object (bus_api s) 3 = Some sample_od" "obus_bus_api_method (bus_api s) 3 7 = Some sample_method"
    "obus_bus_api_event (bus_api s) 3 5 = Some sample_event" "obus_bus_api_bus_event (bus_api s) 2 = Some \<lparr>be_uid = 2\<rparr>"
    "evts s = Map.empty" "bevts s = Map.empty" "calls s = Map.empty" "bcalls s = []" "bobjects s = []"
proof -
  obtain b s where s: "objects_ok s" "calls_ok s" "objs s = [1 \<mapsto> sample_object\<lparr>o_bus := True\<rparr>]"
    "obus_bus_api_object (bus_api s) 3 = Some sample_od" "obus_bus_api_method (bus_api s) 3 7 = Some sample_method"
    "obus_bus_api_event (bus_api s) 3 5 = Some sample_event" "obus_bus_api_bus_event (bus_api s) 2 = Some \<lparr>be_uid = 2\<rparr>"
    "evts s = Map.empty" "bevts s = Map.empty" "calls s = Map.empty" "bcalls s = []" "bobjects s = []"
    by (rule sample_added)
  let ?s = "s\<lparr>next_addr := 10\<rparr>"
  have ok: "objects_ok ?s" "calls_ok ?s" using s(1,2) by (simp_all add: objects_ok_def calls_ok_def)
  have "obus_bus_object ?s 17 = 1" using bus_object_iff [OF ok(1), of 1 17] s(3) by (simp add: sample_object_def)
  then have "object_at ?s 3 17 = Some (1, sample_object\<lparr>o_bus := True\<rparr>)"
    using s(3) by (simp add: object_at_def Let_def sample_bus_defs)
  then show thesis by (rule that [OF ok, rotated 3]) (use s(3-) in \<open>auto simp: fresh_addrs_def\<close>)
qed

definition sample_evt :: obus_event where
  "sample_evt = new_event sample_event 1 sample_struct"

lemma sample_event_target:
  assumes "object_at s 3 17 = Some (1, sample_object\<lparr>o_bus := True\<rparr>)" "obus_bus_api_event (bus_api s) 3 5 = Some sample_event"
  shows "event_target s 3 17 5 = Some (1, sample_object\<lparr>o_bus := True\<rparr>, sample_event)"
  using assms by (simp add: event_target_def OBUS_INVALID_UID_def OBUS_INVALID_HANDLE_def)

lemma event_decode_framing_witness:
  "\<exists>s q s' b'. obus_event_decode full_memory s (buffer_of (wire_event 3 17 5 [0xFF, 0xFF] @ [9])) = (Inr q, s', b') \<and> unread b' = [9]"
proof -
  obtain s where s: "objects_ok s" "fresh_addrs s" by (rule sample_side)
  have "buf_ok (buffer_of (wire_event 3 17 5 [0xFF, 0xFF] @ [9]))"
    by simp
  then show ?thesis
    using event_decode_framing [OF s, of "buffer_of (wire_event 3 17 5 [0xFF, 0xFF] @ [9])" 3 17 5 "[0xFF, 0xFF]" "[9]" full_memory]
    by auto
qed

lemma event_roundtrip_witness:
  "\<exists>s t b' q t' b'' ev'. obus_event_encode full_memory s sample_evt (buffer_of []) = (Inr (), b')
    \<and> obus_event_decode full_memory t b' = (Inr q, t', b'') \<and> evts t' q = Some ev' \<and> obus_struct_has_field (e_info ev') 2"
proof -
  obtain s where s: "objects_ok s" "fresh_addrs s" "objs s = [1 \<mapsto> sample_object\<lparr>o_bus := True\<rparr>]"
    "object_at s 3 17 = Some (1, sample_object\<lparr>o_bus := True\<rparr>)" "obus_bus_api_event (bus_api s) 3 5 = Some sample_event"
    by (rule sample_side)
  let ?o = "sample_object\<lparr>o_bus := True\<rparr>"
  have e: "objs s (e_obj sample_evt) = Some ?o" "struct_ok (e_info sample_evt)" "st_desc (e_info sample_evt) = info_desc (o_desc ?o)"
    "e_info sample_evt = sample_struct" "o_handle ?o = 17" "od_uid (o_desc ?o) = 3" "ev_uid (e_desc sample_evt) = 5" "e_desc sample_evt = sample_event"
    using s(3) sample_ok by (simp_all add: sample_evt_def sample_bus_defs sample_defs)
  have m: "length (wire_of (e_info sample_evt)) = 16" "entries_need (struct_entries (e_info sample_evt)) = 32"
    "alloc_ok full_memory (event_size ?o)" "2 < length (sfields (info_desc (o_desc ?o)))"
    using e(4) sample_sizes by (simp_all add: wire_of_def event_size_def sizeof_event_def full_memory_alloc sample_bus_defs sample_defs)
  show ?thesis
    using event_roundtrip [OF e(1-3) _ s(1,2), of 1 ?o "buffer_of []" full_memory] m e sample_event_target [OF s(4,5)]
      sample_has [of 2] by (fastforce simp: Let_def)
qed

definition sample_args_call :: obus_call where
  "sample_args_call = new_call sample_method 1 6 (Some sample_struct)"

lemma call_roundtrip_witness:
  "\<exists>s t b' q t' b'' c'. obus_call_encode full_memory s sample_args_call (buffer_of []) = (Inr (), b')
    \<and> obus_call_decode full_memory t b' = (Inr q, t', b'') \<and> calls t' q = Some c' \<and> c_handle c' = 6
    \<and> rel_option carries (Some sample_struct) (c_args c')"
proof -
  obtain s where s: "objects_ok s" "objs s = [1 \<mapsto> sample_object\<lparr>o_bus := True\<rparr>]"
    "object_at s 3 17 = Some (1, sample_object\<lparr>o_bus := True\<rparr>)" "obus_bus_api_method (bus_api s) 3 7 = Some sample_method"
    by (rule sample_side)
  let ?o = "sample_object\<lparr>o_bus := True\<rparr>"
  have c: "objs s (c_obj sample_args_call) = Some ?o" "args_ok sample_args_call"
    "o_handle ?o = 17" "od_uid (o_desc ?o) = 3" "m_uid (c_desc sample_args_call) = 7" "c_desc sample_args_call = sample_method"
    "c_args sample_args_call = Some sample_struct" "c_handle sample_args_call = 6"
    using s(2) sample_ok by (simp_all add: sample_args_call_def sample_bus_defs args_ok_def) (simp add: sample_defs)
  have t: "call_target s 3 17 7 = Some (1, sample_method)" using s(3,4) by (simp add: call_target_def)
  have m: "length (args_wire (Some sample_struct)) = 16" "entries_need (struct_entries sample_struct) = 32"
    "alloc_ok full_memory (call_size sample_method)"
    using sample_sizes
    by (simp_all add: args_wire_def wire_of_def call_size_def sizeof_call_def full_memory_alloc sample_method_def sample_desc_def)
  have "\<exists>b' q t' b'' c'. obus_call_encode full_memory s sample_args_call (buffer_of []) = (Inr (), b')
      \<and> obus_call_decode full_memory s b' = (Inr q, t', b'')
      \<and> unread b'' = [] \<and> q = next_addr s \<and> calls t' = (calls s)(q \<mapsto> c') \<and> objs t' = objs s \<and> bcalls t' = bcalls s
      \<and> c_desc c' = c_desc sample_args_call \<and> c_obj c' = 1 \<and> c_handle c' = c_handle sample_args_call \<and> c_cb c' = 0
      \<and> rel_option carries (c_args sample_args_call) (c_args c')"
    by (rule call_roundtrip [OF c(1,2) _ s(1)]) (use m c t in simp_all)
  then obtain b' q t' b'' c' where "obus_call_encode full_memory s sample_args_call (buffer_of []) = (Inr (), b')"
    "obus_call_decode full_memory s b' = (Inr q, t', b'')" "calls t' q = Some c'" "c_handle c' = 6"
    "rel_option carries (Some sample_struct) (c_args c')"
    unfolding c(7,8) by auto
  then show ?thesis by blast
qed

lemma sample_updates: "in_updates sample_event sample_desc i \<longleftrightarrow> fuid (sfields sample_desc ! i) = 1"
  by (simp add: in_updates_def sample_event_def sample_desc_def)

lemma event_sanitize_spec_witness:
  "bits_ok sample_struct \<and> fst (obus_event_sanitize sample_evt True) = 1
    \<and> obus_struct_has_field (e_info (snd (obus_event_sanitize sample_evt True))) 0
    \<and> \<not> obus_struct_has_field (e_info (snd (obus_event_sanitize sample_evt True))) 2"
proof -
  have b: "bits_ok (e_info sample_evt)" using sample_ok by (simp add: sample_evt_def struct_ok_def)
  have u: "in_updates (e_desc sample_evt) (st_desc (e_info sample_evt)) 0" "\<not> in_updates (e_desc sample_evt) (st_desc (e_info sample_evt)) 2"
    using sample_updates by (simp_all add: sample_evt_def sample_struct_def blank_struct_def) (simp_all add: sample_desc_def)
  show ?thesis
    using event_sanitize_spec [OF b, of True] b u sample_marked sample_has by (auto simp: sample_evt_def)
qed

lemma event_commit_spec_witness:
  "\<exists>s s'. evts s 10 = Some sample_evt \<and> obus_event_commit full_memory (\<lambda>_ _ _. False) s 10 = (Inr (), s')
    \<and> obus_event_is_committed s' 10 \<and> \<not> obus_event_is_committed s 10"
proof -
  obtain s0 :: bus_state where s0: "objs s0 = [1 \<mapsto> sample_object\<lparr>o_bus := True\<rparr>]" by (rule sample_side)
  let ?s = "s0\<lparr>evts := [10 \<mapsto> sample_evt]\<rparr>" and ?o = "sample_object\<lparr>o_bus := True\<rparr>"
  have e: "e_info sample_evt = sample_struct" "o_info ?o = sample_struct" "e_obj sample_evt = 1"
    by (simp_all add: sample_evt_def sample_object_def)
  have "\<forall>d\<in>set (sfields (st_desc sample_struct)). count_ok sample_struct d"
    by (simp add: count_ok_def sample_defs field_values_def obus_field_address_def get_array_def obus_field_array_nb_address_def)
  then have c: "\<forall>i<length (sfields (st_desc sample_struct)). count_ok sample_struct (sfields (st_desc sample_struct) ! i)"
    by simp
  have "count_ok sample_struct (sfields (st_desc sample_struct) ! i)
      \<and> enough full_memory (copy_need (field_values sample_struct (sfields (st_desc sample_struct) ! i)))"
    if "obus_struct_has_field sample_struct i" for i
    using c fb.has_bound [OF that] that sample_values by (auto simp only: sample_has) (simp_all add: copy_need_def string_length_def get_str_def)
  moreover have "wf_struct_desc (st_desc sample_struct)" "bits_ok sample_struct" using sample_ok by (simp_all add: struct_ok_def)
  ultimately show ?thesis
    using event_commit_spec [of ?s 10 sample_evt ?o full_memory "\<lambda>_ _ _. False"] c e s0
    by - (rule exI [of _ ?s], auto simp: sample_evt_def obus_event_is_committed_def)
qed

end
