(* ===== verification/Obus_Bus_Event.thy ===== *)
theory Obus_Bus_Event
  imports Obus_Event
begin

text \<open>
  Bus events: \<open>obus_bus_event.c\<close>. A bus event groups objects to register, objects to unregister
  and object events. The first part holds the operations, the second what the three loops of the
  decoder do with any frames, the third the round trip.
\<close>

section \<open>Operations\<close>

definition sizeof_bus_event :: nat where "sizeof_bus_event = 64"

definition empty_bus_event :: "obus_bus_event_desc \<Rightarrow> bool \<Rightarrow> obus_bus_event" where
  "empty_bus_event desc alloc =
     \<lparr>be_desc = desc, add_objs = [], remove_objs = [], obj_events = [], be_committed = False, be_allocated = alloc\<rparr>"

definition obus_bus_event_init :: "bus_state \<Rightarrow> addr \<Rightarrow> obus_bus_event_desc \<Rightarrow> bus_state" where
  "obus_bus_event_init s p desc = s\<lparr>bevts := (bevts s)(p \<mapsto> empty_bus_event desc False)\<rparr>"

definition obus_bus_event_get_desc :: "bus_state \<Rightarrow> addr \<Rightarrow> obus_bus_event_desc option" where
  "obus_bus_event_get_desc s p = map_option be_desc (bevts s p)"

text \<open>
  Linking the event node of an object into a list of a bus event. A node that is linked already
  would tear it out of the ring it is in: a fault. The two registration functions refuse it.
\<close>

definition link_object ::
  "((addr list \<Rightarrow> addr list) \<Rightarrow> obus_bus_event \<Rightarrow> obus_bus_event) \<Rightarrow> bus_state \<Rightarrow> addr \<Rightarrow> addr \<Rightarrow> unit res \<times> bus_state" where
  "link_object upd s p obj =
     (case (bevts s p, objs s obj) of
        (Some be, Some ob) \<Rightarrow>
          if o_event_node ob then (Inl FAULT, s)
          else (Inr (), s\<lparr>bevts := (bevts s)(p \<mapsto> upd (\<lambda>xs. xs @ [obj]) be),
                          objs := (objs s)(obj \<mapsto> ob\<lparr>o_event_node := True\<rparr>)\<rparr>)
      | _ \<Rightarrow> (Inl FAULT, s))"

definition attach_object ::
  "((addr list \<Rightarrow> addr list) \<Rightarrow> obus_bus_event \<Rightarrow> obus_bus_event) \<Rightarrow> bus_state \<Rightarrow> addr \<Rightarrow> addr \<Rightarrow> unit res \<times> bus_state" where
  "attach_object upd s p obj =
     (if p = 0 \<or> obj = 0 then (Inl EINVAL, s)
      else case objs s obj of
        None \<Rightarrow> (Inl FAULT, s)
      | Some ob \<Rightarrow> if o_event_node ob then (Inl EPERM, s) else link_object upd s p obj)"

definition obus_bus_event_register_object :: "bus_state \<Rightarrow> addr \<Rightarrow> addr \<Rightarrow> unit res \<times> bus_state" where
  "obus_bus_event_register_object s p obj = attach_object add_objs_update s p obj"

definition obus_bus_event_unregister_object :: "bus_state \<Rightarrow> addr \<Rightarrow> addr \<Rightarrow> unit res \<times> bus_state" where
  "obus_bus_event_unregister_object s p obj = attach_object remove_objs_update s p obj"

definition link_event :: "bus_state \<Rightarrow> addr \<Rightarrow> addr \<Rightarrow> unit res \<times> bus_state" where
  "link_event s p evt =
     (case (bevts s p, evts s evt) of
        (Some be, Some ev) \<Rightarrow>
          if e_event_node ev then (Inl FAULT, s)
          else (Inr (), s\<lparr>bevts := (bevts s)(p \<mapsto> obj_events_update (\<lambda>xs. xs @ [evt]) be),
                          evts := (evts s)(evt \<mapsto> ev\<lparr>e_event_node := True\<rparr>)\<rparr>)
      | _ \<Rightarrow> (Inl FAULT, s))"

definition obus_bus_event_add_event :: "bus_state \<Rightarrow> addr \<Rightarrow> addr \<Rightarrow> unit res \<times> bus_state" where
  "obus_bus_event_add_event s p evt =
     (if p = 0 \<or> evt = 0 then (Inl EINVAL, s)
      else case evts s evt of
        None \<Rightarrow> (Inl FAULT, s)
      | Some ev \<Rightarrow> if e_event_node ev then (Inl EPERM, s) else link_event s p evt)"

definition obus_bus_event_new :: "memory \<Rightarrow> bus_state \<Rightarrow> obus_bus_event_desc \<Rightarrow> addr \<times> bus_state" where
  "obus_bus_event_new m s desc =
     (if \<not> alloc_ok m sizeof_bus_event then (0, s)
      else (next_addr s, s\<lparr>bevts := (bevts s)(next_addr s \<mapsto> empty_bus_event desc True), next_addr := Suc (next_addr s)\<rparr>))"

text \<open>
  The destroying loops save the next element first, and unlink the current one. The results of
  destroying an event or an object are ignored, faults are not.
\<close>

definition destroy_event :: "bus_state \<Rightarrow> addr \<Rightarrow> unit res \<times> bus_state" where
  "destroy_event s evt = no_fault (obus_event_destroy (detach_event s evt) evt)"

definition release_object :: "bus_state \<Rightarrow> addr \<Rightarrow> unit res \<times> bus_state" where
  "release_object s obj = (Inr (), detach_event_node s obj)"

definition destroy_removed :: "bus_state \<Rightarrow> addr \<Rightarrow> unit res \<times> bus_state" where
  "destroy_removed s obj = no_fault (obus_object_destroy (detach_event_node s obj) obj)"

definition obus_bus_event_destroy :: "bus_state \<Rightarrow> addr \<Rightarrow> unit res \<times> bus_state" where
  "obus_bus_event_destroy s p =
     (if p = 0 then (Inl EINVAL, s)
      else case bevts s p of
        None \<Rightarrow> (Inl FAULT, s)
      | Some be \<Rightarrow>
          chk (walk destroy_event s (obj_events be)) (\<lambda>_ s.
          chk (walk release_object s (add_objs be)) (\<lambda>_ s.
          chk (walk destroy_removed s (remove_objs be)) (\<lambda>_ s.
            (Inr (), if be_allocated be then s\<lparr>bevts := (bevts s)(p := None)\<rparr> else s)))))"

section \<open>Bus events on the wire\<close>

primrec encode_all :: "('a \<Rightarrow> obus_buffer \<Rightarrow> unit res \<times> obus_buffer) \<Rightarrow> 'a option list \<Rightarrow> obus_buffer \<Rightarrow> unit res \<times> obus_buffer" where
  "encode_all enc [] buf = (Inr (), buf)"
| "encode_all enc (x # xs) buf =
     (case x of None \<Rightarrow> (Inl FAULT, buf) | Some v \<Rightarrow> chk (enc v buf) (\<lambda>_ buf. encode_all enc xs buf))"

definition obus_bus_event_encode :: "memory \<Rightarrow> bus_state \<Rightarrow> obus_bus_event \<Rightarrow> obus_buffer \<Rightarrow> unit res \<times> obus_buffer" where
  "obus_bus_event_encode m s event buf =
     chk (obus_buffer_append_u16 m buf (be_uid (be_desc event))) (\<lambda>_ buf.
     chk (obus_buffer_append_u32 m buf (of_nat (length (add_objs event)))) (\<lambda>_ buf.
     chk (obus_buffer_append_u32 m buf (of_nat (length (remove_objs event)))) (\<lambda>_ buf.
     chk (obus_buffer_append_u32 m buf (of_nat (length (obj_events event)))) (\<lambda>_ buf.
     chk (encode_all (obus_object_add_encode m) (map (objs s) (add_objs event)) buf) (\<lambda>_ buf.
     chk (encode_all (obus_object_remove_encode m) (map (objs s) (remove_objs event)) buf) (\<lambda>_ buf.
     encode_all (obus_event_encode m s) (map (evts s) (obj_events event)) buf))))))"

text \<open>One turn of each of the three loops of the decoder.\<close>

definition decode_add :: "memory \<Rightarrow> addr \<Rightarrow> bus_state \<Rightarrow> obus_buffer \<Rightarrow> unit res \<times> bus_state \<times> obus_buffer" where
  "decode_add m be s buf =
     (case obus_object_add_decode m (bus_api s) buf of
        (Inl e, buf) \<Rightarrow> (Inl e, s, buf)
      | (Inr None, buf) \<Rightarrow> (Inr (), s, buf)
      | (Inr (Some obj), buf) \<Rightarrow>
          let p = next_addr s;
              s = s\<lparr>objs := (objs s)(p \<mapsto> obj), next_addr := Suc p\<rparr>
          in (case link_object add_objs_update s be p of (r, s) \<Rightarrow> (r, s, buf)))"

definition decode_remove :: "addr \<Rightarrow> bus_state \<Rightarrow> obus_buffer \<Rightarrow> unit res \<times> bus_state \<times> obus_buffer" where
  "decode_remove be s buf =
     (case obus_object_remove_decode s buf of (obj, buf) \<Rightarrow>
        if obj = 0 then (Inr (), s, buf)
        else (case link_object remove_objs_update s be obj of (r, s) \<Rightarrow> (r, s, buf)))"

definition decode_event :: "memory \<Rightarrow> addr \<Rightarrow> bus_state \<Rightarrow> obus_buffer \<Rightarrow> unit res \<times> bus_state \<times> obus_buffer" where
  "decode_event m be s buf =
     (case obus_event_decode m s buf of
        (Inl e, s, buf) \<Rightarrow> (Inl e, s, buf)
      | (Inr evt, s, buf) \<Rightarrow>
          if evt = 0 then (Inr (), s, buf)
          else (case link_event s be evt of (r, s) \<Rightarrow> (r, s, buf)))"

primrec turns :: "nat \<Rightarrow> ('s \<Rightarrow> obus_buffer \<Rightarrow> unit res \<times> 's \<times> obus_buffer) \<Rightarrow> 's \<Rightarrow> obus_buffer \<Rightarrow> unit res \<times> 's \<times> obus_buffer" where
  "turns 0 f s buf = (Inr (), s, buf)"
| "turns (Suc n) f s buf =
     (case f s buf of (Inl e, s, buf) \<Rightarrow> (Inl e, s, buf) | (Inr _, s, buf) \<Rightarrow> turns n f s buf)"

definition obus_bus_event_decode ::
  "memory \<Rightarrow> bus_state \<Rightarrow> obus_buffer \<Rightarrow> addr res \<times> bus_state \<times> obus_buffer" where
  "obus_bus_event_decode m s buf =
     (case obus_buffer_read_u16 buf of (Inl _, buf) \<Rightarrow> (Inr 0, s, buf) | (Inr uid, buf) \<Rightarrow>
     (case obus_buffer_read_u32 buf of (Inl _, buf) \<Rightarrow> (Inr 0, s, buf) | (Inr n_add_objs, buf) \<Rightarrow>
     (case obus_buffer_read_u32 buf of (Inl _, buf) \<Rightarrow> (Inr 0, s, buf) | (Inr n_remove_objs, buf) \<Rightarrow>
     (case obus_buffer_read_u32 buf of (Inl _, buf) \<Rightarrow> (Inr 0, s, buf) | (Inr n_obj_events, buf) \<Rightarrow>
     (case obus_bus_api_bus_event (bus_api s) uid of None \<Rightarrow> (Inr 0, s, buf) | Some desc \<Rightarrow>
     (case obus_bus_event_new m s desc of (be, s) \<Rightarrow>
        if be = 0 then (Inr 0, s, buf)
        else (case turns (unat n_add_objs) (decode_add m be) s buf of
             (Inl e, s, buf) \<Rightarrow> (Inl e, s, buf)
           | (Inr _, s, buf) \<Rightarrow>
        (case turns (unat n_remove_objs) (decode_remove be) s buf of
             (Inl e, s, buf) \<Rightarrow> (Inl e, s, buf)
           | (Inr _, s, buf) \<Rightarrow>
        (case turns (unat n_obj_events) (decode_event m be) s buf of
             (Inl e, s, buf) \<Rightarrow> (Inl e, s, buf)
           | (Inr _, s, buf) \<Rightarrow> (Inr be, s, buf))))))))))"

section \<open>Loops over frames\<close>

text \<open>
  The contract the three decoding loops have in common. When the state admits the items still
  to come, decoding the wire image of the next item \<open>x\<close> reads exactly this image and takes the
  state \<open>s\<close> to \<open>f s y\<close>, where \<open>y\<close> is what the receiver makes of \<open>x\<close>.
\<close>

locale frame_loop =
  fixes dec :: "'s \<Rightarrow> obus_buffer \<Rightarrow> unit res \<times> 's \<times> obus_buffer" and wire :: "'x \<Rightarrow> u8 list"
    and admits :: "'s \<Rightarrow> 'x list \<Rightarrow> bool" and rel :: "'x \<Rightarrow> 'y \<Rightarrow> bool" and f :: "'s \<Rightarrow> 'y \<Rightarrow> 's"
  assumes one: "admits s (x # xs) \<Longrightarrow> reads_at b p (wire x @ rest) \<Longrightarrow>
    \<exists>y. rel x y \<and> dec s (advance b p) = (Inr (), f s y, advance b (p + length (wire x))) \<and> admits (f s y) xs"
begin

lemma loop:
  assumes "admits s xs" "reads_at b p (concat (map wire xs) @ rest)"
  obtains ys where "list_all2 rel xs ys"
    "turns (length xs) dec s (advance b p) = (Inr (), foldl f s ys, advance b (p + length (concat (map wire xs))))"
    "admits (foldl f s ys) []" "reads_at b (p + length (concat (map wire xs))) rest"
proof -
  have "\<exists>ys. list_all2 rel xs ys
    \<and> turns (length xs) dec s (advance b p) = (Inr (), foldl f s ys, advance b (p + length (concat (map wire xs))))
    \<and> admits (foldl f s ys) []"
    using assms
  proof (induction xs arbitrary: s p)
    case (Cons x xs)
    have r: "reads_at b p (wire x @ concat (map wire xs) @ rest)" using Cons.prems(2) by simp
    from one [OF Cons.prems(1) r] obtain y where
      y: "rel x y" "dec s (advance b p) = (Inr (), f s y, advance b (p + length (wire x)))" "admits (f s y) xs" by blast
    from Cons.IH [OF y(3) reads_at_step [OF r]] obtain ys where
      ys: "list_all2 rel xs ys" "turns (length xs) dec (f s y) (advance b (p + length (wire x))) =
         (Inr (), foldl f (f s y) ys, advance b (p + length (wire x) + length (concat (map wire xs))))"
      "admits (foldl f (f s y) ys) []" by blast
    then show ?case using y(1,2) by (intro exI [of _ "y # ys"]) (simp add: add.assoc)
  qed simp
  then show thesis using that reads_at_step [OF assms(2)] by blast
qed

end

section \<open>The state while decoding\<close>

definition decoding_ok :: "addr \<Rightarrow> bus_state \<Rightarrow> bool" where
  "decoding_ok be s \<longleftrightarrow> objects_ok s \<and> fresh_addrs s \<and> bevts s be \<noteq> None"

text \<open>What decoding leaves alone: the bus, and every object there was before.\<close>

definition extends :: "bus_state \<Rightarrow> bus_state \<Rightarrow> bool" where
  "extends s0 s \<longleftrightarrow> bus_api s = bus_api s0 \<and> objects_hash s = objects_hash s0 \<and> bobjects s = bobjects s0
     \<and> same_calls s0 s \<and> (\<forall>p obj. objs s0 p = Some obj \<longrightarrow> objs s p = Some obj)"

lemma extends_refl [simp]: "extends s s"
  by (simp add: extends_def)

definition put_object :: "addr \<Rightarrow> bus_state \<Rightarrow> obus_object \<Rightarrow> bus_state" where
  "put_object be s obj =
     s\<lparr>objs := (objs s)(next_addr s \<mapsto> obj\<lparr>o_event_node := True\<rparr>),
       bevts := (bevts s)(be := map_option (add_objs_update (\<lambda>xs. xs @ [next_addr s])) (bevts s be)),
       next_addr := Suc (next_addr s)\<rparr>"

definition put_removed :: "addr \<Rightarrow> bus_state \<Rightarrow> addr \<Rightarrow> bus_state" where
  "put_removed be s p =
     s\<lparr>objs := (objs s)(p := map_option (o_event_node_update (\<lambda>_. True)) (objs s p)),
       bevts := (bevts s)(be := map_option (remove_objs_update (\<lambda>xs. xs @ [p])) (bevts s be))\<rparr>"

definition put_event :: "addr \<Rightarrow> bus_state \<Rightarrow> obus_event \<Rightarrow> bus_state" where
  "put_event be s ev =
     s\<lparr>evts := (evts s)(next_addr s \<mapsto> ev\<lparr>e_event_node := True\<rparr>),
       bevts := (bevts s)(be := map_option (obj_events_update (\<lambda>xs. xs @ [next_addr s])) (bevts s be)),
       next_addr := Suc (next_addr s)\<rparr>"

lemma put_bus_object [simp]:
  "obus_bus_object (put_object be s obj) h = obus_bus_object s h" "obus_bus_object (put_removed be s p) h = obus_bus_object s h"
  "obus_bus_object (put_event be s ev) h = obus_bus_object s h"
  by (simp_all add: obus_bus_object_def put_object_def put_removed_def put_event_def)

lemma put_object_ok:
  assumes "decoding_ok be s" "\<not> o_bus obj" "\<not> o_registered obj"
  shows "decoding_ok be (put_object be s obj)" "extends s0 s \<Longrightarrow> extends s0 (put_object be s obj)"
proof -
  have n: "objs s (next_addr s) = None" "next_addr s \<noteq> 0" using assms(1) by (auto simp: decoding_ok_def fresh_addrs_def)
  let ?s = "s\<lparr>objs := (objs s)(next_addr s \<mapsto> obj\<lparr>o_event_node := True\<rparr>)\<rparr>"
  have "objects_ok ?s"
    by (rule objects_ok_off_bus) (use assms n in \<open>auto simp: decoding_ok_def\<close>)
  then have "objects_ok (put_object be s obj)"
    using same_objects_ok [of ?s "put_object be s obj"] by (simp add: same_objects_def put_object_def)
  moreover have "fresh_addrs (put_object be s obj)" "bevts (put_object be s obj) be \<noteq> None"
    using assms(1) by (auto simp: decoding_ok_def fresh_addrs_def put_object_def)
  ultimately show "decoding_ok be (put_object be s obj)" by (simp add: decoding_ok_def)
  show "extends s0 s \<Longrightarrow> extends s0 (put_object be s obj)"
    using n by (auto simp: extends_def put_object_def same_calls_def)
qed

lemma put_removed_ok:
  assumes "decoding_ok be s" "objs s p = Some obj"
  shows "decoding_ok be (put_removed be s p)"
proof -
  let ?s = "s\<lparr>objs := (objs s)(p \<mapsto> obj\<lparr>o_event_node := True\<rparr>)\<rparr>"
  have "objects_ok ?s" by (rule objects_ok_update [OF _ assms(2)]) (use assms(1) in \<open>simp_all add: decoding_ok_def\<close>)
  then have "objects_ok (put_removed be s p)"
    using same_objects_ok [of ?s "put_removed be s p"] assms(2) by (simp add: same_objects_def put_removed_def)
  moreover have "fresh_addrs (put_removed be s p)" "bevts (put_removed be s p) be \<noteq> None"
    using assms by (auto simp: decoding_ok_def fresh_addrs_def put_removed_def)
  ultimately show ?thesis by (simp add: decoding_ok_def)
qed

lemma put_event_ok:
  assumes "decoding_ok be s"
  shows "decoding_ok be (put_event be s ev)" "extends s0 s \<Longrightarrow> extends s0 (put_event be s ev)"
proof -
  have "objects_ok (put_event be s ev)"
    using same_objects_ok [of s "put_event be s ev"] assms by (simp add: same_objects_def put_event_def decoding_ok_def)
  moreover have "fresh_addrs (put_event be s ev)" "bevts (put_event be s ev) be \<noteq> None"
    using assms by (auto simp: decoding_ok_def fresh_addrs_def put_event_def)
  ultimately show "decoding_ok be (put_event be s ev)" by (simp add: decoding_ok_def)
  show "extends s0 s \<Longrightarrow> extends s0 (put_event be s ev)"
    by (simp add: extends_def put_event_def same_calls_def)
qed

section \<open>One frame of each kind\<close>

lemma new_object_link:
  assumes "decoding_ok be s" "\<not> o_event_node obj"
  shows "link_object add_objs_update (s\<lparr>objs := (objs s)(next_addr s \<mapsto> obj), next_addr := Suc (next_addr s)\<rparr>) be (next_addr s)
    = (Inr (), put_object be s obj)"
  using assms by (auto simp: link_object_def put_object_def decoding_ok_def)

lemma object_new_fresh:
  assumes "obus_object_new m desc None None = Some obj"
  shows "\<not> o_bus obj" "\<not> o_registered obj" "\<not> o_event_node obj" "o_desc obj = desc" "bits_ok (o_info obj)" "st_nb (o_info obj) a = 0"
proof -
  have "alloc_ok m (object_size desc)" using assms by (simp add: obus_object_new_def object_size_def Let_def split: if_splits)
  then obtain obj' where "obus_object_new m desc None None = Some obj'" "o_desc obj' = desc" "\<not> o_registered obj'" "\<not> o_bus obj'"
    "\<not> o_event_node obj'" "bits_ok (o_info obj')" by (rule object_new_ok)
  then show "\<not> o_bus obj" "\<not> o_registered obj" "\<not> o_event_node obj" "o_desc obj = desc" "bits_ok (o_info obj)" using assms by auto
  let ?st = "obus_struct_init (zero_struct (info_desc desc))"
  obtain st' where "obus_struct_set_has_fields ?st = (Inr (), st')" "same_fields ?st st'"
    by (rule set_fields_ok [OF struct_init_keeps(2) [OF zero_bits_ok]]) (rule that)
  then show "st_nb (o_info obj) a = 0"
    using assms struct_init_nb [of "info_desc desc" a] by (auto simp: obus_object_new_def Let_def same_fields_def split: if_splits)
qed

definition any_new :: "obus_object \<Rightarrow> bool" where
  "any_new obj \<longleftrightarrow> \<not> o_bus obj \<and> \<not> o_registered obj \<and> \<not> o_event_node obj"

lemma decode_add_any:
  assumes "decoding_ok be s" "reads_at b p (wire_object uid handle body @ rest)" "length body < 2 ^ 32"
  obtains "decode_add m be s (advance b p) = (Inr (), s, advance b (p + 8 + length body))"
  | obj where "decode_add m be s (advance b p) = (Inr (), put_object be s obj, advance b (p + 8 + length body))" "any_new obj"
proof -
  note f = object_add_decode_frame [OF assms(2,3), of m "bus_api s"]
  let ?e = "advance b (p + 8 + length body)"
  have "obus_object_add_decode m (bus_api s) (advance b p) = (Inr None, ?e) \<or>
    (\<exists>obj. obus_object_add_decode m (bus_api s) (advance b p) = (Inr (Some obj), ?e) \<and> any_new obj)"
  proof (cases "uid = OBUS_INVALID_UID \<or> handle = OBUS_INVALID_HANDLE \<or> obus_bus_api_object (bus_api s) uid = None")
    case True
    then show ?thesis using f by auto
  next
    case False
    then obtain desc where d: "obus_bus_api_object (bus_api s) uid = Some desc" by auto
    show ?thesis
    proof (cases "obus_object_new m desc None None")
      case None
      then show ?thesis using f False d by auto
    next
      case (Some obj)
      note nw = object_new_fresh [OF Some]
      obtain x st' b' where dc: "obus_struct_decode m (o_info obj) (advance b (p + 8)) = (x, st', b')"
        by (cases "obus_struct_decode m (o_info obj) (advance b (p + 8))") auto
      have "obus_struct_destroy st' = Inr ()" if "x = Inl e" for e
        using failed_decode_destroy [OF dc [unfolded that] nw(5,6)] .
      then show ?thesis using f False d Some dc nw by (cases x) (auto simp: any_new_def)
    qed
  qed
  then show thesis using that new_object_link [OF assms(1)]
    by (auto simp: decode_add_def Let_def any_new_def)
qed

lemma decode_remove_any:
  assumes "decoding_ok be s" "reads_at b p ((be16 uid @ be16 handle) @ rest)"
    "\<forall>obj. objs s (obus_bus_object s handle) = Some obj \<longrightarrow> \<not> o_event_node obj"
  shows "decode_remove be s (advance b p) =
    (Inr (), if obus_bus_object s handle = 0 then s else put_removed be s (obus_bus_object s handle), advance b (p + 4))"
proof -
  have r: "reads_at b p (be16 uid @ be16 handle @ rest)" using assms(2) by simp
  note r1 = read_u16_at [OF r, of "p + 2", OF refl]
  note r2 = read_u16_at [OF r1(2), of "p + 4", simplified]
  have d: "obus_object_remove_decode s (advance b p) = (obus_bus_object s handle, advance b (p + 4))"
    using r1(1) r2(1) by (simp add: obus_object_remove_decode_def)
  show ?thesis
  proof (cases "obus_bus_object s handle = 0")
    case True
    then show ?thesis using d by (simp add: decode_remove_def)
  next
    case False
    with bus_object_objs [of s handle] obtain obj where "objs s (obus_bus_object s handle) = Some obj"
      using assms(1) by (auto simp: decoding_ok_def)
    then show ?thesis using d False assms(1,3)
      by (auto simp: decode_remove_def link_object_def put_removed_def decoding_ok_def)
  qed
qed

lemma new_event_link:
  assumes "decoding_ok be s" "\<not> e_event_node ev"
  shows "link_event (s\<lparr>evts := (evts s)(next_addr s \<mapsto> ev), next_addr := Suc (next_addr s)\<rparr>) be (next_addr s)
    = (Inr (), put_event be s ev)"
  using assms by (auto simp: link_event_def put_event_def decoding_ok_def)

lemma decode_event_any:
  assumes "decoding_ok be s" "reads_at b p (wire_event uid handle event_uid body @ rest)" "length body < 2 ^ 32"
  obtains "decode_event m be s (advance b p) = (Inr (), s, advance b (p + 10 + length body))"
  | "decode_event m be s (advance b p) = (Inr (), s\<lparr>next_addr := Suc (next_addr s)\<rparr>, advance b (p + 10 + length body))"
  | ev where "decode_event m be s (advance b p) = (Inr (), put_event be s ev, advance b (p + 10 + length body))"
proof -
  have ok: "objects_ok s" "fresh_addrs s" and n: "next_addr s \<noteq> 0" using assms(1) by (auto simp: decoding_ok_def fresh_addrs_def)
  let ?e = "advance b (p + 10 + length body)"
  have f: "obus_event_decode m s (advance b p) = (Inr 0, s, ?e)
    \<or> obus_event_decode m s (advance b p) = (Inr 0, s\<lparr>next_addr := Suc (next_addr s)\<rparr>, ?e)
    \<or> (\<exists>ev. obus_event_decode m s (advance b p) =
         (Inr (next_addr s), s\<lparr>evts := (evts s)(next_addr s \<mapsto> ev), next_addr := Suc (next_addr s)\<rparr>, ?e) \<and> \<not> e_event_node ev)"
    unfolding event_decode_frame [OF ok assms(2,3)] Let_def
    by (simp split: option.split prod.split sum.split) (use new_event_simps(3) in blast)
  then consider "obus_event_decode m s (advance b p) = (Inr 0, s, ?e)"
    | "obus_event_decode m s (advance b p) = (Inr 0, s\<lparr>next_addr := Suc (next_addr s)\<rparr>, ?e)"
    | ev where "obus_event_decode m s (advance b p) =
         (Inr (next_addr s), s\<lparr>evts := (evts s)(next_addr s \<mapsto> ev), next_addr := Suc (next_addr s)\<rparr>, ?e)" "\<not> e_event_node ev"
    by blast
  then show thesis
  proof cases
    case 3
    then show ?thesis using that(3) n new_event_link [OF assms(1) 3(2)] by (simp add: decode_event_def)
  qed (use that in \<open>simp_all add: decode_event_def\<close>)
qed

section \<open>Decoding a bus event from any frames\<close>

text \<open>The state between two turns of a loop, \<open>rs\<close> are the removals so far.\<close>

definition between :: "addr \<Rightarrow> bus_state \<Rightarrow> addr list \<Rightarrow> bus_state \<Rightarrow> bool" where
  "between be s0 rs s \<longleftrightarrow> decoding_ok be s \<and> extends s0 s \<and> remove_objs (the (bevts s be)) = rs"

lemma between_put:
  assumes "between be s0 rs s"
  shows "any_new obj \<Longrightarrow> between be s0 rs (put_object be s obj)" "between be s0 rs (put_event be s ev)"
    "between be s0 rs (s\<lparr>next_addr := Suc (next_addr s)\<rparr>)"
proof -
  have b: "bevts s be \<noteq> None" using assms by (simp add: between_def decoding_ok_def)
  then have r: "remove_objs (the (bevts (put_object be s obj) be)) = rs" "remove_objs (the (bevts (put_event be s ev) be)) = rs"
    using assms by (auto simp: between_def put_object_def put_event_def)
  show "between be s0 rs (put_object be s obj)" if "any_new obj"
    using that put_object_ok(1) [of be s obj] put_object_ok(2) [of be s obj s0] assms r(1) by (simp add: between_def any_new_def)
  show "between be s0 rs (put_event be s ev)" using put_event_ok(1) [of be s ev] put_event_ok(2) [of be s s0 ev] assms r(2) by (simp add: between_def)
  let ?s = "s\<lparr>next_addr := Suc (next_addr s)\<rparr>"
  have "objects_ok ?s" using assms same_objects_ok [of s ?s] by (simp add: between_def decoding_ok_def same_objects_def)
  moreover have "fresh_addrs ?s" using assms by (auto simp: between_def decoding_ok_def fresh_addrs_def)
  ultimately show "between be s0 rs ?s" using assms by (auto simp: between_def decoding_ok_def extends_def same_calls_def)
qed

interpretation any_add: frame_loop "decode_add m be" "\<lambda>(uid, handle, body). wire_object uid handle body"
    "\<lambda>s xs. between be s0 rs s \<and> (\<forall>(uid, handle, body)\<in>set xs. length body < 2 ^ 32)" "\<lambda>_ _. True" "\<lambda>_ s. s"
  for m be s0 rs
proof (unfold_locales, goal_cases)
  case (1 s x xs b p rest)
  obtain uid handle body where x: "x = (uid, handle, body)" by (cases x) auto
  then have r: "reads_at b p (wire_object uid handle body @ rest)" "length body < 2 ^ 32" using 1 by auto
  have l: "length (wire_object uid handle body) = 8 + length body" by (simp add: wire_object_def)
  have d: "decoding_ok be s" using 1 by (simp add: between_def)
  show ?case
    by (rule decode_add_any [OF d r, of m]) (use 1 x l between_put(1) [of be s0 rs s] in \<open>auto simp: add.assoc\<close>)
qed

interpretation any_event: frame_loop "decode_event m be" "\<lambda>(uid, handle, event_uid, body). wire_event uid handle event_uid body"
    "\<lambda>s xs. between be s0 rs s \<and> (\<forall>(uid, handle, event_uid, body)\<in>set xs. length body < 2 ^ 32)" "\<lambda>_ _. True" "\<lambda>_ s. s"
  for m be s0 rs
proof (unfold_locales, goal_cases)
  case (1 s x xs b p rest)
  obtain uid handle event_uid body where x: "x = (uid, handle, event_uid, body)" by (cases x) auto
  then have r: "reads_at b p (wire_event uid handle event_uid body @ rest)" "length body < 2 ^ 32" using 1 by auto
  have d: "decoding_ok be s" using 1 by (simp add: between_def)
  show ?case
    by (rule decode_event_any [OF d r, of m]) (use 1 x between_put(2,3) [of be s0 rs s] in \<open>auto simp: add.assoc\<close>)
qed

text \<open>Objects named for removal must not be attached to a bus event, nor be named twice.\<close>

definition named :: "bus_state \<Rightarrow> (u16 \<times> u16) list \<Rightarrow> addr list" where
  "named s rems = filter (\<lambda>p. p \<noteq> 0) (map (\<lambda>(uid, handle). obus_bus_object s handle) rems)"

definition removable :: "bus_state \<Rightarrow> (u16 \<times> u16) list \<Rightarrow> bool" where
  "removable s rems \<longleftrightarrow> distinct (named s rems) \<and> (\<forall>p\<in>set (named s rems). \<forall>obj. objs s p = Some obj \<longrightarrow> \<not> o_event_node obj)"

definition unlist :: "addr \<Rightarrow> bus_state \<Rightarrow> addr \<Rightarrow> bus_state" where
  "unlist be s p = (if p = 0 then s else put_removed be s p)"

lemma unlist_bus_object [simp]: "obus_bus_object (unlist be s p) h = obus_bus_object s h"
  by (simp add: unlist_def)

interpretation removal: frame_loop "decode_remove be" "\<lambda>(uid, handle). be16 uid @ be16 handle"
    "\<lambda>s xs. decoding_ok be s \<and> removable s xs \<and> obus_bus_object s = look" "\<lambda>(uid, handle) p. p = look handle" "unlist be"
  for be look
proof (unfold_locales, goal_cases)
  case (1 s x xs b p rest)
  obtain uid handle where x: "x = (uid, handle)" by (cases x)
  let ?p = "obus_bus_object s handle"
  have ok: "objects_ok s" and d: "decoding_ok be s" and lk: "look handle = ?p" using 1 by (auto simp: decoding_ok_def)
  have z: "objs s 0 = None" using ok by (simp add: objects_ok_def)
  have ne: "\<forall>obj. objs s ?p = Some obj \<longrightarrow> \<not> o_event_node obj"
    using 1 x z by (cases "?p = 0") (auto simp: removable_def named_def)
  have e: "decode_remove be s (advance b p) = (Inr (), unlist be s ?p, advance b (p + 4))"
    using decode_remove_any [OF d _ ne, of b p uid rest] 1 x by (simp add: unlist_def)
  have "decoding_ok be (unlist be s ?p) \<and> removable (unlist be s ?p) xs"
  proof (cases "?p = 0")
    case True
    then show ?thesis using 1 x by (auto simp: unlist_def removable_def named_def)
  next
    case False
    with bus_object_objs [OF ok] obtain obj where o: "objs s ?p = Some obj" by blast
    have n: "named (unlist be s ?p) xs = named s xs" by (simp add: named_def)
    have "?p \<notin> set (named s xs)" "removable s xs" using 1 x False by (auto simp: removable_def named_def)
    then have "removable (unlist be s ?p) xs"
      unfolding removable_def n using False by (auto simp: unlist_def put_removed_def)
    then show ?thesis using put_removed_ok [OF d o] False by (simp add: unlist_def)
  qed
  moreover have "obus_bus_object (unlist be s ?p) = look" using 1 by (simp add: fun_eq_iff)
  ultimately show ?case using e x lk by (intro exI [of _ ?p]) simp
qed

lemma unlist_all:
  assumes "bevts s be = Some e"
  shows "\<exists>e'. bevts (foldl (unlist be) s ps) be = Some e' \<and> remove_objs e' = remove_objs e @ filter (\<lambda>p. p \<noteq> 0) ps
    \<and> add_objs e' = add_objs e \<and> obj_events e' = obj_events e \<and> be_desc e' = be_desc e"
  using assms
proof (induction ps arbitrary: s e)
  case (Cons p ps)
  show ?case
    using Cons.IH [of "unlist be s p" "if p = 0 then e else remove_objs_update (\<lambda>xs. xs @ [p]) e"] Cons.prems
    by (auto simp: unlist_def put_removed_def split: if_splits)
qed simp

lemma unlist_all_keeps:
  "bus_api (foldl (unlist be) s ps) = bus_api s" "objects_hash (foldl (unlist be) s ps) = objects_hash s"
  "bobjects (foldl (unlist be) s ps) = bobjects s" "same_calls s (foldl (unlist be) s ps)" "evts (foldl (unlist be) s ps) = evts s"
  "next_addr (foldl (unlist be) s ps) = next_addr s"
  by (induction ps arbitrary: s) (auto simp: unlist_def put_removed_def same_calls_def)

definition wire_bus_event :: "u16 \<Rightarrow> u8 list list \<Rightarrow> u8 list list \<Rightarrow> u8 list list \<Rightarrow> u8 list" where
  "wire_bus_event uid as rs es =
     be16 uid @ be32 (of_nat (length as)) @ be32 (of_nat (length rs)) @ be32 (of_nat (length es))
     @ concat as @ concat rs @ concat es"

definition counts_fit :: "'a list \<Rightarrow> 'b list \<Rightarrow> 'c list \<Rightarrow> bool" where
  "counts_fit as rs es \<longleftrightarrow> length as < 2 ^ 32 \<and> length rs < 2 ^ 32 \<and> length es < 2 ^ 32"

text \<open>The new bus event.\<close>

definition started :: "bus_state \<Rightarrow> obus_bus_event_desc \<Rightarrow> bus_state" where
  "started s desc = s\<lparr>bevts := (bevts s)(next_addr s \<mapsto> empty_bus_event desc True), next_addr := Suc (next_addr s)\<rparr>"

lemma started_ok:
  assumes "objects_ok s" "fresh_addrs s"
  shows "decoding_ok (next_addr s) (started s desc)" "extends s (started s desc)"
    "bevts (started s desc) (next_addr s) = Some (empty_bus_event desc True)" "obus_bus_object (started s desc) = obus_bus_object s"
proof -
  have "objects_ok (started s desc)"
    using assms(1) same_objects_ok [of s "started s desc"] by (simp add: same_objects_def started_def)
  then show "decoding_ok (next_addr s) (started s desc)"
    using assms(2) by (auto simp: decoding_ok_def fresh_addrs_def started_def)
  show "extends s (started s desc)" by (simp add: extends_def started_def same_calls_def)
  show "bevts (started s desc) (next_addr s) = Some (empty_bus_event desc True)" by (simp add: started_def)
  show "obus_bus_object (started s desc) = obus_bus_object s" by (simp add: fun_eq_iff obus_bus_object_def started_def)
qed

text \<open>Reading the header and running the three loops.\<close>

lemma bus_event_decode_loops:
  assumes "0 < next_addr s" "reads_at b p (wire_bus_event uid as rs es @ rest)" "counts_fit as rs es"
    "obus_bus_api_bus_event (bus_api s) uid = Some desc" "alloc_ok m sizeof_bus_event"
    "turns (length as) (decode_add m (next_addr s)) (started s desc) (advance b (p + 14)) = (Inr (), s1, b1)"
    "turns (length rs) (decode_remove (next_addr s)) s1 b1 = (Inr (), s2, b2)"
    "turns (length es) (decode_event m (next_addr s)) s2 b2 = (Inr (), s3, b3)"
  shows "obus_bus_event_decode m s (advance b p) = (Inr (next_addr s), s3, b3)"
proof -
  have r: "reads_at b p (be16 uid @ be32 (of_nat (length as)) @ be32 (of_nat (length rs)) @ be32 (of_nat (length es))
     @ concat as @ concat rs @ concat es @ rest)"
    using assms(2) by (simp add: wire_bus_event_def)
  note r1 = read_u16_at [OF r, of "p + 2", OF refl]
  note r2 = read_u32_at [OF r1(2), simplified]
  note r3 = read_u32_at [OF r2(2), simplified]
  note r4 = read_u32_at [OF r3(2), simplified]
  have u: "unat (of_nat (length as) :: u32) = length as" "unat (of_nat (length rs) :: u32) = length rs"
    "unat (of_nat (length es) :: u32) = length es"
    using assms(3) by (simp_all add: counts_fit_def unat_of_nat)
  show ?thesis
    using r1(1) r2(1) r3(1) r4(1) u assms(1,4,5,7,8) assms(6) [unfolded add.commute [of p 14]]
    by (simp add: obus_bus_event_decode_def obus_bus_event_new_def started_def)
qed

lemma extends_bus_object: "extends s0 s \<Longrightarrow> obus_bus_object s = obus_bus_object s0"
  by (simp add: fun_eq_iff extends_def obus_bus_object_def)

lemma removable_extends:
  assumes "objects_ok s0" "extends s0 s" "removable s0 rems"
  shows "removable s rems"
proof -
  have n: "named s rems = named s0 rems" by (simp add: named_def extends_bus_object [OF assms(2)])
  have "\<exists>obj. objs s p = Some obj \<and> objs s0 p = Some obj" if "p \<in> set (named s0 rems)" for p
  proof -
    from that obtain h where "p = obus_bus_object s0 h" "p \<noteq> 0" by (auto simp: named_def)
    then show ?thesis using bus_object_objs [OF assms(1), of h] assms(2) unfolding extends_def by blast
  qed
  then show ?thesis using assms(3) unfolding removable_def n by fastforce
qed

text \<open>The three loops of the decoder on any additions, the removals of known objects and any events.\<close>

lemma any_adds:
  assumes "between be s [] s0" "\<forall>(uid, handle, body)\<in>set adds. length body < 2 ^ 32"
    "reads_at b q (concat (map (\<lambda>(uid, handle, body). wire_object uid handle body) adds) @ rest)"
    "q' = q + length (concat (map (\<lambda>(uid, handle, body). wire_object uid handle body) adds))"
  obtains s1 where "turns (length adds) (decode_add m be) s0 (advance b q) = (Inr (), s1, advance b q')" "between be s [] s1" "reads_at b q' rest"
proof -
  note th = that
  have bt: "between be s [] s0 \<and> (\<forall>(uid, handle, body)\<in>set adds. length body < 2 ^ 32)" using assms(1,2) by simp
  show thesis unfolding assms(4) by (rule any_add.loop [OF bt assms(3)]) (rule th [unfolded assms(4)], assumption, erule conjunct1, assumption)
qed

lemma any_events:
  assumes "between be s rs s0" "\<forall>(uid, handle, event_uid, body)\<in>set evs. length body < 2 ^ 32"
    "reads_at b q (concat (map (\<lambda>(uid, handle, event_uid, body). wire_event uid handle event_uid body) evs) @ rest)"
    "q' = q + length (concat (map (\<lambda>(uid, handle, event_uid, body). wire_event uid handle event_uid body) evs))"
  obtains s1 where "turns (length evs) (decode_event m be) s0 (advance b q) = (Inr (), s1, advance b q')" "between be s rs s1" "reads_at b q' rest"
proof -
  note th = that
  have bt: "between be s rs s0 \<and> (\<forall>(uid, handle, event_uid, body)\<in>set evs. length body < 2 ^ 32)" using assms(1,2) by simp
  show thesis unfolding assms(4) by (rule any_event.loop [OF bt assms(3)]) (rule th [unfolded assms(4)], assumption, erule conjunct1, assumption)
qed

lemma known_removals:
  assumes "decoding_ok be s1" "removable s1 rems" "bevts s1 be = Some e1" "remove_objs e1 = []"
    "reads_at b q (concat (map (\<lambda>(uid, handle). be16 uid @ be16 handle) rems) @ rest)"
    "q' = q + length (concat (map (\<lambda>(uid, handle). be16 uid @ be16 handle) rems))"
  obtains s2 where "turns (length rems) (decode_remove be) s1 (advance b q) = (Inr (), s2, advance b q')"
    "between be s2 (named s1 rems) s2" "reads_at b q' rest" "same_calls s1 s2" "bobjects s2 = bobjects s1"
    "obus_bus_object s2 = obus_bus_object s1"
proof -
  have rm: "decoding_ok be s1 \<and> removable s1 rems \<and> obus_bus_object s1 = obus_bus_object s1" using assms(1,2) by simp
  obtain ps where p: "list_all2 (\<lambda>(uid, handle) p. p = obus_bus_object s1 handle) rems ps"
    "turns (length rems) (decode_remove be) s1 (advance b q) = (Inr (), foldl (unlist be) s1 ps, advance b q')"
    "decoding_ok be (foldl (unlist be) s1 ps) \<and> removable (foldl (unlist be) s1 ps) [] \<and> obus_bus_object (foldl (unlist be) s1 ps) = obus_bus_object s1"
    "reads_at b q' rest"
    by (rule removal.loop [OF rm assms(5), folded assms(6)]) (rule that)
  define s2 where "s2 = foldl (unlist be) s1 ps"
  have ps: "ps = map (\<lambda>(uid, handle). obus_bus_object s1 handle) rems"
    using p(1) by (induction rule: list_all2_induct) auto
  have b2: "between be s2 (named s1 rems) s2"
    using unlist_all [OF assms(3), of ps] assms(4) p(3) ps by (auto simp: between_def named_def s2_def)
  note k = unlist_all_keeps [where be = be and s = s1 and ps = ps, folded s2_def]
  show thesis by (rule that [OF p(2) [folded s2_def] b2 p(4)]) (use k in \<open>auto simp: same_calls_def fun_eq_iff obus_bus_object_def\<close>)
qed


section \<open>Sending a bus event\<close>

text \<open>What one side sends of an object and of an event, and what the other side makes of them.\<close>

definition object_wire :: "obus_object \<Rightarrow> u8 list" where
  "object_wire obj = wire_object (od_uid (o_desc obj)) (o_handle obj) (wire_of (o_info obj))"

definition object_like :: "obus_object \<Rightarrow> obus_object \<Rightarrow> bool" where
  "object_like obj obj' \<longleftrightarrow> o_desc obj' = o_desc obj \<and> o_handle obj' = o_handle obj \<and> \<not> o_registered obj' \<and> \<not> o_bus obj'
     \<and> carries (o_info obj) (o_info obj')"

definition sendable :: "memory \<Rightarrow> obus_bus_api \<Rightarrow> obus_object \<Rightarrow> bool" where
  "sendable m api obj \<longleftrightarrow> struct_ok (o_info obj) \<and> st_desc (o_info obj) = info_desc (o_desc obj)
     \<and> od_uid (o_desc obj) \<noteq> OBUS_INVALID_UID \<and> o_handle obj \<noteq> OBUS_INVALID_HANDLE
     \<and> obus_bus_api_object api (od_uid (o_desc obj)) = Some (o_desc obj) \<and> length (wire_of (o_info obj)) < 2 ^ 32
     \<and> alloc_ok m (object_size (o_desc obj)) \<and> enough m (entries_need (struct_entries (o_info obj)))"

text \<open>An object is known when the bus has one with the same description under its handle.\<close>

definition knows :: "bus_state \<Rightarrow> obus_object \<Rightarrow> bool" where
  "knows s obj \<longleftrightarrow> (\<exists>obj'. objs s (obus_bus_object s (o_handle obj)) = Some obj' \<and> o_desc obj' = o_desc obj)"

definition event_wire :: "obus_object \<times> obus_event \<Rightarrow> u8 list" where
  "event_wire x = wire_event (od_uid (o_desc (fst x))) (o_handle (fst x)) (ev_uid (e_desc (snd x))) (wire_of (e_info (snd x)))"

definition event_like :: "(u16 \<Rightarrow> addr) \<Rightarrow> obus_object \<times> obus_event \<Rightarrow> obus_event \<Rightarrow> bool" where
  "event_like look x ev' \<longleftrightarrow> e_desc ev' = e_desc (snd x) \<and> e_obj ev' = look (o_handle (fst x)) \<and> \<not> e_committed ev'
     \<and> carries (e_info (snd x)) (e_info ev')"

definition event_sendable :: "memory \<Rightarrow> obus_bus_api \<Rightarrow> obus_object \<times> obus_event \<Rightarrow> bool" where
  "event_sendable m api x \<longleftrightarrow> (case x of (obj, ev) \<Rightarrow>
     struct_ok (e_info ev) \<and> st_desc (e_info ev) = info_desc (o_desc obj)
     \<and> od_uid (o_desc obj) \<noteq> OBUS_INVALID_UID \<and> o_handle obj \<noteq> OBUS_INVALID_HANDLE \<and> ev_uid (e_desc ev) \<noteq> OBUS_INVALID_UID
     \<and> obus_bus_api_event api (od_uid (o_desc obj)) (ev_uid (e_desc ev)) = Some (e_desc ev)
     \<and> length (wire_of (e_info ev)) < 2 ^ 32 \<and> alloc_ok m (event_size obj)
     \<and> enough m (entries_need (struct_entries (e_info ev))))"

interpretation sent_add: frame_loop "decode_add m be" object_wire
    "\<lambda>s xs. decoding_ok be s \<and> extends s0 s \<and> (\<forall>x\<in>set xs. sendable m (bus_api s0) x)" object_like "put_object be"
  for m be s0
proof (unfold_locales, goal_cases)
  case (1 s x xs b p rest)
  have x: "sendable m (bus_api s) x" and d: "decoding_ok be s" using 1 by (simp_all add: extends_def)
  have r: "reads_at b p (wire_object (od_uid (o_desc x)) (o_handle x) (wire_struct (struct_entries (o_info x))) @ rest)"
    using 1 by (simp add: object_wire_def wire_of_def)
  have c: "length (wire_struct (struct_entries (o_info x))) < 2 ^ 32" "od_uid (o_desc x) \<noteq> OBUS_INVALID_UID" "o_handle x \<noteq> OBUS_INVALID_HANDLE"
    "obus_bus_api_object (bus_api s) (od_uid (o_desc x)) = Some (o_desc x)" "struct_ok (o_info x)" "st_desc (o_info x) = info_desc (o_desc x)"
    "alloc_ok m (object_size (o_desc x))" "enough m (entries_need (struct_entries (o_info x)))"
    using x by (simp_all add: sendable_def wire_of_def)
  obtain obj st0 where o: "obus_object_add_decode m (bus_api s) (advance b p) =
      (Inr (Some obj), advance b (p + 8 + length (wire_struct (struct_entries (o_info x)))))"
    "o_desc obj = o_desc x" "o_handle obj = o_handle x" "\<not> o_registered obj" "\<not> o_bus obj" "\<not> o_event_node obj"
    "st_desc (o_info obj) = info_desc (o_desc x)" "received (o_info x) st0 (o_info obj)"
    by (rule object_add_decode_ok [OF r c]) (rule that)
  have l: "object_like x obj" using o received_carries [OF o(8)] x by (simp add: object_like_def sendable_def)
  have "decode_add m be s (advance b p) = (Inr (), put_object be s obj, advance b (p + length (object_wire x)))"
    using o(1) new_object_link [OF d o(6)] by (simp add: decode_add_def Let_def object_wire_def wire_of_def wire_object_def add.assoc)
  moreover have "extends s0 (put_object be s obj)" by (rule put_object_ok(2) [OF d o(5,4)]) (use 1 in simp)
  ultimately show ?case using l put_object_ok(1) [OF d o(5,4)] 1 by (intro exI [of _ obj]) simp
qed

lemma knows_target:
  assumes "objects_ok s" "event_sendable m (bus_api s) (obj, ev)" "knows s obj"
  obtains obj' where "event_target s (od_uid (o_desc obj)) (o_handle obj) (ev_uid (e_desc ev)) =
      Some (obus_bus_object s (o_handle obj), obj', e_desc ev)" "o_desc obj' = o_desc obj"
  using assms by (auto simp: knows_def event_sendable_def event_target_def object_at_def Let_def)

lemma knows_put_event: "knows s obj \<Longrightarrow> knows (put_event be s ev) obj"
  by (auto simp: knows_def obus_bus_object_def put_event_def)

interpretation sent_event: frame_loop "decode_event m be" event_wire
    "\<lambda>s xs. decoding_ok be s \<and> bus_api s = api \<and> obus_bus_object s = look
       \<and> (\<forall>x\<in>set xs. event_sendable m api x \<and> knows s (fst x))" "event_like look" "put_event be"
  for m be api look
proof (unfold_locales, goal_cases)
  case (1 s x xs b p rest)
  obtain obj ev where x: "x = (obj, ev)" by (cases x)
  have d: "decoding_ok be s" and ok: "objects_ok s" "fresh_addrs s" and se: "event_sendable m (bus_api s) (obj, ev)" and kn: "knows s obj"
    using 1 x by (auto simp: decoding_ok_def)
  obtain obj' where t: "event_target s (od_uid (o_desc obj)) (o_handle obj) (ev_uid (e_desc ev)) =
      Some (obus_bus_object s (o_handle obj), obj', e_desc ev)" "o_desc obj' = o_desc obj"
    by (rule knows_target [OF ok(1) se kn])
  have r: "reads_at b p (wire_event (od_uid (o_desc obj)) (o_handle obj) (ev_uid (e_desc ev)) (wire_of (e_info ev)) @ rest)"
    using 1 x by (simp add: event_wire_def)
  have c: "length (wire_of (e_info ev)) < 2 ^ 32" "struct_ok (e_info ev)" "st_desc (e_info ev) = info_desc (o_desc obj')"
    "alloc_ok m (event_size obj')" "enough m (entries_need (struct_entries (e_info ev)))"
    using se t(2) by (simp_all add: event_sendable_def event_size_def)
  obtain st' where e: "obus_event_decode m s (advance b p) =
      (Inr (next_addr s), s\<lparr>evts := (evts s)(next_addr s \<mapsto> new_event (e_desc ev) (obus_bus_object s (o_handle obj)) st'),
         next_addr := Suc (next_addr s)\<rparr>, advance b (p + 10 + length (wire_of (e_info ev))))"
    "st_desc st' = st_desc (e_info ev)" "received (e_info ev) (init_struct (st_desc (e_info ev))) st'"
    by (rule event_decode_ok [OF ok r c(1) t(1) c(2-)]) (rule that)
  let ?ev = "new_event (e_desc ev) (obus_bus_object s (o_handle obj)) st'"
  have n: "next_addr s \<noteq> 0" using ok(2) by (simp add: fresh_addrs_def)
  have "decode_event m be s (advance b p) = (Inr (), put_event be s ?ev, advance b (p + length (event_wire x)))"
    using e(1) n new_event_link [OF d, of ?ev] x by (simp add: decode_event_def event_wire_def add.assoc)
  moreover have "event_like look x ?ev" using received_carries [OF e(3,2)] x 1 by (auto simp: event_like_def)
  moreover have "bus_api (put_event be s ?ev) = bus_api s" by (simp add: put_event_def)
  moreover have "obus_bus_object (put_event be s ?ev) = look" using 1 by (simp add: fun_eq_iff)
  ultimately show ?case using put_event_ok(1) [OF d, of ?ev] knows_put_event 1 x by (intro exI [of _ ?ev]) auto
qed

text \<open>The state after each of the loops.\<close>

lemma put_object_all:
  assumes "bevts s be = Some e"
  shows "next_addr (foldl (put_object be) s os) = next_addr s + length os
    \<and> bevts (foldl (put_object be) s os) be = Some (e\<lparr>add_objs := add_objs e @ [next_addr s ..< next_addr s + length os]\<rparr>)
    \<and> (\<forall>p. objs (foldl (put_object be) s os) p =
         (if next_addr s \<le> p \<and> p < next_addr s + length os then Some ((os ! (p - next_addr s))\<lparr>o_event_node := True\<rparr>) else objs s p))"
  using assms
proof (induction os arbitrary: s e)
  case (Cons obj os)
  let ?s = "put_object be s obj" and ?e = "e\<lparr>add_objs := add_objs e @ [next_addr s]\<rparr>"
  have s: "next_addr ?s = Suc (next_addr s)" "objs ?s = (objs s)(next_addr s \<mapsto> obj\<lparr>o_event_node := True\<rparr>)" "bevts ?s be = Some ?e"
    using Cons.prems by (simp_all add: put_object_def)
  have l: "[next_addr s ..< next_addr s + length (obj # os)] = next_addr s # [Suc (next_addr s) ..< Suc (next_addr s) + length os]"
    by (simp add: upt_rec)
  show ?case using Cons.IH [OF s(3)] s(1,2) l by (auto simp: nth_Cons')
qed auto

lemma put_event_all:
  assumes "bevts s be = Some e"
  shows "bevts (foldl (put_event be) s es) be = Some (e\<lparr>obj_events := obj_events e @ [next_addr s ..< next_addr s + length es]\<rparr>)
    \<and> objs (foldl (put_event be) s es) = objs s
    \<and> (\<forall>p. evts (foldl (put_event be) s es) p =
         (if next_addr s \<le> p \<and> p < next_addr s + length es then Some ((es ! (p - next_addr s))\<lparr>e_event_node := True\<rparr>) else evts s p))"
  using assms
proof (induction es arbitrary: s e)
  case (Cons ev es)
  let ?s = "put_event be s ev" and ?e = "e\<lparr>obj_events := obj_events e @ [next_addr s]\<rparr>"
  have s: "next_addr ?s = Suc (next_addr s)" "evts ?s = (evts s)(next_addr s \<mapsto> ev\<lparr>e_event_node := True\<rparr>)" "bevts ?s be = Some ?e" "objs ?s = objs s"
    using Cons.prems by (simp_all add: put_event_def)
  have l: "[next_addr s ..< next_addr s + length (ev # es)] = next_addr s # [Suc (next_addr s) ..< Suc (next_addr s) + length es]"
    by (simp add: upt_rec)
  show ?case using Cons.IH [OF s(3)] s(1,2,4) l by (auto simp: nth_Cons')
qed auto

text \<open>Unlisting touches nothing of an object but its event node.\<close>

lemma unlist_all_objs:
  "rel_option (\<lambda>a b. b = a \<or> b = a\<lparr>o_event_node := True\<rparr>) (objs s p) (objs (foldl (unlist be) s ps) p)"
proof (induction ps arbitrary: s)
  case (Cons q ps)
  have one: "rel_option (\<lambda>a b. b = a \<or> b = a\<lparr>o_event_node := True\<rparr>) (objs s p) (objs (unlist be s q) p)"
    by (cases "objs s p") (auto simp: unlist_def put_removed_def)
  show ?case using Cons.IH [of "unlist be s q"] one
    by (cases "objs s p"; cases "objs (unlist be s q) p"; cases "objs (foldl (unlist be) (unlist be s q) ps) p") auto
qed (simp add: option.rel_refl)

lemma encode_all_ok:
  assumes "\<And>x b ys. x \<in> set xs \<Longrightarrow> appended b0 b ys \<Longrightarrow> enough m (blength b0 + length ys + length (img x)) \<Longrightarrow>
      \<exists>b'. enc x b = (Inr (), b') \<and> appended b0 b' (ys @ img x)"
    "appended b0 b ys" "enough m (blength b0 + length ys + length (concat (map img xs)))"
  obtains b' where "encode_all enc (map Some xs) b = (Inr (), b')" "appended b0 b' (ys @ concat (map img xs))"
proof -
  have "\<exists>b'. encode_all enc (map Some xs) b = (Inr (), b') \<and> appended b0 b' (ys @ concat (map img xs))"
    using assms
  proof (induction xs arbitrary: b ys)
    case (Cons x xs)
    have "enough m (blength b0 + length ys + length (img x))" by (rule enough_mono [OF Cons.prems(3)]) simp
    with Cons.prems(1) [of x b ys] Cons.prems(2) obtain b1 where
      b1: "enc x b = (Inr (), b1)" "appended b0 b1 (ys @ img x)" by auto
    have "\<exists>b'. encode_all enc (map Some xs) b1 = (Inr (), b') \<and> appended b0 b' ((ys @ img x) @ concat (map img xs))"
      by (rule Cons.IH [OF _ b1(2)]) (use Cons.prems(1,3) in \<open>auto simp: add.assoc\<close>)
    then show ?case using b1(1) by simp
  qed simp
  then show thesis using that by blast
qed

definition removal_wire :: "obus_object \<Rightarrow> u8 list" where
  "removal_wire obj = be16 (od_uid (o_desc obj)) @ be16 (o_handle obj)"

lemma remove_encode_ok:
  assumes "appended b0 b xs" "buf_ok b0" "enough m (blength b0 + length xs + length (removal_wire obj))"
  shows "\<exists>b'. obus_object_remove_encode m obj b = (Inr (), b') \<and> appended b0 b' (xs @ removal_wire obj)"
proof -
  have en: "enough m k" if "k \<le> blength b0 + length xs + 4" for k
    by (rule enough_mono [OF assms(3)]) (use that in \<open>simp add: removal_wire_def\<close>)
  obtain b1 where b1: "obus_buffer_append_u16 m b (od_uid (o_desc obj)) = (Inr (), b1)"
      "appended b0 b1 (xs @ be16 (od_uid (o_desc obj)))"
    by (rule append_u16_then [OF assms(1,2) en]) simp_all
  obtain b2 where "obus_buffer_append_u16 m b1 (o_handle obj) = (Inr (), b2)"
      "appended b0 b2 ((xs @ be16 (od_uid (o_desc obj))) @ be16 (o_handle obj))"
    by (rule append_u16_then [OF b1(2) assms(2) en]) simp_all
  then show ?thesis using b1(1) by (simp add: obus_object_remove_encode_def removal_wire_def)
qed

lemma append_u32_then:
  assumes "appended b0 b xs" "buf_ok b0" "enough m (blength b0 + length xs + 4)"
  obtains b' where "obus_buffer_append_u32 m b v = (Inr (), b')" "appended b0 b' (xs @ be32 v)"
  using w32.wr_then [OF assms(1,2), of m v] assms(3) by auto

definition bus_event_wire :: "obus_bus_event_desc \<Rightarrow> obus_object list \<Rightarrow> obus_object list \<Rightarrow> (obus_object \<times> obus_event) list \<Rightarrow> u8 list" where
  "bus_event_wire desc adds rems evs =
     wire_bus_event (be_uid desc) (map object_wire adds) (map removal_wire rems) (map event_wire evs)"

text \<open>The members of a bus event, with the object of each event.\<close>

definition members :: "bus_state \<Rightarrow> obus_bus_event \<Rightarrow> obus_object list \<Rightarrow> obus_object list \<Rightarrow> (obus_object \<times> obus_event) list \<Rightarrow> bool" where
  "members s e adds rems evs \<longleftrightarrow>
     map (objs s) (add_objs e) = map Some adds \<and> map (objs s) (remove_objs e) = map Some rems
     \<and> map (evts s) (obj_events e) = map (Some \<circ> snd) evs \<and> (\<forall>(obj, ev)\<in>set evs. objs s (e_obj ev) = Some obj)"

lemma encode_events:
  assumes "\<forall>(obj, ev)\<in>set evs. objs s (e_obj ev) = Some obj \<and> struct_ok (e_info ev)" "appended b0 b xs" "buf_ok b0"
    "enough m (blength b0 + length xs + length (concat (map event_wire evs)))"
  obtains b' where "encode_all (obus_event_encode m s) (map (Some \<circ> snd) evs) b = (Inr (), b')"
    "appended b0 b' (xs @ concat (map event_wire evs))"
proof -
  have one: "\<exists>b'. (obus_event_encode m s \<circ> snd) x b = (Inr (), b') \<and> appended b0 b' (ys @ event_wire x)"
    if "x \<in> set evs" "appended b0 b ys" "enough m (blength b0 + length ys + length (event_wire x))" for x b ys
  proof -
    note t = that
    obtain obj ev where x: "x = (obj, ev)" by (cases x)
    have o: "objs s (e_obj ev) = Some obj" "struct_ok (e_info ev)" using assms(1) that(1) x by auto
    obtain b' where "obus_event_encode m s ev b = (Inr (), b')"
      "appended b0 b' (ys @ wire_event (od_uid (o_desc obj)) (o_handle obj) (ev_uid (e_desc ev)) (wire_of (e_info ev)))"
      by (rule event_encode_ok [OF o(2,1) t(2) assms(3)]) (use t(3) x in \<open>simp_all add: event_wire_def add.assoc\<close>)
    then show ?thesis using x by (simp add: event_wire_def)
  qed
  have "encode_all (obus_event_encode m s \<circ> snd) (map Some zs) = encode_all (obus_event_encode m s) (map (Some \<circ> snd) zs)" for zs
    by (induction zs) (rule ext, simp)+
  moreover obtain b' where "encode_all (obus_event_encode m s \<circ> snd) (map Some evs) b = (Inr (), b')"
    "appended b0 b' (xs @ concat (map event_wire evs))"
    by (rule encode_all_ok [where enc = "obus_event_encode m s \<circ> snd", OF one assms(2,4)]) (assumption | rule that)+
  ultimately show thesis using that by metis
qed

lemma bus_event_encode_ok:
  assumes "members s e adds rems evs" "\<forall>obj\<in>set adds. struct_ok (o_info obj)" "\<forall>x\<in>set evs. struct_ok (e_info (snd x))"
    "buf_ok b" "enough m (blength b + length (bus_event_wire (be_desc e) adds rems evs))"
  obtains b' where "obus_bus_event_encode m s e b = (Inr (), b')" "appended b b' (bus_event_wire (be_desc e) adds rems evs)"
proof -
  let ?a = "concat (map object_wire adds)" and ?r = "concat (map removal_wire rems)" and ?e = "concat (map event_wire evs)"
  have len: "length (add_objs e) = length adds" "length (remove_objs e) = length rems" "length (obj_events e) = length evs"
    using assms(1) unfolding members_def by (metis length_map)+
  have en: "enough m k" if "k \<le> blength b + 14 + length ?a + length ?r + length ?e" for k
    by (rule enough_mono [OF assms(5)]) (use that in \<open>simp add: bus_event_wire_def wire_bus_event_def\<close>)
  have b0: "appended b b []" using assms(4) by simp
  obtain b1 where b1: "obus_buffer_append_u16 m b (be_uid (be_desc e)) = (Inr (), b1)" "appended b b1 ([] @ be16 (be_uid (be_desc e)))"
    by (rule append_u16_then [OF b0 assms(4) en]) simp_all
  obtain b2 where b2: "obus_buffer_append_u32 m b1 (of_nat (length adds)) = (Inr (), b2)"
    "appended b b2 (([] @ be16 (be_uid (be_desc e))) @ be32 (of_nat (length adds)))"
    by (rule append_u32_then [OF b1(2) assms(4) en]) simp_all
  obtain b3 where b3: "obus_buffer_append_u32 m b2 (of_nat (length rems)) = (Inr (), b3)"
    "appended b b3 ((([] @ be16 (be_uid (be_desc e))) @ be32 (of_nat (length adds))) @ be32 (of_nat (length rems)))"
    by (rule append_u32_then [OF b2(2) assms(4) en]) simp_all
  obtain b4 where b4: "obus_buffer_append_u32 m b3 (of_nat (length evs)) = (Inr (), b4)"
    "appended b b4 (((([] @ be16 (be_uid (be_desc e))) @ be32 (of_nat (length adds))) @ be32 (of_nat (length rems))) @ be32 (of_nat (length evs)))"
    by (rule append_u32_then [OF b3(2) assms(4) en]) simp_all
  let ?h = "((([] @ be16 (be_uid (be_desc e))) @ be32 (of_nat (length adds))) @ be32 (of_nat (length rems))) @ be32 (of_nat (length evs))"
  have n: "enough m (blength b + length ?h + length ?a)" "enough m (blength b + length (?h @ ?a) + length ?r)"
    "enough m (blength b + length ((?h @ ?a) @ ?r) + length ?e)" by (rule en, simp)+
  have oa: "\<exists>b'. obus_object_add_encode m x b1 = (Inr (), b') \<and> appended b b' (ys @ object_wire x)"
    if "x \<in> set adds" "appended b b1 ys" "enough m (blength b + length ys + length (object_wire x))" for x b1 ys
  proof -
    note t = that
    have "struct_ok (o_info x)" using assms(2) that(1) by blast
    then obtain b' where "obus_object_add_encode m x b1 = (Inr (), b')"
      "appended b b' (ys @ wire_object (od_uid (o_desc x)) (o_handle x) (wire_struct (struct_entries (o_info x))))"
      by (rule object_add_encode_ok [OF _ t(2) assms(4)])
        (use t(3) in \<open>simp_all add: object_wire_def wire_object_def wire_of_def add.assoc\<close>)
    then show ?thesis by (simp add: object_wire_def wire_of_def)
  qed
  obtain b5 where b5: "encode_all (obus_object_add_encode m) (map Some adds) b4 = (Inr (), b5)" "appended b b5 (?h @ ?a)"
    by (rule encode_all_ok [OF oa b4(2) n(1)]) (assumption | rule that)+
  obtain b6 where b6: "encode_all (obus_object_remove_encode m) (map Some rems) b5 = (Inr (), b6)" "appended b b6 ((?h @ ?a) @ ?r)"
    by (rule encode_all_ok [OF remove_encode_ok [OF _ assms(4)] b5(2) n(2)]) (assumption | rule that)+
  have ev: "\<forall>(obj, ev)\<in>set evs. objs s (e_obj ev) = Some obj \<and> struct_ok (e_info ev)" using assms(1,3) by (auto simp: members_def)
  obtain b7 where b7: "encode_all (obus_event_encode m s) (map (Some \<circ> snd) evs) b6 = (Inr (), b7)" "appended b b7 (((?h @ ?a) @ ?r) @ ?e)"
    by (rule encode_events [OF ev b6(2) assms(4) n(3)]) (rule that)
  show thesis
  proof (rule that)
    show "obus_bus_event_encode m s e b = (Inr (), b7)"
      using b1(1) b2(1) b3(1) b4(1) b5(1) b6(1) b7(1) assms(1) len by (simp add: obus_bus_event_encode_def members_def)
    show "appended b b7 (bus_event_wire (be_desc e) adds rems evs)"
      using b7(2) by (simp add: bus_event_wire_def wire_bus_event_def)
  qed
qed

section \<open>Round trip of bus events\<close>

lemma knows_keeps:
  assumes "knows s0 obj" "obus_bus_object s = obus_bus_object s0"
    "\<And>p. rel_option (\<lambda>a b. o_desc b = o_desc a) (objs s0 p) (objs s p)"
  shows "knows s obj"
proof -
  from assms(1) obtain obj' where o: "objs s0 (obus_bus_object s0 (o_handle obj)) = Some obj'" "o_desc obj' = o_desc obj"
    by (auto simp: knows_def)
  then show ?thesis using assms(3) [of "obus_bus_object s0 (o_handle obj)"] by (auto simp: knows_def assms(2) option_rel_Some1)
qed

lemma removal_pairs:
  "concat (map removal_wire rems) = concat (map (\<lambda>(uid, handle). be16 uid @ be16 handle) (map (\<lambda>r. (od_uid (o_desc r), o_handle r)) rems))"
  by (induction rems) (simp_all add: removal_wire_def)

text \<open>The receiver's state, step by step: the objects added, the removals listed, the events added.\<close>

lemma bus_event_decode_sent:
  assumes "counts_fit adds rems evs" "objects_ok t" "fresh_addrs t"
    "\<forall>obj\<in>set adds. sendable m (bus_api t) obj"
    "removable t (map (\<lambda>obj. (od_uid (o_desc obj), o_handle obj)) rems)"
    "\<forall>x\<in>set evs. event_sendable m (bus_api t) x \<and> knows t (fst x)"
    "obus_bus_api_bus_event (bus_api t) (be_uid desc) = Some desc" "alloc_ok m sizeof_bus_event"
    "reads_at b p (bus_event_wire desc adds rems evs @ rest)"
  obtains os es k where "list_all2 object_like adds os" "list_all2 (event_like (obus_bus_object t)) evs es"
    "obus_bus_event_decode m t (advance b p) = (Inr (next_addr t), foldl (put_event (next_addr t)) (foldl (unlist (next_addr t))
       (foldl (put_object (next_addr t)) (started t desc) os) (map (\<lambda>obj. obus_bus_object t (o_handle obj)) rems)) es, advance b k)"
    "reads_at b k rest"
proof -
  let ?be = "next_addr t" and ?rs = "map (\<lambda>r. (od_uid (o_desc r), o_handle r)) rems"
  let ?wr = "\<lambda>(uid, handle). be16 uid @ be16 handle"
  let ?A = "length (concat (map object_wire adds))" and ?E = "length (concat (map event_wire evs))"
  have r: "reads_at b p (wire_bus_event (be_uid desc) (map object_wire adds) (map removal_wire rems) (map event_wire evs) @ rest)"
    using assms(9) by (simp add: bus_event_wire_def)
  then have r14: "reads_at b (p + 14) (concat (map object_wire adds) @ concat (map ?wr ?rs) @ concat (map event_wire evs) @ rest)"
    using reads_at_step [of b p "be16 (be_uid desc) @ be32 (of_nat (length adds)) @ be32 (of_nat (length rems)) @ be32 (of_nat (length evs))"]
    unfolding removal_pairs [symmetric] by (simp add: wire_bus_event_def)
  note st = started_ok [OF assms(2,3), of desc]
  have ad: "decoding_ok ?be (started t desc) \<and> extends t (started t desc) \<and> (\<forall>x\<in>set adds. sendable m (bus_api t) x)"
    using st assms(4) by simp
  obtain os where a: "list_all2 object_like adds os"
    "turns (length adds) (decode_add m ?be) (started t desc) (advance b (p + 14)) =
       (Inr (), foldl (put_object ?be) (started t desc) os, advance b (p + 14 + ?A))"
    "decoding_ok ?be (foldl (put_object ?be) (started t desc) os) \<and> extends t (foldl (put_object ?be) (started t desc) os) \<and> (\<forall>x\<in>set []. sendable m (bus_api t) x)"
    "reads_at b (p + 14 + ?A) (concat (map ?wr ?rs) @ concat (map event_wire evs) @ rest)"
    by (rule sent_add.loop [OF ad r14]) (rule that)
  define s1 where "s1 = foldl (put_object ?be) (started t desc) os"
  have x: "extends t s1" and d1: "decoding_ok ?be s1" using a(3) by (simp_all add: s1_def)
  have rm: "decoding_ok ?be s1 \<and> removable s1 ?rs \<and> obus_bus_object s1 = obus_bus_object t"
    using d1 removable_extends [OF assms(2) x assms(5)] extends_bus_object [OF x] by simp
  let ?q = "p + 14 + ?A"
  obtain ps where p: "list_all2 (\<lambda>(uid, handle) p. p = obus_bus_object t handle) ?rs ps"
    "turns (length ?rs) (decode_remove ?be) s1 (advance b ?q) =
      (Inr (), foldl (unlist ?be) s1 ps, advance b (?q + length (concat (map ?wr ?rs))))"
    "decoding_ok ?be (foldl (unlist ?be) s1 ps) \<and> removable (foldl (unlist ?be) s1 ps) [] \<and> obus_bus_object (foldl (unlist ?be) s1 ps) = obus_bus_object t"
    "reads_at b (?q + length (concat (map ?wr ?rs))) (concat (map event_wire evs) @ rest)"
    by (rule removal.loop [OF rm a(4)]) (rule that)
  define s2 where "s2 = foldl (unlist ?be) s1 ps"
  note k = unlist_all_keeps [where be = ?be and s = s1 and ps = ps, folded s2_def]
  have kn: "knows s2 obj" if "knows t obj" for obj
  proof -
    have "knows s1 obj" using that x by (auto simp: knows_def extends_bus_object [OF x] extends_def)
    then show ?thesis
    proof (rule knows_keeps)
      show "obus_bus_object s2 = obus_bus_object s1" using p(3) rm by (simp add: s2_def)
      show "rel_option (\<lambda>a b. o_desc b = o_desc a) (objs s1 q) (objs s2 q)" for q
        using unlist_all_objs [of s1 q ?be ps] unfolding s2_def by (rule option.rel_mono_strong) auto
    qed
  qed
  have se: "decoding_ok ?be s2 \<and> bus_api s2 = bus_api t \<and> obus_bus_object s2 = obus_bus_object t
      \<and> (\<forall>x\<in>set evs. event_sendable m (bus_api t) x \<and> knows s2 (fst x))"
    using p(3) k(1) x kn assms(6) by (simp add: s2_def extends_def)
  obtain es where v: "list_all2 (event_like (obus_bus_object t)) evs es"
    "turns (length evs) (decode_event m ?be) s2 (advance b (?q + length (concat (map ?wr ?rs)))) =
      (Inr (), foldl (put_event ?be) s2 es, advance b (?q + length (concat (map ?wr ?rs)) + ?E))"
    "reads_at b (?q + length (concat (map ?wr ?rs)) + ?E) rest"
    by (rule sent_event.loop [OF se p(4)]) (rule that)
  define s3 where "s3 = foldl (put_event ?be) s2 es"
  have cf: "counts_fit (map object_wire adds) (map removal_wire rems) (map event_wire evs)" using assms(1) by (simp add: counts_fit_def)
  have n: "0 < next_addr t" using assms(3) by (simp add: fresh_addrs_def)
  have dec: "obus_bus_event_decode m t (advance b p) = (Inr ?be, s3, advance b (?q + length (concat (map ?wr ?rs)) + ?E))"
    using bus_event_decode_loops [OF n r cf assms(7,8)] a(2) p(2) v(2) by (simp add: s1_def s2_def s3_def)
  have "ps = map (\<lambda>obj. obus_bus_object t (o_handle obj)) rems"
    using p(1) by (simp add: list_all2_map1 list_all2_conv_all_nth nth_equalityI)
  then show thesis using that a(1) v(1) dec v(3) by (simp add: s1_def s2_def s3_def)
qed

text \<open>What the receiver has of a bus event that was sent.\<close>

definition delivered :: "bus_state \<Rightarrow> obus_bus_event_desc \<Rightarrow> obus_object list \<Rightarrow> obus_object list \<Rightarrow> (obus_object \<times> obus_event) list \<Rightarrow> bus_state \<Rightarrow> addr \<Rightarrow> bool" where
  "delivered t desc adds rems evs t' p \<longleftrightarrow> (\<exists>e'. bevts t' p = Some e' \<and> be_desc e' = desc
    \<and> list_all2 (\<lambda>obj q. \<exists>obj'. objs t' q = Some obj' \<and> object_like obj obj') adds (add_objs e')
    \<and> remove_objs e' = map (\<lambda>obj. obus_bus_object t (o_handle obj)) rems
    \<and> list_all2 (\<lambda>x q. \<exists>ev'. evts t' q = Some ev' \<and> event_like (obus_bus_object t) x ev') evs (obj_events e'))"

lemma bus_event_delivered:
  assumes "counts_fit adds rems evs" "objects_ok t" "fresh_addrs t"
    "\<forall>obj\<in>set adds. sendable m (bus_api t) obj" "\<forall>obj\<in>set rems. obus_bus_object t (o_handle obj) \<noteq> 0"
    "removable t (map (\<lambda>obj. (od_uid (o_desc obj), o_handle obj)) rems)"
    "\<forall>x\<in>set evs. event_sendable m (bus_api t) x \<and> knows t (fst x)"
    "obus_bus_api_bus_event (bus_api t) (be_uid desc) = Some desc" "alloc_ok m sizeof_bus_event"
    "reads_at b p (bus_event_wire desc adds rems evs @ rest)"
  obtains t' k where "obus_bus_event_decode m t (advance b p) = (Inr (next_addr t), t', advance b k)" "reads_at b k rest"
    "delivered t desc adds rems evs t' (next_addr t)"
proof -
  let ?be = "next_addr t" and ?ps = "map (\<lambda>obj. obus_bus_object t (o_handle obj)) rems"
  obtain os es k where d: "list_all2 object_like adds os" "list_all2 (event_like (obus_bus_object t)) evs es"
    "obus_bus_event_decode m t (advance b p) = (Inr ?be, foldl (put_event ?be) (foldl (unlist ?be)
       (foldl (put_object ?be) (started t desc) os) ?ps) es, advance b k)"
    "reads_at b k rest"
    by (rule bus_event_decode_sent [OF assms(1-4,6-10)])
  let ?s0 = "started t desc"
  define s1 where "s1 = foldl (put_object ?be) ?s0 os"
  define s2 where "s2 = foldl (unlist ?be) s1 ?ps"
  define s3 where "s3 = foldl (put_event ?be) s2 es"
  let ?n = "Suc ?be"
  have e0: "bevts ?s0 ?be = Some (empty_bus_event desc True)" "next_addr ?s0 = ?n" by (simp_all add: started_def)
  note a1 = put_object_all [OF e0(1), of os, folded s1_def, unfolded e0(2)]
  then obtain e1 where e1: "bevts s1 ?be = Some e1" "add_objs e1 = [?n ..< ?n + length os]" "remove_objs e1 = []" "obj_events e1 = []" "be_desc e1 = desc"
    by (simp add: empty_bus_event_def)
  obtain e2 where e2: "bevts s2 ?be = Some e2" "remove_objs e2 = remove_objs e1 @ filter (\<lambda>p. p \<noteq> 0) ?ps" "add_objs e2 = add_objs e1"
    "obj_events e2 = obj_events e1" "be_desc e2 = be_desc e1"
    using unlist_all [OF e1(1), of ?ps] unfolding s2_def by blast
  have f: "filter (\<lambda>p. p \<noteq> 0) ?ps = ?ps" using assms(5) by (auto intro!: filter_True)
  have n2: "next_addr s2 = ?n + length os"
    using unlist_all_keeps(6) [where be = ?be and s = s1 and ps = ?ps] a1 by (simp add: s2_def)
  note a3 = put_event_all [OF e2(1), of es, folded s3_def, unfolded n2]
  have "\<exists>obj'. objs s3 (?n + i) = Some obj' \<and> object_like (adds ! i) obj'" if i: "i < length os" for i
  proof -
    have "objs s1 (?n + i) = Some ((os ! i)\<lparr>o_event_node := True\<rparr>)" using a1 i by simp
    then obtain obj' where "objs s2 (?n + i) = Some obj'" "obj' = (os ! i)\<lparr>o_event_node := True\<rparr>"
      using unlist_all_objs [of s1 "?n + i" ?be ?ps] unfolding s2_def by (auto simp: option_rel_Some1)
    then show ?thesis using a3 list_all2_nthD2 [OF d(1) i] by (auto simp: object_like_def)
  qed
  then have l1: "list_all2 (\<lambda>obj q. \<exists>obj'. objs s3 q = Some obj' \<and> object_like obj obj') adds [?n ..< ?n + length os]"
    using list_all2_lengthD [OF d(1)] by (simp add: list_all2_conv_all_nth del: upt_Suc)
  have "\<exists>ev'. evts s3 (?n + length os + i) = Some ev' \<and> event_like (obus_bus_object t) (evs ! i) ev'" if i: "i < length es" for i
    using a3 i list_all2_nthD2 [OF d(2) i] by (auto simp: event_like_def)
  then have l2: "list_all2 (\<lambda>x q. \<exists>ev'. evts s3 q = Some ev' \<and> event_like (obus_bus_object t) x ev') evs [?n + length os ..< ?n + length os + length es]"
    using list_all2_lengthD [OF d(2)] by (simp add: list_all2_conv_all_nth del: upt_Suc)
  have "delivered t desc adds rems evs s3 ?be"
    using a3 e1 e2 f l1 l2 unfolding delivered_def s1_def [symmetric] s2_def [symmetric] s3_def [symmetric] by fastforce
  then show thesis using that d(3,4) by (simp add: s1_def s2_def s3_def)
qed

text \<open>
  Round trip of bus events. A bus event encoded by \<open>obus_bus_event_encode\<close> on one side and
  decoded by \<open>obus_bus_event_decode\<close> on another side that declares it and knows the objects of
  its removals and events gives a bus event with the same description, whose lists have, in the
  same order: for each registered object a new object like it, the receiver's objects with the
  handles of the unregistered objects, and for each event a new event like it for the receiver's
  object. The buffer is read to its end.
\<close>

theorem bus_event_roundtrip:
  assumes "members s e adds rems evs" "counts_fit adds rems evs" "objects_ok t" "fresh_addrs t"
    "\<forall>obj\<in>set adds. sendable m (bus_api t) obj" "\<forall>obj\<in>set rems. obus_bus_object t (o_handle obj) \<noteq> 0"
    "removable t (map (\<lambda>obj. (od_uid (o_desc obj), o_handle obj)) rems)"
    "\<forall>x\<in>set evs. event_sendable m (bus_api t) x \<and> knows t (fst x)"
    "obus_bus_api_bus_event (bus_api t) (be_uid (be_desc e)) = Some (be_desc e)"
    "buf_ok b" "bpos b = blength b" "enough m (blength b + length (bus_event_wire (be_desc e) adds rems evs))"
    "alloc_ok m sizeof_bus_event"
  shows "\<exists>b' p t' b'' e'. obus_bus_event_encode m s e b = (Inr (), b') \<and> obus_bus_event_decode m t b' = (Inr p, t', b'')
    \<and> unread b'' = [] \<and> bevts t' p = Some e' \<and> be_desc e' = be_desc e
    \<and> list_all2 (\<lambda>obj q. \<exists>obj'. objs t' q = Some obj' \<and> object_like obj obj') adds (add_objs e')
    \<and> remove_objs e' = map (\<lambda>obj. obus_bus_object t (o_handle obj)) rems
    \<and> list_all2 (\<lambda>x q. \<exists>ev'. evts t' q = Some ev' \<and> event_like (obus_bus_object t) x ev') evs (obj_events e')"
proof -
  have so: "\<forall>obj\<in>set adds. struct_ok (o_info obj)" "\<forall>x\<in>set evs. struct_ok (e_info (snd x))"
    using assms(5,8) by (auto simp: sendable_def event_sendable_def)
  obtain b' where b': "obus_bus_event_encode m s e b = (Inr (), b')" "appended b b' (bus_event_wire (be_desc e) adds rems evs)"
    by (rule bus_event_encode_ok [OF assms(1) so assms(10,12)])
  have "unread b' = bus_event_wire (be_desc e) adds rems evs @ []"
    using appended_unread [OF b'(2) _ assms(10)] assms(10,11) by (simp add: unread_def)
  then have r: "reads_at b' 0 (bus_event_wire (be_desc e) adds rems evs @ [])" using appended_ok [OF b'(2)] by simp
  obtain t' k where d: "obus_bus_event_decode m t (advance b' 0) = (Inr (next_addr t), t', advance b' k)" "reads_at b' k []"
    "delivered t (be_desc e) adds rems evs t' (next_addr t)"
    by (rule bus_event_delivered [OF assms(2-9,13) r])
  have "unread (advance b' k) = []" using d(2) by (simp add: reads_at_def)
  then show ?thesis using b'(1) d(1,3) by (auto simp: delivered_def)
qed

text \<open>
  A bus event that names the same object twice for removal breaks the list of removals: the
  decoder links the object's node a second time (unlike \<open>obus_bus_event_unregister_object\<close> it
  does not check that the node is free).
\<close>

theorem duplicate_removal_faults:
  assumes "objects_ok s" "fresh_addrs s" "buf_ok b" "obus_bus_object s handle \<noteq> 0"
    "unread b = wire_bus_event uid [] [be16 u1 @ be16 handle, be16 u2 @ be16 handle] [] @ rest"
    "obus_bus_api_bus_event (bus_api s) uid = Some desc" "alloc_ok m sizeof_bus_event"
  shows "fst (obus_bus_event_decode m s b) = Inl FAULT"
proof -
  let ?be = "next_addr s" and ?p = "obus_bus_object s handle"
  have r: "reads_at b 0 (be16 uid @ be32 0 @ be32 2 @ be32 0 @ be16 u1 @ be16 handle @ be16 u2 @ be16 handle @ rest)"
    using assms(3,5) by (simp add: wire_bus_event_def)
  note r1 = read_u16_at [OF r, of 2, simplified]
  note r2 = read_u32_at [OF r1(2), simplified]
  note r3 = read_u32_at [OF r2(2), simplified]
  note r4 = read_u32_at [OF r3(2), simplified]
  note r5 = read_u16_at [OF r4(2), of 16, simplified]
  note r6 = read_u16_at [OF r5(2), of 18, simplified]
  note r7 = read_u16_at [OF r6(2), of 20, simplified]
  note r8 = read_u16_at [OF r7(2), of 22, simplified]
  have l: "obus_bus_object (started s desc) = obus_bus_object s" using started_ok(4) [OF assms(1,2)] .
  obtain obj where obj: "objs s ?p = Some obj" using bus_object_objs [OF assms(1,4)] by blast
  let ?s = "put_removed ?be (started s desc) ?p"
  have o: "objs (started s desc) ?p = Some obj" using obj by (simp add: started_def)
  have d1: "fst (decode_remove ?be (started s desc) (advance b 14)) = Inl FAULT
      \<or> decode_remove ?be (started s desc) (advance b 14) = (Inr (), ?s, advance b 18)"
    using r5(1) r6(1) l obj assms(4)
    by (auto simp: decode_remove_def obus_object_remove_decode_def link_object_def put_removed_def started_def)
  have "objs ?s ?p = Some (obj\<lparr>o_event_node := True\<rparr>)" "bevts ?s ?be \<noteq> None" using o by (simp_all add: put_removed_def started_def)
  then have d2: "fst (decode_remove ?be ?s (advance b 18)) = Inl FAULT"
    using r7(1) r8(1) l assms(4) by (auto simp: decode_remove_def obus_object_remove_decode_def link_object_def)
  have "fst (turns 2 (decode_remove ?be) (started s desc) (advance b 14)) = Inl FAULT"
    using d1 d2 by (auto simp: numeral_2_eq_2 split: prod.splits sum.splits)
  then have "fst (case turns 2 (decode_remove ?be) (started s desc) (advance b 14) of
      (Inl e, s, buf) \<Rightarrow> (Inl e, s, buf) | (Inr _, s, buf) \<Rightarrow> f s buf) = Inl FAULT" for f :: "_ \<Rightarrow> _ \<Rightarrow> addr res \<times> bus_state \<times> obus_buffer"
    by (cases "turns 2 (decode_remove ?be) (started s desc) (advance b 14)") auto
  moreover have "?be \<noteq> 0" using assms(2) by (simp add: fresh_addrs_def)
  ultimately show ?thesis
    using r1(1) r2(1) r3(1) r4(1) assms(6,7)
    by (simp add: obus_bus_event_decode_def obus_bus_event_new_def flip: started_def)
qed

section \<open>Examples\<close>

lemma full_memory_bus_event: "alloc_ok full_memory sizeof_bus_event"
  by (simp add: full_memory_alloc sizeof_bus_event_def)

lemma sample_lookup:
  assumes "objects_ok s" "object_at s 3 17 = Some (1, sample_object\<lparr>o_bus := True\<rparr>)"
  shows "obus_bus_object s 17 = 1" "objs s 1 = Some (sample_object\<lparr>o_bus := True\<rparr>)" "removable s [(3, 17)]"
  using object_at_Some [OF assms] by (simp_all add: removable_def named_def sample_object_def)


lemma duplicate_removal_faults_witness:
  "\<exists>s. obus_bus_object s 17 = 1 \<and> fst (obus_bus_event_decode full_memory s
      (buffer_of (wire_bus_event 2 [] [be16 3 @ be16 17, be16 3 @ be16 17] []))) = Inl FAULT"
proof -
  obtain s where s: "objects_ok s" "fresh_addrs s" "object_at s 3 17 = Some (1, sample_object\<lparr>o_bus := True\<rparr>)"
    "obus_bus_api_bus_event (bus_api s) 2 = Some \<lparr>be_uid = 2\<rparr>" by (rule sample_side)
  let ?b = "buffer_of (wire_bus_event 2 [] [be16 3 @ be16 17, be16 3 @ be16 17] [])"
  have "buf_ok ?b" by (simp add: wire_bus_event_def)
  then show ?thesis
    using duplicate_removal_faults [OF s(1,2), of ?b 17 2 3 3 "[]" "\<lparr>be_uid = 2\<rparr>" full_memory] sample_lookup(1) [OF s(1,3)] s(4)
      full_memory_bus_event by auto
qed

lemma sample_bus_event_sent:
  obtains s t e obj1 obj2 ev where "bevts s 4 = Some e" "members s e [obj2] [obj1] [(obj1, ev)]" "objects_ok t" "fresh_addrs t"
    "\<forall>obj\<in>set [obj2]. sendable full_memory (bus_api t) obj" "\<forall>obj\<in>set [obj1]. obus_bus_object t (o_handle obj) \<noteq> 0"
    "removable t (map (\<lambda>obj. (od_uid (o_desc obj), o_handle obj)) [obj1])"
    "\<forall>x\<in>set [(obj1, ev)]. event_sendable full_memory (bus_api t) x \<and> knows t (fst x)"
    "obus_bus_api_bus_event (bus_api t) (be_uid (be_desc e)) = Some (be_desc e)"
    "obus_bus_object t (o_handle obj1) = 1" "length (bus_event_wire (be_desc e) [obj2] [obj1] [(obj1, ev)]) < 100"
proof -
  note th = that
  obtain t where t: "objects_ok t" "fresh_addrs t" "object_at t 3 17 = Some (1, sample_object\<lparr>o_bus := True\<rparr>)"
    "obus_bus_api_bus_event (bus_api t) 2 = Some \<lparr>be_uid = 2\<rparr>" "obus_bus_api_object (bus_api t) 3 = Some sample_od"
    "obus_bus_api_event (bus_api t) 3 5 = Some sample_event"
    by (rule sample_side)
  note k = sample_lookup [OF t(1,3)]
  let ?o1 = "sample_object\<lparr>o_bus := True\<rparr>" and ?o2 = "sample_object\<lparr>o_handle := 18\<rparr>"
  let ?e = "\<lparr>be_desc = \<lparr>be_uid = 2\<rparr>, add_objs = [2], remove_objs = [1], obj_events = [3], be_committed = False, be_allocated = True\<rparr>"
  let ?s = "t\<lparr>objs := [1 \<mapsto> ?o1, 2 \<mapsto> ?o2], evts := [3 \<mapsto> sample_evt], bevts := [4 \<mapsto> ?e]\<rparr>"
  have o: "o_handle ?o1 = 17" "o_handle ?o2 = 18" "o_desc ?o1 = sample_od" "o_desc ?o2 = sample_od" "o_info ?o2 = sample_struct"
    "od_uid sample_od = 3" "info_desc sample_od = sample_desc" "st_desc sample_struct = sample_desc" "sd_size sample_desc = 64" "length (od_methods sample_od) = 1"
    by (simp_all add: sample_bus_defs sample_defs)
  have ev: "e_info sample_evt = sample_struct" "e_desc sample_evt = sample_event" "ev_uid sample_event = 5" "e_obj sample_evt = 1"
    by (simp_all add: sample_evt_def sample_event_def)
  have mem: "bevts ?s 4 = Some ?e" "members ?s ?e [?o2] [?o1] [(?o1, sample_evt)]" by (simp_all add: members_def ev)
  have se: "sendable full_memory (bus_api t) ?o2"
    using t(5) sample_ok sample_sizes unfolding sendable_def o
    by (simp add: OBUS_INVALID_UID_def OBUS_INVALID_HANDLE_def wire_of_def object_size_def o full_memory_alloc sizeof_object_def sizeof_ptr_def)
  have ee: "event_sendable full_memory (bus_api t) (?o1, sample_evt)"
    using t(6) sample_ok sample_sizes unfolding event_sendable_def prod.case o ev
    by (simp add: OBUS_INVALID_UID_def OBUS_INVALID_HANDLE_def wire_of_def event_size_def o full_memory_alloc sizeof_event_def)
  have kn: "knows t ?o1" using k(1,2) by (simp add: knows_def o)
  have len: "length (bus_event_wire (be_desc ?e) [?o2] [?o1] [(?o1, sample_evt)]) < 100"
    by (simp add: bus_event_wire_def wire_bus_event_def object_wire_def removal_wire_def event_wire_def wire_object_def o ev wire_of_def sample_sizes)
  show thesis by (rule th [OF mem t(1,2) _ _ _ _ _ _ len]) (use se ee kn k(1,3) t(4) o in simp_all)
qed

lemma bus_event_roundtrip_witness:
  "\<exists>s t e b' p t' b'' e'. obus_bus_event_encode full_memory s e (buffer_of []) = (Inr (), b')
    \<and> obus_bus_event_decode full_memory t b' = (Inr p, t', b'') \<and> unread b'' = [] \<and> bevts t' p = Some e'
    \<and> length (add_objs e') = 1 \<and> remove_objs e' = [1] \<and> length (obj_events e') = 1"
proof -
  obtain s t e obj1 obj2 ev where h: "members s e [obj2] [obj1] [(obj1, ev)]" "objects_ok t" "fresh_addrs t"
    "\<forall>obj\<in>set [obj2]. sendable full_memory (bus_api t) obj" "\<forall>obj\<in>set [obj1]. obus_bus_object t (o_handle obj) \<noteq> 0"
    "removable t (map (\<lambda>obj. (od_uid (o_desc obj), o_handle obj)) [obj1])"
    "\<forall>x\<in>set [(obj1, ev)]. event_sendable full_memory (bus_api t) x \<and> knows t (fst x)"
    "obus_bus_api_bus_event (bus_api t) (be_uid (be_desc e)) = Some (be_desc e)"
    "obus_bus_object t (o_handle obj1) = 1" "length (bus_event_wire (be_desc e) [obj2] [obj1] [(obj1, ev)]) < 100"
    by (rule sample_bus_event_sent)
  have fit: "counts_fit [obj2] [obj1] [(obj1, ev)]" by (simp add: counts_fit_def)
  have "buf_ok (buffer_of [])" "bpos (buffer_of []) = blength (buffer_of [])"
    "enough full_memory (blength (buffer_of []) + length (bus_event_wire (be_desc e) [obj2] [obj1] [(obj1, ev)]))"
    using h(10) by simp_all
  from bus_event_roundtrip [OF h(1) fit h(2-8) this full_memory_bus_event] obtain b' p t' b'' e' where
    d: "obus_bus_event_encode full_memory s e (buffer_of []) = (Inr (), b')" "obus_bus_event_decode full_memory t b' = (Inr p, t', b'')"
    "unread b'' = []" "bevts t' p = Some e'"
    "list_all2 (\<lambda>obj q. \<exists>obj'. objs t' q = Some obj' \<and> object_like obj obj') [obj2] (add_objs e')"
    "remove_objs e' = map (\<lambda>obj. obus_bus_object t (o_handle obj)) [obj1]"
    "list_all2 (\<lambda>x q. \<exists>ev'. evts t' q = Some ev' \<and> event_like (obus_bus_object t) x ev') [(obj1, ev)] (obj_events e')"
    by blast
  have "length (add_objs e') = 1" "length (obj_events e') = 1" "remove_objs e' = [1]"
    using list_all2_lengthD [OF d(5)] list_all2_lengthD [OF d(7)] d(6) h(9) by simp_all
  then show ?thesis using d(1-4) by blast
qed

end
