(* ===== verification/Obus_Fd.thy ===== *)
theory Obus_Fd
  imports Obus_Prelude
begin

text \<open>The events of a descriptor and the tests on them, from \<open>obus_loop.h\<close>; io, timers, sockets and the event loops use them.\<close>

definition OBUS_FD_IN :: u32 where "OBUS_FD_IN = 1"

definition OBUS_FD_OUT :: u32 where "OBUS_FD_OUT = 2"

definition OBUS_FD_ERR :: u32 where "OBUS_FD_ERR = 4"

definition OBUS_FD_HUP :: u32 where "OBUS_FD_HUP = 8"

unbundle bit_operations_syntax

definition obus_fd_event_error :: "u32 \<Rightarrow> bool" where
  "obus_fd_event_error events \<longleftrightarrow> events AND OBUS_FD_ERR \<noteq> 0 \<or> events AND OBUS_FD_HUP \<noteq> 0"

definition obus_fd_event_read :: "u32 \<Rightarrow> bool" where
  "obus_fd_event_read events \<longleftrightarrow> events AND OBUS_FD_IN \<noteq> 0"

definition obus_fd_event_write :: "u32 \<Rightarrow> bool" where
  "obus_fd_event_write events \<longleftrightarrow> events AND OBUS_FD_OUT \<noteq> 0"

lemmas fd_flags = OBUS_FD_IN_def OBUS_FD_OUT_def OBUS_FD_ERR_def OBUS_FD_HUP_def

end
