(* ===== verification/Obus_Io.thy ===== *)
theory Obus_Io
  imports Obus_Codec Obus_Fd "HOL-Library.Sublist"
begin

text \<open>
  Non-blocking input and output: \<open>obus_io.c\<close>. Packets are written at once when the descriptor takes
  them; what it does not take is queued and written when the event loop reports that the descriptor
  is ready. The first part holds the operations; the others show that the descriptor gets the
  bytes of the packets in the order of the writes, each byte once, and what goes wrong when a write
  fails for another reason.
\<close>

section \<open>Data\<close>

datatype obus_io_status = OBUS_IO_OK | OBUS_IO_EOF | OBUS_IO_ERROR | OBUS_IO_TIMEOUT | OBUS_IO_ABORT

text \<open>
  What the descriptor does with the writes to come: it takes at most so many bytes, or fails. When
  there is nothing, a write that does not block fails with \<open>EAGAIN\<close>.
\<close>

datatype io_output = Take nat | Refuse errno

text \<open>
  What the descriptor still delivers: pieces of the byte stream, the end of the stream (an empty
  piece) and failures. When there is nothing, a read that does not block fails with \<open>EAGAIN\<close>. A
  read that asks for less than the next piece leaves the rest of it.
\<close>

datatype io_input = Bytes "u8 list" | Failure errno

definition OBUS_IO_WRITE_READY_DEFAULT_TIMEOUT :: nat where
  "OBUS_IO_WRITE_READY_DEFAULT_TIMEOUT = 5000"

definition sizeof_io :: nat where "sizeof_io = 224"

definition sizeof_io_buffer :: nat where "sizeof_io_buffer = 24"

text \<open>
  An io and what it works on: the buffers in use, by address, and their pool; the queue holds the
  buffers of the wrappers in the list \<open>write_buffers\<close>. \<open>write_timer\<close> is the timeout the timer is set
  to (0: off). A descriptor is watched while it is in the event loop, which takes the write
  descriptor when \<open>watchable\<close> is true. \<open>fd_sent\<close> is what the descriptor has taken so far. An io
  that was destroyed is not alive.
\<close>

record obus_io =
  lograw :: bool
  nbr_written :: nat
  write_buffers :: "addr list"
  write_timer :: nat
  write_ready_timeout :: nat
  read_watched :: bool
  write_watched :: bool
  io_alive :: bool
  watchable :: bool
  fd_out :: "io_output list"
  fd_sent :: "u8 list"
  io_bufs :: "addr \<rightharpoonup> obus_buffer"
  io_pool :: obus_buffer_pool

text \<open>The callback of the user, called when a queued buffer is done with.\<close>

type_synonym write_cb = "obus_io_status \<Rightarrow> addr \<Rightarrow> obus_io \<Rightarrow> obus_io"

section \<open>Reading from the descriptor\<close>

text \<open>The loop around \<open>read\<close>: an interrupted call is repeated.\<close>

fun sys_read :: "io_input list \<Rightarrow> nat \<Rightarrow> u8 list res \<times> io_input list" where
  "sys_read [] n = (Inl EAGAIN, [])"
| "sys_read (Failure e # rest) n = (if e = EINTR then sys_read rest n else (Inl e, rest))"
| "sys_read (Bytes bs # rest) n =
     (Inr (take n bs), if n < length bs then Bytes (drop n bs) # rest else rest)"

definition obus_io_read :: "memory \<Rightarrow> io_input list \<Rightarrow> obus_buffer \<Rightarrow> nat \<Rightarrow> nat res \<times> io_input list \<times> obus_buffer" where
  "obus_io_read m inp buf n =
     (if n = 0 then (Inl EINVAL, inp, buf)
      else case obus_buffer_ensure_write_space m buf n of
        (Inl e, buf) \<Rightarrow> (Inl e, inp, buf)
      | (Inr _, buf) \<Rightarrow>
          (case sys_read inp n of
             (Inl e, inp) \<Rightarrow> (Inl e, inp, buf)
           | (Inr bs, inp) \<Rightarrow>
               (Inr (length bs), inp,
                if bs = [] then buf
                else obus_buffer_inc_write_ptr (buf\<lparr>bdata := poke (bdata buf) (blength buf) bs\<rparr>) (length bs))))"

text \<open>The event loop reports events of the descriptor to the callback of the user.\<close>

definition obus_io_read_events :: "(u32 \<Rightarrow> 's \<Rightarrow> 's) \<Rightarrow> u32 \<Rightarrow> 's \<Rightarrow> 's" where
  "obus_io_read_events read_cb events user = read_cb events user"

section \<open>Writing\<close>

definition io_ref :: "obus_io \<Rightarrow> addr \<Rightarrow> unit res \<times> obus_io" where
  "io_ref io p =
     (case io_bufs io p of None \<Rightarrow> (Inl FAULT, io)
      | Some b \<Rightarrow> (Inr (), io\<lparr>io_bufs := (io_bufs io)(p \<mapsto> obus_buffer_ref b)\<rparr>))"

text \<open>A buffer whose last reference is dropped goes back to the pool.\<close>

definition io_unref :: "obus_io \<Rightarrow> addr \<Rightarrow> unit res \<times> obus_io" where
  "io_unref io p =
     (case io_bufs io p of None \<Rightarrow> (Inl FAULT, io)
      | Some b \<Rightarrow>
          (case obus_buffer_unref b (io_pool io) of (n, b, pool) \<Rightarrow>
             (Inr (), if n = 0 \<and> bpool b then io\<lparr>io_bufs := (io_bufs io)(p := None), io_pool := pool\<rparr>
                      else io\<lparr>io_bufs := (io_bufs io)(p \<mapsto> b)\<rparr>)))"

definition obus_io_buffer_new :: "memory \<Rightarrow> obus_io \<Rightarrow> addr \<Rightarrow> unit res \<times> obus_io" where
  "obus_io_buffer_new m io p = (if alloc_ok m sizeof_io_buffer then io_ref io p else (Inl ENOMEM, io))"

text \<open>The loop around \<open>write\<close>: an interrupted call is repeated.\<close>

fun sys_write :: "io_output list \<Rightarrow> u8 list \<Rightarrow> nat res \<times> io_output list" where
  "sys_write [] bs = (Inl EAGAIN, [])"
| "sys_write (Refuse e # rest) bs = (if e = EINTR then sys_write rest bs else (Inl e, rest))"
| "sys_write (Take n # rest) bs = (Inr (min n (length bs)), rest)"

lemma sys_write_shorter: "sys_write out bs = (Inr n, out') \<Longrightarrow> length out' < length out"
  by (induction out bs arbitrary: out' rule: sys_write.induct) (auto split: if_splits)

text \<open>The loop of \<open>obus_io_write_buffer\<close> on the bytes that are left; \<open>n\<close> have been written.\<close>

function write_loop :: "io_output list \<Rightarrow> u8 list \<Rightarrow> nat \<Rightarrow> unit res \<times> nat \<times> io_output list" where
  "write_loop out bs n =
     (if bs = [] then (Inr (), n, out)
      else case sys_write out bs of
        (Inl e, out') \<Rightarrow> (Inl e, n, out')
      | (Inr k, out') \<Rightarrow> write_loop out' (drop k bs) (n + k))"
  by pat_completeness auto
termination
  by (relation "measure (\<lambda>(out, bs, n). length out)") (auto dest: sys_write_shorter [OF sym])

declare write_loop.simps [simp del]

text \<open>
  The result, the number of bytes written and the io. An offset behind the end would make the size
  wrap around and the call read beyond the block.
\<close>

definition obus_io_write_buffer :: "obus_io \<Rightarrow> obus_buffer \<Rightarrow> nat \<Rightarrow> unit res \<times> nat \<times> obus_io" where
  "obus_io_write_buffer io buf offset =
     (if offset > blength buf then (Inl FAULT, 0, io)
      else let bs = drop offset (take (blength buf) (bdata buf)) in
           case write_loop (fd_out io) bs 0 of (r, n, out) \<Rightarrow>
             (r, n, io\<lparr>fd_out := out, fd_sent := fd_sent io @ take n bs\<rparr>))"

definition obus_io_write_buffer_complete :: "write_cb \<Rightarrow> obus_io \<Rightarrow> obus_io_status \<Rightarrow> unit res \<times> obus_io" where
  "obus_io_write_buffer_complete cb io status =
     (case write_buffers io of
        [] \<Rightarrow> (Inr (), io)
      | p # rest \<Rightarrow>
          chk (io_unref io p) (\<lambda>_ io. (Inr (), cb status p (io\<lparr>write_buffers := rest, nbr_written := 0\<rparr>))))"

definition obus_io_write_timer :: "write_cb \<Rightarrow> obus_io \<Rightarrow> unit res \<times> obus_io" where
  "obus_io_write_timer cb io = obus_io_write_buffer_complete cb (io\<lparr>write_timer := 0\<rparr>) OBUS_IO_TIMEOUT"

text \<open>
  The loop of \<open>obus_io_write_events\<close>. The callback may do anything to the io: \<open>None\<close> says that the
  loop runs forever, and the io it works on must still be there.
\<close>

partial_function (option) write_pending :: "write_cb \<Rightarrow> obus_io \<Rightarrow> (unit res \<times> obus_io) option" where
  "write_pending cb io =
     (if \<not> io_alive io then Some (Inl FAULT, io)
      else case write_buffers io of
        [] \<Rightarrow> Some (Inr (), io)
      | p # _ \<Rightarrow>
          (case io_bufs io p of
             None \<Rightarrow> Some (Inl FAULT, io)
           | Some buf \<Rightarrow>
               (case obus_io_write_buffer io buf (nbr_written io) of (r, n, io) \<Rightarrow>
                  if r = Inl FAULT then Some (Inl FAULT, io)
                  else if r = Inl EAGAIN then Some (Inr (), io\<lparr>nbr_written := sz (nbr_written io + n)\<rparr>)
                  else (case obus_io_write_buffer_complete cb io (if r = Inr () then OBUS_IO_OK else OBUS_IO_ERROR) of
                          (Inl e, io) \<Rightarrow> Some (Inl e, io)
                        | (Inr _, io) \<Rightarrow> write_pending cb io))))"

definition obus_io_write_events :: "write_cb \<Rightarrow> obus_io \<Rightarrow> u32 \<Rightarrow> (unit res \<times> obus_io) option" where
  "obus_io_write_events cb io events =
     (let io = io\<lparr>write_timer := 0\<rparr> in
      if obus_fd_event_error events then Some (obus_io_write_buffer_complete cb io OBUS_IO_ERROR)
      else if \<not> obus_fd_event_write events then Some (Inr (), io)
      else case write_pending cb io of
        None \<Rightarrow> None
      | Some (Inl e, io) \<Rightarrow> Some (Inl e, io)
      | Some (Inr _, io) \<Rightarrow>
          Some (Inr (), if write_buffers io \<noteq> [] then io\<lparr>write_timer := write_ready_timeout io\<rparr>
                        else io\<lparr>write_watched := False\<rparr>))"

text \<open>
  A new io on a descriptor; \<open>timer_ok\<close> and \<open>read_ok\<close> say whether the timer can be created and the
  event loop takes the descriptor for reading.
\<close>

definition obus_io_new :: "memory \<Rightarrow> bool \<Rightarrow> bool \<Rightarrow> bool \<Rightarrow> io_output list \<Rightarrow> (addr \<rightharpoonup> obus_buffer) \<Rightarrow> obus_buffer_pool \<Rightarrow> obus_io option" where
  "obus_io_new m timer_ok read_ok write_ok out bufs pool =
     (if \<not> alloc_ok m sizeof_io \<or> \<not> timer_ok \<or> \<not> read_ok then None
      else Some \<lparr>lograw = False, nbr_written = 0, write_buffers = [], write_timer = 0,
        write_ready_timeout = OBUS_IO_WRITE_READY_DEFAULT_TIMEOUT, read_watched = True, write_watched = False,
        io_alive = True, watchable = write_ok, fd_out = out, fd_sent = [], io_bufs = bufs, io_pool = pool\<rparr>)"

primrec unref_all :: "addr list \<Rightarrow> obus_io \<Rightarrow> unit res \<times> obus_io" where
  "unref_all [] io = (Inr (), io)"
| "unref_all (p # ps) io = chk (io_unref io p) (\<lambda>_ io. unref_all ps io)"

definition obus_io_destroy :: "obus_io \<Rightarrow> unit res \<times> obus_io" where
  "obus_io_destroy io =
     chk (unref_all (write_buffers io) (io\<lparr>read_watched := False, write_watched := False\<rparr>)) (\<lambda>_ io.
       (Inr (), io\<lparr>write_buffers := [], write_timer := 0, io_alive := False\<rparr>))"

definition obus_io_log_traffic :: "obus_io \<Rightarrow> bool \<Rightarrow> unit res \<times> obus_io" where
  "obus_io_log_traffic io enable = (Inr (), io\<lparr>lograw := enable\<rparr>)"

definition obus_io_write :: "memory \<Rightarrow> obus_io \<Rightarrow> addr \<Rightarrow> unit res \<times> obus_io" where
  "obus_io_write m io p =
     (if p = 0 then (Inl EINVAL, io)
      else if write_buffers io \<noteq> []
      then chk (obus_io_buffer_new m io p) (\<lambda>_ io. (Inl EAGAIN, io\<lparr>write_buffers := write_buffers io @ [p]\<rparr>))
      else case io_bufs io p of
        None \<Rightarrow> (Inl FAULT, io)
      | Some buf \<Rightarrow>
          (case obus_io_write_buffer io buf 0 of (r, n, io) \<Rightarrow>
             if r = Inl EAGAIN
             then chk (obus_io_buffer_new m io p) (\<lambda>_ io.
                    (Inl EAGAIN, io\<lparr>write_watched := watchable io, write_timer := write_ready_timeout io,
                                   write_buffers := write_buffers io @ [p], nbr_written := n\<rparr>))
             else (r, io)))"

section \<open>What a read appends\<close>

lemma ensure_size: "bsize (snd (obus_buffer_ensure_realloc m b n)) \<le> max (bsize b) n"
  by (auto simp: obus_buffer_ensure_realloc_def split: option.splits)

lemma io_read_ok:
  assumes "buf_ok b" "0 < n" "enough m (blength b + n)" "c \<noteq> []"
  obtains b' where "obus_io_read m (Bytes c # inp) b n = (Inr (length (take n c)), if n < length c then Bytes (drop n c) # inp else inp, b')"
    "buf_ok b'" "content b' = content b @ take n c" "bpos b' = bpos b" "bsize b \<le> bsize b'" "bsize b' \<le> max (bsize b) (blength b + n)"
proof -
  have lim: "blength b + n < SSIZE_LIMIT" using enough_limit [OF assms(3)] .
  then have sz: "sz (blength b + n) = blength b + n" by simp
  obtain b1 where b1: "obus_buffer_ensure_realloc m b (blength b + n) = (Inr (), b1)" "appended b b1 []" "blength b1 = blength b"
    "blength b + n \<le> bsize b1" by (rule ensure_realloc_ok [OF assms(1,3)])
  note ok = buf_okD [OF appended_ok [OF b1(2)]]
  define c' where "c' = take n c"
  have nc: "c' \<noteq> []" "length c' \<le> n" using assms(2,4) by (auto simp: c'_def)
  let ?b = "obus_buffer_inc_write_ptr (b1\<lparr>bdata := poke (bdata b1) (blength b1) c'\<rparr>) (length c')"
  have s2: "sz (blength b + length c') = blength b + length c'" using nc(2) lim by simp
  have p: "poke (bdata b1) (blength b) c' = take (blength b) (bdata b1) @ c' @ drop (blength b + length c') (bdata b1)"
    by (rule poke_eq) (use ok b1(4) nc(2) in simp)
  have "content ?b = content b1 @ c'"
    using b1(3,4) ok nc(2) s2 by (simp add: content_def obus_buffer_inc_write_ptr_def p)
  then have "content ?b = content b @ c'" using b1(2) by (simp add: appended_def)
  moreover have "buf_ok ?b" using appended_ok [OF b1(2)] b1(3,4) nc(2) s2 by (simp add: buf_ok_def obus_buffer_inc_write_ptr_def)
  moreover have "bpos ?b = bpos b" "bsize ?b = bsize b1" using b1(2) by (simp_all add: obus_buffer_inc_write_ptr_def appended_def)
  moreover have "bsize b1 \<le> max (bsize b) (blength b + n)" "bsize b \<le> bsize b1"
    using ensure_size [of m b "blength b + n"] b1(1) by (auto simp: obus_buffer_ensure_realloc_def split: if_splits option.splits)
  ultimately show thesis using that [of ?b] b1(1) sz nc assms(2)
    by (simp add: c'_def [symmetric] obus_io_read_def obus_buffer_ensure_write_space_def)
qed

section \<open>The queue as bytes\<close>

text \<open>The bytes that are queued and not written yet.\<close>

definition queued :: "obus_io \<Rightarrow> u8 list" where
  "queued io = concat (map (\<lambda>p. content (the (io_bufs io p))) (write_buffers io))"

definition pending :: "obus_io \<Rightarrow> u8 list" where
  "pending io = drop (nbr_written io) (queued io)"

text \<open>
  Every queued buffer is there, once, with a reference of the queue and one of the submitter, and
  no more of the first one is written than it has.
\<close>

definition io_ok :: "obus_io \<Rightarrow> bool" where
  "io_ok io \<longleftrightarrow> io_alive io \<and> distinct (write_buffers io)
     \<and> (\<forall>p\<in>set (write_buffers io). \<exists>b. io_bufs io p = Some b \<and> buf_ok b \<and> 2 \<le> brefcnt b)
     \<and> (\<forall>p ps. write_buffers io = p # ps \<longrightarrow> nbr_written io \<le> blength (the (io_bufs io p)))"

text \<open>The descriptor may be busy but does not fail.\<close>

definition busy_only :: "io_output list \<Rightarrow> bool" where
  "busy_only out \<longleftrightarrow> (\<forall>e. Refuse e \<in> set out \<longrightarrow> e = EAGAIN \<or> e = EINTR)"

text \<open>A callback that has to do with its buffer only.\<close>

definition cb_ok :: "write_cb \<Rightarrow> bool" where
  "cb_ok cb \<longleftrightarrow> (\<forall>status p io. io_alive (cb status p io) = io_alive io \<and> write_buffers (cb status p io) = write_buffers io
     \<and> nbr_written (cb status p io) = nbr_written io \<and> fd_out (cb status p io) = fd_out io \<and> fd_sent (cb status p io) = fd_sent io
     \<and> write_ready_timeout (cb status p io) = write_ready_timeout io
     \<and> (\<forall>q. q \<noteq> p \<longrightarrow> io_bufs (cb status p io) q = io_bufs io q))"

section \<open>Writing a buffer\<close>

lemma sys_write_spec:
  assumes "sys_write out bs = (r, out')"
  shows "set out' \<subseteq> set out" "r = Inr k \<Longrightarrow> k \<le> length bs" "busy_only out \<Longrightarrow> r = Inl e \<Longrightarrow> e = EAGAIN" "r = Inl e \<Longrightarrow> e = EAGAIN \<or> Refuse e \<in> set out"
  using assms by (induction out bs arbitrary: out' rule: sys_write.induct) (auto simp: busy_only_def split: if_splits)

lemma write_loop_spec:
  assumes "write_loop out bs n = (r, n', out')"
  shows "\<exists>k. n' = n + k \<and> k \<le> length bs \<and> (r = Inr () \<longrightarrow> k = length bs) \<and> set out' \<subseteq> set out
      \<and> (busy_only out \<longrightarrow> r \<noteq> Inr () \<longrightarrow> r = Inl EAGAIN) \<and> (\<forall>e. r = Inl e \<longrightarrow> e = EAGAIN \<or> Refuse e \<in> set out)"
  using assms
proof (induction out bs n rule: write_loop.induct)
    case (1 out bs n)
    show ?case
    proof (cases "bs = []")
      case True
      then show ?thesis using 1(2) by (auto simp: write_loop.simps [of out])
    next
      case False
      obtain r1 out1 where s: "sys_write out bs = (r1, out1)" by fastforce
      show ?thesis
      proof (cases r1)
        case (Inl e)
        then show ?thesis using 1(2) False s sys_write_spec [OF s] by (auto simp: write_loop.simps [of out])
      next
        case (Inr k)
        have w: "write_loop out1 (drop k bs) (n + k) = (r, n', out')" using 1(2) False s Inr by (simp add: write_loop.simps [of out])
        obtain j where j: "n' = n + k + j" "j \<le> length (drop k bs)" "r = Inr () \<longrightarrow> j = length (drop k bs)" "set out' \<subseteq> set out1"
          "busy_only out1 \<longrightarrow> r \<noteq> Inr () \<longrightarrow> r = Inl EAGAIN" "\<forall>e. r = Inl e \<longrightarrow> e = EAGAIN \<or> Refuse e \<in> set out1"
          using 1(1) [OF False s [symmetric] Inr w] by blast
        note sp = sys_write_spec(1) [OF s] sys_write_spec(2) [OF s Inr]
        have "busy_only out \<longrightarrow> busy_only out1" using sp(1) by (auto simp: busy_only_def)
        then show ?thesis using j sp by (intro exI [of _ "k + j"]) auto
      qed
    qed
  qed

lemma write_buffer_spec:
  assumes "buf_ok buf" "offset \<le> blength buf" "obus_io_write_buffer io buf offset = (r, n, io')"
  shows "\<exists>out. io' = io\<lparr>fd_out := out, fd_sent := fd_sent io @ take n (drop offset (content buf))\<rparr> \<and> offset + n \<le> blength buf
    \<and> (r = Inr () \<longrightarrow> offset + n = blength buf) \<and> set out \<subseteq> set (fd_out io) \<and> (busy_only (fd_out io) \<longrightarrow> r \<noteq> Inr () \<longrightarrow> r = Inl EAGAIN)
    \<and> (r = Inl FAULT \<longrightarrow> Refuse FAULT \<in> set (fd_out io))"
proof -
  let ?bs = "drop offset (content buf)"
  obtain out where w: "write_loop (fd_out io) ?bs 0 = (r, n, out)" "io' = io\<lparr>fd_out := out, fd_sent := fd_sent io @ take n ?bs\<rparr>"
    using assms(2,3) by (auto simp: obus_io_write_buffer_def content_def Let_def split: prod.splits)
  obtain k where k: "n = 0 + k" "k \<le> length ?bs" "r = Inr () \<longrightarrow> k = length ?bs" "set out \<subseteq> set (fd_out io)"
    "busy_only (fd_out io) \<longrightarrow> r \<noteq> Inr () \<longrightarrow> r = Inl EAGAIN" "\<forall>e. r = Inl e \<longrightarrow> e = EAGAIN \<or> Refuse e \<in> set (fd_out io)"
    using write_loop_spec [OF w(1)] by blast
  have "offset + n \<le> blength buf" "r = Inr () \<longrightarrow> offset + n = blength buf" using k(1-3) assms(1,2) by auto
  then show ?thesis using w(2) k(4-6) by blast
qed

section \<open>Submitting a buffer\<close>

lemma queued_cong:
  assumes "write_buffers io' = write_buffers io"
    "\<And>p. p \<in> set (write_buffers io) \<Longrightarrow> content (the (io_bufs io' p)) = content (the (io_bufs io p))"
  shows "queued io' = queued io"
  using assms by (simp add: queued_def cong: map_cong)

lemma content_ref [simp]: "content (obus_buffer_ref b) = content b" "buf_ok (obus_buffer_ref b) = buf_ok b" "blength (obus_buffer_ref b) = blength b"
  by (simp_all add: content_def buf_ok_def obus_buffer_ref_def)

lemma enqueue_ok:
  assumes "io_ok io" "io_bufs io p = Some b" "buf_ok b" "1 \<le> brefcnt b" "p \<notin> set (write_buffers io)" "write_buffers io = [] \<Longrightarrow> n \<le> blength b"
    "write_buffers io \<noteq> [] \<Longrightarrow> n = nbr_written io"
  defines "io' \<equiv> io\<lparr>io_bufs := (io_bufs io)(p \<mapsto> obus_buffer_ref b), write_buffers := write_buffers io @ [p], nbr_written := n\<rparr>"
  shows "io_ok io'" "pending io' = (if write_buffers io = [] then drop n (content b) else pending io @ content b)"
proof -
  have q: "queued io' = queued io @ content b" using assms(5)
    by (auto simp: queued_def io'_def intro!: arg_cong [of _ _ concat] map_cong)
  have "io_ok io'" if "write_buffers io = []" using that assms by (auto simp: io_ok_def obus_buffer_ref_def buf_ok_def)
  moreover have "io_ok io'" if "write_buffers io \<noteq> []"
    using that assms(1-5,7) unfolding io_ok_def io'_def
    by (auto simp: obus_buffer_ref_def buf_ok_def neq_Nil_conv)
  ultimately show "io_ok io'" by blast
  have n: "nbr_written io' = n" by (simp add: io'_def)
  have "nbr_written io \<le> length (queued io)" if "write_buffers io \<noteq> []"
  proof -
    from that obtain x xs where x: "write_buffers io = x # xs" by (meson neq_Nil_conv)
    then obtain b' where "io_bufs io x = Some b'" "buf_ok b'" using assms(1) by (auto simp: io_ok_def)
    then show ?thesis using assms(1) x by (simp add: io_ok_def queued_def)
  qed
  then show "pending io' = (if write_buffers io = [] then drop n (content b) else pending io @ content b)"
    using q n assms(7) by (auto simp: pending_def) (simp add: queued_def)
qed

text \<open>
  What a write does: the packet is taken (written or queued) and its bytes follow all those before
  it, or it is not taken and the queue is as it was.
\<close>

definition outcome :: "obus_io \<Rightarrow> addr \<Rightarrow> obus_buffer \<Rightarrow> unit res \<Rightarrow> obus_io \<Rightarrow> bool" where
  "outcome io p b r io' \<longleftrightarrow> io_ok io' \<and>
     (if r = Inr () then write_buffers io' = [] \<and> write_buffers io = [] \<and> fd_sent io' = fd_sent io @ content b
      else if r = Inl EAGAIN then write_buffers io' = write_buffers io @ [p] \<and> fd_sent io' @ pending io' = fd_sent io @ pending io @ content b
      else write_buffers io' = write_buffers io \<and> (\<exists>k. fd_sent io' = fd_sent io @ take k (content b)))"

lemma write_behind:
  assumes "io_ok io" "p \<noteq> 0" "io_bufs io p = Some b" "buf_ok b" "1 \<le> brefcnt b" "p \<notin> set (write_buffers io)" "write_buffers io \<noteq> []"
    "obus_io_write m io p = (r, io')"
  shows "outcome io p b r io'"
proof (cases "alloc_ok m sizeof_io_buffer")
  case True
  let ?io = "io\<lparr>io_bufs := (io_bufs io)(p \<mapsto> obus_buffer_ref b), write_buffers := write_buffers io @ [p], nbr_written := nbr_written io\<rparr>"
  have "(r, io') = (Inl EAGAIN, ?io)" using assms(2,3,7,8) True by (auto simp: obus_io_write_def obus_io_buffer_new_def io_ref_def)
  then show ?thesis using enqueue_ok [OF assms(1,3-6), of "nbr_written io"] assms(7) by (simp add: outcome_def)
next
  case False
  then have "r = Inl ENOMEM" "io' = io" using assms(2,7,8) by (simp_all add: obus_io_write_def obus_io_buffer_new_def)
  then show ?thesis using assms(1) by (auto simp: outcome_def intro!: exI [of _ 0])
qed

lemma write_first:
  assumes "io_ok io" "p \<noteq> 0" "io_bufs io p = Some b" "buf_ok b" "1 \<le> brefcnt b" "write_buffers io = []"
    "obus_io_write m io p = (r, io')"
  shows "outcome io p b r io'"
proof -
  have pe: "pending io = []" using assms(6) by (simp add: pending_def queued_def)
  obtain r1 n io1 where w: "obus_io_write_buffer io b 0 = (r1, n, io1)" using prod_cases3 by blast
  obtain out where s: "io1 = io\<lparr>fd_out := out, fd_sent := fd_sent io @ take n (content b)\<rparr>" "n \<le> blength b" "r1 = Inr () \<longrightarrow> n = blength b"
    using write_buffer_spec [OF assms(4) _ w] by auto
  have ok1: "io_ok io1" "io_bufs io1 p = Some b" "write_buffers io1 = []" using assms(1,3,6) s(1) by (simp_all add: io_ok_def)
  show ?thesis
  proof (cases "r1 = Inl EAGAIN")
    case False
    then have "r = r1" "io' = io1" using assms(2,3,6,7) w by (auto simp: obus_io_write_def)
    then show ?thesis using ok1 False s assms(4,6) by (auto simp: outcome_def)
  next
    case ag: True
    show ?thesis
    proof (cases "alloc_ok m sizeof_io_buffer")
      case True
      let ?io = "io1\<lparr>io_bufs := (io_bufs io1)(p \<mapsto> obus_buffer_ref b), write_buffers := write_buffers io1 @ [p], nbr_written := n\<rparr>"
      have "io' = ?io\<lparr>write_watched := watchable io1, write_timer := write_ready_timeout io1\<rparr>" "r = Inl EAGAIN"
        using assms(2,3,6,7) w ag True ok1 by (auto simp: obus_io_write_def obus_io_buffer_new_def io_ref_def)
      moreover have "io_ok ?io" "pending ?io = drop n (content b)"
        using enqueue_ok [OF ok1(1,2) assms(4,5), of n] ok1(3) s(2) by simp_all
      ultimately show ?thesis using pe s(1) assms(6) ok1(3) by (simp add: outcome_def io_ok_def pending_def queued_def)
    next
      case False
      then have "io' = io1" "r = Inl ENOMEM" using assms(2,3,6,7) w ag by (auto simp: obus_io_write_def obus_io_buffer_new_def)
      then show ?thesis using ok1(1) s(1) assms(6) by (auto simp: outcome_def)
    qed
  qed
qed

lemma io_write_outcome:
  assumes "io_ok io" "p \<noteq> 0" "io_bufs io p = Some b" "buf_ok b" "1 \<le> brefcnt b" "p \<notin> set (write_buffers io)"
    "obus_io_write m io p = (r, io')"
  shows "outcome io p b r io'"
  using assms write_behind write_first by blast

section \<open>The descriptor is ready\<close>

lemma pending_Cons:
  assumes "io_ok io" "write_buffers io = p # ps" "io_bufs io p = Some b"
  shows "pending io = drop (nbr_written io) (content b) @ concat (map (\<lambda>p. content (the (io_bufs io p))) ps)"
  using assms by (auto simp: io_ok_def pending_def queued_def)

lemma complete_ok:
  assumes "io_ok io" "cb_ok cb" "write_buffers io = p # ps"
  obtains io' where "obus_io_write_buffer_complete cb io status = (Inr (), io')" "io_ok io'" "write_buffers io' = ps"
    "pending io' = concat (map (\<lambda>p. content (the (io_bufs io p))) ps)" "fd_sent io' = fd_sent io" "fd_out io' = fd_out io"
    "write_ready_timeout io' = write_ready_timeout io"
proof -
  obtain b where b: "io_bufs io p = Some b" "buf_ok b" "2 \<le> brefcnt b" using assms(1,3) by (auto simp: io_ok_def)
  let ?io = "io\<lparr>io_bufs := (io_bufs io)(p \<mapsto> b\<lparr>brefcnt := brefcnt b - 1\<rparr>), write_buffers := ps, nbr_written := 0\<rparr>"
  have c: "obus_io_write_buffer_complete cb io status = (Inr (), cb status p ?io)"
    using assms(3) b by (auto simp: obus_io_write_buffer_complete_def io_unref_def obus_buffer_unref_def Let_def)
  define io' where "io' = cb status p ?io"
  have k: "io_alive io' = io_alive io" "write_buffers io' = ps" "nbr_written io' = 0" "fd_out io' = fd_out io" "fd_sent io' = fd_sent io"
    "write_ready_timeout io' = write_ready_timeout io" "\<And>q. q \<noteq> p \<Longrightarrow> io_bufs io' q = io_bufs io q"
    using assms(2) by (simp_all add: cb_ok_def io'_def)
  have np: "q \<noteq> p" if "q \<in> set ps" for q using assms(1,3) that by (auto simp: io_ok_def)
  then have "io_ok io'" using assms(1,3) k by (auto simp: io_ok_def)
  moreover have "pending io' = concat (map (\<lambda>p. content (the (io_bufs io p))) ps)"
    using k(2,3,7) np by (auto simp: pending_def queued_def intro!: arg_cong [of _ _ concat] map_cong)
  ultimately show thesis using that c k by (simp add: io'_def)
qed

lemma write_pending_ok:
  assumes "io_ok io" "cb_ok cb" "busy_only (fd_out io)"
  shows "\<exists>io'. write_pending cb io = Some (Inr (), io') \<and> io_ok io' \<and> fd_sent io' @ pending io' = fd_sent io @ pending io
    \<and> suffix (write_buffers io') (write_buffers io) \<and> write_ready_timeout io' = write_ready_timeout io"
  using assms(1,3)
proof (induction "write_buffers io" arbitrary: io)
  case Nil
  then show ?case by (subst write_pending.simps) (auto simp: io_ok_def)
next
  case (Cons p ps)
  obtain b where b: "io_bufs io p = Some b" "buf_ok b" "nbr_written io \<le> blength b" "io_alive io"
    using Cons.prems(1) Cons.hyps(2) [symmetric] by (auto simp: io_ok_def)
  obtain r n io1 where w: "obus_io_write_buffer io b (nbr_written io) = (r, n, io1)" using prod_cases3 by blast
  obtain out where s: "io1 = io\<lparr>fd_out := out, fd_sent := fd_sent io @ take n (drop (nbr_written io) (content b))\<rparr>"
    "nbr_written io + n \<le> blength b" "r = Inr () \<longrightarrow> nbr_written io + n = blength b" "set out \<subseteq> set (fd_out io)"
    "r \<noteq> Inr () \<longrightarrow> r = Inl EAGAIN"
    using write_buffer_spec [OF b(2,3) w] Cons.prems(2) by blast
  have busy: "busy_only (fd_out io1)" using s(1,4) Cons.prems(2) by (auto simp: busy_only_def)
  have ok1: "io_ok io1" "write_buffers io1 = p # ps" using Cons.prems(1) Cons.hyps(2) s(1) by (simp_all add: io_ok_def)
  note pc = pending_Cons [OF Cons.prems(1) Cons.hyps(2) [symmetric] b(1)]
  show ?case
  proof (cases "r = Inr ()")
    case False
    then have r: "r = Inl EAGAIN" using s(5) by simp
    let ?io = "io1\<lparr>nbr_written := sz (nbr_written io1 + n)\<rparr>"
    have z: "sz (nbr_written io1 + n) = nbr_written io + n" using s(1,2) buf_okD [OF b(2)] by simp
    have res: "write_pending cb io = Some (Inr (), ?io)"
      using b(1,4) Cons.hyps(2) [symmetric] w r by (subst write_pending.simps) simp
    have ok: "io_ok ?io" unfolding z using ok1 s(1,2) b(1) by (auto simp: io_ok_def)
    have "pending ?io = drop (nbr_written io + n) (content b) @ concat (map (\<lambda>p. content (the (io_bufs io p))) ps)"
      using pending_Cons [OF ok, of p ps b] ok1(2) s(1) b(1) z by simp
    moreover have "take n (drop (nbr_written io) (content b)) @ drop (nbr_written io + n) (content b) = drop (nbr_written io) (content b)"
      by (metis append_take_drop_id drop_drop add.commute)
    ultimately have "fd_sent ?io @ pending ?io = fd_sent io @ pending io" using pc s(1) by simp
    then show ?thesis using res ok ok1(2) Cons.hyps(2) s(1) by auto
  next
    case True
    obtain io2 where io2: "obus_io_write_buffer_complete cb io1 OBUS_IO_OK = (Inr (), io2)" "io_ok io2" "write_buffers io2 = ps"
      "pending io2 = concat (map (\<lambda>p. content (the (io_bufs io1 p))) ps)" "fd_sent io2 = fd_sent io1" "fd_out io2 = fd_out io1"
      "write_ready_timeout io2 = write_ready_timeout io1"
      by (rule complete_ok [OF ok1(1) assms(2) ok1(2)])
    have res: "write_pending cb io = write_pending cb io2"
      using b(1,4) Cons.hyps(2) [symmetric] w True io2(1) by (subst write_pending.simps) simp
    obtain io' where io': "write_pending cb io2 = Some (Inr (), io')" "io_ok io'" "fd_sent io' @ pending io' = fd_sent io2 @ pending io2"
      "suffix (write_buffers io') ps" "write_ready_timeout io' = write_ready_timeout io2"
      using Cons.hyps(1) [of io2] io2(2,3,6) busy by auto
    have "take n (drop (nbr_written io) (content b)) = drop (nbr_written io) (content b)" using s(3) True b(2) by simp
    then have "fd_sent io2 @ pending io2 = fd_sent io @ pending io" using pc io2(4,5) s(1) by simp
    then show ?thesis using res io' io2(7) s(1) Cons.hyps(2) [symmetric] by (auto simp: suffix_ConsI)
  qed
qed

section \<open>First in, first out\<close>

text \<open>
  The steps of an io: a packet is taken, the descriptor turns ready, or the rest of the program
  works with buffers that are not queued (and the descriptor changes its mind). The bytes are those
  of the packets taken, in the order of the writes.
\<close>

inductive io_steps :: "memory \<Rightarrow> write_cb \<Rightarrow> obus_io \<Rightarrow> u8 list \<Rightarrow> obus_io \<Rightarrow> bool" for m cb io where
  start: "io_steps m cb io [] io"
| taken: "io_steps m cb io bs io1 \<Longrightarrow> p \<noteq> 0 \<Longrightarrow> io_bufs io1 p = Some b \<Longrightarrow> buf_ok b \<Longrightarrow> 1 \<le> brefcnt b \<Longrightarrow>
    p \<notin> set (write_buffers io1) \<Longrightarrow> obus_io_write m io1 p = (r, io2) \<Longrightarrow> r = Inr () \<or> r = Inl EAGAIN \<Longrightarrow>
    io_steps m cb io (bs @ content b) io2"
| ready: "io_steps m cb io bs io1 \<Longrightarrow> busy_only (fd_out io1) \<Longrightarrow> \<not> obus_fd_event_error events \<Longrightarrow>
    obus_io_write_events cb io1 events = Some (r, io2) \<Longrightarrow> io_steps m cb io bs io2"
| other: "io_steps m cb io bs io1 \<Longrightarrow> (\<And>p. p \<in> set (write_buffers io1) \<Longrightarrow> bufs p = io_bufs io1 p) \<Longrightarrow>
    io_steps m cb io bs (io1\<lparr>io_bufs := bufs, io_pool := pool, fd_out := out\<rparr>)"

lemma write_events_ok:
  assumes "io_ok io" "cb_ok cb" "busy_only (fd_out io)" "\<not> obus_fd_event_error events"
  shows "\<exists>io'. obus_io_write_events cb io events = Some (Inr (), io') \<and> io_ok io' \<and> fd_sent io' @ pending io' = fd_sent io @ pending io
    \<and> suffix (write_buffers io') (write_buffers io)
    \<and> (obus_fd_event_write events \<longrightarrow> (if write_buffers io' = [] then \<not> write_watched io' else write_timer io' = write_ready_timeout io))"
proof (cases "obus_fd_event_write events")
  case False
  then show ?thesis using assms(1,4) by (simp add: obus_io_write_events_def Let_def io_ok_def pending_def queued_def)
next
  case True
  let ?io = "io\<lparr>write_timer := 0\<rparr>"
  have ok: "io_ok ?io" "pending ?io = pending io" using assms(1) by (simp_all add: io_ok_def pending_def queued_def)
  obtain io1 where io1: "write_pending cb ?io = Some (Inr (), io1)" "io_ok io1" "fd_sent io1 @ pending io1 = fd_sent io @ pending io"
    "suffix (write_buffers io1) (write_buffers io)" "write_ready_timeout io1 = write_ready_timeout io"
    using write_pending_ok [OF ok(1) assms(2)] assms(3) ok(2) by auto
  let ?io' = "if write_buffers io1 \<noteq> [] then io1\<lparr>write_timer := write_ready_timeout io1\<rparr> else io1\<lparr>write_watched := False\<rparr>"
  have "obus_io_write_events cb io events = Some (Inr (), ?io')" using True assms(4) io1(1) by (simp add: obus_io_write_events_def Let_def)
  moreover have "io_ok ?io'" "pending ?io' = pending io1" using io1(2) by (simp_all add: io_ok_def pending_def queued_def)
  ultimately show ?thesis using io1(3-5) True by auto
qed

lemma io_other_ok:
  assumes "io_ok io" "\<And>p. p \<in> set (write_buffers io) \<Longrightarrow> bufs p = io_bufs io p"
  shows "io_ok (io\<lparr>io_bufs := bufs, io_pool := pool, fd_out := out\<rparr>)"
    "pending (io\<lparr>io_bufs := bufs, io_pool := pool, fd_out := out\<rparr>) = pending io"
proof -
  let ?io = "io\<lparr>io_bufs := bufs, io_pool := pool, fd_out := out\<rparr>"
  show "io_ok ?io" using assms by (auto simp: io_ok_def)
  have "queued ?io = queued io" by (rule queued_cong) (use assms(2) in simp_all)
  then show "pending ?io = pending io" by (simp add: pending_def)
qed


text \<open>
  The handler of a ready descriptor returns, whatever the descriptor takes, and leaves the io in
  order: some of the first packets are complete and their callbacks called, the bytes taken are
  exactly the next ones; the timer runs when there is more to write, and the descriptor is not
  watched any more when there is not.
\<close>

theorem write_events_progress:
  assumes "io_ok io" "cb_ok cb" "busy_only (fd_out io)" "\<not> obus_fd_event_error events" "obus_fd_event_write events"
  shows "\<exists>io'. obus_io_write_events cb io events = Some (Inr (), io') \<and> io_ok io' \<and> fd_sent io' @ pending io' = fd_sent io @ pending io
    \<and> suffix (write_buffers io') (write_buffers io)
    \<and> (if write_buffers io' = [] then \<not> write_watched io' else write_timer io' = write_ready_timeout io)"
  using write_events_ok [OF assms(1-4)] assms(5) by blast

section \<open>Where it fails\<close>

text \<open>The part of the callbacks of clients and servers that concerns the io.\<close>

definition user_done :: write_cb where
  "user_done status p io =
     (let io = snd (io_unref io p) in if status \<noteq> OBUS_IO_OK then snd (obus_io_destroy io) else io)"

lemma unref_all_ok:
  assumes "distinct ps" "\<forall>p\<in>set ps. \<exists>b. io_bufs io p = Some b \<and> 2 \<le> brefcnt b"
  shows "unref_all ps io = (Inr (), io\<lparr>io_bufs := \<lambda>p. if p \<in> set ps then map_option (\<lambda>b. b\<lparr>brefcnt := brefcnt b - 1\<rparr>) (io_bufs io p) else io_bufs io p\<rparr>)"
  using assms
proof (induction ps arbitrary: io)
  case (Cons p ps)
  obtain b where b: "io_bufs io p = Some b" "2 \<le> brefcnt b" using Cons.prems(2) by auto
  let ?io = "io\<lparr>io_bufs := (io_bufs io)(p \<mapsto> b\<lparr>brefcnt := brefcnt b - 1\<rparr>)\<rparr>"
  have u: "io_unref io p = (Inr (), ?io)" using b by (auto simp: io_unref_def obus_buffer_unref_def Let_def)
  have "unref_all ps ?io = (Inr (), ?io\<lparr>io_bufs := \<lambda>q. if q \<in> set ps then map_option (\<lambda>b. b\<lparr>brefcnt := brefcnt b - 1\<rparr>) (io_bufs ?io q) else io_bufs ?io q\<rparr>)"
    by (rule Cons.IH) (use Cons.prems in auto)
  moreover have "(\<lambda>q. if q \<in> set ps then map_option (\<lambda>b. b\<lparr>brefcnt := brefcnt b - 1\<rparr>) (io_bufs ?io q) else io_bufs ?io q) =
      (\<lambda>q. if q \<in> set (p # ps) then map_option (\<lambda>b. b\<lparr>brefcnt := brefcnt b - 1\<rparr>) (io_bufs io q) else io_bufs io q)"
    using b(1) Cons.prems(1) by (auto simp: fun_eq_iff)
  ultimately show ?case using u by simp
qed simp

lemma destroy_ok:
  assumes "distinct (write_buffers io)" "\<forall>p\<in>set (write_buffers io). \<exists>b. io_bufs io p = Some b \<and> 2 \<le> brefcnt b"
  shows "obus_io_destroy io = (Inr (), io\<lparr>read_watched := False, write_watched := False, write_buffers := [], write_timer := 0, io_alive := False,
    io_bufs := \<lambda>p. if p \<in> set (write_buffers io) then map_option (\<lambda>b. b\<lparr>brefcnt := brefcnt b - 1\<rparr>) (io_bufs io p) else io_bufs io p\<rparr>)"
  using unref_all_ok [of "write_buffers io" "io\<lparr>read_watched := False, write_watched := False\<rparr>"] assms by (simp add: obus_io_destroy_def cong: if_cong)

lemma user_done_destroys:
  assumes "io_ok io" "p \<notin> set (write_buffers io)"
  shows "\<not> io_alive (user_done OBUS_IO_ERROR p io)"
proof -
  let ?io = "snd (io_unref io p)"
  have k: "write_buffers ?io = write_buffers io" "q \<noteq> p \<Longrightarrow> io_bufs ?io q = io_bufs io q" for q
    by (simp_all add: io_unref_def split: option.split prod.split)
  have "distinct (write_buffers ?io)" "\<forall>q\<in>set (write_buffers ?io). \<exists>b. io_bufs ?io q = Some b \<and> 2 \<le> brefcnt b"
    unfolding k(1) using assms k(2) by (auto simp: io_ok_def) (metis k(2))
  then show ?thesis using destroy_ok [of ?io] by (simp add: user_done_def Let_def)
qed

text \<open>
  C37. A write that fails while the queue is written makes the handler use an io that is gone. When
  the descriptor refuses a queued packet for another reason than being busy, the callback is called
  with an error; the callbacks of clients and servers then destroy the io, and the loop of
  \<open>obus_io_write_events\<close> goes on with it.
\<close>

theorem failed_write_uses_destroyed_io:
  assumes "io_ok io" "write_buffers io = p # ps" "io_bufs io p = Some b" "nbr_written io < blength b" "fd_out io = Refuse e # out"
    "e \<notin> {EAGAIN, EINTR, FAULT}" "\<not> obus_fd_event_error events" "obus_fd_event_write events"
  shows "\<exists>io'. obus_io_write_events user_done io events = Some (Inl FAULT, io')"
proof -
  have b: "buf_ok b" "2 \<le> brefcnt b" "io_alive io" using assms(1-3) by (auto simp: io_ok_def)
  have "drop (nbr_written io) (take (blength b) (bdata b)) \<noteq> []"
    using assms(4) length_content [OF b(1)] by (simp add: content_def)
  then have w: "obus_io_write_buffer (io\<lparr>write_timer := 0\<rparr>) b (nbr_written io) = (Inl e, 0, io\<lparr>write_timer := 0, fd_out := out\<rparr>)"
    using assms(4-6) by (simp add: obus_io_write_buffer_def Let_def write_loop.simps)
  let ?io = "io\<lparr>write_timer := 0, fd_out := out, io_bufs := (io_bufs io)(p \<mapsto> b\<lparr>brefcnt := brefcnt b - 1\<rparr>), write_buffers := ps, nbr_written := 0\<rparr>"
  have c: "obus_io_write_buffer_complete user_done (io\<lparr>write_timer := 0, fd_out := out\<rparr>) OBUS_IO_ERROR = (Inr (), user_done OBUS_IO_ERROR p ?io)"
    using assms(2,3) b(2) by (auto simp: obus_io_write_buffer_complete_def io_unref_def obus_buffer_unref_def Let_def)
  have "io_ok ?io" using assms(1,2) by (auto simp: io_ok_def)
  then have dead: "\<not> io_alive (user_done OBUS_IO_ERROR p ?io)" by (rule user_done_destroys) (use assms(1,2) in \<open>auto simp: io_ok_def\<close>)
  have "write_pending user_done (io\<lparr>write_timer := 0\<rparr>) = write_pending user_done (user_done OBUS_IO_ERROR p ?io)"
    using assms(2,3,6) b(3) w c by (subst write_pending.simps) simp
  also have "\<dots> = Some (Inl FAULT, user_done OBUS_IO_ERROR p ?io)" using dead by (subst write_pending.simps) simp
  finally show ?thesis using assms(7,8) by (simp add: obus_io_write_events_def Let_def)
qed

text \<open>
  Destroying an io loses the buffers in its queue: the reference of the queue is dropped but the
  submitter, whose callback is not called, never drops its own, so no buffer goes back to the pool.
\<close>

theorem destroy_keeps_submitted:
  assumes "io_ok io"
  shows "\<exists>io'. obus_io_destroy io = (Inr (), io') \<and> \<not> io_alive io' \<and> write_buffers io' = [] \<and> io_pool io' = io_pool io
    \<and> (\<forall>p\<in>set (write_buffers io). \<exists>b b'. io_bufs io p = Some b \<and> io_bufs io' p = Some b' \<and> brefcnt b' = brefcnt b - 1 \<and> 1 \<le> brefcnt b')"
proof -
  have d: "distinct (write_buffers io)" "\<forall>p\<in>set (write_buffers io). \<exists>b. io_bufs io p = Some b \<and> 2 \<le> brefcnt b"
    using assms by (auto simp: io_ok_def)
  show ?thesis using d(2) destroy_ok [OF d] by fastforce
qed

section \<open>Examples\<close>

definition keep_done :: write_cb where
  "keep_done status p io = snd (io_unref io p)"

lemma keep_done_ok: "cb_ok keep_done"
  by (auto simp: cb_ok_def keep_done_def io_unref_def obus_buffer_unref_def Let_def split: option.split)

definition sample_io :: "io_output list \<Rightarrow> obus_io" where
  "sample_io out = \<lparr>lograw = False, nbr_written = 1, write_buffers = [1, 2], write_timer = 5000, write_ready_timeout = 5000,
     read_watched = True, write_watched = True, io_alive = True, watchable = True, fd_out = out, fd_sent = [10],
     io_bufs = [1 \<mapsto> (buffer_of [10, 11, 12])\<lparr>brefcnt := 2, bpool := True\<rparr>, 2 \<mapsto> (buffer_of [20, 21])\<lparr>brefcnt := 2, bpool := True\<rparr>,
       3 \<mapsto> (buffer_of [30])\<lparr>bpool := True\<rparr>], io_pool = obus_buffer_pool_init 1024\<rparr>"

lemma sample_io_ok: "io_ok (sample_io out)" "pending (sample_io out) = [11, 12, 20, 21]"
  by (auto simp: sample_io_def io_ok_def pending_def queued_def buffer_of_def buf_ok_def content_def)

lemma out_event: "\<not> obus_fd_event_error 2" "obus_fd_event_write 2"
  by (simp_all add: obus_fd_event_error_def obus_fd_event_write_def OBUS_FD_ERR_def OBUS_FD_HUP_def OBUS_FD_OUT_def)

lemma write_events_progress_witness:
  "\<exists>io'. obus_io_write_events keep_done (sample_io [Take 1, Refuse EINTR, Take 2, Refuse EAGAIN]) 2 = Some (Inr (), io')
    \<and> fd_sent io' @ pending io' = [10, 11, 12, 20, 21]"
proof -
  let ?io = "sample_io [Take 1, Refuse EINTR, Take 2, Refuse EAGAIN]"
  have "busy_only (fd_out ?io)" "fd_sent ?io = [10]" by (simp_all add: busy_only_def sample_io_def)
  then show ?thesis
    using write_events_progress [OF sample_io_ok(1) keep_done_ok _ out_event, of "[Take 1, Refuse EINTR, Take 2, Refuse EAGAIN]"] sample_io_ok(2)
    by auto
qed

lemma failed_write_uses_destroyed_io_witness:
  "\<exists>io'. obus_io_write_events user_done (sample_io [Refuse EPIPE]) 2 = Some (Inl FAULT, io')"
  by (rule failed_write_uses_destroyed_io [OF sample_io_ok(1), of _ 1 "[2]" "(buffer_of [10, 11, 12])\<lparr>brefcnt := 2, bpool := True\<rparr>" EPIPE "[]" 2])
    (simp_all add: sample_io_def buffer_of_def out_event)

lemma destroy_keeps_submitted_witness:
  "\<exists>io' b. obus_io_destroy (sample_io []) = (Inr (), io') \<and> free_bufs (io_pool io') = [] \<and> io_bufs io' 2 = Some b \<and> brefcnt b = 1"
proof -
  have "io_bufs (sample_io []) 2 = Some ((buffer_of [20, 21])\<lparr>brefcnt := 2, bpool := True\<rparr>)" "2 \<in> set (write_buffers (sample_io []))"
    "free_bufs (io_pool (sample_io [])) = []"
    by (simp_all add: sample_io_def obus_buffer_pool_init_def)
  then show ?thesis using destroy_keeps_submitted [OF sample_io_ok(1), of "[]"] by fastforce
qed


end
