(* ===== verification/Obus_Packet.thy ===== *)
theory Obus_Packet
  imports Obus_Bus_Event Obus_Io
begin

text \<open>
  Packets: \<open>obus_packet.c\<close>. A packet is a header (a magic
  word, the size of the whole packet, a type) and a payload. The first part holds the encoders,
  the decoders of the payloads and the decoder that finds packets in a stream of bytes; the
  others show that every encoder makes a well-formed packet, what the search for a header does,
  and that packets come out of the decoder however the stream is cut into pieces.
\<close>

section \<open>Data\<close>

definition OBUS_PROTOCOL_VERSION :: u8 where "OBUS_PROTOCOL_VERSION = 2"

datatype obus_packet_type = OBUS_PKT_CONREQ | OBUS_PKT_CONRESP | OBUS_PKT_ADD | OBUS_PKT_REMOVE
  | OBUS_PKT_BUS_EVENT | OBUS_PKT_EVENT | OBUS_PKT_CALL | OBUS_PKT_ACK

text \<open>The enumerators in the order of their values; \<open>OBUS_PKT_COUNT\<close> is their number.\<close>

definition packet_types :: "obus_packet_type list" where
  "packet_types = [OBUS_PKT_CONREQ, OBUS_PKT_CONRESP, OBUS_PKT_ADD, OBUS_PKT_REMOVE,
     OBUS_PKT_BUS_EVENT, OBUS_PKT_EVENT, OBUS_PKT_CALL, OBUS_PKT_ACK]"

definition OBUS_PKT_COUNT :: u8 where "OBUS_PKT_COUNT = 8"

fun type_code :: "obus_packet_type \<Rightarrow> u8" where
  "type_code OBUS_PKT_CONREQ = 0"
| "type_code OBUS_PKT_CONRESP = 1"
| "type_code OBUS_PKT_ADD = 2"
| "type_code OBUS_PKT_REMOVE = 3"
| "type_code OBUS_PKT_BUS_EVENT = 4"
| "type_code OBUS_PKT_EVENT = 5"
| "type_code OBUS_PKT_CALL = 6"
| "type_code OBUS_PKT_ACK = 7"

record obus_packet_conreq =
  cr_version :: u8
  cr_bus :: "u8 list option"
  cr_crc :: u32
  cr_client :: "u8 list option"

definition OBUS_CONRESP_ACCEPTED :: u8 where "OBUS_CONRESP_ACCEPTED = 0"

definition OBUS_CONRESP_REFUSED :: u8 where "OBUS_CONRESP_REFUSED = 1"

definition OBUS_CONRESP_STATUS_COUNT :: u8 where "OBUS_CONRESP_STATUS_COUNT = 2"

definition obus_conresp_status_str :: "u8 \<Rightarrow> string" where
  "obus_conresp_status_str status =
     (if status \<ge> OBUS_CONRESP_STATUS_COUNT then ''<INVALID>'' else [''ACCEPTED'', ''REFUSED''] ! unat status)"

record obus_packet_conresp =
  rs_status :: u8
  rs_objects :: "addr list"

record obus_ack =
  ack_handle :: u16
  ack_status :: u32

text \<open>The type of a packet selects the member of the union.\<close>

datatype obus_packet_info =
    Conreq obus_packet_conreq
  | Conresp obus_packet_conresp
  | Add addr
  | Remove addr
  | Bus_Event addr
  | Event addr
  | Call addr
  | Ack obus_ack

record obus_packet_header =
  hdr_magic :: u32
  hdr_size :: u32
  hdr_type :: u8

record obus_packet_decoder =
  d_hdr :: obus_packet_header
  d_hdr_valid :: bool
  d_buf :: obus_buffer
  d_in :: "io_input list"
  d_log_hdr :: bool

definition obus_magic :: u32 where "obus_magic = 0x6F627573"

definition OBUS_PKT_HDR_SIZE :: nat where "OBUS_PKT_HDR_SIZE = 9"

section \<open>Encoders\<close>

definition obus_packet_encode_header :: "memory \<Rightarrow> obus_buffer \<Rightarrow> u8 \<Rightarrow> unit res \<times> obus_buffer" where
  "obus_packet_encode_header m buf ty =
     chk (obus_buffer_write_u32 m buf obus_magic 0) (\<lambda>_ buf.
     chk (obus_buffer_write_u32 m buf (of_nat (blength buf)) 4) (\<lambda>_ buf.
     obus_buffer_write_u8 m buf ty 8))"

text \<open>
  What all encoders have in common: clear the buffer, leave room for the header, encode the
  payload and fill in the header.
\<close>

definition packet_encode ::
  "memory \<Rightarrow> obus_packet_type \<Rightarrow> (obus_buffer \<Rightarrow> unit res \<times> obus_buffer) \<Rightarrow> obus_buffer \<Rightarrow> unit res \<times> obus_buffer" where
  "packet_encode m ty encode buf =
     chk (obus_buffer_reserve m (obus_buffer_clear buf) OBUS_PKT_HDR_SIZE) (\<lambda>_ buf.
     chk (encode buf) (\<lambda>_ buf.
     obus_packet_encode_header m buf (type_code ty)))"

definition obus_packet_conreq_encode ::
  "memory \<Rightarrow> obus_buffer \<Rightarrow> u8 list option \<Rightarrow> u8 list option \<Rightarrow> u32 \<Rightarrow> unit res \<times> obus_buffer" where
  "obus_packet_conreq_encode m buf client bus bcrc =
     packet_encode m OBUS_PKT_CONREQ (\<lambda>buf.
       chk (obus_buffer_append_u8 m buf OBUS_PROTOCOL_VERSION) (\<lambda>_ buf.
       chk (obus_buffer_append_string m buf bus) (\<lambda>_ buf.
       chk (obus_buffer_append_u32 m buf bcrc) (\<lambda>_ buf.
       obus_buffer_append_string m buf client)))) buf"

text \<open>The list of objects may be NULL.\<close>

definition obus_packet_conresp_encode ::
  "memory \<Rightarrow> bus_state \<Rightarrow> obus_buffer \<Rightarrow> u8 \<Rightarrow> addr list option \<Rightarrow> unit res \<times> obus_buffer" where
  "obus_packet_conresp_encode m s buf status objects =
     (let objects = (case objects of None \<Rightarrow> [] | Some xs \<Rightarrow> xs) in
      packet_encode m OBUS_PKT_CONRESP (\<lambda>buf.
        chk (obus_buffer_append_u8 m buf status) (\<lambda>_ buf.
        chk (obus_buffer_append_u32 m buf (of_nat (length objects))) (\<lambda>_ buf.
        if (of_nat (length objects) :: u32) > 0
        then encode_all (obus_object_add_encode m) (map (objs s) objects) buf
        else (Inr (), buf)))) buf)"

definition obus_packet_add_encode :: "memory \<Rightarrow> bus_state \<Rightarrow> obus_buffer \<Rightarrow> addr \<Rightarrow> unit res \<times> obus_buffer" where
  "obus_packet_add_encode m s buf p =
     (if p = 0 then (Inl EINVAL, buf)
      else case objs s p of None \<Rightarrow> (Inl FAULT, buf)
      | Some obj \<Rightarrow> packet_encode m OBUS_PKT_ADD (obus_object_add_encode m obj) buf)"

definition obus_packet_remove_encode :: "memory \<Rightarrow> bus_state \<Rightarrow> obus_buffer \<Rightarrow> addr \<Rightarrow> unit res \<times> obus_buffer" where
  "obus_packet_remove_encode m s buf p =
     (if p = 0 then (Inl EINVAL, buf)
      else case objs s p of None \<Rightarrow> (Inl FAULT, buf)
      | Some obj \<Rightarrow> packet_encode m OBUS_PKT_REMOVE (obus_object_remove_encode m obj) buf)"

definition obus_packet_event_encode :: "memory \<Rightarrow> bus_state \<Rightarrow> obus_buffer \<Rightarrow> addr \<Rightarrow> unit res \<times> obus_buffer" where
  "obus_packet_event_encode m s buf p =
     (if p = 0 then (Inl EINVAL, buf)
      else case evts s p of None \<Rightarrow> (Inl FAULT, buf)
      | Some ev \<Rightarrow> packet_encode m OBUS_PKT_EVENT (obus_event_encode m s ev) buf)"

definition obus_packet_bus_event_encode :: "memory \<Rightarrow> bus_state \<Rightarrow> obus_buffer \<Rightarrow> addr \<Rightarrow> unit res \<times> obus_buffer" where
  "obus_packet_bus_event_encode m s buf p =
     (if p = 0 then (Inl EINVAL, buf)
      else case bevts s p of None \<Rightarrow> (Inl FAULT, buf)
      | Some ev \<Rightarrow> packet_encode m OBUS_PKT_BUS_EVENT (obus_bus_event_encode m s ev) buf)"

definition obus_packet_call_encode :: "memory \<Rightarrow> bus_state \<Rightarrow> obus_buffer \<Rightarrow> addr \<Rightarrow> unit res \<times> obus_buffer" where
  "obus_packet_call_encode m s buf p =
     (if p = 0 then (Inl EINVAL, buf)
      else case calls s p of None \<Rightarrow> (Inl FAULT, buf)
      | Some c \<Rightarrow> packet_encode m OBUS_PKT_CALL (obus_call_encode m s c) buf)"

definition obus_packet_ack_encode :: "memory \<Rightarrow> obus_buffer \<Rightarrow> obus_ack \<Rightarrow> unit res \<times> obus_buffer" where
  "obus_packet_ack_encode m buf ack =
     packet_encode m OBUS_PKT_ACK (\<lambda>buf.
       chk (obus_buffer_append_u16 m buf (ack_handle ack)) (\<lambda>_ buf.
       obus_buffer_append_u8 m buf (ucast (ack_status ack)))) buf"

section \<open>Decoders of payloads\<close>

definition obus_packet_conreq_decode :: "memory \<Rightarrow> obus_buffer \<Rightarrow> obus_packet_conreq res \<times> obus_buffer" where
  "obus_packet_conreq_decode m buf =
     (case obus_buffer_read_u8 buf of (Inl e, buf) \<Rightarrow> (Inl e, buf) | (Inr version, buf) \<Rightarrow>
     (case obus_buffer_read_string m buf of (Inl e, _, buf) \<Rightarrow> (Inl e, buf) | (Inr _, bus, buf) \<Rightarrow>
     (case obus_buffer_read_u32 buf of (Inl e, buf) \<Rightarrow> (Inl e, buf) | (Inr bcrc, buf) \<Rightarrow>
     (case obus_buffer_read_string m buf of (Inl e, _, buf) \<Rightarrow> (Inl e, buf) | (Inr _, client, buf) \<Rightarrow>
        (Inr \<lparr>cr_version = version, cr_bus = the bus, cr_crc = bcrc, cr_client = the client\<rparr>, buf)))))"

text \<open>One turn of the loop of a connection response: a decoded object joins the list.\<close>

definition decode_listed ::
  "memory \<Rightarrow> bus_state \<times> addr list \<Rightarrow> obus_buffer \<Rightarrow> unit res \<times> (bus_state \<times> addr list) \<times> obus_buffer" where
  "decode_listed m st buf =
     (case st of (s, xs) \<Rightarrow>
      (case obus_object_add_decode m (bus_api s) buf of
         (Inl e, buf) \<Rightarrow> (Inl e, (s, xs), buf)
       | (Inr None, buf) \<Rightarrow> (Inr (), (s, xs), buf)
       | (Inr (Some obj), buf) \<Rightarrow>
           let p = next_addr s in
           (Inr (), (s\<lparr>objs := (objs s)(p \<mapsto> obj), next_addr := Suc p\<rparr>, xs @ [p]), buf)))"

definition obus_packet_conresp_decode ::
  "memory \<Rightarrow> bus_state \<Rightarrow> obus_buffer \<Rightarrow> obus_packet_conresp res \<times> bus_state \<times> obus_buffer" where
  "obus_packet_conresp_decode m s buf =
     (case obus_buffer_read_u8 buf of (Inl e, buf) \<Rightarrow> (Inl e, s, buf) | (Inr status, buf) \<Rightarrow>
      if status > OBUS_CONRESP_STATUS_COUNT then (Inl EINVAL, s, buf)
      else (case obus_buffer_read_u32 buf of (Inl e, buf) \<Rightarrow> (Inl e, s, buf) | (Inr n_objects, buf) \<Rightarrow>
        (case turns (unat n_objects) (decode_listed m) (s, []) buf of
           (Inl e, (s, _), buf) \<Rightarrow> (Inl e, s, buf)
         | (Inr _, (s, xs), buf) \<Rightarrow> (Inr \<lparr>rs_status = status, rs_objects = xs\<rparr>, s, buf))))"

definition obus_packet_add_decode :: "memory \<Rightarrow> bus_state \<Rightarrow> obus_buffer \<Rightarrow> addr res \<times> bus_state \<times> obus_buffer" where
  "obus_packet_add_decode m s buf =
     (case obus_object_add_decode m (bus_api s) buf of
        (Inl e, buf) \<Rightarrow> (Inl e, s, buf)
      | (Inr None, buf) \<Rightarrow> (Inl ENOENT, s, buf)
      | (Inr (Some obj), buf) \<Rightarrow>
          (Inr (next_addr s), s\<lparr>objs := (objs s)(next_addr s \<mapsto> obj), next_addr := Suc (next_addr s)\<rparr>, buf))"

definition obus_packet_remove_decode :: "bus_state \<Rightarrow> obus_buffer \<Rightarrow> addr res \<times> bus_state \<times> obus_buffer" where
  "obus_packet_remove_decode s buf = (case obus_object_remove_decode s buf of (p, buf) \<Rightarrow> (Inr p, s, buf))"

text \<open>A NULL result is the error \<open>-ENOENT\<close>.\<close>

definition not_null :: "addr res \<times> 's \<Rightarrow> addr res \<times> 's" where
  "not_null r = (case r of (Inr p, s) \<Rightarrow> (if p = 0 then Inl ENOENT else Inr p, s) | r \<Rightarrow> r)"

definition obus_packet_event_decode :: "memory \<Rightarrow> bus_state \<Rightarrow> obus_buffer \<Rightarrow> addr res \<times> bus_state \<times> obus_buffer" where
  "obus_packet_event_decode m s buf = not_null (obus_event_decode m s buf)"

definition obus_packet_bus_event_decode :: "memory \<Rightarrow> bus_state \<Rightarrow> obus_buffer \<Rightarrow> addr res \<times> bus_state \<times> obus_buffer" where
  "obus_packet_bus_event_decode m s buf = not_null (obus_bus_event_decode m s buf)"

definition obus_packet_call_decode :: "memory \<Rightarrow> bus_state \<Rightarrow> obus_buffer \<Rightarrow> addr res \<times> bus_state \<times> obus_buffer" where
  "obus_packet_call_decode m s buf = not_null (obus_call_decode m s buf)"

definition obus_packet_ack_decode :: "obus_buffer \<Rightarrow> obus_ack res \<times> obus_buffer" where
  "obus_packet_ack_decode buf =
     (case obus_buffer_read_u16 buf of (Inl e, buf) \<Rightarrow> (Inl e, buf) | (Inr handle, buf) \<Rightarrow>
     (case obus_buffer_read_u8 buf of (Inl e, buf) \<Rightarrow> (Inl e, buf) | (Inr status, buf) \<Rightarrow>
       (Inr \<lparr>ack_handle = handle, ack_status = ucast status\<rparr>, buf)))"

text \<open>The switch of \<open>obus_packet_decoder_read\<close>.\<close>

definition decode_payload ::
  "memory \<Rightarrow> u8 \<Rightarrow> bus_state \<Rightarrow> obus_buffer \<Rightarrow> obus_packet_info res \<times> bus_state \<times> obus_buffer" where
  "decode_payload m ty s buf =
     (if ty \<ge> OBUS_PKT_COUNT then (Inl ENOENT, s, buf)
      else case packet_types ! unat ty of
        OBUS_PKT_CONREQ \<Rightarrow> (case obus_packet_conreq_decode m buf of (r, buf) \<Rightarrow> (map_sum id Conreq r, s, buf))
      | OBUS_PKT_CONRESP \<Rightarrow> map_prod (map_sum id Conresp) id (obus_packet_conresp_decode m s buf)
      | OBUS_PKT_ADD \<Rightarrow> map_prod (map_sum id Add) id (obus_packet_add_decode m s buf)
      | OBUS_PKT_REMOVE \<Rightarrow> map_prod (map_sum id Remove) id (obus_packet_remove_decode s buf)
      | OBUS_PKT_BUS_EVENT \<Rightarrow> map_prod (map_sum id Bus_Event) id (obus_packet_bus_event_decode m s buf)
      | OBUS_PKT_EVENT \<Rightarrow> map_prod (map_sum id Event) id (obus_packet_event_decode m s buf)
      | OBUS_PKT_CALL \<Rightarrow> map_prod (map_sum id Call) id (obus_packet_call_decode m s buf)
      | OBUS_PKT_ACK \<Rightarrow> (case obus_packet_ack_decode buf of (r, buf) \<Rightarrow> (map_sum id Ack r, s, buf)))"

section \<open>The stream decoder\<close>

text \<open>A value read into a variable that was cleared before; the result code is ignored.\<close>

definition read_or_0 :: "'a::zero res \<times> obus_buffer \<Rightarrow> 'a \<times> obus_buffer" where
  "read_or_0 r = (case r of (Inl _, buf) \<Rightarrow> (0, buf) | (Inr v, buf) \<Rightarrow> (v, buf))"

text \<open>The position is below the length there, so \<open>pos + 1\<close> does not wrap.\<close>

definition next_position :: "obus_buffer \<Rightarrow> nat \<Rightarrow> obus_buffer" where
  "next_position buf pos = snd (obus_buffer_set_read_position buf (pos + 1))"

text \<open>The header fields read at the current position.\<close>

definition read_header :: "obus_buffer \<Rightarrow> obus_packet_header \<times> obus_buffer" where
  "read_header buf =
     (case read_or_0 (obus_buffer_read_u32 buf) of (magic, buf) \<Rightarrow>
      if magic \<noteq> obus_magic then (\<lparr>hdr_magic = magic, hdr_size = 0, hdr_type = 0\<rparr>, buf)
      else case read_or_0 (obus_buffer_read_u32 buf) of (n, buf) \<Rightarrow>
           (case read_or_0 (obus_buffer_read_u8 buf) of (ty, buf) \<Rightarrow>
             (\<lparr>hdr_magic = magic, hdr_size = n, hdr_type = ty\<rparr>, buf)))"

definition good_header :: "obus_packet_header \<Rightarrow> bool" where
  "good_header hdr \<longleftrightarrow> hdr_magic hdr = obus_magic \<and> \<not> hdr_type hdr \<ge> OBUS_PKT_COUNT"

text \<open>
  The loop of \<open>obus_packet_decode_header\<close>. The result is the start of the header found, if any,
  and the header and the buffer as they are then.
\<close>

lemma read_header_keeps: "blength (snd (read_header buf)) = blength buf"
  by (auto simp: read_header_def read_or_0_def obus_buffer_read_u32_def obus_buffer_read_u8_def Let_def
      split: prod.splits sum.splits)

lemma next_position_less:
  assumes "blength buf' = blength buf" "obus_buffer_read_length buf \<ge> OBUS_PKT_HDR_SIZE"
  shows "blength (next_position buf' (bpos buf)) = blength buf" "bpos (next_position buf' (bpos buf)) = bpos buf + 1"
  using assms by (auto simp: next_position_def obus_buffer_set_read_position_def obus_buffer_read_length_def
      OBUS_PKT_HDR_SIZE_def split: if_splits)

function find_header :: "obus_packet_header \<Rightarrow> obus_buffer \<Rightarrow> nat option \<times> obus_packet_header \<times> obus_buffer" where
  "find_header hdr buf =
     (if obus_buffer_read_length buf \<ge> OBUS_PKT_HDR_SIZE
      then let pos = bpos buf; (hdr, buf') = read_header buf in
           if good_header hdr then (Some pos, hdr, buf')
           else find_header hdr (next_position buf' pos)
      else (None, hdr, buf))"
  by pat_completeness auto
termination
proof (relation "measure (\<lambda>(hdr, buf). blength buf - bpos buf)", goal_cases)
  case (2 hdr buf pos x hdr' buf')
  then have "blength buf' = blength buf" using read_header_keeps [of buf] by (cases "read_header buf") simp
  then show ?case using 2 next_position_less [of buf' buf]
    by (auto simp: obus_buffer_read_length_def OBUS_PKT_HDR_SIZE_def split: if_splits)
qed simp

declare find_header.simps [simp del]

definition obus_packet_decode_header :: "obus_packet_decoder \<Rightarrow> unit res \<times> obus_packet_decoder" where
  "obus_packet_decode_header d =
     (case find_header (d_hdr d) (d_buf d) of
        (Some pos, hdr, buf) \<Rightarrow>
          (Inr (), d\<lparr>d_hdr := hdr, d_buf := obus_buffer_remove_first buf pos, d_hdr_valid := True\<rparr>)
      | (None, hdr, buf) \<Rightarrow>
          (Inl EAGAIN, d\<lparr>d_hdr := hdr,
             d_buf := (if blength buf \<ge> OBUS_PKT_HDR_SIZE
                       then obus_buffer_remove_first buf (blength buf - (OBUS_PKT_HDR_SIZE - 1)) else buf)\<rparr>))"

definition obus_packet_decoder_init ::
  "obus_packet_decoder \<Rightarrow> obus_buffer \<Rightarrow> io_input list \<Rightarrow> bool \<Rightarrow> obus_packet_decoder" where
  "obus_packet_decoder_init d buf io log_hdr =
     d\<lparr>d_hdr_valid := False, d_buf := obus_buffer_clear (obus_buffer_ref buf), d_in := io, d_log_hdr := log_hdr\<rparr>"

text \<open>The buffer goes back to its pool with its last reference.\<close>

definition obus_packet_decoder_destroy :: "obus_packet_decoder \<Rightarrow> obus_buffer_pool \<Rightarrow> obus_buffer \<times> obus_buffer_pool" where
  "obus_packet_decoder_destroy d pool = snd (obus_buffer_unref (obus_buffer_clear (d_buf d)) pool)"

definition obus_packet_decoder_reset :: "obus_packet_decoder \<Rightarrow> obus_packet_decoder" where
  "obus_packet_decoder_reset d = d\<lparr>d_hdr_valid := False, d_buf := obus_buffer_clear (d_buf d)\<rparr>"

text \<open>Reading more: into the free space, or into as much again when there is none.\<close>

definition decoder_more :: "memory \<Rightarrow> obus_packet_decoder \<Rightarrow> unit res \<times> obus_packet_decoder" where
  "decoder_more m d =
     (let len = obus_buffer_write_space (d_buf d);
          len = (if len = 0 then bsize (d_buf d) else len)
      in case obus_io_read m (d_in d) (d_buf d) len of
           (Inl e, inp, buf) \<Rightarrow> (Inl e, d\<lparr>d_in := inp, d_buf := buf\<rparr>)
         | (Inr n, inp, buf) \<Rightarrow>
             (if n = 0 then Inl EIO else Inr (), d\<lparr>d_in := inp, d_buf := buf\<rparr>))"

text \<open>
  The rest of a turn of the loop of \<open>obus_packet_decoder_read\<close> once a header is there: \<open>None\<close> and the
  new value of \<open>read_more\<close> to go on, or the result. A payload that is not decoded is dropped, a
  fault is not.
\<close>

definition decoder_packet :: "memory \<Rightarrow> bool \<Rightarrow> obus_packet_decoder \<Rightarrow> bus_state \<Rightarrow>
    obus_packet_info res option \<times> bool \<times> obus_packet_decoder \<times> bus_state" where
  "decoder_packet m read_more d s =
     (if blength (d_buf d) < unat (hdr_size (d_hdr d)) then (None, True, d, s)
      else case decode_payload m (hdr_type (d_hdr d)) s (d_buf d) of
             (Inl FAULT, s, buf) \<Rightarrow> (Some (Inl FAULT), read_more, d\<lparr>d_buf := buf\<rparr>, s)
           | (r, s, buf) \<Rightarrow>
               let buf = obus_buffer_remove_first buf (unat (hdr_size (d_hdr d)));
                   buf = snd (obus_buffer_set_read_position buf 0);
                   d = d\<lparr>d_buf := buf, d_hdr_valid := False\<rparr>
               in (case r of Inl _ \<Rightarrow> (None, read_more, d, s) | Inr info \<Rightarrow> (Some (Inr info), read_more, d, s)))"

definition decoder_turn :: "memory \<Rightarrow> bool \<Rightarrow> obus_packet_decoder \<Rightarrow> bus_state \<Rightarrow>
    obus_packet_info res option \<times> bool \<times> obus_packet_decoder \<times> bus_state" where
  "decoder_turn m read_more d s =
     (case (if read_more then decoder_more m d else (Inr (), d)) of
        (Inl e, d) \<Rightarrow> (Some (Inl e), read_more, d, s)
      | (Inr _, d) \<Rightarrow>
     (case (if d_hdr_valid d then (Inr (), d) else obus_packet_decode_header d) of
        (Inl _, d) \<Rightarrow> (None, True, d, s)
      | (Inr _, d) \<Rightarrow> decoder_packet m read_more d s))"

text \<open>The loop; \<open>None\<close> says that it runs forever.\<close>

partial_function (option) decoder_loop :: "memory \<Rightarrow> bool \<Rightarrow> obus_packet_decoder \<Rightarrow> bus_state \<Rightarrow>
    (obus_packet_info res \<times> obus_packet_decoder \<times> bus_state) option" where
  "decoder_loop m read_more d s =
     (case decoder_turn m read_more d s of
        (Some r, read_more, d, s) \<Rightarrow> Some (r, d, s)
      | (None, read_more, d, s) \<Rightarrow> decoder_loop m read_more d s)"

definition obus_packet_decoder_read :: "memory \<Rightarrow> obus_packet_decoder \<Rightarrow> bus_state \<Rightarrow>
    (obus_packet_info res \<times> obus_packet_decoder \<times> bus_state) option" where
  "obus_packet_decoder_read m d s = decoder_loop m False d s"

section \<open>Headers in a sequence of bytes\<close>

text \<open>The header that the first bytes of a sequence spell, and whether there is one.\<close>

definition header_of :: "u8 list \<Rightarrow> obus_packet_header" where
  "header_of xs =
     (let magic = of_be32 (xs ! 0) (xs ! 1) (xs ! 2) (xs ! 3) in
      if magic \<noteq> obus_magic then \<lparr>hdr_magic = magic, hdr_size = 0, hdr_type = 0\<rparr>
      else \<lparr>hdr_magic = magic, hdr_size = of_be32 (xs ! 4) (xs ! 5) (xs ! 6) (xs ! 7), hdr_type = xs ! 8\<rparr>)"

definition header_at :: "u8 list \<Rightarrow> bool" where
  "header_at xs \<longleftrightarrow> 9 \<le> length xs \<and> good_header (header_of xs)"

lemma header_prefix:
  assumes "9 \<le> length xs"
  shows "header_of (xs @ ys) = header_of xs" "header_at (xs @ ys) = header_at xs"
proof -
  have "(xs @ ys) ! i = xs ! i" if "i < 9" for i using assms that by (simp add: nth_append)
  then show "header_of (xs @ ys) = header_of xs" by (simp add: header_of_def Let_def)
  then show "header_at (xs @ ys) = header_at xs" using assms by (simp add: header_at_def)
qed

lemma unread_nth:
  assumes "buf_ok b" "i < length (unread b)"
  shows "bdata b ! (bpos b + i) = unread b ! i" "bpos b + i < blength b"
proof -
  show l: "bpos b + i < blength b" using assms by (simp add: length_unread)
  then have "unread b ! i = content b ! (bpos b + i)" using assms by (simp add: unread_def)
  then show "bdata b ! (bpos b + i) = unread b ! i" using l by (simp add: content_def)
qed

lemma read_header_eq:
  assumes "buf_ok b" "9 \<le> length (unread b)"
  shows "fst (read_header b) = header_of (unread b)" "pos_only b (snd (read_header b))"
    "good_header (header_of (unread b)) \<Longrightarrow> snd (read_header b) = advance b 9"
proof -
  have l: "bpos b + 9 \<le> blength b" using assms by (simp add: length_unread)
  note ok = buf_okD [OF assms(1)]
  have lim: "bpos b + 9 < 2 ^ 64" using l ok by simp
  have n: "bdata b ! (bpos b + i) = unread b ! i" if "i < 9" for i using unread_nth(1) [OF assms(1)] that assms(2) by simp
  have r1: "obus_buffer_read_u32 b = (Inr (of_be32 (unread b ! 0) (unread b ! 1) (unread b ! 2) (unread b ! 3)), advance b 4)"
    using l lim n [of 0] n [of 1] n [of 2] n [of 3] by (simp add: obus_buffer_read_u32_def advance_def)
  have r2: "obus_buffer_read_u32 (advance b 4) = (Inr (of_be32 (unread b ! 4) (unread b ! 5) (unread b ! 6) (unread b ! 7)), advance b 8)"
    using l lim n [of 4] n [of 5] n [of 6] n [of 7] by (simp add: obus_buffer_read_u32_def advance_def add.commute [of _ "bpos b"])
  have r3: "obus_buffer_read_u8 (advance b 8) = (Inr (unread b ! 8), advance b 9)"
    using l lim n [of 8] by (simp add: obus_buffer_read_u8_def advance_def)
  have po: "pos_only b (advance b k)" for k by (auto simp: pos_only_def advance_def)
  show "fst (read_header b) = header_of (unread b)" "pos_only b (snd (read_header b))"
    "good_header (header_of (unread b)) \<Longrightarrow> snd (read_header b) = advance b 9"
    by (auto simp: read_header_def read_or_0_def r1 r2 r3 header_of_def Let_def po good_header_def)
qed

lemma unread_drop:
  assumes "buf_ok b" "k \<le> length (unread b)" "bpos b \<le> blength b"
  shows "unread (advance b k) = drop k (unread b)" "buf_ok (advance b k)"
proof -
  show "unread (advance b k) = drop k (unread b)" by (simp add: unread_def add.commute)
  show "buf_ok (advance b k)" using assms buf_okD [OF assms(1)] by (auto simp: buf_ok_def length_unread)
qed

text \<open>
  The search. If a header starts \<open>i\<close> bytes ahead and none before, it is found there; if none starts
  in what is left to read, the search ends eight bytes before the end.
\<close>

lemma find_header_found:
  assumes "buf_ok b" "bpos b \<le> blength b" "header_at (drop i (unread b))" "\<And>j. j < i \<Longrightarrow> \<not> header_at (drop j (unread b))"
  shows "find_header hdr b = (Some (bpos b + i), header_of (drop i (unread b)), advance b (i + 9))"
  using assms
proof (induction i arbitrary: hdr b)
  case 0
  then have "9 \<le> length (unread b)" "good_header (header_of (unread b))" by (simp_all add: header_at_def)
  moreover from this have "obus_buffer_read_length b \<ge> OBUS_PKT_HDR_SIZE"
    using 0(1) by (auto simp: obus_buffer_read_length_def OBUS_PKT_HDR_SIZE_def length_unread)
  ultimately show ?case
    using read_header_eq [OF 0(1)] by (simp add: find_header.simps [of hdr b] Let_def split: prod.split) (metis fst_conv snd_conv)
next
  case (Suc i)
  have l: "9 + Suc i \<le> length (unread b)" using Suc.prems(3) unfolding header_at_def length_drop by linarith
  then have nh: "\<not> good_header (header_of (unread b))" using Suc.prems(4) [of 0] by (simp add: header_at_def)
  have rl: "obus_buffer_read_length b \<ge> OBUS_PKT_HDR_SIZE"
    using Suc.prems(1) l by (auto simp: obus_buffer_read_length_def OBUS_PKT_HDR_SIZE_def length_unread)
  obtain h b' where h: "read_header b = (h, b')" by fastforce
  have hb: "h = header_of (unread b)" "pos_only b b'" using read_header_eq(1,2) [OF Suc.prems(1)] l h by auto
  then have np: "next_position b' (bpos b) = advance b 1"
    using Suc.prems(1) l by (auto simp: next_position_def obus_buffer_set_read_position_def pos_only_def advance_def length_unread)
  have s: "find_header hdr b = find_header h (advance b 1)"
    using rl h hb nh np by (simp add: find_header.simps [of hdr b] Let_def)
  have u: "unread (advance b 1) = drop 1 (unread b)" "buf_ok (advance b 1)" using unread_drop [OF Suc.prems(1) _ Suc.prems(2), of 1] l by auto
  have "find_header h (advance b 1) =
      (Some (bpos (advance b 1) + i), header_of (drop i (unread (advance b 1))), advance (advance b 1) (i + 9))"
  proof (rule Suc.IH)
    show "bpos (advance b 1) \<le> blength (advance b 1)" using l Suc.prems(1) by (simp add: length_unread)
    show "\<not> header_at (drop j (unread (advance b 1)))" if "j < i" for j
      using Suc.prems(4) [of "Suc j"] that u(1) by simp
  qed (use u Suc.prems in simp_all)
  then show ?case using s u(1) by simp
qed

lemma find_header_none:
  assumes "buf_ok b" "bpos b \<le> blength b" "\<And>j. \<not> header_at (drop j (unread b))"
  shows "\<exists>h. find_header hdr b = (None, h, advance b (length (unread b) - 8))"
  using assms
proof (induction "length (unread b)" arbitrary: hdr b rule: less_induct)
  case less
  show ?case
  proof (cases "9 \<le> length (unread b)")
    case False
    then have "\<not> obus_buffer_read_length b \<ge> OBUS_PKT_HDR_SIZE"
      using less.prems(1) by (auto simp: obus_buffer_read_length_def OBUS_PKT_HDR_SIZE_def length_unread)
    then show ?thesis using False by (simp add: find_header.simps [of hdr b])
  next
    case True
    have nh: "\<not> good_header (header_of (unread b))" using less.prems(3) [of 0] True by (simp add: header_at_def)
    have rl: "obus_buffer_read_length b \<ge> OBUS_PKT_HDR_SIZE"
      using less.prems(1) True by (auto simp: obus_buffer_read_length_def OBUS_PKT_HDR_SIZE_def length_unread)
    obtain h b' where h: "read_header b = (h, b')" by fastforce
    have hb: "h = header_of (unread b)" "pos_only b b'" using read_header_eq(1,2) [OF less.prems(1)] True h by auto
    then have np: "next_position b' (bpos b) = advance b 1"
      using less.prems(1) True by (auto simp: next_position_def obus_buffer_set_read_position_def pos_only_def advance_def length_unread)
    have s: "find_header hdr b = find_header h (advance b 1)"
      using rl h hb nh np by (simp add: find_header.simps [of hdr b] Let_def)
    have u: "unread (advance b 1) = drop 1 (unread b)" "buf_ok (advance b 1)"
      using unread_drop [OF less.prems(1) _ less.prems(2), of 1] True by auto
    have "\<exists>h'. find_header h (advance b 1) = (None, h', advance (advance b 1) (length (unread (advance b 1)) - 8))"
    proof (rule less.hyps)
      show "length (unread (advance b 1)) < length (unread b)" using u(1) True by simp
      show "bpos (advance b 1) \<le> blength (advance b 1)" using True less.prems(1) by (simp add: length_unread)
      show "\<not> header_at (drop j (unread (advance b 1)))" for j using less.prems(3) [of "Suc j"] u(1) by simp
    qed (rule u(2))
    moreover have "Suc (length (unread b) - 9) = length (unread b) - 8" using True by simp
    ultimately show ?thesis using s u(1) by simp
  qed
qed

section \<open>Steps of the decoder\<close>

lemma decode_header_found:
  assumes "buf_ok (d_buf d)" "bpos (d_buf d) = 0" "header_at (drop i (content (d_buf d)))"
    "\<And>j. j < i \<Longrightarrow> \<not> header_at (drop j (content (d_buf d)))"
  obtains b' where "obus_packet_decode_header d = (Inr (), d\<lparr>d_hdr := header_of (drop i (content (d_buf d))), d_buf := b', d_hdr_valid := True\<rparr>)"
    "buf_ok b'" "content b' = drop i (content (d_buf d))" "bpos b' = 9" "bsize b' = bsize (d_buf d)"
proof -
  let ?b = "d_buf d"
  have u: "unread ?b = content ?b" using assms(2) by (simp add: unread_def)
  have l: "i + 9 \<le> blength ?b" using assms(1,3) by (auto simp: header_at_def)
  have a: "buf_ok (advance ?b (i + 9))" using unread_drop(2) [OF assms(1), of "i + 9"] l assms(1,2) by (simp add: length_unread)
  have f: "find_header (d_hdr d) ?b = (Some i, header_of (drop i (content ?b)), advance ?b (i + 9))"
    using find_header_found [OF assms(1), of i "d_hdr d"] assms(2-4) u by simp
  let ?r = "obus_buffer_remove_first (advance ?b (i + 9)) i"
  have "bpos ?r = 9" "bsize ?r = bsize ?b" using l assms(2) by (auto simp: obus_buffer_remove_first_def)
  moreover have "content ?r = drop i (content ?b)" "buf_ok ?r" using remove_first_content [OF a, of i] by simp_all
  ultimately show thesis using that f by (simp add: obus_packet_decode_header_def)
qed

lemma decode_header_none:
  assumes "buf_ok (d_buf d)" "bpos (d_buf d) = 0" "\<And>j. \<not> header_at (drop j (content (d_buf d)))"
  obtains h b' where "obus_packet_decode_header d = (Inl EAGAIN, d\<lparr>d_hdr := h, d_buf := b'\<rparr>)"
    "buf_ok b'" "content b' = drop (blength (d_buf d) - 8) (content (d_buf d))" "bpos b' = 0" "bsize b' = bsize (d_buf d)"
proof -
  let ?b = "d_buf d" and ?n = "blength (d_buf d) - 8"
  have u: "unread ?b = content ?b" using assms(2) by (simp add: unread_def)
  obtain h where f: "find_header (d_hdr d) ?b = (None, h, advance ?b ?n)"
    using find_header_none [OF assms(1), of "d_hdr d"] assms u by auto
  show thesis
  proof (cases "9 \<le> blength ?b")
    case True
    have a: "buf_ok (advance ?b ?n)" using unread_drop(2) [OF assms(1), of ?n] assms(1,2) by (simp add: length_unread)
    let ?r = "obus_buffer_remove_first (advance ?b ?n) ?n"
    have "bpos ?r = 0" "bsize ?r = bsize ?b" using True assms(2) by (auto simp: obus_buffer_remove_first_def)
    moreover have "content ?r = drop ?n (content ?b)" "buf_ok ?r" using remove_first_content [OF a, of ?n] by simp_all
    ultimately show ?thesis using that f True by (simp add: obus_packet_decode_header_def OBUS_PKT_HDR_SIZE_def)
  next
    case False
    then have "obus_packet_decode_header d = (Inl EAGAIN, d\<lparr>d_hdr := h, d_buf := ?b\<rparr>)"
      using f by (simp add: obus_packet_decode_header_def OBUS_PKT_HDR_SIZE_def)
    then show ?thesis by (rule that) (use False assms(1,2) in simp_all)
  qed
qed

section \<open>Packets in a stream\<close>

definition packet_image :: "obus_packet_type \<Rightarrow> u8 list \<Rightarrow> u8 list" where
  "packet_image ty payload =
     be32 obus_magic @ be32 (of_nat (OBUS_PKT_HDR_SIZE + length payload)) @ type_code ty # payload"

definition packet_header :: "obus_packet_type \<Rightarrow> u8 list \<Rightarrow> obus_packet_header" where
  "packet_header ty payload =
     \<lparr>hdr_magic = obus_magic, hdr_size = of_nat (OBUS_PKT_HDR_SIZE + length payload), hdr_type = type_code ty\<rparr>"

lemma length_packet_image [simp]: "length (packet_image ty payload) = 9 + length payload"
  by (simp add: packet_image_def)

lemma type_code_less: "\<not> type_code ty \<ge> OBUS_PKT_COUNT"
  by (cases ty) (simp_all add: OBUS_PKT_COUNT_def word_le_nat_alt)

lemma packet_image_header:
  "header_of (packet_image ty payload) = packet_header ty payload" "good_header (packet_header ty payload)"
proof -
  obtain a b c d where m: "be32 obus_magic = [a, b, c, d]" "of_be32 a b c d = obus_magic" using be32_split by blast
  obtain e f g h where n: "be32 (of_nat (OBUS_PKT_HDR_SIZE + length payload)) = [e, f, g, h]"
    "of_be32 e f g h = of_nat (OBUS_PKT_HDR_SIZE + length payload)" using be32_split by blast
  show "header_of (packet_image ty payload) = packet_header ty payload"
    unfolding packet_image_def m(1) n(1) by (simp add: header_of_def m(2) n(2) packet_header_def)
  show "good_header (packet_header ty payload)" using type_code_less by (simp add: good_header_def packet_header_def)
qed

text \<open>
  A payload that is decoded, wherever it is and whatever follows it, to something of which \<open>Q\<close> is
  true: what the packet is decoded to, and the state of the bus after that.
\<close>

definition decodes :: "memory \<Rightarrow> obus_packet_type \<Rightarrow> u8 list \<Rightarrow> bus_state \<Rightarrow> (obus_packet_info \<Rightarrow> bus_state \<Rightarrow> bool) \<Rightarrow> bool" where
  "decodes m ty payload s Q \<longleftrightarrow>
     (\<forall>b p rest. reads_at b p (payload @ rest) \<longrightarrow>
        (\<exists>info s' b'. decode_payload m (type_code ty) s (advance b p) = (Inr info, s', b') \<and> Q info s' \<and> pos_only (advance b p) b'))"

text \<open>
  The decoder with the pieces \<open>cs\<close> of the stream still to come; \<open>M\<close> bounds the memory the buffer
  may take. No packet is pending when it is idle.
\<close>

definition supplied :: "nat \<Rightarrow> u8 list list \<Rightarrow> obus_packet_decoder \<Rightarrow> bool" where
  "supplied M cs d \<longleftrightarrow> buf_ok (d_buf d) \<and> 0 < bsize (d_buf d) \<and> bsize (d_buf d) \<le> M
     \<and> d_in d = map Bytes cs \<and> [] \<notin> set cs"

definition idle :: "nat \<Rightarrow> u8 list list \<Rightarrow> obus_packet_decoder \<Rightarrow> bool" where
  "idle M cs d \<longleftrightarrow> supplied M cs d \<and> \<not> d_hdr_valid d \<and> bpos (d_buf d) = 0"

definition stream :: "u8 list list \<Rightarrow> obus_packet_decoder \<Rightarrow> u8 list" where
  "stream cs d = content (d_buf d) @ concat cs"

text \<open>Bytes in front of \<open>tail\<close> in which no header starts.\<close>

definition noise :: "u8 list \<Rightarrow> u8 list \<Rightarrow> bool" where
  "noise g tail \<longleftrightarrow> (\<forall>j<length g. \<not> header_at (drop j (g @ tail)))"

lemma noise_drop: "noise g tail \<Longrightarrow> noise (drop n g) tail"
proof (cases "n \<le> length g")
  case True
  assume a: "noise g tail"
  have "\<not> header_at (drop j (drop n g @ tail))" if "j < length (drop n g)" for j
    using a that True unfolding noise_def by (auto simp: add.commute dest!: spec [of _ "n + j"])
  then show ?thesis by (simp add: noise_def)
qed (simp add: noise_def)

text \<open>Waiting for a packet: no header found yet, or a header and not all of the packet.\<close>

definition waiting :: "nat \<Rightarrow> obus_packet_type \<Rightarrow> u8 list \<Rightarrow> u8 list \<Rightarrow> u8 list list \<Rightarrow> obus_packet_decoder \<Rightarrow> bool" where
  "waiting M ty payload rest cs d \<longleftrightarrow> supplied M cs d \<and>
     (if d_hdr_valid d
      then bpos (d_buf d) = 9 \<and> d_hdr d = packet_header ty payload \<and> 9 \<le> blength (d_buf d)
        \<and> stream cs d = packet_image ty payload @ rest
      else bpos (d_buf d) = 0 \<and>
        (\<exists>g. stream cs d = g @ packet_image ty payload @ rest \<and> noise g (packet_image ty payload @ rest)))"

definition received_packet ::
  "nat \<Rightarrow> (obus_packet_info \<Rightarrow> bus_state \<Rightarrow> bool) \<Rightarrow> u8 list \<Rightarrow> obus_packet_info res \<times> obus_packet_decoder \<times> bus_state \<Rightarrow> bool" where
  "received_packet M Q rest r \<longleftrightarrow> (case r of (r, d', s') \<Rightarrow>
     (\<exists>info. r = Inr info \<and> Q info s') \<and> (\<exists>cs'. idle M cs' d' \<and> stream cs' d' = rest))"

lemma prefix_of_stream:
  assumes "xs @ ys = zs" "j + 9 \<le> length xs"
  shows "header_at (drop j zs) = header_at (drop j xs)" "header_of (drop j zs) = header_of (drop j xs)"
proof -
  have "drop j zs = drop j xs @ ys" using assms by auto
  moreover have "9 \<le> length (drop j xs)" using assms(2) by simp
  ultimately show "header_at (drop j zs) = header_at (drop j xs)" "header_of (drop j zs) = header_of (drop j xs)"
    using header_prefix by simp_all
qed

text \<open>A complete packet is decoded, and leaves exactly what follows it.\<close>

lemma decoder_packet_ok:
  assumes "waiting M ty payload rest cs d" "d_hdr_valid d" "9 + length payload < 2 ^ 32" "decodes m ty payload s Q"
  obtains "decoder_packet m rm d s = (None, True, d, s)" "cs \<noteq> []"
  | info s' d' where "decoder_packet m rm d s = (Some (Inr info), rm, d', s')" "received_packet M Q rest (Inr info, d', s')"
proof -
  let ?b = "d_buf d" and ?img = "packet_image ty payload"
  have w: "supplied M cs d" "bpos ?b = 9" "d_hdr d = packet_header ty payload" "stream cs d = ?img @ rest"
    using assms(1,2) by (simp_all add: waiting_def)
  have ok: "buf_ok ?b" using w(1) by (simp add: supplied_def)
  have "unat (of_nat (9 + length payload) :: u32) = 9 + length payload" unfolding unat_of_nat using assms(3) by simp
  then have n: "unat (hdr_size (d_hdr d)) = 9 + length payload" "hdr_type (d_hdr d) = type_code ty"
    by (simp_all add: w(3) packet_header_def OBUS_PKT_HDR_SIZE_def)
  show thesis
  proof (cases "blength ?b < 9 + length payload")
    case True
    then have "decoder_packet m rm d s = (None, True, d, s)" using n by (simp add: decoder_packet_def)
    moreover have "cs \<noteq> []" using True w(4) ok by (auto simp: stream_def dest: arg_cong [of _ _ length])
    ultimately show ?thesis by (rule that(1))
  next
    case False
    then have l: "9 + length payload \<le> length (content ?b)" using ok by simp
    obtain more where c: "content ?b = ?img @ more" "rest = more @ concat cs"
    proof -
      have "take (length ?img) (content ?b @ concat cs) = ?img" using w(4) by (simp add: stream_def)
      then have "take (length ?img) (content ?b) = ?img" using l by simp
      then have e: "content ?b = ?img @ drop (length ?img) (content ?b)" by (metis append_take_drop_id)
      moreover have "rest = drop (length ?img) (content ?b) @ concat cs"
        using w(4) e unfolding stream_def by (metis append.assoc same_append_eq)
      ultimately show thesis by (rule that)
    qed
    have "unread ?b = payload @ more" using c(1) w(2) by (simp add: unread_def packet_image_def OBUS_PKT_HDR_SIZE_def)
    then have "reads_at ?b 0 (payload @ more)" using ok by simp
    then obtain info s' b1 where b1: "decode_payload m (type_code ty) s ?b = (Inr info, s', b1)" "Q info s'" "pos_only ?b b1"
      using assms(4) unfolding decodes_def by (metis advance_simps(7))
    let ?b1 = "obus_buffer_remove_first b1 (9 + length payload)"
    let ?b2 = "snd (obus_buffer_set_read_position ?b1 0)"
    obtain q where q: "b1 = ?b\<lparr>bpos := q\<rparr>" using b1(3) by (auto simp: pos_only_def)
    let ?d = "d\<lparr>d_buf := ?b2, d_hdr_valid := False\<rparr>"
    have z: "?b2 = (obus_buffer_remove_first ?b (9 + length payload))\<lparr>bpos := 0\<rparr>"
      unfolding q obus_buffer_remove_first_def obus_buffer_set_read_position_def using False by simp
    have "decoder_packet m rm d s = (Some (Inr info), rm, ?d, s')"
      using False n b1(1) by (simp add: decoder_packet_def Let_def)
    moreover have "idle M cs ?d" "stream cs ?d = rest"
    proof -
      note r = remove_first_content [OF ok, of "9 + length payload"]
      have "content ?b2 = more" using r(1) c(1) unfolding z by (simp add: content_def)
      then show "stream cs ?d = rest" using c(2) by (simp add: stream_def)
      have "buf_ok ?b2" "bsize ?b2 = bsize ?b" "bpos ?b2 = 0"
        using r(2) unfolding z by (auto simp: buf_ok_def obus_buffer_remove_first_def)
      then show "idle M cs ?d" using w(1) by (simp add: idle_def supplied_def)
    qed
    ultimately show ?thesis using that(2) b1(2) by (auto simp: received_packet_def)
  qed
qed

lemma decoder_more_ok:
  assumes "supplied M cs d" "cs \<noteq> []" "enough m M" "2 * length (stream cs d) \<le> M"
  obtains cs' b' where "decoder_more m d = (Inr (), d\<lparr>d_in := map Bytes cs', d_buf := b'\<rparr>)"
    "supplied M cs' (d\<lparr>d_in := map Bytes cs', d_buf := b'\<rparr>)" "content b' @ concat cs' = stream cs d" "bpos b' = bpos (d_buf d)"
    "length (concat cs') < length (concat cs)" "blength (d_buf d) \<le> blength b'"
proof -
  let ?b = "d_buf d"
  obtain c cs0 where cs: "cs = c # cs0" using assms(2) by (cases cs) auto
  have ok: "buf_ok ?b" and c: "c \<noteq> []" and i: "d_in d = Bytes c # map Bytes cs0" "[] \<notin> set cs0"
    and bs: "0 < bsize ?b" "bsize ?b \<le> M" using assms(1) cs by (auto simp: supplied_def)
  note o = buf_okD [OF ok]
  define n where "n = (if obus_buffer_write_space ?b = 0 then bsize ?b else obus_buffer_write_space ?b)"
  have "obus_buffer_write_space ?b = bsize ?b - blength ?b" using o by (simp add: obus_buffer_write_space_def)
  then have n: "0 < n" "blength ?b + n \<le> M" using bs o assms(4) ok by (auto simp: n_def stream_def)
  have en: "enough m (blength ?b + n)" by (rule enough_mono [OF assms(3) n(2)])
  obtain b' where b': "obus_io_read m (Bytes c # map Bytes cs0) ?b n =
      (Inr (length (take n c)), if n < length c then Bytes (drop n c) # map Bytes cs0 else map Bytes cs0, b')"
    "buf_ok b'" "content b' = content ?b @ take n c" "bpos b' = bpos ?b" "bsize ?b \<le> bsize b'" "bsize b' \<le> max (bsize ?b) (blength ?b + n)"
    by (rule io_read_ok [OF ok n(1) en c])
  define cs' where "cs' = (if n < length c then drop n c # cs0 else cs0)"
  have "decoder_more m d = (Inr (), d\<lparr>d_in := map Bytes cs', d_buf := b'\<rparr>)"
    using b'(1) n(1) c i(1) unfolding decoder_more_def Let_def n_def [symmetric] cs'_def by simp
  moreover have "supplied M cs' (d\<lparr>d_in := map Bytes cs', d_buf := b'\<rparr>)"
    using b'(2,5,6) bs n(2) i(2) by (auto simp: supplied_def cs'_def)
  moreover have "content b' @ concat cs' = stream cs d" using b'(3) by (simp add: stream_def cs cs'_def)
  moreover have "length (concat cs') < length (concat cs)" using n(1) c by (simp add: cs cs'_def)
  moreover have "blength ?b \<le> blength b'" using b'(2,3) ok by (metis length_append length_content le_add1)
  ultimately show thesis using that b'(4) by blast
qed

text \<open>The part of a turn behind the reading: the packet is there, or the decoder waits for more.\<close>

lemma decoder_tail_ok:
  assumes "waiting M ty payload rest cs d" "9 + length payload < 2 ^ 32" "decodes m ty payload s Q"
  obtains d' where "(case (if d_hdr_valid d then (Inr (), d) else obus_packet_decode_header d) of
        (Inl _, d) \<Rightarrow> (None, True, d, s) | (Inr _, d) \<Rightarrow> decoder_packet m rm d s) = (None, True, d', s)"
      "waiting M ty payload rest cs d'" "cs \<noteq> []" "length (stream cs d') \<le> length (stream cs d)"
  | info s' d' where "(case (if d_hdr_valid d then (Inr (), d) else obus_packet_decode_header d) of
        (Inl _, d) \<Rightarrow> (None, True, d, s) | (Inr _, d) \<Rightarrow> decoder_packet m rm d s) = (Some (Inr info), rm, d', s')"
      "received_packet M Q rest (Inr info, d', s')"
proof (cases "d_hdr_valid d")
  case True
  then show thesis
    by (cases rule: decoder_packet_ok [OF assms(1) True assms(2,3), of rm]) (use that assms(1) in auto)
next
  case False
  let ?b = "d_buf d" and ?img = "packet_image ty payload"
  obtain g where w: "supplied M cs d" "bpos ?b = 0" "stream cs d = g @ ?img @ rest" "noise g (?img @ rest)"
    using assms(1) False by (auto simp: waiting_def)
  have ok: "buf_ok ?b" using w(1) by (simp add: supplied_def)
  have st: "content ?b @ concat cs = g @ ?img @ rest" using w(3) by (simp add: stream_def)
  have no: "\<not> header_at (drop j (content ?b))" if "j < length g" for j
  proof (cases "j + 9 \<le> length (content ?b)")
    case True
    then show ?thesis using prefix_of_stream(1) [OF st True] w(4) that by (simp add: noise_def)
  next
    case False
    then show ?thesis by (auto simp: header_at_def)
  qed
  show thesis
  proof (cases "length g + 9 \<le> blength ?b")
    case True
    then have l: "length g + 9 \<le> length (content ?b)" using ok by simp
    have dg: "drop (length g) (g @ ?img @ rest) = ?img @ rest" by simp
    have hi: "header_of (?img @ rest) = packet_header ty payload" "header_at (?img @ rest)"
      using header_prefix [of ?img rest] packet_image_header [of ty payload] by (simp_all add: header_at_def)
    have h: "header_at (drop (length g) (content ?b))" "header_of (drop (length g) (content ?b)) = packet_header ty payload"
      using prefix_of_stream [OF st l] hi unfolding dg by simp_all
    obtain b' where b': "obus_packet_decode_header d = (Inr (), d\<lparr>d_hdr := header_of (drop (length g) (content ?b)), d_buf := b', d_hdr_valid := True\<rparr>)"
      "buf_ok b'" "content b' = drop (length g) (content ?b)" "bpos b' = 9" "bsize b' = bsize ?b"
      by (rule decode_header_found [OF ok w(2) h(1) no])
    let ?d = "d\<lparr>d_hdr := packet_header ty payload, d_buf := b', d_hdr_valid := True\<rparr>"
    have "content b' @ concat cs = ?img @ rest" using b'(3) arg_cong [OF st, of "drop (length g)"] l by simp
    moreover have "9 \<le> blength b'" using length_content [OF b'(2)] b'(3) l by simp
    ultimately have wt: "waiting M ty payload rest cs ?d" "stream cs ?d = ?img @ rest"
      using b'(2,4,5) w(1) by (simp_all add: waiting_def supplied_def stream_def)
    have v: "d_hdr_valid ?d" by simp
    show ?thesis
      by (cases rule: decoder_packet_ok [OF wt(1) v assms(2,3), of rm]) (use that b'(1) h(2) False wt w(3) in auto)
  next
    case short: False
    have none: "\<not> header_at (drop j (content ?b))" for j
      using no [of j] short ok by (cases "j < length g") (auto simp: header_at_def)
    obtain h b' where b': "obus_packet_decode_header d = (Inl EAGAIN, d\<lparr>d_hdr := h, d_buf := b'\<rparr>)"
      "buf_ok b'" "content b' = drop (blength ?b - 8) (content ?b)" "bpos b' = 0" "bsize b' = bsize ?b"
      by (rule decode_header_none [OF ok w(2) none])
    let ?n = "blength ?b - 8" and ?d = "d\<lparr>d_hdr := h, d_buf := b'\<rparr>"
    have "drop ?n (content ?b @ concat cs) = content b' @ concat cs" using b'(3) ok by simp
    moreover have "drop ?n (g @ ?img @ rest) = drop ?n g @ ?img @ rest" using short by simp
    ultimately have s2: "stream cs ?d = drop ?n g @ ?img @ rest" using st by (simp add: stream_def)
    then have "waiting M ty payload rest cs ?d" using b'(2,4,5) w(1) False noise_drop [OF w(4), of ?n]
      by (auto simp: waiting_def supplied_def)
    moreover have "cs \<noteq> []" using short st ok by (auto dest: arg_cong [of _ _ length])
    moreover have "length (stream cs ?d) \<le> length (stream cs d)" using s2 w(3) by simp
    ultimately show ?thesis using that(1) b'(1) False by simp
  qed
qed

text \<open>The loop with more to read ends with the packet.\<close>

lemma decoder_loop_waiting:
  assumes "waiting M ty payload rest cs d" "cs \<noteq> []" "9 + length payload < 2 ^ 32" "decodes m ty payload s Q"
    "enough m M" "2 * length (stream cs d) \<le> M"
  shows "\<exists>r. decoder_loop m True d s = Some r \<and> received_packet M Q rest r"
  using assms(1,2,6)
proof (induction "length (concat cs)" arbitrary: cs d rule: less_induct)
  case less
  have sp: "supplied M cs d" using less.prems(1) by (simp add: waiting_def)
  obtain cs' b' where m: "decoder_more m d = (Inr (), d\<lparr>d_in := map Bytes cs', d_buf := b'\<rparr>)"
    "supplied M cs' (d\<lparr>d_in := map Bytes cs', d_buf := b'\<rparr>)" "content b' @ concat cs' = stream cs d" "bpos b' = bpos (d_buf d)"
    "length (concat cs') < length (concat cs)" "blength (d_buf d) \<le> blength b'"
    by (rule decoder_more_ok [OF sp less.prems(2) assms(5) less.prems(3)])
  let ?d = "d\<lparr>d_in := map Bytes cs', d_buf := b'\<rparr>"
  have s: "stream cs' ?d = stream cs d" using m(3) by (simp add: stream_def)
  have w: "waiting M ty payload rest cs' ?d" using less.prems(1) m(2,4,6) s by (auto simp: waiting_def split: if_splits)
  show ?case
  proof (cases rule: decoder_tail_ok [OF w assms(3,4), of True])
    case (1 d')
    then have "decoder_loop m True d s = decoder_loop m True d' s"
      using m(1) by (subst decoder_loop.simps) (simp add: decoder_turn_def)
    moreover have "\<exists>r. decoder_loop m True d' s = Some r \<and> received_packet M Q rest r"
      by (rule less.hyps [OF m(5) 1(2,3)]) (use 1(4) s less.prems(3) in simp)
    ultimately show ?thesis by simp
  next
    case (2 info s' d')
    then show ?thesis using m(1) by (subst decoder_loop.simps) (simp add: decoder_turn_def)
  qed
qed

lemma decoder_read_ok:
  assumes "idle M cs d" "stream cs d = g @ packet_image ty payload @ rest" "noise g (packet_image ty payload @ rest)"
    "9 + length payload < 2 ^ 32" "decodes m ty payload s Q" "enough m M" "2 * length (stream cs d) \<le> M"
  obtains info s' cs' d' where "obus_packet_decoder_read m d s = Some (Inr info, d', s')" "Q info s'" "idle M cs' d'" "stream cs' d' = rest"
proof -
  have w: "waiting M ty payload rest cs d" using assms(1-3) by (auto simp: waiting_def idle_def)
  have "\<exists>r. decoder_loop m False d s = Some r \<and> received_packet M Q rest r"
  proof (cases rule: decoder_tail_ok [OF w assms(4,5), of False])
    case (1 d')
    then have "decoder_loop m False d s = decoder_loop m True d' s"
      by (subst decoder_loop.simps) (simp add: decoder_turn_def)
    then show ?thesis using decoder_loop_waiting [OF 1(2,3) assms(4-6)] 1(4) assms(7) by simp
  next
    case (2 info s' d')
    then show ?thesis by (subst decoder_loop.simps) (simp add: decoder_turn_def)
  qed
  then show thesis using that by (auto simp: received_packet_def obus_packet_decoder_read_def)
qed

section \<open>Every encoder makes a packet\<close>

lemma overwrite_u8:
  assumes "buf_ok b" "content b = xs @ z # ys"
  obtains b' where "obus_buffer_write_u8 m b v (length xs) = (Inr (), b')" "buf_ok b'"
    "content b' = xs @ v # ys" "bpos b' = bpos b" "brefcnt b' = brefcnt b" "bpool b' = bpool b"
proof -
  note ok = buf_okD [OF assms(1)]
  have l: "blength b = length xs + 1 + length ys" using length_content [OF assms(1)] assms(2) by simp
  let ?d = "poke (bdata b) (length xs) [v]"
  have d: "?d = take (length xs) (bdata b) @ [v] @ drop (length xs + 1) (bdata b)"
    using poke_eq [of "length xs" "[v]" "bdata b"] l ok by simp
  have "content (b\<lparr>bdata := ?d\<rparr>) = take (length xs) (content b) @ v # drop (length xs + 1) (content b)"
    using l ok unfolding content_def d by (simp add: min_def drop_take)
  then have "content (b\<lparr>bdata := ?d\<rparr>) = xs @ v # ys" using assms(2) by simp
  moreover have "buf_ok (b\<lparr>bdata := ?d\<rparr>)" using assms(1) by (simp add: buf_ok_def)
  moreover have "obus_buffer_write_u8 m b v (length xs) = (Inr (), b\<lparr>bdata := ?d\<rparr>)"
    using l ok by (simp add: obus_buffer_write_u8_def obus_buffer_ensure_realloc_def)
  ultimately show thesis using that by simp
qed

lemma split_at: "length xs = n + k \<Longrightarrow> \<exists>ys zs. xs = ys @ zs \<and> length ys = n \<and> length zs = k"
  by (intro exI [of _ "take n xs"] exI [of _ "drop n xs"]) simp

lemma encode_header_ok:
  assumes "buf_ok b" "content b = hs @ payload" "length hs = 9"
  obtains b' where "obus_packet_encode_header m b (type_code ty) = (Inr (), b')" "buf_ok b'"
    "content b' = packet_image ty payload" "bpos b' = bpos b" "brefcnt b' = brefcnt b" "bpool b' = bpool b"
proof -
  obtain h1 h2 where h: "hs = h1 @ h2" "length h1 = 4" "length h2 = 5" using split_at [of hs 4 5] assms(3) by auto
  obtain h3 t where h2: "h2 = h3 @ [t]" "length h3 = 4"
    using split_at [of h2 4 1] h(3) by (auto simp: length_Suc_conv)
  have "content b = [] @ h1 @ (h3 @ [t] @ payload)" using assms(2) h(1) h2(1) by simp
  then obtain b1 where b1: "obus_buffer_write_u32 m b obus_magic (length ([] :: u8 list)) = (Inr (), b1)" "buf_ok b1"
      "content b1 = [] @ be32 obus_magic @ (h3 @ [t] @ payload)" "bpos b1 = bpos b" "brefcnt b1 = brefcnt b" "bpool b1 = bpool b"
    by (rule overwrite_u32 [OF assms(1) _ h(2)])
  have l: "blength b1 = 9 + length payload" using length_content [OF b1(2)] b1(3) h2(2) by simp
  have "content b1 = be32 obus_magic @ h3 @ ([t] @ payload)" using b1(3) by simp
  then obtain b2 where b2: "obus_buffer_write_u32 m b1 (of_nat (blength b1)) (length (be32 obus_magic)) = (Inr (), b2)" "buf_ok b2"
      "content b2 = be32 obus_magic @ be32 (of_nat (blength b1)) @ ([t] @ payload)" "bpos b2 = bpos b1" "brefcnt b2 = brefcnt b1" "bpool b2 = bpool b1"
    by (rule overwrite_u32 [OF b1(2) _ h2(2)])
  have "content b2 = (be32 obus_magic @ be32 (of_nat (blength b1))) @ t # payload" using b2(3) by simp
  then obtain b3 where b3: "obus_buffer_write_u8 m b2 (type_code ty) (length (be32 obus_magic @ be32 (of_nat (blength b1)))) = (Inr (), b3)" "buf_ok b3"
      "content b3 = (be32 obus_magic @ be32 (of_nat (blength b1))) @ type_code ty # payload" "bpos b3 = bpos b2" "brefcnt b3 = brefcnt b2" "bpool b3 = bpool b2"
    by (rule overwrite_u8 [OF b2(2)])
  have "content b3 = packet_image ty payload" using b3(3) l by (simp add: packet_image_def OBUS_PKT_HDR_SIZE_def)
  then show thesis using that b1 b2 b3 by (simp add: obus_packet_encode_header_def)
qed

text \<open>The buffer holds the packet and nothing else, whatever it held before.\<close>

lemma packet_encode_ok:
  assumes "buf_ok b" "enough m (9 + length payload)"
    "\<And>b. buf_ok b \<Longrightarrow> enough m (blength b + length payload) \<Longrightarrow> \<exists>b'. encode b = (Inr (), b') \<and> appended b b' payload"
  obtains b' where "packet_encode m ty encode b = (Inr (), b')" "buf_ok b'" "content b' = packet_image ty payload"
    "bpos b' = bpos b" "brefcnt b' = brefcnt b" "bpool b' = bpool b"
proof -
  let ?b = "obus_buffer_clear b"
  have ok: "buf_ok ?b" "content ?b = []" "blength ?b = 0" using assms(1) by (auto simp: buf_ok_def obus_buffer_clear_def content_def)
  have "enough m (blength ?b + 9)" by (rule enough_mono [OF assms(2)]) (simp add: ok)
  then obtain b1 zs where b1: "obus_buffer_reserve m ?b 9 = (Inr (), b1)" "appended ?b b1 zs" "length zs = 9"
    by (rule reserve_ok [OF ok(1)])
  have "blength b1 = 9" using appended_blength [OF b1(2) ok(1)] b1(3) ok(3) by simp
  then obtain b2 where b2: "encode b1 = (Inr (), b2)" "appended b1 b2 payload"
    using assms(3) [OF appended_ok [OF b1(2)]] assms(2) by auto
  have "content b2 = zs @ payload" using b1(2) b2(2) ok(2) by (simp add: appended_def)
  then obtain b3 where "obus_packet_encode_header m b2 (type_code ty) = (Inr (), b3)" "buf_ok b3"
    "content b3 = packet_image ty payload" "bpos b3 = bpos b2" "brefcnt b3 = brefcnt b2" "bpool b3 = bpool b2"
    by (rule encode_header_ok [OF appended_ok [OF b2(2)] _ b1(3)])
  moreover have "bpos b2 = bpos b" "brefcnt b2 = brefcnt b" "bpool b2 = bpool b"
    using b1(2) b2(2) by (simp_all add: appended_def obus_buffer_clear_def)
  ultimately show thesis using that b1(1) b2(1) by (simp add: packet_encode_def OBUS_PKT_HDR_SIZE_def)
qed

definition conreq_payload :: "u8 list option \<Rightarrow> u8 list option \<Rightarrow> u32 \<Rightarrow> u8 list" where
  "conreq_payload client bus bcrc = [OBUS_PROTOCOL_VERSION] @ wire_string bus @ be32 bcrc @ wire_string client"

lemma conreq_encode_ok:
  assumes "buf_ok b" "enough m (9 + length (conreq_payload client bus bcrc))" "string_fits client" "string_fits bus"
  obtains b' where "obus_packet_conreq_encode m b client bus bcrc = (Inr (), b')" "buf_ok b'"
    "content b' = packet_image OBUS_PKT_CONREQ (conreq_payload client bus bcrc)" "bpos b' = bpos b"
proof -
  let ?enc = "\<lambda>buf. chk (obus_buffer_append_u8 m buf OBUS_PROTOCOL_VERSION) (\<lambda>_ buf.
       chk (obus_buffer_append_string m buf bus) (\<lambda>_ buf.
       chk (obus_buffer_append_u32 m buf bcrc) (\<lambda>_ buf.
       obus_buffer_append_string m buf client)))"
  have enc: "\<exists>b'. ?enc b = (Inr (), b') \<and> appended b b' (conreq_payload client bus bcrc)"
    if ok: "buf_ok b" and en: "enough m (blength b + length (conreq_payload client bus bcrc))" for b
  proof -
    have e: "enough m k" if "k \<le> blength b + 5 + length (wire_string bus) + length (wire_string client)" for k
      by (rule enough_mono [OF en]) (use that in \<open>simp add: conreq_payload_def\<close>)
    have b0: "appended b b []" using ok by simp
    obtain b1 where b1: "obus_buffer_append_u8 m b OBUS_PROTOCOL_VERSION = (Inr (), b1)" "appended b b1 ([] @ [OBUS_PROTOCOL_VERSION])"
      by (rule w8.wr_then [OF b0 ok _ e]) simp_all
    obtain b2 where b2: "obus_buffer_append_string m b1 bus = (Inr (), b2)" "appended b b2 (([] @ [OBUS_PROTOCOL_VERSION]) @ wire_string bus)"
      by (rule wstr.wr_then [OF b1(2) ok assms(4) e]) simp_all
    obtain b3 where b3: "obus_buffer_append_u32 m b2 bcrc = (Inr (), b3)"
      "appended b b3 ((([] @ [OBUS_PROTOCOL_VERSION]) @ wire_string bus) @ be32 bcrc)"
      by (rule append_u32_then [OF b2(2) ok e]) simp_all
    obtain b4 where b4: "obus_buffer_append_string m b3 client = (Inr (), b4)"
      "appended b b4 (((([] @ [OBUS_PROTOCOL_VERSION]) @ wire_string bus) @ be32 bcrc) @ wire_string client)"
      by (rule wstr.wr_then [OF b3(2) ok assms(3) e]) simp_all
    then show ?thesis using b1(1) b2(1) b3(1) by (simp add: conreq_payload_def)
  qed
  show thesis
    by (rule packet_encode_ok [where ty = OBUS_PKT_CONREQ, OF assms(1,2) enc]) (assumption | rule that | simp add: obus_packet_conreq_encode_def)+
qed

definition ack_payload :: "obus_ack \<Rightarrow> u8 list" where
  "ack_payload ack = be16 (ack_handle ack) @ [ucast (ack_status ack)]"

lemma ack_encode_ok:
  assumes "buf_ok b" "enough m 12"
  obtains b' where "obus_packet_ack_encode m b ack = (Inr (), b')" "buf_ok b'" "content b' = packet_image OBUS_PKT_ACK (ack_payload ack)" "bpos b' = bpos b"
proof -
  let ?enc = "\<lambda>buf. chk (obus_buffer_append_u16 m buf (ack_handle ack)) (\<lambda>_ buf. obus_buffer_append_u8 m buf (ucast (ack_status ack)))"
  have enc: "\<exists>b'. ?enc b = (Inr (), b') \<and> appended b b' (ack_payload ack)"
    if ok: "buf_ok b" and en: "enough m (blength b + length (ack_payload ack))" for b
  proof -
    have e: "enough m k" if "k \<le> blength b + 3" for k by (rule enough_mono [OF en]) (use that in \<open>simp add: ack_payload_def\<close>)
    have b0: "appended b b []" using ok by simp
    obtain b1 where b1: "obus_buffer_append_u16 m b (ack_handle ack) = (Inr (), b1)" "appended b b1 ([] @ be16 (ack_handle ack))"
      by (rule append_u16_then [OF b0 ok e]) simp_all
    obtain b2 where "obus_buffer_append_u8 m b1 (ucast (ack_status ack)) = (Inr (), b2)"
      "appended b b2 (([] @ be16 (ack_handle ack)) @ [ucast (ack_status ack)])"
      by (rule w8.wr_then [OF b1(2) ok _ e]) simp_all
    then show ?thesis using b1(1) by (simp add: ack_payload_def)
  qed
  have "enough m (9 + length (ack_payload ack))" using assms(2) by (simp add: ack_payload_def)
  then show thesis
    by (rule packet_encode_ok [where ty = OBUS_PKT_ACK, OF assms(1) _ enc]) (assumption | rule that | simp add: obus_packet_ack_encode_def)+
qed

section \<open>Payloads are decoded wherever they are\<close>

lemma decodes_ack:
  "decodes m OBUS_PKT_ACK (ack_payload ack) s
    (\<lambda>info s'. info = Ack (ack\<lparr>ack_status := ucast (ucast (ack_status ack) :: u8)\<rparr>) \<and> s' = s)"
  unfolding decodes_def
proof (intro allI impI)
  fix b p rest
  assume "reads_at b p (ack_payload ack @ rest)"
  then have r: "reads_at b p (be16 (ack_handle ack) @ ucast (ack_status ack) # rest)" by (simp add: ack_payload_def)
  note r1 = read_u16_at [OF r, of "p + 2", OF refl]
  note r2 = read_u8_at [OF r1(2)]
  have "pos_only (advance b p) (advance b (p + 2 + 1))" by (auto simp: pos_only_def advance_def)
  moreover have "obus_packet_ack_decode (advance b p) =
      (Inr (ack\<lparr>ack_status := ucast (ucast (ack_status ack) :: u8)\<rparr>), advance b (p + 2 + 1))"
    using r1(1) r2(1) by (simp add: obus_packet_ack_decode_def)
  ultimately show "\<exists>info s' b'. decode_payload m (type_code OBUS_PKT_ACK) s (advance b p) = (Inr info, s', b')
      \<and> (info = Ack (ack\<lparr>ack_status := ucast (ucast (ack_status ack) :: u8)\<rparr>) \<and> s' = s) \<and> pos_only (advance b p) b'"
    using type_code_less [of OBUS_PKT_ACK] by (simp add: decode_payload_def packet_types_def)
qed

lemma decodes_conreq:
  assumes "string_fits client" "string_fits bus" "enough m (length (conreq_payload client bus bcrc))"
  shows "decodes m OBUS_PKT_CONREQ (conreq_payload client bus bcrc) s
    (\<lambda>info s'. info = Conreq \<lparr>cr_version = OBUS_PROTOCOL_VERSION, cr_bus = bus, cr_crc = bcrc, cr_client = client\<rparr> \<and> s' = s)"
  unfolding decodes_def
proof (intro allI impI)
  fix b p rest
  assume "reads_at b p (conreq_payload client bus bcrc @ rest)"
  then have r: "reads_at b p (OBUS_PROTOCOL_VERSION # wire_string bus @ be32 bcrc @ wire_string client @ rest)" by (simp add: conreq_payload_def)
  note r1 = read_u8_at [OF r]
  have e: "enough m (length (wire_string bus))" "enough m (length (wire_string client))"
    by (rule enough_mono [OF assms(3)], simp add: conreq_payload_def)+
  let ?p2 = "p + 1 + length (wire_string bus)"
  let ?p4 = "?p2 + 4 + length (wire_string client)"
  have r2: "obus_buffer_read_string m (advance b (p + 1)) = (Inr (), Some bus, advance b ?p2)" "reads_at b ?p2 (be32 bcrc @ wire_string client @ rest)"
    using read_string_ok [of "advance b (p + 1)" bus _ m] r1(2) reads_at_step [OF r1(2)] assms(2) e(1) by (auto simp: reads_at_def)
  note r3 = read_u32_at [OF r2(2)]
  have r4: "obus_buffer_read_string m (advance b (?p2 + 4)) = (Inr (), Some client, advance b ?p4)"
    using read_string_ok [of "advance b (?p2 + 4)" client rest m] r3(2) assms(1) e(2) by (simp add: reads_at_def)
  have "pos_only (advance b p) (advance b ?p4)" by (auto simp: pos_only_def advance_def)
  moreover have "obus_packet_conreq_decode m (advance b p) =
      (Inr \<lparr>cr_version = OBUS_PROTOCOL_VERSION, cr_bus = bus, cr_crc = bcrc, cr_client = client\<rparr>, advance b ?p4)"
    using r1(1) r2(1) r3(1) r4 by (simp add: obus_packet_conreq_decode_def)
  ultimately show "\<exists>info s' b'. decode_payload m (type_code OBUS_PKT_CONREQ) s (advance b p) = (Inr info, s', b')
      \<and> (info = Conreq \<lparr>cr_version = OBUS_PROTOCOL_VERSION, cr_bus = bus, cr_crc = bcrc, cr_client = client\<rparr> \<and> s' = s) \<and> pos_only (advance b p) b'"
    using type_code_less [of OBUS_PKT_CONREQ] by (simp add: decode_payload_def packet_types_def)
qed

lemma call_packet_ok:
  assumes "args_ok c" "objs s (c_obj c) = Some obj" "calls s p = Some c" "p \<noteq> 0" "buf_ok b"
    "payload = wire_call (od_uid (o_desc obj)) (o_handle obj) (m_uid (c_desc c)) (c_handle c) (args_wire (c_args c))"
    "enough m (9 + length payload)"
  obtains b' where "obus_packet_call_encode m s b p = (Inr (), b')" "content b' = packet_image OBUS_PKT_CALL payload"
proof -
  have enc: "\<exists>b'. obus_call_encode m s c b = (Inr (), b') \<and> appended b b' payload"
    if ok: "buf_ok b" and en: "enough m (blength b + length payload)" for b
    by (rule call_encode_ok [OF _ assms(2), of b b "[]" m]) (use assms(1,6) ok en in \<open>auto simp: args_ok_def\<close>)
  show thesis
    by (rule packet_encode_ok [where ty = OBUS_PKT_CALL, OF assms(5,7) enc])
      (assumption | rule that | simp add: obus_packet_call_encode_def assms(3,4))+
qed

lemma decodes_call:
  assumes "args_ok c" "length (args_wire (c_args c)) < 2 ^ 32" "objects_ok t" "fresh_addrs t"
    "call_target t uid handle (m_uid (c_desc c)) = Some (a, c_desc c)"
    "\<forall>st. c_args c = Some st \<longrightarrow> enough m (entries_need (struct_entries st))" "alloc_ok m (call_size (c_desc c))"
  shows "decodes m OBUS_PKT_CALL (wire_call uid handle (m_uid (c_desc c)) (c_handle c) (args_wire (c_args c))) t
    (\<lambda>info t'. info = Call (next_addr t) \<and> (\<exists>args'. rel_option carries (c_args c) args' \<and>
       t' = t\<lparr>calls := (calls t)(next_addr t \<mapsto> new_call (c_desc c) a (c_handle c) args'), next_addr := Suc (next_addr t)\<rparr>))"
  unfolding decodes_def
proof (intro allI impI, goal_cases)
  case (1 b p rest)
  obtain args' where d: "obus_call_decode m t (advance b p) =
      (Inr (next_addr t), t\<lparr>calls := (calls t)(next_addr t \<mapsto> new_call (c_desc c) a (c_handle c) args'), next_addr := Suc (next_addr t)\<rparr>,
       advance b (p + 12 + length (args_wire (c_args c))))" "rel_option carries (c_args c) args'"
    by (rule call_decode_ok [OF assms(1-3,5-7) 1])
  have "next_addr t \<noteq> 0" using assms(4) by (simp add: fresh_addrs_def)
  moreover have "pos_only (advance b p) (advance b k)" for k by (auto simp: pos_only_def advance_def)
  ultimately show ?case using type_code_less [of OBUS_PKT_CALL] d
    by (auto simp: decode_payload_def packet_types_def obus_packet_call_decode_def not_null_def)
qed

lemma bus_event_packet_ok:
  assumes "members s e adds rems evs" "\<forall>obj\<in>set adds. struct_ok (o_info obj)" "\<forall>x\<in>set evs. struct_ok (e_info (snd x))"
    "bevts s p = Some e" "p \<noteq> 0" "buf_ok b" "enough m (9 + length (bus_event_wire (be_desc e) adds rems evs))"
  obtains b' where "obus_packet_bus_event_encode m s b p = (Inr (), b')"
    "content b' = packet_image OBUS_PKT_BUS_EVENT (bus_event_wire (be_desc e) adds rems evs)"
proof -
  have enc: "\<exists>b'. obus_bus_event_encode m s e b = (Inr (), b') \<and> appended b b' (bus_event_wire (be_desc e) adds rems evs)"
    if ok: "buf_ok b" and en: "enough m (blength b + length (bus_event_wire (be_desc e) adds rems evs))" for b
    by (rule bus_event_encode_ok [OF assms(1-3) ok en]) blast
  show thesis
    by (rule packet_encode_ok [where ty = OBUS_PKT_BUS_EVENT, OF assms(6,7) enc])
      (assumption | rule that | simp add: obus_packet_bus_event_encode_def assms(4,5))+
qed

lemma decodes_bus_event:
  assumes "counts_fit adds rems evs" "objects_ok t" "fresh_addrs t"
    "\<forall>obj\<in>set adds. sendable m (bus_api t) obj" "\<forall>obj\<in>set rems. obus_bus_object t (o_handle obj) \<noteq> 0"
    "removable t (map (\<lambda>obj. (od_uid (o_desc obj), o_handle obj)) rems)"
    "\<forall>x\<in>set evs. event_sendable m (bus_api t) x \<and> knows t (fst x)"
    "obus_bus_api_bus_event (bus_api t) (be_uid desc) = Some desc" "alloc_ok m sizeof_bus_event"
  shows "decodes m OBUS_PKT_BUS_EVENT (bus_event_wire desc adds rems evs) t
    (\<lambda>info t'. info = Bus_Event (next_addr t) \<and> delivered t desc adds rems evs t' (next_addr t))"
  unfolding decodes_def
proof (intro allI impI, goal_cases)
  case (1 b p rest)
  obtain t' k where d: "obus_bus_event_decode m t (advance b p) = (Inr (next_addr t), t', advance b k)"
    "delivered t desc adds rems evs t' (next_addr t)"
    by (rule bus_event_delivered [OF assms 1])
  have "next_addr t \<noteq> 0" using assms(3) by (simp add: fresh_addrs_def)
  moreover have "pos_only (advance b p) (advance b k)" for k by (auto simp: pos_only_def advance_def)
  ultimately show ?case using type_code_less [of OBUS_PKT_BUS_EVENT] d
    by (auto simp: decode_payload_def packet_types_def obus_packet_bus_event_decode_def not_null_def)
qed

section \<open>From the encoder to the decoder at the other end\<close>

text \<open>
  An idle decoder whose stream has the given bytes next, after noise perhaps, in whatever pieces
  they arrive: one call of \<open>obus_packet_decoder_read\<close> returns a packet of which \<open>Q\<close> is true and the
  decoder is idle again, in front of exactly the bytes that follow.
\<close>

definition receives :: "memory \<Rightarrow> bus_state \<Rightarrow> u8 list \<Rightarrow> (obus_packet_info \<Rightarrow> bus_state \<Rightarrow> bool) \<Rightarrow> bool" where
  "receives m t bytes Q \<longleftrightarrow>
     (\<forall>M cs d g rest. idle M cs d \<longrightarrow> stream cs d = g @ bytes @ rest \<longrightarrow> noise g (bytes @ rest) \<longrightarrow> enough m M \<longrightarrow>
        2 * length (stream cs d) \<le> M \<longrightarrow>
        (\<exists>info t' cs' d'. obus_packet_decoder_read m d t = Some (Inr info, d', t') \<and> Q info t'
           \<and> idle M cs' d' \<and> stream cs' d' = rest))"

lemma decodes_receives:
  assumes "decodes m ty payload t Q" "9 + length payload < 2 ^ 32"
  shows "receives m t (packet_image ty payload) Q"
  unfolding receives_def
proof (intro allI impI, goal_cases)
  case (1 M cs d g rest)
  show ?case by (rule decoder_read_ok [OF 1(1-3) assms(2,1) 1(4,5)]) blast
qed

text \<open>
  C25. A call reaches the server. The packet that \<open>obus_packet_call_encode\<close> makes of a call is read
  by \<open>obus_packet_decoder_read\<close> of a server that has the object and the method, however the
  stream is cut into pieces and whatever noise comes first: the result is a new call of the same
  method on the server's object with the same handle and arguments, nothing else of the bus
  changes, and the decoder stands in front of what follows the packet.
\<close>

theorem call_received:
  assumes "calls s p = Some c" "p \<noteq> 0" "objs s (c_obj c) = Some obj" "args_ok c" "objects_ok t" "fresh_addrs t"
    "call_target t (od_uid (o_desc obj)) (o_handle obj) (m_uid (c_desc c)) = Some (a, c_desc c)"
    "21 + length (args_wire (c_args c)) < 2 ^ 32" "buf_ok b" "enough m (21 + length (args_wire (c_args c)))"
    "\<forall>st. c_args c = Some st \<longrightarrow> enough m (entries_need (struct_entries st))" "alloc_ok m (call_size (c_desc c))"
  shows "\<exists>b'. obus_packet_call_encode m s b p = (Inr (), b') \<and> receives m t (content b')
    (\<lambda>info t'. info = Call (next_addr t) \<and> (\<exists>args'. rel_option carries (c_args c) args' \<and>
       t' = t\<lparr>calls := (calls t)(next_addr t \<mapsto> new_call (c_desc c) a (c_handle c) args'), next_addr := Suc (next_addr t)\<rparr>))"
proof -
  let ?w = "wire_call (od_uid (o_desc obj)) (o_handle obj) (m_uid (c_desc c)) (c_handle c) (args_wire (c_args c))"
  have "enough m (9 + length ?w)" "9 + length ?w < 2 ^ 32" "length (args_wire (c_args c)) < 2 ^ 32" using assms(8,10) by simp_all
  moreover obtain b' where "obus_packet_call_encode m s b p = (Inr (), b')" "content b' = packet_image OBUS_PKT_CALL ?w"
    by (rule call_packet_ok [OF assms(4,3,1,2,9) refl calculation(1)])
  ultimately show ?thesis using decodes_receives [OF decodes_call [OF assms(4) _ assms(5-7,11,12)]] by auto
qed

text \<open>
  C13. A bus event reaches the client: the packet that \<open>obus_packet_bus_event_encode\<close> makes is read
  by the decoder of a client that declares the bus event and knows its objects, however the stream
  is cut into pieces and whatever noise comes first, as a bus event with the same description, the
  objects added, the objects removed and the object events in the same order.
\<close>

theorem bus_event_received:
  assumes "bevts s p = Some e" "p \<noteq> 0" "members s e adds rems evs" "counts_fit adds rems evs" "objects_ok t" "fresh_addrs t"
    "\<forall>obj\<in>set adds. sendable m (bus_api t) obj" "\<forall>obj\<in>set rems. obus_bus_object t (o_handle obj) \<noteq> 0"
    "removable t (map (\<lambda>obj. (od_uid (o_desc obj), o_handle obj)) rems)"
    "\<forall>x\<in>set evs. event_sendable m (bus_api t) x \<and> knows t (fst x)"
    "obus_bus_api_bus_event (bus_api t) (be_uid (be_desc e)) = Some (be_desc e)"
    "9 + length (bus_event_wire (be_desc e) adds rems evs) < 2 ^ 32" "buf_ok b"
    "enough m (9 + length (bus_event_wire (be_desc e) adds rems evs))" "alloc_ok m sizeof_bus_event"
  shows "\<exists>b'. obus_packet_bus_event_encode m s b p = (Inr (), b') \<and> receives m t (content b')
    (\<lambda>info t'. info = Bus_Event (next_addr t) \<and> delivered t (be_desc e) adds rems evs t' (next_addr t))"
proof -
  have so: "\<forall>obj\<in>set adds. struct_ok (o_info obj)" "\<forall>x\<in>set evs. struct_ok (e_info (snd x))"
    using assms(7,10) by (auto simp: sendable_def event_sendable_def)
  obtain b' where "obus_packet_bus_event_encode m s b p = (Inr (), b')"
    "content b' = packet_image OBUS_PKT_BUS_EVENT (bus_event_wire (be_desc e) adds rems evs)"
    by (rule bus_event_packet_ok [OF assms(3) so assms(1,2,13,14)])
  then show ?thesis using decodes_receives [OF decodes_bus_event [OF assms(4-11,15)] assms(12)] by auto
qed

text \<open>
  A connection request reaches the server: the names and the checksum that
  \<open>obus_packet_conreq_encode\<close> was given come out of the server's decoder, with the version of the
  protocol, and the state of the bus is untouched.
\<close>

theorem conreq_received:
  assumes "buf_ok b" "string_fits client" "string_fits bus"
    "enough m (9 + length (conreq_payload client bus bcrc))" "9 + length (conreq_payload client bus bcrc) < 2 ^ 32"
  shows "\<exists>b'. obus_packet_conreq_encode m b client bus bcrc = (Inr (), b') \<and> receives m t (content b')
    (\<lambda>info t'. info = Conreq \<lparr>cr_version = OBUS_PROTOCOL_VERSION, cr_bus = bus, cr_crc = bcrc, cr_client = client\<rparr> \<and> t' = t)"
proof -
  obtain b' where "obus_packet_conreq_encode m b client bus bcrc = (Inr (), b')"
    "content b' = packet_image OBUS_PKT_CONREQ (conreq_payload client bus bcrc)"
    by (rule conreq_encode_ok [OF assms(1,4,2,3)])
  moreover have "enough m (length (conreq_payload client bus bcrc))" by (rule enough_mono [OF assms(4)]) simp
  ultimately show ?thesis using decodes_receives [OF decodes_conreq [OF assms(2,3)] assms(5)] by auto
qed

text \<open>
  An acknowledgement reaches the client with the handle of its call; of the status, an
  enumeration, the low eight bits.
\<close>

theorem ack_received:
  assumes "buf_ok b" "enough m 12"
  shows "\<exists>b'. obus_packet_ack_encode m b ack = (Inr (), b') \<and> receives m t (content b')
    (\<lambda>info t'. info = Ack (ack\<lparr>ack_status := ucast (ucast (ack_status ack) :: u8)\<rparr>) \<and> t' = t)"
proof -
  obtain b' where "obus_packet_ack_encode m b ack = (Inr (), b')" "content b' = packet_image OBUS_PKT_ACK (ack_payload ack)"
    by (rule ack_encode_ok [OF assms])
  moreover have "9 + length (ack_payload ack) < 2 ^ 32" by (simp add: ack_payload_def)
  ultimately show ?thesis using decodes_receives [OF decodes_ack] by auto
qed

section \<open>Sequences of packets\<close>

text \<open>The packets of the first calls of \<open>obus_packet_decoder_read\<close>, as long as they succeed.\<close>

primrec read_packets :: "memory \<Rightarrow> nat \<Rightarrow> obus_packet_decoder \<Rightarrow> bus_state \<Rightarrow>
    (obus_packet_info list \<times> obus_packet_decoder \<times> bus_state) option" where
  "read_packets m 0 d s = Some ([], d, s)"
| "read_packets m (Suc n) d s =
     (case obus_packet_decoder_read m d s of
        Some (Inr info, d, s) \<Rightarrow> map_option (map_prod (Cons info) id) (read_packets m n d s)
      | _ \<Rightarrow> None)"

text \<open>Payloads one after the other, each decoded in the state the ones before it leave.\<close>

fun decodes_all :: "memory \<Rightarrow> bus_state \<Rightarrow> (obus_packet_type \<times> u8 list) list \<Rightarrow> obus_packet_info list \<Rightarrow> bus_state \<Rightarrow> bool" where
  "decodes_all m s [] [] s' \<longleftrightarrow> s' = s"
| "decodes_all m s ((ty, payload) # ps) (info # infos) s' \<longleftrightarrow> 9 + length payload < 2 ^ 32 \<and>
     (\<exists>s1. decodes m ty payload s (\<lambda>i t. i = info \<and> t = s1) \<and> decodes_all m s1 ps infos s')"
| "decodes_all m s _ _ s' \<longleftrightarrow> False"

text \<open>
  C1. Packets neither get lost nor mixed up. When the stream of an idle decoder is a sequence of
  packets, cut into pieces anywhere, then that many calls of \<open>obus_packet_decoder_read\<close> return
  exactly these packets in this order, each decoded in the state of the bus that the ones before
  it left, and leave the decoder idle in front of what follows the last one.
\<close>

theorem packets_in_order:
  assumes "idle M cs d" "stream cs d = concat (map (\<lambda>(ty, payload). packet_image ty payload) ps) @ rest"
    "decodes_all m s ps infos s'" "enough m M" "2 * length (stream cs d) \<le> M"
  shows "\<exists>d' cs'. read_packets m (length ps) d s = Some (infos, d', s') \<and> idle M cs' d' \<and> stream cs' d' = rest"
  using assms(1-3,5)
proof (induction ps arbitrary: cs d s infos)
  case Nil
  then show ?case by (cases infos) auto
next
  case (Cons x ps)
  obtain ty payload where x: "x = (ty, payload)" by (cases x)
  let ?more = "concat (map (\<lambda>(ty, payload). packet_image ty payload) ps) @ rest"
  obtain info infos' s1 where i: "infos = info # infos'" "9 + length payload < 2 ^ 32"
    "decodes m ty payload s (\<lambda>i t. i = info \<and> t = s1)" "decodes_all m s1 ps infos' s'"
    using Cons.prems(3) x by (cases infos) auto
  have st: "stream cs d = [] @ packet_image ty payload @ ?more" using Cons.prems(2) x by simp
  have "noise [] (packet_image ty payload @ ?more)" by (simp add: noise_def)
  then obtain info' s1' cs1 d1 where r: "obus_packet_decoder_read m d s = Some (Inr info', d1, s1')" "info' = info \<and> s1' = s1"
    "idle M cs1 d1" "stream cs1 d1 = ?more"
    by (rule decoder_read_ok [OF Cons.prems(1) st _ i(2,3) assms(4) Cons.prems(4)])
  have "\<exists>d' cs'. read_packets m (length ps) d1 s1 = Some (infos', d', s') \<and> idle M cs' d' \<and> stream cs' d' = rest"
    by (rule Cons.IH [OF r(3,4) i(4)]) (use r(4) st Cons.prems(4) in simp)
  then show ?case using r(1,2) i(1) by auto
qed

section \<open>Where the decoder fails\<close>

text \<open>A loop in which every turn leads to another one never ends.\<close>

lemma decoder_loop_stuck:
  assumes "\<And>d. I d \<Longrightarrow> \<exists>d'. decoder_turn m rm d s = (None, rm, d', s) \<and> I d'" "I d"
  shows "decoder_loop m rm d s = None"
proof -
  have "\<not> (m' = m \<and> rm' = rm \<and> s' = s \<and> I d')" if "decoder_loop m' rm' d' s' = Some y" for m' rm' d' s' y
    using that
  proof (rule decoder_loop.raw_induct [rotated], goal_cases)
    case (1 f m' rm' d' s' y)
    show ?case
    proof
      assume i: "m' = m \<and> rm' = rm \<and> s' = s \<and> I d'"
      then obtain d2 where d2: "decoder_turn m rm d' s = (None, rm, d2, s)" "I d2" using assms(1) by blast
      then have "f m rm d2 s = Some y" using 1(2) i by simp
      then show False using 1(1) [of m rm d2 s y] d2(2) by simp
    qed
  qed
  then show ?thesis using assms(2) by (metis option.exhaust)
qed

text \<open>Reading: a piece that fits into an empty buffer, and nothing.\<close>

lemma more_whole:
  assumes "buf_ok (d_buf d)" "blength (d_buf d) = 0" "d_in d = [Bytes c]" "c \<noteq> []" "length c \<le> bsize (d_buf d)" "enough m (bsize (d_buf d))"
  obtains b' where "decoder_more m d = (Inr (), d\<lparr>d_in := [], d_buf := b'\<rparr>)" "buf_ok b'" "content b' = c" "bpos b' = bpos (d_buf d)"
    "bsize (d_buf d) \<le> bsize b'"
proof -
  let ?b = "d_buf d"
  have en: "enough m (blength ?b + bsize ?b)" using assms(2,6) by simp
  have pos: "0 < bsize ?b" using assms(4,5) by (cases c) auto
  obtain b' where b': "obus_io_read m [Bytes c] ?b (bsize ?b) = (Inr (length (take (bsize ?b) c)),
       if bsize ?b < length c then [Bytes (drop (bsize ?b) c)] else [], b')"
    "buf_ok b'" "content b' = content ?b @ take (bsize ?b) c" "bpos b' = bpos ?b" "bsize ?b \<le> bsize b'"
    by (rule io_read_ok [OF assms(1) pos en assms(4)])
  have "obus_buffer_write_space ?b = bsize ?b" using assms(2) buf_okD [OF assms(1)] by (simp add: obus_buffer_write_space_def)
  then have "decoder_more m d = (Inr (), d\<lparr>d_in := [], d_buf := b'\<rparr>)"
    using b'(1) assms(3-5) pos by (simp add: decoder_more_def Let_def)
  moreover have "content b' = c" using b'(3) assms(2,5) by (simp add: content_def)
  ultimately show thesis using that b'(2,4,5) by simp
qed

lemma turn_without_input:
  assumes "buf_ok (d_buf d)" "blength (d_buf d) < bsize (d_buf d)" "d_in d = []"
  shows "decoder_turn m True d s = (Some (Inl EAGAIN), True, d, s)"
proof -
  let ?b = "d_buf d"
  have "obus_io_read m [] ?b (bsize ?b - blength ?b) = (Inl EAGAIN, [], ?b)" "obus_buffer_write_space ?b = bsize ?b - blength ?b"
    using assms(2) buf_okD [OF assms(1)]
    by (simp_all add: obus_io_read_def obus_buffer_ensure_write_space_def obus_buffer_ensure_realloc_def obus_buffer_write_space_def)
  then show ?thesis using assms(2,3) by (simp add: decoder_turn_def decoder_more_def Let_def)
qed

lemma read_in_three_turns:
  assumes "decoder_turn m False d s = (None, True, d1, s)" "decoder_turn m True d1 s = (None, True, d2, s)"
    "decoder_turn m True d2 s = (Some r, True, d2, s)"
  shows "obus_packet_decoder_read m d s = Some (r, d2, s)"
  using decoder_loop.simps [of m False d s] decoder_loop.simps [of m True d1 s] decoder_loop.simps [of m True d2 s] assms
  by (simp add: obus_packet_decoder_read_def)

text \<open>The header of an acknowledgement that gives its own size as nothing.\<close>

definition empty_header :: "u8 list" where
  "empty_header = be32 obus_magic @ be32 0 @ [type_code OBUS_PKT_ACK]"

lemma empty_header_simps: "length empty_header = 9" "header_at empty_header"
  "header_of empty_header = \<lparr>hdr_magic = obus_magic, hdr_size = 0, hdr_type = 7\<rparr>"
proof -
  obtain a b c d where m: "be32 obus_magic = [a, b, c, d]" "of_be32 a b c d = obus_magic" using be32_split by blast
  obtain e f g h where n: "be32 0 = [e, f, g, h]" "of_be32 e f g h = 0" using be32_split by blast
  show l: "length empty_header = 9" by (simp add: empty_header_def)
  show h: "header_of empty_header = \<lparr>hdr_magic = obus_magic, hdr_size = 0, hdr_type = 7\<rparr>"
    unfolding empty_header_def m(1) n(1) by (simp add: header_of_def m(2) n(2))
  show "header_at empty_header" by (simp add: header_at_def l h good_header_def OBUS_PKT_COUNT_def word_le_nat_alt)
qed

text \<open>The empty packet is found, not decoded and not removed.\<close>

lemma empty_packet_kept:
  assumes "buf_ok (d_buf d)" "bpos (d_buf d) = 0" "content (d_buf d) = empty_header" "\<not> d_hdr_valid d"
  obtains b' where
    "(case (if d_hdr_valid d then (Inr (), d) else obus_packet_decode_header d) of
        (Inl _, d) \<Rightarrow> (None, True, d, s) | (Inr _, d) \<Rightarrow> decoder_packet m rm d s) =
      (None, rm, d\<lparr>d_hdr := header_of empty_header, d_buf := b'\<rparr>, s)"
    "buf_ok b'" "bpos b' = 0" "content b' = empty_header" "bsize b' = bsize (d_buf d)"
proof -
  obtain b1 where b1: "obus_packet_decode_header d = (Inr (), d\<lparr>d_hdr := header_of (drop 0 (content (d_buf d))), d_buf := b1, d_hdr_valid := True\<rparr>)"
    "buf_ok b1" "content b1 = drop 0 (content (d_buf d))" "bpos b1 = 9" "bsize b1 = bsize (d_buf d)"
    by (rule decode_header_found [OF assms(1,2), of 0]) (simp_all add: assms(3) empty_header_simps)
  have l: "blength b1 = 9" using length_content [OF b1(2)] b1(3) assms(3) empty_header_simps(1) by simp
  then have "obus_packet_ack_decode b1 = (Inl EINVAL, b1)"
    using b1(4) by (simp add: obus_packet_ack_decode_def obus_buffer_read_u16_def)
  then have dp: "decode_payload m 7 s b1 = (Inl EINVAL, s, b1)"
    by (simp add: decode_payload_def packet_types_def OBUS_PKT_COUNT_def word_le_nat_alt)
  have b: "snd (obus_buffer_set_read_position (obus_buffer_remove_first b1 0) 0) = b1\<lparr>bpos := 0\<rparr>"
    by (simp add: obus_buffer_remove_first_def obus_buffer_set_read_position_def)
  show thesis
  proof (rule that [of "b1\<lparr>bpos := 0\<rparr>"])
    show "(case (if d_hdr_valid d then (Inr (), d) else obus_packet_decode_header d) of
        (Inl _, d) \<Rightarrow> (None, True, d, s) | (Inr _, d) \<Rightarrow> decoder_packet m rm d s) =
      (None, rm, d\<lparr>d_hdr := header_of empty_header, d_buf := b1\<lparr>bpos := 0\<rparr>\<rparr>, s)"
      using assms(3,4) b1(1) dp b by (simp add: decoder_packet_def empty_header_simps(3) Let_def)
  qed (use b1 assms(3) in \<open>simp_all add: buf_ok_def content_def\<close>)
qed

text \<open>
  C38. A header that gives its size as zero is enough to hang the receiver. Nine bytes (the magic
  word, the size 0, the type of an acknowledgement) reach an idle decoder with an empty buffer:
  the call of \<open>obus_packet_decoder_read\<close> returns \<open>EAGAIN\<close>, and no later call returns, whatever
  arrives; the packet is not decoded and removing its zero bytes from the buffer leaves it there.
\<close>

theorem zero_size_header_hangs:
  assumes "idle M [empty_header] d" "content (d_buf d) = []" "9 < bsize (d_buf d)" "enough m M"
  shows "\<exists>d'. obus_packet_decoder_read m d s = Some (Inl EAGAIN, d', s)
    \<and> (\<forall>inp. obus_packet_decoder_read m (d'\<lparr>d_in := inp\<rparr>) s = None)"
proof -
  let ?b = "d_buf d"
  have i: "buf_ok ?b" "bpos ?b = 0" "\<not> d_hdr_valid d" "d_in d = [Bytes empty_header]" "bsize ?b \<le> M"
    using assms(1) by (simp_all add: idle_def supplied_def)
  have none: "\<not> header_at (drop j (content ?b))" for j by (simp add: assms(2) header_at_def)
  obtain h b1 where b1: "obus_packet_decode_header d = (Inl EAGAIN, d\<lparr>d_hdr := h, d_buf := b1\<rparr>)"
    "buf_ok b1" "content b1 = drop (blength ?b - 8) (content ?b)" "bpos b1 = 0" "bsize b1 = bsize ?b"
    by (rule decode_header_none [OF i(1,2) none])
  let ?d1 = "d\<lparr>d_hdr := h, d_buf := b1\<rparr>"
  have l1: "blength b1 = 0" using length_content [OF b1(2)] b1(3) assms(2) by simp
  have t1: "decoder_turn m False d s = (None, True, ?d1, s)" using b1(1) i(3) by (simp add: decoder_turn_def)
  have "enough m (bsize b1)" by (rule enough_mono [OF assms(4)]) (simp add: b1(5) i(5))
  moreover have "empty_header \<noteq> []" by (simp add: empty_header_def)
  ultimately obtain b2 where b2: "decoder_more m ?d1 = (Inr (), ?d1\<lparr>d_in := [], d_buf := b2\<rparr>)" "buf_ok b2" "content b2 = empty_header"
    "bpos b2 = bpos (d_buf ?d1)" "bsize (d_buf ?d1) \<le> bsize b2"
    using more_whole [of ?d1 empty_header m] b1(2,5) l1 i(4) assms(3) empty_header_simps(1) by auto
  let ?d2 = "d\<lparr>d_hdr := h, d_in := [], d_buf := b2\<rparr>"
  obtain b3 where b3: "(case (if d_hdr_valid ?d2 then (Inr (), ?d2) else obus_packet_decode_header ?d2) of
        (Inl _, d) \<Rightarrow> (None, True, d, s) | (Inr _, d) \<Rightarrow> decoder_packet m True d s) =
      (None, True, ?d2\<lparr>d_hdr := header_of empty_header, d_buf := b3\<rparr>, s)"
    "buf_ok b3" "bpos b3 = 0" "content b3 = empty_header" "bsize b3 = bsize (d_buf ?d2)"
    by (rule empty_packet_kept [of ?d2 s m True]) (use b2 b1(4) i(3) in simp_all)
  let ?d3 = "?d2\<lparr>d_hdr := header_of empty_header, d_buf := b3\<rparr>"
  have t2: "decoder_turn m True ?d1 s = (None, True, ?d3, s)" using b2(1) b3(1) by (simp add: decoder_turn_def)
  have l3: "blength b3 = 9" using length_content [OF b3(2)] b3(4) empty_header_simps(1) by simp
  have "9 < bsize b3" using b3(5) b2(5) b1(5) assms(3) by simp
  then have "decoder_turn m True ?d3 s = (Some (Inl EAGAIN), True, ?d3, s)"
    using turn_without_input [of ?d3 m s] b3(2) l3 by simp
  then have "obus_packet_decoder_read m d s = Some (Inl EAGAIN, ?d3, s)" by (rule read_in_three_turns [OF t1 t2])
  moreover have "obus_packet_decoder_read m (?d3\<lparr>d_in := inp\<rparr>) s = None" for inp
    unfolding obus_packet_decoder_read_def
  proof (rule decoder_loop_stuck [where I = "\<lambda>d. buf_ok (d_buf d) \<and> bpos (d_buf d) = 0 \<and> content (d_buf d) = empty_header \<and> \<not> d_hdr_valid d"], goal_cases)
    case (1 d)
    then obtain b' where b': "(case (if d_hdr_valid d then (Inr (), d) else obus_packet_decode_header d) of
        (Inl _, d) \<Rightarrow> (None, True, d, s) | (Inr _, d) \<Rightarrow> decoder_packet m False d s) =
      (None, False, d\<lparr>d_hdr := header_of empty_header, d_buf := b'\<rparr>, s)"
      "buf_ok b'" "bpos b' = 0" "content b' = empty_header"
      using empty_packet_kept [of d s m False] by blast
    then show ?case using 1 by (simp add: decoder_turn_def)
  qed (use b3 i(3) in simp)
  ultimately show ?thesis by blast
qed

text \<open>
  A reset in the middle of a packet loses the next one. The read position stands behind the
  header of the packet that was pending (nine bytes in); \<open>obus_packet_decoder_reset\<close> empties the
  buffer and keeps the position, so the search for the header of the packet that comes next starts
  nine bytes into it. When no header starts there, \<open>obus_packet_decoder_read\<close> returns \<open>EAGAIN\<close>
  and drops all of that packet but its last eight bytes.
\<close>

theorem reset_loses_packet:
  assumes "buf_ok (d_buf d)" "bpos (d_buf d) = 9" "enough m (bsize (d_buf d))" "d_in d = [Bytes (packet_image ty payload)]"
    "0 < length payload" "9 + length payload < bsize (d_buf d)"
    "\<forall>j. \<not> header_at (drop j payload)"
  shows "\<exists>d'. obus_packet_decoder_read m (obus_packet_decoder_reset d) s = Some (Inl EAGAIN, d', s)
    \<and> content (d_buf d') = drop (length payload + 1) (packet_image ty payload) \<and> d_in d' = []"
proof -
  let ?d0 = "obus_packet_decoder_reset d" and ?img = "packet_image ty payload"
  define b0 where "b0 = obus_buffer_clear (d_buf d)"
  have b0: "buf_ok b0" "blength b0 = 0" "bpos b0 = 9" "bsize b0 = bsize (d_buf d)" "content b0 = []"
    using assms(1,2) by (simp_all add: b0_def obus_buffer_clear_def buf_ok_def content_def)
  have d0: "d_buf ?d0 = b0" "d_in ?d0 = [Bytes ?img]" "\<not> d_hdr_valid ?d0"
    by (simp_all add: obus_packet_decoder_reset_def b0_def assms(4))
  have "find_header (d_hdr ?d0) b0 = (None, d_hdr ?d0, b0)"
    using b0 by (simp add: find_header.simps [of _ b0] obus_buffer_read_length_def OBUS_PKT_HDR_SIZE_def)
  then have "obus_packet_decode_header ?d0 = (Inl EAGAIN, ?d0)"
    using b0(2) d0(1) by (simp add: obus_packet_decode_header_def OBUS_PKT_HDR_SIZE_def)
  then have t1: "decoder_turn m False ?d0 s = (None, True, ?d0, s)" using d0(3) by (simp add: decoder_turn_def)
  have "?img \<noteq> []" by (simp add: packet_image_def)
  then obtain b1 where b1: "decoder_more m ?d0 = (Inr (), ?d0\<lparr>d_in := [], d_buf := b1\<rparr>)" "buf_ok b1" "content b1 = ?img"
    "bpos b1 = 9" "bsize b0 \<le> bsize b1"
    using more_whole [of ?d0 ?img m] b0 d0 assms(3,6) by auto
  let ?d1 = "?d0\<lparr>d_in := [], d_buf := b1\<rparr>"
  have l1: "blength b1 = 9 + length payload" using length_content [OF b1(2)] b1(3) by simp
  have u: "unread b1 = payload" using b1(3,4) by (simp add: unread_def packet_image_def)
  have "\<exists>h. find_header (d_hdr ?d1) b1 = (None, h, advance b1 (length (unread b1) - 8))"
    by (rule find_header_none [OF b1(2)]) (use l1 b1(4) u assms(7) in simp_all)
  then obtain h where h: "find_header (d_hdr ?d1) b1 = (None, h, advance b1 (length payload - 8))" using u by auto
  let ?b2 = "obus_buffer_remove_first (advance b1 (length payload - 8)) (length payload + 1)"
  let ?d2 = "?d1\<lparr>d_hdr := h, d_buf := ?b2\<rparr>"
  have "obus_packet_decode_header ?d1 = (Inl EAGAIN, ?d2)"
    using h l1 by (simp add: obus_packet_decode_header_def OBUS_PKT_HDR_SIZE_def)
  then have t2: "decoder_turn m True ?d0 s = (None, True, ?d2, s)" using b1(1) d0(3) by (simp add: decoder_turn_def)
  have a: "buf_ok (advance b1 (length payload - 8))"
    by (rule unread_drop(2) [OF b1(2)]) (use u l1 b1(4) in simp_all)
  note r = remove_first_content [OF a, of "length payload + 1"]
  have c2: "content ?b2 = drop (length payload + 1) ?img" "buf_ok ?b2" using r b1(3) by simp_all
  have l2: "blength ?b2 = 8" "bsize ?b2 = bsize b1" using length_content [OF c2(2)] c2(1) by (simp_all add: obus_buffer_remove_first_def)
  then have "decoder_turn m True ?d2 s = (Some (Inl EAGAIN), True, ?d2, s)"
    using turn_without_input [of ?d2 m s] c2(2) b1(5) b0(4) assms(6) by simp
  then have "obus_packet_decoder_read m ?d0 s = Some (Inl EAGAIN, ?d2, s)" by (rule read_in_three_turns [OF t1 t2])
  then show ?thesis using c2(1) by simp
qed

section \<open>Examples of packets\<close>

definition sample_decoder :: "u8 list list \<Rightarrow> obus_packet_decoder" where
  "sample_decoder cs = obus_packet_decoder_init
     \<lparr>d_hdr = \<lparr>hdr_magic = 0, hdr_size = 0, hdr_type = 0\<rparr>, d_hdr_valid = False, d_buf = buffer_of [], d_in = [], d_log_hdr = False\<rparr>
     (buffer_of (replicate 32 0)) (map Bytes cs) False"

lemma sample_decoder_idle:
  assumes "[] \<notin> set cs" "32 \<le> M"
  shows "idle M cs (sample_decoder cs)" "stream cs (sample_decoder cs) = concat cs"
    "content (d_buf (sample_decoder cs)) = []" "bsize (d_buf (sample_decoder cs)) = 32"
  using assms by (simp_all add: sample_decoder_def obus_packet_decoder_init_def idle_def supplied_def stream_def obus_buffer_clear_def
      obus_buffer_ref_def buffer_of_def buf_ok_def content_def)

definition bytewise :: "u8 list \<Rightarrow> u8 list list" where
  "bytewise xs = map (\<lambda>x. [x]) xs"

lemma bytewise_simps: "concat (bytewise xs) = xs" "[] \<notin> set (bytewise xs)"
  by (induction xs) (simp_all add: bytewise_def)

lemma receives_bytewise:
  assumes "receives full_memory t bytes Q" "length bytes \<le> 1000"
  shows "\<exists>info t' d'. obus_packet_decoder_read full_memory (sample_decoder (bytewise bytes)) t = Some (Inr info, d', t') \<and> Q info t'"
proof -
  note i = sample_decoder_idle [OF bytewise_simps(2) [of bytes], of 2000]
  have "stream (bytewise bytes) (sample_decoder (bytewise bytes)) = [] @ bytes @ []" "noise [] (bytes @ [])"
    using i(2) by (simp_all add: bytewise_simps(1) noise_def)
  moreover have "enough full_memory 2000" by simp
  ultimately show ?thesis
    using assms(1) [unfolded receives_def, rule_format, of 2000 "bytewise bytes" "sample_decoder (bytewise bytes)" "[]" "[]"]
      i(1) assms(2) by fastforce
qed

lemma ack_received_witness:
  "\<forall>t. \<exists>b' d'. obus_packet_ack_encode full_memory (buffer_of []) \<lparr>ack_handle = 6, ack_status = 2\<rparr> = (Inr (), b')
    \<and> obus_packet_decoder_read full_memory (sample_decoder (bytewise (content b'))) t =
        Some (Inr (Ack \<lparr>ack_handle = 6, ack_status = 2\<rparr>), d', t)"
proof
  fix t
  let ?a = "\<lparr>ack_handle = 6, ack_status = 2\<rparr>"
  have h: "buf_ok (buffer_of [])" "enough full_memory 12" by simp_all
  obtain b' where b': "obus_packet_ack_encode full_memory (buffer_of []) ?a = (Inr (), b')" "content b' = packet_image OBUS_PKT_ACK (ack_payload ?a)"
    by (rule ack_encode_ok [OF h])
  then have l: "length (content b') \<le> 1000" by (simp add: ack_payload_def)
  have "receives full_memory t (content b') (\<lambda>info t'. info = Ack (?a\<lparr>ack_status := ucast (ucast (ack_status ?a) :: u8)\<rparr>) \<and> t' = t)"
    using ack_received [OF h, of ?a t] b'(1) by simp
  from receives_bytewise [OF this l] show "\<exists>b' d'. obus_packet_ack_encode full_memory (buffer_of []) ?a = (Inr (), b')
    \<and> obus_packet_decoder_read full_memory (sample_decoder (bytewise (content b'))) t = Some (Inr (Ack ?a), d', t)"
    using b'(1) by auto
qed

lemma conreq_received_witness:
  "\<forall>t. \<exists>b' d'. obus_packet_conreq_encode full_memory (buffer_of []) (Some [99]) (Some [98, 117, 115]) 77 = (Inr (), b')
    \<and> obus_packet_decoder_read full_memory (sample_decoder (bytewise (content b'))) t =
        Some (Inr (Conreq \<lparr>cr_version = 2, cr_bus = Some [98, 117, 115], cr_crc = 77, cr_client = Some [99]\<rparr>), d', t)"
proof
  fix t
  let ?c = "Some [99]" and ?b = "Some [98, 117, 115]"
  have h: "buf_ok (buffer_of [])" "string_fits ?c" "string_fits ?b" "length (conreq_payload ?c ?b 77) \<le> 100"
    by (simp_all add: string_fits_def conreq_payload_def wire_string_def string_size_def)
  then have e: "enough full_memory (9 + length (conreq_payload ?c ?b 77))" "9 + length (conreq_payload ?c ?b 77) < 2 ^ 32" by simp_all
  obtain b' where b': "obus_packet_conreq_encode full_memory (buffer_of []) ?c ?b 77 = (Inr (), b')"
    "content b' = packet_image OBUS_PKT_CONREQ (conreq_payload ?c ?b 77)"
    by (rule conreq_encode_ok [OF h(1) e(1) h(2,3)])
  then have l: "length (content b') \<le> 1000" using h(4) by simp
  have "receives full_memory t (content b')
      (\<lambda>info t'. info = Conreq \<lparr>cr_version = OBUS_PROTOCOL_VERSION, cr_bus = ?b, cr_crc = 77, cr_client = ?c\<rparr> \<and> t' = t)"
    using conreq_received [OF h(1-3) e, of t] b'(1) by simp
  from receives_bytewise [OF this l] show "\<exists>b' d'. obus_packet_conreq_encode full_memory (buffer_of []) ?c ?b 77 = (Inr (), b')
    \<and> obus_packet_decoder_read full_memory (sample_decoder (bytewise (content b'))) t =
        Some (Inr (Conreq \<lparr>cr_version = 2, cr_bus = ?b, cr_crc = 77, cr_client = ?c\<rparr>), d', t)"
    using b'(1) by (auto simp: OBUS_PROTOCOL_VERSION_def)
qed

lemma zero_size_header_hangs_witness:
  "\<forall>s. \<exists>d'. obus_packet_decoder_read full_memory (sample_decoder [empty_header]) s = Some (Inl EAGAIN, d', s)
    \<and> obus_packet_decoder_read full_memory (d'\<lparr>d_in := [Bytes [1, 2, 3]]\<rparr>) s = None"
proof
  fix s
  have "empty_header \<noteq> []" by (simp add: empty_header_def)
  then show "\<exists>d'. obus_packet_decoder_read full_memory (sample_decoder [empty_header]) s = Some (Inl EAGAIN, d', s)
    \<and> obus_packet_decoder_read full_memory (d'\<lparr>d_in := [Bytes [1, 2, 3]]\<rparr>) s = None"
    using zero_size_header_hangs [of 64 "sample_decoder [empty_header]" full_memory s] sample_decoder_idle [of "[empty_header]" 64] by auto
qed

text \<open>A decoder that has seen the header of a packet, before and after a reset.\<close>

lemma reset_loses_packet_witness:
  "\<forall>s. \<exists>d'. obus_packet_decoder_read full_memory (obus_packet_decoder_reset
      ((sample_decoder [packet_image OBUS_PKT_ACK [0, 6, 2]])\<lparr>d_hdr_valid := True, d_buf := (buffer_of (replicate 32 0))\<lparr>bpos := 9\<rparr>\<rparr>)) s
    = Some (Inl EAGAIN, d', s)"
proof
  fix s
  let ?d = "(sample_decoder [packet_image OBUS_PKT_ACK [0, 6, 2]])\<lparr>d_hdr_valid := True, d_buf := (buffer_of (replicate 32 0))\<lparr>bpos := 9\<rparr>\<rparr>"
  have "buf_ok (d_buf ?d)" "bsize (d_buf ?d) = 32" "d_in ?d = [Bytes (packet_image OBUS_PKT_ACK [0, 6, 2])]"
    by (simp_all add: buffer_of_def buf_ok_def sample_decoder_def obus_packet_decoder_init_def)
  moreover have "\<forall>j. \<not> header_at (drop j [0, 6, 2])" by (auto simp: header_at_def)
  ultimately show "\<exists>d'. obus_packet_decoder_read full_memory (obus_packet_decoder_reset ?d) s = Some (Inl EAGAIN, d', s)"
    using reset_loses_packet [of ?d full_memory OBUS_PKT_ACK "[0, 6, 2]" s] by auto
qed

lemma bus_event_received_witness:
  "\<exists>s t b' d' t' p e'. obus_packet_bus_event_encode full_memory s (buffer_of []) 4 = (Inr (), b')
    \<and> obus_packet_decoder_read full_memory (sample_decoder (bytewise (content b'))) t = Some (Inr (Bus_Event p), d', t')
    \<and> bevts t' p = Some e' \<and> remove_objs e' = [1] \<and> length (add_objs e') = 1 \<and> length (obj_events e') = 1"
proof -
  obtain s t e obj1 obj2 ev where h: "bevts s 4 = Some e" "members s e [obj2] [obj1] [(obj1, ev)]" "objects_ok t" "fresh_addrs t"
    "\<forall>obj\<in>set [obj2]. sendable full_memory (bus_api t) obj" "\<forall>obj\<in>set [obj1]. obus_bus_object t (o_handle obj) \<noteq> 0"
    "removable t (map (\<lambda>obj. (od_uid (o_desc obj), o_handle obj)) [obj1])"
    "\<forall>x\<in>set [(obj1, ev)]. event_sendable full_memory (bus_api t) x \<and> knows t (fst x)"
    "obus_bus_api_bus_event (bus_api t) (be_uid (be_desc e)) = Some (be_desc e)"
    "obus_bus_object t (o_handle obj1) = 1" "length (bus_event_wire (be_desc e) [obj2] [obj1] [(obj1, ev)]) < 100"
    by (rule sample_bus_event_sent)
  let ?w = "bus_event_wire (be_desc e) [obj2] [obj1] [(obj1, ev)]"
  have f: "counts_fit [obj2] [obj1] [(obj1, ev)]" "(4 :: addr) \<noteq> 0" by (simp_all add: counts_fit_def)
  have w: "9 + length ?w < 2 ^ 32" "buf_ok (buffer_of [])" "enough full_memory (9 + length ?w)" using h(11) by simp_all
  have so: "\<forall>obj\<in>set [obj2]. struct_ok (o_info obj)" "\<forall>x\<in>set [(obj1, ev)]. struct_ok (e_info (snd x))"
    using h(5,8) by (auto simp: sendable_def event_sendable_def)
  obtain b' where b': "obus_packet_bus_event_encode full_memory s (buffer_of []) 4 = (Inr (), b')" "content b' = packet_image OBUS_PKT_BUS_EVENT ?w"
    by (rule bus_event_packet_ok [OF h(2) so h(1) f(2) w(2,3)])
  then have l: "length (content b') \<le> 1000" using h(11) by simp
  have "receives full_memory t (content b') (\<lambda>info t'. info = Bus_Event (next_addr t) \<and>
      delivered t (be_desc e) [obj2] [obj1] [(obj1, ev)] t' (next_addr t))"
    using bus_event_received [OF h(1) f(2) h(2) f(1) h(3-9) w full_memory_bus_event] b'(1) by simp
  from receives_bytewise [OF this l] obtain t' d' e' where r: "bevts t' (next_addr t) = Some e'"
    "obus_packet_decoder_read full_memory (sample_decoder (bytewise (content b'))) t = Some (Inr (Bus_Event (next_addr t)), d', t')"
    "remove_objs e' = [1]" "length (add_objs e') = 1" "length (obj_events e') = 1"
    using h(10) by (auto simp: delivered_def dest!: list_all2_lengthD)
  then show ?thesis using b'(1) by blast
qed

lemma call_received_witness:
  "\<exists>s t b' d' t' c'. obus_packet_call_encode full_memory s (buffer_of []) 5 = (Inr (), b')
    \<and> obus_packet_decoder_read full_memory (sample_decoder (bytewise (content b'))) t = Some (Inr (Call 10), d', t')
    \<and> calls t' 10 = Some c' \<and> c_handle c' = 6 \<and> rel_option carries (Some sample_struct) (c_args c')"
proof -
  obtain t where s: "objects_ok t" "fresh_addrs t" "next_addr t = 10" "objs t = [1 \<mapsto> sample_object\<lparr>o_bus := True\<rparr>]"
    "object_at t 3 17 = Some (1, sample_object\<lparr>o_bus := True\<rparr>)" "obus_bus_api_method (bus_api t) 3 7 = Some sample_method"
    by (rule sample_side)
  let ?o = "sample_object\<lparr>o_bus := True\<rparr>" and ?s = "t\<lparr>calls := [5 \<mapsto> sample_args_call]\<rparr>" and ?c = sample_args_call
  have c: "calls ?s 5 = Some ?c" "(5 :: addr) \<noteq> 0" "objs ?s (c_obj ?c) = Some ?o" "args_ok ?c"
    using s(4) sample_ok by (simp_all add: sample_args_call_def sample_bus_defs args_ok_def) (simp add: sample_defs)
  have k: "o_handle ?o = 17" "od_uid (o_desc ?o) = 3" "m_uid (c_desc ?c) = 7" "c_desc ?c = sample_method"
    "c_args ?c = Some sample_struct" "c_handle ?c = 6"
    by (simp_all add: sample_args_call_def sample_bus_defs)
  have m: "length (args_wire (Some sample_struct)) = 16" "entries_need (struct_entries sample_struct) = 32"
    "alloc_ok full_memory (call_size sample_method)"
    using sample_sizes
    by (simp_all add: args_wire_def wire_of_def call_size_def sizeof_call_def full_memory_alloc sample_method_def sample_desc_def)
  have tg: "call_target t (od_uid (o_desc ?o)) (o_handle ?o) (m_uid (c_desc ?c)) = Some (1, c_desc ?c)"
    using s(5,6) k by (simp add: call_target_def)
  have w: "21 + length (args_wire (c_args ?c)) < 2 ^ 32" "buf_ok (buffer_of [])" "enough full_memory (21 + length (args_wire (c_args ?c)))"
    "\<forall>st. c_args ?c = Some st \<longrightarrow> enough full_memory (entries_need (struct_entries st))" "alloc_ok full_memory (call_size (c_desc ?c))"
    using m k by simp_all
  let ?w = "wire_call (od_uid (o_desc ?o)) (o_handle ?o) (m_uid (c_desc ?c)) (c_handle ?c) (args_wire (c_args ?c))"
  have "enough full_memory (9 + length ?w)" using m k by simp
  then obtain b' where b': "obus_packet_call_encode full_memory ?s (buffer_of []) 5 = (Inr (), b')" "content b' = packet_image OBUS_PKT_CALL ?w"
    by (rule call_packet_ok [OF c(4,3,1,2) w(2) refl])
  then have l: "length (content b') \<le> 1000" using m k by simp
  have "receives full_memory t (content b') (\<lambda>info t'. info = Call (next_addr t) \<and> (\<exists>args'. rel_option carries (c_args ?c) args' \<and>
       t' = t\<lparr>calls := (calls t)(next_addr t \<mapsto> new_call (c_desc ?c) 1 (c_handle ?c) args'), next_addr := Suc (next_addr t)\<rparr>))"
    using call_received [OF c s(1,2) tg w] b'(1) by simp
  from receives_bytewise [OF this l] obtain t' d' args' where
    "obus_packet_decoder_read full_memory (sample_decoder (bytewise (content b'))) t = Some (Inr (Call 10), d', t')"
    "calls t' 10 = Some (new_call sample_method 1 6 args')" "rel_option carries (Some sample_struct) args'"
    unfolding s(3) k by auto
  then show ?thesis using b'(1) by fastforce
qed

lemma packets_in_order_witness:
  "\<forall>s. \<exists>d'. read_packets full_memory 2 (sample_decoder (bytewise
      (packet_image OBUS_PKT_ACK (ack_payload \<lparr>ack_handle = 6, ack_status = 1\<rparr>) @ packet_image OBUS_PKT_ACK (ack_payload \<lparr>ack_handle = 7, ack_status = 2\<rparr>)))) s
    = Some ([Ack \<lparr>ack_handle = 6, ack_status = 1\<rparr>, Ack \<lparr>ack_handle = 7, ack_status = 2\<rparr>], d', s)"
proof
  fix s
  let ?a = "\<lparr>ack_handle = 6, ack_status = 1\<rparr>" and ?b = "\<lparr>ack_handle = 7, ack_status = 2\<rparr>"
  let ?ps = "[(OBUS_PKT_ACK, ack_payload ?a), (OBUS_PKT_ACK, ack_payload ?b)]"
  let ?w = "packet_image OBUS_PKT_ACK (ack_payload ?a) @ packet_image OBUS_PKT_ACK (ack_payload ?b)"
  note i = sample_decoder_idle [OF bytewise_simps(2) [of ?w], of 100]
  have "stream (bytewise ?w) (sample_decoder (bytewise ?w)) = concat (map (\<lambda>(ty, payload). packet_image ty payload) ?ps) @ []"
    using i(2) by (simp add: bytewise_simps(1))
  moreover have "decodes_all full_memory s ?ps [Ack ?a, Ack ?b] s"
    using decodes_ack [of full_memory ?a s] decodes_ack [of full_memory ?b s] by (auto simp: ack_payload_def)
  ultimately have "\<exists>d' cs'. read_packets full_memory (length ?ps) (sample_decoder (bytewise ?w)) s = Some ([Ack ?a, Ack ?b], d', s)
      \<and> idle 100 cs' d' \<and> stream cs' d' = []"
    using packets_in_order [of 100 "bytewise ?w" "sample_decoder (bytewise ?w)" ?ps "[]" full_memory s "[Ack ?a, Ack ?b]" s] i(1)
    by (simp add: ack_payload_def)
  then show "\<exists>d'. read_packets full_memory 2 (sample_decoder (bytewise ?w)) s = Some ([Ack ?a, Ack ?b], d', s)"
    by (auto simp: numeral_2_eq_2)
qed

end
