(* ===== verification/Obus_Encode.thy ===== *)
theory Obus_Encode
  imports Obus_Packet
begin

text \<open>
  The encoders as a whole: \<open>obus_packet.c\<close> and the encoders it calls. Whatever is encoded, and
  whether memory runs out on the way or not, a buffer stays a buffer: what is used of it lies in its
  block, and nobody but its owners touches its references.
\<close>

section \<open>Tame operations on buffers\<close>

definition within_buffer :: "obus_buffer \<Rightarrow> obus_buffer \<Rightarrow> bool" where
  "within_buffer b b' \<longleftrightarrow> buf_ok b' \<and> brefcnt b' = brefcnt b \<and> bpool b' = bpool b"

definition tame :: "(obus_buffer \<Rightarrow> 'a res \<times> obus_buffer) \<Rightarrow> bool" where
  "tame f \<longleftrightarrow> (\<forall>b. buf_ok b \<longrightarrow> within_buffer b (snd (f b)))"

named_theorems tame_intros

lemma within_refl: "buf_ok b \<Longrightarrow> within_buffer b b"
  by (simp add: within_buffer_def)

lemma within_trans: "within_buffer b b' \<Longrightarrow> within_buffer b' b'' \<Longrightarrow> within_buffer b b''"
  by (simp add: within_buffer_def)

lemma grows_within: "grows b b' \<Longrightarrow> within_buffer b b'"
  by (auto simp: grows_def appended_def within_buffer_def)

lemma tame_chk [tame_intros]:
  assumes "tame f" "\<And>x. tame (g x)"
  shows "tame (\<lambda>b. chk (f b) (\<lambda>x b. g x b))"
  unfolding tame_def
proof (intro allI impI)
  fix b assume "buf_ok b"
  then have w: "within_buffer b (snd (f b))" using assms(1) by (simp add: tame_def)
  show "within_buffer b (snd (chk (f b) g))"
  proof (cases "f b" "g" rule: chk_cases)
    case (ok x b')
    then show ?thesis using w assms(2) [of x] within_trans by (fastforce simp: tame_def within_buffer_def)
  qed (use w in simp)
qed

lemma tame_result [tame_intros]: "tame (\<lambda>b. (r, b))" "tame (Pair r)"
  by (simp_all add: tame_def within_refl)

lemma tame_if [tame_intros]: "tame f \<Longrightarrow> tame g \<Longrightarrow> tame (\<lambda>b. if c then f b else g b)"
  by (cases c) simp_all

lemma tame_option [tame_intros]:
  "tame f \<Longrightarrow> (\<And>x. tame (g x)) \<Longrightarrow> tame (\<lambda>b. case v of None \<Rightarrow> f b | Some x \<Rightarrow> g x b)"
  by (cases v) simp_all

section \<open>The operations of buffers\<close>

lemma tame_append [tame_intros]:
  assumes "sane_memory m"
  shows "tame (\<lambda>b. obus_buffer_append_u8 m b v8)" "tame (\<lambda>b. obus_buffer_append_u16 m b v16)"
    "tame (\<lambda>b. obus_buffer_append_u32 m b v32)" "tame (\<lambda>b. obus_buffer_append_u64 m b v64)"
    "tame (\<lambda>b. obus_buffer_append_f32 m b v32)" "tame (\<lambda>b. obus_buffer_append_f64 m b v64)"
    "tame (\<lambda>b. obus_buffer_append_string m b str)"
  using append_bytes_grows [OF _ assms] append_string_grows [OF _ assms]
  by (auto simp: tame_def obus_simps intro!: grows_within)

lemma realloc_within: "sane_memory m \<Longrightarrow> buf_ok b \<Longrightarrow> within_buffer b (snd (obus_buffer_ensure_realloc m b n))"
  by (cases rule: ensure_realloc_cases [where n = n and m = m and b = b]) (auto simp: appended_def within_buffer_def)

lemma tame_reserve [tame_intros]: "sane_memory m \<Longrightarrow> tame (\<lambda>b. obus_buffer_reserve m b n)"
  unfolding tame_def
proof (intro allI impI)
  fix b assume a: "sane_memory m" "buf_ok b"
  then have "within_buffer b (snd (obus_buffer_ensure_realloc m b (sz (blength b + n))))" by (rule realloc_within)
  then show "within_buffer b (snd (obus_buffer_reserve m b n))" using reserve_ok_inv [OF a(2,1), of n]
    by (auto simp: obus_buffer_reserve_def within_buffer_def chk_def split: prod.splits sum.splits)
qed

lemma ensure_poke_within:
  assumes "sane_memory m" "buf_ok b"
  shows "within_buffer b (snd (chk (obus_buffer_ensure_realloc m b n) (\<lambda>_ b. (Inr (), b\<lparr>bdata := poke (bdata b) off bs\<rparr>))))"
  using ensure_poke_ok [OF assms(2,1), of n off bs] realloc_within [OF assms, of n]
  by (cases "obus_buffer_ensure_realloc m b n" rule: chk_cases) (auto simp: within_buffer_def)

lemma tame_write [tame_intros]:
  assumes "sane_memory m"
  shows "tame (\<lambda>b. obus_buffer_write_u32 m b (g b) off)" "tame (\<lambda>b. obus_buffer_write_u8 m b w off)"
  unfolding tame_def obus_buffer_write_u32_def obus_buffer_write_u8_def
  by (intro allI impI ensure_poke_within [OF assms]; assumption)+

lemma tame_clear: "tame f \<Longrightarrow> tame (\<lambda>b. f (obus_buffer_clear b))"
  by (auto simp: tame_def within_buffer_def position_ok_inv(3)) (auto simp: obus_buffer_clear_def buf_ok_def)

section \<open>The encoders\<close>

lemma tame_value [tame_intros]: "sane_memory m \<Longrightarrow> tame (obus_encode_value m desc v)"
  unfolding obus_encode_value_def
proof (cases "field_kind (ftype desc)", goal_cases)
  case (2 k)
  then show ?case by (cases k) (simp_all add: tame_intros)
qed (simp add: tame_intros)

lemma tame_items [tame_intros]: "sane_memory m \<Longrightarrow> tame (encode_items m desc arr i n)"
proof (induction n arbitrary: i)
  case (Suc n)
  then show ?case unfolding encode_items.simps by (intro tame_intros) simp_all
qed (simp add: tame_def within_refl)

lemma tame_field [tame_intros]: "sane_memory m \<Longrightarrow> tame (obus_field_encode m st desc)"
  unfolding obus_field_encode_def obus_field_array_encode_def Let_def by (intro tame_intros)

lemma tame_fields [tame_intros]: "sane_memory m \<Longrightarrow> tame (encode_fields m st is)"
proof (induction "is")
  case (Cons i "is")
  then show ?case unfolding encode_fields.simps by (intro tame_intros) simp_all
qed (simp add: tame_def within_refl)

lemma tame_struct [tame_intros]: "sane_memory m \<Longrightarrow> tame (obus_struct_encode m st)"
  unfolding obus_struct_encode_def Let_def by (intro tame_intros)

lemma tame_sized [tame_intros]:
  assumes "sane_memory m" "tame f"
  shows "tame (encode_sized m f)"
  unfolding tame_def
proof (intro allI impI)
  fix b assume b: "buf_ok b"
  define wr where "wr b' = (Inr () :: unit res, snd (obus_buffer_write_u32 m b' (of_nat (sz_sub (blength b') (sz (blength b + 4)))) (blength b)))" for b'
  have "tame wr" using tame_write(1) [OF assms(1), of "\<lambda>b'. of_nat (sz_sub (blength b') (sz (blength b + 4)))" "blength b"]
    by (simp add: tame_def wr_def)
  then have "tame (\<lambda>b. chk (obus_buffer_reserve m b 4) (\<lambda>_ b. chk (f b) (\<lambda>_ b. wr b)))" using assms by (intro tame_intros)
  then show "within_buffer b (snd (encode_sized m f b))" using b by (simp add: tame_def encode_sized_def Let_def wr_def)
qed

lemma tame_all [tame_intros]: "(\<And>x. tame (enc x)) \<Longrightarrow> tame (encode_all enc xs)"
proof (induction xs)
  case (Cons x xs)
  then show ?case unfolding encode_all.simps by (intro tame_intros) simp_all
qed (simp add: tame_def within_refl)

lemma tame_members [tame_intros]:
  assumes "sane_memory m"
  shows "tame (obus_object_add_encode m obj)" "tame (obus_object_remove_encode m obj)" "tame (obus_event_encode m s ev)"
    "tame (obus_bus_event_encode m s be)"
  using assms unfolding obus_object_add_encode_def obus_object_remove_encode_def obus_event_encode_def obus_bus_event_encode_def
  by (intro tame_intros; assumption)+

lemma tame_call [tame_intros]: "sane_memory m \<Longrightarrow> tame (obus_call_encode m s call)"
  unfolding obus_call_encode_def by (intro tame_intros) (auto split: option.split intro!: tame_intros)

lemma tame_packet [tame_intros]:
  assumes "sane_memory m" "tame f"
  shows "tame (packet_encode m ty f)"
proof -
  have "tame (\<lambda>b. chk (obus_buffer_reserve m b OBUS_PKT_HDR_SIZE) (\<lambda>_ b. chk (f b) (\<lambda>_ b. obus_packet_encode_header m b (type_code ty))))"
    unfolding obus_packet_encode_header_def by (intro tame_intros assms)
  from tame_clear [OF this] show ?thesis by (simp add: packet_encode_def [abs_def])
qed

lemma tame_packets [tame_intros]:
  assumes "sane_memory m"
  shows "tame (\<lambda>b. obus_packet_conreq_encode m b client bus bcrc)" "tame (\<lambda>b. obus_packet_conresp_encode m s b status objects)"
    "tame (\<lambda>b. obus_packet_add_encode m s b p)" "tame (\<lambda>b. obus_packet_remove_encode m s b p)"
    "tame (\<lambda>b. obus_packet_event_encode m s b p)" "tame (\<lambda>b. obus_packet_bus_event_encode m s b p)"
    "tame (\<lambda>b. obus_packet_call_encode m s b p)" "tame (\<lambda>b. obus_packet_ack_encode m b ack)"
  using assms unfolding obus_packet_conreq_encode_def obus_packet_conresp_encode_def obus_packet_add_encode_def obus_packet_remove_encode_def
    obus_packet_event_encode_def obus_packet_bus_event_encode_def obus_packet_call_encode_def obus_packet_ack_encode_def Let_def
  by (intro tame_intros; assumption)+

text \<open>
  C11. Encoders stay in their buffer. Whatever packet an encoder makes of whatever bus, with as little memory
  as there may be and whether it succeeds or not, what is used of the buffer afterwards lies inside its block, and
  its reference count and its pool are what they were: a failed encoding leaves a buffer that can be dropped.
\<close>

theorem encoders_stay_in_buffer:
  assumes "sane_memory m" "buf_ok b"
    "encode \<in> {\<lambda>b. obus_packet_conreq_encode m b client bus bcrc, \<lambda>b. obus_packet_conresp_encode m s b status objects,
       \<lambda>b. obus_packet_add_encode m s b p, \<lambda>b. obus_packet_remove_encode m s b p, \<lambda>b. obus_packet_event_encode m s b p,
       \<lambda>b. obus_packet_bus_event_encode m s b p, \<lambda>b. obus_packet_call_encode m s b p, \<lambda>b. obus_packet_ack_encode m b ack}"
    "encode b = (r, b')"
  shows "length (bdata b') = bsize b' \<and> blength b' \<le> bsize b' \<and> bpos b' \<le> bsize b' \<and> bsize b' < SSIZE_LIMIT
    \<and> brefcnt b' = brefcnt b \<and> bpool b' = bpool b"
proof -
  have "tame encode" using assms(3) by (elim insertE emptyE) (simp_all only: tame_packets [OF assms(1)])
  then have "within_buffer b (snd (encode b))" using assms(2) by (simp add: tame_def)
  then show ?thesis using assms(4) by (simp add: within_buffer_def buf_ok_def)
qed

lemma encoders_stay_in_buffer_witness:
  "\<exists>r b'. obus_packet_ack_encode full_memory (buffer_of [1, 2]) \<lparr>ack_handle = 7, ack_status = 0\<rparr> = (r, b')
    \<and> blength b' \<le> bsize b' \<and> brefcnt b' = 1"
proof -
  let ?f = "\<lambda>b. obus_packet_ack_encode full_memory b \<lparr>ack_handle = 7, ack_status = 0\<rparr>"
  obtain r b' where e: "?f (buffer_of [1, 2]) = (r, b')" by fastforce
  have ok: "buf_ok (buffer_of [1, 2])" "brefcnt (buffer_of [1, 2]) = 1" "sane_memory full_memory" by (simp, simp add: buffer_of_def, simp)
  show ?thesis using encoders_stay_in_buffer [where encode = ?f and ack = "\<lparr>ack_handle = 7, ack_status = 0\<rparr>", OF ok(3,1) _ e] e ok(2) by simp
qed

end
