(* ===== verification/Obus_Decode.thy ===== *)
theory Obus_Decode
  imports Obus_Packet
begin

text \<open>
  The decoders as a whole: \<open>obus_packet.c\<close> and the decoders it calls. Whatever bytes arrive, a decoder
  leaves its buffer a buffer.
\<close>

section \<open>Decoders move the read position\<close>

text \<open>The relation between a buffer and the one in the result of a decoder.\<close>

definition leaves :: "(obus_buffer \<Rightarrow> bool) \<Rightarrow> 'a res \<times> 's \<times> obus_buffer \<Rightarrow> bool" where
  "leaves P x \<longleftrightarrow> P (snd (snd x))"

lemma leaves_result [simp]: "leaves P (r, s, b) = P b"
  by (simp add: leaves_def)

lemma leaves_read:
  "P (snd x) \<Longrightarrow> (\<And>e b. P b \<Longrightarrow> leaves P (f e b)) \<Longrightarrow> (\<And>v b. P b \<Longrightarrow> leaves P (g v b)) \<Longrightarrow>
   leaves P (case x of (Inl e, b) \<Rightarrow> f e b | (Inr v, b) \<Rightarrow> g v b)"
  by (auto split: prod.split sum.split)

lemma leaves_decode:
  "P (snd (snd x)) \<Longrightarrow> (\<And>e s b. P b \<Longrightarrow> leaves P (f e s b)) \<Longrightarrow> (\<And>v s b. P b \<Longrightarrow> leaves P (g v s b)) \<Longrightarrow>
   leaves P (case x of (Inl e, s, b) \<Rightarrow> f e s b | (Inr v, s, b) \<Rightarrow> g v s b)"
  by (auto split: prod.split sum.split)

lemma leaves_listed:
  "P (snd (snd x)) \<Longrightarrow> (\<And>e s t b. P b \<Longrightarrow> leaves P (f e s t b)) \<Longrightarrow> (\<And>v s t b. P b \<Longrightarrow> leaves P (g v s t b)) \<Longrightarrow>
   leaves P (case x of (Inl e, (s, t), b) \<Rightarrow> f e s t b | (Inr v, (s, t), b) \<Rightarrow> g v s t b)"
  by (auto split: prod.split sum.split)

lemma leaves_if: "leaves P x \<Longrightarrow> leaves P y \<Longrightarrow> leaves P (if c then x else y)"
  by simp

lemma leaves_option: "leaves P x \<Longrightarrow> (\<And>v. leaves P (f v)) \<Longrightarrow> leaves P (case v of None \<Rightarrow> x | Some v \<Rightarrow> f v)"
  by (simp split: option.split)

lemma leaves_pair: "(\<And>s t. leaves P (f s t)) \<Longrightarrow> leaves P (case x of (s, t) \<Rightarrow> f s t)"
  by (simp split: prod.split)

lemma leaves_object:
  "P (snd x) \<Longrightarrow> (\<And>e b. P b \<Longrightarrow> leaves P (f e b)) \<Longrightarrow> (\<And>b. P b \<Longrightarrow> leaves P (g b)) \<Longrightarrow> (\<And>v b. P b \<Longrightarrow> leaves P (h v b)) \<Longrightarrow>
   leaves P (case x of (Inl e, b) \<Rightarrow> f e b | (Inr None, b) \<Rightarrow> g b | (Inr (Some v), b) \<Rightarrow> h v b)"
  by (auto split: prod.split sum.split option.split)

lemma leaves_target:
  "(\<And>e. leaves P (f e)) \<Longrightarrow> leaves P g \<Longrightarrow> (\<And>p obj. leaves P (h p obj)) \<Longrightarrow>
   leaves P (case x of Inl e \<Rightarrow> f e | Inr None \<Rightarrow> g | Inr (Some (p, obj)) \<Rightarrow> h p obj)"
  by (auto split: prod.split sum.split option.split)

lemma leaves_sum:
  "(\<And>e s. leaves P (f e s)) \<Longrightarrow> (\<And>v s. leaves P (g v s)) \<Longrightarrow> leaves P (case x of (Inl e, s) \<Rightarrow> f e s | (Inr v, s) \<Rightarrow> g v s)"
  by (auto split: prod.split sum.split)

context reading begin

lemma moves_after:
  "moves a b \<Longrightarrow> moves a (snd (obus_buffer_read_u8 b))" "moves a b \<Longrightarrow> moves a (snd (obus_buffer_read_u16 b))"
  "moves a b \<Longrightarrow> moves a (snd (obus_buffer_read_u32 b))" "moves a b \<Longrightarrow> moves a (snd (snd (obus_buffer_read_string m b)))"
  "moves a b \<Longrightarrow> moves a (snd (snd (obus_struct_decode m st b)))" "moves a b \<Longrightarrow> moves a (eat_bytes b n)"
  using moves_u8 [of b] moves_u16 [of b] moves_u32 [of b] moves_string [of b m] moves_struct [of b m st] moves_read(10) [of b n]
  by (blast intro: moves_trans)+

lemma step:
  "obus_buffer_read_u8 b = (r8, b') \<Longrightarrow> moves a b \<Longrightarrow> moves a b'" "obus_buffer_read_u16 b = (r16, b') \<Longrightarrow> moves a b \<Longrightarrow> moves a b'"
  "obus_buffer_read_u32 b = (r32, b') \<Longrightarrow> moves a b \<Longrightarrow> moves a b'" "obus_buffer_read_string m b = (rs, v, b') \<Longrightarrow> moves a b \<Longrightarrow> moves a b'"
  "obus_struct_decode m st b = (rd, st', b') \<Longrightarrow> moves a b \<Longrightarrow> moves a b'"
  using moves_after [of a b] by (metis snd_conv)+

lemma moves_add_decode: "moves a b \<Longrightarrow> moves a (snd (obus_object_add_decode m api b))"
  unfolding obus_object_add_decode_def Let_def
  by (auto split: prod.splits sum.splits option.splits dest!: step intro: moves_after(6) moves_trans)

lemma moves_small: "moves a b \<Longrightarrow> moves a (snd (obus_object_remove_decode s b))" "moves a b \<Longrightarrow> moves a (snd (obus_packet_ack_decode b))"
  "moves a b \<Longrightarrow> moves a (snd (obus_packet_conreq_decode m b))"
  unfolding obus_object_remove_decode_def obus_packet_ack_decode_def obus_packet_conreq_decode_def
  by (auto split: prod.splits sum.splits dest!: step intro: moves_trans)

lemma moves_call_decode: "moves a b \<Longrightarrow> leaves (moves a) (obus_call_decode m s b)"
  unfolding obus_call_decode_def Let_def
  by (intro leaves_read leaves_if leaves_target leaves_option leaves_decode moves_after)
    (auto simp: moves_after split: option.split prod.split dest: step(5))

lemma moves_turns:
  assumes "\<And>s b. moves a b \<Longrightarrow> leaves (moves a) (f s b)"
  shows "moves a b \<Longrightarrow> moves a (snd (snd (turns n f s b)))"
proof (induction n arbitrary: s b)
  case (Suc n)
  then show ?case using assms [of b s] by (auto simp: leaves_def split: prod.splits sum.splits)
qed simp

lemma moves_event_decode: "moves a b \<Longrightarrow> leaves (moves a) (obus_event_decode m s b)"
  unfolding obus_event_decode_def Let_def
  by (intro leaves_read leaves_if leaves_target leaves_option leaves_sum leaves_decode leaves_pair moves_after) (simp_all add: moves_after)

lemma moves_turn:
  assumes "moves a b"
  shows "leaves (moves a) (decode_add m be s b)" "leaves (moves a) (decode_remove be s b)"
    "leaves (moves a) (decode_event m be s b)" "leaves (moves a) (decode_listed m st b)"
proof -
  show "leaves (moves a) (decode_add m be s b)" unfolding decode_add_def Let_def
    by (intro leaves_object moves_add_decode assms) (simp_all split: prod.split)
  show "leaves (moves a) (decode_remove be s b)" unfolding decode_remove_def
    using moves_small(1) [OF assms, of s] by (auto split: prod.splits)
  show "leaves (moves a) (decode_event m be s b)" unfolding decode_event_def
    by (intro leaves_decode leaves_if leaves_pair) (use moves_event_decode [OF assms, of m s] in \<open>simp_all add: leaves_def\<close>)
  show "leaves (moves a) (decode_listed m st b)" unfolding decode_listed_def Let_def
    by (intro leaves_pair leaves_object moves_add_decode assms) simp_all
qed

lemma moves_bus_event_decode: "moves a b \<Longrightarrow> leaves (moves a) (obus_bus_event_decode m s b)"
  unfolding obus_bus_event_decode_def
  by (intro leaves_read leaves_if leaves_option leaves_decode leaves_pair moves_after moves_turns moves_turn) simp_all

lemma moves_payload:
  assumes "moves a b"
  shows "leaves (moves a) (decode_payload m ty s b)"
proof -
  have nn: "leaves (moves a) (not_null x) = leaves (moves a) x" for x :: "addr res \<times> 't \<times> obus_buffer"
    by (cases x; cases "fst x") (auto simp: not_null_def)
  have mp: "leaves (moves a) (map_prod f id x) = leaves (moves a) x" for f :: "'u res \<Rightarrow> 'v res" and x :: "'u res \<times> 't \<times> obus_buffer"
    by (cases x) simp
  have "leaves (moves a) (obus_packet_conresp_decode m s b)" unfolding obus_packet_conresp_decode_def
    by (intro leaves_read leaves_if leaves_listed moves_after moves_turns moves_turn assms) simp_all
  moreover have "leaves (moves a) (obus_packet_add_decode m s b)" unfolding obus_packet_add_decode_def
    by (intro leaves_object moves_add_decode assms) simp_all
  moreover have "leaves (moves a) (obus_packet_remove_decode s b)" unfolding obus_packet_remove_decode_def
    using moves_small(1) [OF assms, of s] by (auto split: prod.splits)
  ultimately show ?thesis using moves_small(2,3) [OF assms] moves_event_decode [OF assms] moves_bus_event_decode [OF assms] moves_call_decode [OF assms] assms
    by (auto simp: decode_payload_def nn mp obus_packet_event_decode_def obus_packet_bus_event_decode_def obus_packet_call_decode_def
        split: obus_packet_type.split prod.split) (metis snd_conv)+
qed

end

section \<open>The stream decoder\<close>

lemma sys_read_length: "sys_read inp n = (Inr bs, inp') \<Longrightarrow> length bs \<le> n"
  by (induction inp n arbitrary: inp' rule: sys_read.induct) (auto split: if_splits)

lemma io_read_keeps:
  assumes "obus_io_read m inp b n = (r, inp', b')" "buf_ok b" "sane_memory m" "n < SSIZE_LIMIT"
  shows "buf_ok b'"
proof -
  have "sz (blength b + n) = blength b + n" using buf_okD [OF assms(2)] assms(4) by simp
  then have ws: "obus_buffer_ensure_write_space m b n = obus_buffer_ensure_realloc m b (blength b + n)"
    by (simp add: obus_buffer_ensure_write_space_def)
  show ?thesis
    using assms(2,3)
  proof (cases rule: ensure_realloc_cases [where n = "blength b + n"])
    case (grown b1)
    note ok = appended_ok [OF grown(2)]
    have "buf_ok (obus_buffer_inc_write_ptr (b1\<lparr>bdata := poke (bdata b1) (blength b1) bs\<rparr>) (length bs))" if "length bs \<le> n" for bs
      using ok that grown(3,4) buf_okD [OF ok] by (auto simp: buf_ok_def obus_buffer_inc_write_ptr_def)
    then show ?thesis using assms(1,2) ws grown(1) ok
      by (auto simp: obus_io_read_def split: if_splits prod.splits sum.splits dest!: sys_read_length)
  next
    case failed
    then show ?thesis using assms(1,2) ws by (auto simp: obus_io_read_def split: if_splits)
  qed
qed

lemma read_header_stays: "stays_ok buf (snd (read_header buf))"
  unfolding read_header_def read_or_0_def
  by (auto split: prod.splits sum.splits dest!: ok.step(1,3) intro: ok.moves_trans)

lemma find_header_stays: "stays_ok buf (snd (snd (find_header hdr buf)))"
proof (induction hdr buf rule: find_header.induct)
  case (1 hdr buf)
  obtain h b1 where h: "read_header buf = (h, b1)" by fastforce
  have b1: "stays_ok buf b1" using read_header_stays [of buf] h by simp
  then have "stays_ok buf (next_position b1 (bpos buf))" unfolding next_position_def by (rule ok.moves_trans) (rule ok.moves_set)
  then show ?case using 1 [OF _ refl h [symmetric] refl] b1 h
    by (subst find_header.simps) (auto simp: Let_def intro: ok.moves_trans)
qed

lemma decode_header_keeps: "buf_ok (d_buf d) \<Longrightarrow> obus_packet_decode_header d = (r, d') \<Longrightarrow> buf_ok (d_buf d')"
  using find_header_stays [of "d_buf d" "d_hdr d"]
  by (auto simp: obus_packet_decode_header_def stays_ok_def remove_first_content(2) split: prod.splits option.splits if_splits)

lemma decoder_more_keeps:
  assumes "buf_ok (d_buf d)" "sane_memory m" "decoder_more m d = (r, d')"
  shows "buf_ok (d_buf d')"
proof -
  define n where "n = (if obus_buffer_write_space (d_buf d) = 0 then bsize (d_buf d) else obus_buffer_write_space (d_buf d))"
  have n: "n < SSIZE_LIMIT" using buf_okD [OF assms(1)] by (auto simp: n_def obus_buffer_write_space_def)
  obtain x inp b where "obus_io_read m (d_in d) (d_buf d) n = (x, inp, b)" using prod_cases3 by blast
  then show ?thesis using io_read_keeps [OF _ assms(1,2) n] assms(3) by (cases x) (auto simp: decoder_more_def n_def)
qed

lemma decoder_packet_keeps:
  assumes "buf_ok (d_buf d)" "decoder_packet m rm d s = (x, rm', d', s')"
  shows "buf_ok (d_buf d')"
proof -
  obtain r s1 b where p: "decode_payload m (hdr_type (d_hdr d)) s (d_buf d) = (r, s1, b)" using prod_cases3 by blast
  have b: "buf_ok b" using ok.moves_payload [of "d_buf d" "d_buf d" m "hdr_type (d_hdr d)" s] p assms(1) by (simp add: stays_ok_def)
  then show ?thesis using assms p
    by (auto simp: decoder_packet_def Let_def remove_first_content(2) position_ok_inv(4) split: if_splits sum.splits errno.splits)
qed

lemma decoder_turn_keeps:
  assumes "buf_ok (d_buf d)" "sane_memory m" "decoder_turn m rm d s = (x, rm', d', s')"
  shows "buf_ok (d_buf d')"
proof -
  obtain r1 d1 where m: "(if rm then decoder_more m d else (Inr (), d)) = (r1, d1)" by fastforce
  have d1: "buf_ok (d_buf d1)" using m assms(1) decoder_more_keeps [OF assms(1,2)] by (auto split: if_splits)
  obtain r2 d2 where h: "(if d_hdr_valid d1 then (Inr (), d1) else obus_packet_decode_header d1) = (r2, d2)" by fastforce
  have d2: "buf_ok (d_buf d2)" using h d1 decode_header_keeps [OF d1] by (auto split: if_splits)
  show ?thesis using assms(3) d1 d2 decoder_packet_keeps [OF d2] by (cases r1; cases r2) (auto simp only: decoder_turn_def m h prod.case sum.case prod.inject)
qed

lemma decoder_read_keeps:
  assumes "obus_packet_decoder_read m d s = Some (r, d', s')" "buf_ok (d_buf d)" "sane_memory m"
  shows "buf_ok (d_buf d')"
proof -
  have "sane_memory m \<longrightarrow> buf_ok (d_buf d) \<longrightarrow> buf_ok (d_buf (fst (snd y)))" if "decoder_loop m rm d s = Some y" for m rm d s y
    using that
  proof (rule decoder_loop.raw_induct [rotated], goal_cases)
    case (1 f m rm d s y)
    obtain x rm1 d1 s1 where t: "decoder_turn m rm d s = (x, rm1, d1, s1)" using prod_cases4 by blast
    show ?case
    proof (intro impI)
      assume a: "sane_memory m" "buf_ok (d_buf d)"
      have "buf_ok (d_buf d1)" by (rule decoder_turn_keeps [OF a(2,1) t])
      then show "buf_ok (d_buf (fst (snd y)))" using 1(1) [of m rm1 d1 s1 y] 1(2) t a(1) by (auto split: option.splits)
    qed
  qed
  from this [OF assms(1) [unfolded obus_packet_decoder_read_def]] show ?thesis using assms(2,3) by simp
qed

text \<open>
  C12. Reading packets stays in the buffer. Whatever the descriptor delivers, packets or noise in whatever pieces, and
  whatever the bus, what a call of \<open>obus_packet_decoder_read\<close> leaves in the buffer of the decoder lies inside its block, and
  so does the read position.
\<close>

theorem decoder_stays_in_buffer:
  assumes "obus_packet_decoder_read m d s = Some (r, d', s')" "buf_ok (d_buf d)" "sane_memory m"
  shows "length (bdata (d_buf d')) = bsize (d_buf d') \<and> blength (d_buf d') \<le> bsize (d_buf d') \<and> bpos (d_buf d') \<le> bsize (d_buf d')
    \<and> bsize (d_buf d') < SSIZE_LIMIT"
  using decoder_read_keeps [OF assms] by (simp add: buf_ok_def)

definition noise_decoder :: obus_packet_decoder where
  "noise_decoder = \<lparr>d_hdr = \<lparr>hdr_magic = 0, hdr_size = 0, hdr_type = 0\<rparr>, d_hdr_valid = False, d_buf = buffer_of [1, 2, 3],
     d_in = [Failure EINTR], d_log_hdr = False\<rparr>"

lemma decoder_stays_in_buffer_witness:
  "\<forall>s. \<exists>d'. obus_packet_decoder_read full_memory noise_decoder s = Some (Inl EAGAIN, d', s) \<and> blength (d_buf d') \<le> bsize (d_buf d')"
proof
  fix s
  obtain d' where d: "obus_packet_decoder_read full_memory noise_decoder s = Some (Inl EAGAIN, d', s)"
    by (simp add: obus_packet_decoder_read_def decoder_loop.simps noise_decoder_def decoder_turn_def decoder_more_def Let_def
        obus_packet_decode_header_def find_header.simps obus_buffer_read_length_def OBUS_PKT_HDR_SIZE_def buffer_of_def obus_io_read_def
        obus_buffer_write_space_def obus_buffer_ensure_write_space_def obus_buffer_ensure_realloc_def realloc_def)
  show "\<exists>d'. obus_packet_decoder_read full_memory noise_decoder s = Some (Inl EAGAIN, d', s) \<and> blength (d_buf d') \<le> bsize (d_buf d')"
    using decoder_stays_in_buffer [OF d] d by (simp add: noise_decoder_def)
qed

end
