(* ===== verification/Obus_Client.thy ===== *)
theory Obus_Client
  imports Obus_Packet
begin

text \<open>
  The client: \<open>obus_client.c\<close>. A client connects to a server, sends a connection request, and keeps
  the objects of the server on its bus as the packets say; a connection that breaks takes all
  objects and pending calls with it. The first part holds the state and the handlers; the others
  show what acknowledgements, connection responses and disconnections do to the bus and to the
  user.
\<close>

section \<open>Data\<close>

datatype obus_client_state = STATE_IDLE | STATE_CONNECTING | STATE_CONNECTED | STATE_DISCONNECTING
  | STATE_DISCONNECTED | STATE_REFUSED

definition OBUS_DEFAULT_BUFFER_SIZE :: nat where "OBUS_DEFAULT_BUFFER_SIZE = 1024"

definition OBUS_BUS_EVENT_CONNECTED_UID :: u16 where "OBUS_BUS_EVENT_CONNECTED_UID = 1"

definition OBUS_BUS_EVENT_DISCONNECTED_UID :: u16 where "OBUS_BUS_EVENT_DISCONNECTED_UID = 2"

definition OBUS_BUS_EVENT_CONNECTION_REFUSED_UID :: u16 where "OBUS_BUS_EVENT_CONNECTION_REFUSED_UID = 3"

definition obus_client_state_str :: "obus_client_state \<Rightarrow> string" where
  "obus_client_state_str state =
     (case state of STATE_IDLE \<Rightarrow> ''IDLE'' | STATE_CONNECTING \<Rightarrow> ''CONNECTING'' | STATE_CONNECTED \<Rightarrow> ''CONNECTED''
      | STATE_DISCONNECTING \<Rightarrow> ''DISCONNECTING'' | STATE_DISCONNECTED \<Rightarrow> ''DISCONNECTED'' | STATE_REFUSED \<Rightarrow> ''REFUSED'')"

text \<open>The calls of the user's callbacks: with a bus event, an object, an object and an event.\<close>

datatype client_note =
    Bus_Event_Note obus_bus_event_desc
  | Add_Note addr
  | Remove_Note addr
  | Event_Note addr addr

text \<open>
  The io of a client that has none is not alive; its members keep the buffers and the pool of the
  client. A decoder that was not initialised or is destroyed has no buffer. \<open>cl_sk\<close> says whether there
  is a socket, \<open>cl_reconnects\<close> counts the requests to connect it anew, and \<open>cl_trace\<close> is the trace of
  the callbacks.
\<close>

record obus_client =
  cl_name :: "u8 list"
  cl_bus :: bus_state
  cl_sk :: bool
  cl_reconnects :: nat
  cl_state :: obus_client_state
  cl_io :: obus_io
  cl_decoder :: "obus_packet_decoder option"
  connected_desc :: obus_bus_event_desc
  disconnected_desc :: obus_bus_event_desc
  connection_refused_desc :: obus_bus_event_desc
  cl_trace :: "client_note list"

text \<open>
  The user's callbacks. They may do anything to the client; those of a provider may be missing. The
  arguments are addresses: the bus event, or the object, the event and the bus event.
\<close>

record client_user =
  u_bus_event :: "addr \<Rightarrow> obus_client \<Rightarrow> obus_client"
  u_add :: "obus_provider \<Rightarrow> (addr \<Rightarrow> addr \<Rightarrow> obus_client \<Rightarrow> obus_client) option"
  u_remove :: "obus_provider \<Rightarrow> (addr \<Rightarrow> addr \<Rightarrow> obus_client \<Rightarrow> obus_client) option"
  u_event :: "obus_provider \<Rightarrow> (addr \<Rightarrow> addr \<Rightarrow> addr \<Rightarrow> obus_client \<Rightarrow> obus_client) option"

text \<open>What handlers depend on: memory, shared strings, random numbers and the user.\<close>

record client_env =
  env_mem :: memory
  env_alias :: "nat \<Rightarrow> nat \<Rightarrow> nat \<Rightarrow> bool"
  env_rnd :: "u16 list"
  env_user :: client_user

section \<open>Composition\<close>

text \<open>
  Handlers give the result and the new state; \<open>None\<close> says that they do not return. A handler stops
  at a fault; other errors stop it where the code says so.
\<close>

definition bindc :: "(unit res \<times> 's) option \<Rightarrow> ('s \<Rightarrow> (unit res \<times> 's) option) \<Rightarrow> (unit res \<times> 's) option" where
  "bindc r k = (case r of None \<Rightarrow> None | Some (Inl e, s) \<Rightarrow> Some (Inl e, s) | Some (Inr _, s) \<Rightarrow> k s)"

definition on_bus :: "(bus_state \<Rightarrow> unit res \<times> bus_state) \<Rightarrow> obus_client \<Rightarrow> (unit res \<times> obus_client) option" where
  "on_bus f c = (case f (cl_bus c) of (r, s) \<Rightarrow> Some (r, c\<lparr>cl_bus := s\<rparr>))"

definition ignoring :: "(unit res \<times> 's) option \<Rightarrow> (unit res \<times> 's) option" where
  "ignoring r = map_option no_fault r"

primrec walkc :: "('s \<Rightarrow> addr \<Rightarrow> (unit res \<times> 's) option) \<Rightarrow> addr list \<Rightarrow> 's \<Rightarrow> (unit res \<times> 's) option" where
  "walkc f [] c = Some (Inr (), c)"
| "walkc f (p # ps) c = bindc (f c p) (walkc f ps)"

definition noted :: "client_note \<Rightarrow> obus_client \<Rightarrow> obus_client" where
  "noted n c = c\<lparr>cl_trace := cl_trace c @ [n]\<rparr>"

text \<open>A bus event on the stack of the function that uses it.\<close>

definition stack_event :: "obus_bus_event_desc \<Rightarrow> (addr \<Rightarrow> obus_client \<Rightarrow> (unit res \<times> obus_client) option) \<Rightarrow>
    obus_client \<Rightarrow> (unit res \<times> obus_client) option" where
  "stack_event desc f c =
     (let p = next_addr (cl_bus c) in
      bindc (f p (c\<lparr>cl_bus := (obus_bus_event_init (cl_bus c) p desc)\<lparr>next_addr := Suc p\<rparr>\<rparr>)) (\<lambda>c.
        Some (Inr (), c\<lparr>cl_bus := cl_bus c\<lparr>bevts := (bevts (cl_bus c))(p := None)\<rparr>\<rparr>)))"

section \<open>Objects, events and acknowledgements\<close>

definition obus_client_bus_event_notify :: "client_env \<Rightarrow> obus_client \<Rightarrow> addr \<Rightarrow> (unit res \<times> obus_client) option" where
  "obus_client_bus_event_notify E c p =
     (case bevts (cl_bus c) p of None \<Rightarrow> Some (Inl FAULT, c)
      | Some be \<Rightarrow> Some (Inr (), u_bus_event (env_user E) p (noted (Bus_Event_Note (be_desc be)) c)))"

definition obus_client_sanitize_event :: "obus_client \<Rightarrow> addr \<Rightarrow> obus_client" where
  "obus_client_sanitize_event c p =
     c\<lparr>cl_bus := cl_bus c\<lparr>evts := (evts (cl_bus c))(p := map_option (\<lambda>ev. snd (obus_event_sanitize ev False)) (evts (cl_bus c) p))\<rparr>\<rparr>"

text \<open>The callback of the provider of an object, if there is one.\<close>

definition provider_cb :: "(obus_provider \<Rightarrow> 'f option) \<Rightarrow> obus_client \<Rightarrow> obus_object \<Rightarrow> 'f option" where
  "provider_cb cb c obj = Option.bind (obus_bus_provider (cl_bus c) (od_uid (o_desc obj))) cb"

definition obus_client_event :: "client_env \<Rightarrow> obus_client \<Rightarrow> addr \<Rightarrow> addr \<Rightarrow> (unit res \<times> obus_client) option" where
  "obus_client_event E c p be =
     (case evts (cl_bus c) p of None \<Rightarrow> Some (Inl FAULT, c) | Some event \<Rightarrow>
      let c = obus_client_sanitize_event c p in
      (case objs (cl_bus c) (e_obj event) of None \<Rightarrow> Some (Inl FAULT, c) | Some obj \<Rightarrow>
        let c = (case provider_cb (u_event (env_user E)) c obj of None \<Rightarrow> c
                 | Some f \<Rightarrow> f (e_obj event) p be (noted (Event_Note (e_obj event) p) c)) in
        bindc (ignoring (on_bus (\<lambda>s. obus_event_commit (env_mem E) (env_alias E) s p) c)) (\<lambda>c.
        ignoring (on_bus (\<lambda>s. obus_event_destroy s p) c))))"

definition obus_client_add_object_notify :: "client_env \<Rightarrow> obus_client \<Rightarrow> addr \<Rightarrow> addr \<Rightarrow> (unit res \<times> obus_client) option" where
  "obus_client_add_object_notify E c p be =
     (case objs (cl_bus c) p of None \<Rightarrow> Some (Inl FAULT, c) | Some obj \<Rightarrow>
      Some (Inr (), case provider_cb (u_add (env_user E)) c obj of None \<Rightarrow> c | Some f \<Rightarrow> f p be (noted (Add_Note p) c)))"

text \<open>An object that cannot be put on the bus is destroyed; the function returns all the same.\<close>

definition obus_client_add_object :: "client_env \<Rightarrow> obus_client \<Rightarrow> addr \<Rightarrow> addr \<Rightarrow> bool \<Rightarrow> (unit res \<times> obus_client) option" where
  "obus_client_add_object E c p be notify =
     (case obus_bus_add_object (env_mem E) (env_rnd E) (cl_bus c) p of
        None \<Rightarrow> None
      | Some (Inl e, s) \<Rightarrow>
          let c = c\<lparr>cl_bus := s\<rparr> in
          if e = FAULT then Some (Inl FAULT, c) else ignoring (on_bus (\<lambda>s. obus_object_destroy s p) c)
      | Some (Inr _, s) \<Rightarrow>
          (case obus_bus_register_object s p of
             (Inl e, s) \<Rightarrow>
               let c = c\<lparr>cl_bus := s\<rparr> in
               if e = FAULT then Some (Inl FAULT, c)
               else bindc (ignoring (on_bus (\<lambda>s. obus_bus_remove_object s p) c)) (\<lambda>c.
                    ignoring (on_bus (\<lambda>s. obus_object_destroy s p) c))
           | (Inr _, s) \<Rightarrow>
               let c = c\<lparr>cl_bus := s\<rparr> in
               if notify then obus_client_add_object_notify E c p be else Some (Inr (), c)))"

definition obus_client_remove_object :: "client_env \<Rightarrow> obus_client \<Rightarrow> addr \<Rightarrow> addr \<Rightarrow> (unit res \<times> obus_client) option" where
  "obus_client_remove_object E c p be =
     bindc (on_bus (\<lambda>s. obus_bus_abort_call s p) c) (\<lambda>c.
     (case objs (cl_bus c) p of None \<Rightarrow> Some (Inl FAULT, c) | Some obj \<Rightarrow>
      let c = (case provider_cb (u_remove (env_user E)) c obj of None \<Rightarrow> c | Some f \<Rightarrow> f p be (noted (Remove_Note p) c)) in
      bindc (ignoring (on_bus (\<lambda>s. obus_bus_unregister_object s p) c)) (\<lambda>c.
      bindc (ignoring (on_bus (\<lambda>s. obus_bus_remove_object s p) c)) (\<lambda>c.
      ignoring (on_bus (\<lambda>s. obus_object_destroy s p) c)))))"

definition obus_client_ack :: "obus_client \<Rightarrow> obus_ack \<Rightarrow> (unit res \<times> obus_client) option" where
  "obus_client_ack c ack =
     (let p = obus_bus_call (cl_bus c) (ack_handle ack) in
      if p = 0 then Some (Inr (), c)
      else bindc (ignoring (on_bus (\<lambda>s. obus_bus_unregister_call s p) c)) (\<lambda>c.
           bindc (on_bus (\<lambda>s. obus_call_ack_notify s p (ack_status ack)) c) (\<lambda>c.
           ignoring (on_bus (\<lambda>s. obus_call_destroy s p) c))))"

section \<open>Bus events\<close>

definition bus_event_list :: "(obus_bus_event \<Rightarrow> addr list) \<Rightarrow> addr \<Rightarrow> obus_client \<Rightarrow> addr list" where
  "bus_event_list sel p c = (case bevts (cl_bus c) p of None \<Rightarrow> [] | Some be \<Rightarrow> sel be)"

text \<open>The loops go over the list as it is when they start.\<close>

definition obus_client_commit_bus_event :: "client_env \<Rightarrow> obus_client \<Rightarrow> addr \<Rightarrow> (unit res \<times> obus_client) option" where
  "obus_client_commit_bus_event E c p =
     (if p = 0 then Some (Inl EINVAL, c)
      else case bevts (cl_bus c) p of None \<Rightarrow> Some (Inl FAULT, c) | Some be \<Rightarrow>
        if be_committed be then Some (Inr (), c)
        else
          let c = c\<lparr>cl_bus := cl_bus c\<lparr>bevts := (bevts (cl_bus c))(p \<mapsto> be\<lparr>be_committed := True\<rparr>)\<rparr>\<rparr> in
          bindc (walkc (\<lambda>c obj. obus_client_add_object E c obj p False) (bus_event_list add_objs p c) c) (\<lambda>c.
          bindc (walkc (\<lambda>c obj. obus_client_add_object_notify E (c\<lparr>cl_bus := detach_event_node (cl_bus c) obj\<rparr>) obj p)
                   (bus_event_list add_objs p c) c) (\<lambda>c.
          bindc (walkc (\<lambda>c evt. obus_client_event E (c\<lparr>cl_bus := detach_event (cl_bus c) evt\<rparr>) evt p)
                   (bus_event_list obj_events p c) c) (\<lambda>c.
          walkc (\<lambda>c obj. obus_client_remove_object E (c\<lparr>cl_bus := detach_event_node (cl_bus c) obj\<rparr>) obj p)
            (bus_event_list remove_objs p c) c))))"

definition obus_client_handle_bus_event :: "client_env \<Rightarrow> obus_client \<Rightarrow> addr \<Rightarrow> (unit res \<times> obus_client) option" where
  "obus_client_handle_bus_event E c p =
     bindc (obus_client_bus_event_notify E c p) (\<lambda>c.
     bindc (ignoring (obus_client_commit_bus_event E c p)) (\<lambda>c.
     ignoring (on_bus (\<lambda>s. obus_bus_event_destroy s p) c)))"

section \<open>Connection\<close>

text \<open>The links are made without a check that the nodes are free.\<close>

definition obus_client_disconnect_bus :: "client_env \<Rightarrow> obus_client \<Rightarrow> (unit res \<times> obus_client) option" where
  "obus_client_disconnect_bus E c =
     stack_event (disconnected_desc c) (\<lambda>p c.
       bindc (on_bus (\<lambda>s. walk (\<lambda>s obj. link_object remove_objs_update s p obj) s (bobjects s)) c) (\<lambda>c.
       obus_client_handle_bus_event E c p)) c"

text \<open>The part of \<open>obus_client_disconnect\<close> for a client that has an io.\<close>

definition close_io :: "obus_client \<Rightarrow> unit res \<times> obus_client" where
  "close_io c =
     (if \<not> io_alive (cl_io c) then (Inr (), c)
      else case cl_decoder c of
        None \<Rightarrow> (Inl FAULT, c)
      | Some d \<Rightarrow>
          (case obus_packet_decoder_destroy d (io_pool (cl_io c)) of (_, pool) \<Rightarrow>
           (case obus_io_destroy ((cl_io c)\<lparr>io_pool := pool\<rparr>) of (r, io) \<Rightarrow>
              (r, c\<lparr>cl_io := io, cl_decoder := None\<rparr>))))"

definition obus_client_disconnect :: "client_env \<Rightarrow> obus_client \<Rightarrow> bool \<Rightarrow> (unit res \<times> obus_client) option" where
  "obus_client_disconnect E c reconnect =
     (let state = cl_state c in
      bindc (Some (close_io (c\<lparr>cl_state := STATE_DISCONNECTING\<rparr>))) (\<lambda>c.
      let c = (if reconnect then c\<lparr>cl_reconnects := Suc (cl_reconnects c)\<rparr> else c\<lparr>cl_sk := False\<rparr>) in
      bindc (if state = STATE_CONNECTED then obus_client_disconnect_bus E c else Some (Inr (), c)) (\<lambda>c.
      Some (Inr (), c\<lparr>cl_state := (if reconnect then STATE_CONNECTING else STATE_DISCONNECTED)\<rparr>))))"

definition obus_client_io_write_done :: "client_env \<Rightarrow> obus_client \<Rightarrow> obus_io_status \<Rightarrow> addr \<Rightarrow> (unit res \<times> obus_client) option" where
  "obus_client_io_write_done E c status p =
     bindc (case io_unref (cl_io c) p of (r, io) \<Rightarrow> Some (r, c\<lparr>cl_io := io\<rparr>)) (\<lambda>c.
     if status \<noteq> OBUS_IO_OK then obus_client_disconnect E c True else Some (Inr (), c))"

text \<open>The objects of an ignored or refused response are lost; each object leaves the list of the response.\<close>

definition obus_client_connection_response :: "client_env \<Rightarrow> obus_client \<Rightarrow> obus_packet_conresp \<Rightarrow> (unit res \<times> obus_client) option" where
  "obus_client_connection_response E c pkt =
     (if cl_state c \<noteq> STATE_CONNECTING then Some (Inr (), c)
      else if rs_status pkt \<noteq> OBUS_CONRESP_ACCEPTED
      then stack_event (connection_refused_desc c) (\<lambda>p c. obus_client_bus_event_notify E c p) (c\<lparr>cl_state := STATE_REFUSED\<rparr>)
      else stack_event (connected_desc c) (\<lambda>p c.
             bindc (on_bus (\<lambda>s. walk (\<lambda>s obj. link_object add_objs_update s p obj) s (rs_objects pkt)) c) (\<lambda>c.
             obus_client_handle_bus_event E c p)) (c\<lparr>cl_state := STATE_CONNECTED\<rparr>))"

text \<open>The switch of \<open>obus_client_io_read_event\<close>.\<close>

definition client_packet :: "client_env \<Rightarrow> obus_client \<Rightarrow> obus_packet_info \<Rightarrow> (unit res \<times> obus_client) option" where
  "client_packet E c info =
     (case info of
        Conresp pkt \<Rightarrow> obus_client_connection_response E c pkt
      | Add p \<Rightarrow> obus_client_add_object E c p 0 True
      | Remove p \<Rightarrow> obus_client_remove_object E c p 0
      | Event p \<Rightarrow> obus_client_event E c p 0
      | Bus_Event p \<Rightarrow> obus_client_handle_bus_event E c p
      | Ack ack \<Rightarrow> obus_client_ack c ack
      | _ \<Rightarrow> Some (Inr (), c))"

partial_function (option) read_packets_loop :: "client_env \<Rightarrow> obus_client \<Rightarrow> (unit res \<times> obus_client) option" where
  "read_packets_loop E c =
     (case cl_decoder c of
        None \<Rightarrow> Some (Inl FAULT, c)
      | Some d \<Rightarrow>
          (case obus_packet_decoder_read (env_mem E) d (cl_bus c) of
             None \<Rightarrow> None
           | Some (r, d, s) \<Rightarrow>
               (case r of
                  Inl e \<Rightarrow>
                    (if e = FAULT then Some (Inl FAULT, c\<lparr>cl_decoder := Some d, cl_bus := s\<rparr>)
                     else if e = EAGAIN then Some (Inr (), c\<lparr>cl_decoder := Some d, cl_bus := s\<rparr>)
                     else obus_client_disconnect E (c\<lparr>cl_decoder := Some d, cl_bus := s\<rparr>) True)
                | Inr info \<Rightarrow>
                    (case client_packet E (c\<lparr>cl_decoder := Some d, cl_bus := s\<rparr>) info of
                       None \<Rightarrow> None
                     | Some (Inl e, c) \<Rightarrow> Some (Inl e, c)
                     | Some (Inr _, c) \<Rightarrow> read_packets_loop E c))))"

definition obus_client_io_read_event :: "client_env \<Rightarrow> obus_client \<Rightarrow> u32 \<Rightarrow> (unit res \<times> obus_client) option" where
  "obus_client_io_read_event E c events =
     (if obus_fd_event_error events then obus_client_disconnect E c True
      else if \<not> obus_fd_event_read events then Some (Inr (), c)
      else read_packets_loop E c)"

section \<open>Requests\<close>

definition sizeof_buffer :: nat where "sizeof_buffer = 56"

text \<open>
  A buffer of the pool, with the packet that an encoder makes, given to the io. A buffer that is
  queued keeps the reference; it is dropped when it was written or could not be. The result of
  a write that was queued is success.
\<close>

definition send_packet :: "memory \<Rightarrow> (obus_buffer \<Rightarrow> unit res \<times> obus_buffer) \<Rightarrow> obus_client \<Rightarrow> unit res \<times> obus_client" where
  "send_packet m encode c =
     (case obus_buffer_pool_peek m sizeof_buffer (io_pool (cl_io c)) of
        (None, pool) \<Rightarrow> (Inl ENOMEM, c\<lparr>cl_io := (cl_io c)\<lparr>io_pool := pool\<rparr>\<rparr>)
      | (Some buf, pool) \<Rightarrow>
          let p = next_addr (cl_bus c);
              c = c\<lparr>cl_bus := (cl_bus c)\<lparr>next_addr := Suc p\<rparr>\<rparr> in
          (case encode buf of (r, buf) \<Rightarrow>
             let io = (cl_io c)\<lparr>io_pool := pool, io_bufs := (io_bufs (cl_io c))(p \<mapsto> buf)\<rparr> in
             (case r of
                Inl e \<Rightarrow> (case io_unref io p of (r, io) \<Rightarrow> (if r = Inr () then Inl e else r, c\<lparr>cl_io := io\<rparr>))
              | Inr _ \<Rightarrow>
                  (case (if io_alive io then obus_io_write m io p else (Inl EINVAL, io)) of (r, io) \<Rightarrow>
                     if r = Inl FAULT then (Inl FAULT, c\<lparr>cl_io := io\<rparr>)
                     else if r = Inl EAGAIN then (Inr (), c\<lparr>cl_io := io\<rparr>)
                     else (case io_unref io p of (r', io) \<Rightarrow> (if r' = Inr () then r else r', c\<lparr>cl_io := io\<rparr>))))))"

definition obus_client_send_connection_request :: "memory \<Rightarrow> obus_client \<Rightarrow> unit res \<times> obus_client" where
  "obus_client_send_connection_request m c =
     (let desc = api_desc (bus_api (cl_bus c)) in
      send_packet m (\<lambda>buf. obus_packet_conreq_encode m buf (Some (cl_name c)) (Some (bus_name desc)) (crc desc)) c)"

text \<open>The end of \<open>obus_client_socket_connected\<close>: the request, or a new connection when it cannot be sent.\<close>

definition request_connection :: "client_env \<Rightarrow> obus_client \<Rightarrow> (unit res \<times> obus_client) option" where
  "request_connection E c =
     (case obus_client_send_connection_request (env_mem E) c of
        (Inl e, c) \<Rightarrow> (if e = FAULT then Some (Inl FAULT, c) else obus_client_disconnect E c True)
      | (Inr _, c) \<Rightarrow> Some (Inr (), c))"

text \<open>
  The socket is connected: \<open>timer_ok\<close>, \<open>read_ok\<close>, \<open>write_ok\<close>, \<open>out\<close> and \<open>inp\<close> are what the system
  does with the new descriptor.
\<close>

definition obus_client_socket_connected :: "client_env \<Rightarrow> bool \<Rightarrow> bool \<Rightarrow> bool \<Rightarrow> io_output list \<Rightarrow> io_input list \<Rightarrow>
    obus_packet_header \<Rightarrow> obus_client \<Rightarrow> (unit res \<times> obus_client) option" where
  "obus_client_socket_connected E timer_ok read_ok write_ok out inp hdr c =
     (case obus_io_new (env_mem E) timer_ok read_ok write_ok out (io_bufs (cl_io c)) (io_pool (cl_io c)) of
        None \<Rightarrow> obus_client_disconnect E c True
      | Some io \<Rightarrow>
          let c = c\<lparr>cl_io := io\<rparr> in
          (case obus_buffer_pool_peek (env_mem E) sizeof_buffer (io_pool io) of
             (None, pool) \<Rightarrow> obus_client_disconnect E (c\<lparr>cl_io := io\<lparr>io_pool := pool\<rparr>\<rparr>) True
           | (Some buf, pool) \<Rightarrow>
               let d = obus_packet_decoder_init \<lparr>d_hdr = hdr, d_hdr_valid = False, d_buf = buf, d_in = inp, d_log_hdr = False\<rparr> buf inp False;
                   (_, buf, pool) = obus_buffer_unref (d_buf d) pool;
                   c = c\<lparr>cl_io := io\<lparr>io_pool := pool\<rparr>, cl_decoder := Some (d\<lparr>d_buf := buf\<rparr>)\<rparr>
               in request_connection E c))"

section \<open>The interface of the client\<close>

text \<open>A fresh io record without a connection holds the pool of the client.\<close>

definition no_io :: "obus_buffer_pool \<Rightarrow> obus_io" where
  "no_io pool = \<lparr>lograw = False, nbr_written = 0, write_buffers = [], write_timer = 0, write_ready_timeout = 0,
     read_watched = False, write_watched = False, io_alive = False, watchable = False, fd_out = [], fd_sent = [],
     io_bufs = Map.empty, io_pool = pool\<rparr>"

definition sizeof_client :: nat where "sizeof_client = 400"

text \<open>\<open>loop_ok\<close> says whether the event loop can be created.\<close>

definition obus_client_new :: "memory \<Rightarrow> bool \<Rightarrow> u8 list option \<Rightarrow> obus_bus_desc option \<Rightarrow> obus_client option res" where
  "obus_client_new m loop_ok name desc =
     (case (name, desc) of
        (Some name, Some desc) \<Rightarrow>
          if name = [] then Inr None
          else if \<not> alloc_ok m sizeof_client \<or> \<not> alloc_ok m (Suc (length name)) then Inr None
          else (case obus_bus_init m desc of
             Inl e \<Rightarrow> (if e = FAULT then Inl FAULT else Inr None)
           | Inr bus \<Rightarrow>
               let api = bus_api bus in
               (case (obus_bus_api_bus_event api OBUS_BUS_EVENT_CONNECTED_UID,
                      obus_bus_api_bus_event api OBUS_BUS_EVENT_DISCONNECTED_UID,
                      obus_bus_api_bus_event api OBUS_BUS_EVENT_CONNECTION_REFUSED_UID) of
                  (Some con, Some dis, Some ref) \<Rightarrow>
                    if \<not> loop_ok then Inr None
                    else Inr (Some \<lparr>cl_name = name,
                      cl_bus = obus_bus.extend bus \<lparr>objs = Map.empty, calls = Map.empty, evts = Map.empty, bevts = Map.empty,
                         next_addr = 1, notified = []\<rparr>,
                      cl_sk = False, cl_reconnects = 0, cl_state = STATE_IDLE,
                      cl_io = no_io (obus_buffer_pool_init OBUS_DEFAULT_BUFFER_SIZE), cl_decoder = None,
                      connected_desc = con, disconnected_desc = dis, connection_refused_desc = ref, cl_trace = []\<rparr>)
                | _ \<Rightarrow> Inr None))
      | _ \<Rightarrow> Inr None)"

text \<open>\<open>sk\<close> is what creating the socket for the address returns.\<close>

definition obus_client_start :: "unit res \<Rightarrow> obus_client \<Rightarrow> u8 list option \<Rightarrow> unit res \<times> obus_client" where
  "obus_client_start sk c addr =
     (if addr = None then (Inl EINVAL, c)
      else if cl_state c \<noteq> STATE_IDLE then (Inl EPERM, c)
      else case sk of Inl e \<Rightarrow> (Inl e, c) | Inr _ \<Rightarrow> (Inr (), c\<lparr>cl_sk := True, cl_state := STATE_CONNECTING\<rparr>))"

definition obus_client_destroy :: "client_env \<Rightarrow> obus_client \<Rightarrow> (unit res \<times> obus_client) option" where
  "obus_client_destroy E c =
     bindc (obus_client_disconnect E c False) (\<lambda>c.
     bindc (on_bus obus_bus_destroy c) (\<lambda>c.
     Some (Inr (), c\<lparr>cl_io := (cl_io c)\<lparr>io_pool := obus_buffer_pool_destroy (io_pool (cl_io c))\<rparr>\<rparr>)))"

definition obus_client_is_connected :: "obus_client \<Rightarrow> bool" where
  "obus_client_is_connected c \<longleftrightarrow> cl_state c = STATE_CONNECTED"

definition obus_client_get_object :: "obus_client \<Rightarrow> u16 \<Rightarrow> addr" where
  "obus_client_get_object c handle = obus_bus_object (cl_bus c) handle"

definition obus_client_object_next :: "obus_client \<Rightarrow> addr \<Rightarrow> u16 \<Rightarrow> addr res" where
  "obus_client_object_next c prev uid = obus_bus_object_next (cl_bus c) prev uid"

definition obus_client_register_provider :: "memory \<Rightarrow> obus_client \<Rightarrow> obus_provider option \<Rightarrow> (unit res \<times> obus_client) option" where
  "obus_client_register_provider m c prov =
     (case prov of None \<Rightarrow> Some (Inl EINVAL, c) | Some prov \<Rightarrow> on_bus (\<lambda>s. obus_bus_register_provider m s prov) c)"

definition obus_client_unregister_provider :: "obus_client \<Rightarrow> obus_provider option \<Rightarrow> (unit res \<times> obus_client) option" where
  "obus_client_unregister_provider c prov =
     (case prov of None \<Rightarrow> Some (Inl EINVAL, c) | Some prov \<Rightarrow> on_bus (\<lambda>s. obus_bus_unregister_provider s prov) c)"

text \<open>Giving up a call: its arguments are the caller's.\<close>

definition drop_args :: "addr \<Rightarrow> bus_state \<Rightarrow> bus_state" where
  "drop_args q s = s\<lparr>calls := (calls s)(q := map_option (\<lambda>call. call\<lparr>c_args := None\<rparr>) (calls s q))\<rparr>"

definition drop_call :: "addr \<Rightarrow> obus_client \<Rightarrow> unit res \<times> obus_client" where
  "drop_call q c = (case no_fault (obus_call_destroy (drop_args q (cl_bus c)) q) of (r, s) \<Rightarrow> (r, c\<lparr>cl_bus := s\<rparr>))"

definition abandon_call :: "addr \<Rightarrow> obus_client \<Rightarrow> unit res \<times> obus_client" where
  "abandon_call q c =
     (case no_fault (obus_bus_unregister_call (cl_bus c) q) of
        (Inl e, s) \<Rightarrow> (Inl e, c\<lparr>cl_bus := s\<rparr>)
      | (Inr _, s) \<Rightarrow>
          drop_call q (c\<lparr>cl_bus := s\<lparr>calls := (calls s)(q := map_option (\<lambda>call. call\<lparr>c_handle := OBUS_INVALID_HANDLE\<rparr>) (calls s q))\<rparr>\<rparr>))"

text \<open>The error that led to giving up, unless giving up faults.\<close>

definition failing :: "errno \<Rightarrow> unit res \<times> obus_client \<Rightarrow> u16 res \<times> obus_client" where
  "failing e r = (case r of (Inl e', c) \<Rightarrow> (Inl e', c) | (Inr _, c) \<Rightarrow> (Inl e, c))"

text \<open>The part of \<open>obus_client_call\<close> from the registration of the new call on; the result is its handle.\<close>

definition send_call :: "client_env \<Rightarrow> obus_client \<Rightarrow> addr \<Rightarrow> (u16 res \<times> obus_client) option" where
  "send_call E c q =
     (case obus_bus_register_call (env_mem E) (env_rnd E) (cl_bus c) q of
        None \<Rightarrow> None
      | Some (Inl e, s) \<Rightarrow> Some (if e = FAULT then (Inl FAULT, c\<lparr>cl_bus := s\<rparr>) else failing e (drop_call q (c\<lparr>cl_bus := s\<rparr>)))
      | Some (Inr _, s) \<Rightarrow>
          (case send_packet (env_mem E) (\<lambda>buf. obus_packet_call_encode (env_mem E) s buf q) (c\<lparr>cl_bus := s\<rparr>) of
             (Inl e, c) \<Rightarrow> Some (if e = FAULT then (Inl FAULT, c) else failing e (abandon_call q c))
           | (Inr _, c) \<Rightarrow>
               (case calls (cl_bus c) q of None \<Rightarrow> Some (Inl FAULT, c) | Some call \<Rightarrow>
                  Some (Inr (c_handle call), c\<lparr>cl_bus := drop_args q (cl_bus c)\<rparr>))))"

definition obus_client_call :: "client_env \<Rightarrow> obus_client \<Rightarrow> addr \<Rightarrow> obus_method_desc option \<Rightarrow> obus_struct option \<Rightarrow> nat \<Rightarrow>
    (u16 res \<times> obus_client) option" where
  "obus_client_call E c p desc args cb =
     (case desc of None \<Rightarrow> Some (Inl EINVAL, c) | Some desc \<Rightarrow>
      if p = 0 then Some (Inl EINVAL, c)
      else if \<not> obus_client_is_connected c then Some (Inl EPERM, c)
      else case objs (cl_bus c) p of None \<Rightarrow> Some (Inl FAULT, c) | Some obj \<Rightarrow>
        if \<not> obus_object_is_registered (Some obj) then Some (Inl EPERM, c)
        else if obus_object_get_method_state obj (m_uid desc) \<noteq> OBUS_METHOD_ENABLED then Some (Inl EPERM, c)
        else case obus_call_new (env_mem E) p desc cb args of
          None \<Rightarrow> Some (Inl ENOMEM, c)
        | Some call \<Rightarrow>
            let q = next_addr (cl_bus c) in
            send_call E (c\<lparr>cl_bus := (cl_bus c)\<lparr>calls := (calls (cl_bus c))(q \<mapsto> call), next_addr := Suc q\<rparr>\<rparr>) q)"


section \<open>Steps in sequence\<close>

lemma bindc_simps [simp]:
  "bindc (Some (Inr u, s)) k = k s" "bindc (Some (Inl e, s)) k = Some (Inl e, s)" "bindc None k = None"
  by (simp_all add: bindc_def)

lemma on_bus_Inr: "f (cl_bus c) = (r, s) \<Longrightarrow> on_bus f c = Some (r, c\<lparr>cl_bus := s\<rparr>)"
  by (simp add: on_bus_def)

lemma ignoring_simps [simp]: "ignoring (Some (Inr u, s)) = Some (Inr (), s)"
  by (simp add: ignoring_def no_fault_def)

lemma bus_ok_simps [simp]:
  "objects_ok (s\<lparr>bevts := b\<rparr>) = objects_ok s" "calls_ok (s\<lparr>bevts := b\<rparr>) = calls_ok s"
  "objects_ok (s\<lparr>next_addr := a\<rparr>) = objects_ok s" "calls_ok (s\<lparr>next_addr := a\<rparr>) = calls_ok s"
  by (simp_all add: objects_ok_def calls_ok_def)

text \<open>Callbacks that only look.\<close>

definition looking :: "client_user \<Rightarrow> bool" where
  "looking u \<longleftrightarrow> (\<forall>p c. u_bus_event u p c = c)
     \<and> (\<forall>prov f. u_add u prov = Some f \<longrightarrow> (\<forall>p be c. f p be c = c))
     \<and> (\<forall>prov f. u_remove u prov = Some f \<longrightarrow> (\<forall>p be c. f p be c = c))
     \<and> (\<forall>prov f. u_event u prov = Some f \<longrightarrow> (\<forall>p ev be c. f p ev be c = c))"

section \<open>Acknowledgements\<close>

definition ack_note :: "obus_call \<Rightarrow> u32 \<Rightarrow> (nat \<times> addr \<times> u16 \<times> u32) list" where
  "ack_note call status = (if c_cb call \<noteq> 0 then [(c_cb call, c_obj call, c_handle call, status)] else [])"

lemma bus_call_Some:
  assumes "calls_ok s" "obus_bus_call s h = q" "q \<noteq> 0"
  obtains call where "q \<in> set (bcalls s)" "calls s q = Some call" "c_handle call = h"
proof -
  have pl: "plain_hash (calls_hash s)" using assms(1) by (simp add: calls_ok_def)
  have "hash_map (calls_hash s) (ucast h) = Some q"
    using assms(2,3) data_hash.get_eq [OF pl] by (auto simp: obus_bus_call_def split: if_splits sum.splits option.splits)
  then obtain call where "q \<in> set (bcalls s)" "calls s q = Some call" "ucast h = (ucast (c_handle call) :: u32)"
    using calls_lookup [OF assms(1)] by blast
  then show thesis using that ucast_u16_inject by metis
qed

text \<open>
  An acknowledgement ends its call, once. When the call is pending, the client takes it off the
  bus, calls the status callback of the call (if it has one) with the status and the handle, frees
  it, and touches nothing else; another acknowledgement with this handle changes nothing.
\<close>

theorem client_ack_once:
  assumes "calls_ok (cl_bus c)" "p \<in> set (bcalls (cl_bus c))" "calls (cl_bus c) p = Some call" "destroy_args call = Inr ()"
    "ack_handle ack = c_handle call"
  shows "\<exists>s'. obus_client_ack c ack = Some (Inr (), c\<lparr>cl_bus := s'\<rparr>) \<and> calls_ok s' \<and> same_objects (cl_bus c) s'
    \<and> bcalls s' = remove1 p (bcalls (cl_bus c)) \<and> calls s' = (calls (cl_bus c))(p := None)
    \<and> notified s' = notified (cl_bus c) @ ack_note call (ack_status ack)
    \<and> obus_client_ack (c\<lparr>cl_bus := s'\<rparr>) ack = Some (Inr (), c\<lparr>cl_bus := s'\<rparr>)"
proof -
  let ?s = "cl_bus c"
  have p: "p \<noteq> 0" by (rule calls_nonzero [OF assms(1,3)])
  have look: "obus_bus_call ?s (ack_handle ack) = p" using bus_call_iff [OF assms(1-3)] assms(5) by simp
  obtain h where h: "obus_bus_unregister_call ?s p = (Inr (), ?s\<lparr>calls_hash := h, bcalls := remove1 p (bcalls ?s)\<rparr>)"
    "calls_ok (?s\<lparr>calls_hash := h, bcalls := remove1 p (bcalls ?s)\<rparr>)"
    by (rule unregister_call_ok [OF assms(1,2)])
  let ?s1 = "?s\<lparr>calls_hash := h, bcalls := remove1 p (bcalls ?s)\<rparr>"
  let ?s2 = "?s1\<lparr>notified := notified ?s @ ack_note call (ack_status ack)\<rparr>"
  let ?s3 = "?s2\<lparr>calls := (calls ?s)(p := None)\<rparr>"
  have n: "obus_call_ack_notify ?s1 p (ack_status ack) = (Inr (), ?s2)"
    using assms(3) by (simp add: obus_call_ack_notify_def ack_note_def)
  have d: "obus_call_destroy ?s2 p = (Inr (), ?s3)" using assms(3,4) p by (simp add: obus_call_destroy_def)
  have res: "obus_client_ack c ack = Some (Inr (), c\<lparr>cl_bus := ?s3\<rparr>)"
    using look p h(1) n d by (simp add: obus_client_ack_def on_bus_def Let_def)
  have np: "p \<notin> set (remove1 p (bcalls ?s))" using assms(1) by (simp add: calls_ok_def)
  have "calls_ok ?s2" using h(2) by (simp add: calls_ok_def)
  from call_destroy_ok [OF this, of p] have ok: "calls_ok ?s3" using np d by simp
  have "obus_bus_call ?s3 (ack_handle ack) = 0"
  proof (rule ccontr)
    assume q: "obus_bus_call ?s3 (ack_handle ack) \<noteq> 0"
    then obtain q c' where c': "q \<in> set (bcalls ?s3)" "calls ?s3 q = Some c'" "c_handle c' = ack_handle ack"
      by (rule bus_call_Some [OF ok refl])
    then have "q \<noteq> p" "q \<in> set (bcalls ?s)" "calls ?s q = Some c'" using assms(1) by (auto simp: calls_ok_def split: if_splits)
    moreover have "hash_map (calls_hash ?s) (ucast (c_handle call)) = Some q" "hash_map (calls_hash ?s) (ucast (c_handle call)) = Some p"
      using calls_lookup [OF assms(1)] calculation c'(3) assms(2,3,5) by auto
    ultimately show False by simp
  qed
  then have "obus_client_ack (c\<lparr>cl_bus := ?s3\<rparr>) ack = Some (Inr (), c\<lparr>cl_bus := ?s3\<rparr>)" by (simp add: obus_client_ack_def)
  then show ?thesis using res ok by (auto simp: same_objects_def)
qed


section \<open>Removing objects\<close>

text \<open>What has nothing to do with calls and objects.\<close>

definition frame :: "bus_state \<Rightarrow> bus_state \<Rightarrow> bool" where
  "frame s s' \<longleftrightarrow> bus_api s' = bus_api s \<and> providers_hash s' = providers_hash s \<and> bproviders s' = bproviders s
     \<and> evts s' = evts s \<and> bevts s' = bevts s \<and> next_addr s' = next_addr s"

lemma frame_trans: "frame s s' \<Longrightarrow> frame s' s'' \<Longrightarrow> frame s s''"
  by (simp add: frame_def)

lemma frame_refl [simp]: "frame s s"
  by (simp add: frame_def)

lemma frame_chk:
  assumes "frame s (snd r)" "\<And>s'. frame s s' \<Longrightarrow> frame s (snd (k () s'))"
  shows "frame s (snd (chk r k))"
  using assms by (cases r; cases "fst r") auto

lemma frame_no_fault [simp]: "snd (no_fault r) = snd r"
  by (cases r) (auto simp: no_fault_def split: sum.split errno.split)

lemma frame_calls:
  "frame s s1 \<Longrightarrow> frame s (snd (obus_bus_unregister_call s1 p))" "frame s s1 \<Longrightarrow> frame s (snd (obus_call_ack_notify s1 p st))"
  "frame s s1 \<Longrightarrow> frame s (snd (obus_call_destroy s1 p))"
  by (auto simp: obus_bus_unregister_call_def obus_call_ack_notify_def obus_call_destroy_def frame_def split: option.split sum.split prod.split)

lemma ends_frame: "frame s (snd (ends Q s p))"
proof (cases "calls s p")
  case (Some call)
  have "frame s (snd (end_call s p))"
    unfolding end_call_def by (intro frame_chk) (simp_all add: frame_calls)
  then show ?thesis using Some by (simp add: ends_def)
qed (simp add: ends_def)

lemma walk_frame:
  assumes "\<And>s p. frame s (snd (f s p))"
  shows "frame s (snd (walk f s ps))"
proof (induction ps arbitrary: s)
  case (Cons p ps)
  then show ?case using assms [of s p] frame_trans by (cases "f s p") (auto simp: chk_def split: sum.splits)
qed simp

definition calls_of :: "bus_state \<Rightarrow> addr \<Rightarrow> addr list" where
  "calls_of s p = filter (\<lambda>q. c_obj (the (calls s q)) = p) (bcalls s)"

definition abort_notes :: "bus_state \<Rightarrow> addr \<Rightarrow> (nat \<times> addr \<times> u16 \<times> u32) list" where
  "abort_notes s p = concat (map (\<lambda>q. abort_note (the (calls s q))) (calls_of s p))"

definition calls_clean :: "bus_state \<Rightarrow> bool" where
  "calls_clean s \<longleftrightarrow> (\<forall>q\<in>set (bcalls s). \<forall>call. calls s q = Some call \<longrightarrow> destroy_args call = Inr ())"

lemma provider_cb_cong:
  "providers_hash (cl_bus c') = providers_hash (cl_bus c) \<Longrightarrow> o_desc obj' = o_desc obj \<Longrightarrow> provider_cb f c' obj' = provider_cb f c obj"
  by (simp add: provider_cb_def obus_bus_provider_def)

text \<open>The note of the removal, when the provider of the object wants to know.\<close>

definition remove_notes :: "client_env \<Rightarrow> obus_client \<Rightarrow> obus_object \<Rightarrow> addr \<Rightarrow> client_note list" where
  "remove_notes E c obj p = (if provider_cb (u_remove (env_user E)) c obj = None then [] else [Remove_Note p])"

lemma remove_object_gone:
  assumes "objects_ok (cl_bus c)" "calls_ok (cl_bus c)" "calls_clean (cl_bus c)" "objs (cl_bus c) p = Some obj" "o_registered obj"
    "\<not> o_event_node obj" "obus_struct_destroy (o_info obj) = Inr ()" "looking (env_user E)"
  obtains s' where "obus_client_remove_object E c p be = Some (Inr (), c\<lparr>cl_bus := s', cl_trace := cl_trace c @ remove_notes E c obj p\<rparr>)"
    "objects_ok s'" "calls_ok s'" "calls_clean s'" "frame (cl_bus c) s'" "objs s' = (objs (cl_bus c))(p := None)"
    "bobjects s' = remove1 p (bobjects (cl_bus c))" "bcalls s' = filter (\<lambda>q. c_obj (the (calls (cl_bus c) q)) \<noteq> p) (bcalls (cl_bus c))"
    "\<And>q. q \<in> set (bcalls s') \<Longrightarrow> calls s' q = calls (cl_bus c) q" "notified s' = notified (cl_bus c) @ abort_notes (cl_bus c) p"
proof -
  let ?s = "cl_bus c"
  have p: "p \<noteq> 0" by (rule objects_nonzero [OF assms(1,4)])
  have cl: "\<And>q call. q \<in> set (bcalls ?s) \<Longrightarrow> calls ?s q = Some call \<Longrightarrow> destroy_args call = Inr ()" using assms(3) by (auto simp: calls_clean_def)
  obtain s1 where s1: "walk (ends (\<lambda>call. p = 0 \<or> c_obj call = p)) ?s (bcalls ?s) = (Inr (), s1)" "calls_ok s1" "same_objects ?s s1"
    "bcalls s1 = filter (\<lambda>q. \<not> (p = 0 \<or> c_obj (the (calls ?s q)) = p)) (bcalls ?s)"
    "calls s1 = (\<lambda>q. if q \<in> set (bcalls ?s) \<and> (p = 0 \<or> c_obj (the (calls ?s q)) = p) then None else calls ?s q)"
    "notified s1 = notified ?s @ concat (map (\<lambda>q. abort_note (the (calls ?s q))) (filter (\<lambda>q. p = 0 \<or> c_obj (the (calls ?s q)) = p) (bcalls ?s)))"
    by (rule ends_all [OF assms(2) cl])
  have f1: "frame ?s s1" using walk_frame [of "ends (\<lambda>call. p = 0 \<or> c_obj call = p)" ?s "bcalls ?s"] ends_frame s1(1) by simp
  have o1: "objects_ok s1" "objs s1 = objs ?s" "bobjects s1 = bobjects ?s"
    using assms(1) same_objects_ok [OF s1(3)] s1(3) by (simp_all add: same_objects_def)
  let ?obj2 = "obj\<lparr>o_registered := False\<rparr>"
  let ?s2 = "s1\<lparr>objs := (objs s1)(p \<mapsto> ?obj2), bobjects := remove1 p (bobjects s1)\<rparr>"
  have r2: "obus_bus_unregister_object s1 p = (Inr (), ?s2)" "objects_ok ?s2"
    using unregister_object_ok [OF o1(1)] assms(4,5) o1(2) by simp_all
  have b2: "objs ?s2 p = Some ?obj2" "o_bus ?obj2" "\<not> o_registered ?obj2"
    using assms(1,4,5) by (auto simp: objects_ok_def)
  obtain h where h: "obus_bus_remove_object ?s2 p = (Inr (), ?s2\<lparr>objects_hash := h, objs := (objs ?s2)(p \<mapsto> ?obj2\<lparr>o_bus := False\<rparr>)\<rparr>)"
    "objects_ok (?s2\<lparr>objects_hash := h, objs := (objs ?s2)(p \<mapsto> ?obj2\<lparr>o_bus := False\<rparr>)\<rparr>)"
    by (rule remove_object_ok [OF r2(2) b2])
  let ?s3 = "?s2\<lparr>objects_hash := h, objs := (objs ?s2)(p \<mapsto> ?obj2\<lparr>o_bus := False\<rparr>)\<rparr>"
  let ?s4 = "?s3\<lparr>objs := (objs ?s3)(p := None)\<rparr>"
  have d: "obus_object_destroy ?s3 p = (Inr (), ?s4)" using p assms(6,7) by (simp add: obus_object_destroy_def detach_event_node_def)
  have ok4: "objects_ok ?s4" by (rule objects_ok_off_bus [OF h(2)]) (use p in simp_all)
  have prov: "provider_cb (u_remove (env_user E)) (c\<lparr>cl_bus := s1\<rparr>) obj = provider_cb (u_remove (env_user E)) c obj"
    by (rule provider_cb_cong) (use f1 in \<open>simp_all add: frame_def\<close>)
  have cb: "(case provider_cb (u_remove (env_user E)) c obj of None \<Rightarrow> c\<lparr>cl_bus := s1\<rparr> | Some f \<Rightarrow> f p be (noted (Remove_Note p) (c\<lparr>cl_bus := s1\<rparr>)))
      = c\<lparr>cl_bus := s1, cl_trace := cl_trace c @ remove_notes E c obj p\<rparr>"
    using assms(8) by (auto simp: looking_def provider_cb_def remove_notes_def noted_def bind_eq_Some_conv split: option.split)
  have "obus_client_remove_object E c p be = Some (Inr (), c\<lparr>cl_bus := ?s4, cl_trace := cl_trace c @ remove_notes E c obj p\<rparr>)"
    using s1(1) assms(4) o1(2) r2(1) h(1) d unfolding obus_client_remove_object_def abort_call_ends on_bus_def
    by (simp add: prov cb Let_def on_bus_def)
  moreover have "calls_ok ?s4" "frame ?s ?s4" using s1(2) f1 by (simp_all add: calls_ok_def frame_def)
  moreover have "objs ?s4 = (objs ?s)(p := None)" "bobjects ?s4 = remove1 p (bobjects ?s)" using o1 by auto
  moreover have bc: "bcalls ?s4 = filter (\<lambda>q. c_obj (the (calls ?s q)) \<noteq> p) (bcalls ?s)" using s1(4) p by simp
  moreover have same: "calls ?s4 q = calls ?s q" if "q \<in> set (bcalls ?s4)" for q using s1(5) that bc p by auto
  moreover have "calls_clean ?s4" unfolding calls_clean_def using same bc cl by auto
  moreover have "notified ?s4 = notified ?s @ abort_notes ?s p" using s1(6) p by (simp add: abort_notes_def calls_of_def)
  ultimately show thesis using that [of ?s4] ok4 by blast
qed


lemma abort_notes_after:
  assumes "bcalls s1 = filter (\<lambda>q. c_obj (the (calls s q)) \<noteq> p) (bcalls s)" "\<And>q. q \<in> set (bcalls s1) \<Longrightarrow> calls s1 q = calls s q" "p' \<noteq> p"
  shows "abort_notes s1 p' = abort_notes s p'"
proof -
  have "calls_of s1 p' = filter (\<lambda>q. c_obj (the (calls s q)) = p') (bcalls s1)"
    unfolding calls_of_def by (rule filter_cong [OF refl]) (simp add: assms(2))
  also have "\<dots> = calls_of s p'" using assms(3) unfolding assms(1) calls_of_def filter_filter by (auto intro!: filter_cong)
  finally have c: "calls_of s1 p' = calls_of s p'" .
  have "set (calls_of s1 p') \<subseteq> set (bcalls s1)" by (auto simp: calls_of_def)
  then show ?thesis unfolding abort_notes_def c [symmetric] using assms(2) by (auto intro!: arg_cong [of _ _ concat] map_cong)
qed

lemma remove_notes_cong:
  "providers_hash (cl_bus c') = providers_hash (cl_bus c) \<Longrightarrow> o_desc obj' = o_desc obj \<Longrightarrow> remove_notes E c' obj' p = remove_notes E c obj p"
  using provider_cb_cong [of c' c obj' obj "u_remove (env_user E)"] by (simp add: remove_notes_def)

text \<open>An object in the list of removals of a bus event that can go.\<close>

definition leaving :: "bus_state \<Rightarrow> addr \<Rightarrow> bool" where
  "leaving s p \<longleftrightarrow> (\<exists>obj. objs s p = Some obj \<and> o_registered obj \<and> o_event_node obj \<and> obus_struct_destroy (o_info obj) = Inr ())"

text \<open>The loop over the removals of a bus event.\<close>

lemma remove_all:
  assumes "looking (env_user E)"
  shows "objects_ok (cl_bus c) \<Longrightarrow> calls_ok (cl_bus c) \<Longrightarrow> calls_clean (cl_bus c) \<Longrightarrow> bevts (cl_bus c) be = Some e \<Longrightarrow>
    remove_objs e = ps \<Longrightarrow> add_objs e = [] \<Longrightarrow> distinct ps \<Longrightarrow> (\<And>p. p \<in> set ps \<Longrightarrow> leaving (cl_bus c) p) \<Longrightarrow>
    \<exists>s'. walkc (\<lambda>c obj. obus_client_remove_object E (c\<lparr>cl_bus := detach_event_node (cl_bus c) obj\<rparr>) obj be) ps c =
        Some (Inr (), c\<lparr>cl_bus := s', cl_trace := cl_trace c @ concat (map (\<lambda>p. remove_notes E c (the (objs (cl_bus c) p)) p) ps)\<rparr>)
      \<and> objects_ok s' \<and> calls_ok s' \<and> calls_clean s' \<and> bevts s' be = Some (e\<lparr>remove_objs := []\<rparr>)
      \<and> objs s' = (\<lambda>q. if q \<in> set ps then None else objs (cl_bus c) q) \<and> bobjects s' = filter (\<lambda>q. q \<notin> set ps) (bobjects (cl_bus c))
      \<and> bcalls s' = filter (\<lambda>q. c_obj (the (calls (cl_bus c) q)) \<notin> set ps) (bcalls (cl_bus c))
      \<and> notified s' = notified (cl_bus c) @ concat (map (abort_notes (cl_bus c)) ps)"
proof (induction ps arbitrary: c e)
  case Nil
  then have "e\<lparr>remove_objs := []\<rparr> = e" by simp
  then show ?case using Nil by (intro exI [of _ "cl_bus c"]) simp
next
  case (Cons p ps)
  let ?s = "cl_bus c"
  obtain obj where o: "objs ?s p = Some obj" "o_registered obj" "o_event_node obj" "obus_struct_destroy (o_info obj) = Inr ()"
    using Cons.prems(8) [of p] by (auto simp: leaving_def)
  define s0 where "s0 = detach_event_node ?s p"
  let ?obj0 = "obj\<lparr>o_event_node := False\<rparr>"
  have s0: "s0 = ?s\<lparr>bevts := map_option (drop_object p) \<circ> bevts ?s, objs := (objs ?s)(p \<mapsto> ?obj0)\<rparr>"
    using o by (simp add: s0_def detach_event_node_def)
  have i0: "objects_ok s0" "calls_ok s0" "calls_clean s0" "objs s0 p = Some ?obj0"
    using detach_ok(1) [OF Cons.prems(1), of p] Cons.prems(2,3) by (simp_all add: s0_def [symmetric]) (simp_all add: s0 calls_ok_def calls_clean_def)
  let ?c0 = "c\<lparr>cl_bus := s0\<rparr>"
  obtain s1 where s1: "obus_client_remove_object E ?c0 p be = Some (Inr (), ?c0\<lparr>cl_bus := s1, cl_trace := cl_trace ?c0 @ remove_notes E ?c0 ?obj0 p\<rparr>)"
    "objects_ok s1" "calls_ok s1" "calls_clean s1" "frame (cl_bus ?c0) s1" "objs s1 = (objs (cl_bus ?c0))(p := None)"
    "bobjects s1 = remove1 p (bobjects (cl_bus ?c0))" "bcalls s1 = filter (\<lambda>q. c_obj (the (calls (cl_bus ?c0) q)) \<noteq> p) (bcalls (cl_bus ?c0))"
    "\<And>q. q \<in> set (bcalls s1) \<Longrightarrow> calls s1 q = calls (cl_bus ?c0) q" "notified s1 = notified (cl_bus ?c0) @ abort_notes (cl_bus ?c0) p"
    by (rule remove_object_gone [where c = ?c0 and p = p and be = be and obj = ?obj0 and E = E]) (use i0 o assms in simp_all)
  define c1 where "c1 = c\<lparr>cl_bus := s1, cl_trace := cl_trace c @ remove_notes E c obj p\<rparr>"
  have rn: "remove_notes E ?c0 ?obj0 p = remove_notes E c obj p" by (rule remove_notes_cong) (simp_all add: s0)
  have step: "obus_client_remove_object E (c\<lparr>cl_bus := detach_event_node ?s p\<rparr>) p be = Some (Inr (), c1)"
    using s1(1) rn by (simp add: s0_def c1_def)
  have cs: "bcalls s1 = filter (\<lambda>q. c_obj (the (calls ?s q)) \<noteq> p) (bcalls ?s)" "\<And>q. q \<in> set (bcalls s1) \<Longrightarrow> calls s1 q = calls ?s q"
    "objs s1 = (objs ?s)(p := None)" "bobjects s1 = remove1 p (bobjects ?s)" "notified s1 = notified ?s @ abort_notes ?s p"
    using s1(6-10) by (simp_all add: s0 abort_notes_def calls_of_def)
  have b1: "bevts s1 be = Some (e\<lparr>remove_objs := ps\<rparr>)"
    using s1(5) Cons.prems(4-6) by (simp add: frame_def s0 drop_object_def)
  have np: "p \<notin> set ps" "distinct ps" using Cons.prems(7) by auto
  have lv: "leaving (cl_bus c1) q" if "q \<in> set ps" for q
    using that Cons.prems(8) [of q] np(1) cs(3) by (auto simp: c1_def leaving_def)
  have i1: "objects_ok (cl_bus c1)" "calls_ok (cl_bus c1)" "calls_clean (cl_bus c1)" "bevts (cl_bus c1) be = Some (e\<lparr>remove_objs := ps\<rparr>)"
    using s1(2-4) b1 by (simp_all add: c1_def)
  obtain s' where s': "walkc (\<lambda>c obj. obus_client_remove_object E (c\<lparr>cl_bus := detach_event_node (cl_bus c) obj\<rparr>) obj be) ps c1 =
        Some (Inr (), c1\<lparr>cl_bus := s', cl_trace := cl_trace c1 @ concat (map (\<lambda>p. remove_notes E c1 (the (objs (cl_bus c1) p)) p) ps)\<rparr>)"
    "objects_ok s'" "calls_ok s'" "calls_clean s'" "bevts s' be = Some (e\<lparr>remove_objs := ps, remove_objs := []\<rparr>)"
    "objs s' = (\<lambda>q. if q \<in> set ps then None else objs (cl_bus c1) q)" "bobjects s' = filter (\<lambda>q. q \<notin> set ps) (bobjects (cl_bus c1))"
    "bcalls s' = filter (\<lambda>q. c_obj (the (calls (cl_bus c1) q)) \<notin> set ps) (bcalls (cl_bus c1))"
    "notified s' = notified (cl_bus c1) @ concat (map (abort_notes (cl_bus c1)) ps)"
    using Cons.IH [OF i1 _ _ np(2) lv] Cons.prems(6) by auto
  have ph: "providers_hash s1 = providers_hash ?s" using s1(5) by (simp add: frame_def s0)
  have tr: "concat (map (\<lambda>p. remove_notes E c1 (the (objs (cl_bus c1) p)) p) ps) = concat (map (\<lambda>p. remove_notes E c (the (objs ?s p)) p) ps)"
    using np(1) cs(3) ph by (auto simp: c1_def intro!: arg_cong [of _ _ concat] map_cong remove_notes_cong)
  have ab: "concat (map (abort_notes s1) ps) = concat (map (abort_notes ?s) ps)"
    using np(1) abort_notes_after [OF cs(1,2)] by (metis (no_types, lifting) map_eq_conv)
  have bo: "bobjects s' = filter (\<lambda>q. q \<notin> set (p # ps)) (bobjects ?s)"
    using s'(7) cs(4) Cons.prems(1) by (auto simp: c1_def objects_ok_def distinct_remove1_removeAll removeAll_filter_not_eq filter_filter intro!: filter_cong)
  have bc: "bcalls s' = filter (\<lambda>q. c_obj (the (calls ?s q)) \<notin> set (p # ps)) (bcalls ?s)"
  proof -
    have "bcalls s' = filter (\<lambda>q. c_obj (the (calls ?s q)) \<notin> set ps) (bcalls s1)"
      unfolding s'(8) by (simp add: c1_def cong: filter_cong) (rule filter_cong [OF refl], simp add: cs(2))
    then show ?thesis unfolding cs(1) filter_filter by (auto intro!: filter_cong)
  qed
  have ob: "objs s' = (\<lambda>q. if q \<in> set (p # ps) then None else objs ?s q)" using s'(6) cs(3) by (auto simp: c1_def)
  have "walkc (\<lambda>c obj. obus_client_remove_object E (c\<lparr>cl_bus := detach_event_node (cl_bus c) obj\<rparr>) obj be) (p # ps) c =
      Some (Inr (), c\<lparr>cl_bus := s', cl_trace := cl_trace c @ concat (map (\<lambda>p. remove_notes E c (the (objs ?s p)) p) (p # ps))\<rparr>)"
    using step s'(1) tr o(1) by (simp add: c1_def)
  moreover have "notified s' = notified ?s @ concat (map (abort_notes ?s) (p # ps))" using s'(9) cs(5) ab by (simp add: c1_def)
  ultimately show ?case using s'(2-5) ob bo bc by auto
qed


section \<open>Losing the connection\<close>

definition linked_in :: "addr list \<Rightarrow> (addr \<rightharpoonup> obus_object) \<Rightarrow> addr \<rightharpoonup> obus_object" where
  "linked_in ps f q = (if q \<in> set ps then map_option (\<lambda>obj. obj\<lparr>o_event_node := True\<rparr>) (f q) else f q)"

lemma linked_in_simps [simp]: "linked_in [] f = f"
  by (simp add: linked_in_def fun_eq_iff)

lemma linked_in_desc: "f p = Some obj \<Longrightarrow> o_desc (the (linked_in ps f p)) = o_desc (the (f p))"
  by (simp add: linked_in_def)

text \<open>The loop that links objects into a list of a bus event.\<close>

lemma link_all:
  assumes upd: "\<And>f g x. upd f (upd g x) = upd (\<lambda>xs. f (g xs)) x" "\<And>x. upd (\<lambda>xs. xs) x = x"
  shows "objects_ok s \<Longrightarrow> bevts s be = Some e \<Longrightarrow> distinct ps \<Longrightarrow> (\<And>p. p \<in> set ps \<Longrightarrow> \<exists>obj. objs s p = Some obj \<and> \<not> o_event_node obj) \<Longrightarrow>
    walk (\<lambda>s obj. link_object upd s be obj) s ps = (Inr (), s\<lparr>bevts := (bevts s)(be \<mapsto> upd (\<lambda>xs. xs @ ps) e), objs := linked_in ps (objs s)\<rparr>)
    \<and> objects_ok (s\<lparr>bevts := (bevts s)(be \<mapsto> upd (\<lambda>xs. xs @ ps) e), objs := linked_in ps (objs s)\<rparr>)"
proof (induction ps arbitrary: s e)
  case Nil
  have "(bevts s)(be \<mapsto> e) = bevts s" using Nil.prems(2) by (simp add: fun_upd_idem)
  then show ?case using Nil.prems(1) unfolding append_Nil2 upd(2) linked_in_simps by (simp del: fun_upd_apply)
next
  case (Cons p ps)
  obtain obj where o: "objs s p = Some obj" "\<not> o_event_node obj" using Cons.prems(4) [of p] by auto
  define s1 where "s1 = s\<lparr>bevts := (bevts s)(be \<mapsto> upd (\<lambda>xs. xs @ [p]) e), objs := (objs s)(p \<mapsto> obj\<lparr>o_event_node := True\<rparr>)\<rparr>"
  have l: "link_object upd s be p = (Inr (), s1)" using o Cons.prems(2) by (simp add: link_object_def s1_def)
  have "objects_ok (s\<lparr>objs := (objs s)(p \<mapsto> obj\<lparr>o_event_node := True\<rparr>)\<rparr>)" by (rule objects_ok_update [OF Cons.prems(1) o(1)]) simp_all
  then have ok: "objects_ok s1" by (rule same_objects_ok [THEN iffD2, rotated]) (simp add: s1_def same_objects_def)
  have ih: "walk (\<lambda>s obj. link_object upd s be obj) s1 ps = (Inr (), s1\<lparr>bevts := (bevts s1)(be \<mapsto> upd (\<lambda>xs. xs @ ps) (upd (\<lambda>xs. xs @ [p]) e)), objs := linked_in ps (objs s1)\<rparr>)
      \<and> objects_ok (s1\<lparr>bevts := (bevts s1)(be \<mapsto> upd (\<lambda>xs. xs @ ps) (upd (\<lambda>xs. xs @ [p]) e)), objs := linked_in ps (objs s1)\<rparr>)"
    by (rule Cons.IH [OF ok]) (use Cons.prems(3,4) in \<open>auto simp: s1_def\<close>)
  have m: "linked_in ps (objs s1) = linked_in (p # ps) (objs s)" using Cons.prems(3) o(1) by (auto simp: linked_in_def s1_def fun_eq_iff)
  have eq: "s1\<lparr>bevts := (bevts s1)(be \<mapsto> upd (\<lambda>xs. xs @ ps) (upd (\<lambda>xs. xs @ [p]) e)), objs := linked_in ps (objs s1)\<rparr> =
      s\<lparr>bevts := (bevts s)(be \<mapsto> upd (\<lambda>xs. xs @ p # ps) e), objs := linked_in (p # ps) (objs s)\<rparr>"
    unfolding m upd(1) by (simp add: s1_def)
  show ?case using ih unfolding eq by (simp add: l del: fun_upd_apply)
qed

text \<open>A bus event on the stack into which objects are linked.\<close>

definition staged :: "((addr list \<Rightarrow> addr list) \<Rightarrow> obus_bus_event \<Rightarrow> obus_bus_event) \<Rightarrow> obus_bus_event_desc \<Rightarrow> addr list \<Rightarrow> bus_state \<Rightarrow> bus_state" where
  "staged upd desc ps s = s\<lparr>bevts := (bevts s)(next_addr s \<mapsto> upd (\<lambda>xs. xs @ ps) (empty_bus_event desc False)), objs := linked_in ps (objs s),
     next_addr := Suc (next_addr s)\<rparr>"

lemma staged_simps [simp]:
  "objs (staged upd desc ps s) = linked_in ps (objs s)" "bevts (staged upd desc ps s) (next_addr s) = Some (upd (\<lambda>xs. xs @ ps) (empty_bus_event desc False))"
  "calls (staged upd desc ps s) = calls s" "calls_hash (staged upd desc ps s) = calls_hash s" "bcalls (staged upd desc ps s) = bcalls s"
  "notified (staged upd desc ps s) = notified s" "bobjects (staged upd desc ps s) = bobjects s" "objects_hash (staged upd desc ps s) = objects_hash s"
  "providers_hash (staged upd desc ps s) = providers_hash s" "calls_ok (staged upd desc ps s) = calls_ok s" "calls_clean (staged upd desc ps s) = calls_clean s"
  by (simp_all add: staged_def calls_ok_def calls_clean_def)

lemma stack_links:
  assumes "objects_ok (cl_bus c)" "distinct ps" "\<And>p. p \<in> set ps \<Longrightarrow> \<exists>obj. objs (cl_bus c) p = Some obj \<and> \<not> o_event_node obj"
    "\<And>f g x. upd f (upd g x) = upd (\<lambda>xs. f (g xs)) x" "\<And>x. upd (\<lambda>xs. xs) x = x"
    "qs ((obus_bus_event_init (cl_bus c) (next_addr (cl_bus c)) desc)\<lparr>next_addr := Suc (next_addr (cl_bus c))\<rparr>) = ps"
  shows "stack_event desc (\<lambda>p c. bindc (on_bus (\<lambda>s. walk (\<lambda>s obj. link_object upd s p obj) s (qs s)) c) (k p)) c =
      bindc (k (next_addr (cl_bus c)) (c\<lparr>cl_bus := staged upd desc ps (cl_bus c)\<rparr>)) (\<lambda>c'.
        Some (Inr (), c'\<lparr>cl_bus := cl_bus c'\<lparr>bevts := (bevts (cl_bus c'))(next_addr (cl_bus c) := None)\<rparr>\<rparr>))
    \<and> objects_ok (staged upd desc ps (cl_bus c))"
proof -
  let ?s = "cl_bus c" let ?p = "next_addr (cl_bus c)" let ?e = "empty_bus_event desc False"
  define s0 where "s0 = (obus_bus_event_init ?s ?p desc)\<lparr>next_addr := Suc ?p\<rparr>"
  have s0: "objs s0 = objs ?s" "bevts s0 ?p = Some ?e" "objects_ok s0"
    using assms(1) by (auto simp: s0_def obus_bus_event_init_def)
  have eq: "s0\<lparr>bevts := (bevts s0)(?p \<mapsto> upd (\<lambda>xs. xs @ ps) ?e), objs := linked_in ps (objs s0)\<rparr> = staged upd desc ps ?s"
    by (simp add: staged_def s0_def obus_bus_event_init_def)
  have "walk (\<lambda>s obj. link_object upd s ?p obj) s0 ps = (Inr (), staged upd desc ps ?s) \<and> objects_ok (staged upd desc ps ?s)"
    unfolding eq [symmetric] using link_all [of upd s0 ?p ?e ps] assms(2-5) s0 by simp
  then show ?thesis using assms(6) unfolding stack_event_def Let_def s0_def [symmetric] by (simp add: on_bus_def)
qed

text \<open>What a bus event with nothing left does when it is committed and destroyed.\<close>

lemma destroy_stack_event:
  "p \<noteq> 0 \<Longrightarrow> bevts s p = Some e \<Longrightarrow> add_objs e = [] \<Longrightarrow> remove_objs e = [] \<Longrightarrow> obj_events e = [] \<Longrightarrow> \<not> be_allocated e \<Longrightarrow>
   obus_bus_event_destroy s p = (Inr (), s)"
  by (simp add: obus_bus_event_destroy_def)

text \<open>The objects that a lost connection takes along: they can go, and are in no bus event.\<close>

definition all_removable :: "bus_state \<Rightarrow> bool" where
  "all_removable s \<longleftrightarrow> (\<forall>p obj. p \<in> set (bobjects s) \<longrightarrow> objs s p = Some obj \<longrightarrow> \<not> o_event_node obj \<and> obus_struct_destroy (o_info obj) = Inr ())"

text \<open>What is left on the bus when the objects \<open>ps\<close> are gone.\<close>

definition without :: "addr list \<Rightarrow> bus_state \<Rightarrow> bus_state \<Rightarrow> bool" where
  "without ps s s' \<longleftrightarrow> objects_ok s' \<and> calls_ok s' \<and> objs s' = (\<lambda>q. if q \<in> set ps then None else objs s q)
     \<and> bobjects s' = filter (\<lambda>q. q \<notin> set ps) (bobjects s) \<and> bcalls s' = filter (\<lambda>q. c_obj (the (calls s q)) \<notin> set ps) (bcalls s)
     \<and> notified s' = notified s @ concat (map (abort_notes s) ps)"

definition all_remove_notes :: "client_env \<Rightarrow> obus_client \<Rightarrow> addr list \<Rightarrow> client_note list" where
  "all_remove_notes E c ps = concat (map (\<lambda>p. remove_notes E c (the (objs (cl_bus c) p)) p) ps)"

lemma all_remove_notes_cong:
  assumes "providers_hash (cl_bus c') = providers_hash (cl_bus c)"
    "\<And>p. p \<in> set ps \<Longrightarrow> o_desc (the (objs (cl_bus c') p)) = o_desc (the (objs (cl_bus c) p))"
  shows "all_remove_notes E c' ps = all_remove_notes E c ps"
  unfolding all_remove_notes_def using assms by (auto intro!: arg_cong [of _ _ concat] map_cong remove_notes_cong)

text \<open>A bus event on the stack that has removals only.\<close>

lemma handle_removals:
  assumes "objects_ok (cl_bus c)" "calls_ok (cl_bus c)" "calls_clean (cl_bus c)" "looking (env_user E)"
    "p \<noteq> 0" "bevts (cl_bus c) p = Some e" "e = (empty_bus_event desc False)\<lparr>remove_objs := ps\<rparr>" "distinct ps" "\<And>q. q \<in> set ps \<Longrightarrow> leaving (cl_bus c) q"
  shows "\<exists>s'. obus_client_handle_bus_event E c p = Some (Inr (), c\<lparr>cl_bus := s', cl_trace := cl_trace c @ Bus_Event_Note desc # all_remove_notes E c ps\<rparr>)
    \<and> without ps (cl_bus c) s'"
proof -
  let ?s = "cl_bus c" let ?e2 = "e\<lparr>be_committed := True\<rparr>"
  define c1 where "c1 = noted (Bus_Event_Note desc) c"
  define c2 where "c2 = c1\<lparr>cl_bus := ?s\<lparr>bevts := (bevts ?s)(p \<mapsto> ?e2)\<rparr>\<rparr>"
  have i2: "objects_ok (cl_bus c2)" "calls_ok (cl_bus c2)" "calls_clean (cl_bus c2)" "bevts (cl_bus c2) p = Some ?e2"
    using assms(1-3) by (simp_all add: c2_def objects_ok_def calls_ok_def calls_clean_def)
  have lv: "leaving (cl_bus c2) q" if "q \<in> set ps" for q using assms(9) [OF that] by (simp add: leaving_def c2_def)
  have e2: "remove_objs ?e2 = ps" "add_objs ?e2 = []" using assms(7) by (simp_all add: empty_bus_event_def)
  have same: "bobjects (cl_bus c2) = bobjects ?s" "bcalls (cl_bus c2) = bcalls ?s" "calls (cl_bus c2) = calls ?s" "notified (cl_bus c2) = notified ?s"
    "objs (cl_bus c2) = objs ?s" "cl_trace c2 = cl_trace c @ [Bus_Event_Note desc]" "abort_notes (cl_bus c2) = abort_notes ?s"
    by (simp_all add: c2_def c1_def noted_def abort_notes_def calls_of_def fun_eq_iff)
  have rn: "all_remove_notes E c2 ps = all_remove_notes E c ps" by (rule all_remove_notes_cong) (simp_all add: c2_def)
  obtain s' where s': "walkc (\<lambda>c obj. obus_client_remove_object E (c\<lparr>cl_bus := detach_event_node (cl_bus c) obj\<rparr>) obj p) ps c2 =
        Some (Inr (), c2\<lparr>cl_bus := s', cl_trace := cl_trace c2 @ all_remove_notes E c2 ps\<rparr>)"
    "without ps (cl_bus c2) s'" "bevts s' p = Some (?e2\<lparr>remove_objs := []\<rparr>)"
    using remove_all [OF assms(4) i2 e2 assms(8) lv] by (auto simp: without_def all_remove_notes_def)
  let ?c3 = "c2\<lparr>cl_bus := s', cl_trace := cl_trace c2 @ all_remove_notes E c ps\<rparr>"
  have n: "obus_client_bus_event_notify E c p = Some (Inr (), c1)"
    using assms(4,6,7) by (simp add: obus_client_bus_event_notify_def c1_def looking_def empty_bus_event_def)
  have b: "cl_bus c1 = ?s" by (simp add: c1_def noted_def)
  have l2: "bus_event_list add_objs p c2 = []" "bus_event_list obj_events p c2 = []" "bus_event_list remove_objs p c2 = ps"
    using i2(4) assms(7) by (simp_all add: bus_event_list_def empty_bus_event_def)
  have "\<not> be_committed e" using assms(7) by (simp add: empty_bus_event_def)
  then have cm: "obus_client_commit_bus_event E c1 p = Some (Inr (), ?c3)"
    unfolding obus_client_commit_bus_event_def Let_def b c2_def [symmetric] using assms(5,6) s'(1) l2 rn by (simp add: c2_def [symmetric])
  have ds: "obus_bus_event_destroy s' p = (Inr (), s')"
    by (rule destroy_stack_event [OF assms(5) s'(3)]) (simp_all add: assms(7) empty_bus_event_def)
  have "obus_client_handle_bus_event E c p = Some (Inr (), ?c3)"
    unfolding obus_client_handle_bus_event_def n bindc_simps cm by (simp add: on_bus_def ds)
  moreover have "?c3 = c\<lparr>cl_bus := s', cl_trace := cl_trace c @ Bus_Event_Note desc # all_remove_notes E c ps\<rparr>"
    by (simp add: c2_def c1_def noted_def)
  moreover have "without ps ?s s'" using s'(2) unfolding without_def same .
  ultimately show ?thesis by (intro exI [of _ s']) simp
qed

lemma disconnect_bus_gone:
  assumes "objects_ok (cl_bus c)" "calls_ok (cl_bus c)" "calls_clean (cl_bus c)" "all_removable (cl_bus c)" "looking (env_user E)" "next_addr (cl_bus c) \<noteq> 0"
  shows "\<exists>s'. obus_client_disconnect_bus E c = Some (Inr (), c\<lparr>cl_bus := s',
        cl_trace := cl_trace c @ Bus_Event_Note (disconnected_desc c) # all_remove_notes E c (bobjects (cl_bus c))\<rparr>)
    \<and> without (bobjects (cl_bus c)) (cl_bus c) s'"
proof -
  let ?s = "cl_bus c" let ?p = "next_addr (cl_bus c)" let ?ps = "bobjects (cl_bus c)"
  have d: "distinct ?ps" "\<And>p. p \<in> set ?ps \<Longrightarrow> \<exists>obj. objs ?s p = Some obj \<and> o_registered obj" using assms(1) by (auto simp: objects_ok_def)
  have fr: "\<exists>obj. objs ?s p = Some obj \<and> \<not> o_event_node obj" if "p \<in> set ?ps" for p
    using d(2) [OF that] assms(4) that by (auto simp: all_removable_def)
  let ?s1 = "staged remove_objs_update (disconnected_desc c) ?ps ?s"
  let ?c1 = "c\<lparr>cl_bus := ?s1\<rparr>"
  have st: "obus_client_disconnect_bus E c = bindc (obus_client_handle_bus_event E ?c1 ?p) (\<lambda>c'.
      Some (Inr (), c'\<lparr>cl_bus := cl_bus c'\<lparr>bevts := (bevts (cl_bus c'))(?p := None)\<rparr>\<rparr>)) \<and> objects_ok ?s1"
    unfolding obus_client_disconnect_bus_def
    by (rule stack_links [OF assms(1) d(1) fr, where k = "\<lambda>p c. obus_client_handle_bus_event E c p"]) (simp_all add: obus_bus_event_init_def)
  have lv: "leaving ?s1 q" if "q \<in> set ?ps" for q
    using d(2) [OF that] assms(4) that by (auto simp: all_removable_def leaving_def linked_in_def)
  have e1: "bevts ?s1 ?p = Some ((empty_bus_event (disconnected_desc c) False)\<lparr>remove_objs := ?ps\<rparr>)" by (simp add: empty_bus_event_def)
  obtain s' where s': "obus_client_handle_bus_event E ?c1 ?p = Some (Inr (), ?c1\<lparr>cl_bus := s',
      cl_trace := cl_trace ?c1 @ Bus_Event_Note (disconnected_desc c) # all_remove_notes E ?c1 ?ps\<rparr>)" "without ?ps ?s1 s'"
    using handle_removals [where c = ?c1 and E = E and p = ?p and ps = ?ps and desc = "disconnected_desc c"] st assms(2,3,5,6) e1 d(1) lv by auto
  have rn: "all_remove_notes E ?c1 ?ps = all_remove_notes E c ?ps"
    by (rule all_remove_notes_cong) (use d(2) linked_in_desc in fastforce)+
  have "(\<lambda>q. if q \<in> set ?ps then None else linked_in ?ps (objs ?s) q) = (\<lambda>q. if q \<in> set ?ps then None else objs ?s q)"
    by (simp add: linked_in_def fun_eq_iff)
  moreover have "abort_notes ?s1 = abort_notes ?s" by (simp add: abort_notes_def calls_of_def fun_eq_iff)
  ultimately have "without ?ps ?s s'" using s'(2) unfolding without_def by (simp cong: if_cong)
  then have "without ?ps ?s (s'\<lparr>bevts := (bevts s')(?p := None)\<rparr>)" by (simp add: without_def)
  then show ?thesis using st s'(1) rn by (intro exI [of _ "s'\<lparr>bevts := (bevts s')(?p := None)\<rparr>"]) simp
qed

text \<open>The decoder and the io of a client that has a connection.\<close>

definition connection_ok :: "obus_client \<Rightarrow> bool" where
  "connection_ok c \<longleftrightarrow> io_alive (cl_io c) \<and> io_ok (cl_io c) \<and> cl_decoder c \<noteq> None"

lemma close_io_ok:
  assumes "connection_ok c"
  obtains io where "close_io c = (Inr (), c\<lparr>cl_io := io, cl_decoder := None\<rparr>)" "\<not> io_alive io" "write_buffers io = []" "fd_sent io = fd_sent (cl_io c)"
proof -
  obtain d where d: "cl_decoder c = Some d" using assms by (auto simp: connection_ok_def)
  obtain x pool where p: "obus_packet_decoder_destroy d (io_pool (cl_io c)) = (x, pool)" by fastforce
  have "distinct (write_buffers (cl_io c))" "\<forall>p\<in>set (write_buffers (cl_io c)). \<exists>b. io_bufs (cl_io c) p = Some b \<and> 2 \<le> brefcnt b"
    using assms by (auto simp: connection_ok_def io_ok_def)
  then show thesis using destroy_ok [of "(cl_io c)\<lparr>io_pool := pool\<rparr>"] p d assms that by (simp add: close_io_def connection_ok_def)
qed



section \<open>The connection is accepted\<close>

text \<open>An object that the server sent: it has a handle that no other object has.\<close>

definition arriving :: "bus_state \<Rightarrow> addr \<Rightarrow> bool" where
  "arriving s p \<longleftrightarrow> (\<exists>obj. objs s p = Some obj \<and> \<not> o_bus obj \<and> \<not> o_registered obj \<and> o_handle obj \<noteq> OBUS_INVALID_HANDLE
     \<and> od_uid (o_desc obj) \<noteq> OBUS_INVALID_UID \<and> hash_map (objects_hash s) (ucast (o_handle obj)) = None)"

definition handle_at :: "bus_state \<Rightarrow> addr \<Rightarrow> u16" where
  "handle_at s p = o_handle (the (objs s p))"

definition joined :: "addr list \<Rightarrow> (addr \<rightharpoonup> obus_object) \<Rightarrow> addr \<rightharpoonup> obus_object" where
  "joined ps f q = (if q \<in> set ps then map_option (\<lambda>obj. obj\<lparr>o_bus := True, o_registered := True\<rparr>) (f q) else f q)"

lemma joined_Nil [simp]: "joined [] f = f"
  by (simp add: joined_def fun_eq_iff)

lemma joined_desc: "f p = Some obj \<Longrightarrow> o_desc (the (joined ps f p)) = o_desc (the (f p))"
  by (simp add: joined_def)

lemma arriving_Some: "arriving s p \<Longrightarrow> \<exists>obj. objs s p = Some obj"
  by (auto simp: arriving_def)

lemma add_object_joins:
  assumes "objects_ok (cl_bus c)" "arriving (cl_bus c) p" "alloc_ok (env_mem E) sizeof_hash_entry"
  shows "\<exists>h. obus_client_add_object E c p be False = Some (Inr (), c\<lparr>cl_bus := (cl_bus c)\<lparr>objects_hash := h, objs := joined [p] (objs (cl_bus c)),
      bobjects := bobjects (cl_bus c) @ [p]\<rparr>\<rparr>)
    \<and> objects_ok ((cl_bus c)\<lparr>objects_hash := h, objs := joined [p] (objs (cl_bus c)), bobjects := bobjects (cl_bus c) @ [p]\<rparr>)
    \<and> hash_map h = (hash_map (objects_hash (cl_bus c)))(ucast (handle_at (cl_bus c) p) \<mapsto> p)"
proof -
  let ?s = "cl_bus c"
  obtain obj where o: "objs ?s p = Some obj" "\<not> o_bus obj" "\<not> o_registered obj" "o_handle obj \<noteq> OBUS_INVALID_HANDLE"
    "od_uid (o_desc obj) \<noteq> OBUS_INVALID_UID" "hash_map (objects_hash ?s) (ucast (o_handle obj)) = None"
    using assms(2) by (auto simp: arriving_def)
  have p: "p \<noteq> 0" by (rule objects_nonzero [OF assms(1) o(1)])
  obtain h where h: "obus_hash_insert (env_mem E) (objects_hash ?s) (ucast (o_handle obj)) p = (Inr (), h)"
    "hash_map h = (hash_map (objects_hash ?s))(ucast (o_handle obj) \<mapsto> p)"
    using data_hash.ins_new [OF plain_hashes(1) [OF assms(1)] assms(3) o(6), of p] by blast
  have h1: "obj\<lparr>o_handle := o_handle obj, o_bus := True\<rparr> = obj\<lparr>o_bus := True\<rparr>" by (cases obj) simp
  let ?s1 = "?s\<lparr>objects_hash := h, objs := (objs ?s)(p \<mapsto> obj\<lparr>o_bus := True\<rparr>)\<rparr>"
  have a: "obus_bus_add_object (env_mem E) (env_rnd E) ?s p = Some (Inr (), ?s1)"
    using o p h(1) h1 by (simp add: obus_bus_add_object_def)
  from assms(1) o(1,2) a have ok: "objects_ok ?s1" by (cases rule: add_object_cases) auto
  have r: "objs ?s1 p = Some (obj\<lparr>o_bus := True\<rparr>)" "o_bus (obj\<lparr>o_bus := True\<rparr>)" "\<not> o_registered (obj\<lparr>o_bus := True\<rparr>)" using o by simp_all
  have j: "joined [p] (objs ?s) = (objs ?s)(p \<mapsto> obj\<lparr>o_bus := True, o_registered := True\<rparr>)" using o(1) by (simp add: joined_def fun_eq_iff)
  show ?thesis using register_object_ok [OF ok r] a h(2) o(1)
    by (intro exI [of _ h]) (simp add: obus_client_add_object_def j handle_at_def)
qed

lemma add_all:
  assumes "alloc_ok (env_mem E) sizeof_hash_entry"
  shows "objects_ok (cl_bus c) \<Longrightarrow> distinct ps \<Longrightarrow> distinct (map (handle_at (cl_bus c)) ps) \<Longrightarrow> (\<And>p. p \<in> set ps \<Longrightarrow> arriving (cl_bus c) p) \<Longrightarrow>
    \<exists>h. walkc (\<lambda>c obj. obus_client_add_object E c obj be False) ps c =
        Some (Inr (), c\<lparr>cl_bus := (cl_bus c)\<lparr>objects_hash := h, objs := joined ps (objs (cl_bus c)), bobjects := bobjects (cl_bus c) @ ps\<rparr>\<rparr>)
      \<and> objects_ok ((cl_bus c)\<lparr>objects_hash := h, objs := joined ps (objs (cl_bus c)), bobjects := bobjects (cl_bus c) @ ps\<rparr>)"
proof (induction ps arbitrary: c)
  case Nil
  then show ?case by (intro exI [of _ "objects_hash (cl_bus c)"]) simp
next
  case (Cons p ps)
  let ?s = "cl_bus c"
  obtain h where h: "obus_client_add_object E c p be False = Some (Inr (), c\<lparr>cl_bus := ?s\<lparr>objects_hash := h, objs := joined [p] (objs ?s),
      bobjects := bobjects ?s @ [p]\<rparr>\<rparr>)"
    "objects_ok (?s\<lparr>objects_hash := h, objs := joined [p] (objs ?s), bobjects := bobjects ?s @ [p]\<rparr>)"
    "hash_map h = (hash_map (objects_hash ?s))(ucast (handle_at ?s p) \<mapsto> p)"
    using add_object_joins [OF Cons.prems(1) Cons.prems(4) assms, of p be] by auto
  define c1 where "c1 = c\<lparr>cl_bus := ?s\<lparr>objects_hash := h, objs := joined [p] (objs ?s), bobjects := bobjects ?s @ [p]\<rparr>\<rparr>"
  have np: "p \<notin> set ps" "distinct ps" using Cons.prems(2) by auto
  have q: "objs (cl_bus c1) q = objs ?s q" "handle_at (cl_bus c1) q = handle_at ?s q" if "q \<in> set ps" for q
    using that np by (auto simp: c1_def joined_def handle_at_def)
  have ar: "arriving (cl_bus c1) q" if "q \<in> set ps" for q
  proof -
    obtain obj where o: "objs ?s q = Some obj" "\<not> o_bus obj" "\<not> o_registered obj" "o_handle obj \<noteq> OBUS_INVALID_HANDLE"
      "od_uid (o_desc obj) \<noteq> OBUS_INVALID_UID" "hash_map (objects_hash ?s) (ucast (o_handle obj)) = None"
      using Cons.prems(4) [of q] \<open>q \<in> set ps\<close> by (auto simp: arriving_def)
    have "handle_at ?s p \<notin> handle_at ?s ` set ps" "handle_at ?s q = o_handle obj" using Cons.prems(3) o(1) by (simp_all add: handle_at_def)
    then have "o_handle obj \<noteq> handle_at ?s p" using that by (metis imageI)
    then have "hash_map h (ucast (o_handle obj)) = None" using h(3) o(6) by (simp add: ucast_u16_inject)
    then show ?thesis using o q(1) [OF that] by (simp add: arriving_def c1_def)
  qed
  have "map (handle_at (cl_bus c1)) ps = map (handle_at ?s) ps" using q(2) by simp
  then have "distinct (map (handle_at (cl_bus c1)) ps)" using Cons.prems(3) by (simp del: map_eq_conv)
  then obtain h' where h': "walkc (\<lambda>c obj. obus_client_add_object E c obj be False) ps c1 = Some (Inr (), c1\<lparr>cl_bus := (cl_bus c1)\<lparr>objects_hash := h',
      objs := joined ps (objs (cl_bus c1)), bobjects := bobjects (cl_bus c1) @ ps\<rparr>\<rparr>)"
    "objects_ok ((cl_bus c1)\<lparr>objects_hash := h', objs := joined ps (objs (cl_bus c1)), bobjects := bobjects (cl_bus c1) @ ps\<rparr>)"
    using Cons.IH [of c1] h(2) np(2) ar by (auto simp: c1_def)
  have j: "joined ps (objs (cl_bus c1)) = joined (p # ps) (objs ?s)" using np(1) by (auto simp: c1_def joined_def fun_eq_iff)
  show ?case using h(1) h' unfolding j by (intro exI [of _ h']) (simp add: c1_def)
qed

definition add_notes :: "client_env \<Rightarrow> obus_client \<Rightarrow> addr list \<Rightarrow> client_note list" where
  "add_notes E c ps = map Add_Note (filter (\<lambda>p. provider_cb (u_add (env_user E)) c (the (objs (cl_bus c) p)) \<noteq> None) ps)"

lemma add_notes_cong:
  assumes "providers_hash (cl_bus c') = providers_hash (cl_bus c)"
    "\<And>p. p \<in> set ps \<Longrightarrow> o_desc (the (objs (cl_bus c') p)) = o_desc (the (objs (cl_bus c) p))"
  shows "add_notes E c' ps = add_notes E c ps"
proof -
  have "provider_cb (u_add (env_user E)) c' (the (objs (cl_bus c') p)) = provider_cb (u_add (env_user E)) c (the (objs (cl_bus c) p))"
    if "p \<in> set ps" for p by (rule provider_cb_cong [OF assms(1) assms(2) [OF that]])
  then show ?thesis unfolding add_notes_def by (simp cong: filter_cong)
qed

definition unlinked :: "addr list \<Rightarrow> (addr \<rightharpoonup> obus_object) \<Rightarrow> addr \<rightharpoonup> obus_object" where
  "unlinked ps f q = (if q \<in> set ps then map_option (\<lambda>obj. obj\<lparr>o_event_node := False\<rparr>) (f q) else f q)"

lemma unlinked_Nil [simp]: "unlinked [] f = f"
  by (simp add: unlinked_def fun_eq_iff)

lemma notify_all:
  assumes "looking (env_user E)"
  shows "objects_ok (cl_bus c) \<Longrightarrow> bevts (cl_bus c) be = Some e \<Longrightarrow> add_objs e = ps \<Longrightarrow> remove_objs e = [] \<Longrightarrow> distinct ps \<Longrightarrow>
    (\<And>p. p \<in> set ps \<Longrightarrow> \<exists>obj. objs (cl_bus c) p = Some obj \<and> o_event_node obj) \<Longrightarrow>
    \<exists>b. walkc (\<lambda>c obj. obus_client_add_object_notify E (c\<lparr>cl_bus := detach_event_node (cl_bus c) obj\<rparr>) obj be) ps c =
        Some (Inr (), c\<lparr>cl_bus := (cl_bus c)\<lparr>bevts := b, objs := unlinked ps (objs (cl_bus c))\<rparr>, cl_trace := cl_trace c @ add_notes E c ps\<rparr>)
      \<and> objects_ok ((cl_bus c)\<lparr>bevts := b, objs := unlinked ps (objs (cl_bus c))\<rparr>) \<and> b be = Some (e\<lparr>add_objs := []\<rparr>)"
proof (induction ps arbitrary: c e)
  case Nil
  then have "e\<lparr>add_objs := []\<rparr> = e" by simp
  then show ?case using Nil by (intro exI [of _ "bevts (cl_bus c)"]) (simp add: add_notes_def)
next
  case (Cons p ps)
  let ?s = "cl_bus c"
  obtain obj where o: "objs ?s p = Some obj" "o_event_node obj" using Cons.prems(6) [of p] by auto
  define s1 where "s1 = detach_event_node ?s p"
  let ?obj = "obj\<lparr>o_event_node := False\<rparr>"
  have s1: "s1 = ?s\<lparr>bevts := map_option (drop_object p) \<circ> bevts ?s, objs := (objs ?s)(p \<mapsto> ?obj)\<rparr>"
    using o by (simp add: s1_def detach_event_node_def)
  have ok: "objects_ok s1" unfolding s1_def by (rule detach_ok(1) [OF Cons.prems(1)])
  define c1 where "c1 = c\<lparr>cl_bus := s1, cl_trace := cl_trace c @ add_notes E c [p]\<rparr>"
  have pc: "provider_cb f (c\<lparr>cl_bus := s1\<rparr>) ?obj = provider_cb f c obj" for f :: "obus_provider \<Rightarrow> 'z option"
    by (simp add: provider_cb_def obus_bus_provider_def s1)
  have n: "obus_client_add_object_notify E (c\<lparr>cl_bus := s1\<rparr>) p be = Some (Inr (), c1)"
    using assms o(1) pc [of "u_add (env_user E)"] by (auto simp: obus_client_add_object_notify_def s1 c1_def looking_def provider_cb_def add_notes_def noted_def
        bind_eq_Some_conv split: option.split)
  have b1: "bevts (cl_bus c1) be = Some (e\<lparr>add_objs := ps\<rparr>)" using Cons.prems(2-4) by (simp add: c1_def s1 drop_object_def)
  have np: "p \<notin> set ps" "distinct ps" using Cons.prems(5) by auto
  have q: "\<exists>obj. objs (cl_bus c1) q = Some obj \<and> o_event_node obj" if "q \<in> set ps" for q using that np Cons.prems(6) [of q] by (auto simp: c1_def s1)
  obtain b where b: "walkc (\<lambda>c obj. obus_client_add_object_notify E (c\<lparr>cl_bus := detach_event_node (cl_bus c) obj\<rparr>) obj be) ps c1 =
        Some (Inr (), c1\<lparr>cl_bus := (cl_bus c1)\<lparr>bevts := b, objs := unlinked ps (objs (cl_bus c1))\<rparr>, cl_trace := cl_trace c1 @ add_notes E c1 ps\<rparr>)"
    "objects_ok ((cl_bus c1)\<lparr>bevts := b, objs := unlinked ps (objs (cl_bus c1))\<rparr>)" "b be = Some (e\<lparr>add_objs := ps, add_objs := []\<rparr>)"
    using Cons.IH [OF _ b1 _ _ np(2) q] ok Cons.prems(4) by (auto simp: c1_def)
  have j: "unlinked ps (objs (cl_bus c1)) = unlinked (p # ps) (objs ?s)" using np(1) o(1) by (auto simp: c1_def s1 unlinked_def fun_eq_iff)
  have t: "add_notes E c1 ps = add_notes E c ps" by (rule add_notes_cong) (use np(1) in \<open>auto simp: c1_def s1\<close>)
  have t': "add_notes E c (p # ps) = add_notes E c [p] @ add_notes E c ps" by (simp add: add_notes_def)
  show ?case using n b unfolding j t t' by (intro exI [of _ b]) (simp add: c1_def s1_def [symmetric], simp add: s1)
qed

text \<open>A bus event on the stack that has new objects only.\<close>

lemma handle_additions:
  assumes "objects_ok (cl_bus c)" "looking (env_user E)" "alloc_ok (env_mem E) sizeof_hash_entry" "p \<noteq> 0" "bevts (cl_bus c) p = Some e"
    "e = (empty_bus_event desc False)\<lparr>add_objs := ps\<rparr>" "distinct ps" "distinct (map (handle_at (cl_bus c)) ps)"
    "\<And>q. q \<in> set ps \<Longrightarrow> arriving (cl_bus c) q" "\<And>q. q \<in> set ps \<Longrightarrow> o_event_node (the (objs (cl_bus c) q))"
  shows "\<exists>h b. obus_client_handle_bus_event E c p = Some (Inr (), c\<lparr>cl_bus := (cl_bus c)\<lparr>objects_hash := h, bobjects := bobjects (cl_bus c) @ ps,
        bevts := b, objs := unlinked ps (joined ps (objs (cl_bus c)))\<rparr>, cl_trace := cl_trace c @ Bus_Event_Note desc # add_notes E c ps\<rparr>)
    \<and> objects_ok ((cl_bus c)\<lparr>objects_hash := h, bobjects := bobjects (cl_bus c) @ ps, bevts := b, objs := unlinked ps (joined ps (objs (cl_bus c)))\<rparr>)"
proof -
  let ?s = "cl_bus c" let ?e2 = "e\<lparr>be_committed := True\<rparr>"
  define c1 where "c1 = noted (Bus_Event_Note desc) c"
  define c2 where "c2 = c1\<lparr>cl_bus := ?s\<lparr>bevts := (bevts ?s)(p \<mapsto> ?e2)\<rparr>\<rparr>"
  have same: "objs (cl_bus c2) = objs ?s" "handle_at (cl_bus c2) = handle_at ?s" "objects_hash (cl_bus c2) = objects_hash ?s" "bobjects (cl_bus c2) = bobjects ?s"
    by (simp_all add: c2_def handle_at_def fun_eq_iff)
  have a: "arriving (cl_bus c2) q" if "q \<in> set ps" for q using assms(9) [OF that] by (simp add: arriving_def same)
  have o2: "objects_ok (cl_bus c2)" "distinct (map (handle_at (cl_bus c2)) ps)" using assms(1,8) unfolding same by (simp_all add: c2_def)
  obtain h where h: "walkc (\<lambda>c obj. obus_client_add_object E c obj p False) ps c2 =
        Some (Inr (), c2\<lparr>cl_bus := (cl_bus c2)\<lparr>objects_hash := h, objs := joined ps (objs ?s), bobjects := bobjects ?s @ ps\<rparr>\<rparr>)"
    "objects_ok ((cl_bus c2)\<lparr>objects_hash := h, objs := joined ps (objs ?s), bobjects := bobjects ?s @ ps\<rparr>)"
    using add_all [OF assms(3) o2(1) assms(7) o2(2) a] unfolding same by blast
  define c3 where "c3 = c2\<lparr>cl_bus := (cl_bus c2)\<lparr>objects_hash := h, objs := joined ps (objs ?s), bobjects := bobjects ?s @ ps\<rparr>\<rparr>"
  have b3: "bevts (cl_bus c3) p = Some ?e2" "add_objs ?e2 = ps" "remove_objs ?e2 = []" "objects_ok (cl_bus c3)"
    using assms(6) h(2) by (simp_all add: c3_def c2_def empty_bus_event_def)
  have n3: "\<exists>obj. objs (cl_bus c3) q = Some obj \<and> o_event_node obj" if "q \<in> set ps" for q
    using assms(9,10) [OF that] that by (auto simp: c3_def joined_def arriving_def)
  obtain b where b: "walkc (\<lambda>c obj. obus_client_add_object_notify E (c\<lparr>cl_bus := detach_event_node (cl_bus c) obj\<rparr>) obj p) ps c3 =
        Some (Inr (), c3\<lparr>cl_bus := (cl_bus c3)\<lparr>bevts := b, objs := unlinked ps (objs (cl_bus c3))\<rparr>, cl_trace := cl_trace c3 @ add_notes E c3 ps\<rparr>)"
    "objects_ok ((cl_bus c3)\<lparr>bevts := b, objs := unlinked ps (objs (cl_bus c3))\<rparr>)" "b p = Some (?e2\<lparr>add_objs := []\<rparr>)"
    using notify_all [OF assms(2) b3(4,1-3) assms(7) n3] by blast
  define c4 where "c4 = c3\<lparr>cl_bus := (cl_bus c3)\<lparr>bevts := b, objs := unlinked ps (objs (cl_bus c3))\<rparr>, cl_trace := cl_trace c3 @ add_notes E c3 ps\<rparr>"
  have l: "bus_event_list add_objs p c2 = ps" "bus_event_list add_objs p c3 = ps" "bus_event_list obj_events p c4 = []" "bus_event_list remove_objs p c4 = []"
    using b3(1) b(3) assms(6) by (simp_all add: bus_event_list_def c4_def c2_def empty_bus_event_def)
  have n: "obus_client_bus_event_notify E c p = Some (Inr (), c1)"
    using assms(2,5,6) by (simp add: obus_client_bus_event_notify_def c1_def looking_def empty_bus_event_def)
  have c1: "cl_bus c1 = ?s" "\<not> be_committed e" using assms(6) by (simp_all add: c1_def noted_def empty_bus_event_def)
  have cm: "obus_client_commit_bus_event E c1 p = Some (Inr (), c4)"
    unfolding obus_client_commit_bus_event_def Let_def c1 assms(5) option.case c2_def [symmetric] l(1) h(1) c3_def [symmetric] bindc_simps l(2) b(1) c4_def [symmetric] l(3,4)
    using assms(4) c1(2) l(4) by simp
  have ds: "obus_bus_event_destroy (cl_bus c4) p = (Inr (), cl_bus c4)"
    by (rule destroy_stack_event [of _ _ "?e2\<lparr>add_objs := []\<rparr>"]) (use assms(4,6) b(3) in \<open>simp_all add: c4_def empty_bus_event_def\<close>)
  have t: "add_notes E c3 ps = add_notes E c ps"
    by (rule add_notes_cong) (use assms(9) arriving_Some joined_desc in \<open>fastforce simp: c3_def c2_def\<close>)+
  have "obus_client_handle_bus_event E c p = Some (Inr (), c4)"
    unfolding obus_client_handle_bus_event_def n bindc_simps cm by (simp add: on_bus_def ds)
  moreover have "c4 = c\<lparr>cl_bus := (cl_bus c)\<lparr>objects_hash := h, bobjects := bobjects (cl_bus c) @ ps,
        bevts := b, objs := unlinked ps (joined ps (objs (cl_bus c)))\<rparr>, cl_trace := cl_trace c @ Bus_Event_Note desc # add_notes E c ps\<rparr>"
    unfolding c4_def t by (simp add: c3_def c2_def c1_def noted_def)
  moreover have "objects_ok (cl_bus c4)" using b(2) by (simp add: c4_def)
  ultimately show ?thesis by (intro exI [of _ h] exI [of _ b]) simp
qed



section \<open>Examples\<close>

text \<open>A client of the example bus, and an environment whose user only looks.\<close>

definition client_on :: "bus_state \<Rightarrow> obus_client_state \<Rightarrow> obus_client" where
  "client_on s st = \<lparr>cl_name = [99], cl_bus = s, cl_sk = True, cl_reconnects = 0, cl_state = st,
     cl_io = (no_io (obus_buffer_pool_init OBUS_DEFAULT_BUFFER_SIZE))\<lparr>io_alive := True\<rparr>, cl_decoder = Some (sample_decoder []),
     connected_desc = \<lparr>be_uid = 1\<rparr>, disconnected_desc = \<lparr>be_uid = 2\<rparr>, connection_refused_desc = \<lparr>be_uid = 3\<rparr>, cl_trace = []\<rparr>"

definition sample_env :: client_env where
  "sample_env = \<lparr>env_mem = full_memory, env_alias = \<lambda>_ _ _. False, env_rnd = [5],
     env_user = \<lparr>u_bus_event = \<lambda>_ c. c, u_add = \<lambda>_. Some (\<lambda>_ _ c. c), u_remove = \<lambda>_. Some (\<lambda>_ _ c. c), u_event = \<lambda>_. Some (\<lambda>_ _ _ c. c)\<rparr>\<rparr>"

text \<open>An object whose method 7 is enabled, and a call of it.\<close>

definition sample_callee :: obus_object where
  "sample_callee = sample_object\<lparr>o_bus := True, o_registered := True, o_info := \<lparr>st_desc = \<lparr>sd_id = 4, sd_size = 8,
     sfields = [\<lparr>fuid = 7, foffset = 0, frole = OBUS_METHOD, ftype = 11, enum_drv = obus_method_state_driver, nb_offset = 0\<rparr>]\<rparr>,
     st_cell = \<lambda>_. Val (Num 1), st_nb = \<lambda>_. 0, st_bits = [1]\<rparr>\<rparr>"

definition plain_method :: obus_method_desc where
  "plain_method = \<lparr>m_owner = 0, m_idx = 0, m_uid = 7, args_desc = None\<rparr>"

lemma client_on_simps [simp]:
  "cl_bus (client_on s st) = s" "cl_state (client_on s st) = st" "cl_trace (client_on s st) = []" "cl_reconnects (client_on s st) = 0"
  "connection_ok (client_on s st)" "connected_desc (client_on s st) = \<lparr>be_uid = 1\<rparr>" "disconnected_desc (client_on s st) = \<lparr>be_uid = 2\<rparr>"
  "cl_decoder (client_on s st) = Some (sample_decoder [])" "io_alive (cl_io (client_on s st))"
  by (simp_all add: client_on_def connection_ok_def io_ok_def no_io_def)

lemma sample_env_simps [simp]: "looking (env_user sample_env)" "env_mem sample_env = full_memory" "env_rnd sample_env = [5]"
  by (simp_all add: sample_env_def looking_def)

lemma client_ack_once_witness:
  "\<exists>c c'. obus_client_ack c \<lparr>ack_handle = 6, ack_status = 1\<rparr> = Some (Inr (), c') \<and> bcalls (cl_bus c) = [2] \<and> bcalls (cl_bus c') = []
    \<and> notified (cl_bus c') = notified (cl_bus c) @ [(3, 1, 6, 1)]"
proof -
  obtain s where s: "calls_ok s" "bcalls s = [2]" "calls s 2 = Some sample_call" by (rule sample_registered)
  have "destroy_args sample_call = Inr ()" "c_handle sample_call = 6" by (simp_all add: destroy_args_def sample_call_def)
  then obtain s' where "obus_client_ack (client_on s STATE_CONNECTED) \<lparr>ack_handle = 6, ack_status = 1\<rparr> = Some (Inr (), (client_on s STATE_CONNECTED)\<lparr>cl_bus := s'\<rparr>)"
    "bcalls s' = []" "notified s' = notified s @ ack_note sample_call 1"
    using client_ack_once [of "client_on s STATE_CONNECTED" 2 sample_call "\<lparr>ack_handle = 6, ack_status = 1\<rparr>"] s by auto
  then show ?thesis using s(2) by (intro exI [of _ "client_on s STATE_CONNECTED"] exI [of _ "(client_on s STATE_CONNECTED)\<lparr>cl_bus := s'\<rparr>"])
      (simp add: ack_note_def sample_call_def)
qed




end
