(* ===== verification/Obus_Client_Link.thy ===== *)
theory Obus_Client_Link
  imports Obus_Client
begin

text \<open>
  The client and its connection: packets are handled in the order of the stream, calls are pending
  exactly when they were sent, and the state of the client agrees with its io, its decoder and its
  socket, whatever happens to it.
\<close>

section \<open>Reading\<close>

lemma idle_nothing_left:
  assumes "idle M cs d" "stream cs d = []"
  shows "\<exists>d'. obus_packet_decoder_read m d s = Some (Inl EAGAIN, d', s) \<and> idle M [] d' \<and> stream [] d' = []"
proof -
  have i: "buf_ok (d_buf d)" "0 < bsize (d_buf d)" "bsize (d_buf d) \<le> M" "d_in d = []" "\<not> d_hdr_valid d" "bpos (d_buf d) = 0" "cs = []"
    "content (d_buf d) = []" using assms by (cases cs; auto simp: idle_def supplied_def stream_def)+
  have l: "blength (d_buf d) = 0" "bsize (d_buf d) < 2 ^ 64" using i(1,8) by (auto simp: content_def buf_ok_def)
  have h: "obus_packet_decode_header d = (Inl EAGAIN, d)"
    using l i(6) by (simp add: obus_packet_decode_header_def find_header.simps [of "d_hdr d"] obus_buffer_read_length_def OBUS_PKT_HDR_SIZE_def)
  have "decoder_more m d = (Inl EAGAIN, d)"
    using i l by (simp add: decoder_more_def obus_io_read_def obus_buffer_ensure_write_space_def obus_buffer_ensure_realloc_def
        obus_buffer_write_space_def Let_def)
  then have "decoder_loop m True d s = Some (Inl EAGAIN, d, s)" by (subst decoder_loop.simps) (simp add: decoder_turn_def)
  moreover have "decoder_loop m False d s = decoder_loop m True d s"
    by (subst decoder_loop.simps) (simp add: decoder_turn_def h i(5))
  ultimately show ?thesis using assms i(7) by (auto simp: obus_packet_decoder_read_def)
qed

text \<open>
  What the client does with a sequence of packets: each is decoded with the objects as they are then and
  handed to its handler, which does not depend on the decoder.
\<close>

fun handles_all :: "client_env \<Rightarrow> obus_client \<Rightarrow> (obus_packet_type \<times> u8 list) list \<Rightarrow> obus_client \<Rightarrow> bool" where
  "handles_all E c [] c' \<longleftrightarrow> c' = c"
| "handles_all E c ((ty, payload) # ps) c' \<longleftrightarrow> 9 + length payload < 2 ^ 32 \<and>
     (\<exists>info s1 c1. decodes (env_mem E) ty payload (cl_bus c) (\<lambda>i t. i = info \<and> t = s1)
        \<and> (\<forall>d. client_packet E (c\<lparr>cl_decoder := d, cl_bus := s1\<rparr>) info = Some (Inr (), c1\<lparr>cl_decoder := d\<rparr>))
        \<and> handles_all E c1 ps c')"

lemma read_packets_loop_all:
  assumes "enough (env_mem E) M"
  shows "idle M cs d \<Longrightarrow> stream cs d = concat (map (\<lambda>(ty, payload). packet_image ty payload) ps) \<Longrightarrow> 2 * length (stream cs d) \<le> M \<Longrightarrow>
    handles_all E c ps c' \<Longrightarrow> \<exists>d'. read_packets_loop E (c\<lparr>cl_decoder := Some d\<rparr>) = Some (Inr (), c'\<lparr>cl_decoder := Some d'\<rparr>) \<and> idle M [] d' \<and> stream [] d' = []"
proof (induction ps arbitrary: cs d c)
  case Nil
  obtain d' where d': "obus_packet_decoder_read (env_mem E) d (cl_bus c) = Some (Inl EAGAIN, d', cl_bus c)" "idle M [] d'" "stream [] d' = []"
    using idle_nothing_left [OF Nil.prems(1)] Nil.prems(2) by auto
  then have "read_packets_loop E (c\<lparr>cl_decoder := Some d\<rparr>) = Some (Inr (), c\<lparr>cl_decoder := Some d'\<rparr>)"
    by (subst read_packets_loop.simps) simp
  then show ?case using d' Nil.prems(4) by auto
next
  case (Cons x ps)
  obtain ty payload where x: "x = (ty, payload)" by (cases x)
  obtain info s1 c1 where p: "9 + length payload < 2 ^ 32" "decodes (env_mem E) ty payload (cl_bus c) (\<lambda>i t. i = info \<and> t = s1)"
    "\<And>d. client_packet E (c\<lparr>cl_decoder := d, cl_bus := s1\<rparr>) info = Some (Inr (), c1\<lparr>cl_decoder := d\<rparr>)" "handles_all E c1 ps c'"
    using Cons.prems(4) x by auto
  let ?more = "concat (map (\<lambda>(ty, payload). packet_image ty payload) ps)"
  have st: "stream cs d = [] @ packet_image ty payload @ ?more" using Cons.prems(2) x by simp
  have "noise [] (packet_image ty payload @ ?more)" by (simp add: noise_def)
  then obtain info' s1' cs1 d1 where r: "obus_packet_decoder_read (env_mem E) d (cl_bus c) = Some (Inr info', d1, s1')" "info' = info \<and> s1' = s1"
    "idle M cs1 d1" "stream cs1 d1 = ?more"
    by (rule decoder_read_ok [OF Cons.prems(1) st _ p(1,2) assms Cons.prems(3)])
  have "read_packets_loop E (c\<lparr>cl_decoder := Some d\<rparr>) = read_packets_loop E (c1\<lparr>cl_decoder := Some d1\<rparr>)"
    using r(1,2) p(3) [of "Some d1"] by (subst read_packets_loop.simps) simp
  moreover have "2 * length (stream cs1 d1) \<le> M" using r(4) st Cons.prems(3) by simp
  ultimately show ?case using Cons.IH [OF r(3,4) _ p(4)] by simp
qed

text \<open>
  C15. Packets are handled in order. When a readable descriptor has a sequence of packets, cut into
  pieces anywhere, \<open>obus_client_io_read_event\<close> handles exactly these packets, in this order, each
  in the state that the packets before it left, and returns when nothing is left to read.
\<close>

theorem client_reads_in_order:
  assumes "cl_decoder c = Some d" "idle M cs d" "stream cs d = concat (map (\<lambda>(ty, payload). packet_image ty payload) ps)"
    "2 * length (stream cs d) \<le> M" "enough (env_mem E) M" "handles_all E c ps c'" "obus_fd_event_read events" "\<not> obus_fd_event_error events"
  shows "\<exists>d'. obus_client_io_read_event E c events = Some (Inr (), c'\<lparr>cl_decoder := Some d'\<rparr>) \<and> idle M [] d' \<and> stream [] d' = []"
proof -
  have "c\<lparr>cl_decoder := Some d\<rparr> = c" using assms(1) by (cases c) simp
  then show ?thesis using read_packets_loop_all [OF assms(5,2,3,4,6)] assms(7,8) by (simp add: obus_client_io_read_event_def)
qed


section \<open>Removals of unknown objects\<close>

text \<open>
  A packet that removes an object the client does not have. The packet is decoded, and the
  object is NULL. The client then aborts all its calls, of every object, each with a note to its
  status callback, and reads the description of the object through the NULL pointer.
\<close>

theorem unknown_removal_faults:
  assumes "obus_bus_object (cl_bus c) handle = 0" "objects_ok (cl_bus c)" "calls_ok (cl_bus c)" "calls_clean (cl_bus c)"
  shows "decodes m OBUS_PKT_REMOVE (be16 uid @ be16 handle) (cl_bus c) (\<lambda>info t. info = Remove 0 \<and> t = cl_bus c)
    \<and> (\<exists>s'. client_packet E c (Remove 0) = Some (Inl FAULT, c\<lparr>cl_bus := s'\<rparr>) \<and> bcalls s' = []
        \<and> notified s' = notified (cl_bus c) @ concat (map (\<lambda>q. abort_note (the (calls (cl_bus c) q))) (bcalls (cl_bus c))))"
proof
  let ?s = "cl_bus c"
  show "decodes m OBUS_PKT_REMOVE (be16 uid @ be16 handle) ?s (\<lambda>info t. info = Remove 0 \<and> t = ?s)"
    unfolding decodes_def
  proof (intro allI impI)
    fix b p rest
    assume "reads_at b p ((be16 uid @ be16 handle) @ rest)"
    then have r: "reads_at b p (be16 uid @ be16 handle @ rest)" by simp
    note r1 = read_u16_at [OF r, of "p + 2", OF refl]
    note r2 = read_u16_at [OF r1(2), of "p + 4", simplified]
    have "obus_packet_remove_decode ?s (advance b p) = (Inr 0, ?s, advance b (p + 4))"
      using r1(1) r2(1) assms(1) by (simp add: obus_packet_remove_decode_def obus_object_remove_decode_def)
    moreover have "pos_only (advance b p) (advance b (p + 4))" by (auto simp: pos_only_def advance_def)
    ultimately show "\<exists>info s' b'. decode_payload m (type_code OBUS_PKT_REMOVE) ?s (advance b p) = (Inr info, s', b')
        \<and> (info = Remove 0 \<and> s' = ?s) \<and> pos_only (advance b p) b'"
      using type_code_less [of OBUS_PKT_REMOVE] by (simp add: decode_payload_def packet_types_def)
  qed
  have cl: "\<And>q call. q \<in> set (bcalls ?s) \<Longrightarrow> calls ?s q = Some call \<Longrightarrow> destroy_args call = Inr ()" using assms(4) by (auto simp: calls_clean_def)
  obtain s1 where s1: "walk (ends (\<lambda>call. (0::addr) = 0 \<or> c_obj call = 0)) ?s (bcalls ?s) = (Inr (), s1)" "calls_ok s1" "same_objects ?s s1"
    "bcalls s1 = filter (\<lambda>q. \<not> ((0::addr) = 0 \<or> c_obj (the (calls ?s q)) = 0)) (bcalls ?s)"
    "calls s1 = (\<lambda>q. if q \<in> set (bcalls ?s) \<and> ((0::addr) = 0 \<or> c_obj (the (calls ?s q)) = 0) then None else calls ?s q)"
    "notified s1 = notified ?s @ concat (map (\<lambda>q. abort_note (the (calls ?s q))) (filter (\<lambda>q. (0::addr) = 0 \<or> c_obj (the (calls ?s q)) = 0) (bcalls ?s)))"
    by (rule ends_all [OF assms(3) cl])
  have "objs s1 0 = None" using s1(3) assms(2) by (simp add: same_objects_def objects_ok_def)
  then have "client_packet E c (Remove 0) = Some (Inl FAULT, c\<lparr>cl_bus := s1\<rparr>)"
    using s1(1) by (simp add: client_packet_def obus_client_remove_object_def on_bus_def abort_call_ends)
  then show "\<exists>s'. client_packet E c (Remove 0) = Some (Inl FAULT, c\<lparr>cl_bus := s'\<rparr>) \<and> bcalls s' = []
      \<and> notified s' = notified ?s @ concat (map (\<lambda>q. abort_note (the (calls ?s q))) (bcalls ?s))"
    using s1(4,6) by auto
qed


section \<open>Calls\<close>

lemma bus_of_send: "cl_bus (snd (send_packet m enc c)) = (cl_bus c)\<lparr>next_addr := next_addr (cl_bus (snd (send_packet m enc c)))\<rparr>"
  by (auto simp: send_packet_def Let_def split: prod.split option.split sum.split)

lemma send_keeps:
  "calls (cl_bus (snd (send_packet m enc c))) = calls (cl_bus c)" "bcalls (cl_bus (snd (send_packet m enc c))) = bcalls (cl_bus c)"
  "calls_hash (cl_bus (snd (send_packet m enc c))) = calls_hash (cl_bus c)" "notified (cl_bus (snd (send_packet m enc c))) = notified (cl_bus c)"
  "objs (cl_bus (snd (send_packet m enc c))) = objs (cl_bus c)" "objects_hash (cl_bus (snd (send_packet m enc c))) = objects_hash (cl_bus c)"
  "bobjects (cl_bus (snd (send_packet m enc c))) = bobjects (cl_bus c)"
  by (subst bus_of_send, simp)+

text \<open>A call that was set up and is given up leaves nothing behind.\<close>

lemma drop_call_ok:
  assumes "calls_ok (cl_bus c)" "calls (cl_bus c) q = Some call" "q \<notin> set (bcalls (cl_bus c))"
  shows "drop_call q c = (Inr (), c\<lparr>cl_bus := (cl_bus c)\<lparr>calls := (calls (cl_bus c))(q := None)\<rparr>\<rparr>)"
    "calls_ok ((cl_bus c)\<lparr>calls := (calls (cl_bus c))(q := None)\<rparr>)"
proof -
  have q: "q \<noteq> 0" by (rule calls_nonzero [OF assms(1,2)])
  then show "drop_call q c = (Inr (), c\<lparr>cl_bus := (cl_bus c)\<lparr>calls := (calls (cl_bus c))(q := None)\<rparr>\<rparr>)"
    using assms(2) by (simp add: drop_call_def drop_args_def obus_call_destroy_def destroy_args_def no_fault_def)
  show "calls_ok ((cl_bus c)\<lparr>calls := (calls (cl_bus c))(q := None)\<rparr>)" by (rule calls_ok_off_list [OF assms(1,3) q])
qed

lemma abandon_call_ok:
  assumes "calls_ok (cl_bus c)" "bcalls (cl_bus c) = qs @ [q]"
  shows "\<exists>s'. abandon_call q c = (Inr (), c\<lparr>cl_bus := s'\<rparr>) \<and> calls_ok s' \<and> bcalls s' = qs \<and> calls s' = (calls (cl_bus c))(q := None)"
proof -
  let ?s = "cl_bus c"
  have q: "q \<in> set (bcalls ?s)" "q \<notin> set qs" using assms by (auto simp: calls_ok_def)
  obtain call where call: "calls ?s q = Some call" using listed_call [OF assms(1) q(1)] by blast
  obtain h where h: "obus_bus_unregister_call ?s q = (Inr (), ?s\<lparr>calls_hash := h, bcalls := remove1 q (bcalls ?s)\<rparr>)"
    "calls_ok (?s\<lparr>calls_hash := h, bcalls := remove1 q (bcalls ?s)\<rparr>)" by (rule unregister_call_ok [OF assms(1) q(1)])
  have rm: "remove1 q (bcalls ?s) = qs" using assms(2) q(2) by (simp add: remove1_append)
  let ?s1 = "?s\<lparr>calls_hash := h, bcalls := qs\<rparr>"
  let ?s2 = "?s1\<lparr>calls := (calls ?s)(q \<mapsto> call\<lparr>c_handle := OBUS_INVALID_HANDLE\<rparr>)\<rparr>"
  have ok1: "calls_ok ?s1" using h(2) rm by simp
  then have "calls_ok (?s1\<lparr>calls := (calls ?s1)(q \<mapsto> call\<lparr>c_handle := OBUS_INVALID_HANDLE\<rparr>)\<rparr>)"
    by (rule calls_ok_off_list) (use q(2) calls_nonzero [OF assms(1) call] in simp_all)
  then have ok2: "calls_ok ?s2" by simp
  have "drop_call q (c\<lparr>cl_bus := ?s2\<rparr>) = (Inr (), c\<lparr>cl_bus := ?s2\<lparr>calls := (calls ?s)(q := None)\<rparr>\<rparr>)"
    "calls_ok (?s2\<lparr>calls := (calls ?s)(q := None)\<rparr>)"
    using drop_call_ok [of "c\<lparr>cl_bus := ?s2\<rparr>" q "call\<lparr>c_handle := OBUS_INVALID_HANDLE\<rparr>"] ok2 q(2) by simp_all
  then show ?thesis using h(1) rm call by (intro exI [of _ "?s2\<lparr>calls := (calls ?s)(q := None)\<rparr>"]) (simp add: abandon_call_def no_fault_def)
qed

text \<open>The pending call that \<open>obus_client_call\<close> leaves behind, or none.\<close>

definition call_result :: "addr \<Rightarrow> nat \<Rightarrow> bus_state \<Rightarrow> u16 res \<Rightarrow> bus_state \<Rightarrow> bool" where
  "call_result p cb s r s' \<longleftrightarrow> calls_ok s' \<and>
     (case r of
        Inl e \<Rightarrow> calls s' = calls s \<and> bcalls s' = bcalls s
      | Inr h \<Rightarrow> bcalls s' = bcalls s @ [next_addr s] \<and> obus_bus_call s h = 0 \<and> obus_bus_call s' h = next_addr s
          \<and> (\<exists>call. calls s' = (calls s)(next_addr s \<mapsto> call) \<and> c_obj call = p \<and> c_handle call = h \<and> c_cb call = cb \<and> c_args call = None))"

lemma call_registered_result:
  assumes "calls_ok s" "calls s (next_addr s) = None" "calls_ok s2" "bcalls s2 = bcalls s @ [next_addr s]"
    "calls s2 = (calls s)(next_addr s \<mapsto> call)" "hash_map (calls_hash s) (ucast (c_handle call)) = None" "c_obj call = p" "c_cb call = cb"
  shows "call_result p cb s (Inr (c_handle call)) (drop_args (next_addr s) s2)"
proof -
  let ?q = "next_addr s"
  have "obus_bus_call s (c_handle call) = 0"
    using assms(6) data_hash.get_eq [OF plain_hashes(2) [OF assms(1)]] by (simp add: obus_bus_call_def)
  moreover have s3: "drop_args ?q s2 = s2\<lparr>calls := (calls s)(?q \<mapsto> call\<lparr>c_args := None\<rparr>)\<rparr>" using assms(5) by (simp add: drop_args_def)
  moreover have ok: "calls_ok (s2\<lparr>calls := (calls s)(?q \<mapsto> call\<lparr>c_args := None\<rparr>)\<rparr>)"
    using assms(3,5) unfolding calls_ok_def by (auto split: if_splits)
  moreover have "obus_bus_call (s2\<lparr>calls := (calls s)(?q \<mapsto> call\<lparr>c_args := None\<rparr>)\<rparr>) (c_handle call) = ?q"
    using bus_call_iff [OF ok, of ?q "call\<lparr>c_args := None\<rparr>"] assms(4) by simp
  ultimately show ?thesis using assms by (auto simp: call_result_def intro!: exI [of _ "call\<lparr>c_args := None\<rparr>"])
qed

lemma send_call_result:
  assumes "calls_ok (cl_bus c)" "calls (cl_bus c) q = None" "q = next_addr (cl_bus c)" "q \<noteq> 0" "c_obj call = p" "c_cb call = cb"
    "send_call E (c\<lparr>cl_bus := (cl_bus c)\<lparr>calls := (calls (cl_bus c))(q \<mapsto> call), next_addr := Suc q\<rparr>\<rparr>) q = Some (r, c')" "r \<noteq> Inl FAULT"
  shows "call_result p cb (cl_bus c) r (cl_bus c')"
proof -
  let ?s = "cl_bus c"
  have q: "q \<notin> set (bcalls ?s)" using assms(1,2) by (auto simp: calls_ok_def)
  let ?s1 = "?s\<lparr>calls := (calls ?s)(q \<mapsto> call), next_addr := Suc q\<rparr>"
  have ok1: "calls_ok ?s1" using calls_ok_off_list [OF assms(1) q assms(4), of "Some call"] by (simp add: calls_ok_def)
  obtain r1 s2 where reg: "obus_bus_register_call (env_mem E) (env_rnd E) ?s1 q = Some (r1, s2)"
    using assms(7) by (auto simp: send_call_def split: option.splits)
  have s1: "calls ?s1 q = Some call" "q \<notin> set (bcalls ?s1)" using q by simp_all
  from ok1 s1 reg show ?thesis
  proof (cases rule: register_call_cases)
    case (failed e)
    have d: "drop_call q (c\<lparr>cl_bus := ?s1\<rparr>) = (Inr (), c\<lparr>cl_bus := ?s1\<lparr>calls := calls ?s\<rparr>\<rparr>)"
      using drop_call_ok(1) [of "c\<lparr>cl_bus := ?s1\<rparr>" q call] ok1 s1 assms(2) by (simp add: fun_upd_idem)
    have ok2: "calls_ok (?s1\<lparr>calls := calls ?s\<rparr>)" using assms(1) by (simp add: calls_ok_def)
    from assms(7,8) reg failed d have "r = Inl e" "c' = c\<lparr>cl_bus := ?s1\<lparr>calls := calls ?s\<rparr>\<rparr>"
      by (auto simp: send_call_def failing_def split: if_splits)
    then show ?thesis using ok2 by (simp add: call_result_def)
  next
    case (added handle h)
    obtain r3 c3 where send: "send_packet (env_mem E) (\<lambda>buf. obus_packet_call_encode (env_mem E) s2 buf q) (c\<lparr>cl_bus := s2\<rparr>) = (r3, c3)"
      by fastforce
    have k: "calls (cl_bus c3) = (calls ?s)(q \<mapsto> call\<lparr>c_handle := handle\<rparr>)" "bcalls (cl_bus c3) = bcalls ?s @ [q]" "calls_hash (cl_bus c3) = h"
      using send_keeps(1-3) [of "env_mem E" "\<lambda>buf. obus_packet_call_encode (env_mem E) s2 buf q" "c\<lparr>cl_bus := s2\<rparr>"] send added(5) by simp_all
    have ok3: "calls_ok (cl_bus c3)" using added(5,6) k by (simp add: calls_ok_def)
    show ?thesis
    proof (cases r3)
      case (Inl e)
      obtain s4 where s4: "abandon_call q c3 = (Inr (), c3\<lparr>cl_bus := s4\<rparr>)" "calls_ok s4" "bcalls s4 = bcalls ?s" "calls s4 = calls ?s"
        using abandon_call_ok [OF ok3 k(2)] k(1) assms(2) by (auto simp: fun_upd_idem)
      from assms(7,8) reg added(1) send Inl s4(1) have "r = Inl e" "c' = c3\<lparr>cl_bus := s4\<rparr>" by (auto simp: send_call_def failing_def split: if_splits)
      then show ?thesis using s4 by (simp add: call_result_def)
    next
      case (Inr u)
      then have "r = Inr handle" "c' = c3\<lparr>cl_bus := drop_args q (cl_bus c3)\<rparr>" using assms(7) reg added(1) send k(1) by (auto simp: send_call_def)
      then show ?thesis using call_registered_result [of ?s "cl_bus c3" "call\<lparr>c_handle := handle\<rparr>"] assms(1-6) ok3 k added(3) by simp
    qed
  qed
qed

text \<open>
  C26. A call is pending exactly when it could be sent. When \<open>obus_client_call\<close> succeeds, the client is
  connected, and exactly one call is new: it is for the object and the status callback given, is
  found under the handle returned, which no other call had, and does not keep the arguments of
  the caller. When it fails, on whatever way, no call is left behind: calls and their handles are
  as before.
\<close>

theorem client_call_pending:
  assumes "calls_ok (cl_bus c)" "calls (cl_bus c) (next_addr (cl_bus c)) = None" "next_addr (cl_bus c) \<noteq> 0"
    "obus_client_call E c p desc args cb = Some (r, c')" "r \<noteq> Inl FAULT"
  shows "call_result p cb (cl_bus c) r (cl_bus c') \<and> (isl r \<or> cl_state c = STATE_CONNECTED)"
proof -
  let ?s = "cl_bus c" let ?q = "next_addr (cl_bus c)"
  consider e where "r = Inl e" "c' = c"
    | dsc call where "cl_state c = STATE_CONNECTED" "obus_call_new (env_mem E) p dsc cb args = Some call"
      "send_call E (c\<lparr>cl_bus := ?s\<lparr>calls := (calls ?s)(?q \<mapsto> call), next_addr := Suc ?q\<rparr>\<rparr>) ?q = Some (r, c')"
    using assms(4) by (auto simp: obus_client_call_def obus_client_is_connected_def Let_def split: option.splits if_splits)
  then show ?thesis
  proof cases
    case 1
    then show ?thesis using assms(1) by (auto simp: call_result_def)
  next
    case (2 dsc call)
    then have "c_obj call = p" "c_cb call = cb" by (auto simp: obus_call_new_def Let_def split: if_splits)
    then show ?thesis using send_call_result [OF assms(1,2) refl assms(3) _ _ 2(3) assms(5)] 2(1) by blast
  qed
qed


section \<open>The states of the client\<close>

text \<open>Handlers of packets leave the connection alone when the callbacks of the user only look.\<close>

definition same_link :: "obus_client \<Rightarrow> obus_client \<Rightarrow> bool" where
  "same_link c c' \<longleftrightarrow> cl_state c' = cl_state c \<and> cl_io c' = cl_io c \<and> cl_decoder c' = cl_decoder c \<and> cl_sk c' = cl_sk c"

definition keeps_link :: "obus_client \<Rightarrow> (unit res \<times> obus_client) option \<Rightarrow> bool" where
  "keeps_link c x \<longleftrightarrow> (\<forall>r c'. x = Some (r, c') \<longrightarrow> same_link c c')"

lemma same_link_refl [simp]: "same_link c c"
  by (simp add: same_link_def)

lemma same_link_trans: "same_link c c' \<Longrightarrow> same_link c' c'' \<Longrightarrow> same_link c c''"
  by (simp add: same_link_def)

lemma same_link_simps [simp]: "same_link c (c'\<lparr>cl_bus := s\<rparr>) = same_link c c'" "same_link c (noted n c') = same_link c c'"
  by (simp_all add: same_link_def noted_def)

lemma keeps_link_None [simp]: "keeps_link c None"
  by (simp add: keeps_link_def)

lemma keeps_link_Some [simp]: "keeps_link c (Some (r, c')) = same_link c c'"
  by (auto simp: keeps_link_def)

lemma keeps_link_bind: "keeps_link c x \<Longrightarrow> (\<And>c'. same_link c c' \<Longrightarrow> keeps_link c (k c')) \<Longrightarrow> keeps_link c (bindc x k)"
  by (cases x) (auto simp: bindc_def split: sum.split)

lemma keeps_link_ignoring [simp]: "keeps_link c (ignoring x) = keeps_link c x"
  by (auto simp: keeps_link_def ignoring_def) (metis frame_no_fault prod.collapse snd_conv)+

lemma keeps_link_on_bus [simp]: "same_link c c' \<Longrightarrow> keeps_link c (on_bus f c')"
  by (simp add: on_bus_def split: prod.split)

lemma keeps_link_walk:
  assumes "\<And>c' p. same_link c c' \<Longrightarrow> keeps_link c (f c' p)"
  shows "same_link c c' \<Longrightarrow> keeps_link c (walkc f ps c')"
  by (induction ps arbitrary: c') (auto intro: keeps_link_bind assms)

lemma keeps_link_stack:
  assumes "\<And>c' p. same_link c c' \<Longrightarrow> keeps_link c (f p c')" "same_link c c'"
  shows "keeps_link c (stack_event desc f c')"
  using assms unfolding stack_event_def Let_def by (intro keeps_link_bind) simp_all

lemmas keeps_link_intros = keeps_link_bind keeps_link_walk keeps_link_stack

text \<open>The callbacks.\<close>

lemma looking_simps:
  assumes "looking u"
  shows "u_bus_event u p c = c"
    "provider_cb (u_add u) c obj = Some f \<Longrightarrow> f p be c' = c'" "provider_cb (u_remove u) c obj = Some f \<Longrightarrow> f p be c' = c'"
    "provider_cb (u_event u) c obj = Some g \<Longrightarrow> g p ev be c' = c'"
  using assms by (auto simp: looking_def provider_cb_def bind_eq_Some_conv)

lemma looking_add_object_notify: "looking (env_user E) \<Longrightarrow> same_link c c' \<Longrightarrow> keeps_link c (obus_client_add_object_notify E c' p be)"
  by (auto simp: obus_client_add_object_notify_def looking_simps split: option.split)

lemma looking_add_object: "looking (env_user E) \<Longrightarrow> same_link c c' \<Longrightarrow> keeps_link c (obus_client_add_object E c' p be notify)"
  by (auto simp: obus_client_add_object_def Let_def looking_add_object_notify split: option.split sum.split prod.split intro!: keeps_link_bind)

lemma looking_remove_object: "looking (env_user E) \<Longrightarrow> same_link c c' \<Longrightarrow> keeps_link c (obus_client_remove_object E c' p be)"
  by (auto simp: obus_client_remove_object_def Let_def looking_simps split: option.split intro!: keeps_link_bind)

lemma looking_event: "looking (env_user E) \<Longrightarrow> same_link c c' \<Longrightarrow> keeps_link c (obus_client_event E c' p be)"
  by (auto simp: obus_client_event_def obus_client_sanitize_event_def Let_def looking_simps split: option.split intro!: keeps_link_bind)

lemma ack_keeps_link: "same_link c c' \<Longrightarrow> keeps_link c (obus_client_ack c' ack)"
  by (auto simp: obus_client_ack_def Let_def intro!: keeps_link_bind)

lemma looking_bus_event_notify: "looking (env_user E) \<Longrightarrow> same_link c c' \<Longrightarrow> keeps_link c (obus_client_bus_event_notify E c' p)"
  by (auto simp: obus_client_bus_event_notify_def looking_simps split: option.split)

lemma looking_commit: "looking (env_user E) \<Longrightarrow> same_link c c' \<Longrightarrow> keeps_link c (obus_client_commit_bus_event E c' p)"
  by (auto simp: obus_client_commit_bus_event_def Let_def split: option.split
      intro!: keeps_link_intros looking_add_object looking_add_object_notify looking_event looking_remove_object)

lemma looking_handle_bus_event: "looking (env_user E) \<Longrightarrow> same_link c c' \<Longrightarrow> keeps_link c (obus_client_handle_bus_event E c' p)"
  by (auto simp: obus_client_handle_bus_event_def looking_commit intro!: keeps_link_bind looking_bus_event_notify)

text \<open>What becomes of the state when a packet is handled.\<close>

definition packet_state :: "obus_client_state \<Rightarrow> obus_packet_info \<Rightarrow> obus_client_state" where
  "packet_state st info =
     (case info of
        Conresp pkt \<Rightarrow> if st \<noteq> STATE_CONNECTING then st else if rs_status pkt = OBUS_CONRESP_ACCEPTED then STATE_CONNECTED else STATE_REFUSED
      | _ \<Rightarrow> st)"

lemma client_packet_link:
  assumes "looking (env_user E)" "client_packet E c info = Some (r, c')"
  shows "same_link (c\<lparr>cl_state := packet_state (cl_state c) info\<rparr>) c'"
proof -
  have "keeps_link (c\<lparr>cl_state := packet_state (cl_state c) info\<rparr>) (client_packet E c info)"
  proof (cases info)
    case (Conresp pkt)
    have s: "c\<lparr>cl_state := cl_state c\<rparr> = c" by simp
    show ?thesis unfolding Conresp client_packet_def obus_packet_info.case obus_client_connection_response_def
      by (auto simp: packet_state_def intro!: keeps_link_stack keeps_link_bind looking_handle_bus_event looking_bus_event_notify assms(1))
  qed (auto simp: client_packet_def packet_state_def assms(1) looking_add_object looking_remove_object looking_event looking_handle_bus_event ack_keeps_link)
  then show ?thesis using assms(2) by (simp add: keeps_link_def)
qed

lemma looking_disconnect_bus: "looking (env_user E) \<Longrightarrow> same_link c c' \<Longrightarrow> keeps_link c (obus_client_disconnect_bus E c')"
  unfolding obus_client_disconnect_bus_def by (intro keeps_link_stack keeps_link_bind looking_handle_bus_event) simp_all

definition down :: "obus_client \<Rightarrow> bool" where
  "down c \<longleftrightarrow> \<not> io_alive (cl_io c) \<and> cl_decoder c = None"

lemma io_destroy_dead: "obus_io_destroy io = (Inr u, io') \<Longrightarrow> \<not> io_alive io'"
  by (auto simp: obus_io_destroy_def chk_def split: prod.splits sum.splits)

lemma close_io_down:
  assumes "close_io c = (Inr u, c')" "io_alive (cl_io c) \<longleftrightarrow> cl_decoder c \<noteq> None"
  shows "down c' \<and> cl_sk c' = cl_sk c"
  using assms by (auto simp: close_io_def down_def split: if_splits option.splits prod.splits dest: io_destroy_dead)

lemma disconnect_link:
  assumes "looking (env_user E)" "obus_client_disconnect E c reconnect = Some (Inr u, c')" "io_alive (cl_io c) \<longleftrightarrow> cl_decoder c \<noteq> None"
  shows "down c' \<and> cl_state c' = (if reconnect then STATE_CONNECTING else STATE_DISCONNECTED) \<and> cl_sk c' = (reconnect \<and> cl_sk c)"
proof -
  obtain r1 c1 where c1: "close_io (c\<lparr>cl_state := STATE_DISCONNECTING\<rparr>) = (r1, c1)" by fastforce
  have r1: "r1 = Inr ()" using assms(2) c1 by (cases r1) (auto simp: obus_client_disconnect_def Let_def)
  have d: "down c1" "cl_sk c1 = cl_sk c" using close_io_down [of "c\<lparr>cl_state := STATE_DISCONNECTING\<rparr>" "()" c1] c1 r1 assms(3) by auto
  define c2 where "c2 = (if reconnect then c1\<lparr>cl_reconnects := Suc (cl_reconnects c1)\<rparr> else c1\<lparr>cl_sk := False\<rparr>)"
  define x where "x = (if cl_state c = STATE_CONNECTED then obus_client_disconnect_bus E c2 else Some (Inr (), c2))"
  have "keeps_link c2 x" by (simp add: x_def looking_disconnect_bus [OF assms(1)])
  moreover have "bindc x (\<lambda>c. Some (Inr (), c\<lparr>cl_state := (if reconnect then STATE_CONNECTING else STATE_DISCONNECTED)\<rparr>)) = Some (Inr u, c')"
    using assms(2) unfolding obus_client_disconnect_def Let_def c1 r1 bindc_simps c2_def [symmetric] x_def [symmetric] .
  ultimately obtain c3 where "same_link c2 c3" "c' = c3\<lparr>cl_state := (if reconnect then STATE_CONNECTING else STATE_DISCONNECTED)\<rparr>"
    by (auto simp: bindc_def keeps_link_def split: option.splits sum.splits)
  then show ?thesis using d by (auto simp: same_link_def c2_def down_def)
qed

text \<open>The io, the decoder and the socket as the state says.\<close>

definition link_ok :: "obus_client \<Rightarrow> bool" where
  "link_ok c \<longleftrightarrow> (io_alive (cl_io c) \<longleftrightarrow> cl_decoder c \<noteq> None) \<and> (cl_state c \<in> {STATE_CONNECTED, STATE_REFUSED} \<longrightarrow> io_alive (cl_io c))
     \<and> (cl_sk c \<longleftrightarrow> cl_state c \<in> {STATE_CONNECTING, STATE_CONNECTED, STATE_REFUSED}) \<and> cl_state c \<noteq> STATE_DISCONNECTING
     \<and> (cl_state c \<in> {STATE_IDLE, STATE_DISCONNECTED} \<longrightarrow> \<not> io_alive (cl_io c))"

lemma link_ok_sk: "link_ok c \<Longrightarrow> io_alive (cl_io c) \<Longrightarrow> cl_sk c"
  by (cases "cl_state c") (auto simp: link_ok_def)

lemma same_link_ok: "same_link c c' \<Longrightarrow> link_ok c' = link_ok c"
  by (simp add: same_link_def link_ok_def)

lemma disconnect_link_ok:
  "looking (env_user E) \<Longrightarrow> obus_client_disconnect E c reconnect = Some (Inr u, c') \<Longrightarrow> (io_alive (cl_io c) \<longleftrightarrow> cl_decoder c \<noteq> None) \<Longrightarrow>
   (reconnect \<Longrightarrow> cl_sk c) \<Longrightarrow> link_ok c'"
  using disconnect_link [of E c reconnect u c'] by (auto simp: link_ok_def down_def)

lemma client_packet_link_ok:
  assumes "looking (env_user E)" "client_packet E c info = Some (r, c')" "link_ok c" "io_alive (cl_io c)"
  shows "link_ok c' \<and> io_alive (cl_io c')"
proof -
  have "link_ok (c\<lparr>cl_state := packet_state (cl_state c) info\<rparr>)"
    using assms(3,4) by (cases info) (auto simp: link_ok_def packet_state_def)
  then show ?thesis using same_link_ok [OF client_packet_link [OF assms(1,2)]] client_packet_link [OF assms(1,2)] assms(4) by (simp add: same_link_def)
qed

lemma read_packets_link_ok:
  assumes "looking (env_user E)" "read_packets_loop E c = Some (Inr u, c')" "link_ok c" "io_alive (cl_io c)"
  shows "link_ok c'"
proof -
  have "looking (env_user E) \<longrightarrow> link_ok c \<longrightarrow> io_alive (cl_io c) \<longrightarrow> (\<forall>u c'. y = (Inr u, c') \<longrightarrow> link_ok c')"
    if "read_packets_loop E c = Some y" for E c y
    using that
  proof (rule read_packets_loop.raw_induct [rotated], goal_cases)
    case (1 f E c y)
    show ?case
    proof (intro impI allI)
      fix u c'
      assume l: "looking (env_user E)" "link_ok c" "io_alive (cl_io c)" and y: "y = (Inr u, c')"
      obtain d where d: "cl_decoder c = Some d" using 1(2) y by (cases "cl_decoder c") auto
      obtain r d' s where r: "obus_packet_decoder_read (env_mem E) d (cl_bus c) = Some (r, d', s)" using 1(2) d by (auto split: option.splits)
      let ?c = "c\<lparr>cl_decoder := Some d', cl_bus := s\<rparr>"
      have ok: "link_ok ?c" "io_alive (cl_io ?c)" "io_alive (cl_io ?c) \<longleftrightarrow> cl_decoder ?c \<noteq> None" "cl_sk ?c"
        using l(2,3) d link_ok_sk [OF l(2,3)] by (simp_all add: link_ok_def)
      show "link_ok c'"
      proof (cases r)
        case (Inl e)
        then show ?thesis using 1(2) d r y ok disconnect_link_ok [OF l(1), of ?c True u c'] by (auto split: if_splits)
      next
        case (Inr info)
        then obtain v c1 where c1: "client_packet E ?c info = Some (Inr v, c1)" "f E c1 = Some y"
          using 1(2) d r y by (auto split: option.splits sum.splits prod.splits)
        show ?thesis using 1(1) [OF c1(2)] client_packet_link_ok [OF l(1) c1(1) ok(1,2)] l(1) y by blast
      qed
    qed
  qed
  then show ?thesis using assms by blast
qed

lemma write_buffer_alive: "obus_io_write_buffer io buf n = (r, n', io') \<Longrightarrow> io_alive io' = io_alive io"
  by (auto simp: obus_io_write_buffer_def Let_def split: prod.splits sum.splits if_splits)

lemma io_write_alive: "obus_io_write m io p = (r, io') \<Longrightarrow> io_alive io' = io_alive io"
  by (auto simp: obus_io_write_def obus_io_buffer_new_def io_ref_def chk_def Let_def
      split: option.splits prod.splits sum.splits if_splits dest: write_buffer_alive)

lemma io_unref_alive: "io_unref io p = (r, io') \<Longrightarrow> io_alive io' = io_alive io"
  by (auto simp: io_unref_def split: option.splits prod.splits if_splits)

lemma send_link:
  "send_packet m enc c = (r, c') \<Longrightarrow> cl_state c' = cl_state c \<and> cl_decoder c' = cl_decoder c \<and> cl_sk c' = cl_sk c \<and> io_alive (cl_io c') = io_alive (cl_io c)"
  by (auto simp: send_packet_def Let_def split: option.splits prod.splits sum.splits if_splits dest!: io_write_alive io_unref_alive)

text \<open>
  What happens to a client: the user starts it, registers providers, makes calls and destroys it;
  the socket gets connected, the descriptor becomes readable, a queued packet is written or fails.
  After a fault nothing happens any more.
\<close>

inductive client_step :: "client_env \<Rightarrow> obus_client \<Rightarrow> obus_client \<Rightarrow> bool" for E where
  start: "obus_client_start sk c addr = (r, c') \<Longrightarrow> client_step E c c'"
| register: "obus_client_register_provider (env_mem E) c prov = Some (r, c') \<Longrightarrow> client_step E c c'"
| unregister: "obus_client_unregister_provider c prov = Some (r, c') \<Longrightarrow> client_step E c c'"
| call: "obus_client_call E c p desc args cb = Some (r, c') \<Longrightarrow> r \<noteq> Inl FAULT \<Longrightarrow> client_step E c c'"
| connect: "cl_sk c \<Longrightarrow> cl_state c = STATE_CONNECTING \<Longrightarrow> \<not> io_alive (cl_io c) \<Longrightarrow>
    obus_client_socket_connected E timer_ok read_ok write_ok out inp hdr c = Some (Inr (), c') \<Longrightarrow> client_step E c c'"
| readable: "io_alive (cl_io c) \<Longrightarrow> obus_client_io_read_event E c events = Some (Inr (), c') \<Longrightarrow> client_step E c c'"
| written: "io_alive (cl_io c) \<Longrightarrow> obus_client_io_write_done E c status p = Some (Inr (), c') \<Longrightarrow> client_step E c c'"
| destroy: "obus_client_destroy E c = Some (Inr (), c') \<Longrightarrow> client_step E c c'"

lemma bindc_Some: "bindc x k = Some (Inr u, c') \<Longrightarrow> \<exists>v c1. x = Some (Inr v, c1) \<and> k c1 = Some (Inr u, c')"
  by (auto simp: bindc_def split: option.splits sum.splits)

lemma link_ok_update: "link_ok c \<Longrightarrow> cl_state c' = cl_state c \<and> cl_decoder c' = cl_decoder c \<and> cl_sk c' = cl_sk c \<and> io_alive (cl_io c') = io_alive (cl_io c) \<Longrightarrow> link_ok c'"
  unfolding link_ok_def by (elim conjE) simp

lemma link_ok_decoder: "link_ok c \<Longrightarrow> io_alive (cl_io c) \<longleftrightarrow> cl_decoder c \<noteq> None"
  by (simp add: link_ok_def)

lemma call_link:
  assumes "obus_client_call E c p desc args cb = Some (r, c')"
  shows "cl_state c' = cl_state c \<and> cl_decoder c' = cl_decoder c \<and> cl_sk c' = cl_sk c \<and> io_alive (cl_io c') = io_alive (cl_io c)"
  using assms unfolding obus_client_call_def Let_def send_call_def
  by (auto simp: failing_def drop_call_def abandon_call_def split: option.splits if_splits sum.splits prod.splits dest!: send_link)

lemma request_link_ok:
  assumes "looking (env_user E)" "request_connection E c = Some (Inr u, c')" "cl_sk c" "cl_state c = STATE_CONNECTING" "io_alive (cl_io c)" "cl_decoder c \<noteq> None"
  shows "link_ok c'"
proof -
  obtain r c2 where c2: "obus_client_send_connection_request (env_mem E) c = (r, c2)" by fastforce
  then have l: "cl_sk c2" "cl_state c2 = STATE_CONNECTING" "io_alive (cl_io c2)" "cl_decoder c2 \<noteq> None"
    using assms by (auto simp: obus_client_send_connection_request_def Let_def dest!: send_link)
  then have "link_ok c2" by (simp add: link_ok_def)
  then show ?thesis using assms(2) c2 l disconnect_link_ok [OF assms(1), of c2 True u c']
    by (cases r) (auto simp: request_connection_def split: if_splits)
qed

lemma connected_link_ok:
  assumes "looking (env_user E)" "link_ok c" "cl_sk c" "cl_state c = STATE_CONNECTING" "\<not> io_alive (cl_io c)"
    "obus_client_socket_connected E timer_ok read_ok write_ok out inp hdr c = Some (Inr u, c')"
  shows "link_ok c'"
proof (cases "obus_io_new (env_mem E) timer_ok read_ok write_ok out (io_bufs (cl_io c)) (io_pool (cl_io c))")
  case None
  then show ?thesis using assms(6) disconnect_link_ok [OF assms(1) _ link_ok_decoder [OF assms(2)], of True] assms(3)
    by (simp add: obus_client_socket_connected_def)
next
  case (Some io)
  have al: "io_alive io" using Some by (auto simp: obus_io_new_def split: if_splits)
  have dn: "cl_decoder c = None" using assms(2,5) by (simp add: link_ok_def)
  show ?thesis
  proof (cases "obus_buffer_pool_peek (env_mem E) sizeof_buffer (io_pool io)")
    case (Pair b pool)
    show ?thesis
    proof (cases b)
      case None
      have "close_io (c\<lparr>cl_io := io\<lparr>io_pool := pool\<rparr>, cl_state := STATE_DISCONNECTING\<rparr>) = (Inl FAULT, c\<lparr>cl_io := io\<lparr>io_pool := pool\<rparr>, cl_state := STATE_DISCONNECTING\<rparr>)"
        using al dn by (simp add: close_io_def)
      then show ?thesis using assms(6) Some Pair None by (simp add: obus_client_socket_connected_def obus_client_disconnect_def)
    next
      case (Some buf)
      obtain n b1 p1 where u: "obus_buffer_unref (d_buf (obus_packet_decoder_init \<lparr>d_hdr = hdr, d_hdr_valid = False, d_buf = buf, d_in = inp, d_log_hdr = False\<rparr> buf inp False)) pool = (n, b1, p1)"
        by (metis prod.exhaust)
      define c1 where "c1 = c\<lparr>cl_io := io\<lparr>io_pool := p1\<rparr>, cl_decoder :=
        Some ((obus_packet_decoder_init \<lparr>d_hdr = hdr, d_hdr_valid = False, d_buf = buf, d_in = inp, d_log_hdr = False\<rparr> buf inp False)\<lparr>d_buf := b1\<rparr>)\<rparr>"
      have "request_connection E c1 = Some (Inr u, c')"
        using assms(6) \<open>obus_io_new _ _ _ _ _ _ _ = Some io\<close> Pair Some u by (simp add: obus_client_socket_connected_def c1_def Let_def)
      then show ?thesis by (rule request_link_ok [OF assms(1)]) (use assms(3,4) al in \<open>simp_all add: c1_def\<close>)
    qed
  qed
qed

lemma client_step_link_ok:
  assumes "client_step E c c'" "looking (env_user E)" "link_ok c"
  shows "link_ok c'"
  using assms(1)
proof cases
  case (start sk addr r)
  then show ?thesis using assms(3) by (auto simp: obus_client_start_def link_ok_def split: if_splits sum.splits)
next
  case (register prov r)
  then show ?thesis using assms(3) by (auto simp: obus_client_register_provider_def on_bus_def intro: link_ok_update split: option.splits prod.splits)
next
  case (unregister prov r)
  then show ?thesis using assms(3) by (auto simp: obus_client_unregister_provider_def on_bus_def intro: link_ok_update split: option.splits prod.splits)
next
  case (call p desc args cb r)
  then show ?thesis using link_ok_update [OF assms(3)] call_link by blast
next
  case connect
  then show ?thesis using connected_link_ok assms(2,3) by blast
next
  case (readable events)
  then show ?thesis using assms(2,3) read_packets_link_ok [OF assms(2)] disconnect_link_ok [OF assms(2) _ link_ok_decoder [OF assms(3)], of True]
      link_ok_sk [OF assms(3)] by (auto simp: obus_client_io_read_event_def split: if_splits)
next
  case (written status p)
  obtain r io where io: "io_unref (cl_io c) p = (r, io)" by fastforce
  have l: "link_ok (c\<lparr>cl_io := io\<rparr>)" using link_ok_update [OF assms(3)] io_unref_alive [OF io] by simp
  have r: "r = Inr ()" using written(2) io by (cases r) (auto simp: obus_client_io_write_done_def)
  show ?thesis using written(2) io r l link_ok_sk [OF assms(3) written(1)] disconnect_link_ok [OF assms(2) _ link_ok_decoder [OF l], of True]
    by (auto simp: obus_client_io_write_done_def split: if_splits)
next
  case destroy
  then obtain v c1 where c1: "obus_client_disconnect E c False = Some (Inr v, c1)"
    "bindc (on_bus obus_bus_destroy c1) (\<lambda>c. Some (Inr (), c\<lparr>cl_io := (cl_io c)\<lparr>io_pool := obus_buffer_pool_destroy (io_pool (cl_io c))\<rparr>\<rparr>)) = Some (Inr (), c')"
    unfolding obus_client_destroy_def by (auto dest!: bindc_Some)
  have "link_ok c1" by (rule disconnect_link_ok [OF assms(2) c1(1) link_ok_decoder [OF assms(3)]]) simp
  then show ?thesis by (rule link_ok_update) (use c1(2) in \<open>auto simp: on_bus_def split: prod.splits dest!: bindc_Some\<close>)
qed



section \<open>Examples\<close>

text \<open>Acknowledgements do not touch the decoder.\<close>

definition with_decoder :: "obus_packet_decoder option \<Rightarrow> (unit res \<times> obus_client) option \<Rightarrow> (unit res \<times> obus_client) option" where
  "with_decoder d x = map_option (map_prod id (\<lambda>c. c\<lparr>cl_decoder := d\<rparr>)) x"

lemma with_decoder_simps [simp]:
  "with_decoder d None = None" "with_decoder d (Some (r, c)) = Some (r, c\<lparr>cl_decoder := d\<rparr>)"
  by (simp_all add: with_decoder_def)

lemma on_bus_decoder [simp]: "on_bus f (c\<lparr>cl_decoder := d\<rparr>) = with_decoder d (on_bus f c)"
  by (simp add: on_bus_def split: prod.split)

lemma ignoring_decoder [simp]: "ignoring (with_decoder d x) = with_decoder d (ignoring x)"
  by (cases x) (auto simp: ignoring_def no_fault_def split: sum.split errno.split)

lemma bindc_decoder: "(\<And>c. k (c\<lparr>cl_decoder := d\<rparr>) = with_decoder d (k c)) \<Longrightarrow> bindc (with_decoder d x) k = with_decoder d (bindc x k)"
  by (cases x) (auto simp: bindc_def split: sum.split)

lemma ack_decoder: "obus_client_ack (c\<lparr>cl_decoder := d\<rparr>) a = with_decoder d (obus_client_ack c a)"
  by (simp add: obus_client_ack_def Let_def bindc_decoder)

lemma handles_ack:
  assumes "obus_client_ack c a = Some (Inr (), c1)" "ucast (ucast (ack_status a) :: u8) = ack_status a" "handles_all E c1 ps c'"
  shows "handles_all E c ((OBUS_PKT_ACK, ack_payload a) # ps) c'"
proof -
  have "client_packet E (c\<lparr>cl_decoder := d, cl_bus := cl_bus c\<rparr>) (Ack a) = Some (Inr (), c1\<lparr>cl_decoder := d\<rparr>)" for d
    using ack_decoder [of d c a] assms(1) by (simp add: client_packet_def)
  moreover have "a\<lparr>ack_status := ack_status a\<rparr> = a" by simp
  ultimately show ?thesis using decodes_ack [of "env_mem E" a "cl_bus c"] assms(2,3) unfolding handles_all.simps
    by (intro conjI exI [of _ "Ack a"] exI [of _ "cl_bus c"] exI [of _ c1]) (simp_all add: ack_payload_def)
qed

lemma client_reads_in_order_witness:
  "\<exists>c c'. bcalls (cl_bus c) = [2] \<and> obus_client_io_read_event sample_env c OBUS_FD_IN = Some (Inr (), c') \<and> bcalls (cl_bus c') = []
    \<and> notified (cl_bus c') = notified (cl_bus c) @ [(3, 1, 6, 1)]"
proof -
  let ?a = "\<lparr>ack_handle = 6, ack_status = 1\<rparr>" and ?b = "\<lparr>ack_handle = 6, ack_status = 2\<rparr>"
  obtain s where s: "calls_ok s" "bcalls s = [2]" "calls s 2 = Some sample_call" by (rule sample_registered)
  let ?ps = "[(OBUS_PKT_ACK, ack_payload ?a), (OBUS_PKT_ACK, ack_payload ?b)]"
  let ?w = "packet_image OBUS_PKT_ACK (ack_payload ?a) @ packet_image OBUS_PKT_ACK (ack_payload ?b)"
  let ?c = "(client_on s STATE_CONNECTED)\<lparr>cl_decoder := Some (sample_decoder (bytewise ?w))\<rparr>"
  note i = sample_decoder_idle [OF bytewise_simps(2) [of ?w], of 100]
  have st: "stream (bytewise ?w) (sample_decoder (bytewise ?w)) = concat (map (\<lambda>(ty, payload). packet_image ty payload) ?ps)"
    using i(2) by (simp add: bytewise_simps(1))
  have "destroy_args sample_call = Inr ()" "c_handle sample_call = 6" by (simp_all add: destroy_args_def sample_call_def)
  then obtain s' where s': "obus_client_ack ?c ?a = Some (Inr (), ?c\<lparr>cl_bus := s'\<rparr>)" "bcalls s' = []" "notified s' = notified s @ ack_note sample_call 1" "calls s' = (calls s)(2 := None)" "calls_ok s'"
    using client_ack_once [of ?c 2 sample_call ?a] s by auto
  have u: "obus_client_ack (?c\<lparr>cl_bus := s'\<rparr>) ?b = Some (Inr (), ?c\<lparr>cl_bus := s'\<rparr>)"
    using s'(4) bus_call_Some [OF s'(5) refl, of 6] s'(2) by (force simp: obus_client_ack_def)
  have "handles_all sample_env ?c ?ps (?c\<lparr>cl_bus := s'\<rparr>)"
    by (rule handles_ack [OF s'(1) _ handles_ack [OF u]]) simp_all
  moreover have "obus_fd_event_read OBUS_FD_IN" "\<not> obus_fd_event_error OBUS_FD_IN"
    by (simp_all add: obus_fd_event_read_def obus_fd_event_error_def OBUS_FD_IN_def OBUS_FD_ERR_def OBUS_FD_HUP_def)
  moreover have "2 * length (stream (bytewise ?w) (sample_decoder (bytewise ?w))) \<le> 100" "enough (env_mem sample_env) 100" "idle 100 (bytewise ?w) (sample_decoder (bytewise ?w))"
    using i(1) st by (simp_all add: ack_payload_def)
  ultimately obtain d' where "obus_client_io_read_event sample_env ?c OBUS_FD_IN = Some (Inr (), ?c\<lparr>cl_bus := s', cl_decoder := Some d'\<rparr>)"
    using client_reads_in_order [OF _ _ st, of ?c 100 sample_env "?c\<lparr>cl_bus := s'\<rparr>" OBUS_FD_IN] by force
  then show ?thesis using s(2) s'(2,3) by (intro exI [of _ ?c] exI [of _ "?c\<lparr>cl_bus := s', cl_decoder := Some d'\<rparr>"])
      (simp add: ack_note_def sample_call_def)
qed

lemma unknown_removal_faults_witness:
  "\<exists>c c'. bcalls (cl_bus c) = [2] \<and> client_packet sample_env c (Remove 0) = Some (Inl FAULT, c') \<and> bcalls (cl_bus c') = []"
proof -
  obtain s where s: "objects_ok s" "calls_ok s" "objs s = [1 \<mapsto> sample_object\<lparr>o_bus := True, o_registered := True\<rparr>]"
    "bcalls s = [2]" "bobjects s = [1]" "calls s 2 = Some sample_call" by (rule sample_registered)
  let ?c = "client_on s STATE_CONNECTED"
  have "calls_clean s" using s(4,6) by (simp add: calls_clean_def destroy_args_def sample_call_def)
  moreover have "obus_bus_object s 99 = 0"
    using bus_object_iff [OF s(1), of "obus_bus_object s 99" 99] s(3) by (cases "obus_bus_object s 99 = 1") (auto simp: sample_object_def)
  ultimately obtain s' where "client_packet sample_env ?c (Remove 0) = Some (Inl FAULT, ?c\<lparr>cl_bus := s'\<rparr>)" "bcalls s' = []"
    using unknown_removal_faults [where c = ?c and handle = 99 and E = sample_env] s(1,2) by auto
  then show ?thesis using s(4) by (intro exI [of _ ?c] exI [of _ "?c\<lparr>cl_bus := s'\<rparr>"]) simp
qed

lemma client_call_pending_witness:
  "\<exists>c c'. obus_client_call sample_env c 1 (Some plain_method) None 8 = Some (Inr 5, c') \<and> bcalls (cl_bus c) = [] \<and> obus_bus_call (cl_bus c') 5 = 10"
proof -
  obtain b s where s: "calls_ok s" "bcalls s = []" "calls s = Map.empty" by (rule sample_start)
  let ?s = "s\<lparr>objs := [1 \<mapsto> sample_callee], next_addr := 10\<rparr>" let ?c = "client_on ?s STATE_CONNECTED"
  have guard: "obus_object_is_registered (Some sample_callee)" "obus_object_get_method_state sample_callee 7 = OBUS_METHOD_ENABLED"
    by (simp_all add: sample_callee_def sample_object_def obus_object_is_registered_def obus_object_get_method_state_def obus_struct_get_field_desc_def
        obus_field_address_def get_item_def get_num_def OBUS_METHOD_ENABLED_def)
  define call where "call = the (obus_call_new full_memory 1 plain_method 8 None)"
  have call: "obus_call_new full_memory 1 plain_method 8 None = Some call" "c_args call = None" "c_desc call = plain_method" "c_obj call = 1" "c_handle call = OBUS_INVALID_HANDLE"
    by (simp_all add: call_def obus_call_new_def plain_method_def full_memory_alloc sizeof_call_def)
  let ?s1 = "?s\<lparr>calls := [10 \<mapsto> call], next_addr := 11\<rparr>" let ?c1 = "?c\<lparr>cl_bus := ?s1\<rparr>"
  have "hash_map (calls_hash s) 5 = None" using calls_lookup [OF s(1), of 5] s(2) by auto
  with data_hash.ins_new [OF plain_hashes(2) [OF s(1)], of full_memory 5 10] obtain h where
    h: "obus_hash_insert full_memory (calls_hash s) 5 10 = (Inr (), h)"
    by (auto simp: full_memory_alloc sizeof_hash_entry_def)
  let ?s2 = "?s1\<lparr>calls := [10 \<mapsto> call\<lparr>c_handle := 5\<rparr>], calls_hash := h, bcalls := [10]\<rparr>"
  have look: "obus_hash_lookup (calls_hash s) 5 = Inl ENOENT"
    using data_hash.get_eq [OF plain_hashes(2) [OF s(1)], of 5] \<open>hash_map (calls_hash s) 5 = None\<close> by simp
  have reg: "obus_bus_register_call full_memory [5] ?s1 10 = Some (Inr (), ?s2)"
    using h look call s(2,3) by (simp add: obus_bus_register_call_def OBUS_INVALID_HANDLE_def link_def)
  obtain b where b: "obus_buffer_pool_peek full_memory sizeof_buffer (obus_buffer_pool_init OBUS_DEFAULT_BUFFER_SIZE) = (Some b, obus_buffer_pool_init OBUS_DEFAULT_BUFFER_SIZE)" "buf_ok b"
    by (simp add: obus_buffer_pool_peek_def obus_buffer_pool_init_def obus_buffer_new_def full_memory_def malloc_def sizeof_buffer_def OBUS_DEFAULT_BUFFER_SIZE_def buf_ok_def)
  have "args_ok (call\<lparr>c_handle := 5\<rparr>)" "objs ?s2 (c_obj (call\<lparr>c_handle := 5\<rparr>)) = Some sample_callee" "calls ?s2 10 = Some (call\<lparr>c_handle := 5\<rparr>)"
    using call by (simp_all add: args_ok_def plain_method_def)
  moreover have "enough full_memory (9 + length (wire_call (od_uid (o_desc sample_callee)) (o_handle sample_callee) (m_uid (c_desc (call\<lparr>c_handle := 5\<rparr>)))
      (c_handle (call\<lparr>c_handle := 5\<rparr>)) (args_wire (c_args (call\<lparr>c_handle := 5\<rparr>)))))"
    using call(2) by (simp add: args_wire_def)
  moreover have "packet_image OBUS_PKT_CALL payload \<noteq> []" for payload using length_packet_image [of OBUS_PKT_CALL payload] by (metis list.size(3) add_is_0 zero_neq_numeral)
  ultimately obtain b' where b': "obus_packet_call_encode full_memory ?s2 b 10 = (Inr (), b')" "content b' \<noteq> []"
    using call_packet_ok [of "call\<lparr>c_handle := 5\<rparr>" ?s2 sample_callee 10 b _ full_memory] b(2) by (metis zero_neq_numeral)
  have "\<exists>c2. send_packet full_memory (\<lambda>buf. obus_packet_call_encode full_memory ?s2 buf 10) (?c1\<lparr>cl_bus := ?s2\<rparr>) = (Inr (), c2)"
    using b b' by (simp add: send_packet_def client_on_def no_io_def obus_io_write_def obus_io_write_buffer_def write_loop.simps content_def
        obus_io_buffer_new_def full_memory_alloc sizeof_io_buffer_def io_ref_def)
  then obtain c2 where c2: "send_packet full_memory (\<lambda>buf. obus_packet_call_encode full_memory ?s2 buf 10) (?c1\<lparr>cl_bus := ?s2\<rparr>) = (Inr (), c2)" by blast
  then have k: "calls (cl_bus c2) 10 = Some (call\<lparr>c_handle := 5\<rparr>)"
    using send_keeps(1) [of full_memory "\<lambda>buf. obus_packet_call_encode full_memory ?s2 buf 10" "?c1\<lparr>cl_bus := ?s2\<rparr>"] by simp
  have run: "obus_client_call sample_env ?c 1 (Some plain_method) None 8 = Some (Inr 5, c2\<lparr>cl_bus := drop_args 10 (cl_bus c2)\<rparr>)"
    using guard call(1) reg c2 k s(3) by (simp add: obus_client_call_def obus_client_is_connected_def send_call_def plain_method_def)
  have "calls_ok (cl_bus ?c)" using s(1) by (simp add: calls_ok_def)
  then have "obus_bus_call (drop_args 10 (cl_bus c2)) 5 = 10" using client_call_pending [OF _ _ _ run] s(3) by (simp add: call_result_def)
  then show ?thesis using run s(2) by (intro exI [of _ ?c] exI [of _ "c2\<lparr>cl_bus := drop_args 10 (cl_bus c2)\<rparr>"]) simp
qed

text \<open>A client that was created and started.\<close>

definition connection_bus :: obus_bus_desc where
  "connection_bus = sample_bus\<lparr>bd_events := [\<lparr>be_uid = 1\<rparr>, \<lparr>be_uid = 2\<rparr>, \<lparr>be_uid = 3\<rparr>]\<rparr>"

lemma sample_client_new: "\<exists>c. obus_client_new full_memory True (Some [99]) (Some connection_bus) = Inr (Some c) \<and> cl_state c = STATE_IDLE"
proof -
  have en: "enough full_memory (2 ^ 35)" "wf_bus_desc connection_bus"
    by (simp_all add: wf_bus_desc_def connection_bus_def sample_bus_def sample_od_def)
  obtain api where api: "obus_bus_api_init full_memory connection_bus = Inr api" "api_desc api = connection_bus" "api_ok api"
    by (rule api_init_ok [OF en])
  have ev: "obus_bus_api_bus_event api u = declared_bus_event connection_bus u" for u using api_ok_lookups [OF api(3)] api(2) by simp
  obtain ho :: "addr obus_hash" where ho: "obus_hash_init full_memory OBUS_BUS_HASH_SIZE = (Inr (), Some ho)"
    by (rule hash_init_enough [OF en(1)])
  obtain hp :: "obus_provider obus_hash" where hp: "obus_hash_init full_memory (length (bd_objects (api_desc api))) = (Inr (), Some hp)"
    by (rule hash_init_enough [OF en(1)])
  have "obus_bus_init full_memory connection_bus = Inr \<lparr>bus_api = api, calls_hash = ho, bcalls = [], objects_hash = ho, bobjects = [], providers_hash = hp, bproviders = []\<rparr>"
    using api(1) ho hp by (simp add: obus_bus_init_def)
  then show ?thesis
    by (simp add: obus_client_new_def full_memory_alloc sizeof_client_def ev declared_bus_event_def connection_bus_def OBUS_INVALID_UID_def
        OBUS_BUS_EVENT_CONNECTED_UID_def OBUS_BUS_EVENT_DISCONNECTED_UID_def OBUS_BUS_EVENT_CONNECTION_REFUSED_UID_def)
qed



end
