(* ===== verification/Obus_Server.thy ===== *)
theory Obus_Server
  imports Obus_Client
begin

text \<open>
  The server: \<open>obus_server.c\<close>. A server owns the objects of a bus and tells the peers that are
  connected to it of every change; it checks connection requests, has calls handled by the methods of the
  application, and acknowledges each. The theory holds the state and the operations; what they do is shown in
  \<open>Obus_Peers\<close>, \<open>Obus_Serve\<close>, \<open>Obus_Admit\<close> and \<open>Obus_Server_Run\<close>.
\<close>

section \<open>Data\<close>

datatype obus_server_state = SERVER_STATE_IDLE | SERVER_STATE_STARTED

datatype obus_peer_state = PEER_STATE_IDLE | PEER_STATE_CONNECTING | PEER_STATE_CONNECTED
  | PEER_STATE_DISCONNECTED | PEER_STATE_REFUSED

datatype obus_peer_event = OBUS_PEER_EVENT_CONNECTING | OBUS_PEER_EVENT_CONNECTED | OBUS_PEER_EVENT_DISCONNECTED

definition OBUS_CALL_METHOD_DISABLED :: u32 where "OBUS_CALL_METHOD_DISABLED = 3"

definition OBUS_CALL_METHOD_NOT_SUPPORTED :: u32 where "OBUS_CALL_METHOD_NOT_SUPPORTED = 4"

definition OBUS_CALL_REFUSED :: u32 where "OBUS_CALL_REFUSED = 6"

definition obus_peer_event_str :: "obus_peer_event \<Rightarrow> string" where
  "obus_peer_event_str event =
     (case event of OBUS_PEER_EVENT_CONNECTING \<Rightarrow> ''CONNECTING'' | OBUS_PEER_EVENT_CONNECTED \<Rightarrow> ''CONNECTED''
      | OBUS_PEER_EVENT_DISCONNECTED \<Rightarrow> ''DISCONNECTED'')"

text \<open>A decoder that was destroyed has no buffer.\<close>

record obus_peer =
  pr_name :: "u8 list option"
  pr_state :: obus_peer_state
  pr_io :: obus_io
  pr_decoder :: "obus_packet_decoder option"
  pr_user_data :: nat

text \<open>The calls of the callbacks of the application: for a peer, for a method.\<close>

datatype server_note = Peer_Note obus_peer_event addr | Method_Note nat addr u16

text \<open>
  Peers are in a store by address, so that the use of one that was freed is a fault; \<open>sv_next\<close> is
  an address that no peer and no buffer has had yet. The pool and
  the buffers in use are those of the server, and all ios of its peers share them. \<open>sv_call\<close> is the
  address of the current call (0: none), \<open>n_sks\<close> the number of listening sockets, \<open>has_peer_cb\<close>
  says whether the application has set its callback for peers, and \<open>sv_trace\<close> is the trace
  of the callbacks.
\<close>

record obus_server =
  sv_peers :: "addr list"
  peer_at :: "addr \<rightharpoonup> obus_peer"
  sv_next :: addr
  sv_bus :: bus_state
  sv_bufs :: "addr \<rightharpoonup> obus_buffer"
  sv_pool :: obus_buffer_pool
  n_sks :: nat
  sv_call :: addr
  sv_state :: obus_server_state
  n_peers_connected :: nat
  has_peer_cb :: bool
  sv_trace :: "server_note list"

text \<open>The callbacks of the application: they may do anything to the server.\<close>

record server_user =
  u_peer :: "obus_peer_event \<Rightarrow> addr \<Rightarrow> obus_server \<Rightarrow> obus_server"
  u_method :: "nat \<Rightarrow> addr \<Rightarrow> u16 \<Rightarrow> obus_struct option \<Rightarrow> obus_server \<Rightarrow> obus_server"

record server_env =
  se_mem :: memory
  se_alias :: "nat \<Rightarrow> nat \<Rightarrow> nat \<Rightarrow> bool"
  se_rnd :: "u16 list"
  se_user :: server_user

section \<open>Buffers and ios\<close>

text \<open>The io of a peer with the buffers of the server, and what an operation on it leaves.\<close>

definition peer_io :: "obus_server \<Rightarrow> obus_peer \<Rightarrow> obus_io" where
  "peer_io srv peer = (pr_io peer)\<lparr>io_bufs := sv_bufs srv, io_pool := sv_pool srv\<rparr>"

definition put_io :: "obus_server \<Rightarrow> addr \<Rightarrow> obus_peer \<Rightarrow> obus_io \<Rightarrow> obus_server" where
  "put_io srv p peer io = srv\<lparr>peer_at := (peer_at srv)(p \<mapsto> peer\<lparr>pr_io := io\<rparr>), sv_bufs := io_bufs io, sv_pool := io_pool io\<rparr>"

text \<open>Taking and dropping references to a buffer of the server.\<close>

definition server_io :: "obus_server \<Rightarrow> obus_io" where
  "server_io srv = (no_io (sv_pool srv))\<lparr>io_bufs := sv_bufs srv\<rparr>"

definition buf_ref :: "obus_server \<Rightarrow> addr \<Rightarrow> unit res \<times> obus_server" where
  "buf_ref srv b = (case io_ref (server_io srv) b of (r, io) \<Rightarrow> (r, srv\<lparr>sv_bufs := io_bufs io, sv_pool := io_pool io\<rparr>))"

definition buf_unref :: "obus_server \<Rightarrow> addr \<Rightarrow> unit res \<times> obus_server" where
  "buf_unref srv b = (case io_unref (server_io srv) b of (r, io) \<Rightarrow> (r, srv\<lparr>sv_bufs := io_bufs io, sv_pool := io_pool io\<rparr>))"

text \<open>A buffer of the pool with the packet that an encoder makes; it is dropped when that fails.\<close>

definition packet_buffer :: "memory \<Rightarrow> (obus_buffer \<Rightarrow> unit res \<times> obus_buffer) \<Rightarrow> obus_server \<Rightarrow> addr res \<times> obus_server" where
  "packet_buffer m encode srv =
     (case obus_buffer_pool_peek m sizeof_buffer (sv_pool srv) of
        (None, pool) \<Rightarrow> (Inl ENOMEM, srv\<lparr>sv_pool := pool\<rparr>)
      | (Some buf, pool) \<Rightarrow>
          let b = sv_next srv in
          (case encode buf of (r, buf) \<Rightarrow>
             let srv = srv\<lparr>sv_next := Suc b, sv_pool := pool, sv_bufs := (sv_bufs srv)(b \<mapsto> buf)\<rparr> in
             (case r of
                Inl e \<Rightarrow> (case buf_unref srv b of (r, srv) \<Rightarrow> (if r = Inr () then Inl e else Inl FAULT, srv))
              | Inr _ \<Rightarrow> (Inr b, srv))))"

definition peer_write :: "memory \<Rightarrow> obus_server \<Rightarrow> addr \<Rightarrow> addr \<Rightarrow> unit res \<times> obus_server" where
  "peer_write m srv p b =
     (case peer_at srv p of None \<Rightarrow> (Inl FAULT, srv) | Some peer \<Rightarrow>
        (case obus_io_write m (peer_io srv peer) b of (r, io) \<Rightarrow> (r, put_io srv p peer io)))"

text \<open>A packet for one peer: the reference is dropped unless the packet is queued.\<close>

definition peer_send :: "memory \<Rightarrow> obus_server \<Rightarrow> addr \<Rightarrow> addr \<Rightarrow> unit res \<times> obus_server" where
  "peer_send m srv p b =
     (case peer_write m srv p b of (r, srv) \<Rightarrow>
        if r = Inl FAULT then (Inl FAULT, srv)
        else if r = Inl EAGAIN then (Inr (), srv)
        else (case buf_unref srv b of (r', srv) \<Rightarrow> (if r' = Inr () then r else r', srv)))"

section \<open>Peers\<close>

definition obus_peer_is_connected :: "obus_peer option \<Rightarrow> bool" where
  "obus_peer_is_connected peer = (case peer of None \<Rightarrow> False | Some peer \<Rightarrow> pr_state peer = PEER_STATE_CONNECTED)"

definition obus_server_set_peer_connection_cb :: "obus_server \<Rightarrow> bool \<Rightarrow> unit res \<times> obus_server" where
  "obus_server_set_peer_connection_cb srv cb = (Inr (), srv\<lparr>has_peer_cb := cb\<rparr>)"

definition set_peer :: "addr \<Rightarrow> obus_peer \<Rightarrow> obus_server \<Rightarrow> obus_server" where
  "set_peer p peer srv = srv\<lparr>peer_at := (peer_at srv)(p \<mapsto> peer)\<rparr>"

definition obus_peer_set_user_data :: "obus_server \<Rightarrow> addr \<Rightarrow> nat \<Rightarrow> unit res \<times> obus_server" where
  "obus_peer_set_user_data srv p user_data =
     (if p = 0 then (Inl EINVAL, srv)
      else case peer_at srv p of None \<Rightarrow> (Inl FAULT, srv) | Some peer \<Rightarrow> (Inr (), set_peer p (peer\<lparr>pr_user_data := user_data\<rparr>) srv))"

definition obus_peer_get_user_data :: "obus_peer option \<Rightarrow> nat" where
  "obus_peer_get_user_data peer = (case peer of None \<Rightarrow> 0 | Some peer \<Rightarrow> pr_user_data peer)"

definition obus_peer_get_name :: "obus_peer option \<Rightarrow> u8 list option" where
  "obus_peer_get_name peer = (case peer of None \<Rightarrow> None | Some peer \<Rightarrow> pr_name peer)"

definition obus_peer_refuse_connection :: "obus_server \<Rightarrow> addr \<Rightarrow> unit res \<times> obus_server" where
  "obus_peer_refuse_connection srv p =
     (if p = 0 then (Inl EINVAL, srv)
      else case peer_at srv p of None \<Rightarrow> (Inl FAULT, srv) | Some peer \<Rightarrow>
        if pr_state peer \<noteq> PEER_STATE_CONNECTING then (Inl EPERM, srv)
        else (Inr (), set_peer p (peer\<lparr>pr_state := PEER_STATE_REFUSED\<rparr>) srv))"

definition obus_peer_notify_user :: "server_env \<Rightarrow> obus_server \<Rightarrow> addr \<Rightarrow> obus_peer_event \<Rightarrow> obus_server" where
  "obus_peer_notify_user E srv p event =
     (if has_peer_cb srv then u_peer (se_user E) event p (srv\<lparr>sv_trace := sv_trace srv @ [Peer_Note event p]\<rparr>) else srv)"

text \<open>The part of \<open>obus_peer_destroy\<close> after the callback.\<close>

definition free_peer :: "obus_server \<Rightarrow> addr \<Rightarrow> unit res \<times> obus_server" where
  "free_peer srv p =
     (case peer_at srv p of None \<Rightarrow> (Inl FAULT, srv) | Some peer \<Rightarrow>
      if p \<notin> set (sv_peers srv) then (Inl FAULT, srv)
      else
        let srv = srv\<lparr>sv_peers := remove1 p (sv_peers srv)\<rparr> in
        (case obus_io_destroy (peer_io srv peer) of
           (Inl e, io) \<Rightarrow> (Inl e, put_io srv p peer io)
         | (Inr _, io) \<Rightarrow>
             (case pr_decoder peer of
                None \<Rightarrow> (Inl FAULT, put_io srv p peer io)
              | Some d \<Rightarrow>
                  (case obus_packet_decoder_destroy d (io_pool io) of (_, pool) \<Rightarrow>
                     (Inr (), srv\<lparr>peer_at := (peer_at srv)(p := None), sv_bufs := io_bufs io, sv_pool := pool\<rparr>)))))"

definition obus_peer_destroy :: "server_env \<Rightarrow> obus_server \<Rightarrow> addr \<Rightarrow> unit res \<times> obus_server" where
  "obus_peer_destroy E srv p =
     (case peer_at srv p of None \<Rightarrow> (Inl FAULT, srv) | Some peer \<Rightarrow>
        free_peer
          (if pr_state peer = PEER_STATE_CONNECTED
           then obus_peer_notify_user E
                  ((set_peer p (peer\<lparr>pr_state := PEER_STATE_DISCONNECTED\<rparr>) srv)\<lparr>n_peers_connected := sz_sub (n_peers_connected srv) 1\<rparr>)
                  p OBUS_PEER_EVENT_DISCONNECTED
           else srv) p)"

text \<open>The loop goes over the peers as they are when it starts; one that was freed meanwhile is a fault.\<close>

definition send_peer :: "server_env \<Rightarrow> addr \<Rightarrow> obus_server \<Rightarrow> addr \<Rightarrow> unit res \<times> obus_server" where
  "send_peer E b srv p =
     (case peer_at srv p of None \<Rightarrow> (Inl FAULT, srv) | Some peer \<Rightarrow>
      if \<not> obus_peer_is_connected (Some peer) then (Inr (), srv)
      else (case peer_write (se_mem E) srv p b of (r, srv) \<Rightarrow>
        if r = Inl FAULT then (Inl FAULT, srv)
        else if r = Inl EAGAIN then buf_ref srv b
        else if r \<noteq> Inr () then obus_peer_destroy E srv p
        else (Inr (), srv)))"

primrec over_peers :: "(obus_server \<Rightarrow> addr \<Rightarrow> unit res \<times> obus_server) \<Rightarrow> obus_server \<Rightarrow> addr list \<Rightarrow> unit res \<times> obus_server" where
  "over_peers f srv [] = (Inr (), srv)"
| "over_peers f srv (p # ps) = chk (f srv p) (\<lambda>_ srv. over_peers f srv ps)"

definition obus_server_send_peers :: "server_env \<Rightarrow> obus_server \<Rightarrow> addr \<Rightarrow> unit res \<times> obus_server" where
  "obus_server_send_peers E srv b = over_peers (send_peer E b) srv (sv_peers srv)"

definition obus_peer_io_write_done :: "server_env \<Rightarrow> obus_server \<Rightarrow> addr \<Rightarrow> obus_io_status \<Rightarrow> addr \<Rightarrow> unit res \<times> obus_server" where
  "obus_peer_io_write_done E srv p status b =
     chk (buf_unref srv b) (\<lambda>_ srv. if status \<noteq> OBUS_IO_OK then obus_peer_destroy E srv p else (Inr (), srv))"

definition obus_peer_send_connection_response :: "server_env \<Rightarrow> obus_server \<Rightarrow> addr \<Rightarrow> u8 \<Rightarrow> unit res \<times> obus_server" where
  "obus_peer_send_connection_response E srv p status =
     (let objects = (if status = OBUS_CONRESP_ACCEPTED then Some (bobjects (sv_bus srv)) else None) in
      (case packet_buffer (se_mem E) (\<lambda>buf. obus_packet_conresp_encode (se_mem E) (sv_bus srv) buf status objects) srv of
         (Inl e, srv) \<Rightarrow> (Inl e, srv)
       | (Inr b, srv) \<Rightarrow> peer_send (se_mem E) srv p b))"

text \<open>
  Whether a request is acceptable. The function duplicates the name of the client and compares the name
  of the bus without checking that they are there: NULL is a fault.
\<close>

definition check_request :: "obus_bus_desc \<Rightarrow> obus_packet_conreq \<Rightarrow> u8 res" where
  "check_request desc pkt =
     (if cr_client pkt = None then Inl FAULT
      else if cr_version pkt \<noteq> OBUS_PROTOCOL_VERSION then Inr OBUS_CONRESP_REFUSED
      else case cr_bus pkt of None \<Rightarrow> Inl FAULT | Some name \<Rightarrow>
        if name \<noteq> bus_name desc then Inr OBUS_CONRESP_REFUSED
        else if cr_crc pkt \<noteq> crc desc then Inr OBUS_CONRESP_REFUSED
        else if cr_client pkt = Some [] then Inr OBUS_CONRESP_REFUSED
        else Inr OBUS_CONRESP_ACCEPTED)"

text \<open>The user is asked only when the request is acceptable.\<close>

definition ask_user :: "server_env \<Rightarrow> obus_server \<Rightarrow> addr \<Rightarrow> obus_peer \<Rightarrow> u8 \<Rightarrow> u8 res \<times> obus_server" where
  "ask_user E srv p peer status =
     (if status \<noteq> OBUS_CONRESP_ACCEPTED then (Inr status, set_peer p peer srv)
      else
        let srv = obus_peer_notify_user E (set_peer p (peer\<lparr>pr_state := PEER_STATE_CONNECTING\<rparr>) srv) p OBUS_PEER_EVENT_CONNECTING in
        (case peer_at srv p of None \<Rightarrow> (Inl FAULT, srv) | Some peer \<Rightarrow>
           (Inr (if pr_state peer = PEER_STATE_REFUSED then OBUS_CONRESP_REFUSED else status), srv)))"

text \<open>The result is false when the peer has been destroyed.\<close>

definition obus_peer_connection_request :: "server_env \<Rightarrow> obus_server \<Rightarrow> addr \<Rightarrow> obus_packet_conreq \<Rightarrow> bool res \<times> obus_server" where
  "obus_peer_connection_request E srv p pkt =
     (case peer_at srv p of None \<Rightarrow> (Inl FAULT, srv) | Some peer \<Rightarrow>
      if pr_state peer \<noteq> PEER_STATE_IDLE then (Inr True, srv)
      else case check_request (api_desc (bus_api (sv_bus srv))) pkt of
        Inl e \<Rightarrow> (Inl e, srv)
      | Inr status \<Rightarrow>
          let name = (if alloc_ok (se_mem E) (Suc (length (the (cr_client pkt)))) then cr_client pkt else None) in
          chk (ask_user E srv p (peer\<lparr>pr_name := name\<rparr>) status) (\<lambda>status srv.
          (case obus_peer_send_connection_response E srv p status of
             (Inl e, srv) \<Rightarrow> (if e = FAULT then (Inl FAULT, srv) else chk (obus_peer_destroy E srv p) (\<lambda>_ srv. (Inr False, srv)))
           | (Inr _, srv) \<Rightarrow>
               (case peer_at srv p of None \<Rightarrow> (Inl FAULT, srv) | Some peer \<Rightarrow>
                  (Inr True,
                   if status = OBUS_CONRESP_ACCEPTED
                   then obus_peer_notify_user E
                          ((set_peer p (peer\<lparr>pr_state := PEER_STATE_CONNECTED\<rparr>) srv)\<lparr>n_peers_connected := sz (n_peers_connected srv + 1)\<rparr>)
                          p OBUS_PEER_EVENT_CONNECTED
                   else set_peer p (peer\<lparr>pr_state := PEER_STATE_REFUSED\<rparr>) srv)))))"

section \<open>Calls\<close>

text \<open>
  The acknowledgement of the current call. The call is acknowledged even if the packet could not be
  written: only a missing buffer or a failed encoding is an error.
\<close>

definition obus_server_send_ack :: "memory \<Rightarrow> obus_server \<Rightarrow> u16 \<Rightarrow> u32 \<Rightarrow> unit res \<times> obus_server" where
  "obus_server_send_ack m srv handle status =
     (let q = sv_call srv in
      if q = 0 then (Inl ENOENT, srv)
      else case calls (sv_bus srv) q of None \<Rightarrow> (Inl FAULT, srv) | Some call \<Rightarrow>
        if c_handle call \<noteq> handle then (Inl ENOENT, srv)
        else chk (packet_buffer m (\<lambda>buf. obus_packet_ack_encode m buf \<lparr>ack_handle = c_handle call, ack_status = status\<rparr>) srv) (\<lambda>b srv.
             chk (no_fault (peer_send m srv (c_peer call) b)) (\<lambda>_ srv.
             (Inr (), srv\<lparr>sv_bus := (sv_bus srv)\<lparr>calls := (calls (sv_bus srv))(q \<mapsto> call\<lparr>c_status := status\<rparr>)\<rparr>, sv_call := 0\<rparr>))))"

definition obus_server_get_call_peer :: "obus_server \<Rightarrow> u16 \<Rightarrow> addr res" where
  "obus_server_get_call_peer srv handle =
     (let q = sv_call srv in
      if q = 0 then Inr 0
      else case calls (sv_bus srv) q of None \<Rightarrow> Inl FAULT | Some call \<Rightarrow>
        Inr (if c_handle call \<noteq> handle then 0 else c_peer call))"

text \<open>The method of the application, or the reason why it is not called.\<close>

definition run_method :: "server_env \<Rightarrow> obus_server \<Rightarrow> obus_object \<Rightarrow> obus_call \<Rightarrow> u32 \<times> obus_server" where
  "run_method E srv obj call =
     (let state = obus_object_get_method_state obj (m_uid (c_desc call));
          handler = obus_object_get_method_handler obj (c_desc call)
      in if state = OBUS_METHOD_ENABLED
         then (OBUS_CALL_REFUSED,
               if handler \<noteq> 0
               then u_method (se_user E) handler (c_obj call) (c_handle call) (c_args call)
                      (srv\<lparr>sv_trace := sv_trace srv @ [Method_Note handler (c_obj call) (c_handle call)]\<rparr>)
               else srv)
         else if state = OBUS_METHOD_DISABLED then (OBUS_CALL_METHOD_DISABLED, srv)
         else if state = OBUS_METHOD_NOT_SUPPORTED then (OBUS_CALL_METHOD_NOT_SUPPORTED, srv)
         else (OBUS_CALL_REFUSED, srv))"

text \<open>The method may have acknowledged the call, and may have done away with the peer or the call.\<close>

definition obus_peer_call_request :: "server_env \<Rightarrow> obus_server \<Rightarrow> addr \<Rightarrow> addr \<Rightarrow> unit res \<times> obus_server" where
  "obus_peer_call_request E srv p q =
     (let srv = srv\<lparr>sv_call := q\<rparr> in
      case calls (sv_bus srv) q of None \<Rightarrow> (Inl FAULT, srv) | Some call \<Rightarrow>
      case objs (sv_bus srv) (c_obj call) of None \<Rightarrow> (Inl FAULT, srv) | Some obj \<Rightarrow>
      (case (if \<not> obus_object_is_registered (Some obj) then (OBUS_CALL_ABORTED, srv) else run_method E srv obj call) of
         (status, srv) \<Rightarrow>
           (case (calls (sv_bus srv) q, peer_at srv p) of
              (Some call, Some _) \<Rightarrow>
                if c_status call = OBUS_CALL_INVALID then no_fault (obus_server_send_ack (se_mem E) srv (c_handle call) status)
                else (Inr (), srv)
            | _ \<Rightarrow> (Inl FAULT, srv))))"

text \<open>The switch of \<open>obus_peer_io_read_event\<close>: false when the loop ends.\<close>

definition server_packet :: "server_env \<Rightarrow> obus_server \<Rightarrow> addr \<Rightarrow> obus_packet_info \<Rightarrow> bool res \<times> obus_server" where
  "server_packet E srv p info =
     (case info of
        Conreq pkt \<Rightarrow> obus_peer_connection_request E srv p pkt
      | Call q \<Rightarrow>
          (case calls (sv_bus srv) q of None \<Rightarrow> (Inl FAULT, srv) | Some call \<Rightarrow>
             chk (obus_peer_call_request E
                    (srv\<lparr>sv_bus := (sv_bus srv)\<lparr>calls := (calls (sv_bus srv))(q \<mapsto> call\<lparr>c_peer := p\<rparr>)\<rparr>\<rparr>) p q) (\<lambda>_ srv.
             (case no_fault (obus_call_destroy (sv_bus srv) q) of (r, s) \<Rightarrow> (map_sum id (\<lambda>_. True) r, srv\<lparr>sv_bus := s\<rparr>))))
      | _ \<Rightarrow> (Inr True, srv))"

partial_function (option) serve_packets_loop :: "server_env \<Rightarrow> obus_server \<Rightarrow> addr \<Rightarrow> (unit res \<times> obus_server) option" where
  "serve_packets_loop E srv p =
     (case peer_at srv p of None \<Rightarrow> Some (Inl FAULT, srv) | Some peer \<Rightarrow>
     (case pr_decoder peer of None \<Rightarrow> Some (Inl FAULT, srv) | Some d \<Rightarrow>
     (case obus_packet_decoder_read (se_mem E) d (sv_bus srv) of
        None \<Rightarrow> None
      | Some (r, d, s) \<Rightarrow>
          (case r of
             Inl e \<Rightarrow>
               (if e = FAULT then Some (Inl FAULT, (set_peer p (peer\<lparr>pr_decoder := Some d\<rparr>) srv)\<lparr>sv_bus := s\<rparr>)
                else if e = EAGAIN then Some (Inr (), (set_peer p (peer\<lparr>pr_decoder := Some d\<rparr>) srv)\<lparr>sv_bus := s\<rparr>)
                else Some (obus_peer_destroy E ((set_peer p (peer\<lparr>pr_decoder := Some d\<rparr>) srv)\<lparr>sv_bus := s\<rparr>) p))
           | Inr info \<Rightarrow>
               (case server_packet E ((set_peer p (peer\<lparr>pr_decoder := Some d\<rparr>) srv)\<lparr>sv_bus := s\<rparr>) p info of
                  (Inl e, srv) \<Rightarrow> Some (Inl e, srv)
                | (Inr again, srv) \<Rightarrow> if again then serve_packets_loop E srv p else Some (Inr (), srv))))))"

definition obus_peer_io_read_event :: "server_env \<Rightarrow> obus_server \<Rightarrow> addr \<Rightarrow> u32 \<Rightarrow> (unit res \<times> obus_server) option" where
  "obus_peer_io_read_event E srv p events =
     (if obus_fd_event_error events then Some (obus_peer_destroy E srv p)
      else if \<not> obus_fd_event_read events then Some (Inr (), srv)
      else serve_packets_loop E srv p)"

section \<open>Setting up\<close>

definition sizeof_peer :: nat where "sizeof_peer = 104"

definition sizeof_server :: nat where "sizeof_server = 328"

definition new_peer :: "obus_io \<Rightarrow> obus_packet_decoder \<Rightarrow> obus_peer" where
  "new_peer io d = \<lparr>pr_name = None, pr_state = PEER_STATE_IDLE, pr_io = io, pr_decoder = Some d, pr_user_data = 0\<rparr>"

text \<open>
  A connection on a listening socket; \<open>timer_ok\<close>, \<open>read_ok\<close>, \<open>write_ok\<close>, \<open>out\<close> and \<open>inp\<close> are what the
  system does with the new descriptor. The result says whether there is a new peer: otherwise the
  socket is disconnected.
\<close>

definition obus_server_accept :: "memory \<Rightarrow> bool \<Rightarrow> bool \<Rightarrow> bool \<Rightarrow> io_output list \<Rightarrow> io_input list \<Rightarrow> bool \<Rightarrow>
    obus_server \<Rightarrow> bool \<times> obus_server" where
  "obus_server_accept m timer_ok read_ok write_ok out inp log_io srv =
     (if \<not> alloc_ok m sizeof_peer then (False, srv)
      else case obus_io_new m timer_ok read_ok write_ok out (sv_bufs srv) (sv_pool srv) of
        None \<Rightarrow> (False, srv)
      | Some io \<Rightarrow>
          let io = snd (obus_io_log_traffic io log_io) in
          (case obus_buffer_pool_peek m sizeof_buffer (sv_pool srv) of
             (None, pool) \<Rightarrow> (False, srv\<lparr>sv_pool := pool\<rparr>)
           | (Some buf, pool) \<Rightarrow>
               let d = obus_packet_decoder_init
                         \<lparr>d_hdr = \<lparr>hdr_magic = 0, hdr_size = 0, hdr_type = 0\<rparr>, d_hdr_valid = False, d_buf = buf, d_in = inp, d_log_hdr = False\<rparr>
                         buf inp log_io;
                   (_, buf, pool) = obus_buffer_unref (d_buf d) pool;
                   p = sv_next srv
               in (True, srv\<lparr>sv_next := Suc p, sv_pool := pool, sv_peers := sv_peers srv @ [p],
                     peer_at := (peer_at srv)(p \<mapsto> new_peer io (d\<lparr>d_buf := buf\<rparr>))\<rparr>)))"

text \<open>\<open>loop_ok\<close> says whether the event loop can be created.\<close>

definition obus_server_new :: "memory \<Rightarrow> bool \<Rightarrow> obus_bus_desc option \<Rightarrow> obus_server option res" where
  "obus_server_new m loop_ok desc =
     (case desc of None \<Rightarrow> Inr None | Some desc \<Rightarrow>
      if \<not> alloc_ok m sizeof_server then Inr None
      else case obus_bus_init m desc of
        Inl e \<Rightarrow> (if e = FAULT then Inl FAULT else Inr None)
      | Inr bus \<Rightarrow>
          if \<not> loop_ok then Inr None
          else Inr (Some \<lparr>sv_peers = [], peer_at = Map.empty, sv_next = 1,
            sv_bus = obus_bus.extend bus \<lparr>objs = Map.empty, calls = Map.empty, evts = Map.empty, bevts = Map.empty,
               next_addr = 1, notified = []\<rparr>,
            sv_bufs = Map.empty, sv_pool = obus_buffer_pool_init OBUS_DEFAULT_BUFFER_SIZE, n_sks = 0, sv_call = 0,
            sv_state = SERVER_STATE_IDLE, n_peers_connected = 0, has_peer_cb = False, sv_trace = []\<rparr>))"

text \<open>\<open>sk_new\<close> is what creating the listening socket for an address returns; the first error ends the loop.\<close>

primrec open_sockets :: "(u8 list option \<Rightarrow> unit res) \<Rightarrow> u8 list option list \<Rightarrow> unit res" where
  "open_sockets sk_new [] = Inr ()"
| "open_sockets sk_new (a # addrs) = (case sk_new a of Inl e \<Rightarrow> Inl e | Inr _ \<Rightarrow> open_sockets sk_new addrs)"

definition obus_server_start :: "memory \<Rightarrow> (u8 list option \<Rightarrow> unit res) \<Rightarrow> obus_server \<Rightarrow> u8 list option list option \<Rightarrow>
    unit res \<times> obus_server" where
  "obus_server_start m sk_new srv addrs =
     (case addrs of None \<Rightarrow> (Inl EINVAL, srv) | Some addrs \<Rightarrow>
      if addrs = [] then (Inl EINVAL, srv)
      else if sv_state srv = SERVER_STATE_STARTED then (Inl EPERM, srv)
      else if \<not> alloc_ok m (length addrs * sizeof_ptr) then (Inl ENOMEM, srv)
      else case open_sockets sk_new addrs of
        Inl e \<Rightarrow> (Inl e, srv)
      | Inr _ \<Rightarrow> (Inr (), srv\<lparr>sv_state := SERVER_STATE_STARTED, n_sks := length addrs\<rparr>))"

definition server_bus :: "(bus_state \<Rightarrow> unit res \<times> bus_state) \<Rightarrow> obus_server \<Rightarrow> unit res \<times> obus_server" where
  "server_bus f srv = (case f (sv_bus srv) of (r, s) \<Rightarrow> (r, srv\<lparr>sv_bus := s\<rparr>))"

definition obus_server_destroy :: "server_env \<Rightarrow> obus_server \<Rightarrow> unit res \<times> obus_server" where
  "obus_server_destroy E srv =
     chk (over_peers (obus_peer_destroy E) srv (sv_peers srv)) (\<lambda>_ srv.
     chk (server_bus obus_bus_destroy (srv\<lparr>n_sks := 0\<rparr>)) (\<lambda>_ srv.
     (Inr (), srv\<lparr>sv_pool := obus_buffer_pool_destroy (sv_pool srv)\<rparr>)))"

section \<open>Objects\<close>

text \<open>
  The tail that the functions of this section share: without connected peers nothing is encoded, otherwise
  the packet goes to all of them and the reference of the function is dropped.
\<close>

definition broadcast :: "server_env \<Rightarrow> (obus_buffer \<Rightarrow> unit res \<times> obus_buffer) \<Rightarrow> obus_server \<Rightarrow> unit res \<times> obus_server" where
  "broadcast E encode srv =
     (if n_peers_connected srv = 0 then (Inr (), srv)
      else chk (packet_buffer (se_mem E) encode srv) (\<lambda>b srv.
           chk (obus_server_send_peers E srv b) (\<lambda>_ srv.
           buf_unref srv b)))"

text \<open>An object that was freed is a fault; NULL is not registered.\<close>

definition registered_at :: "bus_state \<Rightarrow> addr \<Rightarrow> bool res" where
  "registered_at s p =
     (if p = 0 then Inr (obus_object_is_registered None)
      else case objs s p of None \<Rightarrow> Inl FAULT | Some obj \<Rightarrow> Inr (obus_object_is_registered (Some obj)))"

definition obus_server_new_object :: "server_env \<Rightarrow> obus_server \<Rightarrow> obus_object_desc \<Rightarrow> nat list option \<Rightarrow> obus_struct option \<Rightarrow>
    (addr res \<times> obus_server) option" where
  "obus_server_new_object E srv desc cbs info =
     (case obus_object_new (se_mem E) desc cbs info of None \<Rightarrow> Some (Inr 0, srv) | Some obj \<Rightarrow>
      let p = next_addr (sv_bus srv);
          s = (sv_bus srv)\<lparr>objs := (objs (sv_bus srv))(p \<mapsto> obj), next_addr := Suc p\<rparr>
      in (case obus_bus_add_object (se_mem E) (se_rnd E) s p of
            None \<Rightarrow> None
          | Some (Inl e, s) \<Rightarrow>
              Some (if e = FAULT then (Inl FAULT, srv\<lparr>sv_bus := s\<rparr>)
                    else (case no_fault (obus_object_destroy s p) of (r, s) \<Rightarrow> (map_sum id (\<lambda>_. 0) r, srv\<lparr>sv_bus := s\<rparr>)))
          | Some (Inr _, s) \<Rightarrow> Some (Inr p, srv\<lparr>sv_bus := s\<rparr>)))"

definition obus_server_register_object :: "server_env \<Rightarrow> obus_server \<Rightarrow> addr \<Rightarrow> unit res \<times> obus_server" where
  "obus_server_register_object E srv p =
     (if p = 0 then (Inl EINVAL, srv)
      else case registered_at (sv_bus srv) p of
        Inl e \<Rightarrow> (Inl e, srv)
      | Inr reg \<Rightarrow>
          if reg then (Inl EPERM, srv)
          else chk (server_bus (\<lambda>s. obus_bus_register_object s p) srv) (\<lambda>_ srv.
               broadcast E (\<lambda>buf. obus_packet_add_encode (se_mem E) (sv_bus srv) buf p) srv))"

definition obus_server_unregister_object :: "server_env \<Rightarrow> obus_server \<Rightarrow> addr \<Rightarrow> unit res \<times> obus_server" where
  "obus_server_unregister_object E srv p =
     (if p = 0 then (Inl EINVAL, srv)
      else case registered_at (sv_bus srv) p of
        Inl e \<Rightarrow> (Inl e, srv)
      | Inr reg \<Rightarrow>
          if \<not> reg then (Inl EPERM, srv)
          else chk (server_bus (\<lambda>s. obus_bus_unregister_object s p) srv) (\<lambda>_ srv.
               broadcast E (\<lambda>buf. obus_packet_remove_encode (se_mem E) (sv_bus srv) buf p) srv))"

definition obus_server_object_next :: "obus_server \<Rightarrow> addr \<Rightarrow> u16 \<Rightarrow> addr res" where
  "obus_server_object_next srv prev uid = obus_bus_object_next (sv_bus srv) prev uid"

definition obus_server_get_object :: "obus_server \<Rightarrow> u16 \<Rightarrow> addr" where
  "obus_server_get_object srv handle = obus_bus_object (sv_bus srv) handle"

section \<open>Events\<close>

definition obus_server_sanitize_event :: "bus_state \<Rightarrow> addr \<Rightarrow> bus_state" where
  "obus_server_sanitize_event s p = s\<lparr>evts := (evts s)(p := map_option (\<lambda>ev. snd (obus_event_sanitize ev True)) (evts s p))\<rparr>"

definition obus_server_send_event :: "server_env \<Rightarrow> obus_server \<Rightarrow> addr \<Rightarrow> unit res \<times> obus_server" where
  "obus_server_send_event E srv p =
     (if p = 0 then (Inl EINVAL, srv)
      else case evts (sv_bus srv) p of None \<Rightarrow> (Inl FAULT, srv) | Some event \<Rightarrow>
      case registered_at (sv_bus srv) (e_obj event) of
        Inl e \<Rightarrow> (Inl e, srv)
      | Inr reg \<Rightarrow>
          if \<not> reg then (Inl EPERM, srv)
          else
            let srv = srv\<lparr>sv_bus := obus_server_sanitize_event (sv_bus srv) p\<rparr> in
            chk (broadcast E (\<lambda>buf. obus_packet_event_encode (se_mem E) (sv_bus srv) buf p) srv) (\<lambda>_ srv.
            no_fault (server_bus (\<lambda>s. obus_event_commit (se_mem E) (se_alias E) s p) srv)))"

text \<open>
  The checks of a bus event. The message about the event of an object that is not registered reads the
  name of the object that the loop before it has stopped at, which is none: a fault.
\<close>

definition check_object :: "bool \<Rightarrow> bus_state \<Rightarrow> addr \<Rightarrow> unit res \<times> bus_state" where
  "check_object reg s p =
     (case registered_at s p of Inl e \<Rightarrow> (Inl e, s) | Inr r \<Rightarrow> (if r = reg then Inr () else Inl EPERM, s))"

definition check_event :: "bus_state \<Rightarrow> addr \<Rightarrow> unit res \<times> bus_state" where
  "check_event s p =
     (case evts s p of None \<Rightarrow> (Inl FAULT, s) | Some evt \<Rightarrow>
     (case registered_at s (e_obj evt) of
        Inl e \<Rightarrow> (Inl e, s)
      | Inr reg \<Rightarrow> if reg then (Inr (), obus_server_sanitize_event s p) else (Inl FAULT, s)))"

definition obus_server_check_bus_event :: "obus_bus_event \<Rightarrow> bus_state \<Rightarrow> unit res \<times> bus_state" where
  "obus_server_check_bus_event event s =
     chk (walk (check_object False) s (add_objs event)) (\<lambda>_ s.
     chk (walk (check_object True) s (remove_objs event)) (\<lambda>_ s.
     walk check_event s (obj_events event)))"

definition obus_server_undo_register_objects :: "obus_bus_event \<Rightarrow> bus_state \<Rightarrow> unit res \<times> bus_state" where
  "obus_server_undo_register_objects event s = walk (\<lambda>s p. no_fault (obus_bus_unregister_object s p)) s (add_objs event)"

definition obus_server_register_objects :: "obus_bus_event \<Rightarrow> bus_state \<Rightarrow> unit res \<times> bus_state" where
  "obus_server_register_objects event s = walk obus_bus_register_object s (add_objs event)"

text \<open>The errors of the loops are or-ed and make a warning only.\<close>

definition obus_server_commit_bus_event :: "server_env \<Rightarrow> obus_bus_event \<Rightarrow> bus_state \<Rightarrow> unit res \<times> bus_state" where
  "obus_server_commit_bus_event E event s =
     chk (walk (\<lambda>s p. no_fault (obus_event_commit (se_mem E) (se_alias E) s p)) s (obj_events event)) (\<lambda>_ s.
     walk (\<lambda>s p. no_fault (obus_bus_unregister_object s p)) s (remove_objs event))"

text \<open>An error behind the checks takes the new objects off the bus again.\<close>

definition undo_on_error :: "obus_bus_event \<Rightarrow> unit res \<times> obus_server \<Rightarrow> (obus_server \<Rightarrow> unit res \<times> obus_server) \<Rightarrow> unit res \<times> obus_server" where
  "undo_on_error event r k =
     (case r of
        (Inl e, srv) \<Rightarrow>
          if e = FAULT then (Inl FAULT, srv)
          else chk (server_bus (obus_server_undo_register_objects event) srv) (\<lambda>_ srv. (Inl e, srv))
      | (Inr _, srv) \<Rightarrow> k srv)"

definition obus_server_send_bus_event :: "server_env \<Rightarrow> obus_server \<Rightarrow> addr \<Rightarrow> unit res \<times> obus_server" where
  "obus_server_send_bus_event E srv p =
     (if p = 0 then (Inl EINVAL, srv)
      else case bevts (sv_bus srv) p of None \<Rightarrow> (Inl FAULT, srv) | Some event \<Rightarrow>
        chk (server_bus (obus_server_check_bus_event event) srv) (\<lambda>_ srv.
        undo_on_error event (server_bus (obus_server_register_objects event) srv) (\<lambda>srv.
        undo_on_error event (broadcast E (\<lambda>buf. obus_packet_bus_event_encode (se_mem E) (sv_bus srv) buf p) srv) (\<lambda>srv.
        no_fault (server_bus (obus_server_commit_bus_event E event) srv)))))"

section \<open>Writes of a peer\<close>

text \<open>
  What the callback \<open>obus_peer_io_write_done\<close> makes of the events of the io of a peer. After a timeout or an error
  the packet in front is given up, and the peer with it.
\<close>

definition peer_write_failed :: "server_env \<Rightarrow> obus_server \<Rightarrow> addr \<Rightarrow> obus_peer \<Rightarrow> obus_io_status \<Rightarrow> unit res \<times> obus_server" where
  "peer_write_failed E srv p peer status =
     (case obus_io_write_buffer_complete (\<lambda>_ _ io. io) ((peer_io srv peer)\<lparr>write_timer := 0\<rparr>) status of (r, io) \<Rightarrow>
        chk (r, put_io srv p peer io) (\<lambda>_ srv.
          case write_buffers (pr_io peer) of [] \<Rightarrow> (Inr (), srv) | b # _ \<Rightarrow> obus_peer_io_write_done E srv p status b))"

definition peer_write_timer :: "server_env \<Rightarrow> obus_server \<Rightarrow> addr \<Rightarrow> unit res \<times> obus_server" where
  "peer_write_timer E srv p =
     (case peer_at srv p of None \<Rightarrow> (Inl FAULT, srv) | Some peer \<Rightarrow> peer_write_failed E srv p peer OBUS_IO_TIMEOUT)"

definition peer_write_event :: "server_env \<Rightarrow> obus_server \<Rightarrow> addr \<Rightarrow> u32 \<Rightarrow> (unit res \<times> obus_server) option" where
  "peer_write_event E srv p events =
     (case peer_at srv p of None \<Rightarrow> Some (Inl FAULT, srv) | Some peer \<Rightarrow>
      if obus_fd_event_error events then Some (peer_write_failed E srv p peer OBUS_IO_ERROR)
      else map_option (\<lambda>(r, io). (r, put_io srv p peer io)) (obus_io_write_events user_done (peer_io srv peer) events))"

end
