(* ===== verification/Obus_Peers.thy ===== *)
theory Obus_Peers
  imports Obus_Server Obus_Encode Obus_Decode
begin

text \<open>
  The peers of a server: \<open>obus_server.c\<close>. The ios of all peers share the buffers of the server, and a
  packet for all of them is one buffer with references of every queue it is in. The theory shows that
  the references always suffice and that every connected peer gets every broadcast, and nobody else
  does.
\<close>

section \<open>Who holds a buffer\<close>

definition queue_at :: "obus_server \<Rightarrow> addr \<Rightarrow> addr list" where
  "queue_at srv p = (case peer_at srv p of None \<Rightarrow> [] | Some peer \<Rightarrow> write_buffers (pr_io peer))"

definition holders :: "obus_server \<Rightarrow> addr \<Rightarrow> int" where
  "holders srv b = (\<Sum>p\<leftarrow>sv_peers srv. of_bool (b \<in> set (queue_at srv p)))"

text \<open>
  \<open>k\<close> counts the references that are held outside of the queues. A queue holds two: its own and the
  one that the callback will drop.
\<close>

definition refs_ok :: "(addr \<Rightarrow> int) \<Rightarrow> obus_server \<Rightarrow> bool" where
  "refs_ok k srv \<longleftrightarrow> (\<forall>b. 0 \<le> k b) \<and>
     (\<forall>b. 0 < k b + holders srv b \<longrightarrow> (\<exists>buf. sv_bufs srv b = Some buf \<and> buf_ok buf \<and> k b + 2 * holders srv b \<le> brefcnt buf))"

definition peer_ok :: "(addr \<rightharpoonup> obus_buffer) \<Rightarrow> obus_peer \<Rightarrow> bool" where
  "peer_ok bufs peer \<longleftrightarrow> io_alive (pr_io peer) \<and> (\<exists>d. pr_decoder peer = Some d \<and> buf_ok (d_buf d)) \<and> distinct (write_buffers (pr_io peer))
     \<and> (\<forall>b bs. write_buffers (pr_io peer) = b # bs \<longrightarrow> nbr_written (pr_io peer) \<le> blength (the (bufs b)))"

definition connected_peers :: "obus_server \<Rightarrow> addr list" where
  "connected_peers srv = filter (\<lambda>p. obus_peer_is_connected (peer_at srv p)) (sv_peers srv)"

text \<open>
  The peers in the list are the ones that exist, each once and each with an io and a decoder; the references
  suffice; the buffers of the pool are buffers; the counter counts the connected peers.
\<close>

definition peers_ok :: "(addr \<Rightarrow> int) \<Rightarrow> obus_server \<Rightarrow> bool" where
  "peers_ok k srv \<longleftrightarrow> distinct (sv_peers srv) \<and> set (sv_peers srv) = dom (peer_at srv)
     \<and> (\<forall>p peer. peer_at srv p = Some peer \<longrightarrow> peer_ok (sv_bufs srv) peer) \<and> refs_ok k srv
     \<and> (\<forall>b\<in>set (free_bufs (sv_pool srv)). buf_ok b)"

definition addrs_ok :: "obus_server \<Rightarrow> bool" where
  "addrs_ok srv \<longleftrightarrow> 0 < sv_next srv \<and> dom (peer_at srv) \<subseteq> {..<sv_next srv} \<and> dom (sv_bufs srv) \<subseteq> {0<..<sv_next srv}"

definition peer_count_ok :: "obus_server \<Rightarrow> bool" where
  "peer_count_ok srv \<longleftrightarrow> n_peers_connected srv = sz (length (connected_peers srv))"

definition server_ok :: "(addr \<Rightarrow> int) \<Rightarrow> obus_server \<Rightarrow> bool" where
  "server_ok k srv \<longleftrightarrow> peers_ok k srv \<and> addrs_ok srv \<and> peer_count_ok srv"

text \<open>What the connection of a peer consists of, and the bytes of a buffer.\<close>

definition link_of :: "obus_server \<Rightarrow> addr \<Rightarrow> (obus_io \<times> obus_packet_decoder option \<times> bool) option" where
  "link_of srv p = map_option (\<lambda>peer. (pr_io peer, pr_decoder peer, pr_state peer = PEER_STATE_CONNECTED)) (peer_at srv p)"

definition bytes_at :: "obus_server \<Rightarrow> addr \<Rightarrow> u8 list option" where
  "bytes_at srv b = map_option content (sv_bufs srv b)"

text \<open>The callbacks for peers leave the connections alone: they may refuse a connection and set user data.\<close>

definition same_links :: "obus_server \<Rightarrow> obus_server \<Rightarrow> bool" where
  "same_links srv srv' \<longleftrightarrow> sv_peers srv' = sv_peers srv \<and> sv_bufs srv' = sv_bufs srv \<and> sv_pool srv' = sv_pool srv \<and> sv_next srv' = sv_next srv
     \<and> n_peers_connected srv' = n_peers_connected srv \<and> link_of srv' = link_of srv"

definition mild :: "server_user \<Rightarrow> bool" where
  "mild u \<longleftrightarrow> (\<forall>event p srv. same_links srv (u_peer u event p srv))"

lemma holders_nonneg [simp]: "0 \<le> holders srv b"
  unfolding holders_def by (rule sum_list_nonneg) auto

lemma holders_pos: "p \<in> set (sv_peers srv) \<Longrightarrow> b \<in> set (queue_at srv p) \<Longrightarrow> 0 < holders srv b"
proof -
  assume a: "p \<in> set (sv_peers srv)" "b \<in> set (queue_at srv p)"
  from split_list [OF a(1)] obtain xs ys where "sv_peers srv = xs @ p # ys" by blast
  moreover have "0 \<le> (\<Sum>p\<leftarrow>zs. of_bool (b \<in> set (queue_at srv p)) :: int)" for zs by (rule sum_list_nonneg) auto
  ultimately show ?thesis using a(2) by (simp add: holders_def add_nonneg_pos add_pos_nonneg)
qed

lemma peers_okD:
  assumes "peers_ok k srv" "peer_at srv p = Some peer"
  shows "p \<in> set (sv_peers srv)" "io_ok (peer_io srv peer)" "\<exists>d. pr_decoder peer = Some d \<and> buf_ok (d_buf d)" "io_alive (pr_io peer)"
proof -
  show p: "p \<in> set (sv_peers srv)" using assms by (auto simp: peers_ok_def)
  have ok: "peer_ok (sv_bufs srv) peer" using assms by (simp add: peers_ok_def)
  have "\<exists>buf. sv_bufs srv b = Some buf \<and> buf_ok buf \<and> 2 \<le> brefcnt buf" if "b \<in> set (write_buffers (pr_io peer))" for b
  proof -
    have h: "0 < holders srv b" using holders_pos [OF p, of b] that assms(2) by (simp add: queue_at_def)
    have "refs_ok k srv" using assms(1) by (simp add: peers_ok_def)
    then have "0 \<le> k b" "0 < k b + holders srv b \<longrightarrow> (\<exists>buf. sv_bufs srv b = Some buf \<and> buf_ok buf \<and> k b + 2 * holders srv b \<le> brefcnt buf)"
      by (auto simp: refs_ok_def)
    then show ?thesis using h by force
  qed
  then show "io_ok (peer_io srv peer)" using ok by (simp add: io_ok_def peer_ok_def peer_io_def)
  show "\<exists>d. pr_decoder peer = Some d \<and> buf_ok (d_buf d)" "io_alive (pr_io peer)" using ok by (simp_all add: peer_ok_def)
qed

text \<open>What the exchange of one queue does to the holders of a buffer.\<close>

lemma holders_exchange:
  assumes "distinct (sv_peers srv)" "p \<in> set (sv_peers srv)" "sv_peers srv' = sv_peers srv"
    "\<And>q. q \<noteq> p \<Longrightarrow> queue_at srv' q = queue_at srv q"
  shows "holders srv' b = holders srv b - of_bool (b \<in> set (queue_at srv p)) + of_bool (b \<in> set (queue_at srv' p))"
proof -
  from split_list [OF assms(2)] obtain xs ys where l: "sv_peers srv = xs @ p # ys" by blast
  have "(\<Sum>q\<leftarrow>zs. of_bool (b \<in> set (queue_at srv' q)) :: int) = (\<Sum>q\<leftarrow>zs. of_bool (b \<in> set (queue_at srv q)))" if "p \<notin> set zs" for zs
    using that assms(4) by (metis (mono_tags, lifting) map_eq_conv)
  then show ?thesis using l assms(1,3) by (simp add: holders_def)
qed

lemma queue_put [simp]: "queue_at (put_io srv p peer io) q = (if q = p then write_buffers io else queue_at srv q)"
  by (simp add: queue_at_def put_io_def)

lemma queued_buffer:
  assumes "peers_ok k srv" "peer_at srv q = Some peer" "b \<in> set (write_buffers (pr_io peer))"
  obtains buf where "sv_bufs srv b = Some buf" "buf_ok buf"
  using peers_okD(2) [OF assms(1,2)] assms(3) by (auto simp: io_ok_def peer_io_def)

lemma put_io_ok:
  assumes "peers_ok k srv" "peer_at srv p = Some peer" "io_ok io" "\<And>c. 0 \<le> k' c"
    "\<And>c buf. sv_bufs srv c = Some buf \<Longrightarrow> buf_ok buf \<Longrightarrow> \<exists>buf'. io_bufs io c = Some buf' \<and> buf_ok buf' \<and> blength buf' = blength buf
       \<and> k' c - k c + 2 * (of_bool (c \<in> set (write_buffers io)) - of_bool (c \<in> set (write_buffers (pr_io peer)))) \<le> brefcnt buf' - brefcnt buf"
    "\<And>c. k c < k' c \<or> c \<in> set (write_buffers io) \<Longrightarrow> 0 < k c \<or> c \<in> set (write_buffers (pr_io peer))"
    "\<And>b. b \<in> set (free_bufs (io_pool io)) \<Longrightarrow> buf_ok b"
  shows "peers_ok k' (put_io srv p peer io)"
proof -
  let ?srv = "put_io srv p peer io"
  note ok = assms(1) [unfolded peers_ok_def]
  have p: "p \<in> set (sv_peers srv)" by (rule peers_okD(1) [OF assms(1,2)])
  have q: "queue_at srv p = write_buffers (pr_io peer)" using assms(2) by (simp add: queue_at_def)
  have sv: "sv_peers ?srv = sv_peers srv" "sv_bufs ?srv = io_bufs io" "sv_pool ?srv = io_pool io"
    "peer_at ?srv = (peer_at srv)(p \<mapsto> peer\<lparr>pr_io := io\<rparr>)" by (simp_all add: put_io_def)
  have h: "holders ?srv c = holders srv c - of_bool (c \<in> set (write_buffers (pr_io peer))) + of_bool (c \<in> set (write_buffers io))" for c
    using holders_exchange [of srv p ?srv c] ok p sv(1) q by simp
  have k: "0 \<le> k c" for c using ok by (simp add: refs_ok_def)
  have refs: "refs_ok k' ?srv" unfolding refs_ok_def
  proof (intro conjI allI impI)
    fix c
    show "0 \<le> k' c" by (rule assms(4))
    assume a: "0 < k' c + holders ?srv c"
    have "0 < k c + holders srv c"
    proof (cases "k c < k' c \<or> c \<in> set (write_buffers io)")
      case True
      then have "0 < k c \<or> 0 < holders srv c" using assms(6) [of c] holders_pos [OF p, of c] q by metis
      then show ?thesis using k [of c] holders_nonneg [of srv c] by linarith
    next
      case False
      then have "k' c + holders ?srv c \<le> k c + holders srv c" using h [of c] by simp
      then show ?thesis using a by linarith
    qed
    then obtain buf where b: "sv_bufs srv c = Some buf" "buf_ok buf" "k c + 2 * holders srv c \<le> brefcnt buf" using ok by (auto simp: refs_ok_def)
    then show "\<exists>buf. sv_bufs ?srv c = Some buf \<and> buf_ok buf \<and> k' c + 2 * holders ?srv c \<le> brefcnt buf"
      using assms(5) [OF b(1,2)] h [of c] sv(2) by fastforce
  qed
  have "peer_ok (io_bufs io) peer'" if pa: "peer_at ?srv r = Some peer'" for r peer'
  proof (cases "r = p")
    case True
    then have "peer' = peer\<lparr>pr_io := io\<rparr>" using pa sv(4) by simp
    then show ?thesis using assms(3) peers_okD(3) [OF assms(1,2)] by (simp add: peer_ok_def io_ok_def)
  next
    case False
    then have r: "peer_at srv r = Some peer'" using pa sv(4) by simp
    then have o: "peer_ok (sv_bufs srv) peer'" using ok by simp
    have "blength (the (io_bufs io b)) = blength (the (sv_bufs srv b))" if bb: "write_buffers (pr_io peer') = b # bs" for b bs
    proof -
      obtain buf where "sv_bufs srv b = Some buf" "buf_ok buf" by (rule queued_buffer [OF assms(1) r, of b]) (use bb in auto)
      then show ?thesis using assms(5) [of b buf] by auto
    qed
    then show ?thesis using o by (auto simp: peer_ok_def)
  qed
  then show ?thesis unfolding peers_ok_def using ok sv refs assms(2,7) by auto
qed

section \<open>Writing to a peer\<close>

lemma write_buffer_frame:
  assumes "obus_io_write_buffer io buf n = (r, j, io')"
  shows "write_buffers io' = write_buffers io" "io_bufs io' = io_bufs io" "io_pool io' = io_pool io" "io_alive io' = io_alive io"
    "nbr_written io' = nbr_written io"
  using assms by (auto simp: obus_io_write_buffer_def Let_def split: prod.splits sum.splits if_splits)

text \<open>A write takes a reference exactly when the buffer is queued.\<close>

lemma io_write_effect:
  assumes "obus_io_write m io b = (r, io')" "io_bufs io b = Some buf"
  shows "write_buffers io' = write_buffers io @ (if r = Inl EAGAIN then [b] else [])
    \<and> io_bufs io' = (if r = Inl EAGAIN then (io_bufs io)(b \<mapsto> obus_buffer_ref buf) else io_bufs io) \<and> io_pool io' = io_pool io"
proof (cases "b = 0 \<or> write_buffers io \<noteq> []")
  case True
  then show ?thesis using assms by (auto simp: obus_io_write_def obus_io_buffer_new_def io_ref_def split: if_splits)
next
  case False
  obtain r1 n io1 where w: "obus_io_write_buffer io buf 0 = (r1, n, io1)" using prod_cases3 by blast
  show ?thesis using assms False w write_buffer_frame [OF w]
    by (auto simp: obus_io_write_def obus_io_buffer_new_def io_ref_def split: if_splits)
qed

lemma ref_simps [simp]: "brefcnt (obus_buffer_ref b) = brefcnt b + 1" "bpool (obus_buffer_ref b) = bpool b"
  by (simp_all add: obus_buffer_ref_def)

lemma held_buffer:
  assumes "peers_ok k srv" "0 < k b"
  obtains buf where "sv_bufs srv b = Some buf" "buf_ok buf" "k b + 2 * holders srv b \<le> brefcnt buf" "1 \<le> brefcnt buf"
proof -
  have "0 < k b + holders srv b" using assms(2) holders_nonneg [of srv b] by linarith
  then obtain buf where "sv_bufs srv b = Some buf" "buf_ok buf" "k b + 2 * holders srv b \<le> brefcnt buf"
    using assms(1) by (auto simp: peers_ok_def refs_ok_def)
  then show thesis using that [of buf] assms(2) holders_nonneg [of srv b] by linarith
qed

text \<open>The bytes of a peer that are written or queued.\<close>

definition sent_to :: "obus_server \<Rightarrow> addr \<Rightarrow> u8 list" where
  "sent_to srv p = (case peer_at srv p of None \<Rightarrow> [] | Some peer \<Rightarrow> fd_sent (pr_io peer) @ pending (peer_io srv peer))"

lemma peer_write_ok:
  assumes "peers_ok k srv" "peer_at srv p = Some peer" "0 < k b" "b \<noteq> 0" "b \<notin> set (write_buffers (pr_io peer))"
    "sv_bufs srv b = Some buf" "peer_write m srv p b = (r, srv')"
  shows "\<exists>io. srv' = put_io srv p peer io \<and> outcome (peer_io srv peer) b buf r io
    \<and> peers_ok (if r = Inl EAGAIN then k(b := k b - 1) else k) srv'
    \<and> sv_bufs srv' = (if r = Inl EAGAIN then (sv_bufs srv)(b \<mapsto> obus_buffer_ref buf) else sv_bufs srv)
    \<and> (r = Inl FAULT \<longrightarrow> Refuse FAULT \<in> set (fd_out (pr_io peer)))"
proof -
  let ?io = "peer_io srv peer"
  obtain io where w: "obus_io_write m ?io b = (r, io)" "srv' = put_io srv p peer io"
    using assms(2,7) by (auto simp: peer_write_def split: prod.splits)
  have bk: "buf_ok buf" "1 \<le> brefcnt buf" using held_buffer [OF assms(1,3)] assms(6) by auto
  have io: "io_ok ?io" "io_bufs ?io b = Some buf" "b \<notin> set (write_buffers ?io)" "write_buffers ?io = write_buffers (pr_io peer)"
    "io_bufs ?io = sv_bufs srv" "io_pool ?io = sv_pool srv" "fd_out ?io = fd_out (pr_io peer)"
    using peers_okD(2) [OF assms(1,2)] assms(5,6) by (simp_all add: peer_io_def)
  note out = io_write_outcome [OF io(1) assms(4) io(2) bk io(3) w(1)]
  note eff = io_write_effect [OF w(1) io(2), unfolded io(4-6)]
  have k: "0 \<le> k c" for c using assms(1) by (simp add: peers_ok_def refs_ok_def)
  have "peers_ok (if r = Inl EAGAIN then k(b := k b - 1) else k) (put_io srv p peer io)"
    by (rule put_io_ok [OF assms(1,2)])
      (use out eff k assms(1,3,5,6) bk in \<open>auto simp: outcome_def peers_ok_def split: if_splits\<close>)
  moreover have "Refuse FAULT \<in> set (fd_out ?io)" if "r = Inl FAULT"
  proof (cases "write_buffers ?io = []")
    case True
    obtain r1 n io1 where wb: "obus_io_write_buffer ?io buf 0 = (r1, n, io1)" using prod_cases3 by blast
    then have "r1 = Inl FAULT" using True w(1) assms(4) io(2) that write_buffer_frame(2) [OF wb]
      by (auto simp: obus_io_write_def obus_io_buffer_new_def io_ref_def split: if_splits option.splits)
    then show ?thesis using write_buffer_spec [OF bk(1) _ wb] by auto
  next
    case False
    then show ?thesis using w(1) assms(4) io(2) that by (auto simp: obus_io_write_def obus_io_buffer_new_def io_ref_def split: if_splits)
  qed
  moreover have "sv_bufs (put_io srv p peer io) = io_bufs io" by (simp add: put_io_def)
  ultimately show ?thesis using w(2) out eff io(7) by (intro exI [of _ io]) auto
qed

section \<open>References of the functions\<close>

lemma holders_bufs [simp]: "holders (srv\<lparr>sv_bufs := bufs, sv_pool := pool\<rparr>) = holders srv" "holders (srv\<lparr>sv_bufs := bufs\<rparr>) = holders srv"
  by (simp_all add: holders_def queue_at_def fun_eq_iff)

lemma bufs_ok:
  assumes "peers_ok k srv" "\<And>c. 0 \<le> k' c"
    "\<And>c. 0 < k' c + holders srv c \<Longrightarrow> \<exists>buf. bufs c = Some buf \<and> buf_ok buf \<and> k' c + 2 * holders srv c \<le> brefcnt buf"
    "\<And>c. 0 < holders srv c \<Longrightarrow> blength (the (bufs c)) = blength (the (sv_bufs srv c))" "\<And>b. b \<in> set (free_bufs pool) \<Longrightarrow> buf_ok b"
  shows "peers_ok k' (srv\<lparr>sv_bufs := bufs, sv_pool := pool\<rparr>)"
proof -
  note ok = assms(1) [unfolded peers_ok_def]
  have "peer_ok bufs peer" if p: "peer_at srv p = Some peer" for p peer
  proof -
    have "0 < holders srv b" if "write_buffers (pr_io peer) = b # bs" for b bs
      using that p peers_okD(1) [OF assms(1) p] by (auto simp: queue_at_def intro!: holders_pos [of p])
    then show ?thesis using ok p assms(4) by (auto simp: peer_ok_def)
  qed
  then show ?thesis using ok assms by (auto simp: peers_ok_def refs_ok_def)
qed

lemma refs_okD: "peers_ok k srv \<Longrightarrow> 0 \<le> k c"
  "peers_ok k srv \<Longrightarrow> 0 < k c + holders srv c \<Longrightarrow> \<exists>buf. sv_bufs srv c = Some buf \<and> buf_ok buf \<and> k c + 2 * holders srv c \<le> brefcnt buf"
  "peers_ok k srv \<Longrightarrow> b \<in> set (free_bufs (sv_pool srv)) \<Longrightarrow> buf_ok b"
  by (auto simp: peers_ok_def refs_ok_def)

lemma buf_ref_ok:
  assumes "peers_ok k srv" "0 < k b + holders srv b" "sv_bufs srv b = Some buf"
  shows "buf_ref srv b = (Inr (), srv\<lparr>sv_bufs := (sv_bufs srv)(b \<mapsto> obus_buffer_ref buf)\<rparr>)"
    "peers_ok (k(b := k b + 1)) (srv\<lparr>sv_bufs := (sv_bufs srv)(b \<mapsto> obus_buffer_ref buf)\<rparr>)"
proof -
  show "buf_ref srv b = (Inr (), srv\<lparr>sv_bufs := (sv_bufs srv)(b \<mapsto> obus_buffer_ref buf)\<rparr>)"
    using assms(3) by (simp add: buf_ref_def server_io_def io_ref_def no_io_def)
  have b: "buf_ok buf" "k b + 2 * holders srv b \<le> brefcnt buf" using refs_okD(2) [OF assms(1,2)] assms(3) by auto
  have "peers_ok (k(b := k b + 1)) (srv\<lparr>sv_bufs := (sv_bufs srv)(b \<mapsto> obus_buffer_ref buf), sv_pool := sv_pool srv\<rparr>)"
    by (rule bufs_ok [OF assms(1)])
      (use refs_okD [OF assms(1)] assms(2,3) b in \<open>auto simp: fun_upd_def add_increasing2 split: if_splits\<close>)
  then show "peers_ok (k(b := k b + 1)) (srv\<lparr>sv_bufs := (sv_bufs srv)(b \<mapsto> obus_buffer_ref buf)\<rparr>)" by simp
qed

lemma buf_unref_ok:
  assumes "peers_ok k srv" "0 < k b"
  obtains bufs pool where "buf_unref srv b = (Inr (), srv\<lparr>sv_bufs := bufs, sv_pool := pool\<rparr>)"
    "peers_ok (k(b := k b - 1)) (srv\<lparr>sv_bufs := bufs, sv_pool := pool\<rparr>)" "\<And>c. c \<noteq> b \<Longrightarrow> bufs c = sv_bufs srv c"
    "\<And>buf. sv_bufs srv b = Some buf \<Longrightarrow> bufs b = None \<or> bufs b = Some (buf\<lparr>brefcnt := brefcnt buf - 1\<rparr>)" "0 < holders srv b \<Longrightarrow> bufs b \<noteq> None"
proof -
  obtain buf where b: "sv_bufs srv b = Some buf" "buf_ok buf" "k b + 2 * holders srv b \<le> brefcnt buf" "1 \<le> brefcnt buf" by (rule held_buffer [OF assms])
  let ?buf = "buf\<lparr>brefcnt := brefcnt buf - 1\<rparr>"
  have okb: "buf_ok ?buf" "buf_ok (?buf\<lparr>brefcnt := 0\<rparr>)" using b(2) by (simp_all add: buf_ok_def)
  note r = refs_okD [OF assms(1)]
  show thesis
  proof (cases "brefcnt buf = 1 \<and> bpool buf")
    case True
    have h: "holders srv b = 0" "k b = 1" using b(3) True assms(2) holders_nonneg [of srv b] by linarith+
    let ?bufs = "(sv_bufs srv)(b := None)" and ?pool = "obus_buffer_pool_put (sv_pool srv) ?buf"
    have "buf_unref srv b = (Inr (), srv\<lparr>sv_bufs := ?bufs, sv_pool := ?pool\<rparr>)"
      using b(1) True by (simp add: buf_unref_def server_io_def io_unref_def no_io_def obus_buffer_unref_def Let_def)
    moreover have "peers_ok (k(b := k b - 1)) (srv\<lparr>sv_bufs := ?bufs, sv_pool := ?pool\<rparr>)"
      by (rule bufs_ok [OF assms(1)]) (use r h okb in \<open>auto simp: obus_buffer_pool_put_def split: if_splits\<close>)
    ultimately show thesis using that h by simp
  next
    case False
    let ?bufs = "(sv_bufs srv)(b \<mapsto> ?buf)"
    have "buf_unref srv b = (Inr (), srv\<lparr>sv_bufs := ?bufs, sv_pool := sv_pool srv\<rparr>)"
      using b(1) False by (auto simp: buf_unref_def server_io_def io_unref_def no_io_def obus_buffer_unref_def Let_def)
    moreover have "peers_ok (k(b := k b - 1)) (srv\<lparr>sv_bufs := ?bufs, sv_pool := sv_pool srv\<rparr>)"
      by (rule bufs_ok [OF assms(1)]) (use r b okb assms(2) in \<open>auto split: if_splits\<close>)
    ultimately show thesis using that [of "sv_pool srv" ?bufs] b(1) by simp
  qed
qed

section \<open>Peers that leave\<close>

lemma peers_ok_bus [simp]:
  "peers_ok k (srv\<lparr>sv_bus := s\<rparr>) = peers_ok k srv" "peers_ok k (srv\<lparr>sv_call := q\<rparr>) = peers_ok k srv"
  "peers_ok k (srv\<lparr>sv_trace := t\<rparr>) = peers_ok k srv" "peers_ok k (srv\<lparr>n_peers_connected := n\<rparr>) = peers_ok k srv"
  "peers_ok k (srv\<lparr>sv_next := a\<rparr>) = peers_ok k srv" "peers_ok k (srv\<lparr>has_peer_cb := cb\<rparr>) = peers_ok k srv"
  "peers_ok k (srv\<lparr>sv_state := st\<rparr>) = peers_ok k srv" "peers_ok k (srv\<lparr>n_sks := j\<rparr>) = peers_ok k srv"
  by (simp_all add: peers_ok_def refs_ok_def holders_def queue_at_def)

lemma holders_without:
  assumes "distinct (sv_peers srv)" "p \<in> set (sv_peers srv)" "sv_peers srv' = remove1 p (sv_peers srv)"
    "\<And>q. q \<noteq> p \<Longrightarrow> queue_at srv' q = queue_at srv q"
  shows "holders srv' b = holders srv b - of_bool (b \<in> set (queue_at srv p))"
proof -
  from split_list [OF assms(2)] obtain xs ys where l: "sv_peers srv = xs @ p # ys" by blast
  have "(\<Sum>q\<leftarrow>zs. of_bool (b \<in> set (queue_at srv' q)) :: int) = (\<Sum>q\<leftarrow>zs. of_bool (b \<in> set (queue_at srv q)))" if "p \<notin> set zs" for zs
    using that assms(4) by (metis (mono_tags, lifting) map_eq_conv)
  then show ?thesis using l assms(1,3) by (simp add: holders_def remove1_append)
qed

lemma free_peer_ok:
  assumes "peers_ok k srv" "peer_at srv p = Some peer"
  defines "bufs \<equiv> \<lambda>c. if c \<in> set (write_buffers (pr_io peer)) then map_option (\<lambda>b. b\<lparr>brefcnt := brefcnt b - 1\<rparr>) (sv_bufs srv c) else sv_bufs srv c"
  shows "\<exists>pool. free_peer srv p = (Inr (), srv\<lparr>sv_peers := remove1 p (sv_peers srv), peer_at := (peer_at srv)(p := None), sv_bufs := bufs, sv_pool := pool\<rparr>)
    \<and> peers_ok k (srv\<lparr>sv_peers := remove1 p (sv_peers srv), peer_at := (peer_at srv)(p := None), sv_bufs := bufs, sv_pool := pool\<rparr>)"
proof -
  note ok = assms(1) [unfolded peers_ok_def]
  have p: "p \<in> set (sv_peers srv)" by (rule peers_okD(1) [OF assms(1,2)])
  let ?srv = "srv\<lparr>sv_peers := remove1 p (sv_peers srv)\<rparr>"
  obtain d where d: "pr_decoder peer = Some d" "buf_ok (d_buf d)" using peers_okD(3) [OF assms(1,2)] by blast
  have io: "io_ok (peer_io ?srv peer)" using peers_okD(2) [OF assms(1,2)] by (simp add: peer_io_def)
  then have dist: "distinct (write_buffers (peer_io ?srv peer))"
    "\<forall>p\<in>set (write_buffers (peer_io ?srv peer)). \<exists>b. io_bufs (peer_io ?srv peer) p = Some b \<and> 2 \<le> brefcnt b" by (auto simp: io_ok_def)
  define io' where "io' = snd (obus_io_destroy (peer_io ?srv peer))"
  have io': "obus_io_destroy (peer_io ?srv peer) = (Inr (), io')" "io_bufs io' = bufs" "io_pool io' = sv_pool srv"
    using destroy_ok [OF dist] by (auto simp: io'_def peer_io_def bufs_def fun_eq_iff)
  define pool where "pool = snd (obus_packet_decoder_destroy d (sv_pool srv))"
  let ?srv' = "srv\<lparr>sv_peers := remove1 p (sv_peers srv), peer_at := (peer_at srv)(p := None), sv_bufs := bufs, sv_pool := pool\<rparr>"
  have "free_peer srv p = (Inr (), ?srv')"
    using assms(2) p io' d(1) by (simp add: free_peer_def Let_def pool_def split: prod.split)
  moreover have pool: "b \<in> set (free_bufs pool) \<Longrightarrow> buf_ok b" for b
    using ok d(2) by (auto simp: pool_def obus_packet_decoder_destroy_def obus_buffer_unref_def obus_buffer_pool_put_def obus_buffer_clear_def
        Let_def buf_ok_def split: if_splits)
  have h: "holders ?srv' c = holders srv c - of_bool (c \<in> set (write_buffers (pr_io peer)))" for c
    using holders_without [of srv p ?srv' c] ok p assms(2) by (simp add: queue_at_def)
  have refs: "refs_ok k ?srv'" unfolding refs_ok_def
  proof (intro conjI allI impI)
    fix c
    show "0 \<le> k c" by (rule refs_okD [OF assms(1)])
    assume "0 < k c + holders ?srv' c"
    then have "0 < k c + holders srv c" using h [of c] by (cases "c \<in> set (write_buffers (pr_io peer))") simp_all
    then obtain buf where "sv_bufs srv c = Some buf" "buf_ok buf" "k c + 2 * holders srv c \<le> brefcnt buf" using refs_okD(2) [OF assms(1)] by blast
    then show "\<exists>buf. sv_bufs ?srv' c = Some buf \<and> buf_ok buf \<and> k c + 2 * holders ?srv' c \<le> brefcnt buf"
      using h [of c] by (auto simp: bufs_def buf_ok_def)
  qed
  have len: "map_option blength (bufs c) = map_option blength (sv_bufs srv c)" for c by (cases "sv_bufs srv c") (simp_all add: bufs_def)
  have "peer_ok bufs peer'" if q: "peer_at srv q = Some peer'" for q peer'
  proof -
    have "blength (the (bufs b)) = blength (the (sv_bufs srv b))" if bb: "write_buffers (pr_io peer') = b # bs" for b bs
    proof -
      obtain buf where "sv_bufs srv b = Some buf" "buf_ok buf" by (rule queued_buffer [OF assms(1) q, of b]) (use bb in auto)
      then show ?thesis using len [of b] by auto
    qed
    then show ?thesis using ok q by (auto simp: peer_ok_def)
  qed
  then have "peers_ok k ?srv'" unfolding peers_ok_def using ok refs pool by auto
  ultimately show ?thesis by blast
qed

section \<open>Callbacks\<close>

lemma link_of_eq:
  assumes "link_of srv' p = link_of srv p"
  shows "peer_at srv p = Some peer \<Longrightarrow> \<exists>peer'. peer_at srv' p = Some peer' \<and> pr_io peer' = pr_io peer \<and> pr_decoder peer' = pr_decoder peer"
    "peer_at srv' p = None \<longleftrightarrow> peer_at srv p = None" "obus_peer_is_connected (peer_at srv' p) = obus_peer_is_connected (peer_at srv p)"
    "queue_at srv' p = queue_at srv p"
  using assms by (cases "peer_at srv p"; cases "peer_at srv' p"; simp add: link_of_def obus_peer_is_connected_def queue_at_def)+

lemma same_links_ok:
  assumes "same_links srv srv'"
  shows "peers_ok k srv' = peers_ok k srv" "addrs_ok srv' = addrs_ok srv" "peer_count_ok srv' = peer_count_ok srv" "server_ok k srv' = server_ok k srv"
proof -
  note same = assms [unfolded same_links_def]
  have l: "link_of srv' p = link_of srv p" for p using same by simp
  have d: "dom (peer_at srv') = dom (peer_at srv)" using link_of_eq(2) [OF l] by (auto simp: dom_def)
  have "(\<forall>p peer. peer_at srv' p = Some peer \<longrightarrow> peer_ok (sv_bufs srv) peer) = (\<forall>p peer. peer_at srv p = Some peer \<longrightarrow> peer_ok (sv_bufs srv) peer)"
    unfolding peer_ok_def using link_of_eq(1) [OF l] link_of_eq(1) [OF l [symmetric]] by (smt (verit))
  moreover have "queue_at srv' = queue_at srv" using link_of_eq(4) [OF l] by (simp add: fun_eq_iff)
  ultimately show "peers_ok k srv' = peers_ok k srv" using same d by (simp add: peers_ok_def refs_ok_def holders_def)
  moreover show "addrs_ok srv' = addrs_ok srv" using same d by (simp add: addrs_ok_def)
  moreover show "peer_count_ok srv' = peer_count_ok srv" using same link_of_eq(3) [OF l] by (simp add: peer_count_ok_def connected_peers_def)
  ultimately show "server_ok k srv' = server_ok k srv" by (simp add: server_ok_def)
qed

lemma same_links_refl: "same_links srv srv"
  by (simp add: same_links_def)

lemma same_links_trans: "same_links srv srv' \<Longrightarrow> same_links srv' srv'' \<Longrightarrow> same_links srv srv''"
  by (simp add: same_links_def)

lemma notify_links: "mild (se_user E) \<Longrightarrow> same_links srv (obus_peer_notify_user E srv p event)"
proof -
  assume "mild (se_user E)"
  then have "same_links (srv\<lparr>sv_trace := t\<rparr>) (u_peer (se_user E) event p (srv\<lparr>sv_trace := t\<rparr>))" for t by (simp add: mild_def)
  moreover have "same_links srv (srv\<lparr>sv_trace := t\<rparr>)" for t by (simp add: same_links_def link_of_def fun_eq_iff)
  ultimately show ?thesis using same_links_trans same_links_refl by (simp add: obus_peer_notify_user_def) blast
qed

lemma set_peer_ok:
  assumes "peers_ok k srv" "peer_at srv p = Some peer" "pr_io peer' = pr_io peer" "\<exists>d. pr_decoder peer' = Some d \<and> buf_ok (d_buf d)"
  shows "peers_ok k (set_peer p peer' srv)"
proof -
  note ok = assms(1) [unfolded peers_ok_def]
  have "queue_at (set_peer p peer' srv) q = queue_at srv q" for q using assms(2,3) by (simp add: queue_at_def set_peer_def)
  moreover have "peer_ok (sv_bufs srv) peer'" using ok assms(2-4) by (simp add: peer_ok_def)
  ultimately show ?thesis using ok assms(2) unfolding peers_ok_def refs_ok_def holders_def by (auto simp: set_peer_def)
qed

lemma connected_set_peer:
  assumes "distinct (sv_peers srv)" "p \<in> set (sv_peers srv)" "\<not> obus_peer_is_connected (peer_at srv p)" "pr_state peer' = PEER_STATE_CONNECTED"
  shows "length (connected_peers (set_peer p peer' srv)) = Suc (length (connected_peers srv))"
proof -
  from split_list [OF assms(2)] obtain xs ys where l: "sv_peers srv = xs @ p # ys" by blast
  have "filter (\<lambda>q. obus_peer_is_connected (if q = p then Some peer' else peer_at srv q)) zs = filter (\<lambda>q. obus_peer_is_connected (peer_at srv q)) zs"
    if "p \<notin> set zs" for zs using that by (auto intro!: filter_cong)
  then show ?thesis using l assms by (simp add: connected_peers_def set_peer_def obus_peer_is_connected_def cong: filter_cong)
qed

lemma connected_without:
  assumes "distinct (sv_peers srv)" "p \<in> set (sv_peers srv)" "sv_peers srv' = remove1 p (sv_peers srv)" "\<And>q. q \<noteq> p \<Longrightarrow> link_of srv' q = link_of srv q"
  shows "length (connected_peers srv) = length (connected_peers srv') + (if obus_peer_is_connected (peer_at srv p) then 1 else 0)"
proof -
  from split_list [OF assms(2)] obtain xs ys where l: "sv_peers srv = xs @ p # ys" by blast
  have "filter (\<lambda>q. obus_peer_is_connected (peer_at srv' q)) zs = filter (\<lambda>q. obus_peer_is_connected (peer_at srv q)) zs" if "p \<notin> set zs" for zs
    using that assms(4) link_of_eq(3) by (metis (no_types, lifting) filter_cong)
  then show ?thesis using l assms(1,3) by (simp add: connected_peers_def remove1_append)
qed

lemma sz_pred: "sz_sub (sz (Suc n)) 1 = sz n"
proof (cases "Suc n mod 2 ^ 64 = 0")
  case True
  then have "n mod 2 ^ 64 = 2 ^ 64 - 1" by (metis Suc_eq_plus1 diff_Suc_1 mod_Suc zero_neq_one nat.distinct(1) nat.inject diff_Suc_Suc minus_nat.diff_0)
  then show ?thesis using True by (simp add: sz_def sz_sub_def)
next
  case False
  then have "Suc n mod 2 ^ 64 = Suc (n mod 2 ^ 64)" by (metis mod_Suc)
  then show ?thesis by (simp add: sz_def sz_sub_def)
qed

text \<open>A peer that is destroyed leaves the others, and the bytes of all buffers, as they are.\<close>

lemma peer_destroy_ok:
  assumes "server_ok k srv" "peer_at srv p = Some peer" "mild (se_user E)"
  shows "\<exists>srv'. obus_peer_destroy E srv p = (Inr (), srv') \<and> server_ok k srv' \<and> sv_peers srv' = remove1 p (sv_peers srv) \<and> peer_at srv' p = None
    \<and> (\<forall>q. q \<noteq> p \<longrightarrow> link_of srv' q = link_of srv q) \<and> bytes_at srv' = bytes_at srv \<and> sv_next srv' = sv_next srv"
proof -
  have ok: "peers_ok k srv" "addrs_ok srv" "peer_count_ok srv" using assms(1) by (simp_all add: server_ok_def)
  let ?C = "pr_state peer = PEER_STATE_CONNECTED" and ?gone = "set_peer p (peer\<lparr>pr_state := PEER_STATE_DISCONNECTED\<rparr>) srv"
  define srv0 where "srv0 = (if ?C then ?gone\<lparr>n_peers_connected := sz_sub (n_peers_connected srv) 1\<rparr> else srv)"
  define srv1 where "srv1 = (if ?C then obus_peer_notify_user E srv0 p OBUS_PEER_EVENT_DISCONNECTED else srv0)"
  have "peers_ok k ?gone" by (rule set_peer_ok [OF ok(1) assms(2)]) (use peers_okD(3) [OF ok(1) assms(2)] in simp_all)
  then have ok0: "peers_ok k srv0" using ok(1) by (simp add: srv0_def)
  have s1: "same_links srv0 srv1" using notify_links [OF assms(3)] same_links_refl by (simp add: srv1_def)
  have srv0: "sv_peers srv0 = sv_peers srv" "sv_bufs srv0 = sv_bufs srv" "sv_next srv0 = sv_next srv"
    "n_peers_connected srv0 = (if ?C then sz_sub (n_peers_connected srv) 1 else n_peers_connected srv)"
    "\<exists>peer0. peer_at srv0 p = Some peer0 \<and> pr_io peer0 = pr_io peer" "\<And>q. q \<noteq> p \<Longrightarrow> link_of srv0 q = link_of srv q" "dom (peer_at srv0) = dom (peer_at srv)"
    using assms(2) by (auto simp: srv0_def set_peer_def link_of_def)
  have ok1: "peers_ok k srv1" using ok0 same_links_ok(1) [OF s1] by simp
  note s1' = s1 [unfolded same_links_def]
  have "\<exists>peer1. peer_at srv1 p = Some peer1 \<and> pr_io peer1 = pr_io peer" using srv0(5) link_of_eq(1) [of srv1 p srv0] s1' by fastforce
  then obtain peer1 where p1: "peer_at srv1 p = Some peer1" "pr_io peer1 = pr_io peer" by blast
  define bufs where "bufs c = (if c \<in> set (write_buffers (pr_io peer1)) then map_option (\<lambda>b. b\<lparr>brefcnt := brefcnt b - 1\<rparr>) (sv_bufs srv1 c) else sv_bufs srv1 c)" for c
  obtain pool where f: "free_peer srv1 p = (Inr (), srv1\<lparr>sv_peers := remove1 p (sv_peers srv1), peer_at := (peer_at srv1)(p := None), sv_bufs := bufs, sv_pool := pool\<rparr>)"
    "peers_ok k (srv1\<lparr>sv_peers := remove1 p (sv_peers srv1), peer_at := (peer_at srv1)(p := None), sv_bufs := bufs, sv_pool := pool\<rparr>)"
    using free_peer_ok [OF ok1 p1(1)] by (auto simp: bufs_def [abs_def])
  let ?srv' = "srv1\<lparr>sv_peers := remove1 p (sv_peers srv1), peer_at := (peer_at srv1)(p := None), sv_bufs := bufs, sv_pool := pool\<rparr>"
  have l: "link_of ?srv' q = link_of srv q" if "q \<noteq> p" for q
    using that srv0(6) [OF that] s1' by (simp add: link_of_def fun_eq_iff)
  have "map_option content (bufs c) = map_option content (sv_bufs srv c)" for c
    using s1' srv0(2) by (cases "sv_bufs srv c") (auto simp: bufs_def content_def)
  then have b: "bytes_at ?srv' = bytes_at srv" by (simp add: bytes_at_def fun_eq_iff)
  then have "sv_bufs ?srv' c = None \<longleftrightarrow> sv_bufs srv c = None" for c by (metis bytes_at_def option.map_disc_iff)
  then have "dom (sv_bufs ?srv') = dom (sv_bufs srv)" by (simp add: dom_def)
  moreover have "dom (peer_at ?srv') \<subseteq> dom (peer_at srv)" 
  proof
    fix q
    assume q: "q \<in> dom (peer_at ?srv')"
    then have "q \<noteq> p" by auto
    then show "q \<in> dom (peer_at srv)" using link_of_eq(2) [OF l [of q]] q by auto
  qed
  ultimately have a: "addrs_ok ?srv'" using ok(2) s1' srv0(3) by (simp add: addrs_ok_def) (blast intro: subset_trans)
  have "length (connected_peers srv) = length (connected_peers ?srv') + (if ?C then 1 else 0)"
    using connected_without [of srv p ?srv'] ok(1) peers_okD(1) [OF ok(1) assms(2)] l s1' srv0(1) assms(2)
    by (simp add: peers_ok_def obus_peer_is_connected_def)
  then have "peer_count_ok ?srv'" using ok(3) s1' srv0(4) sz_pred by (auto simp: peer_count_ok_def split: if_splits)
  moreover have "obus_peer_destroy E srv p = free_peer srv1 p" using assms(2) by (simp add: obus_peer_destroy_def srv1_def srv0_def)
  ultimately show ?thesis using f a l b s1' srv0 by (intro exI [of _ ?srv']) (simp add: server_ok_def)
qed

section \<open>Packets for all\<close>

lemma sent_to_same:
  assumes "link_of srv' p = link_of srv p" "\<And>c. c \<in> set (queue_at srv p) \<Longrightarrow> bytes_at srv' c = bytes_at srv c"
  shows "sent_to srv' p = sent_to srv p"
proof (cases "peer_at srv p")
  case None
  then show ?thesis using link_of_eq(2) [OF assms(1)] by (simp add: sent_to_def)
next
  case (Some peer)
  obtain peer' where p: "peer_at srv' p = Some peer'" "pr_io peer' = pr_io peer" using link_of_eq(1) [OF assms(1) Some] by blast
  have "content (the (sv_bufs srv' c)) = content (the (sv_bufs srv c))" if "c \<in> set (write_buffers (pr_io peer))" for c
    using assms(2) [of c] that Some by (cases "sv_bufs srv c"; cases "sv_bufs srv' c") (simp_all add: bytes_at_def queue_at_def)
  then have "queued (peer_io srv' peer') = queued (peer_io srv peer)" using p(2) by (intro queued_cong) (simp_all add: peer_io_def)
  then show ?thesis using p Some by (simp add: sent_to_def pending_def) (simp add: peer_io_def)
qed

lemma put_io_links:
  "sent_to (put_io srv p peer io) p = fd_sent io @ pending io" "q \<noteq> p \<Longrightarrow> link_of (put_io srv p peer io) q = link_of srv q"
  "sv_next (put_io srv p peer io) = sv_next srv" "sv_peers (put_io srv p peer io) = sv_peers srv"
  by (simp_all add: sent_to_def put_io_def link_of_def peer_io_def)

lemma put_io_count: "peer_at srv p = Some peer \<Longrightarrow> peer_count_ok (put_io srv p peer io) = peer_count_ok srv"
  unfolding peer_count_ok_def connected_peers_def
  by (auto simp: put_io_def obus_peer_is_connected_def intro!: arg_cong [of _ _ "\<lambda>xs. sz (length xs)"] filter_cong)

text \<open>A peer whose descriptor may be busy but does not fail, when there is memory to queue a buffer.\<close>

definition healthy :: "server_env \<Rightarrow> obus_peer \<Rightarrow> bool" where
  "healthy E peer \<longleftrightarrow> busy_only (fd_out (pr_io peer)) \<and> alloc_ok (se_mem E) sizeof_io_buffer"

lemma healthy_write:
  assumes "obus_io_write m io b = (r, io')" "io_bufs io b = Some buf" "buf_ok buf" "b \<noteq> 0" "busy_only (fd_out io)" "alloc_ok m sizeof_io_buffer"
  shows "r = Inr () \<or> r = Inl EAGAIN"
proof -
  obtain r1 n io1 where w: "obus_io_write_buffer io buf 0 = (r1, n, io1)" using prod_cases3 by blast
  then have "r1 = Inr () \<or> r1 = Inl EAGAIN" using write_buffer_spec [OF assms(3) _ w] assms(5) by blast
  then show ?thesis using assms(1,2,4,6) w write_buffer_frame(2) [OF w]
    by (auto simp: obus_io_write_def obus_io_buffer_new_def io_ref_def split: if_splits option.splits)
qed

text \<open>
  What becomes of a peer: one that is not connected gets nothing; a connected one gets the bytes behind everything else, or is gone because
  the write failed.
\<close>

definition told :: "server_env \<Rightarrow> u8 list \<Rightarrow> obus_server \<Rightarrow> obus_server \<Rightarrow> addr \<Rightarrow> bool" where
  "told E bs srv srv' p \<longleftrightarrow>
     (if obus_peer_is_connected (peer_at srv p)
      then obus_peer_is_connected (peer_at srv' p) \<and> sent_to srv' p = sent_to srv p @ bs
           \<or> peer_at srv' p = None \<and> p \<notin> set (sv_peers srv') \<and> \<not> healthy E (the (peer_at srv p))
      else link_of srv' p = link_of srv p)"

lemma send_peer_ok:
  assumes "server_ok k srv" "0 < k b" "peer_at srv p = Some peer" "b \<notin> set (write_buffers (pr_io peer))" "mild (se_user E)"
    "Refuse FAULT \<notin> set (fd_out (pr_io peer))" "bytes_at srv b = Some bs"
  shows "\<exists>srv'. send_peer E b srv p = (Inr (), srv') \<and> server_ok k srv' \<and> bytes_at srv' = bytes_at srv \<and> (\<forall>q. q \<noteq> p \<longrightarrow> link_of srv' q = link_of srv q)
    \<and> told E bs srv srv' p"
proof (cases "pr_state peer = PEER_STATE_CONNECTED")
  case False
  then show ?thesis using assms(1,3) by (simp add: send_peer_def obus_peer_is_connected_def told_def)
next
  case True
  have ok: "peers_ok k srv" "addrs_ok srv" "peer_count_ok srv" using assms(1) by (simp_all add: server_ok_def)
  obtain buf where b: "sv_bufs srv b = Some buf" "buf_ok buf" by (rule held_buffer [OF ok(1) assms(2)])
  then have b0: "b \<noteq> 0" "b < sv_next srv" "content buf = bs" using ok(2) assms(7) by (auto simp: addrs_ok_def bytes_at_def)
  obtain r srv1 where w: "peer_write (se_mem E) srv p b = (r, srv1)" by fastforce
  from peer_write_ok [OF ok(1) assms(3,2) b0(1) assms(4) b(1) w] obtain io where
    io: "srv1 = put_io srv p peer io" "outcome (peer_io srv peer) b buf r io" "peers_ok (if r = Inl EAGAIN then k(b := k b - 1) else k) srv1"
      "sv_bufs srv1 = (if r = Inl EAGAIN then (sv_bufs srv)(b \<mapsto> obus_buffer_ref buf) else sv_bufs srv)" "r \<noteq> Inl FAULT"
    using assms(6) by blast
  have bytes1: "bytes_at srv1 = bytes_at srv" using io(4) b(1) by (auto simp: bytes_at_def fun_eq_iff)
  have a1: "addrs_ok srv1" using ok(2) io(1,4) assms(3) b0 by (auto simp: addrs_ok_def put_io_def split: if_splits)
  have c1: "peer_count_ok srv1" using ok(3) put_io_count [OF assms(3)] io(1) by simp
  have l1: "\<forall>q. q \<noteq> p \<longrightarrow> link_of srv1 q = link_of srv q" "p \<in> set (sv_peers srv1)" "obus_peer_is_connected (peer_at srv1 p)"
    using put_io_links(2) io(1) peers_okD(1) [OF ok(1) assms(3)] True by (auto simp: put_io_def obus_peer_is_connected_def)
  have sent: "sent_to srv1 p = sent_to srv p @ bs" if "r = Inr () \<or> r = Inl EAGAIN"
    using that io(1,2) put_io_links(1) assms(3) b0(3)
    by (auto simp: outcome_def sent_to_def pending_def queued_def peer_io_def split: if_splits)
  have sp: "send_peer E b srv p = (if r = Inl EAGAIN then buf_ref srv1 b else if r \<noteq> Inr () then obus_peer_destroy E srv1 p else (Inr (), srv1))"
    using assms(3) True w io(5) by (simp add: send_peer_def obus_peer_is_connected_def)
  consider (written) "r = Inr ()" | (queued) "r = Inl EAGAIN" | (failed) "r \<noteq> Inr ()" "r \<noteq> Inl EAGAIN" by blast
  then show ?thesis
  proof cases
    case written
    then show ?thesis using sp io(3) a1 c1 bytes1 l1 sent True assms(3) by (auto simp: server_ok_def told_def obus_peer_is_connected_def)
  next
    case queued
    let ?srv = "srv1\<lparr>sv_bufs := (sv_bufs srv1)(b \<mapsto> obus_buffer_ref (obus_buffer_ref buf))\<rparr>"
    have "b \<in> set (queue_at srv1 p)" using queued io(1,2) by (simp add: outcome_def)
    then have "0 < (k(b := k b - 1)) b + holders srv1 b" using holders_pos [OF l1(2), of b] assms(2) by simp
    then have r: "buf_ref srv1 b = (Inr (), ?srv)" "peers_ok k ?srv"
      using buf_ref_ok [where k = "k(b := k b - 1)" and srv = srv1 and b = b and buf = "obus_buffer_ref buf"] io(3,4) queued by simp_all
    have same: "link_of ?srv = link_of srv1" "bytes_at ?srv = bytes_at srv1" "addrs_ok ?srv = addrs_ok srv1" "peer_count_ok ?srv = peer_count_ok srv1"
      using queued io(4) a1 by (auto simp: link_of_def bytes_at_def fun_eq_iff addrs_ok_def peer_count_ok_def connected_peers_def)
    have "sent_to ?srv p = sent_to srv1 p" by (rule sent_to_same) (simp_all add: same)
    then show ?thesis using sp queued r same a1 c1 bytes1 l1 sent True assms(3)
      by (intro exI [of _ ?srv]) (simp add: server_ok_def told_def obus_peer_is_connected_def)
  next
    case failed
    have "server_ok k srv1" using failed io(3) a1 c1 by (simp add: server_ok_def)
    moreover have "peer_at srv1 p = Some (peer\<lparr>pr_io := io\<rparr>)" using io(1) by (simp add: put_io_def)
    ultimately obtain srv' where d: "obus_peer_destroy E srv1 p = (Inr (), srv')" "server_ok k srv'" "sv_peers srv' = remove1 p (sv_peers srv1)"
      "peer_at srv' p = None" "\<forall>q. q \<noteq> p \<longrightarrow> link_of srv' q = link_of srv1 q" "bytes_at srv' = bytes_at srv1"
      using peer_destroy_ok assms(5) by blast
    have "p \<notin> set (sv_peers srv')" using d(2,4) by (auto simp: server_ok_def peers_ok_def)
    moreover have "\<not> healthy E peer"
    proof
      assume "healthy E peer"
      then have "r = Inr () \<or> r = Inl EAGAIN"
        using w assms(3) b b0(1) healthy_write [of "se_mem E" "peer_io srv peer" b r]
        by (auto simp: healthy_def peer_write_def peer_io_def split: prod.splits)
      then show False using failed by blast
    qed
    ultimately show ?thesis using sp failed d bytes1 l1(1) True assms(3) by (simp add: told_def obus_peer_is_connected_def)
  qed
qed

lemma told_after:
  assumes "told E bs srv srv1 p" "link_of srv' p = link_of srv1 p" "\<And>c. c \<in> set (queue_at srv1 p) \<Longrightarrow> bytes_at srv' c = bytes_at srv1 c" "server_ok k srv'"
  shows "told E bs srv srv' p"
  using assms(1) link_of_eq [OF assms(2)] sent_to_same [OF assms(2,3)] assms(2,4) by (auto simp: told_def server_ok_def peers_ok_def)

lemma told_before:
  assumes "told E bs srv1 srv' p" "link_of srv1 p = link_of srv p" "\<And>c. c \<in> set (queue_at srv p) \<Longrightarrow> bytes_at srv1 c = bytes_at srv c"
  shows "told E bs srv srv' p"
proof -
  have "healthy E (the (peer_at srv1 p)) = healthy E (the (peer_at srv p))" if "peer_at srv p \<noteq> None"
    using that link_of_eq(1) [OF assms(2)] by (auto simp: healthy_def)
  moreover have "peer_at srv p \<noteq> None" if "obus_peer_is_connected (peer_at srv p)" using that by (auto simp: obus_peer_is_connected_def split: option.splits)
  ultimately show ?thesis using assms(1,2) link_of_eq(3) [OF assms(2)] sent_to_same [OF assms(2,3)] by (auto simp: told_def)
qed

lemma over_peers_ok:
  assumes "server_ok k srv" "0 < k b" "distinct ps" "\<forall>p\<in>set ps. \<exists>peer. peer_at srv p = Some peer \<and> b \<notin> set (write_buffers (pr_io peer))
      \<and> Refuse FAULT \<notin> set (fd_out (pr_io peer))" "mild (se_user E)" "bytes_at srv b = Some bs"
  shows "\<exists>srv'. over_peers (send_peer E b) srv ps = (Inr (), srv') \<and> server_ok k srv' \<and> bytes_at srv' = bytes_at srv
    \<and> (\<forall>q. q \<notin> set ps \<longrightarrow> link_of srv' q = link_of srv q) \<and> (\<forall>p\<in>set ps. told E bs srv srv' p)"
  using assms(1,3,4,6)
proof (induction ps arbitrary: srv)
  case (Cons p ps)
  obtain peer where p: "peer_at srv p = Some peer" "b \<notin> set (write_buffers (pr_io peer))" "Refuse FAULT \<notin> set (fd_out (pr_io peer))" using Cons.prems(3) by auto
  obtain srv1 where s1: "send_peer E b srv p = (Inr (), srv1)" "server_ok k srv1" "bytes_at srv1 = bytes_at srv"
    "\<forall>q. q \<noteq> p \<longrightarrow> link_of srv1 q = link_of srv q" "told E bs srv srv1 p"
    using send_peer_ok [OF Cons.prems(1) assms(2) p(1,2) assms(5) p(3) Cons.prems(4)] by blast
  have "\<exists>peer. peer_at srv1 q = Some peer \<and> b \<notin> set (write_buffers (pr_io peer)) \<and> Refuse FAULT \<notin> set (fd_out (pr_io peer))" if "q \<in> set ps" for q
  proof -
    have "link_of srv1 q = link_of srv q" using s1(4) Cons.prems(2) that by auto
    moreover obtain peer where "peer_at srv q = Some peer" "b \<notin> set (write_buffers (pr_io peer))" "Refuse FAULT \<notin> set (fd_out (pr_io peer))"
      using Cons.prems(3) \<open>q \<in> set ps\<close> by auto
    ultimately show ?thesis using link_of_eq(1) by metis
  qed
  then obtain srv' where s': "over_peers (send_peer E b) srv1 ps = (Inr (), srv')" "server_ok k srv'" "bytes_at srv' = bytes_at srv1"
    "\<forall>q. q \<notin> set ps \<longrightarrow> link_of srv' q = link_of srv1 q" "\<forall>p\<in>set ps. told E bs srv1 srv' p"
    using Cons.IH [OF s1(2)] Cons.prems(2,4) s1(3) by auto
  have "told E bs srv srv' q" if "q \<in> set (p # ps)" for q
  proof (cases "q = p")
    case True
    then show ?thesis using told_after [OF s1(5) _ _ s'(2)] s'(3,4) Cons.prems(2) by simp
  next
    case False
    then show ?thesis using told_before [of E bs srv1 srv' q srv] s'(5) s1(3,4) that by simp
  qed
  then show ?case using s1 s' by (intro exI [of _ srv']) simp
qed simp

text \<open>A buffer of the pool is a buffer with one reference.\<close>

lemma pool_peek_ok:
  assumes "\<And>b. b \<in> set (free_bufs pool) \<Longrightarrow> buf_ok b" "sane_memory m" "obus_buffer_pool_peek m n pool = (Some buf, pool')"
  shows "buf_ok buf" "brefcnt buf = 1" "set (free_bufs pool') \<subseteq> set (free_bufs pool)"
  using assms buffer_new_ok [OF _ assms(2)] by (auto simp: obus_buffer_pool_peek_def buf_ok_def split: list.splits)

lemma pool_peek_None: "obus_buffer_pool_peek m n pool = (None, pool') \<Longrightarrow> pool' = pool"
  by (auto simp: obus_buffer_pool_peek_def split: list.splits)

lemma server_ok_pool: "server_ok k srv \<Longrightarrow> (\<And>b. b \<in> set (free_bufs pool) \<Longrightarrow> buf_ok b) \<Longrightarrow> server_ok k (srv\<lparr>sv_pool := pool\<rparr>)"
  by (auto simp: server_ok_def peers_ok_def refs_ok_def holders_def queue_at_def addrs_ok_def peer_count_ok_def connected_peers_def)

lemma new_buffer_ok:
  assumes "server_ok k srv" "\<And>b. b \<in> set (free_bufs pool) \<Longrightarrow> buf_ok b" "buf_ok buf" "brefcnt buf = 1"
  defines "b \<equiv> sv_next srv"
  shows "server_ok (k(b := 1)) (srv\<lparr>sv_next := Suc b, sv_pool := pool, sv_bufs := (sv_bufs srv)(b \<mapsto> buf)\<rparr>)" "holders srv b = 0" "k b = 0" "b \<noteq> 0"
proof -
  have ok: "peers_ok k srv" "addrs_ok srv" "peer_count_ok srv" using assms(1) by (simp_all add: server_ok_def)
  have none: "sv_bufs srv b = None" and b0: "b \<noteq> 0" using ok(2) by (auto simp: addrs_ok_def b_def)
  show "b \<noteq> 0" by (rule b0)
  have "\<not> 0 < k b + holders srv b" using refs_okD(2) [OF ok(1), of b] none by auto
  then show h: "holders srv b = 0" "k b = 0" using refs_okD(1) [OF ok(1), of b] holders_nonneg [of srv b] by linarith+
  have "peers_ok (k(b := 1)) (srv\<lparr>sv_bufs := (sv_bufs srv)(b \<mapsto> buf), sv_pool := pool\<rparr>)"
    by (rule bufs_ok [OF ok(1)]) (use refs_okD [OF ok(1)] h assms(2-4) in \<open>auto split: if_splits\<close>)
  moreover have "srv\<lparr>sv_next := Suc b, sv_pool := pool, sv_bufs := (sv_bufs srv)(b \<mapsto> buf)\<rparr> =
      srv\<lparr>sv_bufs := (sv_bufs srv)(b \<mapsto> buf), sv_pool := pool\<rparr>\<lparr>sv_next := Suc b\<rparr>" by simp
  ultimately have "peers_ok (k(b := 1)) (srv\<lparr>sv_next := Suc b, sv_pool := pool, sv_bufs := (sv_bufs srv)(b \<mapsto> buf)\<rparr>)" by (simp only: peers_ok_bus)
  moreover have "addrs_ok (srv\<lparr>sv_next := Suc b, sv_pool := pool, sv_bufs := (sv_bufs srv)(b \<mapsto> buf)\<rparr>)"
    using ok(2) b0 by (auto simp: addrs_ok_def b_def)
  moreover have "peer_count_ok (srv\<lparr>sv_next := Suc b, sv_pool := pool, sv_bufs := (sv_bufs srv)(b \<mapsto> buf)\<rparr>)" using ok(3) by (simp add: peer_count_ok_def connected_peers_def)
  ultimately show "server_ok (k(b := 1)) (srv\<lparr>sv_next := Suc b, sv_pool := pool, sv_bufs := (sv_bufs srv)(b \<mapsto> buf)\<rparr>)" by (simp add: server_ok_def)
qed

lemma unref_server_ok:
  assumes "server_ok k srv" "0 < k b"
  shows "\<exists>srv'. buf_unref srv b = (Inr (), srv') \<and> server_ok (k(b := k b - 1)) srv' \<and> sv_peers srv' = sv_peers srv \<and> link_of srv' = link_of srv
    \<and> sv_bus srv' = sv_bus srv \<and> n_peers_connected srv' = n_peers_connected srv \<and> sv_next srv' = sv_next srv
    \<and> (\<forall>c. c \<noteq> b \<or> 0 < holders srv b \<longrightarrow> bytes_at srv' c = bytes_at srv c)"
proof -
  have ok: "peers_ok k srv" "addrs_ok srv" "peer_count_ok srv" using assms(1) by (simp_all add: server_ok_def)
  obtain buf where b: "sv_bufs srv b = Some buf" by (rule held_buffer [OF ok(1) assms(2)])
  obtain bufs pool where u: "buf_unref srv b = (Inr (), srv\<lparr>sv_bufs := bufs, sv_pool := pool\<rparr>)"
    "peers_ok (k(b := k b - 1)) (srv\<lparr>sv_bufs := bufs, sv_pool := pool\<rparr>)" "\<And>c. c \<noteq> b \<Longrightarrow> bufs c = sv_bufs srv c"
    "\<And>buf. sv_bufs srv b = Some buf \<Longrightarrow> bufs b = None \<or> bufs b = Some (buf\<lparr>brefcnt := brefcnt buf - 1\<rparr>)" "0 < holders srv b \<Longrightarrow> bufs b \<noteq> None"
    by (rule buf_unref_ok [OF ok(1) assms(2)]) blast
  have "dom bufs \<subseteq> dom (sv_bufs srv)" using u(3) b by (metis domI domIff subsetI)
  then have "addrs_ok (srv\<lparr>sv_bufs := bufs, sv_pool := pool\<rparr>)" using ok(2) by (simp add: addrs_ok_def) (blast intro: subset_trans)
  moreover have "map_option content (bufs c) = map_option content (sv_bufs srv c)" if "c \<noteq> b \<or> 0 < holders srv b" for c
    using that u(3) [of c] u(4) [OF b] u(5) b by (cases "c = b") (auto simp: content_def)
  ultimately show ?thesis using u(1,2) ok(3)
    by (auto simp: server_ok_def peer_count_ok_def connected_peers_def link_of_def bytes_at_def fun_eq_iff)
qed

definition kept :: "obus_server \<Rightarrow> obus_server \<Rightarrow> bool" where
  "kept srv srv' \<longleftrightarrow> sv_peers srv' = sv_peers srv \<and> link_of srv' = link_of srv \<and> n_peers_connected srv' = n_peers_connected srv \<and> sv_bus srv' = sv_bus srv
     \<and> sv_call srv' = sv_call srv \<and> (\<forall>c. c < sv_next srv \<longrightarrow> bytes_at srv' c = bytes_at srv c)"

lemma packet_buffer_ok:
  assumes "server_ok k srv" "tame encode" "sane_memory m" "packet_buffer m encode srv = (r, srv')"
  shows "kept srv srv' \<and> (case r of
      Inl e \<Rightarrow> server_ok k srv' \<and> (e = ENOMEM \<or> (\<exists>b b'. buf_ok b \<and> encode b = (Inl e, b')))
    | Inr b \<Rightarrow> b = sv_next srv \<and> server_ok (k(b := 1)) srv' \<and> holders srv' b = 0 \<and> k b = 0
        \<and> (\<exists>buf buf'. buf_ok buf \<and> encode buf = (Inr (), buf') \<and> bytes_at srv' b = Some (content buf')))"
proof -
  have pool: "b \<in> set (free_bufs (sv_pool srv)) \<Longrightarrow> buf_ok b" for b using assms(1) refs_okD(3) by (auto simp: server_ok_def)
  obtain x pool1 where pk: "obus_buffer_pool_peek m sizeof_buffer (sv_pool srv) = (x, pool1)" by fastforce
  show ?thesis
  proof (cases x)
    case None
    then have "pool1 = sv_pool srv" using pk pool_peek_None by blast
    then show ?thesis using assms(1,4) pk None by (auto simp: packet_buffer_def kept_def)
  next
    case (Some buf)
    note p = pool_peek_ok [OF pool assms(3) pk [unfolded Some]]
    obtain y buf1 where e: "encode buf = (y, buf1)" by fastforce
    have b1: "buf_ok buf1" "brefcnt buf1 = 1" using assms(2) p(1,2) e by (auto simp: tame_def within_buffer_def dest!: spec [of _ buf])
    let ?b = "sv_next srv"
    let ?srv1 = "srv\<lparr>sv_next := Suc ?b, sv_pool := pool1, sv_bufs := (sv_bufs srv)(?b \<mapsto> buf1)\<rparr>"
    have "b \<in> set (free_bufs pool1) \<Longrightarrow> buf_ok b" for b using p(3) pool by blast
    note n = new_buffer_ok [OF assms(1) this b1]
    have k1: "kept srv ?srv1" "holders ?srv1 ?b = holders srv ?b" "bytes_at ?srv1 ?b = Some (content buf1)"
      by (simp_all add: kept_def link_of_def bytes_at_def fun_eq_iff holders_def queue_at_def)
    show ?thesis
    proof (cases y)
      case (Inr u)
      then have "(r, srv') = (Inr ?b, ?srv1)" using assms(4) pk Some e by (simp add: packet_buffer_def Let_def)
      then show ?thesis using n k1 p(1) e Inr by (auto simp del: fun_upd_apply)
    next
      case (Inl err)
      have "0 < (k(?b := 1)) ?b" by simp
      from unref_server_ok [OF n(1) this] obtain srv2 where u: "buf_unref ?srv1 ?b = (Inr (), srv2)" "server_ok ((k(?b := 1))(?b := (k(?b := 1)) ?b - 1)) srv2"
        "sv_peers srv2 = sv_peers ?srv1" "link_of srv2 = link_of ?srv1" "sv_bus srv2 = sv_bus ?srv1" "n_peers_connected srv2 = n_peers_connected ?srv1"
        "\<forall>c. c \<noteq> ?b \<or> 0 < holders ?srv1 ?b \<longrightarrow> bytes_at srv2 c = bytes_at ?srv1 c" by blast
      have "(k(?b := 1))(?b := (k(?b := 1)) ?b - 1) = k" using n(3) by auto
      moreover have "(r, srv') = (Inl err, srv2)" using assms(4) pk Some e Inl u(1) by (simp add: packet_buffer_def Let_def)
      moreover have "sv_call srv2 = sv_call srv" using u(1) by (auto simp: buf_unref_def split: prod.splits)
      ultimately show ?thesis using u k1(1) p(1) e Inl by (auto simp: kept_def)
    qed
  qed
qed

text \<open>The tail that the functions for objects and events share.\<close>

lemma broadcast_ok:
  assumes "server_ok (\<lambda>_. 0) srv" "tame encode" "sane_memory (se_mem E)" "mild (se_user E)" "length (sv_peers srv) < 2 ^ 64"
    "\<forall>p peer. peer_at srv p = Some peer \<longrightarrow> Refuse FAULT \<notin> set (fd_out (pr_io peer))" "broadcast E encode srv = (r, srv')"
  shows "server_ok (\<lambda>_. 0) srv' \<and> (case r of
      Inl e \<Rightarrow> kept srv srv' \<and> (e = ENOMEM \<or> (\<exists>b b'. buf_ok b \<and> encode b = (Inl e, b')))
    | Inr _ \<Rightarrow> connected_peers srv = [] \<and> srv' = srv
        \<or> (\<exists>buf buf'. buf_ok buf \<and> encode buf = (Inr (), buf') \<and> (\<forall>p\<in>set (sv_peers srv). told E (content buf') srv srv' p)))"
proof (cases "n_peers_connected srv = 0")
  case True
  have "length (connected_peers srv) < 2 ^ 64" using assms(5) le_less_trans length_filter_le unfolding connected_peers_def by blast
  then have "connected_peers srv = []" using True assms(1) by (simp add: server_ok_def peer_count_ok_def)
  then show ?thesis using assms(1,7) True by (auto simp: broadcast_def)
next
  case False
  obtain x srv1 where pb: "packet_buffer (se_mem E) encode srv = (x, srv1)" by fastforce
  note ok = packet_buffer_ok [OF assms(1-3) pb]
  show ?thesis
  proof (cases x)
    case (Inl e)
    then show ?thesis using ok assms(7) False pb by (auto simp: broadcast_def)
  next
    case (Inr b)
    let ?k = "(\<lambda>_. 0 :: int)(b := 1)"
    obtain buf buf' where k1: "kept srv srv1" "b = sv_next srv" "server_ok ?k srv1" "holders srv1 b = 0"
      "buf_ok buf" "encode buf = (Inr (), buf')" "bytes_at srv1 b = Some (content buf')" using ok Inr by auto
    have l1: "link_of srv1 p = link_of srv p" "sv_peers srv1 = sv_peers srv" for p using k1(1) by (simp_all add: kept_def)
    have pk: "peers_ok ?k srv1" "peers_ok (\<lambda>_. 0) srv" "addrs_ok srv" using k1(3) assms(1) by (simp_all add: server_ok_def)
    have "\<exists>peer. peer_at srv1 p = Some peer \<and> b \<notin> set (write_buffers (pr_io peer)) \<and> Refuse FAULT \<notin> set (fd_out (pr_io peer))" if p: "p \<in> set (sv_peers srv1)" for p
    proof -
      obtain peer where s: "peer_at srv p = Some peer" using pk(2) p l1(2) by (auto simp: peers_ok_def)
      then obtain peer1 where "peer_at srv1 p = Some peer1" "pr_io peer1 = pr_io peer" using link_of_eq(1) [OF l1(1)] by blast
      then show ?thesis using holders_pos [OF p, of b] k1(4) assms(6) s by (auto simp: queue_at_def)
    qed
    then obtain srv2 where s2: "obus_server_send_peers E srv1 b = (Inr (), srv2)" "server_ok ?k srv2" "bytes_at srv2 = bytes_at srv1"
      "\<forall>p\<in>set (sv_peers srv1). told E (content buf') srv1 srv2 p"
      using over_peers_ok [OF k1(3), of b "sv_peers srv1" E "content buf'"] assms(4) k1(7) pk(1) by (auto simp: obus_server_send_peers_def peers_ok_def)
    from unref_server_ok [OF s2(2), of b] obtain srv3 where s3: "buf_unref srv2 b = (Inr (), srv3)" "server_ok (?k(b := ?k b - 1)) srv3"
      "sv_peers srv3 = sv_peers srv2" "link_of srv3 = link_of srv2" "\<forall>c. c \<noteq> b \<or> 0 < holders srv2 b \<longrightarrow> bytes_at srv3 c = bytes_at srv2 c" by auto
    have fin: "server_ok (\<lambda>_. 0) srv3" using s3(2) by (simp add: fun_upd_idem)
    have "told E (content buf') srv srv3 p" if p: "p \<in> set (sv_peers srv)" for p
    proof (rule told_before [of _ _ srv1])
      show "link_of srv1 p = link_of srv p" by (rule l1)
      fix c
      assume "c \<in> set (queue_at srv p)"
      then have "sv_bufs srv c \<noteq> None" using refs_okD(2) [OF pk(2), of c] holders_pos [OF p, of c] by auto
      then have "c < sv_next srv" using pk(3) by (auto simp: addrs_ok_def)
      then show "bytes_at srv1 c = bytes_at srv c" using k1(1) by (simp add: kept_def)
    next
      have "bytes_at srv3 c = bytes_at srv2 c" if "c \<in> set (queue_at srv2 p)" for c
      proof (cases "p \<in> set (sv_peers srv2)")
        case True
        then show ?thesis using s3(5) holders_pos [OF True, of b] that by (cases "c = b") auto
      next
        case False
        then have "queue_at srv2 p = []" using s2(2) by (auto simp: server_ok_def peers_ok_def queue_at_def split: option.split)
        then show ?thesis using that by simp
      qed
      then show "told E (content buf') srv1 srv3 p" using told_after [of E "content buf'" srv1 srv2 p srv3] s2(4) s3(4) fin p l1(2) by simp
    qed
    moreover have "(r, srv') = (Inr (), srv3)" using assms(7) False pb Inr s2(1) s3(1) by (simp add: broadcast_def)
    ultimately show ?thesis using fin k1(5,6) by auto
  qed
qed

end
