(* ===== verification/Obus_Serve.thy ===== *)
theory Obus_Serve
  imports Obus_Peers
begin

text \<open>
  The objects, events and calls of a server: \<open>obus_server.c\<close>. The theory shows what registering an object, sending a
  bus event and handling a call do to the bus and to the peers, also when they fail.
\<close>

section \<open>What all steps have in common\<close>

text \<open>The callbacks for peers do not work on the bus.\<close>

definition quiet :: "server_user \<Rightarrow> bool" where
  "quiet u \<longleftrightarrow> (\<forall>event p srv. sv_bus (u_peer u event p srv) = sv_bus srv \<and> sv_call (u_peer u event p srv) = sv_call srv)"

lemma unref_all_out: "fd_out (snd (unref_all ps io)) = fd_out io"
proof (induction ps arbitrary: io)
  case (Cons p ps)
  have "fd_out (snd (io_unref io p)) = fd_out io" by (auto simp: io_unref_def split: option.split prod.split)
  then show ?case unfolding unref_all.simps by (intro chk_snd_inv [where P = "\<lambda>io'. fd_out io' = fd_out io"]) (use Cons.IH in auto)
qed simp

lemma io_destroy_out: "fd_out (snd (obus_io_destroy io)) = fd_out io"
  using unref_all_out [of "write_buffers io" "io\<lparr>read_watched := False, write_watched := False\<rparr>"]
  by (auto simp: obus_io_destroy_def intro: chk_snd_inv)

lemma io_write_out: "set (fd_out (snd (obus_io_write m io b))) \<subseteq> set (fd_out io)"
proof -
  have "set (fd_out io') \<subseteq> set (fd_out io)" if "obus_io_write_buffer io buf n = (r, j, io')" for buf n r j io'
    using that write_loop_spec [of "fd_out io" "drop n (take (blength buf) (bdata buf))" 0]
    by (fastforce simp: obus_io_write_buffer_def Let_def split: if_splits prod.splits)
  moreover have "fd_out (snd (obus_io_buffer_new m io b)) = fd_out io" for io by (auto simp: obus_io_buffer_new_def io_ref_def split: option.split)
  note w = calculation this
  have queue: "set (fd_out (snd (chk (obus_io_buffer_new m io1 b) (\<lambda>_ io. (Inl EAGAIN :: unit res, f io))))) \<subseteq> set (fd_out io)"
    if "set (fd_out io1) \<subseteq> set (fd_out io)" "\<And>io. fd_out (f io) = fd_out io" for io1 and f :: "obus_io \<Rightarrow> obus_io"
    by (rule chk_snd_inv [where P = "\<lambda>io'. set (fd_out io') \<subseteq> set (fd_out io)"]) (use that w(2) [of io1] in auto)
  show ?thesis
  proof (cases "io_bufs io b")
    case (Some buf)
    obtain r n io1 where wb: "obus_io_write_buffer io buf 0 = (r, n, io1)" using prod_cases3 by blast
    note q = queue [of io "\<lambda>io. io\<lparr>write_buffers := write_buffers io @ [b]\<rparr>", OF subset_refl]
      queue [of io1 "\<lambda>io. io\<lparr>write_watched := watchable io, write_timer := write_ready_timeout io, write_buffers := write_buffers io @ [b], nbr_written := n\<rparr>", OF w(1) [OF wb]]
    show ?thesis using q w(1) [OF wb] wb Some by (simp add: obus_io_write_def)
  qed (use queue [of io "\<lambda>io. io\<lparr>write_buffers := write_buffers io @ [b]\<rparr>"] in \<open>simp add: obus_io_write_def\<close>)
qed

text \<open>
  A relation between the states before and after that every small step establishes holds for the functions that are made of
  them.
\<close>

locale server_relation =
  fixes E :: server_env and rel :: "obus_server \<Rightarrow> obus_server \<Rightarrow> bool"
  assumes rel_refl: "rel srv srv"
    and rel_trans: "rel srv srv' \<Longrightarrow> rel srv' srv'' \<Longrightarrow> rel srv srv''"
    and rel_bufs: "rel srv (srv\<lparr>sv_next := a, sv_pool := pool, sv_bufs := bufs\<rparr>)"
    and rel_io: "peer_at srv p = Some peer \<Longrightarrow> set (fd_out io) \<subseteq> set (fd_out (pr_io peer)) \<Longrightarrow> rel srv (put_io srv p peer io)"
    and rel_unlink: "rel srv (srv\<lparr>sv_peers := remove1 p (sv_peers srv)\<rparr>)"
    and rel_forget: "rel srv (srv\<lparr>peer_at := (peer_at srv)(p := None)\<rparr>)"
    and rel_peer: "peer_at srv p = Some peer \<Longrightarrow> pr_io peer' = pr_io peer \<Longrightarrow> rel srv ((set_peer p peer' srv)\<lparr>n_peers_connected := n\<rparr>)"
    and rel_notify: "rel srv (obus_peer_notify_user E srv p event)"
begin

lemma rel_chk: "rel srv (snd x) \<Longrightarrow> (\<And>v srv'. x = (Inr v, srv') \<Longrightarrow> rel srv' (snd (k v srv'))) \<Longrightarrow> rel srv (snd (chk x k))"
  by (cases x k rule: chk_cases) (auto intro: rel_trans)

lemma rel_pool: "rel srv (srv\<lparr>sv_bufs := bufs, sv_pool := pool\<rparr>)" "rel srv (srv\<lparr>sv_pool := pool\<rparr>)"
proof -
  have "srv\<lparr>sv_bufs := bufs, sv_pool := pool\<rparr> = srv\<lparr>sv_next := sv_next srv, sv_pool := pool, sv_bufs := bufs\<rparr>" by (cases srv) simp
  then show "rel srv (srv\<lparr>sv_bufs := bufs, sv_pool := pool\<rparr>)" using rel_bufs by (simp only:)
  show "rel srv (srv\<lparr>sv_pool := pool\<rparr>)" using rel_bufs [where srv = srv and a = "sv_next srv" and pool = pool and bufs = "sv_bufs srv"] by simp
qed

lemma rel_set: "peer_at srv p = Some peer \<Longrightarrow> pr_io peer' = pr_io peer \<Longrightarrow> rel srv (set_peer p peer' srv)"
  using rel_peer [of srv p peer peer' "n_peers_connected srv"] by (simp add: set_peer_def)

lemma rel_refs: "rel srv (snd (buf_ref srv b))" "rel srv (snd (buf_unref srv b))"
  by (auto simp: buf_ref_def buf_unref_def rel_pool split: prod.split)

lemma rel_write: "rel srv (snd (peer_write m srv p b))"
  using io_write_out [of m "peer_io srv _" b] rel_refl by (fastforce simp: peer_write_def peer_io_def split: option.split prod.split intro!: rel_io)

lemma rel_free: "rel srv (snd (free_peer srv p))"
proof (cases "peer_at srv p")
  case (Some peer)
  let ?srv = "srv\<lparr>sv_peers := remove1 p (sv_peers srv)\<rparr>"
  obtain r io where io: "obus_io_destroy (peer_io ?srv peer) = (r, io)" by fastforce
  have "fd_out io = fd_out (pr_io peer)" using io_destroy_out [of "peer_io ?srv peer"] io by (simp add: peer_io_def)
  then have put: "rel srv (put_io ?srv p peer io)" using rel_trans [OF rel_unlink rel_io [of ?srv p peer io]] Some by simp
  have gone: "rel srv (?srv\<lparr>peer_at := (peer_at srv)(p := None), sv_bufs := io_bufs io, sv_pool := pool\<rparr>)" for pool
    using rel_trans [OF rel_trans [OF rel_unlink rel_forget [of ?srv p]] rel_pool(1)] by simp
  show ?thesis using io put gone Some by (auto simp: free_peer_def Let_def rel_refl split: sum.split option.split prod.split)
qed (simp add: free_peer_def rel_refl)

lemma rel_destroy: "rel srv (snd (obus_peer_destroy E srv p))"
proof (cases "peer_at srv p")
  case (Some peer)
  then show ?thesis using rel_trans [OF rel_trans [OF rel_peer rel_notify] rel_free] rel_free by (simp add: obus_peer_destroy_def)
qed (simp add: obus_peer_destroy_def rel_refl)

lemma rel_packet: "rel srv (snd (packet_buffer m encode srv))"
proof -
  have drop: "rel srv srv'" if "buf_unref (srv\<lparr>sv_next := a, sv_pool := pool, sv_bufs := bufs\<rparr>) b = (r, srv')" for a pool bufs b r srv'
    using rel_trans [OF rel_bufs rel_refs(2)] that by (metis snd_conv)
  then show ?thesis using rel_pool(2) rel_bufs by (auto simp: packet_buffer_def Let_def split: option.split prod.split sum.split)
qed

lemma rel_send: "rel srv (snd (peer_send m srv p b))"
proof -
  obtain r srv1 where w: "peer_write m srv p b = (r, srv1)" by fastforce
  then have r: "rel srv srv1" using rel_write [of srv m p b] by simp
  then show ?thesis using w rel_trans [OF r rel_refs(2) [of srv1 b]] by (auto simp: peer_send_def split: prod.split)
qed

lemma rel_send_peer: "rel srv (snd (send_peer E b srv p))"
proof -
  obtain r srv1 where w: "peer_write (se_mem E) srv p b = (r, srv1)" by fastforce
  then have "rel srv srv1" using rel_write [of srv "se_mem E" p b] by simp
  then show ?thesis using w rel_trans [OF _ rel_refs(1)] rel_trans [OF _ rel_destroy] rel_refl by (auto simp: send_peer_def split: option.split)
qed

lemma rel_over: "(\<And>srv p. rel srv (snd (f srv p))) \<Longrightarrow> rel srv (snd (over_peers f srv ps))"
proof (induction ps arbitrary: srv)
  case (Cons p ps)
  show ?case unfolding over_peers.simps by (rule rel_chk) (rule Cons.prems, rule Cons.IH, rule Cons.prems)
qed (simp add: rel_refl)

lemma rel_broadcast: "rel srv (snd (broadcast E encode srv))"
  by (auto simp: broadcast_def obus_server_send_peers_def rel_refl intro!: rel_chk rel_packet rel_over rel_send_peer rel_refs)

lemma rel_respond: "rel srv (snd (obus_peer_send_connection_response E srv p status))"
proof -
  let ?enc = "\<lambda>buf. obus_packet_conresp_encode (se_mem E) (sv_bus srv) buf status (if status = OBUS_CONRESP_ACCEPTED then Some (bobjects (sv_bus srv)) else None)"
  obtain x srv1 where pb: "packet_buffer (se_mem E) ?enc srv = (x, srv1)" by fastforce
  then have "rel srv srv1" using rel_packet [of srv "se_mem E" ?enc] by simp
  then show ?thesis using pb rel_trans [OF _ rel_send] by (auto simp: obus_peer_send_connection_response_def Let_def split: sum.split)
qed

lemma rel_ask: "peer_at srv p = Some peer \<Longrightarrow> pr_io peer' = pr_io peer \<Longrightarrow> rel srv (snd (ask_user E srv p peer' status))"
  using rel_trans [OF rel_set rel_notify] rel_set by (auto simp: ask_user_def Let_def split: option.split)

lemma rel_conreq: "rel srv (snd (obus_peer_connection_request E srv p pkt))"
proof -
  have settled: "rel srv1 (snd (case obus_peer_send_connection_response E srv1 p status of
             (Inl e, srv) \<Rightarrow> (if e = FAULT then (Inl FAULT, srv) else chk (obus_peer_destroy E srv p) (\<lambda>_ srv. (Inr False, srv)))
           | (Inr _, srv) \<Rightarrow>
               (case peer_at srv p of None \<Rightarrow> (Inl FAULT, srv) | Some peer \<Rightarrow>
                  (Inr True,
                   if status = OBUS_CONRESP_ACCEPTED
                   then obus_peer_notify_user E
                          ((set_peer p (peer\<lparr>pr_state := PEER_STATE_CONNECTED\<rparr>) srv)\<lparr>n_peers_connected := sz (n_peers_connected srv + 1)\<rparr>)
                          p OBUS_PEER_EVENT_CONNECTED
                   else set_peer p (peer\<lparr>pr_state := PEER_STATE_REFUSED\<rparr>) srv))))" for srv1 status
  proof -
    obtain r srv2 where re: "obus_peer_send_connection_response E srv1 p status = (r, srv2)" by fastforce
    then have "rel srv1 srv2" using rel_respond [of srv1 p status] by simp
    moreover have "rel srv2 (snd (chk (obus_peer_destroy E srv2 p) (\<lambda>_ srv. (Inr False, srv))))" by (rule rel_chk) (simp_all add: rel_destroy rel_refl)
    moreover have "rel srv2 (obus_peer_notify_user E ((set_peer p (peer\<lparr>pr_state := PEER_STATE_CONNECTED\<rparr>) srv2)\<lparr>n_peers_connected := n\<rparr>) p OBUS_PEER_EVENT_CONNECTED)"
      "rel srv2 (set_peer p (peer\<lparr>pr_state := PEER_STATE_REFUSED\<rparr>) srv2)" if "peer_at srv2 p = Some peer" for peer n
      using rel_trans [OF rel_peer [OF that] rel_notify] rel_set [OF that] by simp_all
    ultimately show ?thesis using re rel_trans [of srv1 srv2] by (auto split: sum.split option.split)
  qed
  show ?thesis unfolding obus_peer_connection_request_def Let_def
    by (auto simp: rel_refl split: option.split sum.split intro!: rel_chk rel_ask settled)
qed

end

text \<open>Neither the bus nor the current call is touched.\<close>

definition same_bus :: "obus_server \<Rightarrow> obus_server \<Rightarrow> bool" where
  "same_bus srv srv' \<longleftrightarrow> sv_bus srv' = sv_bus srv \<and> sv_call srv' = sv_call srv"

interpretation sb: server_relation E "\<lambda>srv srv'. quiet (se_user E) \<longrightarrow> same_bus srv srv'" for E
  by unfold_locales (auto simp: same_bus_def put_io_def set_peer_def obus_peer_notify_user_def quiet_def)

text \<open>There are no more peers than before, and their descriptors do nothing that they would not have done before.\<close>

definition no_more :: "obus_server \<Rightarrow> obus_server \<Rightarrow> bool" where
  "no_more srv srv' \<longleftrightarrow> length (sv_peers srv') \<le> length (sv_peers srv)
     \<and> (\<forall>p peer'. peer_at srv' p = Some peer' \<longrightarrow> (\<exists>peer. peer_at srv p = Some peer \<and> set (fd_out (pr_io peer')) \<subseteq> set (fd_out (pr_io peer))))"

lemma links_no_more: "same_links srv srv' \<Longrightarrow> no_more srv srv'"
proof -
  assume l: "same_links srv srv'"
  have "\<exists>peer. peer_at srv p = Some peer \<and> set (fd_out (pr_io peer')) \<subseteq> set (fd_out (pr_io peer))" if "peer_at srv' p = Some peer'" for p peer'
    using link_of_eq(1) [of srv p srv' peer'] that l by (force simp: same_links_def)
  then show ?thesis using l by (auto simp: no_more_def same_links_def)
qed

interpretation nm: server_relation E "\<lambda>srv srv'. mild (se_user E) \<longrightarrow> no_more srv srv'" for E
proof unfold_locales
  fix srv srv' srv'' p event
  show "mild (se_user E) \<longrightarrow> no_more srv srv'" if "mild (se_user E) \<longrightarrow> no_more srv srv''" "mild (se_user E) \<longrightarrow> no_more srv'' srv'"
    using that unfolding no_more_def by (meson order_trans)
  show "mild (se_user E) \<longrightarrow> no_more srv (obus_peer_notify_user E srv p event)" using notify_links links_no_more by blast
qed (auto simp: no_more_def put_io_def set_peer_def length_remove1 split: if_splits)

lemma same_bus_steps: "same_bus srv (snd (buf_unref srv b))" "same_bus srv (snd (packet_buffer m encode srv))"
  by (auto simp: same_bus_def buf_unref_def packet_buffer_def Let_def split: option.split prod.split sum.split)

section \<open>Telling the peers\<close>

text \<open>
  A server at work: its peers are in order, the callbacks for peers leave the connections and the bus alone, and the
  descriptors fail with the errors of the system only.
\<close>

definition serving :: "server_env \<Rightarrow> obus_server \<Rightarrow> bool" where
  "serving E srv \<longleftrightarrow> server_ok (\<lambda>_. 0) srv \<and> sane_memory (se_mem E) \<and> mild (se_user E) \<and> quiet (se_user E) \<and> length (sv_peers srv) < 2 ^ 64
     \<and> (\<forall>p peer. peer_at srv p = Some peer \<longrightarrow> Refuse FAULT \<notin> set (fd_out (pr_io peer)))"

lemma server_ok_bus [simp]: "server_ok k (srv\<lparr>sv_bus := s\<rparr>) = server_ok k srv" "server_ok k (srv\<lparr>sv_call := q\<rparr>) = server_ok k srv"
  by (simp_all add: server_ok_def addrs_ok_def peer_count_ok_def connected_peers_def)

lemma serving_bus [simp]: "serving E (srv\<lparr>sv_bus := s\<rparr>) = serving E srv" "serving E (srv\<lparr>sv_call := q\<rparr>) = serving E srv"
  by (simp_all add: serving_def)

lemma told_bus [simp]: "told E bs (srv\<lparr>sv_bus := s\<rparr>) srv' p = told E bs srv srv' p" "sent_to (srv\<lparr>sv_bus := s\<rparr>) p = sent_to srv p"
  "told E bs srv (srv'\<lparr>sv_bus := s\<rparr>) p = told E bs srv srv' p" "connected_peers (srv\<lparr>sv_bus := s\<rparr>) = connected_peers srv" "link_of (srv\<lparr>sv_bus := s\<rparr>) = link_of srv"
  by (simp_all add: told_def sent_to_def link_of_def peer_io_def connected_peers_def fun_eq_iff split: option.split)

text \<open>The bytes for a peer when nothing was sent.\<close>

lemma kept_sent:
  assumes "server_ok k srv" "kept srv srv'"
  shows "sent_to srv' p = sent_to srv p"
proof (rule sent_to_same)
  show "link_of srv' p = link_of srv p" using assms(2) by (simp add: kept_def)
  fix c
  assume c: "c \<in> set (queue_at srv p)"
  then have "p \<in> set (sv_peers srv)" using assms(1) by (auto simp: queue_at_def server_ok_def peers_ok_def split: option.splits)
  then have "sv_bufs srv c \<noteq> None" using c refs_okD(2) [of k srv c] holders_pos [of p srv c] refs_okD(1) [of k srv c] assms(1) by (force simp: server_ok_def)
  then have "c < sv_next srv" using assms(1) by (auto simp: server_ok_def addrs_ok_def)
  then show "bytes_at srv' c = bytes_at srv c" using assms(2) by (simp add: kept_def)
qed

text \<open>Every peer gets the packet that the encoder makes of the bus, if there is a connected one.\<close>

definition all_told :: "server_env \<Rightarrow> (obus_buffer \<Rightarrow> unit res \<times> obus_buffer) \<Rightarrow> obus_server \<Rightarrow> obus_server \<Rightarrow> bool" where
  "all_told E encode srv srv' \<longleftrightarrow> connected_peers srv = [] \<and> link_of srv' = link_of srv
     \<or> (\<exists>buf buf'. buf_ok buf \<and> encode buf = (Inr (), buf') \<and> (\<forall>p\<in>set (sv_peers srv). told E (content buf') srv srv' p))"

definition none_told :: "obus_server \<Rightarrow> obus_server \<Rightarrow> bool" where
  "none_told srv srv' \<longleftrightarrow> link_of srv' = link_of srv \<and> (\<forall>p. sent_to srv' p = sent_to srv p)"

lemma announce:
  assumes "serving E srv" "tame encode" "broadcast E encode (srv\<lparr>sv_bus := s\<rparr>) = (r, srv')"
  shows "server_ok (\<lambda>_. 0) srv'" "sv_bus srv' = s" "r = Inr () \<Longrightarrow> all_told E encode srv srv'" "r \<noteq> Inr () \<Longrightarrow> none_told srv srv'"
    "r = Inl e \<Longrightarrow> e = ENOMEM \<or> (\<exists>b b'. encode b = (Inl e, b'))"
proof -
  let ?srv = "srv\<lparr>sv_bus := s\<rparr>"
  have sv: "serving E ?srv" using assms(1) by simp
  then have "server_ok (\<lambda>_. 0) ?srv" "sane_memory (se_mem E)" "mild (se_user E)" "length (sv_peers ?srv) < 2 ^ 64"
    "\<forall>p peer. peer_at ?srv p = Some peer \<longrightarrow> Refuse FAULT \<notin> set (fd_out (pr_io peer))" unfolding serving_def by blast+
  note b = broadcast_ok [OF this(1) assms(2) this(2-5) assms(3)]
  show "server_ok (\<lambda>_. 0) srv'" using b by simp
  show "sv_bus srv' = s" using sb.rel_broadcast [of E ?srv encode] assms(3) sv by (simp add: same_bus_def serving_def)
  show "all_told E encode srv srv'" if "r = Inr ()" using b that by (auto simp: all_told_def)
  show "none_told srv srv'" if "r \<noteq> Inr ()"
  proof -
    obtain e where "r = Inl e" using \<open>r \<noteq> Inr ()\<close> by (cases r) auto
    then have k: "kept ?srv srv'" using b by simp
    then show ?thesis using kept_sent [of "\<lambda>_. 0" ?srv srv'] sv by (simp add: none_told_def kept_def serving_def)
  qed
  show "e = ENOMEM \<or> (\<exists>b b'. encode b = (Inl e, b'))" if "r = Inl e" using b that by auto
qed

text \<open>
  C8. Registering an object tells every connected peer. A new object of the bus is registered; each connected peer gets the
  packet of the object behind everything that was sent to it before, at once or queued, unless its descriptor fails, which ends its connection;
  the others get nothing. When there is no memory for the packet or it cannot be encoded the function fails, and nobody is told, but
  the object stays registered.
\<close>

theorem register_object_spec:
  assumes "serving E srv" "objs (sv_bus srv) p = Some obj" "\<not> o_registered obj" "p \<notin> set (bobjects (sv_bus srv))" "p \<noteq> 0"
    "obus_server_register_object E srv p = (r, srv')"
  shows "server_ok (\<lambda>_. 0) srv'
    \<and> sv_bus srv' = (sv_bus srv)\<lparr>objs := (objs (sv_bus srv))(p \<mapsto> obj\<lparr>o_registered := True\<rparr>), bobjects := bobjects (sv_bus srv) @ [p]\<rparr>
    \<and> (if r = Inr () then all_told E (\<lambda>buf. obus_packet_add_encode (se_mem E) (sv_bus srv') buf p) srv srv' else none_told srv srv')"
proof -
  let ?s = "(sv_bus srv)\<lparr>objs := (objs (sv_bus srv))(p \<mapsto> obj\<lparr>o_registered := True\<rparr>), bobjects := bobjects (sv_bus srv) @ [p]\<rparr>"
  let ?enc = "\<lambda>buf. obus_packet_add_encode (se_mem E) ?s buf p"
  have "server_bus (\<lambda>s. obus_bus_register_object s p) srv = (Inr (), srv\<lparr>sv_bus := ?s\<rparr>)"
    using assms(2,4) by (simp add: server_bus_def obus_bus_register_object_def link_def Let_def)
  then have b: "broadcast E ?enc (srv\<lparr>sv_bus := ?s\<rparr>) = (r, srv')"
    using assms(2,3,5,6) by (simp add: obus_server_register_object_def registered_at_def obus_object_is_registered_def)
  have "tame ?enc" using assms(1) by (intro tame_packets) (simp add: serving_def)
  from announce [OF assms(1) this b] show ?thesis by simp
qed

section \<open>Bus events\<close>

text \<open>The objects with a registration, and the events without the fields they may not have.\<close>

definition with_registration :: "bool \<Rightarrow> addr list \<Rightarrow> (addr \<rightharpoonup> obus_object) \<Rightarrow> addr \<rightharpoonup> obus_object" where
  "with_registration reg ps os q = (if q \<in> set ps then map_option (\<lambda>obj. obj\<lparr>o_registered := reg\<rparr>) (os q) else os q)"

definition sanitized :: "addr list \<Rightarrow> (addr \<rightharpoonup> obus_event) \<Rightarrow> addr \<rightharpoonup> obus_event" where
  "sanitized vs es v = (if v \<in> set vs then map_option (\<lambda>ev. snd (obus_event_sanitize ev True)) (es v) else es v)"

lemma nobody_changed [simp]: "with_registration reg [] os = os" "sanitized [] es = es"
  by (simp_all add: with_registration_def sanitized_def fun_eq_iff)

lemma registered_atI: "q \<noteq> 0 \<Longrightarrow> objs s q = Some obj \<Longrightarrow> o_registered obj = reg \<Longrightarrow> registered_at s q = Inr reg"
  by (simp add: registered_at_def obus_object_is_registered_def)

lemma registered_at_evts [simp]: "registered_at (s\<lparr>evts := es\<rparr>) q = registered_at s q"
  by (simp add: registered_at_def)

lemma walk_check:
  assumes "\<forall>p\<in>set ps. registered_at s p = Inr reg"
  shows "walk (check_object reg) s ps = (Inr (), s)"
  using assms by (induction ps) (auto simp: check_object_def)

lemma walk_check_event:
  assumes "distinct vs" "\<forall>v\<in>set vs. \<exists>ev. evts s v = Some ev \<and> registered_at s (e_obj ev) = Inr True"
  shows "walk check_event s vs = (Inr (), s\<lparr>evts := sanitized vs (evts s)\<rparr>)"
  using assms
proof (induction vs arbitrary: s)
  case (Cons v vs)
  let ?s = "obus_server_sanitize_event s v"
  have "check_event s v = (Inr (), ?s)" using Cons.prems(2) by (auto simp: check_event_def)
  moreover have "walk check_event ?s vs = (Inr (), ?s\<lparr>evts := sanitized vs (evts ?s)\<rparr>)"
  proof (rule Cons.IH)
    show "\<forall>w\<in>set vs. \<exists>ev. evts ?s w = Some ev \<and> registered_at ?s (e_obj ev) = Inr True"
      using Cons.prems by (auto simp: obus_server_sanitize_event_def)
  qed (use Cons.prems(1) in simp)
  moreover have "sanitized vs (evts ?s) = sanitized (v # vs) (evts s)" using Cons.prems(1)
    by (auto simp: sanitized_def fun_eq_iff obus_server_sanitize_event_def)
  ultimately show ?case by (simp add: obus_server_sanitize_event_def)
qed simp

lemma walk_register:
  assumes "distinct (bobjects s @ ps)" "\<forall>p\<in>set ps. objs s p \<noteq> None"
  shows "walk obus_bus_register_object s ps = (Inr (), s\<lparr>objs := with_registration True ps (objs s), bobjects := bobjects s @ ps\<rparr>)"
  using assms
proof (induction ps arbitrary: s)
  case (Cons p ps)
  obtain obj where o: "objs s p = Some obj" using Cons.prems(2) by auto
  let ?s = "s\<lparr>objs := (objs s)(p \<mapsto> obj\<lparr>o_registered := True\<rparr>), bobjects := bobjects s @ [p]\<rparr>"
  have "obus_bus_register_object s p = (Inr (), ?s)" using o Cons.prems(1) by (simp add: obus_bus_register_object_def link_def Let_def)
  moreover have "walk obus_bus_register_object ?s ps = (Inr (), ?s\<lparr>objs := with_registration True ps (objs ?s), bobjects := bobjects ?s @ ps\<rparr>)"
    by (rule Cons.IH) (use Cons.prems in auto)
  moreover have "with_registration True ps (objs ?s) = with_registration True (p # ps) (objs s)" using o Cons.prems(1)
    by (auto simp: with_registration_def fun_eq_iff)
  ultimately show ?case by simp
qed simp

lemma walk_unregister:
  assumes "distinct (bobjects s)" "distinct ps" "set ps \<subseteq> set (bobjects s)" "\<forall>p\<in>set ps. objs s p \<noteq> None"
  shows "walk (\<lambda>s p. no_fault (obus_bus_unregister_object s p)) s ps =
    (Inr (), s\<lparr>objs := with_registration False ps (objs s), bobjects := filter (\<lambda>q. q \<notin> set ps) (bobjects s)\<rparr>)"
  using assms
proof (induction ps arbitrary: s)
  case (Cons p ps)
  obtain obj where o: "objs s p = Some obj" using Cons.prems(4) by auto
  let ?s = "s\<lparr>objs := (objs s)(p \<mapsto> obj\<lparr>o_registered := False\<rparr>), bobjects := remove1 p (bobjects s)\<rparr>"
  have "no_fault (obus_bus_unregister_object s p) = (Inr (), ?s)"
    using o Cons.prems(3) by (simp add: obus_bus_unregister_object_def unlink_def Let_def no_fault_def)
  moreover have "walk (\<lambda>s p. no_fault (obus_bus_unregister_object s p)) ?s ps =
      (Inr (), ?s\<lparr>objs := with_registration False ps (objs ?s), bobjects := filter (\<lambda>q. q \<notin> set ps) (bobjects ?s)\<rparr>)"
    by (rule Cons.IH) (use Cons.prems in auto)
  moreover have "with_registration False ps (objs ?s) = with_registration False (p # ps) (objs s)" using o Cons.prems(2)
    by (auto simp: with_registration_def fun_eq_iff)
  moreover have "filter (\<lambda>q. q \<notin> set ps) (remove1 p (bobjects s)) = filter (\<lambda>q. q \<notin> set (p # ps)) (bobjects s)"
    using Cons.prems(1) by (auto simp: distinct_remove1_removeAll removeAll_filter_not_eq intro!: filter_cong)
  ultimately show ?case by simp
qed simp

text \<open>A bus event that passes the checks.\<close>

definition sound_event :: "bus_state \<Rightarrow> obus_bus_event \<Rightarrow> bool" where
  "sound_event s event \<longleftrightarrow> distinct (bobjects s @ add_objs event) \<and> distinct (remove_objs event) \<and> set (remove_objs event) \<subseteq> set (bobjects s)
     \<and> (\<forall>q\<in>set (add_objs event). q \<noteq> 0 \<and> (\<exists>obj. objs s q = Some obj \<and> \<not> o_registered obj))
     \<and> (\<forall>q\<in>set (remove_objs event). q \<noteq> 0 \<and> (\<exists>obj. objs s q = Some obj \<and> o_registered obj))
     \<and> distinct (obj_events event)
     \<and> (\<forall>v\<in>set (obj_events event). \<exists>ev obj. evts s v = Some ev \<and> e_obj ev \<noteq> 0 \<and> objs s (e_obj ev) = Some obj \<and> o_registered obj)"

lemma soundD:
  assumes "sound_event s event"
  shows "q \<in> set (add_objs event) \<Longrightarrow> registered_at s q = Inr False" "q \<in> set (remove_objs event) \<Longrightarrow> registered_at s q = Inr True"
    "v \<in> set (obj_events event) \<Longrightarrow> \<exists>ev. evts s v = Some ev \<and> registered_at s (e_obj ev) = Inr True"
proof -
  note so = assms [unfolded sound_event_def]
  show "registered_at s q = Inr False" if "q \<in> set (add_objs event)"
  proof -
    obtain obj where "q \<noteq> 0" "objs s q = Some obj" "\<not> o_registered obj" using so \<open>q \<in> _\<close> by blast
    then show ?thesis using registered_atI by simp
  qed
  show "registered_at s q = Inr True" if "q \<in> set (remove_objs event)"
  proof -
    obtain obj where "q \<noteq> 0" "objs s q = Some obj" "o_registered obj" using so \<open>q \<in> _\<close> by blast
    then show ?thesis using registered_atI by simp
  qed
  show "\<exists>ev. evts s v = Some ev \<and> registered_at s (e_obj ev) = Inr True" if "v \<in> set (obj_events event)"
  proof -
    obtain ev obj where "evts s v = Some ev" "e_obj ev \<noteq> 0" "objs s (e_obj ev) = Some obj" "o_registered obj" using so \<open>v \<in> _\<close> by blast
    then show ?thesis using registered_atI by simp
  qed
qed

lemma check_sound:
  assumes "sound_event s event"
  shows "obus_server_check_bus_event event s = (Inr (), s\<lparr>evts := sanitized (obj_events event) (evts s)\<rparr>)"
proof -
  have "walk (check_object False) s (add_objs event) = (Inr (), s)" "walk (check_object True) s (remove_objs event) = (Inr (), s)"
    by (rule walk_check; use soundD [OF assms] in blast)+
  moreover have "walk check_event s (obj_events event) = (Inr (), s\<lparr>evts := sanitized (obj_events event) (evts s)\<rparr>)"
    by (rule walk_check_event) (use soundD(3) [OF assms] assms in \<open>simp_all add: sound_event_def\<close>)
  ultimately show ?thesis by (simp add: obus_server_check_bus_event_def)
qed

text \<open>Registering and taking back leaves the objects as they were.\<close>

lemma undo_register:
  assumes "sound_event s event"
  shows "obus_server_register_objects event s =
      (Inr (), s\<lparr>objs := with_registration True (add_objs event) (objs s), bobjects := bobjects s @ add_objs event\<rparr>)"
    "obus_server_undo_register_objects event (s\<lparr>objs := with_registration True (add_objs event) (objs s), bobjects := bobjects s @ add_objs event\<rparr>) = (Inr (), s)"
proof -
  note so = assms [unfolded sound_event_def]
  have some: "\<forall>p\<in>set (add_objs event). objs s p \<noteq> None" using so by fastforce
  show "obus_server_register_objects event s = (Inr (), s\<lparr>objs := with_registration True (add_objs event) (objs s), bobjects := bobjects s @ add_objs event\<rparr>)"
    unfolding obus_server_register_objects_def by (rule walk_register) (use so some in auto)
  let ?s = "s\<lparr>objs := with_registration True (add_objs event) (objs s), bobjects := bobjects s @ add_objs event\<rparr>"
  have "obus_server_undo_register_objects event ?s = (Inr (), ?s\<lparr>objs := with_registration False (add_objs event) (objs ?s),
      bobjects := filter (\<lambda>q. q \<notin> set (add_objs event)) (bobjects ?s)\<rparr>)"
    unfolding obus_server_undo_register_objects_def by (rule walk_unregister) (use so some in \<open>auto simp: with_registration_def\<close>)
  moreover have "with_registration False (add_objs event) (objs ?s) = objs s"
    using so by (fastforce simp: with_registration_def fun_eq_iff)
  moreover have "filter (\<lambda>q. q \<notin> set (add_objs event)) (bobjects ?s) = bobjects s" using so by (auto simp: filter_id_conv disjoint_iff)
  ultimately show "obus_server_undo_register_objects event ?s = (Inr (), s)" by simp
qed

lemma sanitize_obj [simp]: "e_obj (snd (obus_event_sanitize ev b)) = e_obj ev"
  by (simp add: obus_event_sanitize_def split: prod.split)

lemma sound_sanitized: "sound_event s event \<Longrightarrow> sound_event (s\<lparr>evts := sanitized (obj_events event) (evts s)\<rparr>) event"
proof -
  assume so: "sound_event s event"
  have "\<exists>ev obj. sanitized (obj_events event) (evts s) v = Some ev \<and> e_obj ev \<noteq> 0 \<and> objs s (e_obj ev) = Some obj \<and> o_registered obj"
    if v: "v \<in> set (obj_events event)" for v
  proof -
    obtain ev obj where "evts s v = Some ev" "e_obj ev \<noteq> 0" "objs s (e_obj ev) = Some obj" "o_registered obj"
      using so v unfolding sound_event_def by blast
    then show ?thesis using v by (simp add: sanitized_def)
  qed
  then show ?thesis using so unfolding sound_event_def by simp
qed

text \<open>Committing events keeps the objects of the bus.\<close>

lemma commit_frame: "bobjects (snd (obus_event_commit m alias s v)) = bobjects s" "dom (objs (snd (obus_event_commit m alias s v))) = dom (objs s)"
  by (auto simp: obus_event_commit_def split: option.splits prod.splits sum.splits)

lemma walk_commit_frame:
  "bobjects (snd (walk (\<lambda>s v. no_fault (obus_event_commit m alias s v)) s vs)) = bobjects s
    \<and> dom (objs (snd (walk (\<lambda>s v. no_fault (obus_event_commit m alias s v)) s vs))) = dom (objs s)"
proof (induction vs arbitrary: s)
  case (Cons v vs)
  obtain r1 s1 where x: "no_fault (obus_event_commit m alias s v) = (r1, s1)" by fastforce
  then have "s1 = snd (obus_event_commit m alias s v)" by (metis frame_no_fault snd_conv)
  then have k: "bobjects s1 = bobjects s" "dom (objs s1) = dom (objs s)" by (simp_all add: commit_frame)
  then show ?case unfolding walk.simps x by (cases r1) (simp_all add: k Cons.IH)
qed simp

lemma no_fault_result: "fst (no_fault x) = Inr () \<or> fst (no_fault x) = Inl FAULT"
  by (cases x) (auto simp: no_fault_def split: sum.split errno.split)

lemma walk_no_fault: "fst (walk (\<lambda>s p. no_fault (f s p)) s ps) = Inr () \<or> fst (walk (\<lambda>s p. no_fault (f s p)) s ps) = Inl FAULT"
proof (induction ps arbitrary: s)
  case (Cons p ps)
  obtain r1 s1 where x: "no_fault (f s p) = (r1, s1)" by fastforce
  then have "r1 = Inr () \<or> r1 = Inl FAULT" using no_fault_result [of "f s p"] by simp
  then show ?case unfolding walk.simps x using Cons.IH [of s1] by auto
qed simp

lemma commit_result: "fst (obus_server_commit_bus_event E event s) = Inr () \<or> fst (obus_server_commit_bus_event E event s) = Inl FAULT"
proof -
  obtain r1 s1 where x: "walk (\<lambda>s p. no_fault (obus_event_commit (se_mem E) (se_alias E) s p)) s (obj_events event) = (r1, s1)" by fastforce
  then have "r1 = Inr () \<or> r1 = Inl FAULT"
    using walk_no_fault [of "\<lambda>s p. obus_event_commit (se_mem E) (se_alias E) s p" s "obj_events event"] by simp
  then show ?thesis unfolding obus_server_commit_bus_event_def x using walk_no_fault [of obus_bus_unregister_object s1 "remove_objs event"] by auto
qed

lemma commit_bobjects:
  assumes "obus_server_commit_bus_event E event s = (Inr (), s')" "distinct (bobjects s)" "distinct (remove_objs event)"
    "set (remove_objs event) \<subseteq> set (bobjects s)" "\<forall>q\<in>set (remove_objs event). objs s q \<noteq> None"
  shows "bobjects s' = filter (\<lambda>q. q \<notin> set (remove_objs event)) (bobjects s)"
proof -
  obtain r1 s1 where w: "walk (\<lambda>s p. no_fault (obus_event_commit (se_mem E) (se_alias E) s p)) s (obj_events event) = (r1, s1)" by fastforce
  then have k: "bobjects s1 = bobjects s" "dom (objs s1) = dom (objs s)" using walk_commit_frame [of "se_mem E" "se_alias E" s "obj_events event"] by simp_all
  have "r1 = Inr ()" using assms(1) w by (cases r1) (simp_all add: obus_server_commit_bus_event_def)
  then have "walk (\<lambda>s p. no_fault (obus_bus_unregister_object s p)) s1 (remove_objs event) = (Inr (), s')"
    using assms(1) w by (simp add: obus_server_commit_bus_event_def)
  moreover have "\<forall>p\<in>set (remove_objs event). objs s1 p \<noteq> None" using assms(5) k(2) by (metis domIff)
  ultimately show ?thesis using walk_unregister [of s1 "remove_objs event"] assms(2-4) k(1) by auto
qed


section \<open>A packet for one peer\<close>

lemma queued_bytes:
  assumes "peers_ok k srv" "c \<in> set (queue_at srv q)"
  shows "q \<in> set (sv_peers srv)" "0 < holders srv c" "sv_bufs srv c \<noteq> None"
proof -
  show q: "q \<in> set (sv_peers srv)" using assms by (auto simp: queue_at_def peers_ok_def split: option.splits)
  show h: "0 < holders srv c" using holders_pos [OF q assms(2)] .
  then show "sv_bufs srv c \<noteq> None" using refs_okD(1,2) [OF assms(1), of c] by force
qed

definition one_peer :: "addr \<Rightarrow> obus_server \<Rightarrow> obus_server \<Rightarrow> bool" where
  "one_peer p srv srv' \<longleftrightarrow> same_bus srv srv' \<and> sv_peers srv' = sv_peers srv \<and> n_peers_connected srv' = n_peers_connected srv
     \<and> has_peer_cb srv' = has_peer_cb srv \<and> sv_trace srv' = sv_trace srv
     \<and> (\<forall>q. q \<noteq> p \<longrightarrow> peer_at srv' q = peer_at srv q \<and> sent_to srv' q = sent_to srv q)
     \<and> (\<forall>peer. peer_at srv p = Some peer \<longrightarrow> (\<exists>io. peer_at srv' p = Some (peer\<lparr>pr_io := io\<rparr>)))"

lemma unref_one_peer:
  assumes "server_ok k srv" "0 < k b" "buf_unref srv b = (r, srv')"
  shows "r = Inr ()" "server_ok (k(b := k b - 1)) srv'" "one_peer p srv srv'" "sent_to srv' p = sent_to srv p" "peer_at srv' = peer_at srv"
proof -
  obtain srv1 where u: "buf_unref srv b = (Inr (), srv1)" "server_ok (k(b := k b - 1)) srv1" "sv_peers srv1 = sv_peers srv" "link_of srv1 = link_of srv"
    "n_peers_connected srv1 = n_peers_connected srv" "\<forall>c. c \<noteq> b \<or> 0 < holders srv b \<longrightarrow> bytes_at srv1 c = bytes_at srv c"
    using unref_server_ok [OF assms(1,2)] by blast
  then have e: "r = Inr ()" "srv' = srv1" using assms(3) by simp_all
  show "r = Inr ()" by (rule e(1))
  show "server_ok (k(b := k b - 1)) srv'" using u(2) e(2) by simp
  show p: "peer_at srv' = peer_at srv" using assms(3) by (auto simp: buf_unref_def split: prod.splits)
  have st: "sent_to srv' q = sent_to srv q" for q
  proof (rule sent_to_same)
    show "link_of srv' q = link_of srv q" using u(4) e(2) by simp
    show "bytes_at srv' c = bytes_at srv c" if "c \<in> set (queue_at srv q)" for c
      using queued_bytes(2) [OF _ that] assms(1) u(6) e(2) by (cases "c = b") (auto simp: server_ok_def)
  qed
  then show "sent_to srv' p = sent_to srv p" .
  have "has_peer_cb srv' = has_peer_cb srv" "sv_trace srv' = sv_trace srv" using assms(3) by (auto simp: buf_unref_def split: prod.splits)
  moreover have "\<exists>io. peer = peer\<lparr>pr_io := io\<rparr>" for peer :: obus_peer by (rule exI [of _ "pr_io peer"]) simp
  ultimately show "one_peer p srv srv'" using st p u(3,5) e(2) same_bus_steps(1) [of srv b] assms(3) by (simp add: one_peer_def)
qed

lemma peer_send_ok:
  assumes "server_ok k srv" "0 < k b" "peer_at srv p = Some peer" "b \<notin> set (write_buffers (pr_io peer))"
    "Refuse FAULT \<notin> set (fd_out (pr_io peer))" "bytes_at srv b = Some bs" "peer_send m srv p b = (r, srv')"
  shows "r \<noteq> Inl FAULT" "server_ok (k(b := k b - 1)) srv'" "one_peer p srv srv'"
    "busy_only (fd_out (pr_io peer)) \<Longrightarrow> alloc_ok m sizeof_io_buffer \<Longrightarrow> r = Inr () \<and> sent_to srv' p = sent_to srv p @ bs"
proof -
  have ok: "peers_ok k srv" "addrs_ok srv" "peer_count_ok srv" using assms(1) by (simp_all add: server_ok_def)
  obtain buf where b: "sv_bufs srv b = Some buf" "buf_ok buf" by (rule held_buffer [OF ok(1) assms(2)])
  then have b0: "b \<noteq> 0" "b < sv_next srv" "content buf = bs" using ok(2) assms(6) by (auto simp: addrs_ok_def bytes_at_def)
  obtain r1 srv1 where w: "peer_write m srv p b = (r1, srv1)" by fastforce
  from peer_write_ok [OF ok(1) assms(3,2) b0(1) assms(4) b(1) w] obtain io where
    io: "srv1 = put_io srv p peer io" "outcome (peer_io srv peer) b buf r1 io" "peers_ok (if r1 = Inl EAGAIN then k(b := k b - 1) else k) srv1"
      "sv_bufs srv1 = (if r1 = Inl EAGAIN then (sv_bufs srv)(b \<mapsto> obus_buffer_ref buf) else sv_bufs srv)" "r1 \<noteq> Inl FAULT"
    using assms(5) by blast
  have bytes1: "bytes_at srv1 = bytes_at srv" using io(4) b(1) by (auto simp: bytes_at_def fun_eq_iff)
  have a1: "addrs_ok srv1" using ok(2) io(1,4) assms(3) b0 by (auto simp: addrs_ok_def put_io_def split: if_splits)
  have c1: "peer_count_ok srv1" using ok(3) put_io_count [OF assms(3)] io(1) by simp
  have "sent_to srv1 q = sent_to srv q" if "q \<noteq> p" for q
    by (rule sent_to_same) (use put_io_links(2) [OF that] io(1) bytes1 in simp_all)
  then have o1: "one_peer p srv srv1" using io(1) assms(3) by (auto simp: one_peer_def put_io_def same_bus_def)
  have sent: "sent_to srv1 p = sent_to srv p @ bs" if "r1 = Inr () \<or> r1 = Inl EAGAIN"
    using that io(1,2) put_io_links(1) assms(3) b0(3)
    by (auto simp: outcome_def sent_to_def pending_def queued_def peer_io_def split: if_splits)
  have hw: "r1 = Inr () \<or> r1 = Inl EAGAIN" if "busy_only (fd_out (pr_io peer))" "alloc_ok m sizeof_io_buffer"
    using w assms(3) b b0(1) healthy_write [of m "peer_io srv peer" b r1] that by (auto simp: peer_write_def peer_io_def split: prod.splits)
  have "r \<noteq> Inl FAULT \<and> server_ok (k(b := k b - 1)) srv' \<and> one_peer p srv srv' \<and>
    (busy_only (fd_out (pr_io peer)) \<longrightarrow> alloc_ok m sizeof_io_buffer \<longrightarrow> r = Inr () \<and> sent_to srv' p = sent_to srv p @ bs)"
  proof (cases "r1 = Inl EAGAIN")
    case True
    then have "(r, srv') = (Inr (), srv1)" using assms(7) w by (simp add: peer_send_def)
    then show ?thesis using True io(3) a1 c1 o1 sent by (simp add: server_ok_def)
  next
    case False
    then have s1: "server_ok k srv1" using io(3) a1 c1 by (simp add: server_ok_def)
    obtain r2 srv2 where u: "buf_unref srv1 b = (r2, srv2)" by fastforce
    note un = unref_one_peer [OF s1 assms(2) u]
    have "(r, srv') = (r1, srv2)" using assms(7) w False io(5) u un(1) by (simp add: peer_send_def)
    moreover have "one_peer p srv srv2" using o1 un(3) [of p] un(5) by (auto simp: one_peer_def same_bus_def)
    ultimately show ?thesis using io(5) un(2) un(4) [of p] sent hw False by auto
  qed
  then show "r \<noteq> Inl FAULT" "server_ok (k(b := k b - 1)) srv'" "one_peer p srv srv'"
    "busy_only (fd_out (pr_io peer)) \<Longrightarrow> alloc_ok m sizeof_io_buffer \<Longrightarrow> r = Inr () \<and> sent_to srv' p = sent_to srv p @ bs" by simp_all
qed

lemma packet_buffer_frame:
  assumes "packet_buffer m encode srv = (r, srv')"
  shows "peer_at srv' = peer_at srv" "has_peer_cb srv' = has_peer_cb srv" "sv_trace srv' = sv_trace srv"
  using assms by (auto simp: packet_buffer_def Let_def buf_unref_def split: option.splits prod.splits sum.splits)

text \<open>A buffer from the pool, filled and sent.\<close>

lemma send_one:
  assumes "server_ok (\<lambda>_. 0) srv" "tame encode" "sane_memory m" "peer_at srv p = Some peer" "Refuse FAULT \<notin> set (fd_out (pr_io peer))"
    "packet_buffer m encode srv = (Inr b, srv1)" "peer_send m srv1 p b = (r, srv')"
  shows "r \<noteq> Inl FAULT" "server_ok (\<lambda>_. 0) srv'" "one_peer p srv srv'"
    "\<exists>buf buf'. buf_ok buf \<and> encode buf = (Inr (), buf') \<and> (busy_only (fd_out (pr_io peer)) \<longrightarrow> alloc_ok m sizeof_io_buffer \<longrightarrow>
       r = Inr () \<and> sent_to srv' p = sent_to srv p @ content buf')"
proof -
  let ?k = "(\<lambda>_. 0 :: int)(b := 1)"
  obtain buf buf' where b: "kept srv srv1" "server_ok ?k srv1" "holders srv1 b = 0" "buf_ok buf" "encode buf = (Inr (), buf')" "bytes_at srv1 b = Some (content buf')"
    using packet_buffer_ok [OF assms(1-3,6)] by auto
  note f = packet_buffer_frame [OF assms(6)]
  have p1: "peer_at srv1 p = Some peer" using f assms(4) by simp
  have nq: "b \<notin> set (write_buffers (pr_io peer))"
    using queued_bytes(2) [of ?k srv1 b p] b(2,3) p1 by (auto simp: server_ok_def queue_at_def)
  have st: "sent_to srv1 q = sent_to srv q" for q by (rule kept_sent [OF assms(1) b(1)])
  have o1: "one_peer p srv srv1" using b(1) f st assms(4) by (auto simp: one_peer_def kept_def same_bus_def intro!: exI [of _ "pr_io peer"])
  have "0 < ?k b" by simp
  note ps = peer_send_ok [OF b(2) this p1 nq assms(5) b(6) assms(7)]
  show "r \<noteq> Inl FAULT" by (rule ps(1))
  have "?k(b := ?k b - 1) = (\<lambda>_. 0)" by (simp add: fun_eq_iff)
  then show "server_ok (\<lambda>_. 0) srv'" using ps(2) by (simp only:)
  show "one_peer p srv srv'" using o1 ps(3) f(1) assms(4) by (auto simp: one_peer_def same_bus_def)
  show "\<exists>buf buf'. buf_ok buf \<and> encode buf = (Inr (), buf') \<and> (busy_only (fd_out (pr_io peer)) \<longrightarrow> alloc_ok m sizeof_io_buffer \<longrightarrow>
       r = Inr () \<and> sent_to srv' p = sent_to srv p @ content buf')" using b(4,5) ps(4) st by auto
qed

text \<open>There is memory for small packets.\<close>

definition roomy :: "memory \<Rightarrow> obus_server \<Rightarrow> bool" where
  "roomy m srv \<longleftrightarrow> sane_memory m \<and> enough m 4096 \<and> buffsize (sv_pool srv) \<le> 4096"

lemma roomy_alloc: "roomy m srv \<Longrightarrow> n \<le> 4096 \<Longrightarrow> alloc_ok m n"
  by (simp add: roomy_def enough_def)

lemma roomy_buffer:
  assumes "roomy m srv" "server_ok k srv" "\<And>buf. buf_ok buf \<Longrightarrow> \<exists>buf'. encode buf = (Inr (), buf')"
  shows "\<exists>b srv'. packet_buffer m encode srv = (Inr b, srv')"
proof -
  obtain buf pool where pk: "obus_buffer_pool_peek m sizeof_buffer (sv_pool srv) = (Some buf, pool)"
    using roomy_alloc [OF assms(1)] assms(1)
    by (cases "free_bufs (sv_pool srv)") (auto simp: obus_buffer_pool_peek_def obus_buffer_new_def malloc_def sizeof_buffer_def roomy_def)
  have "buf_ok buf" using pool_peek_ok(1) [OF _ _ pk] assms(1,2) refs_okD(3) by (auto simp: roomy_def server_ok_def)
  then obtain buf' where "encode buf = (Inr (), buf')" using assms(3) by blast
  then show ?thesis using pk by (simp add: packet_buffer_def Let_def)
qed

section \<open>Acknowledgements\<close>

text \<open>The bytes of an acknowledgement.\<close>

definition ack_packet :: "u16 \<Rightarrow> u32 \<Rightarrow> u8 list" where
  "ack_packet handle status = packet_image OBUS_PKT_ACK (ack_payload \<lparr>ack_handle = handle, ack_status = status\<rparr>)"

lemma send_ack_ok:
  assumes "server_ok (\<lambda>_. 0) srv" "roomy m srv" "sv_call srv = q" "q \<noteq> 0" "calls (sv_bus srv) q = Some call" "peer_at srv (c_peer call) = Some peer"
    "busy_only (fd_out (pr_io peer))" "Refuse FAULT \<notin> set (fd_out (pr_io peer))"
  shows "\<exists>srv'. obus_server_send_ack m srv (c_handle call) status = (Inr (), srv') \<and> server_ok (\<lambda>_. 0) srv' \<and> sv_call srv' = 0
    \<and> sv_bus srv' = (sv_bus srv)\<lparr>calls := (calls (sv_bus srv))(q \<mapsto> call\<lparr>c_status := status\<rparr>)\<rparr>
    \<and> (\<exists>io. peer_at srv' (c_peer call) = Some (peer\<lparr>pr_io := io\<rparr>)) \<and> sent_to srv' (c_peer call) = sent_to srv (c_peer call) @ ack_packet (c_handle call) status
    \<and> (\<forall>p. p \<noteq> c_peer call \<longrightarrow> sent_to srv' p = sent_to srv p) \<and> sv_trace srv' = sv_trace srv"
proof -
  let ?ack = "\<lparr>ack_handle = c_handle call, ack_status = status\<rparr>"
  let ?enc = "\<lambda>buf. obus_packet_ack_encode m buf ?ack"
  have m: "sane_memory m" "enough m 12" "alloc_ok m sizeof_io_buffer" using assms(2) by (auto simp: roomy_def enough_def sizeof_io_buffer_def)
  have enc: "\<exists>buf'. ?enc buf = (Inr (), buf') \<and> content buf' = ack_packet (c_handle call) status" if "buf_ok buf" for buf
    using ack_encode_ok [OF that m(2), of ?ack] by (metis ack_packet_def)
  obtain b srv1 where pb: "packet_buffer m ?enc srv = (Inr b, srv1)" using roomy_buffer [OF assms(2,1), of ?enc] enc by blast
  obtain r2 srv2 where ps: "peer_send m srv1 (c_peer call) b = (r2, srv2)" by fastforce
  have "tame ?enc" by (rule tame_packets [OF m(1)])
  note so = send_one [OF assms(1) this m(1) assms(6,8) pb ps]
  obtain buf buf' where "buf_ok buf" "?enc buf = (Inr (), buf')" "r2 = Inr ()" "sent_to srv2 (c_peer call) = sent_to srv (c_peer call) @ content buf'"
    using so(4) assms(7) m(3) by auto
  then have r: "r2 = Inr ()" "sent_to srv2 (c_peer call) = sent_to srv (c_peer call) @ ack_packet (c_handle call) status" using enc by force+
  have sb: "sv_bus srv2 = sv_bus srv" "sv_call srv1 = sv_call srv" using so(3) pb same_bus_steps(2) [of srv m ?enc] by (simp_all add: one_peer_def same_bus_def)
  let ?srv' = "srv2\<lparr>sv_bus := (sv_bus srv)\<lparr>calls := (calls (sv_bus srv))(q \<mapsto> call\<lparr>c_status := status\<rparr>)\<rparr>, sv_call := 0\<rparr>"
  have "obus_server_send_ack m srv (c_handle call) status = (Inr (), ?srv')"
    using assms(3-5) pb ps r(1) sb by (simp add: obus_server_send_ack_def Let_def no_fault_def)
  moreover have "sent_to ?srv' p = sent_to srv2 p" for p by (simp add: sent_to_def peer_io_def split: option.split)
  ultimately show ?thesis using so(2,3) r(2) assms(6) by (intro exI [of _ ?srv']) (simp add: one_peer_def)
qed

text \<open>Whether the method of the application is run, and the status of a call that it does not acknowledge.\<close>

definition runs_method :: "obus_object \<Rightarrow> obus_call \<Rightarrow> bool" where
  "runs_method obj call \<longleftrightarrow> o_registered obj \<and> obus_object_get_method_state obj (m_uid (c_desc call)) = OBUS_METHOD_ENABLED
     \<and> obus_object_get_method_handler obj (c_desc call) \<noteq> 0"

definition default_status :: "obus_object \<Rightarrow> obus_call \<Rightarrow> u32" where
  "default_status obj call =
     (if \<not> o_registered obj then OBUS_CALL_ABORTED
      else if obus_object_get_method_state obj (m_uid (c_desc call)) = OBUS_METHOD_DISABLED then OBUS_CALL_METHOD_DISABLED
      else if obus_object_get_method_state obj (m_uid (c_desc call)) = OBUS_METHOD_NOT_SUPPORTED then OBUS_CALL_METHOD_NOT_SUPPORTED
      else OBUS_CALL_REFUSED)"

text \<open>A method that does nothing or acknowledges its call.\<close>

definition replies :: "u32 option \<Rightarrow> server_env \<Rightarrow> bool" where
  "replies reply E \<longleftrightarrow> (\<forall>h obj handle args srv. u_method (se_user E) h obj handle args srv =
     (case reply of None \<Rightarrow> srv | Some st \<Rightarrow> snd (obus_server_send_ack (se_mem E) srv handle st)))"

lemma run_method_eq:
  assumes "replies reply E"
  shows "(if \<not> obus_object_is_registered (Some obj) then (OBUS_CALL_ABORTED, srv) else run_method E srv obj call) =
    (default_status obj call,
     if runs_method obj call
     then let srv = srv\<lparr>sv_trace := sv_trace srv @ [Method_Note (obus_object_get_method_handler obj (c_desc call)) (c_obj call) (c_handle call)]\<rparr> in
       (case reply of None \<Rightarrow> srv | Some st \<Rightarrow> snd (obus_server_send_ack (se_mem E) srv (c_handle call) st))
     else srv)"
  using assms by (auto simp: run_method_def Let_def default_status_def runs_method_def replies_def obus_object_is_registered_def
      OBUS_METHOD_ENABLED_def OBUS_METHOD_DISABLED_def OBUS_METHOD_NOT_SUPPORTED_def)

lemma trace_same [simp]: "server_ok k (srv\<lparr>sv_trace := t\<rparr>) = server_ok k srv" "sent_to (srv\<lparr>sv_trace := t\<rparr>) p = sent_to srv p" "roomy m (srv\<lparr>sv_trace := t\<rparr>) = roomy m srv"
  "sent_to (srv\<lparr>sv_call := q\<rparr>) p = sent_to srv p" "roomy m (srv\<lparr>sv_bus := s\<rparr>) = roomy m srv" "roomy m (srv\<lparr>sv_call := q\<rparr>) = roomy m srv"
  by (simp_all add: server_ok_def addrs_ok_def peer_count_ok_def connected_peers_def sent_to_def peer_io_def roomy_def split: option.split)


section \<open>An example\<close>

text \<open>A server with one connected peer (address 5) and one that has not asked for a connection (address 6).\<close>

definition sample_peer :: "obus_peer_state \<Rightarrow> obus_peer" where
  "sample_peer st = \<lparr>pr_name = None, pr_state = st, pr_io = (no_io (obus_buffer_pool_init OBUS_DEFAULT_BUFFER_SIZE))\<lparr>io_alive := True, watchable := True\<rparr>,
     pr_decoder = Some (sample_decoder []), pr_user_data = 0\<rparr>"

definition sample_server :: "bus_state \<Rightarrow> obus_server" where
  "sample_server s = \<lparr>sv_peers = [5, 6], peer_at = [5 \<mapsto> sample_peer PEER_STATE_CONNECTED, 6 \<mapsto> sample_peer PEER_STATE_IDLE], sv_next = 7, sv_bus = s,
     sv_bufs = Map.empty, sv_pool = obus_buffer_pool_init OBUS_DEFAULT_BUFFER_SIZE, n_sks = 1, sv_call = 0, sv_state = SERVER_STATE_STARTED,
     n_peers_connected = 1, has_peer_cb = True, sv_trace = []\<rparr>"

definition sample_server_env :: server_env where
  "sample_server_env = \<lparr>se_mem = full_memory, se_alias = \<lambda>_ _ _. False, se_rnd = [5], se_user = \<lparr>u_peer = \<lambda>_ _ srv. srv, u_method = \<lambda>_ _ _ _ srv. srv\<rparr>\<rparr>"

lemma sample_server_simps [simp]:
  "sv_bus (sample_server s) = s" "peer_at (sample_server s) 5 = Some (sample_peer PEER_STATE_CONNECTED)"
  "peer_at (sample_server s) 6 = Some (sample_peer PEER_STATE_IDLE)" "sv_peers (sample_server s) = [5, 6]" "sv_trace (sample_server s) = []"
  "sv_pool (sample_server s) = obus_buffer_pool_init OBUS_DEFAULT_BUFFER_SIZE"
  "connected_peers (sample_server s) = [5]" "se_mem sample_server_env = full_memory" "pr_state (sample_peer st) = st"
  "fd_out (pr_io (sample_peer st)) = []" "write_buffers (pr_io (sample_peer st)) = []" "pr_decoder (sample_peer st) = Some (sample_decoder [])"
  "busy_only []" "replies None sample_server_env" "roomy full_memory (sample_server s)"
  by (simp_all add: sample_server_def connected_peers_def obus_peer_is_connected_def sample_peer_def sample_server_env_def no_io_def replies_def
      busy_only_def roomy_def obus_buffer_pool_init_def OBUS_DEFAULT_BUFFER_SIZE_def)

lemma sample_serving: "serving sample_server_env (sample_server s)"
proof -
  have q: "queue_at (sample_server s) p = []" for p
    by (simp add: queue_at_def sample_server_def)
  have "buf_ok (d_buf (sample_decoder []))" by (simp add: sample_decoder_def obus_packet_decoder_init_def buf_ok_def obus_buffer_ref_def obus_buffer_clear_def buffer_of_def)
  then have "peer_ok bufs (sample_peer st)" for bufs st by (simp add: peer_ok_def) (simp add: sample_peer_def no_io_def)
  then have "peers_ok (\<lambda>_. 0) (sample_server s)"
    using q by (auto simp: peers_ok_def refs_ok_def holders_def sample_server_def obus_buffer_pool_init_def split: if_splits)
  moreover have "addrs_ok (sample_server s)" by (auto simp: addrs_ok_def sample_server_def)
  moreover have "peer_count_ok (sample_server s)" by (simp add: peer_count_ok_def) (simp add: sample_server_def sz_def)
  moreover have "mild (se_user sample_server_env)" "quiet (se_user sample_server_env)"
    by (simp_all add: mild_def quiet_def same_links_refl sample_server_env_def)
  moreover have "Refuse FAULT \<notin> set (fd_out (pr_io peer))" if "peer_at (sample_server s) p = Some peer" for p peer
    using that by (auto simp: sample_server_def split: if_splits)
  ultimately show ?thesis by (simp add: serving_def server_ok_def)
qed

lemma register_object_spec_witness:
  "\<exists>s r srv'. obus_server_register_object sample_server_env (sample_server s) 1 = (r, srv') \<and> bobjects (sv_bus srv') = [1]
    \<and> link_of srv' 6 = link_of (sample_server s) 6"
proof -
  obtain b and s :: bus_state where s: "objs s = [1 \<mapsto> sample_object]" "bobjects s = []" by (rule sample_start)
  obtain r srv' where r: "obus_server_register_object sample_server_env (sample_server s) 1 = (r, srv')" by fastforce
  note f = register_object_spec [OF sample_serving [of s] _ _ _ _ r, of sample_object, simplified, OF s(1) [THEN fun_cong, of 1, simplified]]
  then have "bobjects (sv_bus srv') = [1]" "link_of srv' 6 = link_of (sample_server s) 6"
    using s by (auto simp: sample_object_def all_told_def told_def none_told_def obus_peer_is_connected_def split: if_splits)
  then show ?thesis using r by blast
qed



end
