(* ===== verification/Obus_Admit.thy ===== *)
theory Obus_Admit
  imports Obus_Serve
begin

text \<open>
  Connections of a server: \<open>obus_server.c\<close>. The theory shows when a peer that asks for a connection is accepted and what
  it gets then, that no other peer is affected, and which request makes the server fail.
\<close>

section \<open>Connection requests\<close>

text \<open>The request is for this bus and names its client.\<close>

definition acceptable :: "obus_bus_desc \<Rightarrow> obus_packet_conreq \<Rightarrow> bool" where
  "acceptable desc pkt \<longleftrightarrow> cr_version pkt = OBUS_PROTOCOL_VERSION \<and> cr_bus pkt = Some (bus_name desc) \<and> cr_crc pkt = crc desc
     \<and> cr_client pkt \<noteq> None \<and> cr_client pkt \<noteq> Some []"

lemma check_request_eq:
  assumes "check_request desc pkt = Inr status"
  shows "status = (if acceptable desc pkt then OBUS_CONRESP_ACCEPTED else OBUS_CONRESP_REFUSED)"
  using assms by (auto simp: check_request_def acceptable_def split: option.splits if_splits)

text \<open>What the application says about a peer that asks.\<close>

definition asked :: "server_env \<Rightarrow> obus_server \<Rightarrow> addr \<Rightarrow> obus_peer \<Rightarrow> obus_server" where
  "asked E srv p peer = obus_peer_notify_user E (set_peer p (peer\<lparr>pr_state := PEER_STATE_CONNECTING\<rparr>) srv) p OBUS_PEER_EVENT_CONNECTING"

definition user_refuses :: "server_env \<Rightarrow> obus_server \<Rightarrow> addr \<Rightarrow> obus_peer \<Rightarrow> bool" where
  "user_refuses E srv p peer \<longleftrightarrow> (\<exists>peer'. peer_at (asked E srv p peer) p = Some peer' \<and> pr_state peer' = PEER_STATE_REFUSED)"

lemma set_server_ok:
  assumes "server_ok k srv" "peer_at srv p = Some peer" "pr_io peer' = pr_io peer" "pr_decoder peer' = pr_decoder peer"
    "(pr_state peer' = PEER_STATE_CONNECTED) = (pr_state peer = PEER_STATE_CONNECTED)"
  shows "server_ok k (set_peer p peer' srv)" "link_of (set_peer p peer' srv) = link_of srv" "same_links srv (set_peer p peer' srv)"
proof -
  show l: "link_of (set_peer p peer' srv) = link_of srv" using assms(2-5) by (auto simp: link_of_def set_peer_def fun_eq_iff)
  then show s: "same_links srv (set_peer p peer' srv)" by (simp add: same_links_def set_peer_def)
  show "server_ok k (set_peer p peer' srv)" using same_links_ok(4) [OF s] assms(1) by simp
qed

lemma ask_user_ok:
  assumes "server_ok k srv" "mild (se_user E)" "peer_at srv p = Some peer" "pr_state peer \<noteq> PEER_STATE_CONNECTED"
    "pr_io peer' = pr_io peer" "pr_decoder peer' = pr_decoder peer" "pr_state peer' = pr_state peer"
    "ask_user E srv p peer' status = (r, srv')" "status = OBUS_CONRESP_ACCEPTED \<or> status = OBUS_CONRESP_REFUSED"
  shows "same_links srv srv'"
    "r = Inr (if status = OBUS_CONRESP_ACCEPTED \<and> \<not> user_refuses E srv p peer' then OBUS_CONRESP_ACCEPTED else OBUS_CONRESP_REFUSED)"
proof -
  let ?c = "peer'\<lparr>pr_state := PEER_STATE_CONNECTING\<rparr>"
  have s1: "same_links srv (set_peer p peer' srv)" "same_links srv (set_peer p ?c srv)"
    by (rule set_server_ok(3) [OF assms(1,3)]; use assms(4-7) in simp)+
  have s2: "same_links srv (asked E srv p peer')" unfolding asked_def by (rule same_links_trans [OF s1(2) notify_links [OF assms(2)]])
  then have "\<exists>peer1. peer_at (asked E srv p peer') p = Some peer1" using link_of_eq(2) [of "asked E srv p peer'" p srv] assms(3) by (auto simp: same_links_def)
  then show "same_links srv srv'" "r = Inr (if status = OBUS_CONRESP_ACCEPTED \<and> \<not> user_refuses E srv p peer' then OBUS_CONRESP_ACCEPTED else OBUS_CONRESP_REFUSED)"
    using assms(8,9) s1 s2 by (auto simp: ask_user_def Let_def asked_def [symmetric] user_refuses_def split: if_splits)
qed

lemma conresp_neq [simp]: "OBUS_CONRESP_REFUSED \<noteq> OBUS_CONRESP_ACCEPTED"
  by (simp add: OBUS_CONRESP_REFUSED_def OBUS_CONRESP_ACCEPTED_def)

text \<open>The packet of a response.\<close>

definition conresp_packet :: "memory \<Rightarrow> bus_state \<Rightarrow> bool \<Rightarrow> u8 list \<Rightarrow> bool" where
  "conresp_packet m s accepted bs \<longleftrightarrow> (\<exists>buf buf'. buf_ok buf \<and> content buf' = bs \<and>
     obus_packet_conresp_encode m s buf (if accepted then OBUS_CONRESP_ACCEPTED else OBUS_CONRESP_REFUSED) (if accepted then Some (bobjects s) else None) = (Inr (), buf'))"

lemma respond_ok:
  assumes "server_ok (\<lambda>_. 0) srv" "sane_memory (se_mem E)" "peer_at srv p = Some peer" "Refuse FAULT \<notin> set (fd_out (pr_io peer))"
    "obus_peer_send_connection_response E srv p (if accepted then OBUS_CONRESP_ACCEPTED else OBUS_CONRESP_REFUSED) = (r, srv')"
  shows "server_ok (\<lambda>_. 0) srv'" "one_peer p srv srv'"
    "r = Inr () \<Longrightarrow> \<exists>bs. conresp_packet (se_mem E) (sv_bus srv) accepted bs \<and> (healthy E peer \<longrightarrow> sent_to srv' p = sent_to srv p @ bs)"
proof -
  let ?enc = "\<lambda>buf. obus_packet_conresp_encode (se_mem E) (sv_bus srv) buf (if accepted then OBUS_CONRESP_ACCEPTED else OBUS_CONRESP_REFUSED)
      (if accepted then Some (bobjects (sv_bus srv)) else None)"
  have t: "tame ?enc" by (rule tame_packets [OF assms(2)])
  obtain x srv1 where pb: "packet_buffer (se_mem E) ?enc srv = (x, srv1)" by fastforce
  have re: "obus_peer_send_connection_response E srv p (if accepted then OBUS_CONRESP_ACCEPTED else OBUS_CONRESP_REFUSED) =
      (case x of Inl e \<Rightarrow> (Inl e, srv1) | Inr b \<Rightarrow> peer_send (se_mem E) srv1 p b)"
    using pb by (cases accepted) (simp_all add: obus_peer_send_connection_response_def Let_def split: sum.split)
  have "server_ok (\<lambda>_. 0) srv' \<and> one_peer p srv srv' \<and>
    (r = Inr () \<longrightarrow> (\<exists>bs. conresp_packet (se_mem E) (sv_bus srv) accepted bs \<and> (healthy E peer \<longrightarrow> sent_to srv' p = sent_to srv p @ bs)))"
  proof (cases x)
    case (Inl e)
    have o: "server_ok (\<lambda>_. 0) srv1" "kept srv srv1" using packet_buffer_ok [OF assms(1) t assms(2) pb] Inl by auto
    have "one_peer p srv srv1" using o(2) packet_buffer_frame [OF pb] kept_sent [OF assms(1) o(2)] assms(3)
      by (auto simp: one_peer_def kept_def same_bus_def intro!: exI [of _ "pr_io peer"])
    then show ?thesis using assms(5) re Inl o(1) by auto
  next
    case (Inr b)
    then have ps: "peer_send (se_mem E) srv1 p b = (r, srv')" using assms(5) re by simp
    note so = send_one [OF assms(1) t assms(2-4) pb [unfolded Inr] ps]
    obtain buf buf' where "buf_ok buf" "?enc buf = (Inr (), buf')"
      "busy_only (fd_out (pr_io peer)) \<longrightarrow> alloc_ok (se_mem E) sizeof_io_buffer \<longrightarrow> r = Inr () \<and> sent_to srv' p = sent_to srv p @ content buf'" using so(4) by blast
    note so' = this
    have "conresp_packet (se_mem E) (sv_bus srv) accepted (content buf')"
      unfolding conresp_packet_def by (intro exI conjI, rule so'(1), rule refl, rule so'(2))
    moreover have "healthy E peer \<longrightarrow> sent_to srv' p = sent_to srv p @ content buf'" using so'(3) by (simp add: healthy_def)
    ultimately show ?thesis using so(2,3) by blast
  qed
  then show "server_ok (\<lambda>_. 0) srv'" "one_peer p srv srv'"
    "r = Inr () \<Longrightarrow> \<exists>bs. conresp_packet (se_mem E) (sv_bus srv) accepted bs \<and> (healthy E peer \<longrightarrow> sent_to srv' p = sent_to srv p @ bs)" by blast+
qed

lemma sz_Suc: "sz (sz n + 1) = sz (Suc n)"
  by (simp add: sz_def mod_Suc_eq)

text \<open>The last step of a request: the peer is connected and counted, or refused.\<close>

lemma settle_ok:
  assumes "server_ok (\<lambda>_. 0) srv" "mild (se_user E)" "peer_at srv p = Some peer" "pr_state peer \<noteq> PEER_STATE_CONNECTED"
  shows "server_ok (\<lambda>_. 0) (set_peer p (peer\<lparr>pr_state := PEER_STATE_REFUSED\<rparr>) srv)"
    "server_ok (\<lambda>_. 0) ((set_peer p (peer\<lparr>pr_state := PEER_STATE_CONNECTED\<rparr>) srv)\<lparr>n_peers_connected := sz (n_peers_connected srv + 1)\<rparr>)"
    "length (connected_peers (set_peer p (peer\<lparr>pr_state := PEER_STATE_CONNECTED\<rparr>) srv)) = Suc (length (connected_peers srv))"
proof -
  show "server_ok (\<lambda>_. 0) (set_peer p (peer\<lparr>pr_state := PEER_STATE_REFUSED\<rparr>) srv)"
    by (rule set_server_ok(1) [OF assms(1,3)]) (use assms(4) in simp_all)
  let ?srv = "set_peer p (peer\<lparr>pr_state := PEER_STATE_CONNECTED\<rparr>) srv"
  have ok: "peers_ok (\<lambda>_. 0) srv" using assms(1) by (simp add: server_ok_def)
  show l: "length (connected_peers ?srv) = Suc (length (connected_peers srv))"
    by (rule connected_set_peer) (use ok peers_okD(1) [OF ok assms(3)] assms(3,4) in \<open>simp_all add: peers_ok_def obus_peer_is_connected_def\<close>)
  have "peers_ok (\<lambda>_. 0) ?srv" by (rule set_peer_ok [OF ok assms(3)]) (use peers_okD(3) [OF ok assms(3)] in simp_all)
  moreover have "addrs_ok ?srv" using assms(1,3) by (auto simp: server_ok_def addrs_ok_def set_peer_def)
  moreover have "n_peers_connected srv = sz (length (connected_peers srv))" using assms(1) by (simp add: server_ok_def peer_count_ok_def)
  ultimately show "server_ok (\<lambda>_. 0) (?srv\<lparr>n_peers_connected := sz (n_peers_connected srv + 1)\<rparr>)"
    using l sz_Suc [of "length (connected_peers srv)"] by (simp add: server_ok_def addrs_ok_def peer_count_ok_def connected_peers_def)
qed

lemma connected_cong:
  "sv_peers srv' = sv_peers srv \<Longrightarrow> (\<And>q. obus_peer_is_connected (peer_at srv' q) = obus_peer_is_connected (peer_at srv q)) \<Longrightarrow>
    connected_peers srv' = connected_peers srv"
  by (simp add: connected_peers_def)

lemma links_sent: "same_links srv srv' \<Longrightarrow> sent_to srv' p = sent_to srv p" "same_links srv srv' \<Longrightarrow> connected_peers srv' = connected_peers srv"
proof -
  assume s: "same_links srv srv'"
  show "sent_to srv' p = sent_to srv p" by (rule sent_to_same) (use s in \<open>simp_all add: same_links_def bytes_at_def\<close>)
  show "connected_peers srv' = connected_peers srv" by (rule connected_cong) (use s link_of_eq(3) [of srv' _ srv] in \<open>simp_all add: same_links_def\<close>)
qed

lemma set_sent: "peer_at srv p = Some peer \<Longrightarrow> pr_io peer' = pr_io peer \<Longrightarrow> sent_to (set_peer p peer' srv) p = sent_to srv p"
  by (simp add: sent_to_def set_peer_def peer_io_def)

lemma one_peer_connected:
  assumes "one_peer p srv srv'" "peer_at srv p = Some peer"
  shows "connected_peers srv' = connected_peers srv"
proof -
  show ?thesis
  proof (rule connected_cong)
    show "obus_peer_is_connected (peer_at srv' q) = obus_peer_is_connected (peer_at srv q)" for q
      using assms by (cases "q = p") (auto simp: one_peer_def obus_peer_is_connected_def)
  qed (use assms(1) in \<open>simp add: one_peer_def\<close>)
qed

text \<open>What follows the answer of the application.\<close>

definition settle :: "server_env \<Rightarrow> obus_server \<Rightarrow> addr \<Rightarrow> bool \<Rightarrow> bool res \<times> obus_server" where
  "settle E srv p accepted =
     (case obus_peer_send_connection_response E srv p (if accepted then OBUS_CONRESP_ACCEPTED else OBUS_CONRESP_REFUSED) of
        (Inl e, srv) \<Rightarrow> (if e = FAULT then (Inl FAULT, srv) else chk (obus_peer_destroy E srv p) (\<lambda>_ srv. (Inr False, srv)))
      | (Inr _, srv) \<Rightarrow>
          (case peer_at srv p of None \<Rightarrow> (Inl FAULT, srv) | Some peer \<Rightarrow>
             (Inr True,
              if accepted
              then obus_peer_notify_user E
                     ((set_peer p (peer\<lparr>pr_state := PEER_STATE_CONNECTED\<rparr>) srv)\<lparr>n_peers_connected := sz (n_peers_connected srv + 1)\<rparr>)
                     p OBUS_PEER_EVENT_CONNECTED
              else set_peer p (peer\<lparr>pr_state := PEER_STATE_REFUSED\<rparr>) srv)))"

lemma settle_spec:
  assumes "server_ok (\<lambda>_. 0) srv" "sane_memory (se_mem E)" "mild (se_user E)" "peer_at srv p = Some peer" "pr_state peer \<noteq> PEER_STATE_CONNECTED"
    "Refuse FAULT \<notin> set (fd_out (pr_io peer))" "settle E srv p accepted = (Inr again, srv')"
  shows "server_ok (\<lambda>_. 0) srv' \<and> (\<forall>q. q \<noteq> p \<longrightarrow> link_of srv' q = link_of srv q) \<and>
    (if again
     then obus_peer_is_connected (peer_at srv' p) = accepted
        \<and> length (connected_peers srv') = length (connected_peers srv) + (if accepted then 1 else 0)
        \<and> (\<exists>bs. conresp_packet (se_mem E) (sv_bus srv) accepted bs \<and> (healthy E peer \<longrightarrow> sent_to srv' p = sent_to srv p @ bs))
     else peer_at srv' p = None \<and> p \<notin> set (sv_peers srv'))"
proof -
  obtain r2 srv2 where re: "obus_peer_send_connection_response E srv p (if accepted then OBUS_CONRESP_ACCEPTED else OBUS_CONRESP_REFUSED) = (r2, srv2)" by fastforce
  note o = respond_ok [OF assms(1,2,4,6) re]
  obtain io where p2: "peer_at srv2 p = Some (peer\<lparr>pr_io := io\<rparr>)" using o(2) assms(4) by (auto simp: one_peer_def)
  have l2: "link_of srv2 q = link_of srv q" if "q \<noteq> p" for q using o(2) that by (simp add: one_peer_def link_of_def)
  note c2 = one_peer_connected [OF o(2) assms(4)]
  show ?thesis
  proof (cases r2)
    case (Inl e)
    obtain srv3 where d: "obus_peer_destroy E srv2 p = (Inr (), srv3)" "server_ok (\<lambda>_. 0) srv3" "peer_at srv3 p = None"
      "\<forall>q. q \<noteq> p \<longrightarrow> link_of srv3 q = link_of srv2 q" using peer_destroy_ok [OF o(1) p2 assms(3)] by blast
    have "(again, srv') = (False, srv3)" using assms(7) re Inl d(1) by (auto simp: settle_def split: if_splits)
    then show ?thesis using d l2 by (auto simp: server_ok_def peers_ok_def)
  next
    case (Inr u)
    obtain bs where bs: "conresp_packet (se_mem E) (sv_bus srv) accepted bs" "healthy E peer \<longrightarrow> sent_to srv2 p = sent_to srv p @ bs" using o(3) Inr by auto
    let ?peer = "peer\<lparr>pr_io := io\<rparr>"
    have nc: "pr_state ?peer \<noteq> PEER_STATE_CONNECTED" using assms(5) by simp
    note t = settle_ok [OF o(1) assms(3) p2 nc]
    show ?thesis
    proof (cases accepted)
      case True
      let ?srv = "set_peer p (?peer\<lparr>pr_state := PEER_STATE_CONNECTED\<rparr>) srv2"
      let ?srvn = "?srv\<lparr>n_peers_connected := sz (n_peers_connected srv2 + 1)\<rparr>"
      have e: "again" "srv' = obus_peer_notify_user E ?srvn p OBUS_PEER_EVENT_CONNECTED"
        using assms(7) re Inr p2 True by (simp_all add: settle_def)
      have s: "same_links ?srvn srv'" unfolding e(2) by (rule notify_links [OF assms(3)])
      have n: "link_of ?srvn = link_of ?srv" "sent_to ?srvn p = sent_to ?srv p" "connected_peers ?srvn = connected_peers ?srv"
        by (simp_all add: link_of_def sent_to_def peer_io_def connected_peers_def fun_eq_iff split: option.split)
      have l: "link_of srv' q = link_of ?srv q" for q using s n(1) by (simp add: same_links_def)
      have "link_of srv' q = link_of srv q" if "q \<noteq> p" for q using l [of q] l2 [OF that] that by (simp add: link_of_def set_peer_def)
      moreover have "obus_peer_is_connected (peer_at srv' p)" using link_of_eq(3) [OF l [of p]] by (simp add: set_peer_def obus_peer_is_connected_def)
      moreover have "length (connected_peers srv') = length (connected_peers srv) + 1" using links_sent(2) [OF s] n(3) t(3) c2 by simp
      moreover have "sent_to srv' p = sent_to srv2 p" using links_sent(1) [OF s, of p] n(2) set_sent [OF p2, of "?peer\<lparr>pr_state := PEER_STATE_CONNECTED\<rparr>"] by simp
      moreover have "server_ok (\<lambda>_. 0) srv'" using same_links_ok(4) [OF s] t(2) by simp
      ultimately show ?thesis using e(1) True bs by auto
    next
      case False
      let ?srv = "set_peer p (?peer\<lparr>pr_state := PEER_STATE_REFUSED\<rparr>) srv2"
      have e: "again" "srv' = ?srv" using assms(7) re Inr p2 False by (simp_all add: settle_def)
      have s: "same_links srv2 ?srv" by (rule set_server_ok(3) [OF o(1) p2]) (use nc in simp_all)
      have "link_of srv' q = link_of srv q" if "q \<noteq> p" for q using s e(2) l2 [OF that] by (simp add: same_links_def)
      moreover have "\<not> obus_peer_is_connected (peer_at srv' p)" using e(2) by (simp add: set_peer_def obus_peer_is_connected_def)
      ultimately show ?thesis using e False bs t(1) links_sent [OF s] c2 by auto
    qed
  qed
qed

lemma connection_request_ok:
  assumes "serving E srv" "peer_at srv p = Some peer" "pr_state peer = PEER_STATE_IDLE"
    "obus_peer_connection_request E srv p pkt = (Inr again, srv')"
  defines "caller \<equiv> peer\<lparr>pr_name := (if alloc_ok (se_mem E) (Suc (length (the (cr_client pkt)))) then cr_client pkt else None)\<rparr>"
  defines "accepted \<equiv> acceptable (api_desc (bus_api (sv_bus srv))) pkt \<and> \<not> user_refuses E srv p caller"
  shows "server_ok (\<lambda>_. 0) srv' \<and> (\<forall>q. q \<noteq> p \<longrightarrow> link_of srv' q = link_of srv q) \<and>
    (if again
     then obus_peer_is_connected (peer_at srv' p) = accepted
        \<and> length (connected_peers srv') = length (connected_peers srv) + (if accepted then 1 else 0)
        \<and> (\<exists>bs. conresp_packet (se_mem E) (sv_bus srv) accepted bs \<and> (healthy E peer \<longrightarrow> sent_to srv' p = sent_to srv p @ bs))
     else peer_at srv' p = None \<and> p \<notin> set (sv_peers srv'))"
proof -
  let ?st = "\<lambda>b. if b then OBUS_CONRESP_ACCEPTED else OBUS_CONRESP_REFUSED" and ?a = "acceptable (api_desc (bus_api (sv_bus srv))) pkt"
  have sv: "server_ok (\<lambda>_. 0) srv" "sane_memory (se_mem E)" "mild (se_user E)" "quiet (se_user E)" "Refuse FAULT \<notin> set (fd_out (pr_io peer))"
    using assms(1,2) by (auto simp: serving_def)
  have neq: "OBUS_CONRESP_REFUSED \<noteq> OBUS_CONRESP_ACCEPTED" by (simp add: OBUS_CONRESP_REFUSED_def OBUS_CONRESP_ACCEPTED_def)
  obtain r1 srv1 where au: "ask_user E srv p caller (?st ?a) = (r1, srv1)" by fastforce
  have nm: "pr_io caller = pr_io peer" "pr_decoder caller = pr_decoder peer" "pr_state caller = pr_state peer" by (simp_all add: caller_def)
  note a = ask_user_ok [OF sv(1,3) assms(2) _ nm au]
  have s1: "same_links srv srv1" "r1 = Inr (?st accepted)" using a assms(3) neq by (auto simp: accepted_def split: if_splits)
  have b1: "sv_bus srv1 = sv_bus srv" using sb.rel_ask [OF assms(2) nm(1), of E "?st ?a"] sv(4) au by (simp add: same_bus_def)
  obtain peer1 where p1: "peer_at srv1 p = Some peer1" "pr_io peer1 = pr_io peer" using link_of_eq(1) [of srv1 p srv] s1(1) assms(2) by (auto simp: same_links_def)
  have nc: "pr_state peer1 \<noteq> PEER_STATE_CONNECTED"
    using link_of_eq(3) [of srv1 p srv] s1(1) p1(1) assms(2,3) by (simp add: same_links_def obus_peer_is_connected_def)
  have "check_request (api_desc (bus_api (sv_bus srv))) pkt = Inr (?st ?a)"
    using assms(2-4) check_request_eq [of "api_desc (bus_api (sv_bus srv))" pkt] by (auto simp: obus_peer_connection_request_def split: sum.splits)
  then have "settle E srv1 p accepted = (Inr again, srv')"
    using assms(2-4) au s1(2) neq
    by (cases accepted) (auto simp: obus_peer_connection_request_def Let_def caller_def [symmetric] settle_def split: prod.splits sum.splits option.splits)
  from settle_spec [OF _ sv(2,3) p1(1) nc _ this] have
    f: "server_ok (\<lambda>_. 0) srv' \<and> (\<forall>q. q \<noteq> p \<longrightarrow> link_of srv' q = link_of srv1 q) \<and>
    (if again
     then obus_peer_is_connected (peer_at srv' p) = accepted
        \<and> length (connected_peers srv') = length (connected_peers srv1) + (if accepted then 1 else 0)
        \<and> (\<exists>bs. conresp_packet (se_mem E) (sv_bus srv1) accepted bs \<and> (healthy E peer1 \<longrightarrow> sent_to srv' p = sent_to srv1 p @ bs))
     else peer_at srv' p = None \<and> p \<notin> set (sv_peers srv'))" using same_links_ok(4) [OF s1(1)] sv(1,5) p1(2) by simp
  have "healthy E peer1 = healthy E peer" using p1(2) by (simp add: healthy_def)
  then show ?thesis using f links_sent [OF s1(1)] b1 s1(1) by (auto simp: same_links_def split: if_splits)
qed


section \<open>A request without name\<close>

text \<open>
  C30. A client can bring the server down with one packet. When a peer that has not asked for a connection sends a request
  in which the name of the client is the string without bytes, which the decoder turns into NULL, then the handler of the read event passes NULL
  to \<open>strdup\<close>, whatever bus and checksum the request has and however the bytes arrive.
\<close>

theorem nameless_request_faults:
  assumes "peer_at srv p = Some peer" "pr_state peer = PEER_STATE_IDLE" "pr_decoder peer = Some d"
    "\<not> obus_fd_event_error events" "obus_fd_event_read events" "idle M cs d"
    "stream cs d = packet_image OBUS_PKT_CONREQ (conreq_payload None bus bcrc) @ rest" "string_fits bus" "enough (se_mem E) M" "2 * length (stream cs d) \<le> M"
    "9 + length (conreq_payload None bus bcrc) < 2 ^ 32"
  shows "\<exists>srv'. obus_peer_io_read_event E srv p events = Some (Inl FAULT, srv')"
proof -
  let ?pkt = "\<lparr>cr_version = OBUS_PROTOCOL_VERSION, cr_bus = bus, cr_crc = bcrc, cr_client = None\<rparr>" and ?s = "sv_bus srv"
  have "enough (se_mem E) (length (conreq_payload None bus bcrc))"
    by (rule enough_mono [OF assms(9)]) (use assms(7,10) length_packet_image [of OBUS_PKT_CONREQ "conreq_payload None bus bcrc"] in simp)
  then have "receives (se_mem E) ?s (packet_image OBUS_PKT_CONREQ (conreq_payload None bus bcrc)) (\<lambda>info s'. info = Conreq ?pkt \<and> s' = ?s)"
    using decodes_receives [OF decodes_conreq [of None bus] assms(11)] assms(8) by (simp add: string_fits_def)
  moreover have "noise [] tail" for tail by (simp add: noise_def)
  ultimately obtain d' where r: "obus_packet_decoder_read (se_mem E) d ?s = Some (Inr (Conreq ?pkt), d', ?s)"
    unfolding receives_def using assms(6,7,9,10) by (metis append_Nil)
  show ?thesis using assms(1-5) r
    by (simp add: obus_peer_io_read_event_def serve_packets_loop.simps server_packet_def obus_peer_connection_request_def set_peer_def check_request_def)
qed

section \<open>An example\<close>

text \<open>The response of a server without objects, and a request.\<close>

definition sample_request :: "u8 list \<Rightarrow> obus_packet_conreq" where
  "sample_request name = \<lparr>cr_version = OBUS_PROTOCOL_VERSION, cr_bus = Some [98, 117, 115], cr_crc = 4711, cr_client = Some name\<rparr>"

lemma conresp_none_ok:
  assumes "buf_ok b" "enough m 14"
  shows "\<exists>b'. obus_packet_conresp_encode m s b status (Some []) = (Inr (), b')"
proof -
  let ?enc = "\<lambda>buf. chk (obus_buffer_append_u8 m buf status) (\<lambda>_ buf. chk (obus_buffer_append_u32 m buf 0) (\<lambda>_ buf. (Inr (), buf)))"
  let ?payload = "([] @ [status]) @ be32 0"
  have enc: "\<exists>b'. ?enc b = (Inr (), b') \<and> appended b b' ?payload" if ok: "buf_ok b" and en: "enough m (blength b + length ?payload)" for b
  proof -
    have e: "enough m k" if "k \<le> blength b + 5" for k by (rule enough_mono [OF en]) (use that in simp)
    have b0: "appended b b []" using ok by simp
    obtain b1 where b1: "obus_buffer_append_u8 m b status = (Inr (), b1)" "appended b b1 ([] @ [status])"
      by (rule w8.wr_then [OF b0 ok _ e]) simp_all
    obtain b2 where "obus_buffer_append_u32 m b1 0 = (Inr (), b2)" "appended b b2 ?payload"
      by (rule append_u32_then [OF b1(2) ok e]) simp_all
    then show ?thesis using b1(1) by simp
  qed
  have "enough m (9 + length ?payload)" using assms(2) by simp
  from packet_encode_ok [where ty = OBUS_PKT_CONRESP, OF assms(1) this enc] show ?thesis by (simp add: obus_packet_conresp_encode_def) blast
qed

lemma respond_roomy:
  assumes "server_ok (\<lambda>_. 0) srv" "roomy (se_mem E) srv" "peer_at srv p = Some peer" "Refuse FAULT \<notin> set (fd_out (pr_io peer))" "busy_only (fd_out (pr_io peer))"
    "bobjects (sv_bus srv) = []"
  shows "\<exists>srv'. obus_peer_send_connection_response E srv p OBUS_CONRESP_ACCEPTED = (Inr (), srv') \<and> one_peer p srv srv'"
proof -
  let ?enc = "\<lambda>buf. obus_packet_conresp_encode (se_mem E) (sv_bus srv) buf OBUS_CONRESP_ACCEPTED (Some [])"
  have m: "sane_memory (se_mem E)" "enough (se_mem E) 14" "alloc_ok (se_mem E) sizeof_io_buffer" using assms(2) by (auto simp: roomy_def enough_def sizeof_io_buffer_def)
  obtain b srv1 where pb: "packet_buffer (se_mem E) ?enc srv = (Inr b, srv1)" using roomy_buffer [OF assms(2,1), of ?enc] conresp_none_ok [OF _ m(2)] by blast
  obtain r srv' where ps: "peer_send (se_mem E) srv1 p b = (r, srv')" by fastforce
  have "tame ?enc" by (rule tame_packets [OF m(1)])
  note so = send_one [OF assms(1) this m(1) assms(3,4) pb ps]
  have "r = Inr ()" using so(4) assms(5) m(3) by blast
  then show ?thesis using pb ps assms(6) so(3) by (simp add: obus_peer_send_connection_response_def)
qed


lemma nameless_request_faults_witness:
  "\<exists>d. \<forall>s. \<exists>srv'. obus_peer_io_read_event sample_server_env (set_peer 6 ((sample_peer PEER_STATE_IDLE)\<lparr>pr_decoder := Some d\<rparr>) (sample_server s)) 6 OBUS_FD_IN
    = Some (Inl FAULT, srv')"
proof (rule exI, rule allI)
  fix s
  let ?bus = "Some [98, 117, 115]" let ?w = "packet_image OBUS_PKT_CONREQ (conreq_payload None ?bus 77)"
  let ?d = "sample_decoder (bytewise ?w)" let ?srv = "set_peer 6 ((sample_peer PEER_STATE_IDLE)\<lparr>pr_decoder := Some ?d\<rparr>) (sample_server s)"
  have h: "string_fits ?bus" "length (conreq_payload None ?bus 77) \<le> 100"
    by (simp_all add: string_fits_def conreq_payload_def wire_string_def string_size_def)
  note i = sample_decoder_idle [OF bytewise_simps(2) [of ?w], of 1000]
  have st: "stream (bytewise ?w) ?d = ?w @ []" "length ?w \<le> 200" using i(2) h(2) by (simp_all add: bytewise_simps(1))
  have ev: "\<not> obus_fd_event_error OBUS_FD_IN" "obus_fd_event_read OBUS_FD_IN"
    by (simp_all add: obus_fd_event_read_def obus_fd_event_error_def OBUS_FD_IN_def OBUS_FD_ERR_def OBUS_FD_HUP_def)
  have p: "peer_at ?srv 6 = Some ((sample_peer PEER_STATE_IDLE)\<lparr>pr_decoder := Some ?d\<rparr>)" by (simp add: set_peer_def)
  show "\<exists>srv'. obus_peer_io_read_event sample_server_env ?srv 6 OBUS_FD_IN = Some (Inl FAULT, srv')"
    by (rule nameless_request_faults [OF p _ _ ev _ st(1) h(1), of 1000]) (use i(1) st h(2) in simp_all)
qed

end
