(* ===== verification/Obus_Server_Run.thy ===== *)
theory Obus_Server_Run
  imports Obus_Admit
begin

text \<open>
  The life of a server: \<open>obus_server.c\<close>. Whatever sequence of connections, packets, write events and calls of the
  interface a server goes through, its peers, their queues and the counter of connected peers stay in order.
\<close>

section \<open>Steps keep the server in order\<close>

text \<open>The application: a method does to the server what the functions of the interface do.\<close>

definition orderly :: "server_env \<Rightarrow> bool" where
  "orderly E \<longleftrightarrow> sane_memory (se_mem E) \<and> mild (se_user E) \<and> quiet (se_user E)
     \<and> (\<forall>h obj handle args srv. serving E srv \<longrightarrow> serving E (u_method (se_user E) h obj handle args srv))"

lemma servingD:
  assumes "serving E srv"
  shows "server_ok (\<lambda>_. 0) srv" "sane_memory (se_mem E)" "mild (se_user E)" "quiet (se_user E)" "length (sv_peers srv) < 2 ^ 64"
    "peer_at srv p = Some peer \<Longrightarrow> Refuse FAULT \<notin> set (fd_out (pr_io peer))"
  using assms unfolding serving_def by blast+

lemma servingI:
  assumes "serving E srv" "server_ok (\<lambda>_. 0) srv'" "no_more srv srv'"
  shows "serving E srv'"
proof -
  have "Refuse FAULT \<notin> set (fd_out (pr_io peer))" if "peer_at srv' p = Some peer" for p peer
    using assms(1,3) that unfolding serving_def no_more_def by blast
  then show ?thesis using assms unfolding serving_def no_more_def by (meson le_less_trans)
qed

lemma serving_links: "serving E srv \<Longrightarrow> same_links srv srv' \<Longrightarrow> serving E srv'"
  using servingI links_no_more same_links_ok(4) servingD(1) by blast

lemma serving_set:
  assumes "serving E srv" "peer_at srv p = Some peer" "pr_io peer' = pr_io peer" "pr_decoder peer' = pr_decoder peer"
    "(pr_state peer' = PEER_STATE_CONNECTED) = (pr_state peer = PEER_STATE_CONNECTED)"
  shows "serving E (set_peer p peer' srv)"
  by (rule serving_links [OF assms(1) set_server_ok(3) [OF servingD(1) [OF assms(1)] assms(2-5)]])

lemma serving_decoder:
  assumes "serving E srv" "peer_at srv p = Some peer" "buf_ok (d_buf d)"
  shows "serving E (set_peer p (peer\<lparr>pr_decoder := Some d\<rparr>) srv)"
proof (rule servingI [OF assms(1)])
  let ?srv = "set_peer p (peer\<lparr>pr_decoder := Some d\<rparr>) srv"
  have ok: "peers_ok (\<lambda>_. 0) srv" "addrs_ok srv" "peer_count_ok srv" using servingD(1) [OF assms(1)] by (simp_all add: server_ok_def)
  have "peers_ok (\<lambda>_. 0) ?srv" by (rule set_peer_ok [OF ok(1) assms(2)]) (use assms(3) in auto)
  moreover have "addrs_ok ?srv" using ok(2) assms(2) by (auto simp: addrs_ok_def set_peer_def)
  moreover have "connected_peers ?srv = connected_peers srv"
    by (rule connected_cong) (use assms(2) in \<open>auto simp: set_peer_def obus_peer_is_connected_def\<close>)
  then have "peer_count_ok ?srv" using ok(3) by (simp add: peer_count_ok_def) (simp add: set_peer_def)
  ultimately show "server_ok (\<lambda>_. 0) ?srv" by (simp add: server_ok_def)
  show "no_more srv ?srv" using nm.rel_set [of srv p peer "peer\<lparr>pr_decoder := Some d\<rparr>" E] assms(2) servingD(3) [OF assms(1)] by simp
qed

lemma serving_destroy:
  assumes "serving E srv" "peer_at srv p = Some peer"
  shows "\<exists>srv'. obus_peer_destroy E srv p = (Inr (), srv') \<and> serving E srv'"
proof -
  obtain srv' where d: "obus_peer_destroy E srv p = (Inr (), srv')" "server_ok (\<lambda>_. 0) srv'"
    using peer_destroy_ok [OF servingD(1) [OF assms(1)] assms(2) servingD(3) [OF assms(1)]] by blast
  have "no_more srv srv'" using nm.rel_destroy [of E srv p] d(1) servingD(3) [OF assms(1)] by simp
  then show ?thesis using d servingI [OF assms(1)] by blast
qed

lemma serving_broadcast: "serving E srv \<Longrightarrow> tame encode \<Longrightarrow> serving E (snd (broadcast E encode srv))"
proof -
  assume a: "serving E srv" "tame encode"
  obtain r srv' where b: "broadcast E encode (srv\<lparr>sv_bus := sv_bus srv\<rparr>) = (r, srv')" by fastforce
  have "no_more srv srv'" using nm.rel_broadcast [of E srv encode] b servingD(3) [OF a(1)] by simp
  then show ?thesis using servingI [OF a(1) announce(1) [OF a b]] b by simp
qed

lemma serving_server_bus [simp]: "serving E srv \<Longrightarrow> serving E (snd (server_bus f srv))"
  by (simp add: server_bus_def split: prod.split)

lemma serving_no_fault: "serving E (snd x) \<Longrightarrow> serving E (snd (no_fault x))"
  by (cases x) (auto simp: no_fault_def split: sum.split errno.split)

lemma serving_chk: "serving E (snd x) \<Longrightarrow> (\<And>v srv. serving E srv \<Longrightarrow> serving E (snd (k v srv))) \<Longrightarrow> serving E (snd (chk x k))"
  by (rule chk_snd_inv [where P = "serving E"]) auto

lemma serving_pair: "serving E srv \<Longrightarrow> serving E (snd (r, srv))"
  by simp

lemmas serving_intros = serving_chk serving_broadcast serving_server_bus serving_no_fault serving_pair

text \<open>The functions of the interface.\<close>

lemma serving_objects:
  assumes "serving E srv"
  shows "serving E (snd (obus_server_register_object E srv p))" "serving E (snd (obus_server_unregister_object E srv p))"
    "obus_server_new_object E srv desc cbs info = Some (r, srv') \<Longrightarrow> serving E srv'"
proof -
  note t = tame_packets [OF servingD(2) [OF assms]]
  show "serving E (snd (obus_server_register_object E srv p))" unfolding obus_server_register_object_def
    by (auto simp: assms intro!: serving_intros t split: sum.split)
  show "serving E (snd (obus_server_unregister_object E srv p))" unfolding obus_server_unregister_object_def
    by (auto simp: assms intro!: serving_intros t split: sum.split)
  show "serving E srv'" if "obus_server_new_object E srv desc cbs info = Some (r, srv')"
    using that assms by (auto simp: obus_server_new_object_def Let_def split: option.splits prod.splits sum.splits if_splits)
qed

lemma serving_events:
  assumes "serving E srv"
  shows "serving E (snd (obus_server_send_event E srv p))" "serving E (snd (obus_server_send_bus_event E srv p))"
proof -
  note t = tame_packets [OF servingD(2) [OF assms]]
  show "serving E (snd (obus_server_send_event E srv p))" unfolding obus_server_send_event_def Let_def
    by (auto simp: assms intro!: serving_intros t split: sum.split option.split)
  have undo: "serving E (snd (undo_on_error event x k))" if "serving E (snd x)" "\<And>srv. serving E srv \<Longrightarrow> serving E (snd (k srv))" for event x k
    using that by (cases x) (auto simp: undo_on_error_def split: sum.split intro!: serving_intros)
  show "serving E (snd (obus_server_send_bus_event E srv p))" unfolding obus_server_send_bus_event_def
    by (auto simp: assms intro!: serving_intros undo t split: option.split)
qed

text \<open>An acknowledgement, a connection request and a call: what they do to the server, unless they use freed memory.\<close>

lemma serving_packet_buffer:
  assumes "serving E srv" "tame encode" "packet_buffer (se_mem E) encode srv = (Inl e, srv')"
  shows "serving E srv'"
proof (rule servingI [OF assms(1)])
  show "server_ok (\<lambda>_. 0) srv'" using packet_buffer_ok [OF servingD(1) [OF assms(1)] assms(2) servingD(2) [OF assms(1)] assms(3)] by simp
  show "no_more srv srv'" using nm.rel_packet [of E srv "se_mem E" encode] assms(3) servingD(3) [OF assms(1)] by simp
qed

lemma serving_ack:
  assumes "serving E srv" "obus_server_send_ack (se_mem E) srv handle status = (r, srv')" "r \<noteq> Inl FAULT"
  shows "serving E srv'"
proof (cases "sv_call srv = 0 \<or> calls (sv_bus srv) (sv_call srv) = None \<or> c_handle (the (calls (sv_bus srv) (sv_call srv))) \<noteq> handle")
  case True
  then show ?thesis using assms by (auto simp: obus_server_send_ack_def Let_def split: option.splits if_splits)
next
  case False
  then obtain call where c: "sv_call srv \<noteq> 0" "calls (sv_bus srv) (sv_call srv) = Some call" "c_handle call = handle" by auto
  let ?enc = "\<lambda>buf. obus_packet_ack_encode (se_mem E) buf \<lparr>ack_handle = c_handle call, ack_status = status\<rparr>"
  note sv = servingD [OF assms(1)] and t = tame_packets(8) [OF servingD(2) [OF assms(1)], of "\<lparr>ack_handle = c_handle call, ack_status = status\<rparr>"]
  obtain x srv1 where pb: "packet_buffer (se_mem E) ?enc srv = (x, srv1)" by fastforce
  show ?thesis
  proof (cases x)
    case (Inl e)
    then show ?thesis using assms(2) c pb serving_packet_buffer [OF assms(1) t] by (auto simp: obus_server_send_ack_def Let_def)
  next
    case (Inr b)
    obtain r2 srv2 where ps: "peer_send (se_mem E) srv1 (c_peer call) b = (r2, srv2)" by fastforce
    have f: "r2 \<noteq> Inl FAULT" using assms(2,3) c pb Inr ps by (auto simp: obus_server_send_ack_def Let_def no_fault_def)
    then obtain peer where p: "peer_at srv (c_peer call) = Some peer"
      using ps packet_buffer_frame(1) [OF pb] by (cases "peer_at srv (c_peer call)") (auto simp: peer_send_def peer_write_def)
    have "server_ok (\<lambda>_. 0) srv2" using send_one(2) [OF sv(1) t sv(2) p sv(6) [OF p] pb [unfolded Inr] ps] .
    moreover have "no_more srv srv2"
      using nm.rel_trans [OF _ nm.rel_send, of E srv srv1 "se_mem E" "c_peer call" b] nm.rel_packet [of E srv "se_mem E" ?enc] pb ps sv(3) by simp
    ultimately have s2: "serving E srv2" by (rule servingI [OF assms(1)])
    have "\<exists>s. srv' = srv2\<lparr>sv_bus := s, sv_call := 0\<rparr>"
      using assms(2) c pb Inr ps f by (cases r2) (auto simp: obus_server_send_ack_def Let_def no_fault_def split: errno.splits)
    then show ?thesis using s2 by auto
  qed
qed

lemma serving_conreq:
  assumes "serving E srv" "obus_peer_connection_request E srv p pkt = (Inr again, srv')"
  shows "serving E srv'"
proof (rule servingI [OF assms(1)])
  obtain peer where p: "peer_at srv p = Some peer" using assms(2) by (auto simp: obus_peer_connection_request_def split: option.splits)
  show "no_more srv srv'" using nm.rel_conreq [of E srv p pkt] assms(2) servingD(3) [OF assms(1)] by simp
  show "server_ok (\<lambda>_. 0) srv'"
  proof (cases "pr_state peer = PEER_STATE_IDLE")
    case True
    then show ?thesis using connection_request_ok [OF assms(1) p _ assms(2)] by blast
  next
    case False
    then show ?thesis using assms(2) p servingD(1) [OF assms(1)] by (simp add: obus_peer_connection_request_def)
  qed
qed

lemma serving_method:
  assumes "serving E srv" "orderly E"
  shows "serving E (snd (run_method E srv obj call))"
proof -
  have "serving E (srv\<lparr>sv_trace := t\<rparr>)" for t using assms(1) by (simp add: serving_def)
  then show ?thesis using assms by (simp add: run_method_def Let_def orderly_def)
qed

lemma serving_call:
  assumes "serving E srv" "orderly E" "obus_peer_call_request E srv p q = (r, srv')" "r \<noteq> Inl FAULT"
  shows "serving E srv'"
proof -
  let ?srv = "srv\<lparr>sv_call := q\<rparr>"
  obtain call obj where c: "calls (sv_bus srv) q = Some call" "objs (sv_bus srv) (c_obj call) = Some obj"
    using assms(3,4) by (auto simp: obus_peer_call_request_def Let_def split: option.splits)
  define x where "x = (if \<not> obus_object_is_registered (Some obj) then (OBUS_CALL_ABORTED, ?srv) else run_method E ?srv obj call)"
  have sx: "serving E (snd x)" using serving_method [OF _ assms(2), of ?srv] assms(1) by (simp add: x_def)
  obtain status srv1 where x: "x = (status, srv1)" by fastforce
  have run: "(case (calls (sv_bus srv1) q, peer_at srv1 p) of
              (Some call, Some _) \<Rightarrow>
                if c_status call = OBUS_CALL_INVALID then no_fault (obus_server_send_ack (se_mem E) srv1 (c_handle call) status)
                else (Inr (), srv1)
            | _ \<Rightarrow> (Inl FAULT, srv1)) = (r, srv')"
    using assms(3) c x by (simp add: obus_peer_call_request_def Let_def x_def [symmetric])
  have ack: "serving E srv'" if "no_fault (obus_server_send_ack (se_mem E) srv1 handle status) = (r, srv')" for handle
  proof -
    obtain r2 srv2 where a: "obus_server_send_ack (se_mem E) srv1 handle status = (r2, srv2)" by fastforce
    then have "srv' = srv2" "r2 \<noteq> Inl FAULT" using that assms(4) by (cases r2; auto simp: no_fault_def split: errno.splits)+
    then show ?thesis using serving_ack [OF _ a] sx x by simp
  qed
  then show ?thesis using run sx x assms(4) by (auto split: option.splits if_splits)
qed

lemma serving_packet:
  assumes "serving E srv" "orderly E" "server_packet E srv p info = (Inr again, srv')"
  shows "serving E srv'"
proof (cases info)
  case (Conreq pkt)
  then show ?thesis using serving_conreq [OF assms(1)] assms(3) by (simp add: server_packet_def)
next
  case (Call q)
  obtain call where c: "calls (sv_bus srv) q = Some call" using assms(3) Call by (auto simp: server_packet_def split: option.splits)
  let ?srv = "srv\<lparr>sv_bus := (sv_bus srv)\<lparr>calls := (calls (sv_bus srv))(q \<mapsto> call\<lparr>c_peer := p\<rparr>)\<rparr>\<rparr>"
  obtain r1 srv1 where cr: "obus_peer_call_request E ?srv p q = (r1, srv1)" by fastforce
  have r1: "r1 = Inr ()" "\<exists>s. srv' = srv1\<lparr>sv_bus := s\<rparr>" using assms(3) Call c cr by (cases r1; auto simp: server_packet_def split: prod.splits)+
  have "serving E srv1" by (rule serving_call [OF _ assms(2) cr]) (use assms(1) r1 in simp_all)
  then show ?thesis using r1(2) by auto
qed (use assms in \<open>auto simp: server_packet_def\<close>)

lemma serving_packets:
  assumes "serve_packets_loop E srv p = Some (Inr (), srv')" "serving E srv" "orderly E"
  shows "serving E srv'"
proof -
  have "orderly E \<longrightarrow> serving E srv \<longrightarrow> fst y = Inr () \<longrightarrow> serving E (snd y)" if "serve_packets_loop E srv p = Some y" for E srv p y
    using that
  proof (rule serve_packets_loop.raw_induct [rotated], goal_cases)
    case (1 loop E srv p y)
    show ?case
    proof (intro impI)
      assume a: "orderly E" "serving E srv" "fst y = Inr ()"
      obtain peer where p: "peer_at srv p = Some peer" using 1(2) a(3) by (auto split: option.splits)
      obtain d where d: "pr_decoder peer = Some d" "buf_ok (d_buf d)"
        using peers_okD(3) [of "\<lambda>_. 0" srv p peer] servingD(1) [OF a(2)] p by (auto simp: server_ok_def)
      obtain r d1 s where rd: "obus_packet_decoder_read (se_mem E) d (sv_bus srv) = Some (r, d1, s)"
        using 1(2) p d(1) by (auto split: option.splits)
      let ?srv = "(set_peer p (peer\<lparr>pr_decoder := Some d1\<rparr>) srv)\<lparr>sv_bus := s\<rparr>"
      have "buf_ok (d_buf d1)" by (rule decoder_read_keeps [OF rd d(2) servingD(2) [OF a(2)]])
      then have sv: "serving E ?srv" using serving_decoder [OF a(2) p] by simp
      show "serving E (snd y)"
      proof (cases r)
        case (Inl e)
        moreover have "serving E (snd (obus_peer_destroy E ?srv p))" using serving_destroy [OF sv, of p] by (auto simp: set_peer_def)
        ultimately show ?thesis using 1(2) p d(1) rd sv by (auto split: if_splits)
      next
        case (Inr info)
        obtain r2 srv2 where pk: "server_packet E ?srv p info = (r2, srv2)" by fastforce
        then have "(case r2 of Inl e \<Rightarrow> Some (Inl e, srv2) | Inr again \<Rightarrow> if again then loop E srv2 p else Some (Inr (), srv2)) = Some y"
          using 1(2) p d(1) rd Inr by (simp split: sum.splits)
        moreover have "serving E srv2" if "r2 = Inr again" for again using serving_packet [OF sv a(1)] pk that by simp
        ultimately show ?thesis using 1(1) [of E srv2 p y] a by (auto split: sum.splits if_splits)
      qed
    qed
  qed
  then show ?thesis using assms by fastforce
qed

lemma serving_read:
  assumes "serving E srv" "orderly E" "obus_peer_io_read_event E srv p events = Some (Inr (), srv')"
  shows "serving E srv'"
proof (cases "obus_fd_event_error events")
  case True
  then obtain peer where "peer_at srv p = Some peer" using assms(3) by (auto simp: obus_peer_io_read_event_def obus_peer_destroy_def split: option.splits)
  then show ?thesis using serving_destroy [OF assms(1)] assms(3) True by (force simp: obus_peer_io_read_event_def)
next
  case False
  then show ?thesis using assms serving_packets [OF _ assms(1,2)] by (auto simp: obus_peer_io_read_event_def split: if_splits)
qed

section \<open>Writes of a peer\<close>

text \<open>The packet in front leaves the queue; the two references to it are the caller's then.\<close>

lemma pop_ok:
  assumes "server_ok (\<lambda>_. 0) srv" "peer_at srv p = Some peer" "write_buffers (pr_io peer) = b # bs"
    "write_buffers io = bs" "nbr_written io = 0" "io_alive io" "io_bufs io = sv_bufs srv" "io_pool io = sv_pool srv"
  shows "server_ok ((\<lambda>_. 0)(b := 2)) (put_io srv p peer io)"
proof -
  let ?k = "(\<lambda>_. 0 :: int)(b := 2)" and ?srv = "put_io srv p peer io"
  have ok: "peers_ok (\<lambda>_. 0) srv" "addrs_ok srv" "peer_count_ok srv" using assms(1) by (simp_all add: server_ok_def)
  have io: "io_ok (peer_io srv peer)" by (rule peers_okD(2) [OF ok(1) assms(2)])
  then have b: "b \<notin> set bs" using assms(3) by (auto simp: io_ok_def peer_io_def)
  have "io_ok io" using io assms(3-8) by (auto simp: io_ok_def peer_io_def)
  then have "peers_ok ?k ?srv"
    by (rule put_io_ok [OF ok(1) assms(2)]) (use b assms(3,4,7,8) refs_okD(3) [OF ok(1)] in \<open>auto split: if_splits\<close>)
  moreover have "addrs_ok ?srv" using ok(2) assms(2,7) by (auto simp: addrs_ok_def put_io_def)
  moreover have "peer_count_ok ?srv" using ok(3) put_io_count [OF assms(2)] by simp
  ultimately show ?thesis by (simp add: server_ok_def)
qed

text \<open>The copies of the buffers in the io of a peer do not count.\<close>

lemma copies_ok:
  assumes "server_ok k srv" "peer_at srv p = Some peer" "pr_io peer' = (pr_io peer)\<lparr>io_bufs := bufs, io_pool := pool\<rparr>"
    "pr_decoder peer' = pr_decoder peer" "pr_state peer' = pr_state peer"
  shows "server_ok k (set_peer p peer' srv)"
proof -
  let ?srv = "set_peer p peer' srv"
  have ok: "peers_ok k srv" "addrs_ok srv" "peer_count_ok srv" using assms(1) by (simp_all add: server_ok_def)
  have q: "queue_at ?srv = queue_at srv" using assms(2,3) by (simp add: queue_at_def set_peer_def fun_eq_iff)
  have c: "connected_peers ?srv = connected_peers srv"
    by (rule connected_cong) (use assms(2,5) in \<open>auto simp: set_peer_def obus_peer_is_connected_def\<close>)
  have "peer_ok (sv_bufs srv) peer'" using ok(1) assms(2-4) by (simp add: peers_ok_def peer_ok_def)
  then have "peers_ok k ?srv" using ok(1) q assms(2) unfolding peers_ok_def refs_ok_def holders_def by (auto simp: set_peer_def)
  moreover have "addrs_ok ?srv" using ok(2) assms(2) by (auto simp: addrs_ok_def set_peer_def)
  moreover have "peer_count_ok ?srv" using ok(3) c by (simp add: peer_count_ok_def set_peer_def)
  ultimately show ?thesis by (simp add: server_ok_def)
qed

lemma io_unref_fields:
  "\<exists>bufs pool. io_unref io b = (fst (io_unref io b), io\<lparr>io_bufs := bufs, io_pool := pool\<rparr>)
    \<and> io_unref (server_io (put_io srv p peer io)) b = (fst (io_unref io b), (server_io (put_io srv p peer io))\<lparr>io_bufs := bufs, io_pool := pool\<rparr>)
    \<and> io_unref (io\<lparr>write_buffers := bs, nbr_written := n\<rparr>) b = (fst (io_unref io b), io\<lparr>write_buffers := bs, nbr_written := n, io_bufs := bufs, io_pool := pool\<rparr>)"
  by (cases io; cases "io_bufs io b") (auto simp: io_unref_def server_io_def put_io_def no_io_def split: prod.split)

lemma unref_put:
  assumes "server_ok k (put_io srv p peer io)" "0 < k b"
  shows "\<exists>io1. io_unref io b = (Inr (), io1) \<and> server_ok (k(b := k b - 1)) (put_io srv p peer io1) \<and> fd_out io1 = fd_out io \<and> io_alive io1 = io_alive io
    \<and> write_buffers io1 = write_buffers io \<and> nbr_written io1 = nbr_written io"
proof -
  let ?srv = "put_io srv p peer io"
  obtain srv' where u: "buf_unref ?srv b = (Inr (), srv')" "server_ok (k(b := k b - 1)) srv'" using unref_server_ok [OF assms] by blast
  obtain bufs pool where f: "io_unref io b = (fst (io_unref io b), io\<lparr>io_bufs := bufs, io_pool := pool\<rparr>)"
    "io_unref (server_io ?srv) b = (fst (io_unref io b), (server_io ?srv)\<lparr>io_bufs := bufs, io_pool := pool\<rparr>)"
    using io_unref_fields by blast
  let ?io = "io\<lparr>io_bufs := bufs, io_pool := pool\<rparr>"
  have srv': "srv' = ?srv\<lparr>sv_bufs := bufs, sv_pool := pool\<rparr>" "fst (io_unref io b) = Inr ()" using u(1) unfolding buf_unref_def by (subst (asm) f(2), simp)+
  have e: "put_io srv p peer ?io = set_peer p (peer\<lparr>pr_io := ?io\<rparr>) srv'" unfolding srv'(1) by (simp add: put_io_def set_peer_def)
  have at: "peer_at srv' p = Some (peer\<lparr>pr_io := io\<rparr>)" unfolding srv'(1) by (simp add: put_io_def)
  have "server_ok (k(b := k b - 1)) (put_io srv p peer ?io)"
    unfolding e by (rule copies_ok [where bufs = bufs and pool = pool, OF u(2) at]) simp_all
  moreover have "io_unref io b = (Inr (), ?io)" using f(1) unfolding srv'(2) .
  ultimately show ?thesis by (intro exI [of _ ?io]) simp
qed

lemma put_put: "put_io (put_io srv p peer io) p (peer\<lparr>pr_io := io\<rparr>) io' = put_io srv p peer io'" "peer_at (put_io srv p peer io) p = Some (peer\<lparr>pr_io := io\<rparr>)"
  by (simp_all add: put_io_def)

lemma ok_put: "server_ok k (put_io srv p peer io) \<Longrightarrow> io_ok io" "server_ok k (put_io srv p peer io) \<Longrightarrow> io_alive io"
proof -
  assume "server_ok k (put_io srv p peer io)"
  then have "io_ok (peer_io (put_io srv p peer io) (peer\<lparr>pr_io := io\<rparr>))" using peers_okD(2) [OF _ put_put(2), of k srv p peer io] by (simp add: server_ok_def)
  then show "io_ok io" by (simp add: peer_io_def put_io_def)
  then show "io_alive io" by (simp add: io_ok_def)
qed

lemma complete_put:
  assumes "server_ok (\<lambda>_. 0) (put_io srv p peer io)" "write_buffers io = b # bs"
  shows "\<exists>io1. (\<forall>cb. obus_io_write_buffer_complete cb io status = (Inr (), cb status b io1)) \<and> server_ok ((\<lambda>_. 0)(b := 1)) (put_io srv p peer io1)
    \<and> fd_out io1 = fd_out io"
proof -
  let ?io = "io\<lparr>write_buffers := bs, nbr_written := 0\<rparr>" and ?k = "(\<lambda>_. 0 :: int)(b := 2)"
  have "io_alive io" by (rule ok_put(2) [OF assms(1)])
  then have "server_ok ?k (put_io srv p peer ?io)"
    using pop_ok [OF assms(1) put_put(2), of b bs ?io] assms(2) by (simp add: put_put(1) put_io_def)
  then obtain io1 where io1: "io_unref ?io b = (Inr (), io1)" "server_ok (?k(b := ?k b - 1)) (put_io srv p peer io1)" "fd_out io1 = fd_out io"
    using unref_put [of ?k srv p peer ?io b] by auto
  obtain bufs pool where f: "io_unref io b = (fst (io_unref io b), io\<lparr>io_bufs := bufs, io_pool := pool\<rparr>)"
    "io_unref ?io b = (fst (io_unref io b), io\<lparr>write_buffers := bs, nbr_written := 0, io_bufs := bufs, io_pool := pool\<rparr>)"
    using io_unref_fields [of io b] by blast
  have i: "fst (io_unref io b) = Inr ()" "io1 = io\<lparr>write_buffers := bs, nbr_written := 0, io_bufs := bufs, io_pool := pool\<rparr>"
    using f(2) unfolding io1(1) by (simp_all add: prod_eq_iff)
  have "io_unref io b = (Inr (), io\<lparr>io_bufs := bufs, io_pool := pool\<rparr>)" using f(1) unfolding i(1) .
  then have "obus_io_write_buffer_complete cb io status = (Inr (), cb status b io1)" for cb
    using i(2) assms(2) by (cases io) (simp add: obus_io_write_buffer_complete_def)
  moreover have "?k(b := ?k b - 1) = (\<lambda>_. 0)(b := 1)" by simp
  ultimately show ?thesis using io1(2,3) by (intro exI [of _ io1]) (simp only: simp_thms)
qed

lemma put_same:
  assumes "server_ok k (put_io srv p peer io)" "write_buffers io' = write_buffers io" "io_alive io' = io_alive io" "io_bufs io' = io_bufs io" "io_pool io' = io_pool io"
    "\<And>b bs. write_buffers io = b # bs \<Longrightarrow> nbr_written io' \<le> blength (the (io_bufs io b))"
  shows "server_ok k (put_io srv p peer io')"
proof -
  let ?srv = "put_io srv p peer io" and ?srv' = "put_io srv p peer io'"
  have ok: "peers_ok k ?srv" "addrs_ok ?srv" "peer_count_ok ?srv" using assms(1) by (simp_all add: server_ok_def)
  have io: "io_ok io" by (rule ok_put [OF assms(1)])
  then have "io_ok io'" using assms(2-6) by (auto simp: io_ok_def)
  then have "peers_ok k (put_io ?srv p (peer\<lparr>pr_io := io\<rparr>) io')"
    by (rule put_io_ok [OF ok(1) put_put(2)])
      (use assms(2,4,5) refs_okD(1,3) [OF ok(1)] io in \<open>auto simp: put_io_def peer_io_def io_ok_def\<close>)
  moreover have "addrs_ok ?srv'" using ok(2) assms(4) by (simp add: addrs_ok_def put_io_def)
  moreover have "peer_count_ok ?srv'" using ok(3) put_io_count [OF put_put(2), of srv p peer io io'] by (simp add: put_put(1))
  ultimately show ?thesis by (simp add: server_ok_def put_put(1))
qed

lemma turn_put:
  assumes "server_ok (\<lambda>_. 0) (put_io srv p peer io)" "write_buffers io = b # bs" "io_bufs io b = Some buf" "obus_io_write_buffer io buf (nbr_written io) = (r, n, io1)"
  shows "set (fd_out io1) \<subseteq> set (fd_out io)"
    "server_ok (\<lambda>_. 0) (put_io srv p peer (io1\<lparr>nbr_written := sz (nbr_written io1 + n)\<rparr>))"
    "\<exists>io2. obus_io_write_buffer_complete user_done io1 OBUS_IO_OK = (Inr (), io2) \<and> fd_out io2 = fd_out io1 \<and> server_ok (\<lambda>_. 0) (put_io srv p peer io2)"
    "\<exists>io2. obus_io_write_buffer_complete user_done io1 OBUS_IO_ERROR = (Inr (), io2) \<and> \<not> io_alive io2"
proof -
  have buf: "buf_ok buf" "nbr_written io \<le> blength buf" using ok_put(1) [OF assms(1)] assms(2,3) by (auto simp: io_ok_def)
  obtain out where s: "io1 = io\<lparr>fd_out := out, fd_sent := fd_sent io @ take n (drop (nbr_written io) (content buf))\<rparr>"
    "nbr_written io + n \<le> blength buf" "set out \<subseteq> set (fd_out io)" using write_buffer_spec [OF buf(1,2) assms(4)] by blast
  show "set (fd_out io1) \<subseteq> set (fd_out io)" using s(1,3) by simp
  have z: "sz (nbr_written io + n) = nbr_written io + n" using s(2) buf_okD [OF buf(1)] by simp
  show "server_ok (\<lambda>_. 0) (put_io srv p peer (io1\<lparr>nbr_written := sz (nbr_written io1 + n)\<rparr>))"
    by (rule put_same [OF assms(1)]) (use s(1,2) z assms(2,3) in simp_all)
  have sv1: "server_ok (\<lambda>_. 0) (put_io srv p peer io1)" by (rule put_same [OF assms(1)]) (use s(1) buf(2) assms(2,3) in simp_all)
  have wb: "write_buffers io1 = b # bs" using s(1) assms(2) by simp
  let ?k = "(\<lambda>_. 0 :: int)(b := 1)"
  have two: "?k(b := ?k b - 1) = (\<lambda>_. 0)" by (simp add: fun_eq_iff)
  have comp: "\<exists>io2 io3. obus_io_write_buffer_complete user_done io1 status = (Inr (), user_done status b io2) \<and> fd_out io3 = fd_out io1
      \<and> io_unref io2 b = (Inr (), io3) \<and> server_ok (\<lambda>_. 0) (put_io srv p peer io3)" for status
  proof -
    obtain io2 where io2: "obus_io_write_buffer_complete user_done io1 status = (Inr (), user_done status b io2)"
      "server_ok ?k (put_io srv p peer io2)" "fd_out io2 = fd_out io1" using complete_put [OF sv1 wb, of status] by blast
    obtain io3 where "io_unref io2 b = (Inr (), io3)" "server_ok (?k(b := ?k b - 1)) (put_io srv p peer io3)" "fd_out io3 = fd_out io2"
      using unref_put [OF io2(2), of b] by auto
    then show ?thesis using io2 unfolding two by auto
  qed
  show "\<exists>io2. obus_io_write_buffer_complete user_done io1 OBUS_IO_OK = (Inr (), io2) \<and> fd_out io2 = fd_out io1 \<and> server_ok (\<lambda>_. 0) (put_io srv p peer io2)"
    using comp [of OBUS_IO_OK] by (auto simp: user_done_def)
  obtain io2 io3 where e: "obus_io_write_buffer_complete user_done io1 OBUS_IO_ERROR = (Inr (), user_done OBUS_IO_ERROR b io2)"
    "io_unref io2 b = (Inr (), io3)" "server_ok (\<lambda>_. 0) (put_io srv p peer io3)" using comp by blast
  have "distinct (write_buffers io3)" "\<forall>p\<in>set (write_buffers io3). \<exists>b. io_bufs io3 p = Some b \<and> 2 \<le> brefcnt b"
    using ok_put(1) [OF e(3)] by (auto simp: io_ok_def)
  then have "\<not> io_alive (snd (obus_io_destroy io3))" by (simp add: destroy_ok)
  then show "\<exists>io2. obus_io_write_buffer_complete user_done io1 OBUS_IO_ERROR = (Inr (), io2) \<and> \<not> io_alive io2" using e(1,2) by (simp add: user_done_def)
qed

lemma write_pending_put:
  assumes "write_pending user_done io = Some (Inr (), io')" "server_ok (\<lambda>_. 0) (put_io srv p peer io)"
  shows "server_ok (\<lambda>_. 0) (put_io srv p peer io') \<and> set (fd_out io') \<subseteq> set (fd_out io)"
proof -
  have "cb = user_done \<longrightarrow> fst y = Inr () \<longrightarrow> io_alive io \<and>
      (server_ok (\<lambda>_. 0) (put_io srv p peer io) \<longrightarrow> server_ok (\<lambda>_. 0) (put_io srv p peer (snd y)) \<and> set (fd_out (snd y)) \<subseteq> set (fd_out io))"
    if "write_pending cb io = Some y" for cb io y
    using that
  proof (rule write_pending.raw_induct [rotated], goal_cases)
    case (1 loop cb io y)
    show ?case
    proof (intro impI conjI)
      assume a: "cb = user_done" "fst y = Inr ()"
      then show "io_alive io" using 1(2) by (auto split: if_splits)
      assume sv: "server_ok (\<lambda>_. 0) (put_io srv p peer io)"
      have "server_ok (\<lambda>_. 0) (put_io srv p peer (snd y)) \<and> set (fd_out (snd y)) \<subseteq> set (fd_out io)"
      proof (cases "write_buffers io")
        case Nil
        then show ?thesis using 1(2) sv ok_put(2) [OF sv] by auto
      next
        case (Cons b bs)
        obtain buf where buf: "io_bufs io b = Some buf" using 1(2) Cons a(2) by (auto split: option.splits if_splits)
        obtain r n io1 where w: "obus_io_write_buffer io buf (nbr_written io) = (r, n, io1)" using prod_cases3 by blast
        note t = turn_put [OF sv Cons buf w]
        show ?thesis
        proof (cases "r = Inl FAULT \<or> r = Inl EAGAIN")
          case True
          then have "y = (Inr (), io1\<lparr>nbr_written := sz (nbr_written io1 + n)\<rparr>)" using 1(2) Cons buf w a(2) ok_put(2) [OF sv] by auto
          then show ?thesis using t(1,2) by simp
        next
          case False
          obtain io2 where c: "obus_io_write_buffer_complete user_done io1 (if r = Inr () then OBUS_IO_OK else OBUS_IO_ERROR) = (Inr (), io2)"
            "if r = Inr () then fd_out io2 = fd_out io1 \<and> server_ok (\<lambda>_. 0) (put_io srv p peer io2) else \<not> io_alive io2" using t(3,4) by (cases "r = Inr ()") auto
          have "loop cb io2 = Some y" using 1(2) Cons buf w False ok_put(2) [OF sv] a(1) c(1) by simp
          then show ?thesis using 1(1) [of cb io2 y] a c(2) subset_trans [OF _ t(1)] by (simp split: if_splits)
        qed
      qed
      then show "server_ok (\<lambda>_. 0) (put_io srv p peer (snd y))" "set (fd_out (snd y)) \<subseteq> set (fd_out io)" by blast+
    qed
  qed
  from this [OF assms(1)] show ?thesis using assms(2) by simp
qed

lemma put_own:
  assumes "serving E srv" "peer_at srv p = Some peer"
  shows "server_ok (\<lambda>_. 0) (put_io srv p peer (peer_io srv peer))"
proof -
  have e: "put_io srv p peer (peer_io srv peer) = set_peer p (peer\<lparr>pr_io := peer_io srv peer\<rparr>) srv" by (simp add: put_io_def set_peer_def peer_io_def)
  show ?thesis unfolding e
    by (rule copies_ok [where bufs = "sv_bufs srv" and pool = "sv_pool srv", OF servingD(1) [OF assms(1)] assms(2)]) (simp_all add: peer_io_def)
qed

lemma put_timer:
  assumes "serving E srv" "peer_at srv p = Some peer"
  shows "server_ok (\<lambda>_. 0) (put_io srv p peer ((peer_io srv peer)\<lparr>write_timer := 0\<rparr>))"
  by (rule put_same [OF put_own [OF assms]]) (use ok_put(1) [OF put_own [OF assms]] in \<open>simp_all add: io_ok_def\<close>)

lemma serving_failed:
  assumes "serving E srv" "peer_at srv p = Some peer" "peer_write_failed E srv p peer status = (Inr (), srv')" "status \<noteq> OBUS_IO_OK"
  shows "serving E srv'"
proof (rule servingI [OF assms(1)])
  let ?io = "(peer_io srv peer)\<lparr>write_timer := 0\<rparr>"
  note m = servingD(3) [OF assms(1)] and tm = put_timer [OF assms(1,2)]
  show "server_ok (\<lambda>_. 0) srv' " 
  proof (cases "write_buffers (pr_io peer)")
    case Nil
    then show ?thesis using assms(3) tm by (simp add: peer_write_failed_def obus_io_write_buffer_complete_def peer_io_def)
  next
    case (Cons b bs)
    then have "write_buffers ?io = b # bs" by (simp add: peer_io_def)
    from complete_put [OF tm this, of status] obtain io1 where c: "obus_io_write_buffer_complete (\<lambda>_ _ io. io) ?io status = (Inr (), io1)"
      "server_ok ((\<lambda>_. 0)(b := 1)) (put_io srv p peer io1)" by blast
    have k: "((\<lambda>_. 0 :: int)(b := 1))(b := ((\<lambda>_. 0)(b := 1)) b - 1) = (\<lambda>_. 0)" by (simp add: fun_eq_iff)
    obtain srv2 where u: "buf_unref (put_io srv p peer io1) b = (Inr (), srv2)" "server_ok (\<lambda>_. 0) srv2" "link_of srv2 = link_of (put_io srv p peer io1)"
      using unref_server_ok [OF c(2), of b] unfolding k by auto
    obtain peer2 where p2: "peer_at srv2 p = Some peer2" using link_of_eq(2) [of srv2 p "put_io srv p peer io1"] u(3) put_put(2) [of srv p peer io1] by fastforce
    have "obus_peer_destroy E srv2 p = (Inr (), srv')"
      using assms(3,4) Cons c(1) u(1) by (simp add: peer_write_failed_def obus_peer_io_write_done_def)
    then show ?thesis using peer_destroy_ok [OF u(2) p2 m] by auto
  qed
  have io: "fd_out (snd (obus_io_write_buffer_complete (\<lambda>_ _ io. io) ?io status)) = fd_out (pr_io peer)"
    by (auto simp: obus_io_write_buffer_complete_def peer_io_def io_unref_def split: list.split option.split prod.split)
  obtain r io1 where c: "obus_io_write_buffer_complete (\<lambda>_ _ io. io) ?io status = (r, io1)" by fastforce
  have "mild (se_user E) \<longrightarrow> no_more srv (put_io srv p peer io1)" by (rule nm.rel_io [OF assms(2)]) (use io c in simp)
  moreover have "mild (se_user E) \<longrightarrow> no_more srv1 (snd (obus_peer_io_write_done E srv1 p status b))" for srv1 b
    unfolding obus_peer_io_write_done_def by (rule nm.rel_chk) (auto simp: nm.rel_refs nm.rel_destroy nm.rel_refl)
  ultimately have "mild (se_user E) \<longrightarrow> no_more srv (snd (peer_write_failed E srv p peer status))"
    unfolding peer_write_failed_def c prod.case by (intro nm.rel_chk) (auto simp: nm.rel_refl split: list.split)
  then show "no_more srv srv'" using assms(3) m by simp
qed

lemma serving_write:
  assumes "serving E srv" "peer_write_event E srv p events = Some (Inr (), srv')"
  shows "serving E srv'"
proof -
  obtain peer where p: "peer_at srv p = Some peer" using assms(2) by (auto simp: peer_write_event_def split: option.splits)
  show ?thesis
  proof (cases "obus_fd_event_error events")
    case True
    then show ?thesis using serving_failed [OF assms(1) p, of OBUS_IO_ERROR] assms(2) p by (simp add: peer_write_event_def)
  next
    case False
    let ?io = "(peer_io srv peer)\<lparr>write_timer := 0\<rparr>"
    note tm = put_timer [OF assms(1) p]
    obtain io' where w: "obus_io_write_events user_done (peer_io srv peer) events = Some (Inr (), io')" "srv' = put_io srv p peer io'"
      using assms(2) p False by (auto simp: peer_write_event_def)
    have "server_ok (\<lambda>_. 0) (put_io srv p peer io') \<and> set (fd_out io') \<subseteq> set (fd_out ?io)"
    proof (cases "obus_fd_event_write events")
      case False
      then show ?thesis using w(1) \<open>\<not> obus_fd_event_error events\<close> tm by (auto simp: obus_io_write_events_def Let_def)
    next
      case True
      obtain io1 where io1: "write_pending user_done ?io = Some (Inr (), io1)"
        "io' = (if write_buffers io1 \<noteq> [] then io1\<lparr>write_timer := write_ready_timeout io1\<rparr> else io1\<lparr>write_watched := False\<rparr>)"
        using w(1) \<open>\<not> obus_fd_event_error events\<close> True by (auto simp: obus_io_write_events_def Let_def split: option.splits sum.splits)
      note wp = write_pending_put [OF io1(1) tm]
      have "server_ok (\<lambda>_. 0) (put_io srv p peer io')"
        by (rule put_same [OF conjunct1 [OF wp]]) (use ok_put(1) [OF conjunct1 [OF wp]] io1(2) in \<open>auto simp: io_ok_def\<close>)
      then show ?thesis using wp io1(2) by auto
    qed
    moreover have "fd_out ?io = fd_out (pr_io peer)" by (simp add: peer_io_def)
    ultimately show ?thesis using servingI [OF assms(1)] nm.rel_io [OF p, of io' E] servingD(3) [OF assms(1)] w(2) by simp
  qed
qed

section \<open>New peers\<close>

lemma add_peer_ok:
  assumes "server_ok (\<lambda>_. 0) srv" "peer_ok (sv_bufs srv) peer" "write_buffers (pr_io peer) = []" "pr_state peer = PEER_STATE_IDLE"
    "\<And>b. b \<in> set (free_bufs pool) \<Longrightarrow> buf_ok b"
  defines "p \<equiv> sv_next srv"
  shows "server_ok (\<lambda>_. 0) (srv\<lparr>sv_next := Suc p, sv_pool := pool, sv_peers := sv_peers srv @ [p], peer_at := (peer_at srv)(p \<mapsto> peer)\<rparr>)"
proof -
  let ?srv = "srv\<lparr>sv_next := Suc p, sv_pool := pool, sv_peers := sv_peers srv @ [p], peer_at := (peer_at srv)(p \<mapsto> peer)\<rparr>"
  have ok: "peers_ok (\<lambda>_. 0) srv" "addrs_ok srv" "peer_count_ok srv" using assms(1) by (simp_all add: server_ok_def)
  have new: "p \<notin> set (sv_peers srv)" "peer_at srv p = None" using ok(1,2) by (auto simp: addrs_ok_def peers_ok_def p_def)
  have q: "queue_at ?srv p = []" "\<And>q. q \<in> set (sv_peers srv) \<Longrightarrow> queue_at ?srv q = queue_at srv q" using assms(3) new(1) by (auto simp: queue_at_def)
  then have h: "holders ?srv b = holders srv b" for b by (simp add: holders_def cong: map_cong)
  have "refs_ok (\<lambda>_. 0) ?srv" using ok(1) h by (simp add: peers_ok_def refs_ok_def)
  then have "peers_ok (\<lambda>_. 0) ?srv" using ok(1) assms(2,5) new by (auto simp: peers_ok_def)
  moreover have "addrs_ok ?srv" using ok(2) by (auto simp: addrs_ok_def p_def)
  moreover have "connected_peers ?srv = connected_peers srv"
    using new(1) assms(4) by (auto simp: connected_peers_def obus_peer_is_connected_def intro!: filter_cong)
  then have "peer_count_ok ?srv" using ok(3) by (simp add: peer_count_ok_def)
  ultimately show ?thesis by (simp add: server_ok_def)
qed

lemma serving_accept:
  assumes "serving E srv" "obus_server_accept (se_mem E) timer_ok read_ok write_ok out inp log_io srv = (accepted, srv')"
    "Refuse FAULT \<notin> set out" "Suc (length (sv_peers srv)) < 2 ^ 64"
  shows "serving E srv'"
proof -
  note sv = servingD [OF assms(1)]
  have pool: "\<And>b. b \<in> set (free_bufs (sv_pool srv)) \<Longrightarrow> buf_ok b" using sv(1) refs_okD(3) by (auto simp: server_ok_def)
  show ?thesis
  proof (cases accepted)
    case False
    then have "srv' = srv"
      using assms(2) pool_peek_None by (auto simp: obus_server_accept_def Let_def split: if_splits option.splits prod.splits)
    then show ?thesis using assms(1) by simp
  next
    case True
    obtain io where io: "obus_io_new (se_mem E) timer_ok read_ok write_ok out (sv_bufs srv) (sv_pool srv) = Some io"
      using assms(2) True by (auto simp: obus_server_accept_def split: if_splits option.splits)
    obtain buf pool1 where pk: "obus_buffer_pool_peek (se_mem E) sizeof_buffer (sv_pool srv) = (Some buf, pool1)"
      using assms(2) True io by (auto simp: obus_server_accept_def Let_def split: if_splits option.splits prod.splits)
    note b = pool_peek_ok [OF pool sv(2) pk]
    let ?p = "sv_next srv" and ?buf = "(obus_buffer_clear (obus_buffer_ref buf))\<lparr>brefcnt := 1\<rparr>"
    have u: "obus_buffer_unref (obus_buffer_clear (obus_buffer_ref buf)) pool1 = (1, ?buf, pool1)"
      using b(2) by (simp add: obus_buffer_unref_def obus_buffer_clear_def Let_def)
    obtain peer where e: "srv' = srv\<lparr>sv_next := Suc ?p, sv_pool := pool1, sv_peers := sv_peers srv @ [?p], peer_at := (peer_at srv)(?p \<mapsto> peer)\<rparr>"
      "pr_io peer = io\<lparr>lograw := log_io\<rparr>" "pr_state peer = PEER_STATE_IDLE" "\<exists>d. pr_decoder peer = Some d \<and> d_buf d = ?buf"
      using assms(2) True io pk u
      by (auto simp: obus_server_accept_def Let_def new_peer_def obus_io_log_traffic_def obus_packet_decoder_init_def split: if_splits)
    have i: "write_buffers (pr_io peer) = []" "fd_out (pr_io peer) = out" "io_alive (pr_io peer)" using io e(2) by (auto simp: obus_io_new_def split: if_splits)
    have "buf_ok ?buf" using b(1) by (simp add: buf_ok_def obus_buffer_clear_def obus_buffer_ref_def)
    then have "peer_ok (sv_bufs srv) peer" using i e(4) by (auto simp: peer_ok_def)
    then have "server_ok (\<lambda>_. 0) srv'" unfolding e(1) by (rule add_peer_ok [OF sv(1)]) (use i e(3) b(3) pool in auto)
    then show ?thesis using sv assms(3,4) e(1) i(2) by (auto simp: serving_def split: if_splits)
  qed
qed

lemma serving_new:
  assumes "obus_server_new (se_mem E) loop_ok desc = Inr (Some srv)" "orderly E"
  shows "serving E srv"
proof -
  have s: "sv_peers srv = []" "peer_at srv = Map.empty" "sv_bufs srv = Map.empty" "n_peers_connected srv = 0" "0 < sv_next srv" "free_bufs (sv_pool srv) = []"
    using assms(1) by (auto simp: obus_server_new_def obus_buffer_pool_init_def split: option.splits if_splits sum.splits)
  have "server_ok (\<lambda>_. 0) srv" using s
    by (simp add: server_ok_def peers_ok_def refs_ok_def holders_def addrs_ok_def peer_count_ok_def connected_peers_def sz_def)
  then show ?thesis using assms(2) s by (simp add: serving_def orderly_def)
qed

section \<open>All that happens to a server\<close>

inductive server_step :: "server_env \<Rightarrow> obus_server \<Rightarrow> obus_server \<Rightarrow> bool" for E where
  start: "obus_server_start (se_mem E) sk_new srv addrs = (r, srv') \<Longrightarrow> server_step E srv srv'"
| callback: "obus_server_set_peer_connection_cb srv cb = (r, srv') \<Longrightarrow> server_step E srv srv'"
| accept: "obus_server_accept (se_mem E) timer_ok read_ok write_ok out inp log_io srv = (accepted, srv') \<Longrightarrow>
    Refuse FAULT \<notin> set out \<Longrightarrow> Suc (length (sv_peers srv)) < 2 ^ 64 \<Longrightarrow> server_step E srv srv'"
| readable: "obus_peer_io_read_event E srv p events = Some (Inr (), srv') \<Longrightarrow> server_step E srv srv'"
| writable: "peer_write_event E srv p events = Some (Inr (), srv') \<Longrightarrow> server_step E srv srv'"
| timer: "peer_write_timer E srv p = (Inr (), srv') \<Longrightarrow> server_step E srv srv'"
| user_data: "obus_peer_set_user_data srv p data = (Inr (), srv') \<Longrightarrow> server_step E srv srv'"
| new_object: "obus_server_new_object E srv od cbs info = Some (r', srv') \<Longrightarrow> server_step E srv srv'"
| register: "obus_server_register_object E srv p = (r, srv') \<Longrightarrow> server_step E srv srv'"
| unregister: "obus_server_unregister_object E srv p = (r, srv') \<Longrightarrow> server_step E srv srv'"
| event: "obus_server_send_event E srv p = (r, srv') \<Longrightarrow> server_step E srv srv'"
| bus_event: "obus_server_send_bus_event E srv p = (r, srv') \<Longrightarrow> server_step E srv srv'"
| ack: "obus_server_send_ack (se_mem E) srv handle status = (r, srv') \<Longrightarrow> r \<noteq> Inl FAULT \<Longrightarrow> server_step E srv srv'"

lemma serving_setup [simp]: "serving E (srv\<lparr>sv_state := st, n_sks := n\<rparr>) = serving E srv" "serving E (srv\<lparr>has_peer_cb := cb\<rparr>) = serving E srv"
  by (simp_all add: serving_def server_ok_def addrs_ok_def peer_count_ok_def connected_peers_def)

lemma serving_step:
  assumes "server_step E srv srv'" "serving E srv" "orderly E"
  shows "serving E srv'"
  using assms(1)
proof cases
  case (start sk_new addrs r)
  then show ?thesis using assms(2) by (auto simp: obus_server_start_def split: option.splits if_splits sum.splits)
next
  case (callback cb r)
  then show ?thesis using assms(2) by (auto simp: obus_server_set_peer_connection_cb_def)
next
  case (timer p)
  then show ?thesis using serving_failed [OF assms(2), of p _ OBUS_IO_TIMEOUT] by (auto simp: peer_write_timer_def split: option.splits)
next
  case (user_data p data)
  then obtain peer where "peer_at srv p = Some peer" "srv' = set_peer p (peer\<lparr>pr_user_data := data\<rparr>) srv"
    by (auto simp: obus_peer_set_user_data_def split: option.splits if_splits)
  then show ?thesis using serving_set [OF assms(2)] by simp
next
  case (register p r)
  then show ?thesis using serving_objects(1) [OF assms(2), of p] by simp
next
  case (unregister p r)
  then show ?thesis using serving_objects(2) [OF assms(2), of p] by simp
next
  case (event p r)
  then show ?thesis using serving_events(1) [OF assms(2), of p] by simp
next
  case (bus_event p r)
  then show ?thesis using serving_events(2) [OF assms(2), of p] by simp
next
  case accept
  then show ?thesis by (rule serving_accept [OF assms(2)])
next
  case readable
  then show ?thesis by (rule serving_read [OF assms(2,3)])
next
  case writable
  then show ?thesis by (rule serving_write [OF assms(2)])
next
  case new_object
  then show ?thesis by (rule serving_objects(3) [OF assms(2)])
next
  case ack
  then show ?thesis by (rule serving_ack [OF assms(2)])
qed

text \<open>
  C2. A server stays in order. In every state that a server reaches from its creation by connections, packets, write events, timeouts and calls of the
  interface, as long as no freed memory is used: the list of peers has each peer that exists once, the counter counts the connected peers (modulo
  the size of its type), and every packet in the queue of a peer is a buffer with two references for each queue it is in, of which not
  more has been written than it holds.
\<close>

theorem server_reachable:
  assumes "obus_server_new (se_mem E) loop_ok desc = Inr (Some srv0)" "orderly E" "(server_step E)\<^sup>*\<^sup>* srv0 srv"
  shows "distinct (sv_peers srv) \<and> set (sv_peers srv) = dom (peer_at srv) \<and> n_peers_connected srv = sz (length (connected_peers srv))
    \<and> (\<forall>p peer b bs. peer_at srv p = Some peer \<longrightarrow> write_buffers (pr_io peer) = b # bs \<longrightarrow> nbr_written (pr_io peer) \<le> blength (the (sv_bufs srv b)))
    \<and> (\<forall>p peer b. peer_at srv p = Some peer \<longrightarrow> b \<in> set (write_buffers (pr_io peer)) \<longrightarrow> (\<exists>buf. sv_bufs srv b = Some buf \<and> 2 * holders srv b \<le> brefcnt buf))"
proof -
  have "serving E srv" using assms(3)
  proof induction
    case base
    show ?case by (rule serving_new [OF assms(1,2)])
  next
    case (step srv srv')
    then show ?case using serving_step assms(2) by blast
  qed
  then have ok: "peers_ok (\<lambda>_. 0) srv" "peer_count_ok srv" using servingD(1) by (auto simp: server_ok_def)
  have "\<exists>buf. sv_bufs srv b = Some buf \<and> 2 * holders srv b \<le> brefcnt buf" if "peer_at srv p = Some peer" "b \<in> set (write_buffers (pr_io peer))" for p peer b
    using refs_okD(2) [OF ok(1), of b] holders_pos [of p srv b] peers_okD(1) [OF ok(1) that(1)] that by (auto simp: queue_at_def)
  then show ?thesis using ok unfolding peers_ok_def peer_ok_def peer_count_ok_def by auto
qed

section \<open>An example\<close>

lemma sample_server_new: "\<exists>srv. obus_server_new full_memory True (Some sample_bus) = Inr (Some srv) \<and> sv_peers srv = [] \<and> sv_next srv = 1"
proof -
  obtain b where "obus_bus_init full_memory sample_bus = Inr b" by (rule sample_start)
  then show ?thesis by (simp add: obus_server_new_def full_memory_alloc sizeof_server_def)
qed

lemma server_reachable_witness:
  "\<exists>srv0 srv. obus_server_new full_memory True (Some sample_bus) = Inr (Some srv0) \<and> (server_step sample_server_env)\<^sup>*\<^sup>* srv0 srv \<and> dom (peer_at srv) = {1}"
proof -
  obtain srv0 where n: "obus_server_new full_memory True (Some sample_bus) = Inr (Some srv0)" "sv_peers srv0 = []" "sv_next srv0 = 1" using sample_server_new by blast
  obtain acc srv where a: "obus_server_accept full_memory True True True [] [] False srv0 = (acc, srv)" by fastforce
  have p: "free_bufs (sv_pool srv0) = []" "buffsize (sv_pool srv0) = 1024"
    using n(1) by (auto simp: obus_server_new_def obus_buffer_pool_init_def OBUS_DEFAULT_BUFFER_SIZE_def split: option.splits if_splits sum.splits)
  have s: "sv_peers srv = [1]" using a n(2,3) p
    by (auto simp: obus_server_accept_def obus_io_new_def obus_io_log_traffic_def obus_buffer_pool_peek_def obus_buffer_new_def malloc_def full_memory_alloc
        sizeof_peer_def sizeof_io_def sizeof_buffer_def Let_def split: prod.splits)
  have "orderly sample_server_env" by (simp add: orderly_def mild_def quiet_def same_links_refl sample_server_env_def)
  moreover have st: "(server_step sample_server_env)\<^sup>*\<^sup>* srv0 srv" by (rule r_into_rtranclp, rule server_step.accept [where out = "[]"]) (use a n(2) in auto)
  ultimately have "set (sv_peers srv) = dom (peer_at srv)" using server_reachable [where E = sample_server_env, OF _ _ st] n(1) by simp
  then show ?thesis using n(1) st s by auto
qed

end
