(* ===== verification/Obus_Utils.thy ===== *)
theory Obus_Utils
  imports Obus_Prelude "HOL-Library.Sublist"
begin

text \<open>
  Helpers: \<open>obus_utils.c\<close>. Flags of file descriptors, the environment, random handles, and the log flags of a bus. What the
  system does is a parameter: \<open>getenv\<close> is a function, \<open>fcntl\<close> and \<open>read\<close> are the results of the calls. The functions of
  the C library that work on strings are defined here; a string has no NUL.
\<close>

section \<open>Strings of the C library\<close>

definition chars :: "string \<Rightarrow> u8 list" where
  "chars s = map of_char s"

text \<open>The position of the first occurrence.\<close>

fun strstr :: "u8 list \<Rightarrow> u8 list \<Rightarrow> nat option" where
  "strstr hay needle =
     (if prefix needle hay then Some 0
      else case hay of [] \<Rightarrow> None | _ # hay \<Rightarrow> map_option Suc (strstr hay needle))"

declare strstr.simps [simp del]

definition is_space :: "u8 \<Rightarrow> bool" where
  "is_space c \<longleftrightarrow> c = 32 \<or> 9 \<le> c \<and> c \<le> 13"

definition is_digit :: "u8 \<Rightarrow> bool" where
  "is_digit c \<longleftrightarrow> 48 \<le> c \<and> c \<le> 57"

definition decimal :: "u8 list \<Rightarrow> nat" where
  "decimal ds = foldl (\<lambda>n d. 10 * n + (unat d - 48)) 0 ds"

text \<open>
  The sign and the digits of a number behind white space; there is no number when there are no digits.
\<close>

definition scan_number :: "u8 list \<Rightarrow> (bool \<times> nat) option" where
  "scan_number s =
     (let s = dropWhile is_space s;
          neg = (s \<noteq> [] \<and> hd s = 45);
          s = (if s \<noteq> [] \<and> (hd s = 45 \<or> hd s = 43) then tl s else s);
          ds = takeWhile is_digit s
      in if ds = [] then None else Some (neg, decimal ds))"

text \<open>\<open>None\<close> when nothing is converted. A number that is too great becomes the greatest one; a negative one wraps around.\<close>

definition strtoul :: "u8 list \<Rightarrow> nat option" where
  "strtoul s =
     map_option (\<lambda>(neg, n). if 2 ^ 64 \<le> n then 2 ^ 64 - 1 else if neg then (2 ^ 64 - n) mod 2 ^ 64 else n) (scan_number s)"

text \<open>\<open>atoi\<close> is \<open>strtol\<close> cut to an \<open>int\<close>, and 0 when there is no number.\<close>

definition strtol :: "u8 list \<Rightarrow> int" where
  "strtol s =
     (case scan_number s of None \<Rightarrow> 0
      | Some (neg, n) \<Rightarrow> if neg then max (- int n) (- (2 ^ 63)) else min (int n) (2 ^ 63 - 1))"

definition atoi :: "u8 list \<Rightarrow> 32 word" where
  "atoi s = of_int (strtol s)"

text \<open>What \<open>printf\<close> writes for \<open>%d\<close> and a number that is not negative.\<close>

fun print_nat :: "nat \<Rightarrow> u8 list" where
  "print_nat n = (if n < 10 then [of_nat (48 + n)] else print_nat (n div 10) @ [of_nat (48 + n mod 10)])"

declare print_nat.simps [simp del]

lemma digit_char: "d < 10 \<Longrightarrow> is_digit (of_nat (48 + d)) \<and> unat (of_nat (48 + d) :: u8) = 48 + d"
proof -
  assume d: "d < 10"
  then have u: "unat (of_nat (48 + d) :: u8) = 48 + d" by (subst unat_of_nat) simp
  have "unat (48 :: u8) = 48" "unat (57 :: u8) = 57" by simp_all
  then show ?thesis using d u by (simp only: is_digit_def word_le_nat_alt) linarith
qed

lemma print_nat_digits: "c \<in> set (print_nat n) \<Longrightarrow> is_digit c"
proof (induction n rule: print_nat.induct)
  case (1 n)
  then show ?case
    using digit_char [of n] digit_char [of "n mod 10"]
    by (simp only: print_nat.simps [of n] split: if_splits) auto
qed

lemma decimal_snoc: "decimal (ds @ [d]) = 10 * decimal ds + (unat d - 48)"
  by (simp add: decimal_def)

lemma decimal_print [simp]: "decimal (print_nat n) = n"
proof (induction n rule: print_nat.induct)
  case (1 n)
  show ?case
  proof (cases "n < 10")
    case True
    then have "decimal (print_nat n) = unat (of_nat (48 + n) :: u8) - 48"
      by (simp add: print_nat.simps [of n] decimal_def)
    then show ?thesis using digit_char [OF True] by simp
  next
    case False
    then have "decimal (print_nat n) = 10 * (n div 10) + (unat (of_nat (48 + n mod 10) :: u8) - 48)"
      using 1 by (simp add: print_nat.simps [of n] decimal_snoc)
    also have "unat (of_nat (48 + n mod 10) :: u8) = 48 + n mod 10" using digit_char [of "n mod 10"] by simp
    finally show ?thesis by simp
  qed
qed

lemma print_nat_nonempty [simp]: "print_nat n \<noteq> []"
  by (simp add: print_nat.simps [of n])

lemma is_digit_not: "is_digit c \<Longrightarrow> \<not> is_space c \<and> c \<noteq> 45 \<and> c \<noteq> 43 \<and> c \<noteq> 0 \<and> c \<noteq> 58"
  by (auto simp: is_digit_def is_space_def word_le_nat_alt)

lemma scan_print [simp]: "scan_number (print_nat n) = Some (False, n)"
proof -
  have all: "\<forall>c\<in>set (print_nat n). is_digit c" using print_nat_digits by blast
  have h: "hd (print_nat n) \<in> set (print_nat n)" by simp
  then have "is_digit (hd (print_nat n))" using all by blast
  then have "dropWhile is_space (print_nat n) = print_nat n" "hd (print_nat n) \<noteq> 45" "hd (print_nat n) \<noteq> 43"
    using is_digit_not by (cases "print_nat n"; force)+
  moreover have "takeWhile is_digit (print_nat n) = print_nat n" using all takeWhile_eq_all_conv by blast
  ultimately show ?thesis by (simp add: scan_number_def Let_def del: takeWhile_eq_all_conv)
qed

lemma atoi_print: "n < 2 ^ 31 \<Longrightarrow> atoi (print_nat n) = of_nat n"
  by (simp add: atoi_def strtol_def)

lemma strtoul_print: "n < 2 ^ 64 \<Longrightarrow> strtoul (print_nat n) = Some n"
  by (simp add: strtoul_def)

section \<open>File descriptors\<close>

text \<open>
  The system calls on descriptors, as functions on the state \<open>'k\<close> of the system. They are parameters; the other components
  extend the record with the calls they make.
\<close>

record 'k fd_system =
  sys_getfd :: "int \<Rightarrow> 'k \<Rightarrow> u32 res \<times> 'k"
  sys_setfd :: "int \<Rightarrow> u32 \<Rightarrow> 'k \<Rightarrow> unit res \<times> 'k"
  sys_getfl :: "int \<Rightarrow> 'k \<Rightarrow> u32 res \<times> 'k"
  sys_setfl :: "int \<Rightarrow> u32 \<Rightarrow> 'k \<Rightarrow> unit res \<times> 'k"
  sys_dup :: "int \<Rightarrow> 'k \<Rightarrow> int res \<times> 'k"
  sys_close :: "int \<Rightarrow> 'k \<Rightarrow> unit res \<times> 'k"

definition FD_CLOEXEC :: u32 where "FD_CLOEXEC = 1"

definition obus_fd_set_close_on_exec :: "('k, 'z) fd_system_scheme \<Rightarrow> int \<Rightarrow> 'k \<Rightarrow> unit res \<times> 'k" where
  "obus_fd_set_close_on_exec S fd k =
     chk (sys_getfd S fd k) (\<lambda>old k. chk (sys_setfd S fd (FD_CLOEXEC OR old) k) (\<lambda>_ k. (Inr (), k)))"

definition obus_fd_has_close_on_exec :: "('k, 'z) fd_system_scheme \<Rightarrow> int \<Rightarrow> 'k \<Rightarrow> bool \<times> 'k" where
  "obus_fd_has_close_on_exec S fd k =
     (case sys_getfd S fd k of (Inl _, k) \<Rightarrow> (False, k) | (Inr flags, k) \<Rightarrow> (flags AND FD_CLOEXEC \<noteq> 0, k))"

definition obus_fd_add_flags :: "('k, 'z) fd_system_scheme \<Rightarrow> int \<Rightarrow> u32 \<Rightarrow> 'k \<Rightarrow> unit res \<times> 'k" where
  "obus_fd_add_flags S fd flags k =
     chk (sys_getfl S fd k) (\<lambda>old k. chk (sys_setfl S fd (old OR flags) k) (\<lambda>_ k. (Inr (), k)))"

definition obus_fd_dup :: "('k, 'z) fd_system_scheme \<Rightarrow> int \<Rightarrow> 'k \<Rightarrow> int res \<times> 'k" where
  "obus_fd_dup S fd k =
     chk (sys_dup S fd k) (\<lambda>newfd k.
       let (has, k) = obus_fd_has_close_on_exec S fd k in
       if has
       then (case obus_fd_set_close_on_exec S newfd k of
               (Inl e, k) \<Rightarrow> (Inl e, snd (sys_close S newfd k))
             | (Inr _, k) \<Rightarrow> (Inr newfd, k))
       else (Inr newfd, k))"

text \<open>
  What the manual pages say of the set of open descriptors: reading and setting flags leaves it alone, a new descriptor was not
  open before, and a closed one is not open any more.
\<close>

definition adds_fd :: "('k \<Rightarrow> int set) \<Rightarrow> ('k \<Rightarrow> int res \<times> 'k) \<Rightarrow> bool" where
  "adds_fd opened call \<longleftrightarrow>
     (\<forall>k. case call k of (Inl _, k') \<Rightarrow> opened k' = opened k
          | (Inr fd, k') \<Rightarrow> 0 \<le> fd \<and> fd \<notin> opened k \<and> opened k' = insert fd (opened k))"

definition keeps_fds :: "('k \<Rightarrow> int set) \<Rightarrow> ('k \<Rightarrow> 'r \<times> 'k) \<Rightarrow> bool" where
  "keeps_fds opened call \<longleftrightarrow> (\<forall>k. opened (snd (call k)) = opened k)"

definition fd_laws :: "('k, 'z) fd_system_scheme \<Rightarrow> ('k \<Rightarrow> int set) \<Rightarrow> bool" where
  "fd_laws S opened \<longleftrightarrow>
     (\<forall>fd. keeps_fds opened (sys_getfd S fd)) \<and> (\<forall>fd flags. keeps_fds opened (sys_setfd S fd flags)) \<and>
     (\<forall>fd. keeps_fds opened (sys_getfl S fd)) \<and> (\<forall>fd flags. keeps_fds opened (sys_setfl S fd flags)) \<and>
     (\<forall>fd. adds_fd opened (sys_dup S fd)) \<and> (\<forall>fd k. opened (snd (sys_close S fd k)) = opened k - {fd})"

lemma adds_fdE:
  assumes "adds_fd opened call"
  obtains (err) e k' where "call k = (Inl e, k')" "opened k' = opened k"
  | (ok) fd k' where "call k = (Inr fd, k')" "0 \<le> fd" "fd \<notin> opened k" "opened k' = insert fd (opened k)"
proof (cases "call k")
  case (Pair r k')
  then show thesis using assms err ok unfolding adds_fd_def by (cases r) (fastforce split: prod.splits)+
qed

lemma keeps_fdsD: "keeps_fds opened call \<Longrightarrow> opened (snd (call k)) = opened k"
  by (simp add: keeps_fds_def)

lemma keeps_fds_chk:
  assumes "keeps_fds opened f" "\<And>x. keeps_fds opened (g x)"
  shows "keeps_fds opened (\<lambda>k. chk (f k) g)"
  unfolding keeps_fds_def
proof
  fix k
  show "opened (snd (chk (f k) g)) = opened k"
  proof (cases rule: chk_cases [of "f k" g])
    case (err e k1)
    then show ?thesis using keeps_fdsD [OF assms(1), of k] by simp
  next
    case (ok x k1)
    then show ?thesis using keeps_fdsD [OF assms(1), of k] keeps_fdsD [OF assms(2), of x k1] by simp
  qed
qed

lemma fd_laws_keeps:
  assumes "fd_laws S opened"
  shows "keeps_fds opened (obus_fd_set_close_on_exec S fd)" "keeps_fds opened (obus_fd_has_close_on_exec S fd)"
    "keeps_fds opened (obus_fd_add_flags S fd flags)" "opened (snd (sys_close S fd k)) = opened k - {fd}"
proof -
  have g: "keeps_fds opened (sys_getfd S fd)" "keeps_fds opened (sys_setfd S fd flags)" "keeps_fds opened (sys_getfl S fd)"
    "keeps_fds opened (sys_setfl S fd flags)" for fd flags
    using assms by (simp_all add: fd_laws_def)
  have r: "keeps_fds opened (Pair x)" for x :: "unit res" by (simp add: keeps_fds_def)
  show "keeps_fds opened (obus_fd_set_close_on_exec S fd)" "keeps_fds opened (obus_fd_add_flags S fd flags)"
    unfolding obus_fd_set_close_on_exec_def obus_fd_add_flags_def by (intro keeps_fds_chk g r)+
  show "keeps_fds opened (obus_fd_has_close_on_exec S fd)"
    unfolding keeps_fds_def
  proof
    fix k
    obtain r k' where get: "sys_getfd S fd k = (r, k')" by fastforce
    then have "opened k' = opened k" using keeps_fdsD [OF g(1), of fd k] by simp
    then show "opened (snd (obus_fd_has_close_on_exec S fd k)) = opened k"
      by (cases r) (simp_all add: obus_fd_has_close_on_exec_def get)
  qed
  show "opened (snd (sys_close S fd k)) = opened k - {fd}" using assms by (simp add: fd_laws_def)
qed

text \<open>A duplicate is one more open descriptor; when its flags cannot be set it is closed again.\<close>

lemma fd_dup_adds:
  assumes "fd_laws S opened"
  shows "adds_fd opened (obus_fd_dup S fd)"
  unfolding adds_fd_def
proof
  fix k
  note keeps = fd_laws_keeps [OF assms]
  have "adds_fd opened (sys_dup S fd)" using assms by (simp add: fd_laws_def)
  then show "case obus_fd_dup S fd k of (Inl _, k') \<Rightarrow> opened k' = opened k
    | (Inr n, k') \<Rightarrow> 0 \<le> n \<and> n \<notin> opened k \<and> opened k' = insert n (opened k)"
  proof (cases rule: adds_fdE [where k = k])
    case (err e k')
    then show ?thesis by (simp add: obus_fd_dup_def)
  next
    case (ok n k1)
    obtain has k2 where has: "obus_fd_has_close_on_exec S fd k1 = (has, k2)" by fastforce
    have k2: "opened k2 = insert n (opened k)" using keeps_fdsD [OF keeps(2), of fd k1] has ok by simp
    obtain r k3 where set: "obus_fd_set_close_on_exec S n k2 = (r, k3)" by fastforce
    have k3: "opened k3 = insert n (opened k)" using keeps_fdsD [OF keeps(1), of n k2] set k2 by simp
    show ?thesis using ok has set k2 k3 by (cases r) (auto simp: obus_fd_dup_def keeps(4))
  qed
qed

text \<open>
  \<open>do ret = call(); while (ret < 0 && errno == EINTR);\<close>
\<close>

partial_function (option) retry_eintr :: "('k \<Rightarrow> 'a res \<times> 'k) \<Rightarrow> 'k \<Rightarrow> ('a res \<times> 'k) option" where
  "retry_eintr call k =
     (case call k of (r, k') \<Rightarrow> (case r of Inl e \<Rightarrow> if e = EINTR then retry_eintr call k' else Some (Inl e, k')
      | Inr x \<Rightarrow> Some (Inr x, k')))"

lemma retry_eintr_result:
  "retry_eintr call k = Some (r, k') \<Longrightarrow> r \<noteq> Inl EINTR \<and> (\<exists>k0. call k0 = (r, k'))"
proof (induction call k "(r, k')" rule: retry_eintr.raw_induct [rotated, consumes 1, case_names step])
  case (step f call k)
  then show ?case by (auto split: prod.splits sum.splits if_splits)
qed

text \<open>The call is not interrupted for ever.\<close>

definition settles :: "('k \<Rightarrow> 'a res \<times> 'k) \<Rightarrow> 'k \<Rightarrow> bool" where
  "settles call k \<longleftrightarrow> (\<exists>m. fst (call (((\<lambda>k. snd (call k)) ^^ m) k)) \<noteq> Inl EINTR)"

lemma retry_eintr_total: "settles call k \<Longrightarrow> \<exists>r. retry_eintr call k = Some r"
proof -
  have "fst (call (((\<lambda>k. snd (call k)) ^^ m) k)) \<noteq> Inl EINTR \<Longrightarrow> \<exists>r. retry_eintr call k = Some r" for m
  proof (induction m arbitrary: k)
    case 0
    then show ?case by (subst retry_eintr.simps) (auto split: prod.split sum.split)
  next
    case (Suc m)
    obtain r k' where c: "call k = (r, k')" by fastforce
    have "\<exists>r. retry_eintr call k' = Some r" using Suc.IH [of k'] Suc.prems c by (simp add: funpow_Suc_right del: funpow.simps)
    then show ?case by (subst retry_eintr.simps) (auto simp: c split: sum.split)
  qed
  then show "settles call k \<Longrightarrow> \<exists>r. retry_eintr call k = Some r" unfolding settles_def by blast
qed

lemma retry_eintr_inv:
  assumes "retry_eintr call k = Some (r, k')" "P k" "\<And>k. P k \<Longrightarrow> P (snd (call k))"
  shows "P k'"
  using assms
proof (induction call k "(r, k')" rule: retry_eintr.raw_induct [rotated, consumes 1, case_names step])
  case (step f call k)
  obtain r1 k1 where c: "call k = (r1, k1)" by fastforce
  have "P k1" using step(3) step(4) [of k] c by simp
  then show ?case using step c by (auto split: sum.splits if_splits)
qed

section \<open>The environment\<close>

type_synonym environment = "u8 list \<Rightarrow> u8 list option"

definition obus_get_env :: "environment \<Rightarrow> u8 list option \<Rightarrow> u8 list option" where
  "obus_get_env getenv key = (case key of None \<Rightarrow> None | Some key \<Rightarrow> getenv key)"

definition obus_get_env_uint32 :: "environment \<Rightarrow> u8 list option \<Rightarrow> u32 res" where
  "obus_get_env_uint32 getenv key =
     (case key of None \<Rightarrow> Inl ENOENT | Some key \<Rightarrow>
     (case getenv key of None \<Rightarrow> Inl ENOENT | Some env \<Rightarrow>
      if env = [] then Inl ENOENT
      else case strtoul env of None \<Rightarrow> Inl ENOENT | Some val \<Rightarrow> Inr (of_nat val)))"

definition obus_check_env :: "environment \<Rightarrow> u8 list option \<Rightarrow> u8 list option \<Rightarrow> bool" where
  "obus_check_env getenv key value =
     (case (obus_get_env getenv key, value) of (Some v, Some value) \<Rightarrow> v = value | _ \<Rightarrow> False)"

text \<open>The reads of the random file; \<open>None\<close> when more of them would follow.\<close>

fun rand_reads :: "u16 res list \<Rightarrow> u16 option" where
  "rand_reads [] = None"
| "rand_reads (Inl e # reads) = (if e = EINTR then rand_reads reads else Some 0)"
| "rand_reads (Inr h # reads) = (if h = 0 then rand_reads reads else Some h)"

text \<open>\<open>opens\<close> says which of the random files can be opened. The value 0 is \<open>OBUS_INVALID_HANDLE\<close>.\<close>

definition obus_rand_handle :: "bool list \<Rightarrow> u16 res list \<Rightarrow> u16 option" where
  "obus_rand_handle opens reads = (if True \<notin> set opens then Some 0 else rand_reads reads)"

section \<open>Log flags\<close>

definition comma :: u8 where "comma = 44"

text \<open>The loop of \<open>obus_bus_has_flag\<close> at position \<open>pos\<close> of the value.\<close>

partial_function (option) has_flag_from :: "u8 list \<Rightarrow> u8 list \<Rightarrow> nat \<Rightarrow> bool option" where
  "has_flag_from v name pos =
     (case strstr (drop pos v) name of None \<Rightarrow> Some False | Some k \<Rightarrow>
      let start = pos + k; stop = start + length name in
      if (start = 0 \<or> v ! (start - 1) = comma) \<and> (stop = length v \<or> v ! stop = comma) then Some True
      else has_flag_from v name stop)"

definition obus_bus_has_flag :: "environment \<Rightarrow> u8 list \<Rightarrow> u8 list \<Rightarrow> bool option" where
  "obus_bus_has_flag getenv flag bus_name =
     (case obus_get_env getenv (Some flag) of None \<Rightarrow> Some False | Some v \<Rightarrow>
      if v = chars ''all'' \<or> v = chars ''1'' then Some True else has_flag_from v bus_name 0)"

text \<open>\<open>OBUS_LOG_BUS\<close>, \<open>OBUS_LOG_IO\<close>, \<open>OBUS_LOG_SOCKET\<close> and \<open>OBUS_LOG_CONNECTION\<close> of \<open>obus_utils.h\<close>.\<close>

definition OBUS_LOG_BUS :: u32 where "OBUS_LOG_BUS = 1"
definition OBUS_LOG_IO :: u32 where "OBUS_LOG_IO = 2"
definition OBUS_LOG_SOCKET :: u32 where "OBUS_LOG_SOCKET = 4"
definition OBUS_LOG_CONNECTION :: u32 where "OBUS_LOG_CONNECTION = 8"

text \<open>One flag is added when all of them are wanted or when its own variable names the bus.\<close>

definition add_log_flag :: "environment \<Rightarrow> u8 list \<Rightarrow> bool \<Rightarrow> string \<Rightarrow> u32 \<Rightarrow> u32 \<Rightarrow> u32 option" where
  "add_log_flag getenv bus_name everything key flag flags =
     (if everything then Some (flags OR flag)
      else map_option (\<lambda>has. if has then flags OR flag else flags) (obus_bus_has_flag getenv (chars key) bus_name))"

definition obus_get_log_flags_from_env :: "environment \<Rightarrow> u8 list \<Rightarrow> u32 option" where
  "obus_get_log_flags_from_env getenv bus_name =
     Option.bind (obus_bus_has_flag getenv (chars ''OBUS_LOG_ALL'') bus_name) (\<lambda>everything.
     Option.bind (add_log_flag getenv bus_name everything ''OBUS_LOG_IO'' OBUS_LOG_IO 0) (\<lambda>flags.
     Option.bind (add_log_flag getenv bus_name everything ''OBUS_LOG_BUS'' OBUS_LOG_BUS flags) (\<lambda>flags.
     Option.bind (add_log_flag getenv bus_name everything ''OBUS_LOG_SOCKET'' OBUS_LOG_SOCKET flags) (\<lambda>flags.
     add_log_flag getenv bus_name everything ''OBUS_LOG_CONNECTION'' OBUS_LOG_CONNECTION flags))))"

section \<open>The reference: a list with commas\<close>

function comma_list :: "u8 list \<Rightarrow> u8 list list" where
  "comma_list v =
     (let w = takeWhile (\<lambda>c. c \<noteq> comma) v; rest = dropWhile (\<lambda>c. c \<noteq> comma) v
      in if rest = [] then [w] else w # comma_list (tl rest))"
  by pat_completeness auto
termination
proof (relation "measure length")
  fix v w :: "u8 list" and rest
  assume rest: "rest = dropWhile (\<lambda>c. c \<noteq> comma) v" "rest \<noteq> []"
  have "length (tl rest) < length rest" using rest(2) by simp
  also have "\<dots> \<le> length v" unfolding rest(1) by (rule length_dropWhile_le)
  finally show "(tl rest, v) \<in> measure length" by simp
qed simp

declare comma_list.simps [simp del]

definition names_bus :: "u8 list \<Rightarrow> u8 list \<Rightarrow> bool" where
  "names_bus v name \<longleftrightarrow> v = chars ''all'' \<or> v = chars ''1'' \<or> name \<in> set (comma_list v)"

definition log_wanted :: "environment \<Rightarrow> u8 list \<Rightarrow> string \<Rightarrow> bool" where
  "log_wanted getenv bus_name key \<longleftrightarrow> (case getenv (chars key) of None \<Rightarrow> False | Some v \<Rightarrow> names_bus v bus_name)"

definition listed_at :: "u8 list \<Rightarrow> u8 list \<Rightarrow> nat \<Rightarrow> bool" where
  "listed_at v name i \<longleftrightarrow>
     prefix name (drop i v) \<and> i + length name \<le> length v \<and> (i = 0 \<or> v ! (i - 1) = comma) \<and>
     (i + length name = length v \<or> v ! (i + length name) = comma)"

lemma free_nth: "comma \<notin> set v \<Longrightarrow> i < length v \<Longrightarrow> v ! i \<noteq> comma"
  using nth_mem by metis

lemma comma_list_free:
  assumes "comma \<notin> set v"
  shows "comma_list v = [v]"
proof -
  have "\<forall>x\<in>set v. x \<noteq> comma" using assms by auto
  then have "takeWhile (\<lambda>c. c \<noteq> comma) v = v" "dropWhile (\<lambda>c. c \<noteq> comma) v = []"
    by (simp_all add: takeWhile_eq_all_conv dropWhile_eq_Nil_conv)
  then show ?thesis by (simp add: comma_list.simps [of v])
qed

lemma comma_list_comma:
  assumes "comma \<notin> set w"
  shows "comma_list (w @ comma # r) = w # comma_list r"
proof -
  have "\<forall>x\<in>set w. x \<noteq> comma" using assms by auto
  then have "takeWhile (\<lambda>c. c \<noteq> comma) (w @ comma # r) = w" "dropWhile (\<lambda>c. c \<noteq> comma) (w @ comma # r) = comma # r"
    by (simp_all add: takeWhile_append dropWhile_append)
  then show ?thesis by (simp add: comma_list.simps [of "w @ comma # r"])
qed

lemma listed_free:
  assumes "comma \<notin> set v"
  shows "(\<exists>i. listed_at v name i) \<longleftrightarrow> name = v"
proof
  assume "\<exists>i. listed_at v name i"
  then obtain i where i: "prefix name (drop i v)" "i + length name \<le> length v"
    "i = 0 \<or> v ! (i - 1) = comma" "i + length name = length v \<or> v ! (i + length name) = comma"
    unfolding listed_at_def by blast
  have "i - 1 < length v" if "i \<noteq> 0" using that i(2) by linarith
  then have "i = 0" using i(3) assms nth_mem by metis
  moreover have "length name = length v"
    using i(2,4) free_nth [OF assms, of "i + length name"] \<open>i = 0\<close> by linarith
  ultimately show "name = v" using i(1) by (metis drop0 not_equal_is_parallel parallelD1)
next
  assume "name = v"
  then have "listed_at v name 0" by (simp add: listed_at_def)
  then show "\<exists>i. listed_at v name i" by blast
qed

lemma listed_head:
  assumes "comma \<notin> set w" "comma \<notin> set name"
  shows "listed_at (w @ comma # r) name 0 \<longleftrightarrow> name = w"
proof
  assume "listed_at (w @ comma # r) name 0"
  then have p: "prefix name (w @ comma # r)" "length name \<le> length (w @ comma # r)"
    and e: "length name = length (w @ comma # r) \<or> (w @ comma # r) ! length name = comma"
    unfolding listed_at_def by simp_all
  have "length name \<le> length w"
  proof (rule ccontr)
    assume "\<not> length name \<le> length w"
    then have "name ! length w = (w @ comma # r) ! length w"
      using p(1) by (metis not_le nth_append prefix_def)
    then show False using assms(2) \<open>\<not> length name \<le> length w\<close> nth_mem [of "length w" name] by simp
  qed
  moreover have "\<not> length name < length w"
    using e free_nth [OF assms(1), of "length name"] by (auto simp: nth_append)
  ultimately have "length name = length w" by simp
  then show "name = w" using p(1) by (metis append_eq_append_conv prefix_def)
qed (simp add: listed_at_def)

lemma listed_tail:
  assumes "comma \<notin> set w"
  shows "listed_at (w @ comma # r) name (Suc i) \<longleftrightarrow> length w \<le> i \<and> listed_at r name (i - length w)"
proof (cases "i < length w")
  case True
  then show ?thesis using free_nth [OF assms True] by (simp add: listed_at_def nth_append)
next
  case False
  then obtain k where i: "i = length w + k" using le_Suc_ex not_less by blast
  show ?thesis by (cases k) (simp_all add: listed_at_def nth_append i)
qed

lemma listed_comma:
  assumes "comma \<notin> set name"
  shows "(\<exists>i. listed_at v name i) \<longleftrightarrow> name \<in> set (comma_list v)"
proof (induction v rule: length_induct)
  case (1 v)
  show ?case
  proof (cases "comma \<in> set v")
    case False
    then show ?thesis using listed_free [OF False] by (simp add: comma_list_free)
  next
    case True
    then obtain w r where v: "v = w @ comma # r" and w: "comma \<notin> set w" using split_list_first by metis
    have "(\<exists>i. listed_at v name i) \<longleftrightarrow> listed_at v name 0 \<or> (\<exists>i. listed_at v name (Suc i))"
      by (metis not0_implies_Suc)
    also have "\<dots> \<longleftrightarrow> name = w \<or> (\<exists>i. listed_at r name i)"
      unfolding v using listed_head [OF w assms, of r] listed_tail [OF w, of r name] by (metis add_diff_cancel_left' le_add1)
    also have "\<dots> \<longleftrightarrow> name \<in> set (comma_list v)" using 1 by (simp add: v comma_list_comma [OF w])
    finally show ?thesis .
  qed
qed

section \<open>The loop finds what is listed\<close>

lemma strstr_None: "strstr hay needle = None \<Longrightarrow> \<not> prefix needle (drop i hay)"
  by (induction hay arbitrary: i)
    (auto simp: strstr.simps [of "[]"] strstr.simps [of "_ # _"] drop_Cons' split: if_splits)

lemma strstr_Some:
  "strstr hay needle = Some k \<Longrightarrow> prefix needle (drop k hay) \<and> k \<le> length hay \<and> (\<forall>i<k. \<not> prefix needle (drop i hay))"
proof (induction hay arbitrary: k)
  case (Cons c hay)
  show ?case
  proof (cases "prefix needle (c # hay)")
    case False
    then obtain k' where k: "k = Suc k'" "strstr hay needle = Some k'"
      using Cons.prems by (auto simp: strstr.simps [of "c # hay"])
    show ?thesis using Cons.IH [OF k(2)] False k(1) by (auto simp: less_Suc_eq_0_disj)
  qed (use Cons.prems in \<open>simp add: strstr.simps [of "c # hay"]\<close>)
qed (auto simp: strstr.simps [of "[]"] split: if_splits)

lemma listed_prefix: "listed_at v name i \<Longrightarrow> prefix name (drop i v)"
  by (simp add: listed_at_def)

text \<open>Two occurrences of a name without comma do not overlap when the second one is behind a comma.\<close>

lemma no_overlap:
  assumes "prefix name (drop start v)" "listed_at v name i" "start < i" "comma \<notin> set name"
  shows "start + length name \<le> i"
proof (rule ccontr)
  assume "\<not> start + length name \<le> i"
  then have d: "i - 1 - start < length name" using assms(3) by linarith
  then have "name ! (i - 1 - start) = drop start v ! (i - 1 - start)" using assms(1) by (metis nth_append prefix_def)
  also have "\<dots> = v ! (i - 1)" using assms(2,3) by (simp add: listed_at_def)
  also have "\<dots> = comma" using assms(2,3) by (simp add: listed_at_def)
  finally show False using d assms(4) nth_mem by metis
qed

lemma has_flag_from:
  assumes "name \<noteq> []" "comma \<notin> set name" "pos \<le> length v"
  shows "has_flag_from v name pos = Some (\<exists>i\<ge>pos. listed_at v name i)"
  using assms(3)
proof (induction "length v - pos" arbitrary: pos rule: less_induct)
  case less
  show ?case
  proof (cases "strstr (drop pos v) name")
    case None
    then have "\<not> prefix name (drop i v)" if "pos \<le> i" for i
      using strstr_None [OF None, of "i - pos"] that by simp
    then show ?thesis using None listed_prefix by (subst has_flag_from.simps) auto
  next
    case (Some k)
    let ?start = "pos + k" and ?stop = "pos + k + length name"
    have k: "prefix name (drop ?start v)" "?start \<le> length v" "\<And>i. i < k \<Longrightarrow> \<not> prefix name (drop (pos + i) v)"
      using strstr_Some [OF Some] less.prems by (auto simp: add.commute)
    then have stop: "?stop \<le> length v" using prefix_length_le [OF k(1)] by simp
    have first: "pos + k \<le> i" if "listed_at v name i" "pos \<le> i" for i
      using k(3) [of "i - pos"] that listed_prefix [OF that(1)] by fastforce
    show ?thesis
    proof (cases "listed_at v name ?start")
      case True
      then have "\<exists>i\<ge>pos. listed_at v name i" using le_add1 by blast
      then show ?thesis using Some True by (subst has_flag_from.simps) (simp add: Let_def listed_at_def)
    next
      case False
      have "has_flag_from v name pos = has_flag_from v name ?stop"
        using Some False k stop by (subst has_flag_from.simps) (auto simp: Let_def listed_at_def)
      also have "\<dots> = Some (\<exists>i\<ge>?stop. listed_at v name i)" 
        using less.hyps [of ?stop] stop \<open>name \<noteq> []\<close> by (cases name) simp_all
      also have "(\<exists>i\<ge>?stop. listed_at v name i) \<longleftrightarrow> (\<exists>i\<ge>pos. listed_at v name i)"
      proof
        assume "\<exists>i\<ge>pos. listed_at v name i"
        then obtain i where i: "pos \<le> i" "listed_at v name i" by blast
        then have "?start < i" using first False le_neq_implies_less by metis
        then show "\<exists>i\<ge>?stop. listed_at v name i" using no_overlap [OF k(1) i(2) _ assms(2)] i(2) by blast
      qed (meson add_leD1)
      finally show ?thesis .
    qed
  qed
qed

lemma has_flag_names:
  assumes "bus_name \<noteq> []" "comma \<notin> set bus_name"
  shows "obus_bus_has_flag getenv (chars key) bus_name = Some (log_wanted getenv bus_name key)"
  using has_flag_from [OF assms, of 0] listed_comma [OF assms(2)]
  by (auto simp: obus_bus_has_flag_def obus_get_env_def log_wanted_def names_bus_def split: option.split)

text \<open>With an empty name the loop stays where it is.\<close>

lemma has_flag_empty_some:
  "has_flag_from v name pos = Some r \<Longrightarrow> name = [] \<Longrightarrow> pos = 0 \<Longrightarrow> v \<noteq> [] \<Longrightarrow> v ! 0 \<noteq> comma \<Longrightarrow> False"
proof (induction v name pos r rule: has_flag_from.raw_induct [rotated, consumes 1, case_names step])
  case (step f v name pos r)
  then show ?case by (simp add: strstr.simps split: if_splits)
qed

lemma has_flag_empty: "v \<noteq> [] \<Longrightarrow> v ! 0 \<noteq> comma \<Longrightarrow> has_flag_from v [] 0 = None"
  using has_flag_empty_some [of v "[]" 0] by (cases "has_flag_from v [] 0") auto

definition log_flags :: "environment \<Rightarrow> u8 list \<Rightarrow> u32" where
  "log_flags getenv bus_name =
     foldr (\<lambda>(key, flag) flags.
       if log_wanted getenv bus_name ''OBUS_LOG_ALL'' \<or> log_wanted getenv bus_name key then flag OR flags else flags)
     [(''OBUS_LOG_BUS'', OBUS_LOG_BUS), (''OBUS_LOG_IO'', OBUS_LOG_IO), (''OBUS_LOG_SOCKET'', OBUS_LOG_SOCKET),
      (''OBUS_LOG_CONNECTION'', OBUS_LOG_CONNECTION)] 0"

lemma add_log_flag_wanted:
  assumes "bus_name \<noteq> []" "comma \<notin> set bus_name"
  shows "add_log_flag getenv bus_name everything key flag flags =
     Some (if everything \<or> log_wanted getenv bus_name key then flags OR flag else flags)"
  by (simp add: add_log_flag_def has_flag_names [OF assms])

text \<open>
  C35. For a bus whose name is not empty and has no comma, \<open>obus_get_log_flags_from_env\<close> returns, and the flags are those
  of the variables \<open>OBUS_LOG_*\<close> that are \<open>all\<close> or \<open>1\<close> or whose elements, as a list with commas, include the name;
  with \<open>OBUS_LOG_ALL\<close> they are all set. The search by substrings agrees with the list.
\<close>

theorem log_flags_from_env:
  assumes "bus_name \<noteq> []" "comma \<notin> set bus_name"
  shows "obus_get_log_flags_from_env getenv bus_name = Some (log_flags getenv bus_name)"
  by (cases "log_wanted getenv bus_name ''OBUS_LOG_ALL''"; cases "log_wanted getenv bus_name ''OBUS_LOG_IO''";
      cases "log_wanted getenv bus_name ''OBUS_LOG_BUS''"; cases "log_wanted getenv bus_name ''OBUS_LOG_SOCKET''";
      cases "log_wanted getenv bus_name ''OBUS_LOG_CONNECTION''")
    (simp_all add: obus_get_log_flags_from_env_def add_log_flag_wanted [OF assms] has_flag_names [OF assms] log_flags_def
      OBUS_LOG_IO_def OBUS_LOG_BUS_def OBUS_LOG_SOCKET_def OBUS_LOG_CONNECTION_def)

definition sample_environ :: environment where
  "sample_environ key = (if key = chars ''OBUS_LOG_IO'' then Some (chars ''netnet,net'') else None)"

theorem log_flags_from_env_witness:
  "obus_get_log_flags_from_env sample_environ (chars ''net'') = Some OBUS_LOG_IO"
proof -
  have "chars ''net'' \<noteq> []" "comma \<notin> set (chars ''net'')" by code_simp+
  then have "obus_get_log_flags_from_env sample_environ (chars ''net'') = Some (log_flags sample_environ (chars ''net''))"
    by (rule log_flags_from_env)
  also have "log_flags sample_environ (chars ''net'') = OBUS_LOG_IO" by code_simp
  finally show ?thesis .
qed

end
