(* ===== verification/Obus_Loop.thy ===== *)
theory Obus_Loop
  imports Obus_Utils Obus_Fd
begin

text \<open>
  The event loop on \<open>epoll\<close>: \<open>obus_loop.h\<close> and \<open>obus_loop.c\<close>. The loop keeps the list of the descriptor objects that are
  registered; the objects themselves belong to their users and are a part of the world the loop works on, as are the
  state of the system and the loop. A callback is a function on the world.
\<close>

section \<open>Descriptor objects\<close>

text \<open>
  A callback is named by a number, and its data are an address; 0 is NULL. \<open>ofd_loop\<close> is the address of a loop. An object is a member of
  the structure that owns it, so that the tests for a NULL object in \<open>obus_fd_init\<close>, \<open>obus_fd_is_used\<close> and \<open>obus_fd_reset\<close> never apply.
\<close>

record obus_fd =
  ofd_loop :: addr
  ofd_dupfd :: int
  ofd_fd :: int
  ofd_events :: u32
  ofd_cb :: nat
  ofd_data :: addr

definition obus_fd_init :: "int \<Rightarrow> u32 \<Rightarrow> nat \<Rightarrow> addr \<Rightarrow> obus_fd" where
  "obus_fd_init fd events cb data =
     \<lparr>ofd_loop = 0, ofd_dupfd = -1, ofd_fd = fd, ofd_events = events, ofd_cb = cb, ofd_data = data\<rparr>"

definition obus_fd_is_used :: "obus_fd \<Rightarrow> bool" where
  "obus_fd_is_used ofd \<longleftrightarrow> ofd_loop ofd \<noteq> 0"

definition obus_fd_reset :: "obus_fd \<Rightarrow> unit res \<times> obus_fd" where
  "obus_fd_reset ofd = (if ofd_loop ofd \<noteq> 0 then (Inl EBUSY, ofd) else (Inr (), obus_fd_init (-1) 0 0 0))"

text \<open>The descriptor the system knows the object by.\<close>

definition reg_fd :: "obus_fd \<Rightarrow> int" where
  "reg_fd ofd = (if ofd_dupfd ofd = -1 then ofd_fd ofd else ofd_dupfd ofd)"

section \<open>Translation of the events\<close>

definition EPOLLIN :: u32 where "EPOLLIN = 0x001"
definition EPOLLPRI :: u32 where "EPOLLPRI = 0x002"
definition EPOLLOUT :: u32 where "EPOLLOUT = 0x004"
definition EPOLLERR :: u32 where "EPOLLERR = 0x008"
definition EPOLLHUP :: u32 where "EPOLLHUP = 0x010"
definition EPOLLRDHUP :: u32 where "EPOLLRDHUP = 0x2000"

lemmas epoll_flags = EPOLLIN_def EPOLLPRI_def EPOLLOUT_def EPOLLERR_def EPOLLHUP_def EPOLLRDHUP_def

definition add_if :: "bool \<Rightarrow> 'w::len word \<Rightarrow> 'w word \<Rightarrow> 'w word" where
  "add_if b flag ret = (if b then ret OR flag else ret)"

definition fd_to_epoll_events :: "u32 \<Rightarrow> u32" where
  "fd_to_epoll_events events =
     add_if (events AND OBUS_FD_HUP \<noteq> 0) EPOLLHUP
     (add_if (events AND OBUS_FD_ERR \<noteq> 0) EPOLLERR
     (add_if (events AND OBUS_FD_OUT \<noteq> 0) EPOLLOUT
     (add_if (events AND OBUS_FD_IN \<noteq> 0) EPOLLIN 0)))"

definition epoll_to_fd_events :: "u32 \<Rightarrow> u32" where
  "epoll_to_fd_events events =
     add_if (events AND EPOLLRDHUP \<noteq> 0) OBUS_FD_HUP
     (add_if (events AND EPOLLHUP \<noteq> 0) OBUS_FD_HUP
     (add_if (events AND EPOLLERR \<noteq> 0) OBUS_FD_ERR
     (add_if (events AND EPOLLOUT \<noteq> 0) OBUS_FD_OUT
     (add_if (events AND EPOLLIN \<noteq> 0 \<or> events AND EPOLLPRI \<noteq> 0) OBUS_FD_IN 0))))"

section \<open>The loop and its world\<close>

datatype epoll_op = EPOLL_CTL_ADD | EPOLL_CTL_MOD | EPOLL_CTL_DEL

text \<open>
  The calls of \<open>epoll\<close>; \<open>sys_ep_realloc\<close> says what the new entries of the event array hold when it grows to the given length.
\<close>

record 'k loop_system = "'k fd_system" +
  sys_epoll_create :: "'k \<Rightarrow> int res \<times> 'k"
  sys_epoll_ctl :: "int \<Rightarrow> epoll_op \<Rightarrow> int \<Rightarrow> (u32 \<times> addr) option \<Rightarrow> 'k \<Rightarrow> unit res \<times> 'k"
  sys_epoll_wait :: "int \<Rightarrow> int \<Rightarrow> int \<Rightarrow> 'k \<Rightarrow> (u32 \<times> addr) list res \<times> 'k"
  sys_ep_realloc :: "nat \<Rightarrow> 'k \<Rightarrow> (nat \<Rightarrow> u32 \<times> addr) res \<times> 'k"

text \<open>\<open>loop_events\<close> is the event array, its length \<open>nallocevents\<close>; \<open>loop_freed\<close> says that the loop is destroyed.\<close>

record obus_loop =
  loop_self :: addr
  loop_ofds :: "addr list"
  loop_events :: "(u32 \<times> addr) list"
  loop_nfds :: int
  loop_ref :: nat
  loop_epfd :: int
  loop_freed :: bool

record 'k loop_world =
  lw_loop :: obus_loop
  lw_ofd :: "addr \<Rightarrow> obus_fd"
  lw_sys :: 'k

definition set_ofd :: "addr \<Rightarrow> obus_fd \<Rightarrow> ('k, 'z) loop_world_scheme \<Rightarrow> ('k, 'z) loop_world_scheme" where
  "set_ofd p ofd w = w\<lparr>lw_ofd := (lw_ofd w)(p := ofd)\<rparr>"

definition set_sys :: "'k \<Rightarrow> ('k, 'z) loop_world_scheme \<Rightarrow> ('k, 'z) loop_world_scheme" where
  "set_sys k w = w\<lparr>lw_sys := k\<rparr>"

definition set_loop :: "obus_loop \<Rightarrow> ('k, 'z) loop_world_scheme \<Rightarrow> ('k, 'z) loop_world_scheme" where
  "set_loop l w = w\<lparr>lw_loop := l\<rparr>"

lemma world_simps [simp]:
  "lw_loop (set_ofd p ofd w) = lw_loop w" "lw_sys (set_ofd p ofd w) = lw_sys w"
  "lw_ofd (set_ofd p ofd w) = (lw_ofd w)(p := ofd)"
  "lw_loop (set_sys k w) = lw_loop w" "lw_ofd (set_sys k w) = lw_ofd w" "lw_sys (set_sys k w) = k"
  "lw_loop (set_loop l w) = l" "lw_ofd (set_loop l w) = lw_ofd w" "lw_sys (set_loop l w) = lw_sys w"
  by (simp_all add: set_ofd_def set_sys_def set_loop_def)

text \<open>A system call from the world.\<close>

definition syscall :: "('k \<Rightarrow> 'a res \<times> 'k) \<Rightarrow> ('k, 'z) loop_world_scheme \<Rightarrow> 'a res \<times> ('k, 'z) loop_world_scheme" where
  "syscall call w = (case call (lw_sys w) of (r, k) \<Rightarrow> (r, set_sys k w))"

section \<open>Life of a loop\<close>

definition O_NONBLOCK :: u32 where "O_NONBLOCK = 0x800"

text \<open>\<open>self\<close> is the address \<open>calloc\<close> returns, 0 when it fails. \<open>None\<close> is NULL.\<close>

definition obus_loop_new :: "('k, 'z) loop_system_scheme \<Rightarrow> addr \<Rightarrow> 'k \<Rightarrow> obus_loop option \<times> 'k" where
  "obus_loop_new S self k =
     (if self = 0 then (None, k)
      else case sys_epoll_create S k of (Inl _, k) \<Rightarrow> (None, k)
      | (Inr epfd, k) \<Rightarrow>
        (case chk (obus_fd_set_close_on_exec S epfd k) (\<lambda>_ k. obus_fd_add_flags S epfd O_NONBLOCK k) of
           (Inl _, k) \<Rightarrow> (None, snd (sys_close S epfd k))
         | (Inr _, k) \<Rightarrow>
             (Some \<lparr>loop_self = self, loop_ofds = [], loop_events = [], loop_nfds = 0, loop_ref = 1, loop_epfd = epfd,
                    loop_freed = False\<rparr>, k)))"

definition obus_loop_destroy :: "('k, 'y) loop_system_scheme \<Rightarrow> ('k, 'z) loop_world_scheme \<Rightarrow> ('k, 'z) loop_world_scheme" where
  "obus_loop_destroy S w =
     (let w = snd (syscall (sys_close S (loop_epfd (lw_loop w))) w)
      in set_loop ((lw_loop w)\<lparr>loop_events := [], loop_freed := True\<rparr>) w)"

definition obus_loop_ref :: "('k, 'z) loop_world_scheme \<Rightarrow> ('k, 'z) loop_world_scheme" where
  "obus_loop_ref w = set_loop ((lw_loop w)\<lparr>loop_ref := loop_ref (lw_loop w) + 1\<rparr>) w"

definition obus_loop_unref :: "('k, 'y) loop_system_scheme \<Rightarrow> ('k, 'z) loop_world_scheme \<Rightarrow> ('k, 'z) loop_world_scheme" where
  "obus_loop_unref S w =
     (let w = set_loop ((lw_loop w)\<lparr>loop_ref := sz_sub (loop_ref (lw_loop w)) 1\<rparr>) w
      in if loop_ref (lw_loop w) = 0 then obus_loop_destroy S w else w)"

definition obus_loop_fd :: "obus_loop option \<Rightarrow> int" where
  "obus_loop_fd loop = (case loop of None \<Rightarrow> -1 | Some l \<Rightarrow> loop_epfd l)"

section \<open>Registration\<close>

text \<open>\<open>loop\<close> is the address that is passed: NULL or the loop of the world. \<open>p\<close> is the address of the object.\<close>

definition obus_loop_add ::
  "('k, 'y) loop_system_scheme \<Rightarrow> addr \<Rightarrow> addr \<Rightarrow> ('k, 'z) loop_world_scheme \<Rightarrow> unit res \<times> ('k, 'z) loop_world_scheme" where
  "obus_loop_add S loop p w =
     (let ofd = lw_ofd w p; epfd = loop_epfd (lw_loop w) in
      if loop = 0 \<or> p = 0 \<or> ofd_fd ofd < 0 \<or> ofd_events ofd = 0 \<or> ofd_cb ofd = 0 then (Inl EINVAL, w)
      else if ofd_loop ofd \<noteq> 0 then (Inl EEXIST, w)
      else if p \<in> set (loop_ofds (lw_loop w)) then (Inl EEXIST, w)
      else
        let evt = (fd_to_epoll_events (ofd_events ofd), p);
            (r, w) = syscall (sys_epoll_ctl S epfd EPOLL_CTL_ADD (ofd_fd ofd) (Some evt)) w
        in chk (if r = Inl EEXIST
                then chk (syscall (obus_fd_dup S (ofd_fd ofd)) w) (\<lambda>n w.
                       let w = set_ofd p (ofd\<lparr>ofd_dupfd := n\<rparr>) w
                       in (case syscall (sys_epoll_ctl S epfd EPOLL_CTL_ADD n (Some evt)) w of
                             (Inr _, w) \<Rightarrow> (Inr (), w)
                           | (Inl e, w) \<Rightarrow>
                               (Inl e, if n \<noteq> -1 then set_ofd p (ofd\<lparr>ofd_dupfd := -1\<rparr>) (snd (syscall (sys_close S n) w))
                                       else w)))
                else case r of Inr _ \<Rightarrow> (Inr (), w)
                     | Inl e \<Rightarrow>
                         (Inl e, if ofd_dupfd ofd \<noteq> -1
                                 then set_ofd p (ofd\<lparr>ofd_dupfd := -1\<rparr>) (snd (syscall (sys_close S (ofd_dupfd ofd)) w))
                                 else w))
           (\<lambda>_ w. (Inr (),
             set_ofd p ((lw_ofd w p)\<lparr>ofd_loop := loop\<rparr>)
             (set_loop ((lw_loop w)\<lparr>loop_ofds := loop_ofds (lw_loop w) @ [p], loop_nfds := loop_nfds (lw_loop w) + 1\<rparr>) w))))"

definition obus_loop_update ::
  "('k, 'y) loop_system_scheme \<Rightarrow> addr \<Rightarrow> addr \<Rightarrow> ('k, 'z) loop_world_scheme \<Rightarrow> unit res \<times> ('k, 'z) loop_world_scheme" where
  "obus_loop_update S loop p w =
     (if loop = 0 \<or> p = 0 then (Inl EINVAL, w)
      else if p \<notin> set (loop_ofds (lw_loop w)) then (Inl ENOENT, w)
      else syscall (sys_epoll_ctl S (loop_epfd (lw_loop w)) EPOLL_CTL_MOD (reg_fd (lw_ofd w p)) None) w)"

definition obus_loop_remove ::
  "('k, 'y) loop_system_scheme \<Rightarrow> addr \<Rightarrow> addr \<Rightarrow> ('k, 'z) loop_world_scheme \<Rightarrow> unit res \<times> ('k, 'z) loop_world_scheme" where
  "obus_loop_remove S loop p w =
     (if loop = 0 \<or> p = 0 then (Inl EINVAL, w)
      else if p \<notin> set (loop_ofds (lw_loop w)) then (Inl ENOENT, w)
      else chk (syscall (sys_epoll_ctl S (loop_epfd (lw_loop w)) EPOLL_CTL_DEL (reg_fd (lw_ofd w p)) None) w) (\<lambda>_ w.
        let ofd = lw_ofd w p;
            w = (if ofd_dupfd ofd \<noteq> -1
                 then set_ofd p (ofd\<lparr>ofd_dupfd := -1\<rparr>) (snd (syscall (sys_close S (ofd_dupfd ofd)) w)) else w)
        in (Inr (),
            set_ofd p ((lw_ofd w p)\<lparr>ofd_loop := 0\<rparr>)
            (set_loop ((lw_loop w)\<lparr>loop_ofds := remove1 p (loop_ofds (lw_loop w)),
                                   loop_nfds := loop_nfds (lw_loop w) - 1\<rparr>) w))))"

section \<open>Waiting and dispatching\<close>

definition EXTRA_ALLOC_EVENT_NB :: nat where "EXTRA_ALLOC_EVENT_NB = 10"

text \<open>
  The walk over the event array from index \<open>i\<close>, with \<open>j\<close> events seen of the \<open>n\<close> that are ready. \<open>call cb p events\<close> is the callback
  with the number \<open>cb\<close>, on the object at \<open>p\<close>. An index behind the end of the array and a loop that is destroyed are faults.
\<close>

function dispatch ::
  "(nat \<Rightarrow> addr \<Rightarrow> u32 \<Rightarrow> ('k, 'z) loop_world_scheme \<Rightarrow> ('k, 'z) loop_world_scheme) \<Rightarrow> nat \<Rightarrow> nat \<Rightarrow> nat
    \<Rightarrow> ('k, 'z) loop_world_scheme \<Rightarrow> unit res \<times> ('k, 'z) loop_world_scheme" where
  "dispatch call n i j w =
     (if loop_freed (lw_loop w) then (Inl FAULT, w)
      else if \<not> (int i < loop_nfds (lw_loop w) \<and> j < n) then (Inr (), w)
      else if length (loop_events (lw_loop w)) \<le> i then (Inl FAULT, w)
      else let (ep, p) = loop_events (lw_loop w) ! i in
        if ep = 0 then dispatch call n (i + 1) j w
        else let events = epoll_to_fd_events ep in
          if events = 0 \<or> p \<notin> set (loop_ofds (lw_loop w)) then dispatch call n (i + 1) (j + 1) w
          else dispatch call n (i + 1) (j + 1) (call (ofd_cb (lw_ofd w p)) p events w))"
  by pat_completeness auto
termination
  by (relation "(\<lambda>(call, n, i, j, w). n - j) <*mlex*> measure (\<lambda>(call, n, i, j, w). nat (loop_nfds (lw_loop w) - int i))")
    (auto simp: wf_mlex intro: mlex_less mlex_leq)

declare dispatch.simps [simp del]

definition grow_events ::
  "('k, 'y) loop_system_scheme \<Rightarrow> ('k, 'z) loop_world_scheme \<Rightarrow> unit res \<times> ('k, 'z) loop_world_scheme" where
  "grow_events S w =
     (let n = length (loop_events (lw_loop w)); m = EXTRA_ALLOC_EVENT_NB + nat (loop_nfds (lw_loop w)) in
      if int n < loop_nfds (lw_loop w)
      then (case syscall (sys_ep_realloc S m) w of
              (Inl _, w) \<Rightarrow> (Inl ENOMEM, w)
            | (Inr fresh, w) \<Rightarrow>
                (Inr (), set_loop ((lw_loop w)\<lparr>loop_events := loop_events (lw_loop w) @ map fresh [n..<m]\<rparr>) w))
      else (Inr (), w))"

text \<open>\<open>None\<close> when the wait is interrupted for ever.\<close>

definition obus_loop_do_process ::
  "('k, 'y) loop_system_scheme \<Rightarrow> (nat \<Rightarrow> addr \<Rightarrow> u32 \<Rightarrow> ('k, 'z) loop_world_scheme \<Rightarrow> ('k, 'z) loop_world_scheme)
    \<Rightarrow> int \<Rightarrow> ('k, 'z) loop_world_scheme \<Rightarrow> (unit res \<times> ('k, 'z) loop_world_scheme) option" where
  "obus_loop_do_process S call timeout w =
     (case grow_events S w of (Inl e, w) \<Rightarrow> Some (Inl e, w) | (Inr _, w) \<Rightarrow>
      case retry_eintr (sys_epoll_wait S (loop_epfd (lw_loop w)) (loop_nfds (lw_loop w)) timeout) (lw_sys w) of
        None \<Rightarrow> None
      | Some (Inl e, k) \<Rightarrow> Some (Inl e, set_sys k w)
      | Some (Inr ready, k) \<Rightarrow>
          let w = set_sys k w;
              w = set_loop ((lw_loop w)\<lparr>loop_events := ready @ drop (length ready) (loop_events (lw_loop w))\<rparr>) w
          in if ready = [] then Some (Inr (), w)
             else Some (case dispatch call (length ready) 0 0 (obus_loop_ref w) of
                          (Inl e, w) \<Rightarrow> (Inl e, w) | (Inr _, w) \<Rightarrow> (Inr (), obus_loop_unref S w)))"

definition obus_loop_process ::
  "('k, 'y) loop_system_scheme \<Rightarrow> (nat \<Rightarrow> addr \<Rightarrow> u32 \<Rightarrow> ('k, 'z) loop_world_scheme \<Rightarrow> ('k, 'z) loop_world_scheme)
    \<Rightarrow> ('k, 'z) loop_world_scheme \<Rightarrow> (unit res \<times> ('k, 'z) loop_world_scheme) option" where
  "obus_loop_process S call w = obus_loop_do_process S call 0 w"

definition obus_loop_wait ::
  "('k, 'y) loop_system_scheme \<Rightarrow> (nat \<Rightarrow> addr \<Rightarrow> u32 \<Rightarrow> ('k, 'z) loop_world_scheme \<Rightarrow> ('k, 'z) loop_world_scheme)
    \<Rightarrow> ('k, 'z) loop_world_scheme \<Rightarrow> (unit res \<times> ('k, 'z) loop_world_scheme) option" where
  "obus_loop_wait S call w = obus_loop_do_process S call (-1) w"

section \<open>What epoll promises\<close>

text \<open>
  \<open>interest k fd\<close> is the object that is registered for \<open>fd\<close> in the state \<open>k\<close> of the system. An \<open>ADD\<close> that succeeds registers a
  descriptor that was not registered, a \<open>DEL\<close> that succeeds removes it, a failing call changes nothing, and a \<open>MOD\<close> without
  an event fails with \<open>EFAULT\<close>. A wait ends in spite of signals, and reports no more than it is asked for, each with an event. The other calls do not touch the registrations, except that closing a descriptor may end its own.
\<close>

definition keeps_interest :: "('k \<Rightarrow> int \<rightharpoonup> addr) \<Rightarrow> ('k \<Rightarrow> 'r \<times> 'k) \<Rightarrow> bool" where
  "keeps_interest interest call \<longleftrightarrow> (\<forall>k. interest (snd (call k)) = interest k)"

definition epoll_laws :: "('k, 'z) loop_system_scheme \<Rightarrow> ('k \<Rightarrow> int \<rightharpoonup> addr) \<Rightarrow> bool" where
  "epoll_laws S interest \<longleftrightarrow>
     (\<forall>epfd fd ev p k. case sys_epoll_ctl S epfd EPOLL_CTL_ADD fd (Some (ev, p)) k of
        (Inl _, k') \<Rightarrow> interest k' = interest k
      | (Inr _, k') \<Rightarrow> interest k fd = None \<and> interest k' = (interest k)(fd \<mapsto> p)) \<and>
     (\<forall>epfd fd k. fst (sys_epoll_ctl S epfd EPOLL_CTL_MOD fd None k) = Inl EFAULT \<and>
        interest (snd (sys_epoll_ctl S epfd EPOLL_CTL_MOD fd None k)) = interest k) \<and>
     (\<forall>epfd fd ev k. case sys_epoll_ctl S epfd EPOLL_CTL_DEL fd ev k of
        (Inl _, k') \<Rightarrow> interest k' = interest k
      | (Inr _, k') \<Rightarrow> interest k' = (interest k)(fd := None)) \<and>
     (\<forall>fd. keeps_interest interest (sys_getfd S fd)) \<and> (\<forall>fd flags. keeps_interest interest (sys_setfd S fd flags)) \<and>
     (\<forall>fd k. interest (snd (sys_dup S fd k)) = interest k \<and>
        (\<forall>n. fst (sys_dup S fd k) = Inr n \<longrightarrow> 0 \<le> n \<and> interest k n = None)) \<and>
     (\<forall>fd k. interest (snd (sys_close S fd k)) = interest k \<or> interest (snd (sys_close S fd k)) = (interest k)(fd := None))"

definition wait_laws :: "('k, 'z) loop_system_scheme \<Rightarrow> ('k \<Rightarrow> int \<rightharpoonup> addr) \<Rightarrow> bool" where
  "wait_laws S interest \<longleftrightarrow>
     (\<forall>epfd n timeout k. interest (snd (sys_epoll_wait S epfd n timeout k)) = interest k \<and>
        settles (sys_epoll_wait S epfd n timeout) k \<and> fst (sys_epoll_wait S epfd n timeout k) \<noteq> Inl FAULT \<and>
        (\<forall>ready. fst (sys_epoll_wait S epfd n timeout k) = Inr ready \<longrightarrow> int (length ready) \<le> n \<and> (\<forall>(ep, p)\<in>set ready. ep \<noteq> 0))) \<and>
     (\<forall>n. keeps_interest interest (sys_ep_realloc S n))"

lemma epoll_add_cases:
  assumes "epoll_laws S interest"
  obtains (err) e k' where "sys_epoll_ctl S epfd EPOLL_CTL_ADD fd (Some (ev, p)) k = (Inl e, k')" "interest k' = interest k"
  | (ok) k' where "sys_epoll_ctl S epfd EPOLL_CTL_ADD fd (Some (ev, p)) k = (Inr (), k')" "interest k fd = None"
      "interest k' = (interest k)(fd \<mapsto> p)"
proof -
  have "case sys_epoll_ctl S epfd EPOLL_CTL_ADD fd (Some (ev, p)) k of (Inl _, k') \<Rightarrow> interest k' = interest k
      | (Inr _, k') \<Rightarrow> interest k fd = None \<and> interest k' = (interest k)(fd \<mapsto> p)"
    using assms unfolding epoll_laws_def by (elim conjE allE)
  then show thesis using err ok by (auto split: prod.splits sum.splits)
qed

lemma epoll_del_cases:
  assumes "epoll_laws S interest"
  obtains (err) e k' where "sys_epoll_ctl S epfd EPOLL_CTL_DEL fd None k = (Inl e, k')" "interest k' = interest k"
  | (ok) k' where "sys_epoll_ctl S epfd EPOLL_CTL_DEL fd None k = (Inr (), k')" "interest k' = (interest k)(fd := None)"
proof -
  have "case sys_epoll_ctl S epfd EPOLL_CTL_DEL fd None k of (Inl _, k') \<Rightarrow> interest k' = interest k
      | (Inr _, k') \<Rightarrow> interest k' = (interest k)(fd := None)"
    using assms unfolding epoll_laws_def by (elim conjE allE)
  then show thesis using err ok by (auto split: prod.splits sum.splits)
qed

lemma keeps_interestD: "keeps_interest interest call \<Longrightarrow> interest (snd (call k)) = interest k"
  by (simp add: keeps_interest_def)

lemma close_interest:
  assumes "epoll_laws S interest" "interest k fd = None"
  shows "interest (snd (sys_close S fd k)) = interest k"
proof -
  have "interest (snd (sys_close S fd k)) = interest k \<or> interest (snd (sys_close S fd k)) = (interest k)(fd := None)"
    using assms(1) unfolding epoll_laws_def by blast
  then show ?thesis using assms(2) by (auto simp: fun_eq_iff)
qed

lemma set_cloexec_interest:
  assumes "epoll_laws S interest"
  shows "interest (snd (obus_fd_set_close_on_exec S fd k)) = interest k"
proof -
  have g: "interest (snd (sys_getfd S fd k)) = interest k" "interest (snd (sys_setfd S fd flags k)) = interest k" for fd flags k
    using assms unfolding epoll_laws_def keeps_interest_def by blast+
  obtain r k1 where get: "sys_getfd S fd k = (r, k1)" by fastforce
  have k1: "interest k1 = interest k" using g(1) [of fd k] get by simp
  show ?thesis
  proof (cases r)
    case (Inr old)
    obtain r2 k2 where set: "sys_setfd S fd (FD_CLOEXEC OR old) k1 = (r2, k2)" by fastforce
    have "interest k2 = interest k" using g(2) [of fd "FD_CLOEXEC OR old" k1] set k1 by simp
    then show ?thesis using get set Inr by (cases r2) (simp_all add: obus_fd_set_close_on_exec_def)
  qed (use get k1 in \<open>simp add: obus_fd_set_close_on_exec_def\<close>)
qed

lemma fd_dup_cases:
  assumes laws: "epoll_laws S interest"
  obtains (err) e k' where "obus_fd_dup S fd k = (Inl e, k')" "interest k' = interest k"
  | (ok) n k' where "obus_fd_dup S fd k = (Inr n, k')" "interest k' = interest k" "0 \<le> n" "interest k n = None"
proof -
  have d: "interest (snd (sys_dup S fd k)) = interest k"
    and n: "\<And>n. fst (sys_dup S fd k) = Inr n \<Longrightarrow> 0 \<le> n \<and> interest k n = None"
    and g: "\<And>k. interest (snd (sys_getfd S fd k)) = interest k"
    using laws unfolding epoll_laws_def keeps_interest_def by blast+
  obtain r k1 where dup: "sys_dup S fd k = (r, k1)" by fastforce
  show thesis
  proof (cases r)
    case (Inl e)
    then show thesis using err dup d by (simp add: obus_fd_dup_def)
  next
    case (Inr m)
    have m: "0 \<le> m" "interest k m = None" and k1: "interest k1 = interest k" using n [of m] dup Inr d by simp_all
    obtain has k2 where has: "obus_fd_has_close_on_exec S fd k1 = (has, k2)" by fastforce
    have k2: "interest k2 = interest k"
      using g [of k1] k1 has by (auto simp: obus_fd_has_close_on_exec_def split: prod.splits sum.splits)
    obtain r3 k3 where set: "obus_fd_set_close_on_exec S m k2 = (r3, k3)" by fastforce
    have k3: "interest k3 = interest k" using set_cloexec_interest [OF laws, of m k2] set k2 by simp
    have "interest (snd (sys_close S m k3)) = interest k" using close_interest [OF laws, of k3 m] k3 m by simp
    then show thesis
      using err ok dup Inr has set k2 k3 m by (cases has; cases r3) (simp_all add: obus_fd_dup_def)
  qed
qed

section \<open>The invariant\<close>

text \<open>
  The count is the length of the list, an object carries the address of the loop just when it is in the list, and the
  system has just these objects registered, each under its own descriptor. An object outside has no duplicate.
\<close>

definition loop_inv :: "('k \<Rightarrow> int \<rightharpoonup> addr) \<Rightarrow> ('k, 'z) loop_world_scheme \<Rightarrow> bool" where
  "loop_inv interest w \<longleftrightarrow>
     (let l = lw_loop w in
      loop_self l \<noteq> 0 \<and> loop_nfds l = int (length (loop_ofds l)) \<and> distinct (loop_ofds l) \<and> 0 \<notin> set (loop_ofds l) \<and>
      (\<forall>p. ofd_loop (lw_ofd w p) = (if p \<in> set (loop_ofds l) then loop_self l else 0)) \<and>
      (\<forall>p. p \<notin> set (loop_ofds l) \<longrightarrow> ofd_dupfd (lw_ofd w p) = -1) \<and>
      (\<forall>fd p. interest (lw_sys w) fd = Some p \<longleftrightarrow> p \<in> set (loop_ofds l) \<and> reg_fd (lw_ofd w p) = fd))"

lemma loop_inv_sys: "loop_inv interest w \<Longrightarrow> interest k = interest (lw_sys w) \<Longrightarrow> loop_inv interest (set_sys k w)"
  by (simp add: loop_inv_def Let_def)

definition loop_of :: "('k, 'z) loop_world_scheme \<Rightarrow> addr" where
  "loop_of w = loop_self (lw_loop w)"

text \<open>The object at \<open>p\<close> enters the list; the system knows it by \<open>reg_fd ofd\<close>.\<close>

lemma loop_inv_enter:
  assumes inv: "loop_inv interest w" and p: "p \<noteq> 0" "p \<notin> set (loop_ofds (lw_loop w))"
    and reg: "interest (lw_sys w) (reg_fd ofd) = None" and k: "interest k = (interest (lw_sys w))(reg_fd ofd \<mapsto> p)"
    and w': "lw_loop w' = (lw_loop w)\<lparr>loop_ofds := loop_ofds (lw_loop w) @ [p], loop_nfds := loop_nfds (lw_loop w) + 1\<rparr>"
      "lw_ofd w' = (lw_ofd w)(p := ofd\<lparr>ofd_loop := loop_self (lw_loop w)\<rparr>)" "lw_sys w' = k"
  shows "loop_inv interest w'"
proof -
  have same: "reg_fd (ofd\<lparr>ofd_loop := x\<rparr>) = reg_fd ofd" for x by (simp add: reg_fd_def)
  have sync: "interest (lw_sys w) fd = Some q \<longleftrightarrow> q \<in> set (loop_ofds (lw_loop w)) \<and> reg_fd (lw_ofd w q) = fd" for fd q
    using inv unfolding loop_inv_def Let_def by blast
  have "interest k fd = Some q \<longleftrightarrow>
      q \<in> set (loop_ofds (lw_loop w) @ [p]) \<and> reg_fd (((lw_ofd w)(p := ofd\<lparr>ofd_loop := loop_self (lw_loop w)\<rparr>)) q) = fd" for fd q
    using sync [of fd q] sync [of "reg_fd ofd" q] reg p(2) by (auto simp: k same)
  then show ?thesis using inv p by (simp add: loop_inv_def Let_def w')
qed

lemma loop_inv_leave:
  assumes inv: "loop_inv interest w" and p: "p \<in> set (loop_ofds (lw_loop w))"
    and k: "interest k = (interest (lw_sys w))(reg_fd (lw_ofd w p) := None)"
    and w': "lw_loop w' = (lw_loop w)\<lparr>loop_ofds := remove1 p (loop_ofds (lw_loop w)), loop_nfds := loop_nfds (lw_loop w) - 1\<rparr>"
      "lw_ofd w' = (lw_ofd w)(p := ofd)" "lw_sys w' = k" "ofd_loop ofd = 0" "ofd_dupfd ofd = -1"
  shows "loop_inv interest w'"
proof -
  have d: "distinct (loop_ofds (lw_loop w))" using inv by (simp add: loop_inv_def Let_def)
  then have set: "set (remove1 p (loop_ofds (lw_loop w))) = set (loop_ofds (lw_loop w)) - {p}" by (rule set_remove1_eq)
  have sync: "interest (lw_sys w) fd = Some q \<longleftrightarrow> q \<in> set (loop_ofds (lw_loop w)) \<and> reg_fd (lw_ofd w q) = fd" for fd q
    using inv unfolding loop_inv_def Let_def by blast
  have "interest k fd = Some q \<longleftrightarrow>
      q \<in> set (loop_ofds (lw_loop w)) - {p} \<and> reg_fd (((lw_ofd w)(p := ofd)) q) = fd" for fd q
    using sync [of fd q] sync [of "reg_fd (lw_ofd w p)" p] sync [of "reg_fd (lw_ofd w p)" q] p by (auto simp: k)
  moreover have "int (length (remove1 p (loop_ofds (lw_loop w)))) = int (length (loop_ofds (lw_loop w))) - 1"
    using p length_pos_if_in_set [OF p] by (simp only: length_remove1 if_True)
  ultimately show ?thesis using inv d by (simp add: loop_inv_def Let_def w' set)
qed

definition loop_registered :: "('k, 'z) loop_world_scheme \<Rightarrow> addr set" where
  "loop_registered w = set (loop_ofds (lw_loop w))"

lemma loop_add_eq:
  assumes "loop_inv interest w"
  shows "obus_loop_add S (loop_of w) p w =
    (let ofd = lw_ofd w p; epfd = loop_epfd (lw_loop w); evt = (fd_to_epoll_events (ofd_events ofd), p);
         enter = (\<lambda>ofd w. set_ofd p (ofd\<lparr>ofd_loop := loop_of w\<rparr>)
           (set_loop ((lw_loop w)\<lparr>loop_ofds := loop_ofds (lw_loop w) @ [p], loop_nfds := loop_nfds (lw_loop w) + 1\<rparr>) w)) in
     if p = 0 \<or> ofd_fd ofd < 0 \<or> ofd_events ofd = 0 \<or> ofd_cb ofd = 0 then (Inl EINVAL, w)
     else if p \<in> loop_registered w then (Inl EEXIST, w)
     else case sys_epoll_ctl S epfd EPOLL_CTL_ADD (ofd_fd ofd) (Some evt) (lw_sys w) of
        (Inr _, k) \<Rightarrow> (Inr (), enter ofd (set_sys k w))
      | (Inl e, k) \<Rightarrow>
          if e = EEXIST
          then (case obus_fd_dup S (ofd_fd ofd) k of
                  (Inl e, k) \<Rightarrow> (Inl e, set_sys k w)
                | (Inr n, k) \<Rightarrow>
                   (case sys_epoll_ctl S epfd EPOLL_CTL_ADD n (Some evt) k of
                      (Inr _, k) \<Rightarrow> (Inr (), enter (ofd\<lparr>ofd_dupfd := n\<rparr>) (set_ofd p (ofd\<lparr>ofd_dupfd := n\<rparr>) (set_sys k w)))
                    | (Inl e, k) \<Rightarrow>
                        (Inl e, if n \<noteq> -1 then set_ofd p (ofd\<lparr>ofd_dupfd := -1\<rparr>) (set_sys (snd (sys_close S n k)) w)
                                else set_ofd p (ofd\<lparr>ofd_dupfd := n\<rparr>) (set_sys k w))))
          else (Inl e, set_sys k w))"
proof -
  have "ofd_loop (lw_ofd w p) \<noteq> 0 \<longleftrightarrow> p \<in> set (loop_ofds (lw_loop w))" "loop_self (lw_loop w) \<noteq> 0"
    "p \<notin> set (loop_ofds (lw_loop w)) \<Longrightarrow> ofd_dupfd (lw_ofd w p) = -1"
    using assms by (auto simp: loop_inv_def Let_def)
  then show ?thesis
    by (auto simp: obus_loop_add_def Let_def loop_of_def loop_registered_def syscall_def set_ofd_def set_sys_def set_loop_def
        split: prod.split sum.split)
qed

lemma loop_inv_set_same:
  "loop_inv interest w \<Longrightarrow> ofd_dupfd (lw_ofd w p) = -1 \<Longrightarrow> loop_inv interest (set_ofd p ((lw_ofd w p)\<lparr>ofd_dupfd := -1\<rparr>) w)"
  by (auto simp: loop_inv_def Let_def reg_fd_def)

text \<open>A successful \<open>obus_loop_add\<close> registers an object that was not registered; a failing one registers nothing.\<close>

lemma loop_add:
  assumes laws: "epoll_laws S interest" and inv: "loop_inv interest w" and add: "obus_loop_add S (loop_of w) p w = (r, w')"
  shows "loop_inv interest w' \<and> loop_of w' = loop_of w \<and>
    (case r of Inl e \<Rightarrow> loop_registered w' = loop_registered w
     | Inr _ \<Rightarrow> p \<notin> loop_registered w \<and> loop_registered w' = insert p (loop_registered w))"
proof -
  let ?ofd = "lw_ofd w p" and ?epfd = "loop_epfd (lw_loop w)"
  let ?ev = "fd_to_epoll_events (ofd_events ?ofd)"
  note eq = loop_add_eq [OF inv, of S p, unfolded Let_def] add
  show ?thesis
  proof (cases "p = 0 \<or> ofd_fd ?ofd < 0 \<or> ofd_events ?ofd = 0 \<or> ofd_cb ?ofd = 0 \<or> p \<in> loop_registered w")
    case True
    then show ?thesis using eq inv by (auto split: if_splits)
  next
    case False
    then have p: "p \<noteq> 0" "p \<notin> set (loop_ofds (lw_loop w))" and dup: "ofd_dupfd ?ofd = -1"
      using inv by (auto simp: loop_registered_def loop_inv_def Let_def)
    from laws show ?thesis
    proof (cases rule: epoll_add_cases [where epfd = ?epfd and fd = "ofd_fd ?ofd" and ev = ?ev and p = p and k = "lw_sys w"])
      case (ok k)
      have reg: "reg_fd ?ofd = ofd_fd ?ofd" by (simp add: reg_fd_def dup)
      have "loop_inv interest w'"
        by (rule loop_inv_enter [OF inv p, of ?ofd k]) (use eq False ok in \<open>auto simp: reg loop_of_def\<close>)
      then show ?thesis using eq False ok by (auto simp: loop_registered_def loop_of_def)
    next
      case (err e k)
      show ?thesis
      proof (cases "e = EEXIST")
        case False
        then show ?thesis
          using eq \<open>\<not> (p = 0 \<or> _)\<close> err loop_inv_sys [OF inv err(2)] by (auto simp: loop_registered_def loop_of_def)
      next
        case True
        from laws show ?thesis
        proof (cases rule: fd_dup_cases [where fd = "ofd_fd ?ofd" and k = k])
          case (err e2 k2)
          then show ?thesis
            using eq False \<open>sys_epoll_ctl S _ _ _ _ (lw_sys w) = _\<close> True loop_inv_sys [OF inv, of k2] \<open>interest k = _\<close>
            by (auto simp: loop_registered_def loop_of_def)
        next
          case (ok n k2)
          have k2: "interest k2 = interest (lw_sys w)" using ok err by simp
          from laws show ?thesis
          proof (cases rule: epoll_add_cases [where epfd = ?epfd and fd = n and ev = ?ev and p = p and k = k2])
            case (ok k3)
            have reg: "reg_fd (?ofd\<lparr>ofd_dupfd := n\<rparr>) = n" using \<open>0 \<le> n\<close> by (simp add: reg_fd_def)
            have "loop_inv interest w'"
              by (rule loop_inv_enter [OF inv p, of "?ofd\<lparr>ofd_dupfd := n\<rparr>" k3])
                (use eq False err True \<open>obus_fd_dup S _ _ = _\<close> ok k2 in \<open>auto simp: reg loop_of_def\<close>)
            then show ?thesis
              using eq False err True \<open>obus_fd_dup S _ _ = _\<close> ok by (auto simp: loop_registered_def loop_of_def)
          next
            case err2: (err e3 k3)
            have "interest (snd (sys_close S n k3)) = interest (lw_sys w)"
              using close_interest [OF laws, of k3 n] err2 k2 ok err by simp
            from loop_inv_set_same [OF loop_inv_sys [OF inv this], of p] dup show ?thesis
              using eq False err True \<open>obus_fd_dup S _ _ = _\<close> err2 \<open>0 \<le> n\<close> by (auto simp: loop_registered_def loop_of_def)
          qed
        qed
      qed
    qed
  qed
qed

lemma loop_remove:
  assumes laws: "epoll_laws S interest" and inv: "loop_inv interest w" and rem: "obus_loop_remove S (loop_of w) p w = (r, w')"
  shows "loop_inv interest w' \<and> loop_of w' = loop_of w \<and>
    (case r of Inl e \<Rightarrow> loop_registered w' = loop_registered w
     | Inr _ \<Rightarrow> p \<in> loop_registered w \<and> loop_registered w' = loop_registered w - {p})"
proof (cases "loop_of w = 0 \<or> p = 0 \<or> p \<notin> loop_registered w")
  case True
  then show ?thesis using rem inv by (auto simp: obus_loop_remove_def loop_registered_def split: if_splits)
next
  case False
  let ?ofd = "lw_ofd w p"
  have p: "p \<in> set (loop_ofds (lw_loop w))" using False by (simp add: loop_registered_def)
  have set: "set (remove1 p (loop_ofds (lw_loop w))) = set (loop_ofds (lw_loop w)) - {p}"
    using inv by (simp add: loop_inv_def Let_def set_remove1_eq)
  note eq = rem False p
  from laws show ?thesis
  proof (cases rule: epoll_del_cases [where epfd = "loop_epfd (lw_loop w)" and fd = "reg_fd ?ofd" and k = "lw_sys w"])
    case (err e k)
    then show ?thesis
      using eq loop_inv_sys [OF inv, of k] by (auto simp: obus_loop_remove_def syscall_def loop_registered_def loop_of_def)
  next
    case (ok k)
    have close: "interest (snd (sys_close S (ofd_dupfd ?ofd) k)) = interest k" if "ofd_dupfd ?ofd \<noteq> -1"
      using close_interest [OF laws, of k "ofd_dupfd ?ofd"] ok that by (simp add: reg_fd_def)
    show ?thesis
    proof (cases "ofd_dupfd ?ofd = -1")
      case True
      have "loop_inv interest w'"
        by (rule loop_inv_leave [OF inv p ok(2), of w' "?ofd\<lparr>ofd_loop := 0\<rparr>"])
          (use eq ok True in \<open>auto simp: obus_loop_remove_def syscall_def Let_def\<close>)
      then show ?thesis
        using eq ok True by (auto simp: obus_loop_remove_def syscall_def Let_def loop_registered_def loop_of_def set)
    next
      case dup: False
      obtain rc k2 where c: "sys_close S (ofd_dupfd ?ofd) k = (rc, k2)" by fastforce
      have k2: "interest k2 = (interest (lw_sys w))(reg_fd ?ofd := None)" using close [OF dup] c ok by simp
      have "loop_inv interest w'"
        by (rule loop_inv_leave [OF inv p k2, of w' "?ofd\<lparr>ofd_dupfd := -1, ofd_loop := 0\<rparr>"])
          (use eq ok dup c in \<open>auto simp: obus_loop_remove_def syscall_def Let_def\<close>)
      then show ?thesis
        using eq ok dup c by (auto simp: obus_loop_remove_def syscall_def Let_def loop_registered_def loop_of_def set)
    qed
  qed
qed

lemma loop_update_fails:
  assumes "epoll_laws S interest" "p \<in> loop_registered w" "p \<noteq> 0" "loop_of w \<noteq> 0"
  shows "fst (obus_loop_update S (loop_of w) p w) = Inl EFAULT"
proof -
  have "fst (sys_epoll_ctl S epfd EPOLL_CTL_MOD fd None k) = Inl EFAULT" for epfd fd k
    using assms(1) unfolding epoll_laws_def by blast
  then show ?thesis using assms(2-)
    by (auto simp: obus_loop_update_def syscall_def loop_registered_def split: prod.split) (metis fst_conv)
qed

section \<open>The contract of an event loop\<close>

datatype loop_op = Add addr | Remove addr

text \<open>What the operations mean for the set of registered objects, when they succeed.\<close>

primrec op_effect :: "loop_op \<Rightarrow> addr set \<Rightarrow> addr set" where
  "op_effect (Add p) R = insert p R"
| "op_effect (Remove p) R = R - {p}"

text \<open>
  A run of operations, given the functions of a loop: whether each of them was legal (a user removes only what is registered),
  the operations that succeeded, and the world behind it.
\<close>

primrec exec_op :: "(addr \<Rightarrow> 'w \<Rightarrow> unit res \<times> 'w) \<Rightarrow> (addr \<Rightarrow> 'w \<Rightarrow> unit res \<times> 'w) \<Rightarrow> loop_op \<Rightarrow> 'w \<Rightarrow> unit res \<times> 'w" where
  "exec_op add remove (Add p) w = add p w"
| "exec_op add remove (Remove p) w = remove p w"

primrec legal_op :: "('w \<Rightarrow> addr set) \<Rightarrow> loop_op \<Rightarrow> 'w \<Rightarrow> bool" where
  "legal_op registered (Add p) w = True"
| "legal_op registered (Remove p) w = (p \<in> registered w)"

primrec loop_runs ::
  "('w \<Rightarrow> addr set) \<Rightarrow> (addr \<Rightarrow> 'w \<Rightarrow> unit res \<times> 'w) \<Rightarrow> (addr \<Rightarrow> 'w \<Rightarrow> unit res \<times> 'w) \<Rightarrow> loop_op list \<Rightarrow> 'w
    \<Rightarrow> bool \<times> loop_op list \<times> 'w" where
  "loop_runs registered add remove [] w = (True, [], w)"
| "loop_runs registered add remove (op # ops) w =
     (let (r, w') = exec_op add remove op w; (ok, done, w'') = loop_runs registered add remove ops w'
      in (legal_op registered op w \<and> ok, if isl r then done else op # done, w''))"

locale event_loop =
  fixes invar :: "'w \<Rightarrow> bool"
    and registered :: "'w \<Rightarrow> addr set"
    and add :: "addr \<Rightarrow> 'w \<Rightarrow> unit res \<times> 'w"
    and remove :: "addr \<Rightarrow> 'w \<Rightarrow> unit res \<times> 'w"
  assumes add_ok: "invar w \<Longrightarrow> add p w = (Inr (), w') \<Longrightarrow>
      invar w' \<and> p \<notin> registered w \<and> registered w' = insert p (registered w)"
    and add_err: "invar w \<Longrightarrow> add p w = (Inl e, w') \<Longrightarrow> invar w' \<and> registered w' = registered w"
    and remove_ok: "invar w \<Longrightarrow> p \<in> registered w \<Longrightarrow> remove p w = (Inr (), w') \<Longrightarrow>
      invar w' \<and> registered w' = registered w - {p}"
    and remove_err: "invar w \<Longrightarrow> p \<in> registered w \<Longrightarrow> remove p w = (Inl e, w') \<Longrightarrow>
      invar w' \<and> registered w' = registered w"
begin

lemma exec_effect:
  assumes "invar w" "legal_op registered op w" "exec_op add remove op w = (r, w')"
  shows "invar w' \<and> registered w' = (if isl r then registered w else op_effect op (registered w))"
proof (cases op)
  case (Add p)
  then show ?thesis using assms add_ok [of w p w'] add_err [of w p _ w'] by (cases r) auto
next
  case (Remove p)
  then show ?thesis using assms remove_ok [of w p w'] remove_err [of w p _ w'] by (cases r) auto
qed

text \<open>After a run the registered objects are what the operations that succeeded make of them.\<close>

lemma runs_effect:
  "invar w \<Longrightarrow> loop_runs registered add remove ops w = (True, done, w') \<Longrightarrow> invar w' \<and> registered w' = fold op_effect done (registered w)"
proof (induction ops arbitrary: w "done")
  case (Cons op ops)
  obtain r w1 where e: "exec_op add remove op w = (r, w1)" by fastforce
  obtain ok d w2 where t: "loop_runs registered add remove ops w1 = (ok, d, w2)" by (rule prod_cases3)
  have legal: "legal_op registered op w" "ok" "w2 = w'" "done = (if isl r then d else op # d)"
    using Cons.prems(2) by (simp_all add: e t)
  note eff = exec_effect [OF Cons.prems(1) legal(1) e]
  show ?case using Cons.IH [of w1 d] eff t legal by auto
qed simp

lemma add_remove:
  assumes "invar w" "add p w = (Inr (), w1)" "remove p w1 = (Inr (), w2)"
  shows "registered w2 = registered w"
  using add_ok [OF assms(1,2)] remove_ok [of w1 p w2] assms(3) by auto

end

interpretation epoll: event_loop
  "\<lambda>w. epoll_laws S interest \<and> loop_inv interest w" loop_registered
  "\<lambda>p w. obus_loop_add S (loop_of w) p w" "\<lambda>p w. obus_loop_remove S (loop_of w) p w" for S interest
proof (unfold_locales, goal_cases)
  case (1 w p w')
  then show ?case using loop_add [of S interest w p "Inr ()" w'] by auto
next
  case (2 w p e w')
  then show ?case using loop_add [of S interest w p "Inl e" w'] by auto
next
  case (3 w p w')
  then show ?case using loop_remove [of S interest w p "Inr ()" w'] by auto
next
  case (4 w p e w')
  then show ?case using loop_remove [of S interest w p "Inl e" w'] by auto
qed

section \<open>Dispatching\<close>

text \<open>
  What a callback may rely on and has to keep: the invariant, a loop that is not destroyed, an event array that is not
  shortened, and the reference of the dispatcher.
\<close>

definition loop_alive :: "('k \<Rightarrow> int \<rightharpoonup> addr) \<Rightarrow> nat \<Rightarrow> ('k, 'z) loop_world_scheme \<Rightarrow> bool" where
  "loop_alive interest n w \<longleftrightarrow>
     loop_inv interest w \<and> \<not> loop_freed (lw_loop w) \<and> 0 < loop_ref (lw_loop w) \<and> n \<le> length (loop_events (lw_loop w)) \<and>
     (\<forall>(ep, p)\<in>set (take n (loop_events (lw_loop w))). ep \<noteq> 0)"

lemma alive_ready:
  assumes "loop_alive interest n w" "i < n"
  shows "i < length (loop_events (lw_loop w))" "fst (loop_events (lw_loop w) ! i) \<noteq> 0"
proof -
  show i: "i < length (loop_events (lw_loop w))" using assms by (simp add: loop_alive_def)
  then have "loop_events (lw_loop w) ! i \<in> set (take n (loop_events (lw_loop w)))"
    using assms(2) by (metis in_set_conv_nth length_take min_less_iff_conj nth_take)
  then show "fst (loop_events (lw_loop w) ! i) \<noteq> 0" using assms(1) by (auto simp: loop_alive_def)
qed

lemma dispatch_safe:
  assumes "loop_alive interest n w" "i \<le> n"
    and call: "\<And>w p events. loop_alive interest n w \<Longrightarrow> p \<in> loop_registered w \<Longrightarrow> events \<noteq> 0 \<Longrightarrow>
      loop_alive interest n (call (ofd_cb (lw_ofd w p)) p events w)"
  shows "fst (dispatch call n i i w) = Inr () \<and> loop_alive interest n (snd (dispatch call n i i w))"
  using assms(1,2)
proof (induction "n - i" arbitrary: i w)
  case 0
  then have "dispatch call n i i w = (Inr (), w)" by (subst dispatch.simps) (simp add: loop_alive_def)
  then show ?case using 0 by simp
next
  case (Suc m)
  then have i: "i < n" by simp
  note ready = alive_ready [OF Suc.prems(1) i]
  obtain ep p where e: "loop_events (lw_loop w) ! i = (ep, p)" by fastforce
  have IH: "fst (dispatch call n (i + 1) (i + 1) w1) = Inr () \<and> loop_alive interest n (snd (dispatch call n (i + 1) (i + 1) w1))"
    if "loop_alive interest n w1" for w1
    using Suc.hyps(1) [of "i + 1" w1] Suc.hyps(2) that i by simp
  let ?w1 = "if epoll_to_fd_events ep = 0 \<or> p \<notin> set (loop_ofds (lw_loop w)) then w
    else call (ofd_cb (lw_ofd w p)) p (epoll_to_fd_events ep) w"
  have "loop_alive interest n (call (ofd_cb (lw_ofd w p)) p (epoll_to_fd_events ep) w)"
    if "p \<in> set (loop_ofds (lw_loop w))" "epoll_to_fd_events ep \<noteq> 0"
    using call [OF Suc.prems(1)] that by (simp add: loop_registered_def)
  then have alive: "loop_alive interest n ?w1" using Suc.prems(1) by simp
  have live: "\<not> loop_freed (lw_loop w)" using Suc.prems(1) by (simp add: loop_alive_def)
  show ?case
  proof (cases "int i < loop_nfds (lw_loop w)")
    case True
    have "dispatch call n i i w = dispatch call n (i + 1) (i + 1) ?w1"
      using True ready e i live by (subst dispatch.simps) simp
    then show ?thesis using IH [OF alive] by (simp only:)
  next
    case False
    have "dispatch call n i i w = (Inr (), w)" using False live by (subst dispatch.simps) simp
    then show ?thesis using Suc.prems(1) by simp
  qed
qed

lemma grow_events_safe:
  assumes "wait_laws S interest" "loop_inv interest w" "grow_events S w = (r, w1)"
  shows "loop_inv interest w1 \<and> (r = Inl ENOMEM \<or> r = Inr () \<and> loop_nfds (lw_loop w1) \<le> int (length (loop_events (lw_loop w1)))) \<and>
    loop_freed (lw_loop w1) = loop_freed (lw_loop w) \<and> loop_ref (lw_loop w1) = loop_ref (lw_loop w)"
proof -
  have k: "interest (snd (sys_ep_realloc S m k)) = interest k" for m k
    using assms(1) unfolding wait_laws_def keeps_interest_def by blast
  let ?m = "EXTRA_ALLOC_EVENT_NB + nat (loop_nfds (lw_loop w))"
  obtain ra k1 where c: "sys_ep_realloc S ?m (lw_sys w) = (ra, k1)" by fastforce
  have k1: "interest k1 = interest (lw_sys w)" using k [of ?m "lw_sys w"] c by simp
  note inv1 = loop_inv_sys [OF assms(2) k1]
  have "loop_inv interest (set_loop ((lw_loop w)\<lparr>loop_events := es\<rparr>) (set_sys k1 w))" for es
    using inv1 by (simp add: loop_inv_def Let_def)
  then show ?thesis using assms(2,3) inv1 c
    by (cases ra) (auto simp: grow_events_def Let_def syscall_def split: if_splits)
qed


section \<open>A system\<close>

text \<open>
  A small system for the examples: the open descriptors, and the registrations in their order. A wait reports every registered object as
  ready for reading.
\<close>

record small_system =
  ss_open :: "int list"
  ss_watch :: "(int \<times> addr) list"

definition ss_fresh :: "small_system \<Rightarrow> int" where
  "ss_fresh k = foldr max (ss_open k @ map fst (ss_watch k)) 2 + 1"

definition ss_new :: "small_system \<Rightarrow> int res \<times> small_system" where
  "ss_new k = (Inr (ss_fresh k), k\<lparr>ss_open := ss_fresh k # ss_open k\<rparr>)"

definition ss_close :: "int \<Rightarrow> small_system \<Rightarrow> unit res \<times> small_system" where
  "ss_close fd k = (Inr (), k\<lparr>ss_open := removeAll fd (ss_open k), ss_watch := filter (\<lambda>(f, _). f \<noteq> fd) (ss_watch k)\<rparr>)"

definition ss_ctl :: "int \<Rightarrow> epoll_op \<Rightarrow> int \<Rightarrow> (u32 \<times> addr) option \<Rightarrow> small_system \<Rightarrow> unit res \<times> small_system" where
  "ss_ctl epfd op fd ev k =
     (case op of
        EPOLL_CTL_ADD \<Rightarrow>
          (case ev of None \<Rightarrow> (Inl EFAULT, k) | Some (_, p) \<Rightarrow>
           if fd \<in> fst ` set (ss_watch k) then (Inl EEXIST, k) else (Inr (), k\<lparr>ss_watch := ss_watch k @ [(fd, p)]\<rparr>))
      | EPOLL_CTL_MOD \<Rightarrow> (case ev of None \<Rightarrow> (Inl EFAULT, k) | Some _ \<Rightarrow> (Inr (), k))
      | EPOLL_CTL_DEL \<Rightarrow> (Inr (), k\<lparr>ss_watch := filter (\<lambda>(f, _). f \<noteq> fd) (ss_watch k)\<rparr>))"

definition ss_wait :: "int \<Rightarrow> int \<Rightarrow> int \<Rightarrow> small_system \<Rightarrow> (u32 \<times> addr) list res \<times> small_system" where
  "ss_wait epfd n timeout k =
     (if n \<le> 0 then (Inl EINVAL, k) else (Inr (map (\<lambda>(_, p). (EPOLLIN, p)) (take (nat n) (ss_watch k))), k))"

definition small_loop_system :: "small_system loop_system" where
  "small_loop_system =
     \<lparr>sys_getfd = \<lambda>_ k. (Inr 0, k), sys_setfd = \<lambda>_ _ k. (Inr (), k), sys_getfl = \<lambda>_ k. (Inr 0, k), sys_setfl = \<lambda>_ _ k. (Inr (), k),
      sys_dup = \<lambda>_. ss_new, sys_close = ss_close, sys_epoll_create = ss_new, sys_epoll_ctl = ss_ctl, sys_epoll_wait = ss_wait,
      sys_ep_realloc = \<lambda>_ k. (Inr (\<lambda>_. (0, 0)), k)\<rparr>"

abbreviation ss_interest :: "small_system \<Rightarrow> int \<rightharpoonup> addr" where
  "ss_interest k \<equiv> map_of (ss_watch k)"

lemma foldr_max_upper: "x \<in> set xs \<Longrightarrow> x \<le> foldr max xs (a :: int)"
  by (induction xs) auto

lemma foldr_max_base: "(a :: int) \<le> foldr max xs a"
  by (induction xs) auto

lemma ss_fresh_new: "0 \<le> ss_fresh k" "ss_fresh k \<notin> set (ss_open k)" "ss_interest k (ss_fresh k) = None"
proof -
  let ?xs = "ss_open k @ map fst (ss_watch k)"
  show "0 \<le> ss_fresh k" using foldr_max_base [of 2 ?xs] by (simp add: ss_fresh_def del: foldr_append)
  have "x < ss_fresh k" if "x \<in> set ?xs" for x
    using foldr_max_upper [OF that, of 2] by (simp add: ss_fresh_def del: foldr_append)
  then show "ss_fresh k \<notin> set (ss_open k)" "ss_interest k (ss_fresh k) = None"
    by (force, force simp: map_of_eq_None_iff)
qed

lemma map_of_filter_fst: "map_of (filter (\<lambda>(f, _). f \<noteq> fd) xs) = (map_of xs)(fd := None)"
  by (induction xs) (auto simp: fun_eq_iff)

lemma map_of_snoc: "fd \<notin> fst ` set xs \<Longrightarrow> map_of (xs @ [(fd, p)]) = (map_of xs)(fd \<mapsto> p)"
  by (induction xs) auto

lemma small_epoll_laws: "epoll_laws small_loop_system ss_interest"
  using ss_fresh_new
  by (simp add: epoll_laws_def small_loop_system_def ss_ctl_def ss_new_def ss_close_def keeps_interest_def map_of_filter_fst
      map_of_snoc del: map_of_append) (auto simp: map_of_eq_None_iff)

lemma small_wait_laws: "wait_laws small_loop_system ss_interest"
  by (auto simp: wait_laws_def small_loop_system_def ss_wait_def keeps_interest_def settles_def EPOLLIN_def dest: in_set_takeD)

lemma small_fd_laws: "fd_laws small_loop_system (\<lambda>k. set (ss_open k))"
  using ss_fresh_new
  by (auto simp: fd_laws_def small_loop_system_def keeps_fds_def adds_fd_def ss_new_def ss_close_def)

lemmas small_laws = small_epoll_laws small_wait_laws small_fd_laws

section \<open>Properties\<close>

text \<open>A new loop with no registrations satisfies the invariant.\<close>

lemma loop_new_inv:
  assumes "obus_loop_new S self k = (Some l, k')" "lw_loop w = l" "lw_sys w = k'" "interest k' = Map.empty"
    "\<And>p. ofd_loop (lw_ofd w p) = 0 \<and> ofd_dupfd (lw_ofd w p) = -1"
  shows "loop_inv interest w"
proof -
  have "l = \<lparr>loop_self = self, loop_ofds = [], loop_events = [], loop_nfds = 0, loop_ref = 1, loop_epfd = loop_epfd l,
      loop_freed = False\<rparr>" "self \<noteq> 0"
    using assms(1) by (auto simp: obus_loop_new_def split: if_splits prod.splits sum.splits)
  then have "loop_ofds l = []" "loop_nfds l = 0" "loop_self l \<noteq> 0" by (metis obus_loop.select_convs)+
  then show ?thesis using assms(2-) by (simp add: loop_inv_def Let_def)
qed

text \<open>A new loop holds one more descriptor; when it cannot be made, none is left open.\<close>

lemma loop_new_opened:
  assumes "fd_laws S opened" "adds_fd opened (sys_epoll_create S)" "obus_loop_new S self k = (r, k')"
  shows "opened k' = (case r of None \<Rightarrow> opened k | Some l \<Rightarrow> insert (loop_epfd l) (opened k)) \<and>
    (\<forall>l. r = Some l \<longrightarrow> loop_epfd l \<notin> opened k)"
proof (cases "self = 0")
  case True
  then show ?thesis using assms(3) by (simp add: obus_loop_new_def)
next
  case self: False
  note keeps = fd_laws_keeps [OF assms(1)]
  from assms(2) show ?thesis
  proof (cases rule: adds_fdE [where k = k])
    case (err e k1)
    then show ?thesis using assms(3) self by (simp add: obus_loop_new_def)
  next
    case (ok fd k1)
    obtain r2 k2 where c: "chk (obus_fd_set_close_on_exec S fd k1) (\<lambda>_ k. obus_fd_add_flags S fd O_NONBLOCK k) = (r2, k2)"
      by fastforce
    have "opened k2 = opened k1"
      using keeps_fdsD [OF keeps_fds_chk [where g = "\<lambda>_. obus_fd_add_flags S fd O_NONBLOCK", OF keeps(1) [of fd] keeps(3)], of k1] c
      by simp
    then show ?thesis using assms(3) self ok c keeps(4) [of fd k2] by (cases r2) (auto simp: obus_loop_new_def)
  qed
qed

text \<open>
  C18. The registrations of a loop on \<open>epoll\<close>: through every run of \<open>obus_loop_add\<close> and \<open>obus_loop_remove\<close> in which only registered
  objects are removed, whatever the system answers, the invariant holds (the count, the list, the objects' own loop fields and
  what the system has registered agree), and the registered objects are what the operations that succeeded make of them.
\<close>

theorem loop_run_refines:
  assumes "epoll_laws S interest" "loop_inv interest w"
    and "loop_runs loop_registered (\<lambda>p w. obus_loop_add S (loop_of w) p w) (\<lambda>p w. obus_loop_remove S (loop_of w) p w) ops w =
      (True, done, w')"
  shows "loop_inv interest w' \<and> loop_registered w' = fold op_effect done (loop_registered w)"
  using epoll.runs_effect [of S interest w ops "done" w'] assms by blast

definition sample_ofd :: "int \<Rightarrow> obus_fd" where
  "sample_ofd fd = obus_fd_init fd OBUS_FD_IN 7 0"

text \<open>The objects at 10 and 11 share a descriptor.\<close>

definition sample_world :: "small_system loop_world" where
  "sample_world =
     \<lparr>lw_loop = \<lparr>loop_self = 5, loop_ofds = [], loop_events = [], loop_nfds = 0, loop_ref = 1, loop_epfd = 3, loop_freed = False\<rparr>,
      lw_ofd = (\<lambda>p. if p = 10 \<or> p = 11 then sample_ofd 20 else sample_ofd 21),
      lw_sys = \<lparr>ss_open = [3, 20, 21], ss_watch = []\<rparr>\<rparr>"

lemma sample_world_inv: "loop_inv ss_interest sample_world"
  by (simp add: loop_inv_def sample_world_def sample_ofd_def obus_fd_init_def)

definition sample_ops :: "loop_op list" where
  "sample_ops = [Add 10, Add 11, Add 10, Remove 10]"

definition sample_run :: "bool \<times> loop_op list \<times> small_system loop_world" where
  "sample_run =
     loop_runs loop_registered (\<lambda>p w. obus_loop_add small_loop_system (loop_of w) p w)
       (\<lambda>p w. obus_loop_remove small_loop_system (loop_of w) p w) sample_ops sample_world"

lemma sample_run_eval:
  "fst sample_run = True" "fst (snd sample_run) = [Add 10, Add 11, Remove 10]"
  "loop_freed (lw_loop (snd (snd sample_run))) = False" "loop_ref (lw_loop (snd (snd sample_run))) = 1"
  by (simp_all add: sample_run_def sample_ops_def obus_loop_add_def obus_loop_remove_def obus_fd_dup_def
      obus_fd_has_close_on_exec_def Let_def syscall_def sample_world_def sample_ofd_def obus_fd_init_def small_loop_system_def
      loop_of_def loop_registered_def ss_ctl_def ss_new_def ss_fresh_def ss_close_def reg_fd_def fd_flags
      set_ofd_def set_sys_def set_loop_def)

lemma sample_run_done:
  "loop_runs loop_registered (\<lambda>p w. obus_loop_add small_loop_system (loop_of w) p w)
     (\<lambda>p w. obus_loop_remove small_loop_system (loop_of w) p w) sample_ops sample_world =
   (True, fst (snd sample_run), snd (snd sample_run))"
  using sample_run_eval(1) by (simp add: sample_run_def prod_eq_iff)

theorem loop_run_refines_witness:
  "loop_inv ss_interest (snd (snd sample_run)) \<and> loop_registered (snd (snd sample_run)) = {11}"
proof -
  have "loop_registered sample_world = {}" by (simp add: loop_registered_def sample_world_def)
  then show ?thesis
    using loop_run_refines [OF small_epoll_laws sample_world_inv sample_run_done] unfolding sample_run_eval(2) by (simp add: insert_commute)
qed

text \<open>A callback that removes its object, as the one of a connecting socket does.\<close>

definition one_shot :: "nat \<Rightarrow> addr \<Rightarrow> u32 \<Rightarrow> small_system loop_world \<Rightarrow> small_system loop_world" where
  "one_shot cb p events w = snd (obus_loop_remove small_loop_system (loop_of w) p w)"

lemma remove_frame:
  assumes "obus_loop_remove S loop p w = (r, w')"
  shows "loop_events (lw_loop w') = loop_events (lw_loop w) \<and> loop_ref (lw_loop w') = loop_ref (lw_loop w) \<and>
    loop_freed (lw_loop w') = loop_freed (lw_loop w)"
proof (cases "loop = 0 \<or> p = 0 \<or> p \<notin> set (loop_ofds (lw_loop w))")
  case True
  then show ?thesis using assms by (auto simp: obus_loop_remove_def split: if_splits)
next
  case False
  obtain rd k where d: "sys_epoll_ctl S (loop_epfd (lw_loop w)) EPOLL_CTL_DEL (reg_fd (lw_ofd w p)) None (lw_sys w) = (rd, k)"
    by fastforce
  obtain rc k2 where c: "sys_close S (ofd_dupfd (lw_ofd w p)) k = (rc, k2)" by fastforce
  show ?thesis
    using False assms d c
    by (cases rd; cases "ofd_dupfd (lw_ofd w p) = -1") (auto simp: obus_loop_remove_def syscall_def Let_def)
qed

lemma one_shot_alive:
  assumes "loop_alive ss_interest n w"
  shows "loop_alive ss_interest n (one_shot cb p events w)"
proof -
  obtain r w' where rem: "obus_loop_remove small_loop_system (loop_of w) p w = (r, w')" by fastforce
  have "loop_inv ss_interest w" using assms by (simp add: loop_alive_def)
  from loop_remove [OF small_epoll_laws this rem] remove_frame [OF rem] assms show ?thesis
    by (simp add: one_shot_def rem loop_alive_def)
qed


text \<open>The handling of one ready entry.\<close>

definition handle ::
  "(nat \<Rightarrow> addr \<Rightarrow> u32 \<Rightarrow> ('k, 'z) loop_world_scheme \<Rightarrow> ('k, 'z) loop_world_scheme) \<Rightarrow> u32 \<times> addr
    \<Rightarrow> ('k, 'z) loop_world_scheme \<Rightarrow> ('k, 'z) loop_world_scheme" where
  "handle call e w =
     (let events = epoll_to_fd_events (fst e); p = snd e in
      if events = 0 \<or> p \<notin> loop_registered w then w else call (ofd_cb (lw_ofd w p)) p events w)"

text \<open>
  C19. When the callbacks leave the loop itself alone, every object that is ready is served once, in the order of the event array: the
  walk of \<open>obus_loop_do_process\<close> is the fold of the callbacks over the ready entries.
\<close>

theorem dispatch_all:
  assumes "\<And>cb p events w. lw_loop (call cb p events w) = lw_loop w"
    and "\<not> loop_freed (lw_loop w)" "int n \<le> loop_nfds (lw_loop w)" "n \<le> length (loop_events (lw_loop w))"
    and "\<forall>(ep, p)\<in>set (take n (loop_events (lw_loop w))). ep \<noteq> 0"
  shows "dispatch call n 0 0 w = (Inr (), fold (handle call) (take n (loop_events (lw_loop w))) w)"
proof -
  have keep: "lw_loop (handle call e w) = lw_loop w" for e w using assms(1) by (simp add: handle_def Let_def)
  have "dispatch call n i i w1 = (Inr (), fold (handle call) (drop i (take n (loop_events (lw_loop w)))) w1)"
    if "lw_loop w1 = lw_loop w" "i \<le> n" for i w1
    using that
  proof (induction "n - i" arbitrary: i w1)
    case 0
    then show ?case using assms(2) by (subst dispatch.simps) simp
  next
    case (Suc m)
    then have i: "i < n" by simp
    let ?e = "loop_events (lw_loop w) ! i"
    have "?e \<in> set (take n (loop_events (lw_loop w)))" 
      using i assms(4) nth_mem [of i "take n (loop_events (lw_loop w))"] by simp
    then have nz: "fst ?e \<noteq> 0" using assms(5) by auto
    have "dispatch call n i i w1 = dispatch call n (i + 1) (i + 1) (handle call ?e w1)"
      using nz i assms(2-4) Suc.prems by (subst dispatch.simps) (auto simp: handle_def Let_def loop_registered_def split: prod.split)
    also have "\<dots> = (Inr (), fold (handle call) (drop (i + 1) (take n (loop_events (lw_loop w)))) (handle call ?e w1))"
      by (rule Suc.hyps(1)) (use Suc.hyps(2) Suc.prems keep i in simp_all)
    also have "\<dots> = (Inr (), fold (handle call) (drop i (take n (loop_events (lw_loop w)))) w1)"
      using i assms(4) Cons_nth_drop_Suc [of i "take n (loop_events (lw_loop w))", symmetric] by simp
    finally show ?case .
  qed
  from this [of w 0] show ?thesis by simp
qed

text \<open>A callback that counts in the data of its object.\<close>

definition counting :: "nat \<Rightarrow> addr \<Rightarrow> u32 \<Rightarrow> small_system loop_world \<Rightarrow> small_system loop_world" where
  "counting cb p events w = set_ofd p ((lw_ofd w p)\<lparr>ofd_data := ofd_data (lw_ofd w p) + 1\<rparr>) w"

definition ready_world :: "small_system loop_world" where
  "ready_world =
     (let w = sample_world in
      w\<lparr>lw_loop := (lw_loop w)\<lparr>loop_ofds := [10, 12], loop_nfds := 2, loop_events := [(EPOLLIN, 10), (EPOLLIN, 12)]\<rparr>\<rparr>)"

theorem dispatch_all_witness:
  "ofd_data (lw_ofd (snd (dispatch counting 2 0 0 ready_world)) 10) = 1 \<and>
   ofd_data (lw_ofd (snd (dispatch counting 2 0 0 ready_world)) 12) = 1"
proof -
  have "dispatch counting 2 0 0 ready_world = (Inr (), fold (handle counting) (take 2 (loop_events (lw_loop ready_world))) ready_world)"
    by (rule dispatch_all) (simp_all add: counting_def ready_world_def sample_world_def epoll_flags Let_def)
  then show ?thesis
    by (simp add: handle_def counting_def ready_world_def sample_world_def sample_ofd_def obus_fd_init_def epoll_flags fd_flags
        epoll_to_fd_events_def add_if_def loop_registered_def Let_def)
qed

text \<open>
  When a callback removes its object the count shrinks under the walk, and the last ready entries wait for another turn.
\<close>

lemma dispatch_skips:
  "lw_ofd (snd (dispatch (\<lambda>cb p events w. if p = 10 then snd (obus_loop_remove small_loop_system (loop_of w) p w)
      else counting cb p events w) 2 0 0 ready_world)) 12 = lw_ofd ready_world 12"
  by (simp add: dispatch.simps [where i = 0] dispatch.simps [where i = "Suc 0"] ready_world_def sample_world_def sample_ofd_def
      obus_fd_init_def epoll_flags fd_flags epoll_to_fd_events_def add_if_def Let_def obus_loop_remove_def loop_of_def syscall_def
      small_loop_system_def ss_ctl_def set_ofd_def set_sys_def set_loop_def)

end
