(* ===== verification/Obus_Loop_Posix.thy ===== *)
theory Obus_Loop_Posix
  imports Obus_Loop Obus_Hash
begin

text \<open>
  The event loop on \<open>poll\<close>: \<open>obus_loop_posix.c\<close>, the implementation that is built where there is no \<open>epoll\<close>. The registered objects are in
  a hash table under their descriptor. The theory shows that both loops meet the contract of \<open>Obus_Loop\<close>, and where they differ.
\<close>

section \<open>Translation of the events\<close>

definition POLLIN :: u16 where "POLLIN = 0x001"
definition POLLPRI :: u16 where "POLLPRI = 0x002"
definition POLLOUT :: u16 where "POLLOUT = 0x004"
definition POLLERR :: u16 where "POLLERR = 0x008"
definition POLLHUP :: u16 where "POLLHUP = 0x010"
definition POLLRDHUP :: u16 where "POLLRDHUP = 0x2000"

lemmas poll_flags = POLLIN_def POLLPRI_def POLLOUT_def POLLERR_def POLLHUP_def POLLRDHUP_def

definition fd_to_poll_events :: "u32 \<Rightarrow> u16" where
  "fd_to_poll_events events =
     add_if (events AND OBUS_FD_HUP \<noteq> 0) POLLHUP
     (add_if (events AND OBUS_FD_ERR \<noteq> 0) POLLERR
     (add_if (events AND OBUS_FD_OUT \<noteq> 0) POLLOUT
     (add_if (events AND OBUS_FD_IN \<noteq> 0) POLLIN 0)))"

definition poll_to_fd_events :: "u16 \<Rightarrow> u32" where
  "poll_to_fd_events events =
     add_if (events AND POLLRDHUP \<noteq> 0) OBUS_FD_HUP
     (add_if (events AND POLLHUP \<noteq> 0) OBUS_FD_HUP
     (add_if (events AND POLLERR \<noteq> 0) OBUS_FD_ERR
     (add_if (events AND POLLOUT \<noteq> 0) OBUS_FD_OUT
     (add_if (events AND POLLIN \<noteq> 0 \<or> events AND POLLPRI \<noteq> 0) OBUS_FD_IN 0))))"

section \<open>The loop and its world\<close>

definition OBUS_LOOP_HASH_SIZE :: nat where "OBUS_LOOP_HASH_SIZE = 31"

text \<open>An entry of the poll array: descriptor, wanted events, reported events.\<close>

type_synonym pollfd = "int \<times> u16 \<times> u16"

text \<open>\<open>sys_poll\<close> returns what it reports for each entry.\<close>

record 'k poll_system = "'k fd_system" +
  sys_poll :: "pollfd list \<Rightarrow> int \<Rightarrow> 'k \<Rightarrow> u16 list res \<times> 'k"
  sys_pfds_realloc :: "nat \<Rightarrow> 'k \<Rightarrow> (nat \<Rightarrow> pollfd) res \<times> 'k"

record posix_loop =
  pl_self :: addr
  pl_ofds :: "addr obus_hash"
  pl_pfds :: "pollfd list"
  pl_nfds :: int
  pl_ref :: nat
  pl_freed :: bool

record 'k posix_world =
  pw_loop :: posix_loop
  pw_ofd :: "addr \<Rightarrow> obus_fd"
  pw_sys :: 'k

definition pset_ofd :: "addr \<Rightarrow> obus_fd \<Rightarrow> ('k, 'z) posix_world_scheme \<Rightarrow> ('k, 'z) posix_world_scheme" where
  "pset_ofd p ofd w = w\<lparr>pw_ofd := (pw_ofd w)(p := ofd)\<rparr>"

definition pset_sys :: "'k \<Rightarrow> ('k, 'z) posix_world_scheme \<Rightarrow> ('k, 'z) posix_world_scheme" where
  "pset_sys k w = w\<lparr>pw_sys := k\<rparr>"

definition pset_loop :: "posix_loop \<Rightarrow> ('k, 'z) posix_world_scheme \<Rightarrow> ('k, 'z) posix_world_scheme" where
  "pset_loop l w = w\<lparr>pw_loop := l\<rparr>"

lemma posix_world_simps [simp]:
  "pw_loop (pset_ofd p ofd w) = pw_loop w" "pw_sys (pset_ofd p ofd w) = pw_sys w"
  "pw_ofd (pset_ofd p ofd w) = (pw_ofd w)(p := ofd)"
  "pw_loop (pset_sys k w) = pw_loop w" "pw_ofd (pset_sys k w) = pw_ofd w" "pw_sys (pset_sys k w) = k"
  "pw_loop (pset_loop l w) = l" "pw_ofd (pset_loop l w) = pw_ofd w" "pw_sys (pset_loop l w) = pw_sys w"
  by (simp_all add: pset_ofd_def pset_sys_def pset_loop_def)

definition psyscall :: "('k \<Rightarrow> 'a res \<times> 'k) \<Rightarrow> ('k, 'z) posix_world_scheme \<Rightarrow> 'a res \<times> ('k, 'z) posix_world_scheme" where
  "psyscall call w = (case call (pw_sys w) of (r, k) \<Rightarrow> (r, pset_sys k w))"

section \<open>Life of a loop\<close>

text \<open>
  \<open>obus_hash_init\<close> returns 0 even when it fails, and then it has freed the table, which is the start of the loop: the function goes on to
  write into the freed loop.
\<close>

definition posix_loop_new :: "memory \<Rightarrow> addr \<Rightarrow> posix_loop option res" where
  "posix_loop_new m self =
     (if self = 0 then Inr None
      else case obus_hash_init m OBUS_LOOP_HASH_SIZE of
        (Inl _, _) \<Rightarrow> Inr None
      | (Inr _, None) \<Rightarrow> Inl FAULT
      | (Inr _, Some h) \<Rightarrow>
          Inr (Some \<lparr>pl_self = self, pl_ofds = h, pl_pfds = [], pl_nfds = 0, pl_ref = 1, pl_freed = False\<rparr>))"

definition posix_loop_destroy :: "('k, 'z) posix_world_scheme \<Rightarrow> ('k, 'z) posix_world_scheme" where
  "posix_loop_destroy w =
     pset_loop ((pw_loop w)\<lparr>pl_ofds := obus_hash_destroy (pl_ofds (pw_loop w)), pl_pfds := [], pl_freed := True\<rparr>) w"

definition posix_loop_ref :: "('k, 'z) posix_world_scheme \<Rightarrow> ('k, 'z) posix_world_scheme" where
  "posix_loop_ref w = pset_loop ((pw_loop w)\<lparr>pl_ref := pl_ref (pw_loop w) + 1\<rparr>) w"

definition posix_loop_unref :: "('k, 'z) posix_world_scheme \<Rightarrow> ('k, 'z) posix_world_scheme" where
  "posix_loop_unref w =
     (let w = pset_loop ((pw_loop w)\<lparr>pl_ref := sz_sub (pl_ref (pw_loop w)) 1\<rparr>) w
      in if pl_ref (pw_loop w) = 0 then posix_loop_destroy w else w)"

section \<open>Registration\<close>

definition key_of :: "int \<Rightarrow> u32" where
  "key_of fd = of_int fd"

definition posix_loop_add ::
  "('k, 'y) poll_system_scheme \<Rightarrow> memory \<Rightarrow> addr \<Rightarrow> addr \<Rightarrow> ('k, 'z) posix_world_scheme \<Rightarrow> unit res \<times> ('k, 'z) posix_world_scheme" where
  "posix_loop_add S m loop p w =
     (let ofd = pw_ofd w p; h = pl_ofds (pw_loop w) in
      if loop = 0 \<or> p = 0 \<or> ofd_fd ofd < 0 \<or> ofd_events ofd = 0 \<or> ofd_cb ofd = 0 then (Inl EINVAL, w)
      else if ofd_loop ofd \<noteq> 0 then (Inl EEXIST, w)
      else chk (case obus_hash_lookup h (key_of (ofd_fd ofd)) of
                  Inr _ \<Rightarrow> chk (psyscall (obus_fd_dup S (ofd_fd ofd)) w) (\<lambda>n w.
                             (Inr (obus_hash_insert m h (key_of n) p), pset_ofd p (ofd\<lparr>ofd_dupfd := n\<rparr>) w))
                | Inl _ \<Rightarrow> (Inr (obus_hash_insert m h (key_of (ofd_fd ofd)) p), w))
           (\<lambda>(ret, h) w.
             case ret of
               Inl e \<Rightarrow>
                 (Inl e, if ofd_dupfd (pw_ofd w p) \<noteq> -1
                         then pset_ofd p ((pw_ofd w p)\<lparr>ofd_dupfd := -1\<rparr>) (snd (psyscall (sys_close S (ofd_dupfd (pw_ofd w p))) w))
                         else w)
             | Inr _ \<Rightarrow>
                 (Inr (), pset_ofd p ((pw_ofd w p)\<lparr>ofd_loop := loop\<rparr>)
                   (pset_loop ((pw_loop w)\<lparr>pl_ofds := h, pl_nfds := pl_nfds (pw_loop w) + 1\<rparr>) w))))"

text \<open>The return value of a function as a number.\<close>

primrec errno_nr :: "errno \<Rightarrow> int" where
  "errno_nr EPERM = 1" | "errno_nr ENOENT = 2" | "errno_nr EINTR = 4" | "errno_nr EIO = 5" | "errno_nr EAGAIN = 11"
| "errno_nr ENOMEM = 12" | "errno_nr EFAULT = 14" | "errno_nr EBUSY = 16" | "errno_nr EEXIST = 17" | "errno_nr ENODEV = 19"
| "errno_nr EINVAL = 22" | "errno_nr EPIPE = 32" | "errno_nr ENOSYS = 38" | "errno_nr EADDRNOTAVAIL = 99"
| "errno_nr ECONNRESET = 104" | "errno_nr ENOTCONN = 107" | "errno_nr ETIMEDOUT = 110" | "errno_nr EINPROGRESS = 115"
| "errno_nr FAULT = 0"

definition ret_value :: "'a res \<Rightarrow> int" where
  "ret_value r = (case r of Inl e \<Rightarrow> - errno_nr e | Inr _ \<Rightarrow> 0)"

text \<open>The code compares the result of the lookup with \<open>EEXIST\<close>.\<close>

definition posix_loop_update :: "addr \<Rightarrow> addr \<Rightarrow> ('k, 'z) posix_world_scheme \<Rightarrow> unit res" where
  "posix_loop_update loop p w =
     (if loop = 0 \<or> p = 0 then Inl EINVAL
      else let ret = obus_hash_lookup (pl_ofds (pw_loop w)) (key_of (reg_fd (pw_ofd w p)))
        in if ret_value ret \<noteq> errno_nr EEXIST \<or> ret \<noteq> Inr p then Inl ENOENT else Inr ())"

definition posix_loop_remove ::
  "('k, 'y) poll_system_scheme \<Rightarrow> addr \<Rightarrow> addr \<Rightarrow> ('k, 'z) posix_world_scheme \<Rightarrow> unit res \<times> ('k, 'z) posix_world_scheme" where
  "posix_loop_remove S loop p w =
     (if loop = 0 \<or> p = 0 then (Inl EINVAL, w)
      else case obus_hash_remove (pl_ofds (pw_loop w)) (key_of (reg_fd (pw_ofd w p))) of
        (Inl e, _) \<Rightarrow> (Inl e, w)
      | (Inr _, h) \<Rightarrow>
          let ofd = pw_ofd w p;
              w = (if ofd_dupfd ofd \<noteq> -1
                   then pset_ofd p (ofd\<lparr>ofd_dupfd := -1\<rparr>) (snd (psyscall (sys_close S (ofd_dupfd ofd)) w)) else w)
          in (Inr (), pset_ofd p ((pw_ofd w p)\<lparr>ofd_loop := 0\<rparr>)
               (pset_loop ((pw_loop w)\<lparr>pl_ofds := h, pl_nfds := pl_nfds (pw_loop w) - 1\<rparr>) w)))"

section \<open>Polling and dispatching\<close>

definition obus_loop_posix_get_fd_count :: "posix_loop option \<Rightarrow> int res" where
  "obus_loop_posix_get_fd_count loop = (case loop of None \<Rightarrow> Inl EINVAL | Some l \<Rightarrow> Inr (pl_nfds l))"

text \<open>The entries that are written, the first of the array.\<close>

definition obus_loop_posix_get_fds :: "('k, 'z) posix_world_scheme \<Rightarrow> int \<Rightarrow> pollfd list res" where
  "obus_loop_posix_get_fds w n =
     (if n = 0 then Inl EINVAL
      else Inr (map (\<lambda>e. (sint (ekey e), fd_to_poll_events (ofd_events (pw_ofd w (edata e))), 0))
                 (take (nat n) (entries (pl_ofds (pw_loop w))))))"

definition obus_loop_posix_process_fd ::
  "(nat \<Rightarrow> addr \<Rightarrow> u32 \<Rightarrow> ('k, 'z) posix_world_scheme \<Rightarrow> ('k, 'z) posix_world_scheme) \<Rightarrow> pollfd
    \<Rightarrow> ('k, 'z) posix_world_scheme \<Rightarrow> unit res \<times> ('k, 'z) posix_world_scheme" where
  "obus_loop_posix_process_fd call pfd w =
     (case pfd of (fd, _, revents) \<Rightarrow>
      if revents = 0 then (Inr (), w)
      else case obus_hash_lookup (pl_ofds (pw_loop w)) (key_of fd) of
        Inl e \<Rightarrow> (Inl e, w)
      | Inr p \<Rightarrow> (Inr (), call (ofd_cb (pw_ofd w p)) p (poll_to_fd_events revents) w))"

function posix_dispatch ::
  "(nat \<Rightarrow> addr \<Rightarrow> u32 \<Rightarrow> ('k, 'z) posix_world_scheme \<Rightarrow> ('k, 'z) posix_world_scheme) \<Rightarrow> nat \<Rightarrow> nat \<Rightarrow> nat
    \<Rightarrow> ('k, 'z) posix_world_scheme \<Rightarrow> unit res \<times> ('k, 'z) posix_world_scheme" where
  "posix_dispatch call n i j w =
     (if pl_freed (pw_loop w) then (Inl FAULT, w)
      else if \<not> (int i < pl_nfds (pw_loop w) \<and> j < n) then (Inr (), w)
      else if length (pl_pfds (pw_loop w)) \<le> i then (Inl FAULT, w)
      else let pfd = pl_pfds (pw_loop w) ! i in
        if snd (snd pfd) = 0 then posix_dispatch call n (i + 1) j w
        else posix_dispatch call n (i + 1) (j + 1)
          (if poll_to_fd_events (snd (snd pfd)) \<noteq> 0 then snd (obus_loop_posix_process_fd call pfd w) else w))"
  by pat_completeness auto
termination
  by (relation "(\<lambda>(call, n, i, j, w). n - j) <*mlex*> measure (\<lambda>(call, n, i, j, w). nat (pl_nfds (pw_loop w) - int i))")
    (auto simp: wf_mlex intro: mlex_less mlex_leq)

declare posix_dispatch.simps [simp del]

definition grow_pfds ::
  "('k, 'y) poll_system_scheme \<Rightarrow> ('k, 'z) posix_world_scheme \<Rightarrow> unit res \<times> ('k, 'z) posix_world_scheme" where
  "grow_pfds S w =
     (let n = length (pl_pfds (pw_loop w)); m = EXTRA_ALLOC_EVENT_NB + nat (pl_nfds (pw_loop w)) in
      if int n < pl_nfds (pw_loop w)
      then (case psyscall (sys_pfds_realloc S m) w of
              (Inl _, w) \<Rightarrow> (Inl ENOMEM, w)
            | (Inr fresh, w) \<Rightarrow> (Inr (), pset_loop ((pw_loop w)\<lparr>pl_pfds := pl_pfds (pw_loop w) @ map fresh [n..<m]\<rparr>) w))
      else (Inr (), w))"

definition set_revents :: "pollfd list \<Rightarrow> u16 list \<Rightarrow> pollfd list" where
  "set_revents pfds rs = map (\<lambda>((fd, ev, _), r). (fd, ev, r)) (zip pfds rs)"

text \<open>The number of ready entries is what \<open>poll\<close> returns.\<close>

definition posix_loop_do_process ::
  "('k, 'y) poll_system_scheme \<Rightarrow> (nat \<Rightarrow> addr \<Rightarrow> u32 \<Rightarrow> ('k, 'z) posix_world_scheme \<Rightarrow> ('k, 'z) posix_world_scheme)
    \<Rightarrow> int \<Rightarrow> ('k, 'z) posix_world_scheme \<Rightarrow> (unit res \<times> ('k, 'z) posix_world_scheme) option" where
  "posix_loop_do_process S call timeout w =
     (case grow_pfds S w of (Inl e, w) \<Rightarrow> Some (Inl e, w) | (Inr _, w) \<Rightarrow>
      case (if pl_pfds (pw_loop w) = [] then Inl EINVAL else obus_loop_posix_get_fds w (pl_nfds (pw_loop w))) of
        Inl e \<Rightarrow> Some (Inl e, w)
      | Inr pfds \<Rightarrow>
          let w = pset_loop ((pw_loop w)\<lparr>pl_pfds := pfds @ drop (length pfds) (pl_pfds (pw_loop w))\<rparr>) w;
              polled = take (nat (pl_nfds (pw_loop w))) (pl_pfds (pw_loop w))
          in case retry_eintr (sys_poll S polled timeout) (pw_sys w) of
               None \<Rightarrow> None
             | Some (Inl e, k) \<Rightarrow> Some (Inl e, pset_sys k w)
             | Some (Inr rs, k) \<Rightarrow>
                 let n = length (filter (\<lambda>r. r \<noteq> 0) rs);
                     w = pset_sys k w;
                     w = pset_loop ((pw_loop w)\<lparr>pl_pfds := set_revents polled rs @ drop (length polled) (pl_pfds (pw_loop w))\<rparr>) w
                 in if n = 0 then Some (Inr (), w)
                    else Some (case posix_dispatch call n 0 0 (posix_loop_ref w) of
                                 (Inl e, w) \<Rightarrow> (Inl e, w) | (Inr _, w) \<Rightarrow> (Inr (), posix_loop_unref w)))"

text \<open>The loop on \<open>poll\<close> has no descriptor of its own.\<close>

definition posix_loop_fd :: "posix_loop option \<Rightarrow> int res" where
  "posix_loop_fd loop = Inl ENOSYS"

definition posix_loop_process ::
  "('k, 'y) poll_system_scheme \<Rightarrow> (nat \<Rightarrow> addr \<Rightarrow> u32 \<Rightarrow> ('k, 'z) posix_world_scheme \<Rightarrow> ('k, 'z) posix_world_scheme)
    \<Rightarrow> ('k, 'z) posix_world_scheme \<Rightarrow> (unit res \<times> ('k, 'z) posix_world_scheme) option" where
  "posix_loop_process S call w = posix_loop_do_process S call 0 w"

definition posix_loop_wait ::
  "('k, 'y) poll_system_scheme \<Rightarrow> (nat \<Rightarrow> addr \<Rightarrow> u32 \<Rightarrow> ('k, 'z) posix_world_scheme \<Rightarrow> ('k, 'z) posix_world_scheme)
    \<Rightarrow> ('k, 'z) posix_world_scheme \<Rightarrow> (unit res \<times> ('k, 'z) posix_world_scheme) option" where
  "posix_loop_wait S call w = posix_loop_do_process S call (-1) w"

section \<open>The translations agree\<close>

lemma small_events:
  fixes e :: u32
  shows "e AND 15 \<in> {0, 1, 2, 3, 4, 5, 6, 7, 8, 9, 10, 11, 12, 13, 14, 15}"
proof -
  have less: "n \<in> {0, 1, 2, 3, 4, 5, 6, 7, 8, 9, 10, 11, 12, 13, 14, 15}" if "n < 16" for n :: nat using that by simp arith
  have "unat (e AND 15) < 16" using word_and_le1 [of e 15] by (simp add: word_le_nat_alt)
  then have "unat (e AND 15) \<in> {0, 1, 2, 3, 4, 5, 6, 7, 8, 9, 10, 11, 12, 13, 14, 15}" by (rule less)
  then have "of_nat (unat (e AND 15)) \<in> (of_nat ` {0, 1, 2, 3, 4, 5, 6, 7, 8, 9, 10, 11, 12, 13, 14, 15} :: u32 set)"
    by (rule imageI)
  then show ?thesis by simp
qed

lemma fd_to_epoll_mask: "fd_to_epoll_events e = fd_to_epoll_events (e AND 15)"
  and fd_to_poll_mask: "fd_to_poll_events e = fd_to_poll_events (e AND 15)"
  by (simp_all add: fd_to_epoll_events_def fd_to_poll_events_def fd_flags and.assoc)

text \<open>
  The events survive the translation to \<open>epoll\<close> and back, and both implementations translate alike: \<open>POLL*\<close> and \<open>EPOLL*\<close> have the same
  values, so the events asked for and the events reported are the same in both loops, up to the width.
\<close>

theorem events_translation:
  "epoll_to_fd_events (fd_to_epoll_events e) = e AND (OBUS_FD_IN OR OBUS_FD_OUT OR OBUS_FD_ERR OR OBUS_FD_HUP) \<and>
   ucast (fd_to_poll_events e) = fd_to_epoll_events e \<and> poll_to_fd_events r = epoll_to_fd_events (ucast r)"
proof (intro conjI)
  show "epoll_to_fd_events (fd_to_epoll_events e) = e AND (OBUS_FD_IN OR OBUS_FD_OUT OR OBUS_FD_ERR OR OBUS_FD_HUP)"
    using small_events [of e]
    by (subst fd_to_epoll_mask) (auto simp: fd_flags epoll_flags epoll_to_fd_events_def fd_to_epoll_events_def add_if_def)
  show "ucast (fd_to_poll_events e) = fd_to_epoll_events e"
    using small_events [of e] unfolding fd_to_epoll_mask [of e] fd_to_poll_mask [of e]
    by (auto simp: fd_flags epoll_flags poll_flags fd_to_poll_events_def fd_to_epoll_events_def add_if_def)
  have flag: "(ucast r :: u32) AND ucast f \<noteq> 0 \<longleftrightarrow> r AND f \<noteq> 0" for f :: u16
  proof -
    have "(ucast r :: u32) AND ucast f = ucast (r AND f)" by (simp add: unsigned_and_eq)
    moreover have "(ucast x :: u32) = 0 \<longleftrightarrow> x = 0" for x :: u16 by transfer simp
    ultimately show ?thesis by metis
  qed
  have "(1 :: u32) = ucast (1 :: u16)" "(2 :: u32) = ucast (2 :: u16)" "(4 :: u32) = ucast (4 :: u16)" "(8 :: u32) = ucast (8 :: u16)"
    "(0x10 :: u32) = ucast (0x10 :: u16)" "(0x2000 :: u32) = ucast (0x2000 :: u16)" by simp_all
  then have "(ucast r :: u32) AND 1 \<noteq> 0 \<longleftrightarrow> r AND 1 \<noteq> 0" "(ucast r :: u32) AND 2 \<noteq> 0 \<longleftrightarrow> r AND 2 \<noteq> 0"
    "(ucast r :: u32) AND 4 \<noteq> 0 \<longleftrightarrow> r AND 4 \<noteq> 0" "(ucast r :: u32) AND 8 \<noteq> 0 \<longleftrightarrow> r AND 8 \<noteq> 0"
    "(ucast r :: u32) AND 0x10 \<noteq> 0 \<longleftrightarrow> r AND 0x10 \<noteq> 0" "(ucast r :: u32) AND 0x2000 \<noteq> 0 \<longleftrightarrow> r AND 0x2000 \<noteq> 0"
    using flag by metis+
  then show "poll_to_fd_events r = epoll_to_fd_events (ucast r)"
    unfolding poll_to_fd_events_def epoll_to_fd_events_def poll_flags epoll_flags by simp
qed

section \<open>The invariant\<close>

definition posix_registered :: "('k, 'z) posix_world_scheme \<Rightarrow> addr set" where
  "posix_registered w = ran (hash_map (pl_ofds (pw_loop w)))"

definition posix_loop_of :: "('k, 'z) posix_world_scheme \<Rightarrow> addr" where
  "posix_loop_of w = pl_self (pw_loop w)"

definition posix_inv :: "('k, 'z) posix_world_scheme \<Rightarrow> bool" where
  "posix_inv w \<longleftrightarrow>
     (let l = pw_loop w; h = pl_ofds l in
      pl_self l \<noteq> 0 \<and> plain_hash h \<and> pl_nfds l = int (length (entries h)) \<and> 0 \<notin> posix_registered w \<and>
      (\<forall>p. ofd_loop (pw_ofd w p) = (if p \<in> posix_registered w then pl_self l else 0)) \<and>
      (\<forall>p. p \<notin> posix_registered w \<longrightarrow> ofd_dupfd (pw_ofd w p) = -1) \<and>
      (\<forall>key p. hash_map h key = Some p \<longrightarrow> key_of (reg_fd (pw_ofd w p)) = key))"

lemma hash_map_key:
  assumes "posix_inv w" "p \<in> posix_registered w"
  shows "hash_map (pl_ofds (pw_loop w)) (key_of (reg_fd (pw_ofd w p))) = Some p"
  using assms by (auto simp: posix_inv_def posix_registered_def ran_def Let_def)

lemma hash_size: "plain_hash h \<Longrightarrow> card (dom (hash_map h)) = length (entries h) \<and> finite (dom (hash_map h))"
proof -
  assume h: "plain_hash h"
  then have "hash_ok h" by (simp add: plain_hash_def)
  then have d: "distinct (map ekey (entries h))" by (simp add: hash_ok_def)
  have "dom (hash_map h) = set (map ekey (entries h))"
    using d by (force simp: hash_map_def hash_entry_def dom_def find_key_None)
  then show ?thesis using distinct_card [OF d] by simp
qed

lemma hash_size_insert:
  assumes "plain_hash h" "plain_hash h'" "hash_map h' = (hash_map h)(k \<mapsto> v)" "hash_map h k = None"
  shows "length (entries h') = length (entries h) + 1"
proof -
  have "dom (hash_map h') = insert k (dom (hash_map h))" using assms(3) by auto
  then show ?thesis using hash_size [OF assms(1)] hash_size [OF assms(2)] assms(4) by (metis Suc_eq_plus1 card_insert_disjoint domIff)
qed

lemma hash_size_delete:
  assumes "plain_hash h" "plain_hash h'" "hash_map h' = (hash_map h)(k := None)" "hash_map h k = Some v"
  shows "length (entries h) = length (entries h') + 1"
proof -
  have "hash_map h = (hash_map h')(k \<mapsto> v)" "hash_map h' k = None" using assms(3,4) by (auto simp: fun_eq_iff)
  then show ?thesis using hash_size_insert [OF assms(2,1)] by blast
qed

lemma posix_inv_enter:
  assumes inv: "posix_inv w" and p: "p \<noteq> 0" "p \<notin> posix_registered w"
    and h: "plain_hash h" "hash_map h = (hash_map (pl_ofds (pw_loop w)))(key_of (reg_fd ofd) \<mapsto> p)"
      "hash_map (pl_ofds (pw_loop w)) (key_of (reg_fd ofd)) = None"
    and w': "pw_loop w' = (pw_loop w)\<lparr>pl_ofds := h, pl_nfds := pl_nfds (pw_loop w) + 1\<rparr>"
      "pw_ofd w' = (pw_ofd w)(p := ofd\<lparr>ofd_loop := pl_self (pw_loop w)\<rparr>)"
  shows "posix_inv w' \<and> posix_registered w' = insert p (posix_registered w)"
proof -
  have reg: "posix_registered w' = insert p (posix_registered w)"
    using ran_map_upd [of "hash_map (pl_ofds (pw_loop w))", OF h(3), of p] by (simp add: posix_registered_def w' h(2))
  have same: "reg_fd (ofd\<lparr>ofd_loop := x\<rparr>) = reg_fd ofd" for x by (simp add: reg_fd_def)
  have "plain_hash (pl_ofds (pw_loop w))" using inv by (simp add: posix_inv_def Let_def)
  from hash_size_insert [OF this h(1,2,3)] have n: "length (entries h) = length (entries (pl_ofds (pw_loop w))) + 1" .
  have "key_of (reg_fd (((pw_ofd w)(p := ofd\<lparr>ofd_loop := pl_self (pw_loop w)\<rparr>)) q)) = key" if "hash_map h key = Some q" for key q
    using that inv p(2) by (auto simp: h(2) same posix_inv_def Let_def posix_registered_def ran_def split: if_splits)
  then show ?thesis using inv p reg n h(1) by (simp add: posix_inv_def Let_def w')
qed

lemma posix_inv_leave:
  assumes inv: "posix_inv w" and p: "p \<in> posix_registered w"
    and h: "plain_hash h" "hash_map h = (hash_map (pl_ofds (pw_loop w)))(key_of (reg_fd (pw_ofd w p)) := None)"
    and w': "pw_loop w' = (pw_loop w)\<lparr>pl_ofds := h, pl_nfds := pl_nfds (pw_loop w) - 1\<rparr>"
      "pw_ofd w' = (pw_ofd w)(p := ofd)" "ofd_loop ofd = 0" "ofd_dupfd ofd = -1"
  shows "posix_inv w' \<and> posix_registered w' = posix_registered w - {p}"
proof -
  let ?h = "pl_ofds (pw_loop w)" and ?key = "key_of (reg_fd (pw_ofd w p))"
  note key = hash_map_key [OF inv p]
  have uniq: "hash_map ?h k = Some q \<Longrightarrow> k = key_of (reg_fd (pw_ofd w q))" for k q
    using inv by (auto simp: posix_inv_def Let_def)
  have reg: "posix_registered w' = posix_registered w - {p}"
  proof (intro equalityI subsetI)
    fix q assume "q \<in> posix_registered w'"
    then obtain k where "hash_map ?h k = Some q" "k \<noteq> ?key" by (auto simp: posix_registered_def w' h(2) ran_def split: if_splits)
    then show "q \<in> posix_registered w - {p}" using uniq by (auto simp: posix_registered_def ran_def)
  next
    fix q assume q: "q \<in> posix_registered w - {p}"
    then have "hash_map ?h (key_of (reg_fd (pw_ofd w q))) = Some q" using hash_map_key [OF inv] by blast
    moreover have "key_of (reg_fd (pw_ofd w q)) \<noteq> ?key" using calculation key q by auto
    ultimately show "q \<in> posix_registered w'" by (auto simp: posix_registered_def w' h(2) ran_def)
  qed
  have "plain_hash ?h" using inv by (simp add: posix_inv_def Let_def)
  from hash_size_delete [OF this h(1,2) key] have n: "length (entries ?h) = length (entries h) + 1" .
  have "key_of (reg_fd (((pw_ofd w)(p := ofd)) q)) = k" if "hash_map h k = Some q" for k q
  proof -
    have k: "hash_map ?h k = Some q" "k \<noteq> ?key" using that by (auto simp: h(2) split: if_splits)
    then have "q \<noteq> p" using uniq by blast
    then show ?thesis using uniq [OF k(1)] by simp
  qed
  then show ?thesis using inv reg n h(1) by (simp add: posix_inv_def Let_def w')
qed

lemma posix_inv_same:
  "posix_inv w \<Longrightarrow> pw_loop w' = pw_loop w \<Longrightarrow> pw_ofd w' = pw_ofd w \<Longrightarrow> posix_inv w' \<and> posix_registered w' = posix_registered w"
  by (simp add: posix_inv_def posix_registered_def Let_def)

lemma posix_add:
  assumes laws: "fd_laws S opened" and inv: "posix_inv w" and add: "posix_loop_add S m (posix_loop_of w) p w = (r, w')"
  shows "posix_inv w' \<and>
    (case r of Inl e \<Rightarrow> posix_registered w' = posix_registered w
     | Inr _ \<Rightarrow> p \<notin> posix_registered w \<and> posix_registered w' = insert p (posix_registered w))"
proof -
  let ?ofd = "pw_ofd w p" and ?h = "pl_ofds (pw_loop w)"
  have h: "plain_hash ?h" using inv by (simp add: posix_inv_def Let_def)
  show ?thesis
  proof (cases "posix_loop_of w = 0 \<or> p = 0 \<or> ofd_fd ?ofd < 0 \<or> ofd_events ?ofd = 0 \<or> ofd_cb ?ofd = 0 \<or> ofd_loop ?ofd \<noteq> 0")
    case True
    then show ?thesis using add inv by (auto simp: posix_loop_add_def Let_def split: if_splits)
  next
    case ok: False
    then have p: "p \<noteq> 0" "p \<notin> posix_registered w" and dup: "ofd_dupfd ?ofd = -1"
      using inv by (auto simp: posix_inv_def Let_def split: if_splits)
    show ?thesis
    proof (cases "hash_map ?h (key_of (ofd_fd ?ofd))")
      case None
      then have look: "obus_hash_lookup ?h (key_of (ofd_fd ?ofd)) = Inl ENOENT" using data_hash.get_eq [OF h] by simp
      have reg: "reg_fd ?ofd = ofd_fd ?ofd" by (simp add: reg_fd_def dup)
      from h show ?thesis
      proof (cases rule: data_hash.ins_cases [where m = m and k = "key_of (ofd_fd ?ofd)" and v = p])
        case (new h')
        have "posix_inv w' \<and> posix_registered w' = insert p (posix_registered w)"
          by (rule posix_inv_enter [OF inv p new(3)])
            (use new reg add ok look in \<open>auto simp: posix_loop_add_def Let_def posix_loop_of_def\<close>)
        then show ?thesis using add ok look new p by (auto simp: posix_loop_add_def Let_def)
      next
        case (err e)
        then show ?thesis using add ok look dup inv by (auto simp: posix_loop_add_def Let_def)
      qed
    next
      case (Some q)
      then have look: "obus_hash_lookup ?h (key_of (ofd_fd ?ofd)) = Inr q" using data_hash.get_eq [OF h] by simp
      from fd_dup_adds [OF laws, of "ofd_fd ?ofd"] show ?thesis
      proof (cases rule: adds_fdE [where k = "pw_sys w"])
        case (err e k)
        have "(r, w') = (Inl e, pset_sys k w)" using add ok look err by (auto simp: posix_loop_add_def Let_def psyscall_def)
        then show ?thesis using posix_inv_same [OF inv, of "pset_sys k w"] by simp
      next
        case (ok n k)
        note d = ok
        have reg: "reg_fd (?ofd\<lparr>ofd_dupfd := n\<rparr>) = n" using d(2) by (simp add: reg_fd_def)
        from h show ?thesis
        proof (cases rule: data_hash.ins_cases [where m = m and k = "key_of n" and v = p])
          case (new h')
          have "posix_inv w' \<and> posix_registered w' = insert p (posix_registered w)"
            by (rule posix_inv_enter [OF inv p new(3), of "?ofd\<lparr>ofd_dupfd := n\<rparr>"])
              (use new reg add \<open>\<not> (posix_loop_of w = 0 \<or> _)\<close> look d in
                \<open>auto simp: posix_loop_add_def Let_def psyscall_def posix_loop_of_def\<close>)
          then show ?thesis
            using add \<open>\<not> (posix_loop_of w = 0 \<or> _)\<close> look d new p by (auto simp: posix_loop_add_def Let_def psyscall_def)
        next
          case (err e)
          obtain rc k2 where c: "sys_close S n k = (rc, k2)" by fastforce
          have n: "n \<noteq> -1" using d(2) by simp
          have w': "r = Inl e" "w' = pset_ofd p (?ofd\<lparr>ofd_dupfd := -1\<rparr>) (pset_sys k2 (pset_ofd p (?ofd\<lparr>ofd_dupfd := n\<rparr>) (pset_sys k w)))"
            using add \<open>\<not> (posix_loop_of w = 0 \<or> _)\<close> look d err c n by (auto simp: posix_loop_add_def Let_def psyscall_def)
          have "pw_ofd w' = pw_ofd w" using dup by (auto simp: w' fun_eq_iff)
          then show ?thesis using posix_inv_same [OF inv, of w'] w' by simp
        qed
      qed
    qed
  qed
qed

text \<open>The entry that goes is the one with the key of the object, whoever owns it.\<close>

lemma posix_remove:
  assumes inv: "posix_inv w" and p: "p \<in> posix_registered w" and rem: "posix_loop_remove S (posix_loop_of w) p w = (r, w')"
  shows "r = Inr () \<and> posix_inv w' \<and> posix_registered w' = posix_registered w - {p}"
proof -
  let ?ofd = "pw_ofd w p" and ?h = "pl_ofds (pw_loop w)"
  have h: "plain_hash ?h" and z: "p \<noteq> 0" "posix_loop_of w \<noteq> 0"
    using inv p unfolding posix_inv_def Let_def posix_loop_of_def by metis+
  note key = hash_map_key [OF inv p]
  obtain h' where del: "obus_hash_remove ?h (key_of (reg_fd ?ofd)) = (Inr (), h')" "plain_hash h'"
    "hash_map h' = (hash_map ?h)(key_of (reg_fd ?ofd) := None)"
    using data_hash.del_some [OF h key] by blast
  obtain rc k where c: "sys_close S (ofd_dupfd ?ofd) (pw_sys w) = (rc, k)" by fastforce
  have "posix_inv w' \<and> posix_registered w' = posix_registered w - {p}"
    by (rule posix_inv_leave [OF inv p del(2,3), of w' "?ofd\<lparr>ofd_dupfd := -1, ofd_loop := 0\<rparr>"])
      (use rem del(1) z c in \<open>cases "ofd_dupfd ?ofd = -1"; auto simp: posix_loop_remove_def Let_def psyscall_def\<close>)+
  moreover have "r = Inr ()" using rem del(1) z by (auto simp: posix_loop_remove_def Let_def)
  ultimately show ?thesis by simp
qed

interpretation poll: event_loop
  "\<lambda>w. fd_laws S opened \<and> posix_inv w" posix_registered
  "\<lambda>p w. posix_loop_add S m (posix_loop_of w) p w" "\<lambda>p w. posix_loop_remove S (posix_loop_of w) p w" for S opened m
proof (unfold_locales, goal_cases)
  case (1 w p w')
  then show ?case using posix_add [of S opened w m p "Inr ()" w'] by auto
next
  case (2 w p e w')
  then show ?case using posix_add [of S opened w m p "Inl e" w'] by auto
next
  case (3 w p w')
  then show ?case using posix_remove [of w p S "Inr ()" w'] by auto
next
  case (4 w p e w')
  then show ?case using posix_remove [of w p S "Inl e" w'] by auto
qed

section \<open>Dispatching\<close>

definition posix_alive :: "pollfd list \<Rightarrow> ('k, 'z) posix_world_scheme \<Rightarrow> bool" where
  "posix_alive pfds w \<longleftrightarrow>
     posix_inv w \<and> \<not> pl_freed (pw_loop w) \<and> 0 < pl_ref (pw_loop w) \<and> pl_pfds (pw_loop w) = pfds"

abbreviation is_ready :: "pollfd \<Rightarrow> bool" where
  "is_ready pfd \<equiv> snd (snd pfd) \<noteq> 0"

lemma process_fd_alive:
  assumes "posix_alive pfds w" "poll_to_fd_events (snd (snd pfd)) \<noteq> 0"
    and "\<And>w p events. posix_alive pfds w \<Longrightarrow> p \<in> posix_registered w \<Longrightarrow> events \<noteq> 0 \<Longrightarrow>
      posix_alive pfds (call (ofd_cb (pw_ofd w p)) p events w)"
  shows "posix_alive pfds (snd (obus_loop_posix_process_fd call pfd w))"
proof -
  let ?h = "pl_ofds (pw_loop w)"
  obtain fd ev revents where pfd: "pfd = (fd, ev, revents)" by (rule prod_cases3)
  have h: "plain_hash ?h" using assms(1) by (simp add: posix_alive_def posix_inv_def Let_def)
  show ?thesis
  proof (cases "hash_map ?h (key_of fd)")
    case None
    then show ?thesis using assms(1) data_hash.get_eq [OF h, of "key_of fd"] by (simp add: obus_loop_posix_process_fd_def pfd)
  next
    case (Some p)
    then have "p \<in> posix_registered w" by (auto simp: posix_registered_def ran_def)
    with assms(3) [OF assms(1) this] assms(1,2) data_hash.get_eq [OF h, of "key_of fd"] Some show ?thesis
      by (simp add: obus_loop_posix_process_fd_def pfd)
  qed
qed

text \<open>The walk stops at the last ready entry at the latest, which is inside the array.\<close>

lemma posix_dispatch_safe:
  assumes "posix_alive pfds w" "n \<le> j + length (filter is_ready (drop i pfds))"
    and call: "\<And>w p events. posix_alive pfds w \<Longrightarrow> p \<in> posix_registered w \<Longrightarrow> events \<noteq> 0 \<Longrightarrow>
      posix_alive pfds (call (ofd_cb (pw_ofd w p)) p events w)"
  shows "fst (posix_dispatch call n i j w) = Inr () \<and> posix_alive pfds (snd (posix_dispatch call n i j w))"
  using assms(1,2)
proof (induction "length pfds - i" arbitrary: i j w)
  case 0
  then have "posix_dispatch call n i j w = (Inr (), w)" by (subst posix_dispatch.simps) (simp add: posix_alive_def)
  then show ?case using 0 by simp
next
  case (Suc l)
  then have i: "i < length pfds" by simp
  have live: "\<not> pl_freed (pw_loop w)" "pl_pfds (pw_loop w) = pfds" using Suc.prems(1) by (simp_all add: posix_alive_def)
  have drop: "drop i pfds = pfds ! i # drop (i + 1) pfds" using Cons_nth_drop_Suc [OF i] by simp
  show ?case
  proof (cases "int i < pl_nfds (pw_loop w) \<and> j < n")
    case False
    then have "posix_dispatch call n i j w = (Inr (), w)" using live by (subst posix_dispatch.simps) simp
    then show ?thesis using Suc.prems by simp
  next
    case go: True
    show ?thesis
    proof (cases "is_ready (pfds ! i)")
      case False
      then have "posix_dispatch call n i j w = posix_dispatch call n (i + 1) j w"
        using go live i by (subst posix_dispatch.simps) simp
      then show ?thesis using Suc.hyps(1) [of "i + 1" w j] Suc.hyps(2) Suc.prems False drop by simp
    next
      case True
      let ?w = "if poll_to_fd_events (snd (snd (pfds ! i))) \<noteq> 0 then snd (obus_loop_posix_process_fd call (pfds ! i) w) else w"
      have eq: "posix_dispatch call n i j w = posix_dispatch call n (i + 1) (j + 1) ?w"
        using go live i True by (subst posix_dispatch.simps) simp
      have "posix_alive pfds ?w" using process_fd_alive [where call = call, OF Suc.prems(1) _ call] Suc.prems(1) by simp
      then show ?thesis unfolding eq using Suc.hyps(1) [of "i + 1" ?w "j + 1"] Suc.hyps(2) Suc.prems(2) True drop by simp
    qed
  qed
qed

section \<open>Properties\<close>

text \<open>
  C20. The two event loops are interchangeable: from the same registered objects, runs of the same operations that succeed in the same
  places end with the same registered objects, in the list of the loop on \<open>epoll\<close> and in the hash table of the loop on \<open>poll\<close>, with
  descriptors duplicated or not, and both invariants hold.
\<close>

theorem loops_agree:
  assumes "epoll_laws S interest" "loop_inv interest w" "fd_laws S' opened" "posix_inv v" "loop_registered w = posix_registered v"
    and "loop_runs loop_registered (\<lambda>p w. obus_loop_add S (loop_of w) p w) (\<lambda>p w. obus_loop_remove S (loop_of w) p w) ops w =
      (True, done, w')"
    and "loop_runs posix_registered (\<lambda>p w. posix_loop_add S' m (posix_loop_of w) p w)
      (\<lambda>p w. posix_loop_remove S' (posix_loop_of w) p w) ops v = (True, done, v')"
  shows "loop_registered w' = posix_registered v' \<and> loop_inv interest w' \<and> posix_inv v'"
  using epoll.runs_effect [of S interest w ops "done" w'] poll.runs_effect [of S' opened v m ops "done" v'] assms by metis

definition small_poll_system :: "small_system poll_system" where
  "small_poll_system =
     \<lparr>sys_getfd = \<lambda>_ k. (Inr 0, k), sys_setfd = \<lambda>_ _ k. (Inr (), k), sys_getfl = \<lambda>_ k. (Inr 0, k), sys_setfl = \<lambda>_ _ k. (Inr (), k),
      sys_dup = \<lambda>_. ss_new, sys_close = ss_close, sys_poll = \<lambda>pfds _ k. (Inr (map (\<lambda>_. POLLIN) pfds), k),
      sys_pfds_realloc = \<lambda>_ k. (Inr (\<lambda>_. (0, 0, 0)), k)\<rparr>"

lemma small_poll_laws: "fd_laws small_poll_system (\<lambda>k. set (ss_open k))"
  using ss_fresh_new
  by (auto simp: fd_laws_def small_poll_system_def keeps_fds_def adds_fd_def ss_new_def ss_close_def)

definition sample_memory :: memory where
  "sample_memory = \<lparr>alloc_ok = (\<lambda>n. n < 100000), fresh_byte = (\<lambda>_. 0)\<rparr>"

definition sample_posix :: "small_system posix_world" where
  "sample_posix =
     \<lparr>pw_loop = \<lparr>pl_self = 5, pl_ofds = \<lparr>buckets = replicate 61 [], hsize = 61, entries = []\<rparr>, pl_pfds = [], pl_nfds = 0, pl_ref = 1,
        pl_freed = False\<rparr>,
      pw_ofd = lw_ofd sample_world, pw_sys = lw_sys sample_world\<rparr>"

lemma sample_hash: "plain_hash \<lparr>buckets = replicate 61 [], hsize = 61, entries = []\<rparr>"
  "hash_map \<lparr>buckets = replicate 61 [], hsize = 61, entries = []\<rparr> = Map.empty"
  by (auto simp: plain_hash_def hash_ok_def bucket_of_def unat_mod hash_map_def hash_entry_def fun_eq_iff)

lemma sample_posix_inv: "posix_inv sample_posix" "posix_registered sample_posix = {}"
proof -
  show r: "posix_registered sample_posix = {}" by (simp add: posix_registered_def sample_posix_def sample_hash)
  show "posix_inv sample_posix"
    unfolding posix_inv_def Let_def r
    by (simp add: sample_posix_def sample_hash sample_world_def sample_ofd_def obus_fd_init_def)
qed

definition posix_run :: "bool \<times> loop_op list \<times> small_system posix_world" where
  "posix_run =
     loop_runs posix_registered (\<lambda>p w. posix_loop_add small_poll_system sample_memory (posix_loop_of w) p w)
       (\<lambda>p w. posix_loop_remove small_poll_system (posix_loop_of w) p w) [Add 10, Add 10] sample_posix"


lemma posix_run_eval: "fst posix_run = True" "fst (snd posix_run) = [Add 10]"
  by (simp_all add: posix_run_def posix_loop_add_def Let_def sample_posix_def sample_world_def sample_ofd_def obus_fd_init_def
      posix_loop_of_def obus_hash_lookup_def obus_hash_lookup_entry_def obus_hash_insert_def obus_hash_insert_entry_def
      bucket_of_def obus_hash_32_def MULT33_def key_of_def sample_memory_def sizeof_hash_entry_def fd_flags nth_replicate
      pset_ofd_def pset_loop_def)

definition epoll_run :: "bool \<times> loop_op list \<times> small_system loop_world" where
  "epoll_run =
     loop_runs loop_registered (\<lambda>p w. obus_loop_add small_loop_system (loop_of w) p w)
       (\<lambda>p w. obus_loop_remove small_loop_system (loop_of w) p w) [Add 10, Add 10] sample_world"

lemma epoll_run_eval: "fst epoll_run = True" "fst (snd epoll_run) = [Add 10]"
  by (simp_all add: epoll_run_def obus_loop_add_def Let_def syscall_def sample_world_def sample_ofd_def obus_fd_init_def
      small_loop_system_def loop_of_def ss_ctl_def fd_flags set_ofd_def set_sys_def set_loop_def)

lemma epoll_run_done:
  "loop_runs loop_registered (\<lambda>p w. obus_loop_add small_loop_system (loop_of w) p w)
     (\<lambda>p w. obus_loop_remove small_loop_system (loop_of w) p w) [Add 10, Add 10] sample_world = (True, [Add 10], snd (snd epoll_run))"
  using epoll_run_eval by (simp only: epoll_run_def prod_eq_iff fst_conv snd_conv simp_thms)

lemma posix_run_done:
  "loop_runs posix_registered (\<lambda>p w. posix_loop_add small_poll_system sample_memory (posix_loop_of w) p w)
     (\<lambda>p w. posix_loop_remove small_poll_system (posix_loop_of w) p w) [Add 10, Add 10] sample_posix =
   (True, [Add 10], snd (snd posix_run))"
  using posix_run_eval by (simp only: posix_run_def prod_eq_iff fst_conv snd_conv simp_thms)

lemma runs_registered:
  "loop_inv ss_interest (snd (snd epoll_run))" "10 \<in> loop_registered (snd (snd epoll_run))"
  "posix_inv (snd (snd posix_run))" "10 \<in> posix_registered (snd (snd posix_run))"
proof -
  note e = epoll.runs_effect [OF conjI [OF small_epoll_laws sample_world_inv] epoll_run_done]
  note p = poll.runs_effect [OF conjI [OF small_poll_laws sample_posix_inv(1)] posix_run_done]
  show "loop_inv ss_interest (snd (snd epoll_run))" "posix_inv (snd (snd posix_run))" using e p by blast+
  show "10 \<in> loop_registered (snd (snd epoll_run))" "10 \<in> posix_registered (snd (snd posix_run))"
    unfolding conjunct2 [OF e] conjunct2 [OF p] by simp_all
qed

theorem loops_agree_witness:
  "loop_registered (snd (snd epoll_run)) = posix_registered (snd (snd posix_run)) \<and>
   loop_inv ss_interest (snd (snd epoll_run)) \<and> posix_inv (snd (snd posix_run))"
proof -
  have "loop_registered sample_world = posix_registered sample_posix"
    unfolding sample_posix_inv(2) by (simp add: loop_registered_def sample_world_def)
  from loops_agree [OF small_epoll_laws sample_world_inv small_poll_laws sample_posix_inv(1) this epoll_run_done posix_run_done]
  show ?thesis .
qed

text \<open>The update never finds the object: the lookup returns 0 or a negative number, and the code waits for \<open>EEXIST\<close>.\<close>

lemma posix_update_fails: "posix_loop_update loop p w = Inl EINVAL \<or> posix_loop_update loop p w = Inl ENOENT"
proof -
  have "ret_value r \<noteq> errno_nr EEXIST" for r :: "addr res"
  proof (cases r)
    case (Inl e)
    then show ?thesis by (cases e) (simp_all add: ret_value_def)
  qed (simp add: ret_value_def)
  then show ?thesis by (simp add: posix_loop_update_def Let_def)
qed

text \<open>
  C39. Neither loop can change the events of a registered object. The loop on \<open>epoll\<close> passes NULL in place of the event it has just
  filled, which the system refuses with \<open>EFAULT\<close>; the loop on \<open>poll\<close> compares the result of the lookup with \<open>EEXIST\<close>, which it
  never is, and returns \<open>ENOENT\<close>.
\<close>

theorem update_never_succeeds:
  assumes "epoll_laws S interest" "loop_inv interest w" "p \<in> loop_registered w" "posix_inv v" "q \<in> posix_registered v"
  shows "fst (obus_loop_update S (loop_of w) p w) = Inl EFAULT \<and> posix_loop_update (posix_loop_of v) q v = Inl ENOENT"
proof -
  have "p \<noteq> 0" "loop_of w \<noteq> 0" using assms(2,3) by (auto simp: loop_inv_def Let_def loop_registered_def loop_of_def intro: ccontr)
  moreover have "q \<noteq> 0" "posix_loop_of v \<noteq> 0" using assms(4,5) unfolding posix_inv_def Let_def posix_loop_of_def by metis+
  ultimately show ?thesis
    using loop_update_fails [OF assms(1,3)] posix_update_fails [of "posix_loop_of v" q v] by (auto simp: posix_loop_update_def Let_def)
qed

theorem update_never_succeeds_witness:
  "fst (obus_loop_update small_loop_system (loop_of (snd (snd epoll_run))) 10 (snd (snd epoll_run))) = Inl EFAULT \<and>
   posix_loop_update (posix_loop_of (snd (snd posix_run))) 10 (snd (snd posix_run)) = Inl ENOENT"
  by (rule update_never_succeeds [OF small_epoll_laws runs_registered])

text \<open>
  The loop on \<open>poll\<close> does not look whether the entry it removes is the one of the object: removing an object that was never added
  takes away another one that watches the same descriptor, and still marks that one as used.
\<close>

lemma posix_remove_stranger:
  assumes inv: "posix_inv w" and p: "p \<in> posix_registered w" and q: "q \<noteq> 0" "q \<notin> posix_registered w"
    and fd: "reg_fd (pw_ofd w q) = reg_fd (pw_ofd w p)"
  shows "\<exists>w'. posix_loop_remove S (posix_loop_of w) q w = (Inr (), w') \<and> p \<notin> posix_registered w' \<and>
    obus_fd_is_used (pw_ofd w' p)"
proof -
  let ?h = "pl_ofds (pw_loop w)" and ?key = "key_of (reg_fd (pw_ofd w p))"
  have h: "plain_hash ?h" and z: "posix_loop_of w \<noteq> 0" and d: "ofd_dupfd (pw_ofd w q) = -1" and u: "ofd_loop (pw_ofd w p) \<noteq> 0"
    using inv p q by (auto simp: posix_inv_def Let_def posix_loop_of_def)
  note key = hash_map_key [OF inv p]
  obtain h' where del: "obus_hash_remove ?h ?key = (Inr (), h')" "hash_map h' = (hash_map ?h)(?key := None)"
    using data_hash.del_some [OF h key] by blast
  have "p \<notin> ran (hash_map h')"
  proof
    assume "p \<in> ran (hash_map h')"
    then obtain k where "hash_map ?h k = Some p" "k \<noteq> ?key" by (auto simp: del(2) ran_def split: if_splits)
    then show False using inv by (auto simp: posix_inv_def Let_def)
  qed
  moreover have "p \<noteq> q" using p q by blast
  ultimately show ?thesis
    using del(1) z q d u fd by (auto simp: posix_loop_remove_def Let_def posix_registered_def obus_fd_is_used_def)
qed

end
