(* ===== verification/Obus_Timer.thy ===== *)
theory Obus_Timer
  imports Obus_Loop
begin

text \<open>
  Timers: \<open>obus_timer.c\<close>, on descriptors of the system that expire, and \<open>obus_timer_posix.c\<close>, on the timers of POSIX, whose signal handler
  writes into a pipe that the loop watches. Both register an object in the event loop.
\<close>

section \<open>The time of a timer\<close>

definition MSEC_PER_SEC :: int where "MSEC_PER_SEC = 1000"
definition NSEC_PER_MSEC :: int where "NSEC_PER_MSEC = 1000000"
definition NSEC_PER_SEC :: int where "NSEC_PER_SEC = 1000000000"

text \<open>\<open>it_value\<close> of the new setting: seconds and nanoseconds; \<open>it_interval\<close> is 0.\<close>

definition it_value :: "int \<Rightarrow> int \<times> int" where
  "it_value timeout =
     (if 0 < timeout then (timeout div MSEC_PER_SEC, (timeout mod MSEC_PER_SEC) * NSEC_PER_MSEC) else (0, 0))"

section \<open>Timers on descriptors\<close>

record 'k timer_system = "'k loop_system" +
  sys_timerfd_create :: "'k \<Rightarrow> int res \<times> 'k"
  sys_timerfd_settime :: "int \<Rightarrow> int \<times> int \<Rightarrow> 'k \<Rightarrow> unit res \<times> 'k"
  sys_timerfd_read :: "int \<Rightarrow> 'k \<Rightarrow> u64 res \<times> 'k"

text \<open>\<open>tm_ofd\<close> is the address of the descriptor object inside the timer; \<open>tm_cb\<close> names the callback.\<close>

record obus_timer =
  tm_ofd :: addr
  tm_timeout :: int
  tm_cb :: nat
  tm_data :: addr

text \<open>The number of the callback that \<open>obus_timer_new\<close> registers.\<close>

definition timer_events_cb :: nat where "timer_events_cb = 1"

definition obus_timer_read :: "('k, 'y) timer_system_scheme \<Rightarrow> int \<Rightarrow> 'k \<Rightarrow> (u64 res \<times> 'k) option" where
  "obus_timer_read S fd k = retry_eintr (sys_timerfd_read S fd) k"

text \<open>\<open>call cb nbexpired data\<close> is the callback of the user. \<open>None\<close> when the read is interrupted for ever.\<close>

definition obus_timer_events ::
  "('k, 'y) timer_system_scheme \<Rightarrow> (nat \<Rightarrow> u64 \<Rightarrow> addr \<Rightarrow> ('k, 'z) loop_world_scheme \<Rightarrow> ('k, 'z) loop_world_scheme)
    \<Rightarrow> obus_timer \<Rightarrow> u32 \<Rightarrow> ('k, 'z) loop_world_scheme \<Rightarrow> ('k, 'z) loop_world_scheme option" where
  "obus_timer_events S call timer events w =
     (let w = (if obus_fd_event_error events then snd (obus_loop_remove S (loop_of w) (tm_ofd timer) w) else w) in
      if \<not> obus_fd_event_read events then Some w
      else case obus_timer_read S (ofd_fd (lw_ofd w (tm_ofd timer))) (lw_sys w) of
        None \<Rightarrow> None
      | Some (Inl _, k) \<Rightarrow> Some (set_sys k w)
      | Some (Inr nbexpired, k) \<Rightarrow> Some (call (tm_cb timer) nbexpired (tm_data timer) (set_sys k w)))"

text \<open>\<open>p\<close> is the address of the object inside the timer that \<open>calloc\<close> returns, 0 when it fails; \<open>loop\<close> and \<open>cb\<close> are 0 for NULL.\<close>

definition obus_timer_new ::
  "('k, 'y) timer_system_scheme \<Rightarrow> addr \<Rightarrow> addr \<Rightarrow> nat \<Rightarrow> addr \<Rightarrow> ('k, 'z) loop_world_scheme
    \<Rightarrow> obus_timer option \<times> ('k, 'z) loop_world_scheme" where
  "obus_timer_new S p loop cb data w =
     (if loop = 0 \<or> cb = 0 then (None, w)
      else if p = 0 then (None, w)
      else let w = obus_loop_ref w in
        case syscall (sys_timerfd_create S) w of
          (Inl _, w) \<Rightarrow> (None, obus_loop_unref S w)
        | (Inr tfd, w) \<Rightarrow>
            (case obus_loop_add S loop p (set_ofd p (obus_fd_init tfd OBUS_FD_IN timer_events_cb p) w) of
               (Inl _, w) \<Rightarrow> (None, obus_loop_unref S (snd (syscall (sys_close S tfd) w)))
             | (Inr _, w) \<Rightarrow> (Some \<lparr>tm_ofd = p, tm_timeout = 0, tm_cb = cb, tm_data = data\<rparr>, w)))"

definition obus_timer_destroy ::
  "('k, 'y) timer_system_scheme \<Rightarrow> obus_timer \<Rightarrow> ('k, 'z) loop_world_scheme \<Rightarrow> ('k, 'z) loop_world_scheme" where
  "obus_timer_destroy S timer w =
     (let w = snd (obus_loop_remove S (loop_of w) (tm_ofd timer) w);
          w = snd (syscall (sys_close S (ofd_fd (lw_ofd w (tm_ofd timer)))) w)
      in obus_loop_unref S w)"

definition obus_timer_set ::
  "('k, 'y) timer_system_scheme \<Rightarrow> obus_timer \<Rightarrow> int \<Rightarrow> ('k, 'z) loop_world_scheme
    \<Rightarrow> unit res \<times> obus_timer \<times> ('k, 'z) loop_world_scheme" where
  "obus_timer_set S timer timeout w =
     (case syscall (sys_timerfd_settime S (ofd_fd (lw_ofd w (tm_ofd timer))) (it_value timeout)) w of
        (Inl e, w) \<Rightarrow> (Inl e, timer, w)
      | (Inr _, w) \<Rightarrow> (Inr (), timer\<lparr>tm_timeout := timeout\<rparr>, w))"

definition obus_timer_clear ::
  "('k, 'y) timer_system_scheme \<Rightarrow> obus_timer \<Rightarrow> ('k, 'z) loop_world_scheme \<Rightarrow> unit res \<times> obus_timer \<times> ('k, 'z) loop_world_scheme" where
  "obus_timer_clear S timer w = obus_timer_set S timer 0 w"

section \<open>Timers of POSIX\<close>

text \<open>\<open>sys_timer_create\<close> is given the address of the timer, which comes back with the signal.\<close>

record 'k ptimer_system = "'k loop_system" +
  sys_timer_create :: "addr \<Rightarrow> 'k \<Rightarrow> nat res \<times> 'k"
  sys_sigaction :: "'k \<Rightarrow> unit res \<times> 'k"
  sys_pipe :: "'k \<Rightarrow> (int \<times> int) res \<times> 'k"
  sys_timer_settime :: "nat \<Rightarrow> int \<times> int \<Rightarrow> 'k \<Rightarrow> unit res \<times> 'k"
  sys_timer_delete :: "nat \<Rightarrow> 'k \<Rightarrow> unit res \<times> 'k"
  sys_read1 :: "int \<Rightarrow> 'k \<Rightarrow> u8 list res \<times> 'k"
  sys_write1 :: "int \<Rightarrow> u8 \<Rightarrow> 'k \<Rightarrow> nat res \<times> 'k"

record posix_timer = obus_timer +
  tm_pipe :: "int \<times> int"
  tm_timerid :: nat

definition obus_timer_sighandler :: "('k, 'y) ptimer_system_scheme \<Rightarrow> posix_timer option \<Rightarrow> 'k \<Rightarrow> 'k option" where
  "obus_timer_sighandler S timer k =
     (case timer of None \<Rightarrow> Some k
      | Some timer \<Rightarrow> map_option snd (retry_eintr (sys_write1 S (snd (tm_pipe timer)) 0) k))"

definition posix_timer_read :: "('k, 'y) ptimer_system_scheme \<Rightarrow> posix_timer \<Rightarrow> 'k \<Rightarrow> (unit res \<times> 'k) option" where
  "posix_timer_read S timer k =
     map_option (\<lambda>(r, k). (case r of Inl e \<Rightarrow> Inl e | Inr _ \<Rightarrow> Inr (), k)) (retry_eintr (sys_read1 S (fst (tm_pipe timer))) k)"

definition posix_timer_events ::
  "('k, 'y) ptimer_system_scheme \<Rightarrow> (nat \<Rightarrow> u64 \<Rightarrow> addr \<Rightarrow> ('k, 'z) loop_world_scheme \<Rightarrow> ('k, 'z) loop_world_scheme)
    \<Rightarrow> posix_timer \<Rightarrow> u32 \<Rightarrow> ('k, 'z) loop_world_scheme \<Rightarrow> ('k, 'z) loop_world_scheme option" where
  "posix_timer_events S call timer events w =
     (let w = (if obus_fd_event_error events then snd (obus_loop_remove S (loop_of w) (tm_ofd timer) w) else w) in
      if \<not> obus_fd_event_read events then Some w
      else case posix_timer_read S timer (lw_sys w) of
        None \<Rightarrow> None
      | Some (Inl _, k) \<Rightarrow> Some (set_sys k w)
      | Some (Inr _, k) \<Rightarrow> Some (call (tm_cb timer) 1 (tm_data timer) (set_sys k w)))"

text \<open>The flags of the two ends of the pipe.\<close>

definition pipe_flags :: "('k, 'y) ptimer_system_scheme \<Rightarrow> int \<times> int \<Rightarrow> 'k \<Rightarrow> unit res \<times> 'k" where
  "pipe_flags S pfd k =
     chk (obus_fd_set_close_on_exec S (fst pfd) k) (\<lambda>_ k.
     chk (obus_fd_set_close_on_exec S (snd pfd) k) (\<lambda>_ k.
     chk (obus_fd_add_flags S (fst pfd) O_NONBLOCK k) (\<lambda>_ k.
     obus_fd_add_flags S (snd pfd) O_NONBLOCK k)))"

text \<open>The labels at the end of the function: \<open>close_pipe\<close>, \<open>close_timer\<close> and \<open>unref_loop\<close>.\<close>

definition unref_exit :: "('k, 'y) ptimer_system_scheme \<Rightarrow> ('k, 'z) loop_world_scheme \<Rightarrow> posix_timer option \<times> ('k, 'z) loop_world_scheme" where
  "unref_exit S w = (None, obus_loop_unref S w)"

definition delete_exit ::
  "('k, 'y) ptimer_system_scheme \<Rightarrow> nat \<Rightarrow> ('k, 'z) loop_world_scheme \<Rightarrow> posix_timer option \<times> ('k, 'z) loop_world_scheme" where
  "delete_exit S timerid w = unref_exit S (snd (syscall (sys_timer_delete S timerid) w))"

definition pipe_exit ::
  "('k, 'y) ptimer_system_scheme \<Rightarrow> nat \<Rightarrow> int \<times> int \<Rightarrow> ('k, 'z) loop_world_scheme
    \<Rightarrow> posix_timer option \<times> ('k, 'z) loop_world_scheme" where
  "pipe_exit S timerid pfd w =
     delete_exit S timerid (snd (syscall (sys_close S (snd pfd)) (snd (syscall (sys_close S (fst pfd)) w))))"

text \<open>The end of the function: the flags of the pipe and the registration.\<close>

definition posix_timer_watch ::
  "('k, 'y) ptimer_system_scheme \<Rightarrow> addr \<Rightarrow> addr \<Rightarrow> posix_timer \<Rightarrow> ('k, 'z) loop_world_scheme
    \<Rightarrow> posix_timer option \<times> ('k, 'z) loop_world_scheme" where
  "posix_timer_watch S p loop timer w =
     (let pfd = tm_pipe timer in
      case syscall (pipe_flags S pfd) w of (Inl _, w) \<Rightarrow> pipe_exit S (tm_timerid timer) pfd w | (Inr _, w) \<Rightarrow>
      case obus_loop_add S loop p (set_ofd p (obus_fd_init (fst pfd) OBUS_FD_IN timer_events_cb p) w) of
        (Inl _, w) \<Rightarrow> pipe_exit S (tm_timerid timer) pfd w
      | (Inr _, w) \<Rightarrow> (Some timer, w))"

definition posix_timer_new ::
  "('k, 'y) ptimer_system_scheme \<Rightarrow> addr \<Rightarrow> addr \<Rightarrow> nat \<Rightarrow> addr \<Rightarrow> ('k, 'z) loop_world_scheme
    \<Rightarrow> posix_timer option \<times> ('k, 'z) loop_world_scheme" where
  "posix_timer_new S p loop cb data w =
     (if loop = 0 \<or> cb = 0 then (None, w)
      else if p = 0 then (None, w)
      else let w = obus_loop_ref w in
        case syscall (sys_timer_create S p) w of (Inl _, w) \<Rightarrow> unref_exit S w | (Inr timerid, w) \<Rightarrow>
        case syscall (sys_sigaction S) w of (Inl _, w) \<Rightarrow> delete_exit S timerid w | (Inr _, w) \<Rightarrow>
        case syscall (sys_pipe S) w of (Inl _, w) \<Rightarrow> delete_exit S timerid w | (Inr pfd, w) \<Rightarrow>
        posix_timer_watch S p loop
          \<lparr>tm_ofd = p, tm_timeout = 0, tm_cb = cb, tm_data = data, tm_pipe = pfd, tm_timerid = timerid\<rparr> w)"

definition posix_timer_destroy ::
  "('k, 'y) ptimer_system_scheme \<Rightarrow> posix_timer option \<Rightarrow> ('k, 'z) loop_world_scheme \<Rightarrow> unit res \<times> ('k, 'z) loop_world_scheme" where
  "posix_timer_destroy S timer w =
     (case timer of None \<Rightarrow> (Inl EINVAL, w)
      | Some timer \<Rightarrow>
          let w = snd (obus_loop_remove S (loop_of w) (tm_ofd timer) w);
              w = snd (syscall (sys_close S (fst (tm_pipe timer))) w);
              w = snd (syscall (sys_close S (snd (tm_pipe timer))) w);
              w = snd (syscall (sys_timer_delete S (tm_timerid timer)) w)
          in (Inr (), obus_loop_unref S w))"

definition posix_timer_set ::
  "('k, 'y) ptimer_system_scheme \<Rightarrow> posix_timer \<Rightarrow> int \<Rightarrow> ('k, 'z) loop_world_scheme
    \<Rightarrow> unit res \<times> posix_timer \<times> ('k, 'z) loop_world_scheme" where
  "posix_timer_set S timer timeout w =
     (case syscall (sys_timer_settime S (tm_timerid timer) (it_value timeout)) w of
        (Inl e, w) \<Rightarrow> (Inl e, timer, w)
      | (Inr _, w) \<Rightarrow> (Inr (), timer\<lparr>tm_timeout := timeout\<rparr>, w))"

definition posix_timer_clear ::
  "('k, 'y) ptimer_system_scheme \<Rightarrow> posix_timer \<Rightarrow> ('k, 'z) loop_world_scheme \<Rightarrow> unit res \<times> posix_timer \<times> ('k, 'z) loop_world_scheme" where
  "posix_timer_clear S timer w = posix_timer_set S timer 0 w"

section \<open>Properties\<close>

text \<open>
  The setting of a timer: for a timeout of some milliseconds that fits an \<open>int\<close>, the seconds and nanoseconds handed to the system are
  exactly that time, the nanoseconds are in the range the system accepts, and they are not both 0, which would disarm the
  timer. Every other timeout disarms it.
\<close>

theorem it_value_exact:
  "(0 < timeout \<and> timeout < 2 ^ 31 \<longrightarrow>
     fst (it_value timeout) * NSEC_PER_SEC + snd (it_value timeout) = timeout * NSEC_PER_MSEC \<and>
     0 \<le> fst (it_value timeout) \<and> 0 \<le> snd (it_value timeout) \<and> snd (it_value timeout) < NSEC_PER_SEC \<and> it_value timeout \<noteq> (0, 0)) \<and>
   (timeout \<le> 0 \<longrightarrow> it_value timeout = (0, 0))"
proof -
  obtain q r where q: "timeout div 1000 = q" and r: "timeout mod 1000 = r" by blast
  have t: "timeout = q * 1000 + r" using q r div_mult_mod_eq [of timeout 1000] by simp
  have "0 \<le> r" "r < 1000" using r by auto
  moreover have "0 \<le> q" if "0 < timeout" using that q by (auto simp: pos_imp_zdiv_nonneg_iff)
  ultimately show ?thesis
    unfolding it_value_def MSEC_PER_SEC_def NSEC_PER_MSEC_def NSEC_PER_SEC_def q r using t by auto
qed

theorem it_value_exact_witness: "it_value 1500 = (1, 500000000) \<and> snd (it_value 1500) < NSEC_PER_SEC \<and> it_value (-3) = (0, 0)"
  using it_value_exact [of 1500] it_value_exact [of "-3"]
  by (simp add: it_value_def MSEC_PER_SEC_def NSEC_PER_MSEC_def NSEC_PER_SEC_def)

text \<open>What the calls of the loop and of the timers do to the open descriptors.\<close>

definition loop_fd_laws :: "('k, 'z) loop_system_scheme \<Rightarrow> ('k \<Rightarrow> int set) \<Rightarrow> bool" where
  "loop_fd_laws S opened \<longleftrightarrow> fd_laws S opened \<and> (\<forall>epfd op fd ev. keeps_fds opened (sys_epoll_ctl S epfd op fd ev))"

definition timer_laws :: "('k, 'z) timer_system_scheme \<Rightarrow> ('k \<Rightarrow> int set) \<Rightarrow> bool" where
  "timer_laws S opened \<longleftrightarrow>
     loop_fd_laws S opened \<and> adds_fd opened (sys_timerfd_create S) \<and> (\<forall>fd t. keeps_fds opened (sys_timerfd_settime S fd t)) \<and>
     (\<forall>fd. keeps_fds opened (sys_timerfd_read S fd))"

definition opened_fds :: "('k \<Rightarrow> int set) \<Rightarrow> ('k, 'z) loop_world_scheme \<Rightarrow> int set" where
  "opened_fds opened w = opened (lw_sys w)"

lemma opened_fds_simps [simp]:
  "opened_fds opened (set_sys k w) = opened k" "opened_fds opened (set_ofd p ofd w) = opened_fds opened w"
  "opened_fds opened (set_loop l w) = opened_fds opened w"
  by (simp_all add: opened_fds_def)

lemma syscall_keeps:
  assumes "keeps_fds opened call" "syscall call w = (r, w')"
  shows "opened_fds opened w' = opened_fds opened w \<and> lw_loop w' = lw_loop w \<and> lw_ofd w' = lw_ofd w"
proof -
  obtain r1 k where c: "call (lw_sys w) = (r1, k)" by fastforce
  have k: "opened k = opened (lw_sys w)" using keeps_fdsD [OF assms(1), of "lw_sys w"] c by simp
  have "w' = set_sys k w" using assms(2) c by (simp add: syscall_def)
  then show ?thesis by (simp only: opened_fds_simps k) (simp add: opened_fds_def)
qed

lemma syscall_close:
  assumes "fd_laws S opened"
  shows "opened_fds opened (snd (syscall (sys_close S fd) w)) = opened_fds opened w - {fd}"
    "lw_loop (snd (syscall (sys_close S fd) w)) = lw_loop w" "lw_ofd (snd (syscall (sys_close S fd) w)) = lw_ofd w"
proof -
  obtain r k where c: "sys_close S fd (lw_sys w) = (r, k)" by fastforce
  then have "opened k = opened (lw_sys w) - {fd}" using fd_laws_keeps(4) [OF assms, of fd "lw_sys w"] by simp
  then show "opened_fds opened (snd (syscall (sys_close S fd) w)) = opened_fds opened w - {fd}"
    "lw_loop (snd (syscall (sys_close S fd) w)) = lw_loop w" "lw_ofd (snd (syscall (sys_close S fd) w)) = lw_ofd w"
    by (simp_all add: syscall_def opened_fds_def c)
qed

text \<open>
  Registering opens at most the duplicate that the object then holds, and a failing registration opens nothing and leaves
  everything as it was.
\<close>

lemma loop_add_opened:
  assumes laws: "loop_fd_laws S opened" and dup: "ofd_dupfd (lw_ofd w p) = -1" and add: "obus_loop_add S loop p w = (r, w')"
  shows "case r of
      Inl _ \<Rightarrow> opened_fds opened w' = opened_fds opened w \<and> lw_loop w' = lw_loop w \<and> lw_ofd w' = lw_ofd w
    | Inr _ \<Rightarrow> opened_fds opened w \<subseteq> opened_fds opened w' \<and> p \<in> loop_registered w' \<and>
        loop_ref (lw_loop w') = loop_ref (lw_loop w) \<and> ofd_fd (lw_ofd w' p) = ofd_fd (lw_ofd w p)"
proof (cases "loop = 0 \<or> p = 0 \<or> ofd_fd (lw_ofd w p) < 0 \<or> ofd_events (lw_ofd w p) = 0 \<or> ofd_cb (lw_ofd w p) = 0 \<or>
    ofd_loop (lw_ofd w p) \<noteq> 0 \<or> p \<in> set (loop_ofds (lw_loop w))")
  case True
  then show ?thesis using add by (auto simp: obus_loop_add_def Let_def split: if_splits)
next
  case valid: False
  let ?ofd = "lw_ofd w p" and ?epfd = "loop_epfd (lw_loop w)"
  let ?evt = "Some (fd_to_epoll_events (ofd_events ?ofd), p)"
  have fd: "fd_laws S opened" and ctl: "opened (snd (sys_epoll_ctl S ?epfd op f ev k)) = opened k" for op f ev k
    using laws by (auto simp: loop_fd_laws_def keeps_fds_def)
  obtain r1 k1 where c1: "sys_epoll_ctl S ?epfd EPOLL_CTL_ADD (ofd_fd ?ofd) ?evt (lw_sys w) = (r1, k1)" by fastforce
  have k1: "opened k1 = opened (lw_sys w)" using ctl [of EPOLL_CTL_ADD "ofd_fd ?ofd" ?evt "lw_sys w"] c1 by simp
  note eq = add [unfolded obus_loop_add_def] valid c1 dup
  show ?thesis
  proof (cases "r1 = Inl EEXIST")
    case False
    then show ?thesis using eq k1
      by (cases r1) (auto simp: Let_def syscall_def opened_fds_def loop_registered_def)
  next
    case True
    from fd_dup_adds [OF fd, of "ofd_fd ?ofd"] show ?thesis
    proof (cases rule: adds_fdE [where k = k1])
      case (err e k2)
      then show ?thesis using eq k1 True by (auto simp: Let_def syscall_def opened_fds_def)
    next
      case (ok n k2)
      obtain r3 k3 where c3: "sys_epoll_ctl S ?epfd EPOLL_CTL_ADD n ?evt k2 = (r3, k3)" by fastforce
      have k3: "opened k3 = opened k2" using ctl [of EPOLL_CTL_ADD n ?evt k2] c3 by simp
      obtain rc k4 where c4: "sys_close S n k3 = (rc, k4)" by fastforce
      have k4: "opened k4 = opened (lw_sys w)" using fd_laws_keeps(4) [OF fd, of n k3] c4 k3 ok k1 by auto
      have same: "(lw_ofd w)(p := ?ofd\<lparr>ofd_dupfd := -1\<rparr>) = lw_ofd w" using dup by (auto simp: fun_eq_iff)
      show ?thesis using eq k1 True ok c3 k3 c4 k4 same
        by (cases r3) (auto simp: Let_def syscall_def opened_fds_def loop_registered_def)
    qed
  qed
qed

lemma ref_unref:
  assumes "0 < loop_ref (lw_loop w)" "lw_loop w' = lw_loop (obus_loop_ref w)"
  shows "lw_loop (obus_loop_unref S w') = lw_loop w" "lw_sys (obus_loop_unref S w') = lw_sys w'"
  using assms by (simp_all add: obus_loop_unref_def obus_loop_ref_def Let_def)

lemma ref_frame [simp]: "opened_fds opened (obus_loop_ref w) = opened_fds opened w" "lw_ofd (obus_loop_ref w) = lw_ofd w"
  by (simp_all add: obus_loop_ref_def opened_fds_def)

lemma unref_opened:
  assumes "0 < loop_ref (lw_loop w)" "lw_loop w' = lw_loop (obus_loop_ref w)"
  shows "opened_fds opened (obus_loop_unref S w') = opened_fds opened w'"
  using ref_unref(2) [OF assms, of S] by (simp add: opened_fds_def)

text \<open>What a function that makes a timer leaves behind when it fails: nothing. When it succeeds: a registered object and a reference.\<close>

definition timer_made :: "('k \<Rightarrow> int set) \<Rightarrow> addr \<Rightarrow> ('k, 'z) loop_world_scheme \<Rightarrow> bool \<Rightarrow> ('k, 'z) loop_world_scheme \<Rightarrow> bool" where
  "timer_made opened p w made w' \<longleftrightarrow>
     (if made
      then p \<in> loop_registered w' \<and> loop_ref (lw_loop w') = loop_ref (lw_loop w) + 1 \<and>
        opened_fds opened w \<subseteq> opened_fds opened w' \<and> ofd_fd (lw_ofd w' p) \<in> opened_fds opened w' - opened_fds opened w
      else opened_fds opened w' = opened_fds opened w \<and> lw_loop w' = lw_loop w)"

text \<open>
  Making a timer on a descriptor is all or nothing: when \<open>obus_timer_new\<close> fails at any of its calls, no descriptor stays open and
  the loop is as before, its reference count included; when it succeeds, the object is registered on a descriptor that was not
  open, and the loop has one more reference.
\<close>

theorem timer_new_balanced:
  assumes laws: "timer_laws S opened" and ref: "0 < loop_ref (lw_loop w)"
    and new: "obus_timer_new S p loop cb data w = (r, w')"
  shows "timer_made opened p w (r \<noteq> None) w'"
proof (cases "loop = 0 \<or> cb = 0 \<or> p = 0")
  case True
  then show ?thesis using new by (auto simp: obus_timer_new_def timer_made_def split: if_splits)
next
  case valid: False
  have l: "loop_fd_laws S opened" and fd: "fd_laws S opened" and c: "adds_fd opened (sys_timerfd_create S)"
    using laws by (simp_all add: timer_laws_def loop_fd_laws_def)
  from c show ?thesis
  proof (cases rule: adds_fdE [where k = "lw_sys (obus_loop_ref w)"])
    case (err e k)
    have "w' = obus_loop_unref S (set_sys k (obus_loop_ref w))" "r = None"
      using new valid err by (auto simp: obus_timer_new_def Let_def syscall_def)
    then show ?thesis
      using ref_unref [OF ref, of "set_sys k (obus_loop_ref w)" S] err by (simp add: timer_made_def opened_fds_def obus_loop_ref_def)
  next
    case (ok tfd k)
    let ?w = "set_ofd p (obus_fd_init tfd OBUS_FD_IN timer_events_cb p) (set_sys k (obus_loop_ref w))"
    have o: "opened_fds opened ?w = insert tfd (opened_fds opened w)" "tfd \<notin> opened_fds opened w"
      using ok by (simp_all add: opened_fds_def obus_loop_ref_def)
    obtain ra wa where add: "obus_loop_add S loop p ?w = (ra, wa)" by fastforce
    note added = loop_add_opened [OF l _ add, simplified, unfolded obus_fd_init_def, simplified]
    show ?thesis
    proof (cases ra)
      case (Inl e)
      let ?wc = "snd (syscall (sys_close S tfd) wa)"
      have "w' = obus_loop_unref S ?wc" "r = None"
        using new valid ok add Inl by (auto simp: obus_timer_new_def Let_def syscall_def)
      moreover have "opened_fds opened wa = opened_fds opened ?w" "lw_loop ?wc = lw_loop (obus_loop_ref w)"
        using added Inl syscall_close [OF fd, of tfd wa] by (simp_all add: obus_fd_init_def)
      ultimately show ?thesis
        using ref_unref [OF ref, of ?wc S] unref_opened [OF ref, of ?wc opened S] syscall_close [OF fd, of tfd wa] o
        by (simp add: timer_made_def)
    next
      case (Inr u)
      have "w' = wa" "r \<noteq> None" using new valid ok add Inr by (auto simp: obus_timer_new_def Let_def syscall_def)
      then show ?thesis using added Inr o by (auto simp: timer_made_def obus_fd_init_def obus_loop_ref_def)
    qed
  qed
qed

definition ptimer_laws :: "('k, 'z) ptimer_system_scheme \<Rightarrow> ('k \<Rightarrow> int set) \<Rightarrow> bool" where
  "ptimer_laws S opened \<longleftrightarrow>
     loop_fd_laws S opened \<and> (\<forall>p. keeps_fds opened (sys_timer_create S p)) \<and> keeps_fds opened (sys_sigaction S) \<and>
     (\<forall>t. keeps_fds opened (sys_timer_delete S t)) \<and>
     (\<forall>k. case sys_pipe S k of (Inl _, k') \<Rightarrow> opened k' = opened k
          | (Inr (a, b), k') \<Rightarrow> a \<noteq> b \<and> a \<notin> opened k \<and> b \<notin> opened k \<and> opened k' = {a, b} \<union> opened k)"

lemma delete_exit_balanced:
  assumes laws: "ptimer_laws S opened" and ref: "0 < loop_ref (lw_loop w)" and w1: "lw_loop w1 = lw_loop (obus_loop_ref w)"
  shows "fst (delete_exit S t w1) = None \<and> opened_fds opened (snd (delete_exit S t w1)) = opened_fds opened w1 \<and>
    lw_loop (snd (delete_exit S t w1)) = lw_loop w"
proof -
  obtain r w2 where c: "syscall (sys_timer_delete S t) w1 = (r, w2)" by fastforce
  have "keeps_fds opened (sys_timer_delete S t)" using laws by (simp add: ptimer_laws_def)
  note k = syscall_keeps [OF this c]
  then have l: "lw_loop w2 = lw_loop (obus_loop_ref w)" using w1 by simp
  show ?thesis
    using ref_unref(1) [OF ref l, of S] unref_opened [OF ref l, of opened S] k by (simp add: delete_exit_def unref_exit_def c)
qed

lemma pipe_exit_balanced:
  assumes laws: "ptimer_laws S opened" and ref: "0 < loop_ref (lw_loop w)" and w1: "lw_loop w1 = lw_loop (obus_loop_ref w)"
    and o: "opened_fds opened w1 = {fst pfd, snd pfd} \<union> opened_fds opened w"
      "fst pfd \<notin> opened_fds opened w" "snd pfd \<notin> opened_fds opened w"
  shows "timer_made opened p w (fst (pipe_exit S t pfd w1) \<noteq> None) (snd (pipe_exit S t pfd w1))"
proof -
  have fd: "fd_laws S opened" using laws by (simp add: ptimer_laws_def loop_fd_laws_def)
  let ?w2 = "snd (syscall (sys_close S (snd pfd)) (snd (syscall (sys_close S (fst pfd)) w1)))"
  have l: "lw_loop ?w2 = lw_loop (obus_loop_ref w)" and "opened_fds opened ?w2 = opened_fds opened w"
    by (auto simp: syscall_close [OF fd] w1 o)
  then show ?thesis using delete_exit_balanced [OF laws ref l, of t] by (simp add: pipe_exit_def timer_made_def)
qed

lemma pipe_flags_keeps:
  assumes "fd_laws S opened"
  shows "keeps_fds opened (pipe_flags S pfd)"
  unfolding pipe_flags_def by (intro keeps_fds_chk fd_laws_keeps(1,3) [OF assms])

lemma posix_timer_watch_balanced:
  assumes laws: "ptimer_laws S opened" and ref: "0 < loop_ref (lw_loop w)" and w3: "lw_loop w3 = lw_loop (obus_loop_ref w)"
    and o: "opened_fds opened w3 = {fst (tm_pipe t), snd (tm_pipe t)} \<union> opened_fds opened w"
      "fst (tm_pipe t) \<notin> opened_fds opened w" "snd (tm_pipe t) \<notin> opened_fds opened w"
    and watch: "posix_timer_watch S p loop t w3 = (r, w')"
  shows "timer_made opened p w (r \<noteq> None) w'"
proof -
  have l: "loop_fd_laws S opened" and fd: "fd_laws S opened" using laws by (simp_all add: ptimer_laws_def loop_fd_laws_def)
  obtain r4 w4 where c4: "syscall (pipe_flags S (tm_pipe t)) w3 = (r4, w4)" by fastforce
  note k4 = syscall_keeps [OF pipe_flags_keeps [OF fd] c4]
  let ?out = "pipe_exit S (tm_timerid t) (tm_pipe t)"
  note out = pipe_exit_balanced [OF laws ref, of _ "tm_pipe t" p "tm_timerid t"]
  show ?thesis
  proof (cases r4)
    case (Inl e)
    then have "(r, w') = ?out w4" using watch c4 by (simp add: posix_timer_watch_def Let_def)
    then show ?thesis using out [of w4] k4 o w3 by (cases "?out w4") simp
  next
    case (Inr u)
    let ?w5 = "set_ofd p (obus_fd_init (fst (tm_pipe t)) OBUS_FD_IN timer_events_cb p) w4"
    obtain ra wa where add: "obus_loop_add S loop p ?w5 = (ra, wa)" by fastforce
    note added = loop_add_opened [OF l _ add, simplified, unfolded obus_fd_init_def, simplified]
    show ?thesis
    proof (cases ra)
      case (Inl e)
      then have "(r, w') = ?out wa" using watch c4 Inr add by (simp add: posix_timer_watch_def Let_def)
      then show ?thesis using out [of wa] added Inl k4 o w3 by (cases "?out wa") simp
    next
      case ok: (Inr u)
      then have "w' = wa" "r \<noteq> None" using watch c4 Inr add by (auto simp: posix_timer_watch_def Let_def)
      then show ?thesis using added ok k4 o w3 by (auto simp: timer_made_def obus_loop_ref_def)
    qed
  qed
qed

text \<open>The calls before that: the timer of the system, the signal handler and the pipe.\<close>

text \<open>
  C21. Making a timer of POSIX is all or nothing as well: wherever \<open>obus_timer_new\<close> of \<open>obus_timer_posix.c\<close> fails, the ends of the pipe are
  closed and the reference of the loop is given back.
\<close>

theorem posix_timer_new_balanced:
  assumes laws: "ptimer_laws S opened" and ref: "0 < loop_ref (lw_loop w)"
    and new: "posix_timer_new S p loop cb data w = (r, w')"
  shows "timer_made opened p w (r \<noteq> None) w'"
proof (cases "loop = 0 \<or> cb = 0 \<or> p = 0")
  case True
  then show ?thesis using new by (auto simp: posix_timer_new_def timer_made_def split: if_splits)
next
  case valid: False
  have kc: "keeps_fds opened (sys_timer_create S p)" and ks: "keeps_fds opened (sys_sigaction S)"
    using laws by (simp_all add: ptimer_laws_def)
  obtain r1 w1 where c1: "syscall (sys_timer_create S p) (obus_loop_ref w) = (r1, w1)" by fastforce
  obtain r2 w2 where c2: "syscall (sys_sigaction S) w1 = (r2, w2)" by fastforce
  obtain r3 k where c3: "sys_pipe S (lw_sys w2) = (r3, k)" by fastforce
  note k1 = syscall_keeps [OF kc c1] and k2 = syscall_keeps [OF ks c2]
  have o2: "lw_loop w2 = lw_loop (obus_loop_ref w)" "opened_fds opened w2 = opened_fds opened w" using k1 k2 by simp_all
  have o3: "case r3 of Inl _ \<Rightarrow> opened k = opened (lw_sys w2)
    | Inr (a, b) \<Rightarrow> a \<noteq> b \<and> a \<notin> opened (lw_sys w2) \<and> b \<notin> opened (lw_sys w2) \<and> opened k = {a, b} \<union> opened (lw_sys w2)"
    using laws c3 unfolding ptimer_laws_def by (elim conjE allE [where x = "lw_sys w2"]) (auto split: sum.splits)
  let ?w3 = "set_sys k w2"
  note early = delete_exit_balanced [OF laws ref]
  consider (create) e where "r1 = Inl e" | (action) t e where "r1 = Inr t" "r2 = Inl e"
    | (pipe) t u e where "r1 = Inr t" "r2 = Inr u" "r3 = Inl e" | (watch) t u a b where "r1 = Inr t" "r2 = Inr u" "r3 = Inr (a, b)"
    by (metis obj_sumE surj_pair)
  then show ?thesis
  proof cases
    case create
    then have "w' = obus_loop_unref S w1" "r = None"
      using new valid c1 by (auto simp: posix_timer_new_def Let_def unref_exit_def)
    then show ?thesis
      using ref_unref(1) [OF ref, of w1 S] unref_opened [OF ref, of w1 opened S] k1 by (simp add: timer_made_def)
  next
    case (action t e)
    then have "(r, w') = delete_exit S t w2" using new valid c1 c2 by (simp add: posix_timer_new_def Let_def)
    then show ?thesis using early [OF o2(1), of t] o2(2) by (cases "delete_exit S t w2") (simp add: timer_made_def)
  next
    case (pipe t u e)
    then have "(r, w') = delete_exit S t ?w3"
      using new valid c1 c2 c3 by (simp add: posix_timer_new_def Let_def syscall_def [of "sys_pipe S"])
    then show ?thesis using early [of ?w3 t] o2 o3 pipe by (cases "delete_exit S t ?w3") (simp add: timer_made_def opened_fds_def)
  next
    case (watch t u a b)
    let ?t = "\<lparr>tm_ofd = p, tm_timeout = 0, tm_cb = cb, tm_data = data, tm_pipe = (a, b), tm_timerid = t\<rparr>"
    have "posix_timer_watch S p loop ?t ?w3 = (r, w')"
      using new valid c1 c2 c3 watch by (simp add: posix_timer_new_def Let_def syscall_def [of "sys_pipe S"])
    from posix_timer_watch_balanced [OF laws ref _ _ _ _ this] show ?thesis using o2 o3 watch by (simp add: opened_fds_def)
  qed
qed

section \<open>Examples\<close>

definition small_timer_system :: "small_system timer_system" where
  "small_timer_system =
     \<lparr>sys_getfd = \<lambda>_ k. (Inr 0, k), sys_setfd = \<lambda>_ _ k. (Inr (), k), sys_getfl = \<lambda>_ k. (Inr 0, k), sys_setfl = \<lambda>_ _ k. (Inr (), k),
      sys_dup = \<lambda>_. ss_new, sys_close = ss_close, sys_epoll_create = ss_new, sys_epoll_ctl = ss_ctl, sys_epoll_wait = ss_wait,
      sys_ep_realloc = \<lambda>_ k. (Inr (\<lambda>_. (0, 0)), k), sys_timerfd_create = ss_new, sys_timerfd_settime = \<lambda>_ _ k. (Inr (), k),
      sys_timerfd_read = \<lambda>_ k. (Inr 1, k)\<rparr>"

definition ss_pipe :: "small_system \<Rightarrow> (int \<times> int) res \<times> small_system" where
  "ss_pipe k = (let a = ss_fresh k in (Inr (a, a + 1), k\<lparr>ss_open := [a + 1, a] @ ss_open k\<rparr>))"

definition small_ptimer_system :: "small_system ptimer_system" where
  "small_ptimer_system =
     \<lparr>sys_getfd = \<lambda>_ k. (Inr 0, k), sys_setfd = \<lambda>_ _ k. (Inr (), k), sys_getfl = \<lambda>_ k. (Inr 0, k), sys_setfl = \<lambda>_ _ k. (Inl EPERM, k),
      sys_dup = \<lambda>_. ss_new, sys_close = ss_close, sys_epoll_create = ss_new, sys_epoll_ctl = ss_ctl, sys_epoll_wait = ss_wait,
      sys_ep_realloc = \<lambda>_ k. (Inr (\<lambda>_. (0, 0)), k), sys_timer_create = \<lambda>_ k. (Inr 1, k), sys_sigaction = \<lambda>k. (Inr (), k),
      sys_pipe = ss_pipe, sys_timer_settime = \<lambda>_ _ k. (Inr (), k), sys_timer_delete = \<lambda>_ k. (Inr (), k),
      sys_read1 = \<lambda>_ k. (Inr [0], k), sys_write1 = \<lambda>_ _ k. (Inr 1, k)\<rparr>"

abbreviation ss_opened :: "small_system \<Rightarrow> int set" where
  "ss_opened k \<equiv> set (ss_open k)"

lemma ss_fresh_greater: "x \<in> ss_opened k \<Longrightarrow> x < ss_fresh k"
  using foldr_max_upper [of x "ss_open k @ map fst (ss_watch k)" 2] by (simp add: ss_fresh_def del: foldr_append)

lemma ss_ctl_opened: "ss_opened (snd (ss_ctl epfd op fd ev k)) = ss_opened k"
  by (auto simp: ss_ctl_def split: epoll_op.split option.split)

lemma small_timer_laws: "timer_laws small_timer_system ss_opened"
  using ss_fresh_new ss_ctl_opened
  by (auto simp: timer_laws_def loop_fd_laws_def fd_laws_def small_timer_system_def keeps_fds_def adds_fd_def ss_new_def ss_close_def)

lemma small_ptimer_laws: "ptimer_laws small_ptimer_system ss_opened"
proof -
  have "ss_fresh k + 1 \<notin> ss_opened k" for k using ss_fresh_greater [of "ss_fresh k + 1" k] by force
  then show ?thesis
    using ss_fresh_new ss_ctl_opened
    by (auto simp: ptimer_laws_def loop_fd_laws_def fd_laws_def small_ptimer_system_def keeps_fds_def adds_fd_def ss_new_def ss_close_def
        ss_pipe_def Let_def)
qed

theorem timer_new_balanced_witness:
  "timer_made ss_opened 30 sample_world True (snd (obus_timer_new small_timer_system 30 5 2 0 sample_world))"
proof -
  let ?new = "obus_timer_new small_timer_system 30 5 2 0 sample_world"
  have "timer_made ss_opened 30 sample_world (fst ?new \<noteq> None) (snd ?new)"
    by (rule timer_new_balanced [OF small_timer_laws, of _ 30 5 2 0]) (simp_all add: sample_world_def)
  moreover have "fst ?new \<noteq> None"
    by (simp add: obus_timer_new_def obus_loop_add_def Let_def syscall_def obus_loop_ref_def small_timer_system_def ss_new_def
        ss_fresh_def ss_ctl_def sample_world_def obus_fd_init_def fd_flags timer_events_cb_def set_ofd_def set_sys_def set_loop_def)
  ultimately show ?thesis by simp
qed

text \<open>The flags of the pipe cannot be set here.\<close>

theorem posix_timer_new_balanced_witness:
  "timer_made ss_opened 30 sample_world False (snd (posix_timer_new small_ptimer_system 30 5 2 0 sample_world))"
proof -
  let ?new = "posix_timer_new small_ptimer_system 30 5 2 0 sample_world"
  have "timer_made ss_opened 30 sample_world (fst ?new \<noteq> None) (snd ?new)"
    by (rule posix_timer_new_balanced [OF small_ptimer_laws, of _ 30 5 2 0]) (simp_all add: sample_world_def)
  moreover have "fst ?new = None"
    by (simp add: posix_timer_new_def posix_timer_watch_def pipe_flags_def pipe_exit_def delete_exit_def unref_exit_def Let_def
        syscall_def small_ptimer_system_def obus_fd_set_close_on_exec_def obus_fd_add_flags_def ss_pipe_def)
  ultimately show ?thesis by simp
qed

end
