(* ===== verification/Obus_Address.thy ===== *)
theory Obus_Address
  imports Obus_Utils
begin

text \<open>
  Addresses of sockets: the first part of \<open>obus_socket.c\<close>. An address is read from a string such as \<open>inet:127.0.0.1:5000\<close> or
  \<open>unix:@name\<close> and printed for the names of peers. \<open>inet_pton\<close> and \<open>inet_ntop\<close> are parameters.
\<close>

section \<open>Strings of the C library\<close>

text \<open>What \<open>snprintf\<close> leaves in a buffer of \<open>n\<close> bytes; the last position of a character.\<close>

definition snprintf :: "nat \<Rightarrow> u8 list \<Rightarrow> u8 list" where
  "snprintf n s = take (n - 1) s"

definition strrchr :: "u8 list \<Rightarrow> u8 \<Rightarrow> nat option" where
  "strrchr s c = (if c \<in> set s then Some (length s - 1 - length (takeWhile (\<lambda>x. x \<noteq> c) (rev s))) else None)"

definition colon :: u8 where "colon = 58"
definition at_sign :: u8 where "at_sign = 64"
definition slash :: u8 where "slash = 47"

section \<open>Addresses\<close>

datatype sa_family = AF_UNSPEC | AF_UNIX | AF_INET | AF_INET6

text \<open>
  The storage that the pointers \<open>base\<close>, \<open>in\<close>, \<open>in6\<close> and \<open>un\<close> of the C type share: port (in host order) and address of an internet
  address, and the path of a local one.
\<close>

record sockaddr =
  sa_family :: sa_family
  sin_port :: u16
  sin_addr :: "u8 list"
  sun_path :: "u8 list"

record obus_socket_addr =
  sa_name :: "u8 list option"
  sa_st :: sockaddr

definition SUN_PATH_SIZE :: nat where "SUN_PATH_SIZE = 108"

definition obus_socket_addr_length :: "obus_socket_addr \<Rightarrow> nat" where
  "obus_socket_addr_length addr =
     (case sa_family (sa_st addr) of AF_INET \<Rightarrow> 16 | AF_INET6 \<Rightarrow> 28 | AF_UNIX \<Rightarrow> 2 + SUN_PATH_SIZE | AF_UNSPEC \<Rightarrow> 0)"

text \<open>The memory is cleared; an address has 4 or 16 bytes.\<close>

definition obus_socket_addr_init :: "sa_family \<Rightarrow> obus_socket_addr" where
  "obus_socket_addr_init family =
     \<lparr>sa_name = None,
      sa_st = \<lparr>sa_family = family, sin_port = 0,
               sin_addr = (case family of AF_INET \<Rightarrow> replicate 4 0 | AF_INET6 \<Rightarrow> replicate 16 0 | _ \<Rightarrow> []),
               sun_path = (if family = AF_UNIX then replicate SUN_PATH_SIZE 0 else [])\<rparr>\<rparr>"

definition families :: "(u8 list \<times> sa_family) list" where
  "families = [(chars ''inet:'', AF_INET), (chars ''inet6:'', AF_INET6), (chars ''unix:'', AF_UNIX)]"

text \<open>The family and the rest of the name.\<close>

fun find_family :: "(u8 list \<times> sa_family) list \<Rightarrow> u8 list \<Rightarrow> (sa_family \<times> u8 list) option" where
  "find_family [] name = None"
| "find_family ((pre, family) # fs) name =
     (if take (length pre) name \<noteq> pre then find_family fs name else Some (family, drop (length pre) name))"

text \<open>
  The conversion of the port and of the address. The result of both is only kept in \<open>ret\<close>, which nothing reads: a port that is 0
  and an address that is no address are logged.
\<close>

definition parse_inet :: "(sa_family \<Rightarrow> u8 list \<Rightarrow> u8 list option) \<Rightarrow> u8 list \<Rightarrow> u8 list \<Rightarrow> sockaddr \<Rightarrow> sockaddr" where
  "parse_inet inet_pton host port st =
     (let st = st\<lparr>sin_port := ucast (atoi port)\<rparr> in
      if sin_port st = 0 then st
      else case inet_pton (sa_family st) host of None \<Rightarrow> st | Some a \<Rightarrow> st\<lparr>sin_addr := a\<rparr>)"

definition parse_unix :: "u8 list \<Rightarrow> sockaddr \<Rightarrow> sockaddr" where
  "parse_unix path st =
     (let s = snprintf SUN_PATH_SIZE path;
          p = s @ drop (length s) (sun_path st)
      in st\<lparr>sun_path := (if p ! 0 = at_sign then p[0 := 0] else p)\<rparr>)"

text \<open>\<open>alloc\<close> says whether \<open>strdup\<close> has memory for a string. \<open>None\<close> for the name is NULL.\<close>

definition obus_socket_addr_init_from_string ::
  "(nat \<Rightarrow> bool) \<Rightarrow> (sa_family \<Rightarrow> u8 list \<Rightarrow> u8 list option) \<Rightarrow> u8 list option \<Rightarrow> obus_socket_addr res" where
  "obus_socket_addr_init_from_string alloc inet_pton name =
     (case name of None \<Rightarrow> Inl EINVAL | Some name \<Rightarrow>
      case find_family families name of None \<Rightarrow> Inl EINVAL | Some (family, remain) \<Rightarrow>
      let addr = obus_socket_addr_init family;
          dup = (if alloc (length name + 1) then Some name else None)
      in if family = AF_INET \<or> family = AF_INET6
         then if \<not> alloc (length remain + 1) then Inl EINVAL
              else case strrchr remain colon of None \<Rightarrow> Inl EINVAL
                | Some i \<Rightarrow>
                    Inr (addr\<lparr>sa_name := dup, sa_st := parse_inet inet_pton (take i remain) (drop (i + 1) remain) (sa_st addr)\<rparr>)
         else Inr (addr\<lparr>sa_name := dup, sa_st := parse_unix remain (sa_st addr)\<rparr>))"

definition NAME_SIZE :: nat where "NAME_SIZE = 255"

definition obus_socket_addr_to_string :: "(sa_family \<Rightarrow> u8 list \<Rightarrow> u8 list option) \<Rightarrow> obus_socket_addr \<Rightarrow> u8 list" where
  "obus_socket_addr_to_string inet_ntop addr =
     (let st = sa_st addr;
          host = (\<lambda>family. case inet_ntop family (sin_addr st) of None \<Rightarrow> chars ''???'' | Some tmp \<Rightarrow> tmp);
          port = colon # print_nat (unat (sin_port st))
      in case sa_family st of
           AF_INET \<Rightarrow> snprintf NAME_SIZE (chars ''inet:'' @ host AF_INET @ port)
         | AF_INET6 \<Rightarrow> snprintf NAME_SIZE (chars ''inet6:'' @ host AF_INET6 @ port)
         | AF_UNIX \<Rightarrow>
             if sun_path st ! 0 = 0 then snprintf NAME_SIZE (chars ''unix:@'' @ c_string (drop 1 (sun_path st)))
             else snprintf NAME_SIZE (chars ''unix:'' @ c_string (sun_path st))
         | AF_UNSPEC \<Rightarrow> [])"

section \<open>Reading what is printed\<close>

lemma strrchr_last: "c \<notin> set port \<Longrightarrow> strrchr (host @ c # port) c = Some (length host)"
proof -
  assume c: "c \<notin> set port"
  have "takeWhile (\<lambda>x. x \<noteq> c) (rev port @ c # rev host) = rev port"
    using c by (subst takeWhile_append2) auto
  then show ?thesis by (simp add: strrchr_def)
qed

lemma print_nat_free: "colon \<notin> set (print_nat n)" "0 \<notin> set (print_nat n)"
  using print_nat_digits is_digit_not by (auto simp: colon_def)

lemma family_prefixes:
  "find_family families (chars ''inet:'' @ s) = Some (AF_INET, s)" "find_family families (chars ''inet6:'' @ s) = Some (AF_INET6, s)"
  "find_family families (chars ''unix:'' @ s) = Some (AF_UNIX, s)"
  by (simp_all add: families_def chars_def of_char_def)

lemma print_nat_length: "n < 10 ^ d \<Longrightarrow> 0 < d \<Longrightarrow> length (print_nat n) \<le> d"
proof (induction n arbitrary: d rule: print_nat.induct)
  case (1 n)
  show ?case
  proof (cases "n < 10")
    case True
    then show ?thesis using 1 by (simp add: print_nat.simps [of n])
  next
    case False
    then obtain e where d: "d = Suc e" "0 < e" using 1 by (cases d; cases "d - 1") auto
    then have "n div 10 < 10 ^ e" using 1 by (simp add: less_mult_imp_div_less mult.commute)
    then have "length (print_nat (n div 10)) \<le> e" using 1 False d by simp
    then show ?thesis using False d by (simp add: print_nat.simps [of n])
  qed
qed

lemma c_string_zeros: "0 \<notin> set s \<Longrightarrow> c_string (s @ replicate n 0) = s"
proof -
  assume z: "0 \<notin> set s"
  have "takeWhile (\<lambda>c. c \<noteq> 0) (s @ replicate n (0 :: u8)) = s @ takeWhile (\<lambda>c. c \<noteq> 0) (replicate n (0 :: u8))"
    by (rule takeWhile_append2) (use z in auto)
  then show ?thesis by (cases n) (simp_all add: c_string_def)
qed

text \<open>The path of a local address that is not too long, in the memory that was cleared.\<close>

lemma parse_unix_path:
  assumes "length path < SUN_PATH_SIZE" "path \<noteq> []"
  shows "sun_path (parse_unix path (sa_st (obus_socket_addr_init AF_UNIX))) =
    (if hd path = at_sign then 0 # tl path else path) @ replicate (SUN_PATH_SIZE - length path) 0"
proof -
  obtain c cs where p: "path = c # cs" using assms(2) by (cases path) auto
  have "snprintf SUN_PATH_SIZE path = path" using assms(1) by (simp add: snprintf_def)
  then show ?thesis by (simp add: parse_unix_def obus_socket_addr_init_def Let_def p)
qed

text \<open>
  A local address survives: for a path that is not empty, fits its array and has no NUL, the address that
  \<open>obus_socket_addr_init_from_string\<close> makes of \<open>unix:\<close> and the path is printed by \<open>obus_socket_addr_to_string\<close> as the same string,
  abstract addresses with their leading \<open>@\<close> included.
\<close>

theorem unix_address_roundtrip:
  assumes "path \<noteq> []" "length path < SUN_PATH_SIZE" "0 \<notin> set path"
  shows "\<exists>addr. obus_socket_addr_init_from_string alloc inet_pton (Some (chars ''unix:'' @ path)) = Inr addr \<and>
    sa_family (sa_st addr) = AF_UNIX \<and> obus_socket_addr_to_string inet_ntop addr = chars ''unix:'' @ path"
proof -
  define st where "st = parse_unix path (sa_st (obus_socket_addr_init AF_UNIX))"
  obtain c cs where p: "path = c # cs" using assms(1) by (cases path) auto
  have fam: "sa_family st = AF_UNIX" by (simp add: st_def parse_unix_def obus_socket_addr_init_def Let_def)
  have sun: "sun_path st = (if c = at_sign then 0 # cs else c # cs) @ replicate (SUN_PATH_SIZE - length path) 0"
    using parse_unix_path [OF assms(2,1)] p by (simp add: st_def)
  have z: "c_string (cs @ replicate n 0) = cs" "c_string ((c # cs) @ replicate n 0) = c # cs" for n
    using c_string_zeros [of cs n] c_string_zeros [of "c # cs" n] assms(3) p by simp_all
  have len: "length (chars ''unix:'' @ c # cs) \<le> NAME_SIZE - 1" using assms(2) p by (simp add: NAME_SIZE_def SUN_PATH_SIZE_def chars_def)
  have at: "chars ''unix:@'' = chars ''unix:'' @ [at_sign]" by (simp add: chars_def at_sign_def of_char_def)
  have "c \<noteq> 0" using assms(3) p by auto
  then have "obus_socket_addr_to_string inet_ntop \<lparr>sa_name = n, sa_st = st\<rparr> = chars ''unix:'' @ path" for n
    using z len by (cases "c = at_sign") (simp_all add: obus_socket_addr_to_string_def Let_def fam sun snprintf_def at p)
  moreover have "obus_socket_addr_init_from_string alloc inet_pton (Some (chars ''unix:'' @ path)) =
      Inr \<lparr>sa_name = if alloc (length (chars ''unix:'' @ path) + 1) then Some (chars ''unix:'' @ path) else None, sa_st = st\<rparr>"
    unfolding st_def by (simp add: obus_socket_addr_init_from_string_def family_prefixes Let_def obus_socket_addr_init_def)
  ultimately show ?thesis using fam by simp
qed

theorem unix_address_roundtrip_witness:
  "\<exists>addr. obus_socket_addr_init_from_string (\<lambda>_. True) (\<lambda>_ _. None) (Some (chars ''unix:'' @ chars ''@bus'')) = Inr addr \<and>
    sa_family (sa_st addr) = AF_UNIX \<and> obus_socket_addr_to_string (\<lambda>_ _. None) addr = chars ''unix:'' @ chars ''@bus''"
  by (rule unix_address_roundtrip) (simp_all add: chars_def SUN_PATH_SIZE_def of_char_def)

text \<open>The prefix of a family.\<close>

definition inet_prefix :: "sa_family \<Rightarrow> u8 list" where
  "inet_prefix family = (if family = AF_INET then chars ''inet:'' else chars ''inet6:'')"

text \<open>What becomes of an internet address with a port.\<close>

lemma parse_inet_address:
  assumes "family = AF_INET \<or> family = AF_INET6" "\<forall>n. alloc n" "colon \<notin> set port"
  shows "obus_socket_addr_init_from_string alloc inet_pton (Some (inet_prefix family @ host @ colon # port)) =
    Inr \<lparr>sa_name = Some (inet_prefix family @ host @ colon # port),
         sa_st = parse_inet inet_pton host port (sa_st (obus_socket_addr_init family))\<rparr>"
proof -
  have "find_family families (inet_prefix family @ host @ colon # port) = Some (family, host @ colon # port)"
    using assms(1) family_prefixes by (auto simp: inet_prefix_def)
  then show ?thesis
    using assms strrchr_last [OF assms(3), of host]
    by (auto simp: obus_socket_addr_init_from_string_def Let_def obus_socket_addr_init_def)
qed

lemma port_value: "0 < port \<Longrightarrow> port < 65536 \<Longrightarrow>
    unat (ucast (atoi (print_nat port)) :: u16) = port \<and> (ucast (atoi (print_nat port)) :: u16) \<noteq> 0"
proof -
  assume p: "0 < port" "port < 65536"
  have "atoi (print_nat port) = of_nat port" by (rule atoi_print) (use p in simp)
  moreover have "unat (of_nat port :: 32 word) = port" using p by (subst unat_of_nat) simp
  ultimately have "unat (ucast (atoi (print_nat port)) :: u16) = port"
    using p by (simp add: unsigned_ucast_eq take_bit_eq_mod)
  then show ?thesis using p by (metis less_irrefl unsigned_0)
qed

text \<open>
  C24. An internet address survives: for a host that \<open>inet_pton\<close> and \<open>inet_ntop\<close> convert into each other and a port from 1 to 65535, the
  address read from \<open>inet:host:port\<close> or \<open>inet6:host:port\<close> is printed as the same string. Colons inside the host do no harm, as the last one
  is taken for the port.
\<close>

theorem inet_address_roundtrip:
  assumes "family = AF_INET \<or> family = AF_INET6" "\<forall>n. alloc n"
    and "inet_pton family host = Some a" "inet_ntop family a = Some host" "length host \<le> 46" "0 < port" "port < 65536"
  shows "\<exists>addr. obus_socket_addr_init_from_string alloc inet_pton (Some (inet_prefix family @ host @ colon # print_nat port)) = Inr addr \<and>
    sa_family (sa_st addr) = family \<and> unat (sin_port (sa_st addr)) = port \<and> sin_addr (sa_st addr) = a \<and>
    obus_socket_addr_to_string inet_ntop addr = inet_prefix family @ host @ colon # print_nat port"
proof -
  define st where "st = parse_inet inet_pton host (print_nat port) (sa_st (obus_socket_addr_init family))"
  note port = port_value [OF assms(6,7)]
  have st: "sa_family st = family" "unat (sin_port st) = port" "sin_addr st = a"
    using port assms(3) by (simp_all add: st_def parse_inet_def Let_def obus_socket_addr_init_def)
  have "length (print_nat port) \<le> 5" using print_nat_length [of port 5] assms(7) by simp
  moreover have "length (inet_prefix family) \<le> 6" by (simp add: inet_prefix_def chars_def)
  ultimately have len: "length (inet_prefix family @ host @ colon # print_nat port) \<le> NAME_SIZE - 1"
    using assms(5) by (simp add: NAME_SIZE_def)
  have "obus_socket_addr_to_string inet_ntop \<lparr>sa_name = n, sa_st = st\<rparr> = inet_prefix family @ host @ colon # print_nat port" for n
    using assms(1,4) len st by (auto simp: obus_socket_addr_to_string_def Let_def snprintf_def inet_prefix_def)
  then show ?thesis using parse_inet_address [OF assms(1,2) print_nat_free(1), of inet_pton host port] st by (simp add: st_def)
qed

definition sample_pton :: "sa_family \<Rightarrow> u8 list \<Rightarrow> u8 list option" where
  "sample_pton family s = (if family = AF_INET6 \<and> s = chars ''::1'' then Some (replicate 15 0 @ [1]) else None)"

definition sample_ntop :: "sa_family \<Rightarrow> u8 list \<Rightarrow> u8 list option" where
  "sample_ntop family a = (if family = AF_INET6 \<and> a = replicate 15 0 @ [1] then Some (chars ''::1'') else None)"

theorem inet_address_roundtrip_witness:
  "\<exists>addr. obus_socket_addr_init_from_string (\<lambda>_. True) sample_pton (Some (inet_prefix AF_INET6 @ chars ''::1'' @ colon # print_nat 5000)) =
      Inr addr \<and>
    sa_family (sa_st addr) = AF_INET6 \<and> unat (sin_port (sa_st addr)) = 5000 \<and> sin_addr (sa_st addr) = replicate 15 0 @ [1] \<and>
    obus_socket_addr_to_string sample_ntop addr = inet_prefix AF_INET6 @ chars ''::1'' @ colon # print_nat 5000"
  by (rule inet_address_roundtrip) (simp_all add: sample_pton_def sample_ntop_def chars_def)

text \<open>
  The errors of an internet address are dropped: when the port is 0 or no number, or when \<open>inet_pton\<close> refuses the host,
  \<open>obus_socket_addr_init_from_string\<close> still returns 0, and the address is the one of all interfaces, all zero.
\<close>

theorem bad_inet_address_accepted:
  assumes "family = AF_INET \<or> family = AF_INET6" "\<forall>n. alloc n" "colon \<notin> set port"
    and "(ucast (atoi port) :: u16) = 0 \<or> inet_pton family host = None"
  shows "\<exists>addr. obus_socket_addr_init_from_string alloc inet_pton (Some (inet_prefix family @ host @ colon # port)) = Inr addr \<and>
    sa_family (sa_st addr) = family \<and> sin_addr (sa_st addr) = replicate (if family = AF_INET then 4 else 16) 0"
  using assms(1,4) parse_inet_address [OF assms(1-3), of inet_pton host]
  by (auto simp: parse_inet_def obus_socket_addr_init_def Let_def)

theorem bad_inet_address_accepted_witness:
  "\<exists>addr. obus_socket_addr_init_from_string (\<lambda>_. True) sample_pton (Some (inet_prefix AF_INET @ chars ''127.0.0.l'' @ colon # chars ''5000'')) =
      Inr addr \<and>
    sa_family (sa_st addr) = AF_INET \<and> sin_addr (sa_st addr) = replicate (if AF_INET = AF_INET then 4 else 16) 0"
  by (rule bad_inet_address_accepted) (simp_all add: sample_pton_def chars_def colon_def of_char_def)

end
