(* ===== verification/Obus_Socket.thy ===== *)
theory Obus_Socket
  imports Obus_Timer Obus_Address
begin

text \<open>
  Sockets: the rest of \<open>obus_socket.c\<close>. A client socket connects to a server and tries again on a timer; a server socket binds,
  again on a timer if its address is not there yet, and accepts peers. The functions work on the world of the event loop; the callbacks
  of the users are functions on the socket and the world.
\<close>

section \<open>The base of a socket\<close>

definition OBUS_SOCKET_CONN_INTVL :: int where "OBUS_SOCKET_CONN_INTVL = 500"

datatype obus_socket_role = OBUS_SOCKET_CLIENT | OBUS_SOCKET_SERVER | OBUS_SOCKET_PEER

text \<open>\<open>sb_ofd\<close> is the address of the descriptor object inside the socket.\<close>

record obus_socket_base =
  sb_ofd :: addr
  sb_fd :: int
  sb_type :: sa_family
  sb_role :: obus_socket_role

datatype sockopt = SO_REUSEADDR | SO_KEEPALIVE | TCP_KEEPIDLE | TCP_KEEPINTVL | TCP_KEEPCNT

text \<open>\<open>accept\<close> returns the descriptor, the address and its length; \<open>sys_so_error\<close> is the option \<open>SO_ERROR\<close>, 0 for none.\<close>

record 'k socket_system = "'k timer_system" +
  sys_socket :: "sa_family \<Rightarrow> 'k \<Rightarrow> int res \<times> 'k"
  sys_setsockopt :: "int \<Rightarrow> sockopt \<Rightarrow> int \<Rightarrow> 'k \<Rightarrow> unit res \<times> 'k"
  sys_shutdown :: "int \<Rightarrow> 'k \<Rightarrow> unit res \<times> 'k"
  sys_bind :: "int \<Rightarrow> sockaddr \<Rightarrow> nat \<Rightarrow> 'k \<Rightarrow> unit res \<times> 'k"
  sys_listen :: "int \<Rightarrow> nat \<Rightarrow> 'k \<Rightarrow> unit res \<times> 'k"
  sys_accept :: "int \<Rightarrow> nat \<Rightarrow> 'k \<Rightarrow> (int \<times> sockaddr \<times> nat) res \<times> 'k"
  sys_connect :: "int \<Rightarrow> sockaddr \<Rightarrow> nat \<Rightarrow> 'k \<Rightarrow> unit res \<times> 'k"
  sys_getsockname :: "int \<Rightarrow> nat \<Rightarrow> 'k \<Rightarrow> sockaddr res \<times> 'k"
  sys_so_error :: "int \<Rightarrow> 'k \<Rightarrow> int res \<times> 'k"
  sys_peercred :: "int \<Rightarrow> 'k \<Rightarrow> int res \<times> 'k"
  sys_unlink :: "u8 list \<Rightarrow> 'k \<Rightarrow> unit res \<times> 'k"
  sys_mkdir :: "u8 list \<Rightarrow> 'k \<Rightarrow> unit res \<times> 'k"

definition obus_socket_peer_get_pid :: "('k, 'y) socket_system_scheme \<Rightarrow> int \<Rightarrow> 'k \<Rightarrow> int \<times> 'k" where
  "obus_socket_peer_get_pid S fd k = (case sys_peercred S fd k of (Inl _, k) \<Rightarrow> (0, k) | (Inr pid, k) \<Rightarrow> (pid, k))"

definition obus_socket_activate_keepalive ::
  "('k, 'y) socket_system_scheme \<Rightarrow> int \<Rightarrow> int \<Rightarrow> int \<Rightarrow> int \<Rightarrow> 'k \<Rightarrow> unit res \<times> 'k" where
  "obus_socket_activate_keepalive S fd keepidle keepintvl keepcnt k =
     chk (sys_setsockopt S fd SO_KEEPALIVE 1 k) (\<lambda>_ k.
     chk (sys_setsockopt S fd TCP_KEEPIDLE keepidle k) (\<lambda>_ k.
     chk (sys_setsockopt S fd TCP_KEEPINTVL keepintvl k) (\<lambda>_ k.
     sys_setsockopt S fd TCP_KEEPCNT keepcnt k)))"

text \<open>\<open>p\<close> is the address of the descriptor object; the memory of the socket is cleared.\<close>

definition obus_socket_base_init ::
  "addr \<Rightarrow> obus_socket_role \<Rightarrow> sa_family \<Rightarrow> addr \<Rightarrow> ('k, 'z) loop_world_scheme
    \<Rightarrow> obus_socket_base res \<times> ('k, 'z) loop_world_scheme" where
  "obus_socket_base_init p role type loop w =
     (if loop = 0 then (Inl EINVAL, w)
      else (Inr \<lparr>sb_ofd = p, sb_fd = -1, sb_type = type, sb_role = role\<rparr>,
            set_ofd p (obus_fd_init (-1) 0 0 0) (obus_loop_ref w)))"

definition obus_socket_base_close ::
  "('k, 'y) socket_system_scheme \<Rightarrow> obus_socket_base \<Rightarrow> ('k, 'z) loop_world_scheme
    \<Rightarrow> obus_socket_base \<times> ('k, 'z) loop_world_scheme" where
  "obus_socket_base_close S sock w =
     (let w = (if obus_fd_is_used (lw_ofd w (sb_ofd sock)) then snd (obus_loop_remove S (loop_of w) (sb_ofd sock) w) else w);
          w = (if sb_fd sock \<noteq> -1
               then snd (syscall (sys_close S (sb_fd sock)) (snd (syscall (sys_shutdown S (sb_fd sock)) w))) else w);
          w = set_ofd (sb_ofd sock) (snd (obus_fd_reset (lw_ofd w (sb_ofd sock)))) w
      in (sock\<lparr>sb_fd := -1\<rparr>, w))"

definition obus_socket_base_destroy ::
  "('k, 'y) socket_system_scheme \<Rightarrow> obus_socket_base \<Rightarrow> ('k, 'z) loop_world_scheme \<Rightarrow> ('k, 'z) loop_world_scheme" where
  "obus_socket_base_destroy S sock w = obus_loop_unref S (snd (obus_socket_base_close S sock w))"

text \<open>The new descriptor and its options; it is closed when one of them cannot be set.\<close>

definition open_socket :: "('k, 'y) socket_system_scheme \<Rightarrow> sa_family \<Rightarrow> 'k \<Rightarrow> int res \<times> 'k" where
  "open_socket S type k =
     chk (sys_socket S type k) (\<lambda>sockfd k.
       case chk (obus_fd_set_close_on_exec S sockfd k) (\<lambda>_ k.
            chk (obus_fd_add_flags S sockfd O_NONBLOCK k) (\<lambda>_ k.
            sys_setsockopt S sockfd SO_REUSEADDR 1 k)) of
         (Inl e, k) \<Rightarrow> (Inl e, snd (sys_close S sockfd k))
       | (Inr _, k) \<Rightarrow> (Inr sockfd, k))"

definition obus_socket_base_open ::
  "('k, 'y) socket_system_scheme \<Rightarrow> obus_socket_base \<Rightarrow> ('k, 'z) loop_world_scheme
    \<Rightarrow> unit res \<times> obus_socket_base \<times> ('k, 'z) loop_world_scheme" where
  "obus_socket_base_open S sock w =
     (case syscall (open_socket S (sb_type sock)) w of
        (Inl e, w) \<Rightarrow> (Inl e, sock, w)
      | (Inr sockfd, w) \<Rightarrow> (Inr (), sock\<lparr>sb_fd := sockfd\<rparr>, w))"

section \<open>Clients\<close>

record obus_socket_client =
  sc_sock :: obus_socket_base
  sc_local :: obus_socket_addr
  sc_peer :: obus_socket_addr
  sc_timer :: obus_timer
  sc_cb :: nat
  sc_data :: addr

type_synonym ('k, 'z) client_cb =
  "obus_socket_client \<Rightarrow> ('k, 'z) loop_world_scheme \<Rightarrow> obus_socket_client \<times> ('k, 'z) loop_world_scheme"

text \<open>The numbers of the callbacks the library registers.\<close>

definition client_events_cb :: nat where "client_events_cb = 2"
definition connect_timer_cb :: nat where "connect_timer_cb = 3"
definition server_events_cb :: nat where "server_events_cb = 4"
definition bind_timer_cb :: nat where "bind_timer_cb = 5"

definition is_inet :: "sa_family \<Rightarrow> bool" where
  "is_inet f \<longleftrightarrow> f = AF_INET \<or> f = AF_INET6"

text \<open>The local address from what \<open>getsockname\<close> reports; a local socket has the path of its peer.\<close>

definition client_local_addr ::
  "(sa_family \<Rightarrow> u8 list \<Rightarrow> u8 list option) \<Rightarrow> obus_socket_addr \<Rightarrow> sockaddr res \<Rightarrow> obus_socket_addr" where
  "client_local_addr inet_ntop peer r =
     (let local = obus_socket_addr_init (sa_family (sa_st peer));
          local = (case r of Inl _ \<Rightarrow> local | Inr st \<Rightarrow> local\<lparr>sa_st := st\<rparr>);
          local = (if sa_family (sa_st local) = AF_UNIX
                   then local\<lparr>sa_st := (sa_st local)\<lparr>sun_path := sun_path (sa_st peer)\<rparr>\<rparr> else local)
      in local\<lparr>sa_name := Some (obus_socket_addr_to_string inet_ntop local)\<rparr>)"

definition obus_socket_client_connected ::
  "('k, 'y) socket_system_scheme \<Rightarrow> (sa_family \<Rightarrow> u8 list \<Rightarrow> u8 list option) \<Rightarrow> ('k, 'z) client_cb
    \<Rightarrow> obus_socket_client \<Rightarrow> ('k, 'z) loop_world_scheme \<Rightarrow> obus_socket_client \<times> ('k, 'z) loop_world_scheme" where
  "obus_socket_client_connected S inet_ntop connected client w =
     (let fd = sb_fd (sc_sock client);
          len = obus_socket_addr_length (obus_socket_addr_init (sa_family (sa_st (sc_peer client))));
          (r, w) = syscall (sys_getsockname S fd len) w;
          local = client_local_addr inet_ntop (sc_peer client) r;
          w = (if is_inet (sa_family (sa_st local)) then snd (syscall (obus_socket_activate_keepalive S fd 5 1 2) w) else w)
      in connected (client\<lparr>sc_local := local\<rparr>) w)"

text \<open>\<open>close\<close> the descriptor and set the timer.\<close>

definition client_retry ::
  "('k, 'y) socket_system_scheme \<Rightarrow> obus_socket_client \<Rightarrow> ('k, 'z) loop_world_scheme
    \<Rightarrow> obus_socket_client \<times> ('k, 'z) loop_world_scheme" where
  "client_retry S client w =
     (let w = snd (syscall (sys_close S (sb_fd (sc_sock client))) w);
          (_, timer, w) = obus_timer_set S (sc_timer client) OBUS_SOCKET_CONN_INTVL w
      in (client\<lparr>sc_sock := (sc_sock client)\<lparr>sb_fd := -1\<rparr>, sc_timer := timer\<rparr>, w))"

definition obus_socket_client_events ::
  "('k, 'y) socket_system_scheme \<Rightarrow> (sa_family \<Rightarrow> u8 list \<Rightarrow> u8 list option) \<Rightarrow> ('k, 'z) client_cb
    \<Rightarrow> u32 \<Rightarrow> obus_socket_client \<Rightarrow> ('k, 'z) loop_world_scheme \<Rightarrow> obus_socket_client \<times> ('k, 'z) loop_world_scheme" where
  "obus_socket_client_events S inet_ntop connected events client w =
     (let w = snd (obus_loop_remove S (loop_of w) (sb_ofd (sc_sock client)) w);
          (err, w) = (if obus_fd_event_error events then (-1, w)
                      else case syscall (sys_so_error S (sb_fd (sc_sock client))) w of
                             (Inl _, w) \<Rightarrow> (-1, w) | (Inr err, w) \<Rightarrow> (err, w))
      in if err = 0 then obus_socket_client_connected S inet_ntop connected client w
         else client_retry S client w)"

definition obus_socket_client_do_connect ::
  "('k, 'y) socket_system_scheme \<Rightarrow> (sa_family \<Rightarrow> u8 list \<Rightarrow> u8 list option) \<Rightarrow> ('k, 'z) client_cb
    \<Rightarrow> obus_socket_client \<Rightarrow> ('k, 'z) loop_world_scheme \<Rightarrow> obus_socket_client \<times> ('k, 'z) loop_world_scheme" where
  "obus_socket_client_do_connect S inet_ntop connected client w =
     (case obus_socket_base_open S (sc_sock client) w of
        (Inl _, sock, w) \<Rightarrow> (client\<lparr>sc_sock := sock\<rparr>, w)
      | (Inr _, sock, w) \<Rightarrow>
          let client = client\<lparr>sc_sock := sock\<rparr>;
              w = set_ofd (sb_ofd sock) (obus_fd_init (sb_fd sock) OBUS_FD_OUT client_events_cb 0) w
          in case syscall (sys_connect S (sb_fd sock) (sa_st (sc_peer client)) (obus_socket_addr_length (sc_peer client))) w of
               (Inr _, w) \<Rightarrow> obus_socket_client_connected S inet_ntop connected client w
             | (Inl e, w) \<Rightarrow>
                 if e = EINPROGRESS then (client, snd (obus_loop_add S (loop_of w) (sb_ofd sock) w))
                 else client_retry S client w)"

definition obus_socket_connect_timer_cb ::
  "('k, 'y) socket_system_scheme \<Rightarrow> (sa_family \<Rightarrow> u8 list \<Rightarrow> u8 list option) \<Rightarrow> ('k, 'z) client_cb
    \<Rightarrow> obus_socket_client \<Rightarrow> ('k, 'z) loop_world_scheme \<Rightarrow> obus_socket_client \<times> ('k, 'z) loop_world_scheme" where
  "obus_socket_connect_timer_cb S inet_ntop connected client w =
     (let (_, timer, w) = obus_timer_clear S (sc_timer client) w
      in obus_socket_client_do_connect S inet_ntop connected (client\<lparr>sc_timer := timer\<rparr>) w)"

text \<open>
  \<open>p\<close> and \<open>pt\<close> are the addresses of the descriptor objects of the socket and of its timer, \<open>p = 0\<close> when \<open>calloc\<close> fails; \<open>cb\<close> and \<open>loop\<close> are 0 for
  NULL. The result 0 without a client is \<open>Inr None\<close>.
\<close>

definition obus_socket_client_new ::
  "('k, 'y) socket_system_scheme \<Rightarrow> (nat \<Rightarrow> bool) \<Rightarrow> (sa_family \<Rightarrow> u8 list \<Rightarrow> u8 list option) \<Rightarrow> addr \<Rightarrow> addr \<Rightarrow> addr \<Rightarrow> u8 list option
    \<Rightarrow> nat \<Rightarrow> addr \<Rightarrow> ('k, 'z) loop_world_scheme \<Rightarrow> obus_socket_client option res \<times> ('k, 'z) loop_world_scheme" where
  "obus_socket_client_new S alloc inet_pton p pt loop addr cb data w =
     (if loop = 0 \<or> addr = None \<or> cb = 0 then (Inl EINVAL, w)
      else if p = 0 then (Inl ENOMEM, w)
      else case obus_socket_addr_init_from_string alloc inet_pton addr of
        Inl e \<Rightarrow> (Inl e, w)
      | Inr peer \<Rightarrow>
          case obus_socket_base_init p OBUS_SOCKET_CLIENT (sa_family (sa_st peer)) loop w of
            (Inl e, w) \<Rightarrow> (Inl e, w)
          | (Inr sock, w) \<Rightarrow>
              case obus_timer_new S pt loop connect_timer_cb 0 w of
                (None, w) \<Rightarrow> (Inr None, obus_socket_base_destroy S sock w)
              | (Some timer, w) \<Rightarrow>
                  case obus_timer_set S timer 10 w of
                    (Inl e, timer, w) \<Rightarrow> (Inl e, obus_socket_base_destroy S sock (obus_timer_destroy S timer w))
                  | (Inr _, timer, w) \<Rightarrow>
                      (Inr (Some \<lparr>sc_sock = sock, sc_local = obus_socket_addr_init AF_UNSPEC, sc_peer = peer, sc_timer = timer,
                                  sc_cb = cb, sc_data = data\<rparr>), w))"

definition obus_socket_client_destroy ::
  "('k, 'y) socket_system_scheme \<Rightarrow> obus_socket_client option \<Rightarrow> ('k, 'z) loop_world_scheme \<Rightarrow> unit res \<times> ('k, 'z) loop_world_scheme" where
  "obus_socket_client_destroy S client w =
     (case client of None \<Rightarrow> (Inl EINVAL, w)
      | Some client \<Rightarrow> (Inr (), obus_socket_base_destroy S (sc_sock client) (obus_timer_destroy S (sc_timer client) w)))"

definition obus_socket_client_reconnect ::
  "('k, 'y) socket_system_scheme \<Rightarrow> obus_socket_client \<Rightarrow> ('k, 'z) loop_world_scheme
    \<Rightarrow> unit res \<times> obus_socket_client \<times> ('k, 'z) loop_world_scheme" where
  "obus_socket_client_reconnect S client w =
     (let (_, timer, w) = obus_timer_clear S (sc_timer client) w;
          (sock, w) = obus_socket_base_close S (sc_sock client) w
      in case obus_socket_base_open S sock w of
           (Inl e, sock, w) \<Rightarrow> (Inl e, client\<lparr>sc_sock := sock, sc_timer := timer\<rparr>, w)
         | (Inr _, sock, w) \<Rightarrow>
             let w = set_ofd (sb_ofd sock) (obus_fd_init (sb_fd sock) OBUS_FD_OUT client_events_cb 0) w;
                 (_, timer, w) = obus_timer_set S timer OBUS_SOCKET_CONN_INTVL w
             in (Inr (), client\<lparr>sc_sock := sock, sc_timer := timer\<rparr>, w))"

definition obus_socket_client_fd :: "obus_socket_client option \<Rightarrow> int res" where
  "obus_socket_client_fd client = (case client of None \<Rightarrow> Inl EINVAL | Some c \<Rightarrow> Inr (sb_fd (sc_sock c)))"

definition obus_socket_client_name :: "obus_socket_client option \<Rightarrow> u8 list option" where
  "obus_socket_client_name client = Option.bind client (\<lambda>c. sa_name (sc_peer c))"

section \<open>What the system promises\<close>

definition socket_laws :: "('k, 'z) socket_system_scheme \<Rightarrow> ('k \<Rightarrow> int set) \<Rightarrow> bool" where
  "socket_laws S opened \<longleftrightarrow>
     timer_laws S opened \<and> (\<forall>t. adds_fd opened (sys_socket S t)) \<and>
     (\<forall>fd opt v. keeps_fds opened (sys_setsockopt S fd opt v)) \<and> (\<forall>fd. keeps_fds opened (sys_shutdown S fd)) \<and>
     (\<forall>fd a n. keeps_fds opened (sys_bind S fd a n)) \<and> (\<forall>fd n. keeps_fds opened (sys_listen S fd n)) \<and>
     (\<forall>fd a n. keeps_fds opened (sys_connect S fd a n)) \<and> (\<forall>fd n. keeps_fds opened (sys_getsockname S fd n)) \<and>
     (\<forall>fd. keeps_fds opened (sys_so_error S fd)) \<and> (\<forall>fd. keeps_fds opened (sys_peercred S fd)) \<and>
     (\<forall>path. keeps_fds opened (sys_unlink S path)) \<and> (\<forall>path. keeps_fds opened (sys_mkdir S path)) \<and>
     (\<forall>fd n k. case sys_accept S fd n k of (Inl _, k') \<Rightarrow> opened k' = opened k
        | (Inr (new, _), k') \<Rightarrow> 0 \<le> new \<and> new \<notin> opened k \<and> opened k' = insert new (opened k))"

lemma socket_lawsD:
  assumes "socket_laws S opened"
  shows "timer_laws S opened" "loop_fd_laws S opened" "fd_laws S opened" "adds_fd opened (sys_socket S t)"
    "keeps_fds opened (sys_setsockopt S fd opt v)" "keeps_fds opened (sys_shutdown S fd)" "keeps_fds opened (sys_bind S fd a n)"
    "keeps_fds opened (sys_listen S fd n)" "keeps_fds opened (sys_connect S fd a n)" "keeps_fds opened (sys_getsockname S fd n)"
    "keeps_fds opened (sys_so_error S fd)" "keeps_fds opened (sys_peercred S fd)" "keeps_fds opened (sys_unlink S path)"
    "keeps_fds opened (sys_mkdir S path)"
  using assms by (simp_all add: socket_laws_def timer_laws_def loop_fd_laws_def)

lemma open_socket_adds:
  assumes "socket_laws S opened"
  shows "adds_fd opened (open_socket S t)"
  unfolding adds_fd_def
proof
  fix k
  note laws = socket_lawsD [OF assms]
  from laws(4) [of t] show "case open_socket S t k of (Inl _, k') \<Rightarrow> opened k' = opened k
    | (Inr n, k') \<Rightarrow> 0 \<le> n \<and> n \<notin> opened k \<and> opened k' = insert n (opened k)"
  proof (cases rule: adds_fdE [where k = k])
    case (err e k')
    then show ?thesis by (simp add: open_socket_def)
  next
    case (ok n k1)
    let ?opts = "\<lambda>k. chk (obus_fd_set_close_on_exec S n k) (\<lambda>_ k. chk (obus_fd_add_flags S n O_NONBLOCK k) (\<lambda>_ k.
            sys_setsockopt S n SO_REUSEADDR 1 k))"
    obtain r k2 where c: "?opts k1 = (r, k2)" by fastforce
    have "keeps_fds opened ?opts" by (intro keeps_fds_chk fd_laws_keeps(1,3) [OF laws(3)] laws(5))
    then have "opened k2 = opened k1" using keeps_fdsD [of opened ?opts k1] c by simp
    then show ?thesis using ok c fd_laws_keeps(4) [OF laws(3), of n k2] by (cases r) (auto simp: open_socket_def)
  qed
qed

lemma base_open_cases:
  assumes "socket_laws S opened"
  obtains (err) e w' where "obus_socket_base_open S sock w = (Inl e, sock, w')" "opened_fds opened w' = opened_fds opened w"
      "lw_loop w' = lw_loop w" "lw_ofd w' = lw_ofd w"
  | (ok) fd w' where "obus_socket_base_open S sock w = (Inr (), sock\<lparr>sb_fd := fd\<rparr>, w')" "0 \<le> fd" "fd \<notin> opened_fds opened w"
      "opened_fds opened w' = insert fd (opened_fds opened w)" "lw_loop w' = lw_loop w" "lw_ofd w' = lw_ofd w"
  using open_socket_adds [OF assms, of "sb_type sock"]
proof (cases rule: adds_fdE [where k = "lw_sys w"])
  case (err e k)
  then show thesis by (intro that(1) [of e "set_sys k w"]) (simp_all add: obus_socket_base_open_def syscall_def opened_fds_def)
next
  case (ok fd k)
  then show thesis by (intro that(2) [of fd "set_sys k w"]) (simp_all add: obus_socket_base_open_def syscall_def opened_fds_def)
qed

lemma timer_set_frame:
  assumes "socket_laws S opened" "obus_timer_set S timer t w = (r, timer', w')"
  shows "opened_fds opened w' = opened_fds opened w \<and> lw_loop w' = lw_loop w \<and> lw_ofd w' = lw_ofd w \<and>
    timer' = (if isl r then timer else timer\<lparr>tm_timeout := t\<rparr>)"
proof -
  have "keeps_fds opened (sys_timerfd_settime S fd t)" for fd t
    using socket_lawsD(1) [OF assms(1)] unfolding timer_laws_def by blast
  note keeps = syscall_keeps [OF this]
  obtain r1 w1 where c: "syscall (sys_timerfd_settime S (ofd_fd (lw_ofd w (tm_ofd timer))) (it_value t)) w = (r1, w1)" by fastforce
  show ?thesis using keeps [OF c] assms(2) c by (cases r1) (auto simp: obus_timer_set_def)
qed

lemma keepalive_keeps: "socket_laws S opened \<Longrightarrow> keeps_fds opened (obus_socket_activate_keepalive S fd a b c)"
  unfolding obus_socket_activate_keepalive_def by (intro keeps_fds_chk socket_lawsD(5))

section \<open>The client\<close>

text \<open>The callback gets the same socket and timer, and a world in which only the state of the system has changed.\<close>

lemma connected_frame:
  assumes "socket_laws S opened"
  obtains c' w' where "obus_socket_client_connected S inet_ntop connected c w = connected c' w'"
    "sc_sock c' = sc_sock c" "sc_timer c' = sc_timer c" "opened_fds opened w' = opened_fds opened w"
    "lw_loop w' = lw_loop w" "lw_ofd w' = lw_ofd w"
proof -
  let ?fd = "sb_fd (sc_sock c)" and ?n = "obus_socket_addr_length (obus_socket_addr_init (sa_family (sa_st (sc_peer c))))"
  obtain r w1 where g: "syscall (sys_getsockname S ?fd ?n) w = (r, w1)" by fastforce
  obtain ra wa where k: "syscall (obus_socket_activate_keepalive S ?fd 5 1 2) w1 = (ra, wa)" by fastforce
  note f1 = syscall_keeps [OF socket_lawsD(10) [OF assms] g] and f2 = syscall_keeps [OF keepalive_keeps [OF assms] k]
  have "\<exists>local w'. obus_socket_client_connected S inet_ntop connected c w = connected (c\<lparr>sc_local := local\<rparr>) w' \<and> (w' = w1 \<or> w' = wa)"
    unfolding obus_socket_client_connected_def Let_def by (auto simp: g k)
  then obtain local w' where "obus_socket_client_connected S inet_ntop connected c w = connected (c\<lparr>sc_local := local\<rparr>) w'"
    "w' = w1 \<or> w' = wa" by blast
  then show thesis using that [of "c\<lparr>sc_local := local\<rparr>" w'] f1 f2 by auto
qed

lemma client_retry_frame:
  assumes "socket_laws S opened" "client_retry S c w = (c', w')"
  shows "sc_sock c' = (sc_sock c)\<lparr>sb_fd := -1\<rparr> \<and> opened_fds opened w' = opened_fds opened w - {sb_fd (sc_sock c)} \<and>
    lw_loop w' = lw_loop w \<and> lw_ofd w' = lw_ofd w \<and>
    (sc_timer c' = sc_timer c \<or> sc_timer c' = (sc_timer c)\<lparr>tm_timeout := OBUS_SOCKET_CONN_INTVL\<rparr>)"
proof -
  let ?w = "snd (syscall (sys_close S (sb_fd (sc_sock c))) w)"
  obtain r t w1 where set: "obus_timer_set S (sc_timer c) OBUS_SOCKET_CONN_INTVL ?w = (r, t, w1)" by (rule prod_cases3)
  have eq: "c' = c\<lparr>sc_sock := (sc_sock c)\<lparr>sb_fd := -1\<rparr>, sc_timer := t\<rparr>" "w' = w1"
    using assms(2) set by (simp_all add: client_retry_def Let_def)
  note f = timer_set_frame [OF assms(1) set] syscall_close [OF socket_lawsD(3) [OF assms(1)], of "sb_fd (sc_sock c)" w]
  show ?thesis unfolding eq using f by (cases "isl r") simp_all
qed

text \<open>The client with a new socket, and the rest of \<open>obus_socket_client_do_connect\<close> behind the call of \<open>connect\<close>.\<close>

definition with_fd :: "obus_socket_client \<Rightarrow> int \<Rightarrow> obus_socket_client" where
  "with_fd c fd = c\<lparr>sc_sock := (sc_sock c)\<lparr>sb_fd := fd\<rparr>\<rparr>"

definition connect_result ::
  "('k, 'y) socket_system_scheme \<Rightarrow> (sa_family \<Rightarrow> u8 list \<Rightarrow> u8 list option) \<Rightarrow> ('k, 'z) client_cb
    \<Rightarrow> obus_socket_client \<Rightarrow> unit res \<Rightarrow> ('k, 'z) loop_world_scheme \<Rightarrow> obus_socket_client \<times> ('k, 'z) loop_world_scheme" where
  "connect_result S inet_ntop connected c r w =
     (case r of Inr _ \<Rightarrow> obus_socket_client_connected S inet_ntop connected c w
      | Inl e \<Rightarrow> if e = EINPROGRESS then (c, snd (obus_loop_add S (loop_of w) (sb_ofd (sc_sock c)) w)) else client_retry S c w)"

lemma with_fd_simps [simp]:
  "sb_fd (sc_sock (with_fd c fd)) = fd" "sb_ofd (sc_sock (with_fd c fd)) = sb_ofd (sc_sock c)" "sc_timer (with_fd c fd) = sc_timer c"
  "sc_peer (with_fd c fd) = sc_peer c"
  by (simp_all add: with_fd_def)

lemma do_connect_cases:
  assumes laws: "socket_laws S opened"
  obtains (closed) w' where "isl (fst (open_socket S (sb_type (sc_sock c)) (lw_sys w)))"
      "obus_socket_client_do_connect S inet_ntop connected c w = (c, w')"
      "opened_fds opened w' = opened_fds opened w" "lw_loop w' = lw_loop w" "lw_ofd w' = lw_ofd w"
  | (tried) fd r w' where "obus_socket_client_do_connect S inet_ntop connected c w = connect_result S inet_ntop connected (with_fd c fd) r w'"
      "0 \<le> fd" "fd \<notin> opened_fds opened w" "opened_fds opened w' = insert fd (opened_fds opened w)" "lw_loop w' = lw_loop w"
      "lw_ofd w' = (lw_ofd w)(sb_ofd (sc_sock c) := obus_fd_init fd OBUS_FD_OUT client_events_cb 0)"
  using laws
proof (cases rule: base_open_cases [where sock = "sc_sock c" and w = w])
  case (err e w')
  have "isl (fst (open_socket S (sb_type (sc_sock c)) (lw_sys w)))"
    using err(1) by (auto simp: obus_socket_base_open_def syscall_def split: prod.splits sum.splits)
  then show thesis using err by (intro closed [of w']) (simp_all add: obus_socket_client_do_connect_def)
next
  case (ok fd w1)
  let ?w = "set_ofd (sb_ofd (sc_sock c)) (obus_fd_init fd OBUS_FD_OUT client_events_cb 0) w1"
  obtain r w2 where conn: "syscall (sys_connect S fd (sa_st (sc_peer c)) (obus_socket_addr_length (sc_peer c))) ?w = (r, w2)" by fastforce
  note k = syscall_keeps [OF socket_lawsD(9) [OF laws] conn]
  have "obus_socket_client_do_connect S inet_ntop connected c w = connect_result S inet_ntop connected (with_fd c fd) r w2"
    using ok conn by (cases r) (simp_all add: obus_socket_client_do_connect_def connect_result_def with_fd_def Let_def)
  then show thesis using ok k by (intro tried [of fd r w2]) simp_all
qed

text \<open>However an attempt ends, it closes no descriptor but its own, and the client is left with its own or with none.\<close>

lemma connect_result_opened:
  assumes laws: "socket_laws S opened"
    and user: "\<forall>c w. sc_sock (fst (connected c w)) = sc_sock c \<and> opened_fds opened w \<subseteq> opened_fds opened (snd (connected c w))"
    and dup: "ofd_dupfd (lw_ofd w (sb_ofd (sc_sock c))) = -1"
    and res: "connect_result S inet_ntop connected c r w = (c', w')"
  shows "opened_fds opened w - {sb_fd (sc_sock c)} \<subseteq> opened_fds opened w' \<and> sb_fd (sc_sock c') \<in> {sb_fd (sc_sock c), -1}"
proof -
  consider (up) u where "r = Inr u" | (wait) "r = Inl EINPROGRESS" | (fail) e where "r = Inl e" "e \<noteq> EINPROGRESS"
    by (cases r) auto
  then show ?thesis
  proof cases
    case up
    from laws obtain c1 w1 where "obus_socket_client_connected S inet_ntop connected c w = connected c1 w1"
      "sc_sock c1 = sc_sock c" "opened_fds opened w1 = opened_fds opened w"
      by (rule connected_frame)
    then show ?thesis using res up user [rule_format, of c1 w1] by (auto simp: connect_result_def)
  next
    case wait
    obtain ra wa where add: "obus_loop_add S (loop_of w) (sb_ofd (sc_sock c)) w = (ra, wa)" by fastforce
    from loop_add_opened [OF socket_lawsD(2) [OF laws] dup add] have "opened_fds opened w \<subseteq> opened_fds opened wa" by (cases ra) auto
    then show ?thesis using res wait add by (auto simp: connect_result_def)
  next
    case fail
    then have "client_retry S c w = (c', w')" using res by (simp add: connect_result_def)
    from client_retry_frame [OF laws this] show ?thesis by auto
  qed
qed

lemma reconnect_opens:
  assumes laws: "socket_laws S opened" and re: "obus_socket_client_reconnect S c w = (Inr (), c1, w1)"
  shows "0 \<le> sb_fd (sc_sock c1) \<and> sb_fd (sc_sock c1) \<in> opened_fds opened w1"
proof -
  obtain r0 t0 wc where clear: "obus_timer_clear S (sc_timer c) w = (r0, t0, wc)" by (rule prod_cases3)
  obtain sock wb where close: "obus_socket_base_close S (sc_sock c) wc = (sock, wb)" by fastforce
  from laws show ?thesis
  proof (cases rule: base_open_cases [where sock = sock and w = wb])
    case (ok fd wo)
    let ?w = "set_ofd (sb_ofd sock) (obus_fd_init fd OBUS_FD_OUT client_events_cb 0) wo"
    obtain r t w' where set: "obus_timer_set S t0 OBUS_SOCKET_CONN_INTVL ?w = (r, t, w')" by (rule prod_cases3)
    have "c1 = c\<lparr>sc_sock := sock\<lparr>sb_fd := fd\<rparr>, sc_timer := t\<rparr>" "w1 = w'"
      using re clear close ok(1) set by (simp_all add: obus_socket_client_reconnect_def)
    then show ?thesis using ok(2,4) timer_set_frame [OF laws set] by (simp add: opened_fds_def)
  qed (use re clear close in \<open>simp add: obus_socket_client_reconnect_def Let_def\<close>)
qed

text \<open>
  C40. A reconnection loses a descriptor: \<open>obus_socket_client_reconnect\<close> opens a socket and sets the timer, and when the timer expires
  \<open>obus_socket_client_do_connect\<close> opens another one over it. However the connection goes on, the first descriptor stays open and the
  client does not know it any more.
\<close>

theorem reconnect_leaks:
  assumes laws: "socket_laws S opened"
    and user: "\<forall>c w. sc_sock (fst (connected c w)) = sc_sock c \<and> opened_fds opened w \<subseteq> opened_fds opened (snd (connected c w))"
    and re: "obus_socket_client_reconnect S c w = (Inr (), c1, w1)"
    and fire: "obus_socket_connect_timer_cb S inet_ntop connected c1 w1 = (c2, w2)"
    and again: "\<forall>k. \<not> isl (fst (open_socket S (sb_type (sc_sock c1)) k))"
  shows "sb_fd (sc_sock c1) \<in> opened_fds opened w2 \<and> sb_fd (sc_sock c2) \<noteq> sb_fd (sc_sock c1)"
proof -
  note first = reconnect_opens [OF laws re]
  obtain r t wt where clear: "obus_timer_clear S (sc_timer c1) w1 = (r, t, wt)" by (rule prod_cases3)
  have wt: "opened_fds opened wt = opened_fds opened w1"
    using timer_set_frame [OF laws clear [unfolded obus_timer_clear_def]] by simp
  let ?c = "c1\<lparr>sc_timer := t\<rparr>"
  have go: "obus_socket_client_do_connect S inet_ntop connected ?c wt = (c2, w2)"
    using fire clear by (simp add: obus_socket_connect_timer_cb_def)
  from laws show ?thesis
  proof (cases rule: do_connect_cases [where c = ?c and w = wt and inet_ntop = inet_ntop and connected = connected])
    case closed
    then show ?thesis using again by simp
  next
    case (tried fd rc w')
    then have "connect_result S inet_ntop connected (with_fd ?c fd) rc w' = (c2, w2)" using go by simp
    from connect_result_opened [OF laws user _ this] tried show ?thesis
      using first wt by (auto simp: obus_fd_init_def)
  qed
qed

section \<open>The client never stalls\<close>

text \<open>Calls that do not fail: those that open a socket, set a timer, and register or remove a descriptor.\<close>

definition reliable :: "('k, 'z) socket_system_scheme \<Rightarrow> bool" where
  "reliable S \<longleftrightarrow>
     (\<forall>t k. \<not> isl (fst (open_socket S t k))) \<and> (\<forall>fd t k. \<not> isl (fst (sys_timerfd_settime S fd t k))) \<and>
     (\<forall>epfd fd ev k. \<not> isl (fst (sys_epoll_ctl S epfd EPOLL_CTL_ADD fd ev k)) \<and> \<not> isl (fst (sys_epoll_ctl S epfd EPOLL_CTL_DEL fd ev k)))"

text \<open>A user that notes the connection in its data.\<close>

definition notify :: "obus_socket_client \<Rightarrow> ('k, 'z) loop_world_scheme \<Rightarrow> obus_socket_client \<times> ('k, 'z) loop_world_scheme" where
  "notify c w = (c\<lparr>sc_data := 1\<rparr>, w)"

definition armed :: "obus_socket_client \<Rightarrow> bool" where
  "armed c \<longleftrightarrow> 0 < tm_timeout (sc_timer c)"

definition client_inv :: "obus_socket_client \<Rightarrow> ('k, 'z) loop_world_scheme \<Rightarrow> bool" where
  "client_inv c w \<longleftrightarrow>
     (let p = sb_ofd (sc_sock c) in
      loop_of w \<noteq> 0 \<and> p \<noteq> 0 \<and> distinct (loop_ofds (lw_loop w)) \<and> (ofd_loop (lw_ofd w p) \<noteq> 0 \<longleftrightarrow> p \<in> loop_registered w) \<and>
      (p \<in> loop_registered w \<longrightarrow> \<not> armed c) \<and> (armed c \<or> p \<in> loop_registered w \<or> sc_data c = 1))"

text \<open>
  What happens to a client: its timer expires, its descriptor is ready while it is registered, or the user asks for another
  connection, for which it forgets the last one.
\<close>

inductive connect_step ::
  "('k, 'y) socket_system_scheme \<Rightarrow> (sa_family \<Rightarrow> u8 list \<Rightarrow> u8 list option)
    \<Rightarrow> obus_socket_client \<times> ('k, 'z) loop_world_scheme \<Rightarrow> obus_socket_client \<times> ('k, 'z) loop_world_scheme \<Rightarrow> bool"
  for S inet_ntop where
  expire: "armed c \<Longrightarrow> connect_step S inet_ntop (c, w) (obus_socket_connect_timer_cb S inet_ntop notify c w)"
| ready: "sb_ofd (sc_sock c) \<in> loop_registered w \<Longrightarrow>
    connect_step S inet_ntop (c, w) (obus_socket_client_events S inet_ntop notify events c w)"
| again: "obus_socket_client_reconnect S c w = (Inr (), c', w') \<Longrightarrow> connect_step S inet_ntop (c, w) (c'\<lparr>sc_data := 0\<rparr>, w')"

inductive_cases connect_stepE: "connect_step S inet_ntop (c, w) s"

lemma reliable_add:
  assumes "reliable S" "loop \<noteq> 0" "p \<noteq> 0" "p \<notin> loop_registered w" "lw_ofd w p = obus_fd_init fd events cb data"
    "0 \<le> fd" "events \<noteq> 0" "cb \<noteq> 0"
  obtains w' where "obus_loop_add S loop p w = (Inr (), w')" "loop_ofds (lw_loop w') = loop_ofds (lw_loop w) @ [p]"
    "loop_of w' = loop_of w" "ofd_loop (lw_ofd w' p) = loop"
proof -
  let ?ctl = "sys_epoll_ctl S (loop_epfd (lw_loop w)) EPOLL_CTL_ADD fd (Some (fd_to_epoll_events events, p)) (lw_sys w)"
  have "\<not> isl (fst ?ctl)" using assms(1) unfolding reliable_def by blast
  then obtain k where "?ctl = (Inr (), k)" by (cases ?ctl; cases "fst ?ctl") auto
  then show thesis using assms(2-) that
    by (auto simp: obus_loop_add_def Let_def syscall_def obus_fd_init_def loop_registered_def loop_of_def)
qed

lemma reliable_remove:
  assumes "reliable S" "loop \<noteq> 0" "p \<noteq> 0" "p \<in> loop_registered w" "distinct (loop_ofds (lw_loop w))"
  obtains w' where "obus_loop_remove S loop p w = (Inr (), w')" "loop_ofds (lw_loop w') = remove1 p (loop_ofds (lw_loop w))"
    "p \<notin> loop_registered w'" "loop_of w' = loop_of w" "ofd_loop (lw_ofd w' p) = 0"
proof -
  let ?ctl = "sys_epoll_ctl S (loop_epfd (lw_loop w)) EPOLL_CTL_DEL (reg_fd (lw_ofd w p)) None (lw_sys w)"
  have "\<not> isl (fst ?ctl)" using assms(1) unfolding reliable_def by blast
  then obtain k where c: "?ctl = (Inr (), k)" by (cases ?ctl; cases "fst ?ctl") auto
  obtain rc kc where cl: "sys_close S (ofd_dupfd (lw_ofd w p)) k = (rc, kc)" by fastforce
  obtain w' where "obus_loop_remove S loop p w = (Inr (), w')" "loop_ofds (lw_loop w') = remove1 p (loop_ofds (lw_loop w))"
    "loop_of w' = loop_of w" "ofd_loop (lw_ofd w' p) = 0"
    using assms(2-) c cl
    by (cases "ofd_dupfd (lw_ofd w p) = -1") (auto simp: obus_loop_remove_def Let_def syscall_def loop_registered_def loop_of_def)
  then show thesis using that assms(5) by (simp add: loop_registered_def set_remove1_eq)
qed

lemma reliable_timer:
  assumes "reliable S"
  obtains k where "obus_timer_set S timer t w = (Inr (), timer\<lparr>tm_timeout := t\<rparr>, set_sys k w)"
proof -
  let ?set = "sys_timerfd_settime S (ofd_fd (lw_ofd w (tm_ofd timer))) (it_value t) (lw_sys w)"
  have "\<not> isl (fst ?set)" using assms unfolding reliable_def by blast
  then obtain k where "?set = (Inr (), k)" by (cases ?set; cases "fst ?set") auto
  then show thesis using that by (simp add: obus_timer_set_def syscall_def)
qed

lemma retry_armed:
  assumes "reliable S" "client_retry S c w = (c', w')"
  shows "armed c' \<and> lw_loop w' = lw_loop w \<and> lw_ofd w' = lw_ofd w \<and> sb_ofd (sc_sock c') = sb_ofd (sc_sock c)"
proof -
  obtain r k where cl: "sys_close S (sb_fd (sc_sock c)) (lw_sys w) = (r, k)" by fastforce
  obtain k2 where set: "obus_timer_set S (sc_timer c) OBUS_SOCKET_CONN_INTVL (set_sys k w) =
      (Inr (), (sc_timer c)\<lparr>tm_timeout := OBUS_SOCKET_CONN_INTVL\<rparr>, set_sys k2 (set_sys k w))"
    using reliable_timer [OF assms(1)] by blast
  show ?thesis using assms(2) cl set by (auto simp: client_retry_def syscall_def Let_def armed_def OBUS_SOCKET_CONN_INTVL_def)
qed

text \<open>Both ways in which an attempt ends keep the invariant, when the client is neither armed nor registered before.\<close>

lemma outcome_inv:
  assumes laws: "socket_laws S opened" "reliable S"
    and w: "loop_of w \<noteq> 0" "sb_ofd (sc_sock c) \<noteq> 0" "distinct (loop_ofds (lw_loop w))" "ofd_loop (lw_ofd w (sb_ofd (sc_sock c))) = 0"
      "sb_ofd (sc_sock c) \<notin> loop_registered w"
  shows "obus_socket_client_connected S inet_ntop notify c w = (c', w') \<Longrightarrow> client_inv c' w'"
    and "client_retry S c w = (c', w') \<Longrightarrow> client_inv c' w'"
proof -
  assume con: "obus_socket_client_connected S inet_ntop notify c w = (c', w')"
  from laws(1) obtain c1 w1 where "obus_socket_client_connected S inet_ntop notify c w = notify c1 w1"
    "sc_sock c1 = sc_sock c" "lw_loop w1 = lw_loop w" "lw_ofd w1 = lw_ofd w"
    by (rule connected_frame)
  then show "client_inv c' w'"
    using w con by (auto simp: client_inv_def Let_def notify_def loop_of_def loop_registered_def)
next
  assume "client_retry S c w = (c', w')"
  from retry_armed [OF laws(2) this] show "client_inv c' w'"
    using w by (simp add: client_inv_def Let_def loop_of_def loop_registered_def)
qed

lemma expire_inv:
  assumes laws: "socket_laws S opened" "reliable S" and inv: "client_inv c w" "armed c"
    and step: "obus_socket_connect_timer_cb S inet_ntop notify c w = (c', w')"
  shows "client_inv c' w'"
proof -
  obtain k where clear: "obus_timer_set S (sc_timer c) 0 w = (Inr (), (sc_timer c)\<lparr>tm_timeout := 0\<rparr>, set_sys k w)"
    using reliable_timer [OF laws(2)] by blast
  let ?c = "c\<lparr>sc_timer := (sc_timer c)\<lparr>tm_timeout := 0\<rparr>\<rparr>" and ?w = "set_sys k w" and ?p = "sb_ofd (sc_sock c)"
  have go: "obus_socket_client_do_connect S inet_ntop notify ?c ?w = (c', w')"
    using step clear by (simp add: obus_socket_connect_timer_cb_def obus_timer_clear_def)
  have w: "loop_of w \<noteq> 0" "?p \<noteq> 0" "distinct (loop_ofds (lw_loop w))" "?p \<notin> loop_registered w" "ofd_loop (lw_ofd w ?p) = 0"
    using inv by (auto simp: client_inv_def Let_def)
  from laws(1) show ?thesis
  proof (cases rule: do_connect_cases [where c = ?c and w = ?w and inet_ntop = inet_ntop and connected = notify])
    case closed
    then show ?thesis using laws(2) unfolding reliable_def by blast
  next
    case (tried fd r w1)
    let ?c1 = "with_fd ?c fd"
    have w1: "loop_of w1 \<noteq> 0" "distinct (loop_ofds (lw_loop w1))" "?p \<notin> loop_registered w1" "ofd_loop (lw_ofd w1 ?p) = 0"
      "lw_ofd w1 ?p = obus_fd_init fd OBUS_FD_OUT client_events_cb 0"
      using w tried by (simp_all add: loop_of_def loop_registered_def obus_fd_init_def)
    have res: "connect_result S inet_ntop notify ?c1 r w1 = (c', w')" using go tried by simp
    consider (up) u where "r = Inr u" | (wait) "r = Inl EINPROGRESS" | (fail) e where "r = Inl e" "e \<noteq> EINPROGRESS"
      by (cases r) auto
    then show ?thesis
    proof cases
      case wait
      from laws(2) obtain w2 where "obus_loop_add S (loop_of w1) ?p w1 = (Inr (), w2)"
        "loop_ofds (lw_loop w2) = loop_ofds (lw_loop w1) @ [?p]" "loop_of w2 = loop_of w1" "ofd_loop (lw_ofd w2 ?p) = loop_of w1"
        by (rule reliable_add [OF _ w1(1) w(2) w1(3,5)]) (simp_all add: tried fd_flags client_events_cb_def)
      then show ?thesis
        using res wait w w1 by (auto simp: connect_result_def client_inv_def Let_def armed_def loop_registered_def)
    next
      case (up u)
      then have "obus_socket_client_connected S inet_ntop notify ?c1 w1 = (c', w')" using res by (simp add: connect_result_def)
      then show ?thesis using outcome_inv(1) [OF laws w1(1) _ w1(2), of ?c1] w(2) w1(3,4) by simp
    next
      case (fail e)
      then have "client_retry S ?c1 w1 = (c', w')" using res by (simp add: connect_result_def)
      then show ?thesis using outcome_inv(2) [OF laws w1(1) _ w1(2), of ?c1] w(2) w1(3,4) by simp
    qed
  qed
qed

lemma ready_inv:
  assumes laws: "socket_laws S opened" "reliable S" and inv: "client_inv c w" "sb_ofd (sc_sock c) \<in> loop_registered w"
    and step: "obus_socket_client_events S inet_ntop notify events c w = (c', w')"
  shows "client_inv c' w'"
proof -
  let ?p = "sb_ofd (sc_sock c)"
  have w: "loop_of w \<noteq> 0" "?p \<noteq> 0" "distinct (loop_ofds (lw_loop w))" using inv by (simp_all add: client_inv_def Let_def)
  from laws(2) obtain w1 where rem: "obus_loop_remove S (loop_of w) ?p w = (Inr (), w1)"
    "loop_ofds (lw_loop w1) = remove1 ?p (loop_ofds (lw_loop w))" "?p \<notin> loop_registered w1" "loop_of w1 = loop_of w"
    "ofd_loop (lw_ofd w1 ?p) = 0"
    by (rule reliable_remove [OF _ w(1,2) inv(2) w(3)])
  obtain r k where so: "sys_so_error S (sb_fd (sc_sock c)) (lw_sys w1) = (r, k)" by fastforce
  have d: "distinct (loop_ofds (lw_loop w1))" using w(3) rem(2) by simp
  have frame: "loop_of (set_sys k w1) = loop_of w1" "loop_registered (set_sys k w1) = loop_registered w1"
    by (simp_all add: loop_of_def loop_registered_def)
  have "(c', w') = obus_socket_client_connected S inet_ntop notify c w2 \<or> (c', w') = client_retry S c w2"
    if "w2 = (if obus_fd_event_error events then w1 else set_sys k w1)" for w2
    using step rem(1) so that by (cases r) (auto simp: obus_socket_client_events_def Let_def syscall_def split: if_splits)
  then show ?thesis
    using outcome_inv [OF laws, of "if obus_fd_event_error events then w1 else set_sys k w1" c] w rem d frame by (auto split: if_splits)
qed

lemma syscall_frame: "lw_loop (snd (syscall call w)) = lw_loop w" "lw_ofd (snd (syscall call w)) = lw_ofd w"
  by (simp_all add: syscall_def split: prod.split)

lemma base_close_frame:
  assumes "reliable S" "loop_of w \<noteq> 0" "sb_ofd sock \<noteq> 0" "distinct (loop_ofds (lw_loop w))"
    "ofd_loop (lw_ofd w (sb_ofd sock)) \<noteq> 0 \<longleftrightarrow> sb_ofd sock \<in> loop_registered w"
    "obus_socket_base_close S sock w = (sock', w')"
  shows "sock' = sock\<lparr>sb_fd := -1\<rparr> \<and> loop_of w' = loop_of w \<and> distinct (loop_ofds (lw_loop w')) \<and>
    sb_ofd sock \<notin> loop_registered w' \<and> ofd_loop (lw_ofd w' (sb_ofd sock)) = 0"
proof -
  let ?p = "sb_ofd sock"
  define w1 where "w1 = (if obus_fd_is_used (lw_ofd w ?p) then snd (obus_loop_remove S (loop_of w) ?p w) else w)"
  have w1: "loop_of w1 = loop_of w \<and> distinct (loop_ofds (lw_loop w1)) \<and> ?p \<notin> loop_registered w1 \<and> ofd_loop (lw_ofd w1 ?p) = 0"
  proof (cases "?p \<in> loop_registered w")
    case True
    from assms(1) obtain w2 where "obus_loop_remove S (loop_of w) ?p w = (Inr (), w2)"
      "loop_ofds (lw_loop w2) = remove1 ?p (loop_ofds (lw_loop w))" "?p \<notin> loop_registered w2" "loop_of w2 = loop_of w"
      "ofd_loop (lw_ofd w2 ?p) = 0"
      by (rule reliable_remove [OF _ assms(2,3) True assms(4)])
    then show ?thesis using True assms(4,5) by (simp add: w1_def obus_fd_is_used_def)
  next
    case False
    then show ?thesis using assms(4,5) by (simp add: w1_def obus_fd_is_used_def)
  qed
  define w2 where "w2 = (if sb_fd sock \<noteq> -1
      then snd (syscall (sys_close S (sb_fd sock)) (snd (syscall (sys_shutdown S (sb_fd sock)) w1))) else w1)"
  have w2: "lw_loop w2 = lw_loop w1" "lw_ofd w2 = lw_ofd w1" by (simp_all add: w2_def syscall_frame)
  have "sock' = sock\<lparr>sb_fd := -1\<rparr>" "w' = set_ofd ?p (snd (obus_fd_reset (lw_ofd w2 ?p))) w2"
    using assms(6) unfolding obus_socket_base_close_def Let_def w1_def [symmetric] w2_def [symmetric] by auto
  then show ?thesis using w1 w2 by (simp add: obus_fd_reset_def obus_fd_init_def loop_of_def loop_registered_def)
qed

lemma again_inv:
  assumes laws: "socket_laws S opened" "reliable S" and inv: "client_inv c w"
    and step: "obus_socket_client_reconnect S c w = (Inr (), c', w')"
  shows "client_inv (c'\<lparr>sc_data := 0\<rparr>) w'"
proof -
  let ?p = "sb_ofd (sc_sock c)" and ?t = "(sc_timer c)\<lparr>tm_timeout := 0\<rparr>"
  obtain k where clear: "obus_timer_clear S (sc_timer c) w = (Inr (), ?t, set_sys k w)"
    using reliable_timer [OF laws(2)] unfolding obus_timer_clear_def by blast
  obtain sock w1 where close: "obus_socket_base_close S (sc_sock c) (set_sys k w) = (sock, w1)" by fastforce
  have "sock = (sc_sock c)\<lparr>sb_fd := -1\<rparr> \<and> loop_of w1 = loop_of (set_sys k w) \<and> distinct (loop_ofds (lw_loop w1)) \<and>
      ?p \<notin> loop_registered w1 \<and> ofd_loop (lw_ofd w1 ?p) = 0"
    by (rule base_close_frame [OF laws(2) _ _ _ _ close])
      (use inv in \<open>simp_all add: client_inv_def Let_def loop_of_def loop_registered_def\<close>)
  note closed = this
  from laws(1) show ?thesis
  proof (cases rule: base_open_cases [where sock = sock and w = w1])
    case (err e w2)
    then show ?thesis using step clear close by (simp add: obus_socket_client_reconnect_def Let_def)
  next
    case (ok fd w2)
    let ?w = "set_ofd ?p (obus_fd_init fd OBUS_FD_OUT client_events_cb 0) w2"
    obtain k2 where set: "obus_timer_set S ?t OBUS_SOCKET_CONN_INTVL ?w =
        (Inr (), ?t\<lparr>tm_timeout := OBUS_SOCKET_CONN_INTVL\<rparr>, set_sys k2 ?w)"
      using reliable_timer [OF laws(2)] by blast
    show ?thesis using step clear close closed ok set inv
      by (auto simp: obus_socket_client_reconnect_def Let_def client_inv_def armed_def OBUS_SOCKET_CONN_INTVL_def
          loop_of_def loop_registered_def obus_fd_init_def)
  qed
qed

text \<open>
  C22. A client never stalls: as long as opening a socket, setting a timer and registering a descriptor do not fail, whatever \<open>connect\<close>,
  \<open>SO_ERROR\<close> and the events of the descriptor say and whenever the user reconnects, the client always has its retry timer set, or its
  descriptor registered in the loop, or has told the user that it is connected; and it is never registered while the timer is set.
\<close>

theorem client_never_stalls:
  assumes "socket_laws S opened" "reliable S" "client_inv c w" "(connect_step S inet_ntop)\<^sup>*\<^sup>* (c, w) (c', w')"
  shows "client_inv c' w'"
  using assms(4,3)
proof (induction "(c', w')" arbitrary: c' w' rule: rtranclp_induct)
  case (step s)
  obtain c1 w1 where s: "s = (c1, w1)" by fastforce
  then have inv: "client_inv c1 w1" using step by blast
  note keeps = expire_inv [OF assms(1,2) inv] ready_inv [OF assms(1,2) inv] again_inv [OF assms(1,2) inv]
  from step(2) [unfolded s] show ?case
    by (rule connect_stepE) (use keeps in \<open>auto dest: sym\<close>)
qed simp

text \<open>If the socket cannot be opened when the timer expires, nothing is set any more and nothing will happen.\<close>

lemma open_failure_stalls:
  assumes "socket_laws S opened" "obus_timer_clear S (sc_timer c) w = (Inr (), t, w1)"
    "isl (fst (open_socket S (sb_type (sc_sock c)) (lw_sys w1)))" "obus_socket_connect_timer_cb S inet_ntop connected c w = (c', w')"
  shows "\<not> armed c' \<and> loop_registered w' = loop_registered w"
proof -
  note f = timer_set_frame [OF assms(1) assms(2) [unfolded obus_timer_clear_def]]
  from assms(1) show ?thesis
  proof (cases rule: base_open_cases [where sock = "sc_sock c" and w = w1])
    case (err e w2)
    then show ?thesis using assms(2,4) f
      by (auto simp: obus_socket_connect_timer_cb_def obus_socket_client_do_connect_def armed_def loop_registered_def)
  next
    case (ok fd w2)
    then show ?thesis using assms(3) by (auto simp: obus_socket_base_open_def syscall_def split: prod.splits sum.splits)
  qed
qed

lemma add_success_frame:
  assumes "obus_loop_add S loop p w = (Inr (), w')"
  shows "loop_ofds (lw_loop w') = loop_ofds (lw_loop w) @ [p] \<and> p \<notin> loop_registered w \<and> loop_of w' = loop_of w \<and>
    (\<forall>q. q \<noteq> p \<longrightarrow> lw_ofd w' q = lw_ofd w q)"
proof -
  let ?ofd = "lw_ofd w p" and ?epfd = "loop_epfd (lw_loop w)"
  let ?evt = "Some (fd_to_epoll_events (ofd_events ?ofd), p)"
  have valid: "\<not> (loop = 0 \<or> p = 0 \<or> ofd_fd ?ofd < 0 \<or> ofd_events ?ofd = 0 \<or> ofd_cb ?ofd = 0 \<or> ofd_loop ?ofd \<noteq> 0 \<or>
      p \<in> set (loop_ofds (lw_loop w)))"
    using assms by (auto simp: obus_loop_add_def Let_def split: if_splits)
  obtain r1 k1 where c1: "sys_epoll_ctl S ?epfd EPOLL_CTL_ADD (ofd_fd ?ofd) ?evt (lw_sys w) = (r1, k1)" by fastforce
  obtain r2 k2 where c2: "obus_fd_dup S (ofd_fd ?ofd) k1 = (r2, k2)" by fastforce
  show ?thesis
  proof (cases "r1 = Inl EEXIST")
    case True
    then obtain n where n: "r2 = Inr n" using assms valid c1 c2 by (cases r2) (auto simp: obus_loop_add_def Let_def syscall_def)
    obtain r3 k3 where c3: "sys_epoll_ctl S ?epfd EPOLL_CTL_ADD n ?evt k2 = (r3, k3)" by fastforce
    show ?thesis using assms valid c1 True c2 n c3
      by (cases r3) (auto simp: obus_loop_add_def Let_def syscall_def loop_registered_def loop_of_def)
  next
    case False
    then show ?thesis using assms valid c1
      by (cases r1) (auto simp: obus_loop_add_def Let_def syscall_def loop_registered_def loop_of_def)
  qed
qed

text \<open>A client that has just been made satisfies the invariant: its first attempt is due in 10 ms.\<close>

lemma client_new_inv:
  assumes laws: "socket_laws S opened" and new: "obus_socket_client_new S alloc inet_pton p pt loop addr cb data w = (Inr (Some c), w')"
    and w: "loop_of w \<noteq> 0" "distinct (loop_ofds (lw_loop w))" "p \<notin> loop_registered w" "p \<noteq> pt"
  shows "client_inv c w' \<and> armed c"
proof -
  let ?w1 = "set_ofd p (obus_fd_init (-1) 0 0 0) (obus_loop_ref w)"
  obtain peer where peer: "obus_socket_addr_init_from_string alloc inet_pton addr = Inr peer" and valid: "loop \<noteq> 0" "cb \<noteq> 0" "p \<noteq> 0" "addr \<noteq> None"
    using new by (auto simp: obus_socket_client_new_def split: if_splits sum.splits)
  obtain tm w2 where timer: "obus_timer_new S pt loop connect_timer_cb 0 ?w1 = (tm, w2)" by fastforce
  obtain t where t: "tm = Some t"
    using new valid peer timer by (cases tm) (auto simp: obus_socket_client_new_def obus_socket_base_init_def)
  obtain r t' w3 where set: "obus_timer_set S t 10 w2 = (r, t', w3)" by (rule prod_cases3)
  note f = timer_set_frame [OF laws set]
  have res: "\<not> isl r" "w' = w3" "sb_ofd (sc_sock c) = p" "sc_timer c = t\<lparr>tm_timeout := 10\<rparr>"
    using new valid peer timer t set f by (cases r; auto simp: obus_socket_client_new_def obus_socket_base_init_def)+
  obtain r0 k where create: "sys_timerfd_create S (lw_sys (obus_loop_ref ?w1)) = (r0, k)" by fastforce
  obtain tfd where tfd: "r0 = Inr tfd"
    using timer t create valid by (cases r0) (auto simp: obus_timer_new_def syscall_def Let_def split: if_splits)
  let ?w4 = "set_ofd pt (obus_fd_init tfd OBUS_FD_IN timer_events_cb pt) (set_sys k (obus_loop_ref ?w1))"
  have add: "obus_loop_add S loop pt ?w4 = (Inr (), w2)"
    using timer t create tfd valid
    by (cases "obus_loop_add S loop pt ?w4"; cases "fst (obus_loop_add S loop pt ?w4)")
      (auto simp: obus_timer_new_def syscall_def Let_def connect_timer_cb_def split: if_splits)
  note a = add_success_frame [OF add]
  have "lw_ofd w2 p = obus_fd_init (-1) 0 0 0" using a w(4) by simp
  moreover have "loop_of ?w4 = loop_of w" "loop_ofds (lw_loop ?w4) = loop_ofds (lw_loop w)" by (simp_all add: loop_of_def obus_loop_ref_def)
  ultimately show ?thesis using a f w valid res
    by (auto simp: client_inv_def Let_def armed_def loop_of_def loop_registered_def obus_fd_init_def)
qed

section \<open>Examples\<close>

text \<open>A system in which a connection takes its time and everything else works.\<close>

definition small_socket_system :: "small_system socket_system" where
  "small_socket_system =
     \<lparr>sys_getfd = \<lambda>_ k. (Inr 0, k), sys_setfd = \<lambda>_ _ k. (Inr (), k), sys_getfl = \<lambda>_ k. (Inr 0, k), sys_setfl = \<lambda>_ _ k. (Inr (), k),
      sys_dup = \<lambda>_. ss_new, sys_close = ss_close, sys_epoll_create = ss_new, sys_epoll_ctl = \<lambda>_ _ _ _ k. (Inr (), k),
      sys_epoll_wait = ss_wait, sys_ep_realloc = \<lambda>_ k. (Inr (\<lambda>_. (0, 0)), k), sys_timerfd_create = ss_new,
      sys_timerfd_settime = \<lambda>_ _ k. (Inr (), k), sys_timerfd_read = \<lambda>_ k. (Inr 1, k), sys_socket = \<lambda>_. ss_new,
      sys_setsockopt = \<lambda>_ _ _ k. (Inr (), k), sys_shutdown = \<lambda>_ k. (Inr (), k), sys_bind = \<lambda>_ _ _ k. (Inr (), k),
      sys_listen = \<lambda>_ _ k. (Inr (), k),
      sys_accept = \<lambda>_ _ k. (Inr (ss_fresh k, sa_st (obus_socket_addr_init AF_UNIX), 2), k\<lparr>ss_open := ss_fresh k # ss_open k\<rparr>),
      sys_connect = \<lambda>_ _ _ k. (Inl EINPROGRESS, k), sys_getsockname = \<lambda>_ _ k. (Inr (sa_st (obus_socket_addr_init AF_UNIX)), k),
      sys_so_error = \<lambda>_ k. (Inr 0, k), sys_peercred = \<lambda>_ k. (Inr 42, k), sys_unlink = \<lambda>_ k. (Inr (), k), sys_mkdir = \<lambda>_ k. (Inr (), k)\<rparr>"

lemma small_open: "open_socket small_socket_system t k = ss_new k"
  by (simp add: open_socket_def small_socket_system_def ss_new_def obus_fd_set_close_on_exec_def obus_fd_add_flags_def)

lemma small_reliable: "reliable small_socket_system"
proof -
  have "\<not> isl (fst (sys_timerfd_settime small_socket_system fd t k))" for fd t k by (simp add: small_socket_system_def)
  moreover have "\<not> isl (fst (sys_epoll_ctl small_socket_system epfd op fd ev k))" for epfd op fd ev k by (simp add: small_socket_system_def)
  moreover have "\<not> isl (fst (open_socket small_socket_system t k))" for t k by (simp add: small_open ss_new_def)
  ultimately show ?thesis unfolding reliable_def by blast
qed

lemma small_socket_laws: "socket_laws small_socket_system ss_opened"
  using ss_fresh_new
  by (simp add: socket_laws_def timer_laws_def loop_fd_laws_def fd_laws_def small_socket_system_def keeps_fds_def adds_fd_def ss_new_def
      ss_close_def)

definition sample_client :: obus_socket_client where
  "sample_client =
     \<lparr>sc_sock = \<lparr>sb_ofd = 30, sb_fd = -1, sb_type = AF_UNIX, sb_role = OBUS_SOCKET_CLIENT\<rparr>, sc_local = obus_socket_addr_init AF_UNSPEC,
      sc_peer = obus_socket_addr_init AF_UNIX, sc_timer = \<lparr>tm_ofd = 40, tm_timeout = 10, tm_cb = connect_timer_cb, tm_data = 0\<rparr>,
      sc_cb = 9, sc_data = 0\<rparr>"

lemma sample_client_inv: "client_inv sample_client sample_world"
  by (simp add: client_inv_def sample_client_def sample_world_def sample_ofd_def obus_fd_init_def armed_def loop_of_def loop_registered_def)

theorem client_never_stalls_witness:
  "let s = obus_socket_connect_timer_cb small_socket_system (\<lambda>_ _. None) notify sample_client sample_world in client_inv (fst s) (snd s)"
proof -
  let ?s = "obus_socket_connect_timer_cb small_socket_system (\<lambda>_ _. None) notify sample_client sample_world"
  have "armed sample_client" by (simp add: armed_def sample_client_def)
  then have "connect_step small_socket_system (\<lambda>_ _. None) (sample_client, sample_world) ?s" by (rule expire)
  then have "(connect_step small_socket_system (\<lambda>_ _. None))\<^sup>*\<^sup>* (sample_client, sample_world) (fst ?s, snd ?s)" by simp
  from client_never_stalls [OF small_socket_laws small_reliable sample_client_inv this] show ?thesis by (simp add: Let_def)
qed

definition sample_reconnect :: "unit res \<times> obus_socket_client \<times> small_system loop_world" where
  "sample_reconnect = obus_socket_client_reconnect small_socket_system sample_client sample_world"

lemma sample_reconnect_ok: "sample_reconnect = (Inr (), fst (snd sample_reconnect), snd (snd sample_reconnect))"
proof -
  have "fst sample_reconnect = Inr ()"
    by (simp add: sample_reconnect_def obus_socket_client_reconnect_def obus_timer_clear_def obus_timer_set_def syscall_def
        obus_socket_base_close_def obus_socket_base_open_def small_open ss_new_def Let_def
        split: prod.split)
  then show ?thesis by (simp add: prod_eq_iff)
qed

theorem reconnect_leaks_witness:
  "let c = fst (snd sample_reconnect);
       s = obus_socket_connect_timer_cb small_socket_system (\<lambda>_ _. None) notify c (snd (snd sample_reconnect))
   in sb_fd (sc_sock c) \<in> opened_fds ss_opened (snd s) \<and> sb_fd (sc_sock (fst s)) \<noteq> sb_fd (sc_sock c)"
proof -
  let ?s = "obus_socket_connect_timer_cb small_socket_system (\<lambda>_ _. None) notify (fst (snd sample_reconnect)) (snd (snd sample_reconnect))"
  have "sb_fd (sc_sock (fst (snd sample_reconnect))) \<in> opened_fds ss_opened (snd ?s) \<and>
      sb_fd (sc_sock (fst ?s)) \<noteq> sb_fd (sc_sock (fst (snd sample_reconnect)))"
    by (rule reconnect_leaks [OF small_socket_laws, of notify sample_client sample_world])
      (use sample_reconnect_ok in \<open>auto simp: notify_def sample_reconnect_def small_open ss_new_def\<close>)
  then show ?thesis by (simp add: Let_def)
qed

end
