(* ===== verification/Obus_Socket_Server.thy ===== *)
theory Obus_Socket_Server
  imports Obus_Socket
begin

text \<open>
  Server sockets and their peers: the functions of \<open>obus_socket.c\<close> around \<open>obus_socket_server\<close>. The server binds its address, again on a
  timer while the address is not available, and turns every connection into a peer.
\<close>

section \<open>Peers and servers\<close>

text \<open>\<open>sp_at\<close> is the address of the peer.\<close>

record obus_socket_peer =
  sp_at :: addr
  sp_sock :: obus_socket_base
  sp_local :: obus_socket_addr
  sp_peer :: obus_socket_addr
  sp_pid :: int

record obus_socket_server =
  sv_sock :: obus_socket_base
  sv_timer :: obus_timer
  sv_addr :: obus_socket_addr
  sv_peers :: "obus_socket_peer list"
  sv_cb :: nat
  sv_data :: addr

type_synonym ('k, 'z) accept_cb =
  "obus_socket_server \<Rightarrow> obus_socket_peer \<Rightarrow> ('k, 'z) loop_world_scheme \<Rightarrow> obus_socket_server \<times> ('k, 'z) loop_world_scheme"

text \<open>\<open>%d\<close> for any number.\<close>

definition print_int :: "int \<Rightarrow> u8 list" where
  "print_int n = (if n < 0 then 45 # print_nat (nat (- n)) else print_nat (nat n))"

text \<open>
  The name of a peer on a local socket: \<open>snprintf\<close> is given the length that \<open>accept\<close> has stored, not the length of the memory.
\<close>

definition unix_peer_name :: "u8 list \<Rightarrow> int \<Rightarrow> nat \<Rightarrow> u8 list" where
  "unix_peer_name srv_name pid len = snprintf len (srv_name @ chars '' (pid='' @ print_int pid @ chars '')'')"

text \<open>
  The address and the process of a peer whose connection is accepted, from the address and its length that \<open>accept\<close> reports. A server
  without name (no memory for it) is dereferenced.
\<close>

definition peer_identity ::
  "('k, 'y) socket_system_scheme \<Rightarrow> (nat \<Rightarrow> bool) \<Rightarrow> (sa_family \<Rightarrow> u8 list \<Rightarrow> u8 list option) \<Rightarrow> obus_socket_addr \<Rightarrow> int \<Rightarrow> sockaddr \<Rightarrow> nat
    \<Rightarrow> 'k \<Rightarrow> (obus_socket_addr \<times> int) res \<times> 'k" where
  "peer_identity S alloc inet_ntop srv_addr sockfd st len k =
     (if sa_family st = AF_UNIX
      then let st = st\<lparr>sun_path := sun_path (sa_st srv_addr)\<rparr>;
               (pid, k) = obus_socket_peer_get_pid S sockfd k
           in (case sa_name srv_addr of None \<Rightarrow> (Inl FAULT, k)
               | Some name \<Rightarrow>
                   (Inr (\<lparr>sa_name = if alloc (length name + 20) then Some (unix_peer_name name pid len) else None, sa_st = st\<rparr>, pid), k))
      else (Inr (\<lparr>sa_name = Some (obus_socket_addr_to_string inet_ntop \<lparr>sa_name = None, sa_st = st\<rparr>), sa_st = st\<rparr>, 0), k))"

text \<open>The flags of an accepted descriptor.\<close>

definition peer_flags :: "('k, 'y) socket_system_scheme \<Rightarrow> int \<Rightarrow> 'k \<Rightarrow> unit res \<times> 'k" where
  "peer_flags S sockfd k = chk (obus_fd_set_close_on_exec S sockfd k) (\<lambda>_ k. obus_fd_add_flags S sockfd O_NONBLOCK k)"

text \<open>
  The rest of \<open>obus_socket_server_events\<close> behind \<open>accept\<close>: the new peer, or nothing when the connection is closed again. \<open>at\<close> is the
  address of the new peer and \<open>p\<close> of its descriptor object; \<open>at = 0\<close> when \<open>calloc\<close> fails.
\<close>

definition make_peer ::
  "('k, 'y) socket_system_scheme \<Rightarrow> (nat \<Rightarrow> bool) \<Rightarrow> (sa_family \<Rightarrow> u8 list \<Rightarrow> u8 list option) \<Rightarrow> addr \<Rightarrow> addr \<Rightarrow> obus_socket_server
    \<Rightarrow> int \<Rightarrow> sockaddr \<Rightarrow> nat \<Rightarrow> ('k, 'z) loop_world_scheme \<Rightarrow> obus_socket_peer option res \<times> ('k, 'z) loop_world_scheme" where
  "make_peer S alloc inet_ntop at p srv sockfd st len w =
     (let close = (\<lambda>w. (Inr None, snd (syscall (sys_close S sockfd) w)));
          family = sa_family (sa_st (sv_addr srv))
      in case syscall (peer_flags S sockfd) w of (Inl _, w) \<Rightarrow> close w | (Inr _, w) \<Rightarrow>
         case syscall (peer_identity S alloc inet_ntop (sv_addr srv) sockfd st len) w of (Inl e, w) \<Rightarrow> (Inl e, w) | (Inr (peer_addr, pid), w) \<Rightarrow>
         let w = (if is_inet family then snd (syscall (obus_socket_activate_keepalive S sockfd 5 1 2) w) else w) in
         case syscall (sys_getsockname S sockfd (obus_socket_addr_length (obus_socket_addr_init family))) w of (Inl _, w) \<Rightarrow> close w
         | (Inr local, w) \<Rightarrow>
           if at = 0 then close w
           else (case obus_socket_base_init p OBUS_SOCKET_PEER family (loop_of w) w of
                   (Inl e, w) \<Rightarrow> (Inl FAULT, w)
                 | (Inr sock, w) \<Rightarrow>
                     (Inr (Some \<lparr>sp_at = at, sp_sock = sock\<lparr>sb_fd := sockfd\<rparr>,
                                 sp_local = \<lparr>sa_name = Some (obus_socket_addr_to_string inet_ntop \<lparr>sa_name = None, sa_st = local\<rparr>),
                                             sa_st = local\<rparr>,
                                 sp_peer = peer_addr, sp_pid = pid\<rparr>), w)))"

definition obus_socket_server_events ::
  "('k, 'y) socket_system_scheme \<Rightarrow> (nat \<Rightarrow> bool) \<Rightarrow> (sa_family \<Rightarrow> u8 list \<Rightarrow> u8 list option) \<Rightarrow> addr \<Rightarrow> addr \<Rightarrow> ('k, 'z) accept_cb
    \<Rightarrow> u32 \<Rightarrow> obus_socket_server \<Rightarrow> ('k, 'z) loop_world_scheme
    \<Rightarrow> unit res \<times> obus_socket_server \<times> ('k, 'z) loop_world_scheme" where
  "obus_socket_server_events S alloc inet_ntop at p accepted events srv w =
     (if obus_fd_event_error events then (Inr (), srv, snd (obus_loop_remove S (loop_of w) (sb_ofd (sv_sock srv)) w))
      else if \<not> obus_fd_event_read events then (Inr (), srv, w)
      else case syscall (sys_accept S (sb_fd (sv_sock srv)) (obus_socket_addr_length (obus_socket_addr_init (sa_family (sa_st (sv_addr srv)))))) w of
        (Inl _, w) \<Rightarrow> (Inr (), srv, w)
      | (Inr (sockfd, st, len), w) \<Rightarrow>
          case make_peer S alloc inet_ntop at p srv sockfd st len w of
            (Inl e, w) \<Rightarrow> (Inl e, srv, w)
          | (Inr None, w) \<Rightarrow> (Inr (), srv, w)
          | (Inr (Some peer), w) \<Rightarrow>
              let srv = srv\<lparr>sv_peers := sv_peers srv @ [peer]\<rparr>; (srv, w) = accepted srv peer w in (Inr (), srv, w))"

section \<open>Binding\<close>

text \<open>The directories above the path of a local socket, from the top.\<close>

definition socket_dirs :: "u8 list \<Rightarrow> u8 list list" where
  "socket_dirs path =
     (let tmp = snprintf 256 (c_string path);
          tmp = (case strrchr tmp slash of None \<Rightarrow> tmp | Some i \<Rightarrow> take i tmp)
      in if tmp = [] then [] else map (\<lambda>i. take i tmp) (filter (\<lambda>i. tmp ! i = slash) [1..<length tmp]) @ [tmp])"

text \<open>
  \<open>mkdir\<close> for each of them, until one fails that is not there already. The last result is returned as it is, which for a directory that
  exists is -1, that is \<open>-EPERM\<close>; the caller does not look at it.
\<close>

fun make_dirs :: "('k, 'y) socket_system_scheme \<Rightarrow> u8 list list \<Rightarrow> 'k \<Rightarrow> unit res \<times> 'k" where
  "make_dirs S [] k = (Inr (), k)"
| "make_dirs S [d] k =
     (case sys_mkdir S d k of (Inl e, k) \<Rightarrow> (Inl (if e = EEXIST then EPERM else e), k) | (Inr _, k) \<Rightarrow> (Inr (), k))"
| "make_dirs S (d # ds) k =
     (case sys_mkdir S d k of (Inl e, k) \<Rightarrow> if e \<noteq> EEXIST then (Inl e, k) else make_dirs S ds k | (Inr _, k) \<Rightarrow> make_dirs S ds k)"

definition create_unix_socket_dir :: "('k, 'y) socket_system_scheme \<Rightarrow> sockaddr \<Rightarrow> 'k \<Rightarrow> unit res \<times> 'k" where
  "create_unix_socket_dir S un k = (if sun_path un ! 0 \<noteq> slash then (Inr (), k) else make_dirs S (socket_dirs (sun_path un)) k)"

definition is_unix_path :: "sockaddr \<Rightarrow> bool" where
  "is_unix_path st \<longleftrightarrow> sa_family st = AF_UNIX \<and> sun_path st ! 0 \<noteq> 0"

definition close_server ::
  "('k, 'y) socket_system_scheme \<Rightarrow> obus_socket_server \<Rightarrow> ('k, 'z) loop_world_scheme
    \<Rightarrow> obus_socket_server \<times> ('k, 'z) loop_world_scheme" where
  "close_server S srv w =
     (srv\<lparr>sv_sock := (sv_sock srv)\<lparr>sb_fd := -1\<rparr>\<rparr>, snd (syscall (sys_close S (sb_fd (sv_sock srv))) w))"

text \<open>The file of a local socket is removed and its directory made.\<close>

definition clear_unix_path :: "('k, 'y) socket_system_scheme \<Rightarrow> sockaddr \<Rightarrow> ('k, 'z) loop_world_scheme \<Rightarrow> ('k, 'z) loop_world_scheme" where
  "clear_unix_path S st w =
     (if is_unix_path st
      then snd (syscall (create_unix_socket_dir S st) (snd (syscall (sys_unlink S (c_string (sun_path st))) w))) else w)"

text \<open>The label \<open>retry\<close>.\<close>

definition server_retry ::
  "('k, 'y) socket_system_scheme \<Rightarrow> obus_socket_server \<Rightarrow> ('k, 'z) loop_world_scheme
    \<Rightarrow> unit res \<times> obus_socket_server \<times> ('k, 'z) loop_world_scheme" where
  "server_retry S srv w =
     (case close_server S srv w of (srv, w) \<Rightarrow>
      case obus_timer_set S (sv_timer srv) OBUS_SOCKET_CONN_INTVL w of (_, timer, w) \<Rightarrow> (Inr (), srv\<lparr>sv_timer := timer\<rparr>, w))"

definition obus_socket_server_bind ::
  "('k, 'y) socket_system_scheme \<Rightarrow> obus_socket_server \<Rightarrow> ('k, 'z) loop_world_scheme
    \<Rightarrow> unit res \<times> obus_socket_server \<times> ('k, 'z) loop_world_scheme" where
  "obus_socket_server_bind S srv w =
     (case obus_socket_base_open S (sv_sock srv) w of (Inl e, sock, w) \<Rightarrow> (Inl e, srv\<lparr>sv_sock := sock\<rparr>, w) | (Inr _, sock, w) \<Rightarrow>
      let srv = srv\<lparr>sv_sock := sock\<rparr>; st = sa_st (sv_addr srv) in
      case syscall (sys_bind S (sb_fd sock) st (obus_socket_addr_length (sv_addr srv))) (clear_unix_path S st w) of
        (Inl e, w) \<Rightarrow>
          if is_inet (sa_family st) \<and> e = EADDRNOTAVAIL then server_retry S srv w else (Inl e, close_server S srv w)
      | (Inr _, w) \<Rightarrow>
          case syscall (sys_listen S (sb_fd sock) 10) w of (Inl e, w) \<Rightarrow> (Inl e, close_server S srv w) | (Inr _, w) \<Rightarrow>
          case obus_loop_add S (loop_of w) (sb_ofd sock)
                 (set_ofd (sb_ofd sock) (obus_fd_init (sb_fd sock) OBUS_FD_IN server_events_cb 0) w) of
            (Inl e, w) \<Rightarrow> (Inl e, close_server S srv w)
          | (Inr _, w) \<Rightarrow> (Inr (), srv, w))"

definition obus_socket_bind_timer_cb ::
  "('k, 'y) socket_system_scheme \<Rightarrow> obus_socket_server \<Rightarrow> ('k, 'z) loop_world_scheme
    \<Rightarrow> obus_socket_server \<times> ('k, 'z) loop_world_scheme" where
  "obus_socket_bind_timer_cb S srv w =
     (case obus_timer_clear S (sv_timer srv) w of (_, timer, w) \<Rightarrow> snd (obus_socket_server_bind S (srv\<lparr>sv_timer := timer\<rparr>) w))"

section \<open>Life of a server\<close>

definition obus_socket_server_new ::
  "('k, 'y) socket_system_scheme \<Rightarrow> (nat \<Rightarrow> bool) \<Rightarrow> (sa_family \<Rightarrow> u8 list \<Rightarrow> u8 list option) \<Rightarrow> addr \<Rightarrow> addr \<Rightarrow> addr \<Rightarrow> u8 list option
    \<Rightarrow> nat \<Rightarrow> addr \<Rightarrow> ('k, 'z) loop_world_scheme \<Rightarrow> obus_socket_server option res \<times> ('k, 'z) loop_world_scheme" where
  "obus_socket_server_new S alloc inet_pton p pt loop addr cb data w =
     (if loop = 0 \<or> addr = None \<or> cb = 0 then (Inl EINVAL, w)
      else if p = 0 then (Inl ENOMEM, w)
      else case obus_socket_addr_init_from_string alloc inet_pton addr of Inl e \<Rightarrow> (Inl e, w) | Inr a \<Rightarrow>
      case obus_socket_base_init p OBUS_SOCKET_SERVER (sa_family (sa_st a)) loop w of (Inl e, w) \<Rightarrow> (Inl e, w) | (Inr sock, w) \<Rightarrow>
      case obus_timer_new S pt loop bind_timer_cb 0 w of (None, w) \<Rightarrow> (Inr None, obus_socket_base_destroy S sock w) | (Some timer, w) \<Rightarrow>
      case obus_socket_server_bind S \<lparr>sv_sock = sock, sv_timer = timer, sv_addr = a, sv_peers = [], sv_cb = cb, sv_data = data\<rparr> w of
        (Inl e, srv, w) \<Rightarrow> (Inl e, obus_socket_base_destroy S (sv_sock srv) (obus_timer_destroy S (sv_timer srv) w))
      | (Inr _, srv, w) \<Rightarrow> (Inr (Some srv), w))"

definition obus_socket_server_destroy ::
  "('k, 'y) socket_system_scheme \<Rightarrow> obus_socket_server option \<Rightarrow> ('k, 'z) loop_world_scheme \<Rightarrow> unit res \<times> ('k, 'z) loop_world_scheme" where
  "obus_socket_server_destroy S srv w =
     (case srv of None \<Rightarrow> (Inl EINVAL, w)
      | Some srv \<Rightarrow>
          if sv_peers srv \<noteq> [] then (Inl EPERM, w)
          else let w = obus_socket_base_destroy S (sv_sock srv) (obus_timer_destroy S (sv_timer srv) w)
            in (Inr (), if is_unix_path (sa_st (sv_addr srv))
                        then snd (syscall (sys_unlink S (c_string (sun_path (sa_st (sv_addr srv))))) w) else w))"

definition obus_socket_peer_disconnect ::
  "('k, 'y) socket_system_scheme \<Rightarrow> obus_socket_server \<Rightarrow> obus_socket_peer \<Rightarrow> ('k, 'z) loop_world_scheme
    \<Rightarrow> obus_socket_server \<times> ('k, 'z) loop_world_scheme" where
  "obus_socket_peer_disconnect S srv peer w =
     (srv\<lparr>sv_peers := filter (\<lambda>q. sp_at q \<noteq> sp_at peer) (sv_peers srv)\<rparr>, obus_socket_base_destroy S (sp_sock peer) w)"

definition obus_socket_peer_name :: "obus_socket_peer option \<Rightarrow> u8 list option" where
  "obus_socket_peer_name peer = Option.bind peer (\<lambda>p. sa_name (sp_peer p))"

definition obus_socket_peer_fd :: "obus_socket_peer option \<Rightarrow> int res" where
  "obus_socket_peer_fd peer = (case peer of None \<Rightarrow> Inl EINVAL | Some p \<Rightarrow> Inr (sb_fd (sp_sock p)))"

definition obus_socket_peer_pid :: "obus_socket_peer option \<Rightarrow> int" where
  "obus_socket_peer_pid peer = (case peer of None \<Rightarrow> 0 | Some p \<Rightarrow> sp_pid p)"

section \<open>Accepting\<close>

lemma peer_flags_keeps: "socket_laws S opened \<Longrightarrow> keeps_fds opened (peer_flags S fd)"
  unfolding peer_flags_def by (intro keeps_fds_chk fd_laws_keeps(1,3) [OF socket_lawsD(3)])

lemma peer_identity_keeps:
  assumes "socket_laws S opened"
  shows "keeps_fds opened (peer_identity S alloc inet_ntop a fd st len)"
  unfolding keeps_fds_def
proof
  fix k
  obtain r k1 where c: "sys_peercred S fd k = (r, k1)" by fastforce
  have "opened k1 = opened k" using keeps_fdsD [OF socket_lawsD(12) [OF assms, of fd], of k] c by simp
  then show "opened (snd (peer_identity S alloc inet_ntop a fd st len k)) = opened k"
    using c by (cases r; cases "sa_name a") (simp_all add: peer_identity_def obus_socket_peer_get_pid_def)
qed

lemma peer_identity_ok: "sa_name a \<noteq> None \<Longrightarrow> \<not> isl (fst (peer_identity S alloc inet_ntop a fd st len k))"
  by (auto simp: peer_identity_def Let_def split: prod.splits)

lemma make_peer_balanced:
  assumes laws: "socket_laws S opened" and name: "sa_name (sv_addr srv) \<noteq> None" and loop: "loop_of w \<noteq> 0"
    and make: "make_peer S alloc inet_ntop at p srv fd st len w = (r, w')"
  shows "(r = Inr None \<and> opened_fds opened w' = opened_fds opened w - {fd}) \<or>
    (\<exists>peer. r = Inr (Some peer) \<and> sb_fd (sp_sock peer) = fd \<and> sp_at peer = at \<and> opened_fds opened w' = opened_fds opened w)"
proof -
  note shut = syscall_close(1) [OF socket_lawsD(3) [OF laws], of fd]
  let ?family = "sa_family (sa_st (sv_addr srv))"
  obtain r1 w1 where c1: "syscall (peer_flags S fd) w = (r1, w1)" by fastforce
  obtain r2 w2 where c2: "syscall (peer_identity S alloc inet_ntop (sv_addr srv) fd st len) w1 = (r2, w2)" by fastforce
  define w3 where "w3 = (if is_inet ?family then snd (syscall (obus_socket_activate_keepalive S fd 5 1 2) w2) else w2)"
  obtain r4 w4 where c4: "syscall (sys_getsockname S fd (obus_socket_addr_length (obus_socket_addr_init ?family))) w3 = (r4, w4)" by fastforce
  note k1 = syscall_keeps [OF peer_flags_keeps [OF laws] c1] and k2 = syscall_keeps [OF peer_identity_keeps [OF laws] c2]
    and k4 = syscall_keeps [OF socket_lawsD(10) [OF laws] c4]
  have k3: "opened_fds opened w3 = opened_fds opened w2" "lw_loop w3 = lw_loop w2"
    using syscall_keeps [OF keepalive_keeps [OF laws], of fd 5 1 2 w2] by (auto simp: w3_def prod_eq_iff)
  obtain a pid where r2: "r2 = Inr (a, pid)"
    using c2 peer_identity_ok [OF name, of S alloc inet_ntop fd st len "lw_sys w1"] by (cases r2) (auto simp: syscall_def split: prod.splits)
  have o: "opened_fds opened w4 = opened_fds opened w" "loop_of w4 = loop_of w" using k1 k2 k3 k4 by (simp_all add: loop_of_def)
  consider (flags) e where "r1 = Inl e" | (sockname) u e where "r1 = Inr u" "r4 = Inl e" | (memory) u l where "r1 = Inr u" "r4 = Inr l" "at = 0"
    | (peer) u l where "r1 = Inr u" "r4 = Inr l" "at \<noteq> 0"
    by (cases r1; cases r4) auto
  then show ?thesis
  proof cases
    case flags
    then have "r = Inr None" "w' = snd (syscall (sys_close S fd) w1)" using make c1 by (auto simp: make_peer_def Let_def)
    then show ?thesis using shut [of w1] k1 by simp
  next
    case sockname
    then have "r = Inr None" "w' = snd (syscall (sys_close S fd) w4)"
      using make c1 c2 r2 c4 unfolding make_peer_def Let_def by (auto simp flip: w3_def)
    then show ?thesis using shut [of w4] o by simp
  next
    case memory
    then have "r = Inr None" "w' = snd (syscall (sys_close S fd) w4)"
      using make c1 c2 r2 c4 unfolding make_peer_def Let_def by (auto simp flip: w3_def)
    then show ?thesis using shut [of w4] o by simp
  next
    case (peer u l)
    let ?w = "set_ofd p (obus_fd_init (-1) 0 0 0) (obus_loop_ref w4)"
    obtain q where "r = Inr (Some q)" "w' = ?w" "sb_fd (sp_sock q) = fd" "sp_at q = at"
      using peer make c1 c2 r2 c4 o loop unfolding make_peer_def Let_def
      by (auto simp: obus_socket_base_init_def simp flip: w3_def)
    then show ?thesis using o by simp
  qed
qed

text \<open>
  C23. Every connection a server accepts is owned or closed: when its descriptor is readable, \<open>obus_socket_server_events\<close> leaves the peers and
  the open descriptors as they were, whatever call fails, or it hands the callback a server with one more peer at the end of its list,
  whose descriptor was not open before and is the only new one.
\<close>

theorem accepted_owned_or_closed:
  assumes laws: "socket_laws S opened" and name: "sa_name (sv_addr srv) \<noteq> None" and loop: "loop_of w \<noteq> 0"
    and events: "\<not> obus_fd_event_error events" "obus_fd_event_read events"
    and run: "obus_socket_server_events S alloc inet_ntop at p accepted events srv w = (r, srv', w')"
  shows "r = Inr () \<and>
    ((srv' = srv \<and> opened_fds opened w' = opened_fds opened w) \<or>
     (\<exists>peer w1. (srv', w') = accepted (srv\<lparr>sv_peers := sv_peers srv @ [peer]\<rparr>) peer w1 \<and> sb_fd (sp_sock peer) \<notin> opened_fds opened w \<and>
        opened_fds opened w1 = insert (sb_fd (sp_sock peer)) (opened_fds opened w)))"
proof -
  let ?len = "obus_socket_addr_length (obus_socket_addr_init (sa_family (sa_st (sv_addr srv))))"
  obtain ra k where acc: "sys_accept S (sb_fd (sv_sock srv)) ?len (lw_sys w) = (ra, k)" by fastforce
  have o: "case ra of Inl _ \<Rightarrow> opened k = opened (lw_sys w)
      | Inr (new, _) \<Rightarrow> 0 \<le> new \<and> new \<notin> opened (lw_sys w) \<and> opened k = insert new (opened (lw_sys w))"
    using laws acc unfolding socket_laws_def
    by (elim conjE allE [where x = "sb_fd (sv_sock srv)"] allE [where x = ?len] allE [where x = "lw_sys w"]) (auto split: sum.splits)
  show ?thesis
  proof (cases ra)
    case (Inl e)
    then show ?thesis using run events acc o by (auto simp: obus_socket_server_events_def syscall_def opened_fds_def)
  next
    case (Inr x)
    obtain fd st len where x: "x = (fd, st, len)" by (rule prod_cases3)
    obtain rm wm where make: "make_peer S alloc inet_ntop at p srv fd st len (set_sys k w) = (rm, wm)" by fastforce
    have "loop_of (set_sys k w) \<noteq> 0" using loop by (simp add: loop_of_def)
    note made = make_peer_balanced [OF laws name this make]
    have ok: "opened_fds opened (set_sys k w) = insert fd (opened_fds opened w)" "fd \<notin> opened_fds opened w"
      using o Inr x by (simp_all add: opened_fds_def)
    have res: "(r, srv', w') = (case (rm, wm) of (Inl e, w) \<Rightarrow> (Inl e, srv, w) | (Inr None, w) \<Rightarrow> (Inr (), srv, w)
        | (Inr (Some peer), w) \<Rightarrow> let srv = srv\<lparr>sv_peers := sv_peers srv @ [peer]\<rparr>; (srv, w) = accepted srv peer w in (Inr (), srv, w))"
      using run events acc Inr x make by (simp add: obus_socket_server_events_def syscall_def)
    from made show ?thesis
    proof
      assume "rm = Inr None \<and> opened_fds opened wm = opened_fds opened (set_sys k w) - {fd}"
      then show ?thesis using res ok by auto
    next
      assume "\<exists>peer. rm = Inr (Some peer) \<and> sb_fd (sp_sock peer) = fd \<and> sp_at peer = at \<and>
        opened_fds opened wm = opened_fds opened (set_sys k w)"
      then obtain peer where peer: "rm = Inr (Some peer)" "sb_fd (sp_sock peer) = fd" "opened_fds opened wm = insert fd (opened_fds opened w)"
        using ok by auto
      then have "r = Inr ()" "(srv', w') = accepted (srv\<lparr>sv_peers := sv_peers srv @ [peer]\<rparr>) peer wm"
        using res by (auto simp: Let_def split: prod.splits)
      then show ?thesis using peer ok(2) by blast
    qed
  qed
qed

definition sample_listener :: obus_socket_server where
  "sample_listener =
     \<lparr>sv_sock = \<lparr>sb_ofd = 30, sb_fd = 20, sb_type = AF_UNIX, sb_role = OBUS_SOCKET_SERVER\<rparr>,
      sv_timer = \<lparr>tm_ofd = 40, tm_timeout = 0, tm_cb = bind_timer_cb, tm_data = 0\<rparr>,
      sv_addr = (obus_socket_addr_init AF_UNIX)\<lparr>sa_name := Some (chars ''unix:/tmp/bus'')\<rparr>, sv_peers = [], sv_cb = 9, sv_data = 0\<rparr>"

definition sample_accept :: "unit res \<times> obus_socket_server \<times> small_system loop_world" where
  "sample_accept =
     obus_socket_server_events small_socket_system (\<lambda>_. True) (\<lambda>_ _. None) 60 61 (\<lambda>srv _ w. (srv, w)) OBUS_FD_IN sample_listener sample_world"

theorem accepted_owned_or_closed_witness:
  "fst sample_accept = Inr () \<and>
   ((fst (snd sample_accept) = sample_listener \<and> opened_fds ss_opened (snd (snd sample_accept)) = opened_fds ss_opened sample_world) \<or>
    (\<exists>peer w1. snd sample_accept = (sample_listener\<lparr>sv_peers := sv_peers sample_listener @ [peer]\<rparr>, w1) \<and>
       sb_fd (sp_sock peer) \<notin> opened_fds ss_opened sample_world \<and>
       opened_fds ss_opened w1 = insert (sb_fd (sp_sock peer)) (opened_fds ss_opened sample_world)))"
proof -
  have "obus_socket_server_events small_socket_system (\<lambda>_. True) (\<lambda>_ _. None) 60 61 (\<lambda>srv _ w. (srv, w)) OBUS_FD_IN sample_listener sample_world =
      (fst sample_accept, fst (snd sample_accept), snd (snd sample_accept))"
    by (simp add: sample_accept_def)
  note a = accepted_owned_or_closed [OF small_socket_laws _ _ _ _ this]
  show ?thesis
    using a by (simp add: sample_listener_def sample_world_def loop_of_def obus_fd_event_error_def obus_fd_event_read_def fd_flags)
qed

text \<open>
  A client of this library does not bind its local socket, so \<open>accept\<close> reports an address of two bytes, the family, and the name of
  the peer is the first letter of the name of the server.
\<close>

lemma unix_peer_name_cut: "len \<le> length name \<Longrightarrow> unix_peer_name name pid len = take (len - 1) name"
  by (simp add: unix_peer_name_def snprintf_def)

lemma unbound_peer_name: "unix_peer_name (chars ''unix:/tmp/bus'') pid 2 = chars ''u''"
  by (simp add: unix_peer_name_cut chars_def)

section \<open>Binding again\<close>

lemma make_dirs_keeps: "socket_laws S opened \<Longrightarrow> keeps_fds opened (make_dirs S ds)"
proof (induction ds rule: induct_list012)
  case 1
  then show ?case by (simp add: keeps_fds_def)
next
  case (2 d)
  show ?case
    unfolding keeps_fds_def
  proof
    fix k
    obtain r k1 where c: "sys_mkdir S d k = (r, k1)" by fastforce
    then have "opened k1 = opened k" using keeps_fdsD [OF socket_lawsD(14) [OF 2, of d], of k] by simp
    then show "opened (snd (make_dirs S [d] k)) = opened k" using c by (cases r) simp_all
  qed
next
  case (3 d e ds)
  show ?case
    unfolding keeps_fds_def
  proof
    fix k
    obtain r k1 where c: "sys_mkdir S d k = (r, k1)" by fastforce
    have "opened k1 = opened k" using keeps_fdsD [OF socket_lawsD(14) [OF 3(3), of d], of k] c by simp
    moreover have "opened (snd (make_dirs S (e # ds) k1)) = opened k1" by (rule keeps_fdsD [OF 3(2) [OF 3(3)]])
    ultimately show "opened (snd (make_dirs S (d # e # ds) k)) = opened k" using c by (cases r) simp_all
  qed
qed

lemma create_dir_keeps: "socket_laws S opened \<Longrightarrow> keeps_fds opened (create_unix_socket_dir S st)"
  using make_dirs_keeps [of S opened "socket_dirs (sun_path st)"] by (simp add: create_unix_socket_dir_def keeps_fds_def)

lemma clear_unix_path_frame:
  assumes "socket_laws S opened"
  shows "opened_fds opened (clear_unix_path S st w) = opened_fds opened w \<and> lw_loop (clear_unix_path S st w) = lw_loop w"
proof -
  obtain ru wu where u: "syscall (sys_unlink S (c_string (sun_path st))) w = (ru, wu)" by fastforce
  obtain rd wd where d: "syscall (create_unix_socket_dir S st) wu = (rd, wd)" by fastforce
  show ?thesis
    using syscall_keeps [OF socket_lawsD(13) [OF assms] u] syscall_keeps [OF create_dir_keeps [OF assms] d] u d
    by (simp add: clear_unix_path_def)
qed

lemma close_server_frame:
  assumes "socket_laws S opened" "close_server S srv w = (srv', w')"
  shows "opened_fds opened w' = opened_fds opened w - {sb_fd (sv_sock srv)} \<and> sb_fd (sv_sock srv') = -1 \<and> sv_timer srv' = sv_timer srv \<and>
    lw_loop w' = lw_loop w"
proof -
  have eq: "srv' = srv\<lparr>sv_sock := (sv_sock srv)\<lparr>sb_fd := -1\<rparr>\<rparr>" "w' = snd (syscall (sys_close S (sb_fd (sv_sock srv))) w)"
    using assms(2) by (simp_all add: close_server_def)
  show ?thesis unfolding eq using syscall_close [OF socket_lawsD(3) [OF assms(1)], of "sb_fd (sv_sock srv)" w] by simp
qed

text \<open>What a call of \<open>obus_socket_server_bind\<close> may leave behind.\<close>

definition bind_outcome ::
  "('k \<Rightarrow> int set) \<Rightarrow> obus_socket_server \<Rightarrow> ('k, 'z) loop_world_scheme \<Rightarrow> unit res \<Rightarrow> obus_socket_server \<Rightarrow> ('k, 'z) loop_world_scheme \<Rightarrow> bool" where
  "bind_outcome opened srv w r srv' w' \<longleftrightarrow>
     (case r of
        Inl _ \<Rightarrow> opened_fds opened w' = opened_fds opened w \<and> sb_fd (sv_sock srv') = -1 \<and> loop_registered w' = loop_registered w
      | Inr _ \<Rightarrow>
          (sb_ofd (sv_sock srv) \<in> loop_registered w' \<and> sb_fd (sv_sock srv') \<in> opened_fds opened w' - opened_fds opened w) \<or>
          (is_inet (sa_family (sa_st (sv_addr srv))) \<and> opened_fds opened w' = opened_fds opened w \<and> sb_fd (sv_sock srv') = -1 \<and>
             loop_registered w' = loop_registered w \<and> tm_timeout (sv_timer srv') = OBUS_SOCKET_CONN_INTVL))"

lemma server_retry_outcome:
  assumes laws: "socket_laws S opened" and timer: "\<forall>fd t k. \<not> isl (fst (sys_timerfd_settime S fd t k))"
    and o: "opened_fds opened w1 = insert (sb_fd (sv_sock srv1)) (opened_fds opened w)" "lw_loop w1 = lw_loop w"
      "sb_fd (sv_sock srv1) \<notin> opened_fds opened w"
    and same: "is_inet (sa_family (sa_st (sv_addr srv)))" and run: "(r, srv', w') = server_retry S srv1 w1"
  shows "bind_outcome opened srv w r srv' w'"
proof -
  obtain s1 w2 where c: "close_server S srv1 w1 = (s1, w2)" by fastforce
  obtain rt t w3 where set: "obus_timer_set S (sv_timer s1) OBUS_SOCKET_CONN_INTVL w2 = (rt, t, w3)" by (rule prod_cases3)
  obtain rs k where st: "sys_timerfd_settime S (ofd_fd (lw_ofd w2 (tm_ofd (sv_timer s1)))) (it_value OBUS_SOCKET_CONN_INTVL) (lw_sys w2) = (rs, k)"
    by fastforce
  have "\<not> isl (fst (rs, k))" unfolding st [symmetric] using timer by blast
  then have "\<not> isl rt" using set st by (cases rs) (auto simp: obus_timer_set_def syscall_def)
  then show ?thesis
    using run c set close_server_frame [OF laws c] timer_set_frame [OF laws set] o same
    by (auto simp: server_retry_def bind_outcome_def loop_registered_def)
qed

text \<open>
  Binding a server: when \<open>obus_socket_server_bind\<close> fails, no descriptor stays open and nothing is registered; when it returns 0, the
  server is listening with its new descriptor registered, or its internet address is not available yet, everything is closed
  and the timer is set to try again.
\<close>

theorem server_bind_outcome:
  assumes laws: "socket_laws S opened" and timer: "\<forall>fd t k. \<not> isl (fst (sys_timerfd_settime S fd t k))"
    and fd: "sb_fd (sv_sock srv) = -1" and run: "obus_socket_server_bind S srv w = (r, srv', w')"
  shows "bind_outcome opened srv w r srv' w'"
  using laws
proof (cases rule: base_open_cases [where sock = "sv_sock srv" and w = w])
  case (err e w1)
  then show ?thesis using run fd by (auto simp: obus_socket_server_bind_def bind_outcome_def loop_registered_def)
next
  case (ok n w1)
  let ?srv = "srv\<lparr>sv_sock := (sv_sock srv)\<lparr>sb_fd := n\<rparr>\<rparr>" and ?st = "sa_st (sv_addr srv)" and ?p = "sb_ofd (sv_sock srv)"
  define w2 where "w2 = clear_unix_path S ?st w1"
  have w2: "opened_fds opened w2 = insert n (opened_fds opened w)" "lw_loop w2 = lw_loop w"
    using clear_unix_path_frame [OF laws, of ?st w1] ok by (simp_all add: w2_def)
  obtain rb wb where b: "syscall (sys_bind S n ?st (obus_socket_addr_length (sv_addr srv))) w2 = (rb, wb)" by fastforce
  obtain rl wl where l: "syscall (sys_listen S n 10) wb = (rl, wl)" by fastforce
  note kb = syscall_keeps [OF socket_lawsD(7) [OF laws] b] and kl = syscall_keeps [OF socket_lawsD(8) [OF laws] l]
  let ?w = "set_ofd ?p (obus_fd_init n OBUS_FD_IN server_events_cb 0) wl"
  obtain ra wa where add: "obus_loop_add S (loop_of wl) ?p ?w = (ra, wa)" by fastforce
  note added = loop_add_opened [OF socket_lawsD(2) [OF laws] _ add, simplified, unfolded obus_fd_init_def, simplified]
  have fail: "bind_outcome opened srv w (Inl e) (fst (close_server S ?srv wx)) (snd (close_server S ?srv wx))"
    if "opened_fds opened wx = insert n (opened_fds opened w)" "lw_loop wx = lw_loop w" for e wx
    using close_server_frame [OF laws, of ?srv wx] that ok(3) by (auto simp: bind_outcome_def loop_registered_def prod_eq_iff)
  have eq: "(r, srv', w') = (case rb of
      Inl e \<Rightarrow> if is_inet (sa_family ?st) \<and> e = EADDRNOTAVAIL then server_retry S ?srv wb else (Inl e, close_server S ?srv wb)
    | Inr _ \<Rightarrow> (case rl of Inl e \<Rightarrow> (Inl e, close_server S ?srv wl)
        | Inr _ \<Rightarrow> (case ra of Inl e \<Rightarrow> (Inl e, close_server S ?srv wa) | Inr _ \<Rightarrow> (Inr (), ?srv, wa))))"
    using run ok b l add 
    by (cases rb; cases rl; cases ra) (auto simp: obus_socket_server_bind_def Let_def w2_def split: if_splits)
  consider (again) "rb = Inl EADDRNOTAVAIL" "is_inet (sa_family ?st)"
    | (bind) e where "rb = Inl e" "\<not> (is_inet (sa_family ?st) \<and> e = EADDRNOTAVAIL)"
    | (listen) u e where "rb = Inr u" "rl = Inl e" | (watch) u v e where "rb = Inr u" "rl = Inr v" "ra = Inl e"
    | (up) u v x where "rb = Inr u" "rl = Inr v" "ra = Inr x"
    by (cases rb; cases rl; cases ra) auto
  then show ?thesis
  proof cases
    case again
    show ?thesis
      by (rule server_retry_outcome [OF laws timer, where ?w1.0 = wb and ?srv1.0 = ?srv]) (use eq again kb w2 ok in simp_all)
  next
    case (bind e)
    then have "(r, srv', w') = (Inl e, close_server S ?srv wb)" using eq by (simp only: sum.case if_False)
    then show ?thesis using fail [of wb e] kb w2 by (cases "close_server S ?srv wb") simp
  next
    case (listen u e)
    then show ?thesis using eq fail [of wl e] kb kl w2 by (cases "close_server S ?srv wl") simp
  next
    case (watch u v e)
    then show ?thesis using eq fail [of wa e] kb kl w2 added by (cases "close_server S ?srv wa") simp
  next
    case (up u v x)
    then show ?thesis using eq kb kl w2 added ok by (auto simp: bind_outcome_def)
  qed
qed

definition closed_server :: obus_socket_server where
  "closed_server = sample_listener\<lparr>sv_sock := (sv_sock sample_listener)\<lparr>sb_fd := -1\<rparr>\<rparr>"

definition sample_bind :: "unit res \<times> obus_socket_server \<times> small_system loop_world" where
  "sample_bind = obus_socket_server_bind small_socket_system closed_server sample_world"

theorem server_bind_outcome_witness:
  "bind_outcome ss_opened closed_server sample_world (fst sample_bind) (fst (snd sample_bind)) (snd (snd sample_bind))"
proof (rule server_bind_outcome [OF small_socket_laws])
  show "\<forall>fd t k. \<not> isl (fst (sys_timerfd_settime small_socket_system fd t k))" using small_reliable unfolding reliable_def by blast
qed (simp_all add: closed_server_def sample_bind_def)

text \<open>
  When the timer cannot be made, both functions that make a socket return 0 and no socket.
\<close>

lemma new_without_timer:
  assumes "obus_socket_addr_init_from_string alloc inet_pton addr = Inr a" "loop \<noteq> 0" "cb \<noteq> 0" "p \<noteq> 0" "addr \<noteq> None"
    "fst (obus_timer_new S pt loop connect_timer_cb 0 (set_ofd p (obus_fd_init (-1) 0 0 0) (obus_loop_ref w))) = None"
    "fst (obus_timer_new S pt loop bind_timer_cb 0 (set_ofd p (obus_fd_init (-1) 0 0 0) (obus_loop_ref w))) = None"
  shows "fst (obus_socket_client_new S alloc inet_pton p pt loop addr cb data w) = Inr None \<and>
    fst (obus_socket_server_new S alloc inet_pton p pt loop addr cb data w) = Inr None"
  using assms by (auto simp: obus_socket_client_new_def obus_socket_server_new_def obus_socket_base_init_def split: prod.splits option.splits)

end
