(* ===== verification/Obus_Entry.thy ===== *)
theory Obus_Entry
  imports Obus_Loop_Posix Obus_Socket_Server
begin

text \<open>
  The functions of \<open>obus_client.c\<close> and \<open>obus_server.c\<close> that hand the event loop of a client or server to its user: its descriptor, one
  turn of the loop, and for the loop on \<open>poll\<close> its descriptors and the handling of one of them. The argument is the world of the loop,
  \<open>None\<close> when the client or server is NULL.
\<close>

definition obus_client_fd :: "('k, 'z) loop_world_scheme option \<Rightarrow> int" where
  "obus_client_fd client = (case client of None \<Rightarrow> -1 | Some w \<Rightarrow> obus_loop_fd (Some (lw_loop w)))"

definition obus_client_process_fd ::
  "('k, 'y) loop_system_scheme \<Rightarrow> (nat \<Rightarrow> addr \<Rightarrow> u32 \<Rightarrow> ('k, 'z) loop_world_scheme \<Rightarrow> ('k, 'z) loop_world_scheme)
    \<Rightarrow> ('k, 'z) loop_world_scheme option \<Rightarrow> (unit res \<times> ('k, 'z) loop_world_scheme option) option" where
  "obus_client_process_fd S call client =
     (case client of None \<Rightarrow> Some (Inl EINVAL, None) | Some w \<Rightarrow> map_option (\<lambda>(r, w). (r, Some w)) (obus_loop_process S call w))"

definition obus_client_posix_get_fd_count :: "('k, 'z) posix_world_scheme option \<Rightarrow> int res" where
  "obus_client_posix_get_fd_count client =
     (case client of None \<Rightarrow> Inl EINVAL | Some w \<Rightarrow> obus_loop_posix_get_fd_count (Some (pw_loop w)))"

definition obus_client_posix_get_fds :: "('k, 'z) posix_world_scheme option \<Rightarrow> int \<Rightarrow> pollfd list res" where
  "obus_client_posix_get_fds client n = (case client of None \<Rightarrow> Inl EINVAL | Some w \<Rightarrow> obus_loop_posix_get_fds w n)"

definition obus_client_posix_process_fd ::
  "(nat \<Rightarrow> addr \<Rightarrow> u32 \<Rightarrow> ('k, 'z) posix_world_scheme \<Rightarrow> ('k, 'z) posix_world_scheme) \<Rightarrow> pollfd
    \<Rightarrow> ('k, 'z) posix_world_scheme option \<Rightarrow> unit res \<times> ('k, 'z) posix_world_scheme option" where
  "obus_client_posix_process_fd call pfd client =
     (case client of None \<Rightarrow> (Inl EINVAL, None) | Some w \<Rightarrow> map_prod id Some (obus_loop_posix_process_fd call pfd w))"

definition obus_server_fd :: "('k, 'z) loop_world_scheme option \<Rightarrow> int" where
  "obus_server_fd srv = (case srv of None \<Rightarrow> -1 | Some w \<Rightarrow> obus_loop_fd (Some (lw_loop w)))"

definition obus_server_process_fd ::
  "('k, 'y) loop_system_scheme \<Rightarrow> (nat \<Rightarrow> addr \<Rightarrow> u32 \<Rightarrow> ('k, 'z) loop_world_scheme \<Rightarrow> ('k, 'z) loop_world_scheme)
    \<Rightarrow> ('k, 'z) loop_world_scheme option \<Rightarrow> (unit res \<times> ('k, 'z) loop_world_scheme option) option" where
  "obus_server_process_fd S call srv =
     (case srv of None \<Rightarrow> Some (Inl EINVAL, None) | Some w \<Rightarrow> map_option (\<lambda>(r, w). (r, Some w)) (obus_loop_process S call w))"

definition obus_server_posix_get_fd_count :: "('k, 'z) posix_world_scheme option \<Rightarrow> int res" where
  "obus_server_posix_get_fd_count srv =
     (case srv of None \<Rightarrow> Inl EINVAL | Some w \<Rightarrow> obus_loop_posix_get_fd_count (Some (pw_loop w)))"

definition obus_server_posix_get_fds :: "('k, 'z) posix_world_scheme option \<Rightarrow> int \<Rightarrow> pollfd list res" where
  "obus_server_posix_get_fds srv n = (case srv of None \<Rightarrow> Inl EINVAL | Some w \<Rightarrow> obus_loop_posix_get_fds w n)"

definition obus_server_posix_process_fd ::
  "(nat \<Rightarrow> addr \<Rightarrow> u32 \<Rightarrow> ('k, 'z) posix_world_scheme \<Rightarrow> ('k, 'z) posix_world_scheme) \<Rightarrow> pollfd
    \<Rightarrow> ('k, 'z) posix_world_scheme option \<Rightarrow> unit res \<times> ('k, 'z) posix_world_scheme option" where
  "obus_server_posix_process_fd call pfd srv =
     (case srv of None \<Rightarrow> (Inl EINVAL, None) | Some w \<Rightarrow> map_prod id Some (obus_loop_posix_process_fd call pfd w))"

definition obus_peer_get_address :: "obus_socket_peer option option \<Rightarrow> u8 list option" where
  "obus_peer_get_address peer = (case peer of None \<Rightarrow> None | Some sk \<Rightarrow> obus_socket_peer_name sk)"

text \<open>
  A user that polls itself gets as many descriptors as the count says, each of them registered, and handling one of them calls the
  object that is registered under it.
\<close>

lemma own_poll:
  assumes inv: "posix_inv w" and count: "obus_server_posix_get_fd_count (Some w) = Inr n" and n: "n \<noteq> 0"
  obtains pfds where "obus_server_posix_get_fds (Some w) n = Inr pfds" "int (length pfds) = n"
    "\<And>fd ev rev. (fd, ev, rev) \<in> set pfds \<Longrightarrow> \<exists>p. p \<in> posix_registered w \<and> hash_map (pl_ofds (pw_loop w)) (key_of fd) = Some p"
proof -
  let ?h = "pl_ofds (pw_loop w)"
  have h: "plain_hash ?h" and len: "n = int (length (entries ?h))"
    using inv count by (simp_all add: posix_inv_def Let_def obus_server_posix_get_fd_count_def obus_loop_posix_get_fd_count_def)
  have ok: "hash_ok ?h" using h by (simp add: plain_hash_def)
  let ?pfds = "map (\<lambda>e. (sint (ekey e), fd_to_poll_events (ofd_events (pw_ofd w (edata e))), 0 :: u16)) (entries ?h)"
  have "obus_server_posix_get_fds (Some w) n = Inr ?pfds"
    using n len by (simp add: obus_server_posix_get_fds_def obus_loop_posix_get_fds_def)
  moreover have "\<exists>p. p \<in> posix_registered w \<and> hash_map ?h (key_of fd) = Some p" if mem: "(fd, ev, rev) \<in> set ?pfds" for fd ev rev
  proof -
    obtain e where e: "e \<in> set (entries ?h)" "fd = sint (ekey e)" using mem by auto
    have "find_key (entries ?h) (ekey e) = Some e" using ok e(1) by (simp add: hash_ok_def find_key_Some)
    moreover have "key_of fd = ekey e" by (simp add: key_of_def e(2))
    ultimately have "hash_map ?h (key_of fd) = Some (edata e)" by (simp add: hash_map_def hash_entry_def)
    then show ?thesis by (auto simp: posix_registered_def ran_def)
  qed
  ultimately show thesis using that [of ?pfds] len by simp
qed

end
