(* ===== verification/Obus_Log.thy ===== *)
theory Obus_Log
  imports Obus_Utils
begin

text \<open>
  The log: \<open>obus_log.c\<close>. A message goes to a callback; the default one writes a line to the standard error. \<open>obus_log_raw\<close> prints
  bytes in lines of sixteen, built in place in an array of 68 characters.
\<close>

section \<open>Messages\<close>

definition log_levels :: "u8 list" where
  "log_levels = chars ''CEWNID''"

definition log_colors :: "u8 list list" where
  "log_colors = map (\<lambda>s. 27 # chars s) [''[31m'', ''[31m'', ''[33m'', ''[34m'', ''[32m'', ''[36m'']"

definition LOG_SIZE :: nat where "LOG_SIZE = 512"

text \<open>
  The default callback, for a message that is already formatted, on what it keeps: whether colours are used, asked of the environment with
  the first message, and what was written. The message is cut to the buffer and gets a newline at the end if there is room; a level beyond
  the last is the last.
\<close>

record stderr_state =
  use_colors :: "bool option"
  written :: "u8 list"

definition obus_log_stderr :: "environment \<Rightarrow> nat \<Rightarrow> u8 list \<Rightarrow> stderr_state \<Rightarrow> stderr_state" where
  "obus_log_stderr getenv level msg w =
     (let level = min level 5;
          colors = (case use_colors w of None \<Rightarrow> obus_check_env getenv (Some (chars ''OBUS_LOG_COLOR'')) (Some (chars ''1'')) | Some c \<Rightarrow> c);
          buffer = take (LOG_SIZE - 1) msg;
          buffer = (if buffer \<noteq> [] \<and> length buffer + 1 < LOG_SIZE \<and> last buffer \<noteq> 10 then buffer @ [10] else buffer);
          line = chars ''['' @ [log_levels ! level] @ chars '']: '' @ buffer;
          line = (if colors then log_colors ! level @ line @ 27 # chars ''[m'' else line)
      in \<lparr>use_colors = Some colors, written = written w @ line\<rparr>)"

text \<open>The callback in use, if any, and what it works on.\<close>

record 'w log_state =
  g_cb :: "(nat \<Rightarrow> u8 list \<Rightarrow> 'w \<Rightarrow> 'w) option"
  world :: 'w

definition obus_log_set_cb :: "(nat \<Rightarrow> u8 list \<Rightarrow> 'w \<Rightarrow> 'w) option \<Rightarrow> 'w log_state \<Rightarrow> int \<times> 'w log_state" where
  "obus_log_set_cb cb s = (0, s\<lparr>g_cb := cb\<rparr>)"

definition obus_log :: "nat \<Rightarrow> u8 list option \<Rightarrow> 'w log_state \<Rightarrow> 'w log_state" where
  "obus_log level fmt s =
     (case (fmt, g_cb s) of (Some m, Some cb) \<Rightarrow> s\<lparr>world := cb level m (world s)\<rparr> | _ \<Rightarrow> s)"

section \<open>Bytes\<close>

definition hexdigits :: "u8 list" where
  "hexdigits = chars ''0123456789ABCDEF''"

definition isprint :: "u8 \<Rightarrow> bool" where
  "isprint c \<longleftrightarrow> 32 \<le> c \<and> c < 127"

definition hi_digit :: "u8 \<Rightarrow> u8" where "hi_digit b = hexdigits ! unat (drop_bit 4 b)"
definition lo_digit :: "u8 \<Rightarrow> u8" where "lo_digit b = hexdigits ! unat (b AND 0xf)"
definition shown :: "u8 \<Rightarrow> u8" where "shown b = (if isprint b then b else 46)"

text \<open>One byte at position \<open>i\<close> of the line; the separator and the end; the blanks behind the last byte.\<close>

definition put_byte :: "u8 list \<Rightarrow> nat \<Rightarrow> u8 \<Rightarrow> u8 list" where
  "put_byte str i b = str[i * 3 := hi_digit b, i * 3 + 1 := lo_digit b, i * 3 + 2 := 32, i + 51 := shown b]"

definition put_end :: "u8 list \<Rightarrow> u8 list" where
  "put_end str = str[48 := 32, 49 := 124, 50 := 32, 67 := 0]"

function put_blanks :: "u8 list \<Rightarrow> nat \<Rightarrow> u8 list" where
  "put_blanks str p =
     (if p < 16 then put_blanks (str[p * 3 := 32, p * 3 + 1 := 32, p * 3 + 2 := 32, p + 51 := 32]) (p + 1) else str)"
  by pat_completeness auto
termination
  by (relation "measure (\<lambda>(str, p). 16 - p)") auto

declare put_blanks.simps [simp del]

text \<open>The walk over the bytes, with the array and the count.\<close>

fun raw_bytes :: "nat \<Rightarrow> u8 list \<Rightarrow> nat \<Rightarrow> u8 list \<Rightarrow> 'w log_state \<Rightarrow> u8 list \<times> nat \<times> 'w log_state" where
  "raw_bytes level str n [] s = (str, n, s)"
| "raw_bytes level str n (b # bs) s =
     (let str = put_byte str (n mod 16) b in
      if (n + 1) mod 16 = 0
      then let str = put_end str in raw_bytes level str (n + 1) bs (obus_log level (Some (c_string str)) s)
      else raw_bytes level str (n + 1) bs s)"

text \<open>\<open>str\<close> is what the array on the stack holds.\<close>

definition obus_log_raw :: "u8 list \<Rightarrow> nat \<Rightarrow> u8 list option \<Rightarrow> u8 list option \<Rightarrow> 'w log_state \<Rightarrow> 'w log_state" where
  "obus_log_raw str level buffer fmt s =
     (case (buffer, fmt, g_cb s) of
        (Some bs, Some m, Some cb) \<Rightarrow>
          (case raw_bytes level str 0 bs (s\<lparr>world := cb level m (world s)\<rparr>) of (str, n, s) \<Rightarrow>
           if 0 < n mod 16 then obus_log level (Some (c_string (put_end (put_blanks str (n mod 16))))) s else s)
      | _ \<Rightarrow> s)"

section \<open>The reference\<close>

definition hex_line :: "u8 list \<Rightarrow> u8 list" where
  "hex_line bs =
     concat (map (\<lambda>b. [hi_digit b, lo_digit b, 32]) bs) @ replicate (3 * (16 - length bs)) 32 @ [32, 124, 32] @
     map shown bs @ replicate (16 - length bs) 32"

function chunks :: "u8 list \<Rightarrow> u8 list list" where
  "chunks bs = (if bs = [] then [] else take 16 bs # chunks (drop 16 bs))"
  by pat_completeness auto
termination
  by (relation "measure length") auto

declare chunks.simps [simp del]

text \<open>The cells of a line: the two digits, the blank and the character of each byte; \<open>filled\<close> says that the first ones are in the array.\<close>

type_synonym line_cell = "u8 \<times> u8 \<times> u8 \<times> u8"

definition digits :: "line_cell \<Rightarrow> u8 list" where
  "digits c = (case c of (a, b, d, _) \<Rightarrow> [a, b, d])"

definition glyph :: "line_cell \<Rightarrow> u8" where
  "glyph c = (case c of (_, _, _, g) \<Rightarrow> g)"

definition put_cell :: "u8 list \<Rightarrow> nat \<Rightarrow> line_cell \<Rightarrow> u8 list" where
  "put_cell str i c = (case c of (a, b, d, g) \<Rightarrow> str[i * 3 := a, i * 3 + 1 := b, i * 3 + 2 := d, i + 51 := g])"

definition byte_cell :: "u8 \<Rightarrow> line_cell" where
  "byte_cell b = (hi_digit b, lo_digit b, 32, shown b)"

definition blank_cell :: line_cell where
  "blank_cell = (32, 32, 32, 32)"

definition filled :: "u8 list \<Rightarrow> line_cell list \<Rightarrow> bool" where
  "filled str cs \<longleftrightarrow> length str = 68 \<and> length cs \<le> 16 \<and> take (3 * length cs) str = concat (map digits cs) \<and>
     take (length cs) (drop 51 str) = map glyph cs"

lemma put_cells: "put_byte str i b = put_cell str i (byte_cell b)"
  "p < 16 \<Longrightarrow> put_blanks str p = put_blanks (put_cell str p blank_cell) (p + 1)" "\<not> p < 16 \<Longrightarrow> put_blanks str p = str"
  by (simp_all add: put_byte_def put_cell_def byte_cell_def blank_cell_def put_blanks.simps [of str p])

lemma put_cell_filled:
  assumes "filled str cs" "length cs < 16"
  shows "filled (put_cell str (length cs) c) (cs @ [c])"
proof -
  obtain a b d g where c: "c = (a, b, d, g)" by (cases c) auto
  let ?k = "length cs" and ?s = "put_cell str (length cs) c"
  have len: "length str = 68" "length ?s = 68" using assms by (simp_all add: filled_def put_cell_def c)
  have k: "3 * ?k + 2 < 51" using assms(2) by simp
  have pre: "take (3 * ?k) ?s = take (3 * ?k) str"
    using k by (simp add: put_cell_def c mult.commute [of ?k] take_update_swap list_update_beyond)
  have at: "?s ! (3 * ?k) = a" "?s ! (3 * ?k + 1) = b" "?s ! (3 * ?k + 2) = d" "?s ! (51 + ?k) = g"
    using len(1) k by (simp_all add: put_cell_def c nth_list_update mult.commute [of ?k])
  have "take (3 + 3 * ?k) ?s = take (3 * ?k) ?s @ [?s ! (3 * ?k), ?s ! (3 * ?k + 1), ?s ! (3 * ?k + 2)]"
    using len(2) k by (simp add: take_Suc_conv_app_nth numeral_3_eq_3)
  then have digits: "take (3 * length (cs @ [c])) ?s = concat (map digits (cs @ [c]))"
    using assms(1) pre at by (simp add: filled_def digits_def c)
  have "drop 51 ?s = (drop 51 str)[?k := g]"
    using k len(1) by (simp add: put_cell_def c drop_update_swap drop_update_cancel)
  then have "take (?k + 1) (drop 51 ?s) = take ?k (drop 51 str) @ [g]"
    using len(1) assms(2) by (simp add: take_Suc_conv_app_nth)
  then show ?thesis using digits assms len by (simp add: filled_def glyph_def c)
qed

lemma length_three: "length xs = 3 \<Longrightarrow> \<exists>x y z. xs = [x, y, z]"
  by (auto simp: length_Suc_conv numeral_3_eq_3)

lemma length_one: "length xs = 1 \<Longrightarrow> \<exists>x. xs = [x]"
  by (auto simp: length_Suc_conv)

lemma filled_line:
  assumes "filled str cs" "length cs = 16" "0 \<notin> set (concat (map digits cs))" "0 \<notin> glyph ` set cs"
  shows "c_string (put_end str) = concat (map digits cs) @ [32, 124, 32] @ map glyph cs"
proof -
  let ?a = "concat (map digits cs)" and ?g = "map glyph cs"
  have f: "length str = 68" "take 48 str = ?a" "take 16 (drop 51 str) = ?g" using assms(1,2) by (simp_all add: filled_def)
  obtain x y z u where "str = take 48 str @ [x, y, z] @ take 16 (drop 51 str) @ [u]"
  proof -
    have d: "drop 51 str = take 16 (drop 51 str) @ drop 67 str" using append_take_drop_id [of 16 "drop 51 str"] by simp
    have "drop 48 str = take 3 (drop 48 str) @ drop 51 str" using append_take_drop_id [of 3 "drop 48 str"] by simp
    then have "drop 48 str = take 3 (drop 48 str) @ take 16 (drop 51 str) @ drop 67 str" using d by simp
    then have 1: "str = take 48 str @ take 3 (drop 48 str) @ take 16 (drop 51 str) @ drop 67 str"
      using append_take_drop_id [of 48 str] by simp
    have "length (take 3 (drop 48 str)) = 3" "length (drop 67 str) = 1" using f(1) by simp_all
    then obtain x y z u where "take 3 (drop 48 str) = [x, y, z]" "drop 67 str = [u]"
      using length_three length_one by blast
    then show thesis using that 1 by metis
  qed
  then have str: "str = ?a @ [x, y, z] @ ?g @ [u]" using f by simp
  have len: "length ?a = 48" "length ?g = 16" using f(1,2) assms(2) by (simp_all flip: f(2))
  have "put_end str = ?a @ [32, 124, 32] @ ?g @ [0]"
    using len by (subst str) (simp add: put_end_def list_update_append)
  moreover have "takeWhile (\<lambda>c. c \<noteq> 0) ((?a @ [32, 124, 32] @ ?g) @ [0]) = ?a @ [32, 124, 32] @ ?g"
    by (subst takeWhile_append2) (use assms(3,4) in auto)
  ultimately show ?thesis by (simp add: c_string_def)
qed

lemma put_blanks_filled:
  "\<lbrakk>filled str cs; length cs + m = 16\<rbrakk> \<Longrightarrow> filled (put_blanks str (length cs)) (cs @ replicate m blank_cell)"
proof (induction m arbitrary: str cs)
  case 0
  then show ?case by (simp add: put_cells)
next
  case (Suc m)
  then have "filled (put_blanks (put_cell str (length cs) blank_cell) (length (cs @ [blank_cell]))) ((cs @ [blank_cell]) @ replicate m blank_cell)"
    by (intro Suc.IH put_cell_filled) auto
  then show ?case using Suc.prems by (simp add: put_cells)
qed

lemma hexdigit_not_0: "n < 16 \<Longrightarrow> hexdigits ! n \<noteq> 0"
proof -
  assume "n < 16"
  then have "n \<in> set [0..<16]" by simp
  moreover have "\<forall>n\<in>set [0..<16]. hexdigits ! n \<noteq> 0" by code_simp
  ultimately show ?thesis by blast
qed

lemma nibbles: "unat (drop_bit 4 (b :: u8)) < 16" "unat (b AND 0xf) < 16"
proof -
  have "unat b < 256" using unsigned_less [of b, where ?'a = nat] by simp
  then show "unat (drop_bit 4 b) < 16" by (simp add: drop_bit_eq_div unat_div)
  have "b AND 0xf \<le> 0xf" by (rule word_and_le1)
  then show "unat (b AND 0xf) < 16" by (simp add: word_le_nat_alt)
qed

lemma line_cell_not_0: "0 \<notin> set (digits (byte_cell b))" "glyph (byte_cell b) \<noteq> 0" "0 \<notin> set (digits blank_cell)" "glyph blank_cell \<noteq> 0"
  using hexdigit_not_0 [OF nibbles(1) [of b]] hexdigit_not_0 [OF nibbles(2) [of b]]
  by (auto simp: digits_def glyph_def byte_cell_def blank_cell_def hi_digit_def lo_digit_def shown_def isprint_def)

lemma hex_line_cells:
  assumes "length bs + m = 16"
  shows "hex_line bs = concat (map digits (map byte_cell bs @ replicate m blank_cell)) @ [32, 124, 32] @
    map glyph (map byte_cell bs @ replicate m blank_cell)"
proof -
  have "replicate (3 * m) 32 = concat (replicate m (digits blank_cell))"
    by (induction m) (simp_all add: digits_def blank_cell_def numeral_3_eq_3)
  moreover have "16 - length bs = m" using assms by simp
  ultimately show ?thesis
    by (simp add: hex_line_def digits_def glyph_def byte_cell_def blank_cell_def comp_def)
qed

lemma line_is_hex_line:
  assumes "filled str (map byte_cell bs)" "length bs + m = 16"
  shows "c_string (put_end (put_blanks str (length bs))) = hex_line bs"
proof -
  have "filled (put_blanks str (length bs)) (map byte_cell bs @ replicate m blank_cell)"
    using put_blanks_filled [OF assms(1), of m] assms(2) by simp
  from filled_line [OF this] show ?thesis
    using assms(2) line_cell_not_0 by (fastforce simp: hex_line_cells [OF assms(2)])
qed

definition logs :: "nat \<Rightarrow> u8 list list \<Rightarrow> 'w log_state \<Rightarrow> 'w log_state" where
  "logs level = fold (\<lambda>l. obus_log level (Some l))"

definition finish :: "nat \<Rightarrow> u8 list \<times> nat \<times> 'w log_state \<Rightarrow> 'w log_state" where
  "finish level r = (case r of (str, n, s) \<Rightarrow>
     if 0 < n mod 16 then obus_log level (Some (c_string (put_end (put_blanks str (n mod 16))))) s else s)"

lemma chunks_short: "chunks [] = []" "\<lbrakk>bs \<noteq> []; length bs \<le> 16\<rbrakk> \<Longrightarrow> chunks bs = [bs]"
  "length bs = 16 \<Longrightarrow> chunks (bs @ cs) = bs # chunks cs"
  by (auto simp: chunks.simps [of bs] chunks.simps [of "bs @ cs"] chunks.simps [of "[]"])

lemma raw_bytes_hex_lines:
  "\<lbrakk>filled str (map byte_cell cs); length cs = n mod 16\<rbrakk> \<Longrightarrow>
   finish level (raw_bytes level str n bs s) = logs level (map hex_line (chunks (cs @ bs))) s"
proof (induction bs arbitrary: cs str n s)
  case Nil
  show ?case
  proof (cases "cs = []")
    case False
    obtain m where "length cs + m = 16" using Nil.prems(2) by (metis le_add_diff_inverse less_imp_le mod_less_divisor zero_less_numeral)
    moreover have "0 < n mod 16" using Nil.prems(2) False by (metis length_greater_0_conv)
    ultimately show ?thesis using Nil.prems False line_is_hex_line [OF Nil.prems(1)]
      by (simp add: finish_def logs_def chunks_short)
  qed (use Nil in \<open>simp add: finish_def logs_def chunks_short\<close>)
next
  case (Cons b bs)
  have k: "length cs < 16" using Cons.prems(2) by simp
  define str' where "str' = put_byte str (n mod 16) b"
  have f: "filled str' (map byte_cell (cs @ [b]))"
    using put_cell_filled [OF Cons.prems(1), of "byte_cell b"] k Cons.prems(2) by (simp add: put_cells str'_def)
  show ?case
  proof (cases "(n + 1) mod 16 = 0")
    case True
    then have c: "length (cs @ [b]) = 16" using Cons.prems(2) k by (simp add: mod_Suc split: if_splits)
    then have line: "c_string (put_end str') = hex_line (cs @ [b])"
      using line_is_hex_line [OF f, of 0] by (simp add: put_cells)
    have "filled (put_end str') (map byte_cell [])" using f by (simp add: filled_def put_end_def)
    from Cons.IH [OF this, of "n + 1"] show ?thesis
      using True c chunks_short(3) [OF c, of bs] by (simp add: line str'_def [symmetric] Let_def logs_def)
  next
    case False
    then have "length (cs @ [b]) = (n + 1) mod 16" using Cons.prems(2) by (simp add: mod_Suc split: if_splits)
    from Cons.IH [OF f this] show ?thesis using False by (simp add: str'_def [symmetric] Let_def)
  qed
qed

text \<open>
  C36. Whatever the array on the stack holds, \<open>obus_log_raw\<close> gives the callback the message and then the bytes in lines of sixteen, each line
  with all bytes in hexadecimal, blanks up to the column of the bar, and the characters; every byte is in exactly one line, and no other line
  is logged.
\<close>

theorem log_raw_lines:
  assumes "length str = 68" "g_cb s = Some cb"
  shows "obus_log_raw str level (Some bs) (Some m) s = s\<lparr>world := fold (cb level) (m # map hex_line (chunks bs)) (world s)\<rparr> \<and>
    concat (chunks bs) = bs"
proof -
  have logs: "logs level ls s' = s'\<lparr>world := fold (cb level) ls (world s')\<rparr>" if "g_cb s' = Some cb" for ls and s' :: "'a log_state"
    using that by (induction ls arbitrary: s') (simp_all add: logs_def obus_log_def)
  have "filled str (map byte_cell [])" using assms(1) by (simp add: filled_def)
  from raw_bytes_hex_lines [OF this, of 0 level bs "s\<lparr>world := cb level m (world s)\<rparr>"]
  have "obus_log_raw str level (Some bs) (Some m) s = s\<lparr>world := fold (cb level) (m # map hex_line (chunks bs)) (world s)\<rparr>"
    using assms(2) by (simp add: obus_log_raw_def finish_def logs)
  moreover have "concat (chunks bs) = bs"
    by (induction bs rule: chunks.induct) (subst chunks.simps, simp)
  ultimately show ?thesis by blast
qed

theorem log_raw_lines_witness:
  "obus_log_raw (replicate 68 7) 2 
     (Some [60, 61, 62, 63, 64, 65, 66, 67, 68, 69, 70, 71, 72, 73, 74, 75, 76, 77, 78, 79]) (Some (chars ''bytes'')) \<lparr>g_cb = Some (\<lambda>l m w. w @ [m]), world = []\<rparr> =
   \<lparr>g_cb = Some (\<lambda>l m w. w @ [m]), world =
     [chars ''bytes'', chars ''3C 3D 3E 3F 40 41 42 43 44 45 46 47 48 49 4A 4B  | <=>?@ABCDEFGHIJK'',
      chars ''4C 4D 4E 4F                                      | LMNO            '']\<rparr>"
proof -
  have "map hex_line (chunks [60, 61, 62, 63, 64, 65, 66, 67, 68, 69, 70, 71, 72, 73, 74, 75, 76, 77, 78, 79]) =
     [chars ''3C 3D 3E 3F 40 41 42 43 44 45 46 47 48 49 4A 4B  | <=>?@ABCDEFGHIJK'',
      chars ''4C 4D 4E 4F                                      | LMNO            '']"
    by code_simp
  then show ?thesis by (subst conjunct1 [OF log_raw_lines [where cb = "\<lambda>l m w. w @ [m]"]]) simp_all
qed

end
