(* ===== verification/Spec2Isabelle.thy ===== *)
theory Spec2Isabelle
  imports Obus_Codec Obus_List Obus_Hash Obus_Desc Obus_Field Obus_Struct Obus_Api Obus_Object Obus_Bus
    Obus_Event Obus_Bus_Event Obus_Io Obus_Packet Obus_Encode Obus_Decode Obus_Client Obus_Client_Link
    Obus_Server Obus_Peers Obus_Serve Obus_Admit Obus_Server_Run Obus_Utils Obus_Loop Obus_Loop_Posix Obus_Timer
    Obus_Address Obus_Socket Obus_Socket_Server Obus_Entry Obus_Log
begin

text \<open>
  Verification of libobus, the object bus library under \<open>src/src/libobus/src\<close>.

  \<^bold>\<open>The program.\<close> A server owns objects; each has a structure of typed fields and methods.
  Clients connect over a socket, get a copy of every object, and then events (updates of fields),
  new objects and removals, alone or bundled in bus events; they call methods and get
  acknowledgements. Everything travels as packets: a header (magic word, size, type) and a payload
  encoded into a buffer. The parts, from the bottom:

  \<^item> \<open>obus_buffer.h\<close>: byte buffers with a write offset and a read position, reference counts and a
    pool; \<open>obus_list.h\<close>: intrusive doubly linked lists; \<open>obus_hash.c\<close>: chained hash tables.
  \<^item> \<open>obus_struct_desc.h\<close>, \<open>obus_field.c\<close>, \<open>obus_struct.c\<close>: descriptions of structures, the typed
    fields and their encoding, structures with a bit per field that says whether it is set.
  \<^item> \<open>obus_bus_api.c\<close>: tables of the descriptions of a bus; \<open>obus_object.c\<close>, \<open>obus_call.c\<close>,
    \<open>obus_event.c\<close>, \<open>obus_bus_event.c\<close>: what lives on a bus; \<open>obus_bus.c\<close>: the bus itself.
  \<^item> \<open>obus_packet.c\<close>: encoders and the decoder that finds packets in a stream; \<open>obus_io.c\<close>:
    non-blocking reads and the queue of writes.
  \<^item> \<open>obus_loop.c\<close> or \<open>obus_loop_posix.c\<close>: the event loop, on \<open>epoll\<close> or on \<open>poll\<close>; \<open>obus_timer.c\<close> or \<open>obus_timer_posix.c\<close>: timers in
    such a loop; \<open>obus_socket.c\<close>: sockets that listen or connect, with retries; \<open>obus_utils.c\<close>, \<open>obus_log.c\<close>: small services.
  \<^item> \<open>obus_client.c\<close>, \<open>obus_server.c\<close>: the state machines above all this.

  \<^bold>\<open>The theories.\<close> Each has its data, its operations under the names of the code, and its lemmas.

  \<^item> \<open>Obus_Prelude\<close>: machine words, error codes (\<open>FAULT\<close> is not one of the code's: it stands for the
    use of memory that is not there), results, \<open>size_t\<close> arithmetic with its wrap-around, allocation
    (a parameter \<open>memory\<close> says which requests succeed and what fresh memory holds), big-endian bytes.
  \<^item> \<open>Obus_Buffer\<close> (\<open>obus_buffer.h\<close>): every operation keeps the block and the offsets consistent;
    appends append exactly their image or change nothing. \<open>Obus_Codec\<close>: the locale \<open>wire\<close> of a
    writer and a reader that fit, interpreted on the primitive types; round trips of sequences.
  \<^item> \<open>Obus_List\<close> (\<open>obus_list.h\<close>): linked nodes in a store, with poisoned pointers after a deletion,
    implement sequences; walks end. The theories above use lists of addresses for them.
  \<^item> \<open>Obus_Hash\<close> (\<open>obus_hash.c\<close>): the table implements an association list; interpretations of the
    locale of tables carry this to the bus and its descriptions.
  \<^item> \<open>Obus_Desc\<close>, \<open>Obus_Field\<close>, \<open>Obus_Struct\<close>: encoding and decoding of values, fields and
    structures, including fields the receiver does not know or knows with another type, copies,
    merges and destruction.
  \<^item> \<open>Obus_Api\<close>, \<open>Obus_Object\<close>, \<open>Obus_Bus\<close> (also the life of calls), \<open>Obus_Event\<close> (also the encoding
    of calls), \<open>Obus_Bus_Event\<close>: lookups return what was declared; frames are consumed exactly,
    whatever they hold; round trips; the invariant of the bus over every sequence of operations;
    aborting calls and clearing a bus. Objects, calls, events and bus events are in stores by
    address, so that sharing and dangling references are visible.
  \<^item> \<open>Obus_Io\<close>: the bytes of the packets leave in the order of the writes. \<open>Obus_Packet\<close>: what an
    encoder makes comes out of the decoder at the other end, however the stream is cut into pieces
    and after whatever noise, and sequences of packets come out in order. \<open>Obus_Encode\<close> and \<open>Obus_Decode\<close>: encoders and
    decoders stay inside their buffers, whatever they are given; the decoders of all layers are covered by the locale \<open>reading\<close>
    of relations that the primitive reads establish, which is interpreted twice.
  \<^item> \<open>Obus_Client\<close> (\<open>obus_client.c\<close>): the client connects, gets objects, loses them when the connection is lost,
    and learns of each call's outcome once. \<open>Obus_Client_Link\<close>: its io, decoder and socket always agree with its state; the packets of a
    stream are handled in order; what becomes of a call.
  \<^item> \<open>Obus_Server\<close> (\<open>obus_server.c\<close>): state and operations of the server. \<open>Obus_Peers\<close>: the ios of all peers share
    the buffers, and the references always suffice; a broadcast reaches every connected peer and nobody else. \<open>Obus_Serve\<close>:
    registering objects, bus events and calls, with the locale \<open>server_relation\<close> of relations that all small steps establish.
    \<open>Obus_Admit\<close>: who is connected. \<open>Obus_Server_Run\<close>: the invariant of the server over every sequence of events.
  \<^item> \<open>Obus_Utils\<close> (\<open>obus_utils.c\<close>): flags and copies of descriptors, the environment, random handles; the search of a bus name in a
    variable is that of an element of a list. \<open>Obus_Fd\<close> (\<open>obus_loop.h\<close>): the events of a descriptor.
  \<^item> \<open>Obus_Loop\<close> (\<open>obus_loop.c\<close>): the locale \<open>event_loop\<close> of a loop in which objects are registered and removed, its interpretation on the
    loop on \<open>epoll\<close>; a turn of the loop is safe although callbacks may change it, and serves every ready object if they do not.
    \<open>Obus_Loop_Posix\<close> (\<open>obus_loop_posix.c\<close>): the same locale on the loop on \<open>poll\<close>, with the hash table of \<open>Obus_Hash\<close>; both agree.
  \<^item> \<open>Obus_Timer\<close> (\<open>obus_timer.c\<close>, \<open>obus_timer_posix.c\<close>): the time that is set; creation is all or nothing.
  \<^item> \<open>Obus_Address\<close>, \<open>Obus_Socket\<close>, \<open>Obus_Socket_Server\<close> (\<open>obus_socket.c\<close>): reading and printing addresses; the connecting socket always
    has something that will wake it; the listening socket closes or hands over what it accepts. \<open>Obus_Entry\<close>: the functions of client
    and server that hand the loop to the user.
  \<^item> \<open>Obus_Log\<close> (\<open>obus_log.c\<close>): messages, and the lines of raw bytes against a reference.

  \<^bold>\<open>Composition.\<close> The encoders of packets are composed of those of calls, events and bus events,
  these of those of structures and fields, these of those of primitive values, as in the code. The
  properties of the packet layer are about the whole path: a call or bus event of one side's bus,
  encoded into a buffer, its bytes delivered in pieces, and decoded into the other side's bus. Client and server are composed of
  these layers as in the code: their handlers call the decoder, the bus, the encoders and the io. Sockets and timers are composed with
  the loop on \<open>epoll\<close>: they work on its world, which holds the descriptor objects, the loop and the state of the system. The theories of
  client and server take from the sockets only whether there is one and what its descriptor does.

  \<^bold>\<open>Bounds, loops.\<close> Integers have their width; sizes are numbers with the wrap-around of
  \<open>size_t\<close> written out. Requests of \<open>PTRDIFF_MAX\<close> bytes or more fail, as the manual of \<open>malloc\<close>
  says; hypotheses \<open>enough\<close> say how much memory an operation needs. Loops are structural
  recursions or have a termination proof, but for the loop of the packet decoder, the one over
  pending writes, the search for a name in a list of buses and the repetition of system calls that were interrupted, which may run forever
  and are partial functions; that they return is proved where it holds (\<open>settles\<close> says that a call is not interrupted for ever), and that
  the decoder does not where it does not. The search for an unused handle
  draws from a given sequence of random numbers.

  \<^bold>\<open>What the environment does\<close> is a parameter: allocation, the random numbers, the results of
  \<open>read\<close> and \<open>write\<close> on a descriptor, whether sockets, timers and the event loop can be created, the callbacks of the application
  (\<open>client_env\<close>, \<open>server_env\<close>; a callback is a function of the whole client or server). Hypotheses on a callback are named:
  \<open>cb_ok\<close> for the io; \<open>looking\<close> for the client; for the server \<open>mild\<close> and \<open>quiet\<close> (a callback for peers leaves connections and
  bus alone, but may refuse a connection) and \<open>orderly\<close> (a method leaves a server that is in order in order). The system calls of loops,
  timers and sockets are fields of records (\<open>fd_system\<close>, \<open>loop_system\<close>, \<open>poll_system\<close>, \<open>timer_system\<close>, \<open>ptimer_system\<close>, \<open>socket_system\<close>) on a
  state of the system that is arbitrary. What their manuals say is stated on two views of it, the open descriptors and the interest list of
  \<open>epoll\<close>: \<open>fd_laws\<close>, \<open>epoll_laws\<close>, \<open>wait_laws\<close>, \<open>timer_laws\<close>, \<open>ptimer_laws\<close>, \<open>socket_laws\<close>. A small system, \<open>small_system\<close>, that computes
  satisfies them and is what the witnesses run on. \<open>reliable\<close> says that opening a socket, setting a timer and registering do not fail.

  \<^bold>\<open>Defects.\<close> Theorems whose names speak of faults, hanging or loss show where the code goes
  wrong: a duplicate removal, a header of size zero, a reset in the middle of a packet, a failed
  write of a queued packet, clearing a bus with unregistered objects, a truncated array of strings,
  reading 64 bits at the end of a buffer, the removal of an unknown object, a connection request without a name, changing the events of a
  registered object, a reconnection that loses a descriptor, an internet address with errors that is accepted.

  \<^bold>\<open>Not modelled.\<close> The generator of the descriptions (Python); examples and the ports to other languages, which are generated or
  use the library from outside. The messages the library logs about itself are left out everywhere; they do not change any state. The
  memory that failed decoders leak is not tracked, nor is that of names and of the records of sockets. Signals are not interleaved with
  other code: the handler of a timer is a step of its own.
\<close>

end
